(* ===== verification/Prelude.thy ===== *)
theory Prelude
  imports Main "HOL-Library.Word" "HOL-Library.Signed_Division"
begin

text \<open>
  Shared vocabulary of the development: the machine integer types of the C
  sources, the collections of rewrite rules that the component theories fill,
  and generic facts on words and lists.
\<close>

unbundle bit_operations_syntax

type_synonym u8 = "8 word"
type_synonym u16 = "16 word"
type_synonym u32 = "32 word"
type_synonym u64 = "64 word"

named_theorems wbit_simps \<open>which bits an update of the word array leaves set\<close>
named_theorems frame_simps \<open>fields that an operation does not change\<close>

subsection \<open>Words\<close>

lemma bit_word64_bound [simp]: "64 \<le> k \<Longrightarrow> \<not> bit (w :: u64) k"
  using bit_imp_le_length [of w k] by auto

lemma bit_pow2_u64 [simp]: "bit (2 ^ n :: u64) k \<longleftrightarrow> k = n \<and> n < 64"
  by (auto simp: bit_simps)

lemma bit_pow2_minus_one_u64 [simp]: "n < 64 \<Longrightarrow> bit (2 ^ n - 1 :: u64) k \<longleftrightarrow> k < n"
  by (auto simp: bit_mask_iff simp flip: mask_eq_exp_minus_1)

lemma bit_255_int [simp]: "bit (255 :: int) k \<longleftrightarrow> k < 8"
proof -
  have eq: "(255 :: int) = mask 8" by (simp add: mask_eq_exp_minus_1)
  show ?thesis by (subst eq, subst bit_mask_iff) auto
qed

lemma word64_eqI: "(\<And>k. k < 64 \<Longrightarrow> bit x k = bit y k) \<Longrightarrow> (x :: u64) = y"
  by (auto intro: bit_word_eqI)

lemma word64_zero_iff: "(w :: u64) = 0 \<longleftrightarrow> (\<forall>k < 64. \<not> bit w k)"
  using word64_eqI [of w 0] by auto

lemma word64_max_iff: "(w :: u64) = - 1 \<longleftrightarrow> (\<forall>k < 64. bit w k)"
  using word64_eqI [of w "- 1"] by auto

subsection \<open>Lists as sequences of 64-bit words\<close>

text \<open>Bit \<open>i\<close> of an array of 64-bit words, least significant bit of a word first.\<close>

definition wbit :: "u64 list \<Rightarrow> nat \<Rightarrow> bool" where
  "wbit ws i \<longleftrightarrow> i < 64 * length ws \<and> bit (ws ! (i div 64)) (i mod 64)"

lemma div64_less: "i < 64 * n \<Longrightarrow> i div 64 < (n :: nat)"
  by (simp add: less_mult_imp_div_less mult.commute)

lemma div64_div8: "i div 64 = i div 8 div (8 :: nat)"
  by (simp add: div_mult2_eq [symmetric])

lemma mod64_div8: "i mod 64 div 8 = i div 8 mod (8 :: nat)"
  using mod_mult2_eq [of i 8 8] by simp

lemma nonneg_mult8: "0 \<le> x \<Longrightarrow> x mod 8 = 0 \<Longrightarrow> \<exists>p. x = 8 * int p"
  by (rule exI [of _ "nat (x div 8)"]) auto

lemma round_up64: "(i + 63) div 64 = (if i mod 64 = 0 then i div 64 else i div 64 + (1 :: nat))"
proof (cases "i mod 64 = 0")
  case True
  have "(i + 63) div 64 = i div 64"
  proof (rule div_nat_eqI)
    show "64 * (i div 64) \<le> i + 63" using mult_div_mod_eq [of 64 i] by linarith
    show "i + 63 < 64 * Suc (i div 64)" using True mult_div_mod_eq [of 64 i] unfolding mult_Suc_right by linarith
  qed
  then show ?thesis using True by simp
next
  case False
  have "(i + 63) div 64 = i div 64 + 1"
  proof (rule div_nat_eqI)
    show "64 * (i div 64 + 1) \<le> i + 63"
      using False mult_div_mod_eq [of 64 i] unfolding add_mult_distrib2 by linarith
    show "i + 63 < 64 * Suc (i div 64 + 1)"
      using mult_div_mod_eq [of 64 i] mod_less_divisor [of 64 i]
      unfolding mult_Suc_right add_mult_distrib2 by linarith
  qed
  then show ?thesis using False by simp
qed

lemma same_div64: "i div 64 = k div 64 \<Longrightarrow> i mod 64 = k mod 64 \<longleftrightarrow> i = (k :: nat)"
  by (metis div_mult_mod_eq)

lemma div64_eq_bound: "i div 64 = k div 64 \<Longrightarrow> k < 64 * n \<Longrightarrow> i < 64 * (n :: nat)"
  by (metis div64_less less_mult_imp_div_less mult.commute div_less_iff_less_mult zero_less_numeral)

lemma word_list_eqI:
  assumes "length ws = length ws'" and "\<And>i. i < 64 * length ws \<Longrightarrow> wbit ws i = wbit ws' i"
  shows "ws = ws'"
proof (rule nth_equalityI [OF assms(1)])
  fix j assume j: "j < length ws"
  show "ws ! j = ws' ! j"
  proof (rule word64_eqI)
    fix k :: nat assume k: "k < 64"
    from j k have "64 * j + k < 64 * length ws" by simp
    with assms(2) [OF this] k assms(1) show "bit (ws ! j) k = bit (ws' ! j) k"
      by (simp add: wbit_def)
  qed
qed

lemma wbit_update [wbit_simps]:
  "j < length ws \<Longrightarrow>
    wbit (ws[j := w]) i = (if i div 64 = j then bit w (i mod 64) else wbit ws i)"
  by (auto simp: wbit_def nth_list_update div64_less)

lemma wbit_same_word:
  "i div 64 = k div 64 \<Longrightarrow> k < 64 * length ws \<Longrightarrow> wbit ws i \<longleftrightarrow> bit (ws ! (k div 64)) (i mod 64)"
  by (auto simp: wbit_def div64_eq_bound)

lemma wbit_replicate_0 [simp]: "\<not> wbit (replicate n 0) i"
  by (auto simp: wbit_def div64_less)

lemma wbit_bound: "wbit ws i \<Longrightarrow> i < 64 * length ws"
  by (simp add: wbit_def)

subsection \<open>Reference searches\<close>

text \<open>
  The specification of every linear search of the sources: the first position
  of \<open>[lo..<n]\<close> with \<open>P\<close>, or the last position of \<open>[0..<n]\<close> with \<open>P\<close>, as the
  C functions return it, that is with \<open>-1\<close> for none.
\<close>

definition first_from :: "(nat \<Rightarrow> bool) \<Rightarrow> nat \<Rightarrow> nat \<Rightarrow> int" where
  "first_from P lo n = (case List.find P [lo..<n] of None \<Rightarrow> - 1 | Some i \<Rightarrow> int i)"

definition last_below :: "(nat \<Rightarrow> bool) \<Rightarrow> nat \<Rightarrow> int" where
  "last_below P n = (case List.find P (rev [0..<n]) of None \<Rightarrow> - 1 | Some i \<Rightarrow> int i)"

lemma first_from_step:
  "first_from P lo n = (if lo < n then if P lo then int lo else first_from P (Suc lo) n else - 1)"
  by (simp add: first_from_def upt_conv_Cons)

lemma first_from_none: "(\<And>i. lo \<le> i \<Longrightarrow> i < n \<Longrightarrow> \<not> P i) \<Longrightarrow> first_from P lo n = - 1"
  using find_None_iff [of P "[lo..<n]"] by (auto simp: first_from_def split: option.split)

lemma first_from_skip:
  assumes "lo \<le> m" and "\<And>i. lo \<le> i \<Longrightarrow> i < m \<Longrightarrow> i < n \<Longrightarrow> \<not> P i"
  shows "first_from P lo n = first_from P m n"
  using assms
proof (induction "m - lo" arbitrary: lo)
  case 0
  then show ?case by simp
next
  case (Suc d)
  have "first_from P (Suc lo) n = first_from P m n"
    using Suc.hyps(2) Suc.prems by (intro Suc.hyps(1)) auto
  moreover have "m \<le> n \<or> n \<le> m" by linarith
  ultimately show ?case
    using Suc.hyps(2) Suc.prems(2) [of lo] first_from_step [of P lo n] first_from_none [of m n P]
    by (cases "lo < n") auto
qed

lemma first_fromI:
  assumes "lo \<le> r" "r < n" "P r" and "\<And>i. lo \<le> i \<Longrightarrow> i < r \<Longrightarrow> \<not> P i"
  shows "first_from P lo n = int r"
  using first_from_skip [of lo r n P] first_from_step [of P r n] assms by auto

lemma first_from_cong:
  "(\<And>i. lo \<le> i \<Longrightarrow> i < n \<Longrightarrow> P i = Q i) \<Longrightarrow> first_from P lo n = first_from Q lo n"
  by (auto simp: first_from_def intro!: arg_cong [of _ _ "case_option _ _"] find_cong)

lemma first_from_cases:
  obtains "first_from P lo n = - 1" "\<And>i. lo \<le> i \<Longrightarrow> i < n \<Longrightarrow> \<not> P i"
  | r where "first_from P lo n = int r" "lo \<le> r" "r < n" "P r" "\<And>i. lo \<le> i \<Longrightarrow> i < r \<Longrightarrow> \<not> P i"
proof (cases "\<exists>i. lo \<le> i \<and> i < n \<and> P i")
  case True
  define r where "r = (LEAST i. lo \<le> i \<and> i < n \<and> P i)"
  have r: "lo \<le> r \<and> r < n \<and> P r" unfolding r_def using True by (rule LeastI_ex)
  have "\<not> P i" if "lo \<le> i" "i < r" for i
    using not_less_Least [of i "\<lambda>i. lo \<le> i \<and> i < n \<and> P i"] that r unfolding r_def by auto
  then show ?thesis using that(2) [of r] r first_fromI [of lo r n P] by blast
next
  case False
  then show ?thesis using that(1) first_from_none [of lo n P] by blast
qed

lemma last_below_step:
  "last_below P (Suc n) = (if P n then int n else last_below P n)"
  by (simp add: last_below_def)

lemma last_below_0 [simp]: "last_below P 0 = - 1"
  by (simp add: last_below_def)

lemma last_below_none: "(\<And>i. i < n \<Longrightarrow> \<not> P i) \<Longrightarrow> last_below P n = - 1"
  by (induction n) (auto simp: last_below_step)

lemma last_below_skip: "m \<le> n \<Longrightarrow> (\<And>i. m \<le> i \<Longrightarrow> i < n \<Longrightarrow> \<not> P i) \<Longrightarrow> last_below P n = last_below P m"
  by (induction n) (auto simp: last_below_step le_Suc_eq)

lemma last_belowI: "r < n \<Longrightarrow> P r \<Longrightarrow> (\<And>i. r < i \<Longrightarrow> i < n \<Longrightarrow> \<not> P i) \<Longrightarrow> last_below P n = int r"
  using last_below_skip [of "Suc r" n P] by (auto simp: last_below_step)

lemma last_below_cases:
  obtains "last_below P n = - 1" "\<And>i. i < n \<Longrightarrow> \<not> P i"
  | r where "last_below P n = int r" "r < n" "P r" "\<And>i. r < i \<Longrightarrow> i < n \<Longrightarrow> \<not> P i"
proof (induction n)
  case 0
  then show ?case by simp
next
  case (Suc n)
  show ?case
  proof (cases "P n")
    case True
    then show ?thesis using Suc.prems(2) [of n] by (simp add: last_below_step)
  next
    case False
    note eq = last_below_step [of P n]
    show ?thesis
    proof (rule Suc.IH)
      assume "last_below P n = - 1" "\<And>i. i < n \<Longrightarrow> \<not> P i"
      then show ?thesis using Suc.prems(1) False eq by (auto simp: less_Suc_eq)
    next
      fix r assume "last_below P n = int r" "r < n" "P r" "\<And>i. r < i \<Longrightarrow> i < n \<Longrightarrow> \<not> P i"
      then show ?thesis using Suc.prems(2) [of r] False eq by (auto simp: less_Suc_eq)
    qed
  qed
qed

end
