(* ===== verification/Bitstring.thy ===== *)
theory Bitstring
  imports Prelude
begin

text \<open>
  The bit string type of \<^verbatim>\<open>src/common/bitstring.c\<close>: allocation, single bit
  access and range updates.
\<close>

definition BITSTR_MAGIC :: u64 where
  "BITSTR_MAGIC = 0x42434445"

record bitstr =
  bs_magic :: u64
  bs_bits :: nat
  bs_words :: "u64 list"

definition bit_word_of :: "nat \<Rightarrow> nat" where
  "bit_word_of i = i div 64"

definition bit_mask_of :: "nat \<Rightarrow> u64" where
  "bit_mask_of i = push_bit (i mod 64) 1"

definition bit_nmask :: "nat \<Rightarrow> u64" where
  "bit_nmask n = push_bit (n mod 64) 1 - 1"

definition bitstr_words :: "nat \<Rightarrow> nat" where
  "bitstr_words nbits = (nbits + 63) div 64"

definition bit_alloc :: "nat \<Rightarrow> bitstr" where
  "bit_alloc nbits =
     \<lparr>bs_magic = BITSTR_MAGIC, bs_bits = nbits, bs_words = replicate (bitstr_words nbits) 0\<rparr>"

definition bit_size :: "bitstr \<Rightarrow> nat" where
  "bit_size b = bs_bits b"

definition bit_test :: "bitstr \<Rightarrow> nat \<Rightarrow> bool" where
  "bit_test b i \<longleftrightarrow> bs_words b ! bit_word_of i AND bit_mask_of i \<noteq> 0"

definition bit_set :: "bitstr \<Rightarrow> nat \<Rightarrow> bitstr" where
  "bit_set b i =
     b\<lparr>bs_words := (bs_words b)[bit_word_of i := bs_words b ! bit_word_of i OR bit_mask_of i]\<rparr>"

definition bit_clear :: "bitstr \<Rightarrow> nat \<Rightarrow> bitstr" where
  "bit_clear b i =
     b\<lparr>bs_words := (bs_words b)[bit_word_of i := bs_words b ! bit_word_of i AND NOT (bit_mask_of i)]\<rparr>"

definition slurm_bit_realloc :: "bitstr \<Rightarrow> nat \<Rightarrow> bitstr" where
  "slurm_bit_realloc b nbits =
     b\<lparr>bs_words := take (bitstr_words nbits) (bs_words b)
                    @ replicate (bitstr_words nbits - length (bs_words b)) 0,
       bs_bits := nbits\<rparr>"

text \<open>
  The range updates. Both walk to a byte boundary from below, then from above,
  and fill the whole bytes between with \<^verbatim>\<open>memset\<close>. Byte \<open>a\<close> of the
  little-endian word array holds the bits \<open>8 * a\<close> to \<open>8 * a + 7\<close>.
\<close>

definition set_byte :: "u64 \<Rightarrow> nat \<Rightarrow> u8 \<Rightarrow> u64" where
  "set_byte w j v = (w AND NOT (push_bit (8 * j) 0xff)) OR push_bit (8 * j) (ucast v)"

fun memset_bytes :: "u64 list \<Rightarrow> nat \<Rightarrow> u8 \<Rightarrow> nat \<Rightarrow> u64 list" where
  "memset_bytes ws a v 0 = ws"
| "memset_bytes ws a v (Suc n) =
     memset_bytes (ws[a div 8 := set_byte (ws ! (a div 8)) (a mod 8) v]) (Suc a) v n"

function range_head :: "(bitstr \<Rightarrow> nat \<Rightarrow> bitstr) \<Rightarrow> bitstr \<Rightarrow> int \<Rightarrow> int \<Rightarrow> bitstr \<times> int" where
  "range_head f b start stop =
     (if start \<le> stop \<and> start mod 8 > 0
      then range_head f (f b (nat start)) (start + 1) stop
      else (b, start))"
  by pat_completeness auto
termination
  by (relation "measure (\<lambda>(f, b, start, stop). nat (stop + 1 - start))") auto

function range_tail :: "(bitstr \<Rightarrow> nat \<Rightarrow> bitstr) \<Rightarrow> bitstr \<Rightarrow> int \<Rightarrow> int \<Rightarrow> bitstr \<times> int" where
  "range_tail f b start stop =
     (if stop \<ge> start \<and> (stop + 1) mod 8 > 0
      then range_tail f (f b (nat stop)) start (stop - 1)
      else (b, stop))"
  by pat_completeness auto
termination
  by (relation "measure (\<lambda>(f, b, start, stop). nat (stop + 1 - start))") auto

declare range_head.simps [simp del] range_tail.simps [simp del]

definition bit_nrange :: "(bitstr \<Rightarrow> nat \<Rightarrow> bitstr) \<Rightarrow> u8 \<Rightarrow> bitstr \<Rightarrow> nat \<Rightarrow> nat \<Rightarrow> bitstr" where
  "bit_nrange f v b start stop =
     (let (b1, start1) = range_head f b (int start) (int stop);
          (b2, stop1) = range_tail f b1 start1 (int stop)
      in if stop1 > start1
         then b2\<lparr>bs_words := memset_bytes (bs_words b2) (nat start1 div 8) v
                               (nat (stop1 - start1 + 1) div 8)\<rparr>
         else b2)"

definition bit_nset :: "bitstr \<Rightarrow> nat \<Rightarrow> nat \<Rightarrow> bitstr" where
  "bit_nset b start stop = bit_nrange bit_set 0xff b start stop"

definition bit_nclear :: "bitstr \<Rightarrow> nat \<Rightarrow> nat \<Rightarrow> bitstr" where
  "bit_nclear b start stop = bit_nrange bit_clear 0 b start stop"

definition bit_set_all :: "bitstr \<Rightarrow> bitstr" where
  "bit_set_all b = bit_nset b 0 (bit_size b - 1)"

definition bit_clear_all :: "bitstr \<Rightarrow> bitstr" where
  "bit_clear_all b = bit_nclear b 0 (bit_size b - 1)"

text \<open>The assertions of the source, and the shape every allocated bit string has.\<close>

definition bitstr_valid :: "bitstr \<Rightarrow> bool" where
  "bitstr_valid b \<longleftrightarrow> bs_magic b = BITSTR_MAGIC"

definition bit_valid :: "bitstr \<Rightarrow> nat \<Rightarrow> bool" where
  "bit_valid b i \<longleftrightarrow> i < bs_bits b"

definition valid_size :: "nat \<Rightarrow> bool" where
  "valid_size n \<longleftrightarrow> 0 < n \<and> n \<le> 0x40000000"

definition wf_bitstr :: "bitstr \<Rightarrow> bool" where
  "wf_bitstr b \<longleftrightarrow> bitstr_valid b \<and> valid_size (bs_bits b)
                   \<and> length (bs_words b) = bitstr_words (bs_bits b)"

text \<open>What a bit string stands for: the set of positions below its size that are set.\<close>

definition bset :: "bitstr \<Rightarrow> nat set" where
  "bset b = {i. i < bs_bits b \<and> bit_test b i}"

text \<open>Two bit strings of the same size, on word arrays of the same length.\<close>

definition same_shape :: "bitstr \<Rightarrow> bitstr \<Rightarrow> bool" where
  "same_shape b c \<longleftrightarrow> bs_bits c = bs_bits b \<and> bs_magic c = bs_magic b
                     \<and> length (bs_words c) = length (bs_words b)"

subsection \<open>Single bits\<close>

lemma bit_test_wbit: "i < 64 * length (bs_words b) \<Longrightarrow> bit_test b i = wbit (bs_words b) i"
  by (simp add: bit_test_def bit_word_of_def bit_mask_of_def wbit_def bit_iff_and_push_bit_not_eq_0)

lemma bit_bit_mask_of [simp]: "bit (bit_mask_of i) k \<longleftrightarrow> k = i mod 64"
  by (auto simp: bit_mask_of_def)

lemma bit_bit_nmask [simp]: "bit (bit_nmask n) k \<longleftrightarrow> k < n mod 64"
  by (auto simp: bit_nmask_def)

lemma wbit_bit_set [wbit_simps]:
  assumes "k < 64 * length (bs_words b)"
  shows "wbit (bs_words (bit_set b k)) i \<longleftrightarrow> i = k \<or> wbit (bs_words b) i"
  using assms same_div64 [of i k] wbit_same_word [of i k "bs_words b"]
  by (auto simp: bit_set_def bit_word_of_def wbit_update div64_less bit_or_iff)

lemma wbit_bit_clear [wbit_simps]:
  assumes "k < 64 * length (bs_words b)"
  shows "wbit (bs_words (bit_clear b k)) i \<longleftrightarrow> i \<noteq> k \<and> wbit (bs_words b) i"
  using assms same_div64 [of i k] wbit_same_word [of i k "bs_words b"]
  by (auto simp: bit_clear_def bit_word_of_def wbit_update div64_less bit_and_iff bit_not_iff)

lemma bits_bit_set [frame_simps, simp]:
  "bs_bits (bit_set b i) = bs_bits b" "bs_magic (bit_set b i) = bs_magic b"
  "length (bs_words (bit_set b i)) = length (bs_words b)"
  by (simp_all add: bit_set_def)

lemma bits_bit_clear [frame_simps, simp]:
  "bs_bits (bit_clear b i) = bs_bits b" "bs_magic (bit_clear b i) = bs_magic b"
  "length (bs_words (bit_clear b i)) = length (bs_words b)"
  by (simp_all add: bit_clear_def)

lemma bitstr_words_bound: "n \<le> 64 * bitstr_words n" "64 * bitstr_words n < n + 64"
  unfolding bitstr_words_def by linarith+

lemma wf_bound: "wf_bitstr b \<Longrightarrow> i < bs_bits b \<Longrightarrow> i < 64 * length (bs_words b)"
  using bitstr_words_bound(1) [of "bs_bits b"] by (simp add: wf_bitstr_def)

lemma bset_wbit: "wf_bitstr b \<Longrightarrow> bset b = {i. i < bs_bits b \<and> wbit (bs_words b) i}"
  by (auto simp: bset_def bit_test_wbit wf_bound)

lemma wf_bit_set [simp]: "wf_bitstr (bit_set b i) = wf_bitstr b"
  by (simp add: wf_bitstr_def bitstr_valid_def)

lemma wf_bit_clear [simp]: "wf_bitstr (bit_clear b i) = wf_bitstr b"
  by (simp add: wf_bitstr_def bitstr_valid_def)

lemma same_shape_trans: "same_shape b c \<Longrightarrow> same_shape c d \<Longrightarrow> same_shape b d"
  by (simp add: same_shape_def)

lemma wf_same_shape: "same_shape b c \<Longrightarrow> wf_bitstr c = wf_bitstr b"
  by (simp add: same_shape_def wf_bitstr_def bitstr_valid_def)

lemma wf_bit_alloc: "valid_size n \<Longrightarrow> wf_bitstr (bit_alloc n)"
  by (simp add: wf_bitstr_def bitstr_valid_def bit_alloc_def)

lemma bset_alloc: "valid_size n \<Longrightarrow> bset (bit_alloc n) = {}"
  by (auto simp: bset_wbit wf_bit_alloc) (simp add: bit_alloc_def)

lemma bset_bit_set: "wf_bitstr b \<Longrightarrow> bit_valid b i \<Longrightarrow> bset (bit_set b i) = insert i (bset b)"
  by (auto simp: bset_wbit bit_valid_def wbit_simps wf_bound)

lemma bset_bit_clear: "wf_bitstr b \<Longrightarrow> bit_valid b i \<Longrightarrow> bset (bit_clear b i) = bset b - {i}"
  by (auto simp: bset_wbit bit_valid_def wbit_simps wf_bound)

lemma bit_test_bset: "bit_valid b i \<Longrightarrow> bit_test b i \<longleftrightarrow> i \<in> bset b"
  by (simp add: bset_def bit_valid_def)

subsection \<open>Ranges\<close>

lemma bit_set_byte:
  assumes "j < 8" "k < 64"
  shows "bit (set_byte w j v) k \<longleftrightarrow> (if k div 8 = j then bit v (k mod 8) else bit w k)"
proof -
  have "bit (push_bit (8 * j) 0xff :: u64) k \<longleftrightarrow> 8 * j \<le> k \<and> k - 8 * j < 8"
    using assms by (auto simp: bit_push_bit_iff)
  moreover have "8 * j \<le> k \<and> k - 8 * j < 8 \<longleftrightarrow> k div 8 = j" by linarith
  moreover have "k div 8 = j \<Longrightarrow> k - 8 * j = k mod 8" by (auto simp: minus_mult_div_eq_mod)
  ultimately show ?thesis using assms
    by (auto simp: set_byte_def bit_or_iff bit_and_iff bit_not_iff bit_push_bit_iff bit_ucast_iff
        dest: bit_imp_le_length)
qed


lemma wbit_set_byte [wbit_simps]:
  assumes "a < 8 * length ws"
  shows "wbit (ws[a div 8 := set_byte (ws ! (a div 8)) (a mod 8) v]) i \<longleftrightarrow>
           (if i div 8 = a then bit v (i mod 8) else wbit ws i)"
proof -
  have a: "a div 8 < length ws" using assms by (simp add: less_mult_imp_div_less mult.commute)
  have d: "i div 64 = a div 8 \<Longrightarrow> i mod 64 div 8 = a mod 8 \<longleftrightarrow> i div 8 = a"
    by (metis div_mult_mod_eq div64_div8 mod64_div8)
  have m: "i mod 64 mod 8 = i mod 8" by (simp add: mod_mod_cancel)
  have n: "i div 64 \<noteq> a div 8 \<Longrightarrow> i div 8 \<noteq> a" by (auto simp: div64_div8)
  have w: "i div 64 = a div 8 \<Longrightarrow> wbit ws i \<longleftrightarrow> bit (ws ! (a div 8)) (i mod 64)"
    using wbit_same_word [of i "8 * a" ws] assms by simp
  show ?thesis using a d m n w by (auto simp: wbit_update bit_set_byte)
qed

lemma length_memset_bytes [simp, frame_simps]: "length (memset_bytes ws a v n) = length ws"
  by (induction ws a v n rule: memset_bytes.induct) auto

lemma wbit_memset_bytes [wbit_simps]:
  "a + n \<le> 8 * length ws \<Longrightarrow>
     wbit (memset_bytes ws a v n) i \<longleftrightarrow>
       (if a \<le> i div 8 \<and> i div 8 < a + n then bit v (i mod 8) else wbit ws i)"
proof (induction ws a v n rule: memset_bytes.induct)
  case (1 ws a v)
  then show ?case by auto
next
  case (2 ws a v n)
  then show ?case by (auto simp: wbit_set_byte)
qed

text \<open>
  Setting and clearing are two instances of one interface: an operation that
  writes \<open>val\<close> to a single bit, and the byte that holds eight copies of it.
\<close>

locale bit_writer =
  fixes f :: "bitstr \<Rightarrow> nat \<Rightarrow> bitstr" and val :: bool and byte :: u8
  assumes writes: "k < 64 * length (bs_words b) \<Longrightarrow>
      wbit (bs_words (f b k)) i \<longleftrightarrow> (if i = k then val else wbit (bs_words b) i)"
    and frame: "bs_bits (f b k) = bs_bits b" "bs_magic (f b k) = bs_magic b"
      "length (bs_words (f b k)) = length (bs_words b)"
    and byte: "j < 8 \<Longrightarrow> bit byte j \<longleftrightarrow> val"
begin

lemma head:
  assumes "0 \<le> start" "stop < int (64 * length (bs_words b))"
    and "range_head f b start stop = (c, start1)"
  shows "same_shape b c \<and> start \<le> start1 \<and> (start1 = start \<or> start1 \<le> stop + 1)
    \<and> (start1 > stop \<or> start1 mod 8 = 0)
    \<and> (\<forall>i. wbit (bs_words c) i \<longleftrightarrow>
           (if start \<le> int i \<and> int i < start1 then val else wbit (bs_words b) i))"
  using assms
proof (induction "nat (stop + 1 - start)" arbitrary: b start rule: less_induct)
  case less
  show ?case
  proof (cases "start \<le> stop \<and> start mod 8 > 0")
    case True
    then have "range_head f (f b (nat start)) (start + 1) stop = (c, start1)"
      using less.prems(3) by (simp add: range_head.simps [of f b start])
    note IH = less.hyps [OF _ _ _ this]
    have "nat start < 64 * length (bs_words b)" using True less.prems by linarith
    then show ?thesis using IH True less.prems(1,2)
      by (auto simp: frame writes same_shape_def)
  next
    case False
    have "(c, start1) = (b, start)"
      using False less.prems(3) by (simp add: range_head.simps [of f b start] split: if_splits)
    moreover have "start mod 8 \<ge> 0" by simp
    ultimately show ?thesis using False by (auto simp: same_shape_def)
  qed
qed

lemma tail:
  assumes "0 \<le> start" "stop < int (64 * length (bs_words b))"
    and "range_tail f b start stop = (c, stop1)"
  shows "same_shape b c \<and> stop1 \<le> stop \<and> (stop1 = stop \<or> start \<le> stop1 + 1)
    \<and> (start > stop1 \<or> (stop1 + 1) mod 8 = 0)
    \<and> (\<forall>i. wbit (bs_words c) i \<longleftrightarrow>
           (if stop1 < int i \<and> int i \<le> stop then val else wbit (bs_words b) i))"
  using assms
proof (induction "nat (stop + 1 - start)" arbitrary: b stop rule: less_induct)
  case less
  show ?case
  proof (cases "stop \<ge> start \<and> (stop + 1) mod 8 > 0")
    case True
    then have "range_tail f (f b (nat stop)) start (stop - 1) = (c, stop1)"
      using less.prems(3) by (simp add: range_tail.simps [of f b start])
    note IH = less.hyps [OF _ _ _ this]
    have "nat stop < 64 * length (bs_words b)" using True less.prems by linarith
    then show ?thesis using IH True less.prems(1,2)
      by (auto simp: frame writes same_shape_def)
  next
    case False
    have "(c, stop1) = (b, stop)"
      using False less.prems(3) by (simp add: range_tail.simps [of f b start] split: if_splits)
    moreover have "(stop + 1) mod 8 \<ge> 0" by simp
    ultimately show ?thesis using False by (auto simp: same_shape_def)
  qed
qed

lemma nrange:
  assumes "start < 64 * length (bs_words b)" "stop < 64 * length (bs_words b)"
  shows "same_shape b (bit_nrange f byte b start stop)"
    and "wbit (bs_words (bit_nrange f byte b start stop)) i \<longleftrightarrow>
           (if start \<le> i \<and> i \<le> stop then val else wbit (bs_words b) i)"
proof -
  obtain b1 s1 where h: "range_head f b (int start) (int stop) = (b1, s1)" by fastforce
  obtain b2 t1 where t: "range_tail f b1 s1 (int stop) = (b2, t1)" by fastforce
  note H = head [OF _ _ h]
  have len1: "length (bs_words b1) = length (bs_words b)"
    using H assms by (simp add: same_shape_def)
  note T = tail [OF _ _ t]
  have s1: "int start \<le> s1" using H assms by simp
  have sh: "same_shape b b2" using H T assms s1 len1 by (auto intro: same_shape_trans)
  let ?c = "bit_nrange f byte b start stop"
  have c: "?c = (if t1 > s1
      then b2\<lparr>bs_words := memset_bytes (bs_words b2) (nat s1 div 8) byte (nat (t1 - s1 + 1) div 8)\<rparr>
      else b2)"
    by (simp add: bit_nrange_def h t)
  then show "same_shape b ?c" using sh by (simp add: same_shape_def)
  have w2: "wbit (bs_words b2) i \<longleftrightarrow>
      (if t1 < int i \<and> int i \<le> int stop \<or> int start \<le> int i \<and> int i < s1
       then val else wbit (bs_words b) i)"
    using H T assms s1 len1 by auto
  show "wbit (bs_words ?c) i \<longleftrightarrow> (if start \<le> i \<and> i \<le> stop then val else wbit (bs_words b) i)"
  proof (cases "s1 < t1")
    case True
    have al: "s1 mod 8 = 0" "(t1 + 1) mod 8 = 0" "t1 \<le> int stop"
      using True H T assms s1 len1 by auto
    obtain p where p: "s1 = 8 * int p" using al(1) s1 nonneg_mult8 [of s1] by auto
    obtain q where q: "t1 + 1 = 8 * int q" using al(2) True s1 nonneg_mult8 [of "t1 + 1"] by auto
    have n: "nat s1 div 8 = p" "nat (t1 - s1 + 1) div 8 = q - p" "p < q"
      using p q True by auto
    have b: "q \<le> 8 * length (bs_words b2)"
      using al(3) q assms(2) sh by (simp add: same_shape_def)
    have "wbit (bs_words ?c) i \<longleftrightarrow>
        (if p \<le> i div 8 \<and> i div 8 < q then val else wbit (bs_words b2) i)"
    proof -
      have "p + (q - p) = q" using n(3) by simp
      then show ?thesis
        using True b wbit_memset_bytes [of p "q - p" "bs_words b2" byte i] by (auto simp: c n(1,2) byte)
    qed
    moreover have "p \<le> i div 8 \<and> i div 8 < q \<longleftrightarrow> s1 \<le> int i \<and> int i \<le> t1"
      using p q by linarith
    moreover have "(s1 \<le> int i \<and> int i \<le> t1) \<or>
        (t1 < int i \<and> int i \<le> int stop \<or> int start \<le> int i \<and> int i < s1) \<longleftrightarrow>
        start \<le> i \<and> i \<le> stop"
      using True al(3) s1 by linarith
    ultimately show ?thesis using w2 by metis
  next
    case False
    have "s1 = int start \<or> s1 \<le> int stop + 1" "t1 = int stop \<or> s1 \<le> t1 + 1" "t1 \<le> int stop"
      "s1 > int stop \<or> s1 mod 8 = 0" "s1 > t1 \<or> (t1 + 1) mod 8 = 0"
      using H T assms s1 len1 by auto
    moreover have "s1 mod 8 = 0 \<Longrightarrow> (t1 + 1) mod 8 = 0 \<Longrightarrow> s1 \<noteq> t1" by presburger
    ultimately have "t1 < int i \<and> int i \<le> int stop \<or> int start \<le> int i \<and> int i < s1 \<longleftrightarrow>
        start \<le> i \<and> i \<le> stop"
      using False s1 by linarith
    then show ?thesis using False w2 c by simp
  qed
qed

end

interpretation setting: bit_writer bit_set True "0xff"
  by unfold_locales (auto simp: wbit_simps bit_simps)

interpretation clearing: bit_writer bit_clear False "0"
  by unfold_locales (auto simp: wbit_simps)

lemma bit_nset_correct:
  assumes "wf_bitstr b" "bit_valid b start" "bit_valid b stop"
  shows "wf_bitstr (bit_nset b start stop)" "bs_bits (bit_nset b start stop) = bs_bits b"
    and "bset (bit_nset b start stop) = bset b \<union> {start..stop}"
proof -
  have r: "start < 64 * length (bs_words b)" "stop < 64 * length (bs_words b)"
    using assms wf_bound by (auto simp: bit_valid_def)
  note N = setting.nrange [OF r]
  show wf: "wf_bitstr (bit_nset b start stop)"
    using N(1) assms(1) by (simp add: bit_nset_def wf_same_shape)
  show bits: "bs_bits (bit_nset b start stop) = bs_bits b"
    using N(1) by (simp add: bit_nset_def same_shape_def)
  show "bset (bit_nset b start stop) = bset b \<union> {start..stop}"
    using assms N(2) by (auto simp: bset_wbit wf bits) (auto simp: bit_nset_def bit_valid_def)
qed

lemma bit_nclear_correct:
  assumes "wf_bitstr b" "bit_valid b start" "bit_valid b stop"
  shows "wf_bitstr (bit_nclear b start stop)" "bs_bits (bit_nclear b start stop) = bs_bits b"
    and "bset (bit_nclear b start stop) = bset b - {start..stop}"
proof -
  have r: "start < 64 * length (bs_words b)" "stop < 64 * length (bs_words b)"
    using assms wf_bound by (auto simp: bit_valid_def)
  note N = clearing.nrange [OF r]
  show wf: "wf_bitstr (bit_nclear b start stop)"
    using N(1) assms(1) by (simp add: bit_nclear_def wf_same_shape)
  show bits: "bs_bits (bit_nclear b start stop) = bs_bits b"
    using N(1) by (simp add: bit_nclear_def same_shape_def)
  show "bset (bit_nclear b start stop) = bset b - {start..stop}"
    using assms N(2) by (auto simp: bset_wbit wf bits) (auto simp: bit_nclear_def bit_valid_def split: if_splits)
qed

lemma bset_less: "i \<in> bset b \<Longrightarrow> i < bs_bits b"
  by (simp add: bset_def)

lemma wf_bits_pos: "wf_bitstr b \<Longrightarrow> 0 < bs_bits b"
  by (simp add: wf_bitstr_def valid_size_def)

lemma bset_bounded: "bset b \<subseteq> {..<bs_bits b}"
  by (auto simp: bset_def)

lemma all_range: "wf_bitstr b \<Longrightarrow> {0..bs_bits b - Suc 0} = {..<bs_bits b}"
  using wf_bits_pos [of b] by auto

lemma ends_valid: "wf_bitstr b \<Longrightarrow> bit_valid b 0" "wf_bitstr b \<Longrightarrow> bit_valid b (bs_bits b - 1)"
  using wf_bits_pos [of b] by (auto simp: bit_valid_def)

lemma bit_set_all_correct:
  assumes "wf_bitstr b"
  shows "wf_bitstr (bit_set_all b)" "bset (bit_set_all b) = {..<bs_bits b}"
  using bit_nset_correct [OF assms ends_valid [OF assms]] bset_bounded [of b]
  by (simp_all add: bit_set_all_def bit_size_def all_range [OF assms] Un_absorb1)

lemma bit_clear_all_correct:
  assumes "wf_bitstr b"
  shows "wf_bitstr (bit_clear_all b)" "bset (bit_clear_all b) = {}"
  using bit_nclear_correct [OF assms ends_valid [OF assms]] bset_bounded [of b]
  by (simp_all add: bit_clear_all_def bit_size_def all_range [OF assms])

end
