(* ===== verification/Bitstring_Search.thy ===== *)
theory Bitstring_Search
  imports Bitstring
begin

text \<open>
  The searches of \<^verbatim>\<open>src/common/bitstring.c\<close>: first and last set bit, first clear
  bit, runs of set or clear bits, the n-th set bit. The C loops skip whole
  words; each is related to a bit by bit search of the set that the bit string
  stands for.
\<close>

lemma bit_word_iff: "bit_word_of i = w \<longleftrightarrow> 64 * w \<le> i \<and> i < 64 * w + 64"
  unfolding bit_word_of_def by linarith

lemma bit_word_aligned: "i mod 64 = 0 \<Longrightarrow> i \<le> k \<Longrightarrow> k < i + 64 \<Longrightarrow> bit_word_of k = bit_word_of i"
  by (auto simp: bit_word_of_def elim!: dvdE simp flip: dvd_eq_mod_eq_0)

lemma bit_word_upper:
  "i < j \<Longrightarrow> j \<le> 64 * (bit_word_of i + 1) \<Longrightarrow> bit_word_of j \<noteq> bit_word_of i \<Longrightarrow> j = 64 * (bit_word_of i + 1)"
  using bit_word_iff [of i "bit_word_of i"] bit_word_iff [of j "bit_word_of i"] by auto

lemma bit_test_bit: "bit_test b i \<longleftrightarrow> bit (bs_words b ! bit_word_of i) (i mod 64)"
  by (simp add: bit_test_def bit_mask_of_def bit_iff_and_push_bit_not_eq_0)

lemma aligned_offset: "i mod 64 = 0 \<Longrightarrow> i \<le> k \<Longrightarrow> k < i + 64 \<Longrightarrow> k mod 64 = k - (i :: nat)"
proof -
  assume a: "i mod 64 = 0" "i \<le> k" "k < i + 64"
  then obtain w where "i = 64 * w" by (auto elim: dvdE simp flip: dvd_eq_mod_eq_0)
  moreover obtain d where "k = i + d" "d < 64" using a by (auto simp: le_iff_add)
  ultimately show ?thesis by simp
qed

lemma next_word: "i + 64 - i mod 64 = 64 * bit_word_of i + 64"
  using mult_div_mod_eq [of 64 i] unfolding bit_word_of_def by linarith

subsection \<open>The two-level scan of \<^verbatim>\<open>bit_ffc\<close> and of the portable \<^verbatim>\<open>bit_ffs_from_bit\<close>\<close>

text \<open>
  Both functions run the same nest of loops, once for a clear bit and once for
  a set bit: an outer loop that skips a word when \<open>skip\<close> holds of it, and an
  inner one that tests the bits of the current word.
\<close>

function scan_word :: "(nat \<Rightarrow> bool) \<Rightarrow> nat \<Rightarrow> nat \<Rightarrow> nat \<Rightarrow> nat \<times> int" where
  "scan_word P n word i =
     (if i < n \<and> bit_word_of i = word
      then if P i then (i, int i) else scan_word P n word (i + 1)
      else (i, - 1))"
  by pat_completeness auto
termination
  by (relation "measure (\<lambda>(P, n, word, i). n - i)") auto

declare scan_word.simps [simp del]

lemma scan_word_spec:
  assumes "scan_word P n word i = (j, v)"
  shows "i \<le> j \<and> (\<forall>k. i \<le> k \<and> k < j \<longrightarrow> \<not> P k)
    \<and> (v = - 1 \<longrightarrow> n \<le> j \<or> bit_word_of j \<noteq> word)
    \<and> (v \<noteq> - 1 \<longrightarrow> v = int j \<and> j < n \<and> P j)
    \<and> (bit_word_of i = word \<longrightarrow> j \<le> 64 * (word + 1))"
  using assms
proof (induction P n word i arbitrary: j v rule: scan_word.induct)
  case (1 P n word i)
  show ?case
  proof (cases "i < n \<and> bit_word_of i = word \<and> \<not> P i")
    case True
    then have rec: "scan_word P n word (i + 1) = (j, v)"
      using "1.prems" by (simp add: scan_word.simps [of P n word i])
    note IH = "1.IH" [OF _ _ rec]
    have step: "bit_word_of (i + 1) = word \<or> i + 1 = 64 * (word + 1)"
      using True by (auto simp: bit_word_iff)
    moreover have "i + 1 = 64 * (word + 1) \<Longrightarrow> (j, v) = (i + 1, - 1)"
      using rec by (subst (asm) scan_word.simps) (auto simp: bit_word_of_def)
    moreover have "\<not> P k" if "i \<le> k" "k < j" for k
      using that IH True by (cases "k = i") auto
    ultimately show ?thesis using IH True by auto
  next
    case False
    have "i \<le> 64 * (bit_word_of i + 1)" using bit_word_iff [of i "bit_word_of i"] by simp
    then show ?thesis using False "1.prems"
      by (subst (asm) scan_word.simps) (auto split: if_splits)
  qed
qed

lemma scan_word_progress:
  "i < n \<Longrightarrow> snd (scan_word P n (bit_word_of i) i) = - 1 \<Longrightarrow>
     i < fst (scan_word P n (bit_word_of i) i)"
  using scan_word_spec [of P n "bit_word_of i" i]
  by (cases "scan_word P n (bit_word_of i) i") (auto simp: le_eq_less_or_eq)

function scan_words :: "(nat \<Rightarrow> bool) \<Rightarrow> (nat \<Rightarrow> bool) \<Rightarrow> nat \<Rightarrow> nat \<Rightarrow> int \<Rightarrow> int" where
  "scan_words P skip n i v =
     (if i < n \<and> v = - 1
      then if skip (bit_word_of i) then scan_words P skip n (i + 64) v
           else scan_words P skip n (fst (scan_word P n (bit_word_of i) i))
                                    (snd (scan_word P n (bit_word_of i) i))
      else v)"
  by pat_completeness auto
termination
  by (relation "measure (\<lambda>(P, skip, n, i, v). if v = - 1 then Suc (n - i) else 0)")
     (auto simp: case_prod_unfold intro!: diff_less_mono2 scan_word_progress)

declare scan_words.simps [simp del]

lemma scan_words_first:
  assumes "\<And>k. skip (bit_word_of k) \<Longrightarrow> k < n \<Longrightarrow> \<not> P k"
    and "i mod 64 = 0 \<or> \<not> skip (bit_word_of i) \<or> n \<le> i"
  shows "scan_words P skip n i (- 1) = first_from P i n"
  using assms(2)
proof (induction "n - i" arbitrary: i rule: less_induct)
  case less
  show ?case
  proof (cases "i < n")
    case False
    then show ?thesis by (simp add: scan_words.simps [of P skip n i] first_from_none)
  next
    case i: True
    show ?thesis
    proof (cases "skip (bit_word_of i)")
      case True
      have "\<not> P k" if "i \<le> k" "k < i + 64" "k < n" for k
        using that less.prems True assms(1) [of k] bit_word_aligned [of i k] by simp
      then have "first_from P i n = first_from P (i + 64) n" by (intro first_from_skip) auto
      moreover have "scan_words P skip n (i + 64) (- 1) = first_from P (i + 64) n"
        using i less.prems True by (intro less.hyps) auto
      ultimately show ?thesis using True i by (simp add: scan_words.simps [of P skip n i])
    next
      case False
      obtain j v where jv: "scan_word P n (bit_word_of i) i = (j, v)" by fastforce
      note S = scan_word_spec [OF jv]
      have eq: "scan_words P skip n i (- 1) = scan_words P skip n j v"
        using False i by (simp add: scan_words.simps [of P skip n i "- 1"] jv)
      show ?thesis
      proof (cases "v = - 1")
        case True
        have "i < j" using scan_word_progress [of i n P] i jv True by simp
        moreover have "j mod 64 = 0 \<or> n \<le> j"
          using S True \<open>i < j\<close> bit_word_upper [of i j] by auto
        moreover have "first_from P i n = first_from P j n" using S by (intro first_from_skip) auto
        ultimately show ?thesis using eq True i less.hyps [of j]
          by (cases "j < n") (auto simp: scan_words.simps [of P skip n j] first_from_none)
      next
        case False
        then have "first_from P i n = int j" using S by (intro first_fromI) auto
        then show ?thesis using eq False S by (simp add: scan_words.simps [of P skip n j])
      qed
    qed
  qed
qed

definition bit_ffc :: "bitstr \<Rightarrow> int" where
  "bit_ffc b = scan_words (\<lambda>i. \<not> bit_test b i) (\<lambda>w. bs_words b ! w = - 1) (bs_bits b) 0 (- 1)"

lemma bit_ffc_first:
  assumes "wf_bitstr b"
  shows "bit_ffc b = first_from (\<lambda>i. i \<notin> bset b) 0 (bs_bits b)"
proof -
  have "bit_test b k" if "bs_words b ! bit_word_of k = - 1" for k
    using that by (simp add: bit_test_bit)
  then have "bit_ffc b = first_from (\<lambda>i. \<not> bit_test b i) 0 (bs_bits b)"
    unfolding bit_ffc_def by (intro scan_words_first) auto
  also have "\<dots> = first_from (\<lambda>i. i \<notin> bset b) 0 (bs_bits b)"
    by (intro first_from_cong) (simp add: bset_def)
  finally show ?thesis .
qed

subsection \<open>Find first set: \<^verbatim>\<open>bit_ffs_from_bit\<close>\<close>

text \<open>The compiler builtins: number of trailing and of leading zero bits of a non-zero word.\<close>

definition ctzll :: "u64 \<Rightarrow> nat" where
  "ctzll w = length (takeWhile (\<lambda>i. \<not> bit w i) [0..<64])"

definition clzll :: "u64 \<Rightarrow> nat" where
  "clzll w = length (takeWhile (\<lambda>i. \<not> bit w (63 - i)) [0..<64])"

function ffs_loop :: "bitstr \<Rightarrow> nat \<Rightarrow> int" where
  "ffs_loop b i =
     (if i < bs_bits b
      then if bs_words b ! bit_word_of i = 0 then ffs_loop b (i + 64)
           else int i + int (ctzll (bs_words b ! bit_word_of i))
      else - 1)"
  by pat_completeness auto
termination
  by (relation "measure (\<lambda>(b, i). bs_bits b - i)") auto

declare ffs_loop.simps [simp del]

definition bit_ffs_from_bit :: "bitstr \<Rightarrow> nat \<Rightarrow> int" where
  "bit_ffs_from_bit b i =
     (let v = (if i mod 64 \<noteq> 0 \<and> i < bs_bits b
               then let mask = NOT (bit_nmask i);
                        i' = i - i mod 64;
                        w = bs_words b ! bit_word_of i' AND mask
                    in if w = 0 then ffs_loop b (i' + 64) else int i' + int (ctzll w)
               else ffs_loop b i)
      in if v < int (bs_bits b) then v else - 1)"

text \<open>The portable branch, for a compiler without the builtin.\<close>

definition bit_ffs_from_bit_portable :: "bitstr \<Rightarrow> nat \<Rightarrow> int" where
  "bit_ffs_from_bit_portable b i =
     (let i' = (if i mod 64 \<noteq> 0 \<and> i < bs_bits b \<and> bs_words b ! bit_word_of i = 0
                then i + 64 - (i + 64) mod 64 else i)
      in scan_words (bit_test b) (\<lambda>w. bs_words b ! w = 0) (bs_bits b) i' (- 1))"

definition bit_ffs :: "bitstr \<Rightarrow> int" where
  "bit_ffs b = bit_ffs_from_bit b 0"

lemma takeWhile_upt:
  assumes "m < n" "P m" "\<And>i. i < m \<Longrightarrow> \<not> P i"
  shows "length (takeWhile (\<lambda>i. \<not> P i) [0..<n]) = m"
proof -
  have "[0..<n] = [0..<m] @ [m..<n]" using assms(1) upt_add_eq_append [of 0 m "n - m"] by simp
  moreover have "[m..<n] = m # [Suc m..<n]" using assms(1) by (simp add: upt_conv_Cons)
  ultimately show ?thesis using assms(2,3) by (simp add: takeWhile_append)
qed

lemma ctzll_spec:
  assumes "w \<noteq> 0"
  shows "ctzll w < 64 \<and> bit w (ctzll w) \<and> (\<forall>i < ctzll w. \<not> bit w i)"
proof -
  from assms obtain k where "bit w k" by (auto simp: word64_zero_iff)
  define m where "m = (LEAST k. bit w k)"
  have m: "bit w m" "\<And>i. i < m \<Longrightarrow> \<not> bit w i"
    unfolding m_def using \<open>bit w k\<close> by (auto intro: LeastI dest: not_less_Least)
  then have "m < 64" by (metis bit_word64_bound not_le)
  with m have "ctzll w = m" unfolding ctzll_def by (intro takeWhile_upt) auto
  with m \<open>m < 64\<close> show ?thesis by simp
qed

lemma clzll_spec:
  assumes "w \<noteq> 0"
  shows "clzll w < 64 \<and> bit w (63 - clzll w) \<and> (\<forall>i. 63 - clzll w < i \<longrightarrow> \<not> bit w i)"
proof -
  from assms obtain k where k: "k < 64" "bit w k" by (auto simp: word64_zero_iff)
  define m where "m = (LEAST k. bit w (63 - k))"
  have "bit w (63 - (63 - k))" using k by simp
  then have m: "bit w (63 - m)" "\<And>i. i < m \<Longrightarrow> \<not> bit w (63 - i)" "m \<le> 63 - k"
    unfolding m_def by (rule LeastI, blast dest: not_less_Least, rule Least_le)
  then have "clzll w = m" unfolding clzll_def by (intro takeWhile_upt) auto
  moreover have "\<not> bit w i" if "63 - m < i" for i
    using m(2) [of "63 - i"] m(3) that by (cases "i < 64") auto
  ultimately show ?thesis using m by auto
qed

text \<open>A word of the array, read through the trailing zero count, from an aligned position.\<close>

lemma ctzll_first:
  assumes "i mod 64 = 0" "w \<noteq> 0"
    and "\<And>k. i \<le> k \<Longrightarrow> k < i + 64 \<Longrightarrow> bit w (k - i) \<longleftrightarrow> lo \<le> k \<and> P k"
    and "i \<le> lo" "lo < i + 64"
  shows "(if int i + int (ctzll w) < int n then int i + int (ctzll w) else - 1) = first_from P lo n"
proof -
  note C = ctzll_spec [OF assms(2)]
  let ?r = "i + ctzll w"
  have r: "lo \<le> ?r" "P ?r" using C assms(3) [of ?r] by auto
  have no: "\<not> P k" if "lo \<le> k" "k < ?r" for k
    using C assms(3) [of k] assms(4) that by auto
  show ?thesis
  proof (cases "?r < n")
    case True
    then show ?thesis using r no first_fromI [of lo ?r n P] by simp
  next
    case False
    then show ?thesis using no first_from_none [of lo n P] by auto
  qed
qed

lemma ffs_loop_first:
  "i mod 64 = 0 \<Longrightarrow>
     (if ffs_loop b i < int (bs_bits b) then ffs_loop b i else - 1)
     = first_from (bit_test b) i (bs_bits b)"
proof (induction b i rule: ffs_loop.induct)
  case (1 b i)
  let ?w = "bs_words b ! bit_word_of i"
  show ?case
  proof (cases "i < bs_bits b")
    case False
    then show ?thesis by (simp add: ffs_loop.simps [of b i] first_from_none)
  next
    case i: True
    have bits: "bit_test b k \<longleftrightarrow> bit ?w (k - i)" if "i \<le> k" "k < i + 64" for k
      using bit_word_aligned [of i k] aligned_offset [of i k] that "1.prems" by (simp add: bit_test_bit)
    show ?thesis
    proof (cases "?w = 0")
      case True
      have "first_from (bit_test b) i (bs_bits b) = first_from (bit_test b) (i + 64) (bs_bits b)"
        using bits True by (intro first_from_skip) auto
      moreover have "ffs_loop b i = ffs_loop b (i + 64)" using True i by (simp add: ffs_loop.simps [of b i])
      ultimately show ?thesis using "1.IH" "1.prems" True i by (simp only: mod_add_self2)
    next
      case False
      then show ?thesis
        using ctzll_first [OF "1.prems" False, of i "bit_test b" "bs_bits b"] bits i
        by (simp add: ffs_loop.simps [of b i] split: if_splits)
    qed
  qed
qed

lemma bit_ffs_from_bit_first:
  "bit_ffs_from_bit b i = first_from (bit_test b) i (bs_bits b)"
proof (cases "i mod 64 \<noteq> 0 \<and> i < bs_bits b")
  case False
  then show ?thesis using ffs_loop_first [of i b] first_from_none [of i "bs_bits b"]
    by (auto simp: bit_ffs_from_bit_def ffs_loop.simps [of b i] Let_def)
next
  case True
  define i0 where "i0 = i - i mod 64"
  let ?w = "bs_words b ! bit_word_of i0 AND NOT (bit_nmask i)"
  have al: "i0 mod 64 = 0" by (simp add: i0_def minus_mod_eq_mult_div)
  have r: "i = i0 + i mod 64" "i0 \<le> i" "i < i0 + 64" 
    using mod_less_divisor [of 64 i] by (simp_all add: i0_def)
  have bits: "bit ?w (k - i0) \<longleftrightarrow> i \<le> k \<and> bit_test b k" if "i0 \<le> k" "k < i0 + 64" for k
  proof -
    have "k - i0 < i mod 64 \<longleftrightarrow> k < i" "k - i0 < 64" using r that by linarith+
    then show ?thesis using bit_word_aligned [of i0 k] aligned_offset [of i0 k] that al
      by (auto simp: bit_test_bit bit_and_iff bit_not_iff)
  qed
  have eq: "bit_ffs_from_bit b i = (let v = if ?w = 0 then ffs_loop b (i0 + 64) else int i0 + int (ctzll ?w)
      in if v < int (bs_bits b) then v else - 1)"
    using True by (simp add: bit_ffs_from_bit_def Let_def i0_def)
  show ?thesis
  proof (cases "?w = 0")
    case w: True
    have "first_from (bit_test b) i (bs_bits b) = first_from (bit_test b) (i0 + 64) (bs_bits b)"
      using bits w r by (intro first_from_skip) auto
    then show ?thesis using w ffs_loop_first [of "i0 + 64" b] al
      by (simp only: eq Let_def if_True mod_add_self2 simp_thms)
  next
    case False
    then show ?thesis using ctzll_first [OF al False, of i "bit_test b" "bs_bits b"] bits r(2,3)
      by (simp only: eq Let_def if_False)
  qed
qed

lemma bit_ffs_from_bit_portable_first:
  "bit_ffs_from_bit_portable b i = first_from (bit_test b) i (bs_bits b)"
proof -
  let ?c = "i mod 64 \<noteq> 0 \<and> i < bs_bits b \<and> bs_words b ! bit_word_of i = 0"
  let ?i = "if ?c then i + 64 - (i + 64) mod 64 else i"
  have zero: "\<not> bit_test b k" if "bs_words b ! bit_word_of k = 0" for k
    using that by (simp add: bit_test_bit)
  have "first_from (bit_test b) i (bs_bits b) = first_from (bit_test b) ?i (bs_bits b)"
  proof (cases ?c)
    case True
    have w: "64 * bit_word_of i \<le> i" "i < 64 * bit_word_of i + 64"
      using bit_word_iff [of i "bit_word_of i"] by auto
    have "\<not> bit_test b k" if "i \<le> k" "k < 64 * bit_word_of i + 64" for k
    proof -
      have "bit_word_of k = bit_word_of i" using that w by (simp add: bit_word_iff)
      then show ?thesis using zero [of k] True by simp
    qed
    then have "first_from (bit_test b) i (bs_bits b) =
        first_from (bit_test b) (64 * bit_word_of i + 64) (bs_bits b)"
      using w by (intro first_from_skip) auto
    then show ?thesis using True by (simp add: next_word)
  qed auto
  moreover have "bit_ffs_from_bit_portable b i = first_from (bit_test b) ?i (bs_bits b)"
    unfolding bit_ffs_from_bit_portable_def Let_def
    using zero by (intro scan_words_first) (auto simp: next_word)
  ultimately show ?thesis by simp
qed

lemma first_from_bset: "first_from (bit_test b) i (bs_bits b) = first_from (\<lambda>k. k \<in> bset b) i (bs_bits b)"
  by (intro first_from_cong) (simp add: bset_def)

subsection \<open>Find last set: \<^verbatim>\<open>bit_fls_from_bit\<close>\<close>

function fls_partial :: "bitstr \<Rightarrow> int \<Rightarrow> int \<times> int" where
  "fls_partial b i =
     (if i \<ge> 0 \<and> bit_word_of (nat i) = bit_word_of (nat (i + 1))
      then if bit_test b (nat i) then (i, i) else fls_partial b (i - 1)
      else (i, - 1))"
  by pat_completeness auto
termination
  by (relation "measure (\<lambda>(b, i). nat (i + 1))") auto

function fls_words :: "bitstr \<Rightarrow> int \<Rightarrow> int \<Rightarrow> int" where
  "fls_words b i v =
     (if i \<ge> 0 \<and> v = - 1
      then let w = bs_words b ! bit_word_of (nat i)
           in if w = 0 then fls_words b (i - 64) v
              else i - int (clzll w)
      else v)"
  by pat_completeness auto
termination
  by (relation "measure (\<lambda>(b, i, v). nat (i + 1))") auto

declare fls_partial.simps [simp del] fls_words.simps [simp del]

definition bit_fls_from_bit :: "bitstr \<Rightarrow> nat \<Rightarrow> int" where
  "bit_fls_from_bit b i =
     (if bs_bits b = 0 then - 1
      else case fls_partial b (int i) of (i', v) \<Rightarrow> fls_words b i' v)"

definition bit_fls :: "bitstr \<Rightarrow> int" where
  "bit_fls b = bit_fls_from_bit b (bs_bits b - 1)"

definition bit_fill_gaps :: "bitstr \<Rightarrow> bitstr" where
  "bit_fill_gaps b =
     (let first = bit_ffs b
      in if first = - 1 then b else bit_nset b (nat first) (nat (bit_fls b)))"

lemma fls_words_last:
  "i mod 64 = 63 \<or> i = - 1 \<Longrightarrow> - 1 \<le> i \<Longrightarrow>
     fls_words b i (- 1) = last_below (bit_test b) (nat (i + 1))"
proof (induction "nat (i + 1)" arbitrary: i rule: less_induct)
  case less
  show ?case
  proof (cases "i \<ge> 0")
    case False
    then show ?thesis using less.prems by (simp add: fls_words.simps [of b i])
  next
    case True
    define j where "j = 64 * nat (i div 64)"
    have i: "i = int j + 63" "j mod 64 = 0"
      using less.prems True mult_div_mod_eq [of 64 i] by (simp_all add: j_def pos_imp_zdiv_nonneg_iff)
    let ?w = "bs_words b ! bit_word_of j"
    have bits: "bit_test b k \<longleftrightarrow> bit ?w (k - j)" "bit_word_of k = bit_word_of j" if "j \<le> k" "k < j + 64" for k
      using bit_word_aligned [of j k] aligned_offset [of j k] that i by (simp_all add: bit_test_bit)
    have n: "nat (i + 1) = j + 64" "bit_word_of (nat i) = bit_word_of j" using i bits(2) [of "nat i"] by auto
    show ?thesis
    proof (cases "?w = 0")
      case w: True
      have "last_below (bit_test b) (j + 64) = last_below (bit_test b) j"
        using bits(1) w by (intro last_below_skip) auto
      moreover have "fls_words b (i - 64) (- 1) = last_below (bit_test b) (nat (i - 64 + 1))"
        using i True less.prems minus_mod_self2 [of i 64] by (intro less.hyps) auto
      moreover have "fls_words b i (- 1) = fls_words b (i - 64) (- 1)"
        using True w n(2) by (simp add: fls_words.simps [of b i] Let_def)
      moreover have "nat (i - 64 + 1) = j" using i by simp
      ultimately show ?thesis using n(1) by simp
    next
      case False
      note C = clzll_spec [OF False]
      let ?r = "j + 63 - clzll ?w"
      have "last_below (bit_test b) (j + 64) = int ?r"
        using C bits(1) by (intro last_belowI) auto
      moreover have "fls_words b i (- 1) = i - int (clzll ?w)"
        using True False n(2) by (simp add: fls_words.simps [of b i] Let_def)
      ultimately show ?thesis using n(1) i(1) C by simp
    qed
  qed
qed

lemma fls_partial_last:
  assumes "fls_partial b i = (j, v)" "- 1 \<le> i"
  shows "(j mod 64 = 63 \<or> j = - 1 \<or> v \<noteq> - 1) \<and> - 1 \<le> j \<and>
    last_below (bit_test b) (nat (i + 1)) =
      (if v = - 1 then last_below (bit_test b) (nat (j + 1)) else v)"
  using assms
proof (induction b i rule: fls_partial.induct)
  case (1 b i)
  show ?case
  proof (cases "i \<ge> 0 \<and> bit_word_of (nat i) = bit_word_of (nat (i + 1))")
    case True
    have "nat (i + 1) = Suc (nat i)" "nat (i - 1 + 1) = nat i" using True by auto
    then show ?thesis using True "1.IH" "1.prems"
      by (cases "bit_test b (nat i)")
         (auto simp: fls_partial.simps [of b i] last_below_step)
  next
    case False
    then have jv: "j = i" "v = - 1" using "1.prems" by (auto simp: fls_partial.simps [of b i])
    have "i mod 64 = 63" if "0 \<le> i"
    proof -
      have "nat i + 1 = 64 * (bit_word_of (nat i) + 1)"
        using that False bit_word_upper [of "nat i" "nat i + 1"] bit_word_iff [of "nat i" "bit_word_of (nat i)"]
        by (simp add: nat_add_distrib)
      from arg_cong [OF this, of int] have "i = 64 * int (bit_word_of (nat i)) + 63" using that by simp
      then show ?thesis by presburger
    qed
    then show ?thesis using jv "1.prems" by auto
  qed
qed

lemma fls_words_done: "v \<noteq> - 1 \<Longrightarrow> fls_words b i v = v"
  by (simp add: fls_words.simps)

lemma bit_fls_from_bit_last:
  "bs_bits b \<noteq> 0 \<Longrightarrow> bit_fls_from_bit b i = last_below (bit_test b) (Suc i)"
  using fls_partial_last [of b "int i"]
  by (cases "fls_partial b (int i)")
     (auto simp: bit_fls_from_bit_def fls_words_last fls_words_done nat_add_distrib split: if_splits)

lemma bit_fls_last:
  assumes "wf_bitstr b"
  shows "bit_fls b = last_below (\<lambda>i. i \<in> bset b) (bs_bits b)"
proof -
  have "last_below (bit_test b) n = last_below (\<lambda>i. i \<in> bset b) n" if "n \<le> bs_bits b" for n
    using that by (induction n) (simp_all add: last_below_step bset_def)
  then show ?thesis using wf_bits_pos [OF assms] by (simp add: bit_fls_def bit_fls_from_bit_last)
qed

lemma bit_ffs_first: "bit_ffs b = first_from (\<lambda>i. i \<in> bset b) 0 (bs_bits b)"
  by (simp add: bit_ffs_def bit_ffs_from_bit_first first_from_bset)

lemma bit_fill_gaps_correct:
  assumes "wf_bitstr b"
  shows "wf_bitstr (bit_fill_gaps b)"
    and "bset (bit_fill_gaps b) = {i. \<exists>lo \<in> bset b. \<exists>hi \<in> bset b. lo \<le> i \<and> i \<le> hi}"
proof -
  have ne: "bset (bit_fill_gaps b) = {i. \<exists>lo \<in> bset b. \<exists>hi \<in> bset b. lo \<le> i \<and> i \<le> hi}
      \<and> wf_bitstr (bit_fill_gaps b)"
  proof (rule first_from_cases [of "\<lambda>i. i \<in> bset b" 0 "bs_bits b"])
    assume none: "first_from (\<lambda>i. i \<in> bset b) 0 (bs_bits b) = - 1" "\<And>i. 0 \<le> i \<Longrightarrow> i < bs_bits b \<Longrightarrow> i \<notin> bset b"
    then have "bset b = {}" using bset_bounded [of b] by auto
    then show ?thesis using none assms by (simp add: bit_fill_gaps_def bit_ffs_first)
  next
    fix lo assume lo: "first_from (\<lambda>i. i \<in> bset b) 0 (bs_bits b) = int lo" "0 \<le> lo" "lo < bs_bits b"
      "lo \<in> bset b" "\<And>i. 0 \<le> i \<Longrightarrow> i < lo \<Longrightarrow> i \<notin> bset b"
    obtain hi where hi: "last_below (\<lambda>i. i \<in> bset b) (bs_bits b) = int hi" "hi < bs_bits b" "hi \<in> bset b"
      "\<And>i. hi < i \<Longrightarrow> i < bs_bits b \<Longrightarrow> i \<notin> bset b"
      using last_below_cases [of "\<lambda>i. i \<in> bset b" "bs_bits b"] lo by metis
    have "bit_fill_gaps b = bit_nset b lo hi"
      using lo hi assms by (simp add: bit_fill_gaps_def bit_ffs_first bit_fls_last)
    moreover have "bset b \<subseteq> {lo..hi}" using lo(5) hi(4) bset_bounded [of b] by (force simp: not_less [symmetric])
    ultimately show ?thesis using bit_nset_correct [OF assms, of lo hi] lo hi by (fastforce simp: bit_valid_def)
  qed
  then show "wf_bitstr (bit_fill_gaps b)"
    and "bset (bit_fill_gaps b) = {i. \<exists>lo \<in> bset b. \<exists>hi \<in> bset b. lo \<le> i \<and> i \<le> hi}" by auto
qed

subsection \<open>Runs of bits: \<^verbatim>\<open>bit_nffc\<close>, \<^verbatim>\<open>bit_nffs\<close>, \<^verbatim>\<open>bit_noc\<close>\<close>

text \<open>
  The counting loop the three functions share: \<open>limit\<close> is the bound of the loop
  variable, \<open>cnt\<close> the length of the run that ends just before \<open>i\<close>.
\<close>

function run_loop :: "(nat \<Rightarrow> bool) \<Rightarrow> nat \<Rightarrow> nat \<Rightarrow> nat \<Rightarrow> nat \<Rightarrow> int" where
  "run_loop P limit n i cnt =
     (if i < limit
      then if \<not> P i then run_loop P limit n (i + 1) 0
           else if cnt + 1 \<ge> n then int i - int cnt
           else run_loop P limit n (i + 1) (cnt + 1)
      else - 1)"
  by pat_completeness auto
termination
  by (relation "measure (\<lambda>(P, limit, n, i, cnt). limit - i)") auto

declare run_loop.simps [simp del]

definition bit_nffc :: "bitstr \<Rightarrow> nat \<Rightarrow> int" where
  "bit_nffc b n = run_loop (\<lambda>i. \<not> bit_test b i) (bs_bits b) n 0 0"

definition bit_nffs :: "bitstr \<Rightarrow> nat \<Rightarrow> int" where
  "bit_nffs b n = run_loop (bit_test b) (bs_bits b - n + 1) n 0 0"

text \<open>The second pass of \<^verbatim>\<open>bit_noc\<close>, which gives up at a set bit at or after the seed.\<close>

function noc_loop :: "bitstr \<Rightarrow> nat \<Rightarrow> nat \<Rightarrow> nat \<Rightarrow> nat \<Rightarrow> int" where
  "noc_loop b n seed i cnt =
     (if i < bs_bits b
      then if bit_test b i
           then if i \<ge> seed then - 1 else noc_loop b n seed (i + 1) 0
           else if cnt + 1 \<ge> n then int i - int cnt
           else noc_loop b n seed (i + 1) (cnt + 1)
      else - 1)"
  by pat_completeness auto
termination
  by (relation "measure (\<lambda>(b, n, seed, i, cnt). bs_bits b - i)") auto

declare noc_loop.simps [simp del]

definition bit_noc :: "bitstr \<Rightarrow> nat \<Rightarrow> nat \<Rightarrow> int" where
  "bit_noc b n seed =
     (let seed' = (if seed + n \<ge> bs_bits b then bs_bits b else seed);
          r = run_loop (\<lambda>i. \<not> bit_test b i) (bs_bits b) n seed' 0
      in if r \<noteq> - 1 then r else noc_loop b n seed' 0 0)"

text \<open>A run of \<open>n\<close> positions with \<open>P\<close> that starts at \<open>i\<close> and ends below \<open>limit\<close>.\<close>

definition run_at :: "(nat \<Rightarrow> bool) \<Rightarrow> nat \<Rightarrow> nat \<Rightarrow> nat \<Rightarrow> bool" where
  "run_at P limit n i \<longleftrightarrow> i + n \<le> limit \<and> (\<forall>k < n. P (i + k))"

lemma run_atD: "run_at P limit n i \<Longrightarrow> i \<le> k \<Longrightarrow> k < i + n \<Longrightarrow> P k"
  by (metis run_at_def le_iff_add nat_add_left_cancel_less)

lemma run_loop_first:
  assumes "0 < n" "cnt < n" "cnt \<le> i" "\<And>k. i - cnt \<le> k \<Longrightarrow> k < i \<Longrightarrow> P k"
  shows "run_loop P limit n i cnt = first_from (run_at P limit n) (i - cnt) limit"
  using assms(2-)
proof (induction P limit n i cnt rule: run_loop.induct)
  case (1 P limit n i cnt)
  let ?s = "i - cnt"
  show ?case
  proof (cases "i < limit")
    case False
    have "\<not> run_at P limit n k" if "?s \<le> k" for k
      using that False "1.prems" by (auto simp: run_at_def)
    then show ?thesis using False by (simp add: run_loop.simps [of P limit n i] first_from_none)
  next
    case i: True
    show ?thesis
    proof (cases "P i")
      case False
      have "\<not> run_at P limit n k" if "?s \<le> k" "k < i + 1" for k
      proof -
        have "i < k + n" using that "1.prems" by linarith
        then show ?thesis using run_atD [of P limit n k i] False that by auto
      qed
      then have "first_from (run_at P limit n) ?s limit = first_from (run_at P limit n) (i + 1) limit"
        by (intro first_from_skip) auto
      then show ?thesis using False i "1.IH"(1) "1.prems" by (simp add: run_loop.simps [of P limit n i])
    next
      case P: True
      have upto: "P k" if "?s \<le> k" "k < i + 1" for k
        using P "1.prems"(3) [of k] that by (cases "k = i") auto
      show ?thesis
      proof (cases "cnt + 1 \<ge> n")
        case True
        have "run_at P limit n ?s" using True i upto "1.prems" by (auto simp: run_at_def)
        moreover have "?s < limit" using i by simp
        ultimately have "first_from (run_at P limit n) ?s limit = int ?s"
          by (subst first_from_step) simp
        then show ?thesis using True P i "1.prems" by (simp add: run_loop.simps [of P limit n i] of_nat_diff)
      next
        case False
        then show ?thesis using P i "1.IH"(2) "1.prems" upto by (simp add: run_loop.simps [of P limit n i])
      qed
    qed
  qed
qed

lemma bit_nffc_first:
  assumes "0 < n"
  shows "bit_nffc b n = first_from (run_at (\<lambda>k. k \<notin> bset b) (bs_bits b) n) 0 (bs_bits b)"
proof -
  have "bit_nffc b n = first_from (run_at (\<lambda>i. \<not> bit_test b i) (bs_bits b) n) 0 (bs_bits b)"
    using assms run_loop_first [of n 0 0] by (simp add: bit_nffc_def)
  also have "\<dots> = first_from (run_at (\<lambda>k. k \<notin> bset b) (bs_bits b) n) 0 (bs_bits b)"
    by (intro first_from_cong) (auto simp: run_at_def bset_def)
  finally show ?thesis .
qed

lemma bit_nffs_first:
  assumes "0 < n" "n \<le> bs_bits b"
  shows "bit_nffs b n = first_from (run_at (\<lambda>k. k \<in> bset b) (bs_bits b - n + 1) n) 0 (bs_bits b - n + 1)"
proof -
  have "bit_nffs b n = first_from (run_at (bit_test b) (bs_bits b - n + 1) n) 0 (bs_bits b - n + 1)"
    using assms run_loop_first [of n 0 0] by (simp add: bit_nffs_def)
  also have "\<dots> = first_from (run_at (\<lambda>k. k \<in> bset b) (bs_bits b - n + 1) n) 0 (bs_bits b - n + 1)"
    using assms by (intro first_from_cong) (auto simp: run_at_def bset_def)
  finally show ?thesis .
qed

lemma noc_loop_first:
  assumes "0 < n" "\<And>k. seed \<le> k \<Longrightarrow> \<not> run_at (\<lambda>i. \<not> bit_test b i) (bs_bits b) n k"
    and "cnt < n" "cnt \<le> i" "\<And>k. i - cnt \<le> k \<Longrightarrow> k < i \<Longrightarrow> \<not> bit_test b k"
  shows "noc_loop b n seed i cnt =
    first_from (run_at (\<lambda>i. \<not> bit_test b i) (bs_bits b) n) (i - cnt) (bs_bits b)"
    (is "_ = first_from ?R _ _")
  using assms(3-)
proof (induction "bs_bits b - i" arbitrary: i cnt rule: less_induct)
  case less
  let ?s = "i - cnt"
  show ?case
  proof (cases "i < bs_bits b")
    case False
    have "\<not> ?R k" if "?s \<le> k" for k using that False less.prems by (auto simp: run_at_def)
    then show ?thesis using False by (simp add: noc_loop.simps [of b n seed i] first_from_none)
  next
    case i: True
    show ?thesis
    proof (cases "bit_test b i")
      case True
      have no: "\<not> ?R k" if "?s \<le> k" "k < i + 1" for k
      proof -
        have "i < k + n" using that less.prems by linarith
        then show ?thesis using run_atD [of "\<lambda>i. \<not> bit_test b i" "bs_bits b" n k i] True that by auto
      qed
      show ?thesis
      proof (cases "i \<ge> seed")
        case s: True
        have "\<not> ?R k" if "?s \<le> k" for k using no [of k] assms(2) [of k] that s by (cases "k < i + 1") auto
        then show ?thesis using True s i by (simp add: noc_loop.simps [of b n seed i] first_from_none)
      next
        case False
        have "first_from ?R ?s (bs_bits b) = first_from ?R (i + 1) (bs_bits b)"
          using no by (intro first_from_skip) auto
        then show ?thesis using True False i less.hyps [of "i + 1" 0] assms(1)
          by (simp add: noc_loop.simps [of b n seed i])
      qed
    next
      case clear: False
      have upto: "\<not> bit_test b k" if "?s \<le> k" "k < i + 1" for k
        using clear less.prems(3) [of k] that by (cases "k = i") auto
      show ?thesis
      proof (cases "cnt + 1 \<ge> n")
        case True
        have "?R ?s" using True i upto less.prems by (auto simp: run_at_def)
        moreover have "?s < bs_bits b" using i by simp
        ultimately have "first_from ?R ?s (bs_bits b) = int ?s" by (subst first_from_step) simp
        then show ?thesis using True clear i less.prems by (simp add: noc_loop.simps [of b n seed i] of_nat_diff)
      next
        case False
        then show ?thesis using clear i less.hyps [of "i + 1" "cnt + 1"] less.prems upto
          by (simp add: noc_loop.simps [of b n seed i])
      qed
    qed
  qed
qed

lemma bit_noc_first:
  fixes b :: bitstr and n seed :: nat
  assumes "0 < n"
  defines "R \<equiv> run_at (\<lambda>k. k \<notin> bset b) (bs_bits b) n"
    and "seed' \<equiv> (if seed + n \<ge> bs_bits b then bs_bits b else seed)"
  shows "bit_noc b n seed =
    (if first_from R seed' (bs_bits b) \<noteq> - 1 then first_from R seed' (bs_bits b)
     else first_from R 0 (bs_bits b))"
proof -
  have R: "run_at (\<lambda>i. \<not> bit_test b i) (bs_bits b) n = R"
    by (auto simp: R_def run_at_def bset_def fun_eq_iff)
  have first: "run_loop (\<lambda>i. \<not> bit_test b i) (bs_bits b) n seed' 0 = first_from R seed' (bs_bits b)"
    using assms(1) run_loop_first [of n 0 seed'] R by simp
  have "noc_loop b n seed' 0 0 = first_from R 0 (bs_bits b)"
    if none: "first_from R seed' (bs_bits b) = - 1"
  proof -
    have "\<not> R k" if "seed' \<le> k" for k
      using none that assms(1)
      by (cases rule: first_from_cases [of R seed' "bs_bits b"]) (auto simp: R_def run_at_def)
    then show ?thesis using assms(1) noc_loop_first [of n seed' b 0 0] R by simp
  qed
  then show ?thesis unfolding bit_noc_def Let_def seed'_def [symmetric] by (simp add: first)
qed

subsection \<open>The n-th set bit and the longest run\<close>

function bit_num_loop :: "bitstr \<Rightarrow> nat \<Rightarrow> nat \<Rightarrow> nat \<Rightarrow> int" where
  "bit_num_loop b pos i cnt =
     (if i < bs_bits b
      then if bit_test b i
           then if cnt = pos then int i else bit_num_loop b pos (i + 1) (cnt + 1)
           else bit_num_loop b pos (i + 1) cnt
      else - 1)"
  by pat_completeness auto
termination
  by (relation "measure (\<lambda>(b, pos, i, cnt). bs_bits b - i)") auto

declare bit_num_loop.simps [simp del]

definition bit_get_bit_num :: "bitstr \<Rightarrow> nat \<Rightarrow> int" where
  "bit_get_bit_num b pos = bit_num_loop b pos 0 0"

function nset_max_loop :: "bitstr \<Rightarrow> nat \<Rightarrow> nat \<Rightarrow> nat \<Rightarrow> nat" where
  "nset_max_loop b i cnt maxcnt =
     (if i < bs_bits b
      then let cnt' = (if \<not> bit_test b i then 0 else cnt + 1);
               maxcnt' = (if cnt' > maxcnt then cnt' else maxcnt)
           in if cnt' = 0 \<and> bs_bits b - i < maxcnt' then maxcnt'
              else nset_max_loop b (i + 1) cnt' maxcnt'
      else maxcnt)"
  by pat_completeness auto
termination
  by (relation "measure (\<lambda>(b, i, cnt, maxcnt). bs_bits b - i)") auto

declare nset_max_loop.simps [simp del]

definition bit_nset_max_count :: "bitstr \<Rightarrow> nat" where
  "bit_nset_max_count b = nset_max_loop b 0 0 0"

text \<open>The positions that are set, in increasing order.\<close>

definition set_positions :: "bitstr \<Rightarrow> nat list" where
  "set_positions b = filter (bit_test b) [0..<bs_bits b]"

lemma set_positions_set [simp]: "set (set_positions b) = bset b"
  by (auto simp: set_positions_def bset_def)

lemma set_positions_sorted [simp]: "sorted_wrt (<) (set_positions b)" "distinct (set_positions b)"
  by (simp_all add: set_positions_def sorted_wrt_filter)

lemma bit_num_loop_nth:
  "cnt \<le> pos \<Longrightarrow> bit_num_loop b pos i cnt =
     (let l = filter (bit_test b) [i..<bs_bits b]
      in if pos - cnt < length l then int (l ! (pos - cnt)) else - 1)"
proof (induction b pos i cnt rule: bit_num_loop.induct)
  case (1 b pos i cnt)
  then show ?case
    by (subst bit_num_loop.simps)
       (auto simp: upt_conv_Cons Let_def Suc_diff_Suc nth_Cons' less_Suc_eq_le split: if_splits)
qed

lemma bit_get_bit_num_nth:
  "bit_get_bit_num b pos =
     (if pos < length (set_positions b) then int (set_positions b ! pos) else - 1)"
  by (simp add: bit_get_bit_num_def bit_num_loop_nth set_positions_def Let_def)

definition longest_run :: "(nat \<Rightarrow> bool) \<Rightarrow> nat \<Rightarrow> nat \<Rightarrow> bool" where
  "longest_run P m r \<longleftrightarrow> (\<exists>s. run_at P m r s) \<and> (\<forall>n s. run_at P m n s \<longrightarrow> n \<le> r)"

definition last_run :: "(nat \<Rightarrow> bool) \<Rightarrow> nat \<Rightarrow> nat \<Rightarrow> bool" where
  "last_run P m c \<longleftrightarrow> c \<le> m \<and> (\<forall>k. m - c \<le> k \<and> k < m \<longrightarrow> P k) \<and> (c < m \<longrightarrow> \<not> P (m - Suc c))"

lemma run_at_mono: "run_at P m n s \<Longrightarrow> m \<le> m' \<Longrightarrow> run_at P m' n s"
  by (simp add: run_at_def)

lemma last_run_le:
  assumes "last_run P m c" "run_at P m n s" "s + n = m"
  shows "n \<le> c"
proof (rule ccontr)
  assume "\<not> n \<le> c"
  then have "P (m - Suc c)" using assms by (intro run_atD [OF assms(2)]) auto
  then show False using assms \<open>\<not> n \<le> c\<close> by (simp add: last_run_def)
qed

lemma last_run_step: "last_run P m c \<Longrightarrow> last_run P (Suc m) (if P m then Suc c else 0)"
  by (auto simp: last_run_def less_Suc_eq)

lemma longest_run_step:
  assumes "longest_run P m r" "last_run P (Suc m) c"
  shows "longest_run P (Suc m) (max r c)"
proof -
  have "run_at P (Suc m) c (Suc m - c)" unfolding run_at_def
  proof (intro conjI allI impI)
    fix k assume "k < c"
    then have "Suc m - c \<le> Suc m - c + k" "Suc m - c + k < Suc m" using assms(2) by (auto simp: last_run_def)
    then show "P (Suc m - c + k)" using assms(2) unfolding last_run_def by blast
  qed (use assms(2) in \<open>simp add: last_run_def\<close>)
  moreover obtain s where "run_at P (Suc m) r s"
    using assms(1) run_at_mono [of P m r _ "Suc m"] by (auto simp: longest_run_def)
  moreover have "n \<le> max r c" if "run_at P (Suc m) n s" for n s
  proof (cases "s + n = Suc m")
    case True
    then show ?thesis using last_run_le [OF assms(2) that] by simp
  next
    case False
    then have "run_at P m n s" using that by (auto simp: run_at_def)
    then show ?thesis using assms(1) by (auto simp: longest_run_def)
  qed
  ultimately show ?thesis unfolding longest_run_def by (metis max_def)
qed

lemma longest_run_cut:
  assumes "longest_run P (Suc i) r" "\<not> P i" "m - i < r" "i < m"
  shows "longest_run P m r"
proof -
  have "n \<le> r" if "run_at P m n s" for n s
  proof (cases "s + n \<le> Suc i")
    case True
    then have "run_at P (Suc i) n s" using that by (simp add: run_at_def)
    then show ?thesis using assms(1) by (auto simp: longest_run_def)
  next
    case False
    then have "i < s" using run_atD [OF that, of i] assms(2) by force
    moreover have "s + n \<le> m" using that by (simp add: run_at_def)
    ultimately show ?thesis using assms(3) by linarith
  qed
  then show ?thesis using assms(1,4) run_at_mono [of P "Suc i" r _ m] by (auto simp: longest_run_def)
qed

lemma nset_max_loop_longest:
  "i \<le> bs_bits b \<Longrightarrow> longest_run (bit_test b) i maxcnt \<Longrightarrow> last_run (bit_test b) i cnt \<Longrightarrow>
     longest_run (bit_test b) (bs_bits b) (nset_max_loop b i cnt maxcnt)"
proof (induction b i cnt maxcnt rule: nset_max_loop.induct)
  case (1 b i cnt maxcnt)
  show ?case
  proof (cases "i < bs_bits b")
    case False
    then have "i = bs_bits b" "nset_max_loop b i cnt maxcnt = maxcnt"
      using "1.prems"(1) by (simp, subst nset_max_loop.simps, simp)
    then show ?thesis using "1.prems" by simp
  next
    case True
    define c where "c = (if \<not> bit_test b i then 0 else cnt + 1)"
    have L: "last_run (bit_test b) (Suc i) c"
      using last_run_step [OF "1.prems"(3)] by (simp add: c_def split: if_splits)
    have M: "longest_run (bit_test b) (Suc i) (max maxcnt c)"
      using longest_run_step "1.prems"(2) L by blast
    have mx: "(if c > maxcnt then c else maxcnt) = max maxcnt c" by auto
    have eq: "nset_max_loop b i cnt maxcnt = (if c = 0 \<and> bs_bits b - i < max maxcnt c then max maxcnt c
        else nset_max_loop b (i + 1) c (max maxcnt c))"
      using True unfolding nset_max_loop.simps [of b i] Let_def c_def [symmetric] mx by simp
    note IH = "1.IH" [OF True refl refl, folded c_def, unfolded mx]
    show ?thesis
    proof (cases "c = 0 \<and> bs_bits b - i < max maxcnt c")
      case cut: True
      then show ?thesis using longest_run_cut [OF M] True by (auto simp: eq c_def split: if_splits)
    next
      case False
      then show ?thesis using IH [OF False] True L M by (auto simp: eq)
    qed
  qed
qed

lemma bit_nset_max_count_longest: "longest_run (bit_test b) (bs_bits b) (bit_nset_max_count b)"
  unfolding bit_nset_max_count_def
  by (intro nset_max_loop_longest) (auto simp: longest_run_def last_run_def run_at_def)

end
