(* ===== verification/Bitstring_Ops.thy ===== *)
theory Bitstring_Ops
  imports Bitstring_Search
begin

text \<open>
  Whole-string operations of \<^verbatim>\<open>src/common/bitstring.c\<close>: the boolean algebra, copying,
  comparison, counting, rotation and selection. Each is a loop over whole words
  with a masked last word; each is shown to compute the set operation it is
  named after.
\<close>

subsection \<open>Word by word updates\<close>

text \<open>
  The loop \<^verbatim>\<open>for (bit = 0; bit + 64 <= bit_cnt; bit += 64) b1[w] = g(b1[w], b2[w])\<close>
  of the five boolean operations; it returns the array and the final \<open>bit\<close>.
\<close>

function word_loop :: "(u64 \<Rightarrow> u64 \<Rightarrow> u64) \<Rightarrow> u64 list \<Rightarrow> nat \<Rightarrow> nat \<Rightarrow> u64 list \<Rightarrow> u64 list \<times> nat" where
  "word_loop g ws2 bit_cnt i ws =
     (if i + 64 \<le> bit_cnt
      then word_loop g ws2 bit_cnt (i + 64)
             (ws[bit_word_of i := g (ws ! bit_word_of i) (ws2 ! bit_word_of i)])
      else (ws, i))"
  by pat_completeness auto
termination
  by (relation "measure (\<lambda>(g, ws2, bit_cnt, i, ws). bit_cnt - i)") auto

declare word_loop.simps [simp del]

definition bit_and :: "bitstr \<Rightarrow> bitstr \<Rightarrow> bitstr" where
  "bit_and b1 b2 =
     (let bit_cnt = min (bs_bits b1) (bs_bits b2);
          (ws, i) = word_loop (\<lambda>x y. x AND y) (bs_words b2) bit_cnt 0 (bs_words b1)
      in b1\<lparr>bs_words := if i < bit_cnt
                         then let mask = NOT (bit_nmask bit_cnt)
                              in ws[bit_word_of i := ws ! bit_word_of i AND (bs_words b2 ! bit_word_of i OR mask)]
                         else ws\<rparr>)"

definition bit_and_not :: "bitstr \<Rightarrow> bitstr \<Rightarrow> bitstr" where
  "bit_and_not b1 b2 =
     (let bit_cnt = min (bs_bits b1) (bs_bits b2);
          (ws, i) = word_loop (\<lambda>x y. x AND NOT y) (bs_words b2) bit_cnt 0 (bs_words b1)
      in b1\<lparr>bs_words := if i < bit_cnt
                         then let mask = bit_nmask bit_cnt
                              in ws[bit_word_of i := ws ! bit_word_of i AND NOT (bs_words b2 ! bit_word_of i AND mask)]
                         else ws\<rparr>)"

definition bit_or :: "bitstr \<Rightarrow> bitstr \<Rightarrow> bitstr" where
  "bit_or b1 b2 =
     (let bit_cnt = min (bs_bits b1) (bs_bits b2);
          (ws, i) = word_loop (\<lambda>x y. x OR y) (bs_words b2) bit_cnt 0 (bs_words b1)
      in b1\<lparr>bs_words := if i < bit_cnt
                         then let mask = bit_nmask bit_cnt
                              in ws[bit_word_of i := ws ! bit_word_of i OR (bs_words b2 ! bit_word_of i AND mask)]
                         else ws\<rparr>)"

definition bit_or_not :: "bitstr \<Rightarrow> bitstr \<Rightarrow> bitstr" where
  "bit_or_not b1 b2 =
     (let bit_cnt = min (bs_bits b1) (bs_bits b2);
          (ws, i) = word_loop (\<lambda>x y. x OR NOT y) (bs_words b2) bit_cnt 0 (bs_words b1)
      in b1\<lparr>bs_words := if i < bit_cnt
                         then let mask = NOT (bit_nmask bit_cnt)
                              in ws[bit_word_of i := ws ! bit_word_of i OR NOT (bs_words b2 ! bit_word_of i OR mask)]
                         else ws\<rparr>)"

function not_loop :: "nat \<Rightarrow> nat \<Rightarrow> u64 list \<Rightarrow> u64 list" where
  "not_loop bits i ws =
     (if i < bits then not_loop bits (i + 64) (ws[bit_word_of i := NOT (ws ! bit_word_of i)]) else ws)"
  by pat_completeness auto
termination
  by (relation "measure (\<lambda>(bits, i, ws). bits - i)") auto

declare not_loop.simps [simp del]

definition bit_not :: "bitstr \<Rightarrow> bitstr" where
  "bit_not b = b\<lparr>bs_words := not_loop (bs_bits b) 0 (bs_words b)\<rparr>"

definition bit_copybits :: "bitstr \<Rightarrow> bitstr \<Rightarrow> bitstr" where
  "bit_copybits dest src =
     dest\<lparr>bs_words := take (bitstr_words (bit_size src)) (bs_words src)
                      @ drop (bitstr_words (bit_size src)) (bs_words dest)\<rparr>"

definition bit_copy :: "bitstr \<Rightarrow> bitstr" where
  "bit_copy b =
     (let new = bit_alloc (bit_size b); n = bitstr_words (bit_size b)
      in new\<lparr>bs_words := take n (bs_words b) @ drop n (bs_words new)\<rparr>)"

lemma bit_word_mult [simp]: "bit_word_of (64 * j) = j"
  by (simp add: bit_word_of_def)

lemma word_loop_spec:
  assumes "word_loop g ws2 bit_cnt i ws = (ws', i')" "i = 64 * j" "i \<le> bit_cnt \<or> i = 0"
    and "bit_cnt \<le> 64 * length ws"
  shows "length ws' = length ws \<and> i' = 64 * (bit_cnt div 64) \<and>
    (\<forall>k < length ws. ws' ! k = (if j \<le> k \<and> k < bit_cnt div 64 then g (ws ! k) (ws2 ! k) else ws ! k))"
  using assms
proof (induction g ws2 bit_cnt i ws arbitrary: j rule: word_loop.induct)
  case (1 g ws2 bit_cnt i ws)
  show ?case
  proof (cases "i + 64 \<le> bit_cnt")
    case True
    let ?ws = "ws[j := g (ws ! j) (ws2 ! j)]"
    have rec: "word_loop g ws2 bit_cnt (i + 64) ?ws = (ws', i')"
      using True "1.prems"(1,2) by (simp add: word_loop.simps [of g ws2 bit_cnt "64 * j"])
    have "j < bit_cnt div 64" using True "1.prems"(2) by linarith
    then show ?thesis
      using "1.IH" [of "Suc j"] True rec "1.prems"(2,4) by (auto simp: nth_list_update Suc_le_eq le_less)
  next
    case False
    then show ?thesis using "1.prems" by (auto simp: word_loop.simps [of g ws2 bit_cnt "64 * j"])
  qed
qed

text \<open>
  The interface of one boolean operation: \<open>g\<close> on whole words, \<open>h\<close> on the last word
  under the mask of its valid bits, both computing \<open>G\<close> bit by bit.
\<close>

locale word_op =
  fixes g :: "u64 \<Rightarrow> u64 \<Rightarrow> u64" and h :: "u64 \<Rightarrow> u64 \<Rightarrow> u64 \<Rightarrow> u64" and G :: "bool \<Rightarrow> bool \<Rightarrow> bool"
  assumes g_bit: "k < 64 \<Longrightarrow> bit (g x y) k \<longleftrightarrow> G (bit x k) (bit y k)"
    and h_bit: "k < 64 \<Longrightarrow> bit (h m x y) k \<longleftrightarrow> (if bit m k then G (bit x k) (bit y k) else bit x k)"
begin

lemma masked_loop:
  assumes loop: "word_loop g ws2 n 0 ws1 = (ws, i)" and len: "n \<le> 64 * length ws1" "n \<le> 64 * length ws2"
  defines "ws' \<equiv> (if i < n then ws[bit_word_of i := h (bit_nmask n) (ws ! bit_word_of i) (ws2 ! bit_word_of i)] else ws)"
  shows "length ws' = length ws1"
    and "wbit ws' k \<longleftrightarrow> (if k < n then G (wbit ws1 k) (wbit ws2 k) else wbit ws1 k)"
proof -
  note L = word_loop_spec [OF loop, of 0] len
  have i: "i = 64 * (n div 64)" "bit_word_of i = n div 64" using L by auto
  show len': "length ws' = length ws1" using L by (simp add: ws'_def)
  show "wbit ws' k \<longleftrightarrow> (if k < n then G (wbit ws1 k) (wbit ws2 k) else wbit ws1 k)"
  proof (cases "k < 64 * length ws1")
    case False
    then show ?thesis using len len' by (simp add: wbit_def)
  next
    case k: True
    let ?w = "k div 64"
    have w: "?w < length ws1" using k by (rule div64_less)
    have in2: "k < n \<Longrightarrow> k < 64 * length ws2" using len by simp
    consider "?w < n div 64" | "?w = n div 64" "i < n" | "n div 64 \<le> ?w" "\<not> (?w = n div 64 \<and> i < n)"
      by linarith
    then show ?thesis
    proof cases
      case 1
      then have "ws' ! ?w = g (ws1 ! ?w) (ws2 ! ?w)" using L w by (auto simp: ws'_def i nth_list_update)
      moreover have "k < n" using 1 by (metis div_le_mono not_less)
      ultimately show ?thesis using k in2 len' by (simp add: wbit_def g_bit)
    next
      case 2
      then have "ws' ! ?w = h (bit_nmask n) (ws1 ! ?w) (ws2 ! ?w)" using L w by (auto simp: ws'_def i nth_list_update)
      moreover have "k < n \<longleftrightarrow> k mod 64 < n mod 64"
        using 2 div_mult_mod_eq [of k 64] div_mult_mod_eq [of n 64] by linarith
      ultimately show ?thesis using k in2 len' by (auto simp: wbit_def h_bit)
    next
      case 3
      then have "ws' ! ?w = ws1 ! ?w" using L w by (auto simp: ws'_def i nth_list_update)
      moreover have "\<not> k < n" using 3 i div_mult_mod_eq [of n 64] div_mult_mod_eq [of k 64] 
        by (metis div_le_mono le_antisym le_less_trans less_imp_le_nat mult.commute times_div_less_eq_dividend)
      ultimately show ?thesis using k len' by (simp add: wbit_def)
    qed
  qed
qed

definition apply_op :: "bitstr \<Rightarrow> bitstr \<Rightarrow> bitstr" where
  "apply_op b1 b2 =
     (let n = min (bs_bits b1) (bs_bits b2);
          (ws, i) = word_loop g (bs_words b2) n 0 (bs_words b1)
      in b1\<lparr>bs_words := if i < n
            then ws[bit_word_of i := h (bit_nmask n) (ws ! bit_word_of i) (bs_words b2 ! bit_word_of i)]
            else ws\<rparr>)"

lemma apply_op:
  assumes "wf_bitstr b1" "wf_bitstr b2"
  shows "wf_bitstr (apply_op b1 b2)" and "bs_bits (apply_op b1 b2) = bs_bits b1"
    and "i \<in> bset (apply_op b1 b2) \<longleftrightarrow>
      i < bs_bits b1 \<and> (if i < bs_bits b2 then G (i \<in> bset b1) (i \<in> bset b2) else i \<in> bset b1)"
proof -
  let ?n = "min (bs_bits b1) (bs_bits b2)"
  obtain ws j where loop: "word_loop g (bs_words b2) ?n 0 (bs_words b1) = (ws, j)" by fastforce
  have len: "?n \<le> 64 * length (bs_words b1)" "?n \<le> 64 * length (bs_words b2)"
    using assms bitstr_words_bound(1) by (simp_all add: wf_bitstr_def min.coboundedI1 min.coboundedI2)
  note M = masked_loop [OF loop len]
  show wf: "wf_bitstr (apply_op b1 b2)"
    using M(1) assms(1) by (simp add: apply_op_def loop wf_bitstr_def bitstr_valid_def)
  show bits: "bs_bits (apply_op b1 b2) = bs_bits b1" by (simp add: apply_op_def loop)
  show "i \<in> bset (apply_op b1 b2) \<longleftrightarrow>
      i < bs_bits b1 \<and> (if i < bs_bits b2 then G (i \<in> bset b1) (i \<in> bset b2) else i \<in> bset b1)"
    using M(2) [of i] assms by (simp add: bset_wbit wf bits) (auto simp: apply_op_def loop)
qed

end

interpretation and_op: word_op "\<lambda>x y. x AND y" "\<lambda>m x y. x AND (y OR NOT m)" "(\<and>)"
  by unfold_locales (auto simp: bit_and_iff bit_or_iff bit_not_iff)

interpretation and_not_op: word_op "\<lambda>x y. x AND NOT y" "\<lambda>m x y. x AND NOT (y AND m)" "\<lambda>x y. x \<and> \<not> y"
  by unfold_locales (auto simp: bit_and_iff bit_or_iff bit_not_iff)

interpretation or_op: word_op "\<lambda>x y. x OR y" "\<lambda>m x y. x OR (y AND m)" "(\<or>)"
  by unfold_locales (auto simp: bit_and_iff bit_or_iff bit_not_iff)

interpretation or_not_op: word_op "\<lambda>x y. x OR NOT y" "\<lambda>m x y. x OR NOT (y OR NOT m)" "\<lambda>x y. x \<or> \<not> y"
  by unfold_locales (auto simp: bit_and_iff bit_or_iff bit_not_iff)

lemma bit_and_apply: "bit_and b1 b2 = and_op.apply_op b1 b2"
  unfolding bit_and_def and_op.apply_op_def Let_def by (rule refl)

lemma bit_and_not_apply: "bit_and_not b1 b2 = and_not_op.apply_op b1 b2"
  unfolding bit_and_not_def and_not_op.apply_op_def Let_def by (rule refl)

lemma bit_or_apply: "bit_or b1 b2 = or_op.apply_op b1 b2"
  unfolding bit_or_def or_op.apply_op_def Let_def by (rule refl)

lemma bit_or_not_apply: "bit_or_not b1 b2 = or_not_op.apply_op b1 b2"
  unfolding bit_or_not_def or_not_op.apply_op_def Let_def by (rule refl)

lemmas boolean_ops_facts =
  and_op.apply_op [folded bit_and_apply] and_not_op.apply_op [folded bit_and_not_apply]
  or_op.apply_op [folded bit_or_apply] or_not_op.apply_op [folded bit_or_not_apply]

lemma bset_boolean_ops:
  assumes "wf_bitstr b1" "wf_bitstr b2"
  shows "bset (bit_and b1 b2) = bset b1 \<inter> (bset b2 \<union> {bs_bits b2..})"
    and "bset (bit_and_not b1 b2) = bset b1 - bset b2"
    and "bset (bit_or b1 b2) = bset b1 \<union> (bset b2 \<inter> {..<bs_bits b1})"
    and "bset (bit_or_not b1 b2) = bset b1 \<union> ({..<bs_bits b1} \<inter> {..<bs_bits b2} - bset b2)"
  using bset_less [of _ b1] bset_less [of _ b2]
  by (auto simp: boolean_ops_facts [OF assms] not_less split: if_splits)

subsection \<open>Complement and copies\<close>

lemma not_loop_spec:
  "bits \<le> 64 * length ws \<Longrightarrow>
     length (not_loop bits (64 * j) ws) = length ws \<and>
     (\<forall>k < length ws. not_loop bits (64 * j) ws ! k =
        (if j \<le> k \<and> 64 * k < bits then NOT (ws ! k) else ws ! k))"
proof (induction bits "64 * j" ws arbitrary: j rule: not_loop.induct)
  case (1 bits ws j)
  show ?case
  proof (cases "64 * j < bits")
    case True
    have eq: "not_loop bits (64 * j) ws = not_loop bits (64 * Suc j) (ws[j := NOT (ws ! j)])"
      using True by (simp add: not_loop.simps [of bits "64 * j"] add.commute)
    show ?thesis unfolding eq
      using "1.hyps" [of "Suc j"] True "1.prems" by (auto simp: nth_list_update Suc_le_eq le_less)
  next
    case False
    then show ?thesis by (auto simp: not_loop.simps [of bits "64 * j"])
  qed
qed

lemma bit_not_correct:
  assumes "wf_bitstr b"
  shows "wf_bitstr (bit_not b)" "bs_bits (bit_not b) = bs_bits b"
    and "bset (bit_not b) = {..<bs_bits b} - bset b"
    and "\<And>i. i < 64 * length (bs_words b) \<Longrightarrow> wbit (bs_words (bit_not b)) i \<longleftrightarrow> \<not> wbit (bs_words b) i"
proof -
  have len: "bs_bits b \<le> 64 * length (bs_words b)" "64 * length (bs_words b) < bs_bits b + 64"
    using assms bitstr_words_bound by (simp_all add: wf_bitstr_def)
  note N = not_loop_spec [OF len(1), of 0]
  show wf: "wf_bitstr (bit_not b)" using N assms by (simp add: bit_not_def wf_bitstr_def bitstr_valid_def)
  show bits: "bs_bits (bit_not b) = bs_bits b" by (simp add: bit_not_def)
  have all: "64 * k < bs_bits b" if "k < length (bs_words b)" for k using that len(2) by linarith
  show W: "wbit (bs_words (bit_not b)) i \<longleftrightarrow> \<not> wbit (bs_words b) i" if "i < 64 * length (bs_words b)" for i
    using that N all [of "i div 64"] div64_less [OF that] by (simp add: bit_not_def wbit_def bit_not_iff)
  show "bset (bit_not b) = {..<bs_bits b} - bset b"
    using W wf_bound [OF assms] by (auto simp: bset_wbit wf bits assms)
qed

lemma bit_copybits_eq:
  assumes "wf_bitstr dest" "wf_bitstr src" "bit_size src = bit_size dest"
  shows "bit_copybits dest src = src"
  using assms by (simp add: bit_copybits_def wf_bitstr_def bitstr_valid_def bit_size_def)

lemma bit_copy_eq: "wf_bitstr b \<Longrightarrow> bit_copy b = b"
  by (simp add: bit_copy_def bit_alloc_def wf_bitstr_def bitstr_valid_def bit_size_def Let_def)

subsection \<open>Comparisons\<close>

function equal_loop :: "u64 list \<Rightarrow> u64 list \<Rightarrow> nat \<Rightarrow> nat \<Rightarrow> nat option" where
  "equal_loop ws1 ws2 bit_cnt i =
     (if i + 64 \<le> bit_cnt
      then if ws1 ! bit_word_of i \<noteq> ws2 ! bit_word_of i then None
           else equal_loop ws1 ws2 bit_cnt (i + 64)
      else Some i)"
  by pat_completeness auto
termination
  by (relation "measure (\<lambda>(ws1, ws2, bit_cnt, i). bit_cnt - i)") auto

declare equal_loop.simps [simp del]

text \<open>\<^verbatim>\<open>None\<close> is the early \<^verbatim>\<open>return 0\<close> of the loop.\<close>

definition bit_equal :: "bitstr \<Rightarrow> bitstr \<Rightarrow> bool" where
  "bit_equal b1 b2 =
     (if bs_bits b1 \<noteq> bs_bits b2 then False
      else let bit_cnt = bs_bits b1
           in case equal_loop (bs_words b1) (bs_words b2) bit_cnt 0 of
                None \<Rightarrow> False
              | Some i \<Rightarrow>
                  if i < bit_cnt
                  then \<not> ((bs_words b1 ! bit_word_of i XOR bs_words b2 ! bit_word_of i) AND bit_nmask bit_cnt \<noteq> 0)
                  else True)"

function super_set_loop :: "bitstr \<Rightarrow> bitstr \<Rightarrow> nat \<Rightarrow> bool" where
  "super_set_loop b1 b2 i =
     (if i < bs_bits b1
      then let x = bs_words b1 ! bit_word_of i; y = bs_words b2 ! bit_word_of i
           in if x \<noteq> x AND y
              then if i + 64 \<le> bs_bits b1 then False
                   else let mask = bit_nmask (bs_bits b1)
                        in if x AND mask \<noteq> x AND y AND mask then False
                           else super_set_loop b1 b2 (i + 64)
              else super_set_loop b1 b2 (i + 64)
      else True)"
  by pat_completeness auto
termination
  by (relation "measure (\<lambda>(b1, b2, i). bs_bits b1 - i)") auto

declare super_set_loop.simps [simp del]

definition bit_super_set :: "bitstr \<Rightarrow> bitstr \<Rightarrow> bool" where
  "bit_super_set b1 b2 = super_set_loop b1 b2 0"

text \<open>
  Splitting a statement about all positions below \<open>n\<close> into the whole words and
  the valid bits of the last one.
\<close>

lemma all_below_words:
  fixes n :: nat
  shows "(\<forall>k < n. Q k) \<longleftrightarrow>
     (\<forall>j < n div 64. \<forall>d < 64. Q (64 * j + d)) \<and> (\<forall>d < n mod 64. Q (64 * (n div 64) + d))"
proof (intro iffI conjI allI impI; (elim conjE)?)
  fix j d :: nat assume all: "\<forall>k < n. Q k" and "j < n div 64" "d < 64"
  then have "64 * j + d < n" by linarith
  then show "Q (64 * j + d)" using all by blast
next
  fix d assume all: "\<forall>k < n. Q k" and "d < n mod 64"
  then have "64 * (n div 64) + d < n" using mult_div_mod_eq [of 64 n] by linarith
  then show "Q (64 * (n div 64) + d)" using all by blast
next
  fix k assume w: "\<forall>j < n div 64. \<forall>d < 64. Q (64 * j + d)" "\<forall>d < n mod 64. Q (64 * (n div 64) + d)" and "k < n"
  have k: "k = 64 * (k div 64) + k mod 64" by simp
  show "Q k"
  proof (cases "k div 64 < n div 64")
    case True
    then show ?thesis using w(1) [rule_format, OF True, of "k mod 64"] by simp
  next
    case False
    then have "k div 64 = n div 64" using \<open>k < n\<close> div_le_mono [of k n 64] by linarith
    moreover have "k mod 64 < n mod 64"
      using \<open>k < n\<close> calculation mult_div_mod_eq [of 64 n] mult_div_mod_eq [of 64 k] by linarith
    ultimately have "k div 64 = n div 64" "k mod 64 < n mod 64" .
    then show ?thesis using w(2) k by metis
  qed
qed

lemma equal_loop_spec:
  "equal_loop ws1 ws2 n (64 * j) =
     (if \<forall>k. j \<le> k \<and> k < n div 64 \<longrightarrow> ws1 ! k = ws2 ! k
      then Some (64 * max j (n div 64)) else None)"
proof (induction "n div 64 - j" arbitrary: j)
  case 0
  then have "\<not> 64 * j + 64 \<le> n" "max j (n div 64) = j" by linarith+
  then show ?case using 0 by (subst equal_loop.simps) auto
next
  case (Suc d)
  then have "64 * j + 64 \<le> n" "max j (n div 64) = max (Suc j) (n div 64)" by linarith+
  then have "equal_loop ws1 ws2 n (64 * j) =
      (if ws1 ! j \<noteq> ws2 ! j then None else equal_loop ws1 ws2 n (64 * Suc j))"
    by (subst equal_loop.simps) (simp add: add.commute)
  moreover have "d = n div 64 - Suc j" "j < n div 64" using Suc.hyps(2) by linarith+
  moreover have "(\<forall>k. j \<le> k \<and> k < n div 64 \<longrightarrow> ws1 ! k = ws2 ! k) \<longleftrightarrow>
      ws1 ! j = ws2 ! j \<and> (\<forall>k. Suc j \<le> k \<and> k < n div 64 \<longrightarrow> ws1 ! k = ws2 ! k)"
    using \<open>j < n div 64\<close> by (metis Suc_leD Suc_leI le_neq_implies_less order_refl)
  ultimately show ?case
    using Suc.hyps(1) [of "Suc j"] \<open>max j (n div 64) = max (Suc j) (n div 64)\<close> by simp
qed

lemma nmask_zero_iff:
  "x AND bit_nmask n = 0 \<longleftrightarrow> (\<forall>d < n mod 64. \<not> bit x d)"
proof -
  have "x AND bit_nmask n = 0 \<longleftrightarrow> (\<forall>d < 64. \<not> (bit x d \<and> d < n mod 64))"
    by (simp add: word64_zero_iff bit_and_iff)
  moreover have "n mod 64 < 64" by simp
  ultimately show ?thesis by (meson less_trans)
qed

lemma wbit_at: "64 * j + d < 64 * length ws \<Longrightarrow> d < 64 \<Longrightarrow> wbit ws (64 * j + d) \<longleftrightarrow> bit (ws ! j) d"
  by (simp add: wbit_def)

lemma word_eq_bits: "(x :: u64) = y \<longleftrightarrow> (\<forall>d < 64. bit x d = bit y d)"
  using word64_eqI [of x y] by auto

lemma bit_equal_correct:
  assumes "wf_bitstr b1" "wf_bitstr b2"
  shows "bit_equal b1 b2 \<longleftrightarrow> bs_bits b1 = bs_bits b2 \<and> bset b1 = bset b2"
proof (cases "bs_bits b1 = bs_bits b2")
  case False
  then show ?thesis by (simp add: bit_equal_def)
next
  case True
  define n where "n = bs_bits b1"
  have len: "n \<le> 64 * length (bs_words b1)" "n \<le> 64 * length (bs_words b2)"
    using assms True bitstr_words_bound(1) by (simp_all add: wf_bitstr_def n_def)
  have r: "64 * (n div 64) < n \<longleftrightarrow> 0 < n mod 64" using mult_div_mod_eq [of 64 n] by linarith
  have "bit_equal b1 b2 \<longleftrightarrow> (\<forall>j < n div 64. bs_words b1 ! j = bs_words b2 ! j) \<and>
      (\<forall>d < n mod 64. bit (bs_words b1 ! (n div 64)) d = bit (bs_words b2 ! (n div 64)) d)"
    using True equal_loop_spec [of "bs_words b1" "bs_words b2" n 0] r
    by (auto simp: bit_equal_def n_def [symmetric] Let_def nmask_zero_iff bit_xor_iff)
  also have "\<dots> \<longleftrightarrow> (\<forall>k < n. wbit (bs_words b1) k = wbit (bs_words b2) k)"
  proof -
    have "wbit ws (64 * j + d) \<longleftrightarrow> bit (ws ! j) d"
      if "n \<le> 64 * length ws" "j < n div 64" "d < 64" for ws j d
      using that by (intro wbit_at) linarith+
    moreover have "wbit ws (64 * (n div 64) + d) \<longleftrightarrow> bit (ws ! (n div 64)) d"
      if "n \<le> 64 * length ws" "d < n mod 64" for ws d
    proof (intro wbit_at)
      show "d < 64" using that(2) mod_less_divisor [of 64 n] by simp
      show "64 * (n div 64) + d < 64 * length ws" using that mult_div_mod_eq [of 64 n] by linarith
    qed
    ultimately show ?thesis using len unfolding all_below_words [of n] word_eq_bits by simp
  qed
  also have "\<dots> \<longleftrightarrow> bset b1 = bset b2" using True assms by (auto simp: bset_wbit n_def set_eq_iff)
  finally show ?thesis using True by simp
qed

lemma from_word_split:
  "(\<forall>k. 64 * j \<le> k \<and> k < n \<longrightarrow> Q k) \<longleftrightarrow>
     (\<forall>d < 64. 64 * j + d < n \<longrightarrow> Q (64 * j + d)) \<and> (\<forall>k. 64 * Suc j \<le> k \<and> k < n \<longrightarrow> Q k)"
proof (intro iffI conjI allI impI; (elim conjE)?)
  fix k assume a: "\<forall>d < 64. 64 * j + d < n \<longrightarrow> Q (64 * j + d)"
    "\<forall>k. 64 * Suc j \<le> k \<and> k < n \<longrightarrow> Q k" "64 * j \<le> k" "k < n"
  show "Q k"
  proof (cases "64 * Suc j \<le> k")
    case False
    then show ?thesis using a(1) [rule_format, of "k - 64 * j"] a(3,4) by simp
  qed (use a in blast)
qed auto

lemma super_set_word:
  assumes "64 * j < n"
  shows "(\<forall>d < 64. 64 * j + d < n \<longrightarrow> bit x d \<longrightarrow> bit y d) \<longleftrightarrow>
    x = x AND y \<or> \<not> 64 * j + 64 \<le> n \<and> x AND bit_nmask n = x AND y AND bit_nmask n"
    (is "?L \<longleftrightarrow> _")
proof -
  have eq: "x = x AND y \<longleftrightarrow> (\<forall>d < 64. bit x d \<longrightarrow> bit y d)"
    by (auto simp: word_eq_bits [of x] bit_and_iff)
  have m: "x AND bit_nmask n = x AND y AND bit_nmask n \<longleftrightarrow> (\<forall>d < 64. d < n mod 64 \<longrightarrow> bit x d \<longrightarrow> bit y d)"
    by (auto simp: word_eq_bits [of "x AND bit_nmask n"] bit_and_iff)
  show ?thesis
  proof (cases "64 * j + 64 \<le> n")
    case True
    then have "?L \<longleftrightarrow> (\<forall>d < 64. bit x d \<longrightarrow> bit y d)" by (meson less_le_trans nat_add_left_cancel_less)
    then show ?thesis using True eq by simp
  next
    case False
    then have "n div 64 = j" using assms by linarith
    then have "64 * j + d < n \<longleftrightarrow> d < n mod 64" for d using mult_div_mod_eq [of 64 n] by linarith
    then show ?thesis using False eq m by auto
  qed
qed

lemma super_set_loop_spec:
  assumes "n = bs_bits b1" "n \<le> 64 * length (bs_words b1)" "n \<le> 64 * length (bs_words b2)"
  shows "super_set_loop b1 b2 (64 * j) \<longleftrightarrow>
    (\<forall>k. 64 * j \<le> k \<and> k < n \<longrightarrow> wbit (bs_words b1) k \<longrightarrow> wbit (bs_words b2) k)"
proof (induction "n - 64 * j" arbitrary: j rule: less_induct)
  case less
  show ?case
  proof (cases "64 * j < n")
    case False
    then show ?thesis using assms(1) by (subst super_set_loop.simps) auto
  next
    case True
    let ?x = "bs_words b1 ! j" and ?y = "bs_words b2 ! j"
    have "super_set_loop b1 b2 (64 * j) \<longleftrightarrow>
        (?x = ?x AND ?y \<or> \<not> 64 * j + 64 \<le> n \<and> ?x AND bit_nmask n = ?x AND ?y AND bit_nmask n) \<and>
        super_set_loop b1 b2 (64 * Suc j)"
      using True assms(1) by (subst super_set_loop.simps) (simp add: Let_def add.commute)
    also have "\<dots> \<longleftrightarrow> (\<forall>d < 64. 64 * j + d < n \<longrightarrow> bit ?x d \<longrightarrow> bit ?y d) \<and>
        super_set_loop b1 b2 (64 * Suc j)"
      using super_set_word [OF True] by simp
    also have "\<dots> \<longleftrightarrow> (\<forall>d < 64. 64 * j + d < n \<longrightarrow> wbit (bs_words b1) (64 * j + d) \<longrightarrow> wbit (bs_words b2) (64 * j + d))
        \<and> (\<forall>k. 64 * Suc j \<le> k \<and> k < n \<longrightarrow> wbit (bs_words b1) k \<longrightarrow> wbit (bs_words b2) k)"
      using less.hyps [of "Suc j"] True assms(2,3) by (auto simp: wbit_at)
    finally show ?thesis unfolding from_word_split [of j] .
  qed
qed

lemma bit_super_set_correct:
  assumes "wf_bitstr b1" "wf_bitstr b2" "bs_bits b1 = bs_bits b2"
  shows "bit_super_set b1 b2 \<longleftrightarrow> bset b1 \<subseteq> bset b2"
proof -
  have "bs_bits b1 \<le> 64 * length (bs_words b1)" "bs_bits b1 \<le> 64 * length (bs_words b2)"
    using assms bitstr_words_bound(1) by (simp_all add: wf_bitstr_def)
  then show ?thesis using super_set_loop_spec [OF refl, of b1 b2 0] assms
    by (auto simp: bit_super_set_def bset_wbit)
qed

end
