(* ===== verification/Bitstring_Count.thy ===== *)
theory Bitstring_Count
  imports Bitstring_Ops
begin

text \<open>
  Counting, rotation and selection in \<^verbatim>\<open>src/common/bitstring.c\<close>. The counts are
  sums of word weights with masked first and last words; they are shown to be
  cardinalities of the set the bit string stands for.
\<close>

text \<open>The weight of a word, the builtin \<^verbatim>\<open>__builtin_popcountll\<close>.\<close>

definition hweight :: "u64 \<Rightarrow> nat" where
  "hweight w = length (filter (bit w) [0..<64])"

function count_loop :: "u64 list \<Rightarrow> nat \<Rightarrow> nat \<Rightarrow> nat \<Rightarrow> nat \<times> nat" where
  "count_loop ws bit_cnt i count =
     (if i + 64 \<le> bit_cnt
      then count_loop ws bit_cnt (i + 64) (count + hweight (ws ! bit_word_of i))
      else (count, i))"
  by pat_completeness auto
termination
  by (relation "measure (\<lambda>(ws, bit_cnt, i, count). bit_cnt - i)") auto

declare count_loop.simps [simp del]

definition count_tail :: "u64 list \<Rightarrow> nat \<Rightarrow> nat \<times> nat \<Rightarrow> nat" where
  "count_tail ws bit_cnt ci =
     (case ci of (count, i) \<Rightarrow>
        if i < bit_cnt then count + hweight (ws ! bit_word_of i AND bit_nmask bit_cnt) else count)"

definition bit_set_count :: "bitstr \<Rightarrow> nat" where
  "bit_set_count b = count_tail (bs_words b) (bs_bits b) (count_loop (bs_words b) (bs_bits b) 0 0)"

definition bit_set_count_range :: "bitstr \<Rightarrow> nat \<Rightarrow> nat \<Rightarrow> nat" where
  "bit_set_count_range b start stop =
     (let stop' = min stop (bs_bits b);
          eow = push_bit 6 (drop_bit 6 (start + 63));
          (count, i) =
            (if start < eow \<and> eow \<le> stop'
             then (hweight (bs_words b ! bit_word_of start AND NOT (bit_nmask start)), eow)
             else if eow > start
             then (hweight (bs_words b ! bit_word_of start AND (NOT (bit_nmask start) AND bit_nmask stop')), eow)
             else (0, start))
      in count_tail (bs_words b) stop' (count_loop (bs_words b) stop' i count))"

definition bit_clear_count :: "bitstr \<Rightarrow> nat" where
  "bit_clear_count b = bs_bits b - bit_set_count b"

definition bit_clear_count_range :: "bitstr \<Rightarrow> nat \<Rightarrow> nat \<Rightarrow> int" where
  "bit_clear_count_range b start stop =
     (let diff = int stop - int start
      in if diff < 1 then 0 else diff - int (bit_set_count_range b start stop))"

text \<open>
  The overlap of two strings. \<^verbatim>\<open>Inl\<close> is the early return of the loop, \<^verbatim>\<open>Inr\<close> the
  count and the position at its end.
\<close>

function overlap_loop :: "u64 list \<Rightarrow> u64 list \<Rightarrow> nat \<Rightarrow> bool \<Rightarrow> nat \<Rightarrow> nat \<Rightarrow> nat + nat \<times> nat" where
  "overlap_loop ws1 ws2 bit_cnt count_it i count =
     (if i < bit_cnt
      then if i + 64 - 1 \<ge> bit_cnt then Inr (count, i)
           else let anded = ws1 ! bit_word_of i AND ws2 ! bit_word_of i
                in if count_it then overlap_loop ws1 ws2 bit_cnt count_it (i + 64) (count + hweight anded)
                   else if anded \<noteq> 0 then Inl 1
                   else overlap_loop ws1 ws2 bit_cnt count_it (i + 64) count
      else Inr (count, i))"
  by pat_completeness auto
termination
  by (relation "measure (\<lambda>(ws1, ws2, bit_cnt, count_it, i, count). bit_cnt - i)") auto

declare overlap_loop.simps [simp del]

definition bit_overlap_internal :: "bitstr \<Rightarrow> bitstr \<Rightarrow> bool \<Rightarrow> nat" where
  "bit_overlap_internal b1 b2 count_it =
     (let bit_cnt = bs_bits b1
      in case overlap_loop (bs_words b1) (bs_words b2) bit_cnt count_it 0 0 of
           Inl r \<Rightarrow> r
         | Inr (count, i) \<Rightarrow>
             if i < bit_cnt
             then let anded = (bs_words b1 ! bit_word_of i AND bs_words b2 ! bit_word_of i) AND bit_nmask bit_cnt
                  in if count_it then count + hweight anded
                     else if anded \<noteq> 0 then 1 else count
             else count)"

definition bit_overlap :: "bitstr \<Rightarrow> bitstr \<Rightarrow> nat" where
  "bit_overlap b1 b2 = bit_overlap_internal b1 b2 True"

definition bit_overlap_any :: "bitstr \<Rightarrow> bitstr \<Rightarrow> nat" where
  "bit_overlap_any b1 b2 = bit_overlap_internal b1 b2 False"

definition bit_consolidate :: "bitstr \<Rightarrow> bitstr" where
  "bit_consolidate b =
     (let set_count = bit_set_count b
      in if set_count \<noteq> 0 \<and> set_count < bit_size b
         then bit_nset (bit_nclear b set_count (bit_size b - 1)) 0 (set_count - 1)
         else b)"

subsection \<open>Counting positions\<close>

definition pcount :: "(nat \<Rightarrow> bool) \<Rightarrow> nat \<Rightarrow> nat \<Rightarrow> nat" where
  "pcount P lo hi = length (filter P [lo..<hi])"

lemma pcount_card: "pcount P lo hi = card {i. lo \<le> i \<and> i < hi \<and> P i}"
proof -
  have "card (set (filter P [lo..<hi])) = length (filter P [lo..<hi])" by (intro distinct_card) simp
  moreover have "set (filter P [lo..<hi]) = {i. lo \<le> i \<and> i < hi \<and> P i}" by auto
  ultimately show ?thesis by (simp add: pcount_def)
qed

lemma pcount_split: "lo \<le> mid \<Longrightarrow> mid \<le> hi \<Longrightarrow> pcount P lo hi = pcount P lo mid + pcount P mid hi"
  using upt_add_eq_append [of lo mid "hi - mid"] by (simp add: pcount_def)

lemma pcount_empty [simp]: "hi \<le> lo \<Longrightarrow> pcount P lo hi = 0"
  by (simp add: pcount_def)

lemma pcount_cong: "(\<And>i. lo \<le> i \<Longrightarrow> i < hi \<Longrightarrow> P i = Q i) \<Longrightarrow> pcount P lo hi = pcount Q lo hi"
  unfolding pcount_def by (intro arg_cong [of _ _ length] filter_cong) auto

lemma pcount_shift: "pcount P (a + lo) (a + hi) = pcount (\<lambda>d. P (a + d)) lo hi"
proof -
  have "[a + lo..<a + hi] = map ((+) a) [lo..<hi]" by (rule nth_equalityI) auto
  then show ?thesis by (simp add: pcount_def filter_map o_def)
qed

lemma pcount_restrict:
  "lo \<le> lo' \<Longrightarrow> hi' \<le> hi \<Longrightarrow> lo' \<le> hi' \<Longrightarrow> pcount (\<lambda>i. lo' \<le> i \<and> i < hi' \<and> P i) lo hi = pcount P lo' hi'"
proof -
  assume a: "lo \<le> lo'" "hi' \<le> hi" "lo' \<le> hi'"
  have "{i. lo \<le> i \<and> i < hi \<and> lo' \<le> i \<and> i < hi' \<and> P i} = {i. lo' \<le> i \<and> i < hi' \<and> P i}" using a by auto
  then show ?thesis by (simp add: pcount_card)
qed

lemma hweight_word:
  assumes "j < length ws" "lo \<le> hi" "hi \<le> 64"
    and "\<And>d. d < 64 \<Longrightarrow> bit m d \<longleftrightarrow> lo \<le> d \<and> d < hi"
  shows "hweight (ws ! j AND m) = pcount (wbit ws) (64 * j + lo) (64 * j + hi)"
proof -
  have "hweight (ws ! j AND m) = pcount (\<lambda>d. lo \<le> d \<and> d < hi \<and> wbit ws (64 * j + d)) 0 64"
    unfolding hweight_def pcount_def using assms
    by (intro arg_cong [of _ _ length] filter_cong) (auto simp: bit_and_iff wbit_at)
  also have "\<dots> = pcount (\<lambda>d. wbit ws (64 * j + d)) lo hi" using assms by (intro pcount_restrict) auto
  finally show ?thesis by (simp add: pcount_shift)
qed

lemma count_loop_spec:
  assumes "n \<le> 64 * length ws"
  shows "count_tail ws n (count_loop ws n (64 * j) c) = c + pcount (wbit ws) (64 * j) n"
proof (induction "n - 64 * j" arbitrary: j c rule: less_induct)
  case less
  show ?case
  proof (cases "64 * j + 64 \<le> n")
    case True
    have "count_loop ws n (64 * j) c = count_loop ws n (64 * Suc j) (c + hweight (ws ! j AND - 1))"
      using True by (simp add: count_loop.simps [of ws n "64 * j"] add.commute)
    moreover have "hweight (ws ! j AND - 1) = pcount (wbit ws) (64 * j + 0) (64 * j + 64)"
      using True assms by (intro hweight_word) auto
    moreover have "pcount (wbit ws) (64 * j) n = pcount (wbit ws) (64 * j) (64 * j + 64) + pcount (wbit ws) (64 * j + 64) n"
      using True by (intro pcount_split) auto
    ultimately show ?thesis using less.hyps [of "Suc j"] True by (simp add: add.commute)
  next
    case False
    show ?thesis
    proof (cases "64 * j < n")
      case True
      then have "n div 64 = j" using False by linarith
      then have n: "n = 64 * j + n mod 64" using mult_div_mod_eq [of 64 n] by simp
      have "hweight (ws ! j AND bit_nmask n) = pcount (wbit ws) (64 * j + 0) (64 * j + n mod 64)"
        using True assms by (intro hweight_word) auto
      then show ?thesis using True False n by (simp add: count_tail_def count_loop.simps [of ws n "64 * j"])
    next
      case f: False
      then show ?thesis using False by (simp add: count_tail_def count_loop.simps [of ws n "64 * j"])
    qed
  qed
qed

lemma bit_set_count_card:
  assumes "wf_bitstr b"
  shows "bit_set_count b = card (bset b)"
proof -
  have "bs_bits b \<le> 64 * length (bs_words b)"
    using assms bitstr_words_bound(1) by (simp add: wf_bitstr_def)
  from count_loop_spec [OF this, of 0 0] show ?thesis
    using assms by (simp add: bit_set_count_def pcount_card bset_wbit)
qed

lemma range_head_count:
  assumes "start mod 64 \<noteq> 0" "start \<le> hi" "hi \<le> 64 * (start div 64) + 64"
    and "start div 64 < length ws" "\<And>d. d < 64 \<Longrightarrow> bit m d \<longleftrightarrow> start mod 64 \<le> d \<and> 64 * (start div 64) + d < hi"
  shows "hweight (ws ! (start div 64) AND m) = pcount (wbit ws) start hi"
proof -
  let ?j = "start div 64"
  have s: "start = 64 * ?j + start mod 64" by simp
  define d where "d = hi - 64 * ?j"
  have d: "hi = 64 * ?j + d" "start mod 64 \<le> d" "d \<le> 64"
    using assms(2,3) mult_div_mod_eq [of 64 start] unfolding d_def by linarith+
  have "hweight (ws ! ?j AND m) = pcount (wbit ws) (64 * ?j + start mod 64) (64 * ?j + d)"
    using assms(4,5) d by (intro hweight_word) auto
  then show ?thesis using s d(1) by simp
qed

lemma bit_set_count_range_card:
  assumes "wf_bitstr b" "bit_valid b start" "start \<le> stop"
  shows "bit_set_count_range b start stop = card {i \<in> bset b. start \<le> i \<and> i < stop}"
proof -
  define n where "n = min stop (bs_bits b)"
  define ws where "ws = bs_words b"
  let ?j = "start div 64"
  have len: "n \<le> 64 * length ws" "start \<le> n" "start < 64 * length ws"
    using assms bitstr_words_bound(1) [of "bs_bits b"] wf_bound [OF assms(1)]
    by (auto simp: wf_bitstr_def n_def ws_def bit_valid_def)
  have j: "?j < length ws" using len(3) by (rule div64_less)
  have s: "start = 64 * ?j + start mod 64" "start mod 64 < 64" by simp_all
  have eow: "push_bit 6 (drop_bit 6 (start + 63)) = (if start mod 64 = 0 then start else 64 * ?j + 64)"
  proof -
    show ?thesis using s(1) round_up64 [of start] by (auto simp: push_bit_eq_mult drop_bit_eq_div)
  qed
  have "bit_set_count_range b start stop = pcount (wbit ws) start n"
  proof (cases "start mod 64 = 0")
    case True
    then show ?thesis using count_loop_spec [OF len(1), of ?j 0] s(1) eow
      by (simp add: bit_set_count_range_def n_def [symmetric] ws_def [symmetric])
  next
    case False
    have lt: "start < 64 * ?j + 64" using s by linarith
    have w: "bit_word_of start = ?j" by (simp add: bit_word_of_def)
    have mid: "count_tail ws n (count_loop ws n (64 * ?j + 64) c) = c + pcount (wbit ws) (64 * ?j + 64) n" for c
      using count_loop_spec [OF len(1), of "Suc ?j" c] by (simp add: add.commute)
    show ?thesis
    proof (cases "64 * ?j + 64 \<le> n")
      case True
      have "hweight (ws ! ?j AND NOT (bit_nmask start)) = pcount (wbit ws) start (64 * ?j + 64)"
        using False lt j by (intro range_head_count) (auto simp: bit_not_iff)
      moreover have "pcount (wbit ws) start n = pcount (wbit ws) start (64 * ?j + 64) + pcount (wbit ws) (64 * ?j + 64) n"
        using lt True by (intro pcount_split) auto
      ultimately show ?thesis using True False lt eow mid
        by (simp add: bit_set_count_range_def n_def [symmetric] ws_def [symmetric] w Let_def)
    next
      case nle: False
      have nd: "n div 64 = ?j" using nle len(2) s by linarith
      then have "n = 64 * ?j + n mod 64" using mult_div_mod_eq [of 64 n] by simp
      then have "hweight (ws ! ?j AND (NOT (bit_nmask start) AND bit_nmask n)) = pcount (wbit ws) start n"
        using False nle len(2) j by (intro range_head_count) (auto simp: bit_and_iff bit_not_iff)
      then show ?thesis using nle False lt eow mid
        by (simp add: bit_set_count_range_def n_def [symmetric] ws_def [symmetric] w Let_def)
    qed
  qed
  moreover have "{i. start \<le> i \<and> i < n \<and> wbit ws i} = {i \<in> bset b. start \<le> i \<and> i < stop}"
    using assms(1) by (auto simp: bset_wbit n_def ws_def)
  ultimately show ?thesis by (simp add: pcount_card)
qed

lemma bit_clear_count_card:
  assumes "wf_bitstr b"
  shows "bit_clear_count b = card ({..<bs_bits b} - bset b)"
  using bset_bounded [of b] assms
  by (simp add: bit_clear_count_def bit_set_count_card card_Diff_subset finite_subset)

lemma bit_clear_count_range_card:
  assumes "wf_bitstr b" "bit_valid b start"
  shows "bit_clear_count_range b start stop = int (card {i. start \<le> i \<and> i < stop \<and> i \<notin> bset b})"
proof (cases "start < stop")
  case False
  then show ?thesis by (simp add: bit_clear_count_range_def)
next
  case True
  let ?in = "{i \<in> bset b. start \<le> i \<and> i < stop}"
  have "card {start..<stop} = card ?in + card {i. start \<le> i \<and> i < stop \<and> i \<notin> bset b}"
  proof -
    have "{start..<stop} = ?in \<union> {i. start \<le> i \<and> i < stop \<and> i \<notin> bset b}" by auto
    then show ?thesis by (simp only:) (intro card_Un_disjoint, auto)
  qed
  then show ?thesis using True assms
    by (simp add: bit_clear_count_range_def bit_set_count_range_card Let_def)
qed

lemma bit_consolidate_correct:
  assumes "wf_bitstr b"
  shows "wf_bitstr (bit_consolidate b)" "bset (bit_consolidate b) = {..<card (bset b)}"
proof -
  let ?c = "card (bset b)"
  have le: "?c \<le> bs_bits b" using card_mono [OF _ bset_bounded [of b]] by simp
  have "wf_bitstr (bit_consolidate b) \<and> bset (bit_consolidate b) = {..<?c}"
  proof (cases "?c = 0 \<or> ?c = bs_bits b")
    case True
    have "bset b = {..<?c}"
    proof (cases "?c = 0")
      case c: True
      then show ?thesis using finite_subset [OF bset_bounded] by simp
    next
      case False
      then show ?thesis using True card_subset_eq [OF _ bset_bounded [of b]] by simp
    qed
    moreover have "bit_consolidate b = b"
      using True assms by (auto simp: bit_consolidate_def bit_set_count_card bit_size_def)
    ultimately show ?thesis using assms by metis
  next
    case False
    then have c: "0 < ?c" "?c < bs_bits b" using le by auto
    have v: "bit_valid b ?c" "bit_valid b (bs_bits b - 1)" using c by (auto simp: bit_valid_def)
    note C = bit_nclear_correct [OF assms v]
    have v': "bit_valid (bit_nclear b ?c (bs_bits b - 1)) 0" "bit_valid (bit_nclear b ?c (bs_bits b - 1)) (?c - 1)"
      using c C(2) by (auto simp: bit_valid_def)
    note N = bit_nset_correct [OF C(1) v']
    have "bset b - {?c..bs_bits b - 1} \<union> {0..?c - 1} = {..<?c}"
    proof -
      have "x < ?c" if "x \<in> bset b" "\<not> x \<le> bs_bits b - Suc 0" for x
        using that bset_less [of x b] by linarith
      then show ?thesis using c by auto
    qed
    then show ?thesis using c assms N C(3) by (simp add: bit_consolidate_def bit_set_count_card bit_size_def Let_def)
  qed
  then show "wf_bitstr (bit_consolidate b)" "bset (bit_consolidate b) = {..<card (bset b)}" by auto
qed

subsection \<open>Overlap\<close>

lemma wbit_map2_and:
  "length ws1 = length ws2 \<Longrightarrow> wbit (map2 (AND) ws1 ws2) i \<longleftrightarrow> wbit ws1 i \<and> wbit ws2 i"
  by (auto simp: wbit_def div64_less bit_and_iff)

lemma overlap_loop_counts:
  assumes "length ws1 = length ws2" "n \<le> 64 * length ws1"
  shows "overlap_loop ws1 ws2 n True i c = Inr (count_loop (map2 (AND) ws1 ws2) n i c)"
proof (induction "n - i" arbitrary: i c rule: less_induct)
  case less
  have "i + 64 \<le> n \<Longrightarrow> i div 64 < length ws1" using assms(2) by (intro div64_less) simp
  then show ?case using less.hyps [of "i + 64"] assms(1)
    by (auto simp: overlap_loop.simps [of ws1 ws2 n True i] count_loop.simps [of _ n i] bit_word_of_def)
qed

lemma bit_overlap_card:
  assumes "wf_bitstr b1" "wf_bitstr b2" "bs_bits b1 = bs_bits b2"
  shows "bit_overlap b1 b2 = card (bset b1 \<inter> bset b2)"
proof -
  let ?ws = "map2 (AND) (bs_words b1) (bs_words b2)"
  have len: "length (bs_words b1) = length (bs_words b2)" "bs_bits b1 \<le> 64 * length (bs_words b1)"
    using assms bitstr_words_bound(1) by (auto simp: wf_bitstr_def)
  have "bit_overlap b1 b2 = count_tail ?ws (bs_bits b1) (count_loop ?ws (bs_bits b1) 0 0)"
  proof -
    obtain c i where ci: "count_loop ?ws (bs_bits b1) 0 0 = (c, i)" by fastforce
    have "i < bs_bits b1 \<Longrightarrow> i div 64 < length (bs_words b2)" using len by (intro div64_less) simp
    then show ?thesis using overlap_loop_counts [OF len, of 0 0] len(1) ci
      by (simp add: bit_overlap_def bit_overlap_internal_def count_tail_def bit_word_of_def Let_def)
  qed
  also have "\<dots> = pcount (wbit ?ws) 0 (bs_bits b1)"
    using count_loop_spec [of "bs_bits b1" ?ws 0 0] len by simp
  also have "\<dots> = card (bset b1 \<inter> bset b2)"
    using assms len by (auto simp: pcount_card wbit_map2_and bset_wbit intro!: arg_cong [of _ _ card])
  finally show ?thesis .
qed

text \<open>The existence test leaves the loop early, with the same answer on every word.\<close>

definition overlap_end :: "u64 list \<Rightarrow> nat \<Rightarrow> nat + nat \<times> nat \<Rightarrow> bool" where
  "overlap_end ws n r \<longleftrightarrow>
     (case r of Inl _ \<Rightarrow> True
      | Inr (count, i) \<Rightarrow> i < n \<and> ws ! bit_word_of i AND bit_nmask n \<noteq> 0)"

lemma word_any:
  assumes "j < length ws" "hi \<le> 64" "\<And>d. d < 64 \<Longrightarrow> bit m d \<longleftrightarrow> d < hi"
  shows "ws ! j AND m \<noteq> 0 \<longleftrightarrow> (\<exists>k. 64 * j \<le> k \<and> k < 64 * j + hi \<and> wbit ws k)"
proof -
  have "ws ! j AND m \<noteq> 0 \<longleftrightarrow> (\<exists>d < 64. d < hi \<and> wbit ws (64 * j + d))"
    using assms by (auto simp: word64_zero_iff bit_and_iff wbit_at)
  also have "\<dots> \<longleftrightarrow> (\<exists>k. 64 * j \<le> k \<and> k < 64 * j + hi \<and> wbit ws k)"
  proof
    assume "\<exists>d < 64. d < hi \<and> wbit ws (64 * j + d)"
    then obtain d where "d < hi" "wbit ws (64 * j + d)" by blast
    then show "\<exists>k. 64 * j \<le> k \<and> k < 64 * j + hi \<and> wbit ws k" by (intro exI [of _ "64 * j + d"]) simp
  next
    assume "\<exists>k. 64 * j \<le> k \<and> k < 64 * j + hi \<and> wbit ws k"
    then obtain k where "64 * j \<le> k" "k < 64 * j + hi" "wbit ws k" by blast
    then show "\<exists>d < 64. d < hi \<and> wbit ws (64 * j + d)"
      using assms(2) by (intro exI [of _ "k - 64 * j"]) auto
  qed
  finally show ?thesis .
qed

lemma overlap_loop_any:
  assumes "length ws1 = length ws2" "n \<le> 64 * length ws1"
  shows "overlap_end (map2 (AND) ws1 ws2) n (overlap_loop ws1 ws2 n False (64 * j) 0) \<longleftrightarrow>
           (\<exists>k. 64 * j \<le> k \<and> k < n \<and> wbit (map2 (AND) ws1 ws2) k)"
proof (induction "n - 64 * j" arbitrary: j rule: less_induct)
  case less
  let ?ws = "map2 (AND) ws1 ws2"
  show ?case
  proof (cases "64 * j + 64 \<le> n")
    case True
    then have j: "j < length ws1" "j < length ?ws" using assms by auto
    have any: "?ws ! j \<noteq> 0 \<longleftrightarrow> (\<exists>k. 64 * j \<le> k \<and> k < 64 * j + 64 \<and> wbit ?ws k)"
      using word_any [OF j(2), of 64 "- 1"] by simp
    have step: "overlap_loop ws1 ws2 n False (64 * j) 0 =
        (if ?ws ! j \<noteq> 0 then Inl 1 else overlap_loop ws1 ws2 n False (64 * Suc j) 0)"
      using True j assms by (simp add: overlap_loop.simps [of ws1 ws2 n False "64 * j"] bit_word_of_def add.commute)
    have IH: "overlap_end ?ws n (overlap_loop ws1 ws2 n False (64 * Suc j) 0) \<longleftrightarrow>
        (\<exists>k. 64 * Suc j \<le> k \<and> k < n \<and> wbit ?ws k)"
      using True by (intro less.hyps) simp
    have split: "64 * j \<le> k \<and> k < n \<longleftrightarrow> 64 * j \<le> k \<and> k < 64 * j + 64 \<or> 64 * Suc j \<le> k \<and> k < n" for k
      using True by auto
    show ?thesis
    proof (cases "?ws ! j \<noteq> 0")
      case t: True
      then obtain k where "64 * j \<le> k" "k < 64 * j + 64" "wbit ?ws k" using any by blast
      then have "\<exists>k. 64 * j \<le> k \<and> k < n \<and> wbit ?ws k" using True by (intro exI [of _ k]) simp
      then show ?thesis using t step by (simp add: overlap_end_def)
    next
      case f: False
      then show ?thesis using step IH any split by (metis (no_types, lifting))
    qed
  next
    case False
    show ?thesis
    proof (cases "64 * j < n")
      case True
      then have "n div 64 = j" using False by linarith
      then have n: "n = 64 * j + n mod 64" using mult_div_mod_eq [of 64 n] by simp
      have j: "j < length ?ws" using True assms by simp
      have "?ws ! j AND bit_nmask n \<noteq> 0 \<longleftrightarrow> (\<exists>k. 64 * j \<le> k \<and> k < 64 * j + n mod 64 \<and> wbit ?ws k)"
        using j by (intro word_any) auto
      then show ?thesis using True False n
        by (simp add: overlap_end_def overlap_loop.simps [of ws1 ws2 n False "64 * j"] bit_word_of_def)
    next
      case f: False
      then show ?thesis
        by (auto simp: overlap_end_def overlap_loop.simps [of ws1 ws2 n False "64 * j"])
    qed
  qed
qed

lemma overlap_loop_zero:
  "overlap_loop ws1 ws2 n False i 0 = Inl 1 \<or> (\<exists>e. overlap_loop ws1 ws2 n False i 0 = Inr (0, e))"
proof (induction "n - i" arbitrary: i rule: less_induct)
  case less
  then show ?case using less.hyps [of "i + 64"]
    by (auto simp: overlap_loop.simps [of ws1 ws2 n False i] Let_def)
qed

lemma bit_overlap_any_iff:
  assumes "wf_bitstr b1" "wf_bitstr b2" "bs_bits b1 = bs_bits b2"
  shows "bit_overlap_any b1 b2 = (if bset b1 \<inter> bset b2 = {} then 0 else 1)"
proof -
  let ?ws = "map2 (AND) (bs_words b1) (bs_words b2)"
  let ?r = "overlap_loop (bs_words b1) (bs_words b2) (bs_bits b1) False 0 0"
  have len: "length (bs_words b1) = length (bs_words b2)" "bs_bits b1 \<le> 64 * length (bs_words b1)"
    using assms bitstr_words_bound(1) by (auto simp: wf_bitstr_def)
  have idx: "e < bs_bits b1 \<Longrightarrow> e div 64 < length (bs_words b2)" for e
    using len by (intro div64_less) simp
  have "bit_overlap_any b1 b2 = (if overlap_end ?ws (bs_bits b1) ?r then 1 else 0)"
    using overlap_loop_zero [of "bs_words b1" "bs_words b2" "bs_bits b1" 0] idx len(1)
    by (auto simp: bit_overlap_any_def bit_overlap_internal_def overlap_end_def bit_word_of_def Let_def)
  moreover have "overlap_end ?ws (bs_bits b1) ?r \<longleftrightarrow> bset b1 \<inter> bset b2 \<noteq> {}"
    using overlap_loop_any [OF len, of 0] assms len by (auto simp: wbit_map2_and bset_wbit)
  ultimately show ?thesis by simp
qed

end
