(* ===== verification/Bitstring_Move.thy ===== *)
theory Bitstring_Move
  imports Bitstring_Count
begin

text \<open>
  Operations of \<^verbatim>\<open>src/common/bitstring.c\<close> that build a bit string from another:
  rotation, selection of the first set bits, reallocation.
\<close>

text \<open>Both loops of the rotation test one bit of the source and set one bit of the copy.\<close>

function move_bits :: "bitstr \<Rightarrow> bitstr \<Rightarrow> nat \<Rightarrow> nat \<Rightarrow> nat \<Rightarrow> bitstr" where
  "move_bits b new i stop dst =
     (if i < stop
      then move_bits b (if bit_test b i then bit_set new dst else new) (i + 1) stop (dst + 1)
      else new)"
  by pat_completeness auto
termination
  by (relation "measure (\<lambda>(b, new, i, stop, dst). stop - i)") auto

declare move_bits.simps [simp del]

definition bit_rotate_copy :: "bitstr \<Rightarrow> int \<Rightarrow> nat \<Rightarrow> bitstr" where
  "bit_rotate_copy b1 n nbits =
     (let bitsize = bit_size b1;
          deltasize = nbits - bitsize;
          n' = n smod int nbits;
          n' = nat (if n' < 0 then n' + int nbits else n');
          wrapbits = (if n' > deltasize then n' - deltasize else 0);
          new = bit_nclear (bit_alloc nbits) 0 (nbits - 1);
          new = move_bits b1 new 0 (bitsize - wrapbits) n'
      in move_bits b1 new (bitsize - wrapbits) bitsize 0)"

definition bit_rotate :: "bitstr \<Rightarrow> int \<Rightarrow> bitstr" where
  "bit_rotate b1 n =
     (if n = 0 then b1 else bit_copybits b1 (bit_rotate_copy b1 n (bit_size b1)))"

text \<open>
  Selection: the inner loop goes bit by bit, the outer one takes whole words
  as long as they fit.
\<close>

function pick_bits :: "bitstr \<Rightarrow> nat \<Rightarrow> bitstr \<Rightarrow> nat \<Rightarrow> nat \<Rightarrow> bitstr \<times> nat \<times> nat" where
  "pick_bits b nbits new i count =
     (if i < bs_bits b \<and> count < nbits
      then if bit_test b i then pick_bits b nbits (bit_set new i) (i + 1) (count + 1)
           else pick_bits b nbits new (i + 1) count
      else (new, i, count))"
  by pat_completeness auto
termination
  by (relation "measure (\<lambda>(b, nbits, new, i, count). bs_bits b - i)") auto

declare pick_bits.simps [simp del]

lemma pick_bits_exit:
  "pick_bits b nbits new i count = (new', i', count') \<Longrightarrow> \<not> (i' < bs_bits b \<and> count' < nbits)"
proof (induction b nbits new i count rule: pick_bits.induct)
  case (1 b nbits new i count)
  note step = 1(3) [unfolded pick_bits.simps [of b nbits new i count]]
  show ?case
  proof (cases "i < bs_bits b \<and> count < nbits")
    case True
    note go = step [unfolded if_P [OF True]]
    show ?thesis
    proof (cases "bit_test b i")
      case t: True
      show ?thesis using 1(1) [OF True t] go [unfolded if_P [OF t]] by blast
    next
      case f: False
      show ?thesis using 1(2) [OF True f] go [unfolded if_not_P [OF f]] by blast
    qed
  next
    case False
    then show ?thesis using step by auto
  qed
qed

function pick_loop :: "bitstr \<Rightarrow> nat \<Rightarrow> bitstr \<Rightarrow> nat \<Rightarrow> nat \<Rightarrow> bitstr \<times> nat" where
  "pick_loop b nbits new i count =
     (if i < bs_bits b \<and> count < nbits
      then let w = bit_word_of i
           in if bs_words b ! w = 0 then pick_loop b nbits new (i + 64) count
              else let new_bits = hweight (bs_words b ! w)
                   in if count + new_bits \<le> nbits \<and> i + 64 - 1 < bs_bits b
                      then pick_loop b nbits (new\<lparr>bs_words := (bs_words new)[w := bs_words b ! w]\<rparr>)
                             (i + 64) (count + new_bits)
                      else (case pick_bits b nbits new i count of
                              (new', i', count') \<Rightarrow> pick_loop b nbits new' i' count')
      else (new, count))"
  by pat_completeness auto
termination
proof (relation "measure (\<lambda>(b, nbits, new, i, count). if count < nbits then bs_bits b - i else 0)",
    goal_cases)
  case (4 b nbits new i count w new_bits new' x i')
  then have "pick_bits b nbits new i count = (new', i', snd x)" by (cases x) auto
  then show ?case using 4 pick_bits_exit [of b nbits new i count new' i' "snd x"] by auto
qed auto

declare pick_loop.simps [simp del]

definition bit_pick_cnt :: "bitstr \<Rightarrow> nat \<Rightarrow> bitstr option" where
  "bit_pick_cnt b nbits =
     (if bs_bits b < nbits then None
      else case pick_loop b nbits (bit_alloc (bit_size b)) 0 0 of
             (new, count) \<Rightarrow> if count < nbits then None else Some new)"

subsection \<open>Rotation\<close>

lemma move_bits_shape: "same_shape new (move_bits b new i stop dst)"
proof (induction "stop - i" arbitrary: new i dst rule: less_induct)
  case less
  have "i < stop \<Longrightarrow> same_shape (if bit_test b i then bit_set new dst else new) (move_bits b new i stop dst)"
    using less.hyps [of "i + 1"] by (simp add: move_bits.simps [of b new i])
  moreover have "same_shape new (if bit_test b i then bit_set new dst else new)"
    by (simp add: same_shape_def)
  ultimately show ?case
    by (cases "i < stop") (auto intro: same_shape_trans simp: move_bits.simps [of b new i] same_shape_def)
qed

lemma move_bits_bset:
  assumes "wf_bitstr new" "stop \<le> bs_bits b" "i \<le> stop" "dst + (stop - i) \<le> bs_bits new"
  shows "bset (move_bits b new i stop dst) = bset new \<union> (\<lambda>k. k + dst - i) ` {k \<in> bset b. i \<le> k \<and> k < stop}"
  using assms
proof (induction "stop - i" arbitrary: new i dst rule: less_induct)
  case less
  show ?case
  proof (cases "i < stop")
    case True
    let ?new = "if bit_test b i then bit_set new dst else new"
    have "bset (move_bits b ?new (i + 1) stop (dst + 1)) =
        bset ?new \<union> (\<lambda>k. k + (dst + 1) - (i + 1)) ` {k \<in> bset b. i + 1 \<le> k \<and> k < stop}"
      using True less.prems by (intro less.hyps) auto
    moreover have "bset ?new = bset new \<union> (if i \<in> bset b then {dst} else {})"
      using True less.prems by (auto simp: bset_bit_set bit_valid_def bit_test_bset)
    moreover have "{k \<in> bset b. i \<le> k \<and> k < stop} =
        {k \<in> bset b. i + 1 \<le> k \<and> k < stop} \<union> (if i \<in> bset b then {i} else {})"
      using True by (auto simp: Suc_le_eq le_less)
    ultimately show ?thesis using True by (auto simp: move_bits.simps [of b new i])
  next
    case False
    then show ?thesis by (auto simp: move_bits.simps [of b new i])
  qed
qed

lemma rotation_amount:
  "0 < m \<Longrightarrow> (let n' = n smod int m in if n' < 0 then n' + int m else n') = n mod int m"
proof -
  assume m: "0 < m"
  have "n mod int m = (n smod int m + int m * (n sdiv int m)) mod int m"
    by (simp add: smod_mult_sdiv_eq)
  then have eq: "(n smod int m) mod int m = n mod int m" by simp
  have b: "- int m < n smod int m" "n smod int m < int m"
    using smod_int_range [where a = n and b = "int m"] m by auto
  show ?thesis
  proof (cases "n smod int m < 0")
    case True
    then have "(n smod int m + int m) mod int m = n smod int m + int m" using b by (intro mod_pos_pos_trivial) auto
    then show ?thesis using True eq by (simp add: Let_def)
  next
    case False
    then show ?thesis using eq b by (simp add: Let_def)
  qed
qed

lemma bit_rotate_copy_correct:
  assumes "wf_bitstr b" "valid_size nbits" "bs_bits b \<le> nbits"
  shows "wf_bitstr (bit_rotate_copy b n nbits)" "bs_bits (bit_rotate_copy b n nbits) = nbits"
    and "bset (bit_rotate_copy b n nbits) = (\<lambda>i. nat ((int i + n) mod int nbits)) ` bset b"
proof -
  define r where "r = nat (n mod int nbits)"
  define wrap where "wrap = (if r > nbits - bs_bits b then r - (nbits - bs_bits b) else 0)"
  define new where "new = bit_nclear (bit_alloc nbits) 0 (nbits - 1)"
  define up where "up = move_bits b new 0 (bs_bits b - wrap) r"
  have nb: "0 < nbits" using assms(2) by (simp add: valid_size_def)
  have r: "r < nbits" "int r = n mod int nbits" using nb by (simp_all add: r_def nat_less_iff)
  have al: "bs_bits (bit_alloc nbits) = nbits" by (simp add: bit_alloc_def)
  have v: "bit_valid (bit_alloc nbits) 0" "bit_valid (bit_alloc nbits) (nbits - 1)"
    using nb by (simp_all add: bit_valid_def al)
  note N = bit_nclear_correct [OF wf_bit_alloc [OF assms(2)] v, folded new_def, unfolded al]
  have new: "bset new = {}" using N(3) assms(2) by (simp add: bset_alloc)
  have eq: "bit_rotate_copy b n nbits = move_bits b up (bs_bits b - wrap) (bs_bits b) 0"
    unfolding bit_rotate_copy_def bit_size_def up_def wrap_def r_def new_def
      rotation_amount [OF nb, of n, symmetric] Let_def by (rule refl)
  have sh: "same_shape new up" "same_shape up (bit_rotate_copy b n nbits)"
    unfolding eq up_def by (rule move_bits_shape)+
  show wf: "wf_bitstr (bit_rotate_copy b n nbits)"
    using sh N(1) by (simp add: wf_same_shape)
  show bits: "bs_bits (bit_rotate_copy b n nbits) = nbits"
    using sh N(2) by (simp add: same_shape_def)
  have wup: "wf_bitstr up" "bs_bits up = nbits" using wf_same_shape [OF sh(1)] sh(1) N by (simp_all add: same_shape_def)
  have wrap0: "wrap = r - (nbits - bs_bits b)" by (simp add: wrap_def)
  have wrap: "wrap \<le> bs_bits b" "bs_bits b - wrap + r \<le> nbits" "wrap \<le> nbits"
    using r(1) assms(3) unfolding wrap0 by linarith+
  have low: "i + r < nbits" if "i < bs_bits b - wrap" for i
    using that r(1) assms(3) unfolding wrap0 by linarith
  have high: "i + r - nbits = i - (bs_bits b - wrap)" "nbits \<le> i + r"
    if "bs_bits b - wrap \<le> i" "i < bs_bits b" for i
    using that r(1) assms(3) unfolding wrap0 by linarith+
  have shift: "nat ((int i + n) mod int nbits) = (if i + r < nbits then i + r else i + r - nbits)"
    if "i < bs_bits b" for i
  proof -
    have "(int i + n) mod int nbits = int ((i + r) mod nbits)"
      by (simp add: r(2) of_nat_mod mod_add_right_eq)
    then show ?thesis using that r(1) assms(3) by (simp add: mod_if)
  qed
  have "bset (bit_rotate_copy b n nbits) =
      bset up \<union> (\<lambda>k. k + 0 - (bs_bits b - wrap)) ` {k \<in> bset b. bs_bits b - wrap \<le> k \<and> k < bs_bits b}"
    unfolding eq using wup wrap by (intro move_bits_bset) auto
  also have "bset up = (\<lambda>k. k + r - 0) ` {k \<in> bset b. 0 \<le> k \<and> k < bs_bits b - wrap}"
    using move_bits_bset [OF N(1), of "bs_bits b - wrap" b 0 r] wrap(2) N(2) new by (simp add: up_def)
  also have "(\<lambda>k. k + r - 0) ` {k \<in> bset b. 0 \<le> k \<and> k < bs_bits b - wrap} =
      (\<lambda>i. nat ((int i + n) mod int nbits)) ` {k \<in> bset b. k < bs_bits b - wrap}"
    using low by (intro image_cong) (auto simp: shift)
  also have "(\<lambda>k. k + 0 - (bs_bits b - wrap)) ` {k \<in> bset b. bs_bits b - wrap \<le> k \<and> k < bs_bits b} =
      (\<lambda>i. nat ((int i + n) mod int nbits)) ` {k \<in> bset b. bs_bits b - wrap \<le> k}"
  proof (intro image_cong)
    fix k assume k: "k \<in> {k \<in> bset b. bs_bits b - wrap \<le> k}"
    then have "k < bs_bits b" by (auto dest: bset_less)
    then show "k + 0 - (bs_bits b - wrap) = nat ((int k + n) mod int nbits)"
      using high [of k] shift [of k] k by simp
  qed (auto dest: bset_less)
  also have "(\<lambda>i. nat ((int i + n) mod int nbits)) ` {k \<in> bset b. k < bs_bits b - wrap} \<union>
      (\<lambda>i. nat ((int i + n) mod int nbits)) ` {k \<in> bset b. bs_bits b - wrap \<le> k} =
      (\<lambda>i. nat ((int i + n) mod int nbits)) ` bset b"
    by (auto simp flip: image_Un intro!: arg_cong [of _ _ "image _"])
  finally show "bset (bit_rotate_copy b n nbits) = (\<lambda>i. nat ((int i + n) mod int nbits)) ` bset b" .
qed

lemma bit_rotate_correct:
  assumes "wf_bitstr b"
  shows "wf_bitstr (bit_rotate b n)" "bs_bits (bit_rotate b n) = bs_bits b"
    and "bset (bit_rotate b n) = (\<lambda>i. nat ((int i + n) mod int (bs_bits b))) ` bset b"
proof -
  have v: "valid_size (bs_bits b)" using assms by (simp add: wf_bitstr_def)
  note R = bit_rotate_copy_correct [OF assms v order_refl, of n]
  have eq: "n \<noteq> 0 \<Longrightarrow> bit_rotate b n = bit_rotate_copy b n (bs_bits b)"
    using bit_copybits_eq [OF assms R(1)] R(2) by (simp add: bit_rotate_def bit_size_def)
  have "(\<lambda>i. nat (int i mod int (bs_bits b))) ` bset b = bset b"
    using bset_less [of _ b] by (force simp: image_iff)
  then have id: "n = 0 \<Longrightarrow> (\<lambda>i. nat ((int i + n) mod int (bs_bits b))) ` bset b = bset b" by simp
  show "wf_bitstr (bit_rotate b n)" "bs_bits (bit_rotate b n) = bs_bits b"
    using eq R assms by (cases "n = 0"; simp add: bit_rotate_def)+
  show "bset (bit_rotate b n) = (\<lambda>i. nat ((int i + n) mod int (bs_bits b))) ` bset b"
    using eq R id by (cases "n = 0") (simp_all add: bit_rotate_def)
qed

subsection \<open>Selection\<close>

text \<open>
  The state of the selection at position \<open>i\<close>: the copy holds exactly the set
  positions below \<open>i\<close>, and \<open>count\<close> is their number.
\<close>

definition picked :: "bitstr \<Rightarrow> nat \<Rightarrow> bitstr \<Rightarrow> nat \<Rightarrow> nat \<Rightarrow> bool" where
  "picked b nbits new i count \<longleftrightarrow>
     wf_bitstr new \<and> bs_bits new = bs_bits b \<and> count \<le> nbits
     \<and> count = card {k \<in> bset b. k < i} \<and> bset new = {k \<in> bset b. k < i}
     \<and> (\<forall>k. i \<le> k \<longrightarrow> \<not> wbit (bs_words new) k)"

lemma set_below_Suc:
  "{k \<in> bset b. k < i + 1} = (if i \<in> bset b then insert i {k \<in> bset b. k < i} else {k \<in> bset b. k < i})"
  by (auto simp: less_Suc_eq)

lemma picked_bits:
  "wf_bitstr b \<Longrightarrow> picked b nbits new i count \<Longrightarrow> pick_bits b nbits new i count = (new', i', count')
     \<Longrightarrow> picked b nbits new' i' count'"
proof (induction b nbits new i count rule: pick_bits.induct)
  case (1 b nbits new i count)
  note step = 1(5) [unfolded pick_bits.simps [of b nbits new i count]]
  have fin: "finite {k \<in> bset b. k < i}" by simp
  show ?case
  proof (cases "i < bs_bits b \<and> count < nbits")
    case True
    note go = step [unfolded if_P [OF True]]
    have v: "wf_bitstr new" "bit_valid new i" "i < 64 * length (bs_words new)"
      using 1(4) True wf_bound [of new i] by (auto simp: picked_def bit_valid_def)
    have mem: "bit_test b i \<longleftrightarrow> i \<in> bset b" using True by (simp add: bset_def)
    show ?thesis
    proof (cases "bit_test b i")
      case t: True
      have "picked b nbits (bit_set new i) (i + 1) (count + 1)"
        using 1(4) True t mem v set_below_Suc [of b i] fin
        by (simp add: picked_def bset_bit_set wbit_simps)
      then show ?thesis using 1(1) [OF True t 1(3)] go [unfolded if_P [OF t]] by blast
    next
      case f: False
      have "picked b nbits new (i + 1) count"
        using 1(4) f mem set_below_Suc [of b i] by (simp add: picked_def)
      then show ?thesis using 1(2) [OF True f 1(3)] go [unfolded if_not_P [OF f]] by blast
    qed
  next
    case False
    then show ?thesis using step 1(4) by auto
  qed
qed

lemma picked_word:
  assumes "wf_bitstr b" "picked b nbits new (64 * j) count" "64 * j + 63 < bs_bits b"
    and "count + hweight (bs_words b ! j) \<le> nbits"
  shows "picked b nbits (new\<lparr>bs_words := (bs_words new)[j := bs_words b ! j]\<rparr>) (64 * j + 64)
           (count + hweight (bs_words b ! j))"
proof -
  let ?new = "new\<lparr>bs_words := (bs_words new)[j := bs_words b ! j]\<rparr>"
  have len: "length (bs_words new) = length (bs_words b)" "64 * j + 63 < 64 * length (bs_words b)"
    using assms wf_bound [OF assms(1)] by (auto simp: picked_def wf_bitstr_def)
  have j: "j < length (bs_words b)" "j < length (bs_words new)" using len by auto
  have wf: "wf_bitstr ?new" using assms(2) by (auto simp: picked_def wf_bitstr_def bitstr_valid_def)
  have W: "wbit (bs_words ?new) k \<longleftrightarrow> (if k div 64 = j then wbit (bs_words b) k else wbit (bs_words new) k)" for k
    using j wbit_same_word [of k "64 * j" "bs_words b"] by (auto simp: wbit_update)
  have at: "k div 64 = j \<longleftrightarrow> 64 * j \<le> k \<and> k < 64 * j + 64" for k by linarith
  have nw: "wbit (bs_words new) k \<longleftrightarrow> k < 64 * j \<and> wbit (bs_words b) k" if "k < bs_bits b" for k
  proof -
    have "k \<in> bset new \<longleftrightarrow> k < 64 * j \<and> k \<in> bset b" using assms(2) by (auto simp: picked_def)
    then show ?thesis using that assms(1,2) by (auto simp: bset_wbit picked_def)
  qed
  have set: "bset ?new = {k \<in> bset b. k < 64 * j + 64}"
    using assms(1,2) wf nw W at by (auto simp: bset_wbit picked_def)
  have "hweight (bs_words b ! j AND - 1) = pcount (wbit (bs_words b)) (64 * j + 0) (64 * j + 64)"
    using j by (intro hweight_word) auto
  then have hw: "hweight (bs_words b ! j) = card {k \<in> bset b. 64 * j \<le> k \<and> k < 64 * j + 64}"
    using assms(1,3) by (auto simp: pcount_card bset_wbit intro!: arg_cong [of _ _ card])
  have "card {k \<in> bset b. k < 64 * j + 64} =
      card ({k \<in> bset b. k < 64 * j} \<union> {k \<in> bset b. 64 * j \<le> k \<and> k < 64 * j + 64})"
    by (intro arg_cong [of _ _ card]) auto
  also have "\<dots> = count + hweight (bs_words b ! j)"
    using assms(2) by (subst card_Un_disjoint) (auto simp: hw picked_def)
  finally have cnt: "count + hweight (bs_words b ! j) = card {k \<in> bset b. k < 64 * j + 64}" by simp
  have "\<not> wbit (bs_words ?new) k" if "64 * j + 64 \<le> k" for k
    using that W [of k] at [of k] assms(2) by (auto simp: picked_def)
  then show ?thesis unfolding picked_def using wf set cnt assms(2,4) by (simp add: picked_def)
qed

lemma picked_skip:
  assumes "wf_bitstr b" "picked b nbits new (64 * j) count" "j < length (bs_words b)" "bs_words b ! j = 0"
  shows "picked b nbits new (64 * j + 64) count"
proof -
  have "\<not> wbit (bs_words b) k" if "64 * j \<le> k" "k < 64 * j + 64" for k
  proof -
    have "k div 64 = j" using that by linarith
    then show ?thesis using assms(4) by (simp add: wbit_def)
  qed
  then have "{k \<in> bset b. k < 64 * j + 64} = {k \<in> bset b. k < 64 * j}"
    using assms(1) by (auto simp: bset_wbit) (meson not_less)
  then show ?thesis using assms(2) by (simp add: picked_def)
qed

lemma pick_loop_spec:
  assumes "wf_bitstr b" "picked b nbits new (64 * j) count"
  shows "\<exists>i'. picked b nbits (fst (pick_loop b nbits new (64 * j) count)) i'
                (snd (pick_loop b nbits new (64 * j) count))
             \<and> \<not> (i' < bs_bits b \<and> snd (pick_loop b nbits new (64 * j) count) < nbits)"
  using assms(2)
proof (induction "bs_bits b - 64 * j" arbitrary: new j count rule: less_induct)
  case less
  let ?L = "pick_loop b nbits new (64 * j) count" and ?w = "bs_words b ! j"
  note step = pick_loop.simps [of b nbits new "64 * j" count]
  show ?case
  proof (cases "64 * j < bs_bits b \<and> count < nbits")
    case go: True
    have j: "j < length (bs_words b)" using go wf_bound [OF assms(1), of "64 * j"] by simp
    have w: "bit_word_of (64 * j) = j" by (simp add: bit_word_of_def)
    have nxt: "bs_bits b - 64 * Suc j < bs_bits b - 64 * j" "64 * j + 64 = 64 * Suc j" using go by auto
    consider (zero) "?w = 0"
      | (whole) "?w \<noteq> 0" "count + hweight ?w \<le> nbits \<and> 64 * j + 64 - 1 < bs_bits b"
      | (single) "?w \<noteq> 0" "\<not> (count + hweight ?w \<le> nbits \<and> 64 * j + 64 - 1 < bs_bits b)" by blast
    then show ?thesis
    proof cases
      case zero
      then have "?L = pick_loop b nbits new (64 * Suc j) count"
        using go w step nxt(2) by (simp add: Let_def add.commute)
      then show ?thesis
        using less.hyps [OF nxt(1)] picked_skip [OF assms(1) less.prems j zero] nxt(2) by simp
    next
      case whole
      let ?new = "new\<lparr>bs_words := (bs_words new)[j := ?w]\<rparr>"
      have "?L = pick_loop b nbits ?new (64 * Suc j) (count + hweight ?w)"
        using go w step nxt(2) whole by (simp add: Let_def add.commute)
      moreover have "picked b nbits ?new (64 * Suc j) (count + hweight ?w)"
        using picked_word [OF assms(1) less.prems] whole(2) nxt(2) by simp
      ultimately show ?thesis using less.hyps [OF nxt(1)] by simp
    next
      case single
      obtain new' i' count' where p: "pick_bits b nbits new (64 * j) count = (new', i', count')"
        using prod_cases3 by blast
      note ex = pick_bits_exit [OF p]
      have "?L = pick_loop b nbits new' i' count'"
        using step go w single p by (simp only: if_True if_False Let_def simp_thms prod.case)
      moreover have "pick_loop b nbits new' i' count' = (new', count')"
        using pick_loop.simps [of b nbits new' i' count', unfolded if_not_P [OF ex]] .
      ultimately show ?thesis using picked_bits [OF assms(1) less.prems p] ex by auto
    qed
  next
    case False
    have "?L = (new, count)" using step [unfolded if_not_P [OF False]] .
    then show ?thesis using less.prems False by (intro exI [of _ "64 * j"]) simp
  qed
qed

lemma take_positions:
  assumes "card {k \<in> bset b. k < i} = n"
  shows "set (take n (set_positions b)) = {k \<in> bset b. k < i}"
proof -
  let ?m = "min i (bs_bits b)"
  have "[0..<bs_bits b] = [0..<?m] @ [?m..<bs_bits b]"
    using upt_add_eq_append [of 0 ?m "bs_bits b - ?m"] by simp
  then have split: "set_positions b = filter (bit_test b) [0..<?m] @ filter (bit_test b) [?m..<bs_bits b]"
    by (simp add: set_positions_def)
  have low: "set (filter (bit_test b) [0..<?m]) = {k \<in> bset b. k < i}" by (auto simp: bset_def)
  have "length (filter (bit_test b) [0..<?m]) = n"
    using distinct_card [of "filter (bit_test b) [0..<?m]"] low assms by simp
  then show ?thesis using low split by simp
qed

lemma bit_pick_cnt_correct:
  assumes "wf_bitstr b"
  shows "bit_pick_cnt b n = None \<longleftrightarrow> card (bset b) < n"
    and "bit_pick_cnt b n = Some c \<Longrightarrow>
           wf_bitstr c \<and> bs_bits c = bs_bits b \<and> bset c = set (take n (set_positions b))"
proof -
  have le: "card (bset b) \<le> bs_bits b" using card_mono [OF _ bset_bounded [of b]] by simp
  have v: "valid_size (bs_bits b)" using assms by (simp add: wf_bitstr_def)
  obtain new count where L: "pick_loop b n (bit_alloc (bit_size b)) 0 0 = (new, count)" by fastforce
  have "picked b n (bit_alloc (bit_size b)) (64 * 0) 0"
    using v bset_alloc [OF v] wf_bit_alloc [OF v]
    by (simp add: picked_def bit_size_def) (simp add: bit_alloc_def)
  from pick_loop_spec [OF assms this] L
  obtain i' where P: "picked b n new i' count" and E: "\<not> (i' < bs_bits b \<and> count < n)" by auto
  have all: "{k \<in> bset b. k < i'} = bset b" if "bs_bits b \<le> i'"
    using that by (auto dest: bset_less)
  have full: "count < n \<Longrightarrow> card (bset b) = count"
    using E P all by (auto simp: picked_def)
  have some: "\<not> count < n \<Longrightarrow> n \<le> card (bset b)"
  proof -
    assume "\<not> count < n"
    then have "n = card {k \<in> bset b. k < i'}" using P by (simp add: picked_def)
    also have "\<dots> \<le> card (bset b)" using finite_subset [OF bset_bounded] by (intro card_mono) auto
    finally show ?thesis .
  qed
  show "bit_pick_cnt b n = None \<longleftrightarrow> card (bset b) < n"
    using L le full some by (auto simp: bit_pick_cnt_def)
  assume c: "bit_pick_cnt b n = Some c"
  then have c: "c = new" "count = n"
    using L P by (auto simp: bit_pick_cnt_def picked_def split: if_splits)
  then show "wf_bitstr c \<and> bs_bits c = bs_bits b \<and> bset c = set (take n (set_positions b))"
    using P take_positions [of b i' n] by (simp add: picked_def)
qed

subsection \<open>Reallocation\<close>

text \<open>
  Growing a string keeps its bits and adds clear ones only when the unused
  tail of its last word is clear.
\<close>

definition clean_tail :: "bitstr \<Rightarrow> bool" where
  "clean_tail b \<longleftrightarrow> (\<forall>i < 64 * length (bs_words b). bs_bits b \<le> i \<longrightarrow> \<not> wbit (bs_words b) i)"

lemma wbit_realloc:
  "wbit (bs_words (slurm_bit_realloc b n)) i \<longleftrightarrow> i < 64 * bitstr_words n \<and> wbit (bs_words b) i"
proof (cases "i < 64 * bitstr_words n")
  case True
  then have "i div 64 < bitstr_words n" by (rule div64_less)
  moreover have "i < 64 * length (bs_words b) \<longleftrightarrow> i div 64 < length (bs_words b)"
    by (simp add: div_less_iff_less_mult mult.commute)
  ultimately show ?thesis using True
    by (auto simp: wbit_def slurm_bit_realloc_def nth_append)
next
  case False
  then show ?thesis by (auto simp: wbit_def slurm_bit_realloc_def)
qed

lemma slurm_bit_realloc_correct:
  assumes "wf_bitstr b" "valid_size n"
  shows "wf_bitstr (slurm_bit_realloc b n)"
    and "bset (slurm_bit_realloc b n) = {i. i < n \<and> wbit (bs_words b) i}"
    and "clean_tail b \<Longrightarrow> bset (slurm_bit_realloc b n) = bset b \<inter> {..<n}"
proof -
  show wf: "wf_bitstr (slurm_bit_realloc b n)"
    using assms by (auto simp: wf_bitstr_def bitstr_valid_def slurm_bit_realloc_def)
  have bits: "bs_bits (slurm_bit_realloc b n) = n" by (simp add: slurm_bit_realloc_def)
  show S: "bset (slurm_bit_realloc b n) = {i. i < n \<and> wbit (bs_words b) i}"
    using bitstr_words_bound(1) [of n] by (auto simp: bset_wbit [OF wf] bits wbit_realloc)
  assume "clean_tail b"
  then show "bset (slurm_bit_realloc b n) = bset b \<inter> {..<n}"
    using assms(1) unfolding S clean_tail_def by (auto simp: bset_wbit) (meson not_less wbit_bound)
qed

end
