(* ===== verification/C_Strings.thy ===== *)
theory C_Strings
  imports Prelude
begin

text \<open>
  The parts of the C string library that the sources use: decimal printing and
  reading, and bounded and growing output. A C string is a \<^typ>\<open>string\<close> without
  its terminator.
\<close>

subsection \<open>Printing\<close>

function decimal :: "nat \<Rightarrow> string" where
  "decimal n =
     (if n < 10 then [char_of (48 + n)] else decimal (n div 10) @ [char_of (48 + n mod 10)])"
  by pat_completeness auto
termination
  by (relation "measure id") auto

declare decimal.simps [simp del]

definition fmt_d :: "int \<Rightarrow> string" where
  "fmt_d i = (if i < 0 then ''-'' @ decimal (nat (- i)) else decimal (nat i))"

text \<open>
  \<^verbatim>\<open>xstrfmtcat\<close> on a string that is \<^verbatim>\<open>NULL\<close> as long as nothing was written.
\<close>

definition xstrcat :: "string option \<Rightarrow> string \<Rightarrow> string option" where
  "xstrcat str s = Some (case str of None \<Rightarrow> s | Some t \<Rightarrow> t @ s)"

text \<open>
  \<^verbatim>\<open>snprintf\<close> into a buffer with room for \<open>room\<close> bytes, the terminator included.
\<close>

definition snprintf :: "nat \<Rightarrow> string \<Rightarrow> string" where
  "snprintf room s = take (room - 1) s"

subsection \<open>Reading\<close>

definition is_digit :: "char \<Rightarrow> bool" where
  "is_digit c \<longleftrightarrow> 48 \<le> (of_char c :: nat) \<and> (of_char c :: nat) \<le> 57"

definition digit_of :: "char \<Rightarrow> int" where
  "digit_of c = int (of_char c) - 48"

text \<open>\<^verbatim>\<open>strtol\<close> in base 10, and the conversion of its result to 32 bits.\<close>

definition is_space :: "char \<Rightarrow> bool" where
  "is_space c \<longleftrightarrow> c = CHR '' '' \<or> 9 \<le> (of_char c :: nat) \<and> (of_char c :: nat) \<le> 13"

definition digits_value :: "string \<Rightarrow> int" where
  "digits_value ds = foldl (\<lambda>v c. v * 10 + digit_of c) 0 ds"

definition strtol :: "string \<Rightarrow> int \<times> string" where
  "strtol str =
     (let s = dropWhile is_space str;
          neg = (s \<noteq> [] \<and> hd s = CHR ''-'');
          s' = (if s \<noteq> [] \<and> (hd s = CHR ''-'' \<or> hd s = CHR ''+'') then tl s else s);
          ds = takeWhile is_digit s'
      in if ds = [] then (0, str)
         else (max (- (2 ^ 63)) (min (2 ^ 63 - 1) (if neg then - digits_value ds else digits_value ds)),
               dropWhile is_digit s'))"

definition to_int32 :: "int \<Rightarrow> int" where
  "to_int32 i = signed_take_bit 31 i"

definition atoi :: "string \<Rightarrow> int" where
  "atoi str = to_int32 (fst (strtol str))"

subsection \<open>Reading what was printed\<close>

lemma of_digit_char: "d < 10 \<Longrightarrow> (of_char (char_of (48 + d) :: char) :: nat) = 48 + d"
  by simp

lemma digit_char [simp]:
  "d < 10 \<Longrightarrow> is_digit (char_of (48 + d))" "d < 10 \<Longrightarrow> digit_of (char_of (48 + d)) = int d"
  using of_digit_char [of d] by (simp_all add: is_digit_def digit_of_def)

lemma decimal_digits: "c \<in> set (decimal n) \<Longrightarrow> is_digit c"
proof (induction n rule: decimal.induct)
  case (1 n)
  then show ?case
    by (cases "n < 10") (auto simp: decimal.simps [of n])
qed

lemma decimal_nonempty [simp]: "decimal n \<noteq> []"
  by (subst decimal.simps) simp

lemma separators [simp]:
  "\<not> is_digit CHR ''-''" "\<not> is_digit CHR '',''" "\<not> is_digit CHR 0x00" "\<not> is_digit CHR '':''"
  by (simp_all add: is_digit_def)

lemma digits_value_snoc: "digits_value (ds @ [c]) = digits_value ds * 10 + digit_of c"
  by (simp add: digits_value_def)

lemma digits_value_decimal [simp]: "digits_value (decimal n) = int n"
proof (induction n rule: decimal.induct)
  case (1 n)
  show ?case
  proof (cases "n < 10")
    case True
    then show ?thesis by (subst decimal.simps) (simp add: digits_value_def)
  next
    case False
    then show ?thesis using 1 by (subst decimal.simps) (simp add: digits_value_snoc zdiv_int zmod_int)
  qed
qed

lemma digit_not_space: "is_digit c \<Longrightarrow> \<not> is_space c \<and> c \<noteq> CHR ''-'' \<and> c \<noteq> CHR ''+''"
  by (auto simp: is_digit_def is_space_def)

lemma decimal_span:
  assumes "rest = [] \<or> \<not> is_digit (hd rest)"
  shows "takeWhile is_digit (decimal n @ rest) = decimal n" "dropWhile is_digit (decimal n @ rest) = rest"
proof -
  have d: "\<And>x. x \<in> set (decimal n) \<Longrightarrow> is_digit x" by (rule decimal_digits)
  have r: "takeWhile is_digit rest = []" "dropWhile is_digit rest = rest" using assms by (cases rest; simp)+
  show "takeWhile is_digit (decimal n @ rest) = decimal n" by (simp add: takeWhile_append2 d r)
  show "dropWhile is_digit (decimal n @ rest) = rest" by (simp add: dropWhile_append2 d r)
qed

lemma strtol_fmt_d:
  assumes "rest = [] \<or> \<not> is_digit (hd rest)" "- (2 ^ 63) \<le> i" "i < 2 ^ 63" "\<forall>c \<in> set sp. is_space c"
  shows "strtol (sp @ fmt_d i @ rest) = (i, rest)"
proof -
  obtain d ds where d: "decimal (nat \<bar>i\<bar>) = d # ds" "is_digit d"
    using decimal_digits [of _ "nat \<bar>i\<bar>"] by (cases "decimal (nat \<bar>i\<bar>)") auto
  note sp = decimal_span [OF assms(1), of "nat \<bar>i\<bar>"]
  have drop: "dropWhile is_space (sp @ t) = dropWhile is_space t" for t using assms(4) by (simp add: dropWhile_append2)
  show ?thesis
  proof (cases "i < 0")
    case True
    then have f: "fmt_d i = CHR ''-'' # decimal (nat \<bar>i\<bar>)" by (simp add: fmt_d_def)
    have "\<not> is_space CHR ''-''" by (simp add: is_space_def)
    then show ?thesis using sp True assms(2,3) by (simp add: strtol_def drop f)
  next
    case False
    then have f: "fmt_d i = decimal (nat \<bar>i\<bar>)" by (simp add: fmt_d_def)
    then have f': "fmt_d i = d # ds" using d by simp
    have nd: "\<not> is_space d" "d \<noteq> CHR ''-''" "d \<noteq> CHR ''+''" using digit_not_space [OF d(2)] by auto
    have "takeWhile is_digit (fmt_d i @ rest) = fmt_d i" "dropWhile is_digit (fmt_d i @ rest) = rest"
      "digits_value (fmt_d i) = i" using sp False by (simp_all add: f)
    then show ?thesis using nd assms(2,3) unfolding strtol_def Let_def drop by (simp add: f')
  qed
qed

end
