(* ===== verification/Bitstring_Fmt.thy ===== *)
theory Bitstring_Fmt
  imports Bitstring_Move C_Strings
begin

text \<open>
  The range notation of bit strings in \<^verbatim>\<open>src/common/bitstring.c\<close>, such as
  \<^verbatim>\<open>0-5,42\<close>: printing, parsing, and the array of start and end pairs between
  them. The printers and \<^verbatim>\<open>bitstr2inx\<close> share one scan for maximal runs.
\<close>

subsection \<open>The scan for runs\<close>

function run_end :: "bitstr \<Rightarrow> nat \<Rightarrow> nat \<Rightarrow> nat" where
  "run_end b fini i = (if i + 1 < fini \<and> bit_test b (i + 1) then run_end b fini (i + 1) else i)"
  by pat_completeness auto
termination
  by (relation "measure (\<lambda>(b, fini, i). fini - i)") auto

declare run_end.simps [simp del]

lemma run_end_ge: "i \<le> run_end b fini i"
proof (induction b fini i rule: run_end.induct)
  case (1 b fini i)
  then show ?case by (subst run_end.simps) auto
qed

function bit_runs :: "bitstr \<Rightarrow> nat \<Rightarrow> nat \<Rightarrow> (nat \<times> nat) list" where
  "bit_runs b fini i =
     (if i < fini
      then if bs_words b ! bit_word_of i = 0 then bit_runs b fini (i + 64)
           else if bit_test b i
           then let e = run_end b fini i in (i, e) # bit_runs b fini (e + 1)
           else bit_runs b fini (i + 1)
      else [])"
  by pat_completeness auto
termination
  by (relation "measure (\<lambda>(b, fini, i). fini - i)") (auto simp: run_end_ge less_Suc_eq_le le_imp_less_Suc diff_less_mono2)

declare bit_runs.simps [simp del]

subsection \<open>Printing\<close>

text \<open>One run as the format strings of the printers write it, relative to \<open>offset\<close>.\<close>

definition fmt_run :: "nat \<Rightarrow> nat \<times> nat \<Rightarrow> string" where
  "fmt_run offset r =
     (case r of (s, e) \<Rightarrow>
        if e = s then decimal (s - offset) else decimal (s - offset) @ ''-'' @ decimal (e - offset))"

fun cat_runs :: "nat \<Rightarrow> string option \<Rightarrow> string \<Rightarrow> (nat \<times> nat) list \<Rightarrow> string option" where
  "cat_runs offset str comma [] = str"
| "cat_runs offset str comma (r # rs) = cat_runs offset (xstrcat str (comma @ fmt_run offset r)) '','' rs"

definition bit_fmt_full :: "bitstr \<Rightarrow> string option" where
  "bit_fmt_full b = cat_runs 0 None '''' (bit_runs b (bs_bits b) 0)"

definition bit_fmt_range :: "bitstr \<Rightarrow> nat \<Rightarrow> nat \<Rightarrow> string option" where
  "bit_fmt_range b offset len =
     cat_runs offset None '''' (bit_runs b (min (bs_bits b) (offset + len)) offset)"

fun print_runs :: "nat \<Rightarrow> string \<Rightarrow> string \<Rightarrow> (nat \<times> nat) list \<Rightarrow> string" where
  "print_runs len str comma [] = str"
| "print_runs len str comma (r # rs) =
     print_runs len (str @ snprintf (len - length str) (comma @ fmt_run 0 r)) '','' rs"

definition bit_fmt :: "nat \<Rightarrow> bitstr \<Rightarrow> string" where
  "bit_fmt len b = print_runs len '''' '''' (bit_runs b (bs_bits b) 0)"

subsection \<open>Start and end pairs\<close>

text \<open>The arrays are terminated by \<open>-1\<close>, which the lists of the model include.\<close>

fun inx_of_runs :: "(nat \<times> nat) list \<Rightarrow> int list" where
  "inx_of_runs [] = [- 1]"
| "inx_of_runs ((s, e) # rs) = int s # int e # inx_of_runs rs"

definition bitstr2inx :: "bitstr option \<Rightarrow> int list" where
  "bitstr2inx ob = (case ob of None \<Rightarrow> [- 1] | Some b \<Rightarrow> inx_of_runs (bit_runs b (bs_bits b) 0))"

fun inx_loop :: "bitstr \<Rightarrow> int \<Rightarrow> int list \<Rightarrow> bitstr \<times> int" where
  "inx_loop b bit_cnt (p # q # inx) =
     (if p = - 1 then (b, 0)
      else if p < 0 \<or> p \<ge> bit_cnt \<or> q < 0 \<or> q \<ge> bit_cnt then (b, - 1)
      else inx_loop (bit_nset b (nat p) (nat q)) bit_cnt inx)"
| "inx_loop b bit_cnt inx = (b, 0)"

definition inx2bitstr :: "bitstr \<Rightarrow> int list \<Rightarrow> bitstr \<times> int" where
  "inx2bitstr b inx =
     (let bit_cnt = bs_bits b;
          b' = (if bit_cnt > 0 then bit_nclear b 0 (bit_cnt - 1) else b)
      in inx_loop b' (int bit_cnt) inx)"

fun inx2fmt_loop :: "string option \<Rightarrow> int list \<Rightarrow> string option" where
  "inx2fmt_loop str (p # q # inx) =
     (if p \<ge> 0
      then inx2fmt_loop (xstrcat str ((case str of Some _ \<Rightarrow> '','' | None \<Rightarrow> '''') @ fmt_d p @ ''-'' @ fmt_d q)) inx
      else str)"
| "inx2fmt_loop str inx = str"

definition inx2bitfmt :: "int list option \<Rightarrow> string option" where
  "inx2bitfmt oinx = (case oinx of None \<Rightarrow> None | Some inx \<Rightarrow> inx2fmt_loop None inx)"

subsection \<open>Parsing\<close>

text \<open>
  The loop over the plain format. Its input is the string with its terminator,
  its state the running sum, the pending start value and the array so far.
\<close>

fun fmt_loop :: "bool \<Rightarrow> int \<Rightarrow> int \<Rightarrow> int list \<Rightarrow> string \<Rightarrow> int list" where
  "fmt_loop first acc start_val out [] = out"
| "fmt_loop first acc start_val out (c # cs) =
     (if is_digit c then fmt_loop False (acc * 10 + digit_of c) start_val out cs
      else if c = CHR ''-'' then fmt_loop False 0 acc out cs
      else if c = CHR '','' \<or> c = CHR 0x00
      then if first then out
           else fmt_loop False 0 (- 1) (out @ [if start_val = - 1 then acc else start_val, acc]) cs
      else fmt_loop False acc start_val out cs)"

function step_loop :: "int \<Rightarrow> int \<Rightarrow> int \<Rightarrow> int list" where
  "step_loop i stop step = (if i < stop \<and> step > 0 then i # i # step_loop (i + step) stop step else [])"
  by pat_completeness auto
termination
  by (relation "measure (\<lambda>(i, stop, step). nat (stop - i))") auto

declare step_loop.simps [simp del]

definition bitfmt2int :: "string option \<Rightarrow> int list option" where
  "bitfmt2int ostr =
     (case ostr of None \<Rightarrow> None
      | Some str \<Rightarrow>
          if CHR '':'' \<notin> set str
          then Some (fmt_loop True 0 (- 1) [] (str @ [CHR 0x00]) @ [- 1])
          else (let (v1, tmp1) = strtol str
                in if tmp1 = [] \<or> hd tmp1 \<noteq> CHR ''-'' then None
                   else let (v2, tmp2) = strtol (tl tmp1)
                        in if tmp2 = [] \<or> hd tmp2 \<noteq> CHR '':'' then None
                           else let (v3, tmp3) = strtol (tl tmp2)
                                in if tmp3 \<noteq> [] then None
                                   else let start_task_id = to_int32 v1;
                                            end_task_id = to_int32 v2;
                                            step = to_int32 v3
                                        in if end_task_id < start_task_id \<or> step \<le> 0 then None
                                           else Some (step_loop start_task_id end_task_id step @ [- 1])))"

definition bit_unfmt :: "bitstr \<Rightarrow> string option \<Rightarrow> bitstr \<times> int" where
  "bit_unfmt b str =
     (if str = None \<or> str = Some '''' then (b, 0)
      else case bitfmt2int str of None \<Rightarrow> (b, - 1) | Some intvec \<Rightarrow> inx2bitstr b intvec)"

subsection \<open>Runs\<close>

text \<open>
  What the scan promises: runs in increasing order, none adjacent to the next,
  that cover exactly the set positions.
\<close>

fun run_list :: "nat \<Rightarrow> (nat \<times> nat) list \<Rightarrow> bool" where
  "run_list lo [] \<longleftrightarrow> True"
| "run_list lo ((s, e) # rs) \<longleftrightarrow> lo \<le> s \<and> s \<le> e \<and> run_list (e + 2) rs"

fun run_set :: "(nat \<times> nat) list \<Rightarrow> nat set" where
  "run_set [] = {}"
| "run_set ((s, e) # rs) = {s..e} \<union> run_set rs"

lemma run_list_mono: "run_list lo' rs \<Longrightarrow> lo \<le> lo' \<Longrightarrow> run_list lo rs"
  by (cases rs) auto

lemma run_list_next: "run_list lo rs \<Longrightarrow> lo \<notin> run_set rs \<Longrightarrow> run_list (lo + 1) rs"
  by (cases rs) auto

lemma run_end_spec:
  "i < fini \<Longrightarrow> bit_test b i \<Longrightarrow>
     run_end b fini i < fini \<and> (\<forall>k. i \<le> k \<and> k \<le> run_end b fini i \<longrightarrow> bit_test b k)
     \<and> (run_end b fini i + 1 < fini \<longrightarrow> \<not> bit_test b (run_end b fini i + 1))"
proof (induction b fini i rule: run_end.induct)
  case (1 b fini i)
  show ?case
  proof (cases "i + 1 < fini \<and> bit_test b (i + 1)")
    case True
    then have "run_end b fini i = run_end b fini (i + 1)" by (simp add: run_end.simps [of b fini i])
    moreover have "i \<le> k \<longleftrightarrow> k = i \<or> i + 1 \<le> k" for k by auto
    ultimately show ?thesis using 1(1) [OF True] True 1(3) by auto
  next
    case False
    have "run_end b fini i = i" using run_end.simps [of b fini i, unfolded if_not_P [OF False]] .
    then show ?thesis using False 1(2,3) le_antisym [of i] by auto
  qed
qed

lemma nonzero_word_next:
  "bs_words b ! bit_word_of i \<noteq> 0 \<Longrightarrow> (i + 1) mod 64 = 0 \<or> bs_words b ! bit_word_of (i + 1) \<noteq> 0"
proof -
  assume nz: "bs_words b ! bit_word_of i \<noteq> 0"
  have "(i + 1) mod 64 = 0 \<or> (i + 1) div 64 = i div 64" by (simp add: div_Suc mod_Suc)
  then show ?thesis using nz by (auto simp: bit_word_of_def)
qed

lemma bit_test_nonzero: "bit_test b i \<Longrightarrow> bs_words b ! bit_word_of i \<noteq> 0"
  by (auto simp: bit_test_def)

text \<open>
  The scan skips a whole word from any position at which it sees an empty one,
  so it has to enter a word at its first bit or at a word that is not empty.
\<close>

lemma bit_runs_spec:
  "fini \<le> bs_bits b \<Longrightarrow> i mod 64 = 0 \<or> bs_words b ! bit_word_of i \<noteq> 0 \<Longrightarrow>
     run_list i (bit_runs b fini i) \<and> run_set (bit_runs b fini i) = {k \<in> bset b. i \<le> k \<and> k < fini}"
proof (induction b fini i rule: bit_runs.induct)
  case (1 b fini i)
  note step = bit_runs.simps [of b fini i]
  show ?case
  proof (cases "i < fini")
    case go: True
    have mem: "bit_test b k \<longleftrightarrow> k \<in> bset b" if "k < fini" for k using that 1(4) by (simp add: bset_def)
    consider (zero) "bs_words b ! bit_word_of i = 0"
      | (run) "bs_words b ! bit_word_of i \<noteq> 0" "bit_test b i"
      | (skip) "bs_words b ! bit_word_of i \<noteq> 0" "\<not> bit_test b i" by blast
    then show ?thesis
    proof cases
      case zero
      then have al: "i mod 64 = 0" using 1(5) by simp
      have none: "k \<notin> bset b" if "i \<le> k" "k < i + 64" for k
      proof -
        have "k div 64 = i div 64"
          using that al mult_div_mod_eq [of 64 i] by (intro div_nat_eqI) auto
        then show ?thesis using zero by (simp add: bset_def bit_test_def bit_word_of_def)
      qed
      have "{k \<in> bset b. i \<le> k \<and> k < fini} = {k \<in> bset b. i + 64 \<le> k \<and> k < fini}"
        using none by (auto simp: not_less [symmetric])
      then show ?thesis
        using 1(1) [OF go zero 1(4)] al zero go step run_list_mono [of "i + 64" _ i] by simp
    next
      case run
      let ?e = "run_end b fini i"
      note E = run_end_spec [OF go run(2)]
      have "bs_words b ! bit_word_of ?e \<noteq> 0" using E run_end_ge [of i b fini] bit_test_nonzero by blast
      then have IH: "run_list (?e + 1) (bit_runs b fini (?e + 1))"
        "run_set (bit_runs b fini (?e + 1)) = {k \<in> bset b. ?e + 1 \<le> k \<and> k < fini}"
        using 1(2) [OF go run refl 1(4) nonzero_word_next] by auto
      have "?e + 1 \<notin> run_set (bit_runs b fini (?e + 1))" using IH(2) E by (auto simp: bset_def)
      then have "run_list (?e + 2) (bit_runs b fini (?e + 1))" using run_list_next [OF IH(1)] by simp
      moreover have "{i..?e} \<union> {k \<in> bset b. ?e + 1 \<le> k \<and> k < fini} = {k \<in> bset b. i \<le> k \<and> k < fini}"
        using E run_end_ge [of i b fini] mem by (auto simp: Suc_le_eq not_less)
      ultimately show ?thesis using go run step IH(2) run_end_ge [of i b fini] by (simp add: Let_def)
    next
      case skip
      have "{k \<in> bset b. i \<le> k \<and> k < fini} = {k \<in> bset b. i + 1 \<le> k \<and> k < fini}"
        using skip(2) by (auto simp: bset_def Suc_le_eq le_less)
      then show ?thesis
        using 1(3) [OF go skip 1(4) nonzero_word_next [OF skip(1)]] skip go step
          run_list_mono [of "i + 1" _ i] by simp
    qed
  next
    case False
    then show ?thesis using step by auto
  qed
qed

lemma run_set_bounded: "run_list lo rs \<Longrightarrow> run_set rs \<subseteq> {..<n} \<Longrightarrow> (s, e) \<in> set rs \<Longrightarrow> s \<le> e \<and> e < n"
  by (induction lo rs rule: run_list.induct) fastforce+

lemma inx_loop_runs:
  assumes "wf_bitstr c" "run_list lo rs" "run_set rs \<subseteq> {..<bs_bits c}"
  shows "\<exists>c'. inx_loop c (int (bs_bits c)) (inx_of_runs rs) = (c', 0)
              \<and> wf_bitstr c' \<and> bs_bits c' = bs_bits c \<and> bset c' = bset c \<union> run_set rs"
  using assms
proof (induction lo rs arbitrary: c rule: run_list.induct)
  case (2 lo s e rs)
  have se: "s \<le> e" "e < bs_bits c" using 2(3,4) by auto
  then have v: "bit_valid c s" "bit_valid c e" by (simp_all add: bit_valid_def)
  note N = bit_nset_correct [OF 2(2) v]
  have "\<exists>c'. inx_loop (bit_nset c s e) (int (bs_bits c)) (inx_of_runs rs) = (c', 0)
      \<and> wf_bitstr c' \<and> bs_bits c' = bs_bits c \<and> bset c' = bset c \<union> {s..e} \<union> run_set rs"
    using 2(1) [OF N(1)] 2(3,4) N(2,3) by simp
  then show ?case using se by (simp add: Un_assoc)
qed simp

lemma inx2bitstr_bitstr2inx:
  assumes "wf_bitstr b" "wf_bitstr c" "bs_bits b \<le> bs_bits c"
  shows "\<exists>c'. inx2bitstr c (bitstr2inx (Some b)) = (c', 0)
              \<and> wf_bitstr c' \<and> bs_bits c' = bs_bits c \<and> bset c' = bset b"
proof -
  let ?rs = "bit_runs b (bs_bits b) 0" and ?c = "bit_nclear c 0 (bs_bits c - 1)"
  have R: "run_list 0 ?rs" "run_set ?rs = bset b"
    using bit_runs_spec [of "bs_bits b" b 0] by (auto dest: bset_less)
  note C = bit_nclear_correct [OF assms(2) ends_valid [OF assms(2)]]
  have e: "bset ?c = {}" using C(3) bset_bounded [of c] all_range [OF assms(2)] by auto
  have "run_set ?rs \<subseteq> {..<bs_bits ?c}" using R(2) bset_less [of _ b] assms(3) C(2) by fastforce
  from inx_loop_runs [OF C(1) R(1) this] show ?thesis
    using C(2) e R(2) wf_bits_pos [OF assms(2)] by (simp add: inx2bitstr_def bitstr2inx_def Let_def)
qed

subsection \<open>Text\<close>

text \<open>The text of a list of runs, to which every printer is compared.\<close>

fun runs_text :: "nat \<Rightarrow> string \<Rightarrow> (nat \<times> nat) list \<Rightarrow> string" where
  "runs_text offset comma [] = ''''"
| "runs_text offset comma (r # rs) = comma @ fmt_run offset r @ runs_text offset '','' rs"

lemma cat_runs_text:
  "cat_runs offset str comma rs =
     (if rs = [] then str else Some ((case str of None \<Rightarrow> '''' | Some t \<Rightarrow> t) @ runs_text offset comma rs))"
  by (induction rs arbitrary: str comma) (auto simp: xstrcat_def split: option.split)

lemma print_runs_text:
  "print_runs len (take (len - 1) t) comma rs = take (len - 1) (t @ runs_text 0 comma rs)"
proof (induction rs arbitrary: t comma)
  case (Cons r rs)
  have "take (len - 1) t @ snprintf (len - length (take (len - 1) t)) (comma @ fmt_run 0 r) =
      take (len - 1) (t @ comma @ fmt_run 0 r)"
    unfolding snprintf_def take_append
    by (cases "length t \<le> len - 1") (simp_all add: min_def)
  then show ?case using Cons [of "t @ comma @ fmt_run 0 r" "'',''"] by simp
qed simp

lemma bit_fmt_full_text:
  "bit_fmt_full b =
     (let rs = bit_runs b (bs_bits b) 0 in if rs = [] then None else Some (runs_text 0 '''' rs))"
  by (simp add: bit_fmt_full_def cat_runs_text Let_def)

lemma bit_fmt_truncates:
  "bit_fmt len b = take (len - 1) (case bit_fmt_full b of None \<Rightarrow> '''' | Some t \<Rightarrow> t)"
  using print_runs_text [of len "''''" "''''" "bit_runs b (bs_bits b) 0"]
  by (simp add: bit_fmt_def bit_fmt_full_text Let_def)

subsection \<open>Parsing what was printed\<close>

lemma fmt_loop_digit:
  "is_digit c \<Longrightarrow> fmt_loop f acc sv out (c # cs) = fmt_loop False (acc * 10 + digit_of c) sv out cs"
  by simp

lemma fmt_loop_decimal:
  "fmt_loop f 0 sv out (decimal n @ cs) = fmt_loop False (int n) sv out cs"
proof (induction n arbitrary: cs rule: decimal.induct)
  case (1 n)
  show ?case
  proof (cases "n < 10")
    case True
    then show ?thesis by (simp add: decimal.simps [of n] fmt_loop_digit del: fmt_loop.simps)
  next
    case False
    have "fmt_loop f 0 sv out (decimal n @ cs) = fmt_loop f 0 sv out (decimal (n div 10) @ char_of (48 + n mod 10) # cs)"
      using False by (simp add: decimal.simps [of n])
    also have "\<dots> = fmt_loop False (int (n div 10)) sv out (char_of (48 + n mod 10) # cs)"
      by (rule 1 [OF False])
    also have "\<dots> = fmt_loop False (int (n div 10) * 10 + int (n mod 10)) sv out cs"
      by (simp add: fmt_loop_digit del: fmt_loop.simps)
    also have "int (n div 10) * 10 + int (n mod 10) = int n"
      by (metis of_nat_add of_nat_mult of_nat_numeral div_mult_mod_eq)
    finally show ?thesis .
  qed
qed

lemma fmt_loop_run:
  assumes "c = CHR '','' \<or> c = CHR 0x00"
  shows "fmt_loop f 0 (- 1) out (fmt_run 0 (s, e) @ c # cs) =
           fmt_loop False 0 (- 1) (out @ [int s, int e]) cs"
  using assms by (auto simp: fmt_run_def fmt_loop_decimal)

lemma fmt_loop_runs:
  "fmt_loop f 0 (- 1) out (fmt_run 0 r @ runs_text 0 '','' rs @ [CHR 0x00]) @ [- 1] =
     out @ inx_of_runs (r # rs)"
proof (induction rs arbitrary: f out r)
  case Nil
  then show ?case by (cases r) (simp add: fmt_loop_run)
next
  case (Cons r' rs)
  obtain s e where r: "r = (s, e)" by fastforce
  have "fmt_loop f 0 (- 1) out (fmt_run 0 r @ runs_text 0 '','' (r' # rs) @ [CHR 0x00]) =
      fmt_loop False 0 (- 1) (out @ [int s, int e]) (fmt_run 0 r' @ runs_text 0 '','' rs @ [CHR 0x00])"
    using fmt_loop_run [of "CHR '',''" f out s e] by (simp add: r)
  then show ?case using Cons [of False "out @ [int s, int e]" r'] by (simp add: r)
qed

lemma no_colon: "CHR '':'' \<notin> set comma \<Longrightarrow> CHR '':'' \<notin> set (runs_text offset comma rs)"
proof (induction rs arbitrary: comma)
  case (Cons r rs)
  then show ?case using decimal_digits [of "CHR '':''"]
    by (auto simp: fmt_run_def split: prod.splits if_splits)
qed simp

lemma bitfmt2int_text:
  assumes "rs \<noteq> []"
  shows "bitfmt2int (Some (runs_text 0 '''' rs)) = Some (inx_of_runs rs)"
proof -
  obtain r rs' where rs: "rs = r # rs'" using assms by (cases rs) auto
  have "CHR '':'' \<notin> set (runs_text 0 '''' rs)" by (rule no_colon) simp
  then show ?thesis using fmt_loop_runs [of True "[]" r rs'] by (simp add: bitfmt2int_def rs)
qed

lemma bit_unfmt_bit_fmt_full:
  assumes "wf_bitstr b" "wf_bitstr c" "bs_bits b \<le> bs_bits c" "bset b \<noteq> {}"
  shows "\<exists>c'. bit_unfmt c (bit_fmt_full b) = (c', 0)
              \<and> wf_bitstr c' \<and> bs_bits c' = bs_bits c \<and> bset c' = bset b"
proof -
  let ?rs = "bit_runs b (bs_bits b) 0"
  have "run_set ?rs = bset b" using bit_runs_spec [of "bs_bits b" b 0] by (auto dest: bset_less)
  then have ne: "?rs \<noteq> []" using assms(4) by auto
  then obtain r rs where rs: "?rs = r # rs" by (cases ?rs) auto
  have "runs_text 0 '''' ?rs \<noteq> ''''" unfolding rs by (cases r) (simp add: fmt_run_def)
  then have "bit_unfmt c (bit_fmt_full b) = inx2bitstr c (bitstr2inx (Some b))"
    using ne bitfmt2int_text [OF ne] by (simp add: bit_unfmt_def bit_fmt_full_text bitstr2inx_def Let_def)
  then show ?thesis using inx2bitstr_bitstr2inx [OF assms(1-3)] by simp
qed

subsection \<open>Ranges and steps\<close>

lemma bit_fmt_range_aligned:
  assumes "offset mod 64 = 0"
  shows "\<exists>rs. bit_fmt_range b offset len = (if rs = [] then None else Some (runs_text offset '''' rs))
              \<and> run_list offset rs \<and> run_set rs = {k \<in> bset b. offset \<le> k \<and> k < offset + len}"
proof -
  let ?fini = "min (bs_bits b) (offset + len)"
  have "run_list offset (bit_runs b ?fini offset) \<and>
      run_set (bit_runs b ?fini offset) = {k \<in> bset b. offset \<le> k \<and> k < ?fini}"
    using assms by (intro bit_runs_spec) auto
  moreover have "{k \<in> bset b. offset \<le> k \<and> k < ?fini} = {k \<in> bset b. offset \<le> k \<and> k < offset + len}"
    by (auto dest: bset_less)
  ultimately show ?thesis
    by (intro exI [of _ "bit_runs b ?fini offset"]) (simp add: bit_fmt_range_def cat_runs_text)
qed

end
