(* ===== verification/Bitstring_Mask.thy ===== *)
theory Bitstring_Mask
  imports Bitstring_Fmt
begin

text \<open>
  The mask notations of \<^verbatim>\<open>src/common/bitstring.c\<close>: hexadecimal with the most
  significant digit first, full or without leading zeros, and binary.
\<close>

subsection \<open>Hexadecimal\<close>

definition hex_char :: "nat \<Rightarrow> char" where
  "hex_char d = (if d \<le> 9 then char_of (48 + d) else char_of (55 + d))"

text \<open>The table of the 256 two digit strings, by its rule.\<close>

definition hexmask_lookup :: "u8 \<Rightarrow> char \<times> char" where
  "hexmask_lookup idx = (hex_char (unat idx div 16), hex_char (unat idx mod 16))"

definition word_byte :: "u64 \<Rightarrow> nat \<Rightarrow> u8" where
  "word_byte w j = ucast (drop_bit (8 * j) w)"

text \<open>
  The printers fill their buffer from its end, so each character is put in
  front of the text so far. \<open>hex_bit\<close> is one guarded \<^verbatim>\<open>bit_test(bitmap, i++)\<close>.
\<close>

fun hex_word :: "u64 \<Rightarrow> nat list \<Rightarrow> string \<Rightarrow> string" where
  "hex_word w [] acc = acc"
| "hex_word w (j # js) acc =
     (let (hi, lo) = hexmask_lookup (word_byte w j) in hex_word w js (hi # lo # acc))"

definition hex_bit :: "bitstr \<Rightarrow> nat \<Rightarrow> u8 \<Rightarrow> u8 \<times> nat \<Rightarrow> u8 \<times> nat" where
  "hex_bit b bitsize m ci =
     (case ci of (current, i) \<Rightarrow>
        if i < bitsize then (if bit_test b i then current OR m else current, i + 1) else (current, i))"

definition hex_digit :: "bitstr \<Rightarrow> nat \<Rightarrow> nat \<Rightarrow> u8 \<times> nat" where
  "hex_digit b bitsize i =
     hex_bit b bitsize 8 (hex_bit b bitsize 4 (hex_bit b bitsize 2
       (if bit_test b i then 1 else 0, i + 1)))"

lemma hex_digit_ge: "i < snd (hex_digit b bitsize i)"
  by (auto simp: hex_digit_def hex_bit_def split: prod.splits if_splits)

function hex_loop :: "bitstr \<Rightarrow> nat \<Rightarrow> nat \<Rightarrow> string \<Rightarrow> string" where
  "hex_loop b bitsize i acc =
     (if i < bitsize
      then if i + 64 \<le> bitsize
           then hex_loop b bitsize (i + 64) (hex_word (bs_words b ! bit_word_of i) [0..<8] acc)
           else hex_loop b bitsize (snd (hex_digit b bitsize i))
                  (hex_char (unat (fst (hex_digit b bitsize i))) # acc)
      else acc)"
  by pat_completeness auto
termination
  by (relation "measure (\<lambda>(b, bitsize, i, acc). bitsize - i)")
    (auto intro!: diff_less_mono2 hex_digit_ge)

declare hex_loop.simps [simp del]

definition bit_fmt_hexmask_internal :: "bitstr \<Rightarrow> bool \<Rightarrow> string" where
  "bit_fmt_hexmask_internal b trim_output =
     (let bitsize = (if trim_output then nat (bit_fls b + 1) else bit_size b)
      in if bitsize = 0 then ''0x0'' else ''0x'' @ hex_loop b bitsize 0 '''')"

definition bit_fmt_hexmask :: "bitstr \<Rightarrow> string" where
  "bit_fmt_hexmask b = bit_fmt_hexmask_internal b False"

definition bit_fmt_hexmask_trim :: "bitstr \<Rightarrow> string" where
  "bit_fmt_hexmask_trim b = bit_fmt_hexmask_internal b True"

text \<open>
  The parser goes from the last character to the first. \<open>Inl\<close> is the string
  at the error return, \<open>Inr\<close> the string after a digit.
\<close>

definition hex_value :: "char \<Rightarrow> nat option" where
  "hex_value c =
     (let n = of_char c :: nat
      in if 48 \<le> n \<and> n \<le> 57 then Some (n - 48)
         else if 65 \<le> n \<and> n \<le> 70 then Some (n - 55)
         else if 97 \<le> n \<and> n \<le> 102 then Some (n - 87)
         else None)"

definition unhex_bit :: "nat \<Rightarrow> nat \<Rightarrow> nat \<Rightarrow> nat \<Rightarrow> bitstr + bitstr \<Rightarrow> bitstr + bitstr" where
  "unhex_bit current k bit_index bitsize r =
     (case r of Inl b \<Rightarrow> Inl b
      | Inr b \<Rightarrow>
          if bit current k
          then if bit_index + k < bitsize then Inr (bit_set b (bit_index + k)) else Inl b
          else Inr b)"

definition unhex_digit :: "bitstr \<Rightarrow> nat \<Rightarrow> nat \<Rightarrow> nat \<Rightarrow> bitstr + bitstr" where
  "unhex_digit b bitsize bit_index current =
     (if bit_index + 3 < bitsize \<and> bit_index mod 4 = 0
      then Inr (b\<lparr>bs_words := (bs_words b)[bit_word_of bit_index :=
                   bs_words b ! bit_word_of bit_index
                   OR push_bit (bit_index mod 64) (of_nat current AND 0xf)]\<rparr>)
      else unhex_bit current 3 bit_index bitsize (unhex_bit current 2 bit_index bitsize
             (unhex_bit current 1 bit_index bitsize (unhex_bit current 0 bit_index bitsize (Inr b)))))"

fun unhex_loop :: "bitstr \<Rightarrow> nat \<Rightarrow> nat \<Rightarrow> string \<Rightarrow> bitstr \<times> int" where
  "unhex_loop b bitsize bit_index [] = (b, 0)"
| "unhex_loop b bitsize bit_index (c # cs) =
     (case hex_value c of
        None \<Rightarrow> (b, - 1)
      | Some current \<Rightarrow>
          (case unhex_digit b bitsize bit_index current of
             Inl b' \<Rightarrow> (b', - 1)
           | Inr b' \<Rightarrow> unhex_loop b' bitsize (bit_index + 4) cs))"

definition bit_unfmt_hexmask :: "bitstr option \<Rightarrow> string option \<Rightarrow> bitstr option \<times> int" where
  "bit_unfmt_hexmask ob ostr =
     (case (ob, ostr) of
        (Some b, Some str) \<Rightarrow>
          (let bitsize = bit_size b;
               b1 = bit_nclear b 0 (bitsize - 1);
               str' = (if take 2 str = ''0x'' then drop 2 str else str);
               (b2, rc) = unhex_loop b1 bitsize 0 (rev str')
           in (Some b2, rc))
      | _ \<Rightarrow> (ob, - 1))"

subsection \<open>Binary\<close>

function bin_loop :: "bitstr \<Rightarrow> nat \<Rightarrow> nat \<Rightarrow> string \<Rightarrow> string" where
  "bin_loop b bitsize i acc =
     (if i < bitsize
      then bin_loop b bitsize (i + 1) (char_of (48 + (if bit_test b i then 1 else 0 :: nat)) # acc)
      else acc)"
  by pat_completeness auto
termination
  by (relation "measure (\<lambda>(b, bitsize, i, acc). bitsize - i)") auto

declare bin_loop.simps [simp del]

definition bit_fmt_binmask :: "bitstr \<Rightarrow> string" where
  "bit_fmt_binmask b = bin_loop b (bit_size b) 0 ''''"

fun unbin_loop :: "bitstr \<Rightarrow> nat \<Rightarrow> nat \<Rightarrow> string \<Rightarrow> bitstr" where
  "unbin_loop b bitsize bit_index [] = b"
| "unbin_loop b bitsize bit_index (c # cs) =
     unbin_loop (if odd (int (of_char c) - 48) \<and> bit_index < bitsize then bit_set b bit_index else b)
       bitsize (bit_index + 1) cs"

definition bit_unfmt_binmask :: "bitstr \<Rightarrow> string \<Rightarrow> bitstr" where
  "bit_unfmt_binmask b str =
     (let bitsize = bit_size b
      in unbin_loop (bit_nclear b 0 (bitsize - 1)) bitsize 0 (rev str))"

subsection \<open>The text of a hexadecimal mask\<close>

definition nibble :: "(nat \<Rightarrow> bool) \<Rightarrow> nat \<Rightarrow> nat" where
  "nibble P i = of_bool (P i) + 2 * of_bool (P (i + 1)) + 4 * of_bool (P (i + 2)) + 8 * of_bool (P (i + 3))"

lemma nibble_less: "nibble P i < 16"
  by (simp add: nibble_def)

lemma nibble_cong: "(\<And>k. i \<le> k \<Longrightarrow> k < i + 4 \<Longrightarrow> P k = Q k) \<Longrightarrow> nibble P i = nibble Q i"
  by (simp add: nibble_def)

lemma bit_nibble: "bit (nibble P i) k \<longleftrightarrow> k < 4 \<and> P (i + k)"
proof (cases "k < 4")
  case True
  then consider "k = 0" | "k = 1" | "k = 2" | "k = 3" by linarith
  then show ?thesis
    by cases (cases "P i"; cases "P (i + 1)"; cases "P (i + 2)"; cases "P (i + 3)";
        simp add: nibble_def bit_iff_odd)+
next
  case False
  then have "(2 :: nat) ^ 4 \<le> 2 ^ k" by (intro power_increasing) auto
  then have "nibble P i div 2 ^ k = 0" using nibble_less [of P i] by (intro div_less) simp
  then show ?thesis using False by (simp add: bit_iff_odd)
qed

lemma take_bit_4: "take_bit 4 (n :: nat) = nibble (bit n) 0"
  by (rule bit_eqI) (simp add: bit_nibble bit_take_bit_iff)

lemma bit_word_byte: "bit (unat (word_byte w j)) k \<longleftrightarrow> k < 8 \<and> bit w (8 * j + k)"
  by (auto simp: word_byte_def bit_unsigned_iff bit_ucast_iff bit_drop_bit_eq)

lemma nibble_word_byte:
  "unat (word_byte w j) mod 16 = nibble (bit w) (8 * j)"
  "unat (word_byte w j) div 16 = nibble (bit w) (8 * j + 4)"
proof -
  let ?x = "unat (word_byte w j)"
  have "?x mod 16 = take_bit 4 ?x" by (simp add: take_bit_eq_mod)
  also have "\<dots> = nibble (bit w) (8 * j)"
    by (rule bit_eqI) (auto simp: bit_nibble bit_take_bit_iff bit_word_byte)
  finally show "?x mod 16 = nibble (bit w) (8 * j)" .
  have "?x div 16 = drop_bit 4 ?x" by (simp add: drop_bit_eq_div)
  also have "\<dots> = nibble (bit w) (8 * j + 4)"
    by (rule bit_eqI) (auto simp: bit_nibble bit_drop_bit_eq bit_word_byte add.assoc)
  finally show "?x div 16 = nibble (bit w) (8 * j + 4)" .
qed

text \<open>Digits \<open>lo\<close> to \<open>hi - 1\<close> of the mask of the positions with \<open>P\<close>, highest first.\<close>

definition mask_text :: "(nat \<Rightarrow> bool) \<Rightarrow> nat \<Rightarrow> nat \<Rightarrow> string" where
  "mask_text P lo hi = map (\<lambda>d. hex_char (nibble P (4 * d))) (rev [lo..<hi])"

lemma mask_text_empty [simp]: "hi \<le> lo \<Longrightarrow> mask_text P lo hi = ''''"
  by (simp add: mask_text_def)

lemma mask_text_split:
  "lo \<le> mid \<Longrightarrow> mid \<le> hi \<Longrightarrow> mask_text P lo hi = mask_text P mid hi @ mask_text P lo mid"
  using upt_add_eq_append [of lo mid "hi - mid"] by (simp add: mask_text_def)

lemma mask_text_cong:
  "(\<And>k. 4 * lo \<le> k \<Longrightarrow> k < 4 * hi \<Longrightarrow> P k = Q k) \<Longrightarrow> mask_text P lo hi = mask_text Q lo hi"
  by (auto simp: mask_text_def intro!: arg_cong [of _ _ hex_char] nibble_cong)

lemma mask_text_shift: "mask_text P (a + lo) (a + hi) = mask_text (\<lambda>k. P (4 * a + k)) lo hi"
proof -
  have "[a + lo..<a + hi] = map ((+) a) [lo..<hi]" by (rule nth_equalityI) auto
  then show ?thesis by (simp add: mask_text_def nibble_def rev_map o_def add.assoc distrib_left)
qed

lemma hex_word_text: "hex_word w [m..<m + n] acc = mask_text (bit w) (2 * m) (2 * m + 2 * n) @ acc"
proof (induction n arbitrary: m acc)
  case (Suc n)
  have u: "[m..<m + Suc n] = m # [Suc m..<Suc m + n]" by (simp add: upt_conv_Cons)
  have "mask_text (bit w) (2 * m) (2 * m + 2 * Suc n) =
      mask_text (bit w) (2 * Suc m) (2 * Suc m + 2 * n) @ mask_text (bit w) (2 * m) (2 * Suc m)"
    using mask_text_split [of "2 * m" "2 * Suc m" "2 * m + 2 * Suc n" "bit w"] by simp
  moreover have "mask_text (bit w) (2 * m) (2 * Suc m) =
      [hex_char (nibble (bit w) (8 * m + 4)), hex_char (nibble (bit w) (8 * m))]"
    by (simp add: mask_text_def upt_conv_Cons algebra_simps)
  ultimately show ?case
    using Suc.IH [of "Suc m"] by (simp only: u hex_word.simps hexmask_lookup_def nibble_word_byte) simp
qed simp

definition below_set :: "bitstr \<Rightarrow> nat \<Rightarrow> nat \<Rightarrow> bool" where
  "below_set b n k \<longleftrightarrow> k < n \<and> bit_test b k"

definition put_bit :: "bool \<Rightarrow> u8 \<Rightarrow> u8 \<Rightarrow> u8" where
  "put_bit p m w = (if p then w OR m else w)"

lemma put_bits:
  "unat (put_bit s 8 (put_bit r 4 (put_bit q 2 (if p then 1 else 0)))) =
     of_bool p + 2 * of_bool q + 4 * of_bool r + 8 * of_bool s"
  by (cases p; cases q; cases r; cases s; simp add: put_bit_def)

lemma hex_bit_put: "hex_bit b n m (w, i) = (put_bit (below_set b n i) m w, if i < n then i + 1 else i)"
  by (simp add: hex_bit_def put_bit_def below_set_def)

lemma hex_bit_stuck: "n \<le> i \<Longrightarrow> hex_bit b n m (w, i) = (w, i)"
  by (simp add: hex_bit_def)

lemma hex_digit_nibble:
  assumes "i < n"
  shows "unat (fst (hex_digit b n i)) = nibble (below_set b n) i"
    and "snd (hex_digit b n i) = min (i + 4) n"
proof -
  have p: "bit_test b i \<longleftrightarrow> below_set b n i" using assms by (simp add: below_set_def)
  have out: "m \<le> k \<Longrightarrow> \<not> below_set b m k" for m k by (simp add: below_set_def)
  have F: "put_bit False m w = w" for m w by (simp add: put_bit_def)
  consider "n = i + 1" | "n = i + 2" | "n = i + 3" | "i + 4 \<le> n" using assms by linarith
  then have "hex_digit b n i = (put_bit (below_set b n (i + 3)) 8 (put_bit (below_set b n (i + 2)) 4
      (put_bit (below_set b n (i + 1)) 2 (if below_set b n i then 1 else 0))), min (i + 4) n)"
    by cases (simp_all add: hex_digit_def p hex_bit_put out F numeral_3_eq_3)
  then show "unat (fst (hex_digit b n i)) = nibble (below_set b n) i"
    "snd (hex_digit b n i) = min (i + 4) n"
    by (simp_all add: put_bits nibble_def)
qed

lemma hex_loop_text:
  assumes "n \<le> 64 * length (bs_words b)" "i = 4 * d" "i mod 64 = 0 \<or> n < i + 64"
  shows "hex_loop b n i acc = mask_text (below_set b n) d ((n + 3) div 4) @ acc"
  using assms(2,3)
proof (induction "n - i" arbitrary: i d acc rule: less_induct)
  case less
  let ?P = "below_set b n" and ?e = "(n + 3) div 4"
  note step = hex_loop.simps [of b n i acc]
  consider (fin) "n \<le> i" | (wd) "i + 64 \<le> n" | (digit) "i < n" "n < i + 64" by linarith
  then show ?case
  proof cases
    case fin
    then have "?e \<le> d" using less.prems(1) by linarith
    then show ?thesis using fin step by simp
  next
    case wd
    let ?w = "bs_words b ! bit_word_of i"
    have al: "i mod 64 = 0" using wd less.prems(2) by linarith
    have w: "bit ?w k \<longleftrightarrow> ?P (4 * d + k)" if "k < 64" for k
    proof -
      have "(i + k) div 64 = i div 64" "(i + k) mod 64 = k"
        using al that by (auto simp: div_add1_eq mod_add_eq [symmetric, of i])
      moreover have "i + k < n" using that wd by simp
      moreover have "bit_test b (i + k) = wbit (bs_words b) (i + k)"
        using calculation(3) assms(1) by (intro bit_test_wbit) simp
      ultimately show ?thesis
        using less.prems(1) assms(1) by (simp add: below_set_def wbit_def bit_word_of_def)
    qed
    have "hex_word ?w [0..<8] acc = mask_text (bit ?w) 0 16 @ acc"
      using hex_word_text [of ?w 0 8 acc] by simp
    also have "mask_text (bit ?w) 0 16 = mask_text (\<lambda>k. ?P (4 * d + k)) 0 16"
      using w by (intro mask_text_cong) simp
    also have "\<dots> = mask_text ?P d (d + 16)" using mask_text_shift [of ?P d 0 16] by simp
    finally have hw: "hex_word ?w [0..<8] acc = mask_text ?P d (d + 16) @ acc" .
    have "hex_loop b n (i + 64) (mask_text ?P d (d + 16) @ acc) =
        mask_text ?P (d + 16) ?e @ mask_text ?P d (d + 16) @ acc"
      using wd al less.prems(1) by (intro less.hyps) auto
    moreover have "d + 16 \<le> ?e" using wd less.prems(1) by linarith
    ultimately show ?thesis using step wd hw mask_text_split [of d "d + 16" ?e ?P] by simp
  next
    case digit
    note D = hex_digit_nibble [OF digit(1), of b]
    let ?c = "hex_char (nibble ?P i)"
    have e: "d + 1 \<le> ?e" using digit(1) less.prems(1) by linarith
    have "mask_text ?P d ?e = mask_text ?P (d + 1) ?e @ [?c]"
      using mask_text_split [of d "d + 1" ?e ?P] e less.prems(1) by (simp add: mask_text_def)
    moreover have "hex_loop b n (min (i + 4) n) (?c # acc) = mask_text ?P (d + 1) ?e @ ?c # acc"
    proof (cases "i + 4 \<le> n")
      case True
      then show ?thesis using digit less.prems(1) less.hyps [of "i + 4" "d + 1"] by simp
    next
      case False
      then have "?e = d + 1" using e less.prems(1) by linarith
      moreover have "hex_loop b n n (?c # acc) = ?c # acc" by (simp add: hex_loop.simps [of b n n])
      ultimately show ?thesis using False by (simp add: min_def)
    qed
    ultimately show ?thesis using step digit D by simp
  qed
qed

subsection \<open>Parsing a hexadecimal mask\<close>

lemma hex_value_char: "d < 16 \<Longrightarrow> hex_value (hex_char d) = Some d"
  by (auto simp: hex_value_def hex_char_def Let_def)

lemma unhex_bit_ok:
  assumes "wf_bitstr c" "bit current k \<Longrightarrow> i + k < bs_bits c"
  shows "\<exists>c'. unhex_bit current k i (bs_bits c) (Inr c) = Inr c' \<and> wf_bitstr c' \<and> bs_bits c' = bs_bits c
              \<and> bset c' = bset c \<union> (if bit current k then {i + k} else {})"
  using assms by (auto simp: unhex_bit_def bset_bit_set bit_valid_def)

lemma unhex_digit_fast:
  assumes "wf_bitstr c" "i + 3 < bs_bits c" "i mod 4 = 0" "current < 16"
    and "unhex_digit c (bs_bits c) i current = Inr c'"
  shows "wf_bitstr c' \<and> bs_bits c' = bs_bits c \<and> bset c' = bset c \<union> {k. i \<le> k \<and> bit current (k - i)}"
proof -
  let ?j = "i div 64"
  let ?m = "push_bit (i mod 64) (of_nat current AND 0xf) :: u64"
  have c': "c' = c\<lparr>bs_words := (bs_words c)[?j := bs_words c ! ?j OR ?m]\<rparr>"
    using assms(2,3,5) by (simp add: unhex_digit_def bit_word_of_def)
  have bnd: "i + 3 < 64 * length (bs_words c)" using wf_bound [OF assms(1,2)] .
  then have j: "?j < length (bs_words c)" by (intro div64_less) simp
  have wf: "wf_bitstr c'" using assms(1) c' by (simp add: wf_bitstr_def bitstr_valid_def)
  have "take_bit 4 current = current" using assms(4) by (simp add: take_bit_eq_mod)
  then have cur: "bit current t \<Longrightarrow> t < 4" for t by (metis bit_take_bit_iff)
  have m: "bit ?m t \<longleftrightarrow> t < 64 \<and> i mod 64 \<le> t \<and> bit current (t - i mod 64)" for t
  proof -
    have h: "bit (of_nat current AND 0xf :: u64) s \<longleftrightarrow> s < 64 \<and> bit current s" for s
    proof -
      have f: "(0xf :: u64) = mask 4" by (simp add: mask_eq_exp_minus_1)
      show ?thesis unfolding f using cur [of s] by (auto simp: bit_and_iff bit_mask_iff bit_of_nat_iff)
    qed
    show ?thesis unfolding bit_push_bit_iff h by auto
  qed
  have near: "k div 64 = ?j \<and> k \<le> i + 3" if "i \<le> k" "bit current (k - i)" for k
  proof -
    have k: "k \<le> i + 3" using cur [OF that(2)] that(1) by linarith
    have "i mod 64 mod 4 = 0" using assms(3) by (simp add: mod_mod_cancel)
    then have "i mod 64 \<le> 60" using mod_less_divisor [of 64 i] by presburger
    then have "64 * ?j \<le> k" "k < 64 * Suc ?j"
      using that(1) k mult_div_mod_eq [of 64 i] unfolding mult_Suc_right by linarith+
    then have "k div 64 = ?j" by (rule div_nat_eqI)
    then show ?thesis using k by simp
  qed
  have W: "wbit (bs_words c') k \<longleftrightarrow> wbit (bs_words c) k \<or> i \<le> k \<and> bit current (k - i)" for k
  proof (cases "k div 64 = ?j")
    case True
    have ks: "i = 64 * ?j + i mod 64" "k = 64 * ?j + k mod 64" using True mult_div_mod_eq [of 64 k] by simp_all
    then have "i mod 64 \<le> k mod 64 \<longleftrightarrow> i \<le> k" by linarith
    moreover have "k mod 64 - i mod 64 = k - i" using ks by linarith
    ultimately have "bit ?m (k mod 64) \<longleftrightarrow> i \<le> k \<and> bit current (k - i)" unfolding m by auto
    moreover have "wbit (bs_words c) k \<longleftrightarrow> bit (bs_words c ! ?j) (k mod 64)"
      using True bnd by (intro wbit_same_word) auto
    ultimately show ?thesis using True j by (simp add: c' wbit_update bit_or_iff)
  next
    case False
    then show ?thesis using near [of k] j by (auto simp: c' wbit_update)
  qed
  have bits: "bs_bits c' = bs_bits c" by (simp add: c')
  show ?thesis using W near assms(2) by (force simp: bits wf bset_wbit [OF wf] bset_wbit [OF assms(1)])
qed

lemma unhex_digit_slow:
  assumes "wf_bitstr c" "current < 16" "\<And>t. bit current t \<Longrightarrow> i + t < bs_bits c"
    and "\<not> (i + 3 < bs_bits c \<and> i mod 4 = 0)"
  shows "\<exists>c'. unhex_digit c (bs_bits c) i current = Inr c' \<and> wf_bitstr c' \<and> bs_bits c' = bs_bits c
              \<and> bset c' = bset c \<union> {k. i \<le> k \<and> bit current (k - i)}"
proof -
  obtain c0 where c0: "unhex_bit current 0 i (bs_bits c) (Inr c) = Inr c0" "wf_bitstr c0" "bs_bits c0 = bs_bits c"
    "bset c0 = bset c \<union> (if bit current 0 then {i + 0} else {})" using unhex_bit_ok [OF assms(1,3)] by blast
  obtain c1 where c1: "unhex_bit current 1 i (bs_bits c) (Inr c0) = Inr c1" "wf_bitstr c1" "bs_bits c1 = bs_bits c"
    "bset c1 = bset c0 \<union> (if bit current 1 then {i + 1} else {})"
    using unhex_bit_ok [OF c0(2), unfolded c0(3), OF assms(3)] by blast
  obtain c2 where c2: "unhex_bit current 2 i (bs_bits c) (Inr c1) = Inr c2" "wf_bitstr c2" "bs_bits c2 = bs_bits c"
    "bset c2 = bset c1 \<union> (if bit current 2 then {i + 2} else {})"
    using unhex_bit_ok [OF c1(2), unfolded c1(3), OF assms(3)] by blast
  obtain c3 where c3: "unhex_bit current 3 i (bs_bits c) (Inr c2) = Inr c3" "wf_bitstr c3" "bs_bits c3 = bs_bits c"
    "bset c3 = bset c2 \<union> (if bit current 3 then {i + 3} else {})"
    using unhex_bit_ok [OF c2(2), unfolded c2(3), OF assms(3)] by blast
  have "unhex_digit c (bs_bits c) i current = Inr c3"
    unfolding unhex_digit_def if_not_P [OF assms(4)] c0(1) c1(1) c2(1) c3(1) ..
  moreover have "bset c3 = bset c \<union> {k. i \<le> k \<and> bit current (k - i)}"
  proof -
    have "take_bit 4 current = current" using assms(2) by (simp add: take_bit_eq_mod)
    then have cur: "bit current t \<Longrightarrow> t < 4" for t by (metis bit_take_bit_iff)
    have "i \<le> k \<and> bit current (k - i) \<longleftrightarrow> (k = i \<and> bit current 0) \<or> (k = i + 1 \<and> bit current 1)
        \<or> (k = i + 2 \<and> bit current 2) \<or> (k = i + 3 \<and> bit current 3)" for k
    proof -
      have "i \<le> k \<Longrightarrow> bit current (k - i) \<Longrightarrow> k = i \<or> k = i + 1 \<or> k = i + 2 \<or> k = i + 3"
        using cur [of "k - i"] by linarith
      then show ?thesis by auto
    qed
    then show ?thesis unfolding c3(4) c2(4) c1(4) c0(4) by auto
  qed
  ultimately show ?thesis using c3(2,3) by blast
qed

lemma unhex_digit_ok:
  assumes "wf_bitstr c" "current < 16" "\<And>t. bit current t \<Longrightarrow> i + t < bs_bits c"
  shows "\<exists>c'. unhex_digit c (bs_bits c) i current = Inr c' \<and> wf_bitstr c' \<and> bs_bits c' = bs_bits c
              \<and> bset c' = bset c \<union> {k. i \<le> k \<and> bit current (k - i)}"
proof (cases "i + 3 < bs_bits c \<and> i mod 4 = 0")
  case True
  obtain c' where c': "unhex_digit c (bs_bits c) i current = Inr c'"
    unfolding unhex_digit_def if_P [OF True] by blast
  show ?thesis
    by (intro exI [of _ c'] conjI [OF c'] unhex_digit_fast [OF assms(1) _ _ assms(2) c']
        conjunct1 [OF True] conjunct2 [OF True])
next
  case False
  show ?thesis by (rule unhex_digit_slow [OF assms False])
qed

lemma unhex_loop_ok:
  assumes "wf_bitstr c" "\<And>k. P k \<Longrightarrow> k < bs_bits c"
  shows "\<exists>c'. unhex_loop c (bs_bits c) (4 * d) (map (\<lambda>d. hex_char (nibble P (4 * d))) [d..<e]) = (c', 0)
              \<and> wf_bitstr c' \<and> bs_bits c' = bs_bits c
              \<and> bset c' = bset c \<union> {k. 4 * d \<le> k \<and> k < 4 * e \<and> P k}"
  using assms
proof (induction "e - d" arbitrary: c d)
  case 0
  then show ?case by auto
next
  case (Suc m)
  then have u: "[d..<e] = d # [Suc d..<e]" by (simp add: upt_conv_Cons)
  obtain c' where c': "unhex_digit c (bs_bits c) (4 * d) (nibble P (4 * d)) = Inr c'" "wf_bitstr c'"
    "bs_bits c' = bs_bits c" "bset c' = bset c \<union> {k. 4 * d \<le> k \<and> bit (nibble P (4 * d)) (k - 4 * d)}"
    using unhex_digit_ok [OF Suc.prems(1) nibble_less, of P "4 * d" "4 * d"] Suc.prems(2)
    by (auto simp: bit_nibble)
  have IH: "\<exists>c''. unhex_loop c' (bs_bits c') (4 * Suc d) (map (\<lambda>d. hex_char (nibble P (4 * d))) [Suc d..<e]) = (c'', 0)
      \<and> wf_bitstr c'' \<and> bs_bits c'' = bs_bits c' \<and> bset c'' = bset c' \<union> {k. 4 * Suc d \<le> k \<and> k < 4 * e \<and> P k}"
    using Suc.hyps(2) Suc.prems(2) c' by (intro Suc.hyps(1)) auto
  have "{k. 4 * d \<le> k \<and> bit (nibble P (4 * d)) (k - 4 * d)} \<union> {k. 4 * Suc d \<le> k \<and> k < 4 * e \<and> P k} =
      {k. 4 * d \<le> k \<and> k < 4 * e \<and> P k}"
    using Suc.hyps(2) by (auto simp: bit_nibble)
  then show ?case using IH c' by (simp add: u hex_value_char nibble_less Un_assoc add.commute)
qed

lemma bset_nclear_all:
  assumes "wf_bitstr c"
  shows "wf_bitstr (bit_nclear c 0 (bs_bits c - 1))" "bs_bits (bit_nclear c 0 (bs_bits c - 1)) = bs_bits c"
    "bset (bit_nclear c 0 (bs_bits c - 1)) = {}"
  using bit_nclear_correct [OF assms ends_valid [OF assms]] bset_bounded [of c] all_range [OF assms] by auto

lemma unfmt_mask_text:
  assumes "wf_bitstr c" "\<And>k. P k \<Longrightarrow> k < bs_bits c \<and> k < 4 * e"
  shows "\<exists>c'. bit_unfmt_hexmask (Some c) (Some (''0x'' @ mask_text P 0 e)) = (Some c', 0)
              \<and> wf_bitstr c' \<and> bs_bits c' = bs_bits c \<and> bset c' = {k. P k}"
proof -
  let ?c = "bit_nclear c 0 (bs_bits c - 1)"
  note C = bset_nclear_all [OF assms(1)]
  have "\<exists>c'. unhex_loop ?c (bs_bits ?c) (4 * 0) (map (\<lambda>d. hex_char (nibble P (4 * d))) [0..<e]) = (c', 0)
      \<and> wf_bitstr c' \<and> bs_bits c' = bs_bits ?c \<and> bset c' = bset ?c \<union> {k. 4 * 0 \<le> k \<and> k < 4 * e \<and> P k}"
    using assms(2) C by (intro unhex_loop_ok) auto
  moreover have "{k. 4 * 0 \<le> k \<and> k < 4 * e \<and> P k} = {k. P k}" using assms(2) by auto
  ultimately show ?thesis using C
    by (auto simp: bit_unfmt_hexmask_def mask_text_def rev_map bit_size_def Let_def)
qed

lemma hexmask_text:
  assumes "wf_bitstr b"
  shows "bit_fmt_hexmask b = ''0x'' @ mask_text (\<lambda>k. k \<in> bset b) 0 ((bs_bits b + 3) div 4)"
proof -
  have n: "bs_bits b \<le> 64 * length (bs_words b)" using assms bitstr_words_bound(1) by (simp add: wf_bitstr_def)
  have "below_set b (bs_bits b) = (\<lambda>k. k \<in> bset b)" by (auto simp: below_set_def bset_def)
  then show ?thesis using hex_loop_text [OF n, of 0 0 "''''"] wf_bits_pos [OF assms]
    by (simp add: bit_fmt_hexmask_def bit_fmt_hexmask_internal_def bit_size_def)
qed

lemma bit_unfmt_bit_fmt_hexmask:
  assumes "wf_bitstr b" "wf_bitstr c" "bset b \<subseteq> {..<bs_bits c}"
  shows "\<exists>c'. bit_unfmt_hexmask (Some c) (Some (bit_fmt_hexmask b)) = (Some c', 0)
              \<and> wf_bitstr c' \<and> bs_bits c' = bs_bits c \<and> bset c' = bset b"
proof -
  have "k < 4 * ((bs_bits b + 3) div 4)" if "k \<in> bset b" for k using bset_less [OF that] by linarith
  then show ?thesis
    using unfmt_mask_text [OF assms(2), of "\<lambda>k. k \<in> bset b" "(bs_bits b + 3) div 4"] assms(1,3)
    by (auto simp: hexmask_text)
qed

lemma hexmask_trim_text:
  assumes "wf_bitstr b"
  shows "bit_fmt_hexmask_trim b =
    (if bset b = {} then ''0x0''
     else ''0x'' @ mask_text (\<lambda>k. k \<in> bset b) 0 (Max (bset b) div 4 + 1))"
proof (cases "bset b = {}")
  case True
  then have "bit_fls b = - 1" using assms by (simp add: bit_fls_last last_below_none)
  then show ?thesis using True by (simp add: bit_fmt_hexmask_trim_def bit_fmt_hexmask_internal_def)
next
  case False
  let ?m = "Max (bset b)"
  have fin: "finite (bset b)" by (rule finite_subset [OF bset_bounded]) simp
  have m: "?m \<in> bset b" "\<And>k. k \<in> bset b \<Longrightarrow> k \<le> ?m" using fin False by auto
  have mb: "?m < bs_bits b" using m(1) by (rule bset_less)
  have "last_below (\<lambda>i. i \<in> bset b) (bs_bits b) = int ?m"
    using m mb by (intro last_belowI) (auto simp: not_less [symmetric] dest: m(2))
  then have fls: "nat (bit_fls b + 1) = ?m + 1" using assms by (simp add: bit_fls_last)
  have n: "?m + 1 \<le> 64 * length (bs_words b)" using wf_bound [OF assms mb] by simp
  have "below_set b (?m + 1) = (\<lambda>k. k \<in> bset b)"
  proof (intro ext iffI)
    fix k assume "below_set b (?m + 1) k"
    then show "k \<in> bset b" using mb by (simp add: below_set_def bset_def)
  next
    fix k assume k: "k \<in> bset b"
    then have "bit_test b k" by (simp add: bset_def)
    then show "below_set b (?m + 1) k" using m(2) [OF k] by (simp add: below_set_def)
  qed
  moreover have "(?m + 1 + 3) div 4 = ?m div 4 + 1" by linarith
  ultimately show ?thesis using hex_loop_text [OF n, of 0 0 "''''"] fls False
    by (simp add: bit_fmt_hexmask_trim_def bit_fmt_hexmask_internal_def)
qed

lemma bit_unfmt_bit_fmt_hexmask_trim:
  assumes "wf_bitstr b" "wf_bitstr c" "bset b \<subseteq> {..<bs_bits c}"
  shows "\<exists>c'. bit_unfmt_hexmask (Some c) (Some (bit_fmt_hexmask_trim b)) = (Some c', 0)
              \<and> wf_bitstr c' \<and> bs_bits c' = bs_bits c \<and> bset c' = bset b"
proof (cases "bset b = {}")
  case True
  have "''0x0'' = ''0x'' @ mask_text (\<lambda>k. k \<in> bset b) 0 1"
    by (simp add: True mask_text_def nibble_def hex_char_def char_of_def bit_iff_odd)
  then show ?thesis using unfmt_mask_text [OF assms(2), of "\<lambda>k. k \<in> bset b" 1] True assms(1)
    by (simp add: hexmask_trim_text)
next
  case False
  have "k < 4 * (Max (bset b) div 4 + 1)" if "k \<in> bset b" for k
  proof -
    have "k \<le> Max (bset b)" using that finite_subset [OF bset_bounded] by (intro Max_ge) auto
    also have "Max (bset b) < 4 * (Max (bset b) div 4 + 1)"
      using mult_div_mod_eq [of 4 "Max (bset b)"] mod_less_divisor [of 4 "Max (bset b)"]
      unfolding add_mult_distrib2 by linarith
    finally show ?thesis .
  qed
  then show ?thesis
    using unfmt_mask_text [OF assms(2), of "\<lambda>k. k \<in> bset b" "Max (bset b) div 4 + 1"] assms(1,3) False
    by (auto simp: hexmask_trim_text)
qed

subsection \<open>Binary masks\<close>

lemma bin_loop_text:
  "bin_loop b n i acc = map (\<lambda>k. if bit_test b k then CHR ''1'' else CHR ''0'') (rev [i..<n]) @ acc"
proof (induction "n - i" arbitrary: i acc rule: less_induct)
  case less
  show ?case
  proof (cases "i < n")
    case True
    have "char_of (48 + (if bit_test b i then 1 else 0 :: nat)) = (if bit_test b i then CHR ''1'' else CHR ''0'')"
      by (simp add: char_of_def bit_iff_odd)
    then show ?thesis using less.hyps [of "i + 1"] True
      by (simp add: bin_loop.simps [of b n i] upt_conv_Cons)
  next
    case False
    then show ?thesis by (simp add: bin_loop.simps [of b n i])
  qed
qed

lemma unbin_loop_text:
  assumes "wf_bitstr c"
  shows "wf_bitstr (unbin_loop c (bs_bits c) i (map (\<lambda>k. if P k then CHR ''1'' else CHR ''0'') [i..<e]))
    \<and> bs_bits (unbin_loop c (bs_bits c) i (map (\<lambda>k. if P k then CHR ''1'' else CHR ''0'') [i..<e])) = bs_bits c
    \<and> bset (unbin_loop c (bs_bits c) i (map (\<lambda>k. if P k then CHR ''1'' else CHR ''0'') [i..<e])) =
        bset c \<union> {k. i \<le> k \<and> k < e \<and> k < bs_bits c \<and> P k}"
  using assms
proof (induction "e - i" arbitrary: c i)
  case 0
  then show ?case by auto
next
  case (Suc m)
  then have u: "[i..<e] = i # [Suc i..<e]" by (simp add: upt_conv_Cons)
  let ?c = "if P i \<and> i < bs_bits c then bit_set c i else c"
  have odd: "odd (int (of_char (if P i then CHR ''1'' else CHR ''0'')) - 48) \<longleftrightarrow> P i" by simp
  have c: "wf_bitstr ?c" "bs_bits ?c = bs_bits c"
    "bset ?c = bset c \<union> (if P i \<and> i < bs_bits c then {i} else {})"
    using Suc.prems by (auto simp: bset_bit_set bit_valid_def)
  have "{k. i \<le> k \<and> k < e \<and> k < bs_bits c \<and> P k} =
      (if P i \<and> i < bs_bits c then {i} else {}) \<union> {k. Suc i \<le> k \<and> k < e \<and> k < bs_bits c \<and> P k}"
    using Suc.hyps(2) by (auto simp: Suc_le_eq le_less)
  then show ?case using Suc.hyps(1) [of "Suc i" ?c] Suc.hyps(2) c
    by (simp only: u list.map unbin_loop.simps odd) (simp add: Un_assoc)
qed

lemma bit_unfmt_bit_fmt_binmask:
  assumes "wf_bitstr b" "wf_bitstr c"
  shows "wf_bitstr (bit_unfmt_binmask c (bit_fmt_binmask b))"
    and "bset (bit_unfmt_binmask c (bit_fmt_binmask b)) = bset b \<inter> {..<bs_bits c}"
proof -
  let ?c = "bit_nclear c 0 (bs_bits c - 1)"
  note C = bset_nclear_all [OF assms(2)]
  have eq: "bit_unfmt_binmask c (bit_fmt_binmask b) =
      unbin_loop ?c (bs_bits ?c) 0 (map (\<lambda>k. if bit_test b k then CHR ''1'' else CHR ''0'') [0..<bs_bits b])"
    using C(2) by (simp add: bit_unfmt_binmask_def bit_fmt_binmask_def bin_loop_text rev_map bit_size_def Let_def)
  note U = unbin_loop_text [OF C(1), of 0 "bit_test b" "bs_bits b", folded eq]
  show "wf_bitstr (bit_unfmt_binmask c (bit_fmt_binmask b))" using U by blast
  show "bset (bit_unfmt_binmask c (bit_fmt_binmask b)) = bset b \<inter> {..<bs_bits c}"
    using U C by (auto simp: bset_def)
qed

end
