(* ===== verification/Bitmap.thy ===== *)
theory Bitmap
  imports Bitstring_Mask
begin

text \<open>
  What the clients of \<^verbatim>\<open>src/common/bitstring.c\<close> rely on: a bitmap is a finite set
  of positions below a fixed size. The interface is a locale; the operations of
  the bit string theories provide it.
\<close>

locale bitmap =
  fixes wf :: "'b \<Rightarrow> bool" and size_of :: "'b \<Rightarrow> nat" and elems :: "'b \<Rightarrow> nat set"
    and alloc :: "nat \<Rightarrow> 'b" and ins del :: "'b \<Rightarrow> nat \<Rightarrow> 'b"
    and union diff :: "'b \<Rightarrow> 'b \<Rightarrow> 'b" and overlap :: "'b \<Rightarrow> 'b \<Rightarrow> nat"
  assumes alloc_wf: "valid_size n \<Longrightarrow> wf (alloc n)"
    and alloc_size: "size_of (alloc n) = n"
    and alloc_elems: "valid_size n \<Longrightarrow> elems (alloc n) = {}"
    and elems_bound: "wf b \<Longrightarrow> elems b \<subseteq> {..<size_of b}"
    and ins_wf: "wf b \<Longrightarrow> wf (ins b i)" and ins_size: "size_of (ins b i) = size_of b"
    and ins_elems: "wf b \<Longrightarrow> i < size_of b \<Longrightarrow> elems (ins b i) = insert i (elems b)"
    and del_wf: "wf b \<Longrightarrow> wf (del b i)" and del_size: "size_of (del b i) = size_of b"
    and del_elems: "wf b \<Longrightarrow> i < size_of b \<Longrightarrow> elems (del b i) = elems b - {i}"
    and union_wf: "wf b \<Longrightarrow> wf c \<Longrightarrow> wf (union b c)" and union_size: "size_of (union b c) = size_of b"
    and union_elems: "wf b \<Longrightarrow> wf c \<Longrightarrow> size_of b = size_of c \<Longrightarrow> elems (union b c) = elems b \<union> elems c"
    and diff_wf: "wf b \<Longrightarrow> wf c \<Longrightarrow> wf (diff b c)" and diff_size: "size_of (diff b c) = size_of b"
    and diff_elems: "wf b \<Longrightarrow> wf c \<Longrightarrow> elems (diff b c) = elems b - elems c"
    and overlap_zero: "wf b \<Longrightarrow> wf c \<Longrightarrow> size_of b = size_of c \<Longrightarrow>
        overlap b c = 0 \<longleftrightarrow> elems b \<inter> elems c = {}"
begin

lemma finite_elems: "wf b \<Longrightarrow> finite (elems b)"
  by (rule finite_subset [OF elems_bound]) auto

lemma fold_ins:
  "wf b \<Longrightarrow> \<forall>i \<in> set is. i < size_of b \<Longrightarrow>
     wf (foldl ins b is) \<and> size_of (foldl ins b is) = size_of b
     \<and> elems (foldl ins b is) = elems b \<union> set is"
  by (induction "is" arbitrary: b) (auto simp: ins_wf ins_size ins_elems)

lemma fold_del:
  "wf b \<Longrightarrow> \<forall>i \<in> set is. i < size_of b \<Longrightarrow>
     wf (foldl del b is) \<and> size_of (foldl del b is) = size_of b
     \<and> elems (foldl del b is) = elems b - set is"
  by (induction "is" arbitrary: b) (auto simp: del_wf del_size del_elems)

text \<open>Taking a set out again restores the bitmap exactly when there was no overlap.\<close>

lemma union_diff:
  assumes "wf b" "wf c" "size_of b = size_of c"
  shows "elems (diff (union b c) c) = elems b \<longleftrightarrow> overlap b c = 0"
  using assms by (auto simp: union_wf union_elems diff_elems overlap_zero)

end

lemma bits_bit_alloc [simp]: "bs_bits (bit_alloc n) = n"
  by (simp add: bit_alloc_def)

lemma size_boolean_ops: "bs_bits (bit_or b c) = bs_bits b" "bs_bits (bit_and_not b c) = bs_bits b"
  by (simp_all add: bit_or_def bit_and_not_def Let_def split: prod.split)

interpretation bs: bitmap wf_bitstr bs_bits bset bit_alloc bit_set bit_clear bit_or bit_and_not bit_overlap_any
proof unfold_locales
  fix b c :: bitstr
  assume "wf_bitstr b" "wf_bitstr c" "bs_bits b = bs_bits c"
  then show "bset (bit_or b c) = bset b \<union> bset c"
    using bset_boolean_ops(3) [of b c] bset_bounded [of c] by auto
qed (auto simp: wf_bit_alloc bset_alloc bset_less bset_bit_set bset_bit_clear bit_valid_def
    boolean_ops_facts size_boolean_ops bset_boolean_ops(2) bit_overlap_any_iff)

end
