(* ===== verification/Bitstring_Props.thy ===== *)
theory Bitstring_Props
  imports Bitmap
begin

text \<open>
  The correctness properties of the bit string component, each with an
  instance on concrete strings.
\<close>

subsection \<open>Sample strings\<close>

text \<open>Three strings of two words, one of them with bits on both sides of the word boundary.\<close>

definition sample_empty :: bitstr where
  "sample_empty = bit_alloc 70"

definition sample_run :: bitstr where
  "sample_run = bit_nset (bit_alloc 70) 62 65"

definition sample_two :: bitstr where
  "sample_two = bit_set (bit_nset (bit_alloc 70) 62 65) 3"

lemma sample_size: "valid_size 70"
  by (simp add: valid_size_def)

lemma sample_empty_facts [simp]:
  "wf_bitstr sample_empty" "bs_bits sample_empty = 70" "bset sample_empty = {}"
  using wf_bit_alloc [OF sample_size] bset_alloc [OF sample_size] by (simp_all add: sample_empty_def)

lemma sample_run_facts [simp]:
  "wf_bitstr sample_run" "bs_bits sample_run = 70" "bset sample_run = {62..65}"
  using bit_nset_correct [of "bit_alloc 70" 62 65] wf_bit_alloc [OF sample_size] bset_alloc [OF sample_size]
  by (simp_all add: sample_run_def bit_valid_def)

lemma sample_two_facts [simp]:
  "wf_bitstr sample_two" "bs_bits sample_two = 70" "bset sample_two = insert 3 {62..65}"
  using bset_bit_set [of sample_run 3] sample_run_facts
  by (simp_all add: sample_two_def sample_run_def [symmetric] bit_valid_def)

subsection \<open>Updates and queries\<close>

text \<open>C30: A bit string stands for a set of positions below its size, and the
  updates of single bits and of ranges, byte filling included, change that set
  as their names say and keep the representation well formed; \<^verbatim>\<open>bit_test\<close> reads it.\<close>

theorem bit_updates_refine_set:
  assumes "wf_bitstr b" "bit_valid b i" "bit_valid b j"
  shows "bset (bit_set b i) = insert i (bset b) \<and> bset (bit_clear b i) = bset b - {i}
    \<and> bset (bit_nset b i j) = bset b \<union> {i..j} \<and> bset (bit_nclear b i j) = bset b - {i..j}
    \<and> bset (bit_set_all b) = {..<bs_bits b} \<and> bset (bit_clear_all b) = {}
    \<and> (bit_test b i \<longleftrightarrow> i \<in> bset b)
    \<and> (\<forall>c \<in> {bit_set b i, bit_clear b i, bit_nset b i j, bit_nclear b i j, bit_set_all b, bit_clear_all b}.
         wf_bitstr c)"
  using assms by (simp add: bset_bit_set bset_bit_clear bit_nset_correct bit_nclear_correct
      bit_set_all_correct bit_clear_all_correct bit_test_bset)

theorem bit_updates_refine_set_witness:
  "bset (bit_clear sample_run 64) = {62, 63, 65} \<and> bset (bit_nclear sample_run 64 69) = {62, 63}"
proof -
  have "bit_valid sample_run 64" "bit_valid sample_run 69" by (simp_all add: bit_valid_def)
  then show ?thesis
    using bit_updates_refine_set [of sample_run 64 69] by auto
qed

text \<open>C31: The searches, which scan whole words and use bit tricks inside a word,
  return the first set bit, the first clear bit and the last set bit of the
  string, \<open>-1\<close> when there is none; the builtin and the portable version of the
  search from a given bit agree with the same bit by bit reference.\<close>

theorem bit_searches_correct:
  assumes "wf_bitstr b"
  shows "bit_ffs b = first_from (\<lambda>i. i \<in> bset b) 0 (bs_bits b)
    \<and> bit_ffc b = first_from (\<lambda>i. i \<notin> bset b) 0 (bs_bits b)
    \<and> bit_fls b = last_below (\<lambda>i. i \<in> bset b) (bs_bits b)
    \<and> bit_ffs_from_bit b k = first_from (bit_test b) k (bs_bits b)
    \<and> bit_ffs_from_bit_portable b k = bit_ffs_from_bit b k
    \<and> bit_fls_from_bit b k = last_below (bit_test b) (Suc k)"
  using assms wf_bits_pos [OF assms]
  by (simp add: bit_ffs_first bit_ffc_first bit_fls_last bit_ffs_from_bit_first
      bit_ffs_from_bit_portable_first bit_fls_from_bit_last)

theorem bit_searches_correct_witness:
  "bit_ffs sample_run = 62 \<and> bit_ffc sample_run = 0 \<and> bit_fls sample_run = 65"
proof -
  have "first_from (\<lambda>i. i \<in> {62..65}) 0 70 = int 62" "first_from (\<lambda>i. i \<notin> {62..65}) 0 70 = int 0"
    by (rule first_fromI; simp)+
  moreover have "last_below (\<lambda>i. i \<in> {62..65}) 70 = int 65" by (rule last_belowI) auto
  ultimately show ?thesis using bit_searches_correct [of sample_run] by simp
qed

text \<open>The search for \<open>n\<close> consecutive clear bits finds the first such run; the
  version that starts near a seed finds the first run at or after the seed, or
  else the first run of the whole string.\<close>

lemma bit_clear_run_searches:
  assumes "0 < n"
  shows "bit_nffc b n = first_from (run_at (\<lambda>k. k \<notin> bset b) (bs_bits b) n) 0 (bs_bits b)
    \<and> bit_noc b n seed =
        (let R = run_at (\<lambda>k. k \<notin> bset b) (bs_bits b) n;
             near = first_from R (if seed + n \<ge> bs_bits b then bs_bits b else seed) (bs_bits b)
         in if near \<noteq> - 1 then near else first_from R 0 (bs_bits b))"
  using bit_nffc_first [OF assms, of b] bit_noc_first [OF assms, of b seed] by (simp add: Let_def)

text \<open>The search for \<open>n\<close> consecutive set bits only considers runs that end
  before position \<open>size - n + 1\<close>, the bound of its loop. So it returns the first
  run of the shortened string, and a run at the very end of the string is not
  found when \<open>n\<close> is greater than one.\<close>

lemma bit_nffs_shortened:
  assumes "0 < n" "n \<le> bs_bits b"
  shows "bit_nffs b n = first_from (run_at (\<lambda>k. k \<in> bset b) (bs_bits b - n + 1) n) 0 (bs_bits b - n + 1)"
  by (rule bit_nffs_first [OF assms])

subsection \<open>Counting\<close>

text \<open>The counts, sums of word weights with masked first and last words, are
  the cardinalities of the set bits, of the set bits of a range, and of the
  clear bits of the string and of a range.\<close>

lemma bit_counts_correct:
  assumes "wf_bitstr b" "bit_valid b start" "start \<le> stop"
  shows "bit_set_count b = card (bset b)
    \<and> bit_set_count_range b start stop = card {i \<in> bset b. start \<le> i \<and> i < stop}
    \<and> bit_clear_count b = card ({..<bs_bits b} - bset b)
    \<and> bit_clear_count_range b start stop = int (card {i. start \<le> i \<and> i < stop \<and> i \<notin> bset b})"
  using assms by (simp add: bit_set_count_card bit_set_count_range_card bit_clear_count_card
      bit_clear_count_range_card)

text \<open>The overlap of two strings of one size is the number of common set bits,
  and the early exit version tells whether there is one.\<close>

lemma bit_overlap_correct:
  assumes "wf_bitstr b1" "wf_bitstr b2" "bs_bits b1 = bs_bits b2"
  shows "bit_overlap b1 b2 = card (bset b1 \<inter> bset b2)
    \<and> bit_overlap_any b1 b2 = (if bset b1 \<inter> bset b2 = {} then 0 else 1)"
  using assms by (simp add: bit_overlap_card bit_overlap_any_iff)

text \<open>The longest run of set bits: the result is the length of a run that
  exists, no run is longer, and \<^verbatim>\<open>bit_get_bit_num\<close> returns the set bit of a given
  rank.\<close>

lemma bit_rank_and_longest_run:
  "longest_run (bit_test b) (bs_bits b) (bit_nset_max_count b)
   \<and> bit_get_bit_num b pos = (if pos < length (set_positions b) then int (set_positions b ! pos) else - 1)
   \<and> sorted_wrt (<) (set_positions b) \<and> set (set_positions b) = bset b"
  using bit_nset_max_count_longest [of b] bit_get_bit_num_nth [of b pos] by simp

subsection \<open>Boolean algebra\<close>

text \<open>On strings of one size the boolean operations are intersection,
  difference, union and union with the complement, and they keep the
  representation well formed; a copy is the string itself.\<close>

lemma bit_boolean_algebra:
  assumes "wf_bitstr b1" "wf_bitstr b2" "bs_bits b1 = bs_bits b2"
  shows "bset (bit_and b1 b2) = bset b1 \<inter> bset b2 \<and> bset (bit_and_not b1 b2) = bset b1 - bset b2
    \<and> bset (bit_or b1 b2) = bset b1 \<union> bset b2
    \<and> bset (bit_or_not b1 b2) = bset b1 \<union> ({..<bs_bits b1} - bset b2)
    \<and> bset (bit_not b1) = {..<bs_bits b1} - bset b1 \<and> bit_copy b1 = b1
    \<and> wf_bitstr (bit_and b1 b2) \<and> wf_bitstr (bit_and_not b1 b2) \<and> wf_bitstr (bit_or b1 b2)
    \<and> wf_bitstr (bit_or_not b1 b2) \<and> wf_bitstr (bit_not b1)"
  using assms bset_bounded [of b1] bset_bounded [of b2]
  by (auto simp: bset_boolean_ops boolean_ops_facts bit_not_correct bit_copy_eq)

text \<open>The comparisons decide equality and inclusion of the sets, whatever the
  unused bits of the last words hold.\<close>

lemma bit_comparisons:
  assumes "wf_bitstr b1" "wf_bitstr b2"
  shows "(bit_equal b1 b2 \<longleftrightarrow> bs_bits b1 = bs_bits b2 \<and> bset b1 = bset b2)
    \<and> (bs_bits b1 = bs_bits b2 \<longrightarrow> (bit_super_set b1 b2 \<longleftrightarrow> bset b1 \<subseteq> bset b2))"
  using assms by (simp add: bit_equal_correct bit_super_set_correct)

subsection \<open>Moving bits\<close>

text \<open>Rotation maps every set position \<open>i\<close> to \<open>(i + n) mod size\<close>, for either
  sign of \<open>n\<close>, and rotating back restores the set.\<close>

lemma bit_rotate_inverse:
  assumes "wf_bitstr b"
  shows "wf_bitstr (bit_rotate b n) \<and> bs_bits (bit_rotate b n) = bs_bits b
    \<and> bset (bit_rotate b n) = (\<lambda>i. nat ((int i + n) mod int (bs_bits b))) ` bset b
    \<and> bset (bit_rotate (bit_rotate b n) (- n)) = bset b"
proof -
  let ?N = "int (bs_bits b)"
  note R = bit_rotate_correct [OF assms, of n]
  note B = bit_rotate_correct [OF R(1), of "- n", unfolded R(2)]
  have pos: "0 < ?N" using wf_bits_pos [OF assms] by simp
  have "nat ((int (nat ((int i + n) mod ?N)) + - n) mod ?N) = i" if "i \<in> bset b" for i
  proof -
    have "(int (nat ((int i + n) mod ?N)) + - n) mod ?N = (int i + n + - n) mod ?N"
      using pos by (simp add: mod_diff_left_eq)
    then show ?thesis using bset_less [OF that] by simp
  qed
  then have "bset (bit_rotate (bit_rotate b n) (- n)) = bset b"
    unfolding B(3) R(3) image_image by simp
  then show ?thesis using R by simp
qed

text \<open>Selecting \<open>n\<close> bits fails exactly when fewer than \<open>n\<close> are set, and
  otherwise returns a string of the same size with the first \<open>n\<close> set positions.\<close>

lemma bit_pick_cnt_first:
  assumes "wf_bitstr b"
  shows "case bit_pick_cnt b n of
      None \<Rightarrow> card (bset b) < n
    | Some c \<Rightarrow> n \<le> card (bset b) \<and> wf_bitstr c \<and> bs_bits c = bs_bits b
                \<and> bset c = set (take n (set_positions b)) \<and> bset c \<subseteq> bset b \<and> card (bset c) = n"
proof (cases "bit_pick_cnt b n")
  case None
  then have "card (bset b) < n" using bit_pick_cnt_correct(1) [OF assms] by blast
  then show ?thesis by (simp only: None option.case)
next
  case (Some c)
  have n: "n \<le> card (bset b)" using Some bit_pick_cnt_correct(1) [OF assms, of n] by simp
  have len: "length (set_positions b) = card (bset b)" using distinct_card [of "set_positions b"] by simp
  have c: "bset c = set (take n (set_positions b))" using bit_pick_cnt_correct(2) [OF assms Some] by simp
  moreover have "set (take n (set_positions b)) \<subseteq> bset b" using set_take_subset [of n "set_positions b"] by simp
  moreover have "card (set (take n (set_positions b))) = n"
    using distinct_card [of "take n (set_positions b)"] n len by simp
  ultimately show ?thesis using Some n bit_pick_cnt_correct(2) [OF assms Some] by simp
qed

text \<open>Filling gaps sets everything between the first and the last set bit,
  and consolidating moves the set bits to the front, keeping their number.\<close>

lemma bit_fill_and_consolidate:
  assumes "wf_bitstr b"
  shows "bset (bit_fill_gaps b) = {i. \<exists>lo \<in> bset b. \<exists>hi \<in> bset b. lo \<le> i \<and> i \<le> hi}
    \<and> bset (bit_consolidate b) = {..<card (bset b)}
    \<and> wf_bitstr (bit_fill_gaps b) \<and> wf_bitstr (bit_consolidate b)"
  using assms by (simp add: bit_fill_gaps_correct bit_consolidate_correct)

text \<open>Reallocation to another size keeps the set bits below the new size when
  the unused bits of the last word are clear. After \<^verbatim>\<open>bit_not\<close> they are not, and
  growing the string turns such bits into set bits.\<close>

lemma bit_realloc_keeps:
  assumes "wf_bitstr b" "valid_size n"
  shows "wf_bitstr (slurm_bit_realloc b n)
    \<and> (clean_tail b \<longrightarrow> bset (slurm_bit_realloc b n) = bset b \<inter> {..<n})
    \<and> bset (slurm_bit_realloc (bit_not b) n) =
        {i. i < n \<and> i < 64 * length (bs_words b) \<and> \<not> wbit (bs_words b) i}"
proof -
  note N = bit_not_correct [OF assms(1)]
  have len: "length (bs_words (bit_not b)) = length (bs_words b)"
    using N(1,2) assms(1) by (simp add: wf_bitstr_def)
  have "bset (slurm_bit_realloc (bit_not b) n) = {i. i < n \<and> wbit (bs_words (bit_not b)) i}"
    by (rule slurm_bit_realloc_correct(2) [OF N(1) assms(2)])
  also have "\<dots> = {i. i < n \<and> i < 64 * length (bs_words b) \<and> \<not> wbit (bs_words b) i}"
    using N(4) len wbit_bound [of "bs_words (bit_not b)"] by auto
  finally show ?thesis using slurm_bit_realloc_correct [OF assms] by blast
qed

subsection \<open>Text forms\<close>

text \<open>Parsing the range notation of a string with a set bit gives back its
  bits without error, into any string that is large enough; the length limited
  printer writes the longest prefix of that text that fits its buffer.\<close>

lemma bit_fmt_round_trip:
  assumes "wf_bitstr b" "wf_bitstr c" "bs_bits b \<le> bs_bits c" "bset b \<noteq> {}"
  shows "(\<exists>c'. bit_unfmt c (bit_fmt_full b) = (c', 0) \<and> wf_bitstr c' \<and> bs_bits c' = bs_bits c \<and> bset c' = bset b)
    \<and> bit_fmt len b = take (len - 1) (case bit_fmt_full b of None \<Rightarrow> '''' | Some t \<Rightarrow> t)"
  using bit_unfmt_bit_fmt_full [OF assms] bit_fmt_truncates [of len b] by blast

text \<open>The array of start and end pairs of a string restores it, and bits
  that the target had before are gone.\<close>

lemma bitstr2inx_round_trip:
  assumes "wf_bitstr b" "wf_bitstr c" "bs_bits b \<le> bs_bits c"
  shows "\<exists>c'. inx2bitstr c (bitstr2inx (Some b)) = (c', 0)
              \<and> wf_bitstr c' \<and> bs_bits c' = bs_bits c \<and> bset c' = bset b"
  by (rule inx2bitstr_bitstr2inx [OF assms])

text \<open>Reading back a hexadecimal mask, full or trimmed, restores the set bits
  without error in any string that has room for them; a binary mask restores
  those that fit.\<close>

lemma bit_mask_round_trip:
  assumes "wf_bitstr b" "wf_bitstr c" "bset b \<subseteq> {..<bs_bits c}"
  shows "(\<exists>c'. bit_unfmt_hexmask (Some c) (Some (bit_fmt_hexmask b)) = (Some c', 0) \<and> wf_bitstr c'
              \<and> bs_bits c' = bs_bits c \<and> bset c' = bset b)
    \<and> (\<exists>c'. bit_unfmt_hexmask (Some c) (Some (bit_fmt_hexmask_trim b)) = (Some c', 0) \<and> wf_bitstr c'
              \<and> bs_bits c' = bs_bits c \<and> bset c' = bset b)
    \<and> bset (bit_unfmt_binmask c (bit_fmt_binmask b)) = bset b"
  using bit_unfmt_bit_fmt_hexmask [OF assms] bit_unfmt_bit_fmt_hexmask_trim [OF assms]
    bit_unfmt_bit_fmt_binmask(2) [OF assms(1,2)] assms(3) by (simp add: Int_absorb2)

text \<open>The printer of a window of the string writes exactly the set positions
  of the window, relative to its start, when the window starts on a word.
  The next two lemmas show what happens elsewhere.\<close>

lemma bit_fmt_range_window:
  assumes "offset mod 64 = 0"
  shows "\<exists>rs. bit_fmt_range b offset len = (if rs = [] then None else Some (runs_text offset '''' rs))
              \<and> run_list offset rs \<and> run_set rs = {k \<in> bset b. offset \<le> k \<and> k < offset + len}"
  by (rule bit_fmt_range_aligned [OF assms])

text \<open>A window that starts inside an empty word skips the start of the next word.\<close>

lemma bit_fmt_range_skips:
  "bit_fmt_range (bit_nset (bit_alloc 128) 64 69) 60 10 = None \<and> bit_test (bit_nset (bit_alloc 128) 64 69) 64"
  by code_simp

text \<open>The step notation leaves out the last task id, unlike the example in its description.\<close>

lemma bitfmt2int_step:
  "bitfmt2int (Some ''1-17:4'') = Some [1, 1, 5, 5, 9, 9, 13, 13, - 1]"
  by code_simp

end
