(* ===== verification/Linked_List.thy ===== *)
theory Linked_List
  imports Prelude "HOL-Library.Monad_Syntax"
begin

text \<open>
  Doubly linked lists in an explicit heap, as the simulator keeps its events
  and its active jobs. A pointer is a natural number, \<open>0\<close> is \<^verbatim>\<open>NULL\<close>; a heap maps
  the addresses of live objects to their contents. Reading or writing any other
  address is an error, the value \<open>None\<close>.
\<close>

type_synonym ptr = nat
type_synonym 'n heap = "ptr \<rightharpoonup> 'n"

definition deref :: "'n heap \<Rightarrow> ptr \<Rightarrow> 'n option" where
  "deref h p = (if p = 0 then None else h p)"

definition store :: "'n heap \<Rightarrow> ptr \<Rightarrow> ('n \<Rightarrow> 'n) \<Rightarrow> 'n heap option" where
  "store h p f = (case deref h p of None \<Rightarrow> None | Some n \<Rightarrow> Some (h(p \<mapsto> f n)))"

text \<open>
  The segment that starts at \<open>p\<close>, whose predecessor is \<open>pv\<close>, runs through the
  addresses \<open>ps\<close> and stops at \<open>q\<close>.
\<close>

fun dseg :: "('n \<Rightarrow> ptr) \<Rightarrow> ('n \<Rightarrow> ptr) \<Rightarrow> 'n heap \<Rightarrow> ptr \<Rightarrow> ptr \<Rightarrow> ptr list \<Rightarrow> ptr \<Rightarrow> bool" where
  "dseg nxt prv h pv p [] q \<longleftrightarrow> p = q"
| "dseg nxt prv h pv p (x # xs) q \<longleftrightarrow>
     x = p \<and> p \<noteq> 0 \<and> (case h p of None \<Rightarrow> False | Some n \<Rightarrow> prv n = pv \<and> dseg nxt prv h p (nxt n) xs q)"

definition last_or :: "ptr \<Rightarrow> ptr list \<Rightarrow> ptr" where
  "last_or pv ps = (if ps = [] then pv else last ps)"

lemma last_or_simps [simp]: "last_or pv [] = pv" "last_or pv (x # xs) = last_or x xs"
  "last_or pv (ps @ [x]) = x"
  by (simp_all add: last_or_def)

lemma last_or_mem: "ps \<noteq> [] \<Longrightarrow> last_or pv ps \<in> set ps"
  by (simp add: last_or_def)

lemma dseg_append:
  "dseg nxt prv h pv p (as @ bs) q \<longleftrightarrow>
     (\<exists>m. dseg nxt prv h pv p as m \<and> dseg nxt prv h (last_or pv as) m bs q)"
  by (induction as arbitrary: pv p) (auto split: option.split)

lemma dseg_frame:
  "(\<And>x. x \<in> set ps \<Longrightarrow> h' x = h x) \<Longrightarrow> dseg nxt prv h' pv p ps q = dseg nxt prv h pv p ps q"
  by (induction ps arbitrary: pv p) (auto split: option.split)

lemma dseg_upd [simp]: "x \<notin> set ps \<Longrightarrow> dseg nxt prv (h(x := v)) pv p ps q = dseg nxt prv h pv p ps q"
  by (rule dseg_frame) auto

lemma dseg_head: "dseg nxt prv h pv p ps q \<Longrightarrow> ps \<noteq> [] \<Longrightarrow> hd ps = p \<and> p \<noteq> 0"
  by (cases ps) auto

lemma dseg_nonnull: "dseg nxt prv h pv p ps q \<Longrightarrow> x \<in> set ps \<Longrightarrow> x \<noteq> 0 \<and> (\<exists>n. h x = Some n)"
  by (induction ps arbitrary: pv p) (auto split: option.splits)

lemma dseg_null: "dseg nxt prv h pv 0 ps q \<Longrightarrow> ps = []"
  by (cases ps) auto

text \<open>The writes the list operations are made of.\<close>

locale linked =
  fixes nxt prv :: "'n \<Rightarrow> ptr" and set_nxt set_prv :: "ptr \<Rightarrow> 'n \<Rightarrow> 'n"
  assumes nxt_set_nxt: "nxt (set_nxt p n) = p" and prv_set_nxt: "prv (set_nxt p n) = prv n"
    and prv_set_prv: "prv (set_prv p n) = p" and nxt_set_prv: "nxt (set_prv p n) = nxt n"
begin

lemmas links = nxt_set_nxt prv_set_nxt prv_set_prv nxt_set_prv

lemma relink_next:
  "dseg nxt prv h pv p ps m \<Longrightarrow> ps \<noteq> [] \<Longrightarrow> distinct ps \<Longrightarrow> h (last_or pv ps) = Some n \<Longrightarrow>
     dseg nxt prv (h(last_or pv ps \<mapsto> set_nxt q n)) pv p ps q"
proof (induction ps arbitrary: pv p)
  case (Cons x xs)
  show ?case
  proof (cases "xs = []")
    case True
    then show ?thesis using Cons.prems by (auto simp: links)
  next
    case False
    then have "last_or x xs \<in> set xs" by (rule last_or_mem)
    then have ne: "last_or x xs \<noteq> x" using Cons.prems(3) by auto
    obtain k where k: "h p = Some k" "prv k = pv" "x = p" "p \<noteq> 0" "dseg nxt prv h p (nxt k) xs m"
      using Cons.prems(1) by (auto split: option.splits)
    have "dseg nxt prv (h(last_or p xs \<mapsto> set_nxt q n)) p (nxt k) xs q"
      using Cons.IH [OF k(5) False] Cons.prems(3,4) k(3) by (simp add: fun_upd_def)
    then show ?thesis using k ne by (simp add: fun_upd_def)
  qed
qed simp

lemma relink_prev:
  assumes "dseg nxt prv h pv p ps q" "ps \<noteq> []" "distinct ps" "h p = Some n"
  shows "dseg nxt prv (h(p \<mapsto> set_prv r n)) r p ps q"
proof -
  obtain xs where ps: "ps = p # xs" "p \<noteq> 0" "dseg nxt prv h p (nxt n) xs q"
    using assms by (cases ps) (auto split: option.splits)
  have "dseg nxt prv (h(p \<mapsto> set_prv r n)) p (nxt n) xs q = dseg nxt prv h p (nxt n) xs q"
    using assms(3) ps(1) by (intro dseg_frame) auto
  then show ?thesis using ps by (simp add: links)
qed

text \<open>Putting \<open>x\<close> between two segments, by the four writes of a list insertion.\<close>

lemma splice:
  assumes "dseg nxt prv h pv p as m" "dseg nxt prv h (last_or pv as) m bs q"
    and "distinct (as @ x # bs)" "x \<noteq> 0" "h x = Some n" "nxt n = m" "prv n = last_or pv as"
    and h1: "h1 = (if as = [] then h else h(last_or pv as \<mapsto> set_nxt x (the (h (last_or pv as)))))"
    and h2: "h2 = (if bs = [] then h1 else h1(m \<mapsto> set_prv x (the (h1 m))))"
  shows "dseg nxt prv h2 pv (if as = [] then x else p) (as @ x # bs) q"
proof -
  have m: "bs \<noteq> [] \<Longrightarrow> m \<in> set bs" using dseg_head [OF assms(2)] by (cases bs) auto
  have l: "as \<noteq> [] \<Longrightarrow> last_or pv as \<in> set as" by (rule last_or_mem)
  have fr1: "h1 y = h y" if "y \<notin> set as" for y using that l by (auto simp: h1)
  have fr2: "h2 y = h1 y" if "y \<notin> set bs" for y using that m by (auto simp: h2)
  have "dseg nxt prv h1 pv (if as = [] then x else p) as x"
  proof (cases "as = []")
    case False
    obtain k where "h (last_or pv as) = Some k" using dseg_nonnull [OF assms(1) l [OF False]] by auto
    then show ?thesis using relink_next [OF assms(1) False, of k x] assms(3) False by (simp add: h1)
  qed simp
  moreover have "dseg nxt prv h2 pv (if as = [] then x else p) as x = dseg nxt prv h1 pv (if as = [] then x else p) as x"
    using assms(3) by (intro dseg_frame fr2) auto
  moreover have "dseg nxt prv h2 x m bs q"
  proof (cases "bs = []")
    case True
    then show ?thesis using assms(2) by simp
  next
    case False
    have b1: "dseg nxt prv h1 (last_or pv as) m bs q"
      using assms(2,3) dseg_frame [of bs h1 h nxt prv "last_or pv as" m q] fr1 by auto
    obtain k where "h1 m = Some k" using dseg_nonnull [OF b1 m [OF False]] by auto
    then show ?thesis using relink_prev [OF b1 False, of k x] assms(3) False by (simp add: h2)
  qed
  moreover have "h2 x = Some n" using assms(3,5) fr1 [of x] fr2 [of x] by auto
  ultimately show ?thesis using assms(4,6,7) by (auto simp: dseg_append)
qed

text \<open>Taking \<open>x\<close> out, by joining its neighbours.\<close>

lemma unsplice:
  assumes "dseg nxt prv h pv p (as @ x # bs) q" "distinct (as @ x # bs)" "h x = Some n"
    and h1: "h1 = (if as = [] then h else h(last_or pv as \<mapsto> set_nxt (nxt n) (the (h (last_or pv as)))))"
    and h2: "h2 = (if bs = [] then h1 else h1(nxt n \<mapsto> set_prv (prv n) (the (h1 (nxt n)))))"
  shows "dseg nxt prv h2 pv (if as = [] then nxt n else p) (as @ bs) q"
    and "prv n = last_or pv as" and "bs = [] \<Longrightarrow> nxt n = q" and "bs \<noteq> [] \<Longrightarrow> nxt n = hd bs"
proof -
  obtain m where A: "dseg nxt prv h pv p as m" "m = x" "prv n = last_or pv as" "dseg nxt prv h x (nxt n) bs q"
    using assms(1,3) by (auto simp: dseg_append)
  show "prv n = last_or pv as" by (fact A(3))
  show "bs = [] \<Longrightarrow> nxt n = q" using A(4) by simp
  show hd: "bs \<noteq> [] \<Longrightarrow> nxt n = hd bs" using dseg_head [OF A(4)] by simp
  have m: "bs \<noteq> [] \<Longrightarrow> nxt n \<in> set bs" using hd by simp
  have l: "as \<noteq> [] \<Longrightarrow> last_or pv as \<in> set as" by (rule last_or_mem)
  have fr1: "h1 y = h y" if "y \<notin> set as" for y using that l by (auto simp: h1)
  have fr2: "h2 y = h1 y" if "y \<notin> set bs" for y using that m by (auto simp: h2)
  have "dseg nxt prv h1 pv (if as = [] then nxt n else p) as (nxt n)"
  proof (cases "as = []")
    case False
    obtain k where "h (last_or pv as) = Some k" using dseg_nonnull [OF A(1) l [OF False]] by auto
    then show ?thesis using relink_next [OF A(1) False, of k "nxt n"] assms(2) False by (simp add: h1)
  qed simp
  moreover have "dseg nxt prv h2 pv (if as = [] then nxt n else p) as (nxt n) =
      dseg nxt prv h1 pv (if as = [] then nxt n else p) as (nxt n)"
    using assms(2) by (intro dseg_frame fr2) auto
  moreover have "dseg nxt prv h2 (last_or pv as) (nxt n) bs q"
  proof (cases "bs = []")
    case True
    then show ?thesis using A(4) by simp
  next
    case False
    have b1: "dseg nxt prv h1 x (nxt n) bs q"
      using A(4) assms(2) dseg_frame [of bs h1 h nxt prv x "nxt n" q] fr1 by auto
    obtain k where "h1 (nxt n) = Some k" using dseg_nonnull [OF b1 m [OF False]] by auto
    then show ?thesis using relink_prev [OF b1 False, of k "prv n"] assms(2) False A(3) by (simp add: h2)
  qed
  ultimately show "dseg nxt prv h2 pv (if as = [] then nxt n else p) (as @ bs) q"
    by (auto simp: dseg_append)
qed

text \<open>The same with the resulting heap given address by address, whatever the order of the writes.\<close>

lemma splice_at:
  assumes "dseg nxt prv h pv p as m" "dseg nxt prv h (last_or pv as) m bs q"
    and "distinct (as @ x # bs)" "x \<noteq> 0" "h x = Some n" "nxt n = m" "prv n = last_or pv as"
    and g: "\<And>y. g y = (if bs \<noteq> [] \<and> y = m then Some (set_prv x (the (h y)))
                      else if as \<noteq> [] \<and> y = last_or pv as then Some (set_nxt x (the (h y))) else h y)"
  shows "dseg nxt prv g pv (if as = [] then x else p) (as @ x # bs) q"
proof -
  let ?h1 = "if as = [] then h else h(last_or pv as \<mapsto> set_nxt x (the (h (last_or pv as))))"
  let ?h2 = "if bs = [] then ?h1 else ?h1(m \<mapsto> set_prv x (the (?h1 m)))"
  have ne: "bs \<noteq> [] \<Longrightarrow> as \<noteq> [] \<Longrightarrow> m \<noteq> last_or pv as"
    using dseg_head [OF assms(2)] last_or_mem [of as pv] assms(3) by (cases bs) auto
  have "g = ?h2" using ne by (intro ext) (auto simp: g)
  then show ?thesis using splice [OF assms(1-7) refl refl] by simp
qed

lemma unsplice_at:
  assumes "dseg nxt prv h pv p (as @ x # bs) q" "distinct (as @ x # bs)" "h x = Some n"
    and g: "\<And>y. y \<noteq> x \<Longrightarrow> g y = (if bs \<noteq> [] \<and> y = nxt n then Some (set_prv (prv n) (the (h y)))
                      else if as \<noteq> [] \<and> y = last_or pv as then Some (set_nxt (nxt n) (the (h y))) else h y)"
  shows "dseg nxt prv g pv (if as = [] then nxt n else p) (as @ bs) q"
proof -
  let ?h1 = "if as = [] then h else h(last_or pv as \<mapsto> set_nxt (nxt n) (the (h (last_or pv as))))"
  let ?h2 = "if bs = [] then ?h1 else ?h1(nxt n \<mapsto> set_prv (prv n) (the (?h1 (nxt n))))"
  note U = unsplice [OF assms(1-3) refl refl]
  have ne: "bs \<noteq> [] \<Longrightarrow> as \<noteq> [] \<Longrightarrow> nxt n \<noteq> last_or pv as"
    using U(4) last_or_mem [of as pv] assms(2) by (cases bs) auto
  have "g y = ?h2 y" if "y \<in> set (as @ bs)" for y
  proof -
    have "y \<noteq> x" using that assms(2) by auto
    then show ?thesis using ne by (auto simp: g)
  qed
  then show ?thesis using U(1) dseg_frame [of "as @ bs" g ?h2 nxt prv pv "if as = [] then nxt n else p" q] by blast
qed

end

end
