(* ===== verification/Sim_Jobs.thy ===== *)
theory Sim_Jobs
  imports Linked_List C_Strings
begin

text \<open>
  The list of active simulated jobs of \<^verbatim>\<open>contribs/sim/sim_jobs.c\<close>, at the level
  of its heap objects and links. \<open>None\<close> is the end of the process, by a null or
  dangling dereference or by \<^verbatim>\<open>exit(1)\<close>.
\<close>

record sim_job =
  j_walltime :: int
  j_job_id :: u32
  j_job_sim_id :: u32
  j_submit_time :: int
  j_start_time :: int
  j_comp_job :: int
  j_requested_kill_timelimit :: int
  j_next :: ptr
  j_previous :: ptr

record sim_event_submit_batch_job =
  s_wall_utime :: int
  s_job_id :: u32
  s_job_sim_id :: u32
  s_argv :: "string list"

text \<open>
  The component's globals: the objects allocated and not yet freed, the ends of
  the list, and the next address the allocator hands out.
\<close>

record active_jobs =
  a_heap :: "sim_job heap"
  a_first :: ptr
  a_last :: ptr
  a_fresh :: ptr

definition no_jobs :: active_jobs where
  "no_jobs = \<lparr>a_heap = Map.empty, a_first = 0, a_last = 0, a_fresh = 1\<rparr>"

subsection \<open>Operations\<close>

partial_function (option) insert_walk :: "sim_job heap \<Rightarrow> u32 \<Rightarrow> ptr \<Rightarrow> ptr \<Rightarrow> (ptr \<times> ptr) option" where
  "insert_walk h jid previous_sim_job next_sim_job =
     (if next_sim_job = 0 then Some (previous_sim_job, next_sim_job)
      else Option.bind (deref h next_sim_job) (\<lambda>n.
             if j_job_id n < jid then insert_walk h jid next_sim_job (j_next n)
             else Some (previous_sim_job, next_sim_job)))"

definition sim_insert_active_job :: "active_jobs \<Rightarrow> ptr \<Rightarrow> active_jobs option" where
  "sim_insert_active_job s active_job = do {
     job \<leftarrow> deref (a_heap s) active_job;
     (prv, nxt) \<leftarrow> insert_walk (a_heap s) (j_job_id job) 0 (a_first s);
     h1 \<leftarrow> store (a_heap s) active_job (\<lambda>j. j\<lparr>j_next := nxt, j_previous := prv\<rparr>);
     h2 \<leftarrow> (if nxt \<noteq> 0 then store h1 nxt (\<lambda>j. j\<lparr>j_previous := active_job\<rparr>) else Some h1);
     h3 \<leftarrow> (if prv \<noteq> 0 then store h2 prv (\<lambda>j. j\<lparr>j_next := active_job\<rparr>) else Some h2);
     Some (s\<lparr>a_heap := h3,
             a_last := (if nxt \<noteq> 0 then a_last s else active_job),
             a_first := (if prv \<noteq> 0 then a_first s else active_job)\<rparr>)
   }"

text \<open>The loops over the list until a job with a given id or simulation id.\<close>

partial_function (option) find_walk :: "sim_job heap \<Rightarrow> (sim_job \<Rightarrow> bool) \<Rightarrow> ptr \<Rightarrow> ptr option" where
  "find_walk h P p =
     (if p = 0 then Some 0
      else Option.bind (deref h p) (\<lambda>n. if P n then Some p else find_walk h P (j_next n)))"

definition sim_remove_active_sim_job :: "active_jobs \<Rightarrow> u32 \<Rightarrow> (active_jobs \<times> nat) option" where
  "sim_remove_active_sim_job s jid = do {
     p \<leftarrow> find_walk (a_heap s) (\<lambda>j. j_job_id j = jid) (a_first s);
     if p = 0 then Some (s, 0)
     else do {
       n \<leftarrow> deref (a_heap s) p;
       s' \<leftarrow> (if j_next n \<noteq> 0 \<and> j_previous n \<noteq> 0 then do {
                 h1 \<leftarrow> store (a_heap s) (j_previous n) (\<lambda>j. j\<lparr>j_next := j_next n\<rparr>);
                 h2 \<leftarrow> store h1 (j_next n) (\<lambda>j. j\<lparr>j_previous := j_previous n\<rparr>);
                 Some (s\<lparr>a_heap := h2\<rparr>) }
               else if j_next n = 0 \<and> j_previous n = 0 then Some (s\<lparr>a_first := 0\<rparr>)
               else if j_next n = 0 then do {
                 h1 \<leftarrow> store (a_heap s) (j_previous n) (\<lambda>j. j\<lparr>j_next := 0\<rparr>);
                 Some (s\<lparr>a_heap := h1\<rparr>) }
               else do {
                 h1 \<leftarrow> store (a_heap s) (j_next n) (\<lambda>j. j\<lparr>j_previous := 0\<rparr>);
                 Some (s\<lparr>a_heap := h1, a_first := j_next n\<rparr>) });
       Some (s'\<lparr>a_heap := (a_heap s')(p := None)\<rparr>, 1)
     }
   }"

definition sim_insert_sim_active_job ::
  "active_jobs \<Rightarrow> sim_event_submit_batch_job \<Rightarrow> int \<Rightarrow> (active_jobs \<times> ptr) option" where
  "sim_insert_sim_active_job s e now = do {
     let active_job = a_fresh s;
     let job = \<lparr>j_walltime = s_wall_utime e, j_job_id = s_job_id e, j_job_sim_id = s_job_sim_id e,
                j_submit_time = now, j_start_time = 0, j_comp_job = 0,
                j_requested_kill_timelimit = 0, j_next = 0, j_previous = 0\<rparr>;
     s' \<leftarrow> sim_insert_active_job (s\<lparr>a_heap := (a_heap s)(active_job \<mapsto> job), a_fresh := active_job + 1\<rparr>) active_job;
     Some (s', active_job)
   }"

definition get_job_sim_id :: "string \<Rightarrow> u32 option" where
  "get_job_sim_id job_name =
     (if take 6 job_name \<noteq> ''jobid_'' then None
      else Some (of_int (atoi (tl (dropWhile (\<lambda>c. c \<noteq> CHR ''_'') job_name)))))"

text \<open>
  \<open>job_name\<close> gives the name of the controller's record of a job, and nothing
  when there is no record, in which case the source dereferences \<^verbatim>\<open>NULL\<close>.
\<close>

definition sim_find_active_sim_job ::
  "(u32 \<Rightarrow> string option) \<Rightarrow> active_jobs \<Rightarrow> u32 \<Rightarrow> (active_jobs \<times> ptr) option" where
  "sim_find_active_sim_job job_name s jid = do {
     p \<leftarrow> find_walk (a_heap s) (\<lambda>j. j_job_id j = jid) (a_first s);
     if p \<noteq> 0 then Some (s, p)
     else do {
       name \<leftarrow> job_name jid;
       sim_id \<leftarrow> get_job_sim_id name;
       q \<leftarrow> find_walk (a_heap s) (\<lambda>j. j_job_sim_id j = sim_id) (a_first s);
       if q \<noteq> 0 then do {
         h \<leftarrow> store (a_heap s) q (\<lambda>j. j\<lparr>j_job_id := jid\<rparr>);
         Some (s\<lparr>a_heap := h\<rparr>, q) }
       else Some (s, 0)
     }
   }"

subsection \<open>The list behind the links\<close>

interpretation job_links: linked j_next j_previous "\<lambda>p n. n\<lparr>j_next := p\<rparr>" "\<lambda>p n. n\<lparr>j_previous := p\<rparr>"
  by unfold_locales simp_all

definition jobs_at :: "active_jobs \<Rightarrow> ptr list \<Rightarrow> bool" where
  "jobs_at s ps \<longleftrightarrow>
     dseg j_next j_previous (a_heap s) 0 (a_first s) ps 0 \<and> distinct ps \<and> dom (a_heap s) = set ps
     \<and> (\<forall>p \<in> set ps. p < a_fresh s) \<and> 0 < a_fresh s"

text \<open>A job without its links, and the jobs of the list in order.\<close>

definition plain :: "sim_job \<Rightarrow> sim_job" where
  "plain j = j\<lparr>j_next := 0, j_previous := 0\<rparr>"

definition job_at :: "active_jobs \<Rightarrow> ptr \<Rightarrow> sim_job" where
  "job_at s p = plain (the (a_heap s p))"

lemma plain_simps [simp]:
  "j_walltime (plain j) = j_walltime j" "j_job_id (plain j) = j_job_id j"
  "j_job_sim_id (plain j) = j_job_sim_id j" "j_start_time (plain j) = j_start_time j"
  "j_comp_job (plain j) = j_comp_job j"
  "j_requested_kill_timelimit (plain j) = j_requested_kill_timelimit j"
  "plain (j\<lparr>j_next := p\<rparr>) = plain j" "plain (j\<lparr>j_previous := p\<rparr>) = plain j"
  "plain (j\<lparr>j_next := p, j_previous := q\<rparr>) = plain j"
  by (simp_all add: plain_def)

lemma no_jobs_at: "jobs_at no_jobs []"
  by (simp add: jobs_at_def no_jobs_def)

subsection \<open>Walks\<close>

lemma find_walk_spec:
  "dseg j_next j_previous h pv p ps 0 \<Longrightarrow>
     find_walk h P p = Some (case List.find (\<lambda>x. P (the (h x))) ps of None \<Rightarrow> 0 | Some x \<Rightarrow> x)"
proof (induction ps arbitrary: pv p)
  case Nil
  then show ?case by (simp add: find_walk.simps [of h P 0])
next
  case (Cons x xs)
  then obtain n where "h p = Some n" "x = p" "p \<noteq> 0" "dseg j_next j_previous h p (j_next n) xs 0"
    by (auto split: option.splits)
  then show ?case using Cons.IH by (simp add: find_walk.simps [of h P p] deref_def)
qed

lemma insert_walk_spec:
  "dseg j_next j_previous h pv p ps 0 \<Longrightarrow>
     insert_walk h jid pv p =
       Some (last_or pv (takeWhile (\<lambda>x. j_job_id (the (h x)) < jid) ps),
             case dropWhile (\<lambda>x. j_job_id (the (h x)) < jid) ps of [] \<Rightarrow> 0 | x # _ \<Rightarrow> x)"
proof (induction ps arbitrary: pv p)
  case Nil
  then show ?case by (simp add: insert_walk.simps [of h jid pv 0])
next
  case (Cons x xs)
  then obtain n where "h p = Some n" "x = p" "p \<noteq> 0" "dseg j_next j_previous h p (j_next n) xs 0"
    by (auto split: option.splits)
  then show ?case using Cons.IH by (simp add: insert_walk.simps [of h jid pv p] deref_def)
qed

lemma store_some: "h p = Some n \<Longrightarrow> p \<noteq> 0 \<Longrightarrow> store h p f = Some (h(p \<mapsto> f n))"
  by (simp add: store_def deref_def)

subsection \<open>Insertion\<close>

lemma sim_insert_active_job_spec:
  fixes job :: sim_job
  assumes "jobs_at s ps" "x = a_fresh s"
  defines "lt \<equiv> \<lambda>p. j_job_id (job_at s p) < j_job_id job"
  shows "\<exists>s'. sim_insert_active_job (s\<lparr>a_heap := (a_heap s)(x \<mapsto> job), a_fresh := x + 1\<rparr>) x = Some s'
    \<and> jobs_at s' (takeWhile lt ps @ x # dropWhile lt ps)
    \<and> job_at s' x = plain job \<and> (\<forall>p \<in> set ps. job_at s' p = job_at s p)"
proof -
  let ?h = "(a_heap s)(x \<mapsto> job)"
  define as bs where "as = takeWhile lt ps" and "bs = dropWhile lt ps"
  have ps: "ps = as @ bs" by (simp add: as_def bs_def)
  have inv: "dseg j_next j_previous (a_heap s) 0 (a_first s) ps 0" "distinct ps" "dom (a_heap s) = set ps"
    "x \<notin> set ps" "x \<noteq> 0" "\<forall>p \<in> set ps. p < x"
    using assms(1,2) by (auto simp: jobs_at_def)
  have d: "dseg j_next j_previous ?h 0 (a_first s) ps 0"
    using inv by simp
  then obtain m where m: "dseg j_next j_previous ?h 0 (a_first s) as m" "dseg j_next j_previous ?h (last_or 0 as) m bs 0"
    by (auto simp: ps dseg_append)
  have lt: "lt y = (j_job_id (the (?h y)) < j_job_id job)" if "y \<in> set ps" for y
    using that inv(4) by (auto simp: lt_def job_at_def)
  have tw: "takeWhile (\<lambda>y. j_job_id (the (?h y)) < j_job_id job) ps = as"
    "dropWhile (\<lambda>y. j_job_id (the (?h y)) < j_job_id job) ps = bs"
    using lt by (auto simp: as_def bs_def intro: takeWhile_cong dropWhile_cong)
  have mb: "m = (case bs of [] \<Rightarrow> 0 | x # _ \<Rightarrow> x)" using m(2) by (cases bs) auto
  have w: "insert_walk ?h (j_job_id job) 0 (a_first s) = Some (last_or 0 as, m)"
    using insert_walk_spec [OF d, of "j_job_id job"] tw mb by simp
  define h0 where "h0 = (a_heap s)(x \<mapsto> job\<lparr>j_next := m, j_previous := last_or 0 as\<rparr>)"
  have m0: "m \<noteq> 0 \<longleftrightarrow> bs \<noteq> []" "bs \<noteq> [] \<Longrightarrow> m \<in> set bs"
    using mb m(2) inv(5) by (cases bs; auto)+
  have l0: "last_or 0 as \<noteq> 0 \<longleftrightarrow> as \<noteq> []" "as \<noteq> [] \<Longrightarrow> last_or 0 as \<in> set as"
    using dseg_nonnull [OF m(1), of "last_or 0 as"] last_or_mem [of as 0] by auto
  have dis: "distinct (as @ x # bs)" using inv(2,4) by (auto simp: ps)
  have live: "y \<in> set ps \<Longrightarrow> \<exists>n. h0 y = Some n" for y
    using inv(3) by (auto simp: h0_def dom_def)
  define g where "g = (\<lambda>y. if bs \<noteq> [] \<and> y = m then Some ((the (h0 y))\<lparr>j_previous := x\<rparr>)
      else if as \<noteq> [] \<and> y = last_or 0 as then Some ((the (h0 y))\<lparr>j_next := x\<rparr>) else h0 y)"
  have ne: "bs \<noteq> [] \<Longrightarrow> as \<noteq> [] \<Longrightarrow> m \<noteq> last_or 0 as" using m0(2) l0(2) dis by auto
  define h2 where "h2 = (if bs \<noteq> [] then h0(m \<mapsto> (the (h0 m))\<lparr>j_previous := x\<rparr>) else h0)"
  have s2: "(if m \<noteq> 0 then store h0 m (\<lambda>j. j\<lparr>j_previous := x\<rparr>) else Some h0) = Some h2"
    using m0 live [of m] by (auto simp: h2_def ps store_some)
  have s3: "(if last_or 0 as \<noteq> 0 then store h2 (last_or 0 as) (\<lambda>j. j\<lparr>j_next := x\<rparr>) else Some h2) = Some g"
  proof (cases "as = []")
    case True
    have "g = h2" using True by (auto simp: g_def h2_def)
    then show ?thesis using True by simp
  next
    case False
    obtain n where n: "h0 (last_or 0 as) = Some n" using live [of "last_or 0 as"] l0(2) False by (auto simp: ps)
    have "h2 (last_or 0 as) = Some n" using n ne False by (auto simp: h2_def)
    then have "store h2 (last_or 0 as) (\<lambda>j. j\<lparr>j_next := x\<rparr>) = Some (h2(last_or 0 as \<mapsto> n\<lparr>j_next := x\<rparr>))"
      using l0(1) False by (simp add: store_some)
    moreover have "h2(last_or 0 as \<mapsto> n\<lparr>j_next := x\<rparr>) = g"
      using False n ne by (auto simp: g_def h2_def)
    ultimately show ?thesis using l0(1) False by simp
  qed
  let ?s' = "s\<lparr>a_heap := g, a_fresh := x + 1, a_last := if m \<noteq> 0 then a_last s else x,
               a_first := if last_or 0 as \<noteq> 0 then a_first s else x\<rparr>"
  have run: "sim_insert_active_job (s\<lparr>a_heap := ?h, a_fresh := x + 1\<rparr>) x = Some ?s'"
  proof -
    have s1: "store ?h x (\<lambda>j. j\<lparr>j_next := m, j_previous := last_or 0 as\<rparr>) = Some h0"
      using inv(5) by (simp add: store_some h0_def)
    have d0: "deref ?h x = Some job" using inv(5) by (simp add: deref_def)
    show ?thesis unfolding sim_insert_active_job_def
      by (simp add: d0 w s1 s2 [simplified] s3 [simplified] split del: if_split) simp
  qed
  have "dseg j_next j_previous h0 0 (a_first s) as m" "dseg j_next j_previous h0 (last_or 0 as) m bs 0"
    using m dis by (simp_all add: h0_def)
  from job_links.splice_at [OF this dis inv(5), where g = g]
  have "dseg j_next j_previous g 0 (if as = [] then x else a_first s) (as @ x # bs) 0"
    by (auto simp: h0_def g_def)
  moreover have "dom g = set (as @ x # bs)"
  proof -
    have "dom h0 = insert x (set ps)" using inv(3) by (auto simp: h0_def)
    then show ?thesis using live m0(2) l0(2) by (auto simp: g_def dom_def ps split: if_splits)
  qed
  ultimately have "jobs_at ?s' (as @ x # bs)"
    using dis inv(6) l0(1) by (auto simp: jobs_at_def ps less_Suc_eq)
  moreover have "job_at ?s' x = plain job"
    using dis m0(2) l0(2) by (auto simp: job_at_def g_def h0_def)
  moreover have "job_at ?s' y = job_at s y" if "y \<in> set ps" for y
    using that inv(4) live [OF that] by (auto simp: job_at_def g_def h0_def)
  ultimately show ?thesis using run by (auto simp: as_def bs_def)
qed

subsection \<open>Removal\<close>

text \<open>The heap that is left, address by address.\<close>

definition unlinked :: "sim_job heap \<Rightarrow> ptr \<Rightarrow> sim_job \<Rightarrow> sim_job heap" where
  "unlinked h p n = (\<lambda>y. if y = p then None
     else if j_next n \<noteq> 0 \<and> y = j_next n then Some ((the (h y))\<lparr>j_previous := j_previous n\<rparr>)
     else if j_previous n \<noteq> 0 \<and> y = j_previous n then Some ((the (h y))\<lparr>j_next := j_next n\<rparr>)
     else h y)"

lemma sim_remove_run:
  assumes "find_walk (a_heap s) (\<lambda>j. j_job_id j = jid) (a_first s) = Some p" "p \<noteq> 0" "a_heap s p = Some n"
    and "j_next n \<noteq> 0 \<Longrightarrow> \<exists>k. a_heap s (j_next n) = Some k"
    and "j_previous n \<noteq> 0 \<Longrightarrow> \<exists>k. a_heap s (j_previous n) = Some k"
    and "j_next n \<noteq> 0 \<Longrightarrow> j_next n \<noteq> j_previous n"
  shows "sim_remove_active_sim_job s jid =
    Some (s\<lparr>a_heap := unlinked (a_heap s) p n,
            a_first := if j_previous n = 0 then j_next n else a_first s\<rparr>, 1)"
proof -
  have d: "deref (a_heap s) p = Some n" using assms(2,3) by (simp add: deref_def)
  show ?thesis
  proof (cases "j_next n = 0"; cases "j_previous n = 0")
    assume c: "j_next n = 0" "j_previous n = 0"
    have "(a_heap s)(p := None) = unlinked (a_heap s) p n" using c by (auto simp: unlinked_def)
    then show ?thesis using c assms(1,2) d by (simp add: sim_remove_active_sim_job_def)
  next
    assume c: "j_next n = 0" "j_previous n \<noteq> 0"
    obtain k where k: "a_heap s (j_previous n) = Some k" using assms(5) c by blast
    have "((a_heap s)(j_previous n \<mapsto> k\<lparr>j_next := 0\<rparr>))(p := None) = unlinked (a_heap s) p n"
      using c k by (auto simp: unlinked_def)
    then show ?thesis using c k assms(1,2) d by (simp add: sim_remove_active_sim_job_def store_some)
  next
    assume c: "j_next n \<noteq> 0" "j_previous n = 0"
    obtain k where k: "a_heap s (j_next n) = Some k" using assms(4) c by blast
    have "((a_heap s)(j_next n \<mapsto> k\<lparr>j_previous := 0\<rparr>))(p := None) = unlinked (a_heap s) p n"
      using c k by (auto simp: unlinked_def)
    then show ?thesis using c k assms(1,2) d by (simp add: sim_remove_active_sim_job_def store_some)
  next
    assume c: "j_next n \<noteq> 0" "j_previous n \<noteq> 0"
    obtain k where k: "a_heap s (j_next n) = Some k" using assms(4) c by blast
    obtain l where l: "a_heap s (j_previous n) = Some l" using assms(5) c by blast
    have ne: "j_next n \<noteq> j_previous n" using assms(6) c by blast
    have "((a_heap s)(j_previous n \<mapsto> l\<lparr>j_next := j_next n\<rparr>,
        j_next n \<mapsto> k\<lparr>j_previous := j_previous n\<rparr>))(p := None) = unlinked (a_heap s) p n"
      using c k l ne by (auto simp: unlinked_def)
    then show ?thesis using c k l ne assms(1,2) d by (simp add: sim_remove_active_sim_job_def store_some)
  qed
qed

lemma find_first:
  "List.find P xs = Some x \<Longrightarrow> \<exists>as bs. xs = as @ x # bs \<and> P x \<and> (\<forall>y \<in> set as. \<not> P y)"
proof (induction xs)
  case (Cons y ys)
  show ?case
  proof (cases "P y")
    case True
    then show ?thesis using Cons.prems by (intro exI [of _ "[]"] exI [of _ ys]) simp
  next
    case False
    then obtain as bs where "ys = as @ x # bs" "P x" "\<forall>y \<in> set as. \<not> P y" using Cons by auto
    then show ?thesis using False by (intro exI [of _ "y # as"] exI [of _ bs]) simp
  qed
qed simp

lemma find_at: "P x \<Longrightarrow> \<forall>y \<in> set as. \<not> P y \<Longrightarrow> List.find P (as @ x # bs) = Some x"
  by (induction as) auto

lemma sim_remove_absent:
  assumes "jobs_at s ps" "\<forall>p \<in> set ps. j_job_id (job_at s p) \<noteq> jid"
  shows "sim_remove_active_sim_job s jid = Some (s, 0)"
proof -
  have "List.find (\<lambda>x. j_job_id (the (a_heap s x)) = jid) ps = None"
    using assms(2) by (auto simp: find_None_iff job_at_def)
  then show ?thesis
    using assms(1) find_walk_spec [of "a_heap s" 0 "a_first s" ps "\<lambda>j. j_job_id j = jid"]
    by (simp add: sim_remove_active_sim_job_def jobs_at_def)
qed

lemma sim_remove_present:
  assumes "jobs_at s (as @ p # bs)" "j_job_id (job_at s p) = jid" "\<forall>q \<in> set as. j_job_id (job_at s q) \<noteq> jid"
  shows "\<exists>s'. sim_remove_active_sim_job s jid = Some (s', 1) \<and> jobs_at s' (as @ bs)
    \<and> (\<forall>q \<in> set (as @ bs). job_at s' q = job_at s q) \<and> a_heap s' p = None \<and> a_last s' = a_last s"
proof -
  have inv: "dseg j_next j_previous (a_heap s) 0 (a_first s) (as @ p # bs) 0" "distinct (as @ p # bs)"
    "dom (a_heap s) = set (as @ p # bs)" "\<forall>q \<in> set (as @ p # bs). q < a_fresh s" "0 < a_fresh s"
    using assms(1) by (auto simp: jobs_at_def)
  have live: "\<exists>k. a_heap s q = Some k" if "q \<in> set (as @ p # bs)" for q using that inv(3) by blast
  obtain n where n: "a_heap s p = Some n" using live [of p] by auto
  have p0: "p \<noteq> 0" using dseg_nonnull [OF inv(1), of p] by simp
  note U = job_links.unsplice [OF inv(1,2) n refl refl]
  have nx: "j_next n = (if bs = [] then 0 else hd bs)" using U(3,4) by simp
  have nx0: "j_next n \<noteq> 0 \<longleftrightarrow> bs \<noteq> []"
    using nx dseg_nonnull [OF inv(1), of "hd bs"] by (cases bs) auto
  have pv0: "j_previous n \<noteq> 0 \<longleftrightarrow> as \<noteq> []"
    using U(2) dseg_nonnull [OF inv(1), of "last_or 0 as"] last_or_mem [of as 0] by auto
  have pv: "j_previous n = last_or 0 as" by (fact U(2))
  have "find_walk (a_heap s) (\<lambda>j. j_job_id j = jid) (a_first s) = Some p"
  proof -
    have "List.find (\<lambda>x. j_job_id (the (a_heap s x)) = jid) (as @ p # bs) = Some p"
      using assms(2,3) by (intro find_at) (auto simp: job_at_def)
    then show ?thesis using find_walk_spec [OF inv(1), of "\<lambda>j. j_job_id j = jid"] by simp
  qed
  moreover have "j_next n \<noteq> 0 \<Longrightarrow> j_next n \<in> set bs" "j_previous n \<noteq> 0 \<Longrightarrow> j_previous n \<in> set as"
    using nx nx0 pv pv0 last_or_mem [of as 0] by auto
  ultimately have run: "sim_remove_active_sim_job s jid =
      Some (s\<lparr>a_heap := unlinked (a_heap s) p n,
              a_first := if j_previous n = 0 then j_next n else a_first s\<rparr>, 1)"
    using inv(2) live p0 n by (intro sim_remove_run) auto
  let ?s' = "s\<lparr>a_heap := unlinked (a_heap s) p n,
               a_first := if j_previous n = 0 then j_next n else a_first s\<rparr>"
  have "dseg j_next j_previous (unlinked (a_heap s) p n) 0 (if as = [] then j_next n else a_first s) (as @ bs) 0"
    using pv nx0 pv0 by (intro job_links.unsplice_at [OF inv(1,2) n]) (auto simp: unlinked_def)
  moreover have "dom (unlinked (a_heap s) p n) = set (as @ bs)"
    using inv(2,3) nx nx0 pv pv0 last_or_mem [of as 0] by (auto simp: unlinked_def dom_def split: if_splits)
  ultimately have "jobs_at ?s' (as @ bs)" using inv pv0 by (auto simp: jobs_at_def)
  moreover have "job_at ?s' q = job_at s q" if "q \<in> set (as @ bs)" for q
    using that inv(2) by (auto simp: job_at_def unlinked_def)
  ultimately show ?thesis using run by (auto simp: unlinked_def)
qed

subsection \<open>The list specification\<close>

fun insert_job :: "sim_job \<Rightarrow> sim_job list \<Rightarrow> sim_job list" where
  "insert_job j [] = [j]"
| "insert_job j (k # ks) = (if j_job_id k < j_job_id j then k # insert_job j ks else j # k # ks)"

fun del_first :: "('a \<Rightarrow> bool) \<Rightarrow> 'a list \<Rightarrow> 'a list" where
  "del_first P [] = []"
| "del_first P (x # xs) = (if P x then xs else x # del_first P xs)"

fun upd_first :: "('a \<Rightarrow> bool) \<Rightarrow> ('a \<Rightarrow> 'a) \<Rightarrow> 'a list \<Rightarrow> 'a list" where
  "upd_first P f [] = []"
| "upd_first P f (x # xs) = (if P x then f x # xs else x # upd_first P f xs)"

definition new_job :: "sim_event_submit_batch_job \<Rightarrow> int \<Rightarrow> sim_job" where
  "new_job e now = \<lparr>j_walltime = s_wall_utime e, j_job_id = s_job_id e, j_job_sim_id = s_job_sim_id e,
      j_submit_time = now, j_start_time = 0, j_comp_job = 0, j_requested_kill_timelimit = 0,
      j_next = 0, j_previous = 0\<rparr>"

lemma insert_job_split:
  "insert_job j ks = takeWhile (\<lambda>k. j_job_id k < j_job_id j) ks @ j # dropWhile (\<lambda>k. j_job_id k < j_job_id j) ks"
  by (induction ks) auto

lemma insert_job_sorted:
  "sorted (map j_job_id ks) \<Longrightarrow> sorted (map j_job_id (insert_job j ks))"
proof (induction ks)
  case (Cons k ks)
  moreover have "set (insert_job j ks) = insert j (set ks)" by (induction ks) auto
  ultimately show ?case by auto
qed simp

lemma del_first_at: "P x \<Longrightarrow> \<forall>y \<in> set as. \<not> P y \<Longrightarrow> del_first P (as @ x # bs) = as @ bs"
  by (induction as) auto

lemma del_first_none: "\<forall>y \<in> set xs. \<not> P y \<Longrightarrow> del_first P xs = xs"
  by (induction xs) auto

lemma upd_first_at: "P x \<Longrightarrow> \<forall>y \<in> set as. \<not> P y \<Longrightarrow> upd_first P f (as @ x # bs) = as @ f x # bs"
  by (induction as) auto

lemma upd_first_none: "\<forall>y \<in> set xs. \<not> P y \<Longrightarrow> upd_first P f xs = xs"
  by (induction xs) auto

definition job_list :: "active_jobs \<Rightarrow> sim_job list \<Rightarrow> bool" where
  "job_list s js \<longleftrightarrow> (\<exists>ps. jobs_at s ps \<and> js = map (job_at s) ps)"

lemma first_match:
  assumes "\<exists>p \<in> set ps. P p"
  obtains as p bs where "ps = as @ p # bs" "P p" "\<forall>q \<in> set as. \<not> P q"
  using assms find_first [of P ps] by (metis find_None_iff2 not_None_eq)

lemma insert_refines:
  assumes "job_list s js"
  shows "\<exists>s'. sim_insert_sim_active_job s e now = Some (s', a_fresh s)
    \<and> job_list s' (insert_job (new_job e now) js) \<and> job_at s' (a_fresh s) = new_job e now"
proof -
  obtain ps where ps: "jobs_at s ps" "js = map (job_at s) ps" using assms by (auto simp: job_list_def)
  let ?j = "new_job e now" and ?lt = "\<lambda>p. j_job_id (job_at s p) < j_job_id (new_job e now)"
  have pl: "plain ?j = ?j" by (simp add: plain_def new_job_def)
  obtain s' where s': "sim_insert_active_job (s\<lparr>a_heap := (a_heap s)(a_fresh s \<mapsto> ?j), a_fresh := a_fresh s + 1\<rparr>) (a_fresh s) = Some s'"
    "jobs_at s' (takeWhile ?lt ps @ a_fresh s # dropWhile ?lt ps)"
    "job_at s' (a_fresh s) = ?j" "\<forall>p \<in> set ps. job_at s' p = job_at s p"
    using sim_insert_active_job_spec [OF ps(1) refl, of ?j] pl by auto
  have "sim_insert_sim_active_job s e now = Some (s', a_fresh s)"
    using s'(1) by (simp add: sim_insert_sim_active_job_def new_job_def)
  moreover have "map (job_at s') (takeWhile ?lt ps @ a_fresh s # dropWhile ?lt ps) = insert_job ?j js"
    using s'(3,4) by (auto simp: ps(2) insert_job_split takeWhile_map dropWhile_map o_def
        dest: set_takeWhileD set_dropWhileD)
  ultimately show ?thesis using s'(2,3) by (metis job_list_def)
qed

lemma remove_refines:
  assumes "job_list s js"
  shows "\<exists>s'. sim_remove_active_sim_job s jid = Some (s', if \<exists>j \<in> set js. j_job_id j = jid then 1 else 0)
    \<and> job_list s' (del_first (\<lambda>j. j_job_id j = jid) js)"
proof -
  obtain ps where ps: "jobs_at s ps" "js = map (job_at s) ps" using assms by (auto simp: job_list_def)
  show ?thesis
  proof (cases "\<exists>p \<in> set ps. j_job_id (job_at s p) = jid")
    case True
    then obtain as p bs where sp: "ps = as @ p # bs" "j_job_id (job_at s p) = jid"
      "\<forall>q \<in> set as. j_job_id (job_at s q) \<noteq> jid"
      using first_match [of ps "\<lambda>p. j_job_id (job_at s p) = jid"] by blast
    obtain s' where s': "sim_remove_active_sim_job s jid = Some (s', 1)" "jobs_at s' (as @ bs)"
      "\<forall>q \<in> set (as @ bs). job_at s' q = job_at s q"
      using sim_remove_present [of s as p bs jid] ps(1) sp by auto
    have "del_first (\<lambda>j. j_job_id j = jid) js = map (job_at s) as @ map (job_at s) bs"
      using sp ps(2) by (simp add: del_first_at)
    also have "\<dots> = map (job_at s') (as @ bs)" using s'(3) by simp
    finally have "job_list s' (del_first (\<lambda>j. j_job_id j = jid) js)" using s'(2) by (auto simp: job_list_def)
    then show ?thesis using s'(1) True ps(2) by auto
  next
    case False
    then show ?thesis using sim_remove_absent [OF ps(1)] ps assms by (auto simp: del_first_none)
  qed
qed

lemma jobs_at_update:
  assumes "jobs_at s ps" "a_heap s p = Some n" "p \<in> set ps" "j_next n' = j_next n" "j_previous n' = j_previous n"
  shows "jobs_at (s\<lparr>a_heap := (a_heap s)(p \<mapsto> n')\<rparr>) ps"
proof -
  have "dseg j_next j_previous ((a_heap s)(p \<mapsto> n')) pv f qs 0 = dseg j_next j_previous (a_heap s) pv f qs 0" for pv f qs
    using assms(2,4,5) by (induction qs arbitrary: pv f) (auto split: option.split)
  then show ?thesis using assms(1,3) by (auto simp: jobs_at_def)
qed

text \<open>Changing one job in place, links untouched.\<close>

lemma update_refines:
  assumes "jobs_at s (as @ p # bs)" "a_heap s p = Some n" "j_next (f n) = j_next n" "j_previous (f n) = j_previous n"
  shows "store (a_heap s) p f = Some ((a_heap s)(p \<mapsto> f n))"
    and "job_list (s\<lparr>a_heap := (a_heap s)(p \<mapsto> f n)\<rparr>) (map (job_at s) as @ plain (f n) # map (job_at s) bs)"
proof -
  have "p \<noteq> 0"
    using assms(1) dseg_nonnull [of j_next j_previous "a_heap s" 0 "a_first s" "as @ p # bs" 0 p]
    by (simp add: jobs_at_def)
  then show "store (a_heap s) p f = Some ((a_heap s)(p \<mapsto> f n))" using assms(2) by (simp add: store_some)
  let ?s = "s\<lparr>a_heap := (a_heap s)(p \<mapsto> f n)\<rparr>"
  have "jobs_at ?s (as @ p # bs)" using assms by (intro jobs_at_update) auto
  moreover have "distinct (as @ p # bs)" using assms(1) by (simp add: jobs_at_def)
  then have "map (job_at ?s) (as @ p # bs) = map (job_at s) as @ plain (f n) # map (job_at s) bs"
    by (auto simp: job_at_def)
  ultimately show "job_list ?s (map (job_at s) as @ plain (f n) # map (job_at s) bs)"
    unfolding job_list_def by metis
qed

text \<open>
  Looking a job up: by its id, else by the simulation id in the name of the
  controller's record, whose entry then gets the id.
\<close>

definition find_effect :: "(u32 \<Rightarrow> string option) \<Rightarrow> sim_job list \<Rightarrow> u32 \<Rightarrow> sim_job list" where
  "find_effect job_name js jid =
     (if \<exists>j \<in> set js. j_job_id j = jid then js
      else case Option.bind (job_name jid) get_job_sim_id of
             None \<Rightarrow> js
           | Some sim_id \<Rightarrow> upd_first (\<lambda>j. j_job_sim_id j = sim_id) (\<lambda>j. j\<lparr>j_job_id := jid\<rparr>) js)"

definition find_result :: "(u32 \<Rightarrow> string option) \<Rightarrow> sim_job list \<Rightarrow> u32 \<Rightarrow> sim_job option" where
  "find_result job_name js jid =
     (case List.find (\<lambda>j. j_job_id j = jid) js of
        Some j \<Rightarrow> Some j
      | None \<Rightarrow> (case Option.bind (job_name jid) get_job_sim_id of
                   None \<Rightarrow> None
                 | Some sim_id \<Rightarrow> map_option (\<lambda>j. j\<lparr>j_job_id := jid\<rparr>) (List.find (\<lambda>j. j_job_sim_id j = sim_id) js)))"

definition ptr_job :: "active_jobs \<Rightarrow> ptr \<Rightarrow> sim_job option" where
  "ptr_job s p = (if p = 0 then None else Some (job_at s p))"

lemma find_map_at: "List.find P (map f xs) = map_option f (List.find (\<lambda>x. P (f x)) xs)"
  by (induction xs) auto

lemma find_walk_jobs:
  assumes "jobs_at s ps" "\<And>j. P (plain j) = P j"
  shows "find_walk (a_heap s) P (a_first s) = Some (case List.find (\<lambda>p. P (job_at s p)) ps of None \<Rightarrow> 0 | Some p \<Rightarrow> p)"
proof -
  have "dseg j_next j_previous (a_heap s) 0 (a_first s) ps 0" using assms(1) by (simp add: jobs_at_def)
  then show ?thesis unfolding job_at_def assms(2) by (rule find_walk_spec)
qed

lemma find_by_id:
  assumes "jobs_at s ps" "p \<in> set ps" "j_job_id (job_at s p) = jid"
  shows "\<exists>q \<in> set ps. sim_find_active_sim_job job_name s jid = Some (s, q) \<and>
           ptr_job s q = List.find (\<lambda>j. j_job_id j = jid) (map (job_at s) ps)"
proof -
  obtain q where q: "List.find (\<lambda>p. j_job_id (job_at s p) = jid) ps = Some q"
    using assms(2,3) find_None_iff [of "\<lambda>p. j_job_id (job_at s p) = jid" ps]
    by (cases "List.find (\<lambda>p. j_job_id (job_at s p) = jid) ps") auto
  have q0: "q \<in> set ps" "q \<noteq> 0"
    using find_first [OF q] assms(1) dseg_nonnull [of j_next j_previous "a_heap s" 0 "a_first s" ps 0 q]
    by (auto simp: jobs_at_def)
  show ?thesis
    using q q0 find_walk_jobs [OF assms(1), of "\<lambda>j. j_job_id j = jid"]
    by (intro bexI [of _ q]) (simp_all add: sim_find_active_sim_job_def find_map_at ptr_job_def)
qed

lemma find_refines:
  assumes "job_list s js" "(\<exists>j \<in> set js. j_job_id j = jid) \<or> Option.bind (job_name jid) get_job_sim_id \<noteq> None"
  shows "\<exists>s' p. sim_find_active_sim_job job_name s jid = Some (s', p)
    \<and> job_list s' (find_effect job_name js jid) \<and> ptr_job s' p = find_result job_name js jid"
proof -
  obtain ps where ps: "jobs_at s ps" "js = map (job_at s) ps" using assms(1) by (auto simp: job_list_def)
  show ?thesis
  proof (cases "\<exists>p \<in> set ps. j_job_id (job_at s p) = jid")
    case True
    then obtain p where p: "p \<in> set ps" "j_job_id (job_at s p) = jid" by blast
    have "\<exists>j \<in> set js. j_job_id j = jid" using p ps(2) by auto
    moreover then have "find_result job_name js jid = List.find (\<lambda>j. j_job_id j = jid) js"
      by (auto simp: find_result_def find_None_iff split: option.split)
    ultimately show ?thesis using find_by_id [OF ps(1) p, of job_name] assms(1) ps(2)
      by (auto simp: find_effect_def)
  next
    case False
    then have no: "List.find (\<lambda>p. j_job_id (job_at s p) = jid) ps = None" by (auto simp: find_None_iff)
    have nj: "\<not> (\<exists>j \<in> set js. j_job_id j = jid)" using False ps(2) by auto
    then obtain sid where sid: "Option.bind (job_name jid) get_job_sim_id = Some sid" using assms(2) by blast
    then obtain name where nm: "job_name jid = Some name" "get_job_sim_id name = Some sid"
      by (cases "job_name jid") auto
    note W = find_walk_jobs [OF ps(1), of "\<lambda>j. j_job_id j = jid"]
      find_walk_jobs [OF ps(1), of "\<lambda>j. j_job_sim_id j = sid"]
    show ?thesis
    proof (cases "List.find (\<lambda>p. j_job_sim_id (job_at s p) = sid) ps")
      case None
      then have "\<forall>j \<in> set js. j_job_sim_id j \<noteq> sid" using ps(2) by (auto simp: find_None_iff)
      then show ?thesis using None no nj sid nm W assms(1) ps(2)
        by (auto simp: sim_find_active_sim_job_def find_effect_def find_result_def find_map_at upd_first_none ptr_job_def)
    next
      case (Some q)
      obtain as bs where sp: "ps = as @ q # bs" "j_job_sim_id (job_at s q) = sid"
        "\<forall>p \<in> set as. j_job_sim_id (job_at s p) \<noteq> sid" using find_first [OF Some] by blast
      obtain n where n: "a_heap s q = Some n" "q \<noteq> 0"
        using ps(1) sp(1) dseg_nonnull [of j_next j_previous "a_heap s" 0 "a_first s" ps 0 q]
        by (auto simp: jobs_at_def)
      let ?f = "\<lambda>j. j\<lparr>j_job_id := jid\<rparr>"
      note U = update_refines [of s as q bs n ?f, OF ps(1) [unfolded sp(1)] n(1)]
      have pl: "plain (?f n) = ?f (job_at s q)" using n by (simp add: job_at_def plain_def)
      have "job_list (s\<lparr>a_heap := (a_heap s)(q \<mapsto> ?f n)\<rparr>) (find_effect job_name js jid)"
        using U(2) sp pl sid nj by (simp add: find_effect_def ps(2) upd_first_at)
      moreover have "ptr_job (s\<lparr>a_heap := (a_heap s)(q \<mapsto> ?f n)\<rparr>) q = find_result job_name js jid"
        using Some no sid n pl by (simp add: ptr_job_def find_result_def ps(2) find_map_at) (simp add: job_at_def)
      ultimately show ?thesis using U(1) Some no nm W n
        by (auto simp: sim_find_active_sim_job_def)
    qed
  qed
qed

text \<open>
  Without a job of that id in the list and without a record of the expected
  name, looking a job up ends the process: the source reads the name of a
  \<^verbatim>\<open>NULL\<close> record, or calls \<^verbatim>\<open>exit(1)\<close>.
\<close>

lemma find_fails:
  assumes "job_list s js" "\<not> (\<exists>j \<in> set js. j_job_id j = jid)" "Option.bind (job_name jid) get_job_sim_id = None"
  shows "sim_find_active_sim_job job_name s jid = None"
proof -
  obtain ps where ps: "jobs_at s ps" "js = map (job_at s) ps" using assms(1) by (auto simp: job_list_def)
  then have "List.find (\<lambda>p. j_job_id (job_at s p) = jid) ps = None" using assms(2) by (auto simp: find_None_iff)
  then show ?thesis using find_walk_jobs [OF ps(1), of "\<lambda>j. j_job_id j = jid"] assms(3)
    by (cases "job_name jid") (auto simp: sim_find_active_sim_job_def)
qed

subsection \<open>Sequences of operations\<close>

datatype job_op =
    Insert sim_event_submit_batch_job int
  | Remove u32
  | Find u32

text \<open>
  What an operation returns: the job behind the returned pointer, none for
  \<^verbatim>\<open>NULL\<close>, or the number of jobs removed.
\<close>

datatype job_result =
    Inserted "sim_job option"
  | Removed nat
  | Found "sim_job option"

definition run_op :: "(u32 \<Rightarrow> string option) \<Rightarrow> active_jobs \<Rightarrow> job_op \<Rightarrow> (active_jobs \<times> job_result) option" where
  "run_op job_name s op =
     (case op of
        Insert e now \<Rightarrow> map_option (\<lambda>(s', p). (s', Inserted (ptr_job s' p))) (sim_insert_sim_active_job s e now)
      | Remove jid \<Rightarrow> map_option (\<lambda>(s', n). (s', Removed n)) (sim_remove_active_sim_job s jid)
      | Find jid \<Rightarrow> map_option (\<lambda>(s', p). (s', Found (ptr_job s' p))) (sim_find_active_sim_job job_name s jid))"

definition spec_op :: "(u32 \<Rightarrow> string option) \<Rightarrow> sim_job list \<Rightarrow> job_op \<Rightarrow> (sim_job list \<times> job_result) option" where
  "spec_op job_name js op =
     (case op of
        Insert e now \<Rightarrow> Some (insert_job (new_job e now) js, Inserted (Some (new_job e now)))
      | Remove jid \<Rightarrow> Some (del_first (\<lambda>j. j_job_id j = jid) js,
                           Removed (if \<exists>j \<in> set js. j_job_id j = jid then 1 else 0))
      | Find jid \<Rightarrow> if (\<exists>j \<in> set js. j_job_id j = jid) \<or> Option.bind (job_name jid) get_job_sim_id \<noteq> None
                    then Some (find_effect job_name js jid, Found (find_result job_name js jid)) else None)"

text \<open>A sequence of operations with all its results, ended by the first that does not return.\<close>

fun run_seq :: "('s \<Rightarrow> 'o \<Rightarrow> ('s \<times> 'r) option) \<Rightarrow> 's \<Rightarrow> 'o list \<Rightarrow> ('s \<times> 'r list) option" where
  "run_seq f s [] = Some (s, [])"
| "run_seq f s (x # xs) =
     (case f s x of
        None \<Rightarrow> None
      | Some (s', r) \<Rightarrow> (case run_seq f s' xs of None \<Rightarrow> None | Some (s'', rs) \<Rightarrow> Some (s'', r # rs)))"

lemma run_op_refines:
  assumes "job_list s js"
  shows "case spec_op job_name js op of
      None \<Rightarrow> run_op job_name s op = None
    | Some (js', r) \<Rightarrow> \<exists>s'. run_op job_name s op = Some (s', r) \<and> job_list s' js'"
proof (cases op)
  case (Insert e now)
  have "a_fresh s \<noteq> 0" using assms by (auto simp: job_list_def jobs_at_def)
  then show ?thesis using insert_refines [OF assms, of e now] Insert by (auto simp: run_op_def spec_op_def ptr_job_def)
next
  case (Remove jid)
  then show ?thesis using remove_refines [OF assms, of jid] by (auto simp: run_op_def spec_op_def)
next
  case (Find jid)
  then show ?thesis using find_refines [OF assms, of jid job_name] find_fails [OF assms, of jid job_name]
    by (auto simp: run_op_def spec_op_def)
qed

text \<open>C15: Any sequence of insertions, removals and look-ups on the linked list of
  active jobs, from the empty list on, agrees with the same sequence on a plain
  list of jobs: it returns the same jobs, the same \<^verbatim>\<open>NULL\<close>s and the same counts
  of removed jobs, leaves the same list, and never follows a null or dangling
  link. The process ends in a look-up exactly when the plain list says so: no
  job of the list has the id, and the controller has no record of the job or
  one whose name is not of the expected form.\<close>

theorem active_jobs_refine_list:
  "case run_seq (spec_op job_name) [] ops of
     None \<Rightarrow> run_seq (run_op job_name) no_jobs ops = None
   | Some (js, rs) \<Rightarrow> \<exists>s. run_seq (run_op job_name) no_jobs ops = Some (s, rs) \<and> job_list s js"
proof -
  have "case run_seq (spec_op job_name) js ops of
     None \<Rightarrow> run_seq (run_op job_name) s ops = None
   | Some (js', rs) \<Rightarrow> \<exists>s'. run_seq (run_op job_name) s ops = Some (s', rs) \<and> job_list s' js'"
    if "job_list s js" for s js
    using that
  proof (induction ops arbitrary: s js)
    case (Cons op ops)
    show ?case
    proof (cases "spec_op job_name js op")
      case None
      then show ?thesis using run_op_refines [OF Cons.prems, of job_name op] by simp
    next
      case (Some q)
      then obtain js1 r s1 where "q = (js1, r)" "run_op job_name s op = Some (s1, r)" "job_list s1 js1"
        using run_op_refines [OF Cons.prems, of job_name op] by (cases q) auto
      then show ?thesis using Some Cons.IH [of s1 js1] by (auto split: option.splits)
    qed
  qed simp
  then show ?thesis using no_jobs_at by (auto simp: job_list_def)
qed

definition sample_submit :: "u32 \<Rightarrow> u32 \<Rightarrow> sim_event_submit_batch_job" where
  "sample_submit jid sid = \<lparr>s_wall_utime = 60000000, s_job_id = jid, s_job_sim_id = sid, s_argv = []\<rparr>"

text \<open>Two submissions whose ids are only known later, as the controller makes them.\<close>

definition sample_ops :: "job_op list" where
  "sample_ops = [Insert (sample_submit 0 7) 5, Insert (sample_submit 0 8) 6, Find 1001, Remove 1001]"

definition sample_name :: "u32 \<Rightarrow> string option" where
  "sample_name jid = (if jid = 1001 then Some ''jobid_7'' else None)"

lemma sample_sim_id: "get_job_sim_id ''jobid_7'' = Some 7"
  by (simp add: get_job_sim_id_def atoi_def strtol_def is_space_def is_digit_def digits_value_def
      digit_of_def to_int32_def signed_take_bit_def)

theorem active_jobs_refine_list_witness:
  "(\<exists>s. run_seq (run_op sample_name) no_jobs sample_ops =
      Some (s, [Inserted (Some (new_job (sample_submit 0 7) 5)), Inserted (Some (new_job (sample_submit 0 8) 6)),
                Found (Some ((new_job (sample_submit 0 7) 5)\<lparr>j_job_id := 1001\<rparr>)), Removed 1])
      \<and> job_list s [new_job (sample_submit 0 8) 6])
   \<and> run_seq (run_op sample_name) no_jobs (sample_ops @ [Find 1002]) = None"
  using active_jobs_refine_list [of sample_name sample_ops] active_jobs_refine_list [of sample_name "sample_ops @ [Find 1002]"]
  by (simp add: sample_ops_def spec_op_def new_job_def sample_submit_def find_effect_def find_result_def sample_name_def
        sample_sim_id)

text \<open>Insertion keeps a list that is sorted by job id sorted, and gives the new
  job its own object; removal reports whether there was a job with the id and
  frees exactly one object.\<close>

lemma active_jobs_insert_remove:
  assumes "job_list s js"
  shows "(\<exists>s'. sim_insert_sim_active_job s e now = Some (s', a_fresh s) \<and> job_at s' (a_fresh s) = new_job e now
            \<and> job_list s' (insert_job (new_job e now) js)
            \<and> (sorted (map j_job_id js) \<longrightarrow> sorted (map j_job_id (insert_job (new_job e now) js))))
    \<and> (\<exists>s'. sim_remove_active_sim_job s jid = Some (s', if \<exists>j \<in> set js. j_job_id j = jid then 1 else 0)
            \<and> job_list s' (del_first (\<lambda>j. j_job_id j = jid) js))"
  using insert_refines [OF assms, of e now] remove_refines [OF assms, of jid] insert_job_sorted [of js "new_job e now"]
  by blast

text \<open>Removing the last job of the list leaves \<^verbatim>\<open>sim_last_active_job\<close> pointing to
  the object that was just freed.\<close>

lemma remove_leaves_last_dangling:
  assumes "jobs_at s (as @ [p])" "a_last s = p" "j_job_id (job_at s p) = jid"
    and "\<forall>q \<in> set as. j_job_id (job_at s q) \<noteq> jid"
  shows "\<exists>s'. sim_remove_active_sim_job s jid = Some (s', 1) \<and> a_last s' = p \<and> a_heap s' p = None"
  using sim_remove_present [of s as p "[]" jid] assms by auto

end
