(* ===== verification/Stable_Queue.thy ===== *)
theory Stable_Queue
  imports Main "HOL-Library.Multiset"
begin

text \<open>
  The interface of a queue ordered by time in which items of one time keep
  their order of arrival, and what follows from it: filling the queue and
  emptying it is a stable sort.
\<close>

fun insert_after :: "('e \<Rightarrow> 'k :: linorder) \<Rightarrow> 'e \<Rightarrow> 'e list \<Rightarrow> 'e list" where
  "insert_after key e [] = [e]"
| "insert_after key e (x # xs) = (if key x \<le> key e then x # insert_after key e xs else e # x # xs)"

lemma insert_after_split:
  "insert_after key e xs = takeWhile (\<lambda>x. key x \<le> key e) xs @ e # dropWhile (\<lambda>x. key x \<le> key e) xs"
  by (induction xs) auto

lemma mset_insert_after [simp]: "mset (insert_after key e xs) = add_mset e (mset xs)"
  by (induction xs) auto

lemma set_insert_after [simp]: "set (insert_after key e xs) = insert e (set xs)"
  by (induction xs) auto

lemma sorted_insert_after_key: "sorted (map key xs) \<Longrightarrow> sorted (map key (insert_after key e xs))"
  by (induction xs) auto

lemma filter_insert_after:
  "sorted (map key xs) \<Longrightarrow>
     filter (\<lambda>x. k = key x) (insert_after key e xs) =
     filter (\<lambda>x. k = key x) xs @ (if key e = k then [e] else [])"
proof (induction xs)
  case (Cons x xs)
  have "\<not> key x \<le> key e \<Longrightarrow> key e = k \<Longrightarrow> filter (\<lambda>y. k = key y) (x # xs) = []"
    using Cons.prems by (auto simp: filter_empty_conv)
  then show ?case using Cons by auto
qed simp

lemma foldl_insert_after:
  "sorted (map key q) \<Longrightarrow>
     sorted (map key (foldl (\<lambda>q e. insert_after key e q) q es))
     \<and> mset (foldl (\<lambda>q e. insert_after key e q) q es) = mset q + mset es
     \<and> (\<forall>k. filter (\<lambda>x. k = key x) (foldl (\<lambda>q e. insert_after key e q) q es)
            = filter (\<lambda>x. k = key x) q @ filter (\<lambda>x. k = key x) es)"
  by (induction es arbitrary: q) (auto simp: sorted_insert_after_key filter_insert_after)

lemma foldl_insert_after_sort: "foldl (\<lambda>q e. insert_after key e q) [] es = sort_key key es"
  using foldl_insert_after [of key "[]" es]
  by (intro properties_for_sort_key [symmetric]) auto

fun push_all :: "('q \<Rightarrow> 'e \<Rightarrow> 'q option) \<Rightarrow> 'q \<Rightarrow> 'e list \<Rightarrow> 'q option" where
  "push_all push q [] = Some q"
| "push_all push q (e # es) = (case push q e of None \<Rightarrow> None | Some q' \<Rightarrow> push_all push q' es)"

fun pop_many :: "('q \<Rightarrow> ('q \<times> 'e) option) \<Rightarrow> 'q \<Rightarrow> nat \<Rightarrow> ('q \<times> 'e list) option" where
  "pop_many pop q 0 = Some (q, [])"
| "pop_many pop q (Suc n) =
     (case pop q of None \<Rightarrow> None
      | Some (q', e) \<Rightarrow> (case pop_many pop q' n of None \<Rightarrow> None | Some (q'', es) \<Rightarrow> Some (q'', e # es)))"

locale stable_queue =
  fixes holds :: "'q \<Rightarrow> 'e list \<Rightarrow> bool" and key :: "'e \<Rightarrow> 'k :: linorder" and ok :: "'e \<Rightarrow> bool"
    and push :: "'q \<Rightarrow> 'e \<Rightarrow> 'q option" and pop :: "'q \<Rightarrow> ('q \<times> 'e) option"
  assumes push: "holds q es \<Longrightarrow> ok e \<Longrightarrow> \<exists>q'. push q e = Some q' \<and> holds q' (insert_after key e es)"
    and pop: "holds q (e # es) \<Longrightarrow> \<exists>q'. pop q = Some (q', e) \<and> holds q' es"
    and ordered: "holds q es \<Longrightarrow> sorted (map key es)"
begin

lemma push_all_holds:
  "holds q es \<Longrightarrow> \<forall>e \<in> set new. ok e \<Longrightarrow>
     \<exists>q'. push_all push q new = Some q' \<and> holds q' (foldl (\<lambda>q e. insert_after key e q) es new)"
proof (induction new arbitrary: q es)
  case (Cons e new)
  obtain q1 where "push q e = Some q1" "holds q1 (insert_after key e es)"
    using push [OF Cons.prems(1)] Cons.prems(2) by auto
  then show ?case using Cons.IH [of q1] Cons.prems(2) by simp
qed simp

lemma pop_many_holds: "holds q (es @ rest) \<Longrightarrow> \<exists>q'. pop_many pop q (length es) = Some (q', es) \<and> holds q' rest"
proof (induction es arbitrary: q)
  case (Cons e es)
  obtain q1 where "pop q = Some (q1, e)" "holds q1 (es @ rest)" using pop [of q e "es @ rest"] Cons.prems by auto
  then show ?case using Cons.IH [of q1] by auto
qed simp

text \<open>Filling an empty queue and emptying it.\<close>

lemma drain_sorts:
  assumes "holds q []" "\<forall>e \<in> set es. ok e"
  shows "\<exists>q' q''. push_all push q es = Some q' \<and> pop_many pop q' (length es) = Some (q'', sort_key key es) \<and> holds q'' []"
proof -
  obtain q' where q': "push_all push q es = Some q'" "holds q' (sort_key key es)"
    using push_all_holds [OF assms] by (auto simp: foldl_insert_after_sort)
  then show ?thesis using pop_many_holds [of q' "sort_key key es" "[]"] by auto
qed

text \<open>A pushed item that is not earlier than the head does not change the next item to be taken.\<close>

lemma push_keeps_head:
  assumes "holds q (e # es)" "ok x" "key e \<le> key x"
  shows "\<exists>q'. push q x = Some q' \<and> holds q' (e # insert_after key x es)"
  using push [OF assms(1,2)] assms(3) by simp

end

end
