(* ===== verification/Sim_Events.thy ===== *)
theory Sim_Events
  imports Sim_Jobs Stable_Queue
begin

text \<open>
  The queue of simulation events of \<^verbatim>\<open>contribs/sim/sim_events.c\<close>, at the level of
  its heap objects: a doubly linked list between two sentinels at time zero and
  at the largest time, with a pointer to the next event. \<open>None\<close> is the end of the
  process by a bad dereference or by \<^verbatim>\<open>fatal\<close>.
\<close>

definition INT64_MAX :: int where
  "INT64_MAX = 2 ^ 63 - 1"

datatype sim_event_type =
    SIM_TIME_ZERO
  | SIM_TIME_INF
  | SIM_NODE_REGISTRATION
  | SIM_SUBMIT_BATCH_JOB
  | SIM_COMPLETE_BATCH_SCRIPT
  | SIM_EPILOG_COMPLETE
  | SIM_CANCEL_JOB
  | SIM_ACCOUNTING_UPDATE
  | SIM_PRIORITY_DECAY
  | SIM_SET_DB_INDEX

text \<open>What an untyped payload pointer refers to.\<close>

datatype payload =
    No_Payload
  | Submission sim_event_submit_batch_job
  | Job_Pointer ptr

record sim_event =
  e_when :: int
  e_next :: ptr
  e_previous :: ptr
  e_type :: sim_event_type
  e_payload :: payload

record event_list =
  ev_heap :: "sim_event heap"
  ev_first :: ptr
  ev_last :: ptr
  ev_next :: ptr
  n_noncyclic :: int
  n_cyclic :: int
  ev_fresh :: ptr

definition is_cyclic :: "sim_event_type \<Rightarrow> bool" where
  "is_cyclic t \<longleftrightarrow> t = SIM_PRIORITY_DECAY \<or> t = SIM_SET_DB_INDEX"

definition is_noncyclic :: "sim_event_type \<Rightarrow> bool" where
  "is_noncyclic t \<longleftrightarrow> \<not> is_cyclic t \<and> t \<noteq> SIM_TIME_ZERO \<and> t \<noteq> SIM_TIME_INF"

subsection \<open>Operations\<close>

partial_function (option) following_walk :: "sim_event heap \<Rightarrow> int \<Rightarrow> ptr \<Rightarrow> ptr option" where
  "following_walk h w p =
     Option.bind (deref h p) (\<lambda>n. if e_when n \<le> w then following_walk h w (e_next n) else Some p)"

definition sim_insert_event2 :: "event_list \<Rightarrow> ptr \<Rightarrow> event_list option" where
  "sim_insert_event2 s event = do {
     e \<leftarrow> deref (ev_heap s) event;
     following \<leftarrow> following_walk (ev_heap s) (e_when e) (ev_next s);
     f \<leftarrow> deref (ev_heap s) following;
     h1 \<leftarrow> store (ev_heap s) event (\<lambda>n. n\<lparr>e_previous := e_previous f, e_next := following\<rparr>);
     h2 \<leftarrow> store h1 (e_previous f) (\<lambda>n. n\<lparr>e_next := event\<rparr>);
     h3 \<leftarrow> store h2 following (\<lambda>n. n\<lparr>e_previous := event\<rparr>);
     nx \<leftarrow> deref h3 (ev_next s);
     Some (s\<lparr>ev_heap := h3,
             ev_next := (if e_when e < e_when nx then event else ev_next s),
             n_noncyclic := n_noncyclic s + (if is_noncyclic (e_type e) then 1 else 0),
             n_cyclic := n_cyclic s + (if is_cyclic (e_type e) then 1 else 0)\<rparr>)
   }"

definition sim_pop_next_event :: "event_list \<Rightarrow> (event_list \<times> ptr) option" where
  "sim_pop_next_event s = do {
     let event = ev_next s;
     e \<leftarrow> deref (ev_heap s) event;
     let s' = s\<lparr>ev_next := e_next e,
                n_noncyclic := n_noncyclic s - (if is_noncyclic (e_type e) then 1 else 0),
                n_cyclic := n_cyclic s - (if is_cyclic (e_type e) then 1 else 0)\<rparr>;
     if n_noncyclic s' < 0 then None else if n_cyclic s' < 0 then None else Some (s', event)
   }"

definition sim_insert_event :: "event_list \<Rightarrow> int \<Rightarrow> sim_event_type \<Rightarrow> payload \<Rightarrow> event_list option" where
  "sim_insert_event s w t pl =
     (let event = ev_fresh s
      in sim_insert_event2
           (s\<lparr>ev_heap := (ev_heap s)(event \<mapsto> \<lparr>e_when = w, e_next = 0, e_previous = 0, e_type = t, e_payload = pl\<rparr>),
              ev_fresh := event + 1\<rparr>) event)"

text \<open>The two sentinels, before any event of the input file.\<close>

definition sentinels :: event_list where
  "sentinels =
     \<lparr>ev_heap = [1 \<mapsto> \<lparr>e_when = 0, e_next = 2, e_previous = 0, e_type = SIM_TIME_ZERO, e_payload = No_Payload\<rparr>,
                 2 \<mapsto> \<lparr>e_when = INT64_MAX, e_next = 0, e_previous = 1, e_type = SIM_TIME_INF, e_payload = No_Payload\<rparr>],
      ev_first = 1, ev_last = 2, ev_next = 1, n_noncyclic = 0, n_cyclic = 0, ev_fresh = 3\<rparr>"

subsection \<open>The queue behind the links\<close>

interpretation event_links: linked e_next e_previous "\<lambda>p n. n\<lparr>e_next := p\<rparr>" "\<lambda>p n. n\<lparr>e_previous := p\<rparr>"
  by unfold_locales simp_all

definition plain_event :: "sim_event \<Rightarrow> sim_event" where
  "plain_event e = e\<lparr>e_next := 0, e_previous := 0\<rparr>"

definition event_at :: "event_list \<Rightarrow> ptr \<Rightarrow> sim_event" where
  "event_at s p = plain_event (the (ev_heap s p))"

lemma plain_event_simps [simp]:
  "e_when (plain_event e) = e_when e" "e_type (plain_event e) = e_type e"
  "e_payload (plain_event e) = e_payload e"
  "plain_event (e\<lparr>e_next := p\<rparr>) = plain_event e" "plain_event (e\<lparr>e_previous := p\<rparr>) = plain_event e"
  "plain_event (e\<lparr>e_previous := q, e_next := p\<rparr>) = plain_event e"
  by (simp_all add: plain_event_def)

definition count_type :: "(sim_event_type \<Rightarrow> bool) \<Rightarrow> sim_event list \<Rightarrow> int" where
  "count_type P es = int (length (filter (\<lambda>e. P (e_type e)) es))"

text \<open>
  The list holds the events already taken, then the pending ones, then the
  sentinel at infinity. The pending ones are sorted by time, and the counters
  count them.
\<close>

definition events_at :: "event_list \<Rightarrow> ptr list \<Rightarrow> ptr list \<Rightarrow> bool" where
  "events_at s past pend \<longleftrightarrow>
     dseg e_next e_previous (ev_heap s) 0 (ev_first s) (past @ pend @ [ev_last s]) 0
     \<and> distinct (past @ pend @ [ev_last s]) \<and> dom (ev_heap s) = set (past @ pend @ [ev_last s])
     \<and> (\<forall>p \<in> set (past @ pend @ [ev_last s]). p < ev_fresh s) \<and> 0 < ev_fresh s
     \<and> ev_next s = hd (pend @ [ev_last s])
     \<and> sorted (map (\<lambda>p. e_when (event_at s p)) pend)
     \<and> (\<forall>p \<in> set pend. e_when (event_at s p) < INT64_MAX) \<and> e_when (event_at s (ev_last s)) = INT64_MAX
     \<and> (past = [] \<longrightarrow> pend \<noteq> [] \<and> e_when (event_at s (hd pend)) = 0)
     \<and> n_noncyclic s = count_type is_noncyclic (map (event_at s) pend)
     \<and> n_cyclic s = count_type is_cyclic (map (event_at s) pend)"

lemma sentinels_at: "events_at sentinels [] [1]"
  by (simp add: events_at_def sentinels_def event_at_def plain_event_def INT64_MAX_def count_type_def
      is_noncyclic_def is_cyclic_def) auto

lemma following_walk_spec:
  "dseg e_next e_previous h pv p (as @ b # bs) q \<Longrightarrow>
     \<forall>x \<in> set as. e_when (the (h x)) \<le> w \<Longrightarrow> w < e_when (the (h b)) \<Longrightarrow>
     following_walk h w p = Some b"
proof (induction as arbitrary: pv p)
  case Nil
  then show ?case by (auto simp: following_walk.simps [of h w p] deref_def split: option.splits)
next
  case (Cons x xs)
  then obtain n where "h p = Some n" "x = p" "p \<noteq> 0" "dseg e_next e_previous h p (e_next n) (xs @ b # bs) q"
    by (auto split: option.splits)
  then show ?case using Cons by (simp add: following_walk.simps [of h w p] deref_def)
qed

lemma following_walk_none:
  "dseg e_next e_previous h pv p qs 0 \<Longrightarrow> \<forall>q \<in> set qs. e_when (the (h q)) \<le> w \<Longrightarrow> following_walk h w p = None"
proof (induction qs arbitrary: pv p)
  case Nil
  then show ?case by (simp add: following_walk.simps [of _ w 0] deref_def)
next
  case (Cons q qs)
  then obtain n where "h p = Some n" "q = p" "p \<noteq> 0" "dseg e_next e_previous h p (e_next n) qs 0"
    by (auto split: option.splits)
  then show ?case using Cons by (simp add: following_walk.simps [of h w p] deref_def)
qed

subsection \<open>Insertion\<close>

text \<open>The effect of the three writes on the heap, address by address.\<close>

definition spliced :: "sim_event heap \<Rightarrow> ptr \<Rightarrow> ptr \<Rightarrow> ptr \<Rightarrow> sim_event heap" where
  "spliced h x l b = (\<lambda>y. if y = b then Some ((the (h y))\<lparr>e_previous := x\<rparr>)
                          else if y = l then Some ((the (h y))\<lparr>e_next := x\<rparr>) else h y)"

lemma sim_insert_event2_run:
  assumes "deref (ev_heap s) x = Some e" "following_walk (ev_heap s) (e_when e) (ev_next s) = Some b"
    and "ev_heap s b = Some f" "b \<noteq> 0" "e_previous f = l" "l \<noteq> 0" "ev_heap s l = Some k" "l \<noteq> b" "x \<noteq> l" "x \<noteq> b"
    and "h0 = (ev_heap s)(x \<mapsto> e\<lparr>e_previous := l, e_next := b\<rparr>)"
    and "deref (spliced h0 x l b) (ev_next s) = Some nx"
  shows "sim_insert_event2 s x =
    Some (s\<lparr>ev_heap := spliced h0 x l b, ev_next := (if e_when e < e_when nx then x else ev_next s),
            n_noncyclic := n_noncyclic s + (if is_noncyclic (e_type e) then 1 else 0),
            n_cyclic := n_cyclic s + (if is_cyclic (e_type e) then 1 else 0)\<rparr>)"
proof -
  have x: "ev_heap s x = Some e" "x \<noteq> 0" using assms(1) by (auto simp: deref_def split: if_splits)
  have 1: "store (ev_heap s) x (\<lambda>n. n\<lparr>e_previous := l, e_next := b\<rparr>) = Some h0"
    using x by (simp add: store_some assms(11))
  have 2: "store h0 l (\<lambda>n. n\<lparr>e_next := x\<rparr>) = Some (h0(l \<mapsto> k\<lparr>e_next := x\<rparr>))"
    using assms(6,7,9,11) by (simp add: store_some)
  have "store (h0(l \<mapsto> k\<lparr>e_next := x\<rparr>)) b (\<lambda>n. n\<lparr>e_previous := x\<rparr>) =
      Some (h0(l \<mapsto> k\<lparr>e_next := x\<rparr>, b \<mapsto> f\<lparr>e_previous := x\<rparr>))"
    using assms(3,4,8,10,11) by (simp add: store_some)
  moreover have "h0(l \<mapsto> k\<lparr>e_next := x\<rparr>, b \<mapsto> f\<lparr>e_previous := x\<rparr>) = spliced h0 x l b"
    using assms(3,7,8,9,10,11) by (auto simp: spliced_def)
  ultimately have 3: "store (h0(l \<mapsto> k\<lparr>e_next := x\<rparr>)) b (\<lambda>n. n\<lparr>e_previous := x\<rparr>) = Some (spliced h0 x l b)" by simp
  have d: "deref (ev_heap s) b = Some f" using assms(3,4) by (simp add: deref_def)
  show ?thesis unfolding sim_insert_event2_def
    by (simp add: assms(1,2,5,12) d 1 2 3 split del: if_split)
qed

lemma event_at_spliced:
  "y \<in> dom (ev_heap s) \<Longrightarrow> y \<noteq> x \<Longrightarrow>
     plain_event (the (spliced ((ev_heap s)(x \<mapsto> e)) x l b y)) = event_at s y"
  by (auto simp: spliced_def event_at_def)

lemma sorted_after:
  "sorted (map f xs) \<Longrightarrow> x \<in> set (dropWhile (\<lambda>y. f y \<le> w) xs) \<Longrightarrow> (w :: 'a :: linorder) < f x"
proof (induction xs)
  case (Cons y ys)
  then show ?case by (cases "f y \<le> w") auto
qed simp

lemma sorted_insert_after:
  assumes "sorted (map f xs)"
  shows "sorted (map f (takeWhile (\<lambda>y. f y \<le> f x) xs @ x # dropWhile (\<lambda>y. f y \<le> f x) xs))"
proof -
  define as bs where "as = takeWhile (\<lambda>y. f y \<le> f x) xs" and "bs = dropWhile (\<lambda>y. f y \<le> f x) xs"
  have "map f as @ map f bs = map f xs" by (simp add: as_def bs_def flip: map_append)
  then have "sorted (map f as @ map f bs)" using assms by simp
  moreover have "\<forall>y \<in> set as. f y \<le> f x" by (auto simp: as_def dest: set_takeWhileD)
  moreover have "\<forall>y \<in> set bs. f x \<le> f y" using sorted_after [OF assms] less_imp_le by (fastforce simp: bs_def)
  ultimately show ?thesis unfolding as_def [symmetric] bs_def [symmetric] by (simp add: sorted_append)
qed

lemma sim_insert_event_links:
  fixes t :: sim_event_type and pl :: payload
  assumes inv: "events_at s past pend" and w: "0 \<le> w" "w < INT64_MAX"
  defines "x \<equiv> ev_fresh s" and "e \<equiv> \<lparr>e_when = w, e_next = 0, e_previous = 0, e_type = t, e_payload = pl\<rparr>"
  defines "as \<equiv> takeWhile (\<lambda>p. e_when (event_at s p) \<le> w) pend"
    and "bs \<equiv> dropWhile (\<lambda>p. e_when (event_at s p) \<le> w) pend"
  defines "l \<equiv> last_or 0 (past @ as)" and "b \<equiv> hd (bs @ [ev_last s])"
  defines "h0 \<equiv> (ev_heap s)(x \<mapsto> e\<lparr>e_previous := l, e_next := b\<rparr>)"
  shows "sim_insert_event s w t pl =
    Some (s\<lparr>ev_heap := spliced h0 x l b, ev_fresh := x + 1, ev_next := (if as = [] then x else ev_next s),
            n_noncyclic := n_noncyclic s + (if is_noncyclic t then 1 else 0),
            n_cyclic := n_cyclic s + (if is_cyclic t then 1 else 0)\<rparr>)"
    and "dseg e_next e_previous (spliced h0 x l b) 0 (ev_first s) (past @ as @ x # bs @ [ev_last s]) 0"
    and "l \<in> set (past @ as)" "b \<in> set (bs @ [ev_last s])"
proof -
  let ?L = "past @ pend @ [ev_last s]"
  have pend: "pend = as @ bs" by (simp add: as_def bs_def)
  have I: "dseg e_next e_previous (ev_heap s) 0 (ev_first s) ?L 0" "distinct ?L" "dom (ev_heap s) = set ?L"
    "x \<notin> set ?L" "x \<noteq> 0" "ev_next s = hd (pend @ [ev_last s])"
    "sorted (map (\<lambda>p. e_when (event_at s p)) pend)" "e_when (event_at s (ev_last s)) = INT64_MAX"
    "past = [] \<Longrightarrow> pend \<noteq> [] \<and> e_when (event_at s (hd pend)) = 0"
    using inv unfolding events_at_def x_def by auto
  have ne: "past @ as \<noteq> []" using I(9) w by (cases pend) (auto simp: as_def)
  then show l: "l \<in> set (past @ as)" unfolding l_def by (rule last_or_mem)
  show b: "b \<in> set (bs @ [ev_last s])" by (cases bs) (simp_all add: b_def)
  let ?h = "(ev_heap s)(x \<mapsto> e)"
  have D: "dseg e_next e_previous ?h 0 (ev_first s) ?L 0" using I(1,4) by simp
  obtain r where r: "bs @ [ev_last s] = b # r" by (cases bs) (simp_all add: b_def)
  have full: "?L = (past @ as) @ b # r" using pend r by simp
  have "dseg e_next e_previous ?h 0 (ev_first s) ((past @ as) @ b # r) 0" using D full by simp
  then obtain m where m: "dseg e_next e_previous ?h 0 (ev_first s) (past @ as) m"
    "dseg e_next e_previous ?h l m (b # r) 0" unfolding dseg_append l_def by blast
  have bL: "b \<in> set ?L" "b \<noteq> x" using b I(4) pend by auto
  have mb: "m = b" "b \<noteq> 0" using m(2) by simp_all
  obtain f where f: "ev_heap s b = Some f" "e_previous f = l" "b \<noteq> 0" "m = b"
    using m(2) mb bL(2) by (simp split: option.splits)
  have live: "\<exists>n. ev_heap s y = Some n" if "y \<in> set ?L" for y using that I(3) by blast
  have wb: "w < e_when (event_at s b)"
  proof (cases "bs = []")
    case True
    then have "b = ev_last s" by (simp add: b_def)
    then show ?thesis using I(8) w(2) by simp
  next
    case False
    then have "b \<in> set bs" by (simp add: b_def)
    then show ?thesis unfolding bs_def by (rule sorted_after [OF I(7)])
  qed
  have nextD: "dseg e_next e_previous ?h (last_or 0 past) (ev_next s) (as @ b # r) 0"
  proof -
    have "dseg e_next e_previous ?h 0 (ev_first s) (past @ (as @ b # r)) 0" using D full by simp
    then obtain m' where "dseg e_next e_previous ?h (last_or 0 past) m' (as @ b # r) 0"
      unfolding dseg_append by blast
    moreover have "ev_next s = hd (as @ b # r)" using I(6) pend r by simp
    ultimately show ?thesis by (cases as) auto
  qed
  have same: "the (?h y) = the (ev_heap s y)" if "y \<in> set ?L" for y using that I(4) by auto
  have walk: "following_walk ?h w (ev_next s) = Some b"
  proof (rule following_walk_spec [OF nextD])
    have le: "e_when (event_at s y) \<le> w" if "y \<in> set as" for y
      using that unfolding as_def by (rule set_takeWhileD [THEN conjunct2])
    show "\<forall>y \<in> set as. e_when (the (?h y)) \<le> w"
    proof
      fix y assume y: "y \<in> set as"
      then have "y \<in> set ?L" using pend by simp
      from same [OF this] le [OF y] show "e_when (the (?h y)) \<le> w" by (simp add: event_at_def)
    qed
    show "w < e_when (the (?h b))" using wb same [OF bL(1)] by (simp add: event_at_def)
  qed
  have lL: "l \<in> set ?L" using l pend by auto
  have dist: "x \<noteq> l" "x \<noteq> b" using lL bL I(4) by auto
  have "distinct ((past @ as) @ (bs @ [ev_last s]))" using I(2) pend by simp
  then have "l \<noteq> b" using l b unfolding distinct_append by blast
  note dist = this dist
  obtain k where k: "ev_heap s l = Some k" "l \<noteq> 0"
    using live [OF lL] dseg_nonnull [OF I(1) lL] by blast
  have nx: "ev_next s \<in> set ?L" "ev_next s \<noteq> 0"
    using I(6) dseg_nonnull [OF I(1), of "ev_next s"] by (cases pend; auto)+
  have h0: "h0 = ?h(x \<mapsto> e\<lparr>e_previous := l, e_next := b\<rparr>)" by (simp add: h0_def)
  obtain n where n: "spliced h0 x l b (ev_next s) = Some n" "e_when n = e_when (event_at s (ev_next s))"
  proof -
    obtain k0 where "ev_heap s (ev_next s) = Some k0" using live [OF nx(1)] by blast
    moreover have "ev_next s \<noteq> x" using nx(1) I(4) by blast
    ultimately show ?thesis
      using that by (cases "ev_next s = b"; cases "ev_next s = l"; simp add: spliced_def h0_def event_at_def)
  qed
  have cond: "w < e_when n \<longleftrightarrow> as = []"
  proof (cases pend)
    case Nil
    then show ?thesis using n(2) I(6,8) w(2) by (simp add: as_def)
  next
    case (Cons p ps)
    then show ?thesis using n(2) I(6) by (simp add: as_def not_le)
  qed
  show "sim_insert_event s w t pl =
    Some (s\<lparr>ev_heap := spliced h0 x l b, ev_fresh := x + 1, ev_next := (if as = [] then x else ev_next s),
            n_noncyclic := n_noncyclic s + (if is_noncyclic t then 1 else 0),
            n_cyclic := n_cyclic s + (if is_cyclic t then 1 else 0)\<rparr>)"
    using sim_insert_event2_run [of "s\<lparr>ev_heap := ?h, ev_fresh := x + 1\<rparr>" x e b f l k h0 n]
      I(5) walk f k dist h0 n nx cond
    by (simp add: sim_insert_event_def Let_def x_def [symmetric] e_def [symmetric] deref_def)
      (simp add: e_def)
  have seg: "dseg e_next e_previous h0 0 (ev_first s) (past @ as) b"
    "dseg e_next e_previous h0 (last_or 0 (past @ as)) b (bs @ [ev_last s]) 0"
  proof -
    have "x \<notin> set (past @ as)" "x \<notin> set (bs @ [ev_last s])" using I(4) pend by auto
    then show "dseg e_next e_previous h0 0 (ev_first s) (past @ as) b"
      "dseg e_next e_previous h0 (last_or 0 (past @ as)) b (bs @ [ev_last s]) 0"
      using m unfolding h0 mb(1) l_def [symmetric] r [symmetric] by (metis dseg_upd)+
  qed
  let ?e = "e\<lparr>e_previous := l, e_next := b\<rparr>"
  have d: "distinct ((past @ as) @ x # bs @ [ev_last s])" using I(2,4) pend by auto
  have hx: "h0 x = Some ?e" by (simp add: h0_def)
  have en: "e_next ?e = b" "e_previous ?e = last_or 0 (past @ as)" by (simp_all add: l_def)
  have g: "spliced h0 x l b y = (if bs @ [ev_last s] \<noteq> [] \<and> y = b then Some ((the (h0 y))\<lparr>e_previous := x\<rparr>)
      else if past @ as \<noteq> [] \<and> y = last_or 0 (past @ as) then Some ((the (h0 y))\<lparr>e_next := x\<rparr>) else h0 y)" for y
    using ne by (simp add: spliced_def l_def)
  have "dseg e_next e_previous (spliced h0 x l b) 0 (if past @ as = [] then x else ev_first s)
      ((past @ as) @ x # bs @ [ev_last s]) 0"
    by (rule event_links.splice_at [OF seg d I(5) hx en g])
  then show "dseg e_next e_previous (spliced h0 x l b) 0 (ev_first s) (past @ as @ x # bs @ [ev_last s]) 0"
    using ne by (simp only: if_False append_assoc)
qed

subsection \<open>Refinement of the stable queue\<close>

definition new_event :: "int \<Rightarrow> sim_event_type \<Rightarrow> payload \<Rightarrow> sim_event" where
  "new_event w t pl = \<lparr>e_when = w, e_next = 0, e_previous = 0, e_type = t, e_payload = pl\<rparr>"

definition pending :: "event_list \<Rightarrow> sim_event list \<Rightarrow> bool" where
  "pending s es \<longleftrightarrow> (\<exists>past pend. events_at s past pend \<and> es = map (event_at s) pend)"

lemma count_type_insert_after:
  "count_type P (insert_after key e es) = count_type P es + (if P (e_type e) then 1 else 0)"
  by (induction es) (auto simp: count_type_def)

lemma insert_refines_queue:
  assumes "pending s es" "0 \<le> w" "w < INT64_MAX"
  shows "\<exists>s'. sim_insert_event s w t pl = Some s' \<and> pending s' (insert_after e_when (new_event w t pl) es)"
proof -
  obtain past pend where inv: "events_at s past pend" and es: "es = map (event_at s) pend"
    using assms(1) by (auto simp: pending_def)
  define x as bs where "x = ev_fresh s" and "as = takeWhile (\<lambda>p. e_when (event_at s p) \<le> w) pend"
    and "bs = dropWhile (\<lambda>p. e_when (event_at s p) \<le> w) pend"
  define l b where "l = last_or 0 (past @ as)" and "b = hd (bs @ [ev_last s])"
  define h where "h = spliced ((ev_heap s)(x \<mapsto> (new_event w t pl)\<lparr>e_previous := l, e_next := b\<rparr>)) x l b"
  note L = sim_insert_event_links(1,2) [OF inv assms(2,3), where t = t and pl = pl, folded x_def as_def bs_def,
      folded l_def b_def new_event_def, folded h_def]
    sim_insert_event_links(3,4) [OF inv assms(2,3), folded x_def as_def bs_def, folded l_def b_def]
  let ?s = "s\<lparr>ev_heap := h, ev_fresh := x + 1, ev_next := (if as = [] then x else ev_next s),
            n_noncyclic := n_noncyclic s + (if is_noncyclic t then 1 else 0),
            n_cyclic := n_cyclic s + (if is_cyclic t then 1 else 0)\<rparr>"
  have pend: "pend = as @ bs" by (simp add: as_def bs_def)
  have I: "distinct (past @ pend @ [ev_last s])" "dom (ev_heap s) = set (past @ pend @ [ev_last s])"
    "\<forall>p \<in> set (past @ pend @ [ev_last s]). p < x" "0 < x"
    "ev_next s = hd (pend @ [ev_last s])" "sorted (map e_when es)"
    "\<forall>p \<in> set pend. e_when (event_at s p) < INT64_MAX" "e_when (event_at s (ev_last s)) = INT64_MAX"
    "past = [] \<longrightarrow> pend \<noteq> [] \<and> e_when (event_at s (hd pend)) = 0"
    "n_noncyclic s = count_type is_noncyclic es" "n_cyclic s = count_type is_cyclic es"
    using inv by (auto simp: events_at_def x_def es o_def)
  have xn: "x \<notin> set (past @ pend @ [ev_last s])" using I(3) by auto
  have old: "event_at ?s p = event_at s p" if "p \<in> set (past @ pend @ [ev_last s])" for p
  proof -
    have "p \<in> dom (ev_heap s)" "p \<noteq> x" using that I(2) xn by auto
    then show ?thesis using event_at_spliced [of p s x] by (simp add: event_at_def h_def)
  qed
  have new: "event_at ?s x = new_event w t pl"
    using L(3,4) xn pend by (auto simp: event_at_def h_def spliced_def plain_event_def new_event_def)
  have list: "map (event_at ?s) (as @ x # bs) = insert_after e_when (new_event w t pl) es"
  proof -
    have "map (event_at ?s) as = map (event_at s) as" "map (event_at ?s) bs = map (event_at s) bs"
      using old pend by auto
    then show ?thesis using new
      by (simp add: es insert_after_split takeWhile_map dropWhile_map o_def as_def bs_def new_event_def)
  qed
  have "events_at ?s past (as @ x # bs)" unfolding events_at_def
  proof (intro conjI)
    show "dseg e_next e_previous (ev_heap ?s) 0 (ev_first ?s) (past @ (as @ x # bs) @ [ev_last ?s]) 0"
      using L(2) by simp
    show "distinct (past @ (as @ x # bs) @ [ev_last ?s])" using I(1) xn pend by auto
    have "dom h = insert x (dom (ev_heap s))" using L(3,4) I(2) pend by (auto simp: h_def spliced_def dom_def)
    then show "dom (ev_heap ?s) = set (past @ (as @ x # bs) @ [ev_last ?s])" using I(2) pend by auto
    show "\<forall>p \<in> set (past @ (as @ x # bs) @ [ev_last ?s]). p < ev_fresh ?s" using I(3) pend by (auto simp: less_Suc_eq)
    show "ev_next ?s = hd ((as @ x # bs) @ [ev_last ?s])" using I(5) pend by (cases as) auto
    have "sorted (map e_when (map (event_at ?s) (as @ x # bs)))"
      unfolding list by (rule sorted_insert_after_key [OF I(6)])
    then show "sorted (map (\<lambda>p. e_when (event_at ?s p)) (as @ x # bs))" by (simp add: o_def)
    show "\<forall>p \<in> set (as @ x # bs). e_when (event_at ?s p) < INT64_MAX"
      using I(7) old new pend assms(3) by (auto simp: new_event_def)
    show "e_when (event_at ?s (ev_last ?s)) = INT64_MAX" using I(8) old [of "ev_last s"] by simp
    have "past = [] \<Longrightarrow> as \<noteq> [] \<and> hd as = hd pend" using I(9) assms(2) by (cases pend) (auto simp: as_def)
    then show "past = [] \<longrightarrow> as @ x # bs \<noteq> [] \<and> e_when (event_at ?s (hd (as @ x # bs))) = 0"
      using I(9) old [of "hd pend"] by (cases as) auto
    show "n_noncyclic ?s = count_type is_noncyclic (map (event_at ?s) (as @ x # bs))"
      unfolding list using I(10) by (simp add: count_type_insert_after new_event_def)
    show "n_cyclic ?s = count_type is_cyclic (map (event_at ?s) (as @ x # bs))"
      unfolding list using I(11) by (simp add: count_type_insert_after new_event_def)
  qed simp
  then show ?thesis using L(1) list unfolding pending_def by metis
qed

lemma pop_refines_queue:
  assumes "pending s (e # es)"
  shows "\<exists>s' p. sim_pop_next_event s = Some (s', p) \<and> p = ev_next s \<and> event_at s' p = e \<and> pending s' es"
proof -
  obtain past p pend where inv: "events_at s past (p # pend)" and e: "e = event_at s p" "es = map (event_at s) pend"
    using assms by (auto simp: pending_def)
  let ?L = "past @ (p # pend) @ [ev_last s]"
  have I: "dseg e_next e_previous (ev_heap s) 0 (ev_first s) ?L 0" "ev_next s = p"
    "n_noncyclic s = count_type is_noncyclic (e # es)" "n_cyclic s = count_type is_cyclic (e # es)"
    using inv e by (auto simp: events_at_def)
  obtain n where n: "ev_heap s p = Some n" "p \<noteq> 0" using dseg_nonnull [OF I(1), of p] by auto
  have nx: "e_next n = hd (pend @ [ev_last s])"
    using I(1) n by (cases pend) (auto simp: dseg_append split: option.splits)
  let ?s = "s\<lparr>ev_next := e_next n, n_noncyclic := n_noncyclic s - (if is_noncyclic (e_type n) then 1 else 0),
              n_cyclic := n_cyclic s - (if is_cyclic (e_type n) then 1 else 0)\<rparr>"
  have ty: "e_type n = e_type e" using n e by (simp add: event_at_def)
  have at: "event_at ?s = event_at s" by (simp add: event_at_def fun_eq_iff)
  have cnt: "n_noncyclic ?s = count_type is_noncyclic es" "n_cyclic ?s = count_type is_cyclic es"
    using I(3,4) ty by (simp_all add: count_type_def)
  have "sim_pop_next_event s = Some (?s, p)"
    using n I(2) cnt by (simp add: sim_pop_next_event_def deref_def count_type_def Let_def)
  moreover have "events_at ?s (past @ [p]) pend"
    using inv nx cnt e(2) at unfolding events_at_def by simp
  ultimately show ?thesis using I(2) e at unfolding pending_def by force
qed

lemma pending_sorted: "pending s es \<Longrightarrow> sorted (map e_when es)"
  by (auto simp: pending_def events_at_def o_def)

lemma pending_next:
  "pending s es \<Longrightarrow>
     \<exists>n. deref (ev_heap s) (ev_next s) = Some n \<and> e_when n = (case es of [] \<Rightarrow> INT64_MAX | e # _ \<Rightarrow> e_when e)"
proof -
  assume "pending s es"
  then obtain past pend where inv: "events_at s past pend" and es: "es = map (event_at s) pend"
    by (auto simp: pending_def)
  have I: "dseg e_next e_previous (ev_heap s) 0 (ev_first s) (past @ pend @ [ev_last s]) 0"
    "ev_next s = hd (pend @ [ev_last s])" "e_when (event_at s (ev_last s)) = INT64_MAX"
    using inv by (auto simp: events_at_def)
  have "ev_next s \<in> set (past @ pend @ [ev_last s])" using I(2) by (cases pend) auto
  from dseg_nonnull [OF I(1) this] obtain n where n: "ev_heap s (ev_next s) = Some n" "ev_next s \<noteq> 0" by blast
  then have "e_when n = e_when (event_at s (ev_next s))" by (simp add: event_at_def)
  then show ?thesis using n I(2,3) es by (cases pend) (auto simp: deref_def)
qed

text \<open>
  The operations in the shape of the queue interface. An event of the file or
  of a handler is acceptable when its time is not negative and below the time
  of the last sentinel.
\<close>

definition event_push :: "event_list \<Rightarrow> sim_event \<Rightarrow> event_list option" where
  "event_push s e = sim_insert_event s (e_when e) (e_type e) (e_payload e)"

definition event_pop :: "event_list \<Rightarrow> (event_list \<times> sim_event) option" where
  "event_pop s = (case sim_pop_next_event s of None \<Rightarrow> None | Some (s', p) \<Rightarrow> Some (s', event_at s' p))"

definition acceptable :: "sim_event \<Rightarrow> bool" where
  "acceptable e \<longleftrightarrow> 0 \<le> e_when e \<and> e_when e < INT64_MAX \<and> e_next e = 0 \<and> e_previous e = 0"

lemma new_event_self: "acceptable e \<Longrightarrow> new_event (e_when e) (e_type e) (e_payload e) = e"
  by (cases e) (simp add: acceptable_def new_event_def)

interpretation eq: stable_queue pending e_when acceptable event_push event_pop
proof unfold_locales
  fix q es e assume "pending q es" "acceptable e"
  then show "\<exists>q'. event_push q e = Some q' \<and> pending q' (insert_after e_when e es)"
    using insert_refines_queue [of q es "e_when e" "e_type e" "e_payload e"] new_event_self [of e]
    by (simp add: event_push_def acceptable_def)
next
  fix q e es assume "pending q (e # es)"
  then show "\<exists>q'. event_pop q = Some (q', e) \<and> pending q' es"
    using pop_refines_queue [of q e es] by (auto simp: event_pop_def)
qed (rule pending_sorted)

lemma sentinels_pending: "pending sentinels [event_at sentinels 1]"
  unfolding pending_def using sentinels_at by (intro exI [of _ "[]"] exI [of _ "[1]"]) simp

lemma empty_queue:
  "\<exists>s. sim_pop_next_event sentinels = Some (s, 1) \<and> pending s []"
proof -
  from pop_refines_queue [OF sentinels_pending] show ?thesis by (auto simp: sentinels_def)
qed

subsection \<open>Properties\<close>

text \<open>C14: Inserting an event into the linked list puts it behind every pending
  event of the same or an earlier time and before the later ones, and taking
  the next event returns the earliest one; the counters of cyclic and other
  events always count the pending list, so the check for negative counters
  never stops the process.\<close>

theorem event_list_refines_queue:
  assumes "pending s es" "0 \<le> w" "w < INT64_MAX"
  shows "(\<exists>s'. sim_insert_event s w t pl = Some s' \<and> pending s' (insert_after e_when (new_event w t pl) es)
           \<and> n_noncyclic s' = count_type is_noncyclic (insert_after e_when (new_event w t pl) es)
           \<and> n_cyclic s' = count_type is_cyclic (insert_after e_when (new_event w t pl) es))
    \<and> (es \<noteq> [] \<longrightarrow> (\<exists>s' p. sim_pop_next_event s = Some (s', p) \<and> event_at s' p = hd es \<and> pending s' (tl es)))"
proof -
  have cnt: "n_noncyclic s' = count_type is_noncyclic es' \<and> n_cyclic s' = count_type is_cyclic es'"
    if "pending s' es'" for s' es' using that by (auto simp: pending_def events_at_def)
  have "es \<noteq> [] \<Longrightarrow> \<exists>s' p. sim_pop_next_event s = Some (s', p) \<and> event_at s' p = hd es \<and> pending s' (tl es)"
    using pop_refines_queue [of s "hd es" "tl es"] assms(1) by auto
  then show ?thesis using insert_refines_queue [OF assms, of t pl] cnt by blast
qed

theorem event_list_refines_queue_witness:
  "\<exists>s'. sim_insert_event sentinels 5 SIM_NODE_REGISTRATION No_Payload = Some s'
        \<and> pending s' [event_at sentinels 1, new_event 5 SIM_NODE_REGISTRATION No_Payload] \<and> n_noncyclic s' = 1"
proof -
  note p = sentinels_pending
  have w: "e_when (event_at sentinels 1) = 0" "e_type (event_at sentinels 1) = SIM_TIME_ZERO"
    by (simp_all add: event_at_def sentinels_def)
  have m: "(5 :: int) < INT64_MAX" by (simp add: INT64_MAX_def)
  show ?thesis
    using event_list_refines_queue [OF p _ m, of SIM_NODE_REGISTRATION No_Payload] w
    by (auto simp: new_event_def count_type_def is_noncyclic_def is_cyclic_def)
qed

text \<open>C3: Whatever the order in which events are put into the empty queue, they
  come out sorted by time, and events of one time in the order in which they
  were put in: filling and emptying the linked list is the stable sort.\<close>

theorem event_queue_stable_sort:
  assumes "pending s []" "\<forall>e \<in> set es. acceptable e"
  shows "\<exists>s' s''. push_all event_push s es = Some s' \<and> pop_many event_pop s' (length es) = Some (s'', sort_key e_when es)
           \<and> pending s'' []"
  by (rule eq.drain_sorts [OF assms])

definition sample_events :: "sim_event list" where
  "sample_events = [new_event 9 SIM_SUBMIT_BATCH_JOB No_Payload, new_event 4 SIM_NODE_REGISTRATION No_Payload,
                    new_event 4 SIM_SET_DB_INDEX No_Payload]"

theorem event_queue_stable_sort_witness:
  "\<exists>s s' s''. sim_pop_next_event sentinels = Some (s, 1) \<and> push_all event_push s sample_events = Some s'
     \<and> pop_many event_pop s' 3 = Some (s'', [new_event 4 SIM_NODE_REGISTRATION No_Payload,
           new_event 4 SIM_SET_DB_INDEX No_Payload, new_event 9 SIM_SUBMIT_BATCH_JOB No_Payload])"
proof -
  obtain s where s: "sim_pop_next_event sentinels = Some (s, 1)" "pending s []" using empty_queue by blast
  have "\<forall>e \<in> set sample_events. acceptable e"
    by (simp add: sample_events_def acceptable_def new_event_def INT64_MAX_def)
  moreover have "length sample_events = 3" "sort_key e_when sample_events =
      [new_event 4 SIM_NODE_REGISTRATION No_Payload, new_event 4 SIM_SET_DB_INDEX No_Payload,
       new_event 9 SIM_SUBMIT_BATCH_JOB No_Payload]"
    by (simp_all add: sample_events_def new_event_def)
  ultimately show ?thesis using event_queue_stable_sort [OF s(2), of sample_events] s(1) by metis
qed

text \<open>C33: An event at the largest 64-bit time cannot be queued: the search for its
  place walks past the last sentinel and dereferences its null link.\<close>

theorem insert_at_infinity_fails:
  assumes "pending s es" "INT64_MAX \<le> w"
  shows "sim_insert_event s w t pl = None"
proof -
  obtain past pend where inv: "events_at s past pend" using assms(1) by (auto simp: pending_def)
  let ?h = "(ev_heap s)(ev_fresh s \<mapsto> \<lparr>e_when = w, e_next = 0, e_previous = 0, e_type = t, e_payload = pl\<rparr>)"
  have I: "dseg e_next e_previous (ev_heap s) 0 (ev_first s) (past @ pend @ [ev_last s]) 0"
    "ev_next s = hd (pend @ [ev_last s])" "ev_fresh s \<notin> set (past @ pend @ [ev_last s])"
    "\<forall>p \<in> set (pend @ [ev_last s]). e_when (event_at s p) \<le> w"
    using inv assms(2) by (auto simp: events_at_def)
  have D: "dseg e_next e_previous ?h 0 (ev_first s) (past @ pend @ [ev_last s]) 0" using I(1,3) by simp
  then obtain m where m: "dseg e_next e_previous ?h (last_or 0 past) m (pend @ [ev_last s]) 0"
    unfolding dseg_append [of _ _ _ _ _ past] by blast
  have "m = ev_next s" using dseg_head [OF m] I(2) by simp
  have "\<forall>q \<in> set (pend @ [ev_last s]). e_when (the (?h q)) \<le> w"
  proof
    fix q assume q: "q \<in> set (pend @ [ev_last s])"
    then have "q \<noteq> ev_fresh s" using I(3) by auto
    then show "e_when (the (?h q)) \<le> w" using I(4) q by (auto simp: event_at_def)
  qed
  with m have "following_walk ?h w m = None" by (rule following_walk_none)
  then have "following_walk ?h w (ev_next s) = None" using \<open>m = ev_next s\<close> by (simp only:)
  then show ?thesis by (simp add: sim_insert_event_def sim_insert_event2_def Let_def Option.bind_eq_None_conv deref_def)
qed

theorem insert_at_infinity_fails_witness:
  "sim_insert_event sentinels INT64_MAX SIM_COMPLETE_BATCH_SCRIPT No_Payload = None"
  by (rule insert_at_infinity_fails [OF sentinels_pending]) simp

end
