(* ===== verification/Sim_Handlers.thy ===== *)
theory Sim_Handlers
  imports Sim_Events Bitmap
begin

text \<open>
  The handlers of the simulator: what \<^verbatim>\<open>contribs/sim\<close> does when a job is
  submitted, launched, reaches its time limit, completes, or has run its epilog
  (\<^verbatim>\<open>sim_events.c\<close>, \<^verbatim>\<open>slurmctld_controller.c\<close>, \<^verbatim>\<open>slurmctld_agent.c\<close> and the
  submission loop of \<^verbatim>\<open>sim_sbatch.c\<close>).

  The scheduler daemon itself is a parameter: its state has the type \<open>'w\<close>, and
  the record \<open>ctl\<close> holds the functions of it that the handlers call. Those that
  may call back into the simulator (for example by queueing a launch request)
  work on the whole state \<open>'w sim\<close>. \<open>None\<close> is the end of the process by an error.
\<close>

subsection \<open>State\<close>

record 'w sim =
  evs :: event_list
  act :: active_jobs
  world :: 'w
  rt_events :: "nat \<Rightarrow> int"
  rt_events_post_wait :: "nat \<Rightarrow> int"
  run_scheduler :: bool

text \<open>
  The fields of a job record of the daemon that the simulator reads, and the
  configuration of the simulator.
\<close>

record job_record =
  jr_job_id :: u32
  jr_name :: string
  jr_user_id :: u32
  jr_state :: u32
  jr_node_bitmap_cg :: "bitstr option"
  jr_node_bitmap :: "bitstr option"
  jr_start_time :: int

record sim_conf =
  microseconds_before_first_job :: int
  time_after_all_events_done :: int
  first_job_delay :: int
  comp_job_delay :: int
  timelimit_delay :: int

definition IS_JOB_COMPLETING :: "job_record \<Rightarrow> bool" where
  "IS_JOB_COMPLETING j \<longleftrightarrow> jr_state j AND 0x8000 \<noteq> 0"

definition IS_JOB_RUNNING :: "job_record \<Rightarrow> bool" where
  "IS_JOB_RUNNING j \<longleftrightarrow> jr_state j AND 0xff = 1"

text \<open>
  \<^item> \<open>c_utime\<close>, \<open>c_set_time\<close>: \<^verbatim>\<open>get_sim_utime\<close> (a later reading may differ, so the
    clock is read from and returned in the state) and \<^verbatim>\<open>set_sim_time\<close>;
  \<^item> \<open>c_find_job\<close>: \<^verbatim>\<open>find_job_record\<close>; \<open>c_node_table\<close>: \<^verbatim>\<open>node_record_table_ptr\<close>,
    where \<open>None\<close> is a blank entry;
  \<^item> \<open>c_end_batch_step\<close>: the completion of the batch step's record;
  \<^item> \<open>c_job_complete\<close>, \<open>c_job_epilog_complete\<close>: \<^verbatim>\<open>job_complete\<close> and
    \<^verbatim>\<open>job_epilog_complete\<close> with their results;
  \<^item> \<open>c_schedule\<close>, \<open>c_queue_job_scheduler\<close>, \<open>c_save_state\<close>: \<^verbatim>\<open>schedule(false)\<close>,
    \<^verbatim>\<open>queue_job_scheduler\<close>, the two functions that mark the state for saving;
  \<^item> \<open>c_agent_count\<close>, \<open>c_defer_sched\<close>: the number of agents and whether the
    scheduler parameters contain \<^verbatim>\<open>defer\<close>;
  \<^item> \<open>c_sbatch_options\<close>: the option processing of \<^verbatim>\<open>sbatch\<close>, which may end the
    submission; \<open>c_submit\<close>: the submission request, with its return code, the
    job id of its response, if any, and whether the error is one to retry;
    \<open>c_sleep\<close>: \<^verbatim>\<open>sleep\<close>; \<open>c_post_submit\<close>: the messages, the filters and the wait
    that follow a submission;
  \<^item> \<open>c_agent_queue\<close>: the daemon's own \<^verbatim>\<open>agent_queue_request\<close>.
\<close>

datatype agent_msg =
    REQUEST_BATCH_JOB_LAUNCH u32
  | REQUEST_KILL_TIMELIMIT u32
  | REQUEST_TERMINATE_JOB
  | REQUEST_NODE_REGISTRATION_STATUS
  | REQUEST_PING
  | REQUEST_HEALTH_CHECK
  | REQUEST_ACCT_GATHER_UPDATE
  | REQUEST_PARTITION_INFO
  | REQUEST_NODE_INFO
  | REQUEST_SUBMIT_BATCH_JOB
  | OTHER_REQUEST nat

record 'w ctl =
  c_conf :: sim_conf
  c_utime :: "'w \<Rightarrow> int \<times> 'w"
  c_set_time :: "int \<Rightarrow> 'w \<Rightarrow> 'w"
  c_find_job :: "'w \<Rightarrow> u32 \<Rightarrow> job_record option"
  c_node_table :: "'w \<Rightarrow> string option list"
  c_end_batch_step :: "u32 \<Rightarrow> 'w sim \<Rightarrow> 'w sim option"
  c_job_complete :: "u32 \<Rightarrow> u32 \<Rightarrow> 'w sim \<Rightarrow> ('w sim \<times> int) option"
  c_job_epilog_complete :: "u32 \<Rightarrow> string \<Rightarrow> 'w sim \<Rightarrow> ('w sim \<times> bool) option"
  c_schedule :: "'w sim \<Rightarrow> 'w sim option"
  c_queue_job_scheduler :: "'w sim \<Rightarrow> 'w sim option"
  c_save_state :: "'w sim \<Rightarrow> 'w sim option"
  c_agent_count :: "'w \<Rightarrow> int"
  c_defer_sched :: "'w \<Rightarrow> bool"
  c_sbatch_options :: "string list \<Rightarrow> 'w sim \<Rightarrow> ('w sim \<times> bool) option"
  c_submit :: "string list \<Rightarrow> 'w sim \<Rightarrow> ('w sim \<times> int \<times> u32 option \<times> bool) option"
  c_sleep :: "nat \<Rightarrow> 'w sim \<Rightarrow> 'w sim option"
  c_post_submit :: "u32 \<Rightarrow> 'w sim \<Rightarrow> 'w sim option"
  c_agent_queue :: "agent_msg \<Rightarrow> 'w sim \<Rightarrow> 'w sim option"

definition get_sim_utime :: "'w ctl \<Rightarrow> 'w sim \<Rightarrow> 'w sim \<times> int" where
  "get_sim_utime c s = (let (t, w) = c_utime c (world s) in (s\<lparr>world := w\<rparr>, t))"

subsection \<open>Jobs and events\<close>

text \<open>The look-up and the removal of an active job, lifted to the whole state.\<close>

definition find_active :: "'w ctl \<Rightarrow> u32 \<Rightarrow> 'w sim \<Rightarrow> ('w sim \<times> ptr) option" where
  "find_active c jid s = do {
     (a, p) \<leftarrow> sim_find_active_sim_job (\<lambda>i. map_option jr_name (c_find_job c (world s) i)) (act s) jid;
     Some (s\<lparr>act := a\<rparr>, p) }"

definition remove_active :: "u32 \<Rightarrow> 'w sim \<Rightarrow> 'w sim option" where
  "remove_active jid s = do {
     (a, n) \<leftarrow> sim_remove_active_sim_job (act s) jid;
     Some (s\<lparr>act := a\<rparr>) }"

definition insert_at :: "int \<Rightarrow> sim_event_type \<Rightarrow> payload \<Rightarrow> 'w sim \<Rightarrow> 'w sim option" where
  "insert_at w t pl s = do {
     l \<leftarrow> sim_insert_event (evs s) w t pl;
     Some (s\<lparr>evs := l\<rparr>) }"

definition set_job :: "ptr \<Rightarrow> (sim_job \<Rightarrow> sim_job) \<Rightarrow> 'w sim \<Rightarrow> 'w sim option" where
  "set_job p f s = do {
     h \<leftarrow> store (a_heap (act s)) p f;
     Some (s\<lparr>act := (act s)\<lparr>a_heap := h\<rparr>\<rparr>) }"

definition usec_year :: int where
  "usec_year = 365 * 24 * 3600 * 1000000"

definition sim_insert_event_comp_job :: "'w ctl \<Rightarrow> u32 \<Rightarrow> 'w sim \<Rightarrow> 'w sim option" where
  "sim_insert_event_comp_job c jid s = do {
     (s, p) \<leftarrow> find_active c jid s;
     if p = 0 then Some s
     else do {
       job \<leftarrow> deref (a_heap (act s)) p;
       s \<leftarrow> (if j_start_time job = 0
              then let (s, t) = get_sim_utime c s in set_job p (\<lambda>j. j\<lparr>j_start_time := t\<rparr>) s
              else Some s);
       job \<leftarrow> deref (a_heap (act s)) p;
       if j_walltime job < usec_year \<and> 0 \<le> j_walltime job
       then insert_at (j_start_time job + j_walltime job) SIM_COMPLETE_BATCH_SCRIPT (Job_Pointer p) s
       else Some s } }"

definition sim_job_requested_kill_timelimit :: "'w ctl \<Rightarrow> u32 \<Rightarrow> 'w sim \<Rightarrow> 'w sim option" where
  "sim_job_requested_kill_timelimit c jid s = do {
     (s, p) \<leftarrow> find_active c jid s;
     if p = 0 then Some s
     else do {
       job \<leftarrow> deref (a_heap (act s)) p;
       if j_requested_kill_timelimit job \<noteq> 0 then Some s
       else do {
         s \<leftarrow> set_job p (\<lambda>j. j\<lparr>j_requested_kill_timelimit := 1\<rparr>) s;
         let (s, t) = get_sim_utime c s;
         insert_at (t + timelimit_delay (c_conf c)) SIM_COMPLETE_BATCH_SCRIPT (Job_Pointer p) s } } }"

definition sim_insert_event_rpc_epilog_complete :: "'w ctl \<Rightarrow> u32 \<Rightarrow> 'w sim \<Rightarrow> 'w sim option" where
  "sim_insert_event_rpc_epilog_complete c jid s = do {
     (s, p) \<leftarrow> find_active c jid s;
     if p = 0 then Some s
     else do {
       job \<leftarrow> deref (a_heap (act s)) p;
       if j_comp_job job \<noteq> 0 then Some s
       else do {
         s \<leftarrow> set_job p (\<lambda>j. j\<lparr>j_comp_job := 1\<rparr>) s;
         let (s, t) = get_sim_utime c s;
         insert_at (t + comp_job_delay (c_conf c)) SIM_EPILOG_COMPLETE (Job_Pointer p) s } } }"

subsection \<open>Nodes of a job\<close>

text \<open>
  \<^verbatim>\<open>next_node_bitmap\<close>: the first set position from the index on whose table entry
  is not blank, with the node's name; \<open>Some None\<close> is \<^verbatim>\<open>NULL\<close>, and \<open>None\<close> a read
  beyond the table.
\<close>

partial_function (option) next_node_loop ::
  "string option list \<Rightarrow> bitstr \<Rightarrow> nat \<Rightarrow> (nat \<times> string) option option" where
  "next_node_loop table bm index =
     (let i = bit_ffs_from_bit bm index
      in if i = - 1 then Some None
         else if length table \<le> nat i then None
         else (case table ! nat i of
                 Some name \<Rightarrow> Some (Some (nat i, name))
               | None \<Rightarrow> next_node_loop table bm (nat i + 1)))"

definition next_node_bitmap :: "string option list \<Rightarrow> bitstr \<Rightarrow> nat \<Rightarrow> (nat \<times> string) option option" where
  "next_node_bitmap table bm index =
     (if length table \<le> index then Some None else next_node_loop table bm index)"

text \<open>
  The two loops over a job's nodes. Both read the job's bitmap again before each
  step, as the source does through the pointer. The loop over the completing
  nodes stops when that bitmap is gone; the other one would then read a null
  bitmap.
\<close>

partial_function (option) epilog_nodes ::
  "'w ctl \<Rightarrow> u32 \<Rightarrow> bool \<Rightarrow> nat \<Rightarrow> bool \<Rightarrow> 'w sim \<Rightarrow> ('w sim \<times> bool) option" where
  "epilog_nodes c jid cg i completed s =
     Option.bind (c_find_job c (world s) jid) (\<lambda>job.
       case (if cg then jr_node_bitmap_cg job else jr_node_bitmap job) of
         None \<Rightarrow> if cg \<or> length (c_node_table c (world s)) \<le> i then Some (s, completed) else None
       | Some b \<Rightarrow> Option.bind (next_node_bitmap (c_node_table c (world s)) b i) (\<lambda>next.
           case next of
             None \<Rightarrow> Some (s, completed)
           | Some (k, name) \<Rightarrow> Option.bind (c_job_epilog_complete c (jr_job_id job) name s) (\<lambda>(s, ok).
               epilog_nodes c jid cg (k + 1) (completed \<or> ok) s)))"

definition sim_job_epilog_complete :: "'w ctl \<Rightarrow> u32 \<Rightarrow> string \<Rightarrow> 'w sim \<Rightarrow> ('w sim \<times> bool) option" where
  "sim_job_epilog_complete c jid node s = do {
     (s, status) \<leftarrow> c_job_epilog_complete c jid node s;
     Some (if status then s\<lparr>run_scheduler := True\<rparr> else s, status) }"

definition sim_job_epilog_complete_all_nodes :: "'w ctl \<Rightarrow> u32 \<Rightarrow> 'w sim \<Rightarrow> ('w sim \<times> bool) option" where
  "sim_job_epilog_complete_all_nodes c jid s = do {
     job \<leftarrow> c_find_job c (world s) jid;
     if jr_node_bitmap_cg job \<noteq> None then epilog_nodes c jid True 0 False s
     else if jr_node_bitmap job \<noteq> None then epilog_nodes c jid False 0 False s
     else sim_job_epilog_complete c (jr_job_id job) ''localhost'' s }"

subsection \<open>Completion\<close>

text \<open>What \<^verbatim>\<open>sim_rpc_epilog_complete\<close> does after the epilogs, in both of its branches.\<close>

definition epilog_schedule :: "'w ctl \<Rightarrow> 'w sim \<Rightarrow> 'w sim option" where
  "epilog_schedule c s = do {
     s \<leftarrow> (if c_agent_count c (world s) \<le> 50 \<and> \<not> c_defer_sched c (world s)
            then c_schedule c s else c_queue_job_scheduler c s);
     c_save_state c s }"

definition sim_rpc_epilog_complete :: "'w ctl \<Rightarrow> u32 \<Rightarrow> 'w sim \<Rightarrow> 'w sim option" where
  "sim_rpc_epilog_complete c jid s =
     (case c_find_job c (world s) jid of
        None \<Rightarrow> remove_active jid s
      | Some job \<Rightarrow>
          if IS_JOB_COMPLETING job then do {
            (s, run) \<leftarrow> sim_job_epilog_complete_all_nodes c jid s;
            s \<leftarrow> (if run then epilog_schedule c s else Some s);
            remove_active jid s }
          else if \<not> IS_JOB_RUNNING job then remove_active jid s
          else do {
            (s, run) \<leftarrow> sim_job_epilog_complete_all_nodes c jid s;
            s \<leftarrow> (if run then epilog_schedule c s else Some s);
            remove_active jid s })"

text \<open>The part of \<^verbatim>\<open>sim_complete_job\<close> for a job that is running.\<close>

definition stop_running_job :: "'w ctl \<Rightarrow> u32 \<Rightarrow> job_record \<Rightarrow> 'w sim \<Rightarrow> 'w sim option" where
  "stop_running_job c jid job s = do {
     (s, error_code) \<leftarrow> c_job_complete c (jr_job_id job) (jr_user_id job) s;
     if error_code = 0 then do {
       (s, exit_status) \<leftarrow> sim_job_epilog_complete_all_nodes c jid s;
       if exit_status then do {
         s \<leftarrow> remove_active jid s;
         c_queue_job_scheduler c s }
       else sim_insert_event_rpc_epilog_complete c jid s }
     else sim_insert_event_rpc_epilog_complete c jid s }"

definition sim_complete_job :: "'w ctl \<Rightarrow> u32 \<Rightarrow> 'w sim \<Rightarrow> 'w sim option" where
  "sim_complete_job c jid s =
     (case c_find_job c (world s) jid of
        None \<Rightarrow> remove_active jid s
      | Some _ \<Rightarrow> do {
          s \<leftarrow> c_end_batch_step c jid s;
          job \<leftarrow> c_find_job c (world s) jid;
          if IS_JOB_COMPLETING job then do {
            s \<leftarrow> sim_rpc_epilog_complete c (jr_job_id job) s;
            remove_active jid s }
          else if \<not> IS_JOB_RUNNING job then remove_active jid s
          else stop_running_job c jid job s })"

subsection \<open>Requests to the nodes\<close>

definition agent_queue_request :: "'w ctl \<Rightarrow> agent_msg \<Rightarrow> 'w sim \<Rightarrow> 'w sim option" where
  "agent_queue_request c msg s =
     (case msg of
        REQUEST_BATCH_JOB_LAUNCH jid \<Rightarrow> sim_insert_event_comp_job c jid s
      | REQUEST_KILL_TIMELIMIT jid \<Rightarrow> sim_job_requested_kill_timelimit c jid s
      | REQUEST_TERMINATE_JOB \<Rightarrow> Some s
      | REQUEST_NODE_REGISTRATION_STATUS \<Rightarrow> Some s
      | REQUEST_PING \<Rightarrow> Some s
      | REQUEST_HEALTH_CHECK \<Rightarrow> Some s
      | REQUEST_ACCT_GATHER_UPDATE \<Rightarrow> Some s
      | REQUEST_PARTITION_INFO \<Rightarrow> c_agent_queue c msg s
      | REQUEST_NODE_INFO \<Rightarrow> c_agent_queue c msg s
      | REQUEST_SUBMIT_BATCH_JOB \<Rightarrow> c_agent_queue c msg s
      | OTHER_REQUEST n \<Rightarrow> c_agent_queue c msg s)"

definition sim_notify_slurmctld_nodes :: "'w ctl \<Rightarrow> 'w sim \<Rightarrow> 'w sim option" where
  "sim_notify_slurmctld_nodes c s =
     (if run_scheduler s then c_queue_job_scheduler c (s\<lparr>run_scheduler := False\<rparr>) else Some s)"

subsection \<open>Submission\<close>

definition MAX_RETRIES :: nat where
  "MAX_RETRIES = 15"

text \<open>The assignment of the response's job id to an active job that has none yet.\<close>

definition set_response :: "ptr \<Rightarrow> u32 option \<Rightarrow> sim_event_submit_batch_job \<Rightarrow> 'w sim \<Rightarrow>
    ('w sim \<times> sim_event_submit_batch_job) option" where
  "set_response p resp e s =
     (case resp of
        None \<Rightarrow> Some (s, e)
      | Some rid \<Rightarrow> do {
          job \<leftarrow> deref (a_heap (act s)) p;
          if j_job_id job = 0 then do {
            s \<leftarrow> set_job p (\<lambda>j. j\<lparr>j_job_id := rid\<rparr>) s;
            Some (s, e\<lparr>s_job_id := rid\<rparr>) }
          else Some (s, e) })"

function submit_loop :: "'w ctl \<Rightarrow> ptr \<Rightarrow> nat \<Rightarrow> sim_event_submit_batch_job \<Rightarrow> 'w sim \<Rightarrow>
    ('w sim \<times> sim_event_submit_batch_job \<times> u32 option) option" where
  "submit_loop c p retries e s =
     Option.bind (c_submit c (s_argv e) s) (\<lambda>(s, rc, resp, retry).
     Option.bind (set_response p resp e s) (\<lambda>(s, e).
       if 0 \<le> rc then Some (s, e, resp)
       else if \<not> retry \<or> MAX_RETRIES \<le> retries then Some (s, e, None)
       else Option.bind (c_sleep c (retries + 1) s) (\<lambda>s. submit_loop c p (retries + 1) e s)))"
  by pat_completeness auto
termination
  by (relation "measure (\<lambda>(c, p, retries, e, s). MAX_RETRIES - retries)") (auto simp: MAX_RETRIES_def)

declare submit_loop.simps [simp del]

definition submit_job :: "'w ctl \<Rightarrow> sim_event_submit_batch_job \<Rightarrow> 'w sim \<Rightarrow>
    ('w sim \<times> sim_event_submit_batch_job) option" where
  "submit_job c e s = do {
     (s, go) \<leftarrow> c_sbatch_options c (s_argv e) s;
     if \<not> go then Some (s, e)
     else do {
       let (s, t) = get_sim_utime c s;
       (a, p) \<leftarrow> sim_insert_sim_active_job (act s) e t;
       (s, e, resp) \<leftarrow> submit_loop c p 0 e (s\<lparr>act := a\<rparr>);
       case resp of
         None \<Rightarrow> Some (s, e)
       | Some rid \<Rightarrow> do {
           s \<leftarrow> c_post_submit c rid s;
           set_response p resp e s } } }"

subsection \<open>Nodes visited\<close>

lemma ffs_from_cases:
  obtains (none) "bit_ffs_from_bit b i = - 1" "\<forall>k \<in> bset b. k < i"
  | (some) k where "bit_ffs_from_bit b i = int k" "i \<le> k" "k \<in> bset b" "\<forall>j \<in> bset b. i \<le> j \<longrightarrow> k \<le> j"
proof (cases rule: first_from_cases [of "bit_test b" i "bs_bits b"])
  case 1
  then show thesis using none by (force simp: bit_ffs_from_bit_first bset_def not_le)
next
  case (2 k)
  have "\<forall>j \<in> bset b. i \<le> j \<longrightarrow> k \<le> j" using 2(5) by (auto simp: bset_def not_less [symmetric])
  then show thesis using some [of k] 2 by (simp add: bit_ffs_from_bit_first bset_def)
qed

definition node_at :: "string option list \<Rightarrow> bitstr \<Rightarrow> nat \<Rightarrow> bool" where
  "node_at table b k \<longleftrightarrow> k \<in> bset b \<and> k < length table \<and> table ! k \<noteq> None"

text \<open>The next node from index \<open>i\<close> on, or none.\<close>

definition next_is :: "string option list \<Rightarrow> bitstr \<Rightarrow> nat \<Rightarrow> (nat \<times> string) option \<Rightarrow> bool" where
  "next_is table b i r =
     (case r of
        None \<Rightarrow> \<forall>k. node_at table b k \<longrightarrow> k < i
      | Some (k, name) \<Rightarrow> i \<le> k \<and> node_at table b k \<and> table ! k = Some name
          \<and> (\<forall>j. node_at table b j \<longrightarrow> i \<le> j \<longrightarrow> k \<le> j))"

lemma next_is_skip:
  assumes "next_is table b m r" "i \<le> m" "\<And>j. node_at table b j \<Longrightarrow> i \<le> j \<Longrightarrow> m \<le> j"
  shows "next_is table b i r"
proof (cases r)
  case None
  then show ?thesis using assms by (auto simp: next_is_def not_le [symmetric])
next
  case (Some kn)
  then show ?thesis using assms by (auto simp: next_is_def)
qed

lemma next_node_loop_spec:
  assumes "bs_bits b = length table"
  shows "\<exists>r. next_node_loop table b i = Some r \<and> next_is table b i r"
proof (induction "length table - i" arbitrary: i rule: less_induct)
  case less
  show ?case
  proof (cases rule: ffs_from_cases [of b i])
    case none
    then show ?thesis by (simp add: next_node_loop.simps [of table b i] node_at_def next_is_def)
  next
    case (some k)
    have k: "k < length table" using some(3) assms by (simp add: bset_def)
    show ?thesis
    proof (cases "table ! k")
      case None
      have step: "next_node_loop table b i = next_node_loop table b (k + 1)"
        using some(1) k None by (simp add: next_node_loop.simps [of table b i])
      have up: "k + 1 \<le> j" if "node_at table b j" "i \<le> j" for j
      proof -
        have "k \<le> j" "j \<noteq> k" using that some(4) None by (auto simp: node_at_def)
        then show ?thesis by simp
      qed
      have "length table - (k + 1) < length table - i" using some(2) k by simp
      from less.hyps [OF this] obtain r where "next_node_loop table b (k + 1) = Some r" "next_is table b (k + 1) r"
        by blast
      then show ?thesis using next_is_skip [of table b "k + 1" r i] up some(2) step by simp
    next
      case (Some name)
      then show ?thesis using some k by (simp add: next_node_loop.simps [of table b i] node_at_def next_is_def)
    qed
  qed
qed

lemma next_node_spec:
  assumes "bs_bits b = length table"
  shows "\<exists>r. next_node_bitmap table b i = Some r \<and> next_is table b i r"
  using next_node_loop_spec [OF assms, of i] by (auto simp: next_node_bitmap_def node_at_def next_is_def)

subsection \<open>The contract of the daemon\<close>

text \<open>
  The invariant of the simulator's own data: the event list and the list of
  active jobs are well formed, and no job started so late that a year of run
  time would pass the last sentinel.
\<close>

definition start_ok :: "sim_job \<Rightarrow> bool" where
  "start_ok j \<longleftrightarrow> 0 \<le> j_start_time j \<and> j_start_time j + usec_year < INT64_MAX"

definition sim_inv :: "'w sim \<Rightarrow> bool" where
  "sim_inv s \<longleftrightarrow> (\<exists>es. pending (evs s) es) \<and> (\<exists>js. job_list (act s) js \<and> (\<forall>j \<in> set js. start_ok j))"

text \<open>
  What a call of the daemon leaves in place: job records with their node
  bitmaps, and the node table.
\<close>

definition kept :: "'w ctl \<Rightarrow> 'w sim \<Rightarrow> 'w sim \<Rightarrow> bool" where
  "kept c s s' \<longleftrightarrow> c_node_table c (world s') = c_node_table c (world s)
     \<and> (\<forall>jid job. c_find_job c (world s) jid = Some job \<longrightarrow>
          (\<exists>job'. c_find_job c (world s') jid = Some job'
             \<and> jr_job_id job' = jr_job_id job \<and> (jr_node_bitmap job \<noteq> None \<longrightarrow> jr_node_bitmap job' \<noteq> None)))"

lemma kept_refl [simp]: "kept c s s"
  by (simp add: kept_def)

lemma kept_trans: "kept c s s' \<Longrightarrow> kept c s' s'' \<Longrightarrow> kept c s s''"
  unfolding kept_def by (metis (no_types, lifting))

lemma kept_own [simp]:
  "kept c s (s'\<lparr>act := a\<rparr>) = kept c s s'" "kept c s (s'\<lparr>evs := l\<rparr>) = kept c s s'"
  "kept c s (s'\<lparr>run_scheduler := b\<rparr>) = kept c s s'"
  by (simp_all add: kept_def)

definition good :: "'w ctl \<Rightarrow> 'w sim \<Rightarrow> 'w sim option \<Rightarrow> bool" where
  "good c s r \<longleftrightarrow> (\<exists>s'. r = Some s' \<and> sim_inv s' \<and> kept c s s')"

definition good2 :: "'w ctl \<Rightarrow> 'w sim \<Rightarrow> ('w sim \<times> 'x) option \<Rightarrow> bool" where
  "good2 c s r \<longleftrightarrow> (\<exists>s' x. r = Some (s', x) \<and> sim_inv s' \<and> kept c s s')"

text \<open>
  The bound on simulated times: every reading of the clock, with a year of
  run time or one of the configured delays added, stays below the time of the
  last sentinel.
\<close>

definition clock_ok :: "'w ctl \<Rightarrow> bool" where
  "clock_ok c \<longleftrightarrow> 0 \<le> comp_job_delay (c_conf c) \<and> 0 \<le> timelimit_delay (c_conf c)
     \<and> (\<forall>w. 0 \<le> fst (c_utime c w) \<and> fst (c_utime c w) + usec_year < INT64_MAX
          \<and> fst (c_utime c w) + comp_job_delay (c_conf c) < INT64_MAX
          \<and> fst (c_utime c w) + timelimit_delay (c_conf c) < INT64_MAX
          \<and> c_find_job c (snd (c_utime c w)) = c_find_job c w \<and> c_node_table c (snd (c_utime c w)) = c_node_table c w)"

definition records_ok :: "'w ctl \<Rightarrow> bool" where
  "records_ok c \<longleftrightarrow> (\<forall>w jid job. c_find_job c w jid = Some job \<longrightarrow>
     jr_job_id job = jid \<and> get_job_sim_id (jr_name job) \<noteq> None
     \<and> (\<forall>b. jr_node_bitmap_cg job = Some b \<or> jr_node_bitmap job = Some b \<longrightarrow> bs_bits b = length (c_node_table c w)))"

definition calls_ok :: "'w ctl \<Rightarrow> bool" where
  "calls_ok c \<longleftrightarrow> (\<forall>s. sim_inv s \<longrightarrow>
     (\<forall>jid. good c s (c_end_batch_step c jid s)) \<and> (\<forall>jid uid. good2 c s (c_job_complete c jid uid s))
     \<and> (\<forall>jid n. good2 c s (c_job_epilog_complete c jid n s)) \<and> good c s (c_schedule c s)
     \<and> good c s (c_queue_job_scheduler c s) \<and> good c s (c_save_state c s)
     \<and> (\<forall>m. good c s (c_agent_queue c m s)))"

definition ctl_ok :: "'w ctl \<Rightarrow> bool" where
  "ctl_ok c \<longleftrightarrow> clock_ok c \<and> records_ok c \<and> calls_ok c"

lemma good_bind:
  assumes "good c s r" "\<And>s'. r = Some s' \<Longrightarrow> sim_inv s' \<Longrightarrow> kept c s s' \<Longrightarrow> good c s' (f s')"
  shows "good c s (Option.bind r f)"
  using assms kept_trans unfolding good_def by (metis bind.bind_lunit)

lemma good2_bind:
  assumes "good2 c s r" "\<And>s' x. r = Some (s', x) \<Longrightarrow> sim_inv s' \<Longrightarrow> kept c s s' \<Longrightarrow> good c s' (f (s', x))"
  shows "good c s (Option.bind r f)"
  using assms kept_trans unfolding good_def good2_def by (metis bind.bind_lunit)

lemma good_some [simp]: "good c s (Some s) = sim_inv s"
  by (simp add: good_def)

lemma call_good:
  assumes "ctl_ok c" "sim_inv s"
  shows "good c s (c_end_batch_step c jid s)" "good2 c s (c_job_complete c jid uid s)"
    "good2 c s (c_job_epilog_complete c jid n s)" "good c s (c_schedule c s)"
    "good c s (c_queue_job_scheduler c s)" "good c s (c_save_state c s)" "good c s (c_agent_queue c m s)"
  using assms by (auto simp: ctl_ok_def calls_ok_def)

subsection \<open>Single steps\<close>

lemma sim_invD: "sim_inv s \<Longrightarrow> \<exists>es js. pending (evs s) es \<and> job_list (act s) js \<and> (\<forall>j \<in> set js. start_ok j)"
  unfolding sim_inv_def by blast

lemma sim_invI: "pending (evs s) es \<Longrightarrow> job_list (act s) js \<Longrightarrow> \<forall>j \<in> set js. start_ok j \<Longrightarrow> sim_inv s"
  by (metis sim_inv_def)

lemma set_del_first: "set (del_first P xs) \<subseteq> set xs"
  by (induction xs) auto

lemma remove_active_good:
  assumes "sim_inv s"
  shows "good c s (remove_active jid s)"
proof -
  obtain es js where js: "pending (evs s) es" "job_list (act s) js" "\<forall>j \<in> set js. start_ok j"
    using sim_invD [OF assms] by blast
  let ?js = "del_first (\<lambda>j. j_job_id j = jid) js"
  obtain a n where a: "sim_remove_active_sim_job (act s) jid = Some (a, n)" "job_list a ?js"
    using remove_refines [OF js(2)] by blast
  have "\<forall>j \<in> set ?js. start_ok j" using js(3) set_del_first [of "\<lambda>j. j_job_id j = jid" js] by (meson subsetD)
  then have "sim_inv (s\<lparr>act := a\<rparr>)" using js(1) a(2) by (intro sim_invI) simp_all
  then show ?thesis using a(1) by (simp add: good_def remove_active_def)
qed

lemma insert_at_good:
  assumes "sim_inv s" "0 \<le> w" "w < INT64_MAX"
  shows "good c s (insert_at w t pl s)"
proof -
  obtain es js where js: "pending (evs s) es" "job_list (act s) js" "\<forall>j \<in> set js. start_ok j"
    using sim_invD [OF assms(1)] by blast
  obtain l where l: "sim_insert_event (evs s) w t pl = Some l"
    "pending l (insert_after e_when (new_event w t pl) es)"
    using insert_refines_queue [OF js(1) assms(2,3)] by blast
  then have "sim_inv (s\<lparr>evs := l\<rparr>)" using js(2,3) by (intro sim_invI) simp_all
  then show ?thesis using l(1) by (simp add: good_def insert_at_def)
qed

lemma get_sim_utime_good:
  assumes "ctl_ok c" "sim_inv s" "get_sim_utime c s = (s', t)"
  shows "sim_inv s'" "kept c s s'" "act s' = act s" "evs s' = evs s"
    "0 \<le> t" "t + usec_year < INT64_MAX" "t + comp_job_delay (c_conf c) < INT64_MAX" "t + timelimit_delay (c_conf c) < INT64_MAX"
    "0 \<le> comp_job_delay (c_conf c)" "0 \<le> timelimit_delay (c_conf c)"
proof -
  have c: "clock_ok c" using assms(1) by (simp add: ctl_ok_def)
  have eq: "s' = s\<lparr>world := snd (c_utime c (world s))\<rparr>" "t = fst (c_utime c (world s))"
    using assms(3) by (auto simp: get_sim_utime_def split: prod.splits)
  show "sim_inv s'" "act s' = act s" "evs s' = evs s" using assms(2) by (simp_all add: eq sim_inv_def)
  show "kept c s s'" using c by (simp add: eq kept_def clock_ok_def)
  show "0 \<le> t" "t + usec_year < INT64_MAX" "t + comp_job_delay (c_conf c) < INT64_MAX"
    "t + timelimit_delay (c_conf c) < INT64_MAX" "0 \<le> comp_job_delay (c_conf c)" "0 \<le> timelimit_delay (c_conf c)"
    using c by (simp_all add: eq clock_ok_def)
qed

lemma set_job_good:
  fixes f :: "sim_job \<Rightarrow> sim_job"
  assumes "sim_inv s" "a_heap (act s) p = Some n"
    and "\<And>j. j_next (f j) = j_next j" "\<And>j. j_previous (f j) = j_previous j" "start_ok (f n)"
  defines "s' \<equiv> s\<lparr>act := (act s)\<lparr>a_heap := (a_heap (act s))(p \<mapsto> f n)\<rparr>\<rparr>"
  shows "set_job p f s = Some s'" "sim_inv s'" "kept c s s'"
proof -
  obtain es js where js: "pending (evs s) es" "job_list (act s) js" "\<forall>j \<in> set js. start_ok j"
    using sim_invD [OF assms(1)] by blast
  obtain ps where ps: "jobs_at (act s) ps" "js = map (job_at (act s)) ps" using js(2) by (auto simp: job_list_def)
  have "p \<in> set ps" using ps(1) assms(2) by (auto simp: jobs_at_def dom_def)
  then obtain as bs where sp: "ps = as @ p # bs" by (meson split_list)
  note U = update_refines [of "act s" as p bs n f, OF ps(1) [unfolded sp] assms(2,3,4)]
  show "set_job p f s = Some s'" using U(1) by (simp add: set_job_def s'_def)
  have "start_ok (plain (f n))" using assms(5) by (simp add: start_ok_def)
  then have ok: "\<forall>j \<in> set (map (job_at (act s)) as @ plain (f n) # map (job_at (act s)) bs). start_ok j"
    using js(3) ps(2) sp by auto
  show "sim_inv s'" by (rule sim_invI [OF _ _ ok, of _ es]) (use js(1) U(2) in \<open>simp_all add: s'_def\<close>)
  show "kept c s s'" by (simp add: s'_def)
qed

text \<open>A job is known when it is in the list or the daemon has a record of it.\<close>

definition known :: "'w ctl \<Rightarrow> 'w sim \<Rightarrow> u32 \<Rightarrow> bool" where
  "known c s jid \<longleftrightarrow> c_find_job c (world s) jid \<noteq> None"

lemma known_kept: "known c s jid \<Longrightarrow> kept c s s' \<Longrightarrow> known c s' jid"
  unfolding known_def kept_def by fastforce

lemma find_live:
  assumes "jobs_at s ps" "sim_find_active_sim_job job_name s jid = Some (s', p)" "p \<noteq> 0"
  shows "\<exists>n. a_heap s' p = Some n"
proof -
  have live: "\<exists>n. a_heap s q = Some n" if "q \<in> set ps" for q using that assms(1) by (auto simp: jobs_at_def)
  have W: "find_walk (a_heap s) P (a_first s) = Some q \<Longrightarrow> q \<noteq> 0 \<Longrightarrow> (\<And>j. P (plain j) = P j) \<Longrightarrow> q \<in> set ps" for P q
    using find_walk_jobs [OF assms(1), of P] find_first [of "\<lambda>p. P (job_at s p)" ps q]
    by (auto split: option.splits)
  show ?thesis
    using assms(2,3) W live unfolding sim_find_active_sim_job_def store_def
    by (auto simp: Option.bind_eq_Some_conv split: if_splits option.splits)
qed

lemma set_upd_first: "x \<in> set (upd_first P f xs) \<Longrightarrow> x \<in> set xs \<or> (\<exists>y \<in> set xs. x = f y)"
  by (induction xs) (auto split: if_splits)

lemma find_active_good:
  assumes "ctl_ok c" "sim_inv s" "known c s jid"
  shows "\<exists>s' p. find_active c jid s = Some (s', p) \<and> sim_inv s' \<and> kept c s s' \<and> evs s' = evs s \<and> world s' = world s
    \<and> (p \<noteq> 0 \<longrightarrow> (\<exists>n. a_heap (act s') p = Some n \<and> start_ok n))"
proof -
  obtain es js where js: "pending (evs s) es" "job_list (act s) js" "\<forall>j \<in> set js. start_ok j"
    using sim_invD [OF assms(2)] by blast
  let ?nm = "\<lambda>i. map_option jr_name (c_find_job c (world s) i)"
  have "Option.bind (?nm jid) get_job_sim_id \<noteq> None"
    using assms(1,3) by (auto simp: ctl_ok_def records_ok_def known_def)
  then obtain a p where a: "sim_find_active_sim_job ?nm (act s) jid = Some (a, p)"
    "job_list a (find_effect ?nm js jid)"
    using find_refines [OF js(2), of jid ?nm] by blast
  have sok: "\<forall>j \<in> set (find_effect ?nm js jid). start_ok j"
    using js(3) by (auto simp: find_effect_def start_ok_def split: option.splits dest!: set_upd_first)
  then have "sim_inv (s\<lparr>act := a\<rparr>)" using js(1) a(2) by (intro sim_invI) simp_all
  moreover have "\<exists>n. a_heap a p = Some n \<and> start_ok n" if "p \<noteq> 0"
  proof -
    obtain ps where "jobs_at (act s) ps" using js(2) by (auto simp: job_list_def)
    from find_live [OF this a(1) that] obtain n where n: "a_heap a p = Some n" by blast
    obtain qs where qs: "jobs_at a qs" "find_effect ?nm js jid = map (job_at a) qs" using a(2) by (auto simp: job_list_def)
    then have "p \<in> set qs" using n by (auto simp: jobs_at_def dom_def)
    then have "start_ok (job_at a p)" using sok qs(2) by auto
    then show ?thesis using n by (simp add: job_at_def start_ok_def)
  qed
  ultimately show ?thesis using a(1) by (simp add: find_active_def)
qed

subsection \<open>The handlers keep the invariant\<close>

lemma deref_live [simp]: "h p = Some n \<Longrightarrow> p \<noteq> 0 \<Longrightarrow> deref h p = Some n"
  by (simp add: deref_def)

lemma sim_insert_event_comp_job_good:
  assumes "ctl_ok c" "sim_inv s" "known c s jid"
  shows "good c s (sim_insert_event_comp_job c jid s)"
proof -
  obtain s1 p where 1: "find_active c jid s = Some (s1, p)" "sim_inv s1" "kept c s s1"
    "p \<noteq> 0 \<longrightarrow> (\<exists>n. a_heap (act s1) p = Some n \<and> start_ok n)"
    using find_active_good [OF assms] by blast
  show ?thesis
  proof (cases "p = 0")
    case True
    then show ?thesis using 1 by (simp add: sim_insert_event_comp_job_def good_def)
  next
    case False
    then obtain n where n: "a_heap (act s1) p = Some n" "start_ok n" using 1(4) by blast
    obtain s2 t where 2: "get_sim_utime c s1 = (s2, t)" by fastforce
    note g = get_sim_utime_good [OF assms(1) 1(2) 2]
    let ?f = "\<lambda>j. j\<lparr>j_start_time := t\<rparr>"
    have n2: "a_heap (act s2) p = Some n" using n(1) g(3) by simp
    have "start_ok (?f n)" using g(5,6) by (simp add: start_ok_def)
    note u = set_job_good [OF g(1) n2, of ?f, OF _ _ this, simplified]
    define s3 where "s3 = (if j_start_time n = 0
      then s2\<lparr>act := act s2\<lparr>a_heap := (a_heap (act s2))(p \<mapsto> ?f n)\<rparr>\<rparr> else s1)"
    define m where "m = (if j_start_time n = 0 then ?f n else n)"
    have s3: "sim_inv s3" "kept c s s3" using u(2,3) 1(2,3) g(2) kept_trans by (auto simp: s3_def)
    have m: "a_heap (act s3) p = Some m" "start_ok m" using n g(5,6) by (auto simp: s3_def m_def start_ok_def)
    have run: "sim_insert_event_comp_job c jid s =
       (if j_walltime m < usec_year \<and> 0 \<le> j_walltime m
        then insert_at (j_start_time m + j_walltime m) SIM_COMPLETE_BATCH_SCRIPT (Job_Pointer p) s3 else Some s3)"
      using False 1(1) n(1) 2 u(1) by (simp add: sim_insert_event_comp_job_def s3_def m_def)
    have "good c s3 (if j_walltime m < usec_year \<and> 0 \<le> j_walltime m
        then insert_at (j_start_time m + j_walltime m) SIM_COMPLETE_BATCH_SCRIPT (Job_Pointer p) s3 else Some s3)"
      using s3(1) m(2) insert_at_good [OF s3(1)] by (simp add: start_ok_def)
    then show ?thesis using s3(2) run kept_trans unfolding good_def by metis
  qed
qed

text \<open>The common part of the two handlers that mark a job and insert one event.\<close>

lemma mark_and_insert_good:
  assumes "ctl_ok c" "sim_inv s" "a_heap (act s) p = Some n" "start_ok n" "d \<in> {comp_job_delay (c_conf c), timelimit_delay (c_conf c)}"
    and "\<And>j. j_next (f j) = j_next j" "\<And>j. j_previous (f j) = j_previous j" "\<And>j. j_start_time (f j) = j_start_time j"
  shows "good c s (Option.bind (set_job p f s) (\<lambda>s. let (s, t) = get_sim_utime c s in insert_at (t + d) ty pl s))"
proof -
  have "start_ok (f n)" using assms(4,8) by (simp add: start_ok_def)
  note u = set_job_good [OF assms(2,3,6,7) this]
  let ?s = "s\<lparr>act := act s\<lparr>a_heap := (a_heap (act s))(p \<mapsto> f n)\<rparr>\<rparr>"
  obtain s2 t where 2: "get_sim_utime c ?s = (s2, t)" by fastforce
  note g = get_sim_utime_good [OF assms(1) u(2) 2]
  have "good c s2 (insert_at (t + d) ty pl s2)"
    using insert_at_good [OF g(1)] assms(5) g(5-) by auto
  moreover have "kept c s s2" using kept_trans [OF u(3) g(2)] .
  ultimately show ?thesis using u(1) 2 kept_trans unfolding good_def by fastforce
qed

lemma mark_handlers_good:
  assumes "ctl_ok c" "sim_inv s" "known c s jid"
  shows "good c s (sim_job_requested_kill_timelimit c jid s)" "good c s (sim_insert_event_rpc_epilog_complete c jid s)"
proof -
  obtain s1 p where 1: "find_active c jid s = Some (s1, p)" "sim_inv s1" "kept c s s1"
    "p \<noteq> 0 \<longrightarrow> (\<exists>n. a_heap (act s1) p = Some n \<and> start_ok n)"
    using find_active_good [OF assms] by blast
  have lift: "good c s1 r \<Longrightarrow> good c s r" for r using 1(3) kept_trans unfolding good_def by blast
  consider "p = 0" | n where "p \<noteq> 0" "a_heap (act s1) p = Some n" "start_ok n" using 1(4) by blast
  then show "good c s (sim_job_requested_kill_timelimit c jid s)"
  proof cases
    case 2
    then show ?thesis using 1(1,2) mark_and_insert_good [OF assms(1) 1(2) 2(2,3),
          of "timelimit_delay (c_conf c)" "\<lambda>j. j\<lparr>j_requested_kill_timelimit := 1\<rparr>"]
      by (intro lift) (simp add: sim_job_requested_kill_timelimit_def)
  qed (use 1 in \<open>simp add: sim_job_requested_kill_timelimit_def good_def\<close>)
  consider "p = 0" | n where "p \<noteq> 0" "a_heap (act s1) p = Some n" "start_ok n" using 1(4) by blast
  then show "good c s (sim_insert_event_rpc_epilog_complete c jid s)"
  proof cases
    case 2
    then show ?thesis using 1(1,2) mark_and_insert_good [OF assms(1) 1(2) 2(2,3),
          of "comp_job_delay (c_conf c)" "\<lambda>j. j\<lparr>j_comp_job := 1\<rparr>"]
      by (intro lift) (simp add: sim_insert_event_rpc_epilog_complete_def)
  qed (use 1 in \<open>simp add: sim_insert_event_rpc_epilog_complete_def good_def\<close>)
qed

lemma epilog_nodes_good:
  assumes "ctl_ok c"
  shows "sim_inv s \<Longrightarrow> c_find_job c (world s) jid = Some job \<Longrightarrow> cg \<or> jr_node_bitmap job \<noteq> None \<Longrightarrow>
    good2 c s (epilog_nodes c jid cg i completed s)"
proof (induction "length (c_node_table c (world s)) - i" arbitrary: i completed s job rule: less_induct)
  case less
  let ?b = "if cg then jr_node_bitmap_cg job else jr_node_bitmap job" and ?t = "c_node_table c (world s)"
  show ?case
  proof (cases ?b)
    case None
    then have "cg" using less.prems(3) by (auto split: if_splits)
    then show ?thesis using None less.prems by (simp add: epilog_nodes.simps [of c jid True i] good2_def)
  next
    case (Some b)
    have "bs_bits b = length ?t"
      using Some less.prems(2) assms by (auto simp: ctl_ok_def records_ok_def split: if_splits)
    from next_node_spec [OF this] obtain r where r: "next_node_bitmap ?t b i = Some r" "next_is ?t b i r" by blast
    show ?thesis
    proof (cases r)
      case None
      then show ?thesis using Some less.prems r(1)
        by (simp add: epilog_nodes.simps [of c jid cg i] good2_def)
    next
      case (Some kn)
      obtain k name where kn: "kn = (k, name)" by fastforce
      have k: "i \<le> k" "k < length ?t" using r(2) Some kn by (auto simp: next_is_def node_at_def)
      obtain s' ok where s': "c_job_epilog_complete c (jr_job_id job) name s = Some (s', ok)" "sim_inv s'" "kept c s s'"
        using call_good(3) [OF assms less.prems(1)] unfolding good2_def by blast
      obtain job' where j': "c_find_job c (world s') jid = Some job'" "jr_node_bitmap job \<noteq> None \<longrightarrow> jr_node_bitmap job' \<noteq> None"
        using s'(3) less.prems(2) unfolding kept_def by blast
      have "length (c_node_table c (world s')) - (k + 1) < length ?t - i" using k s'(3) by (simp add: kept_def)
      from less.hyps [OF this s'(2) j'(1)] have "good2 c s' (epilog_nodes c jid cg (k + 1) (completed \<or> ok) s')"
        using j'(2) less.prems(3) by blast
      then have "good2 c s (epilog_nodes c jid cg (k + 1) (completed \<or> ok) s')"
        using s'(3) kept_trans unfolding good2_def by blast
      moreover have "epilog_nodes c jid cg i completed s = epilog_nodes c jid cg (k + 1) (completed \<or> ok) s'"
        using \<open>?b = Some b\<close> r(1) Some kn s'(1) less.prems(2)
        by (simp add: epilog_nodes.simps [of c jid cg i completed s])
      ultimately show ?thesis by simp
    qed
  qed
qed

lemma all_nodes_good:
  assumes "ctl_ok c" "sim_inv s" "known c s jid"
  shows "good2 c s (sim_job_epilog_complete_all_nodes c jid s)"
proof -
  obtain job where j: "c_find_job c (world s) jid = Some job" using assms(3) by (auto simp: known_def)
  obtain s' ok where s': "c_job_epilog_complete c (jr_job_id job) ''localhost'' s = Some (s', ok)" "sim_inv s'" "kept c s s'"
    using call_good(3) [OF assms(1,2)] unfolding good2_def by blast
  have "good2 c s (sim_job_epilog_complete c (jr_job_id job) ''localhost'' s)"
    using s' by (simp add: sim_job_epilog_complete_def good2_def sim_inv_def)
  then show ?thesis
    using epilog_nodes_good [OF assms(1,2) j, of True 0 False] epilog_nodes_good [OF assms(1,2) j, of False 0 False] j
    by (simp add: sim_job_epilog_complete_all_nodes_def)
qed

lemma epilog_schedule_good: "ctl_ok c \<Longrightarrow> sim_inv s \<Longrightarrow> good c s (epilog_schedule c s)"
  unfolding epilog_schedule_def by (rule good_bind) (simp_all add: call_good)

lemma rpc_branch_good:
  assumes "ctl_ok c" "sim_inv s" "known c s jid"
  shows "good c s (Option.bind (sim_job_epilog_complete_all_nodes c jid s) (\<lambda>(s, run).
    Option.bind (if run then epilog_schedule c s else Some s) (remove_active jid)))"
proof (rule good2_bind [OF all_nodes_good [OF assms]])
  fix s' x assume i: "sim_inv s'" and "kept c s s'"
  have "good c s' (Option.bind (if x then epilog_schedule c s' else Some s') (remove_active jid))"
    by (rule good_bind) (simp_all add: i epilog_schedule_good [OF assms(1)] remove_active_good)
  then show "good c s' (case (s', x) of (s, run) \<Rightarrow>
      Option.bind (if run then epilog_schedule c s else Some s) (remove_active jid))" by simp
qed

lemma sim_rpc_epilog_complete_good:
  assumes "ctl_ok c" "sim_inv s"
  shows "good c s (sim_rpc_epilog_complete c jid s)"
  using rpc_branch_good [OF assms, of jid] remove_active_good [OF assms(2)]
  by (auto simp: sim_rpc_epilog_complete_def known_def split: option.split)

lemma stop_running_job_good:
  assumes "ctl_ok c" "sim_inv s" "known c s jid"
  shows "good c s (stop_running_job c jid job s)"
proof -
  have epi: "good c s' (sim_insert_event_rpc_epilog_complete c jid s')" if "sim_inv s'" "known c s' jid" for s'
    using mark_handlers_good(2) [OF assms(1) that] .
  have leave: "good c s' (Option.bind (remove_active jid s') (c_queue_job_scheduler c))" if "sim_inv s'" for s'
    by (rule good_bind [OF remove_active_good [OF that]]) (simp add: call_good(5) [OF assms(1)])
  have tail: "good c s' (Option.bind (sim_job_epilog_complete_all_nodes c jid s') (\<lambda>(s, exit_status).
      if exit_status then Option.bind (remove_active jid s) (c_queue_job_scheduler c)
      else sim_insert_event_rpc_epilog_complete c jid s))" if "sim_inv s'" "known c s' jid" for s'
    using leave epi known_kept [OF that(2)]
    by (intro good2_bind [OF all_nodes_good [OF assms(1) that]]) auto
  show ?thesis unfolding stop_running_job_def
    using tail epi known_kept [OF assms(3)]
    by (intro good2_bind [OF call_good(2) [OF assms(1,2)]]) auto
qed

lemma sim_complete_job_good:
  assumes "ctl_ok c" "sim_inv s"
  shows "good c s (sim_complete_job c jid s)"
proof (cases "c_find_job c (world s) jid")
  case None
  then show ?thesis using remove_active_good [OF assms(2)] by (simp add: sim_complete_job_def)
next
  case (Some job)
  then have k: "known c s jid" by (simp add: known_def)
  have br: "good c s' (if IS_JOB_COMPLETING job then Option.bind (sim_rpc_epilog_complete c (jr_job_id job) s') (remove_active jid)
      else if \<not> IS_JOB_RUNNING job then remove_active jid s' else stop_running_job c jid job s')"
    if i: "sim_inv s'" and "known c s' jid" for s' job
  proof -
    have "good c s' (Option.bind (sim_rpc_epilog_complete c (jr_job_id job) s') (remove_active jid))"
      by (rule good_bind [OF sim_rpc_epilog_complete_good [OF assms(1) i]]) (simp add: remove_active_good)
    then show ?thesis using remove_active_good [OF i] stop_running_job_good [OF assms(1) that] by simp
  qed
  have "good c s (Option.bind (c_end_batch_step c jid s) (\<lambda>s. Option.bind (c_find_job c (world s) jid) (\<lambda>job.
      if IS_JOB_COMPLETING job then Option.bind (sim_rpc_epilog_complete c (jr_job_id job) s) (remove_active jid)
      else if \<not> IS_JOB_RUNNING job then remove_active jid s else stop_running_job c jid job s)))"
  proof (rule good_bind [OF call_good(1) [OF assms]])
    fix s' assume "sim_inv s'" "kept c s s'"
    moreover then have "known c s' jid" using known_kept [OF k] by blast
    moreover then obtain job' where "c_find_job c (world s') jid = Some job'" by (auto simp: known_def)
    ultimately show "good c s' (Option.bind (c_find_job c (world s') jid) (\<lambda>job.
      if IS_JOB_COMPLETING job then Option.bind (sim_rpc_epilog_complete c (jr_job_id job) s') (remove_active jid)
      else if \<not> IS_JOB_RUNNING job then remove_active jid s' else stop_running_job c jid job s'))"
      using br by simp
  qed
  then show ?thesis by (simp add: sim_complete_job_def Some)
qed

lemma agent_queue_request_good:
  assumes "ctl_ok c" "sim_inv s" "case msg of REQUEST_BATCH_JOB_LAUNCH jid \<Rightarrow> known c s jid
    | REQUEST_KILL_TIMELIMIT jid \<Rightarrow> known c s jid | _ \<Rightarrow> True"
  shows "good c s (agent_queue_request c msg s)"
  using assms sim_insert_event_comp_job_good [OF assms(1,2)] mark_handlers_good(1) [OF assms(1,2)] call_good(7) [OF assms(1,2)]
  by (cases msg) (simp_all add: agent_queue_request_def)

subsection \<open>Submission keeps the invariant\<close>

text \<open>
  While a submission is under way the daemon frees no active job: the
  submission loop holds a pointer to one.
\<close>

definition live_kept :: "'w sim \<Rightarrow> 'w sim \<Rightarrow> bool" where
  "live_kept s s' \<longleftrightarrow> dom (a_heap (act s)) \<subseteq> dom (a_heap (act s'))"

definition submit_ok :: "'w ctl \<Rightarrow> bool" where
  "submit_ok c \<longleftrightarrow> (\<forall>s. sim_inv s \<longrightarrow>
     (\<forall>argv. \<exists>s' x. c_sbatch_options c argv s = Some (s', x) \<and> sim_inv s')
     \<and> (\<forall>argv. \<exists>s' x. c_submit c argv s = Some (s', x) \<and> sim_inv s' \<and> live_kept s s')
     \<and> (\<forall>n. \<exists>s'. c_sleep c n s = Some s' \<and> sim_inv s' \<and> live_kept s s')
     \<and> (\<forall>jid. \<exists>s'. c_post_submit c jid s = Some s' \<and> sim_inv s' \<and> live_kept s s'))"

lemma live_start_ok: "sim_inv s \<Longrightarrow> a_heap (act s) p = Some n \<Longrightarrow> start_ok n"
proof -
  assume s: "sim_inv s" "a_heap (act s) p = Some n"
  obtain es js where js: "job_list (act s) js" "\<forall>j \<in> set js. start_ok j" using sim_invD [OF s(1)] by blast
  obtain ps where "jobs_at (act s) ps" "js = map (job_at (act s)) ps" using js(1) by (auto simp: job_list_def)
  moreover then have "p \<in> set ps" using s(2) by (auto simp: jobs_at_def)
  ultimately have "start_ok (job_at (act s) p)" using js(2) by auto
  then show "start_ok n" using s(2) by (simp add: job_at_def start_ok_def)
qed

lemma live_nonnull: "sim_inv s \<Longrightarrow> a_heap (act s) p = Some n \<Longrightarrow> p \<noteq> 0"
proof -
  assume s: "sim_inv s" "a_heap (act s) p = Some n"
  obtain es js where js: "job_list (act s) js" using sim_invD [OF s(1)] by blast
  obtain ps where ps: "jobs_at (act s) ps" using js(1) by (auto simp: job_list_def)
  then have "p \<in> set ps" using s(2) by (auto simp: jobs_at_def)
  then show "p \<noteq> 0" using ps dseg_nonnull [of j_next j_previous "a_heap (act s)" 0 "a_first (act s)" ps 0 p]
    by (simp add: jobs_at_def)
qed

lemma set_insert_job [simp]: "set (insert_job j js) = insert j (set js)"
  by (induction js) auto

lemma insert_live:
  assumes "job_list s js"
  shows "\<exists>s'. sim_insert_sim_active_job s e now = Some (s', a_fresh s)
    \<and> job_list s' (insert_job (new_job e now) js) \<and> a_fresh s \<in> dom (a_heap s')"
proof -
  obtain ps where ps: "jobs_at s ps" using assms by (auto simp: job_list_def)
  obtain s' where s': "sim_insert_sim_active_job s e now = Some (s', a_fresh s)" "job_list s' (insert_job (new_job e now) js)"
    using insert_refines [OF assms] by blast
  let ?lt = "\<lambda>p. j_job_id (job_at s p) < j_job_id (new_job e now)"
  have "jobs_at s' (takeWhile ?lt ps @ a_fresh s # dropWhile ?lt ps)"
    using sim_insert_active_job_spec [OF ps refl, of "new_job e now"] s'(1)
    by (auto simp: sim_insert_sim_active_job_def new_job_def)
  then have "a_fresh s \<in> dom (a_heap s')" by (simp add: jobs_at_def)
  then show ?thesis using s' by blast
qed

lemma set_response_good:
  assumes "sim_inv s" "p \<in> dom (a_heap (act s))"
  shows "\<exists>s' e'. set_response p resp e s = Some (s', e') \<and> sim_inv s' \<and> live_kept s s' \<and> s_argv e' = s_argv e"
proof (cases resp)
  case None
  then show ?thesis using assms(1) by (simp add: set_response_def live_kept_def)
next
  case (Some rid)
  obtain n where n: "a_heap (act s) p = Some n" using assms(2) by blast
  have ok: "start_ok (n\<lparr>j_job_id := rid\<rparr>)" using live_start_ok [OF assms(1) n] by (simp add: start_ok_def)
  note u = set_job_good [OF assms(1) n, of "\<lambda>j. j\<lparr>j_job_id := rid\<rparr>", OF _ _ ok, simplified]
  show ?thesis using Some n u(1,2) assms(1) live_nonnull [OF assms(1) n]
    by (auto simp: set_response_def live_kept_def)
qed

lemma submit_loop_good:
  assumes "submit_ok c"
  shows "sim_inv s \<Longrightarrow> p \<in> dom (a_heap (act s)) \<Longrightarrow>
    \<exists>s' e' resp. submit_loop c p retries e s = Some (s', e', resp) \<and> sim_inv s' \<and> p \<in> dom (a_heap (act s'))"
proof (induction "MAX_RETRIES - retries" arbitrary: retries e s rule: less_induct)
  case less
  obtain s1 rc resp retry where 1: "c_submit c (s_argv e) s = Some (s1, rc, resp, retry)" "sim_inv s1" "live_kept s s1"
    using assms less.prems(1) unfolding submit_ok_def by (metis prod_cases3)
  have p1: "p \<in> dom (a_heap (act s1))" using less.prems(2) 1(3) unfolding live_kept_def by blast
  obtain s2 e2 where 2: "set_response p resp e s1 = Some (s2, e2)" "sim_inv s2" "live_kept s1 s2"
    using set_response_good [OF 1(2) p1] by blast
  have p2: "p \<in> dom (a_heap (act s2))" using p1 2(3) unfolding live_kept_def by blast
  show ?case
  proof (cases "0 \<le> rc \<or> \<not> retry \<or> MAX_RETRIES \<le> retries")
    case True
    then show ?thesis using 1(1) 2(1,2) p2 by (auto simp: submit_loop.simps [of c p retries])
  next
    case False
    obtain s3 where 3: "c_sleep c (retries + 1) s2 = Some s3" "sim_inv s3" "live_kept s2 s3"
      using assms 2(2) unfolding submit_ok_def by blast
    have p3: "p \<in> dom (a_heap (act s3))" using p2 3(3) unfolding live_kept_def by blast
    have "MAX_RETRIES - (retries + 1) < MAX_RETRIES - retries" using False by linarith
    from less.hyps [OF this 3(2) p3] show ?thesis using False 1(1) 2(1) 3(1)
      by (simp add: submit_loop.simps [of c p retries])
  qed
qed

lemma submit_job_good:
  assumes "ctl_ok c" "submit_ok c" "sim_inv s"
  shows "\<exists>s' e'. submit_job c e s = Some (s', e') \<and> sim_inv s'"
proof -
  obtain s1 go where 1: "c_sbatch_options c (s_argv e) s = Some (s1, go)" "sim_inv s1"
    using assms(2,3) unfolding submit_ok_def by blast
  show ?thesis
  proof (cases go)
    case False
    then show ?thesis using 1 by (simp add: submit_job_def)
  next
    case True
    obtain s2 t where 2: "get_sim_utime c s1 = (s2, t)" by fastforce
    note g = get_sim_utime_good [OF assms(1) 1(2) 2]
    obtain es js where js: "pending (evs s2) es" "job_list (act s2) js" "\<forall>j \<in> set js. start_ok j"
      using sim_invD [OF g(1)] by blast
    obtain a where a: "sim_insert_sim_active_job (act s2) e t = Some (a, a_fresh (act s2))"
      "job_list a (insert_job (new_job e t) js)" "a_fresh (act s2) \<in> dom (a_heap a)"
      using insert_live [OF js(2)] by blast
    have "start_ok (new_job e t)" using g(5,6) by (simp add: start_ok_def new_job_def)
    then have "\<forall>j \<in> set (insert_job (new_job e t) js). start_ok j" using js(3) by (simp add: set_insert_job)
    then have "sim_inv (s2\<lparr>act := a\<rparr>)" using js(1) a(2) by (intro sim_invI [of _ es "insert_job (new_job e t) js"]) simp_all
    from submit_loop_good [OF assms(2) this, of "a_fresh (act s2)" 0 e] a(3)
    obtain s3 e3 resp where 3: "submit_loop c (a_fresh (act s2)) 0 e (s2\<lparr>act := a\<rparr>) = Some (s3, e3, resp)" "sim_inv s3"
      "a_fresh (act s2) \<in> dom (a_heap (act s3))" by auto
    show ?thesis
    proof (cases resp)
      case None
      then show ?thesis using True 1(1) 2 a(1) 3 by (simp add: submit_job_def)
    next
      case (Some rid)
      obtain s4 where 4: "c_post_submit c rid s3 = Some s4" "sim_inv s4" "live_kept s3 s4"
        using assms(2) 3(2) unfolding submit_ok_def by blast
      then have "a_fresh (act s2) \<in> dom (a_heap (act s4))" using 3(3) unfolding live_kept_def by blast
      from set_response_good [OF 4(2) this] show ?thesis
        using True 1(1) 2 a(1) 3(1) 4(1) Some by (fastforce simp: submit_job_def)
    qed
  qed
qed

subsection \<open>Every node of a job\<close>

definition job_nodes :: "bool \<Rightarrow> job_record \<Rightarrow> bitstr option" where
  "job_nodes cg job = (if cg then jr_node_bitmap_cg job else jr_node_bitmap job)"

definition node_names :: "string option list \<Rightarrow> bitstr \<Rightarrow> nat \<Rightarrow> string list" where
  "node_names table b i = map (\<lambda>k. the (table ! k)) (filter (node_at table b) [i..<length table])"

fun epilog_each :: "'w ctl \<Rightarrow> u32 \<Rightarrow> string list \<Rightarrow> bool \<Rightarrow> 'w sim \<Rightarrow> ('w sim \<times> bool) option" where
  "epilog_each c jid [] completed s = Some (s, completed)"
| "epilog_each c jid (n # ns) completed s =
     Option.bind (c_job_epilog_complete c jid n s) (\<lambda>(s, ok). epilog_each c jid ns (completed \<or> ok) s)"

text \<open>
  What an epilog on node \<open>k\<close> may do to the bitmap the loop runs over: nothing to
  the positions after \<open>k\<close>, except that the bitmap of completing nodes may go
  away when there are none.
\<close>

definition later_nodes_kept :: "'w ctl \<Rightarrow> u32 \<Rightarrow> bool \<Rightarrow> bool" where
  "later_nodes_kept c jid cg \<longleftrightarrow> (\<forall>s job b k s' ok.
     c_find_job c (world s) jid = Some job \<longrightarrow> job_nodes cg job = Some b \<longrightarrow> node_at (c_node_table c (world s)) b k \<longrightarrow>
     c_job_epilog_complete c (jr_job_id job) (the (c_node_table c (world s) ! k)) s = Some (s', ok) \<longrightarrow>
     c_node_table c (world s') = c_node_table c (world s)
     \<and> (\<exists>job'. c_find_job c (world s') jid = Some job' \<and> jr_job_id job' = jr_job_id job
          \<and> (case job_nodes cg job' of
               None \<Rightarrow> cg \<and> (\<forall>j > k. \<not> node_at (c_node_table c (world s)) b j)
             | Some b' \<Rightarrow> bs_bits b' = bs_bits b \<and> (\<forall>j > k. j \<in> bset b' \<longleftrightarrow> j \<in> bset b))))"

lemma node_names_none: "next_is table b i None \<Longrightarrow> node_names table b i = []"
  by (auto simp: node_names_def next_is_def filter_empty_conv not_less [symmetric])

lemma node_names_some:
  assumes "next_is table b i (Some (k, name))"
  shows "node_names table b i = name # node_names table b (k + 1)"
proof -
  have k: "i \<le> k" "k < length table" "node_at table b k" "table ! k = Some name"
    using assms by (auto simp: next_is_def node_at_def)
  have "[i..<length table] = [i..<k] @ k # [k + 1..<length table]"
    using k(1,2) upt_add_eq_append [of i k "length table - k"] by (simp add: upt_conv_Cons)
  moreover have "filter (node_at table b) [i..<k] = []"
    using assms by (auto simp: next_is_def filter_empty_conv)
  ultimately show ?thesis using k by (simp add: node_names_def)
qed

lemma node_names_cong:
  assumes "\<forall>j \<ge> i. j \<in> bset b' \<longleftrightarrow> j \<in> bset b"
  shows "node_names table b' i = node_names table b i"
  using assms by (auto simp: node_names_def node_at_def intro!: arg_cong [where f = "map _"] filter_cong)

lemma epilog_nodes_each:
  assumes "later_nodes_kept c jid cg" "table = c_node_table c (world s)" "c_find_job c (world s) jid = Some job"
    "job_nodes cg job = Some b" "bs_bits b = length table"
  shows "epilog_nodes c jid cg i completed s = epilog_each c (jr_job_id job) (node_names table b i) completed s"
  using assms(2-)
proof (induction "length table - i" arbitrary: i completed s job b rule: less_induct)
  case less
  obtain r where r: "next_node_bitmap table b i = Some r" "next_is table b i r" using next_node_spec [OF less.prems(4)] by blast
  have step: "epilog_nodes c jid cg i completed s = (case r of
      None \<Rightarrow> Some (s, completed)
    | Some (k, name) \<Rightarrow> Option.bind (c_job_epilog_complete c (jr_job_id job) name s) (\<lambda>(s, ok).
        epilog_nodes c jid cg (k + 1) (completed \<or> ok) s))"
    using less.prems r(1) by (simp add: epilog_nodes.simps [of c jid cg i] job_nodes_def cong: if_cong)
       (simp split: option.split)
  show ?case
  proof (cases r)
    case None
    then show ?thesis using step r(2) by (simp add: node_names_none)
  next
    case (Some kn)
    obtain k name where kn: "kn = (k, name)" by fastforce
    have k: "i \<le> k" "k < length table" "node_at table b k" "table ! k = Some name"
      using r(2) Some kn by (auto simp: next_is_def node_at_def)
    have next': "epilog_nodes c jid cg (k + 1) d s' = epilog_each c (jr_job_id job) (node_names table b (k + 1)) d s'"
      if e: "c_job_epilog_complete c (jr_job_id job) name s = Some (s', ok)" for s' ok d
    proof -
      have kept: "c_node_table c (world s') = table \<and> (\<exists>job'. c_find_job c (world s') jid = Some job' \<and> jr_job_id job' = jr_job_id job
          \<and> (case job_nodes cg job' of None \<Rightarrow> cg \<and> (\<forall>j > k. \<not> node_at table b j)
             | Some b' \<Rightarrow> bs_bits b' = bs_bits b \<and> (\<forall>j > k. j \<in> bset b' \<longleftrightarrow> j \<in> bset b)))"
        using assms(1) [unfolded later_nodes_kept_def, rule_format, of s job b k s' ok] less.prems(2,3) k e
        unfolding less.prems(1) by simp
      then obtain job' where j': "c_find_job c (world s') jid = Some job'" "jr_job_id job' = jr_job_id job" by blast
      show ?thesis
      proof (cases "job_nodes cg job'")
        case None
        then have "cg" "\<forall>j > k. \<not> node_at table b j" using kept j' by auto
        moreover then have "node_names table b (k + 1) = []" by (intro node_names_none) (auto simp: next_is_def not_less_eq)
        ultimately show ?thesis using None j' by (simp add: epilog_nodes.simps [of c jid True "Suc k"] job_nodes_def)
      next
        case (Some b')
        then have b': "bs_bits b' = bs_bits b" "\<forall>j > k. j \<in> bset b' \<longleftrightarrow> j \<in> bset b" using kept j' by auto
        have "length table - (k + 1) < length table - i" using k by simp
        from less.hyps [OF this _ j'(1) Some] show ?thesis
          using kept b' less.prems(4) j'(2) node_names_cong [of "k + 1" b' b table] by auto
      qed
    qed
    show ?thesis unfolding step using Some kn r(2) next'
      by (cases "c_job_epilog_complete c (jr_job_id job) name s") (auto simp: node_names_some)
  qed
qed

subsection \<open>Requests for a known job\<close>

text \<open>A job that is the first of its id in the list of active jobs.\<close>

definition listed :: "'w sim \<Rightarrow> ptr list \<Rightarrow> ptr \<Rightarrow> u32 \<Rightarrow> bool" where
  "listed s ps p jid \<longleftrightarrow> jobs_at (act s) ps
     \<and> List.find (\<lambda>q. j_job_id (job_at (act s) q) = jid) ps = Some p"

lemma find_active_listed:
  assumes "listed s ps p jid"
  shows "find_active c jid s = Some (s, p)" "p \<noteq> 0" "\<exists>n. a_heap (act s) p = Some n \<and> job_at (act s) p = plain n" "p \<in> set ps"
proof -
  have ps: "jobs_at (act s) ps" and f: "List.find (\<lambda>q. j_job_id (job_at (act s) q) = jid) ps = Some p"
    using assms by (simp_all add: listed_def)
  show p: "p \<in> set ps" using find_first [OF f] by auto
  show p0: "p \<noteq> 0" using p ps dseg_nonnull [of j_next j_previous "a_heap (act s)" 0 "a_first (act s)" ps 0 p]
    by (simp add: jobs_at_def)
  show "\<exists>n. a_heap (act s) p = Some n \<and> job_at (act s) p = plain n"
  proof -
    have "p \<in> dom (a_heap (act s))" using p ps by (simp add: jobs_at_def)
    then show ?thesis by (auto simp: job_at_def)
  qed
  show "find_active c jid s = Some (s, p)"
    using find_walk_jobs [OF ps, of "\<lambda>j. j_job_id j = jid"] f p0
    by (simp add: find_active_def sim_find_active_sim_job_def)
qed

lemma set_job_listed:
  fixes f :: "sim_job \<Rightarrow> sim_job"
  assumes "listed s ps p jid" and f: "\<And>j. j_next (f j) = j_next j" "\<And>j. j_previous (f j) = j_previous j"
    "\<And>j. j_job_id (f j) = j_job_id j" "\<And>j. plain (f j) = f (plain j)"
  shows "\<exists>s'. set_job p f s = Some s' \<and> listed s' ps p jid \<and> evs s' = evs s \<and> world s' = world s
    \<and> job_at (act s') p = f (job_at (act s) p) \<and> (\<forall>q \<in> set ps - {p}. job_at (act s') q = job_at (act s) q)"
proof -
  obtain n where n: "a_heap (act s) p = Some n" using find_active_listed(3) [OF assms(1)] by blast
  note L = find_active_listed(2,4) [OF assms(1)]
  have ps: "jobs_at (act s) ps" using assms(1) by (simp add: listed_def)
  let ?a = "act s\<lparr>a_heap := (a_heap (act s))(p \<mapsto> f n)\<rparr>"
  have at: "job_at ?a p = f (job_at (act s) p)" "q \<noteq> p \<Longrightarrow> job_at ?a q = job_at (act s) q" for q
    using n f(4) by (simp_all add: job_at_def)
  have "jobs_at ?a ps" using jobs_at_update [OF ps n L(2) f(1,2)] .
  moreover have "j_job_id (job_at ?a q) = j_job_id (job_at (act s) q)" for q
    using at f(3) by (cases "q = p") simp_all
  ultimately have "listed (s\<lparr>act := ?a\<rparr>) ps p jid" using assms(1) by (simp add: listed_def)
  then show ?thesis using at n L(1) by (simp add: set_job_def store_some)
qed

lemma insert_at_pending:
  assumes "pending (evs s) es" "0 \<le> w" "w < INT64_MAX"
  shows "\<exists>s'. insert_at w t pl s = Some s' \<and> pending (evs s') (insert_after e_when (new_event w t pl) es) \<and> act s' = act s \<and> world s' = world s"
  using insert_refines_queue [OF assms, of t pl] by (fastforce simp: insert_at_def)

lemma get_sim_utime_run: "c_utime c (world s) = (t, w) \<Longrightarrow> get_sim_utime c s = (s\<lparr>world := w\<rparr>, t)"
  by (simp add: get_sim_utime_def)

subsection \<open>Properties\<close>

text \<open>A daemon that has one job on one node and whose calls do nothing.\<close>

definition sample_ctl :: "unit ctl" where
  "sample_ctl = \<lparr>
     c_conf = \<lparr>microseconds_before_first_job = 30000000, time_after_all_events_done = 0, first_job_delay = 0,
               comp_job_delay = 1000000, timelimit_delay = 500000\<rparr>,
     c_utime = \<lambda>w. (1000, w), c_set_time = \<lambda>t w. w,
     c_find_job = \<lambda>w jid. if jid = 1001
       then Some \<lparr>jr_job_id = 1001, jr_name = ''jobid_7'', jr_user_id = 0, jr_state = 1,
                  jr_node_bitmap_cg = None, jr_node_bitmap = None, jr_start_time = 0\<rparr> else None,
     c_node_table = \<lambda>w. [Some ''n0''], c_end_batch_step = \<lambda>jid s. Some s, c_job_complete = \<lambda>jid uid s. Some (s, 0),
     c_job_epilog_complete = \<lambda>jid n s. Some (s, False), c_schedule = Some, c_queue_job_scheduler = Some,
     c_save_state = Some, c_agent_count = \<lambda>w. 0, c_defer_sched = \<lambda>w. False, c_sbatch_options = \<lambda>argv s. Some (s, True),
     c_submit = \<lambda>argv s. Some (s, 0, Some 1001, False), c_sleep = \<lambda>n s. Some s, c_post_submit = \<lambda>jid s. Some s,
     c_agent_queue = \<lambda>m s. Some s\<rparr>"

definition sample_sim :: "unit sim" where
  "sample_sim = \<lparr>evs = sentinels, act = no_jobs, world = (), rt_events = \<lambda>_. 0, rt_events_post_wait = \<lambda>_. 0,
                 run_scheduler = False\<rparr>"

lemma sample_sim_inv: "sim_inv sample_sim"
  by (rule sim_invI [of _ "[event_at sentinels 1]" "[]"])
     (use sentinels_pending no_jobs_at in \<open>auto simp: sample_sim_def job_list_def\<close>)

lemma sample_ctl_ok: "ctl_ok sample_ctl" "submit_ok sample_ctl" "known sample_ctl s 1001"
  by (auto simp: ctl_ok_def clock_ok_def records_ok_def calls_ok_def submit_ok_def good_def good2_def known_def
      sample_ctl_def usec_year_def INT64_MAX_def sample_sim_id live_kept_def)

text \<open>C10: As long as the calls into the scheduler daemon keep the simulator's event
  list and job list well formed and leave job records in place, so does every
  handler: submission, launch, time limit, completion of the batch script and
  of the epilog all return, without a bad dereference, in a state whose lists
  are well formed.\<close>

theorem handlers_keep_invariant:
  assumes "ctl_ok c" "submit_ok c" "sim_inv s" "known c s jid"
  shows "(\<exists>s' e'. submit_job c e s = Some (s', e') \<and> sim_inv s')
    \<and> (\<exists>s'. agent_queue_request c (REQUEST_BATCH_JOB_LAUNCH jid) s = Some s' \<and> sim_inv s')
    \<and> (\<exists>s'. agent_queue_request c (REQUEST_KILL_TIMELIMIT jid) s = Some s' \<and> sim_inv s')
    \<and> (\<exists>s'. sim_complete_job c jid s = Some s' \<and> sim_inv s')
    \<and> (\<exists>s'. sim_rpc_epilog_complete c jid s = Some s' \<and> sim_inv s')"
  using submit_job_good [OF assms(1-3), of e] agent_queue_request_good [OF assms(1,3), of "REQUEST_BATCH_JOB_LAUNCH jid"]
    agent_queue_request_good [OF assms(1,3), of "REQUEST_KILL_TIMELIMIT jid"] sim_complete_job_good [OF assms(1,3), of jid]
    sim_rpc_epilog_complete_good [OF assms(1,3), of jid] assms(4)
  unfolding good_def agent_msg.case by blast

theorem handlers_keep_invariant_witness:
  "(\<exists>s'. sim_complete_job sample_ctl 1001 sample_sim = Some s' \<and> sim_inv s')
   \<and> (\<exists>s' e'. submit_job sample_ctl (sample_submit 0 7) sample_sim = Some (s', e') \<and> sim_inv s')"
  using handlers_keep_invariant [OF sample_ctl_ok(1,2) sample_sim_inv sample_ctl_ok(3), of "sample_submit 0 7"] by blast

text \<open>When the daemon asks for the launch of a listed job that has not started,
  the simulator records the current time as its start and queues the end of
  its batch script after the job's run time. A run time of a year or more, or
  a negative one, queues nothing: such a job runs until its time limit.\<close>

lemma launch_schedules_completion:
  assumes "listed s ps p jid" "pending (evs s) es" "c_utime c (world s) = (t, w)" "0 \<le> t" "t + usec_year < INT64_MAX"
    and "j_start_time (job_at (act s) p) = 0"
  defines "wall \<equiv> j_walltime (job_at (act s) p)"
  shows "\<exists>s'. agent_queue_request c (REQUEST_BATCH_JOB_LAUNCH jid) s = Some s' \<and> listed s' ps p jid
    \<and> job_at (act s') p = (job_at (act s) p)\<lparr>j_start_time := t\<rparr>
    \<and> pending (evs s') (if 0 \<le> wall \<and> wall < usec_year
        then insert_after e_when (new_event (t + wall) SIM_COMPLETE_BATCH_SCRIPT (Job_Pointer p)) es else es)"
proof -
  note L = find_active_listed [OF assms(1)]
  obtain n where n: "a_heap (act s) p = Some n" "job_at (act s) p = plain n" using L(3) by blast
  let ?s = "s\<lparr>world := w\<rparr>" and ?f = "\<lambda>j. j\<lparr>j_start_time := t\<rparr>"
  have "listed ?s ps p jid" using assms(1) by (simp add: listed_def)
  from set_job_listed [OF this, of ?f] obtain s1 where s1: "set_job p ?f ?s = Some s1" "listed s1 ps p jid"
    "evs s1 = evs s" "job_at (act s1) p = ?f (job_at (act s) p)" by (auto simp: plain_def)
  obtain m where m: "a_heap (act s1) p = Some m" "job_at (act s1) p = plain m"
    using find_active_listed(3) [OF s1(2)] by blast
  have mv: "j_walltime m = wall" "j_start_time m = t"
    using arg_cong [OF m(2), of j_walltime] arg_cong [OF m(2), of j_start_time] s1(4) by (simp_all add: wall_def)
  have run: "agent_queue_request c (REQUEST_BATCH_JOB_LAUNCH jid) s =
      (if wall < usec_year \<and> 0 \<le> wall then insert_at (t + wall) SIM_COMPLETE_BATCH_SCRIPT (Job_Pointer p) s1 else Some s1)"
    using L(1,2) n s1(1) m(1) mv assms(6) get_sim_utime_run [OF assms(3)]
    by (simp add: agent_queue_request_def sim_insert_event_comp_job_def)
  show ?thesis
  proof (cases "0 \<le> wall \<and> wall < usec_year")
    case True
    then obtain s2 where "insert_at (t + wall) SIM_COMPLETE_BATCH_SCRIPT (Job_Pointer p) s1 = Some s2"
      "pending (evs s2) (insert_after e_when (new_event (t + wall) SIM_COMPLETE_BATCH_SCRIPT (Job_Pointer p)) es)"
      "act s2 = act s1"
      using insert_at_pending [of s1 es "t + wall" SIM_COMPLETE_BATCH_SCRIPT "Job_Pointer p"] assms(2,4,5) s1(3) by auto
    then show ?thesis using run True s1(2,4) by (auto simp: listed_def)
  next
    case False
    then show ?thesis using run s1 assms(2) by auto
  qed
qed

text \<open>A state with the sample job submitted and known under the daemon's id.\<close>

definition sample_job :: sim_job where
  "sample_job = new_job (sample_submit 1001 7) 0"

definition sample_listed :: "unit sim" where
  "sample_listed = sample_sim\<lparr>act := \<lparr>a_heap = [1 \<mapsto> sample_job], a_first = 1, a_last = 1, a_fresh = 2\<rparr>\<rparr>"

lemma sample_listed_facts:
  "listed sample_listed [1] 1 1001" "pending (evs sample_listed) [event_at sentinels 1]"
  "job_at (act sample_listed) 1 = sample_job" "j_start_time sample_job = 0" "j_walltime sample_job = 60000000"
  "j_requested_kill_timelimit sample_job = 0" "j_comp_job sample_job = 0"
  using sentinels_pending
  by (simp_all add: listed_def sample_listed_def sample_sim_def jobs_at_def job_at_def sample_job_def new_job_def
      sample_submit_def plain_def)

text \<open>A request to kill a listed job at its time limit queues the end of its
  batch script after the configured delay, once: the same request again, at any
  later time, changes nothing.\<close>

lemma kill_timelimit_once:
  assumes "listed s ps p jid" "pending (evs s) es" "c_utime c (world s) = (t, w)" "0 \<le> t + timelimit_delay (c_conf c)"
    and "t + timelimit_delay (c_conf c) < INT64_MAX" "j_requested_kill_timelimit (job_at (act s) p) = 0"
  shows "\<exists>s'. agent_queue_request c (REQUEST_KILL_TIMELIMIT jid) s = Some s'
    \<and> pending (evs s') (insert_after e_when
        (new_event (t + timelimit_delay (c_conf c)) SIM_COMPLETE_BATCH_SCRIPT (Job_Pointer p)) es)
    \<and> (\<forall>w'. agent_queue_request c (REQUEST_KILL_TIMELIMIT jid) (s'\<lparr>world := w'\<rparr>) = Some (s'\<lparr>world := w'\<rparr>))"
proof -
  note L = find_active_listed [OF assms(1)]
  obtain n where n: "a_heap (act s) p = Some n" "job_at (act s) p = plain n" using L(3) by blast
  let ?f = "\<lambda>j. j\<lparr>j_requested_kill_timelimit := 1\<rparr>" and ?w = "t + timelimit_delay (c_conf c)"
  from set_job_listed [OF assms(1), of ?f] obtain s1 where s1: "set_job p ?f s = Some s1" "listed s1 ps p jid"
    "evs s1 = evs s" "world s1 = world s" "job_at (act s1) p = ?f (job_at (act s) p)" by (auto simp: plain_def)
  let ?s1 = "s1\<lparr>world := w\<rparr>"
  obtain s2 where s2: "insert_at ?w SIM_COMPLETE_BATCH_SCRIPT (Job_Pointer p) ?s1 = Some s2"
    "pending (evs s2) (insert_after e_when (new_event ?w SIM_COMPLETE_BATCH_SCRIPT (Job_Pointer p)) es)" "act s2 = act s1"
    using insert_at_pending [of ?s1 es ?w SIM_COMPLETE_BATCH_SCRIPT "Job_Pointer p"] assms(2,4,5) s1(3) by auto
  have run: "agent_queue_request c (REQUEST_KILL_TIMELIMIT jid) s = Some s2"
    using L(1,2) n s1(1) s2(1) assms(6) get_sim_utime_run [of c s1 t w] assms(3) s1(4)
    by (simp add: agent_queue_request_def sim_job_requested_kill_timelimit_def)
  have "agent_queue_request c (REQUEST_KILL_TIMELIMIT jid) (s2\<lparr>world := w'\<rparr>) = Some (s2\<lparr>world := w'\<rparr>)" for w'
  proof -
    have l: "listed (s2\<lparr>world := w'\<rparr>) ps p jid" using s1(2) s2(3) by (simp add: listed_def)
    obtain m where m: "a_heap (act s2) p = Some m" "job_at (act s2) p = plain m"
      using find_active_listed(3) [OF l] by auto
    have "j_requested_kill_timelimit m = 1"
      using arg_cong [OF m(2), of j_requested_kill_timelimit] s1(5) s2(3) by simp
    then show ?thesis using find_active_listed(1,2) [OF l] m(1)
      by (simp add: agent_queue_request_def sim_job_requested_kill_timelimit_def)
  qed
  then show ?thesis using run s2(2) by blast
qed

text \<open>The end of a job reaches each of its nodes exactly once, in the order of
  the node table: the loops over the job's bitmaps, which search the bitmap
  again after every node because the epilog of one node changes it, call
  \<^verbatim>\<open>job_epilog_complete\<close> for the names of the set positions with a node, and the
  result is true when one of the calls returned true.\<close>

lemma epilog_reaches_every_node:
  assumes "c_find_job c (world s) jid = Some job" "later_nodes_kept c jid (jr_node_bitmap_cg job \<noteq> None)"
    and "job_nodes (jr_node_bitmap_cg job \<noteq> None) job = Some b" "bs_bits b = length (c_node_table c (world s))"
  shows "sim_job_epilog_complete_all_nodes c jid s =
    epilog_each c (jr_job_id job) (node_names (c_node_table c (world s)) b 0) False s"
  using epilog_nodes_each [OF assms(2) refl assms(1,3,4), of 0 False] assms(1,3)
  by (auto simp: sim_job_epilog_complete_all_nodes_def job_nodes_def split: if_splits)

text \<open>A daemon whose one job runs on the first and the third of three nodes.\<close>

definition three_ctl :: "unit ctl" where
  "three_ctl = sample_ctl\<lparr>
     c_node_table := \<lambda>w. [Some ''n0'', Some ''n1'', Some ''n2''],
     c_find_job := \<lambda>w jid. if jid = 1001
       then Some \<lparr>jr_job_id = 1001, jr_name = ''jobid_7'', jr_user_id = 0, jr_state = 1, jr_node_bitmap_cg = None,
                  jr_node_bitmap = Some (bit_set (bit_set (bit_alloc 3) 0) 2), jr_start_time = 0\<rparr> else None,
     c_job_epilog_complete := \<lambda>jid n s. Some (s, n = ''n2'')\<rparr>"

end
