(* ===== verification/Sim_Loop.thy ===== *)
theory Sim_Loop
  imports Sim_Handlers
begin

text \<open>
  The simulated main loop of \<^verbatim>\<open>contribs/sim/slurmctld_controller.c\<close> and the
  scheduler agent of \<^verbatim>\<open>contribs/sim/slurmctld_job_scheduler.c\<close>: taking the events
  that are due, running the agents whose time has come, the end of the
  simulation, and the jump of the clock to the next point of interest.
\<close>

subsection \<open>State\<close>

text \<open>
  The globals and static variables that the loop shares with the daemon; \<open>'v\<close> is
  the rest of the daemon's state. A \<^verbatim>\<open>struct timeval\<close> is kept in microseconds.
\<close>

record 'v globals =
  sim_main_thread_sleep_till :: int
  sim_sched_thread_cond_wait_till :: int
  sim_plugin_backfill_thread_sleep_till :: int
  sim_slurmdbd_agent_sleep_till :: int
  sim_slurmdbd_agent_count :: int
  sched_requests :: int
  sched_full_queue :: bool
  sched_last :: int
  sched_min_interval :: int
  sched_first_run :: bool
  shutdown_time :: int
  jobs_running :: int
  jobs_pending :: int
  proc_rec_count :: int
  process_create_time_sim :: int
  backfill_depth :: int
  loop_first_run :: bool
  loop_depth :: int
  all_done :: int
  scaling_on :: bool
  time_skipped :: int
  count :: int
  count_noskip :: int
  count_skip :: int
  count_next_event :: int
  count_backfill :: int
  count_slurmdbd :: int
  count_sched :: int
  daemon :: 'v

type_synonym 'v st = "'v globals sim"

text \<open>
  The calls of the loop into the daemon. A function pointer that may be null is
  an option. \<open>l_schedule\<close> is \<^verbatim>\<open>_schedule\<close>, with the number of jobs it started;
  \<open>l_backfill_agent\<close> returns the time of the next backfill cycle and may run the
  loop again through \<^verbatim>\<open>sim_mini_loop\<close>.
\<close>

record 'v loop_ctl =
  l_ctl :: "'v globals ctl"
  l_registration_engine :: "'v st \<Rightarrow> 'v st option"
  l_node_did_resp :: "string \<Rightarrow> 'v st \<Rightarrow> 'v st option"
  l_make_node_idle :: "string \<Rightarrow> 'v st \<Rightarrow> 'v st option"
  l_acct_update :: "'v st \<Rightarrow> 'v st option"
  l_decay_thread :: "('v st \<Rightarrow> 'v st option) option"
  l_set_db_inx_thread :: "('v st \<Rightarrow> 'v st option) option"
  l_slurmdbd_agent :: "('v st \<Rightarrow> 'v st option) option"
  l_backfill_agent :: "('v st \<Rightarrow> ('v st \<times> int) option) option"
  l_schedule :: "bool \<Rightarrow> 'v st \<Rightarrow> ('v st \<times> int) option"
  l_update_diag :: "'v globals \<Rightarrow> 'v globals"
  l_set_time_scale :: "'v globals \<Rightarrow> 'v globals"
  l_background :: "'v st \<Rightarrow> 'v st option"
  l_priority_calc_period :: int

abbreviation upd :: "('v globals \<Rightarrow> 'v globals) \<Rightarrow> 'v st \<Rightarrow> 'v st" where
  "upd f s \<equiv> s\<lparr>world := f (world s)\<rparr>"

subsection \<open>Run time marks\<close>

datatype slurm_sim_rt_event =
    GENERAL_SSIM_RT_EVENT
  | SUBMIT_JOB_SSIM_RT_EVENT
  | SCHED_SSIM_RT_EVENT
  | EPILOG_COMPLETE_SSIM_RT_EVENT

definition MAX_RT_EVENT_TYPES :: nat where
  "MAX_RT_EVENT_TYPES = 4"

primrec rt_index :: "slurm_sim_rt_event \<Rightarrow> nat" where
  "rt_index GENERAL_SSIM_RT_EVENT = 1"
| "rt_index SUBMIT_JOB_SSIM_RT_EVENT = 2"
| "rt_index SCHED_SSIM_RT_EVENT = 3"
| "rt_index EPILOG_COMPLETE_SSIM_RT_EVENT = 4"

text \<open>
  The two arrays are cells from the array's base on, so that a write past the
  last entry is visible as a change of a cell that is not the array's.
\<close>

definition event_expect :: "slurm_sim_rt_event \<Rightarrow> 'w sim \<Rightarrow> 'w sim" where
  "event_expect t s = s\<lparr>rt_events := (rt_events s)(rt_index t := 1)\<rparr>"

definition event_started :: "'w ctl \<Rightarrow> slurm_sim_rt_event \<Rightarrow> 'w sim \<Rightarrow> 'w sim" where
  "event_started c t s =
     (let (s, now) = get_sim_utime c s;
          s = s\<lparr>rt_events := (rt_events s)(rt_index t := now)\<rparr>
      in case t of
           SUBMIT_JOB_SSIM_RT_EVENT \<Rightarrow> event_expect SCHED_SSIM_RT_EVENT s
         | EPILOG_COMPLETE_SSIM_RT_EVENT \<Rightarrow> event_expect SCHED_SSIM_RT_EVENT s
         | _ \<Rightarrow> s)"

definition event_ended :: "'w ctl \<Rightarrow> slurm_sim_rt_event \<Rightarrow> 'w sim \<Rightarrow> 'w sim" where
  "event_ended c t s =
     (let (s, now) = get_sim_utime c s;
          s = s\<lparr>rt_events := (rt_events s)(rt_index t := 0)\<rparr>
      in case t of
           SUBMIT_JOB_SSIM_RT_EVENT \<Rightarrow> s\<lparr>rt_events_post_wait := (rt_events_post_wait s)(rt_index t := now + 1000000)\<rparr>
         | EPILOG_COMPLETE_SSIM_RT_EVENT \<Rightarrow> s\<lparr>rt_events_post_wait := (rt_events_post_wait s)(rt_index t := now + 1000000)\<rparr>
         | _ \<Rightarrow> s)"

subsection \<open>Events\<close>

definition USEC_IN_SEC :: int where
  "USEC_IN_SEC = 1000000"

text \<open>All nodes of the table are marked as responding and idle.\<close>

fun nodes_up :: "'v loop_ctl \<Rightarrow> string option list \<Rightarrow> 'v st \<Rightarrow> 'v st option" where
  "nodes_up c [] s = Some s"
| "nodes_up c (None # ns) s = nodes_up c ns s"
| "nodes_up c (Some n # ns) s =
     Option.bind (l_node_did_resp c n s) (\<lambda>s. Option.bind (l_make_node_idle c n s) (nodes_up c ns))"

definition call_ref :: "('v st \<Rightarrow> 'v st option) option \<Rightarrow> 'v st \<Rightarrow> 'v st option" where
  "call_ref r s = (case r of None \<Rightarrow> Some s | Some f \<Rightarrow> f s)"

definition payload_job_id :: "payload \<Rightarrow> 'w sim \<Rightarrow> u32 option" where
  "payload_job_id pl s = (case pl of Job_Pointer p \<Rightarrow> map_option j_job_id (deref (a_heap (act s)) p) | _ \<Rightarrow> None)"

text \<open>
  The \<^verbatim>\<open>switch\<close> on the type of the event at address \<open>p\<close>. The case of a completed
  epilog has no \<^verbatim>\<open>break\<close> and runs into the accounting update.
\<close>

definition handle_event :: "'v loop_ctl \<Rightarrow> ptr \<Rightarrow> 'v st \<Rightarrow> 'v st option" where
  "handle_event c p s = do {
     e \<leftarrow> deref (ev_heap (evs s)) p;
     case e_type e of
       SIM_NODE_REGISTRATION \<Rightarrow> do {
         s \<leftarrow> l_registration_engine c (event_started (l_ctl c) GENERAL_SSIM_RT_EVENT s);
         s \<leftarrow> nodes_up c (c_node_table (l_ctl c) (world s)) s;
         Some (event_ended (l_ctl c) GENERAL_SSIM_RT_EVENT s) }
     | SIM_SUBMIT_BATCH_JOB \<Rightarrow>
         (case e_payload e of
            Submission d \<Rightarrow> do {
              (s, d') \<leftarrow> submit_job (l_ctl c) d (event_started (l_ctl c) SUBMIT_JOB_SSIM_RT_EVENT s);
              h \<leftarrow> store (ev_heap (evs s)) p (\<lambda>e. e\<lparr>e_payload := Submission d'\<rparr>);
              Some (event_ended (l_ctl c) SUBMIT_JOB_SSIM_RT_EVENT (s\<lparr>evs := (evs s)\<lparr>ev_heap := h\<rparr>\<rparr>)) }
          | _ \<Rightarrow> None)
     | SIM_COMPLETE_BATCH_SCRIPT \<Rightarrow> do {
         let s = event_started (l_ctl c) GENERAL_SSIM_RT_EVENT s;
         jid \<leftarrow> payload_job_id (e_payload e) s;
         s \<leftarrow> sim_complete_job (l_ctl c) jid s;
         Some (event_ended (l_ctl c) GENERAL_SSIM_RT_EVENT s) }
     | SIM_EPILOG_COMPLETE \<Rightarrow> do {
         let s = event_started (l_ctl c) EPILOG_COMPLETE_SSIM_RT_EVENT s;
         jid \<leftarrow> payload_job_id (e_payload e) s;
         s \<leftarrow> sim_rpc_epilog_complete (l_ctl c) jid s;
         l_acct_update c (event_ended (l_ctl c) EPILOG_COMPLETE_SSIM_RT_EVENT s) }
     | SIM_ACCOUNTING_UPDATE \<Rightarrow> l_acct_update c s
     | SIM_PRIORITY_DECAY \<Rightarrow> do {
         s \<leftarrow> call_ref (l_decay_thread c) s;
         insert_at (e_when e + l_priority_calc_period c * USEC_IN_SEC) SIM_PRIORITY_DECAY No_Payload s }
     | SIM_SET_DB_INDEX \<Rightarrow> do {
         s \<leftarrow> call_ref (l_set_db_inx_thread c) s;
         insert_at (e_when e + 5 * USEC_IN_SEC) SIM_SET_DB_INDEX No_Payload s }
     | _ \<Rightarrow> Some s }"

partial_function (option) due_loop :: "'v loop_ctl \<Rightarrow> int \<Rightarrow> 'v st \<Rightarrow> ('v st \<times> int) option" where
  "due_loop c now s =
     Option.bind (deref (ev_heap (evs s)) (ev_next (evs s))) (\<lambda>n.
       if e_when n \<le> now
       then Option.bind (sim_pop_next_event (evs s)) (\<lambda>(l, p).
            Option.bind (handle_event c p (s\<lparr>evs := l\<rparr>)) (\<lambda>s.
              let (s, now) = get_sim_utime (l_ctl c) s in due_loop c now s))
       else Some (s, now))"

subsection \<open>Agents\<close>

definition sim_sched_agent_loop :: "'v loop_ctl \<Rightarrow> int \<Rightarrow> 'v st \<Rightarrow> ('v st \<times> bool) option" where
  "sim_sched_agent_loop c now64 s =
     (if shutdown_time (world s) \<noteq> 0 then Some (s, False)
      else
        let s = (if sched_first_run (world s)
                 then upd (\<lambda>g. g\<lparr>sim_sched_thread_cond_wait_till := 0, sched_first_run := False\<rparr>) s else s)
        in if sched_requests (world s) = 0 then Some (s, False)
           else if sim_sched_thread_cond_wait_till (world s) > now64 then Some (s, False)
           else
             let (s, now) = get_sim_utime (l_ctl c) s;
                 delta_t = now - sched_last (world s)
             in if delta_t > sched_min_interval (world s) then do {
                  let full_queue = sched_full_queue (world s);
                  (s, job_cnt) \<leftarrow> l_schedule c full_queue (upd (\<lambda>g. g\<lparr>sched_full_queue := False, sched_requests := 0\<rparr>) s);
                  let (s, now) = get_sim_utime (l_ctl c) s;
                  let s = upd (\<lambda>g. g\<lparr>sched_last := now, sim_sched_thread_cond_wait_till := now + sched_min_interval g\<rparr>) s;
                  s \<leftarrow> (if job_cnt \<noteq> 0 then c_save_state (l_ctl c) s else Some s);
                  Some (s, True) }
                else Some (s, False))"

definition sim_schedule_plugin_run_once :: "'v loop_ctl \<Rightarrow> 'v st \<Rightarrow> 'v st option" where
  "sim_schedule_plugin_run_once c s =
     (if backfill_depth (world s) > 0 then Some s
      else do {
        let s = upd (\<lambda>g. g\<lparr>backfill_depth := backfill_depth g + 1\<rparr>) s;
        (s, next_backfill_utime) \<leftarrow>
          (case l_backfill_agent c of
             Some agent \<Rightarrow> agent s
           | None \<Rightarrow> let (s, t) = get_sim_utime (l_ctl c) s in Some (s, t + 1000000));
        Some (upd (\<lambda>g. g\<lparr>sim_plugin_backfill_thread_sleep_till := next_backfill_utime,
                         backfill_depth := backfill_depth g - 1\<rparr>) s) })"

definition slurmdbd_step :: "'v loop_ctl \<Rightarrow> int \<Rightarrow> 'v st \<Rightarrow> ('v st \<times> int) option" where
  "slurmdbd_step c now s =
     (if sim_slurmdbd_agent_sleep_till (world s) \<le> now \<or> sim_slurmdbd_agent_count (world s) \<ge> 100 then
        (case l_slurmdbd_agent c of
           None \<Rightarrow> Some (s, now)
         | Some agent \<Rightarrow> do {
             s \<leftarrow> agent s;
             let (s, now) = get_sim_utime (l_ctl c) (upd (\<lambda>g. g\<lparr>sim_slurmdbd_agent_count := 0\<rparr>) s);
             Some (if sim_slurmdbd_agent_sleep_till (world s) \<le> now
                   then upd (\<lambda>g. g\<lparr>sim_slurmdbd_agent_sleep_till := now + 5 * USEC_IN_SEC\<rparr>) s else s, now) })
      else Some (s, now))"

subsection \<open>The loop\<close>

datatype outcome = Returned int | Exited

definition sim_events_first_loop :: "'v loop_ctl \<Rightarrow> 'v st \<Rightarrow> 'v st option" where
  "sim_events_first_loop c s = do {
     s \<leftarrow> c_sleep (l_ctl c) 1 s;
     let (s, cur_sim_utime) = get_sim_utime (l_ctl c) s;
     sim_schedule_plugin_run_once c s }"

text \<open>One turn up to the test for the end, with the last reading of the clock.\<close>

definition loop_work :: "'v loop_ctl \<Rightarrow> 'v st \<Rightarrow> ('v st \<times> int) option" where
  "loop_work c s = do {
     let s = upd (\<lambda>g. g\<lparr>loop_depth := loop_depth g + 1, count := count g + 1\<rparr>) s;
     s \<leftarrow> (if loop_first_run (world s)
            then map_option (upd (\<lambda>g. g\<lparr>loop_first_run := False\<rparr>)) (sim_events_first_loop c s) else Some s);
     let (s, now) = get_sim_utime (l_ctl c) s;
     let s = (if \<not> scaling_on (world s) \<and> now - process_create_time_sim (world s) > 10000000
              then upd (\<lambda>g. (l_set_time_scale c g)\<lparr>scaling_on := True\<rparr>) s else s);
     (s, now) \<leftarrow> due_loop c now s;
     (s, now) \<leftarrow> slurmdbd_step c now s;
     (s, _) \<leftarrow> sim_sched_agent_loop c now s;
     if sim_plugin_backfill_thread_sleep_till (world s) \<le> now then do {
       s \<leftarrow> sim_schedule_plugin_run_once c s;
       Some (get_sim_utime (l_ctl c) s) }
     else Some (s, now) }"

text \<open>
  The test for the end of the simulation. The comparison of the unsigned
  \<^verbatim>\<open>time_after_all_events_done\<close> with zero is always true.
\<close>

definition exit_check :: "'v loop_ctl \<Rightarrow> int \<Rightarrow> 'v st \<Rightarrow> 'v st \<times> bool" where
  "exit_check c now s =
     (if n_noncyclic (evs s) \<le> 0 \<and> a_first (act s) = 0 \<and> jobs_running (world s) + jobs_pending (world s) = 0 then
        let s = upd (l_update_diag c) s
        in if jobs_running (world s) + jobs_pending (world s) = 0 then
             let s = (if all_done (world s) = 0
                      then let (s, t) = get_sim_utime (l_ctl c) s
                           in upd (\<lambda>g. g\<lparr>all_done := t + time_after_all_events_done (c_conf (l_ctl c))\<rparr>) s
                      else s)
             in (s, all_done (world s) - now < 0)
           else (upd (\<lambda>g. g\<lparr>all_done := 0\<rparr>) s, False)
      else (s, False))"

text \<open>
  The candidates for the next point in time, in the order of the source. Each
  has a counter for the turns in which it was already in the past.
\<close>

definition candidate :: "int \<Rightarrow> int \<Rightarrow> ('v globals \<Rightarrow> 'v globals) \<Rightarrow> int \<times> 'v globals \<Rightarrow> int \<times> 'v globals" where
  "candidate now d bump tg =
     (let (t, g) = tg in if d < t then (d, if d < now then bump g else g) else (t, g))"

definition skip_from :: "int \<Rightarrow> 'v globals \<Rightarrow> int \<Rightarrow> int \<Rightarrow> int \<times> 'v globals" where
  "skip_from t g now next_when =
     (let tg = (t, g);
          tg = candidate now next_when (\<lambda>g. g\<lparr>count_next_event := count_next_event g + 1\<rparr>) tg;
          tg = candidate now (sim_plugin_backfill_thread_sleep_till g) (\<lambda>g. g\<lparr>count_backfill := count_backfill g + 1\<rparr>) tg;
          tg = candidate now (sim_slurmdbd_agent_sleep_till g) (\<lambda>g. g\<lparr>count_slurmdbd := count_slurmdbd g + 1\<rparr>) tg
      in if sched_requests g > 0
         then candidate now (sim_sched_thread_cond_wait_till g) (\<lambda>g. g\<lparr>count_sched := count_sched g + 1\<rparr>) tg
         else tg)"

definition skip_target :: "'v globals \<Rightarrow> int \<Rightarrow> int \<Rightarrow> int \<times> 'v globals" where
  "skip_target g now next_when = skip_from (sim_main_thread_sleep_till g) g now next_when"

definition time_skip_to :: "'v loop_ctl \<Rightarrow> ('v globals \<Rightarrow> int \<Rightarrow> int \<Rightarrow> int \<times> 'v globals) \<Rightarrow> int \<Rightarrow> 'v st \<Rightarrow>
    ('v st \<times> int) option" where
  "time_skip_to c target now s = do {
     (s, t) \<leftarrow>
       (if sim_main_thread_sleep_till (world s) > now \<and> loop_depth (world s) = 1 then do {
          n \<leftarrow> deref (ev_heap (evs s)) (ev_next (evs s));
          let (skipping_to_utime, g) = target (world s) now (e_when n);
          let s = s\<lparr>world := g\<rparr>;
          Some (if all_done (world s) = 0 \<and> proc_rec_count (world s) = 0 then
                  if skipping_to_utime > now then
                    (upd (\<lambda>g. (c_set_time (l_ctl c) skipping_to_utime g)
                       \<lparr>count_skip := count_skip g + 1, time_skipped := time_skipped g + (skipping_to_utime - now)\<rparr>) s,
                     skipping_to_utime)
                  else (upd (\<lambda>g. g\<lparr>count_noskip := count_noskip g + 1\<rparr>) s, now)
                else (s, now)) }
        else Some (s, now));
     Some (upd (\<lambda>g. g\<lparr>loop_depth := loop_depth g - 1\<rparr>) s, t) }"

definition time_skip :: "'v loop_ctl \<Rightarrow> int \<Rightarrow> 'v st \<Rightarrow> ('v st \<times> int) option" where
  "time_skip c now s = time_skip_to c skip_target now s"

definition sim_events_loop :: "'v loop_ctl \<Rightarrow> 'v st \<Rightarrow> ('v st \<times> outcome) option" where
  "sim_events_loop c s = do {
     (s, now) \<leftarrow> loop_work c s;
     let (s, finished) = exit_check c now s;
     if finished then Some (s, Exited)
     else do {
       (s, t) \<leftarrow> time_skip c now s;
       Some (s, Returned t) } }"

definition sim_mini_loop :: "'v loop_ctl \<Rightarrow> 'v st \<Rightarrow> ('v st \<times> bool) option" where
  "sim_mini_loop c s = do {
     (s, r) \<leftarrow> sim_events_loop c s;
     case r of
       Exited \<Rightarrow> Some (s, True)
     | Returned now \<Rightarrow>
         if sim_main_thread_sleep_till (world s) > now
         then map_option (\<lambda>s. (s, False)) (l_background c s) else Some (s, False) }"

text \<open>One round of the main loop: turns until the main thread's second is over, then the background work.\<close>

partial_function (option) main_turns :: "'v loop_ctl \<Rightarrow> int \<Rightarrow> 'v st \<Rightarrow> ('v st \<times> outcome) option" where
  "main_turns c now s =
     (if sim_main_thread_sleep_till (world s) > now
      then Option.bind (sim_events_loop c s) (\<lambda>(s, r).
             case r of Exited \<Rightarrow> Some (s, Exited) | Returned now \<Rightarrow> main_turns c now s)
      else Some (s, Returned now))"

definition main_round :: "'v loop_ctl \<Rightarrow> 'v st \<Rightarrow> ('v st \<times> outcome) option" where
  "main_round c s = do {
     let (s, now) = get_sim_utime (l_ctl c) s;
     (s, r) \<leftarrow> main_turns c now (upd (\<lambda>g. g\<lparr>sim_main_thread_sleep_till := now + 1000000\<rparr>) s);
     case r of
       Exited \<Rightarrow> Some (s, Exited)
     | Returned now \<Rightarrow> map_option (\<lambda>s. (s, Returned now)) (l_background c s) }"

subsection \<open>The jump of the clock\<close>

text \<open>The earliest point of interest: the deadlines of the four threads and the next event.\<close>

definition next_deadline :: "'v globals \<Rightarrow> int \<Rightarrow> int" where
  "next_deadline g next_when = Min ({sim_main_thread_sleep_till g, next_when, sim_plugin_backfill_thread_sleep_till g,
       sim_slurmdbd_agent_sleep_till g} \<union> (if sched_requests g > 0 then {sim_sched_thread_cond_wait_till g} else {}))"

definition may_skip :: "'v globals \<Rightarrow> int \<Rightarrow> bool" where
  "may_skip g now \<longleftrightarrow> sim_main_thread_sleep_till g > now \<and> loop_depth g = 1 \<and> all_done g = 0 \<and> proc_rec_count g = 0"

text \<open>
  The globals without the counters that the search for the next point in time
  keeps, and the globals a turn ends with: only when it returns a later time
  than the last reading \<open>now\<close> is the clock set, and then to the time returned.
\<close>

definition uncounted :: "'v globals \<Rightarrow> 'v globals" where
  "uncounted g = g\<lparr>count_noskip := 0, count_next_event := 0, count_backfill := 0, count_slurmdbd := 0, count_sched := 0\<rparr>"

definition turn_end :: "'v loop_ctl \<Rightarrow> int \<Rightarrow> int \<Rightarrow> 'v globals \<Rightarrow> 'v globals" where
  "turn_end c now t g =
     (let g = (if now < t then (c_set_time (l_ctl c) t g)
                 \<lparr>count_skip := count_skip g + 1, time_skipped := time_skipped g + (t - now)\<rparr> else g)
      in g\<lparr>loop_depth := loop_depth g - 1\<rparr>)"

lemma uncounted_same:
  assumes "uncounted g' = uncounted g"
  shows "all_done g' = all_done g" "proc_rec_count g' = proc_rec_count g"
  using arg_cong [OF assms, of all_done] arg_cong [OF assms, of proc_rec_count] by (simp_all add: uncounted_def)

lemma candidate_facts:
  assumes "\<And>g. uncounted (bump g) = uncounted g"
  shows "fst (candidate now d bump tg) = min d (fst tg)" "uncounted (snd (candidate now d bump tg)) = uncounted (snd tg)"
  using assms by (simp_all add: candidate_def min_def split: prod.split)

lemma skip_from_facts:
  "fst (skip_from t g now w) = min t (min w (min (sim_plugin_backfill_thread_sleep_till g) (min (sim_slurmdbd_agent_sleep_till g)
     (if sched_requests g > 0 then sim_sched_thread_cond_wait_till g else t))))"
  "uncounted (snd (skip_from t g now w)) = uncounted g"
proof -
  have b: "uncounted (g\<lparr>count_next_event := k\<rparr>) = uncounted g" "uncounted (g\<lparr>count_backfill := k\<rparr>) = uncounted g"
    "uncounted (g\<lparr>count_slurmdbd := k\<rparr>) = uncounted g" "uncounted (g\<lparr>count_sched := k\<rparr>) = uncounted g" for g :: "'a globals" and k
    by (simp_all add: uncounted_def)
  show "fst (skip_from t g now w) = min t (min w (min (sim_plugin_backfill_thread_sleep_till g) (min (sim_slurmdbd_agent_sleep_till g)
     (if sched_requests g > 0 then sim_sched_thread_cond_wait_till g else t))))"
    by (simp add: skip_from_def Let_def candidate_facts b min.commute min.left_commute)
  show "uncounted (snd (skip_from t g now w)) = uncounted g"
    by (simp add: skip_from_def Let_def candidate_facts b)
qed

lemma skip_target_facts:
  "fst (skip_target g now w) = next_deadline g w"
  "uncounted (snd (skip_target g now w)) = uncounted g"
  by (simp_all add: skip_target_def skip_from_facts next_deadline_def min.commute min.left_commute)

lemma time_skip_to_spec:
  assumes "deref (ev_heap (evs s)) (ev_next (evs s)) = Some n"
    and "uncounted (snd (target (world s) now (e_when n))) = uncounted (world s)"
  defines "t \<equiv> if may_skip (world s) now then max now (fst (target (world s) now (e_when n))) else now"
  shows "\<exists>s' g. time_skip_to c target now s = Some (s', t) \<and> evs s' = evs s \<and> act s' = act s
    \<and> uncounted g = uncounted (world s) \<and> world s' = turn_end c now t g"
proof -
  obtain u g where k: "target (world s) now (e_when n) = (u, g)" by fastforce
  then have e: "uncounted g = uncounted (world s)" "uncounted (g\<lparr>count_noskip := i\<rparr>) = uncounted (world s)" for i
    using assms(2) by (simp_all add: uncounted_def)
  consider "\<not> (sim_main_thread_sleep_till (world s) > now \<and> loop_depth (world s) = 1)"
    | "sim_main_thread_sleep_till (world s) > now" "loop_depth (world s) = 1" "\<not> (all_done (world s) = 0 \<and> proc_rec_count (world s) = 0)"
    | "may_skip (world s) now" "now < u" | "may_skip (world s) now" "u \<le> now" by (fastforce simp: may_skip_def)
  then show ?thesis
  proof cases
    case 1
    then show ?thesis using assms(1)
      by (auto simp: time_skip_to_def t_def may_skip_def turn_end_def Let_def intro!: exI [of _ "world s"])
  next
    case 2
    then show ?thesis using assms(1) k uncounted_same [OF e(1)] e(1)
      by (auto simp: time_skip_to_def t_def may_skip_def turn_end_def Let_def intro!: exI [of _ g])
  next
    case 3
    then show ?thesis using assms(1) k uncounted_same [OF e(1)] e(1)
      by (auto simp: time_skip_to_def t_def may_skip_def turn_end_def Let_def intro!: exI [of _ g])
  next
    case 4
    then show ?thesis using assms(1) k uncounted_same [OF e(1)] e(2)
      by (auto simp: time_skip_to_def t_def may_skip_def turn_end_def Let_def intro!: exI [of _ "g\<lparr>count_noskip := count_noskip g + 1\<rparr>"])
  qed
qed

lemma sim_events_loop_returns:
  assumes "loop_work c s = Some (s1, now)" "exit_check c now s1 = (s2, False)"
    and "deref (ev_heap (evs s2)) (ev_next (evs s2)) = Some n"
  defines "t \<equiv> if may_skip (world s2) now then max now (next_deadline (world s2) (e_when n)) else now"
  shows "\<exists>s' g. sim_events_loop c s = Some (s', Returned t) \<and> evs s' = evs s2 \<and> act s' = act s2
    \<and> uncounted g = uncounted (world s2) \<and> world s' = turn_end c now t g"
proof -
  obtain s' g where "time_skip c now s2 = Some (s', t)" "evs s' = evs s2 \<and> act s' = act s2
    \<and> uncounted g = uncounted (world s2) \<and> world s' = turn_end c now t g"
    using time_skip_to_spec [OF assms(3), where target = skip_target, OF skip_target_facts(2), of c now]
    unfolding time_skip_def skip_target_facts t_def by blast
  then show ?thesis using assms(1,2) by (auto simp: sim_events_loop_def)
qed

lemma next_deadline_le: "next_deadline g w \<le> w" "next_deadline g w \<le> sim_main_thread_sleep_till g"
  "next_deadline g w \<le> sim_plugin_backfill_thread_sleep_till g" "next_deadline g w \<le> sim_slurmdbd_agent_sleep_till g"
  "sched_requests g > 0 \<Longrightarrow> next_deadline g w \<le> sim_sched_thread_cond_wait_till g"
  by (auto simp: next_deadline_def)

subsection \<open>The end of the simulation\<close>

definition clock_keeps_counts :: "'v loop_ctl \<Rightarrow> bool" where
  "clock_keeps_counts c \<longleftrightarrow> (\<forall>g. jobs_running (snd (c_utime (l_ctl c) g)) = jobs_running g
     \<and> jobs_pending (snd (c_utime (l_ctl c) g)) = jobs_pending g)"

lemma exit_check_true:
  assumes "exit_check c now s = (s', True)" "clock_keeps_counts c"
  shows "n_noncyclic (evs s') \<le> 0" "a_first (act s') = 0" "jobs_running (world s') + jobs_pending (world s') = 0"
    "all_done (world s') < now"
proof -
  have k: "jobs_running (snd (c_utime (l_ctl c) g)) = jobs_running g" "jobs_pending (snd (c_utime (l_ctl c) g)) = jobs_pending g" for g
    using assms(2) by (simp_all add: clock_keeps_counts_def)
  show "n_noncyclic (evs s') \<le> 0" "a_first (act s') = 0" "jobs_running (world s') + jobs_pending (world s') = 0"
    "all_done (world s') < now"
    using assms(1) k by (auto simp: exit_check_def Let_def get_sim_utime_def case_prod_beta split: if_splits)
qed

subsection \<open>Cyclic events\<close>

text \<open>
  Calls that return and leave the event list alone, and a clock that may advance
  from reading to reading but not beyond \<open>T\<close>. The calls are those of the events
  that the controller makes for itself: the registration of the nodes, the
  accounting update, the priority decay and the job index. Submissions,
  completions and epilogs run the daemon, which may insert any number of
  events; they are not among the \<open>internal_event\<close>s, and nothing is said here
  about the loop while one of them is pending.
\<close>

definition leaves_events :: "('v st \<Rightarrow> 'v st option) \<Rightarrow> bool" where
  "leaves_events f \<longleftrightarrow> (\<forall>s. \<exists>s'. f s = Some s' \<and> evs s' = evs s)"

definition periodic :: "'v loop_ctl \<Rightarrow> int \<Rightarrow> bool" where
  "periodic c T \<longleftrightarrow> leaves_events (l_acct_update c) \<and> leaves_events (call_ref (l_decay_thread c))
     \<and> leaves_events (call_ref (l_set_db_inx_thread c)) \<and> leaves_events (l_registration_engine c)
     \<and> (\<forall>n. leaves_events (l_node_did_resp c n)) \<and> (\<forall>n. leaves_events (l_make_node_idle c n))
     \<and> 0 < l_priority_calc_period c
     \<and> T + l_priority_calc_period c * USEC_IN_SEC < INT64_MAX \<and> T + 5 * USEC_IN_SEC < INT64_MAX
     \<and> (\<forall>g. fst (c_utime (l_ctl c) g) \<le> T)"

definition internal_event :: "sim_event \<Rightarrow> bool" where
  "internal_event e \<longleftrightarrow> 0 \<le> e_when e
     \<and> e_type e \<in> {SIM_TIME_ZERO, SIM_TIME_INF, SIM_CANCEL_JOB, SIM_NODE_REGISTRATION, SIM_ACCOUNTING_UPDATE,
         SIM_PRIORITY_DECAY, SIM_SET_DB_INDEX}"

text \<open>The events that follow one: a cyclic event comes back after its period.\<close>

definition successors :: "'v loop_ctl \<Rightarrow> sim_event \<Rightarrow> sim_event list" where
  "successors c e =
     (case e_type e of
        SIM_PRIORITY_DECAY \<Rightarrow> [new_event (e_when e + l_priority_calc_period c * USEC_IN_SEC) SIM_PRIORITY_DECAY No_Payload]
      | SIM_SET_DB_INDEX \<Rightarrow> [new_event (e_when e + 5 * USEC_IN_SEC) SIM_SET_DB_INDEX No_Payload]
      | _ \<Rightarrow> [])"

definition requeue :: "'v loop_ctl \<Rightarrow> sim_event \<Rightarrow> sim_event list \<Rightarrow> sim_event list" where
  "requeue c e es = foldl (\<lambda>l x. insert_after e_when x l) es (successors c e)"

lemma pop_live: "sim_pop_next_event l = Some (l', p) \<Longrightarrow> \<exists>n. deref (ev_heap l') p = Some n"
  by (auto simp: sim_pop_next_event_def Let_def Option.bind_eq_Some_conv split: if_splits)

lemma event_at_deref:
  "deref (ev_heap l) p = Some n \<Longrightarrow> e_type (event_at l p) = e_type n \<and> e_when (event_at l p) = e_when n"
  by (auto simp: deref_def event_at_def split: if_splits)

lemma evs_marks:
  "evs (event_started d r s) = evs s" "evs (event_ended d r s) = evs s"
  by (simp_all add: event_started_def event_ended_def event_expect_def get_sim_utime_def Let_def case_prod_beta
      split: slurm_sim_rt_event.split)

lemma nodes_up_leaves_events:
  assumes "\<And>n. leaves_events (l_node_did_resp c n)" "\<And>n. leaves_events (l_make_node_idle c n)"
  shows "leaves_events (nodes_up c ns)"
proof (induction ns)
  case (Cons n ns)
  show ?case
  proof (cases n)
    case (Some m)
    have "\<exists>s'. nodes_up c (Some m # ns) s = Some s' \<and> evs s' = evs s" for s
    proof -
      obtain s1 where 1: "l_node_did_resp c m s = Some s1" "evs s1 = evs s" using assms(1) unfolding leaves_events_def by blast
      obtain s2 where 2: "l_make_node_idle c m s1 = Some s2" "evs s2 = evs s1" using assms(2) unfolding leaves_events_def by blast
      obtain s3 where 3: "nodes_up c ns s2 = Some s3" "evs s3 = evs s2" using Cons unfolding leaves_events_def by blast
      show ?thesis using 1 2 3 by simp
    qed
    then show ?thesis using Some by (simp add: leaves_events_def)
  qed (use Cons in \<open>simp add: leaves_events_def\<close>)
qed (simp add: leaves_events_def)

lemma handle_internal_event:
  assumes "periodic c T" "pending (evs s) es" "deref (ev_heap (evs s)) p = Some n" "internal_event n" "e_when n \<le> T"
  shows "\<exists>s'. handle_event c p s = Some s' \<and> pending (evs s') (requeue c n es)"
proof -
  have P: "leaves_events (l_acct_update c)" "leaves_events (call_ref (l_decay_thread c))"
    "leaves_events (call_ref (l_set_db_inx_thread c))" using assms(1) by (simp_all add: periodic_def)
  have again: "\<exists>s'. insert_at w t No_Payload s1 = Some s' \<and> pending (evs s') (insert_after e_when (new_event w t No_Payload) es)"
    if "evs s1 = evs s" "0 \<le> w" "w < INT64_MAX" for s1 :: "'a st" and w t
    using insert_at_pending [of s1 es w t No_Payload] that assms(2) by auto
  have bounds: "0 \<le> e_when n + l_priority_calc_period c * USEC_IN_SEC" "e_when n + l_priority_calc_period c * USEC_IN_SEC < INT64_MAX"
    "0 \<le> e_when n + 5 * USEC_IN_SEC" "e_when n + 5 * USEC_IN_SEC < INT64_MAX"
    using assms(1,4,5) by (auto simp: periodic_def internal_event_def USEC_IN_SEC_def)
  consider "e_type n = SIM_NODE_REGISTRATION" | "e_type n = SIM_PRIORITY_DECAY" | "e_type n = SIM_SET_DB_INDEX" | "e_type n = SIM_ACCOUNTING_UPDATE"
    | "e_type n \<in> {SIM_TIME_ZERO, SIM_TIME_INF, SIM_CANCEL_JOB}" using assms(4) by (auto simp: internal_event_def)
  then show ?thesis
  proof cases
    case 1
    let ?s = "event_started (l_ctl c) GENERAL_SSIM_RT_EVENT s"
    obtain s1 where s1: "l_registration_engine c ?s = Some s1" "evs s1 = evs ?s"
      using assms(1) unfolding periodic_def leaves_events_def by blast
    have "leaves_events (nodes_up c (c_node_table (l_ctl c) (world s1)))"
      using assms(1) by (intro nodes_up_leaves_events) (simp_all add: periodic_def)
    then obtain s2 where s2: "nodes_up c (c_node_table (l_ctl c) (world s1)) s1 = Some s2" "evs s2 = evs s1"
      unfolding leaves_events_def by blast
    show ?thesis using s1 s2 1 assms(2,3) by (simp add: handle_event_def requeue_def successors_def evs_marks)
  next
    case 2
    obtain s1 where "call_ref (l_decay_thread c) s = Some s1" "evs s1 = evs s" using P(2) unfolding leaves_events_def by blast
    then show ?thesis using again [of s1] bounds 2 assms(3) by (simp add: handle_event_def requeue_def successors_def)
  next
    case 3
    obtain s1 where "call_ref (l_set_db_inx_thread c) s = Some s1" "evs s1 = evs s" using P(3) unfolding leaves_events_def by blast
    then show ?thesis using again [of s1] bounds 3 assms(3) by (simp add: handle_event_def requeue_def successors_def)
  next
    case 4
    obtain s1 where "l_acct_update c s = Some s1" "evs s1 = evs s" using P(1) unfolding leaves_events_def by blast
    then show ?thesis using 4 assms(2,3) by (simp add: handle_event_def requeue_def successors_def)
  next
    case 5
    then show ?thesis using assms(2,3) by (auto simp: handle_event_def requeue_def successors_def)
  qed
qed

text \<open>How far the events are behind the clock.\<close>

definition backlog :: "int \<Rightarrow> sim_event list \<Rightarrow> nat" where
  "backlog T es = (\<Sum>e \<leftarrow> es. nat (T + 1 - e_when e))"

lemma insert_after_sum: "(\<Sum>e \<leftarrow> insert_after key x es. f e) = f x + (\<Sum>e \<leftarrow> es. f e :: nat)"
  by (induction es) auto

lemma count_type_Cons: "count_type P (e # es) = count_type P es + (if P (e_type e) then 1 else 0)"
  by (simp add: count_type_def)

lemma requeue_facts:
  assumes "periodic c T" "internal_event e" "e_when e \<le> T"
  shows "backlog T (requeue c e es) < backlog T (e # es)"
    "\<forall>x \<in> set es. internal_event x \<Longrightarrow> \<forall>x \<in> set (requeue c e es). internal_event x"
    "count_type is_cyclic (requeue c e es) = count_type is_cyclic (e # es)"
proof -
  have p: "0 < l_priority_calc_period c" using assms(1) by (simp add: periodic_def)
  show "backlog T (requeue c e es) < backlog T (e # es)"
    using assms(3) p by (auto simp: requeue_def successors_def backlog_def insert_after_sum new_event_def USEC_IN_SEC_def
        split: sim_event_type.split)
  show "\<forall>x \<in> set (requeue c e es). internal_event x" if "\<forall>x \<in> set es. internal_event x"
    using that assms(2) p by (auto simp: requeue_def successors_def set_insert_after new_event_def internal_event_def
        USEC_IN_SEC_def split: sim_event_type.split)
  show "count_type is_cyclic (requeue c e es) = count_type is_cyclic (e # es)"
    by (simp add: requeue_def successors_def count_type_insert_after count_type_Cons is_cyclic_def new_event_def
        split: sim_event_type.split)
qed

lemma due_loop_catches_up:
  assumes "periodic c T"
  shows "now \<le> T \<Longrightarrow> pending (evs s) es \<Longrightarrow> \<forall>e \<in> set es. internal_event e \<Longrightarrow>
    \<exists>s' now' es'. due_loop c now s = Some (s', now') \<and> now' \<le> T \<and> pending (evs s') es'
      \<and> (\<forall>e \<in> set es'. now' < e_when e \<and> internal_event e) \<and> count_type is_cyclic es' = count_type is_cyclic es"
proof (induction "backlog T es" arbitrary: now s es rule: less_induct)
  case less
  obtain n where n: "deref (ev_heap (evs s)) (ev_next (evs s)) = Some n"
    "e_when n = (case es of [] \<Rightarrow> INT64_MAX | e # _ \<Rightarrow> e_when e)" using pending_next [OF less.prems(2)] by blast
  show ?case
  proof (cases "e_when n \<le> now")
    case False
    have "now < e_when e" if "e \<in> set es" for e
      using that False n(2) pending_sorted [OF less.prems(2)] by (cases es) auto
    then show ?thesis using False n(1) less.prems by (auto simp: due_loop.simps [of c now s])
  next
    case True
    have "now < INT64_MAX" using assms less.prems(1) by (simp add: periodic_def USEC_IN_SEC_def)
    then obtain e es0 where es: "es = e # es0" "e_when e \<le> now" using True n(2) by (cases es) auto
    then have eT: "e_when e \<le> T" using less.prems(1) by simp
    obtain l p where lp: "sim_pop_next_event (evs s) = Some (l, p)" "event_at l p = e" "pending l es0"
      using pop_refines_queue [of "evs s" e es0] less.prems(2) es(1) by blast
    obtain m where m: "deref (ev_heap l) p = Some m" using pop_live [OF lp(1)] by blast
    have em: "e_type m = e_type e" "e_when m = e_when e" using event_at_deref [OF m] lp(2) by auto
    have ie: "internal_event m" "internal_event e" using less.prems(3) es em by (simp_all add: internal_event_def)
    have rq: "requeue c m es0 = requeue c e es0" unfolding requeue_def successors_def em ..
    obtain s1 where s1: "handle_event c p (s\<lparr>evs := l\<rparr>) = Some s1" "pending (evs s1) (requeue c e es0)"
      using handle_internal_event [OF assms, of "s\<lparr>evs := l\<rparr>" es0 p m] lp(3) m ie(1) em(2) eT rq by auto
    obtain s2 now2 where clk: "get_sim_utime (l_ctl c) s1 = (s2, now2)" by fastforce
    then have c2: "now2 \<le> T" "pending (evs s2) (requeue c e es0)"
      using assms s1(2) by (auto simp: get_sim_utime_def periodic_def case_prod_beta)
    note R = requeue_facts [OF assms ie(2) eT, of es0]
    have "\<forall>x \<in> set es0. internal_event x" using less.prems(3) es(1) by simp
    from less.hyps [OF R(1) [folded es(1)] c2(1,2) R(2) [OF this]] R(3) show ?thesis
      using True n(1) lp(1) s1(1) clk es(1) by (auto simp: due_loop.simps [of c now s])
  qed
qed

subsection \<open>Properties\<close>

text \<open>C4: When a turn of the loop does not end the simulation, it returns the last
  reading of the clock and does not set the clock, or, at the outermost level
  with nothing left to wait for, it sets the clock once, to exactly the time it
  returns: the earliest of the main thread's, the backfill scheduler's, the
  accounting agent's and, if requests are waiting, the scheduler's deadline and
  the time of the next event, when that is later than the reading. So no turn
  sets the clock back or past a pending event or a deadline.\<close>

theorem time_skip_stops_at_next_deadline:
  assumes "loop_work c s = Some (s1, now)" "exit_check c now s1 = (s2, False)" "pending (evs s2) es"
  defines "g \<equiv> world s2"
  shows "\<exists>s' t g'. sim_events_loop c s = Some (s', Returned t) \<and> pending (evs s') es \<and> now \<le> t
    \<and> uncounted g' = uncounted g \<and> world s' = turn_end c now t g'
    \<and> t = (if may_skip g now then max now (next_deadline g (case es of [] \<Rightarrow> INT64_MAX | e # _ \<Rightarrow> e_when e)) else now)
    \<and> (now < t \<longrightarrow> (\<forall>e \<in> set es. t \<le> e_when e) \<and> t \<le> sim_main_thread_sleep_till g
         \<and> t \<le> sim_plugin_backfill_thread_sleep_till g \<and> t \<le> sim_slurmdbd_agent_sleep_till g
         \<and> (sched_requests g > 0 \<longrightarrow> t \<le> sim_sched_thread_cond_wait_till g))"
proof -
  define w where "w = (case es of [] \<Rightarrow> INT64_MAX | e # _ \<Rightarrow> e_when e)"
  obtain n where n: "deref (ev_heap (evs s2)) (ev_next (evs s2)) = Some n" "e_when n = w"
    using pending_next [OF assms(3)] unfolding w_def by blast
  define t where "t = (if may_skip g now then max now (next_deadline g w) else now)"
  obtain s' g' where s': "sim_events_loop c s = Some (s', Returned t)" "evs s' = evs s2"
      "uncounted g' = uncounted g" "world s' = turn_end c now t g'"
    using sim_events_loop_returns [OF assms(1,2) n(1)] n(2) unfolding g_def t_def by auto
  have w: "w \<le> e_when e" if "e \<in> set es" for e
    using that pending_sorted [OF assms(3)] by (cases es) (auto simp: w_def)
  have late: "(\<forall>e \<in> set es. t \<le> e_when e) \<and> t \<le> sim_main_thread_sleep_till g
         \<and> t \<le> sim_plugin_backfill_thread_sleep_till g \<and> t \<le> sim_slurmdbd_agent_sleep_till g
         \<and> (sched_requests g > 0 \<longrightarrow> t \<le> sim_sched_thread_cond_wait_till g)" if "now < t"
  proof -
    have t: "t = next_deadline g w" using that by (simp add: t_def max_def split: if_splits)
    have "\<forall>e \<in> set es. t \<le> e_when e" using w next_deadline_le(1) [of g w] t by force
    then show ?thesis using next_deadline_le [of g w] t by simp
  qed
  have "now \<le> t" by (simp add: t_def)
  then show ?thesis using s' assms(3) late t_def unfolding w_def by (intro exI [of _ s'] exI [of _ t] exI [of _ g']) simp
qed

text \<open>A daemon without agents, and its globals half a second before the main thread's deadline.\<close>

definition sample_globals :: "unit globals" where
  "sample_globals = \<lparr>sim_main_thread_sleep_till = 500000, sim_sched_thread_cond_wait_till = 0,
     sim_plugin_backfill_thread_sleep_till = 900000, sim_slurmdbd_agent_sleep_till = 800000, sim_slurmdbd_agent_count = 0,
     sched_requests = 0, sched_full_queue = False, sched_last = 0, sched_min_interval = 2, sched_first_run = False,
     shutdown_time = 0, jobs_running = 1, jobs_pending = 0, proc_rec_count = 0, process_create_time_sim = 0,
     backfill_depth = 0, loop_first_run = False, loop_depth = 0, all_done = 0, scaling_on = False, time_skipped = 0,
     count = 0, count_noskip = 0, count_skip = 0, count_next_event = 0, count_backfill = 0, count_slurmdbd = 0,
     count_sched = 0, daemon = ()\<rparr>"

definition sample_daemon :: "unit globals ctl" where
  "sample_daemon = \<lparr>
     c_conf = c_conf sample_ctl, c_utime = \<lambda>w. (1000, w), c_set_time = \<lambda>t w. w, c_find_job = \<lambda>w jid. None,
     c_node_table = \<lambda>w. [], c_end_batch_step = \<lambda>jid s. Some s, c_job_complete = \<lambda>jid uid s. Some (s, 0),
     c_job_epilog_complete = \<lambda>jid n s. Some (s, False), c_schedule = Some, c_queue_job_scheduler = Some,
     c_save_state = Some, c_agent_count = \<lambda>w. 0, c_defer_sched = \<lambda>w. False, c_sbatch_options = \<lambda>argv s. Some (s, True),
     c_submit = \<lambda>argv s. Some (s, 0, None, False), c_sleep = \<lambda>n s. Some s, c_post_submit = \<lambda>jid s. Some s,
     c_agent_queue = \<lambda>m s. Some s\<rparr>"

definition sample_loop :: "unit loop_ctl" where
  "sample_loop = \<lparr>l_ctl = sample_daemon, l_registration_engine = Some, l_node_did_resp = \<lambda>n. Some,
     l_make_node_idle = \<lambda>n. Some, l_acct_update = Some, l_decay_thread = None, l_set_db_inx_thread = None,
     l_slurmdbd_agent = None, l_backfill_agent = None, l_schedule = \<lambda>full s. Some (s, 1), l_update_diag = \<lambda>g. g,
     l_set_time_scale = \<lambda>g. g, l_background = Some, l_priority_calc_period = 300\<rparr>"

definition sample_st :: "unit st" where
  "sample_st = \<lparr>evs = sentinels\<lparr>ev_next := 2\<rparr>, act = no_jobs, world = sample_globals, rt_events = \<lambda>_. 0,
     rt_events_post_wait = \<lambda>_. 0, run_scheduler = False\<rparr>"

lemma sample_st_pending: "pending (evs sample_st) []"
  using empty_queue by (auto simp: sample_st_def sim_pop_next_event_def sentinels_def deref_def is_noncyclic_def is_cyclic_def)

lemma sample_work:
  "loop_work sample_loop sample_st = Some (upd (\<lambda>g. g\<lparr>loop_depth := 1, count := 1\<rparr>) sample_st, 1000)"
  by (simp add: loop_work_def sample_st_def sample_globals_def sample_loop_def sample_daemon_def get_sim_utime_def
      due_loop.simps [of _ 1000] sentinels_def deref_def INT64_MAX_def slurmdbd_step_def sim_sched_agent_loop_def)

theorem time_skip_stops_at_next_deadline_witness:
  "\<exists>s'. sim_events_loop sample_loop sample_st = Some (s', Returned 500000)"
proof -
  let ?s = "upd (\<lambda>g. g\<lparr>loop_depth := 1, count := 1\<rparr>) sample_st"
  have x: "exit_check sample_loop 1000 ?s = (?s, False)"
    by (simp add: exit_check_def sample_st_def sample_globals_def)
  have p: "pending (evs ?s) []" using sample_st_pending by simp
  from time_skip_stops_at_next_deadline [OF sample_work x p] show ?thesis
    by (auto simp: may_skip_def next_deadline_def sample_st_def sample_globals_def INT64_MAX_def)
qed

text \<open>C11: The simulation ends only when no event of the trace or of a job is pending,
  no job is active, no job of the daemon runs or waits, and the configured
  time has passed since then.\<close>

theorem simulation_ends_only_when_idle:
  assumes "sim_events_loop c s = Some (s', Exited)" "clock_keeps_counts c" "pending (evs s') es" "job_list (act s') js"
  shows "(\<forall>e \<in> set es. \<not> is_noncyclic (e_type e)) \<and> js = []
    \<and> jobs_running (world s') + jobs_pending (world s') = 0
    \<and> (\<exists>s1 now. loop_work c s = Some (s1, now) \<and> all_done (world s') < now)"
proof -
  obtain s1 now where w: "loop_work c s = Some (s1, now)" "exit_check c now s1 = (s', True)"
    using assms(1) by (fastforce simp: sim_events_loop_def Option.bind_eq_Some_conv case_prod_beta prod_eq_iff split: if_splits)
  note X = exit_check_true [OF w(2) assms(2)]
  have "count_type is_noncyclic es \<le> 0" using X(1) assms(3) by (auto simp: pending_def events_at_def)
  then have "\<forall>e \<in> set es. \<not> is_noncyclic (e_type e)" by (simp add: count_type_def filter_empty_conv)
  moreover have "js = []"
  proof -
    obtain ps where "dseg j_next j_previous (a_heap (act s')) 0 (a_first (act s')) ps 0" "js = map (job_at (act s')) ps"
      using assms(4) by (auto simp: job_list_def jobs_at_def)
    then show ?thesis using X(2) dseg_null by simp
  qed
  ultimately show ?thesis using X(3,4) w(1) by blast
qed

theorem simulation_ends_only_when_idle_witness:
  "\<exists>s'. sim_events_loop sample_loop (upd (\<lambda>g. g\<lparr>jobs_running := 0, all_done := 5\<rparr>) sample_st) = Some (s', Exited)
        \<and> jobs_running (world s') + jobs_pending (world s') = 0"
proof -
  let ?s = "upd (\<lambda>g. g\<lparr>jobs_running := 0, all_done := 5\<rparr>) sample_st"
  let ?r = "upd (\<lambda>g. g\<lparr>jobs_running := 0, all_done := 5, loop_depth := 1, count := 1\<rparr>) sample_st"
  have r: "sim_events_loop sample_loop ?s = Some (?r, Exited)"
    by (simp add: sim_events_loop_def exit_check_def loop_work_def sample_st_def sample_globals_def sample_loop_def sample_daemon_def get_sim_utime_def
      due_loop.simps [of _ 1000] sentinels_def deref_def INT64_MAX_def slurmdbd_step_def sim_sched_agent_loop_def no_jobs_def)
  have c: "clock_keeps_counts sample_loop" by (simp add: clock_keeps_counts_def sample_loop_def sample_daemon_def)
  have p: "pending (evs ?r) []" "job_list (act ?r) []"
    using sample_st_pending no_jobs_at by (auto simp: sample_st_def job_list_def)
  from simulation_ends_only_when_idle [OF r c p] r show ?thesis by blast
qed

text \<open>C16: While only events that the controller makes for itself are pending (node
  registration, accounting update, priority decay, job index) or that it
  ignores, and no submission, completion or epilog, which run the daemon, the loop over the due events
  ends, however far the clock is ahead of them and although the clock advances
  while it runs, as long as it stays below a bound: each decay and index event
  comes back after its period until it lies in the future of the last reading
  of the clock, at the end no event is due at that reading, and there are as
  many cyclic events as before. The calls of these events into the daemon are
  assumed to return and to leave the event list alone.\<close>

theorem cyclic_events_catch_up:
  assumes "periodic c T" "now \<le> T" "pending (evs s) es" "\<forall>e \<in> set es. internal_event e"
  shows "\<exists>s' now' es'. due_loop c now s = Some (s', now') \<and> now' \<le> T \<and> pending (evs s') es'
      \<and> (\<forall>e \<in> set es'. now' < e_when e) \<and> n_cyclic (evs s') = n_cyclic (evs s)"
proof -
  obtain s' now' es' where r: "due_loop c now s = Some (s', now')" "now' \<le> T" "pending (evs s') es'"
    "\<forall>e \<in> set es'. now' < e_when e \<and> internal_event e"
    "count_type is_cyclic es' = count_type is_cyclic es" using due_loop_catches_up [OF assms] by blast
  have "n_cyclic (evs s) = count_type is_cyclic es" "n_cyclic (evs s') = count_type is_cyclic es'"
    using assms(3) r(3) by (auto simp: pending_def events_at_def)
  then show ?thesis using r by metis
qed

text \<open>A clock that advances by 300 microseconds at each reading, up to 2000.\<close>

definition ticking_loop :: "unit loop_ctl" where
  "ticking_loop = sample_loop\<lparr>l_ctl := sample_daemon
     \<lparr>c_utime := \<lambda>g. (min 2000 (1000 + time_skipped g), g\<lparr>time_skipped := time_skipped g + 300\<rparr>)\<rparr>\<rparr>"

theorem cyclic_events_catch_up_witness:
  "\<exists>l s' now' es'. event_push (evs sample_st) (new_event 7 SIM_SET_DB_INDEX No_Payload) = Some l
     \<and> due_loop ticking_loop 1000 (sample_st\<lparr>evs := l\<rparr>) = Some (s', now') \<and> now' \<le> 2000 \<and> pending (evs s') es'
     \<and> (\<forall>e \<in> set es'. now' < e_when e) \<and> n_cyclic (evs s') = n_cyclic l"
proof -
  let ?e = "new_event 7 SIM_SET_DB_INDEX No_Payload"
  have "acceptable ?e" by (simp add: acceptable_def new_event_def INT64_MAX_def)
  from eq.push [OF sample_st_pending this] obtain l where l: "event_push (evs sample_st) ?e = Some l" "pending l [?e]" by auto
  have P: "periodic ticking_loop 2000"
    by (auto simp: periodic_def leaves_events_def call_ref_def ticking_loop_def sample_loop_def sample_daemon_def USEC_IN_SEC_def INT64_MAX_def)
  have "\<forall>e \<in> set [?e]. internal_event e" by (simp add: internal_event_def new_event_def)
  from cyclic_events_catch_up [OF P _ _ this, of 1000 "sample_st\<lparr>evs := l\<rparr>"] l show ?thesis by auto
qed

definition keeps_sched :: "'v loop_ctl \<Rightarrow> bool" where
  "keeps_sched c \<longleftrightarrow>
     (\<forall>g. let g' = snd (c_utime (l_ctl c) g) in sched_last g' = sched_last g \<and> sched_min_interval g' = sched_min_interval g)
     \<and> (\<forall>s s'. c_save_state (l_ctl c) s = Some s' \<longrightarrow> world s' = world s)"

text \<open>The simulated scheduler agent starts the scheduler only outside of a
  shutdown, with a request waiting, after the deadline it set itself and more
  than the minimum interval after the last run. It then sets the deadline to
  the end of this run plus the interval, and every call before that deadline
  returns without a run and changes nothing.\<close>

lemma scheduler_runs_spaced:
  assumes "sim_sched_agent_loop c now s = Some (s', True)" "keeps_sched c" "\<not> sched_first_run (world s)"
  shows "shutdown_time (world s) = 0 \<and> sched_requests (world s) \<noteq> 0 \<and> sim_sched_thread_cond_wait_till (world s) \<le> now
    \<and> sched_last (world s) + sched_min_interval (world s) < fst (c_utime (l_ctl c) (world s))
    \<and> sim_sched_thread_cond_wait_till (world s') = sched_last (world s') + sched_min_interval (world s')
    \<and> (\<forall>s'' now'. \<not> sched_first_run (world s'') \<and>
         sim_sched_thread_cond_wait_till (world s'') = sim_sched_thread_cond_wait_till (world s') \<and>
         now' < sched_last (world s') + sched_min_interval (world s') \<longrightarrow>
         sim_sched_agent_loop c now' s'' = Some (s'', False))"
proof -
  obtain t g where t: "c_utime (l_ctl c) (world s) = (t, g)" by fastforce
  have "sched_last (snd (c_utime (l_ctl c) (world s))) = sched_last (world s)
      \<and> sched_min_interval (snd (c_utime (l_ctl c) (world s))) = sched_min_interval (world s)"
    using assms(2) unfolding keeps_sched_def by (simp add: Let_def)
  then have k: "sched_last g = sched_last (world s)" "sched_min_interval g = sched_min_interval (world s)"
    using t by simp_all
  have go: "shutdown_time (world s) = 0 \<and> sched_requests (world s) \<noteq> 0
      \<and> sim_sched_thread_cond_wait_till (world s) \<le> now \<and> sched_last (world s) + sched_min_interval (world s) < t"
    using assms(1,3) t k
    by (simp add: sim_sched_agent_loop_def get_sim_utime_def Let_def split: if_splits)
  obtain s1 cnt s2 where s1: "l_schedule c (sched_full_queue g) (s\<lparr>world := g\<lparr>sched_full_queue := False, sched_requests := 0\<rparr>\<rparr>) = Some (s1, cnt)"
    and s2: "s2 = (let (s, now) = get_sim_utime (l_ctl c) s1
        in upd (\<lambda>g. g\<lparr>sched_last := now, sim_sched_thread_cond_wait_till := now + sched_min_interval g\<rparr>) s)"
    and s': "(if cnt \<noteq> 0 then c_save_state (l_ctl c) s2 else Some s2) = Some s'"
    using assms(1,3) t k go
    by (auto simp: sim_sched_agent_loop_def get_sim_utime_def Let_def Option.bind_eq_Some_conv case_prod_beta split: if_splits)
  have "world s' = world s2" using s' assms(2) by (auto simp: keeps_sched_def split: if_splits)
  then have w: "sim_sched_thread_cond_wait_till (world s') = sched_last (world s') + sched_min_interval (world s')"
    by (simp add: s2 Let_def case_prod_beta)
  have "sim_sched_agent_loop c now' s'' = Some (s'', False)"
    if "\<not> sched_first_run (world s'')" "sim_sched_thread_cond_wait_till (world s'') = sim_sched_thread_cond_wait_till (world s')"
      "now' < sched_last (world s') + sched_min_interval (world s')" for s'' now'
    using that w by (simp add: sim_sched_agent_loop_def Let_def)
  then show ?thesis using go w t by simp
qed

text \<open>Two pending completions of one job, as the end of its run time and its time
  limit leave them, are fatal: the first, here of a job whose record the daemon
  has dropped, frees the job's object, and the second reads the job id from the
  freed object.\<close>

lemma second_completion_reads_freed_job:
  assumes "listed s ps p jid" "x \<noteq> y" "\<forall>w. c_find_job (l_ctl c) w jid = None"
    and "deref (ev_heap (evs s)) x = Some e" "e_type e = SIM_COMPLETE_BATCH_SCRIPT" "e_payload e = Job_Pointer p"
    and "deref (ev_heap (evs s)) y = Some f" "e_type f = SIM_COMPLETE_BATCH_SCRIPT" "e_payload f = Job_Pointer p"
  shows "\<exists>s'. handle_event c x s = Some s' \<and> handle_event c y s' = None"
proof -
  have frame: "act (event_started d r u) = act u" "evs (event_started d r u) = evs u"
    "act (event_ended d r u) = act u" "evs (event_ended d r u) = evs u" for d r and u :: "'a st"
    by (simp_all add: event_started_def event_ended_def event_expect_def get_sim_utime_def Let_def case_prod_beta
        split: slurm_sim_rt_event.split)
  let ?s = "event_started (l_ctl c) GENERAL_SSIM_RT_EVENT s"
  have "List.find (\<lambda>q. j_job_id (job_at (act s) q) = jid) ps = Some p" "jobs_at (act s) ps"
    using assms(1) by (simp_all add: listed_def)
  then obtain as bs where sp: "ps = as @ p # bs" "j_job_id (job_at (act s) p) = jid"
    "\<forall>q \<in> set as. j_job_id (job_at (act s) q) \<noteq> jid" "jobs_at (act s) (as @ p # bs)"
    using find_first [of "\<lambda>q. j_job_id (job_at (act s) q) = jid" ps p] by blast
  obtain a where a: "sim_remove_active_sim_job (act s) jid = Some (a, 1)" "a_heap a p = None"
    using sim_remove_present [OF sp(4,2,3)] by blast
  obtain n where n: "a_heap (act s) p = Some n" "job_at (act s) p = plain n" "p \<noteq> 0"
    using find_active_listed(2,3) [OF assms(1)] by blast
  have jid: "j_job_id n = jid" using sp(2) n(2) by simp
  let ?s1 = "event_ended (l_ctl c) GENERAL_SSIM_RT_EVENT (?s\<lparr>act := a\<rparr>)"
  have "handle_event c x s = Some ?s1"
    using assms(3-6) n a(1) jid
    by (simp add: handle_event_def payload_job_id_def sim_complete_job_def remove_active_def frame)
  moreover have "handle_event c y ?s1 = None"
    using assms(7-9) a(2) by (simp add: handle_event_def payload_job_id_def frame deref_def Let_def)
  ultimately show ?thesis by blast
qed

definition sample_completion :: sim_event where
  "sample_completion = new_event 5 SIM_COMPLETE_BATCH_SCRIPT (Job_Pointer 1)"

text \<open>The marks of run time events have room for \<^verbatim>\<open>MAX_RT_EVENT_TYPES\<close> entries, but
  the event types are numbered from one: marking a completed epilog writes the
  cell after the end of both arrays, and it is the only mark that does.\<close>

lemma epilog_mark_out_of_bounds:
  "(MAX_RT_EVENT_TYPES \<le> rt_index t) = (t = EPILOG_COMPLETE_SSIM_RT_EVENT)
   \<and> rt_events (event_ended c EPILOG_COMPLETE_SSIM_RT_EVENT s) MAX_RT_EVENT_TYPES = 0
   \<and> (\<exists>now. rt_events_post_wait (event_ended c EPILOG_COMPLETE_SSIM_RT_EVENT s) =
         (rt_events_post_wait s)(MAX_RT_EVENT_TYPES := now + 1000000))"
  by (cases t) (auto simp: MAX_RT_EVENT_TYPES_def event_ended_def get_sim_utime_def case_prod_beta Let_def)

end
