(* ===== verification/Feedback_Bridge.thy ===== *)
theory Feedback_Bridge
  imports Complex_Main Sim_Loop "HOL-Library.Multiset"
begin

text \<open>
  The bridge between the simulator and a feedback policy,
  \<^verbatim>\<open>slurm_policy_experiments/policy_v2/feedback_bridge.h\<close>: arrived jobs are held in
  a table, a controller process is told what happened and answers which of them
  to release and when to ask again, and on any failure every held job is
  released. The edits of the main loop that \<^verbatim>\<open>prepare_build.py\<close> applies are at the
  end.

  The controller and the operating system are parameters: \<open>'x\<close> is their state and
  the record \<open>bridge_ctl\<close> holds the calls. Nothing is assumed of what the
  controller answers.
\<close>

subsection \<open>State\<close>

record v2_job =
  v2_payload :: sim_event_submit_batch_job
  v2_arrived :: int
  v2_submitted :: bool
  v2_reported :: bool
  v2_state :: int

text \<open>
  The lines of \<^verbatim>\<open>bridge.jsonl\<close>. The times of a release are in microseconds after
  the epoch of the workload; the file has them in seconds.
\<close>

datatype log_entry =
    Release (log_id: u32) (log_slurm_id: u32) (log_release: int) (log_arrived: int)
  | Failsafe string

text \<open>
  The table \<^verbatim>\<open>v2_jobs\<close> is the list of its first \<^verbatim>\<open>v2_count\<close> entries. A log that is not
  open is \<open>None\<close>.
\<close>

record 'x bridge =
  v2_jobs :: "v2_job list"
  v2_fd :: int
  v2_failed :: bool
  v2_busy :: bool
  v2_wake :: int
  v2_log :: "log_entry list option"
  simulator_start_time :: int
  os :: 'x

definition V2_MAX_JOBS :: nat where
  "V2_MAX_JOBS = 4096"

text \<open>
  \<^item> \<open>b_config\<close>: whether \<^verbatim>\<open>POLICY_V2_CONFIG\<close> is set;
  \<^item> \<open>b_open_log\<close>: whether \<^verbatim>\<open>fopen\<close> of the log succeeds; \<open>b_save\<close>: the copy of a
    message in \<^verbatim>\<open>observations.jsonl\<close>;
  \<^item> \<open>b_get_scale\<close>, \<open>b_set_scale\<close>: the scale of the simulated clock;
  \<^item> \<open>b_socketpair\<close>: the two ends of the socket, if it succeeds; \<open>b_fork\<close>: whether
    \<^verbatim>\<open>fork\<close> succeeds, in the parent; \<open>b_close\<close>;
  \<^item> \<open>b_poll_out\<close>, \<open>b_poll_in\<close>: whether \<^verbatim>\<open>poll\<close> reports the descriptor ready in time;
    \<open>b_send\<close>: the result of \<^verbatim>\<open>send\<close>; \<open>b_recv\<close>: the one byte of \<^verbatim>\<open>recv\<close>, if there is one;
  \<^item> \<open>b_fmt6\<close>: the text that \<^verbatim>\<open>%.6f\<close> gives for a time divided by 1000000.0.
\<close>

record 'x bridge_ctl =
  b_loop :: "'x bridge loop_ctl"
  b_config :: bool
  b_open_log :: "'x \<Rightarrow> bool \<times> 'x"
  b_save :: "string \<Rightarrow> 'x \<Rightarrow> 'x"
  b_get_scale :: "'x bridge globals \<Rightarrow> real"
  b_set_scale :: "real \<Rightarrow> 'x bridge globals \<Rightarrow> 'x bridge globals"
  b_socketpair :: "'x \<Rightarrow> (int \<times> int) option \<times> 'x"
  b_fork :: "'x \<Rightarrow> bool \<times> 'x"
  b_close :: "int \<Rightarrow> 'x \<Rightarrow> 'x"
  b_poll_out :: "int \<Rightarrow> 'x \<Rightarrow> bool \<times> 'x"
  b_poll_in :: "int \<Rightarrow> 'x \<Rightarrow> bool \<times> 'x"
  b_send :: "int \<Rightarrow> string \<Rightarrow> 'x \<Rightarrow> int \<times> 'x"
  b_recv :: "int \<Rightarrow> 'x \<Rightarrow> char option \<times> 'x"
  b_fmt6 :: "int \<Rightarrow> string"

abbreviation b_ctl :: "'x bridge_ctl \<Rightarrow> 'x bridge globals ctl" where
  "b_ctl c \<equiv> l_ctl (b_loop c)"

abbreviation br :: "'x bridge st \<Rightarrow> 'x bridge" where
  "br s \<equiv> daemon (world s)"

abbreviation updb :: "('x bridge \<Rightarrow> 'x bridge) \<Rightarrow> 'x bridge st \<Rightarrow> 'x bridge st" where
  "updb f s \<equiv> upd (\<lambda>g. g\<lparr>daemon := f (daemon g)\<rparr>) s"

definition upd_job :: "nat \<Rightarrow> (v2_job \<Rightarrow> v2_job) \<Rightarrow> 'x bridge \<Rightarrow> 'x bridge" where
  "upd_job i f b = b\<lparr>v2_jobs := (v2_jobs b)[i := f (v2_jobs b ! i)]\<rparr>"

definition log_line :: "log_entry \<Rightarrow> 'x bridge \<Rightarrow> 'x bridge" where
  "log_line e b = b\<lparr>v2_log := map_option (\<lambda>l. l @ [e]) (v2_log b)\<rparr>"

subsection \<open>Holding and releasing\<close>

definition v2_epoch :: "'x bridge_ctl \<Rightarrow> 'x bridge st \<Rightarrow> int" where
  "v2_epoch c s = simulator_start_time (br s) + microseconds_before_first_job (c_conf (b_ctl c))
     + first_job_delay (c_conf (b_ctl c))"

definition v2_pending :: "v2_job list \<Rightarrow> nat" where
  "v2_pending jobs = length (filter (\<lambda>j. \<not> v2_submitted j) jobs)"

definition v2_release :: "'x bridge_ctl \<Rightarrow> nat \<Rightarrow> 'x bridge st \<Rightarrow> 'x bridge st option" where
  "v2_release c i s = do {
     let s = updb (upd_job i (\<lambda>j. j\<lparr>v2_submitted := True\<rparr>)) s;
     (s, e) \<leftarrow> submit_job (b_ctl c) (v2_payload (v2_jobs (br s) ! i)) s;
     let s = updb (upd_job i (\<lambda>j. j\<lparr>v2_payload := e\<rparr>)) s;
     if v2_log (br s) = None then Some s
     else let (s, t) = get_sim_utime (b_ctl c) s
          in Some (updb (log_line (Release (s_job_sim_id e) (s_job_id e) (t - v2_epoch c s)
                          (v2_arrived (v2_jobs (br s) ! i) - v2_epoch c s))) s) }"

definition v2_fail :: "'x bridge_ctl \<Rightarrow> string \<Rightarrow> 'x bridge st \<Rightarrow> 'x bridge st" where
  "v2_fail c reason s =
     updb (\<lambda>b. log_line (Failsafe reason)
       (if 0 \<le> v2_fd b then b\<lparr>v2_failed := True, os := b_close c (v2_fd b) (os b), v2_fd := - 1\<rparr>
        else b\<lparr>v2_failed := True\<rparr>)) s"

definition v2_arrive :: "'x bridge_ctl \<Rightarrow> sim_event_submit_batch_job \<Rightarrow> int \<Rightarrow> 'x bridge st \<Rightarrow>
    ('x bridge st \<times> sim_event_submit_batch_job) option" where
  "v2_arrive c payload w s =
     (if \<not> b_config c then submit_job (b_ctl c) payload s
      else if V2_MAX_JOBS \<le> length (v2_jobs (br s))
           then submit_job (b_ctl c) payload (v2_fail c ''bridge_capacity_exceeded'' s)
      else Some (updb (\<lambda>b. b\<lparr>v2_jobs := v2_jobs b @
              [\<lparr>v2_payload = payload, v2_arrived = w, v2_submitted = False, v2_reported = False, v2_state = - 1\<rparr>],
              v2_wake := 0\<rparr>) s, payload))"

definition v2_connect :: "'x bridge_ctl \<Rightarrow> 'x bridge \<Rightarrow> 'x bridge \<times> bool" where
  "v2_connect c b =
     (case b_socketpair c (os b) of
        (None, x) \<Rightarrow> (b\<lparr>os := x\<rparr>, False)
      | (Some (s0, s1), x) \<Rightarrow>
          let (child, x) = b_fork c x
          in if \<not> child then (b\<lparr>os := b_close c s1 (b_close c s0 x)\<rparr>, False)
             else (b\<lparr>os := b_close c s1 x, v2_fd := s0\<rparr>, True))"

subsection \<open>Observation\<close>

definition IS_JOB_PENDING :: "job_record \<Rightarrow> bool" where
  "IS_JOB_PENDING j \<longleftrightarrow> jr_state j AND 0xff = 0"

definition observed_state :: "job_record option \<Rightarrow> int" where
  "observed_state actual =
     (case actual of None \<Rightarrow> 3 | Some r \<Rightarrow> if IS_JOB_RUNNING r then 2 else if IS_JOB_PENDING r then 1 else 3)"

fun v2_observe :: "(u32 \<Rightarrow> job_record option) \<Rightarrow> v2_job list \<Rightarrow> bool \<Rightarrow> v2_job list \<times> bool" where
  "v2_observe find_job [] dirty = ([], dirty)"
| "v2_observe find_job (j # js) dirty =
     (if \<not> v2_submitted j
      then let (js, dirty) = v2_observe find_job js (dirty \<or> \<not> v2_reported j) in (j # js, dirty)
      else let state = observed_state (find_job (s_job_id (v2_payload j)));
               (js, dirty) = v2_observe find_job js (dirty \<or> state \<noteq> v2_state j)
           in (j\<lparr>v2_state := state\<rparr> # js, dirty))"

definition fmt_06u :: "u32 \<Rightarrow> string" where
  "fmt_06u n = (let d = decimal (unat n) in replicate (6 - length d) (CHR ''0'') @ d)"

fun commas :: "string list \<Rightarrow> string" where
  "commas [] = []"
| "commas [x] = x"
| "commas (x # y # xs) = x @ '','' @ commas (y # xs)"

definition state_name :: "int \<Rightarrow> string" where
  "state_name st = (if st = 1 then ''pending'' else if st = 2 then ''running'' else ''completed'')"

definition arrival_text :: "'x bridge_ctl \<Rightarrow> int \<Rightarrow> v2_job \<Rightarrow> string" where
  "arrival_text c epoch j =
     ''[\"sim_'' @ fmt_06u (s_job_sim_id (v2_payload j)) @ ''\",'' @ b_fmt6 c (v2_arrived j - epoch) @ '']''"

definition state_text :: "'x bridge_ctl \<Rightarrow> (u32 \<Rightarrow> job_record option) \<Rightarrow> int \<Rightarrow> v2_job \<Rightarrow> string" where
  "state_text c find_job epoch j =
     ''{\"id\":\"sim_'' @ fmt_06u (s_job_sim_id (v2_payload j)) @ ''\",\"state\":\"'' @ state_name (v2_state j)
     @ ''\",\"start_s\":''
     @ (case find_job (s_job_id (v2_payload j)) of
          Some r \<Rightarrow> if jr_start_time r \<noteq> 0 then b_fmt6 c (jr_start_time r * 1000000 - epoch) else b_fmt6 c 0
        | None \<Rightarrow> b_fmt6 c 0) @ ''}''"

definition v2_message :: "'x bridge_ctl \<Rightarrow> int \<Rightarrow> 'x bridge st \<Rightarrow> string" where
  "v2_message c now s =
     (let epoch = v2_epoch c s; jobs = v2_jobs (br s)
      in ''{\"now_s\":'' @ b_fmt6 c (now - epoch) @ '',\"arrivals\":[''
         @ commas (map (arrival_text c epoch) (filter (\<lambda>j. \<not> v2_reported j) jobs))
         @ ''],\"states\":[''
         @ commas (map (state_text c (c_find_job (b_ctl c) (world s)) epoch) (filter v2_submitted jobs))
         @ '']}'' @ [CHR 0x0A])"

subsection \<open>Exchange with the controller\<close>

function v2_send :: "'x bridge_ctl \<Rightarrow> int \<Rightarrow> string \<Rightarrow> nat \<Rightarrow> 'x \<Rightarrow> nat \<times> 'x" where
  "v2_send c fd message sent x =
     (if sent < length message then
        let (ready, x) = b_poll_out c fd x
        in if \<not> ready then (sent, x)
           else let (n, x) = b_send c fd (drop sent message) x
                in if n \<le> 0 then (sent, x) else v2_send c fd message (sent + nat n) x
      else (sent, x))"
  by pat_completeness auto
termination
  by (relation "measure (\<lambda>(c, fd, message, sent, x). length message - sent)") auto

function v2_recv :: "'x bridge_ctl \<Rightarrow> int \<Rightarrow> string \<Rightarrow> 'x \<Rightarrow> string \<times> 'x" where
  "v2_recv c fd response x =
     (if length response < 65535 then
        let (ready, x) = b_poll_in c fd x
        in if \<not> ready then (response, x)
           else case b_recv c fd x of
                  (None, x) \<Rightarrow> (response, x)
                | (Some ch, x) \<Rightarrow>
                    if ch = CHR 0x0A then (response @ [ch], x) else v2_recv c fd (response @ [ch]) x
      else (response, x))"
  by pat_completeness auto
termination
  by (relation "measure (\<lambda>(c, fd, response, x). 65535 - length response)") auto

declare v2_send.simps [simp del] v2_recv.simps [simp del]

definition find_held :: "v2_job list \<Rightarrow> int \<Rightarrow> nat option" where
  "find_held jobs jid =
     foldl (\<lambda>r i. if uint (s_job_sim_id (v2_payload (jobs ! i))) = jid \<and> \<not> v2_submitted (jobs ! i) then Some i else r)
       None [0..<length jobs]"

fun read_indices :: "v2_job list \<Rightarrow> nat \<Rightarrow> string \<Rightarrow> nat list \<Rightarrow> string + nat list" where
  "read_indices jobs 0 cursor indices = Inr indices"
| "read_indices jobs (Suc k) cursor indices =
     (let (jid, rest) = strtol cursor
      in if rest = cursor then Inl ''invalid_release_id''
         else case find_held jobs jid of
                None \<Rightarrow> Inl ''unknown_or_duplicate_release''
              | Some i \<Rightarrow>
                  if i \<in> set indices then Inl ''unknown_or_duplicate_release''
                  else read_indices jobs k rest (indices @ [i]))"

definition parse_reply :: "v2_job list \<Rightarrow> string \<Rightarrow> string + int \<times> nat list" where
  "parse_reply jobs response =
     (let cursor = takeWhile (\<lambda>ch. ch \<noteq> CHR 0x00) response;
          (next_wake, e1) = strtol cursor
      in if e1 = cursor then Inl ''invalid_next_wake''
         else let (cnt, e2) = strtol e1
              in if e2 = e1 \<or> cnt < 0 \<or> int (v2_pending jobs) < cnt then Inl ''invalid_release_count''
                 else map_sum id (\<lambda>ix. (next_wake, ix)) (read_indices jobs (nat cnt) e2 []))"

subsection \<open>A tick\<close>

text \<open>The loop at \<^verbatim>\<open>fallback\<close>; a submission may append to the table while it runs.\<close>

partial_function (option) release_from :: "'x bridge_ctl \<Rightarrow> nat \<Rightarrow> 'x bridge st \<Rightarrow> 'x bridge st option" where
  "release_from c i s =
     (if i < length (v2_jobs (br s)) then
        if v2_submitted (v2_jobs (br s) ! i) then release_from c (i + 1) s
        else Option.bind (v2_release c i s) (release_from c (i + 1))
      else Some s)"

definition v2_fallback :: "'x bridge_ctl \<Rightarrow> 'x bridge st \<Rightarrow> 'x bridge st option" where
  "v2_fallback c s = do {
     s \<leftarrow> release_from c 0 s;
     Some (updb (\<lambda>b. b\<lparr>v2_wake := INT64_MAX, v2_busy := False\<rparr>) s) }"

fun release_list :: "'x bridge_ctl \<Rightarrow> nat list \<Rightarrow> 'x bridge st \<Rightarrow> 'x bridge st option" where
  "release_list c [] s = Some s"
| "release_list c (i # is) s = Option.bind (v2_release c i s) (release_list c is)"

definition v2_exchange :: "'x bridge_ctl \<Rightarrow> int \<Rightarrow> 'x bridge st \<Rightarrow> 'x bridge st \<times> string" where
  "v2_exchange c now s =
     (let message = v2_message c now s;
          x = b_save c message (os (br s));
          (sent, x) = v2_send c (v2_fd (br s)) message 0 x;
          (response, x) = (if sent = length message then v2_recv c (v2_fd (br s)) [] x else ([], x))
      in (updb (\<lambda>b. b\<lparr>os := x\<rparr>) s, response))"

definition v2_answer :: "'x bridge_ctl \<Rightarrow> int \<Rightarrow> string \<Rightarrow> 'x bridge st \<Rightarrow> 'x bridge st option" where
  "v2_answer c now response s =
     (if response = [] \<or> List.last response \<noteq> CHR 0x0A then v2_fallback c (v2_fail c ''controller_timeout_or_exit'' s)
      else case parse_reply (v2_jobs (br s)) response of
             Inl reason \<Rightarrow> v2_fallback c (v2_fail c reason s)
           | Inr (next_wake, indices) \<Rightarrow> do {
               let s = updb (\<lambda>b. b\<lparr>v2_jobs := map (\<lambda>j. j\<lparr>v2_reported := True\<rparr>) (v2_jobs b),
                                  v2_wake := next_wake + v2_epoch c s\<rparr>) s;
               if v2_wake (br s) \<le> now \<and> length indices < v2_pending (v2_jobs (br s))
               then v2_fallback c (v2_fail c ''invalid_past_wake'' s)
               else do {
                 s \<leftarrow> release_list c indices s;
                 Some (updb (\<lambda>b. b\<lparr>v2_busy := False\<rparr>) s) } })"

definition v2_consult :: "'x bridge_ctl \<Rightarrow> 'x bridge st \<Rightarrow> 'x bridge st option" where
  "v2_consult c s = do {
     let scale = b_get_scale c (world s);
     let (s, now) = get_sim_utime (b_ctl c) (upd (b_set_scale c 0) s);
     let (b, connected) = (if v2_fd (br s) < 0 then v2_connect c (br s) else (br s, True));
     let s = updb (\<lambda>_. b) s;
     if \<not> connected then v2_fallback c (v2_fail c ''controller_start'' (upd (b_set_scale c scale) s))
     else let (s, response) = v2_exchange c now s
          in v2_answer c now response (upd (b_set_scale c scale) s) }"

text \<open>The part of a tick before any decision: the log is opened and the jobs are looked up.\<close>

definition v2_look :: "'x bridge_ctl \<Rightarrow> 'x bridge st \<Rightarrow> 'x bridge st \<times> bool" where
  "v2_look c s =
     (let s = updb (\<lambda>b. b\<lparr>v2_busy := True\<rparr>) s;
          s = (if v2_log (br s) = None
               then let (ok, x) = b_open_log c (os (br s))
                    in updb (\<lambda>b. b\<lparr>v2_log := (if ok then Some [] else None), os := x\<rparr>) s
               else s);
          (jobs, dirty) = v2_observe (c_find_job (b_ctl c) (world s)) (v2_jobs (br s)) False
      in (updb (\<lambda>b. b\<lparr>v2_jobs := jobs\<rparr>) s, dirty))"

definition v2_tick :: "'x bridge_ctl \<Rightarrow> int \<Rightarrow> 'x bridge st \<Rightarrow> 'x bridge st option" where
  "v2_tick c now s =
     (if \<not> b_config c \<or> v2_jobs (br s) = [] \<or> v2_busy (br s) then Some s
      else
        let (s, dirty) = v2_look c s
        in if \<not> dirty \<and> (v2_pending (v2_jobs (br s)) = 0 \<or> now < v2_wake (br s))
           then Some (updb (\<lambda>b. b\<lparr>v2_busy := False\<rparr>) s)
           else if v2_failed (br s) then v2_fallback c s
           else v2_consult c s)"

subsection \<open>What calls of the daemon may do to the bridge\<close>

text \<open>
  A call of the daemon may run the event loop again and so let jobs arrive. The
  relation \<open>grows\<close> says what is left of the bridge: new held jobs at the end of the
  table, failures noted, nothing released. Reading or scaling the clock leaves
  the bridge alone.
\<close>

definition grows :: "'x bridge \<Rightarrow> 'x bridge \<Rightarrow> bool" where
  "grows b b' \<longleftrightarrow>
     (\<exists>new. v2_jobs b' = v2_jobs b @ new \<and> (\<forall>j \<in> set new. \<not> v2_submitted j \<and> \<not> v2_reported j)
        \<and> (if new = [] then v2_wake b' = v2_wake b else length (v2_jobs b') \<le> V2_MAX_JOBS))
     \<and> (v2_failed b \<longrightarrow> v2_failed b')
     \<and> (\<exists>rs. v2_log b' = map_option (\<lambda>l. l @ map Failsafe rs) (v2_log b))"

definition bridge_ok :: "'x bridge_ctl \<Rightarrow> bool" where
  "bridge_ok c \<longleftrightarrow>
     (\<forall>g. daemon (snd (c_utime (b_ctl c) g)) = daemon g)
     \<and> (\<forall>r g. daemon (b_set_scale c r g) = daemon g)
     \<and> (\<forall>s s' argv x. c_sbatch_options (b_ctl c) argv s = Some (s', x) \<longrightarrow> grows (br s) (br s'))
     \<and> (\<forall>s s' argv x. c_submit (b_ctl c) argv s = Some (s', x) \<longrightarrow> grows (br s) (br s'))
     \<and> (\<forall>s s' n. c_sleep (b_ctl c) n s = Some s' \<longrightarrow> grows (br s) (br s'))
     \<and> (\<forall>s s' jid. c_post_submit (b_ctl c) jid s = Some s' \<longrightarrow> grows (br s) (br s'))"

lemma log_unchanged [simp]: "\<exists>rs. l = map_option (\<lambda>l. l @ map Failsafe rs) l"
  by (rule exI [of _ "[]"]) (cases l; simp)

lemma grows_refl [simp]: "grows b b"
  unfolding grows_def by simp

lemma grows_trans [trans]:
  assumes "grows a b" "grows b c"
  shows "grows a c"
proof -
  obtain n1 r1 where 1: "v2_jobs b = v2_jobs a @ n1" "\<forall>j \<in> set n1. \<not> v2_submitted j \<and> \<not> v2_reported j"
      "if n1 = [] then v2_wake b = v2_wake a else length (v2_jobs b) \<le> V2_MAX_JOBS"
      "v2_log b = map_option (\<lambda>l. l @ map Failsafe r1) (v2_log a)"
    using assms(1) unfolding grows_def by blast
  obtain n2 r2 where 2: "v2_jobs c = v2_jobs b @ n2" "\<forall>j \<in> set n2. \<not> v2_submitted j \<and> \<not> v2_reported j"
      "if n2 = [] then v2_wake c = v2_wake b else length (v2_jobs c) \<le> V2_MAX_JOBS"
      "v2_log c = map_option (\<lambda>l. l @ map Failsafe r2) (v2_log b)"
    using assms(2) unfolding grows_def by blast
  have "v2_jobs c = v2_jobs a @ n1 @ n2 \<and> (\<forall>j \<in> set (n1 @ n2). \<not> v2_submitted j \<and> \<not> v2_reported j)
      \<and> (if n1 @ n2 = [] then v2_wake c = v2_wake a else length (v2_jobs c) \<le> V2_MAX_JOBS)"
    using 1 2 by (cases "n2 = []"; cases "n1 = []") auto
  moreover have "v2_log c = map_option (\<lambda>l. l @ map Failsafe (r1 @ r2)) (v2_log a)"
    using 1(4) 2(4) by (cases "v2_log a") auto
  moreover have "v2_failed a \<longrightarrow> v2_failed c" using assms unfolding grows_def by auto
  ultimately show ?thesis unfolding grows_def by blast
qed

lemma clock_bridge: "bridge_ok c \<Longrightarrow> get_sim_utime (b_ctl c) s = (s', t) \<Longrightarrow> br s' = br s"
proof -
  assume a: "bridge_ok c" "get_sim_utime (b_ctl c) s = (s', t)"
  have "daemon (snd (c_utime (b_ctl c) (world s))) = br s" using a(1) unfolding bridge_ok_def by blast
  then show ?thesis using a(2) by (cases "c_utime (b_ctl c) (world s)") (auto simp: get_sim_utime_def)
qed

lemma set_response_bridge:
  "set_response p resp e s = Some (s', e') \<Longrightarrow> world s' = world s \<and> s_job_sim_id e' = s_job_sim_id e"
  by (auto simp: set_response_def set_job_def bind_eq_Some_conv split: option.splits if_splits)

lemma submit_loop_grows:
  assumes "bridge_ok c"
  shows "submit_loop (b_ctl c) p retries e s = Some (s', e', resp) \<Longrightarrow>
    grows (br s) (br s') \<and> s_job_sim_id e' = s_job_sim_id e"
proof (induction "MAX_RETRIES - retries" arbitrary: retries e s rule: less_induct)
  case less
  obtain s1 rc r1 retry s2 e2 where 1: "c_submit (b_ctl c) (s_argv e) s = Some (s1, rc, r1, retry)"
      "set_response p r1 e s1 = Some (s2, e2)"
    using less.prems by (auto simp: submit_loop.simps [of _ p retries] bind_eq_Some_conv)
  have g: "grows (br s) (br s2)" "s_job_sim_id e2 = s_job_sim_id e"
    using assms 1 set_response_bridge [OF 1(2)] unfolding bridge_ok_def by (metis, simp)
  show ?case
  proof (cases "0 \<le> rc \<or> \<not> retry \<or> MAX_RETRIES \<le> retries")
    case True
    then show ?thesis using less.prems g 1 by (auto simp: submit_loop.simps [of _ p retries] split: if_splits)
  next
    case False
    then obtain s3 where 3: "c_sleep (b_ctl c) (retries + 1) s2 = Some s3"
        "submit_loop (b_ctl c) p (retries + 1) e2 s3 = Some (s', e', resp)"
      using less.prems 1 by (auto simp: submit_loop.simps [of _ p retries] bind_eq_Some_conv)
    have "grows (br s2) (br s3)" using assms 3(1) unfolding bridge_ok_def by metis
    moreover have "MAX_RETRIES - (retries + 1) < MAX_RETRIES - retries" using False by linarith
    ultimately show ?thesis using less.hyps [OF _ 3(2)] g grows_trans by metis
  qed
qed

lemma submit_grows:
  assumes "bridge_ok c" "submit_job (b_ctl c) e s = Some (s', e')"
  shows "grows (br s) (br s') \<and> s_job_sim_id e' = s_job_sim_id e"
proof -
  obtain s1 go where 1: "c_sbatch_options (b_ctl c) (s_argv e) s = Some (s1, go)"
    using assms(2) by (auto simp: submit_job_def bind_eq_Some_conv)
  have g1: "grows (br s) (br s1)" using assms(1) 1 unfolding bridge_ok_def by metis
  show ?thesis
  proof (cases go)
    case False
    then show ?thesis using assms(2) 1 g1 by (simp add: submit_job_def)
  next
    case True
    obtain s2 t where 2: "get_sim_utime (b_ctl c) s1 = (s2, t)" by fastforce
    obtain a p s3 e3 resp where 3: "submit_loop (b_ctl c) p 0 e (s2\<lparr>act := a\<rparr>) = Some (s3, e3, resp)"
        "(case resp of None \<Rightarrow> Some (s3, e3)
          | Some rid \<Rightarrow> Option.bind (c_post_submit (b_ctl c) rid s3) (set_response p resp e3)) = Some (s', e')"
      using assms(2) 1 2 True by (auto simp: submit_job_def bind_eq_Some_conv)
    have g3: "grows (br s) (br s3)" "s_job_sim_id e3 = s_job_sim_id e"
      using submit_loop_grows [OF assms(1) 3(1)] clock_bridge [OF assms(1) 2] g1 grows_trans by fastforce+
    show ?thesis
    proof (cases resp)
      case None
      then show ?thesis using 3(2) g3 by simp
    next
      case (Some rid)
      then obtain s4 where 4: "c_post_submit (b_ctl c) rid s3 = Some s4" "set_response p resp e3 s4 = Some (s', e')"
        using 3(2) by (auto simp: bind_eq_Some_conv)
      have "grows (br s3) (br s4)" using assms(1) 4(1) unfolding bridge_ok_def by metis
      then show ?thesis using g3 set_response_bridge [OF 4(2)] grows_trans by fastforce
    qed
  qed
qed

lemma arrive_grows:
  assumes "bridge_ok c" "v2_arrive c e w s = Some (s', e')"
  shows "grows (br s) (br s') \<or> \<not> b_config c"
proof (cases "b_config c \<and> length (v2_jobs (br s)) < V2_MAX_JOBS")
  case True
  then have "s' = updb (\<lambda>b. b\<lparr>v2_jobs := v2_jobs b @
      [\<lparr>v2_payload = e, v2_arrived = w, v2_submitted = False, v2_reported = False, v2_state = - 1\<rparr>], v2_wake := 0\<rparr>) s"
    using assms(2) by (auto simp: v2_arrive_def)
  then show ?thesis using True by (simp add: grows_def)
next
  case False
  have f: "grows (br s) (br (v2_fail c r s))" for r
    unfolding grows_def v2_fail_def log_line_def
    by (cases "v2_log (br s)") (auto intro: exI [of _ "[r]"])
  show ?thesis
  proof (cases "b_config c")
    case True
    then have "submit_job (b_ctl c) e (v2_fail c ''bridge_capacity_exceeded'' s) = Some (s', e')"
      using False assms(2) by (simp add: v2_arrive_def)
    from submit_grows [OF assms(1) this] show ?thesis using f grows_trans by blast
  qed simp
qed

subsection \<open>A release\<close>

abbreviation sim_id :: "v2_job \<Rightarrow> u32" where
  "sim_id j \<equiv> s_job_sim_id (v2_payload j)"

text \<open>The jobs that were released, as the table and as the log have them.\<close>

definition released :: "v2_job list \<Rightarrow> u32 multiset" where
  "released jobs = mset (map sim_id (filter v2_submitted jobs))"

definition logged :: "log_entry list \<Rightarrow> u32 multiset" where
  "logged l = mset (map log_id (filter is_Release l))"

lemma released_append [simp]: "released (xs @ ys) = released xs + released ys"
  by (simp add: released_def)

lemma logged_simps [simp]:
  "logged [] = {#}" "logged (xs @ ys) = logged xs + logged ys" "logged (map Failsafe rs) = {#}"
  "logged [Failsafe r] = {#}" "logged [Release i k t a] = {#i#}"
  by (simp_all add: logged_def filter_map comp_def)

lemma released_held: "\<forall>j \<in> set js. \<not> v2_submitted j \<Longrightarrow> released js = {#}"
  by (simp add: released_def)

lemma update_split: "i < length xs \<Longrightarrow> xs[i := y] = take i xs @ [y] @ drop (Suc i) xs"
  by (simp add: upd_conv_take_nth_drop)

lemma released_update:
  assumes "i < length xs" "\<not> v2_submitted (xs ! i)" "v2_submitted y"
  shows "released (xs[i := y]) = add_mset (sim_id y) (released xs)"
proof -
  have "released xs = released (take i xs) + released [xs ! i] + released (drop (Suc i) xs)"
    using id_take_nth_drop [OF assms(1)] by (metis append.left_neutral append_Cons released_append group_cancel.add1)
  then show ?thesis using assms by (simp add: update_split) (simp add: released_def)
qed

text \<open>
  \<open>frees js X js'\<close>: the table \<open>js\<close> became \<open>js'\<close>, releasing exactly the held jobs at
  the positions \<open>X\<close>; further held jobs may have arrived.
\<close>

definition same_job :: "v2_job \<Rightarrow> v2_job \<Rightarrow> bool" where
  "same_job j j' \<longleftrightarrow> sim_id j' = sim_id j \<and> v2_arrived j' = v2_arrived j"

definition held :: "v2_job list \<Rightarrow> nat set" where
  "held js = {i. i < length js \<and> \<not> v2_submitted (js ! i)}"

definition frees :: "v2_job list \<Rightarrow> nat set \<Rightarrow> v2_job list \<Rightarrow> bool" where
  "frees js X js' \<longleftrightarrow>
     length js \<le> length js' \<and> (\<forall>i < length js. same_job (js ! i) (js' ! i))
     \<and> X \<subseteq> held js \<union> {length js..<length js'}
     \<and> held js' = held js \<union> {length js..<length js'} - X
     \<and> (length js < length js' \<longrightarrow> length js' \<le> V2_MAX_JOBS)"

lemma frees_refl [simp]: "frees js {} js"
  by (auto simp: frees_def same_job_def)

lemma freesD:
  assumes "frees js X js'"
  shows "length js \<le> length js'" "i < length js \<Longrightarrow> same_job (js ! i) (js' ! i)"
    "X \<subseteq> held js \<union> {length js..<length js'}" "held js' = held js \<union> {length js..<length js'} - X"
    "length js < length js' \<Longrightarrow> length js' \<le> V2_MAX_JOBS"
  using assms unfolding frees_def by blast+

lemma held_less: "held js \<subseteq> {..<length js}"
  by (auto simp: held_def)

lemma held_compose:
  fixes H X Y :: "nat set"
  assumes "l \<le> m" "m \<le> n" "H \<subseteq> {..<l}" "X \<subseteq> H \<union> {l..<m}"
  shows "((H \<union> {l..<m} - X) \<union> {m..<n}) - Y = H \<union> {l..<n} - (X \<union> Y)"
  using assms by (auto simp: subset_iff) force+

lemma frees_trans:
  assumes "frees a X b" "frees b Y c"
  shows "frees a (X \<union> Y) c"
proof -
  note 1 = freesD [OF assms(1)]
  note 2 = freesD [OF assms(2)]
  have "same_job (a ! i) (c ! i)" if "i < length a" for i
    using 1(2) [OF that] 2(2) [of i] that 1(1) by (simp add: same_job_def)
  moreover have "X \<union> Y \<subseteq> held a \<union> {length a..<length c}"
    using 1(1,3) 2(1) 2(3) [unfolded 1(4)] by (auto simp: subset_iff)
  moreover have "held c = held a \<union> {length a..<length c} - (X \<union> Y)"
    unfolding 2(4) 1(4) by (rule held_compose [OF 1(1) 2(1) held_less 1(3)])
  moreover have "length a < length c \<longrightarrow> length c \<le> V2_MAX_JOBS"
    using 1(1,5) 2(1,5) by linarith
  ultimately show ?thesis unfolding frees_def using 1(1) 2(1) by auto
qed

lemma frees_append:
  "\<forall>j \<in> set new. \<not> v2_submitted j \<Longrightarrow> new \<noteq> [] \<longrightarrow> length (js @ new) \<le> V2_MAX_JOBS \<Longrightarrow> frees js {} (js @ new)"
  by (auto simp: frees_def same_job_def held_def nth_append)

lemma frees_update:
  assumes "i < length js" "same_job (js ! i) j" "v2_submitted j"
  shows "frees js (held js \<inter> {i}) (js[i := j])"
  using assms by (auto simp: frees_def same_job_def held_def nth_list_update split: if_splits)

text \<open>The log follows the table: one line for each release.\<close>

definition logs :: "'x bridge \<Rightarrow> 'x bridge \<Rightarrow> bool" where
  "logs b b' \<longleftrightarrow>
     (case v2_log b of
        None \<Rightarrow> v2_log b' = None
      | Some l \<Rightarrow> \<exists>l'. v2_log b' = Some (l @ l') \<and> released (v2_jobs b') = released (v2_jobs b) + logged l')"

text \<open>
  Jobs that arrived meanwhile are not yet reported; without any, the wake-up time stands.
\<close>

definition arrivals :: "'x bridge \<Rightarrow> 'x bridge \<Rightarrow> bool" where
  "arrivals b b' \<longleftrightarrow> length (v2_jobs b) \<le> length (v2_jobs b')
     \<and> (length (v2_jobs b') = length (v2_jobs b) \<longrightarrow> v2_wake b' = v2_wake b)
     \<and> (\<forall>i < length (v2_jobs b'). v2_reported (v2_jobs b' ! i) \<longleftrightarrow>
          i < length (v2_jobs b) \<and> v2_reported (v2_jobs b ! i))"

definition moves :: "'x bridge \<Rightarrow> nat set \<Rightarrow> 'x bridge \<Rightarrow> bool" where
  "moves b X b' \<longleftrightarrow> frees (v2_jobs b) X (v2_jobs b') \<and> logs b b' \<and> arrivals b b'
     \<and> (v2_failed b \<longrightarrow> v2_failed b')"

lemma arrivals_trans: "arrivals a b \<Longrightarrow> arrivals b c \<Longrightarrow> arrivals a c"
  unfolding arrivals_def by (metis le_antisym order.strict_trans2 order_trans)

lemma logs_trans: "logs a b \<Longrightarrow> logs b c \<Longrightarrow> logs a c"
proof -
  assume *: "logs a b" "logs b c"
  show ?thesis
  proof (cases "v2_log a")
    case None
    then show ?thesis using * by (simp add: logs_def)
  next
    case (Some l)
    then obtain l1 where l1: "v2_log b = Some (l @ l1)" "released (v2_jobs b) = released (v2_jobs a) + logged l1"
      using * by (auto simp: logs_def)
    then obtain l2 where "v2_log c = Some ((l @ l1) @ l2)" "released (v2_jobs c) = released (v2_jobs b) + logged l2"
      using * by (auto simp: logs_def)
    then show ?thesis using l1 Some by (auto simp: logs_def intro!: exI [of _ "l1 @ l2"])
  qed
qed

lemma moves_trans: "moves a X b \<Longrightarrow> moves b Y c \<Longrightarrow> moves a (X \<union> Y) c"
  unfolding moves_def using frees_trans logs_trans arrivals_trans by metis

lemma grows_moves: "grows b b' \<Longrightarrow> moves b {} b'"
proof -
  assume "grows b b'"
  then obtain new rs where n: "v2_jobs b' = v2_jobs b @ new" "\<forall>j \<in> set new. \<not> v2_submitted j \<and> \<not> v2_reported j"
      "if new = [] then v2_wake b' = v2_wake b else length (v2_jobs b') \<le> V2_MAX_JOBS" "v2_failed b \<longrightarrow> v2_failed b'"
      "v2_log b' = map_option (\<lambda>l. l @ map Failsafe rs) (v2_log b)"
    unfolding grows_def by blast
  have h: "\<forall>j \<in> set new. \<not> v2_submitted j" using n(2) by blast
  have "frees (v2_jobs b) {} (v2_jobs b')" using frees_append [OF h, of "v2_jobs b"] n(1,3) by (auto split: if_splits)
  moreover have "logs b b'" using n(1,5) released_held [OF h]
    by (auto simp: logs_def split: option.splits)
  moreover have "arrivals b b'" using n(1,2,3) by (auto simp: arrivals_def nth_append)
  ultimately show ?thesis using n(4) by (simp add: moves_def)
qed

subsection \<open>Single releases\<close>

definition host_ok :: "'x bridge_ctl \<Rightarrow> bool" where
  "host_ok c \<longleftrightarrow> bridge_ok c \<and> ctl_ok (b_ctl c) \<and> submit_ok (b_ctl c)"

lemma released_same:
  assumes "i < length xs" "v2_submitted (xs ! i)" "v2_submitted y" "sim_id y = sim_id (xs ! i)"
  shows "released (xs[i := y]) = released xs"
proof -
  have "released xs = released (take i xs) + released [xs ! i] + released (drop (Suc i) xs)"
    using id_take_nth_drop [OF assms(1)] by (metis append.left_neutral append_Cons released_append group_cancel.add1)
  then show ?thesis using assms by (simp add: update_split) (simp add: released_def)
qed

lemma sim_inv_world [simp]: "sim_inv (s\<lparr>world := w\<rparr>) = sim_inv s"
  by (simp add: sim_inv_def)

lemma release_table:
  fixes js :: "v2_job list"
  assumes "i \<in> held js" "\<forall>j \<in> set new. \<not> v2_submitted j" "new \<noteq> [] \<longrightarrow> length (js @ new) \<le> V2_MAX_JOBS"
    and "s_job_sim_id e = sim_id (js ! i)"
  defines "j0 \<equiv> (js ! i)\<lparr>v2_submitted := True\<rparr>"
  defines "js1 \<equiv> js[i := j0] @ new"
  shows "frees js {i} (js1[i := j0\<lparr>v2_payload := e\<rparr>])"
    and "released (js1[i := j0\<lparr>v2_payload := e\<rparr>]) = released js + {#sim_id (js ! i)#}"
proof -
  have i: "i < length js" "\<not> v2_submitted (js ! i)" "held js \<inter> {i} = {i}" using assms(1) by (auto simp: held_def)
  have i1: "i < length js1" "js1 ! i = j0" "held js1 \<inter> {i} = {}"
    using i(1) by (auto simp: js1_def nth_append held_def j0_def)
  have a: "frees js {i} (js[i := j0])" using frees_update [OF i(1), of j0] i(3) by (simp add: same_job_def j0_def)
  have b: "frees (js[i := j0]) {} js1" unfolding js1_def using frees_append [OF assms(2), of "js[i := j0]"] assms(3) by simp
  have c: "frees js1 {} (js1[i := j0\<lparr>v2_payload := e\<rparr>])"
    using frees_update [OF i1(1), of "j0\<lparr>v2_payload := e\<rparr>"] i1(2,3) assms(4) by (simp add: same_job_def j0_def)
  show "frees js {i} (js1[i := j0\<lparr>v2_payload := e\<rparr>])" using frees_trans [OF frees_trans [OF a b] c] by simp
  have "released (js1[i := j0\<lparr>v2_payload := e\<rparr>]) = released js1"
    using i1 assms(4) by (intro released_same) (simp_all add: j0_def)
  also have "\<dots> = released js + {#sim_id (js ! i)#}"
    using released_held [OF assms(2)] i(1,2) by (simp add: js1_def released_update j0_def)
  finally show "released (js1[i := j0\<lparr>v2_payload := e\<rparr>]) = released js + {#sim_id (js ! i)#}" .
qed

lemma v2_release_spec:
  assumes "host_ok c" "sim_inv s" "i \<in> held (v2_jobs (br s))"
  shows "\<exists>s'. v2_release c i s = Some s' \<and> sim_inv s' \<and> moves (br s) {i} (br s')"
proof -
  let ?j = "v2_jobs (br s) ! i"
  let ?s0 = "updb (upd_job i (\<lambda>j. j\<lparr>v2_submitted := True\<rparr>)) s"
  have i: "i < length (v2_jobs (br s))" using assms(3) by (simp add: held_def)
  have ok: "bridge_ok c" using assms(1) by (simp add: host_ok_def)
  obtain s1 e1 where 1: "submit_job (b_ctl c) (v2_payload (v2_jobs (br ?s0) ! i)) ?s0 = Some (s1, e1)" "sim_inv s1"
    using submit_job_good [of "b_ctl c" ?s0] assms(1,2) unfolding host_ok_def by (metis sim_inv_world)
  have e1: "s_job_sim_id e1 = sim_id ?j" using submit_grows [OF ok 1(1)] i by (simp add: upd_job_def)
  obtain new rs where n: "v2_jobs (br s1) = (v2_jobs (br s))[i := ?j\<lparr>v2_submitted := True\<rparr>] @ new"
      "\<forall>j \<in> set new. \<not> v2_submitted j" "new \<noteq> [] \<longrightarrow> length (v2_jobs (br s) @ new) \<le> V2_MAX_JOBS"
      "arrivals (br ?s0) (br s1)" "v2_failed (br s) \<longrightarrow> v2_failed (br s1)"
      "v2_log (br s1) = map_option (\<lambda>l. l @ map Failsafe rs) (v2_log (br s))"
    using submit_grows [OF ok 1(1)] grows_moves [of "br ?s0" "br s1"] unfolding grows_def
    by (auto simp: upd_job_def moves_def split: if_splits)
  let ?s2 = "updb (upd_job i (\<lambda>j. j\<lparr>v2_payload := e1\<rparr>)) s1"
  have "v2_jobs (br s1) ! i = ?j\<lparr>v2_submitted := True\<rparr>" using n(1) i by (simp add: nth_append)
  then have j2: "v2_jobs (br ?s2) = (v2_jobs (br s1))[i := ?j\<lparr>v2_submitted := True, v2_payload := e1\<rparr>]"
    by (simp add: upd_job_def)
  note t = release_table [OF assms(3) n(2,3) e1, folded n(1), folded j2]
  have ar: "arrivals (br s) (br ?s2)"
    using n(4) i by (auto simp: arrivals_def upd_job_def nth_list_update)
  show ?thesis
  proof (cases "v2_log (br s)")
    case None
    then have "v2_release c i s = Some ?s2" using 1(1) n(6) unfolding v2_release_def by (simp add: upd_job_def)
    moreover have "logs (br s) (br ?s2)" using n(6) None by (simp add: logs_def upd_job_def)
    ultimately show ?thesis using 1(2) t(1) n(5) ar by (auto simp: moves_def upd_job_def)
  next
    case (Some l)
    obtain s3 t where 3: "get_sim_utime (b_ctl c) ?s2 = (s3, t)" by fastforce
    have br3: "br s3 = br ?s2" using clock_bridge [OF ok 3] .
    have inv3: "sim_inv s3" using get_sim_utime_good(1) [of "b_ctl c" ?s2 s3 t] 3 assms(1) 1(2) by (simp add: host_ok_def)
    obtain rl where rl: "v2_release c i s = Some (updb (log_line rl) s3)" "is_Release rl" "log_id rl = sim_id ?j"
      using 1(1) 3 Some n(6) e1 unfolding v2_release_def by (simp add: upd_job_def)
    have "logged [rl] = {#sim_id ?j#}" using rl(2,3) by (simp add: logged_def)
    then have "logs (br s) (br (updb (log_line rl) s3))"
      using t(2) n(6) Some br3 by (auto simp: logs_def log_line_def upd_job_def intro!: exI [of _ "map Failsafe rs @ [rl]"])
    moreover have "arrivals (br s) (br (updb (log_line rl) s3))" using ar br3 by (simp add: arrivals_def log_line_def)
    ultimately show ?thesis using rl(1) inv3 t(1) n(5) br3 by (auto simp: moves_def log_line_def upd_job_def)
  qed
qed

subsection \<open>Sequences of releases\<close>

lemma moves_refl [simp]: "moves b {} b"
  using grows_moves [OF grows_refl] .

lemma moves_len: "moves b X b' \<Longrightarrow> length (v2_jobs b) \<le> V2_MAX_JOBS \<Longrightarrow> length (v2_jobs b') \<le> V2_MAX_JOBS"
  unfolding moves_def frees_def by (metis le_neq_implies_less)

lemma release_list_spec:
  assumes "host_ok c"
  shows "sim_inv s \<Longrightarrow> distinct ix \<Longrightarrow> set ix \<subseteq> held (v2_jobs (br s)) \<Longrightarrow>
    \<exists>s'. release_list c ix s = Some s' \<and> sim_inv s' \<and> moves (br s) (set ix) (br s')"
proof (induction ix arbitrary: s)
  case (Cons i ix)
  obtain s1 where 1: "v2_release c i s = Some s1" "sim_inv s1" "moves (br s) {i} (br s1)"
    using v2_release_spec [OF assms Cons.prems(1), of i] Cons.prems(3) by auto
  have "held (v2_jobs (br s1)) = held (v2_jobs (br s)) \<union> {length (v2_jobs (br s))..<length (v2_jobs (br s1))} - {i}"
    using 1(3) unfolding moves_def frees_def by blast
  then have "set ix \<subseteq> held (v2_jobs (br s1))" using Cons.prems(2,3) by auto
  then obtain s2 where 2: "release_list c ix s1 = Some s2" "sim_inv s2" "moves (br s1) (set ix) (br s2)"
    using Cons.IH [OF 1(2)] Cons.prems(2) by auto
  then show ?case using 1 moves_trans [OF 1(3) 2(3)] by auto
qed simp

lemma release_from_spec:
  assumes "host_ok c"
  shows "sim_inv s \<Longrightarrow> length (v2_jobs (br s)) \<le> V2_MAX_JOBS \<Longrightarrow> held (v2_jobs (br s)) \<inter> {..<i} = {} \<Longrightarrow>
    \<exists>s' X. release_from c i s = Some s' \<and> sim_inv s' \<and> moves (br s) X (br s') \<and> held (v2_jobs (br s')) = {}"
proof (induction "V2_MAX_JOBS - i" arbitrary: i s rule: less_induct)
  case less
  show ?case
  proof (cases "i < length (v2_jobs (br s))")
    case False
    then have "held (v2_jobs (br s)) = {}" using less.prems(3) held_less [of "v2_jobs (br s)"] by fastforce
    then show ?thesis using False less.prems(1) moves_refl by (subst release_from.simps) (auto intro!: exI [of _ "{}"])
  next
    case True
    have dec: "V2_MAX_JOBS - (i + 1) < V2_MAX_JOBS - i" using True less.prems(2) by linarith
    show ?thesis
    proof (cases "v2_submitted (v2_jobs (br s) ! i)")
      case sub: True
      then have "held (v2_jobs (br s)) \<inter> {..<i + 1} = {}" using less.prems(3) by (auto simp: held_def less_Suc_eq)
      from less.hyps [OF dec less.prems(1,2) this] show ?thesis
        using True sub by (subst release_from.simps) simp
    next
      case False
      then have "i \<in> held (v2_jobs (br s))" using True by (simp add: held_def)
      then obtain s1 where 1: "v2_release c i s = Some s1" "sim_inv s1" "moves (br s) {i} (br s1)"
        using v2_release_spec [OF assms less.prems(1)] by blast
      have "held (v2_jobs (br s1)) = held (v2_jobs (br s)) \<union> {length (v2_jobs (br s))..<length (v2_jobs (br s1))} - {i}"
        using 1(3) unfolding moves_def frees_def by blast
      then have "held (v2_jobs (br s1)) \<inter> {..<i + 1} = {}" using less.prems(3) True by (auto simp: less_Suc_eq)
      from less.hyps [OF dec 1(2) moves_len [OF 1(3) less.prems(2)] this]
      obtain s2 X where "release_from c (i + 1) s1 = Some s2" "sim_inv s2" "moves (br s1) X (br s2)" "held (v2_jobs (br s2)) = {}"
        by blast
      then show ?thesis using True False 1(1) moves_trans [OF 1(3)]
        by (subst release_from.simps) (auto intro!: exI [of _ "insert i X"])
    qed
  qed
qed

text \<open>
  What a tick leaves behind in any case: the table and the log in step, and a
  failure never forgotten.
\<close>

definition steps :: "'x bridge \<Rightarrow> nat set \<Rightarrow> 'x bridge \<Rightarrow> bool" where
  "steps b X b' \<longleftrightarrow> frees (v2_jobs b) X (v2_jobs b') \<and> logs b b' \<and> (v2_failed b \<longrightarrow> v2_failed b')"

lemma moves_steps: "moves b X b' \<Longrightarrow> steps b X b'"
  by (simp add: moves_def steps_def)

lemma steps_trans: "steps a X b \<Longrightarrow> steps b Y c \<Longrightarrow> steps a (X \<union> Y) c"
  unfolding steps_def using frees_trans logs_trans by metis

lemma steps_own [simp]:
  "steps b X (b'\<lparr>v2_wake := w\<rparr>) = steps b X b'" "steps b X (b'\<lparr>v2_busy := v\<rparr>) = steps b X b'"
  "steps b X (b'\<lparr>os := x\<rparr>) = steps b X b'" "steps b X (b'\<lparr>v2_fd := d\<rparr>) = steps b X b'"
  "steps (b\<lparr>v2_wake := w\<rparr>) X b' = steps b X b'" "steps (b\<lparr>v2_busy := v\<rparr>) X b' = steps b X b'"
  "steps (b\<lparr>os := x\<rparr>) X b' = steps b X b'" "steps (b\<lparr>v2_fd := d\<rparr>) X b' = steps b X b'"
  by (simp_all add: steps_def logs_def split: option.split)

lemma fail_steps: "steps (br s) {} (br (v2_fail c r s)) \<and> v2_jobs (br (v2_fail c r s)) = v2_jobs (br s)
    \<and> v2_failed (br (v2_fail c r s)) \<and> sim_inv (v2_fail c r s) = sim_inv s"
  by (auto simp: steps_def logs_def v2_fail_def log_line_def split: option.splits)

text \<open>The result of the fallback: nothing is held any more.\<close>

definition all_freed :: "'x bridge \<Rightarrow> 'x bridge \<Rightarrow> bool" where
  "all_freed b b' \<longleftrightarrow> (\<exists>X. steps b X b') \<and> held (v2_jobs b') = {} \<and> v2_wake b' = INT64_MAX \<and> \<not> v2_busy b'"

lemma fallback_spec:
  assumes "host_ok c" "sim_inv s" "length (v2_jobs (br s)) \<le> V2_MAX_JOBS"
  shows "\<exists>s'. v2_fallback c s = Some s' \<and> sim_inv s' \<and> all_freed (br s) (br s')"
proof -
  obtain s1 X where 1: "release_from c 0 s = Some s1" "sim_inv s1" "moves (br s) X (br s1)" "held (v2_jobs (br s1)) = {}"
    using release_from_spec [OF assms, of 0] by auto
  then show ?thesis using moves_steps [OF 1(3)] unfolding v2_fallback_def all_freed_def by auto
qed

lemma failed_fallback_spec:
  assumes "host_ok c" "sim_inv s" "length (v2_jobs (br s)) \<le> V2_MAX_JOBS"
  shows "\<exists>s'. v2_fallback c (v2_fail c r s) = Some s' \<and> sim_inv s' \<and> all_freed (br s) (br s') \<and> v2_failed (br s')"
proof -
  note f = fail_steps [of s c r]
  obtain s' where s': "v2_fallback c (v2_fail c r s) = Some s'" "sim_inv s'" "all_freed (br (v2_fail c r s)) (br s')"
    using fallback_spec [OF assms(1), of "v2_fail c r s"] f assms(2,3) by auto
  then obtain X where X: "steps (br (v2_fail c r s)) X (br s')" unfolding all_freed_def by blast
  have "steps (br s) ({} \<union> X) (br s')" using steps_trans f X by blast
  moreover have "v2_failed (br s')" using X f unfolding steps_def by blast
  ultimately show ?thesis using s' unfolding all_freed_def by blast
qed


subsection \<open>Looking up and answering\<close>

definition observe_job :: "(u32 \<Rightarrow> job_record option) \<Rightarrow> v2_job \<Rightarrow> v2_job" where
  "observe_job find_job j =
     (if v2_submitted j then j\<lparr>v2_state := observed_state (find_job (s_job_id (v2_payload j)))\<rparr> else j)"

lemma observe_table:
  "v2_observe f js d = (map (observe_job f) js,
     d \<or> (\<exists>j \<in> set js. if v2_submitted j then observed_state (f (s_job_id (v2_payload j))) \<noteq> v2_state j
                       else \<not> v2_reported j))"
  by (induction f js d rule: v2_observe.induct) (auto simp: observe_job_def Let_def)

lemma steps_map:
  assumes "\<And>j. sim_id (g j) = sim_id j \<and> v2_arrived (g j) = v2_arrived j \<and> v2_submitted (g j) = v2_submitted j"
  shows "steps b {} (b\<lparr>v2_jobs := map g (v2_jobs b)\<rparr>)" "held (map g js) = held js" "v2_pending (map g js) = v2_pending js"
proof -
  note g = assms [THEN conjunct1] assms [THEN conjunct2, THEN conjunct1] assms [THEN conjunct2, THEN conjunct2]
  show h: "held (map g js) = held js" for js by (auto simp: held_def g)
  have "frees (v2_jobs b) {} (map g (v2_jobs b))" by (simp add: frees_def same_job_def g h)
  moreover have "released (map g (v2_jobs b)) = released (v2_jobs b)"
    by (simp add: released_def filter_map comp_def g)
  ultimately show "steps b {} (b\<lparr>v2_jobs := map g (v2_jobs b)\<rparr>)"
    by (simp add: steps_def logs_def split: option.split)
  show "v2_pending (map g js) = v2_pending js" by (simp add: v2_pending_def filter_map comp_def g)
qed

lemma pending_card: "v2_pending js = card (held js)"
  by (simp add: v2_pending_def held_def length_filter_conv_card)

lemma foldl_last_match:
  "foldl (\<lambda>r i. if P i then Some i else r) r xs = (if filter P xs = [] then r else Some (List.last (filter P xs)))"
  by (induction xs arbitrary: r rule: rev_induct) auto

lemma find_held_Some:
  assumes "find_held jobs jid = Some i"
  shows "i \<in> held jobs \<and> uint (sim_id (jobs ! i)) = jid"
proof -
  let ?P = "\<lambda>i. uint (sim_id (jobs ! i)) = jid \<and> \<not> v2_submitted (jobs ! i)"
  define F where "F = filter ?P [0..<length jobs]"
  have "(if F = [] then None else Some (List.last F)) = Some i"
    using assms unfolding find_held_def foldl_last_match F_def .
  then have "i \<in> set F" by (auto split: if_splits)
  then show ?thesis by (simp add: held_def F_def)
qed

lemma read_indices_held:
  "read_indices jobs k cur ix = Inr iy \<Longrightarrow> distinct ix \<Longrightarrow> set ix \<subseteq> held jobs \<Longrightarrow> distinct iy \<and> set iy \<subseteq> held jobs"
proof (induction jobs k cur ix rule: read_indices.induct)
  case (2 jobs k cur ix)
  obtain jid rest where r: "strtol cur = (jid, rest)" by fastforce
  then obtain i where "find_held jobs jid = Some i" "i \<notin> set ix" "rest \<noteq> cur"
      "read_indices jobs k rest (ix @ [i]) = Inr iy"
    using 2(2) by (auto split: if_splits option.splits)
  then show ?case using 2(1) [of "(jid, rest)" jid rest i] r 2(3,4) find_held_Some [of jobs jid i] by auto
qed simp

lemma map_sum_Inr: "map_sum id f x = Inr y \<longleftrightarrow> (\<exists>z. x = Inr z \<and> y = f z)"
  by (cases x) auto

lemma parse_reply_held:
  assumes "parse_reply jobs response = Inr (w, ix)"
  shows "distinct ix \<and> set ix \<subseteq> held jobs"
proof -
  obtain k rest where "read_indices jobs k rest [] = Inr ix"
    using assms unfolding parse_reply_def by (auto simp: Let_def map_sum_Inr split: prod.splits if_splits)
  then show ?thesis using read_indices_held by fastforce
qed

text \<open>No held job is left without a later look: the next wake-up is ahead, or a job is still to be reported.\<close>

definition attended :: "int \<Rightarrow> 'x bridge \<Rightarrow> bool" where
  "attended now b \<longleftrightarrow> held (v2_jobs b) = {} \<or> now < v2_wake b \<or> (\<exists>i \<in> held (v2_jobs b). \<not> v2_reported (v2_jobs b ! i))"

lemma attended_after:
  assumes "moves b (set ix) b'" "distinct ix" "set ix \<subseteq> held (v2_jobs b)"
    and "\<not> (v2_wake b \<le> now \<and> length ix < v2_pending (v2_jobs b))"
  shows "attended now b'"
proof (cases "length (v2_jobs b') = length (v2_jobs b)")
  case True
  have h: "held (v2_jobs b') = held (v2_jobs b) - set ix" "v2_wake b' = v2_wake b"
    using assms(1) True unfolding moves_def frees_def arrivals_def by auto
  have "finite (held (v2_jobs b))" by (simp add: held_def)
  then have "length ix \<ge> v2_pending (v2_jobs b) \<Longrightarrow> set ix = held (v2_jobs b)"
    using assms(2,3) by (metis card_seteq distinct_card pending_card)
  then show ?thesis using h assms(4) by (auto simp: attended_def)
next
  case False
  let ?n = "length (v2_jobs b)"
  have n: "?n < length (v2_jobs b')" using assms(1) False unfolding moves_def frees_def by auto
  have "?n \<in> held (v2_jobs b')"
    using freesD(4) [of "v2_jobs b" "set ix" "v2_jobs b'"] assms(1,3) n held_less [of "v2_jobs b"]
    unfolding moves_def by auto
  moreover have "\<not> v2_reported (v2_jobs b' ! ?n)" using assms(1) n unfolding moves_def arrivals_def by blast
  ultimately show ?thesis by (auto simp: attended_def)
qed

definition heeded :: "int \<Rightarrow> string \<Rightarrow> 'x bridge \<Rightarrow> 'x bridge \<Rightarrow> bool" where
  "heeded now response b b' \<longleftrightarrow> (\<exists>w ix. parse_reply (v2_jobs b) response = Inr (w, ix)
     \<and> steps b (set ix) b' \<and> \<not> v2_busy b' \<and> attended now b')"

lemma answer_spec:
  assumes "host_ok c" "sim_inv s" "length (v2_jobs (br s)) \<le> V2_MAX_JOBS"
  shows "\<exists>s'. v2_answer c now response s = Some s' \<and> sim_inv s'
    \<and> (all_freed (br s) (br s') \<and> v2_failed (br s') \<or> heeded now response (br s) (br s'))"
proof (cases "response = [] \<or> List.last response \<noteq> CHR 0x0A \<or> (\<exists>r. parse_reply (v2_jobs (br s)) response = Inl r)")
  case True
  then obtain r where "v2_answer c now response s = v2_fallback c (v2_fail c r s)"
    unfolding v2_answer_def by (cases "response = [] \<or> List.last response \<noteq> CHR 0x0A") auto
  then show ?thesis using failed_fallback_spec [OF assms] by metis
next
  case False
  then obtain w ix where p: "parse_reply (v2_jobs (br s)) response = Inr (w, ix)"
    by (cases "parse_reply (v2_jobs (br s)) response") auto
  let ?m = "\<lambda>j :: v2_job. j\<lparr>v2_reported := True\<rparr>"
  define s1 where "s1 = updb (\<lambda>b. b\<lparr>v2_jobs := map ?m (v2_jobs b), v2_wake := w + v2_epoch c s\<rparr>) s"
  have st: "steps (br s) {} (br s1)" using steps_map(1) [of ?m "br s"] by (simp add: s1_def)
  have j1: "v2_jobs (br s1) = map ?m (v2_jobs (br s))" by (simp add: s1_def)
  have h1: "held (v2_jobs (br s1)) = held (v2_jobs (br s))" "sim_inv s1" "length (v2_jobs (br s1)) \<le> V2_MAX_JOBS"
    using steps_map(2) [of ?m] assms(2,3) by (simp_all add: s1_def)
  show ?thesis
  proof (cases "v2_wake (br s1) \<le> now \<and> length ix < v2_pending (v2_jobs (br s1))")
    case True
    have "v2_answer c now response s = v2_fallback c (v2_fail c ''invalid_past_wake'' s1)"
      using False p True unfolding v2_answer_def s1_def by simp
    moreover obtain s2 where s2: "v2_fallback c (v2_fail c ''invalid_past_wake'' s1) = Some s2" "sim_inv s2"
        "all_freed (br s1) (br s2)" "v2_failed (br s2)" using failed_fallback_spec [OF assms(1) h1(2,3)] by blast
    moreover have "all_freed (br s) (br s2)" using s2(3) steps_trans [OF st] unfolding all_freed_def by blast
    ultimately show ?thesis by simp
  next
    case go: False
    note d = parse_reply_held [OF p]
    obtain s2 where 2: "release_list c ix s1 = Some s2" "sim_inv s2" "moves (br s1) (set ix) (br s2)"
      using release_list_spec [OF assms(1) h1(2), of ix] d h1(1) by auto
    let ?s3 = "updb (\<lambda>b. b\<lparr>v2_busy := False\<rparr>) s2"
    have "v2_answer c now response s = Some ?s3"
      using False p go 2(1) unfolding v2_answer_def s1_def by (auto simp: Let_def)
    moreover have "steps (br s) (set ix) (br ?s3)" using steps_trans [OF st moves_steps [OF 2(3)]] by simp
    moreover have "attended now (br ?s3)"
      using attended_after [OF 2(3) d [THEN conjunct1] _ go] d h1(1) by (simp add: attended_def)
    ultimately show ?thesis using p 2(2) by (auto simp: heeded_def)
  qed
qed


subsection \<open>A whole tick\<close>

lemma scale_bridge [simp]: "bridge_ok c \<Longrightarrow> daemon (b_set_scale c r g) = daemon g"
  by (simp add: bridge_ok_def)

lemma connect_bridge: "v2_connect c b = (b', ok) \<Longrightarrow> \<exists>x d. b' = b\<lparr>os := x, v2_fd := d\<rparr>"
proof -
  assume *: "v2_connect c b = (b', ok)"
  obtain r x where r: "b_socketpair c (os b) = (r, x)" by fastforce
  show ?thesis
  proof (cases r)
    case None
    then have "b' = b\<lparr>os := x, v2_fd := v2_fd b\<rparr>" using * r by (cases b) (auto simp: v2_connect_def)
    then show ?thesis by blast
  next
    case (Some p)
    obtain child y where f: "b_fork c x = (child, y)" by fastforce
    have "b' = b\<lparr>os := os b', v2_fd := v2_fd b'\<rparr>"
      using * r f Some by (cases p) (auto simp: v2_connect_def split: if_splits)
    then show ?thesis by blast
  qed
qed

lemma heeded_start: "heeded now r (b\<lparr>os := x, v2_fd := d\<rparr>) b' = heeded now r b b'"
  by (simp add: heeded_def)

lemma all_freed_start: "all_freed (b\<lparr>os := x, v2_fd := d\<rparr>) b' = all_freed b b'"
  by (simp add: all_freed_def)

text \<open>A text that came from the controller's socket.\<close>

definition received :: "'x bridge_ctl \<Rightarrow> string \<Rightarrow> bool" where
  "received c response \<longleftrightarrow> (\<exists>fd x. response = fst (v2_recv c fd [] x))"

lemma not_heeded_empty: "\<not> heeded now [] b b'"
  by (simp add: heeded_def parse_reply_def strtol_def)

lemma exchange_spec:
  assumes "v2_exchange c now s = (s', response)"
  shows "\<exists>y. s' = updb (\<lambda>b. b\<lparr>os := y\<rparr>) s" "response = [] \<or> received c response"
proof -
  obtain sent x where x: "v2_send c (v2_fd (br s)) (v2_message c now s) 0 (b_save c (v2_message c now s) (os (br s))) = (sent, x)"
    by fastforce
  obtain r y where r: "(if sent = length (v2_message c now s) then v2_recv c (v2_fd (br s)) [] x else ([], x)) = (r, y)"
    by fastforce
  have "s' = updb (\<lambda>b. b\<lparr>os := y\<rparr>) s" "response = r" using assms x r by (simp_all add: v2_exchange_def Let_def)
  moreover have "r = [] \<or> received c r" using r unfolding received_def by (metis fst_conv)
  ultimately show "\<exists>y. s' = updb (\<lambda>b. b\<lparr>os := y\<rparr>) s" "response = [] \<or> received c response" by blast+
qed

lemma consult_spec:
  assumes "host_ok c" "sim_inv s" "length (v2_jobs (br s)) \<le> V2_MAX_JOBS"
  shows "\<exists>s'. v2_consult c s = Some s' \<and> sim_inv s'
    \<and> (all_freed (br s) (br s') \<and> v2_failed (br s')
       \<or> (\<exists>response. received c response \<and> heeded (snd (get_sim_utime (b_ctl c) (upd (b_set_scale c 0) s))) response (br s) (br s')))"
proof -
  have ok: "bridge_ok c" "ctl_ok (b_ctl c)" using assms(1) by (simp_all add: host_ok_def)
  obtain s1 now where 1: "get_sim_utime (b_ctl c) (upd (b_set_scale c 0) s) = (s1, now)" by fastforce
  have s1: "sim_inv s1" "br s1 = br s"
    using get_sim_utime_good(1) [OF ok(2) _ 1] assms(2) clock_bridge [OF ok(1) 1] ok(1) by simp_all
  obtain b con where b: "(if v2_fd (br s1) < 0 then v2_connect c (br s1) else (br s1, True)) = (b, con)" by fastforce
  have "\<exists>x d. b = (br s)\<lparr>os := x, v2_fd := d\<rparr>"
  proof (cases "v2_fd (br s1) < 0")
    case False
    then have "b = (br s)\<lparr>os := os (br s), v2_fd := v2_fd (br s)\<rparr>" using b s1(2) by simp
    then show ?thesis by blast
  qed (use b s1(2) connect_bridge in simp)
  then obtain x d where xd: "b = (br s)\<lparr>os := x, v2_fd := d\<rparr>" by blast
  define s2 where "s2 = updb (\<lambda>_. b) s1"
  show ?thesis
  proof (cases con)
    case False
    define s3 where "s3 = upd (b_set_scale c (b_get_scale c (world s))) s2"
    have br3: "br s3 = b" "sim_inv s3" using ok(1) s1(1) by (simp_all add: s3_def s2_def)
    have "v2_consult c s = v2_fallback c (v2_fail c ''controller_start'' s3)"
      using 1 b False unfolding v2_consult_def s2_def s3_def by (simp add: Let_def)
    then show ?thesis using failed_fallback_spec [OF assms(1) br3(2), of "''controller_start''"] br3(1) xd assms(3)
      by (auto simp: all_freed_start)
  next
    case True
    obtain s3 response where 3: "v2_exchange c now s2 = (s3, response)" by fastforce
    obtain y where y: "s3 = updb (\<lambda>b. b\<lparr>os := y\<rparr>) s2" using exchange_spec(1) [OF 3] by blast
    define s4 where "s4 = upd (b_set_scale c (b_get_scale c (world s))) s3"
    have br4: "br s4 = (br s)\<lparr>os := y, v2_fd := d\<rparr>" "sim_inv s4" using ok(1) s1(1) y xd by (simp_all add: s4_def s2_def)
    have "v2_consult c s = v2_answer c now response s4"
      using 1 b True 3 unfolding v2_consult_def s2_def s4_def by (simp add: Let_def)
    moreover obtain s5 where "v2_answer c now response s4 = Some s5" "sim_inv s5"
        "all_freed (br s) (br s5) \<and> v2_failed (br s5) \<or> heeded now response (br s) (br s5)"
      using answer_spec [OF assms(1) br4(2), of now response] br4(1) assms(3) by (auto simp: all_freed_start heeded_start)
    ultimately show ?thesis using 1 exchange_spec(2) [OF 3] not_heeded_empty by auto
  qed
qed

lemma look_spec:
  assumes "v2_look c s = (s', dirty)"
  shows "sim_inv s' = sim_inv s" "\<exists>f. v2_jobs (br s') = map (observe_job f) (v2_jobs (br s))"
    and "v2_wake (br s') = v2_wake (br s)" "v2_failed (br s') = v2_failed (br s)"
    and "\<exists>j \<in> set (v2_jobs (br s)). \<not> v2_submitted j \<and> \<not> v2_reported j \<Longrightarrow> dirty"
    and "v2_log (br s) = Some l \<Longrightarrow> v2_log (br s') = Some l"
    and "v2_log (br s) = None \<Longrightarrow> v2_log (br s') = (if fst (b_open_log c (os (br s))) then Some [] else None)"
  using assms by (auto simp: v2_look_def Let_def observe_table split: if_splits prod.splits)

end
