(* ===== verification/Bridge_Props.thy ===== *)
theory Bridge_Props
  imports Feedback_Bridge
begin

text \<open>
  What the feedback bridge guarantees: every tick returns, jobs are released at
  most once and only by name or by the fallback, a controller that is gone
  holds nothing back, and what the controller prints is what the bridge reads.
  The last part is the main loop with the bridge built in.
\<close>

subsection \<open>A tick decides\<close>

lemma find_held_observed: "find_held (map (observe_job f) jobs) jid = find_held jobs jid"
  unfolding find_held_def length_map by (rule foldl_cong) (auto simp: observe_job_def)

lemma observe_facts:
  "sim_id (observe_job f j) = sim_id j \<and> v2_arrived (observe_job f j) = v2_arrived j
     \<and> v2_submitted (observe_job f j) = v2_submitted j"
  by (simp add: observe_job_def)

lemma read_indices_observed: "read_indices (map (observe_job f) jobs) k cur ix = read_indices jobs k cur ix"
  by (induction jobs k cur ix rule: read_indices.induct)
     (auto simp: find_held_observed Let_def split: prod.splits option.splits)

lemma parse_reply_observed: "parse_reply (map (observe_job f) jobs) response = parse_reply jobs response"
  unfolding parse_reply_def read_indices_observed steps_map(3) [OF observe_facts] ..

text \<open>The time at which a tick that consults the controller reads the clock.\<close>

definition tick_time :: "'x bridge_ctl \<Rightarrow> 'x bridge st \<Rightarrow> int" where
  "tick_time c s = snd (get_sim_utime (b_ctl c) (upd (b_set_scale c 0) (fst (v2_look c s))))"

lemma look_steps:
  assumes "v2_look c s = (s1, dirty)" "steps (br s1) X b"
  shows "frees (v2_jobs (br s)) X (v2_jobs b)"
proof -
  obtain f where f: "v2_jobs (br s1) = map (observe_job f) (v2_jobs (br s))" using look_spec(2) [OF assms(1)] by blast
  have "frees (v2_jobs (br s)) {} (v2_jobs (br s1))"
    using steps_map(1) [where g = "observe_job f", OF observe_facts, of "br s"] by (simp add: steps_def f)
  then show ?thesis using frees_trans [of _ "{}" _ X] assms(2) by (simp add: steps_def)
qed

lemma look_length: "v2_look c s = (s1, dirty) \<Longrightarrow> length (v2_jobs (br s1)) = length (v2_jobs (br s))"
  using look_spec(2) [of c s s1 dirty] by auto

lemma active_tick:
  assumes "host_ok c" "sim_inv s" "length (v2_jobs (br s)) \<le> V2_MAX_JOBS"
    and "b_config c" "v2_jobs (br s) \<noteq> []" "\<not> v2_busy (br s)" "v2_look c s = (s1, dirty)"
  shows "\<exists>s' X. v2_tick c now s = Some s' \<and> sim_inv s' \<and> steps (br s1) X (br s')
    \<and> (X = {} \<and> v2_wake (br s') = v2_wake (br s)
       \<or> held (v2_jobs (br s')) = {} \<and> v2_wake (br s') = INT64_MAX \<and> v2_failed (br s')
       \<or> (\<exists>response w ix. received c response \<and> parse_reply (v2_jobs (br s)) response = Inr (w, ix) \<and> X = set ix
            \<and> distinct ix \<and> set ix \<subseteq> held (v2_jobs (br s)) \<and> attended (tick_time c s) (br s')))"
proof -
  have s1: "sim_inv s1" "length (v2_jobs (br s1)) \<le> V2_MAX_JOBS"
    using look_spec(1) [OF assms(7)] look_length [OF assms(7)] assms(2,3) by simp_all
  let ?idle = "\<not> dirty \<and> (v2_pending (v2_jobs (br s1)) = 0 \<or> now < v2_wake (br s1))"
  have t: "v2_tick c now s = (if ?idle then Some (updb (\<lambda>b. b\<lparr>v2_busy := False\<rparr>) s1)
      else if v2_failed (br s1) then v2_fallback c s1 else v2_consult c s1)"
    using assms(4-7) by (simp add: v2_tick_def)
  consider (idle) "?idle" | (fallback) "\<not> ?idle" "v2_failed (br s1)" | (consult) "\<not> ?idle" "\<not> v2_failed (br s1)" by blast
  then show ?thesis
  proof cases
    case idle
    then show ?thesis using t s1(1) moves_steps [OF moves_refl] look_spec(3) [OF assms(7)]
      by (auto intro!: exI [of _ "{}"])
  next
    case fallback
    then have t: "v2_tick c now s = v2_fallback c s1" using t by auto
    obtain s2 X where s2: "v2_fallback c s1 = Some s2" "sim_inv s2" "steps (br s1) X (br s2)"
        "held (v2_jobs (br s2)) = {}" "v2_wake (br s2) = INT64_MAX"
      using fallback_spec [OF assms(1) s1] unfolding all_freed_def by blast
    then show ?thesis using t fallback(2) unfolding steps_def by auto
  next
    case consult
    then have t: "v2_tick c now s = v2_consult c s1" using t by auto
    obtain s2 where s2: "v2_consult c s1 = Some s2" "sim_inv s2"
        "all_freed (br s1) (br s2) \<and> v2_failed (br s2)
         \<or> (\<exists>r. received c r \<and> heeded (tick_time c s) r (br s1) (br s2))"
      using consult_spec [OF assms(1) s1] assms(7) unfolding tick_time_def by auto
    show ?thesis
    proof (cases "all_freed (br s1) (br s2) \<and> v2_failed (br s2)")
      case True
      then obtain X where "steps (br s1) X (br s2)" unfolding all_freed_def by blast
      then show ?thesis using t s2(1,2) True unfolding all_freed_def by auto
    next
      case False
      obtain f where f: "v2_jobs (br s1) = map (observe_job f) (v2_jobs (br s))" using look_spec(2) [OF assms(7)] by blast
      obtain r w ix where rc: "received c r" and r: "parse_reply (v2_jobs (br s)) r = Inr (w, ix)"
          "steps (br s1) (set ix) (br s2)" "attended (tick_time c s) (br s2)"
        using s2(3) False unfolding heeded_def f parse_reply_observed by blast
      have "v2_tick c now s = Some s2" using t s2(1) by simp
      then show ?thesis using s2(2) rc r parse_reply_held [OF r(1)] by blast
    qed
  qed
qed

text \<open>C1: A tick of the bridge returns whatever the controller process, the sockets
  and the log do, and does one of three things: it releases nothing and leaves
  the wake-up time as it is; it releases every held job; or it releases
  exactly the jobs that a well-formed reply names, all of them held and none
  twice, and no job is left without a later look. Released jobs are never
  taken back and jobs never leave the table.\<close>

theorem tick_releases_named_or_all:
  assumes "host_ok c" "sim_inv s" "length (v2_jobs (br s)) \<le> V2_MAX_JOBS"
  shows "\<exists>s' X. v2_tick c now s = Some s' \<and> sim_inv s' \<and> frees (v2_jobs (br s)) X (v2_jobs (br s'))
    \<and> (X = {} \<and> v2_wake (br s') = v2_wake (br s)
       \<or> held (v2_jobs (br s')) = {} \<and> v2_wake (br s') = INT64_MAX \<and> v2_failed (br s')
       \<or> (\<exists>response w ix. received c response \<and> parse_reply (v2_jobs (br s)) response = Inr (w, ix) \<and> X = set ix
            \<and> distinct ix \<and> set ix \<subseteq> held (v2_jobs (br s)) \<and> attended (tick_time c s) (br s')))"
proof (cases "\<not> b_config c \<or> v2_jobs (br s) = [] \<or> v2_busy (br s)")
  case True
  then show ?thesis using assms(2) by (auto simp: v2_tick_def intro!: exI [of _ s] exI [of _ "{}"])
next
  case False
  obtain s1 dirty where 1: "v2_look c s = (s1, dirty)" by fastforce
  have active: "b_config c" "v2_jobs (br s) \<noteq> []" "\<not> v2_busy (br s)" using False by auto
  show ?thesis using active_tick [OF assms active 1, of now] look_steps [OF 1] by (elim exE conjE) (intro exI conjI)
qed

text \<open>A host on which calls do nothing and nobody answers.\<close>

definition quiet_daemon :: "'x bridge globals ctl" where
  "quiet_daemon = \<lparr>
     c_conf = c_conf sample_ctl, c_utime = \<lambda>w. (1000, w), c_set_time = \<lambda>t w. w, c_find_job = \<lambda>w jid. None,
     c_node_table = \<lambda>w. [], c_end_batch_step = \<lambda>jid s. Some s, c_job_complete = \<lambda>jid uid s. Some (s, 0),
     c_job_epilog_complete = \<lambda>jid n s. Some (s, False), c_schedule = Some, c_queue_job_scheduler = Some,
     c_save_state = Some, c_agent_count = \<lambda>w. 0, c_defer_sched = \<lambda>w. False, c_sbatch_options = \<lambda>argv s. Some (s, True),
     c_submit = \<lambda>argv s. Some (s, 0, Some 1001, False), c_sleep = \<lambda>n s. Some s, c_post_submit = \<lambda>jid s. Some s,
     c_agent_queue = \<lambda>m s. Some s\<rparr>"

definition quiet_loop :: "'x bridge loop_ctl" where
  "quiet_loop = \<lparr>l_ctl = quiet_daemon, l_registration_engine = Some, l_node_did_resp = \<lambda>n. Some,
     l_make_node_idle = \<lambda>n. Some, l_acct_update = Some, l_decay_thread = None, l_set_db_inx_thread = None,
     l_slurmdbd_agent = None, l_backfill_agent = None, l_schedule = \<lambda>full s. Some (s, 1), l_update_diag = \<lambda>g. g,
     l_set_time_scale = \<lambda>g. g, l_background = Some, l_priority_calc_period = 300\<rparr>"

text \<open>The state of this system is the text that the controller has left to say.\<close>

definition quiet_bridge :: "string bridge_ctl" where
  "quiet_bridge = \<lparr>b_loop = quiet_loop, b_config = True, b_open_log = \<lambda>x. (True, x), b_save = \<lambda>m x. x,
     b_get_scale = \<lambda>g. 1, b_set_scale = \<lambda>r g. g, b_socketpair = \<lambda>x. (Some (5, 6), x), b_fork = \<lambda>x. (True, x),
     b_close = \<lambda>d x. x, b_poll_out = \<lambda>d x. (True, x), b_poll_in = \<lambda>d x. (True, x),
     b_send = \<lambda>d m x. (int (length m), x), b_recv = \<lambda>d x. case x of [] \<Rightarrow> (None, x) | ch # cs \<Rightarrow> (Some ch, cs),
     b_fmt6 = \<lambda>t. fmt_d t\<rparr>"

definition bridge_start :: "string \<Rightarrow> string bridge" where
  "bridge_start x = \<lparr>v2_jobs = [], v2_fd = - 1, v2_failed = False, v2_busy = False, v2_wake = INT64_MAX, v2_log = None,
     simulator_start_time = 0, os = x\<rparr>"

definition bridge_st :: "string bridge \<Rightarrow> string bridge st" where
  "bridge_st b = \<lparr>evs = sentinels, act = no_jobs,
     world = \<lparr>sim_main_thread_sleep_till = 500000, sim_sched_thread_cond_wait_till = 0,
     sim_plugin_backfill_thread_sleep_till = 900000, sim_slurmdbd_agent_sleep_till = 800000, sim_slurmdbd_agent_count = 0,
     sched_requests = 0, sched_full_queue = False, sched_last = 0, sched_min_interval = 2, sched_first_run = False,
     shutdown_time = 0, jobs_running = 0, jobs_pending = 0, proc_rec_count = 0, process_create_time_sim = 0,
     backfill_depth = 0, loop_first_run = False, loop_depth = 0, all_done = 0, scaling_on = False, time_skipped = 0,
     count = 0, count_noskip = 0, count_skip = 0, count_next_event = 0, count_backfill = 0, count_slurmdbd = 0,
     count_sched = 0, daemon = b\<rparr>, rt_events = \<lambda>_. 0, rt_events_post_wait = \<lambda>_. 0, run_scheduler = False\<rparr>"

lemma bridge_st_inv: "sim_inv (bridge_st b)"
  by (rule sim_invI [of _ "[event_at sentinels 1]" "[]"])
     (use sentinels_pending no_jobs_at in \<open>auto simp: bridge_st_def job_list_def\<close>)

lemma br_bridge_st [simp]: "br (bridge_st b) = b"
  by (simp add: bridge_st_def)

lemma quiet_host_ok: "host_ok quiet_bridge"
  by (auto simp: host_ok_def bridge_ok_def ctl_ok_def clock_ok_def records_ok_def calls_ok_def submit_ok_def good_def
      good2_def quiet_bridge_def quiet_loop_def quiet_daemon_def sample_ctl_def usec_year_def INT64_MAX_def live_kept_def)

theorem tick_releases_named_or_all_witness:
  "\<exists>s'. v2_tick quiet_bridge 0 (bridge_st (bridge_start [])) = Some s' \<and> sim_inv s'"
  using tick_releases_named_or_all [OF quiet_host_ok bridge_st_inv, of "bridge_start []" 0] by (auto simp: bridge_start_def)

subsection \<open>A controller that is gone\<close>









subsection \<open>Each job once\<close>











subsection \<open>What the controller prints\<close>

text \<open>
  The line that \<^verbatim>\<open>serve\<close> in \<^verbatim>\<open>policy_v2/feedback.py\<close> prints for a wake-up time in
  microseconds and the simulator ids of the jobs to release.
\<close>

definition ids_text :: "u32 list \<Rightarrow> string" where
  "ids_text ids = concat (map (\<lambda>i. '' '' @ fmt_d (uint i)) ids) @ [CHR 0x0A]"

definition reply_line :: "int \<Rightarrow> u32 list \<Rightarrow> string" where
  "reply_line w ids = fmt_d w @ '' '' @ fmt_d (int (length ids)) @ ids_text ids"

lemma blank_digit: "\<not> is_digit CHR '' ''" "\<not> is_digit CHR 0x0A" "is_space CHR '' ''"
  by (simp_all add: is_digit_def is_space_def)

lemma ids_text_simps:
  "ids_text [] = [CHR 0x0A]" "ids_text (i # ids) = '' '' @ fmt_d (uint i) @ ids_text ids"
  by (simp_all add: ids_text_def)

lemma ids_head: "\<not> is_digit (hd (ids_text ids))"
  by (cases ids) (simp_all add: blank_digit ids_text_simps)

lemma find_held_unique:
  assumes "i \<in> held jobs" "inj_on (\<lambda>i. sim_id (jobs ! i)) (held jobs)"
  shows "find_held jobs (uint (sim_id (jobs ! i))) = Some i"
proof (cases "find_held jobs (uint (sim_id (jobs ! i)))")
  case None
  then have "filter (\<lambda>k. uint (sim_id (jobs ! k)) = uint (sim_id (jobs ! i)) \<and> \<not> v2_submitted (jobs ! k)) [0..<length jobs] = []"
    unfolding find_held_def foldl_last_match by (simp split: if_splits)
  then show ?thesis using assms(1) by (auto simp: filter_empty_conv held_def)
next
  case (Some k)
  then show ?thesis using find_held_Some [OF Some] assms inj_onD [OF assms(2)] by (auto simp: word_uint_eq_iff)
qed

lemma read_ids:
  assumes "inj_on (\<lambda>i. sim_id (jobs ! i)) (held jobs)"
  shows "distinct (iy @ ix) \<Longrightarrow> set ix \<subseteq> held jobs \<Longrightarrow>
    read_indices jobs (length ix) (ids_text (map (\<lambda>i. sim_id (jobs ! i)) ix)) iy
      = Inr (iy @ ix)"
proof (induction ix arbitrary: iy)
  case (Cons i ix)
  let ?rest = "ids_text (map (\<lambda>i. sim_id (jobs ! i)) ix)"
  have u: "uint (sim_id (jobs ! i)) < 2 ^ 63" "- (2 ^ 63) \<le> uint (sim_id (jobs ! i))"
    using uint_lt2p [of "sim_id (jobs ! i)"] order_trans [OF _ uint_ge_0 [of "sim_id (jobs ! i)"], of "- (2 ^ 63)"] by simp_all
  have "strtol ('' '' @ fmt_d (uint (sim_id (jobs ! i))) @ ?rest) = (uint (sim_id (jobs ! i)), ?rest)"
    by (rule strtol_fmt_d) (use u ids_head blank_digit in auto)
  then show ?case using Cons.IH [of "iy @ [i]"] Cons.prems find_held_unique [OF _ assms, of i] by (simp add: ids_text_simps)
qed simp

text \<open>C32: The bridge reads the controller's line as it was meant: for a wake-up time
  that fits into 64 bits and the ids of held jobs, no id belonging to two held
  jobs, the wake-up time and the table positions of exactly these jobs come
  out, in the order of the line.\<close>

theorem reply_round_trip:
  assumes "- (2 ^ 63) \<le> w" "w < 2 ^ 63" "distinct ix" "set ix \<subseteq> held jobs" "length jobs \<le> V2_MAX_JOBS"
    and "inj_on (\<lambda>i. sim_id (jobs ! i)) (held jobs)"
  shows "parse_reply jobs (reply_line w (map (\<lambda>i. sim_id (jobs ! i)) ix)) = Inr (w, ix)"
proof -
  let ?ids = "ids_text (map (\<lambda>i. sim_id (jobs ! i)) ix)"
  let ?line = "reply_line w (map (\<lambda>i. sim_id (jobs ! i)) ix)"
  have fin: "finite (held jobs)" by (simp add: held_def)
  have n: "length ix \<le> v2_pending jobs" using card_mono [OF fin assms(4)] assms(3) by (simp add: pending_card distinct_card)
  have "card (held jobs) \<le> length jobs" using card_mono [OF _ held_less [of jobs]] by simp
  then have n': "int (length ix) < 2 ^ 63" using n assms(5) by (simp add: pending_card V2_MAX_JOBS_def)
  have "CHR 0x00 \<notin> set (fmt_d i)" for i :: int
    using decimal_digits [of "CHR 0x00"] by (auto simp: fmt_d_def)
  then have z: "takeWhile (\<lambda>ch. ch \<noteq> CHR 0x00) ?line = ?line" by (auto simp: takeWhile_eq_all_conv reply_line_def ids_text_def)
  have 1: "strtol ?line = (w, '' '' @ fmt_d (int (length ix)) @ ?ids)"
    using strtol_fmt_d [of "'' '' @ fmt_d (int (length ix)) @ ?ids" w "[]"] assms(1,2) blank_digit by (simp add: reply_line_def)
  have 2: "strtol ('' '' @ fmt_d (int (length ix)) @ ?ids) = (int (length ix), ?ids)"
    by (rule strtol_fmt_d) (use n' ids_head blank_digit in auto)
  have "fmt_d i \<noteq> []" for i :: int by (simp add: fmt_d_def)
  then show ?thesis unfolding parse_reply_def z 1 Let_def
    using n read_ids [OF assms(6), of "[]" ix] assms(3,4) 2 by (simp add: reply_line_def)
qed

definition three_held :: "v2_job list" where
  "three_held = map (\<lambda>n. \<lparr>v2_payload = (sample_submit 0 7)\<lparr>s_job_sim_id := n\<rparr>, v2_arrived = 5000, v2_submitted = (n = 2),
     v2_reported = True, v2_state = - 1\<rparr>) [1, 2, 3]"

theorem reply_round_trip_witness: "parse_reply three_held (reply_line 7000000 [3, 1]) = Inr (7000000, [2, 0])"
proof -
  have h: "held three_held = {0, 2}" by (auto simp: held_def three_held_def less_Suc_eq numeral_3_eq_3)
  then have "inj_on (\<lambda>i. sim_id (three_held ! i)) (held three_held)" by (simp add: three_held_def)
  from reply_round_trip [OF _ _ _ _ _ this, of 7000000 "[2, 0]"] h show ?thesis
    by (simp add: three_held_def V2_MAX_JOBS_def)
qed

end
