(* ===== verification/Feedback_Loop.thy ===== *)
theory Feedback_Loop
  imports Bridge_Props
begin

text \<open>
  The main loop with the feedback bridge built in: the five edits that
  \<^verbatim>\<open>policy_v2/prepare_build.py\<close> makes in \<^verbatim>\<open>contribs/sim/slurmctld_controller.c\<close>. A
  submission event goes to \<^verbatim>\<open>v2_arrive\<close>, the outermost loop calls \<^verbatim>\<open>v2_tick\<close> before
  the scheduler, held jobs keep the simulation from ending, and the clock stops
  at the bridge's wake-up time.
\<close>

subsection \<open>The edited loop\<close>

definition v2_handle_event :: "'x bridge_ctl \<Rightarrow> ptr \<Rightarrow> 'x bridge st \<Rightarrow> 'x bridge st option" where
  "v2_handle_event c p s = do {
     e \<leftarrow> deref (ev_heap (evs s)) p;
     if e_type e = SIM_SUBMIT_BATCH_JOB then
       (case e_payload e of
          Submission d \<Rightarrow> do {
            (s, d') \<leftarrow> v2_arrive c d (e_when e) (event_started (b_ctl c) SUBMIT_JOB_SSIM_RT_EVENT s);
            h \<leftarrow> store (ev_heap (evs s)) p (\<lambda>e. e\<lparr>e_payload := Submission d'\<rparr>);
            Some (event_ended (b_ctl c) SUBMIT_JOB_SSIM_RT_EVENT (s\<lparr>evs := (evs s)\<lparr>ev_heap := h\<rparr>\<rparr>)) }
        | _ \<Rightarrow> None)
     else handle_event (b_loop c) p s }"

partial_function (option) v2_due_loop :: "'x bridge_ctl \<Rightarrow> int \<Rightarrow> 'x bridge st \<Rightarrow> ('x bridge st \<times> int) option" where
  "v2_due_loop c now s =
     Option.bind (deref (ev_heap (evs s)) (ev_next (evs s))) (\<lambda>n.
       if e_when n \<le> now
       then Option.bind (sim_pop_next_event (evs s)) (\<lambda>(l, p).
            Option.bind (v2_handle_event c p (s\<lparr>evs := l\<rparr>)) (\<lambda>s.
              let (s, now) = get_sim_utime (b_ctl c) s in v2_due_loop c now s))
       else Some (s, now))"

definition v2_loop_work :: "'x bridge_ctl \<Rightarrow> 'x bridge st \<Rightarrow> ('x bridge st \<times> int) option" where
  "v2_loop_work c s = do {
     let s = upd (\<lambda>g. g\<lparr>loop_depth := loop_depth g + 1, count := count g + 1\<rparr>) s;
     s \<leftarrow> (if loop_first_run (world s)
            then map_option (upd (\<lambda>g. g\<lparr>loop_first_run := False\<rparr>)) (sim_events_first_loop (b_loop c) s) else Some s);
     let (s, now) = get_sim_utime (b_ctl c) s;
     let s = (if \<not> scaling_on (world s) \<and> now - process_create_time_sim (world s) > 10000000
              then upd (\<lambda>g. (l_set_time_scale (b_loop c) g)\<lparr>scaling_on := True\<rparr>) s else s);
     (s, now) \<leftarrow> v2_due_loop c now s;
     (s, now) \<leftarrow> slurmdbd_step (b_loop c) now s;
     (s, now) \<leftarrow> (if loop_depth (world s) = 1
                   then map_option (get_sim_utime (b_ctl c)) (v2_tick c now s) else Some (s, now));
     (s, _) \<leftarrow> sim_sched_agent_loop (b_loop c) now s;
     if sim_plugin_backfill_thread_sleep_till (world s) \<le> now then do {
       s \<leftarrow> sim_schedule_plugin_run_once (b_loop c) s;
       Some (get_sim_utime (b_ctl c) s) }
     else Some (s, now) }"

definition v2_exit_check :: "'x bridge_ctl \<Rightarrow> int \<Rightarrow> 'x bridge st \<Rightarrow> 'x bridge st \<times> bool" where
  "v2_exit_check c now s = (if v2_pending (v2_jobs (br s)) = 0 then exit_check (b_loop c) now s else (s, False))"

definition v2_skip_target :: "'x bridge globals \<Rightarrow> int \<Rightarrow> int \<Rightarrow> int \<times> 'x bridge globals" where
  "v2_skip_target g now next_when =
     skip_from (if v2_pending (v2_jobs (daemon g)) \<noteq> 0 \<and> v2_wake (daemon g) < sim_main_thread_sleep_till g
                then v2_wake (daemon g) else sim_main_thread_sleep_till g) g now next_when"

definition v2_events_loop :: "'x bridge_ctl \<Rightarrow> 'x bridge st \<Rightarrow> ('x bridge st \<times> outcome) option" where
  "v2_events_loop c s = do {
     (s, now) \<leftarrow> v2_loop_work c s;
     let (s, finished) = v2_exit_check c now s;
     if finished then Some (s, Exited)
     else do {
       (s, t) \<leftarrow> time_skip_to (b_loop c) v2_skip_target now s;
       Some (s, Returned t) } }"

subsection \<open>Held jobs and the clock\<close>

text \<open>Reading the clock and counting jobs leave the bridge alone.\<close>

definition counts_ok :: "'x bridge_ctl \<Rightarrow> bool" where
  "counts_ok c \<longleftrightarrow> clock_keeps_counts (b_loop c)
     \<and> (\<forall>g. daemon (snd (c_utime (b_ctl c) g)) = daemon g \<and> daemon (l_update_diag (b_loop c) g) = daemon g)"

lemma v2_exit_held:
  assumes "counts_ok c" "v2_exit_check c now s = (s', True)"
  shows "v2_pending (v2_jobs (br s')) = 0"
proof -
  have k: "daemon (snd (c_utime (b_ctl c) g)) = daemon g" "daemon (l_update_diag (b_loop c) g) = daemon g" for g
    using assms(1) by (simp_all add: counts_ok_def)
  have p: "v2_pending (v2_jobs (br s)) = 0" "exit_check (b_loop c) now s = (s', True)"
    using assms(2) by (auto simp: v2_exit_check_def split: if_splits)
  have u: "br (fst (get_sim_utime (b_ctl c) t)) = br t" for t
    using k(1) by (simp add: get_sim_utime_def case_prod_beta)
  have "br s' = br s" using p(2) k(2) u unfolding exit_check_def Let_def case_prod_beta
    by (auto split: if_splits)
  then show ?thesis using p(1) by simp
qed

text \<open>C13: With the bridge built in, the simulation does not end while a job is held:
  when the loop ends the process, every job that arrived has been handed to
  the scheduler, no event of the trace or of a job is pending, and no job is
  active, running or waiting.\<close>

theorem no_exit_with_held_jobs:
  assumes "v2_events_loop c s = Some (s', Exited)" "counts_ok c"
  shows "v2_pending (v2_jobs (br s')) = 0 \<and> n_noncyclic (evs s') \<le> 0 \<and> a_first (act s') = 0
    \<and> jobs_running (world s') + jobs_pending (world s') = 0"
proof -
  obtain s1 now where 1: "v2_loop_work c s = Some (s1, now)" using assms(1) by (auto simp: v2_events_loop_def bind_eq_Some_conv)
  obtain s2 f where 2: "v2_exit_check c now s1 = (s2, f)" by fastforce
  have x: "v2_exit_check c now s1 = (s', True)"
    using assms(1) 1 2 by (cases f) (auto simp: v2_events_loop_def bind_eq_Some_conv)
  then have "exit_check (b_loop c) now s1 = (s', True)" by (auto simp: v2_exit_check_def split: if_splits)
  from exit_check_true [OF this] show ?thesis using v2_exit_held [OF assms(2) x] assms(2) by (simp add: counts_ok_def)
qed

lemma skip_from_le: "fst (skip_from t g now w) \<le> t" "t \<le> t' \<Longrightarrow> fst (skip_from t g now w) \<le> fst (skip_from t' g now w)"
  unfolding skip_from_facts(1) by (simp, cases "sched_requests g > 0") (simp_all add: min.coboundedI1 min.coboundedI2)

lemma v2_skip_target_facts:
  "uncounted (snd (v2_skip_target g now w)) = uncounted g"
  "fst (v2_skip_target g now w) \<le> next_deadline g w"
  "v2_pending (v2_jobs (daemon g)) \<noteq> 0 \<Longrightarrow> fst (v2_skip_target g now w) \<le> v2_wake (daemon g)"
proof -
  let ?t = "if v2_pending (v2_jobs (daemon g)) \<noteq> 0 \<and> v2_wake (daemon g) < sim_main_thread_sleep_till g
    then v2_wake (daemon g) else sim_main_thread_sleep_till g"
  show "uncounted (snd (v2_skip_target g now w)) = uncounted g"
    by (simp only: v2_skip_target_def skip_from_facts)
  have "?t \<le> sim_main_thread_sleep_till g" by simp
  then show "fst (v2_skip_target g now w) \<le> next_deadline g w"
    using skip_from_le(2) [of ?t "sim_main_thread_sleep_till g" g now w] skip_target_facts(1) [of g now w]
    by (simp only: v2_skip_target_def skip_target_def)
  assume "v2_pending (v2_jobs (daemon g)) \<noteq> 0"
  then have "?t \<le> v2_wake (daemon g)" by simp
  then show "fst (v2_skip_target g now w) \<le> v2_wake (daemon g)"
    using skip_from_le(1) [of ?t g now w] unfolding v2_skip_target_def by linarith
qed

text \<open>C12: With the bridge built in, a turn of the loop that does not end the
  simulation returns the last reading of the clock without setting the clock,
  or it sets the clock once, to exactly the time it returns. That time is later
  than the reading, and not later than a pending event, the main thread's, the
  backfill scheduler's, the accounting agent's and, if requests are waiting,
  the scheduler's deadline, nor, while a job is held, than the time at which the
  controller asked to be woken.\<close>

theorem clock_stops_for_held_jobs:
  assumes "v2_loop_work c s = Some (s1, now)" "v2_exit_check c now s1 = (s2, False)" "pending (evs s2) es"
  defines "g \<equiv> world s2"
  shows "\<exists>s' t g'. v2_events_loop c s = Some (s', Returned t) \<and> now \<le> t
    \<and> uncounted g' = uncounted g \<and> world s' = turn_end (b_loop c) now t g'
    \<and> (now < t \<longrightarrow> (\<forall>e \<in> set es. t \<le> e_when e) \<and> t \<le> sim_main_thread_sleep_till g
         \<and> t \<le> sim_plugin_backfill_thread_sleep_till g \<and> t \<le> sim_slurmdbd_agent_sleep_till g
         \<and> (sched_requests g > 0 \<longrightarrow> t \<le> sim_sched_thread_cond_wait_till g)
         \<and> (v2_pending (v2_jobs (br s2)) \<noteq> 0 \<longrightarrow> t \<le> v2_wake (br s2)))"
proof -
  obtain n where n: "deref (ev_heap (evs s2)) (ev_next (evs s2)) = Some n"
      "e_when n = (case es of [] \<Rightarrow> INT64_MAX | e # _ \<Rightarrow> e_when e)"
    using pending_next [OF assms(3)] by blast
  define t where "t = (if may_skip g now then max now (fst (v2_skip_target g now (e_when n))) else now)"
  obtain s' g' where s': "v2_events_loop c s = Some (s', Returned t)" "uncounted g' = uncounted g"
      "world s' = turn_end (b_loop c) now t g'"
    using time_skip_to_spec [where target = v2_skip_target, OF n(1) v2_skip_target_facts(1), of "b_loop c" now] assms(1,2)
    by (auto simp: v2_events_loop_def t_def g_def)
  have late: "now < t \<longrightarrow> t \<le> next_deadline g (e_when n) \<and> (v2_pending (v2_jobs (br s2)) \<noteq> 0 \<longrightarrow> t \<le> v2_wake (br s2))"
    using v2_skip_target_facts(2,3) [of g now "e_when n"] by (auto simp: t_def max_def g_def)
  have "e_when n \<le> e_when e" if "e \<in> set es" for e
    using that pending_sorted [OF assms(3)] n(2) by (cases es) auto
  with late have "now < t \<longrightarrow> (\<forall>e \<in> set es. t \<le> e_when e) \<and> t \<le> sim_main_thread_sleep_till g
         \<and> t \<le> sim_plugin_backfill_thread_sleep_till g \<and> t \<le> sim_slurmdbd_agent_sleep_till g
         \<and> (sched_requests g > 0 \<longrightarrow> t \<le> sim_sched_thread_cond_wait_till g)
         \<and> (v2_pending (v2_jobs (br s2)) \<noteq> 0 \<longrightarrow> t \<le> v2_wake (br s2))"
    using next_deadline_le [of g "e_when n"] by (meson order_trans)
  moreover have "now \<le> t" by (simp add: t_def)
  ultimately show ?thesis using s' by blast
qed

text \<open>One job held until 0.3 seconds, and no job at all.\<close>

definition one_held :: "string bridge" where
  "one_held = (bridge_start [])\<lparr>v2_jobs := [hd three_held], v2_wake := 300000, v2_log := Some []\<rparr>"

definition held_st :: "string bridge \<Rightarrow> string bridge st" where
  "held_st b = (bridge_st b)\<lparr>evs := sentinels\<lparr>ev_next := 2\<rparr>\<rparr>"

lemma held_st_pending: "pending (evs (held_st b)) []"
  using sample_st_pending by (simp add: held_st_def sample_st_def)

lemmas held_eval = v2_loop_work_def held_st_def bridge_st_def quiet_bridge_def quiet_loop_def quiet_daemon_def get_sim_utime_def
  v2_due_loop.simps [of _ 1000] sentinels_def deref_def INT64_MAX_def slurmdbd_step_def sim_sched_agent_loop_def
  v2_tick_def v2_look_def observe_table

lemma held_work:
  "v2_loop_work quiet_bridge (held_st one_held) = Some (upd (\<lambda>g. g\<lparr>loop_depth := 1, count := 1\<rparr>) (held_st one_held), 1000)"
  by (simp add: held_eval one_held_def bridge_start_def three_held_def observe_job_def)

theorem clock_stops_for_held_jobs_witness:
  "\<exists>s' t. v2_events_loop quiet_bridge (held_st one_held) = Some (s', Returned t) \<and> 1000 \<le> t \<and> t \<le> 300000"
proof -
  let ?s = "upd (\<lambda>g. g\<lparr>loop_depth := 1, count := 1\<rparr>) (held_st one_held)"
  have h: "v2_pending (v2_jobs (br ?s)) = 1" "v2_wake (br ?s) = 300000"
    by (simp_all add: held_st_def bridge_st_def one_held_def three_held_def v2_pending_def)
  then have x: "v2_exit_check quiet_bridge 1000 ?s = (?s, False)" by (simp add: v2_exit_check_def)
  have p: "pending (evs ?s) []" using held_st_pending by simp
  from clock_stops_for_held_jobs [OF held_work x p] h show ?thesis by force
qed

theorem no_exit_with_held_jobs_witness:
  "\<exists>s'. v2_events_loop quiet_bridge (upd (\<lambda>g. g\<lparr>all_done := 5\<rparr>) (held_st (bridge_start []))) = Some (s', Exited)
     \<and> v2_pending (v2_jobs (br s')) = 0"
proof -
  let ?s = "upd (\<lambda>g. g\<lparr>all_done := 5\<rparr>) (held_st (bridge_start []))"
  have r: "\<exists>r. v2_events_loop quiet_bridge ?s = Some (r, Exited)"
    by (simp add: held_eval v2_events_loop_def bridge_start_def v2_exit_check_def v2_pending_def exit_check_def no_jobs_def)
  have c: "counts_ok quiet_bridge"
    by (simp add: counts_ok_def clock_keeps_counts_def quiet_bridge_def quiet_loop_def quiet_daemon_def)
  from r no_exit_with_held_jobs [OF _ c] show ?thesis by blast
qed

end
