(* ===== verification/Sim_Trace.thy ===== *)
theory Sim_Trace
  imports Sim_Events
begin

text \<open>
  Reading the trace of events: the command line splitter, the options of a
  submission, one line of the events file and the whole file
  (\<^verbatim>\<open>contribs/sim/sim_events.c\<close>), and the simulator's own command line options
  (\<^verbatim>\<open>contribs/sim/slurmctld_controller.c\<close>). \<open>None\<close> is the end of the process, by
  \<^verbatim>\<open>exit(1)\<close> or a null dereference.
\<close>

subsection \<open>Splitting a command line\<close>

definition blank :: "char \<Rightarrow> bool" where
  "blank c \<longleftrightarrow> c = CHR '' '' \<or> c = CHR 0x09"

definition NUL :: char where
  "NUL = CHR 0x00"

text \<open>
  The first pass copies the line into a buffer, one cell after the other, with
  one zero between two arguments. The rest of the line stands for the read
  index, the copied text for the written part of the buffer. \<open>put\<close> is the copy
  of one character, which leaves out line ends.
\<close>

definition put :: "string \<Rightarrow> char \<Rightarrow> string" where
  "put out c = (if c \<noteq> CHR 0x0A then out @ [c] else out)"

fun quoted :: "string \<Rightarrow> string \<Rightarrow> string \<times> string" where
  "quoted [] out = ([], out)"
| "quoted (c # cs) out = (if c = CHR 0x22 then (cs, out) else quoted cs (put out c))"

lemma quoted_shorter: "length (fst (quoted cs out)) \<le> length cs"
  by (induction cs out rule: quoted.induct) auto

function take_arg :: "string \<Rightarrow> string \<Rightarrow> string \<times> string" where
  "take_arg [] out = ([], out)"
| "take_arg (c # cs) out =
     (if blank c then (c # cs, out)
      else if c = CHR 0x22 then (let (rest, out) = quoted cs out in take_arg rest out)
      else take_arg cs (put out c))"
  by pat_completeness auto
termination
  by (relation "measure (length \<circ> fst)") (auto simp: less_Suc_eq_le dest: arg_cong [where f = "length \<circ> fst"] intro: order_trans [OF _ quoted_shorter])

lemma take_arg_shorter: "length (fst (take_arg cs out)) \<le> length cs"
proof (induction cs out rule: take_arg.induct)
  case (2 c cs out)
  obtain rest o2 where q: "quoted cs out = (rest, o2)" by fastforce
  have "length rest \<le> length cs" using quoted_shorter [of cs out] q by simp
  moreover have "blank c \<or> c \<noteq> CHR 0x22 \<or> length (fst (take_arg rest o2)) \<le> length rest" using 2(1) q by auto
  ultimately have "blank c \<or> c \<noteq> CHR 0x22 \<or> length (fst (take_arg rest o2)) \<le> Suc (length cs)" by linarith
  then show ?case using 2(2) q by auto
qed simp

text \<open>The \<^verbatim>\<open>for\<close> loop of the first pass, with the number of arguments it counts.\<close>

function split_loop :: "string \<Rightarrow> bool \<Rightarrow> string \<Rightarrow> nat \<Rightarrow> string \<times> nat" where
  "split_loop rest in_arg out argc =
     (if rest = [] then (out, argc)
      else if \<not> in_arg \<and> \<not> blank (hd rest) then split_loop (tl rest) in_arg out argc
      else let (rest, out) = (if \<not> in_arg then (dropWhile blank rest, out @ [NUL]) else (rest, out));
               (rest, out) = take_arg rest out
           in split_loop rest False out (argc + 1))"
  by pat_completeness auto
termination
proof (relation "measures [\<lambda>(rest, in_arg, out, argc). length rest, \<lambda>(rest, in_arg, out, argc). if in_arg then 1 else 0]", simp)
  fix rest :: string and in_arg :: bool and out :: string and argc :: nat
  assume "rest \<noteq> []" "\<not> (\<not> in_arg \<and> \<not> blank (hd rest))"
  fix p r1 o1 q r2 o2
  assume a: "p = (if \<not> in_arg then (dropWhile blank rest, out @ [NUL]) else (rest, out))" "(r1, o1) = p"
    "q = take_arg r1 o1" "(r2, o2) = q"
  have r2: "length r2 \<le> length r1" using take_arg_shorter [of r1 o1] a(3,4) by (metis fst_conv)
  show "((r2, False, o2, argc + 1), rest, in_arg, out, argc)
      \<in> measures [\<lambda>(rest, in_arg, out, argc). length rest, \<lambda>(rest, in_arg, out, argc). if in_arg then 1 else 0]"
  proof (cases in_arg)
    case True
    then have "r1 = rest" using a(1,2) by simp
    then show ?thesis using r2 True by (auto simp: order_le_less)
  next
    case False
    then have "blank (hd rest)" "r1 = dropWhile blank rest" using a(1,2) \<open>\<not> (\<not> in_arg \<and> \<not> blank (hd rest))\<close> by simp_all
    then have "length r1 < length rest" using \<open>rest \<noteq> []\<close> length_dropWhile_le [of blank "tl rest"]
      by (cases rest) (auto simp: less_Suc_eq_le)
    then show ?thesis using r2 by simp
  qed
qed simp

declare split_loop.simps [simp del]

text \<open>
  The second pass: the arguments are the zero-terminated strings at the start
  of the buffer and behind each zero that is not its last cell.
\<close>

definition c_string_at :: "string \<Rightarrow> nat \<Rightarrow> string" where
  "c_string_at buf k = takeWhile (\<lambda>c. c \<noteq> NUL) (drop k buf)"

definition arg_offsets :: "string \<Rightarrow> nat list" where
  "arg_offsets buf = 0 # map Suc (filter (\<lambda>i. buf ! i = NUL) [0..<length buf - 1])"

definition split_cmd_line :: "string \<Rightarrow> string list" where
  "split_cmd_line cmd_line =
     (let (buf, argc) = split_loop (dropWhile blank cmd_line) True [] 0
      in map (c_string_at buf) (arg_offsets buf))"

subsection \<open>The options of a submission\<close>

text \<open>
  Floating point numbers are the type \<open>'d\<close>: \<open>d_atof\<close> is \<^verbatim>\<open>atof\<close>, \<open>d_int64\<close> the
  conversion to \<^verbatim>\<open>int64_t\<close>, \<open>d_usec\<close> the conversion after a multiplication with
  one million.
\<close>

record 'd dbl =
  d_atof :: "string \<Rightarrow> 'd"
  d_int64 :: "'d \<Rightarrow> int"
  d_usec :: "'d \<Rightarrow> int"
  d_negative :: "'d \<Rightarrow> bool"
  d_nonnegative :: "'d \<Rightarrow> bool"

record scan =
  sc_job_name :: "string option"
  sc_username :: "string option"
  sc_sleep_time_str :: "string option"
  sc_workdir_set :: bool
  sc_sleep_set :: bool
  sc_wall_utime :: int

definition starts_with :: "string \<Rightarrow> string \<Rightarrow> bool" where
  "starts_with p s \<longleftrightarrow> take (length p) s = p"

definition after_equals :: "string \<Rightarrow> string" where
  "after_equals s = tl (dropWhile (\<lambda>c. c \<noteq> CHR ''='') s)"

text \<open>The scan for values. The index jumps of the source are the arguments dropped from the list.\<close>

definition scan_step :: "'d dbl \<Rightarrow> string \<Rightarrow> string list \<Rightarrow> scan \<Rightarrow> (string list \<times> scan) option" where
  "scan_step d a rest sc =
     (if a = ''-jid'' \<and> rest \<noteq> [] then None
      else if a = ''-J'' \<and> rest \<noteq> [] then Some (tl rest, sc\<lparr>sc_job_name := Some (hd rest)\<rparr>)
      else if starts_with ''--job-name='' a then Some (rest, sc\<lparr>sc_job_name := Some (after_equals a)\<rparr>)
      else if a = ''-D'' \<and> rest \<noteq> [] then Some (tl rest, sc\<lparr>sc_workdir_set := True\<rparr>)
      else if starts_with ''--chdir='' a then Some (tl rest, sc\<lparr>sc_workdir_set := True\<rparr>)
      else if starts_with ''--uid='' a \<and> rest \<noteq> [] then Some (rest, sc\<lparr>sc_username := Some (after_equals a)\<rparr>)
      else if a = ''-sim-walltime'' \<and> rest \<noteq> []
        then Some (tl rest, sc\<lparr>sc_sleep_time_str := Some (hd rest),
                               sc_wall_utime := d_int64 d (d_atof d (hd rest)) * 1000000\<rparr>)
      else if a = ''pseudo.job'' then Some (rest, sc)
      else if a = ''-sleep'' \<and> rest \<noteq> []
        then Some (tl rest, sc\<lparr>sc_sleep_set := True, sc_sleep_time_str := Some (hd rest),
                               sc_wall_utime := d_int64 d (d_atof d (hd rest)) * 1000000\<rparr>)
      else Some (rest, sc))"

lemma scan_step_shorter: "scan_step d a rest sc = Some (rest', sc') \<Longrightarrow> length rest' \<le> length rest"
  by (auto simp: scan_step_def split: if_splits)

function scan_args :: "'d dbl \<Rightarrow> string list \<Rightarrow> scan \<Rightarrow> scan option" where
  "scan_args d [] sc = Some sc"
| "scan_args d (a # rest) sc =
     (case scan_step d a rest sc of None \<Rightarrow> None | Some (rest', sc') \<Rightarrow> scan_args d rest' sc')"
  by pat_completeness auto
termination
  by (relation "measure (\<lambda>(d, args, sc). length args)") (auto dest: scan_step_shorter)

fun rest_args :: "string list \<Rightarrow> string list" where
  "rest_args [] = []"
| "rest_args [a] = [if a = ''pseudo.job'' then ''/opt/cluster/microapps/pseudo.job'' else a]"
| "rest_args (a # b # rest) =
     (if a = ''-jid'' \<or> a = ''-sim-walltime'' then rest_args rest
      else if a = ''pseudo.job'' then ''/opt/cluster/microapps/pseudo.job'' # rest_args (b # rest)
      else a # rest_args (b # rest))"

definition sim_submit_batch_job_get_payload :: "'d dbl \<Rightarrow> string \<Rightarrow> sim_event_submit_batch_job option" where
  "sim_submit_batch_job_get_payload d event_details =
     (let argv = split_cmd_line event_details;
          sc0 = \<lparr>sc_job_name = None, sc_username = None, sc_sleep_time_str = None, sc_workdir_set = False,
                 sc_sleep_set = False, sc_wall_utime = - 1\<rparr>
      in case scan_args d argv sc0 of
           None \<Rightarrow> None
         | Some sc \<Rightarrow>
             (case sc_job_name sc of
                None \<Rightarrow> None
              | Some job_name \<Rightarrow>
                  if take 6 job_name \<noteq> ''jobid_'' then None
                  else case get_job_sim_id job_name of
                         None \<Rightarrow> None
                       | Some sim_id \<Rightarrow> Some
                           \<lparr>s_wall_utime = (if sc_wall_utime sc < 0 then INT64_MAX else sc_wall_utime sc),
                            s_job_id = 0, s_job_sim_id = sim_id,
                            s_argv = [''sbatch'']
                              @ (if sc_workdir_set sc then []
                                 else [case sc_username sc of Some u \<Rightarrow> ''--chdir=/home/'' @ u | None \<Rightarrow> ''--chdir=/tmp''])
                              @ rest_args argv
                              @ (if sc_sleep_set sc then []
                                 else [''-sleep'', case sc_sleep_time_str sc of Some t \<Rightarrow> t | None \<Rightarrow> ''-1''])\<rparr>))"

subsection \<open>The events file\<close>

text \<open>\<^verbatim>\<open>strtok\<close> with the separator bar: the next token and the rest, or \<^verbatim>\<open>NULL\<close>.\<close>

definition strtok_bar :: "string \<Rightarrow> (string \<times> string) option" where
  "strtok_bar s =
     (let t = dropWhile (\<lambda>c. c = CHR ''|'') s
      in if t = [] then None
         else Some (takeWhile (\<lambda>c. c \<noteq> CHR ''|'') t, drop 1 (dropWhile (\<lambda>c. c \<noteq> CHR ''|'') t)))"

text \<open>The loop over the arguments of the event: \<open>-dt\<close>, then \<open>-e\<close> on the argument reached.\<close>

function event_args :: "'d dbl \<Rightarrow> string list \<Rightarrow> 'd option \<times> bool \<Rightarrow> 'd option \<times> bool" where
  "event_args d [] (dt, sub) = (dt, sub)"
| "event_args d (a # rest) (dt, sub) =
     (let (a, rest, dt) = (if a = ''-dt'' \<and> rest \<noteq> [] then (hd rest, tl rest, Some (d_atof d (hd rest))) else (a, rest, dt));
          (rest, sub) = (if a = ''-e'' \<and> rest \<noteq> [] then (tl rest, sub \<or> hd rest = ''submit_batch_job'') else (rest, sub))
      in event_args d rest (dt, sub))"
  by pat_completeness auto
termination
  by (relation "measure (\<lambda>(d, args, r). length args)") (auto split: if_splits)

record trace_conf =
  t_start_time :: int
  t_before_first_job :: int
  t_first_job_delay :: int

text \<open>
  \<^verbatim>\<open>dt\<close> is \<open>None\<close> as long as it has its initial value \<open>-1\<close>. The second component
  of the result is the return code.
\<close>

definition sim_insert_event_by_cmdline :: "'d dbl \<Rightarrow> trace_conf \<Rightarrow> string \<Rightarrow> event_list \<Rightarrow> (event_list \<times> int) option" where
  "sim_insert_event_by_cmdline d conf cmdline s =
     (case strtok_bar cmdline of
        None \<Rightarrow> None
      | Some (event_command, line) \<Rightarrow>
          let (dt, sub) = event_args d (split_cmd_line event_command) (None, False)
          in if (case dt of None \<Rightarrow> True | Some x \<Rightarrow> d_negative d x) then Some (s, - 1)
             else if \<not> sub then Some (s, - 1)
             else
               let when = (case dt of
                             Some x \<Rightarrow> if d_nonnegative d x
                               then t_start_time conf + t_before_first_job conf + d_usec d x + t_first_job_delay conf else 0
                           | None \<Rightarrow> 0)
               in case strtok_bar line of
                    None \<Rightarrow> None
                  | Some (event_details, _) \<Rightarrow>
                      (case sim_submit_batch_job_get_payload d event_details of
                         None \<Rightarrow> None
                       | Some payload \<Rightarrow>
                           (case sim_insert_event s when SIM_SUBMIT_BATCH_JOB (Submission payload) of
                              None \<Rightarrow> None
                            | Some s' \<Rightarrow> Some (s', 0))))"

text \<open>The loop over the characters of a line, with the count of visible characters and the comment flag.\<close>

fun line_scan :: "string \<Rightarrow> nat \<Rightarrow> bool \<Rightarrow> nat \<times> bool" where
  "line_scan [] n comment = (n, comment)"
| "line_scan (c # cs) n comment =
     (let n = (if c = CHR '' '' \<or> c = CHR 0x09 \<or> c = CHR 0x0A then n else n + 1)
      in line_scan cs n (comment \<or> c = CHR ''#'' \<and> n = 0))"

fun read_lines :: "'d dbl \<Rightarrow> trace_conf \<Rightarrow> string list \<Rightarrow> event_list \<Rightarrow> event_list option" where
  "read_lines d conf [] s = Some s"
| "read_lines d conf (line # ls) s =
     (let (n, comment) = line_scan line 0 False
      in if \<not> comment \<and> n > 0
         then (case sim_insert_event_by_cmdline d conf line s of None \<Rightarrow> None | Some (s', rc) \<Rightarrow> read_lines d conf ls s')
         else read_lines d conf ls s)"

text \<open>The start: the sentinels, the registration of the nodes at the current time, then the file.\<close>

definition sim_init_events :: "'d dbl \<Rightarrow> trace_conf \<Rightarrow> int \<Rightarrow> string list option \<Rightarrow> event_list option" where
  "sim_init_events d conf now file =
     (case sim_insert_event sentinels now SIM_NODE_REGISTRATION No_Payload of
        None \<Rightarrow> None
      | Some s \<Rightarrow> (case file of None \<Rightarrow> None | Some ls \<Rightarrow> read_lines d conf ls s))"

subsection \<open>The simulator's command line\<close>

record cmd_conf =
  cmd_events_file :: "string option"
  cmd_before_first_job :: int

function sim_slurmctld_parse_commandline :: "'d dbl \<Rightarrow> string list \<Rightarrow> cmd_conf \<Rightarrow> (cmd_conf \<times> string list) option" where
  "sim_slurmctld_parse_commandline d [] conf = Some (conf, [])"
| "sim_slurmctld_parse_commandline d (a # rest) conf =
     (if a = ''-e'' then
        if rest = [] then None
        else sim_slurmctld_parse_commandline d (tl rest) (conf\<lparr>cmd_events_file := Some (hd rest)\<rparr>)
      else if a = ''-dtstart'' then
        if rest = [] then None
        else sim_slurmctld_parse_commandline d (tl rest) (conf\<lparr>cmd_before_first_job := d_usec d (d_atof d (hd rest))\<rparr>)
      else map_option (\<lambda>(conf, argv). (conf, a # argv)) (sim_slurmctld_parse_commandline d rest conf))"
  by pat_completeness auto
termination
  by (relation "measure (\<lambda>(d, args, conf). length args)") auto

subsection \<open>The buffer and its arguments\<close>

text \<open>Induction over the copy of one argument, with the four cases of its loop.\<close>

lemma take_arg_loop [case_names empty blank quote other]:
  assumes "\<And>out. P [] out" "\<And>c cs out. blank c \<Longrightarrow> P (c # cs) out"
    and "\<And>c cs out r o2. \<not> blank c \<Longrightarrow> c = CHR 0x22 \<Longrightarrow> quoted cs out = (r, o2) \<Longrightarrow> P r o2 \<Longrightarrow> P (c # cs) out"
    and "\<And>c cs out. \<not> blank c \<Longrightarrow> c \<noteq> CHR 0x22 \<Longrightarrow> P cs (put out c) \<Longrightarrow> P (c # cs) out"
  shows "P cs out"
proof (induction cs out rule: take_arg.induct)
  case (2 c cs out)
  obtain r o2 where "quoted cs out = (r, o2)" by fastforce
  then show ?case using 2 assms(2-4) by metis
qed (rule assms(1))

lemma put_acc: "put (xs @ ys) c = xs @ put ys c"
  by (simp add: put_def)

lemma quoted_acc: "quoted cs (xs @ ys) = (fst (quoted cs ys), xs @ snd (quoted cs ys))"
  by (induction cs ys rule: quoted.induct) (auto simp: put_acc)

lemma take_arg_acc: "take_arg cs (xs @ ys) = (fst (take_arg cs ys), xs @ snd (take_arg cs ys))"
proof (induction cs ys rule: take_arg_loop)
  case (quote c cs out r o2)
  then have "quoted cs (xs @ out) = (r, xs @ o2)" using quoted_acc [of cs xs out] by simp
  then show ?case using quote by simp
qed (simp_all add: put_acc)

lemma take_arg_split: "take_arg cs out = (fst (take_arg cs []), out @ snd (take_arg cs []))"
  using take_arg_acc [of cs out "[]"] by simp

lemma quoted_length: "length (fst (quoted cs out)) + length (snd (quoted cs out)) \<le> length cs + length out"
  by (induction cs out rule: quoted.induct) (auto simp: put_def split: if_splits)

lemma take_arg_length: "length (fst (take_arg cs out)) + length (snd (take_arg cs out)) \<le> length cs + length out"
proof (induction cs out rule: take_arg_loop)
  case (quote c cs out r o2)
  then show ?case using quoted_length [of cs out] by simp
next
  case (other c cs out)
  then show ?case by (simp add: put_def split: if_splits)
qed simp_all

lemma take_arg_stops: "fst (take_arg cs out) = [] \<or> blank (hd (fst (take_arg cs out)))"
  by (induction cs out rule: take_arg_loop) simp_all

lemma quoted_set: "set (fst (quoted cs out)) \<subseteq> set cs" "set (snd (quoted cs out)) \<subseteq> set cs \<union> set out"
  by (induction cs out rule: quoted.induct) (auto simp: put_def split: if_splits)

lemma take_arg_set: "set (fst (take_arg cs out)) \<subseteq> set cs \<and> set (snd (take_arg cs out)) \<subseteq> set cs \<union> set out"
proof (induction cs out rule: take_arg_loop)
  case (quote c cs out r o2)
  have "set r \<subseteq> set cs" "set o2 \<subseteq> set cs \<union> set out"
    using quoted_set [where cs = cs and out = out] quote(3) by simp_all
  then show ?case using quote by auto
next
  case (other c cs out)
  then show ?case by (auto simp: put_def split: if_splits)
qed auto

text \<open>The arguments of the first pass, in which blanks at the end count as an empty one.\<close>

function raw_args :: "string \<Rightarrow> string list" where
  "raw_args rest =
     (if rest = [] then []
      else let (r, w) = take_arg (dropWhile blank rest) [] in if length r < length rest then w # raw_args r else [w])"
  by pat_completeness auto
termination
  by (relation "measure length") auto

declare raw_args.simps [simp del]

text \<open>The arguments of a line: what stands between blanks, with quoted parts taken over.\<close>

function tokens :: "string \<Rightarrow> string list" where
  "tokens line =
     (let s = dropWhile blank line
      in if s = [] then [] else let (r, w) = take_arg s [] in if length r < length s then w # tokens r else [w])"
  by pat_completeness auto
termination
proof (relation "measure length", simp)
  fix line :: string and s p and r :: string and w
  assume "s = dropWhile blank line" "length r < length s"
  then show "(r, line) \<in> measure length" using length_dropWhile_le [of blank line] by simp
qed

declare tokens.simps [simp del]

definition joined :: "string list \<Rightarrow> string" where
  "joined ws = concat (map (\<lambda>w. NUL # w) ws)"

lemma take_arg_progress: "s \<noteq> [] \<Longrightarrow> \<not> blank (hd s) \<Longrightarrow> length (fst (take_arg s out)) < length s"
proof (cases s)
  case (Cons c cs)
  assume "\<not> blank (hd s)"
  then show ?thesis using Cons take_arg_shorter quoted_shorter [of cs out]
    by (auto simp: less_Suc_eq_le case_prod_beta intro: order_trans)
qed simp

lemma drop_blank_less: "rest \<noteq> [] \<Longrightarrow> blank (hd rest) \<Longrightarrow> length (dropWhile blank rest) < length rest"
  using length_dropWhile_le [of blank "tl rest"] by (cases rest) (auto simp: less_Suc_eq_le)

lemma raw_args_step:
  assumes "rest \<noteq> []"
  shows "raw_args rest = snd (take_arg (dropWhile blank rest) []) # raw_args (fst (take_arg (dropWhile blank rest) []))"
proof -
  let ?d = "dropWhile blank rest"
  have "length (fst (take_arg ?d [])) < length rest"
  proof (cases "blank (hd rest)")
    case True
    then show ?thesis using drop_blank_less [OF assms] take_arg_shorter [of ?d "[]"] by simp
  next
    case False
    then have "?d = rest" using assms by (cases rest) auto
    then show ?thesis using take_arg_progress [OF assms False] by simp
  qed
  then show ?thesis using assms by (simp add: raw_args.simps [of rest] case_prod_beta)
qed

lemma tokens_step:
  "tokens line = (let s = dropWhile blank line in if s = [] then [] else snd (take_arg s []) # tokens (fst (take_arg s [])))"
proof (cases "dropWhile blank line = []")
  case False
  then have "\<not> blank (hd (dropWhile blank line))" by (rule hd_dropWhile)
  then show ?thesis using take_arg_progress [OF False] by (simp add: tokens.simps [of line] Let_def case_prod_beta)
qed (simp add: tokens.simps [of line])

lemma split_loop_raw:
  assumes "rest = [] \<or> blank (hd rest)"
  shows "split_loop rest False out n = (out @ joined (raw_args rest), n + length (raw_args rest))"
  using assms
proof (induction "length rest" arbitrary: rest out n rule: less_induct)
  case less
  show ?case
  proof (cases "rest = []")
    case True
    then show ?thesis by (simp add: split_loop.simps [of "[]"] raw_args.simps [of "[]"] joined_def)
  next
    case False
    define d where "d = dropWhile blank rest"
    define r w where "r = fst (take_arg d [])" and "w = snd (take_arg d [])"
    have b: "blank (hd rest)" using less.prems False by simp
    have t: "take_arg d (out @ [NUL]) = (r, out @ [NUL] @ w)"
      using take_arg_split [of d "out @ [NUL]"] by (simp add: r_def w_def)
    have "length r < length rest"
      using drop_blank_less [OF False b] take_arg_shorter [of d "[]"] by (simp add: d_def r_def)
    moreover have "r = [] \<or> blank (hd r)" using take_arg_stops [of d "[]"] by (simp add: r_def)
    ultimately have "split_loop r False (out @ NUL # w) (n + 1) = ((out @ NUL # w) @ joined (raw_args r), n + 1 + length (raw_args r))"
      by (rule less.hyps)
    then show ?thesis using False b t raw_args_step [OF False]
      by (simp add: split_loop.simps [of rest] d_def [symmetric] r_def [symmetric] w_def [symmetric] joined_def)
  qed
qed

definition cmd_raw :: "string \<Rightarrow> string list" where
  "cmd_raw line = raw_args (dropWhile blank line)"

lemma first_pass:
  "split_loop (dropWhile blank line) True [] 0 = (drop 1 (joined (cmd_raw line)), length (cmd_raw line))"
proof (cases "dropWhile blank line = []")
  case True
  show ?thesis unfolding cmd_raw_def True by (simp add: split_loop.simps [of "[]"] raw_args.simps [of "[]"] joined_def)
next
  case False
  define s where "s = dropWhile blank line"
  define r w where "r = fst (take_arg s [])" and "w = snd (take_arg s [])"
  have s: "s \<noteq> []" "\<not> blank (hd s)" "dropWhile blank s = s"
    using False hd_dropWhile [OF False] by (simp_all add: s_def)
  have "r = [] \<or> blank (hd r)" using take_arg_stops [of s "[]"] by (simp add: r_def)
  note R = split_loop_raw [OF this, of w 1]
  have "take_arg s [] = (r, w)" by (simp add: r_def w_def)
  then have "split_loop s True [] 0 = split_loop r False w 1" using s by (simp add: split_loop.simps [of s])
  then show ?thesis using R raw_args_step [OF s(1)] s(3)
    by (simp add: cmd_raw_def s_def [symmetric] r_def [symmetric] w_def [symmetric] joined_def)
qed

text \<open>The strings behind the zeros of a buffer, the last cell included.\<close>

definition offsets :: "string \<Rightarrow> nat list" where
  "offsets buf = map Suc (filter (\<lambda>i. buf ! i = NUL) [0..<length buf])"

lemma upt_split: "[0..<a + b] = [0..<a] @ map ((+) a) [0..<b]"
  by (induction b) auto

lemma no_nul_nth: "NUL \<notin> set w \<Longrightarrow> i < length w \<Longrightarrow> w ! i \<noteq> NUL"
  by (metis nth_mem)

lemma takeWhile_word: "NUL \<notin> set w \<Longrightarrow> takeWhile (\<lambda>c. c \<noteq> NUL) (w @ b) = w @ takeWhile (\<lambda>c. c \<noteq> NUL) b"
  by (induction w) auto

lemma offsets_word:
  assumes "NUL \<notin> set w"
  shows "offsets (w @ NUL # b) = Suc (length w) # map ((+) (Suc (length w))) (offsets b)"
proof -
  have w: "filter (\<lambda>i. (w @ NUL # b) ! i = NUL) [0..<length w] = []"
    using no_nul_nth [OF assms] by (auto simp: filter_empty_conv nth_append)
  have "[0..<length (w @ NUL # b)] = [0..<length w] @ length w # map ((+) (Suc (length w))) [0..<length b]"
  proof -
    have "[0..<Suc (length b)] = 0 # map Suc [0..<length b]" by (simp add: map_Suc_upt upt_conv_Cons del: upt_Suc)
    then show ?thesis using upt_split [of "length w" "Suc (length b)"] by (simp add: o_def del: upt_Suc)
  qed
  then have "filter (\<lambda>i. (w @ NUL # b) ! i = NUL) [0..<length (w @ NUL # b)] =
      length w # map ((+) (Suc (length w))) (filter (\<lambda>i. b ! i = NUL) [0..<length b])"
    using w by (simp add: filter_map o_def nth_append)
  then show ?thesis by (simp add: offsets_def o_def)
qed

lemma offsets_plain: "NUL \<notin> set w \<Longrightarrow> offsets w = []"
  using no_nul_nth by (auto simp: offsets_def filter_empty_conv)

lemma c_string_word: "NUL \<notin> set w \<Longrightarrow> c_string_at (w @ NUL # b) 0 = w" "NUL \<notin> set w \<Longrightarrow> c_string_at w 0 = w"
  "c_string_at (w @ NUL # b) (Suc (length w) + k) = c_string_at b k"
  using takeWhile_word [of w "NUL # b"] takeWhile_word [of w "[]"] by (simp_all add: c_string_at_def)

lemma pieces:
  assumes "NUL \<notin> set w" "\<forall>v \<in> set ws. NUL \<notin> set v"
  shows "map (c_string_at (w @ joined ws)) (0 # offsets (w @ joined ws)) = w # ws"
  using assms
proof (induction ws arbitrary: w)
  case Nil
  then show ?case by (simp add: joined_def offsets_plain c_string_word)
next
  case (Cons v vs)
  have b: "joined (v # vs) = NUL # (v @ joined vs)" by (simp add: joined_def)
  have "map (c_string_at (v @ joined vs)) (0 # offsets (v @ joined vs)) = v # vs" using Cons by simp
  then show ?case unfolding b using Cons.prems(1) c_string_word(3) [of w "v @ joined vs"]
      c_string_word(3) [of w "v @ joined vs" 0]
    by (simp add: offsets_word c_string_word(1) o_def)
qed

lemma arg_offsets_butlast:
  "0 # offsets buf = (if buf \<noteq> [] \<and> last buf = NUL then arg_offsets buf @ [length buf] else arg_offsets buf)"
proof (cases buf rule: rev_cases)
  case (snoc b c)
  have "filter (\<lambda>i. (b @ [c]) ! i = NUL) [0..<length b] = filter (\<lambda>i. b ! i = NUL) [0..<length b]"
    by (intro filter_cong) (auto simp: nth_append)
  then show ?thesis using snoc by (auto simp: offsets_def arg_offsets_def)
qed (simp add: offsets_def arg_offsets_def)

lemma last_joined: "ws \<noteq> [] \<Longrightarrow> last (w @ joined ws) = (if last ws = [] then NUL else last (last ws))"
  by (cases ws rule: rev_cases) (auto simp: joined_def)

text \<open>An empty argument at the end is dropped by the second pass.\<close>

definition drop_last_empty :: "string list \<Rightarrow> string list" where
  "drop_last_empty ws = (if length ws > 1 \<and> last ws = [] then butlast ws else ws)"

lemma second_pass:
  assumes "NUL \<notin> set w" "\<forall>v \<in> set ws. NUL \<notin> set v"
  shows "map (c_string_at (w @ joined ws)) (arg_offsets (w @ joined ws)) = drop_last_empty (w # ws)"
proof -
  let ?b = "w @ joined ws"
  note P = pieces [OF assms]
  have nul: "?b \<noteq> [] \<and> last ?b = NUL \<longleftrightarrow> ws \<noteq> [] \<and> last ws = []"
  proof (cases "ws = []")
    case True
    then show ?thesis using assms(1) by (metis append_Nil2 concat.simps(1) joined_def last_in_set list.simps(8))
  next
    case False
    then have "last ws = [] \<or> last (last ws) \<noteq> NUL" using assms(2) by (metis last_in_set)
    then show ?thesis using False last_joined [OF False, of w] by (auto simp: joined_def)
  qed
  show ?thesis
  proof (cases "ws \<noteq> [] \<and> last ws = []")
    case True
    then have "0 # offsets ?b = arg_offsets ?b @ [length ?b]" using nul arg_offsets_butlast [of ?b] by simp
    then have "map (c_string_at ?b) (arg_offsets ?b) @ [c_string_at ?b (length ?b)] = w # ws"
      using P by (metis list.simps(8,9) map_append)
    then have "map (c_string_at ?b) (arg_offsets ?b) = butlast (w # ws)" by (metis butlast_snoc)
    then show ?thesis using True by (simp add: drop_last_empty_def)
  next
    case False
    then have "0 # offsets ?b = arg_offsets ?b" using nul arg_offsets_butlast [of ?b] by auto
    then show ?thesis using P False by (auto simp: drop_last_empty_def)
  qed
qed

lemma raw_args_nul: "NUL \<notin> set rest \<Longrightarrow> \<forall>v \<in> set (raw_args rest). NUL \<notin> set v"
proof (induction "length rest" arbitrary: rest rule: less_induct)
  case less
  show ?case
  proof (cases "rest = []")
    case False
    define d where "d = dropWhile blank rest"
    define r w where "r = fst (take_arg d [])" and "w = snd (take_arg d [])"
    have d: "NUL \<notin> set d" using less.prems set_dropWhileD unfolding d_def by metis
    then have nul: "NUL \<notin> set r" "NUL \<notin> set w" using take_arg_set [of d "[]"] by (auto simp: r_def w_def)
    have raw: "raw_args rest = w # raw_args r" using raw_args_step [OF False] by (simp add: d_def r_def w_def)
    have "length r < length rest"
    proof (cases "blank (hd rest)")
      case True
      then show ?thesis using drop_blank_less [OF False True] take_arg_shorter [of d "[]"] by (simp add: d_def r_def)
    next
      case nb: False
      then have "d = rest" using False by (cases rest) (auto simp: d_def)
      then show ?thesis using take_arg_progress [OF False nb] by (simp add: r_def)
    qed
    then show ?thesis using less.hyps nul raw by simp
  qed (simp add: raw_args.simps [of "[]"])
qed

lemma split_cmd_line_raw:
  assumes "NUL \<notin> set line"
  shows "split_cmd_line line = (if cmd_raw line = [] then [[]] else drop_last_empty (cmd_raw line))"
proof (cases "cmd_raw line")
  case Nil
  then show ?thesis by (simp add: split_cmd_line_def first_pass joined_def arg_offsets_def c_string_at_def)
next
  case (Cons w ws)
  have "NUL \<notin> set (dropWhile blank line)" using assms set_dropWhileD by metis
  then have "NUL \<notin> set w" "\<forall>v \<in> set ws. NUL \<notin> set v" using raw_args_nul Cons unfolding cmd_raw_def by force+
  note S = second_pass [OF this]
  have "drop 1 (joined (w # ws)) = w @ joined ws" by (simp add: joined_def)
  then show ?thesis using S Cons by (simp add: split_cmd_line_def first_pass)
qed

lemma raw_args_tokens:
  assumes "rest = [] \<or> blank (hd rest)"
  shows "raw_args rest = tokens rest \<or> raw_args rest = tokens rest @ [[]]"
  using assms
proof (induction "length rest" arbitrary: rest rule: less_induct)
  case less
  show ?case
  proof (cases "rest = []")
    case True
    then show ?thesis by (simp add: raw_args.simps [of "[]"] tokens.simps [of "[]"])
  next
    case False
    define d where "d = dropWhile blank rest"
    define r w where "r = fst (take_arg d [])" and "w = snd (take_arg d [])"
    have raw: "raw_args rest = w # raw_args r" using raw_args_step [OF False] by (simp add: d_def r_def w_def)
    have "length r < length rest" using drop_blank_less [OF False] less.prems False take_arg_shorter [of d "[]"]
      by (simp add: d_def r_def)
    moreover have "r = [] \<or> blank (hd r)" using take_arg_stops [of d "[]"] by (simp add: r_def)
    ultimately have IH: "raw_args r = tokens r \<or> raw_args r = tokens r @ [[]]" by (rule less.hyps)
    show ?thesis
    proof (cases "d = []")
      case True
      then show ?thesis using raw tokens_step [of rest]
        by (simp add: d_def [symmetric] r_def w_def raw_args.simps [of "[]"])
    next
      case dne: False
      then have "tokens rest = w # tokens r" using tokens_step [of rest] by (simp add: d_def [symmetric] r_def w_def Let_def)
      then show ?thesis using raw IH by auto
    qed
  qed
qed

lemma cmd_raw_tokens:
  "cmd_raw line = tokens line \<or> cmd_raw line = tokens line @ [[]] \<and> tokens line \<noteq> []"
proof (cases "dropWhile blank line = []")
  case True
  show ?thesis unfolding cmd_raw_def tokens_step [of line] True by (simp add: raw_args.simps [of "[]"])
next
  case False
  define s where "s = dropWhile blank line"
  define r w where "r = fst (take_arg s [])" and "w = snd (take_arg s [])"
  have s: "s \<noteq> []" "dropWhile blank s = s" using False by (simp_all add: s_def)
  have "cmd_raw line = w # raw_args r"
    using raw_args_step [OF s(1)] s(2) by (simp add: cmd_raw_def s_def [symmetric] r_def w_def)
  moreover have "tokens line = w # tokens r" using tokens_step [of line] s(1) by (simp add: s_def [symmetric] r_def w_def Let_def)
  moreover have "raw_args r = tokens r \<or> raw_args r = tokens r @ [[]]"
    using raw_args_tokens take_arg_stops [of s "[]"] by (simp add: r_def)
  ultimately show ?thesis by auto
qed

lemma split_tokens:
  assumes "NUL \<notin> set line" "[] \<notin> set (tokens line)"
  shows "split_cmd_line line = (if tokens line = [] then [[]] else tokens line)"
proof -
  consider "cmd_raw line = tokens line" | "cmd_raw line = tokens line @ [[]]" "tokens line \<noteq> []"
    using cmd_raw_tokens [of line] by blast
  then show ?thesis
  proof cases
    case 1
    have "tokens line \<noteq> [] \<Longrightarrow> last (tokens line) \<noteq> []" using assms(2) by (metis last_in_set)
    then have "drop_last_empty (tokens line) = tokens line" by (cases "tokens line = []") (auto simp: drop_last_empty_def)
    then show ?thesis using split_cmd_line_raw [OF assms(1)] 1 by simp
  next
    case 2
    then show ?thesis using split_cmd_line_raw [OF assms(1)] by (simp add: drop_last_empty_def)
  qed
qed

lemma raw_args_length:
  assumes "rest = [] \<or> blank (hd rest)"
  shows "length (joined (raw_args rest)) \<le> length rest"
  using assms
proof (induction "length rest" arbitrary: rest rule: less_induct)
  case less
  show ?case
  proof (cases "rest = []")
    case False
    define d where "d = dropWhile blank rest"
    define r w where "r = fst (take_arg d [])" and "w = snd (take_arg d [])"
    have raw: "raw_args rest = w # raw_args r" using raw_args_step [OF False] by (simp add: d_def r_def w_def)
    have d: "length d < length rest" using drop_blank_less [OF False] less.prems False by (simp add: d_def)
    have rw: "length r + length w \<le> length d" using take_arg_length [of d "[]"] by (simp add: r_def w_def)
    have "length r < length rest" using d rw by simp
    moreover have "r = [] \<or> blank (hd r)" using take_arg_stops [of d "[]"] by (simp add: r_def)
    ultimately have "length (joined (raw_args r)) \<le> length r" by (rule less.hyps)
    then show ?thesis using raw d rw by (simp add: joined_def)
  qed (simp add: raw_args.simps [of "[]"] joined_def)
qed

lemma buffer_length: "length (drop 1 (joined (cmd_raw line))) \<le> length line"
proof (cases "dropWhile blank line = []")
  case True
  show ?thesis unfolding cmd_raw_def True by (simp add: raw_args.simps [of "[]"] joined_def)
next
  case False
  define s where "s = dropWhile blank line"
  define r w where "r = fst (take_arg s [])" and "w = snd (take_arg s [])"
  have s: "s \<noteq> []" "dropWhile blank s = s" using False by (simp_all add: s_def)
  have c: "cmd_raw line = w # raw_args r"
    using raw_args_step [OF s(1)] s(2) by (simp add: cmd_raw_def s_def [symmetric] r_def w_def)
  have "length (joined (raw_args r)) \<le> length r" using raw_args_length take_arg_stops [of s "[]"] by (simp add: r_def)
  moreover have "length r + length w \<le> length s" using take_arg_length [of s "[]"] by (simp add: r_def w_def)
  moreover have "length s \<le> length line" using length_dropWhile_le [of blank line] by (simp add: s_def)
  ultimately show ?thesis using c by (simp add: joined_def)
qed

lemma take_arg_plain:
  "\<forall>c \<in> set cs. \<not> blank c \<and> c \<noteq> CHR 0x22 \<and> c \<noteq> CHR 0x0A \<Longrightarrow> take_arg cs out = ([], out @ cs)"
  by (induction cs arbitrary: out) (auto simp: put_def)

lemma plain_word:
  assumes "line \<noteq> []" "\<forall>c \<in> set line. \<not> blank c \<and> c \<noteq> CHR 0x22 \<and> c \<noteq> CHR 0x0A"
  shows "cmd_raw line = [line]"
proof -
  have d: "dropWhile blank line = line" using assms by (cases line) auto
  show ?thesis using raw_args_step [OF assms(1)] take_arg_plain [OF assms(2), of "[]"]
    by (simp add: cmd_raw_def d raw_args.simps [of "[]"])
qed

subsection \<open>Lines\<close>

lemma line_scan_comment: "line_scan cs n comment = (n + length (filter (\<lambda>c. \<not> (blank c \<or> c = CHR 0x0A)) cs), comment)"
  by (induction cs n comment rule: line_scan.induct) (auto simp: Let_def blank_def)

lemma rest_args_length: "length (rest_args args) \<le> length args"
  by (induction args rule: rest_args.induct) auto

lemma scan_args_wall:
  "scan_args d args sc = Some sc' \<Longrightarrow> sc_wall_utime sc = - 1 \<or> 1000000 dvd sc_wall_utime sc \<Longrightarrow>
     sc_wall_utime sc' = - 1 \<or> 1000000 dvd sc_wall_utime sc'"
proof (induction d args sc rule: scan_args.induct)
  case (2 d a rest sc)
  then obtain r sc1 where r: "scan_step d a rest sc = Some (r, sc1)" "scan_args d r sc1 = Some sc'"
    by (auto split: option.splits)
  have "sc_wall_utime sc1 = - 1 \<or> 1000000 dvd sc_wall_utime sc1"
    using r(1) 2(3) by (auto simp: scan_step_def split: if_splits)
  then show ?case using 2(1) r by simp
qed simp

lemma tokens_simps:
  "tokens [] = []" "blank c \<Longrightarrow> tokens (c # cs) = tokens cs"
  "\<not> blank c \<Longrightarrow> tokens (c # cs) = snd (take_arg (c # cs) []) # tokens (fst (take_arg (c # cs) []))"
  by (simp_all add: tokens_step [of "[]"] tokens_step [of "c # cs"] tokens_step [of cs])

subsection \<open>Properties\<close>

text \<open>C29: A line without zero characters is split into the pieces between its blanks,
  in which quotes keep blanks together and line ends are left out; a line of
  blanks gives one empty argument. The two passes over a shared buffer agree
  with this direct tokenizer as long as no argument is empty.\<close>

theorem split_cmd_line_tokens:
  assumes "NUL \<notin> set line" "[] \<notin> set (tokens line)"
  shows "split_cmd_line line = (if tokens line = [] then [[]] else tokens line)"
  by (rule split_tokens [OF assms])

definition sample_line :: string where
  "sample_line = ''-J jobid_7  -n 2 ''"

lemma sample_line_tokens: "tokens sample_line = [''-J'', ''jobid_7'', ''-n'', ''2'']"
  by code_simp

theorem split_cmd_line_tokens_witness:
  "split_cmd_line sample_line = [''-J'', ''jobid_7'', ''-n'', ''2'']"
proof -
  have "NUL \<notin> set sample_line" by (simp add: sample_line_def NUL_def)
  from split_cmd_line_tokens [OF this] sample_line_tokens show ?thesis by simp
qed

text \<open>The first pass writes at most as many characters as the line has, and the
  second pass fits into the array of arguments. The buffer has exactly the
  length of the line, so for a line that is one plain word the terminating
  zero is written one cell past the end of the buffer.\<close>

lemma split_cmd_line_bounds:
  fixes line :: string
  defines "buf \<equiv> fst (split_loop (dropWhile blank line) True [] 0)"
    and "argc \<equiv> snd (split_loop (dropWhile blank line) True [] 0)"
  shows "length buf \<le> length line \<and> (NUL \<notin> set line \<longrightarrow> length (split_cmd_line line) \<le> argc + 4)
    \<and> (line \<noteq> [] \<and> (\<forall>c \<in> set line. \<not> blank c \<and> c \<noteq> CHR 0x22 \<and> c \<noteq> CHR 0x0A) \<longrightarrow> length buf = length line)"
proof (intro conjI impI)
  have buf: "buf = drop 1 (joined (cmd_raw line))" and argc: "argc = length (cmd_raw line)"
    by (simp_all add: buf_def argc_def first_pass)
  show "length buf \<le> length line" using buffer_length [of line] buf by simp
  show "length (split_cmd_line line) \<le> argc + 4" if "NUL \<notin> set line"
    unfolding split_cmd_line_raw [OF that] argc drop_last_empty_def by auto
  show "length buf = length line" if "line \<noteq> [] \<and> (\<forall>c \<in> set line. \<not> blank c \<and> c \<noteq> CHR 0x22 \<and> c \<noteq> CHR 0x0A)"
    using plain_word [of line] that buf by (simp add: joined_def)
qed

text \<open>A line of the events file with a start time and the event type for a
  submission queues one submission, at the start of the simulation plus the
  configured delays plus that time, with the options after the bar as its
  payload.\<close>

lemma event_line_queues_submission:
  fixes conf :: trace_conf
  assumes "pending s es" "command \<noteq> []" "details \<noteq> []" "CHR ''|'' \<notin> set command" "CHR ''|'' \<notin> set details"
    and "split_cmd_line command = [''-dt'', t, ''-e'', ''submit_batch_job'']" "t \<noteq> ''-e''"
    and "\<not> d_negative d (d_atof d t)" "d_nonnegative d (d_atof d t)"
    and "sim_submit_batch_job_get_payload d details = Some pl"
  defines "w \<equiv> t_start_time conf + t_before_first_job conf + d_usec d (d_atof d t) + t_first_job_delay conf"
  assumes "0 \<le> w" "w < INT64_MAX"
  shows "\<exists>s'. sim_insert_event_by_cmdline d conf (command @ ''|'' @ details) s = Some (s', 0)
    \<and> pending s' (insert_after e_when (new_event w SIM_SUBMIT_BATCH_JOB (Submission pl)) es)"
proof -
  let ?bar = "CHR ''|''"
  have d1: "dropWhile (\<lambda>c. c = ?bar) (command @ ''|'' @ details) = command @ ''|'' @ details"
    using assms(2,4) by (cases command) auto
  have d2: "dropWhile (\<lambda>c. c = ?bar) details = details" using assms(3,5) by (cases details) auto
  have dw: "dropWhile (\<lambda>c. c \<noteq> ?bar) details = []" using assms(5) by (auto intro!: dropWhile_eq_Nil_conv [THEN iffD2])
  have c: "takeWhile (\<lambda>c. c \<noteq> ?bar) (command @ ''|'' @ details) = command"
    "dropWhile (\<lambda>c. c \<noteq> ?bar) (command @ ''|'' @ details) = ''|'' @ details" "takeWhile (\<lambda>c. c \<noteq> ?bar) details = details"
    using assms(4,5) by (auto simp: takeWhile_append dropWhile_append takeWhile_eq_all_conv)
  have t1: "strtok_bar (command @ ''|'' @ details) = Some (command, details)" using d1 c(1,2) assms(2) by (simp add: strtok_bar_def)
  have t2: "strtok_bar details = Some (details, [])" unfolding strtok_bar_def Let_def d2 dw c(3) using assms(3) by simp
  have e: "event_args d [''-dt'', t, ''-e'', ''submit_batch_job''] (None, False) = (Some (d_atof d t), True)"
    using assms(7) by simp
  obtain s' where s': "sim_insert_event s w SIM_SUBMIT_BATCH_JOB (Submission pl) = Some s'"
    "pending s' (insert_after e_when (new_event w SIM_SUBMIT_BATCH_JOB (Submission pl)) es)"
    using insert_refines_queue [OF assms(1) assms(12,13)] by blast
  have "sim_insert_event_by_cmdline d conf (command @ ''|'' @ details) s = Some (s', 0)"
    unfolding sim_insert_event_by_cmdline_def t1 using t2 assms(6,8-10) e s'(1) by (simp add: w_def)
  then show ?thesis using s'(2) by blast
qed

text \<open>Numbers that are whole seconds, and a line of the form above.\<close>

definition sample_dbl :: "int dbl" where
  "sample_dbl = \<lparr>d_atof = atoi, d_int64 = \<lambda>x. x, d_usec = \<lambda>x. x * 1000000, d_negative = \<lambda>x. x < 0, d_nonnegative = \<lambda>x. 0 \<le> x\<rparr>"

definition sample_command :: string where
  "sample_command = ''-dt 5 -e submit_batch_job ''"

definition sample_details :: string where
  "sample_details = '' -J jobid_7 -sim-walltime 60''"

definition sample_payload :: sim_event_submit_batch_job where
  "sample_payload = \<lparr>s_wall_utime = 60000000, s_job_id = 0, s_job_sim_id = 7,
     s_argv = [''sbatch'', ''--chdir=/tmp'', ''-J'', ''jobid_7'', ''-sleep'', ''60'']\<rparr>"

lemma sample_numbers: "atoi ''5'' = 5" "atoi ''60'' = 60"
  by (simp_all add: atoi_def strtol_def is_space_def is_digit_def digits_value_def digit_of_def to_int32_def
      signed_take_bit_def)

lemma sample_command_split: "split_cmd_line sample_command = [''-dt'', ''5'', ''-e'', ''submit_batch_job'']"
proof -
  have "tokens sample_command = [''-dt'', ''5'', ''-e'', ''submit_batch_job'']"
    by code_simp
  then show ?thesis using split_tokens [of sample_command] by (simp add: sample_command_def NUL_def)
qed

lemma sample_details_payload: "sim_submit_batch_job_get_payload sample_dbl sample_details = Some sample_payload"
proof -
  have "tokens sample_details = [''-J'', ''jobid_7'', ''-sim-walltime'', ''60'']"
    by code_simp
  then have "split_cmd_line sample_details = [''-J'', ''jobid_7'', ''-sim-walltime'', ''60'']"
    using split_tokens [of sample_details] by (simp add: sample_details_def NUL_def)
  then show ?thesis
    by (simp add: sim_submit_batch_job_get_payload_def scan_step_def starts_with_def sample_dbl_def sample_numbers sample_sim_id
        sample_payload_def)
qed

text \<open>A submission's run time is unlimited or a whole number of seconds, because
  the fraction is cut off before the conversion to microseconds; it has no job
  id yet, and its arguments fit into the array of ten more entries than the
  line has arguments.\<close>

lemma payload_bounds:
  assumes "sim_submit_batch_job_get_payload d details = Some pl"
  shows "(s_wall_utime pl = INT64_MAX \<or> 0 \<le> s_wall_utime pl \<and> 1000000 dvd s_wall_utime pl) \<and> s_job_id pl = 0
    \<and> length (s_argv pl) \<le> length (split_cmd_line details) + 10"
proof -
  let ?sc0 = "\<lparr>sc_job_name = None, sc_username = None, sc_sleep_time_str = None, sc_workdir_set = False,
                 sc_sleep_set = False, sc_wall_utime = - 1\<rparr> :: scan"
  obtain sc where sc: "scan_args d (split_cmd_line details) ?sc0 = Some sc"
    and pl: "s_wall_utime pl = (if sc_wall_utime sc < 0 then INT64_MAX else sc_wall_utime sc)" "s_job_id pl = 0"
      "length (s_argv pl) \<le> length (rest_args (split_cmd_line details)) + 4"
    using assms by (auto simp: sim_submit_batch_job_get_payload_def Let_def split: option.splits if_splits)
  have "sc_wall_utime sc = - 1 \<or> 1000000 dvd sc_wall_utime sc" using scan_args_wall [OF sc] by simp
  then show ?thesis using pl rest_args_length [of "split_cmd_line details"] by auto
qed

text \<open>Lines that start with a number sign are not skipped: the loop counts the
  sign itself before it asks whether anything came before it, so every line
  with a visible character is executed.\<close>

lemma comments_are_executed:
  "read_lines d conf (line # ls) s =
     (if \<forall>c \<in> set line. blank c \<or> c = CHR 0x0A then read_lines d conf ls s
      else case sim_insert_event_by_cmdline d conf line s of None \<Rightarrow> None | Some (s', rc) \<Rightarrow> read_lines d conf ls s')"
  by (auto simp: line_scan_comment filter_empty_conv)

end
