(* ===== verification/Port_Mgr.thy ===== *)
theory Port_Mgr
  imports Bitmap C_Strings "HOL-Library.Monad_Syntax"
begin

text \<open>
  Port reservations of job steps (\<^verbatim>\<open>src/slurmctld/port_mgr.c\<close>): a table with one
  bitmap of nodes per port, reserved round robin and released step by step.
  \<open>None\<close> is a dereference of a null pointer or a write past an array.
\<close>

subsection \<open>State\<close>

record step_record =
  st_state :: nat
  st_node_bitmap :: bitstr
  st_resv_port_cnt :: nat
  st_resv_ports :: "string option"
  st_resv_port_array :: "int list option"

record ports =
  port_resv_table :: "bitstr list"
  port_resv_cnt :: nat
  port_resv_min :: int
  port_resv_max :: int
  last_port_alloc :: nat

text \<open>
  The host list functions that translate between port lists and their ranged
  text: the names in a bracketed range, or \<^verbatim>\<open>NULL\<close>, and the sorted ranged string.
\<close>

record hostlist =
  hostlist_expand :: "string \<Rightarrow> string list option"
  hostlist_ranged :: "string list \<Rightarrow> string"

datatype port_rc = SLURM_SUCCESS | SLURM_ERROR | ESLURM_PORTS_INVALID | ESLURM_PORTS_BUSY

definition JOB_RUNNING :: nat where
  "JOB_RUNNING = 1"

subsection \<open>Operations\<close>

text \<open>The updates of the table for the ports of an array that are in the configured range.\<close>

definition in_range :: "ports \<Rightarrow> int \<Rightarrow> bool" where
  "in_range ps p \<longleftrightarrow> \<not> (p < port_resv_min ps \<or> port_resv_max ps < p)"

definition port_index :: "ports \<Rightarrow> int \<Rightarrow> nat" where
  "port_index ps p = nat (p - port_resv_min ps)"

definition update_ports :: "(bitstr \<Rightarrow> bitstr \<Rightarrow> bitstr) \<Rightarrow> int list \<Rightarrow> bitstr \<Rightarrow> ports \<Rightarrow> ports" where
  "update_ports f arr nodes ps =
     ps\<lparr>port_resv_table := foldl (\<lambda>t j. t[j := f (t ! j) nodes]) (port_resv_table ps)
          (map (port_index ps) (filter (in_range ps) arr))\<rparr>"

definition rebuild_port_array :: "hostlist \<Rightarrow> step_record \<Rightarrow> step_record option" where
  "rebuild_port_array h step = do {
     text \<leftarrow> st_resv_ports step;
     case hostlist_expand h (''['' @ text @ '']'') of
       None \<Rightarrow> Some (step\<lparr>st_resv_ports := None\<rparr>)
     | Some names \<Rightarrow>
         let arr = filter (\<lambda>i. 0 < i) (map atoi names)
         in if st_resv_port_cnt step < length arr then None
            else Some (step\<lparr>st_resv_port_array := Some arr, st_resv_port_cnt := length arr,
                            st_resv_ports := (if arr = [] then None else Some text)\<rparr>) }"

definition make_step_resv :: "hostlist \<Rightarrow> ports \<Rightarrow> step_record \<Rightarrow> (ports \<times> step_record) option" where
  "make_step_resv h ps step =
     (if st_resv_port_cnt step = 0 \<or> st_resv_ports step = None \<or> st_resv_ports step = Some [] then Some (ps, step)
      else do {
        step \<leftarrow> (if st_resv_port_array step = None then rebuild_port_array h step else Some step);
        arr \<leftarrow> st_resv_port_array step;
        Some (update_ports bit_or (take (st_resv_port_cnt step) arr) (st_node_bitmap step) ps, step) })"

fun make_all_resv :: "hostlist \<Rightarrow> ports \<Rightarrow> step_record list \<Rightarrow> (ports \<times> step_record list) option" where
  "make_all_resv h ps [] = Some (ps, [])"
| "make_all_resv h ps (step # steps) =
     (if st_state step < JOB_RUNNING
      then map_option (\<lambda>(ps, steps). (ps, step # steps)) (make_all_resv h ps steps)
      else Option.bind (make_step_resv h ps step) (\<lambda>(ps, step).
             map_option (\<lambda>(ps, steps). (ps, step # steps)) (make_all_resv h ps steps)))"

text \<open>\<^verbatim>\<open>strstr\<close>: the suffix that starts with the first occurrence of the pattern.\<close>

fun strstr :: "string \<Rightarrow> string \<Rightarrow> string option" where
  "strstr [] pat = (if pat = [] then Some [] else None)"
| "strstr (c # cs) pat = (if take (length pat) (c # cs) = pat then Some (c # cs) else strstr cs pat)"

definition reserve_port_config ::
  "hostlist \<Rightarrow> nat \<Rightarrow> string option \<Rightarrow> ports \<Rightarrow> step_record list \<Rightarrow> (ports \<times> step_record list \<times> port_rc) option" where
  "reserve_port_config h node_cnt mpi_params ps steps =
     (case Option.bind mpi_params (\<lambda>m. strstr m ''ports='') of
        None \<Rightarrow>
          Some (if port_resv_table ps \<noteq> []
                then ps\<lparr>port_resv_table := [], port_resv_cnt := 0, port_resv_min := 0, port_resv_max := 0\<rparr> else ps,
                steps, SLURM_SUCCESS)
      | Some tmp_p \<Rightarrow>
          let (v, tmp_e) = strtol (drop 6 tmp_p);
              p_min = to_int32 v
          in if p_min < 1 \<or> tmp_e = [] \<or> hd tmp_e \<noteq> CHR ''-'' then Some (ps, steps, SLURM_ERROR)
             else
               let p_max = to_int32 (fst (strtol (tl tmp_e)))
               in if p_max < p_min then Some (ps, steps, SLURM_ERROR)
                  else if p_min = port_resv_min ps \<and> p_max = port_resv_max ps then Some (ps, steps, SLURM_SUCCESS)
                  else
                    let cnt = nat (p_max - p_min + 1)
                    in map_option (\<lambda>(ps, steps). (ps, steps, SLURM_SUCCESS))
                         (make_all_resv h
                           (ps\<lparr>port_resv_min := p_min, port_resv_max := p_max, port_resv_cnt := cnt,
                               port_resv_table := replicate cnt (bit_alloc node_cnt)\<rparr>) steps))"

text \<open>
  The search for free ports, with the static position it goes on from: at most
  \<open>n\<close> ports are looked at, until \<open>want\<close> are found.
\<close>

fun find_ports :: "bitstr list \<Rightarrow> nat \<Rightarrow> bitstr \<Rightarrow> nat \<Rightarrow> nat \<Rightarrow> nat \<Rightarrow> nat list \<Rightarrow> nat \<times> nat list" where
  "find_ports table cnt nodes want 0 pos port_array = (pos, port_array)"
| "find_ports table cnt nodes want (Suc n) pos port_array =
     (let pos = (if cnt \<le> pos + 1 then 0 else pos + 1)
      in if bit_overlap_any nodes (table ! pos) \<noteq> 0 then find_ports table cnt nodes want n pos port_array
         else if want \<le> length port_array + 1 then (pos, port_array @ [pos])
         else find_ports table cnt nodes want n pos (port_array @ [pos]))"

definition resv_port_alloc :: "hostlist \<Rightarrow> ports \<Rightarrow> step_record \<Rightarrow> ports \<times> step_record \<times> port_rc" where
  "resv_port_alloc h ps step =
     (if port_resv_cnt ps < st_resv_port_cnt step then (ps, step, ESLURM_PORTS_INVALID)
      else
        let (pos, port_array) = find_ports (port_resv_table ps) (port_resv_cnt ps) (st_node_bitmap step)
                                   (st_resv_port_cnt step) (port_resv_cnt ps) (last_port_alloc ps) [];
            ps = ps\<lparr>last_port_alloc := pos\<rparr>
        in if length port_array < st_resv_port_cnt step then (ps, step, ESLURM_PORTS_BUSY)
           else
             let table = foldl (\<lambda>t j. t[j := bit_or (t ! j) (st_node_bitmap step)]) (port_resv_table ps) port_array;
                 arr = map (\<lambda>j. int j + port_resv_min ps) port_array
             in (ps\<lparr>port_resv_table := table\<rparr>,
                 step\<lparr>st_resv_ports := Some (hostlist_ranged h (map fmt_d arr)), st_resv_port_array := Some arr\<rparr>,
                 SLURM_SUCCESS))"

definition resv_port_free :: "ports \<Rightarrow> step_record \<Rightarrow> ports \<times> step_record" where
  "resv_port_free ps step =
     (case st_resv_port_array step of
        None \<Rightarrow> (ps, step)
      | Some arr \<Rightarrow>
          (update_ports bit_and_not (take (st_resv_port_cnt step) arr) (st_node_bitmap step) ps,
           step\<lparr>st_resv_port_array := None\<rparr>))"

subsection \<open>Tables of bitmaps\<close>

context bitmap
begin

definition table_ok :: "nat \<Rightarrow> nat \<Rightarrow> 'b list \<Rightarrow> bool" where
  "table_ok n cnt t \<longleftrightarrow> length t = cnt \<and> (\<forall>b \<in> set t. wf b \<and> size_of b = n)"

lemma table_ok_update:
  "table_ok n cnt t \<Longrightarrow> wf b \<Longrightarrow> size_of b = n \<Longrightarrow> table_ok n cnt (t[j := b])"
  by (auto simp: table_ok_def dest: set_update_subset_insert [THEN subsetD])

lemma table_nth: "table_ok n cnt t \<Longrightarrow> j < cnt \<Longrightarrow> wf (t ! j) \<and> size_of (t ! j) = n"
  by (simp add: table_ok_def)

text \<open>The same set of positions added to, or removed from, several bitmaps of a table.\<close>

lemma fold_union:
  assumes "wf b" "size_of b = n"
  shows "table_ok n cnt t \<Longrightarrow> \<forall>j \<in> set js. j < cnt \<Longrightarrow>
    table_ok n cnt (foldl (\<lambda>t j. t[j := union (t ! j) b]) t js)
    \<and> (\<forall>k < cnt. elems (foldl (\<lambda>t j. t[j := union (t ! j) b]) t js ! k) = elems (t ! k) \<union> (if k \<in> set js then elems b else {}))"
proof (induction js arbitrary: t)
  case (Cons j js)
  let ?t = "t[j := union (t ! j) b]"
  have j: "wf (t ! j)" "size_of (t ! j) = n" "j < cnt" "length t = cnt"
    using Cons.prems table_nth [of n cnt t j] by (auto simp: table_ok_def)
  have t: "table_ok n cnt ?t" using Cons.prems(1) j assms by (intro table_ok_update) (simp_all add: union_wf union_size)
  have "elems (?t ! k) = elems (t ! k) \<union> (if k = j then elems b else {})" if "k < cnt" for k
    using that j assms by (simp add: nth_list_update union_elems)
  then show ?case using Cons.IH [OF t] Cons.prems(2) by auto
qed simp

lemma fold_diff:
  assumes "wf b" "size_of b = n"
  shows "table_ok n cnt t \<Longrightarrow> \<forall>j \<in> set js. j < cnt \<Longrightarrow>
    table_ok n cnt (foldl (\<lambda>t j. t[j := diff (t ! j) b]) t js)
    \<and> (\<forall>k < cnt. elems (foldl (\<lambda>t j. t[j := diff (t ! j) b]) t js ! k) = elems (t ! k) - (if k \<in> set js then elems b else {}))"
proof (induction js arbitrary: t)
  case (Cons j js)
  let ?t = "t[j := diff (t ! j) b]"
  have j: "wf (t ! j)" "size_of (t ! j) = n" "j < cnt" "length t = cnt"
    using Cons.prems table_nth [of n cnt t j] by (auto simp: table_ok_def)
  have t: "table_ok n cnt ?t" using Cons.prems(1) j assms by (intro table_ok_update) (simp_all add: diff_wf diff_size)
  have "elems (?t ! k) = elems (t ! k) - (if k = j then elems b else {})" if "k < cnt" for k
    using that j assms by (simp add: nth_list_update diff_elems)
  then show ?case using Cons.IH [OF t] Cons.prems(2) by auto
qed simp

end

subsection \<open>The reservations of the live steps\<close>

text \<open>A step that holds reservations: its ports, and its nodes.\<close>

definition held_ports :: "step_record \<Rightarrow> int set" where
  "held_ports st = (case st_resv_port_array st of None \<Rightarrow> {} | Some arr \<Rightarrow> set arr)"

definition held_nodes :: "step_record \<Rightarrow> nat set" where
  "held_nodes st = bset (st_node_bitmap st)"

definition compatible :: "step_record \<Rightarrow> step_record \<Rightarrow> bool" where
  "compatible a b \<longleftrightarrow> held_ports a \<inter> held_ports b = {} \<or> held_nodes a \<inter> held_nodes b = {}"

definition step_ok :: "nat \<Rightarrow> ports \<Rightarrow> step_record \<Rightarrow> bool" where
  "step_ok n ps st \<longleftrightarrow> wf_bitstr (st_node_bitmap st) \<and> bs_bits (st_node_bitmap st) = n
     \<and> (case st_resv_port_array st of None \<Rightarrow> False | Some arr \<Rightarrow> length arr = st_resv_port_cnt st \<and> (\<forall>p \<in> set arr. in_range ps p))"

definition ports_ok :: "nat \<Rightarrow> ports \<Rightarrow> bool" where
  "ports_ok n ps \<longleftrightarrow> bs.table_ok n (port_resv_cnt ps) (port_resv_table ps)
     \<and> int (port_resv_cnt ps) = (if port_resv_cnt ps = 0 then 0 else port_resv_max ps - port_resv_min ps + 1)"

text \<open>
  The table says exactly which ports the live steps hold on which nodes, and no
  two of them hold the same port on the same node.
\<close>

definition reserved_by :: "nat \<Rightarrow> ports \<Rightarrow> step_record list \<Rightarrow> bool" where
  "reserved_by n ps live \<longleftrightarrow> ports_ok n ps \<and> 0 < port_resv_cnt ps \<and> (\<forall>st \<in> set live. step_ok n ps st)
     \<and> (\<forall>j < port_resv_cnt ps. bset (port_resv_table ps ! j) =
          (\<Union>st \<in> {st \<in> set live. int j + port_resv_min ps \<in> held_ports st}. held_nodes st))
     \<and> sorted_wrt compatible live"

lemma in_range_index:
  assumes "ports_ok n ps" "0 < port_resv_cnt ps" "in_range ps p"
  shows "port_index ps p < port_resv_cnt ps" "int (port_index ps p) + port_resv_min ps = p"
  using assms by (auto simp: ports_ok_def in_range_def port_index_def)

subsection \<open>The search for free ports\<close>

definition free_port :: "bitstr list \<Rightarrow> bitstr \<Rightarrow> nat \<Rightarrow> bool" where
  "free_port table nodes j \<longleftrightarrow> bit_overlap_any nodes (table ! j) = 0"

definition next_pos :: "nat \<Rightarrow> nat \<Rightarrow> nat" where
  "next_pos cnt pos = (if cnt \<le> pos + 1 then 0 else pos + 1)"

fun positions :: "nat \<Rightarrow> nat \<Rightarrow> nat \<Rightarrow> nat list" where
  "positions cnt pos 0 = []"
| "positions cnt pos (Suc n) = next_pos cnt pos # positions cnt (next_pos cnt pos) n"

lemma find_ports_step:
  "find_ports table cnt nodes want (Suc n) pos arr =
     (let p = next_pos cnt pos
      in if \<not> free_port table nodes p then find_ports table cnt nodes want n p arr
         else if want \<le> length arr + 1 then (p, arr @ [p])
         else find_ports table cnt nodes want n p (arr @ [p]))"
  by (simp add: free_port_def next_pos_def Let_def)

lemma find_ports_take:
  "length arr < want \<Longrightarrow>
     snd (find_ports table cnt nodes want n pos arr) = arr @ take (want - length arr) (filter (free_port table nodes) (positions cnt pos n))"
proof (induction n arbitrary: pos arr)
  case (Suc n)
  obtain m where m: "want - length arr = Suc m" "want - length (arr @ [next_pos cnt pos]) = m"
    using Suc.prems by (cases "want - length arr") auto
  show ?case using Suc m by (auto simp: find_ports_step Let_def simp del: find_ports.simps(2))
qed simp

lemma positions_mod: "pos < cnt \<Longrightarrow> positions cnt pos n = map (\<lambda>i. (pos + 1 + i) mod cnt) [0..<n]"
proof (induction n arbitrary: pos)
  case (Suc n)
  have nx: "next_pos cnt pos = (pos + 1) mod cnt" "next_pos cnt pos < cnt" 
    using Suc.prems by (auto simp: next_pos_def mod_less le_Suc_eq)
  have "(next_pos cnt pos + 1 + i) mod cnt = (pos + 1 + Suc i) mod cnt" for i
    unfolding nx(1) by (metis add.assoc add_Suc_shift mod_add_left_eq plus_1_eq_Suc add.commute)
  then have "positions cnt pos (Suc n) = (pos + 1) mod cnt # map (\<lambda>i. (pos + 1 + Suc i) mod cnt) [0..<n]"
    using Suc.IH [OF nx(2)] nx(1) by simp
  also have "\<dots> = map (\<lambda>i. (pos + 1 + i) mod cnt) (0 # map Suc [0..<n])" by (simp add: o_def)
  also have "0 # map Suc [0..<n] = [0..<Suc n]" by (simp add: map_Suc_upt upt_conv_Cons del: upt_Suc)
  finally show ?case .
qed simp

text \<open>A full round looks at every port once, whatever the position it starts from.\<close>

lemma positions_round:
  assumes "0 < cnt"
  shows "set (positions cnt pos cnt) = {..<cnt}" "distinct (positions cnt pos cnt)"
proof -
  let ?q = "min pos (cnt - 1)"
  have "next_pos cnt pos = next_pos cnt ?q" using assms by (auto simp: next_pos_def min_def)
  then have "positions cnt pos cnt = positions cnt ?q cnt" using assms by (cases cnt) simp_all
  also have "\<dots> = map (\<lambda>i. (?q + 1 + i) mod cnt) [0..<cnt]" using assms by (intro positions_mod) auto
  also have "\<dots> = rotate (?q + 1) [0..<cnt]"
    using assms by (intro nth_equalityI) (simp_all add: nth_rotate del: rotate_Suc)
  finally have r: "positions cnt pos cnt = rotate (?q + 1) [0..<cnt]" .
  show "set (positions cnt pos cnt) = {..<cnt}" "distinct (positions cnt pos cnt)"
    unfolding r by (auto simp del: rotate_Suc)
qed

definition free_ports :: "ports \<Rightarrow> bitstr \<Rightarrow> nat set" where
  "free_ports ps nodes = {j. j < port_resv_cnt ps \<and> bset nodes \<inter> bset (port_resv_table ps ! j) = {}}"

lemma found_ports:
  fixes pos :: nat
  assumes "ports_ok n ps" "0 < port_resv_cnt ps" "wf_bitstr nodes" "bs_bits nodes = n" "0 < want"
  defines "arr \<equiv> snd (find_ports (port_resv_table ps) (port_resv_cnt ps) nodes want (port_resv_cnt ps) pos [])"
  shows "set arr \<subseteq> free_ports ps nodes" "distinct arr" "length arr = min want (card (free_ports ps nodes))"
proof -
  let ?c = "port_resv_cnt ps" and ?t = "port_resv_table ps"
  let ?f = "filter (free_port ?t nodes) (positions ?c pos ?c)"
  have free: "free_port ?t nodes j \<longleftrightarrow> bset nodes \<inter> bset (?t ! j) = {}" if "j < ?c" for j
    using bs.overlap_zero [of nodes "?t ! j"] bs.table_nth [of n ?c ?t j] that assms(1,3,4)
    by (simp add: free_port_def ports_ok_def)
  note R = positions_round [OF assms(2), of pos]
  have "set ?f = free_ports ps nodes" using R(1) free by (auto simp: free_ports_def)
  moreover have "distinct ?f" using R(2) by simp
  ultimately have f: "set ?f = free_ports ps nodes" "distinct ?f" "length ?f = card (free_ports ps nodes)"
    using distinct_card by metis+
  have "arr = take want ?f" unfolding arr_def using find_ports_take [of "[]" want ?t ?c nodes ?c pos] assms(5) by simp
  then show "set arr \<subseteq> free_ports ps nodes" "distinct arr" "length arr = min want (card (free_ports ps nodes))"
    using f set_take_subset [of want ?f] by auto
qed

subsection \<open>Reserving and releasing\<close>

lemma reserved_byD:
  assumes "reserved_by n ps live"
  shows "ports_ok n ps" "0 < port_resv_cnt ps" "\<forall>st \<in> set live. step_ok n ps st"
    "\<forall>j < port_resv_cnt ps. bset (port_resv_table ps ! j) =
          (\<Union>st \<in> {st \<in> set live. int j + port_resv_min ps \<in> held_ports st}. held_nodes st)"
    "sorted_wrt compatible live" "bs.table_ok n (port_resv_cnt ps) (port_resv_table ps)"
  using assms by (auto simp: reserved_by_def ports_ok_def)

lemma in_range_shift: "ports_ok n ps \<Longrightarrow> j < port_resv_cnt ps \<Longrightarrow> in_range ps (int j + port_resv_min ps)"
  by (auto simp: ports_ok_def in_range_def split: if_splits)

lemma alloc_reserves:
  assumes I: "reserved_by n ps live" and st: "wf_bitstr (st_node_bitmap st)" "bs_bits (st_node_bitmap st) = n"
    and js: "distinct js" "set js \<subseteq> free_ports ps (st_node_bitmap st)" "length js = st_resv_port_cnt st"
    and ps': "ps' = ps\<lparr>last_port_alloc := pos, port_resv_table :=
        foldl (\<lambda>t j. t[j := bit_or (t ! j) (st_node_bitmap st)]) (port_resv_table ps) js\<rparr>"
    and st': "st' = st\<lparr>st_resv_ports := txt, st_resv_port_array := Some (map (\<lambda>j. int j + port_resv_min ps) js)\<rparr>"
  shows "reserved_by n ps' (st' # live)" "card (held_ports st') = st_resv_port_cnt st"
proof -
  note D = reserved_byD [OF I]
  have lt: "\<forall>j \<in> set js. j < port_resv_cnt ps" using js(2) by (auto simp: free_ports_def)
  note U = bs.fold_union [OF st D(6) lt]
  have hp: "held_ports st' = (\<lambda>j. int j + port_resv_min ps) ` set js" by (simp add: st' held_ports_def)
  have "inj_on (\<lambda>j. int j + port_resv_min ps) (set js)" by (simp add: inj_on_def)
  then show "card (held_ports st') = st_resv_port_cnt st" using js(1,3) by (simp add: hp card_image distinct_card)
  have hn: "held_nodes st' = bset (st_node_bitmap st)" by (simp add: st' held_nodes_def)
  have sok: "step_ok n ps' x" if "x = st' \<or> x \<in> set live" for x
    using that D(3) st js(3) lt in_range_shift [OF D(1)]
    by (auto simp: step_ok_def st' ps' in_range_def split: option.splits)
  have comp: "compatible st' x" if "x \<in> set live" for x
  proof (rule ccontr)
    assume "\<not> compatible st' x"
    then obtain j k where j: "j \<in> set js" "int j + port_resv_min ps \<in> held_ports x" "k \<in> bset (st_node_bitmap st)" "k \<in> held_nodes x"
      unfolding compatible_def hp hn by auto
    then have "k \<in> bset (port_resv_table ps ! j)" using D(4) lt that by blast
    then show False using j(1,3) js(2) by (auto simp: free_ports_def)
  qed
  have tab: "bset (port_resv_table ps' ! k) = (\<Union>x \<in> {x \<in> set (st' # live). int k + port_resv_min ps' \<in> held_ports x}. held_nodes x)"
    if "k < port_resv_cnt ps'" for k
  proof -
    have k: "k < port_resv_cnt ps" using that by (simp add: ps')
    have "int k + port_resv_min ps \<in> held_ports st' \<longleftrightarrow> k \<in> set js" unfolding hp by auto
    then have "{x \<in> set (st' # live). int k + port_resv_min ps \<in> held_ports x} =
        (if k \<in> set js then {st'} else {}) \<union> {x \<in> set live. int k + port_resv_min ps \<in> held_ports x}" by auto
    then show ?thesis using U D(4) k hn by (auto simp: ps')
  qed
  show "reserved_by n ps' (st' # live)" unfolding reserved_by_def
  proof (intro conjI)
    show "ports_ok n ps'" using D(1) U by (simp add: ports_ok_def ps')
    show "0 < port_resv_cnt ps'" using D(2) by (simp add: ps')
    show "\<forall>x \<in> set (st' # live). step_ok n ps' x" using sok by simp
    show "sorted_wrt compatible (st' # live)" using D(5) comp by simp
  qed (use tab in blast)
qed

lemma compatible_sym: "compatible a b \<Longrightarrow> compatible b a"
  by (auto simp: compatible_def)

lemma free_releases:
  assumes I: "reserved_by n ps (as @ st # bs)"
  shows "reserved_by n (fst (resv_port_free ps st)) (as @ bs)"
proof -
  note D = reserved_byD [OF I]
  let ?nodes = "st_node_bitmap st"
  obtain arr where arr: "st_resv_port_array st = Some arr" "length arr = st_resv_port_cnt st" "\<forall>p \<in> set arr. in_range ps p"
    "wf_bitstr ?nodes" "bs_bits ?nodes = n" using D(3) by (auto simp: step_ok_def split: option.splits)
  define js where "js = map (port_index ps) arr"
  let ?t = "foldl (\<lambda>t j. t[j := bit_and_not (t ! j) ?nodes]) (port_resv_table ps) js"
  let ?ps = "ps\<lparr>port_resv_table := ?t\<rparr>"
  have run: "fst (resv_port_free ps st) = ?ps"
    using arr(1-3) by (simp add: resv_port_free_def update_ports_def js_def filter_True)
  have lt: "\<forall>j \<in> set js. j < port_resv_cnt ps" using in_range_index(1) [OF D(1,2)] arr(3) by (auto simp: js_def)
  note U = bs.fold_diff [OF arr(4,5) D(6) lt]
  have others: "compatible st x" if "x \<in> set (as @ bs)" for x
    using that D(5) compatible_sym by (auto simp: sorted_wrt_append)
  have mem: "k \<in> set js \<longleftrightarrow> int k + port_resv_min ps \<in> held_ports st" for k
  proof -
    have "p \<in> set arr \<Longrightarrow> int (port_index ps p) + port_resv_min ps = p" for p
      using in_range_index(2) [OF D(1,2)] arr(3) by blast
    moreover have "port_index ps (int k + port_resv_min ps) = k" by (simp add: port_index_def)
    ultimately show ?thesis using arr(1) by (force simp: js_def held_ports_def)
  qed
  have tab: "bset (?t ! k) = (\<Union>x \<in> {x \<in> set (as @ bs). int k + port_resv_min ps \<in> held_ports x}. held_nodes x)"
    if k: "k < port_resv_cnt ps" for k
  proof (cases "k \<in> set js")
    case True
    have held: "int k + port_resv_min ps \<in> held_ports st" using True mem by blast
    let ?R = "\<Union>x \<in> {x \<in> set (as @ bs). int k + port_resv_min ps \<in> held_ports x}. held_nodes x"
    have "bset (port_resv_table ps ! k) = held_nodes st \<union> ?R" using D(4) k held by auto
    moreover have "held_nodes st \<inter> ?R = {}" using others held by (fastforce simp: compatible_def)
    ultimately have "bset (port_resv_table ps ! k) - held_nodes st = ?R" by blast
    then show ?thesis using U k True by (simp add: held_nodes_def)
  next
    case False
    then have "int k + port_resv_min ps \<notin> held_ports st" using mem by blast
    then have "{x \<in> set (as @ st # bs). int k + port_resv_min ps \<in> held_ports x} =
        {x \<in> set (as @ bs). int k + port_resv_min ps \<in> held_ports x}" by auto
    then show ?thesis using U D(4) k False by simp
  qed
  show ?thesis unfolding run reserved_by_def
  proof (intro conjI)
    show "ports_ok n ?ps" using D(1) U by (simp add: ports_ok_def)
    show "0 < port_resv_cnt ?ps" using D(2) by simp
    show "\<forall>x \<in> set (as @ bs). step_ok n ?ps x"
      using D(3) by (auto simp: step_ok_def in_range_def split: option.splits)
    show "sorted_wrt compatible (as @ bs)" using D(5) by (auto simp: sorted_wrt_append)
  qed (use tab in simp)
qed

lemma in_range_pos: "in_range (ps\<lparr>last_port_alloc := pos\<rparr>) = in_range ps"
  by (simp add: in_range_def fun_eq_iff)

lemma alloc_cases:
  assumes I: "reserved_by n ps live" and st: "wf_bitstr (st_node_bitmap st)" "bs_bits (st_node_bitmap st) = n"
    and want: "0 < st_resv_port_cnt st" and r: "resv_port_alloc h ps st = (ps', st', rc)"
  defines "free \<equiv> card (free_ports ps (st_node_bitmap st))"
  shows "rc = (if port_resv_cnt ps < st_resv_port_cnt st then ESLURM_PORTS_INVALID
               else if free < st_resv_port_cnt st then ESLURM_PORTS_BUSY else SLURM_SUCCESS)"
    and "rc = SLURM_SUCCESS \<Longrightarrow> reserved_by n ps' (st' # live) \<and> card (held_ports st') = st_resv_port_cnt st"
    and "rc \<noteq> SLURM_SUCCESS \<Longrightarrow> reserved_by n ps' live \<and> st' = st"
proof -
  note D = reserved_byD [OF I]
  let ?nodes = "st_node_bitmap st" and ?want = "st_resv_port_cnt st"
  obtain pos js where f: "find_ports (port_resv_table ps) (port_resv_cnt ps) ?nodes ?want (port_resv_cnt ps) (last_port_alloc ps) [] = (pos, js)"
    by fastforce
  note F = found_ports [OF D(1,2) st want, of "last_port_alloc ps", unfolded f snd_conv]
  have len: "length js < ?want \<longleftrightarrow> free < ?want" "\<not> length js < ?want \<Longrightarrow> length js = ?want" using F(3) by (auto simp: free_def)
  show "rc = (if port_resv_cnt ps < ?want then ESLURM_PORTS_INVALID
               else if free < ?want then ESLURM_PORTS_BUSY else SLURM_SUCCESS)"
    using r f len(1) by (auto simp: resv_port_alloc_def Let_def split: if_splits)
  show "reserved_by n ps' (st' # live) \<and> card (held_ports st') = ?want" if "rc = SLURM_SUCCESS"
  proof -
    have l: "length js = ?want" using that r f len(2) by (auto simp: resv_port_alloc_def Let_def split: if_splits)
    have ps': "ps' = ps\<lparr>last_port_alloc := pos, port_resv_table :=
        foldl (\<lambda>t j. t[j := bit_or (t ! j) ?nodes]) (port_resv_table ps) js\<rparr>"
      and st': "st' = st\<lparr>st_resv_ports := Some (hostlist_ranged h (map fmt_d (map (\<lambda>j. int j + port_resv_min ps) js))),
                      st_resv_port_array := Some (map (\<lambda>j. int j + port_resv_min ps) js)\<rparr>"
      using that r f by (auto simp: resv_port_alloc_def Let_def split: if_splits)
    show ?thesis using alloc_reserves [OF I st F(2,1) l ps' st'] by blast
  qed
  show "reserved_by n ps' live \<and> st' = st" if "rc \<noteq> SLURM_SUCCESS"
  proof -
    have "(ps' = ps \<or> ps' = ps\<lparr>last_port_alloc := pos\<rparr>) \<and> st' = st"
      using that r f by (auto simp: resv_port_alloc_def Let_def split: if_splits)
    moreover have "reserved_by n (ps\<lparr>last_port_alloc := pos\<rparr>) live"
      using I unfolding reserved_by_def ports_ok_def step_ok_def in_range_pos by simp
    ultimately show ?thesis using I by auto
  qed
qed

subsection \<open>Properties\<close>

text \<open>
  The life of the table: steps on a cluster of \<open>n\<close> nodes that ask for at least
  one port are reserved and released in any order.
\<close>

inductive port_run :: "hostlist \<Rightarrow> nat \<Rightarrow> ports \<Rightarrow> ports \<Rightarrow> step_record list \<Rightarrow> bool" for h n ps0 where
  start: "port_run h n ps0 ps0 []"
| alloc: "port_run h n ps0 ps live \<Longrightarrow> wf_bitstr (st_node_bitmap st) \<Longrightarrow> bs_bits (st_node_bitmap st) = n \<Longrightarrow>
    0 < st_resv_port_cnt st \<Longrightarrow> resv_port_alloc h ps st = (ps', st', rc) \<Longrightarrow>
    port_run h n ps0 ps' (if rc = SLURM_SUCCESS then st' # live else live)"
| release: "port_run h n ps0 ps (as @ st # bs) \<Longrightarrow> port_run h n ps0 (fst (resv_port_free ps st)) (as @ bs)"

text \<open>C6: Whatever the order in which steps reserve and release ports, starting from
  an empty table, the table records exactly which ports are held on which nodes,
  and no two live steps hold the same port on the same node.\<close>

theorem ports_never_shared:
  assumes "port_run h n ps0 ps live" "reserved_by n ps0 []"
  shows "reserved_by n ps live \<and> sorted_wrt (\<lambda>a b. held_ports a \<inter> held_ports b = {} \<or> held_nodes a \<inter> held_nodes b = {}) live"
proof -
  have "reserved_by n ps live"
    using assms(1)
  proof induction
    case start
    show ?case by (rule assms(2))
  next
    case (alloc ps live st ps' st' rc)
    from alloc_cases(2,3) [OF alloc(6,2,3,4,5)] show ?case by auto
  next
    case (release ps as st bs)
    from free_releases [OF this(2)] show ?case .
  qed
  then show ?thesis using reserved_byD(5) by (fastforce simp: compatible_def [abs_def])
qed

text \<open>A reservation of at least one port succeeds exactly when that many ports are
  configured and free on all of the step's nodes; it then holds that many
  ports. It fails as invalid when there are not that many ports at all, and
  as busy otherwise, and a failure reserves nothing.\<close>

lemma port_alloc_decides:
  assumes "reserved_by n ps live" "wf_bitstr (st_node_bitmap st)" "bs_bits (st_node_bitmap st) = n"
    and "0 < st_resv_port_cnt st" "resv_port_alloc h ps st = (ps', st', rc)"
  shows "rc = (if port_resv_cnt ps < st_resv_port_cnt st then ESLURM_PORTS_INVALID
               else if card (free_ports ps (st_node_bitmap st)) < st_resv_port_cnt st then ESLURM_PORTS_BUSY
               else SLURM_SUCCESS)
    \<and> (rc = SLURM_SUCCESS \<longrightarrow> card (held_ports st') = st_resv_port_cnt st)
    \<and> (rc \<noteq> SLURM_SUCCESS \<longrightarrow> reserved_by n ps' live \<and> st' = st)"
  using alloc_cases [OF assms] by blast

text \<open>A table of two ports on three nodes, and a step on the first node.\<close>

definition sample_hostlist :: hostlist where
  "sample_hostlist = \<lparr>hostlist_expand = \<lambda>_. None, hostlist_ranged = concat\<rparr>"

definition sample_ports :: ports where
  "sample_ports = \<lparr>port_resv_table = replicate 2 (bit_alloc 3), port_resv_cnt = 2, port_resv_min = 7000,
                   port_resv_max = 7001, last_port_alloc = 0\<rparr>"

definition sample_step :: step_record where
  "sample_step = \<lparr>st_state = 1, st_node_bitmap = bit_set (bit_alloc 3) 0, st_resv_port_cnt = 2, st_resv_ports = None,
                  st_resv_port_array = None\<rparr>"

lemma sample_ports_facts: "reserved_by 3 sample_ports []" "wf_bitstr (st_node_bitmap sample_step)"
  "bs_bits (st_node_bitmap sample_step) = 3" "0 < st_resv_port_cnt sample_step"
  "free_ports sample_ports (st_node_bitmap sample_step) = {0, 1}"
proof -
  have a: "wf_bitstr (bit_alloc 3)" "bset (bit_alloc 3) = {}" "bs_bits (bit_alloc 3) = 3"
    by (simp_all add: wf_bit_alloc bset_alloc valid_size_def)
  have two: "replicate 2 (bit_alloc 3) = [bit_alloc 3, bit_alloc 3]" by (simp add: numeral_2_eq_2)
  have lt2: "j < 2 \<longleftrightarrow> j = 0 \<or> j = 1" for j :: nat by auto
  show "reserved_by 3 sample_ports []"
    using a by (auto simp: reserved_by_def ports_ok_def bs.table_ok_def sample_ports_def two lt2)
  show "wf_bitstr (st_node_bitmap sample_step)" "bs_bits (st_node_bitmap sample_step) = 3" "0 < st_resv_port_cnt sample_step"
    using a by (simp_all add: sample_step_def)
  show "free_ports sample_ports (st_node_bitmap sample_step) = {0, 1}"
    using a by (auto simp: free_ports_def sample_ports_def two lt2)
qed

theorem ports_never_shared_witness:
  "\<exists>ps' st' rc. resv_port_alloc sample_hostlist sample_ports sample_step = (ps', st', rc)
     \<and> reserved_by 3 ps' (if rc = SLURM_SUCCESS then [st'] else [])"
proof -
  obtain ps' st' rc where r: "resv_port_alloc sample_hostlist sample_ports sample_step = (ps', st', rc)"
    by (metis prod_cases3)
  note S = sample_ports_facts
  have "port_run sample_hostlist 3 sample_ports ps' (if rc = SLURM_SUCCESS then st' # [] else [])"
    by (rule port_run.alloc [OF port_run.start S(2-4) r])
  from ports_never_shared [OF this S(1)] r show ?thesis by blast
qed

end
