(* ===== verification/Pack.thy ===== *)
theory Pack
  imports Bitstring_Mask "HOL-Library.Monad_Syntax"
begin

text \<open>
  The message buffers of \<^verbatim>\<open>src/common/pack.c\<close> and \<^verbatim>\<open>pack.h\<close>: creation and growth, and
  packing and unpacking of integers, memory, strings, arrays and bit strings in
  network byte order. Sizes are 32-bit words, so the size checks of the source
  wrap around where they do in C.

  Packing returns \<open>None\<close> when it would write outside the allocated memory; when a
  size limit is exceeded the source logs an error and returns, which leaves the
  buffer as it was. Unpacking returns \<open>None\<close> for a bad memory access, and otherwise the
  value, if the call succeeds, and the buffer, whose position may have moved even
  on an error. The argument \<open>fresh\<close> gives the content of newly allocated memory,
  and allocation always succeeds.
\<close>

subsection \<open>Buffers\<close>

record buf =
  buf_head :: "u8 list"
  buf_size :: u32
  processed :: u32
  mmaped :: bool

definition BUF_SIZE :: u32 where
  "BUF_SIZE = 16 * 1024"

definition MAX_BUF_SIZE :: u32 where
  "MAX_BUF_SIZE = 0xffff0000"

definition MAX_PACK_MEM_LEN :: u32 where
  "MAX_PACK_MEM_LEN = 1024 * 1024 * 1024"

definition remaining_buf :: "buf \<Rightarrow> u32" where
  "remaining_buf b = buf_size b - processed b"

definition set_buf_offset :: "buf \<Rightarrow> u32 \<Rightarrow> buf" where
  "set_buf_offset b v = b\<lparr>processed := v\<rparr>"

definition xrealloc_nz :: "(nat \<Rightarrow> u8) \<Rightarrow> u8 list \<Rightarrow> nat \<Rightarrow> u8 list" where
  "xrealloc_nz fresh h n = (if n = 0 then h else take n h @ map fresh [length h..<n])"

definition create_buf :: "u8 list \<Rightarrow> u32 \<Rightarrow> buf option" where
  "create_buf data sz =
     (if MAX_BUF_SIZE < sz then None
      else Some \<lparr>buf_head = data, buf_size = sz, processed = 0, mmaped = False\<rparr>)"

text \<open>The argument is the content of the file, unless it cannot be opened or mapped.\<close>

definition create_mmap_buf :: "u8 list option \<Rightarrow> buf option" where
  "create_mmap_buf file =
     map_option (\<lambda>data. \<lparr>buf_head = data, buf_size = of_nat (length data), processed = 0, mmaped = True\<rparr>) file"

text \<open>\<open>None\<close> is the abort for a mapped buffer.\<close>

definition grow_buf :: "(nat \<Rightarrow> u8) \<Rightarrow> buf \<Rightarrow> u32 \<Rightarrow> buf option" where
  "grow_buf fresh b sz =
     (if mmaped b then None
      else if MAX_BUF_SIZE < buf_size b + sz then Some b
      else Some (b\<lparr>buf_size := buf_size b + sz, buf_head := xrealloc_nz fresh (buf_head b) (unat (buf_size b + sz))\<rparr>))"

definition init_buf :: "u32 \<Rightarrow> buf option" where
  "init_buf sz =
     (if MAX_BUF_SIZE < sz then None
      else let sz = (if sz = 0 then BUF_SIZE else sz)
           in Some \<lparr>buf_head = replicate (unat sz) 0, buf_size = sz, processed = 0, mmaped = False\<rparr>)"

definition xfer_buf_data :: "buf \<Rightarrow> u8 list option" where
  "xfer_buf_data b = (if mmaped b then None else Some (buf_head b))"

subsection \<open>Room, writing and reading\<close>

text \<open>
  The test in front of every write: \<open>need\<close> bytes are to be written, and a buffer
  that has too few left grows by \<open>extra\<close>. \<open>None\<close> is the size limit.
\<close>

definition make_room :: "(nat \<Rightarrow> u8) \<Rightarrow> nat \<Rightarrow> u32 \<Rightarrow> buf \<Rightarrow> buf option" where
  "make_room fresh need extra b =
     (if unat (remaining_buf b) < need then
        if MAX_BUF_SIZE < buf_size b + extra then None
        else Some (b\<lparr>buf_size := buf_size b + extra,
                      buf_head := xrealloc_nz fresh (buf_head b) (unat (buf_size b + extra))\<rparr>)
      else Some b)"

text \<open>\<^verbatim>\<open>memcpy\<close> to the current position, which moves on; \<open>None\<close> is a write past the end.\<close>

definition put_bytes :: "u8 list \<Rightarrow> buf \<Rightarrow> buf option" where
  "put_bytes bs b =
     (let p = unat (processed b)
      in if p + length bs \<le> length (buf_head b)
         then Some (b\<lparr>buf_head := take p (buf_head b) @ bs @ drop (p + length bs) (buf_head b),
                      processed := processed b + of_nat (length bs)\<rparr>)
         else None)"

definition pack_bytes :: "(nat \<Rightarrow> u8) \<Rightarrow> u8 list \<Rightarrow> u32 \<Rightarrow> buf \<Rightarrow> buf option" where
  "pack_bytes fresh bs extra b =
     (case make_room fresh (length bs) extra b of None \<Rightarrow> Some b | Some b' \<Rightarrow> put_bytes bs b')"

definition get_bytes :: "nat \<Rightarrow> buf \<Rightarrow> (u8 list option \<times> buf) option" where
  "get_bytes n b =
     (let p = unat (processed b)
      in if p + n \<le> length (buf_head b)
         then Some (Some (take n (drop p (buf_head b))), b\<lparr>processed := processed b + of_nat n\<rparr>)
         else None)"

definition unpack_bytes :: "nat \<Rightarrow> buf \<Rightarrow> (u8 list option \<times> buf) option" where
  "unpack_bytes n b = (if unat (remaining_buf b) < n then Some (None, b) else get_bytes n b)"

text \<open>Sequencing: an error ends the call with the buffer as it is.\<close>

definition andthen :: "('a option \<times> buf) option \<Rightarrow> ('a \<Rightarrow> buf \<Rightarrow> ('b option \<times> buf) option) \<Rightarrow> ('b option \<times> buf) option" where
  "andthen r f = (case r of None \<Rightarrow> None | Some (None, b) \<Rightarrow> Some (None, b) | Some (Some v, b) \<Rightarrow> f v b)"

text \<open>Network byte order.\<close>

fun net_bytes :: "nat \<Rightarrow> nat \<Rightarrow> u8 list" where
  "net_bytes 0 v = []"
| "net_bytes (Suc n) v = net_bytes n (v div 256) @ [of_nat (v mod 256)]"

definition host_value :: "u8 list \<Rightarrow> nat" where
  "host_value bs = foldl (\<lambda>v c. v * 256 + unat c) 0 bs"

subsection \<open>Integers\<close>

definition pack64 :: "(nat \<Rightarrow> u8) \<Rightarrow> u64 \<Rightarrow> buf \<Rightarrow> buf option" where
  "pack64 fresh v b = pack_bytes fresh (net_bytes 8 (unat v)) BUF_SIZE b"

definition unpack64 :: "buf \<Rightarrow> (u64 option \<times> buf) option" where
  "unpack64 b = andthen (unpack_bytes 8 b) (\<lambda>bs b. Some (Some (of_nat (host_value bs)), b))"

definition pack32 :: "(nat \<Rightarrow> u8) \<Rightarrow> u32 \<Rightarrow> buf \<Rightarrow> buf option" where
  "pack32 fresh v b = pack_bytes fresh (net_bytes 4 (unat v)) BUF_SIZE b"

definition unpack32 :: "buf \<Rightarrow> (u32 option \<times> buf) option" where
  "unpack32 b = andthen (unpack_bytes 4 b) (\<lambda>bs b. Some (Some (of_nat (host_value bs)), b))"

definition pack16 :: "(nat \<Rightarrow> u8) \<Rightarrow> u16 \<Rightarrow> buf \<Rightarrow> buf option" where
  "pack16 fresh v b = pack_bytes fresh (net_bytes 2 (unat v)) BUF_SIZE b"

definition unpack16 :: "buf \<Rightarrow> (u16 option \<times> buf) option" where
  "unpack16 b = andthen (unpack_bytes 2 b) (\<lambda>bs b. Some (Some (of_nat (host_value bs)), b))"

definition pack8 :: "(nat \<Rightarrow> u8) \<Rightarrow> u8 \<Rightarrow> buf \<Rightarrow> buf option" where
  "pack8 fresh v b = pack_bytes fresh [v] BUF_SIZE b"

definition unpack8 :: "buf \<Rightarrow> (u8 option \<times> buf) option" where
  "unpack8 b = andthen (unpack_bytes 1 b) (\<lambda>bs b. Some (Some (hd bs), b))"

text \<open>\<^verbatim>\<open>time_t\<close> is a signed 64-bit integer.\<close>

definition pack_time :: "(nat \<Rightarrow> u8) \<Rightarrow> int \<Rightarrow> buf \<Rightarrow> buf option" where
  "pack_time fresh t b = pack_bytes fresh (net_bytes 8 (unat (of_int t :: u64))) BUF_SIZE b"

definition unpack_time :: "buf \<Rightarrow> (int option \<times> buf) option" where
  "unpack_time b = andthen (unpack_bytes 8 b) (\<lambda>bs b. Some (Some (sint (of_nat (host_value bs) :: u64)), b))"

definition packbool :: "(nat \<Rightarrow> u8) \<Rightarrow> bool \<Rightarrow> buf \<Rightarrow> buf option" where
  "packbool fresh v b = pack8 fresh (if v then 1 else 0) b"

definition unpackbool :: "buf \<Rightarrow> (bool option \<times> buf) option" where
  "unpackbool b = andthen (unpack8 b) (\<lambda>v b. Some (Some (v \<noteq> 0), b))"

text \<open>
  Floating point numbers: \<open>scaled\<close> is the bit pattern of the product with
  \<^verbatim>\<open>FLOAT_MULT\<close>, \<open>unscaled\<close> the number whose product has a bit pattern.
\<close>

definition packdouble :: "('d \<Rightarrow> u64) \<Rightarrow> (nat \<Rightarrow> u8) \<Rightarrow> 'd \<Rightarrow> buf \<Rightarrow> buf option" where
  "packdouble scaled fresh v b = pack_bytes fresh (net_bytes 8 (unat (scaled v))) BUF_SIZE b"

definition unpackdouble :: "(u64 \<Rightarrow> 'd) \<Rightarrow> buf \<Rightarrow> ('d option \<times> buf) option" where
  "unpackdouble unscaled b = andthen (unpack_bytes 8 b) (\<lambda>bs b. Some (Some (unscaled (of_nat (host_value bs))), b))"

definition packfloat :: "('d \<Rightarrow> u32) \<Rightarrow> (nat \<Rightarrow> u8) \<Rightarrow> 'd \<Rightarrow> buf \<Rightarrow> buf option" where
  "packfloat scaled fresh v b = pack32 fresh (scaled v) b"

definition unpackfloat :: "(u32 \<Rightarrow> 'd) \<Rightarrow> buf \<Rightarrow> ('d option \<times> buf) option" where
  "unpackfloat unscaled b = andthen (unpack32 b) (\<lambda>v b. Some (Some (unscaled v), b))"

subsection \<open>Memory and strings\<close>

text \<open>The second size check adds \<open>size + size_val + BUF_SIZE\<close> in 32 bits.\<close>

definition packmem :: "(nat \<Rightarrow> u8) \<Rightarrow> u8 list \<Rightarrow> buf \<Rightarrow> buf option" where
  "packmem fresh data b =
     (let size_val = of_nat (length data) :: u32
      in if MAX_PACK_MEM_LEN < size_val then Some b
         else case make_room fresh (4 + unat size_val) (size_val + BUF_SIZE) b of
                None \<Rightarrow> Some b
              | Some b' \<Rightarrow> do {
                  b' \<leftarrow> put_bytes (net_bytes 4 (unat size_val)) b';
                  if size_val \<noteq> 0 then put_bytes (take (unat size_val) data) b' else Some b' })"

text \<open>
  The body shared by the readers of memory: the size, its limit, and the bytes,
  after a test on them. A null pointer for size zero is the empty list.
\<close>

definition unpack_sized :: "(u8 list \<Rightarrow> bool) \<Rightarrow> buf \<Rightarrow> (u8 list option \<times> buf) option" where
  "unpack_sized test b =
     andthen (unpack_bytes 4 b) (\<lambda>bs b.
       let n = of_nat (host_value bs) :: u32
       in if MAX_PACK_MEM_LEN < n then Some (None, b)
          else if n = 0 then Some (Some [], b)
          else if remaining_buf b < n then Some (None, b)
          else (case get_bytes (unat n) b of
                  Some (Some data, b') \<Rightarrow> if test data then Some (Some data, b') else Some (None, b)
                | r \<Rightarrow> r))"

definition unpackmem_ptr :: "buf \<Rightarrow> (u8 list option \<times> buf) option" where
  "unpackmem_ptr b = unpack_sized (\<lambda>_. True) b"

definition unpackmem_xmalloc :: "buf \<Rightarrow> (u8 list option \<times> buf) option" where
  "unpackmem_xmalloc b = unpack_sized (\<lambda>_. True) b"

text \<open>A C string is the list of its characters without the final zero; \<open>None\<close> is the null pointer.\<close>

definition packstr :: "(nat \<Rightarrow> u8) \<Rightarrow> u8 list option \<Rightarrow> buf \<Rightarrow> buf option" where
  "packstr fresh str b = packmem fresh (case str of None \<Rightarrow> [] | Some s \<Rightarrow> s @ [0]) b"

definition c_str :: "u8 list \<Rightarrow> u8 list option" where
  "c_str data = (if data = [] then None else Some (takeWhile (\<lambda>c. c \<noteq> 0) data))"

definition unpackstr_xmalloc :: "buf \<Rightarrow> (u8 list option option \<times> buf) option" where
  "unpackstr_xmalloc b =
     andthen (unpack_sized (\<lambda>data. List.last data = 0) b) (\<lambda>data b. Some (Some (c_str data), b))"

fun escape :: "u8 list \<Rightarrow> u8 list" where
  "escape [] = []"
| "escape (c # cs) = (if c = 0x5C \<or> c = 0x27 then [0x5C, c] else [c]) @ escape cs"

definition unpackstr_xmalloc_escaped :: "buf \<Rightarrow> (u8 list option option \<times> buf) option" where
  "unpackstr_xmalloc_escaped b =
     andthen (unpack_sized (\<lambda>_. True) b) (\<lambda>data b. Some (Some (map_option escape (c_str data)), b))"

definition unpackstr_xmalloc_chooser :: "bool \<Rightarrow> buf \<Rightarrow> (u8 list option option \<times> buf) option" where
  "unpackstr_xmalloc_chooser slurmdbd_conf b = (if slurmdbd_conf then unpackstr_xmalloc_escaped b else unpackstr_xmalloc b)"

text \<open>
  Long doubles travel as text: \<open>print\<close> is \<^verbatim>\<open>%Lf\<close> and \<open>scan\<close> is \<^verbatim>\<open>sscanf\<close> with the
  replacement of a NaN. The reader hands \<^verbatim>\<open>sscanf\<close> a pointer into the buffer: a
  null pointer and a text without a zero up to the end of the memory are bad accesses.
\<close>

definition packlongdouble :: "('d \<Rightarrow> u8 list) \<Rightarrow> (nat \<Rightarrow> u8) \<Rightarrow> 'd \<Rightarrow> buf \<Rightarrow> buf option" where
  "packlongdouble print fresh v b = packstr fresh (Some (take 255 (print v))) b"

definition unpacklongdouble :: "(u8 list \<Rightarrow> 'd option) \<Rightarrow> buf \<Rightarrow> ('d option \<times> buf) option" where
  "unpacklongdouble scan b =
     andthen (unpackmem_ptr b) (\<lambda>data b'.
       let text = drop (unat (processed b') - length data) (buf_head b')
       in if data = [] \<or> 0 \<notin> set text then None
          else Some (scan (takeWhile (\<lambda>c. c \<noteq> 0) text), b'))"

subsection \<open>Arrays\<close>

fun pack_each :: "('a \<Rightarrow> buf \<Rightarrow> buf option) \<Rightarrow> 'a list \<Rightarrow> buf \<Rightarrow> buf option" where
  "pack_each pack [] b = Some b"
| "pack_each pack (x # xs) b = Option.bind (pack x b) (pack_each pack xs)"

definition pack_array :: "(nat \<Rightarrow> u8) \<Rightarrow> ('a \<Rightarrow> buf \<Rightarrow> buf option) \<Rightarrow> 'a list \<Rightarrow> buf \<Rightarrow> buf option" where
  "pack_array fresh pack xs b = Option.bind (pack32 fresh (of_nat (length xs)) b) (pack_each pack xs)"

fun unpack_each :: "(buf \<Rightarrow> ('a option \<times> buf) option) \<Rightarrow> nat \<Rightarrow> buf \<Rightarrow> ('a list option \<times> buf) option" where
  "unpack_each unpack 0 b = Some (Some [], b)"
| "unpack_each unpack (Suc n) b =
     andthen (unpack b) (\<lambda>x b. andthen (unpack_each unpack n b) (\<lambda>xs b. Some (Some (x # xs), b)))"

definition unpack_array :: "(buf \<Rightarrow> ('a option \<times> buf) option) \<Rightarrow> buf \<Rightarrow> ('a list option \<times> buf) option" where
  "unpack_array unpack b = andthen (unpack32 b) (\<lambda>n b. unpack_each unpack (unat n) b)"

definition pack16_array :: "(nat \<Rightarrow> u8) \<Rightarrow> u16 list \<Rightarrow> buf \<Rightarrow> buf option" where
  "pack16_array fresh = pack_array fresh (pack16 fresh)"

definition unpack16_array :: "buf \<Rightarrow> (u16 list option \<times> buf) option" where
  "unpack16_array = unpack_array unpack16"

definition pack32_array :: "(nat \<Rightarrow> u8) \<Rightarrow> u32 list \<Rightarrow> buf \<Rightarrow> buf option" where
  "pack32_array fresh = pack_array fresh (pack32 fresh)"

definition unpack32_array :: "buf \<Rightarrow> (u32 list option \<times> buf) option" where
  "unpack32_array = unpack_array unpack32"

definition pack64_array :: "(nat \<Rightarrow> u8) \<Rightarrow> u64 list \<Rightarrow> buf \<Rightarrow> buf option" where
  "pack64_array fresh = pack_array fresh (pack64 fresh)"

definition unpack64_array :: "buf \<Rightarrow> (u64 list option \<times> buf) option" where
  "unpack64_array = unpack_array unpack64"

definition packdouble_array :: "('d \<Rightarrow> u64) \<Rightarrow> (nat \<Rightarrow> u8) \<Rightarrow> 'd list \<Rightarrow> buf \<Rightarrow> buf option" where
  "packdouble_array scaled fresh = pack_array fresh (packdouble scaled fresh)"

definition unpackdouble_array :: "(u64 \<Rightarrow> 'd) \<Rightarrow> buf \<Rightarrow> ('d list option \<times> buf) option" where
  "unpackdouble_array unscaled = unpack_array (unpackdouble unscaled)"

definition packlongdouble_array :: "('d \<Rightarrow> u8 list) \<Rightarrow> (nat \<Rightarrow> u8) \<Rightarrow> 'd list \<Rightarrow> buf \<Rightarrow> buf option" where
  "packlongdouble_array print fresh = pack_array fresh (packlongdouble print fresh)"

definition unpacklongdouble_array :: "(u8 list \<Rightarrow> 'd option) \<Rightarrow> buf \<Rightarrow> ('d list option \<times> buf) option" where
  "unpacklongdouble_array scan = unpack_array (unpacklongdouble scan)"

text \<open>Unlike the arrays of numbers it packs no element when there is no room for the count.\<close>

definition packstr_array :: "(nat \<Rightarrow> u8) \<Rightarrow> u8 list option list \<Rightarrow> buf \<Rightarrow> buf option" where
  "packstr_array fresh xs b =
     (case make_room fresh 4 BUF_SIZE b of
        None \<Rightarrow> Some b
      | Some b' \<Rightarrow> Option.bind (put_bytes (net_bytes 4 (unat (of_nat (length xs) :: u32))) b') (pack_each (packstr fresh) xs))"

text \<open>
  The array of pointers has \<open>size + 1\<close> entries, computed in 32 bits: for the largest
  size it is the null pointer, and storing the first string is a bad access.
\<close>

definition unpackstr_array :: "buf \<Rightarrow> (u8 list option list option \<times> buf) option" where
  "unpackstr_array b =
     andthen (unpack32 b) (\<lambda>n b.
       if n + 1 = 0 then andthen (unpackstr_xmalloc b) (\<lambda>_ _. None)
       else unpack_each unpackstr_xmalloc (unat n) b)"

definition packmem_array :: "(nat \<Rightarrow> u8) \<Rightarrow> u8 list \<Rightarrow> buf \<Rightarrow> buf option" where
  "packmem_array fresh data b = pack_bytes fresh data (of_nat (length data) + BUF_SIZE) b"

definition unpackmem_array :: "u32 \<Rightarrow> buf \<Rightarrow> (u8 list option \<times> buf) option" where
  "unpackmem_array n b = (if n \<le> remaining_buf b then get_bytes (unat n) b else Some (None, b))"

definition packbuf :: "(nat \<Rightarrow> u8) \<Rightarrow> buf \<Rightarrow> buf \<Rightarrow> buf option" where
  "packbuf fresh source b =
     (let size_val = processed source
      in if size_val = 0 then Some b
         else pack_bytes fresh (take (unat size_val) (buf_head source)) size_val b)"

subsection \<open>Bit strings\<close>

definition NO_VAL :: u32 where
  "NO_VAL = 0xfffffffe"

definition bytes_of :: "string \<Rightarrow> u8 list" where
  "bytes_of s = map (\<lambda>c. of_nat (of_char c)) s"

definition string_of :: "u8 list \<Rightarrow> string" where
  "string_of bs = map (\<lambda>c. char_of (unat c)) bs"

definition pack_bit_str_hex :: "(nat \<Rightarrow> u8) \<Rightarrow> bitstr option \<Rightarrow> buf \<Rightarrow> buf option" where
  "pack_bit_str_hex fresh bitmap b =
     (case bitmap of
        Some m \<Rightarrow> do {
          b \<leftarrow> pack32 fresh (of_nat (bit_size m)) b;
          packmem fresh (bytes_of (bit_fmt_hexmask m) @ [0]) b }
      | None \<Rightarrow> pack32 fresh NO_VAL b)"

definition unpack_bit_str_hex :: "bool \<Rightarrow> buf \<Rightarrow> (bitstr option option \<times> buf) option" where
  "unpack_bit_str_hex slurmdbd_conf b =
     andthen (unpack32 b) (\<lambda>n b.
       if n = NO_VAL then Some (Some None, b)
       else andthen (unpackstr_xmalloc_chooser slurmdbd_conf b) (\<lambda>str b.
         if n = 0 then Some (Some None, b)
         else case bit_unfmt_hexmask (Some (bit_alloc (unat n))) (map_option string_of str) of
                (m, rc) \<Rightarrow> if rc \<noteq> 0 then Some (None, b) else Some (Some m, b)))"

end
