(* ===== verification/Pack_Codec.thy ===== *)
theory Pack_Codec
  imports Pack
begin

text \<open>
  The contract of a pair of packing and unpacking functions, a locale, with the
  array functions proved once for every element type, and its interpretations
  on the functions of \<^verbatim>\<open>src/common/pack.c\<close>.
\<close>

subsection \<open>Bytes\<close>

lemma net_bytes_length [simp]: "length (net_bytes n v) = n"
  by (induction n arbitrary: v) auto

lemma host_value_snoc [simp]: "host_value (bs @ [c]) = host_value bs * 256 + unat c"
  by (simp add: host_value_def)

lemma host_net [simp]: "host_value (net_bytes n v) = v mod 256 ^ n"
proof (induction n arbitrary: v)
  case (Suc n)
  have "unat (of_nat (v mod 256) :: u8) = v mod 256" by (simp add: unat_of_nat)
  then show ?case using Suc mod_mult2_eq [of v 256 "256 ^ n"] by simp
qed (simp add: host_value_def)

subsection \<open>Well-formed buffers\<close>

definition wf_buf :: "buf \<Rightarrow> bool" where
  "wf_buf b \<longleftrightarrow> length (buf_head b) = unat (buf_size b) \<and> processed b \<le> buf_size b \<and> buf_size b \<le> MAX_BUF_SIZE"

definition written :: "buf \<Rightarrow> u8 list" where
  "written b = take (unat (processed b)) (buf_head b)"

definition unread :: "buf \<Rightarrow> u8 list" where
  "unread b = drop (unat (processed b)) (buf_head b)"

text \<open>
  Room for \<open>n\<close> more bytes whatever the allocated size: a buffer that has to grow
  is shorter than what is written and the new bytes together, and grows by at
  most the new bytes and \<^const>\<open>BUF_SIZE\<close>.
\<close>

definition fits :: "buf \<Rightarrow> nat \<Rightarrow> bool" where
  "fits b n \<longleftrightarrow> unat (processed b) + 2 * n + 16384 \<le> unat MAX_BUF_SIZE"

lemma unat_consts [simp]: "unat BUF_SIZE = 16384" "unat MAX_BUF_SIZE = 4294901760" "unat MAX_PACK_MEM_LEN = 1073741824"
  by (simp_all add: BUF_SIZE_def MAX_BUF_SIZE_def MAX_PACK_MEM_LEN_def)

lemma wf_bufD:
  assumes "wf_buf b"
  shows "length (buf_head b) = unat (buf_size b)" "unat (processed b) \<le> unat (buf_size b)" "unat (buf_size b) \<le> 4294901760"
    "unat (remaining_buf b) = unat (buf_size b) - unat (processed b)"
  using assms by (simp_all add: wf_buf_def word_le_nat_alt remaining_buf_def unat_sub)

lemma written_length: "wf_buf b \<Longrightarrow> length (written b) = unat (processed b)"
  using wf_bufD [of b] by (simp add: written_def)

lemma unread_length: "wf_buf b \<Longrightarrow> length (unread b) = unat (remaining_buf b)"
  using wf_bufD [of b] by (simp add: unread_def)

lemma u32_add: "unat (a :: u32) + unat c < 4294967296 \<Longrightarrow> unat (a + c) = unat a + unat c"
  by (subst unat_add_lem [symmetric]) simp

lemma u32_of_nat: "n < 4294967296 \<Longrightarrow> unat (of_nat n :: u32) = n"
  by (simp add: unat_of_nat)

lemma make_room_spec:
  assumes "wf_buf b" "unat extra = e" "e \<le> n + 16384" "n \<le> e" "fits b n"
  shows "\<exists>b'. make_room fresh n extra b = Some b' \<and> wf_buf b' \<and> written b' = written b \<and> processed b' = processed b
    \<and> unat (processed b) + n \<le> length (buf_head b')"
proof (cases "unat (remaining_buf b) < n")
  case False
  then show ?thesis using assms(1) wf_bufD [OF assms(1)] by (auto simp: make_room_def)
next
  case True
  note w = wf_bufD [OF assms(1)]
  have sz: "unat (buf_size b + extra) = unat (buf_size b) + e" "unat (buf_size b) + e \<le> 4294901760"
    using True w assms(2-5) u32_add [of "buf_size b" extra] by (simp_all add: fits_def)
  have pos: "0 < unat (buf_size b) + e" using True assms(4) by linarith
  have le: "\<not> MAX_BUF_SIZE < buf_size b + extra" "buf_size b + extra \<le> MAX_BUF_SIZE" "processed b \<le> buf_size b + extra"
    using sz w(2) by (simp_all add: word_less_nat_alt word_le_nat_alt)
  let ?b = "b\<lparr>buf_size := buf_size b + extra, buf_head := xrealloc_nz fresh (buf_head b) (unat (buf_size b + extra))\<rparr>"
  have "make_room fresh n extra b = Some ?b" using True le(1) by (simp add: make_room_def)
  moreover have "wf_buf ?b" using sz(1) w(1) le(2,3) pos by (simp add: wf_buf_def xrealloc_nz_def)
  moreover have "written ?b = written b" using w(1,2) sz(1) pos by (simp add: written_def xrealloc_nz_def)
  moreover have "unat (processed b) + n \<le> length (buf_head ?b)" using w(1,2,4) sz(1) pos assms(4) by (simp add: xrealloc_nz_def)
  ultimately show ?thesis by auto
qed

text \<open>Without the room: growing fails at the limit, and otherwise gives enough as long as the size does not wrap.\<close>

lemma make_room_safe:
  assumes "wf_buf b" "n \<le> unat extra" "unat (buf_size b) + unat extra < 4294967296" "make_room fresh n extra b = Some b'"
  shows "wf_buf b'" "written b' = written b" "unat (processed b) + n \<le> length (buf_head b')" "processed b' = processed b"
proof -
  note w = wf_bufD [OF assms(1)]
  have sz: "unat (buf_size b + extra) = unat (buf_size b) + unat extra" using u32_add [OF assms(3)] .
  have "wf_buf b' \<and> written b' = written b \<and> unat (processed b) + n \<le> length (buf_head b') \<and> processed b' = processed b"
  proof (cases "unat (remaining_buf b) < n")
    case True
    have pos: "0 < unat (buf_size b) + unat extra" using True assms(2) by linarith
    have "b' = b\<lparr>buf_size := buf_size b + extra, buf_head := xrealloc_nz fresh (buf_head b) (unat (buf_size b + extra))\<rparr>"
      "\<not> MAX_BUF_SIZE < buf_size b + extra" using True assms(4) by (auto simp: make_room_def split: if_splits)
    then show ?thesis using w sz pos assms(2)
      by (auto simp: wf_buf_def written_def xrealloc_nz_def word_le_nat_alt not_less)
  next
    case False
    then have "b' = b" using assms(4) by (simp add: make_room_def)
    then show ?thesis using False w assms(1) by simp
  qed
  then show "wf_buf b'" "written b' = written b" "unat (processed b) + n \<le> length (buf_head b')" "processed b' = processed b"
    by simp_all
qed

lemma put_bytes_spec:
  assumes "wf_buf b" "unat (processed b) + length bs \<le> length (buf_head b)"
  shows "\<exists>b'. put_bytes bs b = Some b' \<and> wf_buf b' \<and> written b' = written b @ bs \<and> length (buf_head b') = length (buf_head b)"
proof -
  note w = wf_bufD [OF assms(1)]
  have p: "unat (processed b + of_nat (length bs)) = unat (processed b) + length bs"
    using assms(2) w(1,3) u32_of_nat [of "length bs"] u32_add [of "processed b" "of_nat (length bs)"] by simp
  then show ?thesis using assms w by (auto simp: put_bytes_def Let_def wf_buf_def written_def word_le_nat_alt)
qed

lemma pack_bytes_spec:
  assumes "wf_buf b" "unat extra \<le> length bs + 16384" "length bs \<le> unat extra" "fits b (length bs)"
  shows "\<exists>b'. pack_bytes fresh bs extra b = Some b' \<and> wf_buf b' \<and> written b' = written b @ bs"
proof -
  obtain b1 where b1: "make_room fresh (length bs) extra b = Some b1" "wf_buf b1" "written b1 = written b"
      "processed b1 = processed b" "unat (processed b) + length bs \<le> length (buf_head b1)"
    using make_room_spec [OF assms(1) refl assms(2-4)] by blast
  then show ?thesis using put_bytes_spec [OF b1(2), of bs] by (auto simp: pack_bytes_def)
qed

lemma get_bytes_spec:
  assumes "wf_buf b" "n \<le> unat (remaining_buf b)"
  shows "\<exists>b'. get_bytes n b = Some (Some (take n (unread b)), b') \<and> wf_buf b' \<and> unread b' = drop n (unread b)
    \<and> unat (processed b') = unat (processed b) + n \<and> buf_head b' = buf_head b"
proof -
  note w = wf_bufD [OF assms(1)]
  have p: "unat (processed b + of_nat n) = unat (processed b) + n"
    using assms(2) w u32_of_nat [of n] u32_add [of "processed b" "of_nat n"] by simp
  then show ?thesis using assms w by (auto simp: get_bytes_def Let_def wf_buf_def unread_def word_le_nat_alt add.commute)
qed

lemma unpack_bytes_spec:
  assumes "wf_buf b"
  shows "\<exists>r b'. unpack_bytes n b = Some (r, b') \<and> wf_buf b' \<and> length (unread b') \<le> length (unread b)"
    and "unread b = bs @ rest \<Longrightarrow> length bs = n \<Longrightarrow>
      \<exists>b'. unpack_bytes n b = Some (Some bs, b') \<and> wf_buf b' \<and> unread b' = rest"
  using assms get_bytes_spec [OF assms, of n] unread_length [OF assms] by (auto simp: unpack_bytes_def not_less)

lemma andthen_simps [simp]:
  "andthen (Some (Some v, b)) f = f v b" "andthen (Some (None, b)) f = Some (None, b)" "andthen None f = None"
  by (simp_all add: andthen_def)

lemma net_host_fixed:
  "of_nat (v mod 256 ^ 8) = (of_nat v :: u64)" "of_nat (v mod 256 ^ 4) = (of_nat v :: u32)" "of_nat (v mod 256 ^ 2) = (of_nat v :: u16)"
  by (simp_all add: word_unat_eq_iff unat_of_nat)

lemma pack32_writes:
  "wf_buf b \<Longrightarrow> fits b 4 \<Longrightarrow> \<exists>b'. pack32 fresh v b = Some b' \<and> wf_buf b' \<and> written b' = written b @ net_bytes 4 (unat v)"
  using pack_bytes_spec [of b BUF_SIZE "net_bytes 4 (unat v)" fresh] by (simp add: pack32_def)

lemma unpack32_reads:
  "wf_buf b \<Longrightarrow> unread b = net_bytes 4 (unat v) @ rest \<Longrightarrow>
    \<exists>b'. unpack32 b = Some (Some v, b') \<and> wf_buf b' \<and> unread b' = rest"
  using unpack_bytes_spec(2) [of b "net_bytes 4 (unat v)" rest 4]
  unfolding unpack32_def by (auto simp del: power_numeral simp: net_host_fixed)

lemma unpack32_safe:
  assumes "wf_buf b"
  shows "\<exists>r b'. unpack32 b = Some (r, b') \<and> wf_buf b' \<and> length (unread b') \<le> length (unread b)"
proof -
  obtain r b' where "unpack_bytes 4 b = Some (r, b')" "wf_buf b'" "length (unread b') \<le> length (unread b)"
    using unpack_bytes_spec(1) [OF assms] by blast
  then show ?thesis by (cases r) (auto simp: unpack32_def)
qed

subsection \<open>The contract\<close>

locale wire =
  fixes pack :: "'a \<Rightarrow> buf \<Rightarrow> buf option"
    and unpack :: "buf \<Rightarrow> ('a option \<times> buf) option"
    and enc :: "'a \<Rightarrow> u8 list"
    and ok :: "'a \<Rightarrow> bool"
  assumes pack_writes: "wf_buf b \<Longrightarrow> ok x \<Longrightarrow> fits b (length (enc x)) \<Longrightarrow>
      \<exists>b'. pack x b = Some b' \<and> wf_buf b' \<and> written b' = written b @ enc x"
    and unpack_reads: "wf_buf b \<Longrightarrow> ok x \<Longrightarrow> unread b = enc x @ rest \<Longrightarrow>
      \<exists>b'. unpack b = Some (Some x, b') \<and> wf_buf b' \<and> unread b' = rest"
begin

lemma fits_more:
  assumes "wf_buf b" "wf_buf b'" "written b' = written b @ bs" "fits b (length bs + n)"
  shows "fits b' n"
proof -
  have "unat (processed b') = unat (processed b) + length bs"
    using written_length [OF assms(1)] written_length [OF assms(2)] assms(3) by simp
  then show ?thesis using assms(4) by (simp add: fits_def)
qed

lemma pack_each_writes:
  "wf_buf b \<Longrightarrow> list_all ok xs \<Longrightarrow> fits b (length (concat (map enc xs))) \<Longrightarrow>
    \<exists>b'. pack_each pack xs b = Some b' \<and> wf_buf b' \<and> written b' = written b @ concat (map enc xs)"
proof (induction xs arbitrary: b)
  case (Cons x xs)
  obtain b1 where b1: "pack x b = Some b1" "wf_buf b1" "written b1 = written b @ enc x"
    using pack_writes [OF Cons.prems(1), of x] Cons.prems(2,3) by (auto simp: fits_def)
  have "fits b1 (length (concat (map enc xs)))" using fits_more [OF Cons.prems(1) b1(2,3)] Cons.prems(3) by simp
  then show ?case using Cons.IH [OF b1(2)] Cons.prems(2) b1 by auto
qed simp

lemma unpack_each_reads:
  "wf_buf b \<Longrightarrow> list_all ok xs \<Longrightarrow> unread b = concat (map enc xs) @ rest \<Longrightarrow>
    \<exists>b'. unpack_each unpack (length xs) b = Some (Some xs, b') \<and> wf_buf b' \<and> unread b' = rest"
proof (induction xs arbitrary: b)
  case (Cons x xs)
  obtain b1 where b1: "unpack b = Some (Some x, b1)" "wf_buf b1" "unread b1 = concat (map enc xs) @ rest"
    using unpack_reads [OF Cons.prems(1), of x] Cons.prems(2,3) by auto
  then show ?case using Cons.IH [OF b1(2) _ b1(3)] Cons.prems(2) by auto
qed simp

lemma array_wire:
  "wire (pack_array fresh pack) (unpack_array unpack) (\<lambda>xs. net_bytes 4 (length xs) @ concat (map enc xs))
     (\<lambda>xs. list_all ok xs \<and> length xs < 4294967296)"
proof
  fix b xs rest
  assume w: "wf_buf b" and ok: "list_all ok xs \<and> length xs < 4294967296"
  let ?n = "of_nat (length xs) :: u32"
  have n: "unat ?n = length xs" using ok by (simp add: u32_of_nat)
  show "\<exists>b'. pack_array fresh pack xs b = Some b' \<and> wf_buf b' \<and> written b' = written b @ net_bytes 4 (length xs) @ concat (map enc xs)"
    if f: "fits b (length (net_bytes 4 (length xs) @ concat (map enc xs)))"
  proof -
    obtain b1 where b1: "pack32 fresh ?n b = Some b1" "wf_buf b1" "written b1 = written b @ net_bytes 4 (length xs)"
      using pack32_writes [OF w, of fresh ?n] f n by (auto simp: fits_def)
    have "fits b1 (length (concat (map enc xs)))" using fits_more [OF w b1(2,3)] f by simp
    then show ?thesis using pack_each_writes [OF b1(2)] ok b1 by (auto simp: pack_array_def)
  qed
  show "\<exists>b'. unpack_array unpack b = Some (Some xs, b') \<and> wf_buf b' \<and> unread b' = rest"
    if u: "unread b = (net_bytes 4 (length xs) @ concat (map enc xs)) @ rest"
  proof -
    obtain b1 where b1: "unpack32 b = Some (Some ?n, b1)" "wf_buf b1" "unread b1 = concat (map enc xs) @ rest"
      using unpack32_reads [OF w, of ?n "concat (map enc xs) @ rest"] u n by auto
    then show ?thesis using unpack_each_reads [OF b1(2) _ b1(3)] ok n by (auto simp: unpack_array_def)
  qed
qed

end

text \<open>A decoder of a codec moreover accesses no memory outside the buffer, whatever the bytes are.\<close>

locale codec = wire +
  assumes unpack_safe: "wf_buf b \<Longrightarrow> \<exists>r b'. unpack b = Some (r, b') \<and> wf_buf b' \<and> length (unread b') \<le> length (unread b)"
begin

lemma unpack_each_safe:
  "wf_buf b \<Longrightarrow> \<exists>r b'. unpack_each unpack n b = Some (r, b') \<and> wf_buf b' \<and> length (unread b') \<le> length (unread b)"
proof (induction n arbitrary: b)
  case (Suc n)
  obtain r b1 where b1: "unpack b = Some (r, b1)" "wf_buf b1" "length (unread b1) \<le> length (unread b)"
    using unpack_safe [OF Suc.prems] by blast
  show ?case
  proof (cases r)
    case None
    then show ?thesis using b1 by simp
  next
    case (Some x)
    obtain r2 b2 where "unpack_each unpack n b1 = Some (r2, b2)" "wf_buf b2" "length (unread b2) \<le> length (unread b1)"
      using Suc.IH [OF b1(2)] by blast
    then show ?thesis using b1 Some by (cases r2) auto
  qed
qed simp

lemma array_codec:
  "codec (pack_array fresh pack) (unpack_array unpack) (\<lambda>xs. net_bytes 4 (length xs) @ concat (map enc xs))
     (\<lambda>xs. list_all ok xs \<and> length xs < 4294967296)"
proof (rule codec.intro [OF array_wire], rule codec_axioms.intro)
  fix b
  assume w: "wf_buf b"
  obtain r b1 where b1: "unpack32 b = Some (r, b1)" "wf_buf b1" "length (unread b1) \<le> length (unread b)"
    using unpack32_safe [OF w] by blast
  show "\<exists>r b'. unpack_array unpack b = Some (r, b') \<and> wf_buf b' \<and> length (unread b') \<le> length (unread b)"
  proof (cases r)
    case None
    then show ?thesis using b1 by (simp add: unpack_array_def)
  next
    case (Some n)
    obtain r2 b2 where "unpack_each unpack (unat n) b1 = Some (r2, b2)" "wf_buf b2" "length (unread b2) \<le> length (unread b1)"
      using unpack_each_safe [OF b1(2)] by blast
    then show ?thesis using b1 Some by (simp add: unpack_array_def)
  qed
qed

end

lemma fixed_codec:
  assumes "\<And>x b. pack x b = pack_bytes fresh (enc x) BUF_SIZE b" "\<And>x. length (enc x) = n" "n \<le> 16384"
    and "\<And>b. unpack b = andthen (unpack_bytes n b) (\<lambda>bs b. Some (Some (dec bs), b))" "\<And>x. ok x \<Longrightarrow> dec (enc x) = x"
  shows "codec pack unpack enc ok"
proof
  fix b x rest
  assume w: "wf_buf b"
  show "\<exists>b'. pack x b = Some b' \<and> wf_buf b' \<and> written b' = written b @ enc x" if "fits b (length (enc x))"
    using pack_bytes_spec [OF w, of BUF_SIZE "enc x" fresh] that assms(1-3) by simp
  show "\<exists>b'. unpack b = Some (Some x, b') \<and> wf_buf b' \<and> unread b' = rest" if "ok x" "unread b = enc x @ rest"
    using unpack_bytes_spec(2) [OF w that(2) assms(2)] assms(4,5) that(1) by auto
  show "\<exists>r b'. unpack b = Some (r, b') \<and> wf_buf b' \<and> length (unread b') \<le> length (unread b)"
  proof -
    obtain r b' where "unpack_bytes n b = Some (r, b')" "wf_buf b'" "length (unread b') \<le> length (unread b)"
      using unpack_bytes_spec(1) [OF w] by blast
    then show ?thesis using assms(4) by (cases r) auto
  qed
qed

interpretation c64: codec "pack64 fresh" unpack64 "\<lambda>v. net_bytes 8 (unat v)" "\<lambda>_. True" for fresh
  by (rule fixed_codec [where dec = "\<lambda>bs. of_nat (host_value bs)" and n = 8 and fresh = fresh])
     (simp_all only: pack64_def unpack64_def net_bytes_length host_net net_host_fixed, simp_all)

interpretation c32: codec "pack32 fresh" unpack32 "\<lambda>v. net_bytes 4 (unat v)" "\<lambda>_. True" for fresh
  by (rule fixed_codec [where dec = "\<lambda>bs. of_nat (host_value bs)" and n = 4 and fresh = fresh])
     (simp_all only: pack32_def unpack32_def net_bytes_length host_net net_host_fixed, simp_all)

interpretation c16: codec "pack16 fresh" unpack16 "\<lambda>v. net_bytes 2 (unat v)" "\<lambda>_. True" for fresh
  by (rule fixed_codec [where dec = "\<lambda>bs. of_nat (host_value bs)" and n = 2 and fresh = fresh])
     (simp_all only: pack16_def unpack16_def net_bytes_length host_net net_host_fixed, simp_all)

interpretation c8: codec "pack8 fresh" unpack8 "\<lambda>v. [v]" "\<lambda>_. True" for fresh
  by (rule fixed_codec [where dec = hd and n = 1 and fresh = fresh]) (simp_all add: pack8_def unpack8_def)

interpretation ctime: codec "pack_time fresh" unpack_time "\<lambda>t. net_bytes 8 (unat (of_int t :: u64))"
    "\<lambda>t. - (2 ^ 63) \<le> t \<and> t < 2 ^ 63" for fresh
  by (rule fixed_codec [where dec = "\<lambda>bs. sint (of_nat (host_value bs) :: u64)" and n = 8 and fresh = fresh])
     (simp_all only: pack_time_def unpack_time_def net_bytes_length host_net net_host_fixed,
      simp_all add: signed_of_int signed_take_bit_int_eq_self)

interpretation cbool: codec "packbool fresh" unpackbool "\<lambda>v. [if v then 1 else 0]" "\<lambda>_. True" for fresh
proof (rule fixed_codec [where dec = "\<lambda>bs. hd bs \<noteq> 0" and n = 1 and fresh = fresh])
  show "unpackbool b = andthen (unpack_bytes 1 b) (\<lambda>bs b. Some (Some (hd bs \<noteq> 0), b))" for b
    by (auto simp: unpackbool_def unpack8_def andthen_def split: option.splits)
qed (simp_all add: packbool_def pack8_def)


interpretation cdouble: codec "packdouble scaled fresh" "unpackdouble unscaled" "\<lambda>v. net_bytes 8 (unat (scaled v))"
    "\<lambda>v. unscaled (scaled v) = v" for scaled fresh unscaled
  by (rule fixed_codec [where dec = "\<lambda>bs. unscaled (of_nat (host_value bs))" and n = 8 and fresh = fresh])
     (simp_all only: packdouble_def unpackdouble_def net_bytes_length host_net net_host_fixed, simp_all)

subsection \<open>Memory and strings\<close>

lemma packmem_room:
  assumes "wf_buf b" "length data \<le> 1073741824"
    and "make_room fresh (4 + length data) (of_nat (length data) + BUF_SIZE) b = Some b1"
    and "wf_buf b1" "written b1 = written b" "unat (processed b) + (4 + length data) \<le> length (buf_head b1)"
  shows "\<exists>b'. packmem fresh data b = Some b' \<and> wf_buf b' \<and> written b' = written b @ net_bytes 4 (length data) @ data"
proof -
  let ?n = "of_nat (length data) :: u32"
  have n: "unat ?n = length data" using assms(2) by (simp add: u32_of_nat)
  have p: "unat (processed b1) = unat (processed b)"
    using written_length [OF assms(1)] written_length [OF assms(4)] assms(5) by simp
  obtain b2 where b2: "put_bytes (net_bytes 4 (length data)) b1 = Some b2" "wf_buf b2"
      "written b2 = written b @ net_bytes 4 (length data)" "length (buf_head b2) = length (buf_head b1)"
    using put_bytes_spec [OF assms(4), of "net_bytes 4 (length data)"] assms(5,6) p by auto
  have "unat (processed b2) + length data \<le> length (buf_head b2)"
    using written_length [OF b2(2)] written_length [OF assms(1)] b2(3,4) assms(6) by simp
  from put_bytes_spec [OF b2(2) this] obtain b3 where b3: "put_bytes data b2 = Some b3" "wf_buf b3" "written b3 = written b2 @ data"
    by blast
  have lim: "\<not> MAX_PACK_MEM_LEN < ?n" using n assms(2) by (simp add: word_less_nat_alt)
  have "packmem fresh data b = (if ?n \<noteq> 0 then put_bytes data b2 else Some b2)"
    using assms(3) b2(1) lim n by (simp add: packmem_def Let_def)
  moreover have "?n = 0 \<Longrightarrow> data = []" using n by (metis length_0_conv unat_0)
  ultimately show ?thesis using b2 b3 by auto
qed

lemma mem_extra: "length data \<le> 1073741824 \<Longrightarrow> unat (of_nat (length data) + BUF_SIZE) = length data + 16384"
  using u32_add [of "of_nat (length data)" BUF_SIZE] by (simp add: u32_of_nat)

lemma packmem_writes:
  assumes "wf_buf b" "length data \<le> 1073741824" "fits b (4 + length data)"
  shows "\<exists>b'. packmem fresh data b = Some b' \<and> wf_buf b' \<and> written b' = written b @ net_bytes 4 (length data) @ data"
  using make_room_spec [OF assms(1) mem_extra [OF assms(2)], of "4 + length data" fresh] packmem_room [OF assms(1,2)] assms(3)
  by auto

lemma unpack_sized_reads:
  assumes "wf_buf b" "length data \<le> 1073741824" "unread b = net_bytes 4 (length data) @ data @ rest" "data = [] \<or> test data"
  shows "\<exists>b'. unpack_sized test b = Some (Some data, b') \<and> wf_buf b' \<and> unread b' = rest"
proof -
  let ?n = "of_nat (length data) :: u32"
  have n: "unat ?n = length data" using assms(2) by (simp add: u32_of_nat)
  obtain b1 where b1: "unpack_bytes 4 b = Some (Some (net_bytes 4 (length data)), b1)" "wf_buf b1" "unread b1 = data @ rest"
    using unpack_bytes_spec(2) [OF assms(1,3), of 4] by auto
  have lim: "\<not> MAX_PACK_MEM_LEN < ?n" "\<not> remaining_buf b1 < ?n"
    using n assms(2) unread_length [OF b1(2)] b1(3) by (simp_all add: word_less_nat_alt)
  obtain b2 where b2: "get_bytes (length data) b1 = Some (Some data, b2)" "wf_buf b2" "unread b2 = rest"
    using get_bytes_spec [OF b1(2), of "length data"] unread_length [OF b1(2)] b1(3) by auto
  have h: "of_nat (host_value (net_bytes 4 (length data))) = ?n" by (simp only: host_net net_host_fixed)
  show ?thesis
  proof (cases "data = []")
    case True
    then show ?thesis using b1 h by (simp add: unpack_sized_def Let_def)
  next
    case False
    then have "?n \<noteq> 0" using n by (metis length_0_conv unat_0)
    then show ?thesis using b1(1) b2 lim n False assms(4) unfolding unpack_sized_def by (simp add: h Let_def del: host_net)
  qed
qed

lemma unpack_sized_safe:
  assumes "wf_buf b"
  shows "\<exists>r b'. unpack_sized test b = Some (r, b') \<and> wf_buf b' \<and> length (unread b') \<le> length (unread b)"
proof -
  obtain r b1 where b1: "unpack_bytes 4 b = Some (r, b1)" "wf_buf b1" "length (unread b1) \<le> length (unread b)"
    using unpack_bytes_spec(1) [OF assms] by blast
  show ?thesis
  proof (cases r)
    case None
    then show ?thesis using b1 by (simp add: unpack_sized_def)
  next
    case (Some bs)
    let ?n = "of_nat (host_value bs) :: u32"
    show ?thesis
    proof (cases "remaining_buf b1 < ?n")
      case True
      then show ?thesis using b1 Some by (simp add: unpack_sized_def Let_def)
    next
      case False
      then obtain b2 where "get_bytes (unat ?n) b1 = Some (Some (take (unat ?n) (unread b1)), b2)" "wf_buf b2"
          "unread b2 = drop (unat ?n) (unread b1)"
        using get_bytes_spec [OF b1(2), of "unat ?n"] by (auto simp: word_less_nat_alt not_less)
      then show ?thesis using b1 Some False by (auto simp: unpack_sized_def Let_def)
    qed
  qed
qed

interpretation cmem: codec "packmem fresh" unpackmem_xmalloc "\<lambda>data. net_bytes 4 (length data) @ data"
    "\<lambda>data. length data \<le> 1073741824" for fresh
  using packmem_writes unpack_sized_reads [where test = "\<lambda>_. True"] unpack_sized_safe [where test = "\<lambda>_. True"]
  by unfold_locales (simp_all add: unpackmem_xmalloc_def add.commute)

definition str_bytes :: "u8 list option \<Rightarrow> u8 list" where
  "str_bytes str = (case str of None \<Rightarrow> [] | Some s \<Rightarrow> s @ [0])"

definition str_ok :: "u8 list option \<Rightarrow> bool" where
  "str_ok str \<longleftrightarrow> 0 \<notin> set (case str of None \<Rightarrow> [] | Some s \<Rightarrow> s) \<and> length (str_bytes str) \<le> 1073741824"

lemma c_str_bytes: "str_ok str \<Longrightarrow> c_str (str_bytes str) = str"
proof (cases str)
  case (Some s)
  moreover assume "str_ok str"
  ultimately have "0 \<notin> set s" by (simp add: str_ok_def)
  then have "takeWhile (\<lambda>c. c \<noteq> 0) (s @ [0]) = s" by (subst takeWhile_append2) auto
  then show ?thesis using Some by (simp add: c_str_def str_bytes_def)
qed (simp add: c_str_def str_bytes_def)

interpretation cstr: codec "packstr fresh" unpackstr_xmalloc "\<lambda>str. net_bytes 4 (length (str_bytes str)) @ str_bytes str" str_ok
  for fresh
proof unfold_locales
  fix b str rest
  assume w: "wf_buf b"
  show "\<exists>b'. packstr fresh str b = Some b' \<and> wf_buf b' \<and> written b' = written b @ net_bytes 4 (length (str_bytes str)) @ str_bytes str"
    if "str_ok str" "fits b (length (net_bytes 4 (length (str_bytes str)) @ str_bytes str))"
    using packmem_writes [OF w, of "str_bytes str" fresh] that by (simp add: packstr_def str_bytes_def str_ok_def)
  show "\<exists>b'. unpackstr_xmalloc b = Some (Some str, b') \<and> wf_buf b' \<and> unread b' = rest"
    if s: "str_ok str" "unread b = (net_bytes 4 (length (str_bytes str)) @ str_bytes str) @ rest"
  proof -
    have "str_bytes str = [] \<or> List.last (str_bytes str) = 0" by (auto simp: str_bytes_def split: option.split)
    then obtain b' where "unpack_sized (\<lambda>data. List.last data = 0) b = Some (Some (str_bytes str), b')" "wf_buf b'" "unread b' = rest"
      using unpack_sized_reads [OF w, of "str_bytes str" rest "\<lambda>data. List.last data = 0"] s by (auto simp: str_ok_def)
    then show ?thesis using c_str_bytes [OF s(1)] by (simp add: unpackstr_xmalloc_def)
  qed
  show "\<exists>r b'. unpackstr_xmalloc b = Some (r, b') \<and> wf_buf b' \<and> length (unread b') \<le> length (unread b)"
  proof -
    obtain r b' where "unpack_sized (\<lambda>data. List.last data = 0) b = Some (r, b')" "wf_buf b'" "length (unread b') \<le> length (unread b)"
      using unpack_sized_safe [OF w] by blast
    then show ?thesis by (cases r) (auto simp: unpackstr_xmalloc_def)
  qed
qed

end
