(* ===== verification/Pack_Props.thy ===== *)
theory Pack_Props
  imports Pack_Codec
begin

text \<open>
  Properties of packed messages: what was packed comes back, unpacking survives
  any bytes but for two readers, where packing stays inside its memory, and bit
  strings survive the transport.
\<close>

subsection \<open>Arrays\<close>

interpretation c16a: codec "pack16_array fresh" unpack16_array
    "\<lambda>xs. net_bytes 4 (length xs) @ concat (map (\<lambda>v. net_bytes 2 (unat v)) xs)"
    "\<lambda>xs. list_all (\<lambda>_. True) xs \<and> length xs < 4294967296" for fresh
  unfolding pack16_array_def unpack16_array_def by (rule c16.array_codec)

interpretation c32a: codec "pack32_array fresh" unpack32_array
    "\<lambda>xs. net_bytes 4 (length xs) @ concat (map (\<lambda>v. net_bytes 4 (unat v)) xs)"
    "\<lambda>xs. list_all (\<lambda>_. True) xs \<and> length xs < 4294967296" for fresh
  unfolding pack32_array_def unpack32_array_def by (rule c32.array_codec)

interpretation c64a: codec "pack64_array fresh" unpack64_array
    "\<lambda>xs. net_bytes 4 (length xs) @ concat (map (\<lambda>v. net_bytes 8 (unat v)) xs)"
    "\<lambda>xs. list_all (\<lambda>_. True) xs \<and> length xs < 4294967296" for fresh
  unfolding pack64_array_def unpack64_array_def by (rule c64.array_codec)

interpretation cdoublea: codec "packdouble_array scaled fresh" "unpackdouble_array unscaled"
    "\<lambda>xs. net_bytes 4 (length xs) @ concat (map (\<lambda>v. net_bytes 8 (unat (scaled v))) xs)"
    "\<lambda>xs. list_all (\<lambda>v. unscaled (scaled v) = v) xs \<and> length xs < 4294967296" for scaled fresh unscaled
  unfolding packdouble_array_def unpackdouble_array_def by (rule cdouble.array_codec)

abbreviation str_enc :: "u8 list option \<Rightarrow> u8 list" where
  "str_enc str \<equiv> net_bytes 4 (length (str_bytes str)) @ str_bytes str"

lemma max_count: "(n :: u32) + 1 = 0 \<longleftrightarrow> unat n = 4294967295"
proof
  assume "n + 1 = 0"
  then have "n = - 1" by (simp add: eq_neg_iff_add_eq_0)
  also have "\<dots> = 4294967295" by simp
  finally show "unat n = 4294967295" by simp
next
  assume "unat n = 4294967295"
  then have "n = 0xffffffff" by (simp add: word_unat_eq_iff)
  then show "n + 1 = 0" by simp
qed

lemma packstr_array_eq:
  assumes "wf_buf b" "fits b 4"
  shows "packstr_array fresh xs b = pack_array fresh (packstr fresh) xs b"
proof -
  obtain b1 where "make_room fresh 4 BUF_SIZE b = Some b1"
    using make_room_spec [OF assms(1), of BUF_SIZE 16384 4 fresh] assms(2) by auto
  then show ?thesis by (simp add: packstr_array_def pack_array_def pack32_def pack_bytes_def)
qed

interpretation cstrs: wire "packstr_array fresh" unpackstr_array
    "\<lambda>xs. net_bytes 4 (length xs) @ concat (map str_enc xs)"
    "\<lambda>xs. list_all str_ok xs \<and> length xs < 4294967295" for fresh
proof
  fix b xs rest
  assume w: "wf_buf b" and ok: "list_all str_ok xs \<and> length xs < 4294967295"
  show "\<exists>b'. packstr_array fresh xs b = Some b' \<and> wf_buf b' \<and> written b' = written b @ net_bytes 4 (length xs) @ concat (map str_enc xs)"
    if "fits b (length (net_bytes 4 (length xs) @ concat (map str_enc xs)))"
    using wire.pack_writes [OF cstr.array_wire w, of xs fresh] ok that packstr_array_eq [OF w] by (simp add: fits_def)
  show "\<exists>b'. unpackstr_array b = Some (Some xs, b') \<and> wf_buf b' \<and> unread b' = rest"
    if u: "unread b = (net_bytes 4 (length xs) @ concat (map str_enc xs)) @ rest"
  proof -
    let ?n = "of_nat (length xs) :: u32"
    have n: "unat ?n = length xs" using ok by (simp add: u32_of_nat)
    then have "?n + 1 \<noteq> 0" using ok max_count [of ?n] by simp
    moreover obtain b1 where b1: "unpack32 b = Some (Some ?n, b1)" "wf_buf b1" "unread b1 = concat (map str_enc xs) @ rest"
      using unpack32_reads [OF w, of ?n "concat (map str_enc xs) @ rest"] u n by auto
    ultimately show ?thesis using cstr.unpack_each_reads [OF b1(2) _ b1(3)] ok n by (auto simp: unpackstr_array_def)
  qed
qed

subsection \<open>Messages\<close>

datatype field =
    Int8 u8 | Int16 u16 | Int32 u32 | Int64 u64 | Time int | Bool bool | Mem "u8 list" | Str "u8 list option"
  | Ints16 "u16 list" | Ints32 "u32 list" | Ints64 "u64 list" | Strs "u8 list option list"

datatype kind = KInt8 | KInt16 | KInt32 | KInt64 | KTime | KBool | KMem | KStr | KInts16 | KInts32 | KInts64 | KStrs

fun kind_of :: "field \<Rightarrow> kind" where
  "kind_of (Int8 _) = KInt8" | "kind_of (Int16 _) = KInt16" | "kind_of (Int32 _) = KInt32" | "kind_of (Int64 _) = KInt64"
| "kind_of (Time _) = KTime" | "kind_of (Bool _) = KBool" | "kind_of (Mem _) = KMem" | "kind_of (Str _) = KStr"
| "kind_of (Ints16 _) = KInts16" | "kind_of (Ints32 _) = KInts32" | "kind_of (Ints64 _) = KInts64" | "kind_of (Strs _) = KStrs"

fun pack_field :: "(nat \<Rightarrow> u8) \<Rightarrow> field \<Rightarrow> buf \<Rightarrow> buf option" where
  "pack_field fresh (Int8 v) b = pack8 fresh v b"
| "pack_field fresh (Int16 v) b = pack16 fresh v b"
| "pack_field fresh (Int32 v) b = pack32 fresh v b"
| "pack_field fresh (Int64 v) b = pack64 fresh v b"
| "pack_field fresh (Time v) b = pack_time fresh v b"
| "pack_field fresh (Bool v) b = packbool fresh v b"
| "pack_field fresh (Mem v) b = packmem fresh v b"
| "pack_field fresh (Str v) b = packstr fresh v b"
| "pack_field fresh (Ints16 v) b = pack16_array fresh v b"
| "pack_field fresh (Ints32 v) b = pack32_array fresh v b"
| "pack_field fresh (Ints64 v) b = pack64_array fresh v b"
| "pack_field fresh (Strs v) b = packstr_array fresh v b"

definition as_field :: "('a \<Rightarrow> field) \<Rightarrow> ('a option \<times> buf) option \<Rightarrow> (field option \<times> buf) option" where
  "as_field c r = map_option (\<lambda>(v, b). (map_option c v, b)) r"

fun unpack_kind :: "kind \<Rightarrow> buf \<Rightarrow> (field option \<times> buf) option" where
  "unpack_kind KInt8 b = as_field Int8 (unpack8 b)"
| "unpack_kind KInt16 b = as_field Int16 (unpack16 b)"
| "unpack_kind KInt32 b = as_field Int32 (unpack32 b)"
| "unpack_kind KInt64 b = as_field Int64 (unpack64 b)"
| "unpack_kind KTime b = as_field Time (unpack_time b)"
| "unpack_kind KBool b = as_field Bool (unpackbool b)"
| "unpack_kind KMem b = as_field Mem (unpackmem_xmalloc b)"
| "unpack_kind KStr b = as_field Str (unpackstr_xmalloc b)"
| "unpack_kind KInts16 b = as_field Ints16 (unpack16_array b)"
| "unpack_kind KInts32 b = as_field Ints32 (unpack32_array b)"
| "unpack_kind KInts64 b = as_field Ints64 (unpack64_array b)"
| "unpack_kind KStrs b = as_field Strs (unpackstr_array b)"

fun unpack_kinds :: "kind list \<Rightarrow> buf \<Rightarrow> (field list option \<times> buf) option" where
  "unpack_kinds [] b = Some (Some [], b)"
| "unpack_kinds (k # ks) b =
     andthen (unpack_kind k b) (\<lambda>f b. andthen (unpack_kinds ks b) (\<lambda>fs b. Some (Some (f # fs), b)))"

fun field_ok :: "field \<Rightarrow> bool" where
  "field_ok (Time t) = (- (2 ^ 63) \<le> t \<and> t < 2 ^ 63)"
| "field_ok (Mem d) = (length d \<le> 1073741824)"
| "field_ok (Str s) = str_ok s"
| "field_ok (Ints16 xs) = (length xs < 4294967296)"
| "field_ok (Ints32 xs) = (length xs < 4294967296)"
| "field_ok (Ints64 xs) = (length xs < 4294967296)"
| "field_ok (Strs xs) = (list_all str_ok xs \<and> length xs < 4294967295)"
| "field_ok _ = True"

fun field_bytes :: "field \<Rightarrow> u8 list" where
  "field_bytes (Int8 v) = [v]"
| "field_bytes (Int16 v) = net_bytes 2 (unat v)"
| "field_bytes (Int32 v) = net_bytes 4 (unat v)"
| "field_bytes (Int64 v) = net_bytes 8 (unat v)"
| "field_bytes (Time t) = net_bytes 8 (unat (of_int t :: u64))"
| "field_bytes (Bool v) = [if v then 1 else 0]"
| "field_bytes (Mem d) = net_bytes 4 (length d) @ d"
| "field_bytes (Str s) = str_enc s"
| "field_bytes (Ints16 xs) = net_bytes 4 (length xs) @ concat (map (\<lambda>v. net_bytes 2 (unat v)) xs)"
| "field_bytes (Ints32 xs) = net_bytes 4 (length xs) @ concat (map (\<lambda>v. net_bytes 4 (unat v)) xs)"
| "field_bytes (Ints64 xs) = net_bytes 4 (length xs) @ concat (map (\<lambda>v. net_bytes 8 (unat v)) xs)"
| "field_bytes (Strs xs) = net_bytes 4 (length xs) @ concat (map str_enc xs)"

lemma field_wire: "wire (pack_field fresh) (unpack_kind k) field_bytes (\<lambda>f. kind_of f = k \<and> field_ok f)"
proof
  fix b f rest
  assume w: "wf_buf b" and f: "kind_of f = k \<and> field_ok f"
  show "\<exists>b'. pack_field fresh f b = Some b' \<and> wf_buf b' \<and> written b' = written b @ field_bytes f" if "fits b (length (field_bytes f))"
    using f that c8.pack_writes [OF w] c16.pack_writes [OF w] c32.pack_writes [OF w] c64.pack_writes [OF w]
      ctime.pack_writes [OF w] cbool.pack_writes [OF w] cmem.pack_writes [OF w] cstr.pack_writes [OF w]
      c16a.pack_writes [OF w] c32a.pack_writes [OF w] c64a.pack_writes [OF w] cstrs.pack_writes [OF w]
    by (cases f) (simp_all add: list_all_iff)
  show "\<exists>b'. unpack_kind k b = Some (Some f, b') \<and> wf_buf b' \<and> unread b' = rest" if "unread b = field_bytes f @ rest"
    using f that c8.unpack_reads [OF w] c16.unpack_reads [OF w] c32.unpack_reads [OF w] c64.unpack_reads [OF w]
      ctime.unpack_reads [OF w] cbool.unpack_reads [OF w] cmem.unpack_reads [OF w] cstr.unpack_reads [OF w]
      c16a.unpack_reads [OF w] c32a.unpack_reads [OF w] c64a.unpack_reads [OF w] cstrs.unpack_reads [OF w]
    by (cases f) (fastforce simp: as_field_def list_all_iff)+
qed

lemma pack_fields_write:
  "wf_buf b \<Longrightarrow> list_all field_ok fs \<Longrightarrow> fits b (length (concat (map field_bytes fs))) \<Longrightarrow>
    \<exists>b'. pack_each (pack_field fresh) fs b = Some b' \<and> wf_buf b' \<and> written b' = written b @ concat (map field_bytes fs)"
proof (induction fs arbitrary: b)
  case (Cons f fs)
  obtain b1 where b1: "pack_field fresh f b = Some b1" "wf_buf b1" "written b1 = written b @ field_bytes f"
    using wire.pack_writes [OF field_wire Cons.prems(1), of f "kind_of f" fresh] Cons.prems(2,3) by (auto simp: fits_def)
  have "fits b1 (length (concat (map field_bytes fs)))"
    using wire.fits_more [OF field_wire Cons.prems(1) b1(2,3)] Cons.prems(3) by simp
  then show ?case using Cons.IH [OF b1(2)] Cons.prems(2) b1 by auto
qed simp

lemma unpack_kinds_read:
  "wf_buf b \<Longrightarrow> list_all field_ok fs \<Longrightarrow> unread b = concat (map field_bytes fs) @ rest \<Longrightarrow>
    \<exists>b'. unpack_kinds (map kind_of fs) b = Some (Some fs, b') \<and> wf_buf b' \<and> unread b' = rest"
proof (induction fs arbitrary: b)
  case (Cons f fs)
  obtain b1 where b1: "unpack_kind (kind_of f) b = Some (Some f, b1)" "wf_buf b1" "unread b1 = concat (map field_bytes fs) @ rest"
    using wire.unpack_reads [OF field_wire Cons.prems(1), of f "kind_of f"] Cons.prems(2,3) by auto
  then show ?case using Cons.IH [OF b1(2) _ b1(3)] Cons.prems(2) by auto
qed simp

lemma init_buf_spec: "init_buf sz = Some b \<Longrightarrow> wf_buf b \<and> written b = [] \<and> processed b = 0"
  by (auto simp: init_buf_def wf_buf_def written_def Let_def not_less word_le_nat_alt split: if_splits)

text \<open>C37: Every message that was packed into a new buffer and fits the size limit is
  unpacked unchanged, field by field and to its last byte: integers of all
  widths, times, booleans, memory, strings, arrays and arrays of strings, a
  null pointer being kept apart from an empty string.\<close>

theorem message_round_trip:
  assumes "init_buf sz = Some b" "list_all field_ok fs"
    and "2 * length (concat (map field_bytes fs)) + 16384 \<le> unat MAX_BUF_SIZE"
  shows "\<exists>b' b''. pack_each (pack_field fresh) fs b = Some b'
    \<and> unpack_kinds (map kind_of fs) (set_buf_offset b' 0) = Some (Some fs, b'') \<and> unread b'' = unread b'"
proof -
  note i = init_buf_spec [OF assms(1)]
  obtain b1 where b1: "pack_each (pack_field fresh) fs b = Some b1" "wf_buf b1" "written b1 = concat (map field_bytes fs)"
    using pack_fields_write [of b fs fresh] i assms(2,3) by (auto simp: fits_def)
  let ?b = "set_buf_offset b1 0"
  have w: "wf_buf ?b" using b1(2) by (simp add: wf_buf_def set_buf_offset_def)
  have u: "unread ?b = concat (map field_bytes fs) @ unread b1"
    by (simp add: unread_def set_buf_offset_def written_def flip: b1(3))
  obtain b2 where b2: "unpack_kinds (map kind_of fs) ?b = Some (Some fs, b2)" "wf_buf b2" "unread b2 = unread b1"
    using unpack_kinds_read [OF w assms(2) u] by blast
  then show ?thesis using b1(1) by blast
qed

definition sample_message :: "field list" where
  "sample_message = [Int16 513, Str (Some [104, 105]), Str None, Time (- 1), Strs [Some [], None], Ints32 [7, 8], Bool True]"

theorem message_round_trip_witness:
  "\<exists>b b' b''. init_buf 8 = Some b \<and> pack_each (pack_field (\<lambda>_. 170)) sample_message b = Some b'
     \<and> unpack_kinds (map kind_of sample_message) (set_buf_offset b' 0) = Some (Some sample_message, b'')"
proof -
  obtain b where b: "init_buf 8 = Some b" by (simp add: init_buf_def MAX_BUF_SIZE_def)
  have "list_all field_ok sample_message" by (simp add: sample_message_def str_ok_def str_bytes_def)
  moreover have "2 * length (concat (map field_bytes sample_message)) + 16384 \<le> unat MAX_BUF_SIZE"
    by (simp add: sample_message_def str_bytes_def)
  ultimately show ?thesis using message_round_trip [OF b, of sample_message "\<lambda>_. 170"] b by blast
qed

subsection \<open>Any bytes\<close>

lemma as_field_safe:
  "\<exists>r b'. u = Some (r, b') \<and> P b' \<Longrightarrow> \<exists>r b'. as_field c u = Some (r, b') \<and> P b'"
  by (auto simp: as_field_def)

lemma unpack_kind_safe:
  assumes "wf_buf b" "k \<noteq> KStrs"
  shows "\<exists>r b'. unpack_kind k b = Some (r, b') \<and> wf_buf b' \<and> length (unread b') \<le> length (unread b)"
  using assms(2) c8.unpack_safe [OF assms(1)] c16.unpack_safe [OF assms(1)] c32.unpack_safe [OF assms(1)]
    c64.unpack_safe [OF assms(1)] ctime.unpack_safe [OF assms(1)] cbool.unpack_safe [OF assms(1)]
    cmem.unpack_safe [OF assms(1)] cstr.unpack_safe [OF assms(1)] c16a.unpack_safe [OF assms(1)]
    c32a.unpack_safe [OF assms(1)] c64a.unpack_safe [OF assms(1)]
  by (cases k) (auto intro!: as_field_safe)

lemma unpack_strs_safe:
  assumes "wf_buf b" "unpack32 b = Some (r, b1)"
  shows "(\<exists>r b'. unpackstr_array b = Some (r, b') \<and> wf_buf b')
     \<longleftrightarrow> \<not> (\<exists>n s b2. r = Some n \<and> unat n = 4294967295 \<and> unpackstr_xmalloc b1 = Some (Some s, b2))"
proof (cases r)
  case None
  then show ?thesis using assms unpack32_safe [OF assms(1)] by (simp add: unpackstr_array_def)
next
  case (Some n)
  have w: "wf_buf b1" using unpack32_safe [OF assms(1)] assms(2) by auto
  obtain q b2 where q: "unpackstr_xmalloc b1 = Some (q, b2)" "wf_buf b2" using cstr.unpack_safe [OF w] by blast
  show ?thesis
  proof (cases "unat n = 4294967295")
    case True
    then show ?thesis using Some assms(2) q max_count [of n] by (cases q) (simp_all add: unpackstr_array_def)
  next
    case False
    then show ?thesis using Some assms(2) cstr.unpack_each_safe [OF w, of "unat n"] max_count [of n]
      by (auto simp: unpackstr_array_def)
  qed
qed

text \<open>C38: Whatever bytes a well-formed buffer holds, every unpacking function for
  integers, times, booleans, memory, strings and integer arrays returns a value or
  an error without accessing memory outside the buffer, and leaves it well
  formed and its position not moved back. The array of strings is the
  exception: it fails exactly when the count on the wire is the largest 32-bit
  number and a valid string follows, because the allocation size wraps to zero.\<close>

theorem unpack_any_bytes:
  assumes "wf_buf b"
  shows "(k \<noteq> KStrs \<longrightarrow> (\<exists>r b'. unpack_kind k b = Some (r, b') \<and> wf_buf b' \<and> length (unread b') \<le> length (unread b)))
    \<and> (unpackstr_array b = None \<longleftrightarrow> (\<exists>n b1 s b2. unpack32 b = Some (Some n, b1) \<and> unat n = 4294967295
         \<and> unpackstr_xmalloc b1 = Some (Some s, b2)))"
proof -
  obtain r b1 where r: "unpack32 b = Some (r, b1)" using unpack32_safe [OF assms] by blast
  have w: "unpackstr_array b = Some (v, b') \<Longrightarrow> wf_buf b'" for v b'
  proof -
    assume *: "unpackstr_array b = Some (v, b')"
    then have "\<not> (\<exists>n s b2. r = Some n \<and> unat n = 4294967295 \<and> unpackstr_xmalloc b1 = Some (Some s, b2))"
      using r max_count by (auto simp: unpackstr_array_def)
    then show "wf_buf b'" using unpack_strs_safe [OF assms r] * by auto
  qed
  have "unpackstr_array b = None \<longleftrightarrow> \<not> (\<exists>v b'. unpackstr_array b = Some (v, b') \<and> wf_buf b')"
    using w by (cases "unpackstr_array b") auto
  then show ?thesis using unpack_kind_safe [OF assms] unpack_strs_safe [OF assms r] r by auto
qed

definition hostile :: buf where
  "hostile = \<lparr>buf_head = [255, 255, 255, 255, 0, 0, 0, 0], buf_size = 8, processed = 0, mmaped = False\<rparr>"

theorem unpack_any_bytes_witness:
  "wf_buf hostile \<and> (\<exists>r b'. unpack_kind KMem hostile = Some (r, b')) \<and> unpackstr_array hostile = None"
proof -
  have w: "wf_buf hostile" by (simp add: wf_buf_def hostile_def MAX_BUF_SIZE_def)
  have "\<exists>n b1 s b2. unpack32 hostile = Some (Some n, b1) \<and> unat n = 4294967295 \<and> unpackstr_xmalloc b1 = Some (Some s, b2)"
    by (simp add: hostile_def unpack32_def unpack_bytes_def get_bytes_def remaining_buf_def host_value_def
        unpackstr_xmalloc_def unpack_sized_def MAX_PACK_MEM_LEN_def)
  then show ?thesis using w unpack_any_bytes [OF w, of KMem] by blast
qed

subsection \<open>Limits\<close>

lemma pack_bytes_safe:
  assumes "wf_buf b" "length bs \<le> unat extra" "unat (buf_size b) + unat extra < 4294967296"
  shows "\<exists>b'. pack_bytes fresh bs extra b = Some b' \<and> wf_buf b' \<and> (b' = b \<or> written b' = written b @ bs)"
proof (cases "make_room fresh (length bs) extra b")
  case None
  then show ?thesis using assms(1) by (simp add: pack_bytes_def)
next
  case (Some b1)
  note r = make_room_safe [OF assms Some]
  then show ?thesis using put_bytes_spec [OF r(1), of bs] Some by (auto simp: pack_bytes_def)
qed

lemma u32_add_wrap:
  assumes "4294967296 \<le> unat (a :: u32) + unat c"
  shows "unat (a + c) = unat a + unat c - 4294967296"
proof -
  have "unat a < 2 ^ LENGTH(32)" "unat c < 2 ^ LENGTH(32)" by (rule unsigned_less)+
  then show ?thesis using assms by (simp add: unat_word_ariths le_mod_geq)
qed

lemma put_bytes_length:
  "put_bytes bs b = Some b' \<Longrightarrow> length (buf_head b') = length (buf_head b)
     \<and> unat (processed b) + length bs \<le> length (buf_head b) \<and> processed b' = processed b + of_nat (length bs)"
  by (auto simp: put_bytes_def Let_def split: if_splits)

lemma packmem_wraps:
  assumes "wf_buf b" "length data \<le> 1073741824" "unat (remaining_buf b) < 4 + length data"
    and "4294967296 \<le> unat (buf_size b) + length data + 16384"
  shows "packmem fresh data b = None"
proof -
  note w = wf_bufD [OF assms(1)]
  let ?n = "of_nat (length data) :: u32"
  let ?s = "buf_size b + (?n + BUF_SIZE)"
  have n: "unat ?n = length data" using assms(2) by (simp add: u32_of_nat)
  have e: "unat (?n + BUF_SIZE) = length data + 16384" using n assms(2) u32_add [of ?n BUF_SIZE] by simp
  have s: "unat ?s = unat (buf_size b) + length data + 16384 - 4294967296"
    using u32_add_wrap [of "buf_size b" "?n + BUF_SIZE"] assms(4) e by simp
  have lim: "\<not> MAX_BUF_SIZE < ?s" "\<not> MAX_PACK_MEM_LEN < ?n" "?n \<noteq> 0"
    using s n w(3) assms(2,4) by (auto simp: word_less_nat_alt)
  define b1 where "b1 = b\<lparr>buf_size := ?s, buf_head := xrealloc_nz fresh (buf_head b) (unat ?s)\<rparr>"
  have b1: "length (buf_head b1) \<le> unat (buf_size b)" "processed b1 = processed b"
    using s w(1) assms(2) by (auto simp: b1_def xrealloc_nz_def)
  have m: "make_room fresh (4 + length data) (?n + BUF_SIZE) b = Some b1"
    using assms(3) lim(1) by (simp add: make_room_def b1_def)
  show ?thesis
  proof (cases "put_bytes (net_bytes 4 (length data)) b1")
    case None
    then show ?thesis using m lim(2) n by (simp add: packmem_def Let_def)
  next
    case (Some b2)
    note p = put_bytes_length [OF Some]
    have "unat (processed b2) = unat (processed b) + 4"
      using p b1 w(3) u32_add [of "processed b" 4] by simp
    then have "\<not> unat (processed b2) + length data \<le> length (buf_head b2)" using p b1 w(2,4) assms(3) by linarith
    then have "put_bytes data b2 = None" by (simp add: put_bytes_def Let_def)
    then show ?thesis using m lim(2,3) n Some by (simp add: packmem_def Let_def)
  qed
qed

lemma packmem_safe:
  assumes "wf_buf b" "length data \<le> 1073741824" "unat (buf_size b) + length data + 16384 < 4294967296"
  shows "\<exists>b'. packmem fresh data b = Some b' \<and> wf_buf b' \<and> (b' = b \<or> written b' = written b @ net_bytes 4 (length data) @ data)"
proof -
  let ?e = "of_nat (length data) + BUF_SIZE"
  have e: "4 + length data \<le> unat ?e" "unat (buf_size b) + unat ?e < 4294967296"
    using mem_extra [OF assms(2)] assms(3) by simp_all
  show ?thesis
  proof (cases "make_room fresh (4 + length data) ?e b")
    case None
    then show ?thesis using assms(1,2) by (simp add: packmem_def Let_def u32_of_nat)
  next
    case (Some b1)
    note r = make_room_safe [OF assms(1) e Some]
    show ?thesis using packmem_room [OF assms(1,2) Some r(1-3)] by auto
  qed
qed

text \<open>Packing an integer never writes outside the buffer's memory: it appends the
  bytes or, at the size limit, changes nothing. Packing memory is as safe as long
  as the buffer size, the length and the growth step together stay below
  \<open>2 ^ 32\<close>; when the buffer has to grow and they do not, the check of the limit
  wraps around, the buffer shrinks, and the copy runs past its end.\<close>

lemma packing_bounds:
  assumes "wf_buf b" "length data \<le> 1073741824"
  shows "(\<exists>b'. pack64 fresh v b = Some b' \<and> wf_buf b' \<and> (b' = b \<or> written b' = written b @ net_bytes 8 (unat v)))
    \<and> (\<exists>b'. pack8 fresh c b = Some b' \<and> wf_buf b' \<and> (b' = b \<or> written b' = written b @ [c]))
    \<and> (unat (buf_size b) + length data + 16384 < 4294967296 \<longrightarrow>
         (\<exists>b'. packmem fresh data b = Some b' \<and> wf_buf b' \<and> (b' = b \<or> written b' = written b @ net_bytes 4 (length data) @ data)))
    \<and> (4294967296 \<le> unat (buf_size b) + length data + 16384 \<longrightarrow> unat (remaining_buf b) < 4 + length data \<longrightarrow>
         packmem fresh data b = None)"
proof -
  have s: "unat (buf_size b) + unat BUF_SIZE < 4294967296" using wf_bufD(3) [OF assms(1)] by simp
  have "\<exists>b'. pack64 fresh v b = Some b' \<and> wf_buf b' \<and> (b' = b \<or> written b' = written b @ net_bytes 8 (unat v))"
    using pack_bytes_safe [OF assms(1) _ s, of "net_bytes 8 (unat v)" fresh] by (simp add: pack64_def)
  moreover have "\<exists>b'. pack8 fresh c b = Some b' \<and> wf_buf b' \<and> (b' = b \<or> written b' = written b @ [c])"
    using pack_bytes_safe [OF assms(1) _ s, of "[c]" fresh] by (simp add: pack8_def)
  ultimately show ?thesis using packmem_safe [OF assms] packmem_wraps [OF assms] by blast
qed

definition huge :: buf where
  "huge = \<lparr>buf_head = replicate 3758096384 0, buf_size = 3758096384, processed = 3758096384, mmaped = False\<rparr>"

subsection \<open>Bit strings on the wire\<close>

lemma bytes_string: "string_of (bytes_of s) = s"
  by (induction s) (simp_all add: string_of_def bytes_of_def unat_of_nat)

lemma hex_char_nonzero: "d < 16 \<Longrightarrow> (of_char (hex_char d) :: nat) \<noteq> 0"
  by (auto simp: hex_char_def of_char_of)

lemma hexmask_chars:
  assumes "wf_bitstr m"
  shows "0 \<notin> set (bytes_of (bit_fmt_hexmask m))" "length (bytes_of (bit_fmt_hexmask m)) < 1073741824"
proof -
  note t = hexmask_text [OF assms]
  have "of_char c \<noteq> (0 :: nat)" if "c \<in> set (bit_fmt_hexmask m)" for c
    using that hex_char_nonzero nibble_less unfolding t by (auto simp: mask_text_def)
  moreover have "(of_nat (of_char c) :: u8) = 0 \<longleftrightarrow> of_char c = (0 :: nat)" for c
    by (simp add: word_unat_eq_iff unat_of_nat)
  ultimately show "0 \<notin> set (bytes_of (bit_fmt_hexmask m))" by (force simp: bytes_of_def)
  have "bs_bits m \<le> 0x40000000" using assms by (simp add: wf_bitstr_def valid_size_def)
  then show "length (bytes_of (bit_fmt_hexmask m)) < 1073741824"
    unfolding t by (simp add: bytes_of_def mask_text_def)
qed

definition bits_enc :: "bitstr option \<Rightarrow> u8 list" where
  "bits_enc bm = (case bm of None \<Rightarrow> net_bytes 4 (unat NO_VAL)
     | Some m \<Rightarrow> net_bytes 4 (bs_bits m) @ str_enc (Some (bytes_of (bit_fmt_hexmask m))))"

text \<open>A bit string that is packed as a hexadecimal mask and unpacked again keeps
  its size and its set of positions, and the absent bit string is kept apart;
  the rest of the message is left to be read.\<close>

lemma bit_str_hex_round_trip:
  assumes "wf_buf b" "wf_bitstr m" "fits b (length (bits_enc (Some m)))" "wf_buf d" "unread d = bits_enc (Some m) @ rest"
    and "wf_buf e" "unread e = bits_enc None @ rest"
  shows "(\<exists>b'. pack_bit_str_hex fresh (Some m) b = Some b' \<and> wf_buf b' \<and> written b' = written b @ bits_enc (Some m))
    \<and> (\<exists>m' d'. unpack_bit_str_hex False d = Some (Some (Some m'), d') \<and> bs_bits m' = bs_bits m \<and> bset m' = bset m \<and> unread d' = rest)
    \<and> (\<exists>e'. unpack_bit_str_hex False e = Some (Some None, e') \<and> unread e' = rest)"
proof -
  let ?str = "Some (bytes_of (bit_fmt_hexmask m))"
  let ?n = "of_nat (bs_bits m) :: u32"
  have v: "valid_size (bs_bits m)" using assms(2) by (simp add: wf_bitstr_def)
  have n: "unat ?n = bs_bits m" "?n \<noteq> NO_VAL" "?n \<noteq> 0"
    using v by (auto simp: u32_of_nat valid_size_def word_unat_eq_iff NO_VAL_def)
  have ok: "str_ok ?str" using hexmask_chars [OF assms(2)] by (simp add: str_ok_def str_bytes_def)
  obtain b1 where b1: "pack32 fresh ?n b = Some b1" "wf_buf b1" "written b1 = written b @ net_bytes 4 (bs_bits m)"
    using pack32_writes [OF assms(1), of fresh ?n] assms(3) n by (auto simp: fits_def bits_enc_def)
  have f: "fits b1 (length (str_enc ?str))"
    using wire.fits_more [OF field_wire assms(1) b1(2,3)] assms(3) by (simp add: bits_enc_def)
  have p: "\<exists>b'. pack_bit_str_hex fresh (Some m) b = Some b' \<and> wf_buf b' \<and> written b' = written b @ bits_enc (Some m)"
    using cstr.pack_writes [OF b1(2) ok f, of fresh] b1 by (auto simp: pack_bit_str_hex_def packstr_def bits_enc_def bit_size_def)
  obtain d1 where d1: "unpack32 d = Some (Some ?n, d1)" "wf_buf d1" "unread d1 = str_enc ?str @ rest"
    using unpack32_reads [OF assms(4), of ?n "str_enc ?str @ rest"] assms(5) n by (auto simp: bits_enc_def)
  obtain d2 where d2: "unpackstr_xmalloc d1 = Some (Some ?str, d2)" "unread d2 = rest"
    using cstr.unpack_reads [OF d1(2) ok d1(3)] by blast
  have "bset m \<subseteq> {..<bs_bits (bit_alloc (bs_bits m))}" using bset_less by (auto simp: bit_alloc_def)
  from bit_unfmt_bit_fmt_hexmask [OF assms(2) wf_bit_alloc [OF v] this] obtain m' where
    m': "bit_unfmt_hexmask (Some (bit_alloc (bs_bits m))) (Some (bit_fmt_hexmask m)) = (Some m', 0)"
      "bs_bits m' = bs_bits m" "bset m' = bset m" by (auto simp: bit_alloc_def)
  have "unpack_bit_str_hex False d = Some (Some (Some m'), d2)"
    using d1(1) d2(1) n m'(1) by (simp add: unpack_bit_str_hex_def unpackstr_xmalloc_chooser_def bytes_string)
  moreover have "\<exists>e'. unpack_bit_str_hex False e = Some (Some None, e') \<and> unread e' = rest"
    using unpack32_reads [OF assms(6), of NO_VAL rest] assms(7) by (auto simp: unpack_bit_str_hex_def bits_enc_def)
  ultimately show ?thesis using p m' d2(2) by blast
qed


definition full_buf :: "u8 list \<Rightarrow> buf" where
  "full_buf bs = \<lparr>buf_head = bs, buf_size = of_nat (length bs), processed = 0, mmaped = False\<rparr>"

lemma full_buf_facts: "length bs \<le> 4294901760 \<Longrightarrow> wf_buf (full_buf bs)" "unread (full_buf bs) = bs @ []"
  by (simp_all add: full_buf_def wf_buf_def unread_def u32_of_nat word_le_nat_alt)

end
