(* ===== verification/Licenses.thy ===== *)
theory Licenses
  imports C_Strings Pack
begin

text \<open>
  The licenses of the cluster and of jobs (\<^verbatim>\<open>src/slurmctld/licenses.c\<close>): reading and
  printing license strings, licenses managed by the database, the test, the use
  and the return of a job's licenses, and the report to clients with its reader in
  \<^verbatim>\<open>src/common/slurm_protocol_pack.c\<close>. The license counts of the backfill scheduler
  are in another theory.

  A list is \<open>None\<close> when the pointer is \<^verbatim>\<open>NULL\<close>; an operation returns \<open>None\<close> when it
  follows a null pointer or ends the process. Counts are 32-bit words.
\<close>

subsection \<open>Lists of records\<close>

text \<open>\<^verbatim>\<open>list_find_first\<close> follows the pointer to the list; an update through its result changes the first match.\<close>

definition list_find_first :: "'a list option \<Rightarrow> ('a \<Rightarrow> bool) \<Rightarrow> 'a option option" where
  "list_find_first l p = map_option (find p) l"

fun update_first :: "('a \<Rightarrow> bool) \<Rightarrow> ('a \<Rightarrow> 'a) \<Rightarrow> 'a list \<Rightarrow> 'a list" where
  "update_first p f [] = []"
| "update_first p f (x # xs) = (if p x then f x # xs else x # update_first p f xs)"

subsection \<open>State\<close>

record licenses =
  l_name :: string
  l_total :: u32
  l_used :: u32
  l_reserved :: u32
  l_remote :: u8
  l_last_deficit :: u32
  l_last_consumed :: u32
  l_last_update :: int

record license_state =
  cluster_license_list :: "licenses list option"
  last_license_update :: int

text \<open>What the functions use of a job: its license string, its list and its reservation (\<open>0\<close> is none).\<close>

record license_job =
  job_licenses :: "string option"
  license_list :: "licenses list option"
  job_resv :: nat

definition SLURM_SUCCESS :: int where "SLURM_SUCCESS = 0"
definition SLURM_ERROR :: int where "SLURM_ERROR = - 1"
definition EAGAIN :: int where "EAGAIN = 11"

definition license_find_rec :: "string \<Rightarrow> licenses \<Rightarrow> bool" where
  "license_find_rec name x \<longleftrightarrow> l_name x = name"

definition license_find_remote_rec :: "string \<Rightarrow> licenses \<Rightarrow> bool" where
  "license_find_remote_rec name x \<longleftrightarrow> l_remote x \<noteq> 0 \<and> license_find_rec name x"

definition new_license :: "string \<Rightarrow> u32 \<Rightarrow> licenses" where
  "new_license name num =
     \<lparr>l_name = name, l_total = num, l_used = 0, l_reserved = 0, l_remote = 0,
      l_last_deficit = 0, l_last_consumed = 0, l_last_update = 0\<rparr>"

subsection \<open>License strings\<close>

text \<open>The tokens of \<^verbatim>\<open>strtok_r\<close>: the longest pieces without a separator.\<close>

definition tokens :: "(char \<Rightarrow> bool) \<Rightarrow> string \<Rightarrow> string list" where
  "tokens sep s = filter (\<lambda>t. t \<noteq> []) (foldr (\<lambda>c ts. if sep c then [] # ts else (c # hd ts) # tl ts) s [[]])"

definition license_sep :: "char \<Rightarrow> bool" where
  "license_sep c \<longleftrightarrow> c = CHR '','' \<or> c = CHR '';''"

text \<open>One token: its name and its number, unless it is not valid.\<close>

definition parse_license :: "string \<Rightarrow> (string \<times> int) option" where
  "parse_license token =
     (let name = takeWhile (\<lambda>c. c \<noteq> CHR '':'') token;
          rest = dropWhile (\<lambda>c. c \<noteq> CHR '':'') token
      in if \<exists>c \<in> set name. is_space c then None
         else if rest = [] then Some (name, 1)
         else let (v, end_num) = strtol (tl rest); num = to_int32 v
              in if end_num \<noteq> [] \<or> num < 0 then None else Some (name, num))"

definition add_license :: "string \<Rightarrow> int \<Rightarrow> licenses list \<Rightarrow> licenses list" where
  "add_license name num ls =
     (if find (license_find_rec name) ls \<noteq> None
      then update_first (license_find_rec name) (\<lambda>l. l\<lparr>l_total := l_total l + of_int num\<rparr>) ls
      else new_license name (of_int num) # ls)"

fun build_loop :: "string list \<Rightarrow> licenses list \<Rightarrow> licenses list option" where
  "build_loop [] ls = Some ls"
| "build_loop (t # ts) ls =
     (case parse_license t of None \<Rightarrow> None | Some (name, num) \<Rightarrow> build_loop ts (add_license name num ls))"

text \<open>The list, or \<^verbatim>\<open>NULL\<close>, and whether the string is valid.\<close>

definition build_license_list :: "string option \<Rightarrow> licenses list option \<times> bool" where
  "build_license_list str =
     (case str of
        None \<Rightarrow> (None, True)
      | Some s \<Rightarrow>
          if s = [] then (None, True)
          else case build_loop (tokens license_sep s) [] of None \<Rightarrow> (None, False) | Some ls \<Rightarrow> (Some ls, True))"

definition fmt_u :: "u32 \<Rightarrow> string" where
  "fmt_u w = decimal (unat w)"

fun print_licenses :: "string \<Rightarrow> licenses list \<Rightarrow> string option \<Rightarrow> string option" where
  "print_licenses sep [] out = out"
| "print_licenses sep (l # ls) out = print_licenses '','' ls (xstrcat out (sep @ l_name l @ '':'' @ fmt_u (l_total l)))"

definition license_list_to_string :: "licenses list option \<Rightarrow> string option" where
  "license_list_to_string list = (case list of None \<Rightarrow> None | Some ls \<Rightarrow> print_licenses '''' ls None)"

definition license_job_merge :: "license_job \<Rightarrow> license_job" where
  "license_job_merge job =
     (let ls = fst (build_license_list (job_licenses job))
      in job\<lparr>license_list := ls, job_licenses := license_list_to_string ls\<rparr>)"

subsection \<open>The licenses of the cluster\<close>

definition license_init :: "int \<Rightarrow> string option \<Rightarrow> license_state \<Rightarrow> license_state option" where
  "license_init now str s =
     (if cluster_license_list s \<noteq> None then None
      else case build_license_list str of (ls, valid) \<Rightarrow>
        if valid then Some (s\<lparr>last_license_update := now, cluster_license_list := ls\<rparr>) else None)"

text \<open>The remote licenses are appended to the new list; the others are only compared with it for the log.\<close>

fun keep_remote :: "licenses list \<Rightarrow> licenses list option \<Rightarrow> licenses list option" where
  "keep_remote [] new = new"
| "keep_remote (l # ls) new =
     keep_remote ls (if l_remote l \<noteq> 0 then Some (case_option [] id new @ [l\<lparr>l_used := 0\<rparr>]) else new)"

definition license_update :: "string option \<Rightarrow> license_state \<Rightarrow> license_state option" where
  "license_update str s =
     (case build_license_list str of (new, valid) \<Rightarrow>
        if \<not> valid then None
        else Some (s\<lparr>cluster_license_list :=
               (case cluster_license_list s of None \<Rightarrow> new | Some ls \<Rightarrow> keep_remote ls new)\<rparr>))"

definition license_free :: "license_state \<Rightarrow> license_state" where
  "license_free s = s\<lparr>cluster_license_list := None\<rparr>"

definition get_total_license_cnt :: "license_state \<Rightarrow> string \<Rightarrow> u32" where
  "get_total_license_cnt s name =
     (case cluster_license_list s of
        None \<Rightarrow> 0
      | Some ls \<Rightarrow> (case find (license_find_rec name) ls of None \<Rightarrow> 0 | Some l \<Rightarrow> l_total l))"

subsection \<open>Licenses managed by the database\<close>

record res_rec =
  res_name :: string
  res_server :: string
  res_count :: u32
  res_absolute :: bool
  res_allowed :: u32
  res_last_consumed :: u32
  res_last_update :: int
  res_is_license :: bool

definition remote_name :: "res_rec \<Rightarrow> string" where
  "remote_name r = res_name r @ ''@'' @ res_server r"

definition handle_consumed :: "res_rec \<Rightarrow> licenses \<Rightarrow> licenses" where
  "handle_consumed r l =
     (let total = (if res_absolute r then res_allowed r else (res_count r * res_allowed r) div 100);
          external = (if res_count r < total then 0 else res_count r - total);
          deficit = (if res_last_consumed r \<le> external + l_used l then 0
                     else res_last_consumed r - external - l_used l)
      in l\<lparr>l_total := total, l_last_consumed := res_last_consumed r, l_last_deficit := deficit,
           l_last_update := res_last_update r\<rparr>)"

definition add_res_rec :: "res_rec \<Rightarrow> bool \<Rightarrow> licenses list \<Rightarrow> licenses list" where
  "add_res_rec r sync ls =
     handle_consumed r ((new_license (remote_name r) 0)\<lparr>l_remote := if sync then 2 else 1\<rparr>) # ls"

definition cluster_list :: "license_state \<Rightarrow> licenses list" where
  "cluster_list s = case_option [] id (cluster_license_list s)"

definition license_add_remote :: "int \<Rightarrow> res_rec \<Rightarrow> license_state \<Rightarrow> license_state" where
  "license_add_remote now r s =
     (let ls = cluster_list s
      in if find (license_find_remote_rec (remote_name r)) ls \<noteq> None
         then s\<lparr>cluster_license_list := Some ls\<rparr>
         else s\<lparr>cluster_license_list := Some (add_res_rec r False ls), last_license_update := now\<rparr>)"

definition license_update_remote :: "int \<Rightarrow> res_rec \<Rightarrow> license_state \<Rightarrow> license_state" where
  "license_update_remote now r s =
     (let ls = cluster_list s
      in s\<lparr>cluster_license_list := Some
             (if find (license_find_remote_rec (remote_name r)) ls = None then add_res_rec r False ls
              else update_first (license_find_remote_rec (remote_name r)) (handle_consumed r) ls),
           last_license_update := now\<rparr>)"

fun remove_remote :: "string \<Rightarrow> licenses list \<Rightarrow> licenses list option" where
  "remove_remote name [] = None"
| "remove_remote name (l # ls) =
     (if license_find_remote_rec name l then Some ls else map_option ((#) l) (remove_remote name ls))"

definition license_remove_remote :: "int \<Rightarrow> res_rec \<Rightarrow> license_state \<Rightarrow> license_state" where
  "license_remove_remote now r s =
     (case remove_remote (remote_name r) (cluster_list s) of
        None \<Rightarrow> s\<lparr>cluster_license_list := Some (cluster_list s)\<rparr>
      | Some ls \<Rightarrow> s\<lparr>cluster_license_list := Some ls, last_license_update := now\<rparr>)"

fun sync_recs :: "res_rec list \<Rightarrow> licenses list \<Rightarrow> licenses list" where
  "sync_recs [] ls = ls"
| "sync_recs (r # rs) ls =
     sync_recs rs
       (if \<not> res_is_license r then ls
        else if find (license_find_remote_rec (remote_name r)) ls = None then add_res_rec r True ls
        else update_first (license_find_remote_rec (remote_name r)) (\<lambda>l. handle_consumed r (l\<lparr>l_remote := 2\<rparr>)) ls)"

definition sync_sweep :: "licenses list \<Rightarrow> licenses list" where
  "sync_sweep ls = map (\<lambda>l. if l_remote l = 2 then l\<lparr>l_remote := 1\<rparr> else l) (filter (\<lambda>l. l_remote l \<noteq> 1) ls)"

text \<open>
  With no list of resources and no licenses the iterator is created on a null
  pointer. The time of the last change moves when a record is added or removed.
\<close>

definition license_sync_remote :: "int \<Rightarrow> res_rec list option \<Rightarrow> license_state \<Rightarrow> license_state option" where
  "license_sync_remote now rs s =
     (if rs = None \<and> cluster_license_list s = None then None
      else let ls = cluster_list s; ls1 = sync_recs (case_option [] id rs) ls; ls2 = sync_sweep ls1
           in Some (s\<lparr>cluster_license_list := Some ls2,
                      last_license_update :=
                        if length ls1 \<noteq> length ls \<or> length ls2 \<noteq> length ls1 then now else last_license_update s\<rparr>))"

subsection \<open>The licenses of a job\<close>

text \<open>
  The table of trackable resources belongs to the association manager: which
  positions are licenses, and the position of a license name.
\<close>

record tres_table =
  tres_is_license :: "bool list"
  find_tres_pos :: "string \<Rightarrow> nat option"
  find_tres_id :: "string \<Rightarrow> u32 option"

definition clear_license_tres :: "nat \<Rightarrow> tres_table \<Rightarrow> u64 list \<Rightarrow> u64 list" where
  "clear_license_tres static tbl cnt =
     map (\<lambda>i. if static \<le> i \<and> i < length (tres_is_license tbl) \<and> tres_is_license tbl ! i then 0 else cnt ! i) [0..<length cnt]"

definition set_tres :: "tres_table \<Rightarrow> licenses \<Rightarrow> u64 list \<Rightarrow> u64 list" where
  "set_tres tbl l cnt = (case find_tres_pos tbl (l_name l) of None \<Rightarrow> cnt | Some i \<Rightarrow> cnt[i := ucast (l_total l)])"

text \<open>The walk over a job's licenses: those that remain, the validity and the counts.\<close>

fun validate_loop :: "tres_table \<Rightarrow> licenses list option \<Rightarrow> bool \<Rightarrow> bool \<Rightarrow> licenses list \<Rightarrow> u64 list option
    \<Rightarrow> licenses list \<times> bool \<times> u64 list option" where
  "validate_loop tbl cluster configured existing [] cnt = ([], True, cnt)"
| "validate_loop tbl cluster configured existing (l # ls) cnt =
     (case Option.bind cluster (find (license_find_rec (l_name l))) of
        None \<Rightarrow> if existing then (l # ls, False, cnt) else validate_loop tbl cluster configured existing ls cnt
      | Some m \<Rightarrow>
          if configured \<and> l_total m < l_total l then (l # ls, False, cnt)
          else case validate_loop tbl cluster configured existing ls (map_option (set_tres tbl l) cnt) of
                 (rest, valid, cnt) \<Rightarrow> (l # rest, valid, cnt))"

definition license_validate :: "nat \<Rightarrow> tres_table \<Rightarrow> license_state \<Rightarrow> string option \<Rightarrow> bool \<Rightarrow> bool \<Rightarrow> u64 list option
    \<Rightarrow> licenses list option \<times> bool \<times> u64 list option" where
  "license_validate static tbl s str configured existing cnt =
     (let cnt = map_option (clear_license_tres static tbl) cnt
      in case build_license_list str of
           (None, valid) \<Rightarrow> (None, valid, cnt)
         | (Some ls, _) \<Rightarrow>
             (case validate_loop tbl (cluster_license_list s) configured existing ls cnt of
                (rest, valid, cnt) \<Rightarrow> (if valid then Some rest else None, valid, cnt)))"

text \<open>
  The parameter \<open>resv\<close> is \<^verbatim>\<open>job_test_lic_resv\<close>, the licenses of a name that
  reservations hold back from the job. Sums wrap around at 32 bits.
\<close>

fun test_loop :: "(string \<Rightarrow> u32) \<Rightarrow> licenses list option \<Rightarrow> licenses list \<Rightarrow> int option" where
  "test_loop resv cluster [] = Some SLURM_SUCCESS"
| "test_loop resv cluster (l # ls) =
     (case list_find_first cluster (license_find_rec (l_name l)) of
        None \<Rightarrow> None
      | Some None \<Rightarrow> Some SLURM_ERROR
      | Some (Some m) \<Rightarrow>
          if l_total m < l_total l then Some SLURM_ERROR
          else if l_total m < l_total l + l_used m + l_last_deficit m then Some EAGAIN
          else if l_total m < l_total l + l_used m + l_last_deficit m + resv (l_name l) then Some EAGAIN
          else test_loop resv cluster ls)"

definition license_job_test_with_list :: "(string \<Rightarrow> u32) \<Rightarrow> license_job \<Rightarrow> licenses list option \<Rightarrow> int option" where
  "license_job_test_with_list resv job list =
     (case license_list job of None \<Rightarrow> Some SLURM_SUCCESS | Some ls \<Rightarrow> test_loop resv list ls)"

definition license_job_test :: "(string \<Rightarrow> u32) \<Rightarrow> license_job \<Rightarrow> license_state \<Rightarrow> int option" where
  "license_job_test resv job s = license_job_test_with_list resv job (cluster_license_list s)"

definition license_copy :: "licenses list option \<Rightarrow> licenses list option" where
  "license_copy src =
     map_option (\<lambda>ls. rev (map (\<lambda>l. (new_license (l_name l) (l_total l))
       \<lparr>l_used := l_used l, l_last_deficit := l_last_deficit l\<rparr>) ls)) src"

definition take_license :: "bool \<Rightarrow> u32 \<Rightarrow> licenses \<Rightarrow> licenses" where
  "take_license restore n m =
     (let m = m\<lparr>l_used := l_used m + n\<rparr>
      in if l_remote m \<noteq> 0 \<and> restore
         then m\<lparr>l_last_deficit := if l_last_deficit m < n then 0 else l_last_deficit m - n\<rparr> else m)"

text \<open>The cluster's list, the job's list and the return code.\<close>

fun get_loop :: "bool \<Rightarrow> licenses list option \<Rightarrow> licenses list \<Rightarrow> int \<Rightarrow> (licenses list option \<times> licenses list \<times> int) option" where
  "get_loop restore cluster [] rc = Some (cluster, [], rc)"
| "get_loop restore cluster (l # ls) rc =
     (case list_find_first cluster (license_find_rec (l_name l)) of
        None \<Rightarrow> None
      | Some None \<Rightarrow> map_option (\<lambda>(c, ls, rc). (c, l # ls, rc)) (get_loop restore cluster ls SLURM_ERROR)
      | Some (Some m) \<Rightarrow>
          map_option (\<lambda>(c, ls, rc). (c, l\<lparr>l_used := l_used l + l_total l\<rparr> # ls, rc))
            (get_loop restore
              (map_option (update_first (license_find_rec (l_name l)) (take_license restore (l_total l))) cluster) ls rc))"

definition license_job_get :: "int \<Rightarrow> bool \<Rightarrow> license_job \<Rightarrow> license_state \<Rightarrow> (license_job \<times> license_state \<times> int) option" where
  "license_job_get now restore job s =
     (case license_list job of
        None \<Rightarrow> Some (job, s, SLURM_SUCCESS)
      | Some ls \<Rightarrow>
          map_option (\<lambda>(c, ls, rc).
              (job\<lparr>license_list := Some ls\<rparr>, s\<lparr>cluster_license_list := c, last_license_update := now\<rparr>, rc))
            (get_loop restore (cluster_license_list s) ls SLURM_SUCCESS))"

definition give_license :: "u32 \<Rightarrow> licenses \<Rightarrow> licenses" where
  "give_license n m = m\<lparr>l_used := if n \<le> l_used m then l_used m - n else 0\<rparr>"

fun return_loop :: "licenses list option \<Rightarrow> licenses list \<Rightarrow> int \<Rightarrow> (licenses list option \<times> licenses list \<times> int) option" where
  "return_loop cluster [] rc = Some (cluster, [], rc)"
| "return_loop cluster (l # ls) rc =
     (case list_find_first cluster (license_find_rec (l_name l)) of
        None \<Rightarrow> None
      | Some None \<Rightarrow> map_option (\<lambda>(c, ls, rc). (c, l # ls, rc)) (return_loop cluster ls rc)
      | Some (Some m) \<Rightarrow>
          map_option (\<lambda>(c, ls, rc). (c, l\<lparr>l_used := 0\<rparr> # ls, rc))
            (return_loop (map_option (update_first (license_find_rec (l_name l)) (give_license (l_total l))) cluster) ls
              (if l_total l \<le> l_used m then rc else SLURM_ERROR)))"

definition license_job_return_to_list :: "license_job \<Rightarrow> licenses list option \<Rightarrow> (license_job \<times> licenses list option \<times> int) option" where
  "license_job_return_to_list job list =
     (case license_list job of
        None \<Rightarrow> Some (job, list, SLURM_SUCCESS)
      | Some ls \<Rightarrow> map_option (\<lambda>(c, ls, rc). (job\<lparr>license_list := Some ls\<rparr>, c, rc)) (return_loop list ls SLURM_SUCCESS))"

definition license_job_return :: "int \<Rightarrow> license_job \<Rightarrow> license_state \<Rightarrow> (license_job \<times> license_state \<times> int) option" where
  "license_job_return now job s =
     map_option (\<lambda>(job', c, rc).
         (job', s\<lparr>cluster_license_list := c,
                  last_license_update := if license_list job = None then last_license_update s else now\<rparr>, rc))
       (license_job_return_to_list job (cluster_license_list s))"

text \<open>
  At a reconfiguration, after \<open>license_update\<close>, the jobs are gone through
  (\<^verbatim>\<open>_restore_job_accounting\<close> of \<^verbatim>\<open>read_config.c\<close>): each job's list is read again from
  its string, without the licenses that are no longer known, and the jobs that run
  or are suspended (\<open>running\<close>), not those that are still completing, take theirs
  again. The counts that \<open>license_validate\<close> sets in the job's record are left out.
\<close>

definition restore_job :: "nat \<Rightarrow> tres_table \<Rightarrow> u64 list option \<Rightarrow> int \<Rightarrow> bool \<Rightarrow> license_job \<Rightarrow> license_state
    \<Rightarrow> (license_job \<times> license_state) option" where
  "restore_job static tbl cnt now running job s =
     (case license_validate static tbl s (job_licenses job) False False cnt of
        (ls, valid, _) \<Rightarrow>
          let job = (if valid then job\<lparr>license_list := ls, job_licenses := license_list_to_string ls\<rparr> else job\<lparr>license_list := None\<rparr>)
          in if running then map_option (\<lambda>(job, s, _). (job, s)) (license_job_get now True job s) else Some (job, s))"

fun restore_jobs :: "nat \<Rightarrow> tres_table \<Rightarrow> u64 list option \<Rightarrow> int \<Rightarrow> (bool \<times> license_job) list \<Rightarrow> license_state
    \<Rightarrow> ((bool \<times> license_job) list \<times> license_state) option" where
  "restore_jobs static tbl cnt now [] s = Some ([], s)"
| "restore_jobs static tbl cnt now ((running, job) # js) s =
     Option.bind (restore_job static tbl cnt now running job s) (\<lambda>(job, s).
       map_option (\<lambda>(js, s). ((running, job) # js, s)) (restore_jobs static tbl cnt now js s))"

text \<open>
  An operator gives a running job another list, which is not tested against what is
  in use (\<^verbatim>\<open>_update_job\<close> of \<^verbatim>\<open>job_mgr.c\<close>).
\<close>

definition change_job_licenses :: "int \<Rightarrow> string option \<Rightarrow> licenses list option \<Rightarrow> license_job \<Rightarrow> license_state
    \<Rightarrow> (license_job \<times> license_state) option" where
  "change_job_licenses now str list job s =
     Option.bind (license_job_return now job s) (\<lambda>(job, s, _).
       map_option (\<lambda>(job, s, _). (job, s)) (license_job_get now False (job\<lparr>license_list := list, job_licenses := str\<rparr>) s))"

definition license_list_overlap :: "licenses list option \<Rightarrow> licenses list option \<Rightarrow> bool" where
  "license_list_overlap list_1 list_2 =
     (case (list_1, list_2) of
        (Some xs, Some ys) \<Rightarrow> (\<exists>x \<in> set xs. find (license_find_rec (l_name x)) ys \<noteq> None)
      | _ \<Rightarrow> False)"

fun tres_str_loop :: "tres_table \<Rightarrow> licenses list \<Rightarrow> u32 list \<Rightarrow> string option \<Rightarrow> string option" where
  "tres_str_loop tbl [] seen out = out"
| "tres_str_loop tbl (l # ls) seen out =
     (case find_tres_id tbl (l_name l) of
        None \<Rightarrow> tres_str_loop tbl ls seen out
      | Some n \<Rightarrow>
          if n \<in> set seen then tres_str_loop tbl ls seen out
          else tres_str_loop tbl ls (n # seen)
                 (xstrcat out ((if out \<noteq> None then '','' else '''') @ fmt_u n @ ''='' @ fmt_u (l_total l))))"

text \<open>The identifiers already in the string are those written so far.\<close>

definition licenses_2_tres_str :: "tres_table \<Rightarrow> licenses list option \<Rightarrow> string option" where
  "licenses_2_tres_str tbl list = (case list of None \<Rightarrow> None | Some ls \<Rightarrow> tres_str_loop tbl ls [] None)"

definition license_set_job_tres_cnt :: "tres_table \<Rightarrow> licenses list option \<Rightarrow> u64 list option \<Rightarrow> u64 list option" where
  "license_set_job_tres_cnt tbl list cnt =
     (case (list, cnt) of (Some ls, Some c) \<Rightarrow> Some (foldl (\<lambda>c l. set_tres tbl l c) c ls) | _ \<Rightarrow> cnt)"

subsection \<open>The report to clients\<close>

definition SLURM_23_02_PROTOCOL_VERSION :: u16 where "SLURM_23_02_PROTOCOL_VERSION = 39 * 256"
definition SLURM_MIN_PROTOCOL_VERSION :: u16 where "SLURM_MIN_PROTOCOL_VERSION = 38 * 256"

definition pack_license :: "(nat \<Rightarrow> u8) \<Rightarrow> u16 \<Rightarrow> licenses \<Rightarrow> buf \<Rightarrow> buf option" where
  "pack_license fresh version l b =
     (if SLURM_23_02_PROTOCOL_VERSION \<le> version then do {
        b \<leftarrow> packstr fresh (Some (bytes_of (l_name l))) b;
        b \<leftarrow> pack32 fresh (l_total l) b;
        b \<leftarrow> pack32 fresh (l_used l) b;
        b \<leftarrow> pack32 fresh (l_reserved l) b;
        b \<leftarrow> pack8 fresh (l_remote l) b;
        b \<leftarrow> pack32 fresh (l_last_consumed l) b;
        b \<leftarrow> pack32 fresh (l_last_deficit l) b;
        pack_time fresh (l_last_update l) b }
      else if SLURM_MIN_PROTOCOL_VERSION \<le> version then do {
        b \<leftarrow> packstr fresh (Some (bytes_of (l_name l))) b;
        b \<leftarrow> pack32 fresh (l_total l) b;
        b \<leftarrow> pack32 fresh (l_used l) b;
        b \<leftarrow> pack32 fresh (l_reserved l) b;
        pack8 fresh (l_remote l) b }
      else Some b)"

text \<open>
  The parameter \<open>reserved\<close> is \<^verbatim>\<open>set_reserved_license_count\<close>, which sets the reserved
  count of a license; \<open>now\<close> is the time.
\<close>

definition get_all_license_info :: "(nat \<Rightarrow> u8) \<Rightarrow> (licenses \<Rightarrow> u32) \<Rightarrow> int \<Rightarrow> u16 \<Rightarrow> license_state
    \<Rightarrow> (buf \<times> license_state) option" where
  "get_all_license_info fresh reserved now version s = do {
     b \<leftarrow> init_buf BUF_SIZE;
     b \<leftarrow> pack32 fresh 0 b;
     b \<leftarrow> pack_time fresh now b;
     let ls = map_option (map (\<lambda>l. l\<lparr>l_reserved := reserved l\<rparr>)) (cluster_license_list s);
     b \<leftarrow> pack_each (pack_license fresh version) (case_option [] id ls) b;
     b' \<leftarrow> pack32 fresh (of_nat (length (case_option [] id ls))) (set_buf_offset b 0);
     Some (set_buf_offset b' (processed b), s\<lparr>cluster_license_list := ls\<rparr>) }"

record slurm_license_info =
  i_name :: "u8 list option"
  i_total :: u32
  i_in_use :: u32
  i_available :: u32
  i_reserved :: u32
  i_remote :: u8
  i_last_consumed :: u32
  i_last_deficit :: u32
  i_last_update :: int

definition unpack_license :: "bool \<Rightarrow> u16 \<Rightarrow> buf \<Rightarrow> (slurm_license_info option \<times> buf) option" where
  "unpack_license dbd version b =
     (if SLURM_23_02_PROTOCOL_VERSION \<le> version then
        andthen (unpackstr_xmalloc_chooser dbd b) (\<lambda>name b.
        andthen (unpack32 b) (\<lambda>total b.
        andthen (unpack32 b) (\<lambda>in_use b.
        andthen (unpack32 b) (\<lambda>reserved b.
        andthen (unpack8 b) (\<lambda>remote b.
        andthen (unpack32 b) (\<lambda>consumed b.
        andthen (unpack32 b) (\<lambda>deficit b.
        andthen (unpack_time b) (\<lambda>update b.
          Some (Some \<lparr>i_name = name, i_total = total, i_in_use = in_use,
             i_available = (if total < in_use + deficit then 0 else total - in_use - deficit),
             i_reserved = reserved, i_remote = remote, i_last_consumed = consumed, i_last_deficit = deficit,
             i_last_update = update\<rparr>, b)))))))))
      else
        andthen (unpackstr_xmalloc_chooser dbd b) (\<lambda>name b.
        andthen (unpack32 b) (\<lambda>total b.
        andthen (unpack32 b) (\<lambda>in_use b.
        andthen (unpack32 b) (\<lambda>reserved b.
        andthen (unpack8 b) (\<lambda>remote b.
          Some (Some \<lparr>i_name = name, i_total = total, i_in_use = in_use,
             i_available = (if total < in_use then 0 else total - in_use),
             i_reserved = reserved, i_remote = remote, i_last_consumed = 0, i_last_deficit = 0, i_last_update = 0\<rparr>, b)))))))"

text \<open>The time and the array; an unknown version leaves both zero.\<close>

definition unpack_license_info_msg :: "bool \<Rightarrow> u16 \<Rightarrow> buf \<Rightarrow> ((int \<times> slurm_license_info list) option \<times> buf) option" where
  "unpack_license_info_msg dbd version b =
     (if SLURM_MIN_PROTOCOL_VERSION \<le> version then
        andthen (unpack32 b) (\<lambda>num_lic b.
        andthen (unpack_time b) (\<lambda>update b.
        andthen (unpack_each (unpack_license dbd version) (unat num_lic) b) (\<lambda>ls b.
          Some (Some (update, ls), b))))
      else Some (Some (0, []), b))"

end
