(* ===== verification/Licenses_Props.thy ===== *)
theory Licenses_Props
  imports Licenses Pack_Props
begin

text \<open>
  Properties of the licenses: the counts in use are those of the running jobs and
  never exceed what there is, license strings are read back, the synchronisation
  with the database, and the report to clients is read as it was written.
\<close>

subsection \<open>Lists of licenses\<close>

lemma update_first_map:
  "distinct (map l_name ls) \<Longrightarrow>
     update_first (license_find_rec n) f ls = map (\<lambda>l. if l_name l = n then f l else l) ls"
proof (induction ls)
  case (Cons l ls)
  have "map (\<lambda>x. if l_name x = l_name l then f x else x) ls = ls"
    by (rule map_idI) (use Cons.prems in \<open>metis distinct.simps(2) image_eqI list.simps(9) set_map\<close>)
  then show ?case using Cons by (auto simp: license_find_rec_def)
qed simp

lemma find_license:
  "find (license_find_rec n) ls = None \<longleftrightarrow> n \<notin> l_name ` set ls"
  "find (license_find_rec n) ls = Some m \<Longrightarrow> m \<in> set ls \<and> l_name m = n"
  by (induction ls) (auto simp: license_find_rec_def split: if_splits)

lemma find_license_unique:
  assumes "distinct (map l_name ls)" "m \<in> set ls"
  shows "find (license_find_rec (l_name m)) ls = Some m"
proof -
  obtain m' where m': "find (license_find_rec (l_name m)) ls = Some m'"
    using assms(2) find_license(1) [of "l_name m" ls] by (cases "find (license_find_rec (l_name m)) ls") auto
  then have "m' \<in> set ls" "l_name m' = l_name m" using find_license(2) by auto
  then have "m' = m" using assms by (auto simp: distinct_map inj_on_def)
  then show ?thesis using m' by simp
qed

subsection \<open>Use and return\<close>

definition demand :: "licenses list \<Rightarrow> string \<Rightarrow> u32" where
  "demand es n = sum_list (map l_total (filter (\<lambda>e. l_name e = n) es))"

definition holds :: "licenses list \<Rightarrow> string \<Rightarrow> nat" where
  "holds es n = sum_list (map (\<lambda>e. unat (l_total e)) (filter (\<lambda>e. l_name e = n) es))"

lemma unat_demand: "holds es n < 4294967296 \<Longrightarrow> unat (demand es n) = holds es n"
proof (induction es)
  case (Cons e es)
  then show ?case by (auto simp: demand_def holds_def unat_word_ariths)
qed (simp add: demand_def holds_def)

lemma demand_of_nat: "demand es n = of_nat (holds es n)"
  by (induction es) (simp_all add: demand_def holds_def)

text \<open>The lists of licenses before and after: the same licenses, with counts in use that \<open>f\<close> relates.\<close>

definition used_rel :: "(string \<Rightarrow> u32 \<Rightarrow> u32 \<Rightarrow> bool) \<Rightarrow> licenses list \<Rightarrow> licenses list \<Rightarrow> bool" where
  "used_rel f ls ls' \<longleftrightarrow> list_all2 (\<lambda>l l'. l_name l' = l_name l \<and> l_total l' = l_total l \<and> l_remote l' = l_remote l
     \<and> f (l_name l) (l_used l) (l_used l')) ls ls'"

lemma used_rel_trans:
  assumes "used_rel f ls ls'" "used_rel g ls' ls''" "\<And>n x y z. f n x y \<Longrightarrow> g n y z \<Longrightarrow> h n x z"
  shows "used_rel h ls ls''"
  unfolding used_rel_def
  by (rule list_all2_trans [OF _ assms(1,2) [unfolded used_rel_def]]) (use assms(3) in auto)

lemma used_rel_names: "used_rel f ls ls' \<Longrightarrow> map l_name ls' = map l_name ls"
  unfolding used_rel_def by (induction rule: list_all2_induct) auto

lemma used_rel_map:
  "(\<And>l. l \<in> set ls \<Longrightarrow> l_name (u l) = l_name l \<and> l_total (u l) = l_total l \<and> l_remote (u l) = l_remote l \<and> f (l_name l) (l_used l) (l_used (u l)))
     \<Longrightarrow> used_rel f ls (map u ls)"
  by (simp add: used_rel_def list_all2_map2 list_all2_same)

lemma used_rel_refl: "(\<And>n x. f n x x) \<Longrightarrow> used_rel f ls ls"
  by (simp add: used_rel_def list_all2_same)

text \<open>Each license of the new list is one of the old list.\<close>

lemma used_rel_at:
  assumes "used_rel f ls ls'" "l' \<in> set ls'"
  obtains l where "l \<in> set ls" "l_name l' = l_name l" "l_total l' = l_total l" "l_remote l' = l_remote l" "f (l_name l) (l_used l) (l_used l')"
proof -
  obtain i where i: "i < length ls'" "l' = ls' ! i" using assms(2) by (auto simp: in_set_conv_nth)
  then have "i < length ls" "l_name l' = l_name (ls ! i) \<and> l_total l' = l_total (ls ! i) \<and> l_remote l' = l_remote (ls ! i)
      \<and> f (l_name (ls ! i)) (l_used (ls ! i)) (l_used l')"
    using assms(1) by (auto simp: used_rel_def list_all2_conv_all_nth)
  then show ?thesis using that [of "ls ! i"] by simp
qed

lemma used_rel_mono:
  assumes "used_rel f ls ls'" "\<And>l y. l \<in> set ls \<Longrightarrow> f (l_name l) (l_used l) y \<Longrightarrow> g (l_name l) (l_used l) y"
  shows "used_rel g ls ls'"
  using assms(1) unfolding used_rel_def by (rule list.rel_mono_strong) (use assms(2) in auto)

text \<open>
  Taking the licenses of a job, known or not, and whether a use is restored or new.
\<close>

lemma get_loop_spec:
  "distinct (map l_name ls) \<Longrightarrow>
     \<exists>ls' es' rc'. get_loop restore (Some ls) es rc = Some (Some ls', es', rc') \<and> used_rel (\<lambda>n x y. y = x + demand es n) ls ls'
       \<and> map l_name es' = map l_name es \<and> map l_total es' = map l_total es \<and> (l_name ` set es \<subseteq> l_name ` set ls \<longrightarrow> rc' = rc)"
proof (induction es arbitrary: ls rc)
  case Nil
  then show ?case by (simp add: demand_def used_rel_refl)
next
  case (Cons e es)
  show ?case
  proof (cases "find (license_find_rec (l_name e)) ls")
    case None
    then have no: "l_name e \<notin> l_name ` set ls" using find_license(1) by simp
    obtain ls' es' rc' where r: "get_loop restore (Some ls) es SLURM_ERROR = Some (Some ls', es', rc')"
        "used_rel (\<lambda>n x y. y = x + demand es n) ls ls'" "map l_name es' = map l_name es" "map l_total es' = map l_total es"
      using Cons.IH [OF Cons.prems, of SLURM_ERROR] by blast
    have "used_rel (\<lambda>n x y. y = x + demand (e # es) n) ls ls'"
      by (rule used_rel_mono [OF r(2)]) (use no in \<open>auto simp: demand_def\<close>)
    then show ?thesis using None r no by (auto simp: list_find_first_def)
  next
    case (Some m)
    let ?u = "\<lambda>l. if l_name l = l_name e then take_license restore (l_total e) l else l"
    have t: "used_rel (\<lambda>n x y. y = x + (if n = l_name e then l_total e else 0)) ls (map ?u ls)"
      by (rule used_rel_map) (simp add: take_license_def Let_def)
    note n = used_rel_names [OF t]
    have d: "distinct (map l_name (map ?u ls))" unfolding n by (rule Cons.prems)
    obtain ls' es' rc' where r: "get_loop restore (Some (map ?u ls)) es rc = Some (Some ls', es', rc')"
        "used_rel (\<lambda>n x y. y = x + demand es n) (map ?u ls) ls'" "map l_name es' = map l_name es" "map l_total es' = map l_total es"
        "l_name ` set es \<subseteq> l_name ` set (map ?u ls) \<longrightarrow> rc' = rc"
      using Cons.IH [OF d, of rc] by blast
    have "used_rel (\<lambda>n x y. y = x + demand (e # es) n) ls ls'"
      by (rule used_rel_trans [OF t r(2)]) (auto simp: demand_def)
    moreover have "l_name ` set (map ?u ls) = l_name ` set ls" using n by (metis set_map)
    ultimately show ?thesis using Some r Cons.prems by (auto simp: list_find_first_def update_first_map)
  qed
qed

text \<open>Giving back: no count rises, and the counts that include what the job holds fall by just that.\<close>

lemma return_loop_spec:
  "distinct (map l_name ls) \<Longrightarrow>
     \<exists>ls' es' rc'. return_loop (Some ls) es rc = Some (Some ls', es', rc')
       \<and> used_rel (\<lambda>n x y. y \<le> x \<and> (holds es n \<le> unat x \<longrightarrow> y = x - demand es n)) ls ls'
       \<and> map l_name es' = map l_name es \<and> map l_total es' = map l_total es
       \<and> ((\<forall>l \<in> set ls. l_name l \<in> l_name ` set es \<longrightarrow> holds es (l_name l) \<le> unat (l_used l)) \<longrightarrow> rc' = rc)"
proof (induction es arbitrary: ls rc)
  case Nil
  then show ?case by (simp add: demand_def used_rel_refl)
next
  case (Cons e es)
  show ?case
  proof (cases "find (license_find_rec (l_name e)) ls")
    case None
    then have no: "l_name e \<notin> l_name ` set ls" using find_license(1) by simp
    obtain ls' es' rc' where r: "return_loop (Some ls) es rc = Some (Some ls', es', rc')"
        "used_rel (\<lambda>n x y. y \<le> x \<and> (holds es n \<le> unat x \<longrightarrow> y = x - demand es n)) ls ls'"
        "map l_name es' = map l_name es" "map l_total es' = map l_total es"
        "(\<forall>l \<in> set ls. l_name l \<in> l_name ` set es \<longrightarrow> holds es (l_name l) \<le> unat (l_used l)) \<longrightarrow> rc' = rc"
      using Cons.IH [OF Cons.prems, of rc] by blast
    have k: "holds (e # es) (l_name l) = holds es (l_name l)" "demand (e # es) (l_name l) = demand es (l_name l)" if "l \<in> set ls" for l
      using no that by (auto simp: holds_def demand_def)
    have "used_rel (\<lambda>n x y. y \<le> x \<and> (holds (e # es) n \<le> unat x \<longrightarrow> y = x - demand (e # es) n)) ls ls'"
      by (rule used_rel_mono [OF r(2)]) (simp add: k)
    then show ?thesis using None r k by (auto simp: list_find_first_def)
  next
    case (Some m)
    let ?u = "\<lambda>l. if l_name l = l_name e then give_license (l_total e) l else l"
    let ?f = "\<lambda>n x y. y \<le> x \<and> (if n = l_name e then unat (l_total e) \<le> unat x \<longrightarrow> y = x - l_total e else y = x)"
    have t: "used_rel ?f ls (map ?u ls)"
      by (rule used_rel_map) (auto simp: give_license_def word_le_nat_alt unat_sub)
    note n = used_rel_names [OF t]
    have d: "distinct (map l_name (map ?u ls))" unfolding n by (rule Cons.prems)
    have s: "l_name ` set (map ?u ls) = l_name ` set ls" using n by (metis set_map)
    define rc1 where "rc1 = (if l_total e \<le> l_used m then rc else SLURM_ERROR)"
    obtain ls' es' rc' where r: "return_loop (Some (map ?u ls)) es rc1 = Some (Some ls', es', rc')"
        "used_rel (\<lambda>n x y. y \<le> x \<and> (holds es n \<le> unat x \<longrightarrow> y = x - demand es n)) (map ?u ls) ls'"
        "map l_name es' = map l_name es" "map l_total es' = map l_total es"
        "(\<forall>l \<in> set (map ?u ls). l_name l \<in> l_name ` set es \<longrightarrow> holds es (l_name l) \<le> unat (l_used l)) \<longrightarrow> rc' = rc1"
      using Cons.IH [OF d, of rc1] by blast
    have "used_rel (\<lambda>n x y. y \<le> x \<and> (holds (e # es) n \<le> unat x \<longrightarrow> y = x - demand (e # es) n)) ls ls'"
    proof (rule used_rel_trans [OF t r(2)])
      fix n x y z
      assume a: "?f n x y" "z \<le> y \<and> (holds es n \<le> unat y \<longrightarrow> z = y - demand es n)"
      show "z \<le> x \<and> (holds (e # es) n \<le> unat x \<longrightarrow> z = x - demand (e # es) n)"
      proof (cases "n = l_name e")
        case True
        have h: "holds (e # es) n = unat (l_total e) + holds es n" "demand (e # es) n = l_total e + demand es n"
          using True by (simp_all add: holds_def demand_def)
        have "holds es n \<le> unat y \<and> y = x - l_total e" if "holds (e # es) n \<le> unat x"
        proof -
          have "y = x - l_total e" using a(1) True that h by simp
          moreover have "l_total e \<le> x" using that h by (simp add: word_le_nat_alt)
          ultimately show ?thesis using that h by (simp add: unat_sub)
        qed
        then show ?thesis using a h by (auto simp: algebra_simps)
      next
        case False
        then have "holds (e # es) n = holds es n" "demand (e # es) n = demand es n" by (simp_all add: holds_def demand_def)
        then show ?thesis using a False by auto
      qed
    qed
    moreover have "rc' = rc" if h: "\<forall>l \<in> set ls. l_name l \<in> l_name ` set (e # es) \<longrightarrow> holds (e # es) (l_name l) \<le> unat (l_used l)"
    proof -
      have m: "m \<in> set ls" "l_name m = l_name e" using find_license(2) [OF Some] by simp_all
      then have "holds (e # es) (l_name e) \<le> unat (l_used m)" using h by force
      then have "rc1 = rc" by (simp add: rc1_def holds_def word_le_nat_alt)
      moreover have "holds es (l_name l) \<le> unat (l_used l)" if l: "l \<in> set (map ?u ls)" "l_name l \<in> l_name ` set es" for l
      proof -
        obtain k where k: "k \<in> set ls" "l = ?u k" using l(1) by auto
        have nk: "l_name l = l_name k" using k(2) by (simp add: give_license_def)
        have hk: "holds (e # es) (l_name k) \<le> unat (l_used k)" using h k(1) l(2) nk by auto
        show ?thesis
        proof (cases "l_name k = l_name e")
          case True
          then have x: "unat (l_total e) + holds es (l_name e) \<le> unat (l_used k)" using hk by (simp add: holds_def)
          then have "l_total e \<le> l_used k" by (simp add: word_le_nat_alt)
          then show ?thesis using x k(2) True nk by (simp add: give_license_def unat_sub)
        next
          case False
          then show ?thesis using hk k(2) by (simp add: holds_def)
        qed
      qed
      ultimately show ?thesis using r(5) by blast
    qed
    ultimately show ?thesis using Some r(1,3,4) Cons.prems
      by (auto simp: list_find_first_def update_first_map rc1_def [symmetric])
  qed
qed

lemma test_loop_success:
  "test_loop resv (Some ls) es = Some SLURM_SUCCESS \<Longrightarrow> e \<in> set es \<Longrightarrow>
     \<exists>m. find (license_find_rec (l_name e)) ls = Some m \<and> l_total e \<le> l_total m
       \<and> l_total e + l_used m + l_last_deficit m \<le> l_total m"
  by (induction es) (auto simp: list_find_first_def SLURM_SUCCESS_def SLURM_ERROR_def EAGAIN_def not_less
      split: option.splits if_splits)


abbreviation job_list :: "license_job \<Rightarrow> licenses list" where
  "job_list j \<equiv> case_option [] id (license_list j)"

definition in_use :: "license_job list \<Rightarrow> string \<Rightarrow> nat" where
  "in_use run n = sum_list (map (\<lambda>j. holds (job_list j) n) run)"

lemma holds_cong: "map l_name es = map l_name es' \<Longrightarrow> map l_total es = map l_total es' \<Longrightarrow> holds es n = holds es' n"
proof (induction es arbitrary: es')
  case (Cons e es)
  then obtain e' es'' where "es' = e' # es''" by (cases es') auto
  then show ?case using Cons by (auto simp: holds_def)
qed simp

lemma holds_distinct:
  "distinct (map l_name es) \<Longrightarrow> holds es n = (case find (license_find_rec n) es of None \<Rightarrow> 0 | Some e \<Rightarrow> unat (l_total e))"
proof (induction es)
  case (Cons e es)
  have f: "find (license_find_rec n) (e # es) = (if l_name e = n then Some e else find (license_find_rec n) es)"
    by (simp add: license_find_rec_def)
  have "find (license_find_rec n) es = None" if "l_name e = n" using find_license(1) [of n es] Cons.prems that by auto
  then show ?case using Cons unfolding f by (auto simp: holds_def)
qed (simp add: holds_def)

lemma license_job_test_lists:
  assumes "license_job_test resv job s = Some SLURM_SUCCESS" "e \<in> set (job_list job)"
  shows "cluster_license_list s \<noteq> None"
    "\<exists>m. find (license_find_rec (l_name e)) (cluster_list s) = Some m \<and> l_total e \<le> l_total m
       \<and> l_total e + l_used m + l_last_deficit m \<le> l_total m"
proof -
  obtain es where es: "license_list job = Some es" "e \<in> set es" using assms(2) by (cases "license_list job") auto
  then have t: "test_loop resv (cluster_license_list s) es = Some SLURM_SUCCESS"
    using assms(1) by (simp add: license_job_test_def license_job_test_with_list_def)
  show n: "cluster_license_list s \<noteq> None"
    using t es(2) by (cases es) (auto simp: list_find_first_def split: option.splits)
  then obtain ls where "cluster_license_list s = Some ls" by auto
  then show "\<exists>m. find (license_find_rec (l_name e)) (cluster_list s) = Some m \<and> l_total e \<le> l_total m
       \<and> l_total e + l_used m + l_last_deficit m \<le> l_total m"
    using test_loop_success t es(2) by (simp add: cluster_list_def)
qed

lemma in_use_split: "in_use (xs @ j # ys) n = in_use (xs @ ys) n + holds (job_list j) n"
  by (simp add: in_use_def)

subsection \<open>License strings\<close>

lemma add_license_names:
  "distinct (map l_name ls) \<Longrightarrow> distinct (map l_name (add_license n v ls))
     \<and> l_name ` set (add_license n v ls) = insert n (l_name ` set ls)"
proof (cases "find (license_find_rec n) ls = None")
  case True
  then show "distinct (map l_name ls) \<Longrightarrow> ?thesis" using find_license(1) [of n ls] by (simp add: add_license_def new_license_def)
next
  case False
  assume d: "distinct (map l_name ls)"
  let ?ls = "map (\<lambda>l. if l_name l = n then l\<lparr>l_total := l_total l + of_int v\<rparr> else l) ls"
  have n: "map l_name ?ls = map l_name ls" by auto
  then have "distinct (map l_name ?ls)" "l_name ` set ?ls = l_name ` set ls" using d by (metis, metis set_map)
  moreover have "n \<in> l_name ` set ls" using False find_license(1) [of n ls] by auto
  ultimately show ?thesis using False update_first_map [OF d] by (simp add: add_license_def insert_absorb)
qed

lemma build_loop_distinct:
  "build_loop ts ls = Some ls' \<Longrightarrow> distinct (map l_name ls) \<Longrightarrow> distinct (map l_name ls')"
proof (induction ts arbitrary: ls)
  case (Cons t ts)
  then show ?case using add_license_names by (auto split: option.splits prod.splits)
qed simp

lemma add_license_fields:
  "\<forall>l \<in> set ls. l_used l = 0 \<and> l_remote l = 0 \<Longrightarrow> \<forall>l \<in> set (add_license n v ls). l_used l = 0 \<and> l_remote l = 0"
proof -
  have "\<forall>l \<in> set ls. l_used l = 0 \<and> l_remote l = 0 \<Longrightarrow>
      \<forall>l \<in> set (update_first p (\<lambda>l. l\<lparr>l_total := l_total l + of_int v\<rparr>) ls). l_used l = 0 \<and> l_remote l = 0" for p
    by (induction ls) auto
  then show "\<forall>l \<in> set ls. l_used l = 0 \<and> l_remote l = 0 \<Longrightarrow> ?thesis"
    by (simp add: add_license_def new_license_def)
qed

lemma build_loop_fields:
  "build_loop ts ls = Some ls' \<Longrightarrow> \<forall>l \<in> set ls. l_used l = 0 \<and> l_remote l = 0 \<Longrightarrow>
     \<forall>l \<in> set ls'. l_used l = 0 \<and> l_remote l = 0"
proof (induction ts arbitrary: ls)
  case (Cons t ts)
  obtain name num where p: "parse_license t = Some (name, num)" "build_loop ts (add_license name num ls) = Some ls'"
    using Cons.prems(1) by (auto split: option.splits)
  show ?case by (rule Cons.IH [OF p(2)]) (rule add_license_fields [OF Cons.prems(2)])
qed simp

lemma built_list:
  assumes "build_license_list str = (Some ls, valid)"
  shows "distinct (map l_name ls)" "\<forall>l \<in> set ls. l_used l = 0 \<and> l_remote l = 0"
proof -
  obtain ts where "build_loop ts [] = Some ls"
    using assms by (auto simp: build_license_list_def split: option.splits if_splits)
  then show "distinct (map l_name ls)" "\<forall>l \<in> set ls. l_used l = 0 \<and> l_remote l = 0"
    using build_loop_distinct [of ts "[]" ls] build_loop_fields [of ts "[]" ls] by simp_all
qed

definition one_license :: "u32 \<Rightarrow> license_state" where
  "one_license n = \<lparr>cluster_license_list = Some [(new_license ''fluent'' 4)\<lparr>l_used := n\<rparr>], last_license_update = 9\<rparr>"

definition fluent_job :: "u32 \<Rightarrow> license_job" where
  "fluent_job n = \<lparr>job_licenses = Some ''fluent:3'', license_list = Some [(new_license ''fluent'' 3)\<lparr>l_used := n\<rparr>], job_resv = 0\<rparr>"

text \<open>Cutting at a separator, and joining with it.\<close>

lemma tokens_foldr:
  "foldr (\<lambda>c ts. if sep c then [] # ts else (c # hd ts) # tl ts) s ([] # ts) =
     foldr (\<lambda>c ts. if sep c then [] # ts else (c # hd ts) # tl ts) s [[]] @ ts"
proof -
  have "foldr (\<lambda>c ts. if sep c then [] # ts else (c # hd ts) # tl ts) s [[]] \<noteq> []" for s by (induction s) auto
  then show ?thesis by (induction s) auto
qed

lemma tokens_append: "sep c \<Longrightarrow> tokens sep (s @ c # t) = tokens sep s @ tokens sep t"
  by (simp add: tokens_def tokens_foldr [of sep s "foldr _ t [[]]"])

lemma tokens_single: "\<forall>c \<in> set t. \<not> sep c \<Longrightarrow> t \<noteq> [] \<Longrightarrow> tokens sep t = [t]"
proof -
  have "\<forall>c \<in> set t. \<not> sep c \<Longrightarrow> foldr (\<lambda>c ts. if sep c then [] # ts else (c # hd ts) # tl ts) t [[]] = [t]" for t
    by (induction t) auto
  then show "\<forall>c \<in> set t. \<not> sep c \<Longrightarrow> t \<noteq> [] \<Longrightarrow> ?thesis" by (simp add: tokens_def)
qed

definition license_text :: "licenses \<Rightarrow> string" where
  "license_text l = l_name l @ '':'' @ fmt_u (l_total l)"

definition license_name_ok :: "licenses \<Rightarrow> bool" where
  "license_name_ok l \<longleftrightarrow> (\<forall>c \<in> set (l_name l). \<not> license_sep c \<and> c \<noteq> CHR '':'' \<and> \<not> is_space c) \<and> unat (l_total l) < 2147483648"

lemma print_licenses_some:
  "print_licenses '','' ls (Some out) = Some (out @ concat (map (\<lambda>l. '','' @ license_text l) ls))"
  by (induction ls arbitrary: out) (simp_all add: xstrcat_def license_text_def)

lemma license_text_token:
  assumes "license_name_ok l"
  shows "\<forall>c \<in> set (license_text l). \<not> license_sep c" "license_text l \<noteq> []"
proof -
  have "\<not> license_sep c" if "is_digit c" for c using that by (auto simp: license_sep_def is_digit_def)
  then show "\<forall>c \<in> set (license_text l). \<not> license_sep c"
    using assms decimal_digits by (auto simp: license_text_def license_name_ok_def fmt_u_def license_sep_def)
qed (simp add: license_text_def)

lemma tokens_text:
  "license_name_ok l \<Longrightarrow> \<forall>l \<in> set ls. license_name_ok l \<Longrightarrow>
     tokens license_sep (license_text l @ concat (map (\<lambda>l. '','' @ license_text l) ls)) = map license_text (l # ls)"
proof (induction ls arbitrary: l)
  case Nil
  then show ?case using tokens_single [OF license_text_token] by simp
next
  case (Cons k ls)
  have "license_sep CHR '',''" by (simp add: license_sep_def)
  then show ?case
    using tokens_append [of license_sep "CHR '',''" "license_text l"] tokens_single [OF license_text_token, OF Cons.prems(1) Cons.prems(1)] Cons
    by simp
qed

lemma parse_license_text:
  assumes "license_name_ok l"
  shows "parse_license (license_text l) = Some (l_name l, int (unat (l_total l)))"
proof -
  have n: "takeWhile (\<lambda>c. c \<noteq> CHR '':'') (license_text l) = l_name l"
    "dropWhile (\<lambda>c. c \<noteq> CHR '':'') (license_text l) = '':'' @ fmt_u (l_total l)"
    using assms by (auto simp: license_text_def license_name_ok_def takeWhile_append2 dropWhile_append2)
  have f: "fmt_u (l_total l) = fmt_d (int (unat (l_total l)))" by (simp add: fmt_u_def fmt_d_def)
  have b: "int (unat (l_total l)) < 2147483648" using assms unfolding license_name_ok_def by linarith
  have "strtol (fmt_u (l_total l)) = (int (unat (l_total l)), [])"
    using strtol_fmt_d [of "[]" "int (unat (l_total l))" "[]"] b f order_trans [of "- (2 ^ 63)" 0 "int (unat (l_total l))"] by simp
  moreover have "to_int32 (int (unat (l_total l))) = int (unat (l_total l))"
    unfolding to_int32_def
    by (rule signed_take_bit_int_eq_self) (use b order_trans [of "- 2147483648" 0 "int (unat (l_total l))"] in simp_all)
  ultimately show ?thesis using assms n by (auto simp: parse_license_def license_name_ok_def)
qed

lemma build_texts:
  "\<forall>l \<in> set es. license_name_ok l \<Longrightarrow> distinct (map l_name es) \<Longrightarrow> l_name ` set es \<inter> l_name ` set ls = {} \<Longrightarrow>
     build_loop (map license_text es) ls = Some (rev (map (\<lambda>l. new_license (l_name l) (l_total l)) es) @ ls)"
proof (induction es arbitrary: ls)
  case (Cons e es)
  have "find (license_find_rec (l_name e)) ls = None" using Cons.prems(3) find_license(1) [of "l_name e" ls] by auto
  then have "add_license (l_name e) (int (unat (l_total e))) ls = new_license (l_name e) (l_total e) # ls"
    by (simp add: add_license_def)
  moreover have "l_name ` set es \<inter> l_name ` set (new_license (l_name e) (l_total e) # ls) = {}"
    using Cons.prems(2,3) by (auto simp: new_license_def)
  ultimately show ?case using Cons.IH [of "new_license (l_name e) (l_total e) # ls"] Cons.prems(1,2)
    by (simp add: parse_license_text)
qed simp

subsection \<open>Counts\<close>

definition count_of :: "licenses list \<Rightarrow> string \<Rightarrow> u32" where
  "count_of ls n = (case find (license_find_rec n) ls of None \<Rightarrow> 0 | Some l \<Rightarrow> l_total l)"

lemma count_of_simps [simp]:
  "count_of [] n = 0"
  "count_of (l # ls) n = (if l_name l = n then l_total l else count_of ls n)"
  by (simp_all add: count_of_def license_find_rec_def)

lemma count_update_first:
  "n \<in> l_name ` set ls \<Longrightarrow>
     count_of (update_first (license_find_rec n) (\<lambda>l. l\<lparr>l_total := l_total l + d\<rparr>) ls) m = count_of ls m + (if m = n then d else 0)"
  by (induction ls) (auto simp: license_find_rec_def)

lemma count_new: "n \<notin> l_name ` set ls \<Longrightarrow> count_of ls n = 0"
  using find_license(1) [of n ls] by (simp add: count_of_def)

lemma count_add_license: "count_of (add_license n v ls) m = count_of ls m + (if m = n then of_int v else 0)"
  using find_license(1) [of n ls] count_update_first [of n ls "of_int v" m] count_new [of n ls]
  by (auto simp: add_license_def new_license_def)

definition token_count :: "string list \<Rightarrow> string \<Rightarrow> u32" where
  "token_count ts n = sum_list (map (\<lambda>t. case parse_license t of None \<Rightarrow> 0 | Some (m, v) \<Rightarrow> if m = n then of_int v else 0) ts)"

lemma count_build_loop: "build_loop ts ls = Some ls' \<Longrightarrow> count_of ls' n = count_of ls n + token_count ts n"
proof (induction ts arbitrary: ls)
  case (Cons t ts)
  obtain m v where p: "parse_license t = Some (m, v)" "build_loop ts (add_license m v ls) = Some ls'"
    using Cons.prems by (auto split: option.splits)
  show ?case using Cons.IH [OF p(2)] p(1) by (simp add: count_add_license token_count_def)
qed (simp add: token_count_def)

lemma build_loop_append: "build_loop (ts @ us) ls = Option.bind (build_loop ts ls) (build_loop us)"
  by (induction ts arbitrary: ls) (auto split: option.splits)

lemma build_loop_valid: "build_loop ts ls \<noteq> None \<longleftrightarrow> (\<forall>t \<in> set ts. parse_license t \<noteq> None)"
  by (induction ts arbitrary: ls) (auto split: option.splits)

text \<open>A license string that is printed from a list of licenses with distinct
  well-formed names is read back as the same names and counts, in reverse order.
  Merging two valid license strings into one job leaves every name once, with the
  sum of its counts in the two strings.\<close>

lemma license_strings:
  assumes "ls \<noteq> []" "\<forall>l \<in> set ls. license_name_ok l" "distinct (map l_name ls)"
    and "build_license_list (Some a) = (Some la, v1)" "build_license_list (Some b) = (Some lb, v2)"
    and "job_licenses job = Some (a @ '','' @ b)"
  shows "build_license_list (license_list_to_string (Some ls)) =
      (Some (rev (map (\<lambda>l. new_license (l_name l) (l_total l)) ls)), True)
    \<and> (\<exists>lm. license_list (license_job_merge job) = Some lm \<and> distinct (map l_name lm)
        \<and> (\<forall>n. count_of lm n = count_of la n + count_of lb n))"
proof -
  obtain l es where l: "ls = l # es" using assms(1) by (cases ls) auto
  let ?str = "license_text l @ concat (map (\<lambda>l. '','' @ license_text l) es)"
  have p: "license_list_to_string (Some ls) = Some ?str"
    using print_licenses_some l by (simp add: license_list_to_string_def xstrcat_def license_text_def)
  have ne: "?str \<noteq> []" using license_text_token(2) assms(2) l by simp
  have "build_loop (tokens license_sep ?str) [] = Some (rev (map (\<lambda>l. new_license (l_name l) (l_total l)) ls))"
    using tokens_text [of l es] build_texts [of ls "[]"] assms(2,3) l by simp
  then have 1: "build_license_list (license_list_to_string (Some ls)) =
      (Some (rev (map (\<lambda>l. new_license (l_name l) (l_total l)) ls)), True)"
    unfolding p using ne by (simp add: build_license_list_def)
  have ab: "build_loop (tokens license_sep a) [] = Some la" "build_loop (tokens license_sep b) [] = Some lb"
    using assms(4,5) by (auto simp: build_license_list_def split: option.splits if_splits)
  have t: "tokens license_sep (a @ '','' @ b) = tokens license_sep a @ tokens license_sep b"
    using tokens_append [of license_sep "CHR '',''" a b] by (simp add: license_sep_def)
  have "build_loop (tokens license_sep b) la \<noteq> None"
    using ab(2) build_loop_valid [of "tokens license_sep b" la] build_loop_valid [of "tokens license_sep b" "[]"] by simp
  then obtain lm where lm: "build_loop (tokens license_sep b) la = Some lm" by auto
  have m: "build_loop (tokens license_sep (a @ '','' @ b)) [] = Some lm"
    unfolding t by (simp add: build_loop_append ab(1) lm)
  then have "license_list (license_job_merge job) = Some lm"
    by (simp add: license_job_merge_def Let_def build_license_list_def assms(6) del: append.simps)
  moreover have "count_of lm n = count_of la n + count_of lb n" for n
    using count_build_loop [OF m, of n] count_build_loop [OF ab(1), of n] count_build_loop [OF ab(2), of n] t
    by (simp add: token_count_def)
  moreover have "distinct (map l_name lm)" using build_loop_distinct [OF m] by simp
  ultimately show ?thesis using 1 by blast
qed

subsection \<open>The report to clients\<close>

text \<open>A license on the wire is a sequence of fields.\<close>

definition license_fields :: "u16 \<Rightarrow> licenses \<Rightarrow> field list" where
  "license_fields version l =
     [Str (Some (bytes_of (l_name l))), Int32 (l_total l), Int32 (l_used l), Int32 (l_reserved l), Int8 (l_remote l)]
     @ (if SLURM_23_02_PROTOCOL_VERSION \<le> version
        then [Int32 (l_last_consumed l), Int32 (l_last_deficit l), Time (l_last_update l)] else [])"

definition license_info :: "u16 \<Rightarrow> licenses \<Rightarrow> slurm_license_info" where
  "license_info version l =
     (if SLURM_23_02_PROTOCOL_VERSION \<le> version then
        \<lparr>i_name = Some (bytes_of (l_name l)), i_total = l_total l, i_in_use = l_used l,
         i_available = (if l_total l < l_used l + l_last_deficit l then 0 else l_total l - l_used l - l_last_deficit l),
         i_reserved = l_reserved l, i_remote = l_remote l, i_last_consumed = l_last_consumed l,
         i_last_deficit = l_last_deficit l, i_last_update = l_last_update l\<rparr>
      else
        \<lparr>i_name = Some (bytes_of (l_name l)), i_total = l_total l, i_in_use = l_used l,
         i_available = (if l_total l < l_used l then 0 else l_total l - l_used l),
         i_reserved = l_reserved l, i_remote = l_remote l, i_last_consumed = 0, i_last_deficit = 0, i_last_update = 0\<rparr>)"

lemma pack_each_fun: "pack_each pack [] = Some" "pack_each pack (x # xs) = (\<lambda>b. Option.bind (pack x b) (pack_each pack xs))"
  by (simp_all add: fun_eq_iff)

lemma pack_license_fields:
  "SLURM_MIN_PROTOCOL_VERSION \<le> version \<Longrightarrow> pack_license fresh version l b = pack_each (pack_field fresh) (license_fields version l) b"
  by (simp add: pack_license_def license_fields_def pack_each_fun del: pack_each.simps)

lemma pack_each_append: "pack_each pack (xs @ ys) b = Option.bind (pack_each pack xs b) (pack_each pack ys)"
proof (induction xs arbitrary: b)
  case (Cons x xs)
  then have "pack_each pack (xs @ ys) = (\<lambda>b. Option.bind (pack_each pack xs b) (pack_each pack ys))" by blast
  then show ?case by simp
qed simp

lemma pack_each_concat: "pack_each (\<lambda>l. pack_each pack (fs l)) ls b = pack_each pack (concat (map fs ls)) b"
proof (induction ls arbitrary: b)
  case (Cons l ls)
  then have "pack_each (\<lambda>l. pack_each pack (fs l)) ls = pack_each pack (concat (map fs ls))" by blast
  then show ?case by (simp add: pack_each_append)
qed simp

lemma pack_licenses_fields:
  assumes "SLURM_MIN_PROTOCOL_VERSION \<le> version"
  shows "pack_each (pack_license fresh version) ls = pack_each (pack_field fresh) (concat (map (license_fields version) ls))"
proof -
  have "pack_license fresh version = (\<lambda>l. pack_each (pack_field fresh) (license_fields version l))"
    using pack_license_fields [OF assms] by blast
  then show ?thesis by (intro ext) (simp only: pack_each_concat)
qed

lemma andthen_value:
  "andthen r f = Some (Some v, b') \<longleftrightarrow> (\<exists>x b. r = Some (Some x, b) \<and> f x b = Some (Some v, b'))"
  by (auto simp: andthen_def split: option.splits prod.splits)

lemma as_field_value: "as_field c r = Some (Some f, b) \<longleftrightarrow> (\<exists>v. r = Some (Some v, b) \<and> f = c v)"
  by (auto simp: as_field_def)

lemma unpack_license_kinds:
  assumes "unpack_kinds (map kind_of (license_fields version l)) b = Some (Some (license_fields version l), b')"
  shows "unpack_license False version b = Some (Some (license_info version l), b')"
  using assms unfolding license_fields_def unpack_license_def license_info_def
  by (simp add: andthen_value as_field_value unpackstr_xmalloc_chooser_def split: if_splits) fastforce+

lemma unpack_licenses_read:
  "wf_buf b \<Longrightarrow> list_all field_ok (concat (map (license_fields version) ls)) \<Longrightarrow>
   unread b = concat (map field_bytes (concat (map (license_fields version) ls))) @ rest \<Longrightarrow>
     \<exists>b'. unpack_each (unpack_license False version) (length ls) b = Some (Some (map (license_info version) ls), b')
       \<and> wf_buf b' \<and> unread b' = rest"
proof (induction ls arbitrary: b)
  case (Cons l ls)
  obtain b1 where b1: "unpack_kinds (map kind_of (license_fields version l)) b = Some (Some (license_fields version l), b1)" "wf_buf b1"
      "unread b1 = concat (map field_bytes (concat (map (license_fields version) ls))) @ rest"
    using unpack_kinds_read [OF Cons.prems(1), of "license_fields version l"] Cons.prems(2,3) by auto
  obtain b2 where "unpack_each (unpack_license False version) (length ls) b1 = Some (Some (map (license_info version) ls), b2)"
      "wf_buf b2" "unread b2 = rest"
    using Cons.IH [OF b1(2) _ b1(3)] Cons.prems(2) by auto
  then show ?case using unpack_license_kinds [OF b1(1)] by simp
qed simp

text \<open>The count at the start of the buffer is written at the end.\<close>

lemma overwrite_count:
  assumes "wf_buf b" "4 \<le> unat (processed b)"
  shows "\<exists>b'. pack32 fresh v (set_buf_offset b 0) = Some b' \<and> wf_buf (set_buf_offset b' (processed b))
    \<and> processed (set_buf_offset b' (processed b)) = processed b
    \<and> written (set_buf_offset b' (processed b)) = net_bytes 4 (unat v) @ drop 4 (written b)"
proof -
  note w = wf_bufD [OF assms(1)]
  let ?h = "net_bytes 4 (unat v) @ drop 4 (buf_head b)"
  let ?b = "b\<lparr>processed := 4, buf_head := ?h\<rparr>"
  have len: "length ?h = length (buf_head b)" using w assms(2) by simp
  have r: "remaining_buf (set_buf_offset b 0) = buf_size b" by (simp add: remaining_buf_def set_buf_offset_def)
  have m: "make_room fresh 4 BUF_SIZE (set_buf_offset b 0) = Some (set_buf_offset b 0)"
    using r w assms(2) by (simp add: make_room_def)
  have "pack32 fresh v (set_buf_offset b 0) = put_bytes (net_bytes 4 (unat v)) (set_buf_offset b 0)"
    by (simp add: pack32_def pack_bytes_def m)
  then have p: "pack32 fresh v (set_buf_offset b 0) = Some ?b"
    using w assms(2) by (simp add: put_bytes_def set_buf_offset_def)
  have "written (set_buf_offset ?b (processed b)) = net_bytes 4 (unat v) @ drop 4 (written b)"
    using w assms(2) by (simp add: written_def set_buf_offset_def drop_take)
  moreover have "wf_buf (set_buf_offset ?b (processed b))" using assms(1) len by (simp add: wf_buf_def set_buf_offset_def)
  ultimately show ?thesis using p by (auto simp: set_buf_offset_def)
qed

lemma unread_rewound: "unread (set_buf_offset b 0) = written b @ unread b"
  by (simp add: unread_def written_def set_buf_offset_def)

definition license_report_ok :: "licenses \<Rightarrow> bool" where
  "license_report_ok l \<longleftrightarrow> str_ok (Some (bytes_of (l_name l))) \<and> - (2 ^ 63) \<le> l_last_update l \<and> l_last_update l < 2 ^ 63"

lemma license_fields_ok: "license_report_ok l \<Longrightarrow> list_all field_ok (license_fields version l)"
  by (simp add: license_report_ok_def license_fields_def)

text \<open>C34: A client that unpacks the report of all licenses, in either supported
  version of the protocol, gets the time and for every license of the cluster its
  name, its counts and the number that is available; the reserved counts are set
  while the report is written.\<close>

theorem license_report_round_trip:
  assumes "SLURM_MIN_PROTOCOL_VERSION \<le> version" "cluster_license_list s = Some ls" "\<forall>l \<in> set ls. license_report_ok l"
    and "- (2 ^ 63) \<le> now" "now < 2 ^ 63" "length ls < 4294967296"
    and "2 * length (concat (map field_bytes (concat (map (license_fields version) ls)))) + 16408 \<le> unat MAX_BUF_SIZE"
  shows "\<exists>b s' b'. get_all_license_info fresh reserved now version s = Some (b, s')
    \<and> cluster_license_list s' = Some (map (\<lambda>l. l\<lparr>l_reserved := reserved l\<rparr>) ls)
    \<and> unpack_license_info_msg False version (set_buf_offset b 0) =
        Some (Some (now, map (\<lambda>l. license_info version (l\<lparr>l_reserved := reserved l\<rparr>)) ls), b')"
proof -
  let ?ls = "map (\<lambda>l. l\<lparr>l_reserved := reserved l\<rparr>) ls"
  let ?fs = "concat (map (license_fields version) ?ls)"
  let ?body = "concat (map field_bytes ?fs)"
  have ok: "list_all field_ok ?fs"
  proof -
    have "list_all field_ok (license_fields version (l\<lparr>l_reserved := reserved l\<rparr>))" if l: "l \<in> set ls" for l
      by (rule license_fields_ok) (use assms(3) l in \<open>simp add: license_report_ok_def\<close>)
    then show ?thesis by (auto simp: list_all_iff)
  qed
  have same: "length (concat (map field_bytes (license_fields version (l\<lparr>l_reserved := reserved l\<rparr>)))) =
      length (concat (map field_bytes (license_fields version l)))" for l
    by (simp add: license_fields_def)
  have "length ?body = length (concat (map field_bytes (concat (map (license_fields version) ls))))"
    by (induction ls) (simp_all add: same)
  then have size: "2 * length ?body + 16408 \<le> unat MAX_BUF_SIZE" using assms(7) by simp
  obtain b0 where b0: "init_buf BUF_SIZE = Some b0" by (simp add: init_buf_def BUF_SIZE_def MAX_BUF_SIZE_def)
  note i = init_buf_spec [OF b0]
  have z: "list_all field_ok (Int32 0 # Time now # ?fs)" using ok assms(4,5) by simp
  have f: "fits b0 (length (concat (map field_bytes (Int32 0 # Time now # ?fs))))" using i size by (simp add: fits_def)
  obtain b1 where b1: "pack_each (pack_field fresh) (Int32 0 # Time now # ?fs) b0 = Some b1" "wf_buf b1"
      "written b1 = net_bytes 4 0 @ net_bytes 8 (unat (of_int now :: u64)) @ ?body"
    using pack_fields_write [of b0 "Int32 0 # Time now # ?fs" fresh] i z f by auto
  have p1: "pack32 fresh 0 b0 \<bind> (\<lambda>b. pack_time fresh now b \<bind> pack_each (pack_license fresh version) ?ls) = Some b1"
    using b1(1) unfolding pack_licenses_fields [OF assms(1)] pack_each_fun(2) by simp
  have "4 \<le> unat (processed b1)" using written_length [OF b1(2)] b1(3) by simp
  from overwrite_count [OF b1(2) this, of fresh "of_nat (length ls)"] obtain b2 where
    b2: "pack32 fresh (of_nat (length ls)) (set_buf_offset b1 0) = Some b2" "wf_buf (set_buf_offset b2 (processed b1))"
      "written (set_buf_offset b2 (processed b1)) = net_bytes 4 (unat (of_nat (length ls) :: u32)) @ drop 4 (written b1)"
    by blast
  let ?b = "set_buf_offset b2 (processed b1)"
  have n: "unat (of_nat (length ls) :: u32) = length ls" using assms(6) by (simp add: u32_of_nat)
  have g: "get_all_license_info fresh reserved now version s = Some (?b, s\<lparr>cluster_license_list := Some ?ls\<rparr>)"
    using b0 p1 b2(1) assms(2) by (auto simp: get_all_license_info_def Let_def Option.bind_eq_Some_conv)
  let ?r = "set_buf_offset ?b 0"
  have w: "wf_buf ?r" using b2(2) by (simp add: wf_buf_def set_buf_offset_def)
  have u: "unread ?r = net_bytes 4 (length ls) @ net_bytes 8 (unat (of_int now :: u64)) @ ?body @ unread ?b"
    unfolding unread_rewound b2(3) b1(3) n by simp
  obtain r1 where r1: "unpack32 ?r = Some (Some (of_nat (length ls)), r1)" "wf_buf r1"
      "unread r1 = net_bytes 8 (unat (of_int now :: u64)) @ ?body @ unread ?b"
    using unpack32_reads [OF w, of "of_nat (length ls)"] u n by auto
  obtain r2 where r2: "unpack_time r1 = Some (Some now, r2)" "wf_buf r2" "unread r2 = ?body @ unread ?b"
    using ctime.unpack_reads [OF r1(2) _ r1(3)] assms(4,5) by auto
  obtain r3 where "unpack_each (unpack_license False version) (length ?ls) r2 = Some (Some (map (license_info version) ?ls), r3)"
    using unpack_licenses_read [OF r2(2) ok r2(3)] by blast
  then have "unpack_license_info_msg False version ?r = Some (Some (now, map (license_info version) ?ls), r3)"
    using r1(1) r2(1) n assms(1) by (simp add: unpack_license_info_msg_def)
  then show ?thesis using g by (auto simp: comp_def)
qed

theorem license_report_round_trip_witness:
  "\<exists>b s' b'. get_all_license_info (\<lambda>_. 7) (\<lambda>_. 1) 1000 SLURM_23_02_PROTOCOL_VERSION (one_license 3) = Some (b, s')
     \<and> unpack_license_info_msg False SLURM_23_02_PROTOCOL_VERSION (set_buf_offset b 0) =
         Some (Some (1000, [license_info SLURM_23_02_PROTOCOL_VERSION ((new_license ''fluent'' 4)\<lparr>l_used := 3, l_reserved := 1\<rparr>)]), b')"
proof -
  let ?l = "(new_license ''fluent'' 4)\<lparr>l_used := 3\<rparr>"
  have c: "cluster_license_list (one_license 3) = Some [?l]" by (simp add: one_license_def)
  have ok: "\<forall>l \<in> set [?l]. license_report_ok l"
    by (simp add: license_report_ok_def new_license_def str_ok_def str_bytes_def bytes_of_def)
  have s: "2 * length (concat (map field_bytes (concat (map (license_fields SLURM_23_02_PROTOCOL_VERSION) [?l])))) + 16408 \<le> unat MAX_BUF_SIZE"
    by (simp add: license_fields_def str_bytes_def bytes_of_def new_license_def)
  have v: "SLURM_MIN_PROTOCOL_VERSION \<le> SLURM_23_02_PROTOCOL_VERSION"
    by (simp add: SLURM_MIN_PROTOCOL_VERSION_def SLURM_23_02_PROTOCOL_VERSION_def)
  from license_report_round_trip [OF v c ok _ _ _ s, of 1000 "\<lambda>_. 7" "\<lambda>_. 1"] show ?thesis by auto
qed

subsection \<open>Synchronisation with the database\<close>

lemma find_remote_none: "find (license_find_remote_rec n) ls = None \<longleftrightarrow> (\<forall>l \<in> set ls. l_remote l = 0 \<or> l_name l \<noteq> n)"
  by (induction ls) (auto simp: license_find_remote_rec_def license_find_rec_def)

lemma update_first_split:
  assumes "find p ls \<noteq> None"
  shows "\<exists>xs l ys. ls = xs @ l # ys \<and> p l \<and> update_first p f ls = xs @ f l # ys"
  using assms
proof (induction ls)
  case (Cons x ls)
  show ?case
  proof (cases "p x")
    case True
    have "x # ls = [] @ x # ls \<and> p x \<and> update_first p f (x # ls) = [] @ f x # ls" using True by simp
    then show ?thesis by blast
  next
    case False
    then obtain xs l ys where l: "ls = xs @ l # ys" "p l" "update_first p f ls = xs @ f l # ys" using Cons by auto
    have "x # ls = (x # xs) @ l # ys" "update_first p f (x # ls) = (x # xs) @ f l # ys" using False l(1,3) by simp_all
    then show ?thesis using l(2) by blast
  qed
qed simp

lemma handle_consumed_fields [simp]:
  "l_name (handle_consumed r l) = l_name l" "l_remote (handle_consumed r l) = l_remote l" "l_used (handle_consumed r l) = l_used l"
  by (simp_all add: handle_consumed_def Let_def)

definition sync_one :: "res_rec \<Rightarrow> licenses list \<Rightarrow> licenses list" where
  "sync_one r ls =
     (if \<not> res_is_license r then ls
      else if find (license_find_remote_rec (remote_name r)) ls = None then add_res_rec r True ls
      else update_first (license_find_remote_rec (remote_name r)) (\<lambda>l. handle_consumed r (l\<lparr>l_remote := 2\<rparr>)) ls)"

lemma sync_one_cases:
  assumes "res_is_license r"
  shows "\<exists>xs l ys. sync_one r ls = xs @ handle_consumed r l # ys \<and> l_name l = remote_name r \<and> l_remote l = 2
    \<and> (ls = xs @ ys \<or> (\<exists>l0. ls = xs @ l0 # ys \<and> l_remote l0 \<noteq> 0 \<and> l = l0\<lparr>l_remote := 2\<rparr>))"
proof (cases "find (license_find_remote_rec (remote_name r)) ls = None")
  case True
  then have "sync_one r ls = [] @ handle_consumed r ((new_license (remote_name r) 0)\<lparr>l_remote := 2\<rparr>) # ls"
    using assms by (simp add: sync_one_def add_res_rec_def)
  then show ?thesis by (intro exI [of _ "[]"] exI [of _ "(new_license (remote_name r) 0)\<lparr>l_remote := 2\<rparr>"] exI [of _ ls]) (simp add: new_license_def)
next
  case False
  obtain xs l ys where l: "ls = xs @ l # ys" "license_find_remote_rec (remote_name r) l"
      "update_first (license_find_remote_rec (remote_name r)) (\<lambda>l. handle_consumed r (l\<lparr>l_remote := 2\<rparr>)) ls
         = xs @ handle_consumed r (l\<lparr>l_remote := 2\<rparr>) # ys"
    using update_first_split [OF False, of "\<lambda>l. handle_consumed r (l\<lparr>l_remote := 2\<rparr>)"] by blast
  have "sync_one r ls = xs @ handle_consumed r (l\<lparr>l_remote := 2\<rparr>) # ys" using False assms l(3) by (auto simp: sync_one_def)
  then show ?thesis using l(1,2) by (intro exI [of _ xs] exI [of _ "l\<lparr>l_remote := 2\<rparr>"] exI [of _ ys])
      (auto simp: license_find_remote_rec_def license_find_rec_def)
qed

text \<open>What one resource changes: it marks its name, and leaves the local licenses and the marked ones of other names.\<close>

lemma sync_one_spec:
  assumes "\<forall>l \<in> set ls. l_remote l \<le> 2"
  shows "\<forall>l \<in> set (sync_one r ls). l_remote l \<le> 2"
    and "filter (\<lambda>l. l_remote l = 0) (sync_one r ls) = filter (\<lambda>l. l_remote l = 0) ls"
    and "{l_name l |l. l \<in> set (sync_one r ls) \<and> l_remote l = 2} =
      {l_name l |l. l \<in> set ls \<and> l_remote l = 2} \<union> (if res_is_license r then {remote_name r} else {})"
    and "l \<in> set (sync_one r ls) \<Longrightarrow> l_remote l = 2 \<Longrightarrow>
      l \<in> set ls \<or> (res_is_license r \<and> (\<exists>l0. l = handle_consumed r l0 \<and> l_name l0 = remote_name r))"
proof -
  have "(\<forall>l \<in> set (sync_one r ls). l_remote l \<le> 2)
    \<and> filter (\<lambda>l. l_remote l = 0) (sync_one r ls) = filter (\<lambda>l. l_remote l = 0) ls
    \<and> {l_name l |l. l \<in> set (sync_one r ls) \<and> l_remote l = 2} =
        {l_name l |l. l \<in> set ls \<and> l_remote l = 2} \<union> (if res_is_license r then {remote_name r} else {})
    \<and> (\<forall>l \<in> set (sync_one r ls). l_remote l = 2 \<longrightarrow>
        l \<in> set ls \<or> (res_is_license r \<and> (\<exists>l0. l = handle_consumed r l0 \<and> l_name l0 = remote_name r)))"
  proof (cases "res_is_license r")
    case False
    then have "sync_one r ls = ls" by (simp add: sync_one_def)
    then show ?thesis using assms False by auto
  next
    case True
    obtain xs l ys where l: "sync_one r ls = xs @ handle_consumed r l # ys" "l_name l = remote_name r" "l_remote l = 2"
        "ls = xs @ ys \<or> (\<exists>l0. ls = xs @ l0 # ys \<and> l_remote l0 \<noteq> 0 \<and> l = l0\<lparr>l_remote := 2\<rparr>)"
      using sync_one_cases [OF True, of ls] by blast
    show ?thesis using l(4)
    proof (elim disjE exE conjE)
      assume "ls = xs @ ys"
      then show ?thesis using assms True l(2,3) unfolding l(1) by (auto intro: exI [of _ "handle_consumed r l"])
    next
      fix l0
      assume l0: "ls = xs @ l0 # ys" "l_remote l0 \<noteq> 0" "l = l0\<lparr>l_remote := 2\<rparr>"
      then have "l_name l0 = remote_name r" using l(2) by simp
      then show ?thesis using assms True l(2,3) l0(2) unfolding l0(1) l(1) [unfolded l0(1)] by (auto intro: exI [of _ "handle_consumed r l"])
    qed
  qed
  then show "\<forall>l \<in> set (sync_one r ls). l_remote l \<le> 2"
    "filter (\<lambda>l. l_remote l = 0) (sync_one r ls) = filter (\<lambda>l. l_remote l = 0) ls"
    "{l_name l |l. l \<in> set (sync_one r ls) \<and> l_remote l = 2} =
      {l_name l |l. l \<in> set ls \<and> l_remote l = 2} \<union> (if res_is_license r then {remote_name r} else {})"
    "l \<in> set (sync_one r ls) \<Longrightarrow> l_remote l = 2 \<Longrightarrow>
      l \<in> set ls \<or> (res_is_license r \<and> (\<exists>l0. l = handle_consumed r l0 \<and> l_name l0 = remote_name r))"
    by blast+
qed

definition marked :: "licenses list \<Rightarrow> string set" where
  "marked ls = {l_name l |l. l \<in> set ls \<and> l_remote l = 2}"

lemma sync_recs_spec:
  "\<forall>l \<in> set ls. l_remote l \<le> 2 \<Longrightarrow>
     (\<forall>l \<in> set (sync_recs rs ls). l_remote l \<le> 2)
   \<and> filter (\<lambda>l. l_remote l = 0) (sync_recs rs ls) = filter (\<lambda>l. l_remote l = 0) ls
   \<and> marked (sync_recs rs ls) = marked ls \<union> {remote_name r |r. r \<in> set rs \<and> res_is_license r}
   \<and> (\<forall>l \<in> set (sync_recs rs ls). l_remote l = 2 \<longrightarrow>
       l \<in> set ls \<or> (\<exists>r \<in> set rs. res_is_license r \<and> (\<exists>l0. l = handle_consumed r l0 \<and> l_name l0 = remote_name r)))"
proof (induction rs arbitrary: ls)
  case (Cons r rs)
  have e: "sync_recs (r # rs) ls = sync_recs rs (sync_one r ls)" by (simp add: sync_one_def)
  note o = sync_one_spec [OF Cons.prems, where r = r]
  have m: "marked (sync_one r ls) = marked ls \<union> (if res_is_license r then {remote_name r} else {})"
    using o(3) by (simp add: marked_def)
  have s: "{remote_name q |q. q \<in> set (r # rs) \<and> res_is_license q} =
      (if res_is_license r then {remote_name r} else {}) \<union> {remote_name q |q. q \<in> set rs \<and> res_is_license q}" by auto
  note IH = Cons.IH [OF o(1)]
  have "\<forall>l \<in> set (sync_recs rs (sync_one r ls)). l_remote l = 2 \<longrightarrow>
      l \<in> set ls \<or> (\<exists>q \<in> set (r # rs). res_is_license q \<and> (\<exists>l0. l = handle_consumed q l0 \<and> l_name l0 = remote_name q))"
    using IH o(4) by (metis list.set_intros)
  then show ?case unfolding e s using IH o(2) m by (simp add: Un_assoc)
qed simp

lemma sync_sweep_spec:
  assumes "\<forall>l \<in> set ls. l_remote l \<le> 2"
  shows "filter (\<lambda>l. l_remote l = 0) (sync_sweep ls) = filter (\<lambda>l. l_remote l = 0) ls"
    and "\<forall>l \<in> set (sync_sweep ls). l_remote l \<le> 1"
    and "l \<in> set (sync_sweep ls) \<and> l_remote l = 1 \<longleftrightarrow> (\<exists>l0 \<in> set ls. l_remote l0 = 2 \<and> l = l0\<lparr>l_remote := 1\<rparr>)"
proof -
  show "filter (\<lambda>l. l_remote l = 0) (sync_sweep ls) = filter (\<lambda>l. l_remote l = 0) ls"
    by (induction ls) (auto simp: sync_sweep_def)
  have "(x :: u8) = 0 \<or> x = 1 \<or> x = 2" if x: "x \<le> 2" for x
    using x by (simp add: word_le_nat_alt word_unat_eq_iff) linarith
  then have t: "l_remote l = 0 \<or> l_remote l = 1 \<or> l_remote l = 2" if l: "l \<in> set ls" for l using assms l by blast
  show "\<forall>l \<in> set (sync_sweep ls). l_remote l \<le> 1"
    using t by (fastforce simp: sync_sweep_def)
  show "l \<in> set (sync_sweep ls) \<and> l_remote l = 1 \<longleftrightarrow> (\<exists>l0 \<in> set ls. l_remote l0 = 2 \<and> l = l0\<lparr>l_remote := 1\<rparr>)"
    by (auto simp: sync_sweep_def)
qed

text \<open>C35: A synchronisation with the database leaves the licenses of the
  configuration as they were, and makes the names of the remote licenses exactly
  those of the database's license resources: a name that is no longer there is
  removed, a new one is added, and every remote license has the counts of a
  resource of its name.\<close>

theorem sync_matches_database:
  assumes "\<forall>l \<in> set (cluster_list s). l_remote l \<le> 1" "license_sync_remote now (Some rs) s = Some s'"
  shows "filter (\<lambda>l. l_remote l = 0) (cluster_list s') = filter (\<lambda>l. l_remote l = 0) (cluster_list s)
    \<and> (\<forall>l \<in> set (cluster_list s'). l_remote l \<le> 1)
    \<and> {l_name l |l. l \<in> set (cluster_list s') \<and> l_remote l = 1} = {remote_name r |r. r \<in> set rs \<and> res_is_license r}
    \<and> (l \<in> set (cluster_list s') \<and> l_remote l = 1 \<longrightarrow>
        (\<exists>r \<in> set rs. \<exists>l0. remote_name r = l_name l \<and> l = (handle_consumed r l0)\<lparr>l_remote := 1\<rparr>))"
proof -
  let ?ls = "cluster_list s" and ?m = "sync_recs rs (cluster_list s)"
  have one: "(1 :: u8) \<le> 2" "(2 :: u8) \<noteq> 1" "\<not> (2 :: u8) \<le> 1" by (simp_all add: word_le_nat_alt)
  then have le: "\<forall>l \<in> set ?ls. l_remote l \<le> 2" using assms(1) by force
  note r = sync_recs_spec [OF le, of rs]
  have s': "cluster_list s' = sync_sweep ?m"
    using assms(2) by (auto simp: license_sync_remote_def Let_def cluster_list_def)
  have no: "marked ?ls = {}" "l0 \<in> set ?ls \<Longrightarrow> l_remote l0 \<noteq> 2" for l0 using assms(1) one(3) by (fastforce simp: marked_def)+
  note w = sync_sweep_spec [of ?m]
  have le2: "\<forall>l \<in> set ?m. l_remote l \<le> 2" using r by blast
  have 1: "filter (\<lambda>l. l_remote l = 0) (cluster_list s') = filter (\<lambda>l. l_remote l = 0) ?ls"
    using r w(1) [OF le2] s' by simp
  have names: "{l_name l |l. l \<in> set (cluster_list s') \<and> l_remote l = 1} = marked ?m"
    unfolding s' w(3) [OF le2] marked_def by (auto intro: exI [of _ "_\<lparr>l_remote := 1\<rparr>"])
  have 4: "\<exists>r \<in> set rs. \<exists>l0. remote_name r = l_name l \<and> l = (handle_consumed r l0)\<lparr>l_remote := 1\<rparr>"
    if l: "l \<in> set (cluster_list s') \<and> l_remote l = 1"
  proof -
    obtain l1 where l1: "l1 \<in> set ?m" "l_remote l1 = 2" "l = l1\<lparr>l_remote := 1\<rparr>" using l w(3) [OF le2, of l] s' by auto
    then obtain q l0 where q: "q \<in> set rs" "l1 = handle_consumed q l0" "l_name l0 = remote_name q" using r no(2) by blast
    have "remote_name q = l_name l" using q(2,3) l1(3) by simp
    then show ?thesis using q(1,2) l1(3) by blast
  qed
  show ?thesis using 1 w(2) [OF le2] names r no(1) 4 unfolding s' by blast
qed

definition gone :: license_state where
  "gone = \<lparr>cluster_license_list = Some [(new_license ''old@db'' 7)\<lparr>l_remote := 1\<rparr>, new_license ''local'' 2], last_license_update = 0\<rparr>"

definition matlab :: res_rec where
  "matlab = \<lparr>res_name = ''matlab'', res_server = ''db'', res_count = 20, res_absolute = False, res_allowed = 50,
     res_last_consumed = 15, res_last_update = 4, res_is_license = True\<rparr>"

theorem sync_matches_database_witness:
  "\<exists>s'. license_sync_remote 9 (Some [matlab]) gone = Some s' \<and> {l_name l |l. l \<in> set (cluster_list s') \<and> l_remote l = 1} = {''matlab@db''}"
proof -
  obtain s' where s': "license_sync_remote 9 (Some [matlab]) gone = Some s'" by (simp add: license_sync_remote_def Let_def)
  have "\<forall>l \<in> set (cluster_list gone). l_remote l \<le> 1" by (simp add: gone_def cluster_list_def new_license_def)
  from sync_matches_database [OF this s'] have "{l_name l |l. l \<in> set (cluster_list s') \<and> l_remote l = 1} =
      {remote_name r |r. r \<in> set [matlab] \<and> res_is_license r}" by blast
  also have "\<dots> = {''matlab@db''}" by (auto simp: matlab_def remote_name_def)
  finally show ?thesis using s' by blast
qed

subsection \<open>Changes of the list of licenses\<close>

text \<open>
  The names of a list are distinct, and the licenses of the database are those with
  a server in their name.
\<close>

definition wf_list :: "licenses list \<Rightarrow> bool" where
  "wf_list ls \<longleftrightarrow> distinct (map l_name ls) \<and> (\<forall>l \<in> set ls. l_remote l \<noteq> 0 \<longleftrightarrow> CHR ''@'' \<in> set (l_name l))"

text \<open>A list of which each license is one of another list, with the same use, or new and not used.\<close>

definition inherits :: "licenses list \<Rightarrow> licenses list \<Rightarrow> bool" where
  "inherits ls ls' \<longleftrightarrow> wf_list ls' \<and> (\<forall>l' \<in> set ls'.
     (\<exists>l \<in> set ls. l_name l = l_name l' \<and> l_used l = l_used l') \<or> (l_name l' \<notin> l_name ` set ls \<and> l_used l' = 0))"

lemma inherits_trans:
  assumes "inherits ls ls1" "l_name ` set ls \<subseteq> l_name ` set ls1" "inherits ls1 ls2"
  shows "inherits ls ls2"
  unfolding inherits_def
proof (intro conjI ballI)
  show "wf_list ls2" using assms(3) by (simp add: inherits_def)
  fix l2
  assume "l2 \<in> set ls2"
  then consider l1 where "l1 \<in> set ls1" "l_name l1 = l_name l2" "l_used l1 = l_used l2" | "l_name l2 \<notin> l_name ` set ls1" "l_used l2 = 0"
    using assms(3) unfolding inherits_def by blast
  then show "(\<exists>l \<in> set ls. l_name l = l_name l2 \<and> l_used l = l_used l2) \<or> (l_name l2 \<notin> l_name ` set ls \<and> l_used l2 = 0)"
    using assms(1,2) unfolding inherits_def by cases (metis, blast)
qed

lemma inherits_new:
  assumes "wf_list ls" "find (license_find_remote_rec (l_name x)) ls = None" "CHR ''@'' \<in> set (l_name x)" "l_remote x \<noteq> 0" "l_used x = 0"
  shows "inherits ls (x # ls)"
proof -
  have "l_name l \<noteq> l_name x" if "l \<in> set ls" for l
    using that assms(1-3) unfolding find_remote_none wf_list_def by metis
  then have "l_name x \<notin> l_name ` set ls" by force
  then show ?thesis using assms(1,3-5) by (auto simp: inherits_def wf_list_def)
qed

lemma inherits_update:
  assumes "wf_list ls" "\<And>l. l_name (f l) = l_name l \<and> l_used (f l) = l_used l \<and> (l_remote l \<noteq> 0 \<longrightarrow> l_remote (f l) \<noteq> 0)"
  shows "inherits ls (update_first (license_find_remote_rec n) f ls)"
    "l_name ` set (update_first (license_find_remote_rec n) f ls) = l_name ` set ls"
proof -
  let ?ls = "update_first (license_find_remote_rec n) f ls"
  have n: "map l_name ?ls = map l_name ls" by (induction ls) (simp_all add: assms(2))
  then show s: "l_name ` set ?ls = l_name ` set ls" by (metis set_map)
  have "\<forall>l' \<in> set ?ls. \<exists>l \<in> set ls. l_name l = l_name l' \<and> l_used l = l_used l' \<and> (l_remote l' \<noteq> 0 \<longleftrightarrow> l_remote l \<noteq> 0)"
    by (induction ls) (use assms(2) in \<open>auto simp: license_find_remote_rec_def\<close>)
  then show "inherits ls ?ls" using assms(1) n unfolding inherits_def wf_list_def by metis
qed

lemma remove_remote_sub: "remove_remote n ls = Some ls' \<Longrightarrow> set ls' \<subseteq> set ls \<and> (distinct (map l_name ls) \<longrightarrow> distinct (map l_name ls'))"
proof (induction ls arbitrary: ls')
  case (Cons l ls)
  show ?case
  proof (cases "license_find_remote_rec n l")
    case True
    then show ?thesis using Cons.prems by auto
  next
    case False
    then obtain ls1 where "remove_remote n ls = Some ls1" "ls' = l # ls1" using Cons.prems by auto
    then show ?thesis using Cons.IH [of ls1] by auto
  qed
qed simp

lemma inherits_subset: "wf_list ls \<Longrightarrow> set ls' \<subseteq> set ls \<Longrightarrow> distinct (map l_name ls') \<Longrightarrow> inherits ls ls'"
  by (auto simp: inherits_def wf_list_def)

lemma remote_name_server: "CHR ''@'' \<in> set (remote_name r)"
  by (simp add: remote_name_def)

lemma inherits_add:
  assumes "wf_list ls" "find (license_find_remote_rec (remote_name r)) ls = None"
  shows "inherits ls (add_res_rec r sync ls)"
  unfolding add_res_rec_def
  by (rule inherits_new [OF assms(1)]) (use assms(2) remote_name_server in \<open>simp_all add: new_license_def\<close>)

lemma sync_one_inherits: "wf_list ls \<Longrightarrow> inherits ls (sync_one r ls) \<and> l_name ` set ls \<subseteq> l_name ` set (sync_one r ls)"
proof -
  assume w: "wf_list ls"
  note u = inherits_update [OF w, of "\<lambda>l. handle_consumed r (l\<lparr>l_remote := 2\<rparr>)" "remote_name r"]
  show ?thesis using inherits_add [OF w, of r True] u w inherits_subset [OF w, of ls]
    by (auto simp: sync_one_def add_res_rec_def wf_list_def)
qed

lemma sync_recs_inherits: "wf_list ls \<Longrightarrow> inherits ls (sync_recs rs ls) \<and> l_name ` set ls \<subseteq> l_name ` set (sync_recs rs ls)"
proof (induction rs arbitrary: ls)
  case Nil
  then show ?case using inherits_subset [of ls ls] by (simp add: wf_list_def)
next
  case (Cons r rs)
  have e: "sync_recs (r # rs) ls = sync_recs rs (sync_one r ls)" by (simp add: sync_one_def)
  note o = sync_one_inherits [OF Cons.prems, of r]
  have "wf_list (sync_one r ls)" using o by (simp add: inherits_def)
  from Cons.IH [OF this] show ?case unfolding e using o inherits_trans [of ls "sync_one r ls" "sync_recs rs (sync_one r ls)"] by blast
qed

lemma sync_sweep_inherits: "wf_list ls \<Longrightarrow> inherits ls (sync_sweep ls)"
proof -
  assume w: "wf_list ls"
  let ?u = "\<lambda>l. if l_remote l = 2 then l\<lparr>l_remote := 1\<rparr> else l"
  have "map l_name (sync_sweep ls) = map l_name (filter (\<lambda>l. l_remote l \<noteq> 1) ls)" by (simp add: sync_sweep_def)
  then have d: "distinct (map l_name (sync_sweep ls))" using w by (simp add: wf_list_def distinct_map_filter)
  have "\<forall>l' \<in> set (sync_sweep ls). \<exists>l \<in> set ls. l_name l = l_name l' \<and> l_used l = l_used l' \<and> (l_remote l' \<noteq> 0 \<longleftrightarrow> l_remote l \<noteq> 0)"
    unfolding sync_sweep_def by fastforce
  then show ?thesis using d w unfolding inherits_def wf_list_def by metis
qed

text \<open>What the database sends.\<close>

datatype db_op = Add_Remote res_rec | Update_Remote res_rec | Remove_Remote res_rec | Sync_Remote "res_rec list option"

definition db_step :: "int \<Rightarrow> db_op \<Rightarrow> license_state \<Rightarrow> license_state option" where
  "db_step now op s =
     (case op of
        Add_Remote r \<Rightarrow> Some (license_add_remote now r s)
      | Update_Remote r \<Rightarrow> Some (license_update_remote now r s)
      | Remove_Remote r \<Rightarrow> Some (license_remove_remote now r s)
      | Sync_Remote rs \<Rightarrow> license_sync_remote now rs s)"

lemma db_step_inherits:
  assumes "db_step now op s = Some s'" "wf_list (cluster_list s)"
  shows "inherits (cluster_list s) (cluster_list s')" "cluster_license_list s' \<noteq> None"
proof -
  note refl = inherits_subset [OF assms(2) order_refl]
  have d: "distinct (map l_name (cluster_list s))" using assms(2) by (simp add: wf_list_def)
  have "inherits (cluster_list s) (cluster_list s') \<and> cluster_license_list s' \<noteq> None"
  proof (cases op)
    case (Add_Remote r)
    have s': "s' = license_add_remote now r s" using assms(1) Add_Remote by (simp add: db_step_def)
    show ?thesis unfolding s'
      using refl [OF d] inherits_add [OF assms(2), of r False] by (simp add: license_add_remote_def Let_def cluster_list_def)
  next
    case (Update_Remote r)
    have s': "s' = license_update_remote now r s" using assms(1) Update_Remote by (simp add: db_step_def)
    show ?thesis unfolding s'
      using inherits_add [OF assms(2), of r False] inherits_update(1) [OF assms(2), of "handle_consumed r" "remote_name r"]
      by (simp add: license_update_remote_def Let_def cluster_list_def)
  next
    case (Remove_Remote r)
    have s': "s' = license_remove_remote now r s" using assms(1) Remove_Remote by (simp add: db_step_def)
    show ?thesis
    proof (cases "remove_remote (remote_name r) (cluster_list s)")
      case None
      then show ?thesis unfolding s' using refl [OF d] by (simp add: license_remove_remote_def cluster_list_def)
    next
      case (Some ls)
      then show ?thesis unfolding s' using inherits_subset [OF assms(2), of ls] remove_remote_sub [OF Some] d
        by (simp add: license_remove_remote_def cluster_list_def)
    qed
  next
    case (Sync_Remote rs)
    let ?ls = "sync_recs (case_option [] id rs) (cluster_list s)"
    have s': "cluster_list s' = sync_sweep ?ls" "cluster_license_list s' \<noteq> None"
      using assms(1) Sync_Remote by (auto simp: db_step_def license_sync_remote_def Let_def cluster_list_def split: if_splits)
    note i = sync_recs_inherits [OF assms(2), of "case_option [] id rs"]
    then have "wf_list ?ls" by (simp add: inherits_def)
    then show ?thesis using i s' inherits_trans sync_sweep_inherits by metis
  qed
  then show "inherits (cluster_list s) (cluster_list s')" "cluster_license_list s' \<noteq> None" by simp_all
qed

lemma wf_used_rel: "used_rel f ls ls' \<Longrightarrow> wf_list ls \<Longrightarrow> wf_list ls'"
  using used_rel_names [of f ls ls'] unfolding wf_list_def by (auto elim!: used_rel_at)

text \<open>A new configuration: no license is in use, and those of the database are kept.\<close>

definition plain_names :: "string option \<Rightarrow> bool" where
  "plain_names str \<longleftrightarrow> (\<forall>l \<in> set (case_option [] id (fst (build_license_list str))). CHR ''@'' \<notin> set (l_name l))"

lemma built_wf:
  assumes "plain_names str"
  shows "wf_list (case_option [] id (fst (build_license_list str)))"
    "\<forall>l \<in> set (case_option [] id (fst (build_license_list str))). l_used l = 0 \<and> l_remote l = 0 \<and> CHR ''@'' \<notin> set (l_name l)"
proof -
  obtain ls v where b: "build_license_list str = (ls, v)" by fastforce
  show "\<forall>l \<in> set (case_option [] id (fst (build_license_list str))). l_used l = 0 \<and> l_remote l = 0 \<and> CHR ''@'' \<notin> set (l_name l)"
    using built_list(2) [of str _ v] b assms by (cases ls) (auto simp: plain_names_def)
  then show "wf_list (case_option [] id (fst (build_license_list str)))"
    using built_list(1) [of str _ v] b by (cases ls) (auto simp: wf_list_def)
qed

lemma keep_remote_spec:
  "case_option [] id (keep_remote ls new) = case_option [] id new @ map (\<lambda>l. l\<lparr>l_used := 0\<rparr>) (filter (\<lambda>l. l_remote l \<noteq> 0) ls)"
  by (induction ls new rule: keep_remote.induct) simp_all

lemma wf_append: "wf_list xs \<Longrightarrow> wf_list ys \<Longrightarrow> l_name ` set xs \<inter> l_name ` set ys = {} \<Longrightarrow> wf_list (xs @ ys)"
  by (auto simp: wf_list_def)

definition kept_remote :: "licenses list \<Rightarrow> licenses list" where
  "kept_remote ls = map (\<lambda>l. l\<lparr>l_used := 0\<rparr>) (filter (\<lambda>l. l_remote l \<noteq> 0) ls)"

lemma kept_remote_wf:
  assumes "wf_list ls"
  shows "wf_list (kept_remote ls)" "\<forall>l \<in> set (kept_remote ls). l_used l = 0 \<and> CHR ''@'' \<in> set (l_name l)"
proof -
  have n: "map l_name (kept_remote ls) = map l_name (filter (\<lambda>l. l_remote l \<noteq> 0) ls)" by (simp add: kept_remote_def)
  have "distinct (map l_name (kept_remote ls))" unfolding n using assms by (simp add: wf_list_def distinct_map_filter)
  moreover have m: "\<forall>l \<in> set (kept_remote ls). l_remote l \<noteq> 0 \<and> l_used l = 0 \<and> CHR ''@'' \<in> set (l_name l)"
    using assms by (auto simp: kept_remote_def wf_list_def)
  ultimately show "wf_list (kept_remote ls)" unfolding wf_list_def by blast
  show "\<forall>l \<in> set (kept_remote ls). l_used l = 0 \<and> CHR ''@'' \<in> set (l_name l)" using m by blast
qed

lemma license_update_list:
  "license_update str s = Some s1 \<Longrightarrow> cluster_list s1 = case_option [] id (fst (build_license_list str)) @ kept_remote (cluster_list s)"
proof -
  assume u: "license_update str s = Some s1"
  obtain new v where b: "build_license_list str = (new, v)" by fastforce
  then have s1: "cluster_license_list s1 = (case cluster_license_list s of None \<Rightarrow> new | Some ls \<Rightarrow> keep_remote ls new)"
    using u unfolding license_update_def b by (cases v) auto
  show ?thesis
  proof (cases "cluster_license_list s")
    case None
    then show ?thesis using s1 b by (simp add: cluster_list_def kept_remote_def)
  next
    case (Some ls)
    then have "cluster_list s1 = case_option [] id (keep_remote ls new)" using s1 by (simp add: cluster_list_def)
    then show ?thesis unfolding keep_remote_spec using Some b by (simp add: cluster_list_def kept_remote_def)
  qed
qed

lemma image_disjoint: "(\<And>x y. x \<in> A \<Longrightarrow> y \<in> B \<Longrightarrow> f x \<noteq> f y) \<Longrightarrow> f ` A \<inter> f ` B = {}"
  by blast

lemma license_update_spec:
  assumes "license_update str s = Some s1" "plain_names str" "wf_list (cluster_list s)"
  shows "wf_list (cluster_list s1)" "\<forall>l \<in> set (cluster_list s1). l_used l = 0"
proof -
  note b = built_wf [OF assms(2)] and k = kept_remote_wf [OF assms(3)]
  have "l_name ` set (case_option [] id (fst (build_license_list str))) \<inter> l_name ` set (kept_remote (cluster_list s)) = {}"
  proof (rule image_disjoint)
    fix x y
    assume "x \<in> set (case_option [] id (fst (build_license_list str)))" "y \<in> set (kept_remote (cluster_list s))"
    then have "CHR ''@'' \<notin> set (l_name x)" "CHR ''@'' \<in> set (l_name y)" using b(2) k(2) by blast+
    then show "l_name x \<noteq> l_name y" by metis
  qed
  then show "wf_list (cluster_list s1)" unfolding license_update_list [OF assms(1)] by (rule wf_append [OF b(1) k(1)])
  show "\<forall>l \<in> set (cluster_list s1). l_used l = 0"
    unfolding license_update_list [OF assms(1)] set_append by (intro ballI) (use b(2) k(2) in \<open>elim UnE; blast\<close>)
qed

subsection \<open>What a job takes and gives back\<close>

lemma get_spec:
  assumes "distinct (map l_name (cluster_list s))" "license_job_get now restore job s = Some (job', s', rc)"
  shows "used_rel (\<lambda>n x y. y = x + demand (job_list job) n) (cluster_list s) (cluster_list s')"
    "cluster_license_list s' = None \<longleftrightarrow> cluster_license_list s = None" "holds (job_list job') n = holds (job_list job) n"
    "cluster_license_list s = None \<Longrightarrow> job_list job' = []"
proof -
  have "used_rel (\<lambda>n x y. y = x + demand (job_list job) n) (cluster_list s) (cluster_list s')
    \<and> (cluster_license_list s' = None \<longleftrightarrow> cluster_license_list s = None) \<and> holds (job_list job') n = holds (job_list job) n
    \<and> (cluster_license_list s = None \<longrightarrow> job_list job' = [])"
  proof (cases "license_list job")
    case None
    then have "job' = job" "s' = s" using assms(2) by (simp_all add: license_job_get_def)
    then show ?thesis using None by (auto simp: demand_def intro!: used_rel_refl)
  next
    case (Some es)
    show ?thesis
    proof (cases "cluster_license_list s")
      case None
      have "es = []" using assms(2) Some None by (cases es) (simp_all add: license_job_get_def list_find_first_def)
      then show ?thesis using assms(2) Some None
        by (auto simp: license_job_get_def cluster_list_def demand_def intro!: used_rel_refl)
    next
      case c: (Some ls)
      then have cl: "cluster_list s = ls" by (simp add: cluster_list_def)
      obtain ls' es' rc' where g: "get_loop restore (Some ls) es SLURM_SUCCESS = Some (Some ls', es', rc')"
          "used_rel (\<lambda>n x y. y = x + demand es n) ls ls'" "map l_name es' = map l_name es" "map l_total es' = map l_total es"
        using get_loop_spec [of ls restore es SLURM_SUCCESS] assms(1) cl by blast
      have "job' = job\<lparr>license_list := Some es'\<rparr>" "s' = s\<lparr>cluster_license_list := Some ls', last_license_update := now\<rparr>"
        using assms(2) Some c g(1) by (simp_all add: license_job_get_def)
      then show ?thesis using Some c cl g(2) holds_cong [OF g(3,4)] by (simp add: cluster_list_def)
    qed
  qed
  then show "used_rel (\<lambda>n x y. y = x + demand (job_list job) n) (cluster_list s) (cluster_list s')"
    "cluster_license_list s' = None \<longleftrightarrow> cluster_license_list s = None" "holds (job_list job') n = holds (job_list job) n"
    "cluster_license_list s = None \<Longrightarrow> job_list job' = []" by blast+
qed

lemma return_spec:
  assumes "distinct (map l_name (cluster_list s))" "cluster_license_list s = None \<longrightarrow> job_list job = []"
  shows "\<exists>job' s' rc. license_job_return now job s = Some (job', s', rc)
    \<and> used_rel (\<lambda>n x y. y \<le> x \<and> (holds (job_list job) n \<le> unat x \<longrightarrow> y = x - demand (job_list job) n)) (cluster_list s) (cluster_list s')
    \<and> (cluster_license_list s' = None \<longleftrightarrow> cluster_license_list s = None)
    \<and> ((\<forall>l \<in> set (cluster_list s). l_name l \<in> l_name ` set (job_list job) \<longrightarrow> holds (job_list job) (l_name l) \<le> unat (l_used l))
        \<longrightarrow> rc = SLURM_SUCCESS)"
proof (cases "license_list job")
  case None
  then show ?thesis
    by (auto simp: license_job_return_def license_job_return_to_list_def demand_def intro!: used_rel_refl)
next
  case (Some es)
  show ?thesis
  proof (cases "cluster_license_list s")
    case None
    then have "es = []" using assms(2) Some by simp
    then show ?thesis using Some None
      by (auto simp: license_job_return_def license_job_return_to_list_def cluster_list_def demand_def intro!: used_rel_refl)
  next
    case c: (Some ls)
    then have cl: "cluster_list s = ls" by (simp add: cluster_list_def)
    obtain ls' es' rc' where "return_loop (Some ls) es SLURM_SUCCESS = Some (Some ls', es', rc')"
        "used_rel (\<lambda>n x y. y \<le> x \<and> (holds es n \<le> unat x \<longrightarrow> y = x - demand es n)) ls ls'"
        "(\<forall>l \<in> set ls. l_name l \<in> l_name ` set es \<longrightarrow> holds es (l_name l) \<le> unat (l_used l)) \<longrightarrow> rc' = SLURM_SUCCESS"
      using return_loop_spec [of ls es SLURM_SUCCESS] assms(1) cl by blast
    then show ?thesis using Some c cl by (simp add: license_job_return_def license_job_return_to_list_def cluster_list_def)
  qed
qed

lemma validate_loop_known:
  "validate_loop tbl cluster False False es cnt = (rest, v, c) \<Longrightarrow> v \<and> (cluster = None \<longrightarrow> rest = [])"
proof (induction es arbitrary: cnt rest c)
  case (Cons e es)
  show ?case
  proof (cases "Option.bind cluster (find (license_find_rec (l_name e)))")
    case None
    then show ?thesis using Cons by simp
  next
    case (Some m)
    obtain rest1 v1 c1 where "validate_loop tbl cluster False False es (map_option (set_tres tbl e) cnt) = (rest1, v1, c1)"
      by (metis prod_cases3)
    then show ?thesis using Some Cons by auto
  qed
qed simp

lemma validate_unknown:
  assumes "license_validate static tbl s str False False cnt = (ls, valid, cnt')" "cluster_license_list s = None"
  shows "case_option [] id ls = []"
proof -
  obtain es v where b: "build_license_list str = (es, v)" by fastforce
  show ?thesis
  proof (cases es)
    case None
    then show ?thesis using assms(1) b by (auto simp: license_validate_def Let_def)
  next
    case (Some xs)
    obtain rest v1 c1 where r: "validate_loop tbl None False False xs (map_option (clear_license_tres static tbl) cnt) = (rest, v1, c1)"
      by (metis prod_cases3)
    then show ?thesis using assms b Some validate_loop_known [OF r] by (auto simp: license_validate_def Let_def split: if_splits)
  qed
qed

text \<open>After the restoration the counts in use are those of the jobs that took theirs.\<close>

lemma restore_jobs_spec:
  "restore_jobs static tbl cnt now ps s = Some (ps', s') \<Longrightarrow> distinct (map l_name (cluster_list s)) \<Longrightarrow>
     used_rel (\<lambda>n x y. y = x + of_nat (in_use (map snd (filter fst ps')) n)) (cluster_list s) (cluster_list s')
     \<and> (cluster_license_list s' = None \<longleftrightarrow> cluster_license_list s = None)
     \<and> (cluster_license_list s = None \<longrightarrow> (\<forall>p \<in> set ps'. job_list (snd p) = []))"
proof (induction ps arbitrary: s ps')
  case Nil
  then show ?case by (auto simp: in_use_def intro!: used_rel_refl)
next
  case (Cons p ps)
  obtain running job where p: "p = (running, job)" by fastforce
  obtain job1 s1 ps1 where r: "restore_job static tbl cnt now running job s = Some (job1, s1)"
      "restore_jobs static tbl cnt now ps s1 = Some (ps1, s')" "ps' = (running, job1) # ps1"
    using Cons.prems(1) p by (auto simp: bind_eq_Some_conv)
  obtain ls valid cnt' where v: "license_validate static tbl s (job_licenses job) False False cnt = (ls, valid, cnt')"
    by (metis prod_cases3)
  define j where "j = (if valid then job\<lparr>license_list := ls, job_licenses := license_list_to_string ls\<rparr> else job\<lparr>license_list := None\<rparr>)"
  have jn: "cluster_license_list s = None \<longrightarrow> job_list j = []" using validate_unknown [OF v] by (auto simp: j_def)
  have 1: "used_rel (\<lambda>n x y. y = x + (if running then of_nat (holds (job_list job1) n) else 0)) (cluster_list s) (cluster_list s1)
    \<and> (cluster_license_list s1 = None \<longleftrightarrow> cluster_license_list s = None) \<and> (cluster_license_list s = None \<longrightarrow> job_list job1 = [])"
  proof (cases running)
    case True
    then obtain rc where g: "license_job_get now True j s = Some (job1, s1, rc)"
      using r(1) v by (auto simp: restore_job_def j_def Let_def)
    note gs = get_spec [OF Cons.prems(2) g]
    have h: "holds (job_list job1) n = holds (job_list j) n" for n using gs(3) by blast
    show ?thesis using gs(1,2,4) True by (simp add: h demand_of_nat)
  next
    case False
    then have "job1 = j" "s1 = s" using r(1) v by (simp_all add: restore_job_def j_def)
    then show ?thesis using False jn by (auto intro!: used_rel_refl)
  qed
  have d: "distinct (map l_name (cluster_list s1))" using used_rel_names [of _ "cluster_list s" "cluster_list s1"] 1 Cons.prems(2) by metis
  note IH = Cons.IH [OF r(2) d]
  have "used_rel (\<lambda>n x y. y = x + of_nat (in_use (map snd (filter fst ps')) n)) (cluster_list s) (cluster_list s')"
    by (rule used_rel_trans [OF conjunct1 [OF 1] conjunct1 [OF IH]]) (auto simp: r(3) in_use_def)
  then show ?case using 1 IH r(3) by auto
qed

text \<open>
  A job that is completing during a reconfiguration still gives back its licenses at
  its end, although its use is no longer counted.
\<close>

lemma completing_job_underflows:
  "case restore_jobs 0 tbl None 10 [(False, fluent_job 3)] (one_license 0) of
     Some ([(_, job)], s) \<Rightarrow> map_option (\<lambda>(_, _, rc). rc) (license_job_return 11 job s) = Some SLURM_ERROR
   | _ \<Rightarrow> False"
  by code_simp

subsection \<open>Runs of the controller\<close>

text \<open>
  The licenses whose total is below the count in use, and those for which the sum in
  the test of a job does not fit into 32 bits.
\<close>

definition overused :: "license_state \<Rightarrow> string set" where
  "overused s = {l_name l |l. l \<in> set (cluster_list s) \<and> l_total l < l_used l}"

definition wrapped :: "license_job \<Rightarrow> license_state \<Rightarrow> string set" where
  "wrapped job s = {l_name m |e m. e \<in> set (job_list job) \<and> m \<in> set (cluster_list s) \<and> l_name e = l_name m
     \<and> 4294967296 \<le> unat (l_total e) + unat (l_used m) + unat (l_last_deficit m)}"

text \<open>
  The runs of the controller with every operation on the licenses: the state, the
  jobs that hold licenses (running, suspended or completing), and two sets of names.
  A license is in \<open>lost\<close> when its count need not be what the jobs hold: it came back
  from the database after it had been removed while jobs held it, a job was
  completing during a reconfiguration, or a sum did not fit into 32 bits. A license is
  in \<open>over\<close> when its total was put below what is in use by the database, a new
  configuration or an operator, or the sum in a test did not fit. Starts (after a
  test that allows the job, whatever reservations hold back) and ends of jobs add
  nothing else to either set. The names in the configuration have no server, and the
  list of a job names no license twice, as the parser builds it.
\<close>

inductive licenses_run :: "license_state \<Rightarrow> license_job list \<Rightarrow> string set \<Rightarrow> string set \<Rightarrow> bool" where
  configured: "license_init now str s0 = Some s \<Longrightarrow> plain_names str \<Longrightarrow> licenses_run s [] {} {}"
| reconfigured: "licenses_run s (map snd ps) lost over \<Longrightarrow> license_update str s = Some s1 \<Longrightarrow> plain_names str \<Longrightarrow>
    restore_jobs static tbl cnt now ps s1 = Some (ps', s') \<Longrightarrow>
    licenses_run s' (map snd ps')
      {n. in_use (map snd (filter fst ps')) n \<noteq> in_use (map snd ps') n \<or> 4294967296 \<le> in_use (map snd ps') n} (overused s')"
| database: "licenses_run s run lost over \<Longrightarrow> db_step now op s = Some s' \<Longrightarrow>
    licenses_run s' run
      (lost \<union> {n \<in> l_name ` set (cluster_list s') - l_name ` set (cluster_list s). in_use run n \<noteq> 0}) (over \<union> overused s')"
| started: "licenses_run s run lost over \<Longrightarrow> distinct (map l_name (job_list job)) \<Longrightarrow>
    license_job_test resv job s = Some SLURM_SUCCESS \<Longrightarrow> license_job_get now False job s = Some (job', s', rc) \<Longrightarrow>
    licenses_run s' (job' # run) (lost \<union> wrapped job s) (over \<union> wrapped job s)"
| changed: "licenses_run s (xs @ job # ys) lost over \<Longrightarrow> change_job_licenses now str list job s = Some (job', s') \<Longrightarrow>
    licenses_run s' (xs @ job' # ys) (lost \<union> {n. 4294967296 \<le> in_use (xs @ job' # ys) n}) (over \<union> overused s')"
| finished: "licenses_run s (xs @ job # ys) lost over \<Longrightarrow> license_job_return now job s = Some (job', s', rc) \<Longrightarrow>
    licenses_run s' (xs @ ys) lost over"
| reported: "licenses_run s run lost over \<Longrightarrow> get_all_license_info fresh reserved now version s = Some (b, s') \<Longrightarrow>
    licenses_run s' run lost over"

definition licenses_ok :: "license_state \<Rightarrow> license_job list \<Rightarrow> string set \<Rightarrow> string set \<Rightarrow> bool" where
  "licenses_ok s run lost over \<longleftrightarrow> wf_list (cluster_list s)
     \<and> (cluster_license_list s = None \<longrightarrow> (\<forall>j \<in> set run. job_list j = []))
     \<and> (\<forall>l \<in> set (cluster_list s). (l_name l \<notin> lost \<longrightarrow> unat (l_used l) = in_use run (l_name l))
          \<and> (l_name l \<notin> over \<longrightarrow> l_used l \<le> l_total l))"

lemma licenses_ok_used_rel:
  assumes "licenses_ok s run lost over" "used_rel f (cluster_list s) (cluster_list s')"
    and "cluster_license_list s' = None \<longrightarrow> (\<forall>j \<in> set run'. job_list j = [])"
    and "\<And>l y. l \<in> set (cluster_list s) \<Longrightarrow> f (l_name l) (l_used l) y \<Longrightarrow>
      (l_name l \<notin> lost' \<longrightarrow> unat y = in_use run' (l_name l)) \<and> (l_name l \<notin> over' \<longrightarrow> y \<le> l_total l)"
  shows "licenses_ok s' run' lost' over'"
  unfolding licenses_ok_def
proof (intro conjI ballI)
  show "wf_list (cluster_list s')" using wf_used_rel [OF assms(2)] assms(1) by (simp add: licenses_ok_def)
  show "cluster_license_list s' = None \<longrightarrow> (\<forall>j \<in> set run'. job_list j = [])" by (rule assms(3))
  fix l'
  assume "l' \<in> set (cluster_list s')"
  then obtain l where "l \<in> set (cluster_list s)" "l_name l' = l_name l" "l_total l' = l_total l" "f (l_name l) (l_used l) (l_used l')"
    using used_rel_at [OF assms(2)] by metis
  then show "l_name l' \<notin> lost' \<longrightarrow> unat (l_used l') = in_use run' (l_name l')" "l_name l' \<notin> over' \<longrightarrow> l_used l' \<le> l_total l'"
    using assms(4) [of l "l_used l'"] by simp_all
qed

lemma started_ok:
  assumes "licenses_ok s run lost over" "distinct (map l_name (job_list job))"
    and "license_job_test resv job s = Some SLURM_SUCCESS" "license_job_get now False job s = Some (job', s', rc)"
  shows "licenses_ok s' (job' # run) (lost \<union> wrapped job s) (over \<union> wrapped job s)"
proof -
  have w: "wf_list (cluster_list s)" using assms(1) by (simp add: licenses_ok_def)
  then have d: "distinct (map l_name (cluster_list s))" by (simp add: wf_list_def)
  note g = get_spec [OF d assms(4)] and test = license_job_test_lists [OF assms(3)]
  have use: "in_use (job' # run) n = holds (job_list job) n + in_use run n" for n using g(3) by (simp add: in_use_def)
  show ?thesis
  proof (rule licenses_ok_used_rel [OF assms(1) g(1)])
    show "cluster_license_list s' = None \<longrightarrow> (\<forall>j \<in> set (job' # run). job_list j = [])"
      using g(2,4) assms(1) by (auto simp: licenses_ok_def)
    fix l y
    assume l: "l \<in> set (cluster_list s)" "y = l_used l + demand (job_list job) (l_name l)"
    have old: "l_name l \<notin> lost \<longrightarrow> unat (l_used l) = in_use run (l_name l)" "l_name l \<notin> over \<longrightarrow> l_used l \<le> l_total l"
      using assms(1) l(1) by (simp_all add: licenses_ok_def)
    show "(l_name l \<notin> lost \<union> wrapped job s \<longrightarrow> unat y = in_use (job' # run) (l_name l))
        \<and> (l_name l \<notin> over \<union> wrapped job s \<longrightarrow> y \<le> l_total l)"
    proof (cases "find (license_find_rec (l_name l)) (job_list job)")
      case None
      then have "holds (job_list job) (l_name l) = 0" using holds_distinct [OF assms(2)] by simp
      then show ?thesis using old l(2) use by (simp add: demand_of_nat)
    next
      case (Some e)
      note e = find_license(2) [OF Some]
      have h: "holds (job_list job) (l_name l) = unat (l_total e)" using holds_distinct [OF assms(2)] Some by simp
      then have y: "y = l_used l + l_total e" using l(2) by (simp add: demand_of_nat)
      have t: "l_total e + l_used l + l_last_deficit l \<le> l_total l"
        using test(2) [of e] e find_license_unique [OF d l(1)] by auto
      have "unat y = unat (l_used l) + unat (l_total e) \<and> y \<le> l_total l" if "l_name l \<notin> wrapped job s"
      proof -
        have b: "unat (l_total e) + unat (l_used l) + unat (l_last_deficit l) < 4294967296"
          using that e l(1) unfolding wrapped_def by (auto simp: not_le)
        have s1: "unat (l_total e + l_used l) = unat (l_total e) + unat (l_used l)" using b by (simp add: unat_word_ariths)
        then have "unat (l_total e + l_used l + l_last_deficit l) = unat (l_total e) + unat (l_used l) + unat (l_last_deficit l)"
          using b by (simp add: unat_word_ariths)
        then have "l_total e + l_used l \<le> l_total l" using t s1 by (simp add: word_le_nat_alt)
        then show ?thesis using s1 y by (simp add: add.commute)
      qed
      then show ?thesis using old h use by auto
    qed
  qed
qed

lemma used_lt: "unat (l_used l) < 4294967296"
  using unsigned_less [where w = "l_used l" and ?'a = nat] by simp

lemma finished_ok:
  assumes "licenses_ok s (xs @ job # ys) lost over"
  shows "\<exists>job' s' rc. license_job_return now job s = Some (job', s', rc) \<and> licenses_ok s' (xs @ ys) lost over
    \<and> ((\<forall>e \<in> set (job_list job). l_name e \<in> l_name ` set (cluster_list s) \<longrightarrow> l_name e \<notin> lost) \<longrightarrow> rc = SLURM_SUCCESS)"
proof -
  have w: "distinct (map l_name (cluster_list s))" "cluster_license_list s = None \<longrightarrow> job_list job = []"
    using assms by (auto simp: licenses_ok_def wf_list_def)
  obtain job' s' rc where r: "license_job_return now job s = Some (job', s', rc)"
    "used_rel (\<lambda>n x y. y \<le> x \<and> (holds (job_list job) n \<le> unat x \<longrightarrow> y = x - demand (job_list job) n)) (cluster_list s) (cluster_list s')"
    "cluster_license_list s' = None \<longleftrightarrow> cluster_license_list s = None"
    "(\<forall>l \<in> set (cluster_list s). l_name l \<in> l_name ` set (job_list job) \<longrightarrow> holds (job_list job) (l_name l) \<le> unat (l_used l))
        \<longrightarrow> rc = SLURM_SUCCESS"
    using return_spec [OF w, of now] by (elim exE conjE) (rule that)
  have old: "unat (l_used l) = in_use (xs @ ys) (l_name l) + holds (job_list job) (l_name l)"
    if "l \<in> set (cluster_list s)" "l_name l \<notin> lost" for l
    using assms that by (simp add: licenses_ok_def in_use_split)
  have "licenses_ok s' (xs @ ys) lost over"
  proof (rule licenses_ok_used_rel [OF assms r(2)])
    show "cluster_license_list s' = None \<longrightarrow> (\<forall>j \<in> set (xs @ ys). job_list j = [])" using r(3) assms by (auto simp: licenses_ok_def)
    fix l y
    assume l: "l \<in> set (cluster_list s)"
      "y \<le> l_used l \<and> (holds (job_list job) (l_name l) \<le> unat (l_used l) \<longrightarrow> y = l_used l - demand (job_list job) (l_name l))"
    have "unat y = in_use (xs @ ys) (l_name l)" if "l_name l \<notin> lost"
    proof -
      note o = old [OF l(1) that]
      then have h: "holds (job_list job) (l_name l) \<le> unat (l_used l)" by simp
      then have "unat (demand (job_list job) (l_name l)) = holds (job_list job) (l_name l)"
        using unat_demand [OF order_le_less_trans [OF h]] used_lt [of l] by simp
      moreover from this have "demand (job_list job) (l_name l) \<le> l_used l" using h by (simp add: word_le_nat_alt)
      ultimately show ?thesis using l(2) h o by (simp add: unat_sub)
    qed
    moreover have "y \<le> l_total l" if "l_name l \<notin> over" using assms l that by (auto simp: licenses_ok_def)
    ultimately show "(l_name l \<notin> lost \<longrightarrow> unat y = in_use (xs @ ys) (l_name l)) \<and> (l_name l \<notin> over \<longrightarrow> y \<le> l_total l)" by blast
  qed
  moreover have "rc = SLURM_SUCCESS"
    if unlost: "\<forall>e \<in> set (job_list job). l_name e \<in> l_name ` set (cluster_list s) \<longrightarrow> l_name e \<notin> lost"
  proof -
    have "holds (job_list job) (l_name l) \<le> unat (l_used l)"
      if l: "l \<in> set (cluster_list s)" "l_name l \<in> l_name ` set (job_list job)" for l
    proof -
      obtain e where "e \<in> set (job_list job)" "l_name e = l_name l" using l(2) by (metis imageE)
      then have "l_name l \<notin> lost" using unlost l(1) by (metis imageI)
      then show ?thesis using old [OF l(1)] by simp
    qed
    then show ?thesis using r(4) by blast
  qed
  ultimately show ?thesis using r(1) by blast
qed

text \<open>Licenses that are taken without a test.\<close>

lemma taken_ok:
  assumes "licenses_ok s (xs @ ys) lost over" "license_job_get now False job s = Some (job', s', rc)"
  shows "licenses_ok s' (xs @ job' # ys) (lost \<union> {n. 4294967296 \<le> in_use (xs @ job' # ys) n}) (over \<union> overused s')"
proof -
  have d: "distinct (map l_name (cluster_list s))" using assms(1) by (simp add: licenses_ok_def wf_list_def)
  note g = get_spec [OF d assms(2)]
  have use: "in_use (xs @ job' # ys) n = in_use (xs @ ys) n + holds (job_list job) n" for n using g(3) by (simp add: in_use_split)
  have "licenses_ok s' (xs @ job' # ys) (lost \<union> {n. 4294967296 \<le> in_use (xs @ job' # ys) n}) UNIV"
  proof (rule licenses_ok_used_rel [OF assms(1) g(1)])
    show "cluster_license_list s' = None \<longrightarrow> (\<forall>j \<in> set (xs @ job' # ys). job_list j = [])"
      using g(2,4) assms(1) by (auto simp: licenses_ok_def)
    fix l y
    assume l: "l \<in> set (cluster_list s)" "y = l_used l + demand (job_list job) (l_name l)"
    have "unat y = in_use (xs @ job' # ys) (l_name l)" if "l_name l \<notin> lost" "in_use (xs @ job' # ys) (l_name l) < 4294967296"
    proof -
      have "unat (l_used l) = in_use (xs @ ys) (l_name l)" using assms(1) l(1) that(1) by (simp add: licenses_ok_def)
      then have "l_used l = of_nat (in_use (xs @ ys) (l_name l))" 
        using of_nat_unat [of "l_used l"] by (metis ucast_id)
      then have "y = of_nat (in_use (xs @ job' # ys) (l_name l))" using l(2) by (simp add: use demand_of_nat)
      then show ?thesis using that(2) by (simp add: unat_of_nat)
    qed
    then show "(l_name l \<notin> lost \<union> {n. 4294967296 \<le> in_use (xs @ job' # ys) n} \<longrightarrow> unat y = in_use (xs @ job' # ys) (l_name l))
        \<and> (l_name l \<notin> UNIV \<longrightarrow> y \<le> l_total l)" by auto
  qed
  then show ?thesis by (auto simp: licenses_ok_def overused_def)
qed

lemma restored_ok:
  assumes "licenses_ok s run lost over" "license_update str s = Some s1" "plain_names str"
    and "restore_jobs static tbl cnt now ps s1 = Some (ps', s')"
  shows "licenses_ok s' (map snd ps')
    {n. in_use (map snd (filter fst ps')) n \<noteq> in_use (map snd ps') n \<or> 4294967296 \<le> in_use (map snd ps') n} (overused s')"
proof -
  have w: "wf_list (cluster_list s1)" "\<forall>l \<in> set (cluster_list s1). l_used l = 0"
    using license_update_spec [OF assms(2,3)] assms(1) by (simp_all add: licenses_ok_def)
  then have d: "distinct (map l_name (cluster_list s1))" by (simp add: wf_list_def)
  note r = restore_jobs_spec [OF assms(4) d]
  have "unat (l_used l) = in_use (map snd ps') (l_name l)"
    if l: "l \<in> set (cluster_list s')" "in_use (map snd (filter fst ps')) (l_name l) = in_use (map snd ps') (l_name l)"
      "in_use (map snd ps') (l_name l) < 4294967296" for l
  proof -
    obtain k where "k \<in> set (cluster_list s1)" "l_name l = l_name k"
        "l_used l = l_used k + of_nat (in_use (map snd (filter fst ps')) (l_name k))"
      using used_rel_at [OF conjunct1 [OF r] l(1)] by metis
    then have "l_used l = of_nat (in_use (map snd ps') (l_name l))" using w(2) l(2) by simp
    then show ?thesis using l(3) by (simp add: unat_of_nat)
  qed
  then show ?thesis using wf_used_rel [OF conjunct1 [OF r] w(1)] r
    by (fastforce simp: licenses_ok_def overused_def)
qed

lemma database_ok:
  assumes "licenses_ok s run lost over" "db_step now op s = Some s'"
  shows "licenses_ok s' run
    (lost \<union> {n \<in> l_name ` set (cluster_list s') - l_name ` set (cluster_list s). in_use run n \<noteq> 0}) (over \<union> overused s')"
proof -
  have w: "wf_list (cluster_list s)" using assms(1) by (simp add: licenses_ok_def)
  note i = db_step_inherits [OF assms(2) w]
  have "unat (l_used l') = in_use run (l_name l')"
    if l': "l' \<in> set (cluster_list s')" "l_name l' \<notin> lost"
      "\<not> (l_name l' \<notin> l_name ` set (cluster_list s) \<and> in_use run (l_name l') \<noteq> 0)" for l'
  proof -
    consider l where "l \<in> set (cluster_list s)" "l_name l = l_name l'" "l_used l = l_used l'"
      | "l_name l' \<notin> l_name ` set (cluster_list s)" "l_used l' = 0"
      using i(1) l'(1) unfolding inherits_def by blast
    then show ?thesis
    proof cases
      case 1
      then show ?thesis using assms(1) l'(2) unfolding licenses_ok_def by metis
    next
      case 2
      then show ?thesis using l'(3) by simp
    qed
  qed
  then show ?thesis using i by (auto simp: licenses_ok_def inherits_def overused_def)
qed

lemma reported_ok:
  assumes "licenses_ok s run lost over" "get_all_license_info fresh reserved now version s = Some (b, s')"
  shows "licenses_ok s' run lost over"
proof -
  have s': "s' = s\<lparr>cluster_license_list := map_option (map (\<lambda>l. l\<lparr>l_reserved := reserved l\<rparr>)) (cluster_license_list s)\<rparr>"
    using assms(2) by (auto simp: get_all_license_info_def Let_def bind_eq_Some_conv)
  then have "cluster_list s' = map (\<lambda>l. l\<lparr>l_reserved := reserved l\<rparr>) (cluster_list s)"
    by (cases "cluster_license_list s") (simp_all add: cluster_list_def)
  then have "used_rel (\<lambda>n x y. y = x) (cluster_list s) (cluster_list s')" by (simp add: used_rel_map)
  from licenses_ok_used_rel [OF assms(1) this, of run lost over] show ?thesis
    using assms(1) s' by (auto simp: licenses_ok_def)
qed

lemma run_ok: "licenses_run s run lost over \<Longrightarrow> licenses_ok s run lost over"
proof (induction rule: licenses_run.induct)
  case (configured now str s0 s)
  have "cluster_license_list s = fst (build_license_list str)"
    using configured(1) by (auto simp: license_init_def split: if_splits prod.splits)
  then show ?case using built_wf [OF configured(2)] by (auto simp: licenses_ok_def cluster_list_def in_use_def)
next
  case (reconfigured s ps lost over str s1 static tbl cnt now ps' s')
  show ?case by (rule restored_ok [OF reconfigured.IH reconfigured.hyps(2-4)])
next
  case (database s run lost over now op s')
  show ?case by (rule database_ok [OF database.IH database.hyps(2)])
next
  case (started s run lost over job resv now job' s' rc)
  show ?case by (rule started_ok [OF started.IH started.hyps(2-4)])
next
  case (changed s xs job ys lost over now str list job' s')
  obtain job1 s1 rc1 rc where c: "license_job_return now job s = Some (job1, s1, rc1)"
      "license_job_get now False (job1\<lparr>license_list := list, job_licenses := str\<rparr>) s1 = Some (job', s', rc)"
    using changed.hyps(2) by (auto simp: change_job_licenses_def bind_eq_Some_conv)
  then have "licenses_ok s1 (xs @ ys) lost over" using finished_ok [OF changed.IH, of now] by auto
  then show ?case by (rule taken_ok [OF _ c(2)])
next
  case (finished s xs job ys lost over now job' s' rc)
  then show ?case using finished_ok [OF finished.IH, of now] by auto
next
  case (reported s run lost over fresh reserved now version b s')
  show ?case by (rule reported_ok [OF reported.IH reported.hyps(2)])
qed

text \<open>C8: In every state that any operations on the licenses lead to, the count in use
  of a license is the sum of what the jobs hold, unless the license is \<open>lost\<close>, and
  does not exceed its total, unless it is \<open>over\<close>; a job that holds no lost license
  gives back its licenses without an underflow, and every job gives back its
  licenses without following a null pointer. The operations are a configuration
  and reconfigurations with the restoration of the jobs, what the database adds,
  changes, removes and synchronises, starts of jobs that the test allows, changes
  of a running job's licenses by an operator, ends of jobs and reports to clients.
  A license becomes lost only when the database brings it back after it was
  removed while jobs held it, when a job is completing during a reconfiguration,
  or when a sum does not fit into 32 bits; it becomes over only when the database, a
  new configuration or an operator puts the total below the use, or the sum in a
  test does not fit into 32 bits. The configured names have no server, the
  list of a job that starts names no license twice, and the list of licenses is not
  freed, as it is at the end of the process.\<close>

theorem licenses_never_oversubscribed:
  assumes "licenses_run s run lost over"
  shows "(\<forall>l \<in> set (cluster_list s). (l_name l \<notin> lost \<longrightarrow> unat (l_used l) = in_use run (l_name l))
        \<and> (l_name l \<notin> over \<longrightarrow> l_used l \<le> l_total l))
    \<and> (job \<in> set run \<longrightarrow> (\<exists>job' s' rc. license_job_return now job s = Some (job', s', rc)
        \<and> ((\<forall>e \<in> set (job_list job). l_name e \<in> l_name ` set (cluster_list s) \<longrightarrow> l_name e \<notin> lost) \<longrightarrow> rc = SLURM_SUCCESS)))"
proof -
  have ok: "licenses_ok s run lost over" by (rule run_ok [OF assms])
  have "\<exists>job' s' rc. license_job_return now job s = Some (job', s', rc)
      \<and> ((\<forall>e \<in> set (job_list job). l_name e \<in> l_name ` set (cluster_list s) \<longrightarrow> l_name e \<notin> lost) \<longrightarrow> rc = SLURM_SUCCESS)"
    if j: "job \<in> set run"
  proof -
    obtain xs ys where "run = xs @ job # ys" using split_list [OF j] by blast
    then show ?thesis using finished_ok [of s xs job ys lost over now] ok by blast
  qed
  then show ?thesis using ok by (auto simp: licenses_ok_def)
qed

text \<open>A job takes three of four licenses; a license of the database is added.\<close>

theorem licenses_never_oversubscribed_witness:
  "licenses_run (license_add_remote 10 matlab (one_license 3)) [fluent_job 3] {} {}
   \<and> (\<exists>job' s'. license_job_return 10 (fluent_job 3) (license_add_remote 10 matlab (one_license 3)) = Some (job', s', SLURM_SUCCESS))
   \<and> in_use [fluent_job 3] ''fluent'' = 3"
proof -
  have "license_init 9 (Some ''fluent:4'') \<lparr>cluster_license_list = None, last_license_update = 0\<rparr> = Some (one_license 0)"
    "plain_names (Some ''fluent:4'')" by code_simp+
  then have "licenses_run (one_license 0) [] {} {}" by (rule licenses_run.configured)
  moreover have "license_job_get 9 False (fluent_job 0) (one_license 0) = Some (fluent_job 3, one_license 3, SLURM_SUCCESS)"
    "license_job_test (\<lambda>_. 0) (fluent_job 0) (one_license 0) = Some SLURM_SUCCESS" by code_simp+
  moreover have "wrapped (fluent_job 0) (one_license 0) = {}"
    by (simp add: wrapped_def fluent_job_def one_license_def cluster_list_def new_license_def)
  ultimately have 1: "licenses_run (one_license 3) [fluent_job 3] {} {}"
    using licenses_run.started [of "one_license 0" "[]" "{}" "{}" "fluent_job 0" "\<lambda>_. 0" 9 "fluent_job 3" "one_license 3"]
    by (simp add: fluent_job_def)
  let ?s = "license_add_remote 10 matlab (one_license 3)"
  have c: "map l_name (cluster_list ?s) = [''matlab@db'', ''fluent'']"
    "list_all (\<lambda>l. l_used l \<le> l_total l) (cluster_list ?s)" by code_simp+
  have o: "overused ?s = {}" using c(2) by (auto simp: overused_def list_all_iff)
  have n: "l_name ` set (cluster_list ?s) = {''matlab@db'', ''fluent''}" using c(1) by (metis list.set set_map)
  have f: "''fluent'' \<in> l_name ` set (cluster_list (one_license 3))" by (simp add: one_license_def cluster_list_def new_license_def)
  have u: "in_use [fluent_job 3] ''matlab@db'' = 0" "in_use [fluent_job 3] ''fluent'' = 3" by code_simp+
  have l: "{n \<in> l_name ` set (cluster_list ?s) - l_name ` set (cluster_list (one_license 3)). in_use [fluent_job 3] n \<noteq> 0} = {}"
    unfolding n using f u(1) by blast
  have "db_step 10 (Add_Remote matlab) (one_license 3) = Some ?s" by (simp add: db_step_def)
  from licenses_run.database [OF 1 this] have 2: "licenses_run ?s [fluent_job 3] {} {}" unfolding l o Un_empty_left .
  from licenses_never_oversubscribed [OF 2, of "fluent_job 3" 10] show ?thesis
    using 2 u(2) by auto
qed

end
