(* ===== verification/Backfill.thy ===== *)
theory Backfill
  imports Licenses Bitmap
begin

text \<open>
  The plan of the backfill scheduler
  (\<^verbatim>\<open>src/plugins/sched/backfill/backfill.c\<close>): a table of intervals of time, each
  with the nodes and the licenses that are still free in it, in which a
  reservation is entered for every job that cannot start yet; and the license
  counts of the intervals (\<^verbatim>\<open>src/slurmctld/licenses.c\<close>).

  The table is an array whose records are linked by their index; \<open>None\<close> is an
  access outside the array or to a bitmap that is not there. Times are integers;
  the arguments of type \<^verbatim>\<open>uint32_t\<close> are words.
\<close>

subsection \<open>Licenses of an interval\<close>

record bf_license =
  bl_name :: string
  bl_remaining :: u32
  bl_resv :: nat

type_synonym bf_licenses = "bf_license list option"

definition bf_find_rec :: "string \<Rightarrow> bf_license \<Rightarrow> bool" where
  "bf_find_rec name b \<longleftrightarrow> bl_resv b = 0 \<and> bl_name b = name"

definition bf_find_resv :: "nat \<Rightarrow> string \<Rightarrow> bf_license \<Rightarrow> bool" where
  "bf_find_resv resv name b \<longleftrightarrow> bl_resv b = resv \<and> bl_name b = name"

definition bf_licenses_initial :: "bool \<Rightarrow> licenses list option \<Rightarrow> bf_licenses" where
  "bf_licenses_initial running_job_reserve cluster =
     (case cluster of
        None \<Rightarrow> None
      | Some ls \<Rightarrow>
          if ls = [] then None
          else Some (rev (map (\<lambda>l. \<lparr>bl_name = l_name l,
                 bl_remaining = (if running_job_reserve then l_total l else l_total l - l_used l), bl_resv = 0\<rparr>) ls)))"

definition bf_licenses_copy :: "bf_licenses \<Rightarrow> bf_licenses" where
  "bf_licenses_copy src =
     map_option (map (\<lambda>b. \<lparr>bl_name = bl_name b, bl_remaining = bl_remaining b, bl_resv = bl_resv b\<rparr>)) src"

definition deduct_global :: "string \<Rightarrow> u32 \<Rightarrow> bf_license list \<Rightarrow> bf_license list" where
  "deduct_global name needed bl =
     update_first (bf_find_rec name)
       (\<lambda>b. b\<lparr>bl_remaining := if bl_remaining b < needed then 0 else bl_remaining b - needed\<rparr>) bl"

definition deduct_one :: "nat \<Rightarrow> bf_license list \<Rightarrow> licenses \<Rightarrow> bf_license list" where
  "deduct_one resv bl e =
     (case (if resv \<noteq> 0 then find (bf_find_resv resv (l_name e)) bl else None) of
        None \<Rightarrow> deduct_global (l_name e) (l_total e) bl
      | Some r \<Rightarrow>
          if l_total e \<le> bl_remaining r
          then update_first (bf_find_resv resv (l_name e)) (\<lambda>b. b\<lparr>bl_remaining := bl_remaining b - l_total e\<rparr>) bl
          else deduct_global (l_name e) (l_total e - bl_remaining r)
                 (update_first (bf_find_resv resv (l_name e)) (\<lambda>b. b\<lparr>bl_remaining := 0\<rparr>) bl))"

definition bf_licenses_deduct :: "bf_licenses \<Rightarrow> license_job \<Rightarrow> bf_licenses" where
  "bf_licenses_deduct bl job =
     map_option (\<lambda>bl. case license_list job of None \<Rightarrow> bl | Some es \<Rightarrow> foldl (deduct_one (job_resv job)) bl es) bl"

definition transfer_one :: "nat \<Rightarrow> bf_license list \<Rightarrow> licenses \<Rightarrow> bf_license list" where
  "transfer_one resv bl e =
     \<lparr>bl_name = l_name e,
      bl_remaining = (case find (bf_find_rec (l_name e)) bl of
                        None \<Rightarrow> l_total e
                      | Some b \<Rightarrow> if bl_remaining b < l_total e then bl_remaining b else l_total e),
      bl_resv = resv\<rparr> # deduct_global (l_name e) (l_total e) bl"

definition bf_licenses_transfer :: "bf_licenses \<Rightarrow> license_job \<Rightarrow> bf_licenses" where
  "bf_licenses_transfer bl job =
     map_option (\<lambda>bl. case license_list job of None \<Rightarrow> bl | Some es \<Rightarrow> foldl (transfer_one (job_resv job)) bl es) bl"

definition avail_one :: "nat \<Rightarrow> bf_license list \<Rightarrow> licenses \<Rightarrow> bool" where
  "avail_one resv bl e =
     (let r = (if resv \<noteq> 0 then find (bf_find_resv resv (l_name e)) bl else None);
          needed = (case r of None \<Rightarrow> l_total e | Some r \<Rightarrow> l_total e - bl_remaining r)
      in (case r of None \<Rightarrow> False | Some r \<Rightarrow> l_total e \<le> bl_remaining r) \<or>
         (case find (bf_find_rec (l_name e)) bl of None \<Rightarrow> False | Some b \<Rightarrow> needed \<le> bl_remaining b))"

definition bf_licenses_avail :: "bf_licenses \<Rightarrow> license_job \<Rightarrow> bool" where
  "bf_licenses_avail bl job =
     (case (bl, license_list job) of
        (Some bl, Some es) \<Rightarrow> list_all (avail_one (job_resv job) bl) es
      | _ \<Rightarrow> True)"

text \<open>A null second list is followed only when the first has an element.\<close>

definition bf_licenses_equal :: "bf_licenses \<Rightarrow> bf_licenses \<Rightarrow> bool option" where
  "bf_licenses_equal a b =
     (case a of
        None \<Rightarrow> Some True
      | Some xs \<Rightarrow>
          if xs = [] then Some True
          else map_option (\<lambda>ys. list_all (\<lambda>x. case find (bf_find_rec (bl_name x)) ys of
                   None \<Rightarrow> False | Some y \<Rightarrow> bl_remaining x = bl_remaining y \<and> bl_resv x = bl_resv y) xs) b)"

subsection \<open>The table\<close>

record node_space_map =
  begin_time :: int
  end_time :: int
  avail_bitmap :: "bitstr option"
  ns_licenses :: bf_licenses
  ns_next :: nat

definition fetch :: "node_space_map list \<Rightarrow> nat \<Rightarrow> node_space_map option" where
  "fetch tbl j = (if j < length tbl then Some (tbl ! j) else None)"

definition put_rec :: "node_space_map list \<Rightarrow> nat \<Rightarrow> node_space_map \<Rightarrow> node_space_map list option" where
  "put_rec tbl j n = (if j < length tbl then Some (tbl[j := n]) else None)"

definition empty_rec :: node_space_map where
  "empty_rec = \<lparr>begin_time = 0, end_time = 0, avail_bitmap = None, ns_licenses = None, ns_next = 0\<rparr>"

text \<open>The table at the start of a cycle: one interval, up to the end of the window.\<close>

definition initial_table :: "nat \<Rightarrow> int \<Rightarrow> int \<Rightarrow> int \<Rightarrow> bitstr \<Rightarrow> bitstr \<Rightarrow> bf_licenses \<Rightarrow> node_space_map list" where
  "initial_table space sched_start window resolution avail_nodes rs_nodes lics =
     \<lparr>begin_time = sched_start sdiv resolution * resolution,
      end_time = (sched_start + window) sdiv resolution * resolution,
      avail_bitmap = Some (bit_or (bit_copy avail_nodes) rs_nodes), ns_licenses = lics, ns_next = 0\<rparr>
     # replicate space empty_rec"

text \<open>
  A record is cut in two at a time: the new record takes the second part. The new
  record is written before the old one.
\<close>

definition cut_at :: "int \<Rightarrow> node_space_map list \<Rightarrow> nat \<Rightarrow> nat \<Rightarrow> node_space_map list option" where
  "cut_at t tbl recs j = do {
     n \<leftarrow> fetch tbl j;
     bm \<leftarrow> avail_bitmap n;
     tbl \<leftarrow> put_rec tbl recs \<lparr>begin_time = t, end_time = end_time n, avail_bitmap = Some (bit_copy bm),
              ns_licenses = bf_licenses_copy (ns_licenses n), ns_next = ns_next n\<rparr>;
     put_rec tbl j (n\<lparr>end_time := t, ns_next := recs\<rparr>) }"

text \<open>
  The record that ends at the start of the reservation, if there is one, after
  cutting; and the last record in front of it.
\<close>

partial_function (option) place_loop :: "int \<Rightarrow> node_space_map list \<Rightarrow> nat \<Rightarrow> nat \<Rightarrow> nat
    \<Rightarrow> (node_space_map list \<times> nat \<times> nat option \<times> nat) option" where
  [code]: "place_loop start tbl recs j one_before =
     Option.bind (fetch tbl j) (\<lambda>n.
       if start < end_time n then Option.bind (cut_at start tbl recs j) (\<lambda>tbl. Some (tbl, recs + 1, Some j, one_before))
       else if end_time n = start then Some (tbl, recs, Some j, one_before)
       else if ns_next n = 0 then Some (tbl, recs, None, j)
       else place_loop start tbl recs (ns_next n) j)"

definition merge_usage :: "bitstr option \<Rightarrow> license_job \<Rightarrow> node_space_map \<Rightarrow> node_space_map option" where
  "merge_usage res job n =
     (case res of
        Some r \<Rightarrow> map_option (\<lambda>bm. n\<lparr>avail_bitmap := Some (bit_and bm r), ns_licenses := bf_licenses_deduct (ns_licenses n) job\<rparr>)
                    (avail_bitmap n)
      | None \<Rightarrow> Some (n\<lparr>ns_licenses := bf_licenses_transfer (ns_licenses n) job\<rparr>))"

text \<open>The records from the start to the end of the reservation; the result ends with \<^verbatim>\<open>one_after\<close>.\<close>

partial_function (option) usage_loop :: "int \<Rightarrow> bitstr option \<Rightarrow> license_job \<Rightarrow> node_space_map list \<Rightarrow> nat \<Rightarrow> nat
    \<Rightarrow> (node_space_map list \<times> nat \<times> int) option" where
  [code]: "usage_loop end_reserve res job tbl recs j0 =
     Option.bind (fetch tbl j0) (\<lambda>n0.
       let j = ns_next n0
       in if j = 0 then Some (tbl, recs, - 1)
          else Option.bind (fetch tbl j) (\<lambda>n.
            Option.bind (if end_reserve < end_time n then map_option (\<lambda>tbl. (tbl, recs + 1)) (cut_at end_reserve tbl recs j)
                         else Some (tbl, recs)) (\<lambda>(tbl, recs).
            Option.bind (fetch tbl j) (\<lambda>n.
            Option.bind (merge_usage res job n) (\<lambda>n.
            Option.bind (put_rec tbl j n) (\<lambda>tbl.
              if end_reserve = end_time n then Some (tbl, recs, if ns_next n \<noteq> 0 then int (ns_next n) else - 1)
              else usage_loop end_reserve res job tbl recs j))))))"

text \<open>At most one record that equals its successor takes in the successor.\<close>

partial_function (option) drop_loop :: "int \<Rightarrow> node_space_map list \<Rightarrow> nat \<Rightarrow> node_space_map list option" where
  [code]: "drop_loop one_after tbl i =
     (if int i = one_after then Some tbl
      else Option.bind (fetch tbl i) (\<lambda>n.
        let j = ns_next n
        in if j = 0 then Some tbl
           else Option.bind (fetch tbl j) (\<lambda>m.
             Option.bind (bf_licenses_equal (ns_licenses n) (ns_licenses m)) (\<lambda>eq.
             if \<not> eq then drop_loop one_after tbl j
             else Option.bind (avail_bitmap n) (\<lambda>b1. Option.bind (avail_bitmap m) (\<lambda>b2.
               if \<not> bit_equal b1 b2 then drop_loop one_after tbl j
               else Option.bind (put_rec tbl i (n\<lparr>end_time := end_time m, ns_next := ns_next m\<rparr>)) (\<lambda>tbl.
                 put_rec tbl j (m\<lparr>avail_bitmap := None, ns_licenses := None\<rparr>))))))))"

definition add_reservation :: "u32 \<Rightarrow> u32 \<Rightarrow> u32 \<Rightarrow> bitstr option \<Rightarrow> license_job \<Rightarrow> node_space_map list \<Rightarrow> nat
    \<Rightarrow> (node_space_map list \<times> nat) option" where
  "add_reservation resolution start_time end_reserve res job tbl recs = do {
     first \<leftarrow> fetch tbl 0;
     let start_time = (of_int (max (uint start_time) (begin_time first)) :: u32);
     let end_reserve = (if end_reserve < start_time + resolution then start_time + resolution else end_reserve);
     (tbl, recs, placed, one_before) \<leftarrow> place_loop (uint start_time) tbl recs 0 0;
     (tbl, recs, one_after) \<leftarrow>
       (case placed of None \<Rightarrow> Some (tbl, recs, - 1) | Some j \<Rightarrow> usage_loop (uint end_reserve) res job tbl recs j);
     tbl \<leftarrow> drop_loop one_after tbl one_before;
     Some (tbl, recs) }"

text \<open>Whether a job's nodes or licenses are taken in some interval that it would run in.\<close>

partial_function (option) overlap_loop :: "int \<Rightarrow> int \<Rightarrow> bitstr \<Rightarrow> license_job \<Rightarrow> node_space_map list \<Rightarrow> nat \<Rightarrow> bool option" where
  [code]: "overlap_loop start_time end_reserve use_bitmap job tbl j =
     Option.bind (fetch tbl j) (\<lambda>n.
       Option.bind (if start_time < end_time n \<and> begin_time n < end_reserve
                    then map_option (\<lambda>bm. \<not> bit_super_set use_bitmap bm \<or> \<not> bf_licenses_avail (ns_licenses n) job) (avail_bitmap n)
                    else Some False) (\<lambda>overlap.
         if overlap then Some True
         else if ns_next n = 0 then Some False
         else overlap_loop start_time end_reserve use_bitmap job tbl (ns_next n)))"

definition test_resv_overlap :: "node_space_map list \<Rightarrow> bitstr \<Rightarrow> license_job \<Rightarrow> u32 \<Rightarrow> u32 \<Rightarrow> bool option" where
  "test_resv_overlap tbl use_bitmap job start_time end_reserve =
     overlap_loop (uint start_time) (uint end_reserve) use_bitmap job tbl 0"

subsection \<open>Reading the plan\<close>

text \<open>
  The nodes that stay free for a job from \<open>start_res\<close> to \<open>end_time\<close>, the time to try
  again (\<open>0\<close> is none), and whether licenses are missing.
\<close>

partial_function (option) narrow_loop :: "int \<Rightarrow> u32 \<Rightarrow> license_job \<Rightarrow> bitstr \<Rightarrow> node_space_map list
    \<Rightarrow> bitstr \<Rightarrow> int \<Rightarrow> bool \<Rightarrow> nat \<Rightarrow> (bitstr \<times> int \<times> bool) option" where
  [code]: "narrow_loop start_res end_tm job tmp tbl avail later_start unavail j =
     Option.bind (fetch tbl j) (\<lambda>n.
       Option.bind (if start_res < end_time n \<and> ns_next n \<noteq> 0 \<and> later_start = 0
                    then Option.bind (fetch tbl (ns_next n)) (\<lambda>m. Option.bind (avail_bitmap m) (\<lambda>b2.
                           Option.bind (avail_bitmap n) (\<lambda>b1.
                             Some (if \<not> bit_super_set (bit_and (bit_copy tmp) b2) (bit_and (bit_copy avail) b1)
                                   then end_time n else later_start))))
                    else Some later_start) (\<lambda>later_start.
       if \<not> (end_time n \<le> start_res) \<and> \<not> (begin_time n \<le> uint end_tm) then Some (avail, later_start, unavail)
       else Option.bind (if end_time n \<le> start_res then Some (avail, later_start, unavail)
                         else map_option (\<lambda>bm.
                           (let ok = bf_licenses_avail (ns_licenses n) job
                            in (bit_and avail bm, if ok then later_start else end_time n, unavail \<or> \<not> ok))) (avail_bitmap n))
              (\<lambda>(avail, later_start, unavail).
                if ns_next n = 0 then Some (avail, later_start, unavail)
                else narrow_loop start_res end_tm job tmp tbl avail later_start unavail (ns_next n))))"

record bf_job =
  bj_license :: license_job
  bj_time_min :: u32
  bj_time_limit :: u32
  bj_start_time :: int
  bj_end_time :: int
  bj_node_bitmap :: bitstr
  bj_running :: bool
  bj_has_resrcs :: bool
  bj_whole_node :: bool
  bj_preemptable :: bool

text \<open>The begin of the first interval in which something that the job uses is planned for another (\<open>0\<close> is none).\<close>

partial_function (option) max_tl_loop :: "bf_job \<Rightarrow> int \<Rightarrow> node_space_map list \<Rightarrow> int \<Rightarrow> nat \<Rightarrow> int option" where
  [code]: "max_tl_loop job now tbl comp_time j =
     Option.bind (fetch tbl j) (\<lambda>n.
       Option.bind (if begin_time n \<noteq> now \<and> begin_time n < bj_end_time job
                    then map_option (\<lambda>bm.
                      if (\<not> bit_super_set (bj_node_bitmap job) bm \<or> \<not> bf_licenses_avail (ns_licenses n) (bj_license job))
                         \<and> (comp_time = 0 \<or> begin_time n < comp_time)
                      then begin_time n else comp_time) (avail_bitmap n)
                    else Some comp_time) (\<lambda>comp_time.
         if ns_next n = 0 then Some comp_time else max_tl_loop job now tbl comp_time (ns_next n)))"

definition get_job_max_tl :: "bf_job \<Rightarrow> int \<Rightarrow> node_space_map list \<Rightarrow> u32 option" where
  "get_job_max_tl job now tbl =
     (if bj_time_min job = 0 then Some NO_VAL
      else map_option (\<lambda>comp_time. if comp_time \<noteq> 0 then of_int ((comp_time - now + 59) sdiv 60) else NO_VAL)
             (max_tl_loop job now tbl 0 0))"

partial_function (option) limit_loop :: "bf_job \<Rightarrow> int \<Rightarrow> node_space_map list \<Rightarrow> u32 \<Rightarrow> nat \<Rightarrow> u32 option" where
  [code]: "limit_loop job now tbl time_limit j =
     Option.bind (fetch tbl j) (\<lambda>n.
       Option.bind (if begin_time n \<noteq> now \<and> begin_time n < bj_end_time job
                    then map_option (\<lambda>bm.
                      let resv_delay = of_int ((begin_time n - now) sdiv 60) :: u32
                      in if \<not> bit_super_set (bj_node_bitmap job) bm \<and> resv_delay < time_limit then resv_delay else time_limit)
                      (avail_bitmap n)
                    else Some time_limit) (\<lambda>time_limit.
         if ns_next n = 0 then Some time_limit else limit_loop job now tbl time_limit (ns_next n)))"

text \<open>The accounting policy and the reservations, which are told of the new limit, are not part of the model.\<close>

definition reset_job_time_limit :: "bf_job \<Rightarrow> int \<Rightarrow> node_space_map list \<Rightarrow> bf_job option" where
  "reset_job_time_limit job now tbl =
     map_option (\<lambda>time_limit.
         let new = max (bj_time_min job) time_limit
         in job\<lparr>bj_time_limit := new, bj_end_time := bj_start_time job + uint (new * 60)\<rparr>)
       (limit_loop job now tbl (bj_time_limit job) 0)"

subsection \<open>Filling the plan\<close>

definition INFINITE :: u32 where "INFINITE = 0xffffffff"

text \<open>The licenses of an advance reservation: its flag, its times and its license list.\<close>

definition bf_reserve_resv_licenses :: "int \<Rightarrow> bool \<Rightarrow> int \<Rightarrow> int \<Rightarrow> license_job \<Rightarrow> node_space_map list \<Rightarrow> nat
    \<Rightarrow> (node_space_map list \<times> nat) option" where
  "bf_reserve_resv_licenses resolution flex resv_start resv_end job tbl recs =
     (if license_list job = None then Some (tbl, recs)
      else do {
        first \<leftarrow> fetch tbl 0;
        if resv_end < begin_time first then Some (tbl, recs)
        else let (s, e) = (if flex then (0, uint INFINITE)
                           else (resv_start sdiv resolution * resolution, resv_end sdiv resolution * resolution))
             in add_reservation (of_int resolution) (of_int s) (of_int e) None job tbl recs })"

text \<open>The reservation of a running job, and the return code.\<close>

definition bf_reserve_running :: "nat \<Rightarrow> int \<Rightarrow> nat \<Rightarrow> bf_job \<Rightarrow> node_space_map list \<Rightarrow> nat
    \<Rightarrow> (node_space_map list \<times> nat \<times> int) option" where
  "bf_reserve_running space resolution node_count job tbl recs =
     (let licenses = license_list (bj_license job) \<noteq> None; whole = bj_whole_node job; preemptable = bj_preemptable job
      in if \<not> bj_running job \<or> \<not> bj_has_resrcs job then Some (tbl, recs, SLURM_SUCCESS)
         else if \<not> whole \<and> \<not> licenses then Some (tbl, recs, SLURM_SUCCESS)
         else if preemptable \<and> \<not> licenses then Some (tbl, recs, SLURM_SUCCESS)
         else if space \<le> recs then Some (tbl, recs, SLURM_ERROR)
         else let res = bit_not (if preemptable \<or> \<not> whole then bit_alloc node_count else bit_copy (bj_node_bitmap job))
              in map_option (\<lambda>(tbl, recs). (tbl, recs, SLURM_SUCCESS))
                   (add_reservation (of_int resolution) 0 (of_int (bj_end_time job sdiv resolution * resolution))
                     (Some res) (bj_license job) tbl recs))"

text \<open>
  What a job that cannot start yet does to the plan, once the selection of nodes
  has given its start and its nodes: nothing if it overlaps, and no more than the
  table has room for. \<open>future\<close> says that the start is later than now and not held back
  by a burst buffer, \<open>wanted\<close> that the other tests before the table is changed
  (window, deadlock of heterogeneous jobs, accounting policy, flags of the QOS and of
  the job, earlier reservations) allow a reservation. The result says whether one was
  made; where it was not, the source goes on to the next job or tries again later, and
  ends the cycle if the table is full. The bookkeeping of the job's record is left out.
\<close>

definition plan_job :: "nat \<Rightarrow> u32 \<Rightarrow> bool \<Rightarrow> bool \<Rightarrow> bitstr \<Rightarrow> license_job \<Rightarrow> u32 \<Rightarrow> u32 \<Rightarrow> u32 \<Rightarrow> node_space_map list \<Rightarrow> nat
    \<Rightarrow> (node_space_map list \<times> nat \<times> bool) option" where
  "plan_job space resolution future wanted avail job job_start boot_time time_limit tbl recs =
     (let start_time = job_start div resolution * resolution;
          end_reserve = (job_start + boot_time + time_limit * 60) div resolution * resolution
      in do {
        overlap \<leftarrow> (if future then test_resv_overlap tbl avail job start_time end_reserve else Some False);
        if overlap \<or> \<not> wanted \<or> space \<le> recs then Some (tbl, recs, False)
        else map_option (\<lambda>(tbl, recs). (tbl, recs, True))
               (add_reservation resolution start_time end_reserve (Some (bit_not avail)) job tbl recs) })"

end
