(* ===== verification/Backfill_Props.thy ===== *)
theory Backfill_Props
  imports Backfill
begin

text \<open>
  Properties of the backfill plan. The linked table is related to the list of its
  intervals, each loop to a function on that list, and that to what is free at a
  point in time.
\<close>

subsection \<open>Linked records\<close>

fun lseg :: "node_space_map list \<Rightarrow> nat \<Rightarrow> nat list \<Rightarrow> nat \<Rightarrow> bool" where
  "lseg tbl p [] q \<longleftrightarrow> p = q"
| "lseg tbl p (j # js) q \<longleftrightarrow> p = j \<and> j < length tbl \<and> lseg tbl (ns_next (tbl ! j)) js q"

lemma lseg_append: "lseg tbl p (xs @ ys) q \<longleftrightarrow> (\<exists>m. lseg tbl p xs m \<and> lseg tbl m ys q)"
  by (induction xs arbitrary: p) auto

lemma lseg_frame [simp]: "k \<notin> set js \<Longrightarrow> lseg (tbl[k := n]) p js q \<longleftrightarrow> lseg tbl p js q"
  by (induction js arbitrary: p) auto

definition row :: "node_space_map list \<Rightarrow> nat \<Rightarrow> node_space_map" where
  "row tbl j = (tbl ! j)\<lparr>ns_next := 0\<rparr>"

abbreviation rows :: "node_space_map list \<Rightarrow> nat list \<Rightarrow> node_space_map list" where
  "rows tbl js \<equiv> map (row tbl) js"

lemma row_upd [simp]: "k \<noteq> j \<Longrightarrow> row (tbl[k := n]) j = row tbl j" "j < length tbl \<Longrightarrow> row (tbl[j := n]) j = n\<lparr>ns_next := 0\<rparr>"
  by (simp_all add: row_def)

lemma rows_frame [simp]: "k \<notin> set js \<Longrightarrow> rows (tbl[k := n]) js = rows tbl js"
proof (rule map_cong)
  fix x
  assume "k \<notin> set js" "x \<in> set js"
  then have "k \<noteq> x" by blast
  then show "row (tbl[k := n]) x = row tbl x" by (rule row_upd)
qed simp

definition has_nodes :: "nat \<Rightarrow> node_space_map \<Rightarrow> bool" where
  "has_nodes n r \<longleftrightarrow> (\<exists>bm. avail_bitmap r = Some bm \<and> wf_bitstr bm \<and> bs_bits bm = n)"

text \<open>
  The indices \<open>js\<close> are those of the table in use, from record \<open>0\<close> on. All bitmaps have
  the same size, and either all records or none have licenses.
\<close>

definition linked :: "nat \<Rightarrow> bool \<Rightarrow> node_space_map list \<Rightarrow> nat \<Rightarrow> nat list \<Rightarrow> bool" where
  "linked n lic tbl recs js \<longleftrightarrow> lseg tbl 0 js 0 \<and> js \<noteq> [] \<and> distinct js \<and> (\<forall>j \<in> set js. j < recs) \<and> recs \<le> length tbl
     \<and> (\<forall>j \<in> set js. has_nodes n (tbl ! j) \<and> (ns_licenses (tbl ! j) \<noteq> None \<longleftrightarrow> lic))"

lemma bf_licenses_copy_id [simp]: "bf_licenses_copy bl = bl"
  by (cases bl) (auto simp: bf_licenses_copy_def intro!: map_idI)

lemma linked_hd: "linked n lic tbl recs js \<Longrightarrow> \<exists>ks. js = 0 # ks \<and> 0 \<notin> set ks"
  by (cases js) (auto simp: linked_def)

lemma linked_at:
  assumes "linked n lic tbl recs (pre @ j # post)"
  shows "fetch tbl j = Some (tbl ! j)" "j < length tbl" "j < recs" "has_nodes n (tbl ! j)" "ns_licenses (tbl ! j) \<noteq> None \<longleftrightarrow> lic"
    "ns_next (tbl ! j) = (case post of [] \<Rightarrow> 0 | k # _ \<Rightarrow> k)" "post \<noteq> [] \<Longrightarrow> ns_next (tbl ! j) \<noteq> 0"
proof -
  have "lseg tbl (ns_next (tbl ! j)) post 0" "j < recs" "recs \<le> length tbl"
    using assms by (auto simp: linked_def lseg_append)
  then show "fetch tbl j = Some (tbl ! j)" "j < length tbl" "j < recs"
    and n: "ns_next (tbl ! j) = (case post of [] \<Rightarrow> 0 | k # _ \<Rightarrow> k)" by (auto simp: fetch_def split: list.split)
  show "has_nodes n (tbl ! j)" "ns_licenses (tbl ! j) \<noteq> None \<longleftrightarrow> lic" using assms by (auto simp: linked_def)
  obtain ks where "pre @ j # post = 0 # ks" "0 \<notin> set ks" using linked_hd [OF assms] by blast
  then have "0 \<notin> set post" by (cases pre) auto
  then show "post \<noteq> [] \<Longrightarrow> ns_next (tbl ! j) \<noteq> 0" using n by (cases post) auto
qed

subsection \<open>Cutting a record\<close>

lemma cut_at_spec:
  assumes "linked n lic tbl recs (pre @ j # post)" "recs < length tbl"
  shows "\<exists>tbl'. cut_at t tbl recs j = Some tbl' \<and> linked n lic tbl' (recs + 1) (pre @ j # recs # post)
    \<and> length tbl' = length tbl
    \<and> rows tbl' pre = rows tbl pre \<and> row tbl' j = (row tbl j)\<lparr>end_time := t\<rparr>
    \<and> row tbl' recs = (row tbl j)\<lparr>begin_time := t\<rparr> \<and> rows tbl' post = rows tbl post"
proof -
  note j = linked_at [OF assms(1)]
  obtain bm where bm: "avail_bitmap (tbl ! j) = Some bm" "wf_bitstr bm" "bs_bits bm = n" using j(4) by (auto simp: has_nodes_def)
  let ?n = "tbl ! j"
  let ?new = "\<lparr>begin_time = t, end_time = end_time ?n, avail_bitmap = Some (bit_copy bm),
      ns_licenses = bf_licenses_copy (ns_licenses ?n), ns_next = ns_next ?n\<rparr>"
  have new: "?new = ?n\<lparr>begin_time := t\<rparr>" using bm by (simp add: bit_copy_eq)
  let ?tbl = "tbl[recs := ?n\<lparr>begin_time := t\<rparr>, j := ?n\<lparr>end_time := t, ns_next := recs\<rparr>]"
  have out: "recs \<notin> set (pre @ j # post)" and d: "distinct (pre @ j # post)" using assms(1) by (auto simp: linked_def)
  have l: "lseg tbl 0 pre j" "lseg tbl (ns_next ?n) post 0" using assms(1) by (auto simp: linked_def lseg_append)
  have "cut_at t tbl recs j = Some ?tbl" using j(1,2) bm(1) assms(2) new by (simp add: cut_at_def put_rec_def)
  moreover have "linked n lic ?tbl (recs + 1) (pre @ j # recs # post)"
    unfolding linked_def
  proof (intro conjI)
    show "lseg ?tbl 0 (pre @ j # recs # post) 0"
      using l out d j(2) assms(2) by (auto simp: lseg_append nth_list_update)
    show "\<forall>k \<in> set (pre @ j # recs # post). has_nodes n (?tbl ! k) \<and> (ns_licenses (?tbl ! k) \<noteq> None \<longleftrightarrow> lic)"
      using assms j(2,4,5) out by (auto simp: linked_def nth_list_update has_nodes_def)
  qed (use assms j(2,3) out d in \<open>auto simp: linked_def less_Suc_eq\<close>)
  moreover have "rows ?tbl pre = rows tbl pre" "rows ?tbl post = rows tbl post" using out d by (auto simp del: map_eq_conv)
  moreover have "row ?tbl j = (row tbl j)\<lparr>end_time := t\<rparr>" "row ?tbl recs = (row tbl j)\<lparr>begin_time := t\<rparr>"
    using out j(2) assms(2) by (simp_all add: row_def)
  ultimately show ?thesis by auto
qed

subsection \<open>The start of a reservation\<close>

fun split_rows :: "int \<Rightarrow> node_space_map list \<Rightarrow> node_space_map list \<times> node_space_map list" where
  "split_rows s [] = ([], [])"
| "split_rows s (r # rs) =
     (if s < end_time r then ([r\<lparr>end_time := s\<rparr>], r\<lparr>begin_time := s\<rparr> # rs)
      else if end_time r = s then ([r], rs)
      else (r # fst (split_rows s rs), snd (split_rows s rs)))"

lemma row_fields [simp]:
  "begin_time (row tbl j) = begin_time (tbl ! j)" "end_time (row tbl j) = end_time (tbl ! j)"
  "avail_bitmap (row tbl j) = avail_bitmap (tbl ! j)" "ns_licenses (row tbl j) = ns_licenses (tbl ! j)"
  by (simp_all add: row_def)

lemma place_loop_spec:
  assumes "linked n lic tbl recs (pre @ js)" "js = j # ks" "recs < length tbl" "before \<in> set (pre @ js)"
  shows "\<exists>tbl' recs' placed before' fr bk. place_loop s tbl recs j before = Some (tbl', recs', placed, before')
    \<and> linked n lic tbl' recs' (pre @ fr @ bk) \<and> length tbl' = length tbl \<and> recs' \<le> recs + 1
    \<and> before' \<in> set (pre @ fr @ bk)
    \<and> rows tbl' pre = rows tbl pre \<and> rows tbl' fr = fst (split_rows s (rows tbl js)) \<and> rows tbl' bk = snd (split_rows s (rows tbl js))
    \<and> (case placed of None \<Rightarrow> bk = [] | Some k \<Rightarrow> \<exists>fr'. fr = fr' @ [k])"
  using assms
proof (induction js arbitrary: pre j ks before)
  case (Cons i js')
  have i [simp]: "i = j" "js' = ks" using Cons.prems(2) by auto
  have ln: "linked n lic tbl recs (pre @ j # ks)" using Cons.prems(1) by simp
  note j = linked_at [OF ln]
  show ?case
  proof (cases "s < end_time (tbl ! j)")
    case True
    from cut_at_spec [OF ln Cons.prems(3), of s] obtain tbl' where
      c: "cut_at s tbl recs j = Some tbl'" "linked n lic tbl' (recs + 1) (pre @ j # recs # ks)" "length tbl' = length tbl"
        "rows tbl' pre = rows tbl pre" "row tbl' j = (row tbl j)\<lparr>end_time := s\<rparr>"
        "row tbl' recs = (row tbl j)\<lparr>begin_time := s\<rparr>" "rows tbl' ks = rows tbl ks" by blast
    have "place_loop s tbl recs j before = Some (tbl', recs + 1, Some j, before)"
      by (subst place_loop.simps) (simp add: j(1) True c(1))
    then show ?thesis using c Cons.prems(4) True
      by (intro exI [of _ tbl'] exI [of _ "recs + 1"] exI [of _ "Some j"] exI [of _ before] exI [of _ "[j]"] exI [of _ "recs # ks"]) auto
  next
    case le: False
    show ?thesis
    proof (cases "end_time (tbl ! j) = s")
      case True
      have "place_loop s tbl recs j before = Some (tbl, recs, Some j, before)"
        by (subst place_loop.simps) (simp add: j(1) True)
      then show ?thesis using ln Cons.prems(4) True
        by (intro exI [of _ tbl] exI [of _ recs] exI [of _ "Some j"] exI [of _ before] exI [of _ "[j]"] exI [of _ ks]) auto
    next
      case ne: False
      show ?thesis
      proof (cases ks)
        case Nil
        have "place_loop s tbl recs j before = Some (tbl, recs, None, j)"
          by (subst place_loop.simps) (use j(1,6) le ne Nil in simp)
        then show ?thesis using ln le ne Nil
          by (intro exI [of _ tbl] exI [of _ recs] exI [of _ None] exI [of _ j] exI [of _ "[j]"] exI [of _ "[]"]) auto
      next
        case (Cons k ks')
        have st: "place_loop s tbl recs j before = place_loop s tbl recs k j"
          by (subst place_loop.simps) (use j le ne Cons in simp)
        have IH: "\<exists>tbl' recs' placed before' fr bk. place_loop s tbl recs k j = Some (tbl', recs', placed, before')
          \<and> linked n lic tbl' recs' ((pre @ [j]) @ fr @ bk) \<and> length tbl' = length tbl \<and> recs' \<le> recs + 1
          \<and> before' \<in> set ((pre @ [j]) @ fr @ bk)
          \<and> rows tbl' (pre @ [j]) = rows tbl (pre @ [j]) \<and> rows tbl' fr = fst (split_rows s (rows tbl js'))
          \<and> rows tbl' bk = snd (split_rows s (rows tbl js'))
          \<and> (case placed of None \<Rightarrow> bk = [] | Some k \<Rightarrow> \<exists>fr'. fr = fr' @ [k])"
          by (rule Cons.IH [of "pre @ [j]" k ks' j]) (use ln Cons Cons.prems in auto)
        then obtain tbl' recs' placed before' fr bk where r: "place_loop s tbl recs k j = Some (tbl', recs', placed, before')"
          "linked n lic tbl' recs' ((pre @ [j]) @ fr @ bk)" "length tbl' = length tbl" "recs' \<le> recs + 1"
          "before' \<in> set ((pre @ [j]) @ fr @ bk)"
          "rows tbl' (pre @ [j]) = rows tbl (pre @ [j])" "rows tbl' fr = fst (split_rows s (rows tbl js'))"
          "rows tbl' bk = snd (split_rows s (rows tbl js'))"
          "case placed of None \<Rightarrow> bk = [] | Some k \<Rightarrow> \<exists>fr'. fr = fr' @ [k]" by blast
        show ?thesis
          by (rule exI [of _ tbl'], rule exI [of _ recs'], rule exI [of _ placed], rule exI [of _ before'],
              rule exI [of _ "j # fr"], rule exI [of _ bk])
            (use r le ne st in \<open>auto split: option.splits\<close>)
      qed
    qed
  qed
qed simp

subsection \<open>The usage of a reservation\<close>

definition usage :: "bitstr option \<Rightarrow> license_job \<Rightarrow> node_space_map \<Rightarrow> node_space_map" where
  "usage res job r =
     (case res of
        Some b \<Rightarrow> r\<lparr>avail_bitmap := map_option (\<lambda>bm. bit_and bm b) (avail_bitmap r), ns_licenses := bf_licenses_deduct (ns_licenses r) job\<rparr>
      | None \<Rightarrow> r\<lparr>ns_licenses := bf_licenses_transfer (ns_licenses r) job\<rparr>)"

fun usage_rows :: "int \<Rightarrow> (node_space_map \<Rightarrow> node_space_map) \<Rightarrow> node_space_map list \<Rightarrow> node_space_map list" where
  "usage_rows e f [] = []"
| "usage_rows e f (r # rs) =
     (if e < end_time r then f (r\<lparr>end_time := e\<rparr>) # r\<lparr>begin_time := e\<rparr> # rs
      else if end_time r = e then f r # rs
      else f r # usage_rows e f rs)"

definition res_ok :: "nat \<Rightarrow> bitstr option \<Rightarrow> bool" where
  "res_ok n res \<longleftrightarrow> (\<forall>b. res = Some b \<longrightarrow> wf_bitstr b \<and> bs_bits b = n)"

lemma usage_fields [simp]:
  "begin_time (usage res job r) = begin_time r" "end_time (usage res job r) = end_time r" "ns_next (usage res job r) = ns_next r"
  "(usage res job r)\<lparr>ns_next := k\<rparr> = usage res job (r\<lparr>ns_next := k\<rparr>)"
  by (simp_all add: usage_def split: option.split)

lemma usage_ok:
  assumes "has_nodes n r" "res_ok n res"
  shows "has_nodes n (usage res job r)" "ns_licenses (usage res job r) = None \<longleftrightarrow> ns_licenses r = None"
    "merge_usage res job r = Some (usage res job r)"
  using assms boolean_ops_facts
  by (auto simp: has_nodes_def res_ok_def usage_def merge_usage_def bf_licenses_deduct_def bf_licenses_transfer_def split: option.splits)

lemma use_record:
  assumes "linked n lic tbl recs (pre @ j # post)" "res_ok n res"
  shows "\<exists>tbl'. Option.bind (fetch tbl j) (\<lambda>r. Option.bind (merge_usage res job r) (\<lambda>r. Option.bind (put_rec tbl j r) (f r)))
      = f (usage res job (tbl ! j)) tbl'
    \<and> linked n lic tbl' recs (pre @ j # post) \<and> length tbl' = length tbl \<and> rows tbl' pre = rows tbl pre
    \<and> row tbl' j = usage res job (row tbl j) \<and> rows tbl' post = rows tbl post"
proof -
  note j = linked_at [OF assms(1)]
  note u = usage_ok [OF j(4) assms(2), of job]
  let ?tbl = "tbl[j := usage res job (tbl ! j)]"
  have d: "distinct (pre @ j # post)" and l: "lseg tbl 0 pre j" "lseg tbl (ns_next (tbl ! j)) post 0"
    using assms(1) by (auto simp: linked_def lseg_append)
  have "linked n lic ?tbl recs (pre @ j # post)"
    unfolding linked_def
  proof (intro conjI)
    show "lseg ?tbl 0 (pre @ j # post) 0" using l d j(2) by (auto simp: lseg_append)
    show "\<forall>k \<in> set (pre @ j # post). has_nodes n (?tbl ! k) \<and> (ns_licenses (?tbl ! k) \<noteq> None \<longleftrightarrow> lic)"
      using assms(1) j(2,5) u(1,2) by (auto simp: linked_def nth_list_update)
  qed (use assms(1) in \<open>auto simp: linked_def\<close>)
  moreover have "rows ?tbl pre = rows tbl pre" "rows ?tbl post = rows tbl post" using d by (auto simp del: map_eq_conv)
  moreover have "row ?tbl j = usage res job (row tbl j)" using j(2) by (simp add: row_def)
  ultimately show ?thesis using j(1,2) u(3) by (intro exI [of _ ?tbl]) (simp add: put_rec_def)
qed

lemma usage_loop_spec:
  assumes "linked n lic tbl recs (pre @ [j0] @ js)" "res_ok n res" "recs < length tbl"
  shows "\<exists>tbl' recs' one_after js'. usage_loop e res job tbl recs j0 = Some (tbl', recs', one_after)
    \<and> linked n lic tbl' recs' (pre @ [j0] @ js') \<and> length tbl' = length tbl \<and> recs' \<le> recs + 1
    \<and> rows tbl' (pre @ [j0]) = rows tbl (pre @ [j0]) \<and> rows tbl' js' = usage_rows e (usage res job) (rows tbl js)
    \<and> set js \<subseteq> set js'"
  using assms(1,3)
proof (induction js arbitrary: tbl pre j0)
  case Nil
  have "usage_loop e res job tbl recs j0 = Some (tbl, recs, - 1)"
    by (subst usage_loop.simps) (use linked_at [of n lic tbl recs pre j0 "[]"] Nil in simp)
  then show ?case using Nil by (intro exI [of _ tbl] exI [of _ recs] exI [of _ "- 1"] exI [of _ "[]"]) auto
next
  case (Cons j js)
  have l0: "linked n lic tbl recs (pre @ j0 # j # js)" using Cons.prems(1) by simp
  note j0 = linked_at [OF l0]
  have l: "linked n lic tbl recs ((pre @ [j0]) @ j # js)" using Cons.prems(1) by simp
  note j = linked_at [OF l]
  have nx: "ns_next (tbl ! j0) = j" "j \<noteq> 0" using j0(6,7) by auto
  let ?rest = "\<lambda>recs r tbl. if e = end_time r then Some (tbl, recs, if ns_next r \<noteq> 0 then int (ns_next r) else - 1)
      else usage_loop e res job tbl recs j"
  have step: "usage_loop e res job tbl recs j0 =
      Option.bind (if e < end_time (tbl ! j) then map_option (\<lambda>tbl. (tbl, recs + 1)) (cut_at e tbl recs j) else Some (tbl, recs))
        (\<lambda>(tbl, recs). Option.bind (fetch tbl j) (\<lambda>r. Option.bind (merge_usage res job r) (\<lambda>r. Option.bind (put_rec tbl j r) (?rest recs r))))"
    by (subst usage_loop.simps) (simp add: j0(1) j(1) nx Let_def cong: if_cong)
  show ?case
  proof (cases "e < end_time (tbl ! j)")
    case True
    from cut_at_spec [OF l Cons.prems(2), of e] obtain t1 where
      c: "cut_at e tbl recs j = Some t1" "linked n lic t1 (recs + 1) ((pre @ [j0]) @ j # recs # js)" "length t1 = length tbl"
        "rows t1 (pre @ [j0]) = rows tbl (pre @ [j0])" "row t1 j = (row tbl j)\<lparr>end_time := e\<rparr>"
        "row t1 recs = (row tbl j)\<lparr>begin_time := e\<rparr>" "rows t1 js = rows tbl js" by blast
    from use_record [OF c(2) assms(2), of job "?rest (recs + 1)"] obtain t2 where
      u: "Option.bind (fetch t1 j) (\<lambda>r. Option.bind (merge_usage res job r) (\<lambda>r. Option.bind (put_rec t1 j r) (?rest (recs + 1) r)))
          = ?rest (recs + 1) (usage res job (t1 ! j)) t2"
        "linked n lic t2 (recs + 1) ((pre @ [j0]) @ j # recs # js)" "length t2 = length t1" "rows t2 (pre @ [j0]) = rows t1 (pre @ [j0])"
        "row t2 j = usage res job (row t1 j)" "rows t2 (recs # js) = rows t1 (recs # js)" by blast
    have "end_time (t1 ! j) = e" using arg_cong [OF c(5), of end_time] by simp
    moreover have "usage_loop e res job tbl recs j0 = ?rest (recs + 1) (usage res job (t1 ! j)) t2"
      unfolding step u(1) [symmetric] by (simp only: True if_True c(1) option.map(2) Option.bind.simps prod.case)
    ultimately obtain oa where "usage_loop e res job tbl recs j0 = Some (t2, recs + 1, oa)" by simp
    then show ?thesis using u c True
      by (intro exI [of _ t2] exI [of _ "recs + 1"] exI [of _ oa] exI [of _ "j # recs # js"]) auto
  next
    case False
    from use_record [OF l assms(2), of job "?rest recs"] obtain t2 where
      u: "Option.bind (fetch tbl j) (\<lambda>r. Option.bind (merge_usage res job r) (\<lambda>r. Option.bind (put_rec tbl j r) (?rest recs r)))
          = ?rest recs (usage res job (tbl ! j)) t2"
        "linked n lic t2 recs ((pre @ [j0]) @ j # js)" "length t2 = length tbl" "rows t2 (pre @ [j0]) = rows tbl (pre @ [j0])"
        "row t2 j = usage res job (row tbl j)" "rows t2 js = rows tbl js" by blast
    have st: "usage_loop e res job tbl recs j0 = ?rest recs (usage res job (tbl ! j)) t2"
      unfolding step using False u(1) by simp
    show ?thesis
    proof (cases "end_time (tbl ! j) = e")
      case True
      then obtain oa where "usage_loop e res job tbl recs j0 = Some (t2, recs, oa)" unfolding st by simp
      then show ?thesis using u True
        by (intro exI [of _ t2] exI [of _ recs] exI [of _ oa] exI [of _ "j # js"]) auto
    next
      case ne: False
      from Cons.IH [of t2 "pre @ [j0]" j] u(2,3) Cons.prems(2) obtain t3 recs' oa js' where
        r: "usage_loop e res job t2 recs j = Some (t3, recs', oa)" "linked n lic t3 recs' ((pre @ [j0]) @ [j] @ js')"
          "length t3 = length t2" "recs' \<le> recs + 1" "rows t3 ((pre @ [j0]) @ [j]) = rows t2 ((pre @ [j0]) @ [j])"
          "rows t3 js' = usage_rows e (usage res job) (rows t2 js)" "set js \<subseteq> set js'" by auto
      have "usage_loop e res job tbl recs j0 = Some (t3, recs', oa)" unfolding st using ne r(1) by simp
      then show ?thesis using r u False ne
        by (intro exI [of _ t3] exI [of _ recs'] exI [of _ oa] exI [of _ "j # js'"]) auto
    qed
  qed
qed

subsection \<open>Dropping a record\<close>

definition same_free :: "node_space_map \<Rightarrow> node_space_map \<Rightarrow> bool" where
  "same_free r q \<longleftrightarrow> bf_licenses_equal (ns_licenses r) (ns_licenses q) = Some True
     \<and> (\<exists>b c. avail_bitmap r = Some b \<and> avail_bitmap q = Some c \<and> bit_equal b c)"

lemma drop_loop_spec:
  assumes "linked n lic tbl recs (pre @ js)" "js = i # ks"
  shows "\<exists>tbl' js'. drop_loop one_after tbl i = Some tbl' \<and> linked n lic tbl' recs js' \<and> length tbl' = length tbl
    \<and> (rows tbl' js' = rows tbl (pre @ js)
       \<or> (\<exists>xs r q ys. rows tbl (pre @ js) = xs @ r # q # ys \<and> same_free r q \<and> rows tbl' js' = xs @ r\<lparr>end_time := end_time q\<rparr> # ys))"
  using assms
proof (induction js arbitrary: pre i ks)
  case (Cons i0 js0)
  have [simp]: "i0 = i" "js0 = ks" using Cons.prems(2) by auto
  have l: "linked n lic tbl recs (pre @ i # ks)" using Cons.prems(1) by simp
  note i = linked_at [OF l]
  have stop: ?case if "drop_loop one_after tbl i = Some tbl"
    using that l by (intro exI [of _ tbl] exI [of _ "pre @ i # ks"]) simp
  show ?case
  proof (cases "int i = one_after \<or> ks = []")
    case True
    show ?thesis by (rule stop, subst drop_loop.simps) (use True i(1,6) in auto)
  next
    case False
    then obtain j ks' where ks: "ks = j # ks'" by (cases ks) auto
    have l2: "linked n lic tbl recs ((pre @ [i]) @ j # ks')" using l ks by simp
    note j = linked_at [OF l2]
    have nx: "ns_next (tbl ! i) = j" "j \<noteq> 0" using i(6,7) ks by auto
    obtain b1 b2 where b: "avail_bitmap (tbl ! i) = Some b1" "avail_bitmap (tbl ! j) = Some b2"
      using i(4) j(4) by (auto simp: has_nodes_def)
    have "bf_licenses_equal (ns_licenses (tbl ! i)) (ns_licenses (tbl ! j)) \<noteq> None"
      using i(5) j(5) by (auto simp: bf_licenses_equal_def split: option.splits)
    then obtain eq where eq: "bf_licenses_equal (ns_licenses (tbl ! i)) (ns_licenses (tbl ! j)) = Some eq" by auto
    let ?tbl = "tbl[i := (tbl ! i)\<lparr>end_time := end_time (tbl ! j), ns_next := ns_next (tbl ! j)\<rparr>,
        j := (tbl ! j)\<lparr>avail_bitmap := None, ns_licenses := None\<rparr>]"
    have step: "drop_loop one_after tbl i = (if eq \<and> bit_equal b1 b2 then Some ?tbl else drop_loop one_after tbl j)"
      by (subst drop_loop.simps) (use False i(1,2) j(1,2) nx b eq in \<open>simp add: put_rec_def\<close>)
    show ?thesis
    proof (cases "eq \<and> bit_equal b1 b2")
      case True
      have d: "distinct (pre @ i # j # ks')" and seg: "lseg tbl 0 pre i" "lseg tbl (ns_next (tbl ! j)) ks' 0"
        using l2 by (auto simp: linked_def lseg_append)
      have "linked n lic ?tbl recs (pre @ i # ks')"
        unfolding linked_def
      proof (intro conjI)
        show "lseg ?tbl 0 (pre @ i # ks') 0" using seg d i(2) by (auto simp: lseg_append nth_list_update)
        show "\<forall>k \<in> set (pre @ i # ks'). has_nodes n (?tbl ! k) \<and> (ns_licenses (?tbl ! k) \<noteq> None \<longleftrightarrow> lic)"
          using l2 i(2,4,5) d by (auto simp: linked_def nth_list_update has_nodes_def)
      qed (use l2 in \<open>auto simp: linked_def\<close>)
      moreover have "rows ?tbl (pre @ i # ks') = rows tbl pre @ (row tbl i)\<lparr>end_time := end_time (row tbl j)\<rparr> # rows tbl ks'"
        using d i(2) j(2) by (auto simp: row_def nth_list_update simp del: map_eq_conv intro!: map_cong)
      moreover have "rows tbl (pre @ i0 # js0) = rows tbl pre @ row tbl i # row tbl j # rows tbl ks'" using ks by simp
      moreover have "same_free (row tbl i) (row tbl j)" using True b eq by (simp add: same_free_def)
      moreover have "drop_loop one_after tbl i = Some ?tbl" using step True by simp
      ultimately show ?thesis by (metis length_list_update)
    next
      case ne: False
      have "drop_loop one_after tbl i = drop_loop one_after tbl j" using step ne by simp
      moreover have "(pre @ [i]) @ js0 = pre @ i0 # js0" by simp
      ultimately show ?thesis using Cons.IH [of "pre @ [i]" j ks'] Cons.prems(1) ks by simp
    qed
  qed
qed simp

subsection \<open>What is free at a time\<close>

definition covers :: "int \<Rightarrow> node_space_map \<Rightarrow> bool" where
  "covers t r \<longleftrightarrow> begin_time r \<le> t \<and> t < end_time r"

fun contiguous :: "node_space_map list \<Rightarrow> bool" where
  "contiguous [] \<longleftrightarrow> True"
| "contiguous (r # rs) \<longleftrightarrow> begin_time r \<le> end_time r \<and> (rs \<noteq> [] \<longrightarrow> end_time r = begin_time (hd rs)) \<and> contiguous rs"

definition at :: "(node_space_map \<Rightarrow> 'a) \<Rightarrow> node_space_map list \<Rightarrow> int \<Rightarrow> 'a option" where
  "at d rs t = map_option d (find (covers t) rs)"

lemma at_simps [simp]: "at d [] t = None" "at d (r # rs) t = (if covers t r then Some (d r) else at d rs t)"
  by (simp_all add: at_def)

lemma at_append: "at d (xs @ ys) t = (case at d xs t of None \<Rightarrow> at d ys t | Some v \<Rightarrow> Some v)"
  by (induction xs) auto

lemma at_before: "contiguous rs \<Longrightarrow> rs = [] \<or> t < begin_time (hd rs) \<Longrightarrow> at d rs t = None"
  by (induction rs) (auto simp: covers_def)

lemma at_after: "\<forall>r \<in> set rs. end_time r \<le> t \<Longrightarrow> at d rs t = None"
  by (induction rs) (auto simp: covers_def)

text \<open>The data of a record that do not depend on its times.\<close>

definition timeless :: "(node_space_map \<Rightarrow> 'a) \<Rightarrow> bool" where
  "timeless d \<longleftrightarrow> (\<forall>r t. d (r\<lparr>begin_time := t\<rparr>) = d r \<and> d (r\<lparr>end_time := t\<rparr>) = d r)"

lemma split_rows_spec:
  assumes "contiguous rs" "rs = [] \<or> begin_time (hd rs) \<le> s" "timeless d" "split_rows s rs = (xs, ys)"
  shows "contiguous (xs @ ys) \<and> (\<forall>r \<in> set xs. end_time r \<le> s) \<and> (ys = [] \<or> begin_time (hd ys) = s)
    \<and> (rs \<noteq> [] \<longrightarrow> xs \<noteq> [] \<and> begin_time (hd xs) = begin_time (hd rs)) \<and> at d (xs @ ys) t = at d rs t"
  using assms(1,2,4)
proof (induction rs arbitrary: xs)
  case (Cons r rs)
  show ?case
  proof (cases "end_time r < s")
    case True
    obtain xs' where xs': "split_rows s rs = (xs', ys)" "xs = r # xs'" using Cons.prems(3) True by (cases "split_rows s rs") auto
    have "contiguous rs" "rs = [] \<or> begin_time (hd rs) \<le> s" using Cons.prems(1) True by auto
    note IH = Cons.IH [OF this xs'(1)]
    have "rs = [] \<Longrightarrow> xs' @ ys = []" using xs'(1) by auto
    then show ?thesis using IH Cons.prems(1) True xs'(2) by (cases rs) auto
  next
    case False
    then show ?thesis using Cons.prems assms(3) by (auto simp: covers_def timeless_def split: if_splits)
  qed
qed simp

lemma usage_rows_spec:
  assumes "contiguous rs" "rs = [] \<or> begin_time (hd rs) \<le> e" "timeless d"
    and "\<And>r. begin_time (f r) = begin_time r" "\<And>r. end_time (f r) = end_time r" "\<And>r t. f (r\<lparr>end_time := t\<rparr>) = (f r)\<lparr>end_time := t\<rparr>"
  shows "contiguous (usage_rows e f rs) \<and> (rs \<noteq> [] \<longrightarrow> usage_rows e f rs \<noteq> [] \<and> begin_time (hd (usage_rows e f rs)) = begin_time (hd rs))
    \<and> at d (usage_rows e f rs) t = (if t < e then at (\<lambda>r. d (f r)) rs t else at d rs t)"
  using assms(1,2)
proof (induction rs)
  case (Cons r rs)
  have none: "t < begin_time r \<Longrightarrow> at d' rs t = None" for d' :: "node_space_map \<Rightarrow> 'a"
    using at_before [of rs t d'] Cons.prems(1) by (cases rs) auto
  have late: "t < end_time r \<Longrightarrow> at d' rs t = None" for d' :: "node_space_map \<Rightarrow> 'a"
    using at_before [of rs t d'] Cons.prems(1) by (cases rs) auto
  consider "e < end_time r" | "e = end_time r" | "end_time r < e" by linarith
  then show ?case
  proof cases
    case 1
    have dd: "d ((f r)\<lparr>end_time := e\<rparr>) = d (f r)" "d (r\<lparr>begin_time := e\<rparr>) = d r" using assms(3) by (simp_all add: timeless_def)
    have "at d (usage_rows e f (r # rs)) t = (if t < e then at (\<lambda>r. d (f r)) (r # rs) t else at d (r # rs) t)"
    proof (cases "t < begin_time r")
      case True
      then show ?thesis using 1 Cons.prems(2) none by (simp add: covers_def assms(4-6))
    next
      case False
      then show ?thesis using 1 dd by (auto simp: covers_def assms(4-6))
    qed
    then show ?thesis using 1 Cons.prems by (simp add: assms(4-6))
  next
    case 2
    have "at d (usage_rows e f (r # rs)) t = (if t < e then at (\<lambda>r. d (f r)) (r # rs) t else at d (r # rs) t)"
    proof (cases "t < e")
      case True
      then have l: "t < end_time r" using 2 by simp
      show ?thesis using True late [OF l, of d] late [OF l, of "\<lambda>r. d (f r)"] l by (simp add: 2 covers_def assms(4,5))
    next
      case False
      then show ?thesis by (simp add: 2 covers_def assms(4,5))
    qed
    then show ?thesis using Cons.prems by (simp add: 2 assms(4,5))
  next
    case 3
    have "contiguous rs" "rs = [] \<or> begin_time (hd rs) \<le> e" using Cons.prems(1) 3 by auto
    note IH = Cons.IH [OF this]
    show ?thesis
    proof (cases rs)
      case Nil
      then show ?thesis using Cons.prems 3 assms(4,5) by (auto simp: covers_def)
    next
      case (Cons q qs)
      then show ?thesis using IH Cons.prems 3 assms(4,5) by (auto simp: covers_def)
    qed
  qed
qed simp

lemma reserved_at:
  assumes "contiguous rs" "rs \<noteq> []" "begin_time (hd rs) \<le> s" "s \<le> e" "timeless d" "split_rows s rs = (xs, ys)"
    and "\<And>r. begin_time (f r) = begin_time r" "\<And>r. end_time (f r) = end_time r" "\<And>r t. f (r\<lparr>end_time := t\<rparr>) = (f r)\<lparr>end_time := t\<rparr>"
    and "\<And>r t. f (r\<lparr>begin_time := t\<rparr>) = (f r)\<lparr>begin_time := t\<rparr>"
  shows "contiguous (xs @ usage_rows e f ys) \<and> begin_time (hd (xs @ usage_rows e f ys)) = begin_time (hd rs)
    \<and> at d (xs @ usage_rows e f ys) t = (if s \<le> t \<and> t < e then at (\<lambda>r. d (f r)) rs t else at d rs t)"
proof -
  have b: "rs = [] \<or> begin_time (hd rs) \<le> s" using assms(3) by simp
  have d': "timeless (\<lambda>r. d (f r))" using assms(5,9,10) by (simp add: timeless_def)
  note s1 = split_rows_spec [OF assms(1) b assms(5,6), of t] and s2 = split_rows_spec [OF assms(1) b d' assms(6), of t]
  have c: "contiguous (as @ bs) \<longleftrightarrow> contiguous as \<and> contiguous bs \<and> (as \<noteq> [] \<longrightarrow> bs \<noteq> [] \<longrightarrow> end_time (List.last as) = begin_time (hd bs))" for as bs
    by (induction as) auto
  have ys: "contiguous ys" "ys = [] \<or> begin_time (hd ys) \<le> e" using s1 assms(4) c by auto
  note u = usage_rows_spec [OF ys assms(5,7,8,9), of t]
  have "contiguous (xs @ usage_rows e f ys)" using s1 u c [of xs ys] c [of xs "usage_rows e f ys"] by (cases ys) auto
  moreover have "begin_time (hd (xs @ usage_rows e f ys)) = begin_time (hd rs)" using s1 assms(2) by (cases xs) auto
  moreover have "at d (xs @ usage_rows e f ys) t = (if s \<le> t \<and> t < e then at (\<lambda>r. d (f r)) rs t else at d rs t)"
  proof (cases "s \<le> t")
    case True
    then have e: "\<forall>r \<in> set xs. end_time r \<le> t" using s1 by auto
    have "at d xs t = None" "at (\<lambda>r. d (f r)) xs t = None" by (rule at_after [OF e])+
    moreover have "at d (xs @ ys) t = at d rs t" "at (\<lambda>r. d (f r)) (xs @ ys) t = at (\<lambda>r. d (f r)) rs t" using s1 s2 by blast+
    moreover have "at d (usage_rows e f ys) t = (if t < e then at (\<lambda>r. d (f r)) ys t else at d ys t)" using u by blast
    ultimately show ?thesis using True by (simp add: at_append)
  next
    case False
    have y: "ys = [] \<or> t < begin_time (hd ys)" using s1 False by auto
    have "at d ys t = None" by (rule at_before [OF ys(1) y])
    moreover have "at d (usage_rows e f ys) t = None"
    proof (rule at_before)
      show "contiguous (usage_rows e f ys)" using u by blast
      show "usage_rows e f ys = [] \<or> t < begin_time (hd (usage_rows e f ys))" using u y by (cases ys) auto
    qed
    moreover have "at d (xs @ ys) t = at d rs t" using s1 by blast
    ultimately show ?thesis using False unfolding at_append by (auto split: option.splits)
  qed
  ultimately show ?thesis by blast
qed

lemma dropped_at:
  assumes "contiguous (xs @ r # q # ys)" "timeless d" "d r = d q"
  shows "contiguous (xs @ r\<lparr>end_time := end_time q\<rparr> # ys)
    \<and> begin_time (hd (xs @ r\<lparr>end_time := end_time q\<rparr> # ys)) = begin_time (hd (xs @ r # q # ys))
    \<and> at d (xs @ r\<lparr>end_time := end_time q\<rparr> # ys) t = at d (xs @ r # q # ys) t"
  using assms(1)
proof (induction xs)
  case Nil
  then show ?case using assms(2,3) by (auto simp: covers_def timeless_def)
next
  case (Cons x xs)
  then show ?case by (cases xs) auto
qed

subsection \<open>The plan\<close>

text \<open>The intervals of the table, following the links from record \<open>0\<close>.\<close>

fun walk :: "nat \<Rightarrow> node_space_map list \<Rightarrow> nat \<Rightarrow> node_space_map list" where
  "walk 0 tbl j = []"
| "walk (Suc k) tbl j =
     (if j < length tbl then row tbl j # (if ns_next (tbl ! j) = 0 then [] else walk k tbl (ns_next (tbl ! j))) else [])"

definition plan :: "node_space_map list \<Rightarrow> node_space_map list" where
  "plan tbl = walk (length tbl) tbl 0"

definition nodes_of :: "node_space_map \<Rightarrow> nat set" where
  "nodes_of r = (case avail_bitmap r of None \<Rightarrow> {} | Some bm \<Rightarrow> bset bm)"

text \<open>The free nodes at a time; \<open>None\<close> is a time outside the window.\<close>

definition free_nodes :: "node_space_map list \<Rightarrow> int \<Rightarrow> nat set option" where
  "free_nodes tbl t = at nodes_of (plan tbl) t"

definition valid_plan :: "nat \<Rightarrow> node_space_map list \<Rightarrow> nat \<Rightarrow> bool" where
  "valid_plan n tbl recs \<longleftrightarrow> (\<exists>lic js. linked n lic tbl recs js) \<and> contiguous (plan tbl)
     \<and> 0 \<le> begin_time (tbl ! 0) \<and> begin_time (tbl ! 0) < 4294967296"

lemma walk_linked:
  "lseg tbl j js 0 \<Longrightarrow> js \<noteq> [] \<Longrightarrow> 0 \<notin> set (tl js) \<Longrightarrow> length js \<le> k \<Longrightarrow> walk k tbl j = rows tbl js"
proof (induction js arbitrary: j k)
  case (Cons i js)
  obtain k' where k: "k = Suc k'" using Cons.prems(4) by (cases k) auto
  show ?case
  proof (cases js)
    case Nil
    then show ?thesis using Cons.prems k by simp
  next
    case (Cons i' js')
    then have "walk k' tbl (ns_next (tbl ! i)) = rows tbl js"
      using Cons.IH [of "ns_next (tbl ! i)" k'] Cons.prems k by (cases js') auto
    then show ?thesis using Cons.prems k \<open>js = i' # js'\<close> by auto
  qed
qed simp

lemma plan_linked:
  assumes "linked n lic tbl recs js"
  shows "plan tbl = rows tbl js"
proof -
  obtain ks where ks: "js = 0 # ks" "0 \<notin> set ks" using linked_hd [OF assms] by blast
  have "set js \<subseteq> {..<length tbl}" "distinct js" using assms by (auto simp: linked_def)
  then have "length js \<le> length tbl" using card_mono [of "{..<length tbl}" "set js"] distinct_card [of js] by simp
  then show ?thesis using walk_linked [of tbl 0 js "length tbl"] assms ks by (simp add: plan_def linked_def)
qed

text \<open>
  The data of a record that a dropped record must share with the one that takes it
  in, given a property of all records that a reservation keeps.
\<close>

definition kept :: "(node_space_map \<Rightarrow> bool) \<Rightarrow> (node_space_map \<Rightarrow> 'a) \<Rightarrow> bool" where
  "kept P d \<longleftrightarrow> timeless d \<and> timeless P \<and> (\<forall>r q. P r \<longrightarrow> P q \<longrightarrow> same_free r q \<longrightarrow> d r = d q)"

lemma timeless_iff: "timeless d \<Longrightarrow> d (r\<lparr>begin_time := t\<rparr>) = d r" "timeless d \<Longrightarrow> d (r\<lparr>end_time := t\<rparr>) = d r"
  by (auto simp: timeless_def)

lemma usage_rows_all:
  assumes "timeless P" "\<And>r. P r \<Longrightarrow> P (f r)"
  shows "\<forall>r \<in> set rs. P r \<Longrightarrow> \<forall>r \<in> set (usage_rows e f rs). P r"
proof (induction rs)
  case (Cons r rs)
  then show ?case using assms(2) [of r] assms(2) [of "r\<lparr>end_time := e\<rparr>"] timeless_iff [OF assms(1), where r = r and t = e] by simp
qed simp

lemma split_rows_all:
  assumes "timeless P"
  shows "\<forall>r \<in> set rs. P r \<Longrightarrow> split_rows s rs = (xs, ys) \<Longrightarrow> \<forall>r \<in> set (xs @ ys). P r"
proof (induction rs arbitrary: xs)
  case (Cons r rs)
  obtain xs' where "split_rows s rs = (xs', snd (split_rows s rs))" by (metis prod.collapse)
  then show ?case using Cons timeless_iff [OF assms, where r = r and t = s] by (cases "split_rows s rs") (auto split: if_splits)
qed simp

lemma usage_commutes:
  "usage res job (r\<lparr>end_time := t\<rparr>) = (usage res job r)\<lparr>end_time := t\<rparr>"
  "usage res job (r\<lparr>begin_time := t\<rparr>) = (usage res job r)\<lparr>begin_time := t\<rparr>"
  by (simp_all add: usage_def split: option.split)

lemma add_reservation_at:
  fixes d :: "node_space_map \<Rightarrow> 'a"
  assumes "linked n lic tbl recs js" "contiguous (plan tbl)" "res_ok n res" "recs + 2 \<le> length tbl"
    and "0 \<le> begin_time (tbl ! 0)" "begin_time (tbl ! 0) < 4294967296"
    and "s = max (uint start) (begin_time (tbl ! 0))" "s + uint resolution < 4294967296" "e = max (uint end_r) (s + uint resolution)"
    and "kept P d" "\<forall>r \<in> set (plan tbl). P r" "\<And>r. P r \<Longrightarrow> P (usage res job r)"
  shows "\<exists>tbl' recs'. add_reservation resolution start end_r res job tbl recs = Some (tbl', recs')
    \<and> (\<exists>js. linked n lic tbl' recs' js) \<and> contiguous (plan tbl') \<and> length tbl' = length tbl \<and> recs' \<le> recs + 2
    \<and> begin_time (tbl' ! 0) = begin_time (tbl ! 0) \<and> (\<forall>r \<in> set (plan tbl'). P r)
    \<and> (\<forall>t. at d (plan tbl') t = (if s \<le> t \<and> t < e then at (\<lambda>r. d (usage res job r)) (plan tbl) t else at d (plan tbl) t))"
proof -
  obtain ks where ks: "js = 0 # ks" using linked_hd [OF assms(1)] by blast
  have p: "plan tbl = rows tbl js" by (rule plan_linked [OF assms(1)])
  note zero = linked_at [of n lic tbl recs "[]" 0 ks]
  let ?start = "of_int (max (uint start) (begin_time (tbl ! 0))) :: u32"
  let ?stop = "if end_r < ?start + resolution then ?start + resolution else end_r"
  have u: "0 \<le> uint start" "uint start < 4294967296" using uint_lt2p [of start] by simp_all
  then have "0 \<le> s \<and> s < 4294967296" using assms(5-7) by simp
  then have st: "uint ?start = s" unfolding assms(7) [symmetric] by (simp add: uint_word_of_int_eq take_bit_int_eq_self)
  have sr: "uint (?start + resolution) = s + uint resolution"
    using st assms(5,7,8) by (simp add: uint_word_ariths max_def)
  have en: "uint ?stop = e" using sr assms(9) by (simp add: word_less_def max_def)
  obtain xs ys where sp: "split_rows s (rows tbl js) = (xs, ys)" by fastforce
  from place_loop_spec [of n lic tbl recs "[]" js 0 ks 0 s] assms(1,4) ks sp obtain t1 recs1 placed before fr bk where
    pl: "place_loop s tbl recs 0 0 = Some (t1, recs1, placed, before)" "linked n lic t1 recs1 (fr @ bk)" "length t1 = length tbl"
      "recs1 \<le> recs + 1" "before \<in> set (fr @ bk)" "rows t1 fr = xs" "rows t1 bk = ys"
      "case placed of None \<Rightarrow> bk = [] | Some k \<Rightarrow> \<exists>fr'. fr = fr' @ [k]" by auto
  have "\<exists>t2 recs2 oa bk2. (case placed of None \<Rightarrow> Some (t1, recs1, - 1) | Some j \<Rightarrow> usage_loop e res job t1 recs1 j) = Some (t2, recs2, oa)
      \<and> linked n lic t2 recs2 (fr @ bk2) \<and> length t2 = length tbl \<and> recs2 \<le> recs1 + 1 \<and> rows t2 fr = xs
      \<and> rows t2 bk2 = usage_rows e (usage res job) ys \<and> set bk \<subseteq> set bk2"
  proof (cases placed)
    case None
    then show ?thesis using pl by (intro exI [of _ t1] exI [of _ recs1] exI [of _ "- 1"] exI [of _ bk]) auto
  next
    case (Some j)
    then obtain fr' where fr': "fr = fr' @ [j]" using pl(8) by auto
    have "recs1 < length t1" using pl(3,4) assms(4) by simp
    from usage_loop_spec [of n lic t1 recs1 fr' j bk res e job] pl(2) assms(3) this fr' obtain t2 recs2 oa bk2 where
      "usage_loop e res job t1 recs1 j = Some (t2, recs2, oa)" "linked n lic t2 recs2 (fr' @ [j] @ bk2)" "length t2 = length t1"
      "recs2 \<le> recs1 + 1" "rows t2 (fr' @ [j]) = rows t1 (fr' @ [j])" "rows t2 bk2 = usage_rows e (usage res job) (rows t1 bk)"
      "set bk \<subseteq> set bk2" by auto
    then show ?thesis using Some pl fr' by (intro exI [of _ t2] exI [of _ recs2] exI [of _ oa] exI [of _ bk2]) auto
  qed
  then obtain t2 recs2 oa bk2 where us:
    "(case placed of None \<Rightarrow> Some (t1, recs1, - 1) | Some j \<Rightarrow> usage_loop e res job t1 recs1 j) = Some (t2, recs2, oa)"
    "linked n lic t2 recs2 (fr @ bk2)" "length t2 = length tbl" "recs2 \<le> recs1 + 1" "rows t2 fr = xs"
    "rows t2 bk2 = usage_rows e (usage res job) ys" "set bk \<subseteq> set bk2" by blast
  obtain pre post where b: "fr @ bk2 = pre @ before # post" using pl(5) us(7) split_list [of before "fr @ bk2"] by auto
  have l2: "linked n lic t2 recs2 (pre @ before # post)" using us(2) b by simp
  from drop_loop_spec [OF l2 refl, of oa, folded b] obtain t3 js3 where
    dr: "drop_loop oa t2 before = Some t3" "linked n lic t3 recs2 js3" "length t3 = length t2"
      "rows t3 js3 = rows t2 (fr @ bk2) \<or> (\<exists>xs r q ys. rows t2 (fr @ bk2) = xs @ r # q # ys \<and> same_free r q
         \<and> rows t3 js3 = xs @ r\<lparr>end_time := end_time q\<rparr> # ys)" by blast
  have add: "add_reservation resolution start end_r res job tbl recs = Some (t3, recs2)"
  proof -
    define E where "E = ?stop"
    have f0: "fetch tbl 0 = Some (tbl ! 0)" using zero assms(1) ks by simp
    have E: "uint E = e" using en by (simp add: E_def)
    show ?thesis unfolding add_reservation_def f0 bind.bind_lunit Let_def E_def [symmetric] st E pl(1) prod.case us(1) dr(1)
      by simp
  qed
  let ?mid = "xs @ usage_rows e (usage res job) ys"
  have mid: "rows t2 (fr @ bk2) = ?mid" using us(5,6) by simp
  have kt: "timeless d" "timeless P" using assms(10) by (simp_all add: kept_def)
  have "0 \<le> uint resolution" by simp
  then have "s \<le> e" using assms(9) by linarith
  then have c: "contiguous (rows tbl js)" "rows tbl js \<noteq> []" "begin_time (hd (rows tbl js)) \<le> s" "s \<le> e"
    using assms(2,7) p ks by simp_all
  note ra = reserved_at [OF c kt(1) sp, of "usage res job", OF usage_fields(1,2) usage_commutes]
  have xy: "\<forall>r \<in> set (xs @ ys). P r" by (rule split_rows_all [OF kt(2) _ sp]) (use assms(11) p in metis)
  have "\<forall>r \<in> set (usage_rows e (usage res job) ys). P r"
    by (rule usage_rows_all [OF kt(2)]) (use xy assms(12) in simp_all)
  then have P: "\<forall>r \<in> set ?mid. P r" using xy by (metis Un_iff set_append)
  have r3: "contiguous (rows t3 js3) \<and> begin_time (hd (rows t3 js3)) = begin_time (hd (rows tbl js)) \<and> (\<forall>r \<in> set (rows t3 js3). P r)
      \<and> at d (rows t3 js3) t = at d ?mid t" for t
    using dr(4) unfolding mid
  proof (elim disjE exE conjE)
    assume "rows t3 js3 = ?mid"
    then show ?thesis using ra P by simp
  next
    fix as r q bs
    assume m: "?mid = as @ r # q # bs" "same_free r q" "rows t3 js3 = as @ r\<lparr>end_time := end_time q\<rparr> # bs"
    have "d r = d q" using assms(10) P m(1,2) by (simp add: kept_def)
    from dropped_at [of as r q bs d t] ra m(1) kt(1) this show ?thesis
      using m P timeless_iff(2) [OF kt(2), where r = r and t = "end_time q"] by auto
  qed
  have p3: "plan t3 = rows t3 js3" by (rule plan_linked [OF dr(2)])
  obtain ks3 where "js3 = 0 # ks3" using linked_hd [OF dr(2)] by blast
  then have "begin_time (t3 ! 0) = begin_time (tbl ! 0)" using r3 ks by simp
  then show ?thesis using add dr(2,3) us(3,4) pl(4) r3 ra p p3 by auto
qed


lemma at_cong: "(\<And>r. r \<in> set rs \<Longrightarrow> d r = d' r) \<Longrightarrow> at d rs t = at d' rs t"
  by (induction rs) auto

lemma at_comp: "at (\<lambda>r. g (d r)) rs t = map_option g (at d rs t)"
  by (induction rs) auto

lemma plan_has_nodes: "linked n lic tbl recs js \<Longrightarrow> \<forall>r \<in> set (plan tbl). has_nodes n r"
  by (simp add: plan_linked) (auto simp: linked_def has_nodes_def)

lemma kept_nodes: "kept (has_nodes n) nodes_of"
proof -
  have "nodes_of r = nodes_of q" if "has_nodes n r" "has_nodes n q" "same_free r q" for r q
    using that bit_equal_correct by (auto simp: has_nodes_def same_free_def nodes_of_def)
  then show ?thesis by (auto simp: kept_def timeless_def has_nodes_def nodes_of_def)
qed

lemma nodes_of_usage:
  "has_nodes n r \<Longrightarrow> wf_bitstr b \<Longrightarrow> bs_bits b = n \<Longrightarrow> nodes_of (usage (Some b) job r) = nodes_of r \<inter> bset b"
  using bset_less by (fastforce simp: has_nodes_def nodes_of_def usage_def bset_boolean_ops)

text \<open>
  Between its start, not before the start of the plan, and its end, at least one
  unit of the resolution later, a reservation takes the nodes that the bitmap
  excludes; at every other time nothing changes.
\<close>

lemma reservation_nodes:
  assumes "valid_plan n tbl recs" "wf_bitstr b" "bs_bits b = n" "recs + 2 \<le> length tbl"
    and "s = max (uint start) (begin_time (tbl ! 0))" "s + uint resolution < 4294967296" "e = max (uint end_r) (s + uint resolution)"
  shows "\<exists>tbl' recs'. add_reservation resolution start end_r (Some b) job tbl recs = Some (tbl', recs')
    \<and> valid_plan n tbl' recs' \<and> length tbl' = length tbl \<and> recs' \<le> recs + 2 \<and> begin_time (tbl' ! 0) = begin_time (tbl ! 0)
    \<and> (\<forall>t. free_nodes tbl' t = (if s \<le> t \<and> t < e then map_option (\<lambda>N. N \<inter> bset b) (free_nodes tbl t) else free_nodes tbl t))"
proof -
  obtain lic js where l: "linked n lic tbl recs js" using assms(1) by (auto simp: valid_plan_def)
  have r: "res_ok n (Some b)" using assms(2,3) by (simp add: res_ok_def)
  have v: "contiguous (plan tbl)" "0 \<le> begin_time (tbl ! 0)" "begin_time (tbl ! 0) < 4294967296"
    using assms(1) by (simp_all add: valid_plan_def)
  note a = add_reservation_at [OF l v(1) r assms(4) v(2,3) assms(5-7) kept_nodes [of n] plan_has_nodes [OF l] usage_ok(1) [OF _ r], of job]
  have m: "at (\<lambda>r. nodes_of (usage (Some b) job r)) (plan tbl) t = map_option (\<lambda>N. N \<inter> bset b) (at nodes_of (plan tbl) t)" for t
    unfolding at_comp [symmetric] using nodes_of_usage assms(2,3) plan_has_nodes [OF l] by (auto intro!: at_cong)
  obtain tbl' recs' where t: "add_reservation resolution start end_r (Some b) job tbl recs = Some (tbl', recs')"
    "\<exists>js. linked n lic tbl' recs' js" "contiguous (plan tbl')" "length tbl' = length tbl" "recs' \<le> recs + 2"
    "begin_time (tbl' ! 0) = begin_time (tbl ! 0)"
    "\<forall>t. at nodes_of (plan tbl') t = (if s \<le> t \<and> t < e then at (\<lambda>r. nodes_of (usage (Some b) job r)) (plan tbl) t else at nodes_of (plan tbl) t)"
    using a by auto
  then have "valid_plan n tbl' recs'" using v by (auto simp: valid_plan_def)
  then show ?thesis using t m by (auto simp: free_nodes_def)
qed

subsection \<open>The overlap test\<close>

definition clashes :: "int \<Rightarrow> int \<Rightarrow> nat set \<Rightarrow> license_job \<Rightarrow> node_space_map \<Rightarrow> bool" where
  "clashes s e N job r \<longleftrightarrow> s < end_time r \<and> begin_time r < e \<and> (\<not> N \<subseteq> nodes_of r \<or> \<not> bf_licenses_avail (ns_licenses r) job)"

lemma nodes_of_super_set:
  assumes "has_nodes n r" "wf_bitstr b" "bs_bits b = n"
  shows "\<exists>bm. avail_bitmap r = Some bm \<and> (bit_super_set b bm \<longleftrightarrow> bset b \<subseteq> nodes_of r)"
  using assms bit_super_set_correct by (fastforce simp: has_nodes_def nodes_of_def)

lemma overlap_loop_spec:
  assumes "linked n lic tbl recs (pre @ js)" "js = j # ks" "wf_bitstr b" "bs_bits b = n"
  shows "overlap_loop s e b job tbl j = Some (\<exists>r \<in> set (rows tbl js). clashes s e (bset b) job r)"
  using assms(1,2)
proof (induction js arbitrary: pre j ks)
  case (Cons i js')
  have [simp]: "i = j" "js' = ks" using Cons.prems(2) by auto
  have ln: "linked n lic tbl recs (pre @ j # ks)" using Cons.prems(1) by simp
  note j = linked_at [OF ln]
  obtain bm where bm: "avail_bitmap (tbl ! j) = Some bm" "bit_super_set b bm \<longleftrightarrow> bset b \<subseteq> nodes_of (tbl ! j)"
    using nodes_of_super_set [OF j(4) assms(3,4)] by blast
  have c: "clashes s e (bset b) job (row tbl j) \<longleftrightarrow> clashes s e (bset b) job (tbl ! j)"
    by (simp add: clashes_def nodes_of_def)
  have IH: "ks \<noteq> [] \<Longrightarrow> overlap_loop s e b job tbl (hd ks) = Some (\<exists>r \<in> set (rows tbl ks). clashes s e (bset b) job r)"
    using Cons.IH [of "pre @ [j]" "hd ks" "tl ks"] ln by simp
  show ?case
    by (subst overlap_loop.simps, cases ks) (use j(1,6,7) bm c IH in \<open>auto simp: clashes_def\<close>)
qed simp

lemma test_resv_overlap_spec:
  assumes "valid_plan n tbl recs" "wf_bitstr b" "bs_bits b = n"
  shows "test_resv_overlap tbl b job s e = Some (\<exists>r \<in> set (plan tbl). clashes (uint s) (uint e) (bset b) job r)"
proof -
  obtain lic js where l: "linked n lic tbl recs js" using assms(1) by (auto simp: valid_plan_def)
  obtain ks where "js = 0 # ks" using linked_hd [OF l] by blast
  then show ?thesis using overlap_loop_spec [of n lic tbl recs "[]" js 0 ks b] l assms(2,3)
    by (simp add: test_resv_overlap_def plan_linked [OF l])
qed

text \<open>Where the test finds no overlap, all nodes are free throughout.\<close>

lemma no_overlap_free:
  assumes "valid_plan n tbl recs" "wf_bitstr b" "bs_bits b = n" "test_resv_overlap tbl b job s e = Some False"
    and "uint s \<le> t" "t < uint e" "free_nodes tbl t = Some N"
  shows "bset b \<subseteq> N"
proof -
  obtain r where r: "find (covers t) (plan tbl) = Some r" "N = nodes_of r" using assms(7) by (auto simp: free_nodes_def at_def)
  then have "r \<in> set (plan tbl)" "covers t r" by (auto simp: find_Some_iff)
  then show ?thesis using assms(4-6) r(2) test_resv_overlap_spec [OF assms(1-3), of job s e] by (auto simp: clashes_def covers_def)
qed

subsection \<open>A cycle of the scheduler\<close>

text \<open>
  The interval that a job takes, from the words that \<^verbatim>\<open>_add_reservation\<close> is given.
\<close>

definition planned_from :: "node_space_map list \<Rightarrow> u32 \<Rightarrow> u32 \<Rightarrow> int" where
  "planned_from tbl resolution job_start = max (uint (job_start div resolution * resolution)) (begin_time (tbl ! 0))"

definition planned_to :: "u32 \<Rightarrow> u32 \<Rightarrow> u32 \<Rightarrow> u32 \<Rightarrow> int" where
  "planned_to resolution job_start boot_time time_limit =
     uint ((job_start + boot_time + time_limit * 60) div resolution * resolution)"

text \<open>The table of a cycle has one record more than the configured size.\<close>

definition roomy :: "nat \<Rightarrow> node_space_map list \<Rightarrow> nat \<Rightarrow> bool" where
  "roomy space tbl recs \<longleftrightarrow> length tbl = space + 1 \<and> recs \<le> space + 1"

text \<open>
  What a job takes of the plan: from \<open>bk_from\<close> up to \<open>bk_to\<close>, for at least one unit of
  the resolution. The overlap test, where the scheduler makes it, ends at the rounded
  end of the job, \<open>bk_end\<close>, which is earlier for a job that is shorter than a unit.
\<close>

record booking =
  bk_tested :: bool
  bk_from :: int
  bk_end :: int
  bk_to :: int
  bk_nodes :: "nat set"

text \<open>
  Jobs that are planned one after the other, from a given plan on, and what each
  takes, the last first: jobs of any length, also those that the scheduler does
  not test, because they could start now or wait for a burst buffer. Times are
  below the end of 32 bits: the source adds a unit to a start in 32 bits.
\<close>

inductive planned :: "nat \<Rightarrow> nat \<Rightarrow> u32 \<Rightarrow> node_space_map list \<Rightarrow> nat \<Rightarrow> booking list \<Rightarrow> node_space_map list \<Rightarrow> nat \<Rightarrow> bool"
  for n space resolution tbl0 recs0 where
  nothing: "planned n space resolution tbl0 recs0 [] tbl0 recs0"
| skipped: "planned n space resolution tbl0 recs0 taken tbl recs \<Longrightarrow>
    plan_job space resolution future wanted avail job job_start boot_time time_limit tbl recs = Some (tbl', recs', False) \<Longrightarrow>
    planned n space resolution tbl0 recs0 taken tbl' recs'"
| reserved: "planned n space resolution tbl0 recs0 taken tbl recs \<Longrightarrow>
    plan_job space resolution future wanted avail job job_start boot_time time_limit tbl recs = Some (tbl', recs', True) \<Longrightarrow>
    wf_bitstr avail \<Longrightarrow> bs_bits avail = n \<Longrightarrow>
    s = planned_from tbl resolution job_start \<Longrightarrow> e = planned_to resolution job_start boot_time time_limit \<Longrightarrow>
    s + uint resolution < 4294967296 \<Longrightarrow>
    planned n space resolution tbl0 recs0
      (\<lparr>bk_tested = future, bk_from = s, bk_end = e, bk_to = max e (s + uint resolution), bk_nodes = bset avail\<rparr> # taken) tbl' recs'"

lemma plan_job_cases:
  assumes "plan_job space resolution future wanted avail job job_start boot_time time_limit tbl recs = Some (tbl', recs', made)"
  shows "(\<not> made \<and> tbl' = tbl \<and> recs' = recs) \<or>
    (made \<and> recs < space \<and> wanted
     \<and> (future \<longrightarrow> test_resv_overlap tbl avail job (job_start div resolution * resolution)
          ((job_start + boot_time + time_limit * 60) div resolution * resolution) = Some False)
     \<and> add_reservation resolution (job_start div resolution * resolution)
          ((job_start + boot_time + time_limit * 60) div resolution * resolution) (Some (bit_not avail)) job tbl recs = Some (tbl', recs'))"
  using assms by (auto simp: plan_job_def Let_def bind_eq_Some_conv split: if_splits)

lemma free_nodes_less:
  assumes "valid_plan n tbl recs" "free_nodes tbl t = Some N"
  shows "N \<subseteq> {..<n}"
proof -
  obtain r where r: "find (covers t) (plan tbl) = Some r" "N = nodes_of r" using assms(2) by (auto simp: free_nodes_def at_def)
  obtain lic js where "linked n lic tbl recs js" using assms(1) by (auto simp: valid_plan_def)
  then have "has_nodes n r" using plan_has_nodes r(1) by (fastforce simp: find_Some_iff)
  then show ?thesis using bset_less r(2) by (auto simp: has_nodes_def nodes_of_def)
qed

lemma reserve_step:
  assumes "valid_plan n tbl recs" "roomy space tbl recs" "recs < space" "wf_bitstr avail" "bs_bits avail = n"
    and "s = max (uint start) (begin_time (tbl ! 0))" "s + uint resolution < 4294967296" "e = max (uint end_r) (s + uint resolution)"
  shows "\<exists>tbl' recs'. add_reservation resolution start end_r (Some (bit_not avail)) job tbl recs = Some (tbl', recs')
    \<and> valid_plan n tbl' recs' \<and> roomy space tbl' recs' \<and> recs' \<le> recs + 2 \<and> begin_time (tbl' ! 0) = begin_time (tbl ! 0)
    \<and> (\<forall>t. free_nodes tbl' t = (if s \<le> t \<and> t < e then map_option (\<lambda>N. N - bset avail) (free_nodes tbl t) else free_nodes tbl t))"
proof -
  have b: "wf_bitstr (bit_not avail)" "bs_bits (bit_not avail) = n" "bset (bit_not avail) = {..<n} - bset avail"
    using assms(4,5) bit_not_correct by auto
  have "recs + 2 \<le> length tbl" using assms(2,3) by (simp add: roomy_def)
  from reservation_nodes [OF assms(1) b(1,2) this assms(6-8), of job] obtain tbl' recs' where
    r: "add_reservation resolution start end_r (Some (bit_not avail)) job tbl recs = Some (tbl', recs')" "valid_plan n tbl' recs'"
      "length tbl' = length tbl" "recs' \<le> recs + 2" "begin_time (tbl' ! 0) = begin_time (tbl ! 0)"
      "\<forall>t. free_nodes tbl' t = (if s \<le> t \<and> t < e then map_option (\<lambda>N. N \<inter> bset (bit_not avail)) (free_nodes tbl t) else free_nodes tbl t)"
    by blast
  have "map_option (\<lambda>N. N \<inter> bset (bit_not avail)) (free_nodes tbl t) = map_option (\<lambda>N. N - bset avail) (free_nodes tbl t)" for t
    using free_nodes_less [OF assms(1), of t] b(3) by (cases "free_nodes tbl t") auto
  then have "\<forall>t. free_nodes tbl' t = (if s \<le> t \<and> t < e then map_option (\<lambda>N. N - bset avail) (free_nodes tbl t) else free_nodes tbl t)"
    using r(6) by presburger
  moreover have "roomy space tbl' recs'" using r(3,4) assms(2,3) by (simp add: roomy_def)
  ultimately show ?thesis using r(1,2,4,5) by blast
qed

text \<open>
  The nodes that are taken at a time; and that no job takes what is not free or what
  an earlier job has taken, at any time that its test covers.
\<close>

fun taken_at :: "booking list \<Rightarrow> int \<Rightarrow> nat set" where
  "taken_at [] t = {}"
| "taken_at (b # bs) t = (if bk_from b \<le> t \<and> t < bk_to b then bk_nodes b else {}) \<union> taken_at bs t"

fun no_double_booking :: "(int \<Rightarrow> nat set option) \<Rightarrow> booking list \<Rightarrow> bool" where
  "no_double_booking fr [] \<longleftrightarrow> True"
| "no_double_booking fr (b # bs) \<longleftrightarrow>
     (\<forall>t F. bk_tested b \<longrightarrow> bk_from b \<le> t \<longrightarrow> t < bk_end b \<longrightarrow> fr t = Some F \<longrightarrow> bk_nodes b \<subseteq> F - taken_at bs t)
     \<and> no_double_booking fr bs"

lemma planned_step:
  assumes "valid_plan n tbl recs" "roomy space tbl recs"
    and "plan_job space resolution future wanted avail job job_start boot_time time_limit tbl recs = Some (tbl', recs', True)"
    and "wf_bitstr avail" "bs_bits avail = n"
    and "s = planned_from tbl resolution job_start" "e = planned_to resolution job_start boot_time time_limit"
    and "s + uint resolution < 4294967296"
  shows "valid_plan n tbl' recs' \<and> roomy space tbl' recs' \<and> begin_time (tbl' ! 0) = begin_time (tbl ! 0)
    \<and> (\<forall>t. free_nodes tbl' t = (if s \<le> t \<and> t < max e (s + uint resolution)
            then map_option (\<lambda>N. N - bset avail) (free_nodes tbl t) else free_nodes tbl t))
    \<and> (\<forall>t N. future \<longrightarrow> s \<le> t \<longrightarrow> t < e \<longrightarrow> free_nodes tbl t = Some N \<longrightarrow> bset avail \<subseteq> N)"
proof -
  define st where "st = job_start div resolution * resolution"
  define en where "en = (job_start + boot_time + time_limit * 60) div resolution * resolution"
  have p: "recs < space" "future \<longrightarrow> test_resv_overlap tbl avail job st en = Some False"
    "add_reservation resolution st en (Some (bit_not avail)) job tbl recs = Some (tbl', recs')"
    using plan_job_cases [OF assms(3)] by (simp_all add: st_def en_def)
  have s: "s = max (uint st) (begin_time (tbl ! 0))" "e = uint en" using assms(6,7)
    by (simp_all add: st_def en_def planned_from_def planned_to_def)
  from reserve_step [OF assms(1,2) p(1) assms(4,5) s(1) assms(8) refl, of en job]
  have "valid_plan n tbl' recs' \<and> roomy space tbl' recs' \<and> begin_time (tbl' ! 0) = begin_time (tbl ! 0)
    \<and> (\<forall>t. free_nodes tbl' t = (if s \<le> t \<and> t < max e (s + uint resolution)
            then map_option (\<lambda>N. N - bset avail) (free_nodes tbl t) else free_nodes tbl t))"
    unfolding p(3) s(2) by (elim exE conjE) simp
  moreover have "bset avail \<subseteq> N" if "future" "s \<le> t" "t < e" "free_nodes tbl t = Some N" for t N
    by (rule no_overlap_free [OF assms(1,4,5) _ _ _ that(4)]) (use that p(2) s in auto)
  ultimately show ?thesis by blast
qed

lemma planned_invariant:
  assumes "planned n space resolution tbl0 recs0 taken tbl recs" "valid_plan n tbl0 recs0" "roomy space tbl0 recs0"
  shows "valid_plan n tbl recs \<and> roomy space tbl recs \<and> begin_time (tbl ! 0) = begin_time (tbl0 ! 0)
    \<and> (\<forall>t. free_nodes tbl t = map_option (\<lambda>N. N - taken_at taken t) (free_nodes tbl0 t)) \<and> no_double_booking (free_nodes tbl0) taken
    \<and> (\<forall>b \<in> set taken. bk_to b = max (bk_end b) (bk_from b + uint resolution))"
  using assms
proof (induction rule: planned.induct)
  case nothing
  then show ?case by (simp add: option.map_ident)
next
  case (skipped taken tbl recs future wanted avail job job_start boot_time time_limit tbl' recs')
  then show ?case using plan_job_cases [OF skipped.hyps(2)] by simp
next
  case (reserved taken tbl recs future wanted avail job job_start boot_time time_limit tbl' recs' s e)
  have I: "valid_plan n tbl recs" "roomy space tbl recs" "begin_time (tbl ! 0) = begin_time (tbl0 ! 0)"
    "\<And>t. free_nodes tbl t = map_option (\<lambda>N. N - taken_at taken t) (free_nodes tbl0 t)" "no_double_booking (free_nodes tbl0) taken"
    "\<forall>b \<in> set taken. bk_to b = max (bk_end b) (bk_from b + uint resolution)"
    using reserved.IH reserved.prems by simp_all
  note st = planned_step [OF I(1,2) reserved.hyps(2-7)]
  let ?b = "\<lparr>bk_tested = future, bk_from = s, bk_end = e, bk_to = max e (s + uint resolution), bk_nodes = bset avail\<rparr>"
  have "free_nodes tbl' t = map_option (\<lambda>N. N - taken_at (?b # taken) t) (free_nodes tbl0 t)" for t
    using st I(4) [of t] by (cases "free_nodes tbl0 t") auto
  moreover have "bset avail \<subseteq> F - taken_at taken t" if "future" "s \<le> t" "t < e" "free_nodes tbl0 t = Some F" for t F
    using st I(4) [of t] that by simp
  ultimately show ?case using st I(3,5,6) by simp
qed

end
