(* ===== verification/Backfill_Plan.thy ===== *)
theory Backfill_Plan
  imports Backfill_Props
begin

text \<open>
  The plan over a cycle of the scheduler: where it starts, what jobs take of it
  and what a reservation does to nodes and licenses at every point in time.
\<close>

subsection \<open>The initial table\<close>

lemma initial_plan:
  "plan (initial_table space sched_start window resolution avail rs lics) = [row (initial_table space sched_start window resolution avail rs lics) 0]"
  by (simp add: plan_def initial_table_def)

lemma initial_table_valid:
  assumes "wf_bitstr avail" "wf_bitstr rs" "bs_bits avail = n" "bs_bits rs = n"
    and "b = sched_start sdiv resolution * resolution" "e = (sched_start + window) sdiv resolution * resolution"
    and "0 \<le> b" "b \<le> e" "b < 4294967296"
  shows "valid_plan n (initial_table space sched_start window resolution avail rs lics) 1
    \<and> roomy space (initial_table space sched_start window resolution avail rs lics) 1
    \<and> (\<forall>t. free_nodes (initial_table space sched_start window resolution avail rs lics) t =
         (if b \<le> t \<and> t < e then Some (bset avail \<union> bset rs) else None))"
proof -
  let ?tbl = "initial_table space sched_start window resolution avail rs lics"
  let ?bm = "bit_or (bit_copy avail) rs"
  have bm: "wf_bitstr ?bm" "bs_bits ?bm = n" "bset ?bm = bset avail \<union> bset rs"
    using assms(1-4) bset_less [of _ rs] by (auto simp: bit_copy_eq boolean_ops_facts bset_boolean_ops)
  have l: "linked n (lics \<noteq> None) ?tbl 1 [0]" using bm by (simp add: linked_def initial_table_def has_nodes_def)
  note p = initial_plan [of space sched_start window resolution avail rs lics]
  have f: "begin_time (?tbl ! 0) = b" "end_time (?tbl ! 0) = e" "avail_bitmap (?tbl ! 0) = Some ?bm" "length ?tbl = space + 1"
    using assms(5,6) by (simp_all add: initial_table_def)
  show ?thesis
  proof (intro conjI allI)
    show "valid_plan n ?tbl 1" unfolding valid_plan_def p f(1) using l assms(7-9) by (auto simp: f)
    show "roomy space ?tbl 1" using f(4) by (simp add: roomy_def)
    show "free_nodes ?tbl t = (if b \<le> t \<and> t < e then Some (bset avail \<union> bset rs) else None)" for t
      unfolding free_nodes_def p using bm(3) by (simp add: covers_def f nodes_of_def)
  qed
qed

subsection \<open>Planning a job\<close>

lemma plan_job_total:
  assumes "valid_plan n tbl recs" "roomy space tbl recs" "wf_bitstr avail" "bs_bits avail = n"
    and "planned_from tbl resolution job_start + uint resolution < 4294967296"
  shows "\<exists>tbl' recs' made. plan_job space resolution future wanted avail job job_start boot_time time_limit tbl recs = Some (tbl', recs', made)
    \<and> valid_plan n tbl' recs' \<and> roomy space tbl' recs'
    \<and> (made \<longleftrightarrow> recs < space \<and> wanted \<and> (future \<longrightarrow> (\<forall>r \<in> set (plan tbl).
          \<not> clashes (uint (job_start div resolution * resolution)) (planned_to resolution job_start boot_time time_limit) (bset avail) job r)))"
proof -
  define st where "st = job_start div resolution * resolution"
  define en where "en = (job_start + boot_time + time_limit * 60) div resolution * resolution"
  define ov where "ov = (future \<and> (\<exists>r \<in> set (plan tbl). clashes (uint st) (uint en) (bset avail) job r))"
  have t: "(if future then test_resv_overlap tbl avail job st en else Some False) = Some ov"
    using test_resv_overlap_spec [OF assms(1,3,4), of job st en] by (simp add: ov_def)
  have e: "planned_to resolution job_start boot_time time_limit = uint en" by (simp add: planned_to_def en_def)
  have p: "plan_job space resolution future wanted avail job job_start boot_time time_limit tbl recs =
      (if ov \<or> \<not> wanted \<or> space \<le> recs then Some (tbl, recs, False)
       else map_option (\<lambda>(tbl, recs). (tbl, recs, True)) (add_reservation resolution st en (Some (bit_not avail)) job tbl recs))"
    unfolding plan_job_def Let_def st_def [symmetric] en_def [symmetric] t by simp
  show ?thesis
  proof (cases "ov \<or> \<not> wanted \<or> space \<le> recs")
    case True
    then show ?thesis unfolding p e st_def [symmetric] using assms(1,2) by (auto simp: ov_def not_le)
  next
    case False
    from reserve_step [OF assms(1,2) _ assms(3,4), of "planned_from tbl resolution job_start" st resolution
        "max (uint en) (planned_from tbl resolution job_start + uint resolution)" en job] obtain tbl' recs' where
      "add_reservation resolution st en (Some (bit_not avail)) job tbl recs = Some (tbl', recs')" "valid_plan n tbl' recs'"
      "roomy space tbl' recs'" using False assms(5) by (auto simp: planned_from_def st_def not_le)
    then show ?thesis unfolding p e st_def [symmetric] using False by (auto simp: ov_def)
  qed
qed

subsection \<open>A sample\<close>

definition sample_lic :: license_job where
  "sample_lic = \<lparr>job_licenses = None, license_list = None, job_resv = 0\<rparr>"

definition sample_table :: "node_space_map list" where
  "sample_table = initial_table 4 6000 6000 60 (bit_nset (bit_alloc 4) 0 2) (bit_set (bit_alloc 4) 3) None"

definition sample_nodes :: bitstr where
  "sample_nodes = bit_nset (bit_alloc 4) 0 1"

lemma size_four [simp]: "valid_size 4" "wf_bitstr (bit_alloc 4)" "bset (bit_alloc 4) = {}" "bs_bits (bit_alloc 4) = 4"
proof -
  show v: "valid_size 4" by (simp add: valid_size_def)
  show "wf_bitstr (bit_alloc 4)" "bset (bit_alloc 4) = {}" "bs_bits (bit_alloc 4) = 4"
    using wf_bit_alloc [OF v] bset_alloc [OF v] by simp_all
qed

lemma sample_nodes_ok [simp]: "wf_bitstr sample_nodes" "bs_bits sample_nodes = 4" "bset sample_nodes = {0, 1}"
proof -
  have "{0..1} = {0, 1::nat}" by auto
  then show "wf_bitstr sample_nodes" "bs_bits sample_nodes = 4" "bset sample_nodes = {0, 1}"
    using bit_nset_correct [of "bit_alloc 4" 0 1] by (simp_all add: sample_nodes_def bit_valid_def)
qed

lemma sample_initial:
  fixes lics space
  defines "tbl \<equiv> initial_table space 6000 6000 60 (bit_nset (bit_alloc 4) 0 2) (bit_set (bit_alloc 4) 3) lics"
  shows "valid_plan 4 tbl 1" "roomy space tbl 1" "begin_time (tbl ! 0) = 6000"
    "free_nodes tbl t = (if 6000 \<le> t \<and> t < 12000 then Some {0..3} else None)"
proof -
  have a: "wf_bitstr (bit_nset (bit_alloc 4) 0 2)" "bs_bits (bit_nset (bit_alloc 4) 0 2) = 4" "bset (bit_nset (bit_alloc 4) 0 2) = {0..2}"
    using bit_nset_correct [of "bit_alloc 4" 0 2] by (simp_all add: bit_valid_def)
  have b: "wf_bitstr (bit_set (bit_alloc 4) 3)" "bs_bits (bit_set (bit_alloc 4) 3) = 4" "bset (bit_set (bit_alloc 4) 3) = {3}"
    using bset_bit_set [of "bit_alloc 4" 3] by (simp_all add: bit_valid_def)
  have n: "bset (bit_nset (bit_alloc 4) 0 2) \<union> bset (bit_set (bit_alloc 4) 3) = {0..3}" using a(3) b(3) by auto
  have d: "6000 = (6000::int) sdiv 60 * 60" "12000 = (6000 + 6000::int) sdiv 60 * 60" by code_simp+
  note i = initial_table_valid [OF a(1) b(1) a(2) b(2) d, of space lics, folded tbl_def, unfolded n]
  show "valid_plan 4 tbl 1" "roomy space tbl 1" "free_nodes tbl t = (if 6000 \<le> t \<and> t < 12000 then Some {0..3} else None)"
    using i by simp_all
  show "begin_time (tbl ! 0) = 6000" using d(1) by (simp add: tbl_def initial_table_def)
qed

lemmas sample_table_ok = sample_initial [of 4 None, folded sample_table_def]

lemma sample_plan_free:
  assumes "r \<in> set (plan sample_table)"
  shows "nodes_of r = {0..3}" "ns_licenses r = None"
proof -
  have r: "r = row sample_table 0" and p: "plan sample_table = [row sample_table 0]"
    using assms by (simp_all add: sample_table_def initial_plan)
  show "ns_licenses r = None" by (simp add: r sample_table_def initial_table_def)
  have "end_time (sample_table ! 0) = 12000" "begin_time (sample_table ! 0) = 6000"
    unfolding sample_table_def initial_table_def by code_simp+
  then have "covers 7000 r" by (simp add: r covers_def)
  then show "nodes_of r = {0..3}" using sample_table_ok(4) [of 7000] p r by (simp add: free_nodes_def)
qed

lemma sample_times:
  "planned_from sample_table 60 7000 = 6960" "planned_to 60 7000 0 30 = 8760" "uint (60::u32) = 60"
proof -
  have "(7000::u32) div 60 * 60 = 6960" "((7000::u32) + 0 + 30 * 60) div 60 * 60 = 8760" by code_simp+
  then show "planned_from sample_table 60 7000 = 6960" "planned_to 60 7000 0 30 = 8760" "uint (60::u32) = 60"
    by (simp_all add: planned_from_def planned_to_def sample_table_ok(3))
qed

text \<open>C7: Whatever jobs are planned one after the other, a job that the scheduler
  tests for overlaps (its start lies in the future, and it does not wait for a
  burst buffer) takes, at every time from its start up to its rounded end, no
  node that is not free at the time in the plan the cycle started with, or that
  a job before it has taken. Every job takes its nodes up to its rounded end, but
  for at least one unit of the resolution; the plan shows as free exactly what was
  free at first and no job has taken. So nodes are booked twice only by a job that
  is not tested, or between the rounded end of a job and the end of its first unit,
  for a job that is shorter than that: the source tests it only up to its rounded
  end (and such jobs do book nodes twice, see \<open>short_job_double_books\<close>). The rounded
  end is computed in 32 bits, as in the source; starts are at least a unit below
  the largest time of 32 bits.\<close>

theorem plan_never_double_books:
  assumes "planned n space resolution tbl0 recs0 taken tbl recs" "valid_plan n tbl0 recs0" "roomy space tbl0 recs0"
  shows "no_double_booking (free_nodes tbl0) taken
    \<and> (\<forall>b \<in> set taken. bk_to b = max (bk_end b) (bk_from b + uint resolution))
    \<and> (\<forall>t. free_nodes tbl t = map_option (\<lambda>N. N - taken_at taken t) (free_nodes tbl0 t))"
  using planned_invariant [OF assms] by simp

lemma sample_job:
  "\<exists>tbl recs. plan_job 4 60 True True sample_nodes sample_lic 7000 0 30 sample_table 1 = Some (tbl, recs, True)"
proof -
  have "\<not> clashes (uint ((7000::u32) div 60 * 60)) (planned_to 60 7000 0 30) (bset sample_nodes) sample_lic r"
    if "r \<in> set (plan sample_table)" for r
    using sample_plan_free [OF that] by (simp add: clashes_def bf_licenses_avail_def)
  then show ?thesis using plan_job_total [OF sample_table_ok(1,2) sample_nodes_ok(1,2), of 60 7000 True True sample_lic 0 30]
    by (auto simp: sample_times)
qed

theorem plan_never_double_books_witness:
  "\<exists>tbl recs. planned 4 4 60 sample_table 1
       [\<lparr>bk_tested = True, bk_from = 6960, bk_end = 8760, bk_to = 8760, bk_nodes = {0, 1}\<rparr>] tbl recs
    \<and> free_nodes tbl 7000 = Some {2, 3} \<and> free_nodes tbl 9000 = Some {0..3}"
proof -
  obtain tbl recs where j: "plan_job 4 60 True True sample_nodes sample_lic 7000 0 30 sample_table 1 = Some (tbl, recs, True)"
    using sample_job by blast
  have p: "planned 4 4 60 sample_table 1
      [\<lparr>bk_tested = True, bk_from = 6960, bk_end = 8760, bk_to = 8760, bk_nodes = {0, 1}\<rparr>] tbl recs"
    using planned.reserved [OF planned.nothing j sample_nodes_ok(1,2)] by (simp add: sample_times)
  have "{0..3} - {0, 1} = {2, 3::nat}" by auto
  then show ?thesis using p plan_never_double_books [OF p sample_table_ok(1,2)] by (auto simp: sample_table_ok(4))
qed

text \<open>C36: Planning a job always returns, with a well formed plan that fits the table,
  and makes a reservation exactly if the table has room, a reservation is wanted
  and, for a start in the future, no interval that the job overlaps misses a node
  or a license that it needs.\<close>

theorem plan_job_decides:
  assumes "valid_plan n tbl recs" "roomy space tbl recs" "wf_bitstr avail" "bs_bits avail = n"
    and "planned_from tbl resolution job_start + uint resolution < 4294967296"
  shows "\<exists>tbl' recs' made. plan_job space resolution future wanted avail job job_start boot_time time_limit tbl recs = Some (tbl', recs', made)
    \<and> valid_plan n tbl' recs' \<and> roomy space tbl' recs'
    \<and> (made \<longleftrightarrow> recs < space \<and> wanted \<and> (future \<longrightarrow> (\<forall>r \<in> set (plan tbl).
          \<not> clashes (uint (job_start div resolution * resolution)) (planned_to resolution job_start boot_time time_limit) (bset avail) job r)))"
  by (rule plan_job_total [OF assms])

theorem plan_job_decides_witness:
  "\<exists>tbl' recs'. plan_job 4 60 True False sample_nodes sample_lic 7000 0 30 sample_table 1 = Some (tbl', recs', False)"
  using plan_job_decides [OF sample_table_ok(1,2) sample_nodes_ok(1,2), of 60 7000 True False sample_lic 0 30]
  by (auto simp: sample_times)

subsection \<open>Licenses of the plan\<close>

text \<open>Intervals whose license counts are those of the cluster, none reserved, with the names of the list.\<close>

definition counted :: "string list \<Rightarrow> node_space_map \<Rightarrow> bool" where
  "counted names r \<longleftrightarrow> (\<exists>bl. ns_licenses r = Some bl \<and> map bl_name bl = names \<and> (\<forall>b \<in> set bl. bl_resv b = 0))"

lemma update_first_names:
  assumes "\<And>x. g (f x) = g x"
  shows "map g (update_first P f xs) = map g xs"
  using assms by (induction xs) auto

lemma update_first_all: "\<forall>x \<in> set xs. Q x \<Longrightarrow> (\<And>x. Q x \<Longrightarrow> Q (f x)) \<Longrightarrow> \<forall>x \<in> set (update_first P f xs). Q x"
  by (induction xs) auto

lemma deduct_global_counted:
  "map bl_name (deduct_global name k bl) = map bl_name bl" "\<forall>b \<in> set bl. bl_resv b = 0 \<Longrightarrow> \<forall>b \<in> set (deduct_global name k bl). bl_resv b = 0"
  unfolding deduct_global_def by (rule update_first_names, simp, rule update_first_all, simp_all)

lemma deduct_one_global:
  assumes "\<forall>b \<in> set bl. bl_resv b = 0"
  shows "deduct_one resv bl e = deduct_global (l_name e) (l_total e) bl"
proof -
  have "find (bf_find_resv resv (l_name e)) bl = None" if "resv \<noteq> 0"
    using assms that by (auto simp: find_None_iff bf_find_resv_def)
  then show ?thesis by (simp add: deduct_one_def)
qed

lemma deduct_counted:
  "\<forall>b \<in> set bl. bl_resv b = 0 \<Longrightarrow> map bl_name (foldl (deduct_one resv) bl es) = map bl_name bl \<and> (\<forall>b \<in> set (foldl (deduct_one resv) bl es). bl_resv b = 0)"
proof (induction es arbitrary: bl)
  case (Cons e es)
  note d = deduct_one_global [OF Cons.prems, of resv e]
  have "\<forall>b \<in> set (deduct_one resv bl e). bl_resv b = 0" "map bl_name (deduct_one resv bl e) = map bl_name bl"
    unfolding d by (rule deduct_global_counted(2) [OF Cons.prems], rule deduct_global_counted(1))
  then show ?case using Cons.IH [of "deduct_one resv bl e"] by simp
qed simp

lemma usage_counted: "counted names r \<Longrightarrow> counted names (usage (Some b) job r)"
proof -
  assume "counted names r"
  then obtain bl where bl: "ns_licenses r = Some bl" "map bl_name bl = names" "\<forall>b \<in> set bl. bl_resv b = 0" by (auto simp: counted_def)
  show ?thesis
  proof (cases "license_list job")
    case None
    then show ?thesis using bl by (simp add: counted_def usage_def bf_licenses_deduct_def)
  next
    case (Some es)
    then show ?thesis using bl(1,2) deduct_counted [OF bl(3), of "job_resv job" es] by (simp add: counted_def usage_def bf_licenses_deduct_def)
  qed
qed

text \<open>Lists with the same distinct names that the comparison takes for equal are equal.\<close>

lemma bf_licenses_equal_counted:
  assumes "map bl_name xs = map bl_name ys" "distinct (map bl_name ys)" "\<forall>b \<in> set xs. bl_resv b = 0" "\<forall>b \<in> set ys. bl_resv b = 0"
    "bf_licenses_equal (Some xs) (Some ys) = Some True"
  shows "xs = ys"
proof (cases "xs = []")
  case False
  have len: "length xs = length ys" using assms(1) by (metis length_map)
  show ?thesis
  proof (rule nth_equalityI [OF len])
    fix i
    assume i: "i < length xs"
    then have iy: "i < length ys" using len by simp
    have n: "bl_name (xs ! i) = bl_name (ys ! i)" using assms(1) i iy by (metis nth_map)
    have "find (bf_find_rec (bl_name (xs ! i))) ys = Some (ys ! i)"
      unfolding find_Some_iff
    proof (intro exI [of _ i] conjI allI impI)
      fix k
      assume "k < i"
      then have "bl_name (ys ! k) \<noteq> bl_name (ys ! i)" 
        using nth_eq_iff_index_eq [OF assms(2), of k i] iy by simp
      then show "\<not> bf_find_rec (bl_name (xs ! i)) (ys ! k)" using n by (simp add: bf_find_rec_def)
    qed (use iy n assms(4) in \<open>auto simp: bf_find_rec_def\<close>)
    moreover have "list_all (\<lambda>x. case find (bf_find_rec (bl_name x)) ys of
        None \<Rightarrow> False | Some y \<Rightarrow> bl_remaining x = bl_remaining y \<and> bl_resv x = bl_resv y) xs"
      using assms(5) False by (simp add: bf_licenses_equal_def)
    ultimately have "bl_remaining (xs ! i) = bl_remaining (ys ! i)" "bl_resv (xs ! i) = bl_resv (ys ! i)"
      using i by (auto simp: list_all_length)
    then show "xs ! i = ys ! i" using n by simp
  qed
qed (use assms(1) in simp)

lemma kept_licenses:
  assumes "distinct names"
  shows "kept (counted names) ns_licenses"
proof -
  have "ns_licenses r = ns_licenses q" if c: "counted names r" "counted names q" and sf: "same_free r q" for r q
  proof -
    obtain xs ys where x: "ns_licenses r = Some xs" "ns_licenses q = Some ys" "map bl_name xs = names" "map bl_name ys = names"
      "\<forall>b \<in> set xs. bl_resv b = 0" "\<forall>b \<in> set ys. bl_resv b = 0" using c by (auto simp: counted_def)
    then show ?thesis using sf bf_licenses_equal_counted [of xs ys] assms by (simp add: same_free_def)
  qed
  then show ?thesis by (auto simp: kept_def timeless_def counted_def)
qed

definition free_licenses :: "node_space_map list \<Rightarrow> int \<Rightarrow> bf_licenses option" where
  "free_licenses tbl t = at ns_licenses (plan tbl) t"

text \<open>C9: A reservation is entered exactly. Between its start, not before the start of
  the plan, and its end, at least one unit of the resolution later, the free nodes
  lose those that the bitmap excludes and the licenses those that the job asks for;
  at every other time both stay as they were, as long as no licenses are set aside
  for advance reservations. The table stays well linked, without gaps, and grows by
  two records at most.\<close>

theorem reservation_exact:
  assumes "valid_plan n tbl recs" "wf_bitstr b" "bs_bits b = n" "recs + 2 \<le> length tbl" "distinct names"
    and "\<forall>r \<in> set (plan tbl). counted names r"
    and "s = max (uint start) (begin_time (tbl ! 0))" "s + uint resolution < 4294967296" "e = max (uint end_r) (s + uint resolution)"
  shows "\<exists>tbl' recs'. add_reservation resolution start end_r (Some b) job tbl recs = Some (tbl', recs')
    \<and> valid_plan n tbl' recs' \<and> length tbl' = length tbl \<and> recs' \<le> recs + 2 \<and> (\<forall>r \<in> set (plan tbl'). counted names r)
    \<and> (\<forall>t. free_nodes tbl' t = (if s \<le> t \<and> t < e then map_option (\<lambda>N. N \<inter> bset b) (free_nodes tbl t) else free_nodes tbl t))
    \<and> (\<forall>t. free_licenses tbl' t =
         (if s \<le> t \<and> t < e then map_option (\<lambda>bl. bf_licenses_deduct bl job) (free_licenses tbl t) else free_licenses tbl t))"
proof -
  obtain lic js where l: "linked n lic tbl recs js" using assms(1) by (auto simp: valid_plan_def)
  have r: "res_ok n (Some b)" using assms(2,3) by (simp add: res_ok_def)
  have v: "contiguous (plan tbl)" "0 \<le> begin_time (tbl ! 0)" "begin_time (tbl ! 0) < 4294967296"
    using assms(1) by (simp_all add: valid_plan_def)
  have m: "at (\<lambda>r. ns_licenses (usage (Some b) job r)) (plan tbl) t
      = map_option (\<lambda>bl. bf_licenses_deduct bl job) (at ns_licenses (plan tbl) t)" for t
    unfolding at_comp [symmetric] by (simp add: usage_def)
  obtain tbl' recs' where t: "add_reservation resolution start end_r (Some b) job tbl recs = Some (tbl', recs')"
    "\<forall>r \<in> set (plan tbl'). counted names r"
    "\<forall>t. at ns_licenses (plan tbl') t =
       (if s \<le> t \<and> t < e then at (\<lambda>r. ns_licenses (usage (Some b) job r)) (plan tbl) t else at ns_licenses (plan tbl) t)"
    using add_reservation_at [OF l v(1) r assms(4) v(2,3) assms(7-9) kept_licenses [OF assms(5)] assms(6) usage_counted, of job] by auto
  show ?thesis using reservation_nodes [OF assms(1-4) assms(7-9), of job] t m by (auto simp: free_licenses_def)
qed

definition sample_fluent :: "u32 \<Rightarrow> bf_licenses" where
  "sample_fluent k = Some [\<lparr>bl_name = ''fluent'', bl_remaining = k, bl_resv = 0\<rparr>]"

definition sample_user :: license_job where
  "sample_user = \<lparr>job_licenses = Some ''fluent:4'', license_list = Some [new_license ''fluent'' 4], job_resv = 0\<rparr>"

definition sample_licensed :: "node_space_map list" where
  "sample_licensed = initial_table 4 6000 6000 60 (bit_nset (bit_alloc 4) 0 2) (bit_set (bit_alloc 4) 3) (sample_fluent 10)"

theorem reservation_exact_witness:
  "\<exists>tbl' recs'. add_reservation 60 7000 9000 (Some sample_nodes) sample_user sample_licensed 1 = Some (tbl', recs')
    \<and> free_nodes tbl' 8000 = Some {0, 1} \<and> free_nodes tbl' 9000 = Some {0..3}
    \<and> free_licenses tbl' 8000 = Some (sample_fluent 6) \<and> free_licenses tbl' 9000 = Some (sample_fluent 10)"
proof -
  note i = sample_initial [of 4 "sample_fluent 10", folded sample_licensed_def]
  have p: "plan sample_licensed = [row sample_licensed 0]" by (simp add: sample_licensed_def initial_plan)
  have f: "ns_licenses (sample_licensed ! 0) = sample_fluent 10" by (simp add: sample_licensed_def initial_table_def)
  have e: "end_time (sample_licensed ! 0) = 12000" unfolding sample_licensed_def initial_table_def by code_simp
  have c: "\<forall>r \<in> set (plan sample_licensed). counted [''fluent''] r" by (simp add: p counted_def f sample_fluent_def)
  have d: "distinct [''fluent'']" by simp
  have l: "free_licenses sample_licensed t = (if 6000 \<le> t \<and> t < 12000 then Some (sample_fluent 10) else None)" for t
    by (simp add: free_licenses_def p covers_def i(3) e f)
  have u: "bf_licenses_deduct (sample_fluent 10) sample_user = sample_fluent 6" by code_simp
  have s: "7000 = max (uint (7000::u32)) (begin_time (sample_licensed ! 0))" "7000 + uint (60::u32) < 4294967296"
    "9000 = max (uint (9000::u32)) (7000 + uint (60::u32))" using i(3) by simp_all
  have r: "1 + 2 \<le> length sample_licensed" using i(2) by (simp add: roomy_def)
  have n: "{0..3} \<inter> {0, 1} = {0, 1::nat}" by auto
  from reservation_exact [OF i(1) sample_nodes_ok(1,2) r d c s, of sample_user] show ?thesis
    unfolding l i(4) using u n by fastforce
qed

subsection \<open>Where the plan goes wrong\<close>

lemma contiguous_begin: "contiguous rs \<Longrightarrow> r \<in> set rs \<Longrightarrow> begin_time (hd rs) \<le> begin_time r"
proof (induction rs)
  case (Cons q rs)
  show ?case
  proof (cases "r = q")
    case False
    then have "r \<in> set rs" "rs \<noteq> []" using Cons.prems(2) by auto
    then show ?thesis using Cons.IH Cons.prems(1) by simp
  qed simp
qed simp

lemma plan_begin: "valid_plan n tbl recs \<Longrightarrow> r \<in> set (plan tbl) \<Longrightarrow> begin_time (tbl ! 0) \<le> begin_time r"
proof -
  assume v: "valid_plan n tbl recs" "r \<in> set (plan tbl)"
  then obtain lic js where l: "linked n lic tbl recs js" by (auto simp: valid_plan_def)
  obtain ks where "js = 0 # ks" using linked_hd [OF l] by blast
  then show ?thesis using contiguous_begin [of "plan tbl" r] v plan_linked [OF l] by (simp add: valid_plan_def)
qed

text \<open>A job whose end is rounded down to its rounded start is compared with no
  interval when one begins there, yet it takes its nodes for a whole unit of the
  resolution: it is planned on nodes that are taken.\<close>

lemma short_job_double_books:
  assumes "valid_plan n tbl recs" "roomy space tbl recs" "recs < space" "wf_bitstr avail" "bs_bits avail = n"
    and "start = job_start div resolution * resolution" "planned_to resolution job_start boot_time time_limit = uint start"
    and "\<forall>r \<in> set (plan tbl). begin_time r < uint start \<longrightarrow> end_time r \<le> uint start"
    and "planned_from tbl resolution job_start + uint resolution < 4294967296"
  shows "\<exists>tbl' recs'. plan_job space resolution True True avail job job_start boot_time time_limit tbl recs = Some (tbl', recs', True)"
proof -
  have "\<forall>r \<in> set (plan tbl). \<not> clashes (uint start) (uint start) (bset avail) job r" using assms(8) by (auto simp: clashes_def)
  then show ?thesis
    using plan_job_total [OF assms(1,2,4,5,9), of True True job boot_time time_limit] assms(3,6,7) by auto
qed

text \<open>Two neighbouring intervals with the same free nodes and the same licenses of
  the cluster are merged into the first even where only the second has licenses
  set aside for a reservation: the comparison looks up each license of the first
  in the second, not the other way round. What was set aside is lost.\<close>

lemma merge_forgets_reserved:
  assumes "i < length tbl" "j = ns_next (tbl ! i)" "j \<noteq> 0" "j < length tbl" "int i \<noteq> one_after"
    and "avail_bitmap (tbl ! i) = Some b" "avail_bitmap (tbl ! j) = Some b" "wf_bitstr b"
    and "ns_licenses (tbl ! i) = Some xs" "ns_licenses (tbl ! j) = Some (reserved @ xs)"
    and "\<forall>r \<in> set reserved. bl_resv r \<noteq> 0" "\<forall>x \<in> set xs. bl_resv x = 0" "distinct (map bl_name xs)"
  shows "drop_loop one_after tbl i = Some (tbl[i := (tbl ! i)\<lparr>end_time := end_time (tbl ! j), ns_next := ns_next (tbl ! j)\<rparr>,
    j := (tbl ! j)\<lparr>avail_bitmap := None, ns_licenses := None\<rparr>])"
proof -
  have "find (bf_find_rec (bl_name x)) (reserved @ xs) = Some x" if "x \<in> set xs" for x
  proof -
    have "find (bf_find_rec (bl_name x)) (reserved @ xs) = find (bf_find_rec (bl_name x)) xs"
      using assms(11) by (induction reserved) (auto simp: bf_find_rec_def)
    moreover have "find (bf_find_rec (bl_name x)) xs = Some x"
      using that assms(12,13) by (induction xs) (auto simp: bf_find_rec_def)
    ultimately show ?thesis by simp
  qed
  then have "bf_licenses_equal (Some xs) (Some (reserved @ xs)) = Some True"
    by (simp add: bf_licenses_equal_def list_all_iff)
  moreover have "bit_equal b b" using bit_equal_correct [OF assms(8,8)] by simp
  ultimately show ?thesis
    by (subst drop_loop.simps) (use assms(1-7,9,10) in \<open>simp add: fetch_def put_rec_def Let_def\<close>)
qed

definition sample_row :: "int \<Rightarrow> int \<Rightarrow> bf_license list \<Rightarrow> nat \<Rightarrow> node_space_map" where
  "sample_row b e bl k = \<lparr>begin_time = b, end_time = e, avail_bitmap = Some sample_nodes, ns_licenses = Some bl, ns_next = k\<rparr>"

definition sample_half :: "nat \<Rightarrow> bf_license" where
  "sample_half resv = \<lparr>bl_name = ''fluent'', bl_remaining = 5, bl_resv = resv\<rparr>"

text \<open>The licenses of advance reservations are entered without a look at the
  room that is left: in a full table, a reservation that is always active runs
  over the end of the array.\<close>

lemma reserved_licenses_overrun:
  assumes "valid_plan n tbl (length tbl)" "license_list job \<noteq> None" "begin_time (tbl ! 0) \<le> resv_end"
    "begin_time (tbl ! 0) < end_time (tbl ! 0)"
  shows "bf_reserve_resv_licenses resolution True resv_start resv_end job tbl (length tbl) = None"
proof -
  obtain lic js where l: "linked n lic tbl (length tbl) js" using assms(1) by (auto simp: valid_plan_def)
  obtain ks where ks: "js = 0 # ks" using linked_hd [OF l] by blast
  then have z: "fetch tbl 0 = Some (tbl ! 0)" "has_nodes n (tbl ! 0)" using l linked_at [of n lic tbl "length tbl" "[]" 0 ks] by simp_all
  have b: "uint (of_int (max 0 (begin_time (tbl ! 0))) :: u32) = begin_time (tbl ! 0)"
    using assms(1) by (simp add: valid_plan_def uint_word_of_int_eq take_bit_int_eq_self)
  have "place_loop (begin_time (tbl ! 0)) tbl (length tbl) 0 0 = None"
    by (subst place_loop.simps) (use z assms(4) in \<open>auto simp: cut_at_def put_rec_def has_nodes_def\<close>)
  then show ?thesis using assms(2,3) z b by (simp add: bf_reserve_resv_licenses_def add_reservation_def Let_def)
qed

lemma reservation_valid:
  assumes "valid_plan n tbl recs" "res_ok n res" "recs + 2 \<le> length tbl"
    and "s = max (uint start) (begin_time (tbl ! 0))" "s + uint resolution < 4294967296" "e = max (uint end_r) (s + uint resolution)"
  shows "\<exists>tbl' recs'. add_reservation resolution start end_r res job tbl recs = Some (tbl', recs') \<and> valid_plan n tbl' recs'"
proof -
  obtain lic js where l: "linked n lic tbl recs js" using assms(1) by (auto simp: valid_plan_def)
  have v: "contiguous (plan tbl)" "0 \<le> begin_time (tbl ! 0)" "begin_time (tbl ! 0) < 4294967296"
    using assms(1) by (simp_all add: valid_plan_def)
  have "kept (\<lambda>_. True) (\<lambda>_. ())" by (simp add: kept_def timeless_def)
  from add_reservation_at [OF l v(1) assms(2,3) v(2,3) assms(4-6) this, of job] obtain tbl' recs' js' where
    "add_reservation resolution start end_r res job tbl recs = Some (tbl', recs')" "linked n lic tbl' recs' js'" "contiguous (plan tbl')"
    "begin_time (tbl' ! 0) = begin_time (tbl ! 0)" by auto
  then show ?thesis using v unfolding valid_plan_def by (intro exI [of _ tbl'] exI [of _ recs']) auto
qed

end
