(* ===== verification/Cbuf.thy ===== *)
theory Cbuf
  imports Prelude "HOL-Library.Monad_Syntax"
begin

text \<open>
  The circular buffers of \<^verbatim>\<open>src/common/cbuf.c\<close>: bytes are written behind the unread
  data and read from its start, what was read stays in front of it for replay until
  it is overwritten, and the buffer grows up to a maximum.

  \<open>None\<close> is an access outside the array, or a result that is used without having been
  set. Sizes and indices are natural numbers: the source keeps them in variables of
  type \<^verbatim>\<open>int\<close> and they are never negative, lengths and counts of the callers are
  integers. The mutex of a buffer is held during every operation.
\<close>

subsection \<open>Buffers\<close>

datatype cbuf_overwrite = CBUF_NO_DROP | CBUF_WRAP_ONCE | CBUF_WRAP_MANY

record cbuf =
  cb_alloc :: nat
  cb_minsize :: nat
  cb_maxsize :: nat
  cb_size :: nat
  cb_used :: nat
  cb_overwrite :: cbuf_overwrite
  cb_got_wrap :: bool
  cb_in :: nat
  cb_out :: nat
  cb_rep :: nat
  cb_data :: "u8 list"

definition CBUF_CHUNK :: nat where "CBUF_CHUNK = 1000"

definition newline_byte :: u8 where "newline_byte = 10"

definition cbuf_create :: "int \<Rightarrow> int \<Rightarrow> cbuf option" where
  "cbuf_create minsize maxsize =
     (if minsize \<le> 0 then None
      else Some \<lparr>cb_alloc = nat minsize + 1, cb_minsize = nat minsize,
                 cb_maxsize = (if maxsize > minsize then nat maxsize else nat minsize),
                 cb_size = nat minsize, cb_used = 0, cb_overwrite = CBUF_WRAP_MANY, cb_got_wrap = False,
                 cb_in = 0, cb_out = 0, cb_rep = 0, cb_data = replicate (nat minsize + 1) 0\<rparr>)"

definition cbuf_flush :: "cbuf \<Rightarrow> cbuf" where
  "cbuf_flush cb = cb\<lparr>cb_used := 0, cb_got_wrap := False, cb_in := 0, cb_out := 0, cb_rep := 0\<rparr>"

definition cbuf_size :: "cbuf \<Rightarrow> nat" where "cbuf_size cb = cb_maxsize cb"

definition cbuf_free :: "cbuf \<Rightarrow> int" where "cbuf_free cb = int (cb_maxsize cb) - int (cb_used cb)"

definition cbuf_used :: "cbuf \<Rightarrow> nat" where "cbuf_used cb = cb_used cb"

definition cbuf_reused :: "cbuf \<Rightarrow> nat" where
  "cbuf_reused cb = (cb_out cb + (cb_size cb + 1) - cb_rep cb) mod (cb_size cb + 1)"

definition cbuf_is_empty :: "cbuf \<Rightarrow> bool" where "cbuf_is_empty cb \<longleftrightarrow> cb_used cb = 0"

text \<open>Options and their values as the callers pass them: integers. The result is the return code.\<close>

definition CBUF_OPT_OVERWRITE :: int where "CBUF_OPT_OVERWRITE = 0"

definition overwrite_value :: "cbuf_overwrite \<Rightarrow> int" where
  "overwrite_value v = (case v of CBUF_NO_DROP \<Rightarrow> 0 | CBUF_WRAP_ONCE \<Rightarrow> 1 | CBUF_WRAP_MANY \<Rightarrow> 2)"

definition cbuf_opt_get :: "cbuf \<Rightarrow> int \<Rightarrow> int option" where
  "cbuf_opt_get cb name = (if name = CBUF_OPT_OVERWRITE then Some (overwrite_value (cb_overwrite cb)) else None)"

definition cbuf_opt_set :: "cbuf \<Rightarrow> int \<Rightarrow> int \<Rightarrow> cbuf \<times> int" where
  "cbuf_opt_set cb name value =
     (if name = CBUF_OPT_OVERWRITE
      then case find (\<lambda>v. overwrite_value v = value) [CBUF_NO_DROP, CBUF_WRAP_ONCE, CBUF_WRAP_MANY] of
             None \<Rightarrow> (cb, - 1) | Some v \<Rightarrow> (cb\<lparr>cb_overwrite := v\<rparr>, 0)
      else (cb, - 1))"

text \<open>The validity that debug builds test.\<close>

definition cbuf_is_valid :: "cbuf \<Rightarrow> bool" where
  "cbuf_is_valid cb \<longleftrightarrow>
     0 < cb_alloc cb \<and> cb_size cb < cb_alloc cb \<and> 0 < cb_size cb \<and> cb_minsize cb \<le> cb_size cb \<and> cb_size cb \<le> cb_maxsize cb
     \<and> 0 < cb_minsize cb \<and> 0 < cb_maxsize cb \<and> cb_used cb \<le> cb_size cb
     \<and> (cb_got_wrap cb \<or> cb_rep cb = 0)
     \<and> cb_in cb \<le> cb_size cb \<and> cb_out cb \<le> cb_size cb \<and> cb_rep cb \<le> cb_size cb
     \<and> (if cb_out cb \<le> cb_in cb then cb_in cb < cb_rep cb \<or> cb_rep cb \<le> cb_out cb
        else cb_in cb < cb_rep cb \<and> cb_rep cb \<le> cb_out cb)
     \<and> cb_size cb - cb_used cb = (cb_out cb + (cb_size cb + 1) - cb_in cb - 1) mod (cb_size cb + 1)"

subsection \<open>Memory\<close>

definition load_bytes :: "u8 list \<Rightarrow> nat \<Rightarrow> nat \<Rightarrow> u8 list option" where
  "load_bytes d i n = (if i + n \<le> length d then Some (take n (drop i d)) else None)"

definition store_bytes :: "u8 list \<Rightarrow> nat \<Rightarrow> u8 list \<Rightarrow> u8 list option" where
  "store_bytes d i bs = (if i + length bs \<le> length d then Some (take i d @ bs @ drop (i + length bs) d) else None)"

text \<open>
  The functions that move bytes out of and into a buffer. The state of the other
  side is of any type; the result is the count or an error, and for input the bytes.
\<close>

type_synonym 'd putter = "'d \<Rightarrow> u8 list \<Rightarrow> ('d \<times> int) option"
type_synonym 's getter = "'s \<Rightarrow> nat \<Rightarrow> ('s \<times> int \<times> u8 list) option"

definition cbuf_put_mem :: "u8 list putter" where
  "cbuf_put_mem d bs = Some (d @ bs, int (length bs))"

definition cbuf_get_mem :: "u8 list getter" where
  "cbuf_get_mem s n = (if n \<le> length s then Some (drop n s, int n, take n s) else None)"

text \<open>The system calls \<^verbatim>\<open>read\<close> and \<^verbatim>\<open>write\<close> are parameters; an interrupted call is repeated.\<close>

datatype 'a io_result = Interrupted | Failed | Done 'a

partial_function (option) cbuf_put_fd :: "('d \<Rightarrow> u8 list \<Rightarrow> 'd \<times> nat io_result) \<Rightarrow> 'd putter" where
  [code]: "cbuf_put_fd os_write d bs =
     (case os_write d bs of
        (d, Interrupted) \<Rightarrow> cbuf_put_fd os_write d bs
      | (d, Failed) \<Rightarrow> Some (d, - 1)
      | (d, Done n) \<Rightarrow> Some (d, int n))"

partial_function (option) cbuf_get_fd :: "('s \<Rightarrow> nat \<Rightarrow> 's \<times> u8 list io_result) \<Rightarrow> 's getter" where
  [code]: "cbuf_get_fd os_read s n =
     (case os_read s n of
        (s, Interrupted) \<Rightarrow> cbuf_get_fd os_read s n
      | (s, Failed) \<Rightarrow> Some (s, - 1, [])
      | (s, Done bs) \<Rightarrow> Some (s, int (length bs), bs))"

subsection \<open>Reading\<close>

text \<open>The walk around the array, at most once; what is left to move, and the last result.\<close>

partial_function (option) out_loop :: "'d putter \<Rightarrow> cbuf \<Rightarrow> nat \<Rightarrow> nat \<Rightarrow> 'd \<Rightarrow> int \<Rightarrow> ('d \<times> nat \<times> int) option" where
  [code]: "out_loop putf cb nleft i_src d m =
     (if nleft = 0 then Some (d, nleft, m)
      else let n = min nleft (cb_size cb + 1 - i_src)
           in Option.bind (load_bytes (cb_data cb) i_src n) (\<lambda>bs. Option.bind (putf d bs) (\<lambda>(d, m).
                if int n \<noteq> m then Some (d, if m > 0 then nleft - nat m else nleft, m)
                else out_loop putf cb (nleft - n) ((i_src + n) mod (cb_size cb + 1)) d m)))"

definition cbuf_reader :: "'d putter \<Rightarrow> cbuf \<Rightarrow> nat \<Rightarrow> 'd \<Rightarrow> ('d \<times> int) option" where
  "cbuf_reader putf src len d =
     (let len = min len (cb_used src)
      in if len = 0 then Some (d, 0)
         else map_option (\<lambda>(d, nleft, m). (d, if len - nleft = 0 then m else int (len - nleft)))
                (out_loop putf src len (cb_out src) d 0))"

definition cbuf_replayer :: "'d putter \<Rightarrow> cbuf \<Rightarrow> nat \<Rightarrow> 'd \<Rightarrow> ('d \<times> int) option" where
  "cbuf_replayer putf src len d =
     (let len = min len (cbuf_reused src)
      in if len = 0 then Some (d, 0)
         else map_option (\<lambda>(d, nleft, m). (d, if len - nleft = 0 then m else int (len - nleft)))
                (out_loop putf src len ((cb_out src + (cb_size src + 1) - len) mod (cb_size src + 1)) d 0))"

text \<open>The attempt to shrink the buffer after dropping data is not implemented in the source.\<close>

definition cbuf_shrink :: "cbuf \<Rightarrow> cbuf" where "cbuf_shrink cb = cb"

definition cbuf_dropper :: "cbuf \<Rightarrow> nat \<Rightarrow> cbuf" where
  "cbuf_dropper cb len =
     (let cb = cb\<lparr>cb_used := cb_used cb - len, cb_out := (cb_out cb + len) mod (cb_size cb + 1)\<rparr>
      in if cb_size cb - cb_used cb > CBUF_CHUNK \<and> cb_size cb > cb_minsize cb then cbuf_shrink cb else cb)"

definition cbuf_rewinder :: "cbuf \<Rightarrow> nat \<Rightarrow> cbuf" where
  "cbuf_rewinder cb len =
     cb\<lparr>cb_used := cb_used cb + len, cb_out := (cb_out cb + (cb_size cb + 1) - len) mod (cb_size cb + 1)\<rparr>"

subsection \<open>Growing and writing\<close>

text \<open>
  New memory is put between where data is written and where the replay data starts.
  The result is the number of bytes gained; memory that is added is zero.
\<close>

definition cbuf_grow :: "cbuf \<Rightarrow> nat \<Rightarrow> (cbuf \<times> nat) option" where
  "cbuf_grow cb n =
     (if cb_size cb = cb_maxsize cb then Some (cb, 0)
      else let size_old = cb_size cb;
               size_meta = cb_alloc cb - cb_size cb;
               m = cb_alloc cb + n;
               m = m + (CBUF_CHUNK - m mod CBUF_CHUNK);
               m = min m (cb_maxsize cb + size_meta);
               cb = cb\<lparr>cb_data := take m (cb_data cb) @ replicate (m - length (cb_data cb)) 0, cb_alloc := m, cb_size := m - size_meta\<rparr>
           in map_option (\<lambda>cb. (cb, cb_size cb - size_old))
                (if cb_in cb < cb_rep cb
                 then let n = size_old + 1 - cb_rep cb; m = cb_size cb + 1 - n
                      in Option.bind (load_bytes (cb_data cb) (cb_rep cb) n) (\<lambda>bs.
                           map_option (\<lambda>data. cb\<lparr>cb_data := data,
                               cb_out := (if cb_rep cb \<le> cb_out cb then cb_out cb + m - cb_rep cb else cb_out cb), cb_rep := m\<rparr>)
                             (store_bytes (cb_data cb) m bs))
                 else Some cb))"

partial_function (option) in_loop :: "'s getter \<Rightarrow> nat \<Rightarrow> u8 list \<Rightarrow> nat \<Rightarrow> nat \<Rightarrow> 's \<Rightarrow> int \<Rightarrow> ('s \<times> u8 list \<times> nat \<times> nat \<times> int) option" where
  [code]: "in_loop getf sz data nleft i_dst s m =
     (if nleft = 0 then Some (s, data, nleft, i_dst, m)
      else let n = min nleft (sz + 1 - i_dst)
           in Option.bind (getf s n) (\<lambda>(s, m, bs). Option.bind (store_bytes data i_dst bs) (\<lambda>data.
                if int n \<noteq> m
                then Some (s, data, if m > 0 then nleft - nat m else nleft, if m > 0 then (i_dst + nat m) mod (sz + 1) else i_dst, m)
                else in_loop getf sz data (nleft - n) ((i_dst + n) mod (sz + 1)) s m)))"

text \<open>What writer and copier have in common: room for the data, and the new state of the indices.\<close>

definition grow_for :: "cbuf \<Rightarrow> nat \<Rightarrow> (cbuf \<times> nat) option" where
  "grow_for dst len =
     (let nfree = cb_size dst - cb_used dst
      in if len > nfree \<and> cb_size dst < cb_maxsize dst then map_option (\<lambda>(dst, g). (dst, nfree + g)) (cbuf_grow dst (len - nfree))
         else Some (dst, nfree))"

definition bounded_len :: "cbuf \<Rightarrow> nat \<Rightarrow> nat" where
  "bounded_len dst len =
     (case cb_overwrite dst of
        CBUF_NO_DROP \<Rightarrow> min len (cb_size dst - cb_used dst)
      | CBUF_WRAP_ONCE \<Rightarrow> min len (cb_size dst)
      | CBUF_WRAP_MANY \<Rightarrow> len)"

definition written_state :: "cbuf \<Rightarrow> nat \<Rightarrow> nat \<Rightarrow> nat \<Rightarrow> cbuf" where
  "written_state dst nfree n i_dst =
     (let nrepl = cbuf_reused dst;
          dst = dst\<lparr>cb_used := min (cb_used dst + n) (cb_size dst), cb_in := i_dst\<rparr>;
          dst = (if n > nfree - nrepl then dst\<lparr>cb_got_wrap := True, cb_rep := (cb_in dst + 1) mod (cb_size dst + 1)\<rparr> else dst)
      in if n > nfree then dst\<lparr>cb_out := cb_rep dst\<rparr> else dst)"

text \<open>
  The result is the count or \<open>- 1\<close>; the number of dropped bytes is \<open>None\<close> when the
  source does not set it.
\<close>

definition cbuf_writer :: "'s getter \<Rightarrow> cbuf \<Rightarrow> nat \<Rightarrow> 's \<Rightarrow> (cbuf \<times> 's \<times> int \<times> nat option) option" where
  "cbuf_writer getf dst len s =
     Option.bind (grow_for dst len) (\<lambda>(dst, nfree).
       let len = bounded_len dst len
       in if len = 0 then Some (dst, s, - 1, None)
          else map_option (\<lambda>(s, data, nleft, i_dst, m).
                 let n = len - nleft; dst = dst\<lparr>cb_data := data\<rparr>
                 in if n = 0 then (dst, s, m, None)
                    else (written_state dst nfree n i_dst, s, int n, Some (n - nfree)))
               (in_loop getf (cb_size dst) (cb_data dst) len (cb_in dst) s 0))"

text \<open>From one buffer to another, without the bytes that would be overwritten again.\<close>

partial_function (option) copy_loop :: "cbuf \<Rightarrow> nat \<Rightarrow> u8 list \<Rightarrow> nat \<Rightarrow> nat \<Rightarrow> nat \<Rightarrow> (u8 list \<times> nat) option" where
  [code]: "copy_loop src sz data nleft i_src i_dst =
     (if nleft = 0 then Some (data, i_dst)
      else let n = min (min (cb_size src + 1 - i_src) (sz + 1 - i_dst)) nleft
           in Option.bind (load_bytes (cb_data src) i_src n) (\<lambda>bs. Option.bind (store_bytes data i_dst bs) (\<lambda>data.
                copy_loop src sz data (nleft - n) ((i_src + n) mod (cb_size src + 1)) ((i_dst + n) mod (sz + 1)))))"

definition cbuf_copier :: "cbuf \<Rightarrow> cbuf \<Rightarrow> nat \<Rightarrow> (cbuf \<times> int \<times> nat option) option" where
  "cbuf_copier src dst len =
     (let len = min len (cb_used src)
      in if len = 0 then Some (dst, 0, None)
         else Option.bind (grow_for dst len) (\<lambda>(dst, nfree).
           let len = bounded_len dst len
           in if len = 0 then Some (dst, - 1, None)
              else let dropped = nat (int len - int (cb_size dst) + int (cb_used dst));
                       skip = len - cb_size dst;
                       i_src = (if len > cb_size dst then (cb_out src + skip) mod (cb_size src + 1) else cb_out src);
                       ncopy = len - skip
                   in map_option (\<lambda>(data, i_dst). (written_state (dst\<lparr>cb_data := data\<rparr>) nfree ncopy i_dst, int len, Some dropped))
                        (copy_loop src (cb_size dst) (cb_data dst) ncopy i_src (cb_in dst))))"

subsection \<open>Lines\<close>

definition load_byte :: "u8 list \<Rightarrow> nat \<Rightarrow> u8 option" where
  "load_byte d i = (if i < length d then Some (d ! i) else None)"

text \<open>The count of bytes up to the last complete line and of lines, and the lines still wanted.\<close>

partial_function (option) unread_loop :: "cbuf \<Rightarrow> nat \<Rightarrow> nat \<Rightarrow> nat \<Rightarrow> int \<Rightarrow> int \<Rightarrow> int \<Rightarrow> (nat \<times> int \<times> int) option" where
  [code]: "unread_loop cb i n m l chars lines =
     (if i = cb_in cb then Some (m, l, lines)
      else Option.bind (load_byte (cb_data cb) i) (\<lambda>b.
        let n = n + 1;
            chars = (if chars > 0 then chars - 1 else chars);
            (lines, m, l) = (if b = newline_byte then (if lines > 0 then lines - 1 else lines, n, l + 1) else (lines, m, l))
        in if chars = 0 \<or> lines = 0 then Some (m, l, lines)
           else unread_loop cb ((i + 1) mod (cb_size cb + 1)) n m l chars lines))"

text \<open>The result is the number of bytes and the number of lines.\<close>

definition cbuf_find_unread_line :: "cbuf \<Rightarrow> int \<Rightarrow> int \<Rightarrow> (nat \<times> int) option" where
  "cbuf_find_unread_line cb chars lines =
     (if lines = 0 \<or> (lines \<le> - 1 \<and> chars \<le> 0) then Some (0, 0)
      else if cb_used cb = 0 then Some (0, 0)
      else map_option (\<lambda>(m, l, lines). if lines > 0 then (0, 0) else (m, l))
             (unread_loop cb (cb_out cb) 0 0 0 (if lines > 0 then - 1 else chars) lines))"

partial_function (option) replay_loop :: "cbuf \<Rightarrow> nat \<Rightarrow> nat \<Rightarrow> nat \<Rightarrow> int \<Rightarrow> int \<Rightarrow> int \<Rightarrow> (nat \<times> nat \<times> int \<times> int \<times> int) option" where
  [code]: "replay_loop cb i n m l chars lines =
     (if i = cb_rep cb then Some (n, m, l, chars, lines)
      else let i = (i + cb_size cb) mod (cb_size cb + 1)
           in Option.bind (load_byte (cb_data cb) i) (\<lambda>b.
                let n = n + 1;
                    chars = (if chars > 0 then chars - 1 else chars);
                    (lines, m, l) = (if b = newline_byte then (if lines > 0 then lines - 1 else lines, n - 1, l + 1) else (lines, m, l))
                in if chars = 0 \<or> lines = 0 then Some (n, m, l, chars, lines)
                   else replay_loop cb i n m l chars lines))"

text \<open>
  The number of bytes, the number of lines, and whether a newline is missing at the
  end of the replay data.
\<close>

definition cbuf_find_replay_line :: "cbuf \<Rightarrow> int \<Rightarrow> int \<Rightarrow> (nat \<times> int \<times> bool) option" where
  "cbuf_find_replay_line cb chars lines =
     (if lines = 0 \<or> (lines \<le> - 1 \<and> chars \<le> 0) then Some (0, 0, False)
      else if cb_out cb = cb_rep cb then Some (0, 0, False)
      else Option.bind (load_byte (cb_data cb) ((cb_out cb + cb_size cb) mod (cb_size cb + 1))) (\<lambda>b.
        let chars = (if lines > 0 then - 1 else chars + 1);
            nl = (b \<noteq> newline_byte);
            chars = (if nl then chars - 1 else chars);
            l = (if nl then 0 else - 1);
            lines = (if \<not> nl \<and> lines > 0 then lines + 1 else lines)
        in map_option (\<lambda>(n, m, l, chars, lines).
             let first = (\<not> cb_got_wrap cb \<and> (chars > 0 \<or> lines > 0));
                 (lines, m, l) = (if first then (if lines > 0 then lines - 1 else lines, n, l + 1) else (lines, m, l))
             in if lines > 0 then (0, 0, nl) else (m, l, nl))
             (replay_loop cb (cb_out cb) 0 0 l chars lines)))"

definition cbuf_lines_used :: "cbuf \<Rightarrow> int option" where
  "cbuf_lines_used cb = map_option snd (cbuf_find_unread_line cb (int (cb_size cb)) (- 1))"

definition cbuf_lines_reused :: "cbuf \<Rightarrow> int option" where
  "cbuf_lines_reused cb = map_option (\<lambda>(_, l, _). l) (cbuf_find_replay_line cb (int (cb_size cb)) (- 1))"

subsection \<open>Operations\<close>

definition cbuf_drop :: "cbuf \<Rightarrow> int \<Rightarrow> cbuf \<times> int" where
  "cbuf_drop src len =
     (if len < - 1 then (src, - 1)
      else if len = 0 then (src, 0)
      else let len = (if len = - 1 then cb_used src else min (nat len) (cb_used src))
           in (if len > 0 then cbuf_dropper src len else src, int len))"

text \<open>Reads into memory: \<open>null\<close> says that there is none. The result ends with the bytes.\<close>

definition cbuf_peek :: "bool \<Rightarrow> cbuf \<Rightarrow> int \<Rightarrow> (int \<times> u8 list) option" where
  "cbuf_peek null src len =
     (if null \<or> len < 0 then Some (- 1, [])
      else if len = 0 then Some (0, [])
      else map_option (\<lambda>(bs, n). (n, bs)) (cbuf_reader cbuf_put_mem src (nat len) []))"

definition cbuf_read :: "bool \<Rightarrow> cbuf \<Rightarrow> int \<Rightarrow> (cbuf \<times> int \<times> u8 list) option" where
  "cbuf_read null src len =
     (if null \<or> len < 0 then Some (src, - 1, [])
      else if len = 0 then Some (src, 0, [])
      else map_option (\<lambda>(bs, n). (if n > 0 then cbuf_dropper src (nat n) else src, n, bs))
             (cbuf_reader cbuf_put_mem src (nat len) []))"

definition cbuf_replay :: "bool \<Rightarrow> cbuf \<Rightarrow> int \<Rightarrow> (int \<times> u8 list) option" where
  "cbuf_replay null src len =
     (if null \<or> len < 0 then Some (- 1, [])
      else if len = 0 then Some (0, [])
      else map_option (\<lambda>(bs, n). (n, bs)) (cbuf_replayer cbuf_put_mem src (nat len) []))"

definition cbuf_rewind :: "cbuf \<Rightarrow> int \<Rightarrow> cbuf \<times> int" where
  "cbuf_rewind src len =
     (if len < - 1 then (src, - 1)
      else if len = 0 then (src, 0)
      else let reused = cbuf_reused src; len = (if len = - 1 then reused else min (nat len) reused)
           in (if len > 0 then cbuf_rewinder src len else src, int len))"

text \<open>The source memory of a write is \<open>None\<close> for a null pointer. The result ends with the dropped bytes.\<close>

definition cbuf_write :: "cbuf \<Rightarrow> u8 list option \<Rightarrow> int \<Rightarrow> (cbuf \<times> int \<times> nat) option" where
  "cbuf_write dst srcbuf len =
     (case srcbuf of
        None \<Rightarrow> Some (dst, - 1, 0)
      | Some s \<Rightarrow>
          if len < 0 then Some (dst, - 1, 0)
          else if len = 0 then Some (dst, 0, 0)
          else map_option (\<lambda>(dst, _, n, d). (dst, n, case_option 0 id d)) (cbuf_writer cbuf_get_mem dst (nat len) s))"

definition cbuf_drop_line :: "cbuf \<Rightarrow> int \<Rightarrow> int \<Rightarrow> (cbuf \<times> int) option" where
  "cbuf_drop_line src len lines =
     (if len < 0 \<or> lines < - 1 then Some (src, - 1)
      else if lines = 0 then Some (src, 0)
      else map_option (\<lambda>(n, _). (if n > 0 then cbuf_dropper src n else src, int n)) (cbuf_find_unread_line src len lines))"

text \<open>What is written to the destination of \<open>len\<close> bytes, its zero byte included, for \<open>n\<close> bytes of lines.\<close>

definition line_text :: "cbuf \<Rightarrow> int \<Rightarrow> nat \<Rightarrow> u8 list option" where
  "line_text src len n =
     (if n > 0 \<and> len > 0
      then let m = min n (nat (len - 1))
           in map_option (\<lambda>(bs, _). bs @ [0]) (if m > 0 then cbuf_reader cbuf_put_mem src m [] else Some ([], 0))
      else Some [])"

definition cbuf_peek_line :: "bool \<Rightarrow> cbuf \<Rightarrow> int \<Rightarrow> int \<Rightarrow> (int \<times> u8 list) option" where
  "cbuf_peek_line null src len lines =
     (if null \<or> len < 0 \<or> lines < - 1 then Some (- 1, [])
      else if lines = 0 then Some (0, [])
      else Option.bind (cbuf_find_unread_line src (len - 1) lines) (\<lambda>(n, _).
             map_option (\<lambda>bs. (int n, bs)) (line_text src len n)))"

definition cbuf_read_line :: "bool \<Rightarrow> cbuf \<Rightarrow> int \<Rightarrow> int \<Rightarrow> (cbuf \<times> int \<times> u8 list) option" where
  "cbuf_read_line null src len lines =
     (if null \<or> len < 0 \<or> lines < - 1 then Some (src, - 1, [])
      else if lines = 0 then Some (src, 0, [])
      else Option.bind (cbuf_find_unread_line src (len - 1) lines) (\<lambda>(n, _).
             map_option (\<lambda>bs. (if n > 0 then cbuf_dropper src n else src, int n, bs)) (line_text src len n)))"

definition cbuf_replay_line :: "bool \<Rightarrow> cbuf \<Rightarrow> int \<Rightarrow> int \<Rightarrow> (int \<times> u8 list) option" where
  "cbuf_replay_line null src len lines =
     (if null \<or> len < 0 \<or> lines < - 1 then Some (- 1, [])
      else if lines = 0 then Some (0, [])
      else Option.bind (cbuf_find_replay_line src (len - 1) lines) (\<lambda>(n, _, nl).
             if n = 0 then Some (0, [])
             else if len \<le> 0 then Some (int n, [])
             else let m = min n (nat (len - 1 - (if nl then 1 else 0)))
                  in map_option (\<lambda>(bs, _). (int n + (if nl then 1 else 0), bs @ (if nl \<and> len > 1 then [newline_byte] else []) @ [0]))
                       (if m > 0 then cbuf_replayer cbuf_put_mem src m [] else Some ([], 0))))"

definition cbuf_rewind_line :: "cbuf \<Rightarrow> int \<Rightarrow> int \<Rightarrow> (cbuf \<times> int) option" where
  "cbuf_rewind_line src len lines =
     (if len < 0 \<or> lines < - 1 then Some (src, - 1)
      else if lines = 0 then Some (src, 0)
      else map_option (\<lambda>(n, _, _). (if n > 0 then cbuf_rewinder src n else src, int n)) (cbuf_find_replay_line src len lines))"

text \<open>The source is the text without its terminating zero.\<close>

definition cbuf_write_line :: "cbuf \<Rightarrow> u8 list option \<Rightarrow> (cbuf \<times> int \<times> nat) option" where
  "cbuf_write_line dst srcbuf =
     (case srcbuf of
        None \<Rightarrow> Some (dst, - 1, 0)
      | Some s \<Rightarrow>
          let ends = (s \<noteq> [] \<and> last s = newline_byte); len = (if ends then length s else length s + 1)
          in Option.bind (grow_for dst len) (\<lambda>(dst, _).
               if (case cb_overwrite dst of
                     CBUF_NO_DROP \<Rightarrow> len > cb_size dst - cb_used dst | CBUF_WRAP_ONCE \<Rightarrow> len > cb_size dst | CBUF_WRAP_MANY \<Rightarrow> False)
               then Some (dst, - 1, 0)
               else let ndrop = len - cb_size dst; ncopy = length s - ndrop
                    in Option.bind (if ncopy > 0
                                    then Option.bind (cbuf_writer cbuf_get_mem dst ncopy (drop ndrop s)) (\<lambda>(dst, _, _, d).
                                           map_option (\<lambda>d. (dst, ndrop + d)) d)
                                    else Some (dst, ndrop)) (\<lambda>(dst, ndrop).
                         if ends then Some (dst, int len, ndrop)
                         else Option.bind (cbuf_writer cbuf_get_mem dst 1 [newline_byte]) (\<lambda>(dst, _, _, d).
                                map_option (\<lambda>d. (dst, int len, ndrop + d)) d))))"

definition cbuf_peek_to_fd :: "'d putter \<Rightarrow> cbuf \<Rightarrow> int \<Rightarrow> int \<Rightarrow> 'd \<Rightarrow> ('d \<times> int) option" where
  "cbuf_peek_to_fd put_fd src dstfd len d =
     (if dstfd < 0 \<or> len < - 1 then Some (d, - 1)
      else let len = (if len = - 1 then cb_used src else nat len)
           in if len > 0 then cbuf_reader put_fd src len d else Some (d, 0))"

definition cbuf_read_to_fd :: "'d putter \<Rightarrow> cbuf \<Rightarrow> int \<Rightarrow> int \<Rightarrow> 'd \<Rightarrow> (cbuf \<times> 'd \<times> int) option" where
  "cbuf_read_to_fd put_fd src dstfd len d =
     (if dstfd < 0 \<or> len < - 1 then Some (src, d, - 1)
      else let len = (if len = - 1 then cb_used src else nat len)
           in if len > 0
              then map_option (\<lambda>(d, n). (if n > 0 then cbuf_dropper src (nat n) else src, d, n)) (cbuf_reader put_fd src len d)
              else Some (src, d, 0))"

definition cbuf_replay_to_fd :: "'d putter \<Rightarrow> cbuf \<Rightarrow> int \<Rightarrow> int \<Rightarrow> 'd \<Rightarrow> ('d \<times> int) option" where
  "cbuf_replay_to_fd put_fd src dstfd len d =
     (if dstfd < 0 \<or> len < - 1 then Some (d, - 1)
      else let len = (if len = - 1 then cb_size src - cb_used src else nat len)
           in if len > 0 then cbuf_replayer put_fd src len d else Some (d, 0))"

definition cbuf_write_from_fd :: "'s getter \<Rightarrow> cbuf \<Rightarrow> int \<Rightarrow> int \<Rightarrow> 's \<Rightarrow> (cbuf \<times> 's \<times> int \<times> nat) option" where
  "cbuf_write_from_fd get_fd dst srcfd len s =
     (if srcfd < 0 \<or> len < - 1 then Some (dst, s, - 1, 0)
      else let len = (if len = - 1 then (if cb_size dst - cb_used dst = 0 then CBUF_CHUNK else cb_size dst - cb_used dst) else nat len)
           in if len > 0 then map_option (\<lambda>(dst, s, n, d). (dst, s, n, case_option 0 id d)) (cbuf_writer get_fd dst len s)
              else Some (dst, s, 0, 0))"

text \<open>Two buffers: \<open>same\<close> says that they are one.\<close>

definition cbuf_copy :: "bool \<Rightarrow> cbuf \<Rightarrow> cbuf \<Rightarrow> int \<Rightarrow> (cbuf \<times> int \<times> nat) option" where
  "cbuf_copy same src dst len =
     (if same \<or> len < - 1 then Some (dst, - 1, 0)
      else if len = 0 then Some (dst, 0, 0)
      else let len = (if len = - 1 then cb_used src else nat len)
           in if len > 0 then map_option (\<lambda>(dst, n, d). (dst, n, case_option 0 id d)) (cbuf_copier src dst len) else Some (dst, 0, 0))"

definition cbuf_move :: "bool \<Rightarrow> cbuf \<Rightarrow> cbuf \<Rightarrow> int \<Rightarrow> (cbuf \<times> cbuf \<times> int \<times> nat) option" where
  "cbuf_move same src dst len =
     (if same \<or> len < - 1 then Some (src, dst, - 1, 0)
      else if len = 0 then Some (src, dst, 0, 0)
      else let len = (if len = - 1 then cb_used src else nat len)
           in if len > 0
              then map_option (\<lambda>(dst, n, d). (if n > 0 then cbuf_dropper src (nat n) else src, dst, n, case_option 0 id d)) (cbuf_copier src dst len)
              else Some (src, dst, 0, 0))"

end
