(* ===== verification/Cbuf_Props.thy ===== *)
theory Cbuf_Props
  imports Cbuf
begin

text \<open>
  Properties of the circular buffers. The array is seen through the bytes that end
  at the write index, oldest first: replay and unread data are its last bytes, and a
  write appends to it.
\<close>

subsection \<open>Rings\<close>

definition ring :: "'a list \<Rightarrow> nat \<Rightarrow> nat \<Rightarrow> 'a list" where
  "ring d i n = map (\<lambda>k. d ! ((i + k) mod length d)) [0..<n]"

definition last_n :: "nat \<Rightarrow> 'a list \<Rightarrow> 'a list" where
  "last_n n xs = drop (length xs - n) xs"

lemma length_ring [simp]: "length (ring d i n) = n"
  by (simp add: ring_def)

lemma less_length_nonempty: "i < length d \<Longrightarrow> d \<noteq> []"
  by (cases d) auto

lemma length_last_n [simp]: "length (last_n n xs) = min n (length xs)"
  by (auto simp: last_n_def)

lemma nth_ring: "k < n \<Longrightarrow> ring d i n ! k = d ! ((i + k) mod length d)"
  by (simp add: ring_def)

lemma ring_0 [simp]: "ring d i 0 = []"
  by (simp add: ring_def)

lemma ring_append: "ring d i (a + b) = ring d i a @ ring d ((i + a) mod length d) b"
proof -
  have u: "[0..<a + b] = [0..<a] @ map (\<lambda>k. k + a) [0..<b]"
    using upt_add_eq_append [of 0 a b] map_add_upt [of a b] by (simp add: add.commute)
  have "(i + (k + a)) mod length d = ((i + a) mod length d + k) mod length d" for k
    by (metis add.assoc add.commute mod_add_left_eq)
  then show ?thesis by (simp add: ring_def u)
qed

lemma ring_mod [simp]: "ring d (i mod length d) n = ring d i n"
  by (rule nth_equalityI) (auto simp: nth_ring mod_add_left_eq)

lemma ring_slice: "i + n \<le> length d \<Longrightarrow> ring d i n = take n (drop i d)"
  by (rule nth_equalityI) (auto simp: nth_ring)

lemma last_n_0 [simp]: "last_n 0 xs = []"
  by (simp add: last_n_def)

lemma last_n_rev: "last_n n xs = rev (take n (rev xs))"
  by (simp add: last_n_def rev_take)

lemma last_n_append: "last_n n (xs @ ys) = (if n \<le> length ys then last_n n ys else last_n (n - length ys) xs @ ys)"
  by (auto simp: last_n_def)

lemma last_n_all: "length xs \<le> n \<Longrightarrow> last_n n xs = xs"
  by (simp add: last_n_def)

lemma last_n_last_n [simp]: "last_n m (last_n n xs) = last_n (min m n) xs"
  by (simp add: last_n_rev min.commute)

lemma take_last_n: "a + b \<le> length xs \<Longrightarrow> last_n (a + b) xs = take a (last_n (a + b) xs) @ last_n b xs"
proof -
  assume "a + b \<le> length xs"
  then have "last_n b (last_n (a + b) xs) = drop a (last_n (a + b) xs)" by (simp add: last_n_def)
  then show ?thesis by (simp add: min_def)
qed

text \<open>One byte written at the write index: the oldest byte goes.\<close>

lemma ring_write:
  assumes "i < length d"
  shows "ring (d[i := b]) (Suc i mod length d) (length d) = tl (ring d i (length d)) @ [b]"
proof (rule nth_equalityI)
  fix k
  assume "k < length (ring (d[i := b]) (Suc i mod length d) (length d))"
  then have k: "k < length d" by simp
  have N: "0 < length d" using less_length_nonempty [OF assms] by simp
  show "ring (d[i := b]) (Suc i mod length d) (length d) ! k = (tl (ring d i (length d)) @ [b]) ! k"
  proof (cases "Suc k = length d")
    case True
    then have "Suc i + k = i + length d" by simp
    then have "(Suc i + k) mod length d = i" using assms by (metis mod_add_self2 mod_less)
    then have "ring (d[i := b]) (Suc i mod length d) (length d) ! k = b"
      using nth_ring [OF k, of "d[i := b]" "Suc i mod length d"] assms by (simp add: mod_add_left_eq)
    moreover have "length (tl (ring d i (length d))) = k" using True by simp
    ultimately show ?thesis by (metis nth_append_length)
  next
    case False
    then have sk: "Suc k < length d" using k by simp
    have "(Suc i + k) mod length d \<noteq> i"
    proof
      assume e: "(Suc i + k) mod length d = i"
      have "(Suc i + k) mod length d = (if Suc i + k < length d then Suc i + k else Suc i + k - length d)"
        using assms sk by (simp add: le_mod_geq)
      then show False using e sk by (auto split: if_splits)
    qed
    moreover have "k < length d - Suc 0" using sk by simp
    ultimately show ?thesis using sk by (simp add: nth_ring nth_append nth_tl mod_add_left_eq)
  qed
qed (use less_length_nonempty [OF assms] in auto)

text \<open>Bytes written one by one around the ring.\<close>

fun write_ring :: "'a list \<Rightarrow> nat \<Rightarrow> 'a list \<Rightarrow> 'a list" where
  "write_ring d i [] = d"
| "write_ring d i (b # bs) = write_ring (d[i := b]) (Suc i mod length d) bs"

lemma length_write_ring [simp]: "length (write_ring d i bs) = length d"
  by (induction d i bs rule: write_ring.induct) simp_all

lemma ring_write_ring:
  "i < length d \<Longrightarrow>
     ring (write_ring d i bs) ((i + length bs) mod length d) (length d) = last_n (length d) (ring d i (length d) @ bs)"
proof (induction bs arbitrary: d i)
  case Nil
  then show ?case by (simp add: last_n_all)
next
  case (Cons b bs)
  let ?N = "length d"
  have N: "0 < ?N" using less_length_nonempty [OF Cons.prems] by simp
  then have "ring (write_ring (d[i := b]) (Suc i mod ?N) bs) ((Suc i mod ?N + length bs) mod ?N) ?N
      = last_n ?N (ring (d[i := b]) (Suc i mod ?N) ?N @ bs)"
    using Cons.IH [of "Suc i mod ?N" "d[i := b]"] by simp
  moreover have "(Suc i mod ?N + length bs) mod ?N = (i + length (b # bs)) mod ?N" by (simp add: mod_add_left_eq)
  ultimately have "ring (write_ring d i (b # bs)) ((i + length (b # bs)) mod ?N) ?N = last_n ?N (tl (ring d i ?N) @ b # bs)"
    using ring_write [OF Cons.prems] by simp
  also have "\<dots> = last_n ?N (ring d i ?N @ b # bs)"
  proof -
    have "ring d i ?N = hd (ring d i ?N) # tl (ring d i ?N)" using N by (metis length_ring length_0_conv less_numeral_extra(3) list.collapse)
    moreover have "last_n ?N (x # tl (ring d i ?N) @ b # bs) = last_n ?N (tl (ring d i ?N) @ b # bs)" for x
      using N less_length_nonempty [OF Cons.prems] by (simp add: last_n_def Suc_diff_le)
    ultimately show ?thesis by (metis append_Cons)
  qed
  finally show ?case .
qed

lemma write_ring_append: "i < length d \<Longrightarrow> write_ring d i (xs @ ys) = write_ring (write_ring d i xs) ((i + length xs) mod length d) ys"
proof (induction xs arbitrary: d i)
  case (Cons x xs)
  have "Suc i mod length d < length d" using less_length_nonempty [OF Cons.prems] by simp
  then show ?case using Cons.IH [of "Suc i mod length d" "d[i := x]"] by (simp add: mod_add_left_eq)
qed simp

lemma write_ring_slice: "i + length bs \<le> length d \<Longrightarrow> write_ring d i bs = take i d @ bs @ drop (i + length bs) d"
proof (induction bs arbitrary: d i)
  case (Cons b bs)
  show ?case
  proof (cases "bs = []")
    case True
    then show ?thesis using Cons.prems by (simp add: upd_conv_take_nth_drop)
  next
    case False
    then have "Suc i < length d" using Cons.prems by (cases bs) auto
    then show ?thesis using Cons.IH [of "Suc i" "d[i := b]"] Cons.prems by (simp add: take_Suc_conv_app_nth)
  qed
qed simp


subsection \<open>Well formed buffers\<close>

text \<open>
  The array has one byte more than the buffer holds. The write index ends the unread
  data, in front of which is the replay data, and both fit.
\<close>

definition wf_cbuf :: "cbuf \<Rightarrow> bool" where
  "wf_cbuf cb \<longleftrightarrow> cbuf_is_valid cb \<and> cb_alloc cb = cb_size cb + 1 \<and> length (cb_data cb) = cb_size cb + 1"

lemma mod_once: "x < 2 * N \<Longrightarrow> x mod N = (if x < N then x else x - (N::nat))"
  by (simp add: le_mod_geq)

lemma wf_indices:
  assumes "wf_cbuf cb"
  shows "cb_out cb = (cb_rep cb + cbuf_reused cb) mod (cb_size cb + 1)" "cb_in cb = (cb_out cb + cb_used cb) mod (cb_size cb + 1)"
    "cbuf_reused cb + cb_used cb \<le> cb_size cb"
proof -
  define N where "N = cb_size cb + 1"
  have v: "cb_in cb < N" "cb_out cb < N" "cb_rep cb < N" "cb_used cb < N"
    "N - 1 - cb_used cb = (cb_out cb + N - cb_in cb - 1) mod N"
    "if cb_out cb \<le> cb_in cb then cb_in cb < cb_rep cb \<or> cb_rep cb \<le> cb_out cb else cb_in cb < cb_rep cb \<and> cb_rep cb \<le> cb_out cb"
    using assms by (auto simp: wf_cbuf_def cbuf_is_valid_def N_def)
  have r: "cbuf_reused cb = (if cb_rep cb \<le> cb_out cb then cb_out cb - cb_rep cb else cb_out cb + N - cb_rep cb)"
    unfolding cbuf_reused_def N_def [symmetric] using v(2,3) by (subst mod_once) auto
  have "(cb_out cb + N - cb_in cb - 1) mod N = (if cb_in cb < cb_out cb then cb_out cb - cb_in cb - 1 else cb_out cb + N - cb_in cb - 1)"
    using v(1,2) by (subst mod_once) auto
  then have u: "cb_used cb = (if cb_out cb \<le> cb_in cb then cb_in cb - cb_out cb else cb_in cb + N - cb_out cb)"
    using v(1,2,4,5) by (auto split: if_splits)
  show "cb_out cb = (cb_rep cb + cbuf_reused cb) mod (cb_size cb + 1)"
    unfolding N_def [symmetric] using v(2,3) r by (subst mod_once) auto
  show "cb_in cb = (cb_out cb + cb_used cb) mod (cb_size cb + 1)"
    unfolding N_def [symmetric] using v(1,2) u by (subst mod_once) auto
  have "cbuf_reused cb + cb_used cb < N" using v(1-3,6) r u by (auto split: if_splits)
  then show "cbuf_reused cb + cb_used cb \<le> cb_size cb" by (simp add: N_def)
qed

text \<open>Conversely, a buffer is well formed when its indices are so.\<close>

lemma wf_cbufI:
  assumes "cb_alloc cb = cb_size cb + 1" "length (cb_data cb) = cb_size cb + 1" "0 < cb_minsize cb" "cb_minsize cb \<le> cb_size cb"
    "cb_size cb \<le> cb_maxsize cb" "cb_got_wrap cb \<or> cb_rep cb = 0" "cb_rep cb \<le> cb_size cb" "r + cb_used cb \<le> cb_size cb"
    "cb_out cb = (cb_rep cb + r) mod (cb_size cb + 1)" "cb_in cb = (cb_rep cb + r + cb_used cb) mod (cb_size cb + 1)"
  shows "wf_cbuf cb" "cbuf_reused cb = r"
proof -
  define N where "N = cb_size cb + 1"
  have o: "cb_out cb = (if cb_rep cb + r < N then cb_rep cb + r else cb_rep cb + r - N)"
    unfolding assms(9) N_def [symmetric] using assms(7,8) by (subst mod_once) (auto simp: N_def)
  have i: "cb_in cb = (if cb_rep cb + r + cb_used cb < N then cb_rep cb + r + cb_used cb else cb_rep cb + r + cb_used cb - N)"
    unfolding assms(10) N_def [symmetric] using assms(7,8) by (subst mod_once) (auto simp: N_def)
  have b: "cb_rep cb < N" "r + cb_used cb < N" "0 < N" using assms(7,8) by (auto simp: N_def)
  have "cb_out cb < N" "cb_in cb < N" using o i b by (auto split: if_splits)
  note b = b this
  show "cbuf_reused cb = r"
    unfolding cbuf_reused_def N_def [symmetric] using o b by (subst mod_once) (auto split: if_splits)
  have "N - 1 - cb_used cb = (cb_out cb + N - cb_in cb - 1) mod N"
    using o i b by (subst mod_once) (auto split: if_splits)
  moreover have "if cb_out cb \<le> cb_in cb then cb_in cb < cb_rep cb \<or> cb_rep cb \<le> cb_out cb else cb_in cb < cb_rep cb \<and> cb_rep cb \<le> cb_out cb"
    using o i b by (auto split: if_splits)
  ultimately show "wf_cbuf cb" using assms b unfolding wf_cbuf_def cbuf_is_valid_def by (simp add: N_def)
qed

text \<open>
  What a buffer holds: the bytes that can be replayed and the unread ones, both at
  the end of the bytes before the write index.
\<close>

definition history :: "cbuf \<Rightarrow> u8 list" where
  "history cb = ring (cb_data cb) (cb_in cb) (cb_size cb + 1)"

definition unread :: "cbuf \<Rightarrow> u8 list" where
  "unread cb = last_n (cb_used cb) (history cb)"

definition stored :: "cbuf \<Rightarrow> u8 list" where
  "stored cb = last_n (cbuf_reused cb + cb_used cb) (history cb)"

definition replay :: "cbuf \<Rightarrow> u8 list" where
  "replay cb = take (cbuf_reused cb) (stored cb)"

lemma wf_data: "wf_cbuf cb \<Longrightarrow> length (cb_data cb) = cb_size cb + 1" "wf_cbuf cb \<Longrightarrow> cb_alloc cb = cb_size cb + 1"
  "wf_cbuf cb \<Longrightarrow> cb_out cb \<le> cb_size cb" "wf_cbuf cb \<Longrightarrow> cb_in cb \<le> cb_size cb" "wf_cbuf cb \<Longrightarrow> cb_rep cb \<le> cb_size cb"
  "wf_cbuf cb \<Longrightarrow> cb_used cb \<le> cb_size cb" "wf_cbuf cb \<Longrightarrow> 0 < cb_size cb" "wf_cbuf cb \<Longrightarrow> cb_size cb \<le> cb_maxsize cb"
  by (auto simp: wf_cbuf_def cbuf_is_valid_def)

lemma length_history [simp]: "length (history cb) = cb_size cb + 1"
  by (simp add: history_def)

lemma wf_lengths:
  assumes "wf_cbuf cb"
  shows "length (unread cb) = cb_used cb" "length (stored cb) = cbuf_reused cb + cb_used cb" "length (replay cb) = cbuf_reused cb"
    "stored cb = replay cb @ unread cb"
proof -
  note r = wf_indices(3) [OF assms]
  show "length (unread cb) = cb_used cb" "length (stored cb) = cbuf_reused cb + cb_used cb" "length (replay cb) = cbuf_reused cb"
    using r by (simp_all add: unread_def stored_def replay_def)
  show "stored cb = replay cb @ unread cb"
    using take_last_n [of "cbuf_reused cb" "cb_used cb" "history cb"] r by (simp add: stored_def replay_def unread_def)
qed

text \<open>The last bytes before the write index start that many bytes earlier.\<close>

lemma ring_last:
  assumes "length d = N" "k \<le> N" "j < N" "i = (j + k) mod N"
  shows "last_n k (ring d i N) = ring d j k"
proof -
  have "(i + (N - k)) mod N = j"
  proof -
    have "(i + (N - k)) mod N = (j + k + (N - k)) mod N" using assms(4) by (simp add: mod_add_left_eq)
    also have "\<dots> = j" using assms(2,3) by simp
    finally show ?thesis .
  qed
  then have "ring d i N = ring d i (N - k) @ ring d j k" using ring_append [of d i "N - k" k] assms(1,2) by simp
  then show ?thesis by (simp add: last_n_def)
qed

lemma stored_ring:
  assumes "wf_cbuf cb"
  shows "unread cb = ring (cb_data cb) (cb_out cb) (cb_used cb)"
    "stored cb = ring (cb_data cb) (cb_rep cb) (cbuf_reused cb + cb_used cb)"
    "replay cb = ring (cb_data cb) (cb_rep cb) (cbuf_reused cb)"
proof -
  note i = wf_indices [OF assms] and d = wf_data [OF assms]
  show "unread cb = ring (cb_data cb) (cb_out cb) (cb_used cb)"
    unfolding unread_def history_def by (rule ring_last) (use i d in auto)
  have "cb_in cb = (cb_rep cb + (cbuf_reused cb + cb_used cb)) mod (cb_size cb + 1)"
    using i(1,2) by (metis add.assoc mod_add_left_eq)
  then show s: "stored cb = ring (cb_data cb) (cb_rep cb) (cbuf_reused cb + cb_used cb)"
    unfolding stored_def history_def by (intro ring_last) (use i d in auto)
  then show "replay cb = ring (cb_data cb) (cb_rep cb) (cbuf_reused cb)" by (simp add: replay_def ring_append)
qed

subsection \<open>Reading\<close>

text \<open>
  Where bytes go: a function that takes them in order, as many as it says, and no
  more than it is given. \<open>sunk d bs d'\<close> says that \<open>bs\<close> went in between two states.
\<close>

locale sink =
  fixes putf :: "'d putter" and sunk :: "'d \<Rightarrow> u8 list \<Rightarrow> 'd \<Rightarrow> bool"
  assumes sunk_nothing: "sunk d [] d"
    and sunk_more: "sunk d xs d' \<Longrightarrow> sunk d' ys d'' \<Longrightarrow> sunk d (xs @ ys) d''"
    and put_bytes: "bs \<noteq> [] \<Longrightarrow> \<exists>d' m. putf d bs = Some (d', m) \<and> m \<le> int (length bs) \<and> sunk d (take (nat m) bs) d'"
begin

definition eager :: bool where
  "eager \<longleftrightarrow> (\<forall>d bs d' m. bs \<noteq> [] \<longrightarrow> putf d bs = Some (d', m) \<longrightarrow> m = int (length bs))"

lemma out_loop_spec:
  assumes "length (cb_data cb) = cb_size cb + 1" "i \<le> cb_size cb"
  shows "\<exists>d' left m'. out_loop putf cb nleft i d m = Some (d', left, m') \<and> left \<le> nleft
    \<and> sunk d (take (nleft - left) (ring (cb_data cb) i nleft)) d'
    \<and> (left = nleft \<longrightarrow> 0 < nleft \<longrightarrow> m' \<le> 0) \<and> (eager \<longrightarrow> left = 0)"
  using assms(2)
proof (induction nleft arbitrary: i d m rule: less_induct)
  case (less nleft)
  let ?N = "cb_size cb + 1"
  show ?case
  proof (cases "nleft = 0")
    case True
    then show ?thesis using sunk_nothing by (subst out_loop.simps) simp
  next
    case False
    define n where "n = min nleft (?N - i)"
    have n: "0 < n" "n \<le> nleft" "i + n \<le> ?N" using False less.prems by (auto simp: n_def)
    have ld: "load_bytes (cb_data cb) i n = Some (ring (cb_data cb) i n)"
      using n(3) assms(1) by (simp add: load_bytes_def ring_slice)
    have ne: "ring (cb_data cb) i n \<noteq> []" using n(1) by (metis length_ring list.size(3) not_less0)
    obtain d1 m1 where p: "putf d (ring (cb_data cb) i n) = Some (d1, m1)" "m1 \<le> int n"
      "sunk d (take (nat m1) (ring (cb_data cb) i n)) d1" using put_bytes [OF ne, of d] by auto
    have split: "ring (cb_data cb) i nleft = ring (cb_data cb) i n @ ring (cb_data cb) ((i + n) mod ?N) (nleft - n)"
      using ring_append [of "cb_data cb" i n "nleft - n"] n(2) assms(1) by simp
    have e: "out_loop putf cb nleft i d m = (if int n \<noteq> m1 then Some (d1, if m1 > 0 then nleft - nat m1 else nleft, m1)
        else out_loop putf cb (nleft - n) ((i + n) mod ?N) d1 m1)"
      by (subst out_loop.simps, unfold Let_def n_def [symmetric]) (simp add: False ld p(1))
    show ?thesis
    proof (cases "int n = m1")
      case True
      have "\<exists>d' left m'. out_loop putf cb (nleft - n) ((i + n) mod ?N) d1 m1 = Some (d', left, m') \<and> left \<le> nleft - n
        \<and> sunk d1 (take (nleft - n - left) (ring (cb_data cb) ((i + n) mod ?N) (nleft - n))) d'
        \<and> (left = nleft - n \<longrightarrow> 0 < nleft - n \<longrightarrow> m' \<le> 0) \<and> (eager \<longrightarrow> left = 0)"
        by (rule less.IH) (use n in \<open>auto simp: less_Suc_eq_le [symmetric]\<close>)
      then obtain d' left m' where r: "out_loop putf cb (nleft - n) ((i + n) mod ?N) d1 m1 = Some (d', left, m')" "left \<le> nleft - n"
        "sunk d1 (take (nleft - n - left) (ring (cb_data cb) ((i + n) mod ?N) (nleft - n))) d'" "eager \<longrightarrow> left = 0" by blast
      have "nat m1 = n" using True by simp
      then have "sunk d (take (nleft - left) (ring (cb_data cb) i nleft)) d'"
        using r(2) sunk_more [OF p(3) r(3)] n(2) by (simp add: split add.commute [of n left])
      then show ?thesis using e True r n by auto
    next
      case short: False
      define k where "k = nat m1"
      have k: "k < n" using p(2) short n(1) by (auto simp: k_def)
      have "e = (if m1 > 0 then nleft - nat m1 else nleft) \<Longrightarrow> e = nleft - k" for e by (auto simp: k_def)
      then have e1: "out_loop putf cb nleft i d m = Some (d1, nleft - k, m1)" using e short by simp
      have "sunk d (take (nleft - (nleft - k)) (ring (cb_data cb) i nleft)) d1"
        using p(3) k n(2) by (simp add: split k_def)
      moreover have "nleft - k = nleft \<longrightarrow> m1 \<le> 0" using k n(2) by (auto simp: k_def)
      moreover have "\<not> eager" using short p(1) ne unfolding eager_def by (metis length_ring)
      ultimately show ?thesis using e1 by auto
    qed
  qed
qed

lemma cbuf_reader_spec:
  assumes "wf_cbuf cb"
  shows "\<exists>d' n. cbuf_reader putf cb len d = Some (d', n) \<and> n \<le> int (min len (cb_used cb))
    \<and> sunk d (take (nat n) (unread cb)) d' \<and> (eager \<longrightarrow> n = int (min len (cb_used cb)))"
proof (cases "min len (cb_used cb) = 0")
  case True
  then show ?thesis using sunk_nothing by (simp add: cbuf_reader_def)
next
  case False
  define k where "k = min len (cb_used cb)"
  note w = wf_data [OF assms]
  obtain d' left m' where r: "out_loop putf cb k (cb_out cb) d 0 = Some (d', left, m')" "left \<le> k"
    "sunk d (take (k - left) (ring (cb_data cb) (cb_out cb) k)) d'" "left = k \<longrightarrow> 0 < k \<longrightarrow> m' \<le> 0" "eager \<longrightarrow> left = 0"
    using out_loop_spec [OF w(1,3), of k d 0] by blast
  have u: "take j (unread cb) = take j (ring (cb_data cb) (cb_out cb) k)" if "j \<le> k" for j
    using that ring_append [of "cb_data cb" "cb_out cb" k "cb_used cb - k"] by (simp add: stored_ring(1) [OF assms] k_def)
  have e: "cbuf_reader putf cb len d = Some (d', if k - left = 0 then m' else int (k - left))"
    using False r(1) by (simp add: cbuf_reader_def k_def [symmetric] Let_def)
  show ?thesis
  proof (cases "left = k")
    case True
    then show ?thesis using e r False u [of 0] by (auto simp: k_def [symmetric])
  next
    case ne: False
    then have "sunk d (take (k - left) (unread cb)) d'" using r(2,3) u [of "k - left"] by simp
    moreover have "nat (int k - int left) = k - left" using r(2) by (simp add: nat_diff_distrib)
    ultimately show ?thesis using e r(2,5) ne by (auto simp: k_def [symmetric])
  qed
qed

lemma cbuf_replayer_spec:
  fixes len :: nat
  assumes "wf_cbuf cb"
  defines "k \<equiv> min len (cbuf_reused cb)"
  shows "\<exists>d' n. cbuf_replayer putf cb len d = Some (d', n) \<and> n \<le> int k
    \<and> sunk d (take (nat n) (last_n k (replay cb))) d' \<and> (eager \<longrightarrow> n = int k)"
proof (cases "k = 0")
  case True
  then show ?thesis using sunk_nothing by (simp add: cbuf_replayer_def k_def)
next
  case False
  define i where "i = (cb_out cb + (cb_size cb + 1) - k) mod (cb_size cb + 1)"
  note w = wf_data [OF assms(1)] and x = wf_indices [OF assms(1)]
  have kr: "k \<le> cbuf_reused cb" "k \<le> cb_size cb" using x(3) by (simp_all add: k_def)
  have il: "i \<le> cb_size cb" by (simp add: i_def less_Suc_eq_le [symmetric])
  have ri: "ring (cb_data cb) i k = last_n k (replay cb)"
  proof -
    have "replay cb = ring (cb_data cb) (cb_rep cb) (cbuf_reused cb - k) @ ring (cb_data cb) ((cb_rep cb + (cbuf_reused cb - k)) mod (cb_size cb + 1)) k"
      using ring_append [of "cb_data cb" "cb_rep cb" "cbuf_reused cb - k" k] kr(1) w(1) by (simp add: stored_ring(3) [OF assms(1)])
    moreover have "(cb_rep cb + (cbuf_reused cb - k)) mod (cb_size cb + 1) = i"
    proof -
      have "i = ((cb_rep cb + cbuf_reused cb) mod (cb_size cb + 1) + (cb_size cb + 1 - k)) mod (cb_size cb + 1)"
        using x(1) kr by (simp add: i_def)
      also have "\<dots> = (cb_rep cb + cbuf_reused cb + (cb_size cb + 1 - k)) mod (cb_size cb + 1)" by (rule mod_add_left_eq)
      also have "cb_rep cb + cbuf_reused cb + (cb_size cb + 1 - k) = cb_rep cb + (cbuf_reused cb - k) + (cb_size cb + 1)" using kr by simp
      finally show ?thesis by (metis mod_add_self2)
    qed
    ultimately show ?thesis by (simp add: last_n_def)
  qed
  obtain d' left m' where r: "out_loop putf cb k i d 0 = Some (d', left, m')" "left \<le> k"
    "sunk d (take (k - left) (ring (cb_data cb) i k)) d'" "left = k \<longrightarrow> 0 < k \<longrightarrow> m' \<le> 0" "eager \<longrightarrow> left = 0"
    using out_loop_spec [OF w(1) il, of k d 0] by blast
  have e: "cbuf_replayer putf cb len d = Some (d', if k - left = 0 then m' else int (k - left))"
    using False r(1) by (simp add: cbuf_replayer_def k_def [symmetric] Let_def i_def)
  moreover have "nat (int k - int left) = k - left" using r(2) by (simp add: nat_diff_distrib)
  ultimately show ?thesis using r ri False by (cases "left = k") auto
qed

end

interpretation mem: sink cbuf_put_mem "\<lambda>d bs d'. d' = d @ bs"
  by unfold_locales (simp_all add: cbuf_put_mem_def)

lemma mem_eager: "mem.eager"
  by (simp add: mem.eager_def cbuf_put_mem_def)

subsection \<open>Moving the read index\<close>

lemma dropper_spec:
  assumes "wf_cbuf cb" "len \<le> cb_used cb"
  shows "wf_cbuf (cbuf_dropper cb len)" "unread (cbuf_dropper cb len) = drop len (unread cb)"
    "replay (cbuf_dropper cb len) = replay cb @ take len (unread cb)"
proof -
  let ?cb = "cb\<lparr>cb_used := cb_used cb - len, cb_out := (cb_out cb + len) mod (cb_size cb + 1)\<rparr>"
  have c: "cbuf_dropper cb len = ?cb" by (simp add: cbuf_dropper_def cbuf_shrink_def Let_def)
  note i = wf_indices [OF assms(1)]
  have v: "cb_alloc cb = cb_size cb + 1" "length (cb_data cb) = cb_size cb + 1" "0 < cb_minsize cb" "cb_minsize cb \<le> cb_size cb"
    "cb_size cb \<le> cb_maxsize cb" "cb_got_wrap cb \<or> cb_rep cb = 0" "cb_rep cb \<le> cb_size cb"
    using assms(1) by (auto simp: wf_cbuf_def cbuf_is_valid_def)
  have o: "cb_out ?cb = (cb_rep ?cb + (cbuf_reused cb + len)) mod (cb_size ?cb + 1)"
    using i(1) by (simp add: mod_add_left_eq add.assoc)
  have n: "cb_in ?cb = (cb_rep ?cb + (cbuf_reused cb + len) + cb_used ?cb) mod (cb_size ?cb + 1)"
  proof -
    have "cb_in cb = (cb_rep cb + cbuf_reused cb + cb_used cb) mod (cb_size cb + 1)" using i(1,2) by (metis mod_add_left_eq)
    then show ?thesis using assms(2) by (simp add: add.assoc)
  qed
  have w: "wf_cbuf ?cb" "cbuf_reused ?cb = cbuf_reused cb + len"
    by (rule wf_cbufI [of ?cb "cbuf_reused cb + len"]; use v o n i(3) assms(2) in simp)+
  have s: "stored ?cb = stored cb"
    using assms(2) w(2) by (simp add: stored_def history_def)
  have l: "stored ?cb = replay ?cb @ unread ?cb" "stored cb = replay cb @ unread cb" "length (replay ?cb) = length (replay cb) + len"
    "len \<le> length (unread cb)"
    using wf_lengths [OF w(1)] wf_lengths [OF assms(1)] w(2) assms(2) by simp_all
  have "replay ?cb = take (length (replay cb) + len) (stored cb)" using l(1,3) s by (metis append_eq_conv_conj)
  then have r: "replay ?cb = replay cb @ take len (unread cb)" using l(2) by simp
  then have "unread ?cb = drop len (unread cb)" using l(1,2,4) s by (metis append.assoc append_take_drop_id same_append_eq)
  then show "wf_cbuf (cbuf_dropper cb len)" "unread (cbuf_dropper cb len) = drop len (unread cb)"
    "replay (cbuf_dropper cb len) = replay cb @ take len (unread cb)"
    using w(1) r c by simp_all
qed

lemma rewinder_spec:
  assumes "wf_cbuf cb" "len \<le> cbuf_reused cb"
  shows "wf_cbuf (cbuf_rewinder cb len)" "unread (cbuf_rewinder cb len) = last_n len (replay cb) @ unread cb"
    "replay (cbuf_rewinder cb len) = take (cbuf_reused cb - len) (replay cb)"
proof -
  let ?cb = "cbuf_rewinder cb len"
  note i = wf_indices [OF assms(1)]
  have v: "cb_alloc cb = cb_size cb + 1" "length (cb_data cb) = cb_size cb + 1" "0 < cb_minsize cb" "cb_minsize cb \<le> cb_size cb"
    "cb_size cb \<le> cb_maxsize cb" "cb_got_wrap cb \<or> cb_rep cb = 0" "cb_rep cb \<le> cb_size cb" "cb_out cb \<le> cb_size cb"
    using assms(1) by (auto simp: wf_cbuf_def cbuf_is_valid_def)
  have o: "cb_out ?cb = (cb_rep ?cb + (cbuf_reused cb - len)) mod (cb_size ?cb + 1)"
  proof -
    have "cb_out ?cb = (cb_out cb + (cb_size cb + 1 - len)) mod (cb_size cb + 1)" using assms(2) i(3) by (simp add: cbuf_rewinder_def)
    also have "\<dots> = (cb_rep cb + cbuf_reused cb + (cb_size cb + 1 - len)) mod (cb_size cb + 1)" using i(1) by (metis mod_add_left_eq)
    also have "cb_rep cb + cbuf_reused cb + (cb_size cb + 1 - len) = cb_rep cb + (cbuf_reused cb - len) + (cb_size cb + 1)"
      using assms(2) i(3) by simp
    finally show ?thesis by (simp only: mod_add_self2) (simp add: cbuf_rewinder_def)
  qed
  have n: "cb_in ?cb = (cb_rep ?cb + (cbuf_reused cb - len) + cb_used ?cb) mod (cb_size ?cb + 1)"
  proof -
    have "cb_in cb = (cb_rep cb + cbuf_reused cb + cb_used cb) mod (cb_size cb + 1)" using i(1,2) by (metis mod_add_left_eq)
    moreover have "cb_rep cb + (cbuf_reused cb - len) + (cb_used cb + len) = cb_rep cb + cbuf_reused cb + cb_used cb" using assms(2) by simp
    ultimately show ?thesis by (simp add: cbuf_rewinder_def add.assoc)
  qed
  have w: "wf_cbuf ?cb" "cbuf_reused ?cb = cbuf_reused cb - len"
    by (rule wf_cbufI [of ?cb "cbuf_reused cb - len"]; (rule o n)?; use v i(3) assms(2) in \<open>simp add: cbuf_rewinder_def\<close>)+
  have s: "stored ?cb = stored cb" using assms(2) w(2) by (simp add: stored_def history_def cbuf_rewinder_def)
  have l: "stored ?cb = replay ?cb @ unread ?cb" "stored cb = replay cb @ unread cb" "length (replay ?cb) = length (replay cb) - len"
    "length (replay cb) = cbuf_reused cb" using wf_lengths [OF w(1)] wf_lengths [OF assms(1)] w(2) by simp_all
  have "replay ?cb = take (length (replay cb) - len) (stored cb)" using l(1,3) s by (metis append_eq_conv_conj)
  then show r: "replay ?cb = take (cbuf_reused cb - len) (replay cb)" using l(2,4) by simp
  have "replay cb = take (cbuf_reused cb - len) (replay cb) @ last_n len (replay cb)" using l(4) by (simp add: last_n_def)
  then show "unread ?cb = last_n len (replay cb) @ unread cb" using r l(1,2) s by (metis append.assoc same_append_eq)
  show "wf_cbuf ?cb" by (rule w)
qed

subsection \<open>Growing\<close>

lemma stored_flat:
  assumes "wf_cbuf cb"
  shows "stored cb = (if cb_rep cb \<le> cb_in cb then take (cb_in cb - cb_rep cb) (drop (cb_rep cb) (cb_data cb))
    else drop (cb_rep cb) (cb_data cb) @ take (cb_in cb) (cb_data cb))"
    and "cbuf_reused cb + cb_used cb = (if cb_rep cb \<le> cb_in cb then cb_in cb - cb_rep cb else cb_size cb + 1 - cb_rep cb + cb_in cb)"
proof -
  define N where "N = cb_size cb + 1"
  define k where "k = cbuf_reused cb + cb_used cb"
  note d = wf_data [OF assms] and i = wf_indices [OF assms]
  have b: "cb_rep cb < N" "k < N" "cb_in cb < N" "length (cb_data cb) = N" using d i(3) by (auto simp: N_def k_def)
  have "cb_in cb = (cb_rep cb + k) mod N" using i(1,2) by (metis add.assoc k_def N_def mod_add_left_eq)
  then have inn: "cb_in cb = (if cb_rep cb + k < N then cb_rep cb + k else cb_rep cb + k - N)" using b by (subst (asm) mod_once) auto
  show k: "k = (if cb_rep cb \<le> cb_in cb then cb_in cb - cb_rep cb else cb_size cb + 1 - cb_rep cb + cb_in cb)"
    using inn b unfolding N_def [symmetric] by (auto split: if_splits)
  have s: "stored cb = ring (cb_data cb) (cb_rep cb) k" using stored_ring(2) [OF assms] by (simp add: k_def)
  show "stored cb = (if cb_rep cb \<le> cb_in cb then take (cb_in cb - cb_rep cb) (drop (cb_rep cb) (cb_data cb))
    else drop (cb_rep cb) (cb_data cb) @ take (cb_in cb) (cb_data cb))"
  proof (cases "cb_rep cb \<le> cb_in cb")
    case True
    then show ?thesis using s k b ring_slice [of "cb_rep cb" k "cb_data cb"] by simp
  next
    case False
    then have kk: "k = (N - cb_rep cb) + cb_in cb" using k by (simp add: N_def)
    have "(cb_rep cb + (N - cb_rep cb)) mod length (cb_data cb) = 0" using b by simp
    then show ?thesis
      using False s b ring_slice [of "cb_rep cb" "N - cb_rep cb" "cb_data cb"] ring_slice [of 0 "cb_in cb" "cb_data cb"]
      unfolding kk ring_append by simp
  qed
qed

text \<open>Everything that an operation on the contents does not touch.\<close>

definition same_kind :: "cbuf \<Rightarrow> cbuf \<Rightarrow> bool" where
  "same_kind cb cb' \<longleftrightarrow> cb_minsize cb' = cb_minsize cb \<and> cb_maxsize cb' = cb_maxsize cb \<and> cb_overwrite cb' = cb_overwrite cb"

lemma grow_spec:
  assumes "wf_cbuf cb"
  shows "\<exists>cb' g. cbuf_grow cb n = Some (cb', g) \<and> wf_cbuf cb' \<and> same_kind cb cb' \<and> cb_size cb' = cb_size cb + g
    \<and> cb_used cb' = cb_used cb \<and> cb_got_wrap cb' = cb_got_wrap cb \<and> stored cb' = stored cb \<and> cbuf_reused cb' = cbuf_reused cb
    \<and> (g < n \<longrightarrow> cb_size cb' = cb_maxsize cb)"
proof (cases "cb_size cb = cb_maxsize cb")
  case True
  then show ?thesis using assms by (simp add: cbuf_grow_def same_kind_def)
next
  case False
  have v: "cb_alloc cb = cb_size cb + 1" "length (cb_data cb) = cb_size cb + 1" "0 < cb_minsize cb" "cb_minsize cb \<le> cb_size cb"
    "cb_size cb \<le> cb_maxsize cb" "cb_got_wrap cb \<or> cb_rep cb = 0" "cb_rep cb \<le> cb_size cb" "cb_out cb \<le> cb_size cb" "cb_in cb \<le> cb_size cb"
    using assms by (auto simp: wf_cbuf_def cbuf_is_valid_def)
  note i = wf_indices [OF assms] and f = stored_flat [OF assms]
  define a where "a = cb_alloc cb + n"
  define m where "m = min (a + (CBUF_CHUNK - a mod CBUF_CHUNK)) (cb_maxsize cb + 1)"
  define N where "N = cb_size cb + 1"
  have "a mod CBUF_CHUNK < CBUF_CHUNK" by (simp add: CBUF_CHUNK_def)
  then obtain c where c: "CBUF_CHUNK - a mod CBUF_CHUNK = Suc c" by (metis Suc_diff_Suc)
  have m: "N < m" "m \<le> cb_maxsize cb + 1" "m - N < n \<longrightarrow> m = cb_maxsize cb + 1"
    using False v(1,5) unfolding m_def c by (auto simp: a_def N_def)
  have mx: "m - N < n \<longrightarrow> cb_size cb + m - N = cb_maxsize cb" using m by (auto simp: N_def)
  let ?c = "cb\<lparr>cb_data := cb_data cb @ replicate (m - N) 0, cb_alloc := m, cb_size := m - 1\<rparr>"
  have g: "cbuf_grow cb n = map_option (\<lambda>cb'. (cb', cb_size cb' - cb_size cb))
      (if cb_in cb < cb_rep cb
       then Option.bind (load_bytes (cb_data ?c) (cb_rep cb) (N - cb_rep cb)) (\<lambda>bs.
              map_option (\<lambda>data. ?c\<lparr>cb_data := data, cb_out := (if cb_rep cb \<le> cb_out cb then cb_out cb + (m - (N - cb_rep cb)) - cb_rep cb else cb_out cb),
                  cb_rep := m - (N - cb_rep cb)\<rparr>) (store_bytes (cb_data ?c) (m - (N - cb_rep cb)) bs))
       else Some ?c)"
  proof -
    have e: "cb_alloc cb - cb_size cb = 1" "take m (cb_data cb) = cb_data cb" "length (cb_data cb) = N" using v(1,2) m(1) by (simp_all add: N_def)
    show ?thesis unfolding cbuf_grow_def Let_def a_def [symmetric] e(1) m_def [symmetric] e(2,3)
      using False m(1) by (simp add: N_def)
  qed
  have sz: "cb_size ?c = cb_size cb + (m - N)" using m(1) by (simp add: N_def)
  show ?thesis
  proof (cases "cb_in cb < cb_rep cb")
    case False
    then have k: "cbuf_reused cb + cb_used cb = cb_in cb - cb_rep cb" using f(2) by simp
    have o: "cb_out cb = cb_rep cb + cbuf_reused cb"
    proof -
      have "cb_rep cb + cbuf_reused cb < N" using k False v(9) by (simp add: N_def)
      then show ?thesis using i(1) by (simp add: N_def)
    qed
    have w: "wf_cbuf ?c" "cbuf_reused ?c = cbuf_reused cb"
      by (rule wf_cbufI [of ?c "cbuf_reused cb"]; use v m k False o in \<open>simp add: N_def\<close>)+
    have "stored ?c = stored cb" using f stored_flat [OF w(1)] False v(2,9) by simp
    then have "wf_cbuf ?c \<and> same_kind cb ?c \<and> cb_size ?c = cb_size cb + (m - N) \<and> cb_used ?c = cb_used cb \<and> cb_got_wrap ?c = cb_got_wrap cb
      \<and> stored ?c = stored cb \<and> cbuf_reused ?c = cbuf_reused cb \<and> (m - N < n \<longrightarrow> cb_size ?c = cb_maxsize cb)"
      using w sz m mx by (simp add: same_kind_def)
    moreover have "cbuf_grow cb n = Some (?c, m - N)" using g False m(1) by (simp add: N_def)
    ultimately show ?thesis by blast
  next
    case True
    define b where "b = drop (cb_rep cb) (cb_data cb)"
    define p where "p = m - (N - cb_rep cb)"
    have b: "length b = N - cb_rep cb" using v(2) by (simp add: b_def N_def)
    have p: "cb_rep cb < p" "p + length b = m" "cb_in cb < p" "p < m" using m(1) v(7) True b by (auto simp: p_def N_def)
    define d where "d = take p (cb_data ?c) @ b"
    have d: "length d = m" using p m(1) v(2) by (simp add: d_def N_def)
    have ld: "load_bytes (cb_data ?c) (cb_rep cb) (N - cb_rep cb) = Some b"
      using v(2,7) by (simp add: load_bytes_def b_def N_def)
    have st: "store_bytes (cb_data ?c) p b = Some d"
      using p m(1) v(2) by (simp add: store_bytes_def d_def N_def)
    let ?o = "if cb_rep cb \<le> cb_out cb then cb_out cb + p - cb_rep cb else cb_out cb"
    let ?e = "?c\<lparr>cb_data := d, cb_out := ?o, cb_rep := p\<rparr>"
    have e: "cbuf_grow cb n = Some (?e, cb_size ?e - cb_size cb)" unfolding g p_def [symmetric] using True ld st by simp
    have k: "cbuf_reused cb + cb_used cb = N - cb_rep cb + cb_in cb" using f(2) True by (simp add: N_def)
    have o: "cb_out cb = (if cb_rep cb + cbuf_reused cb < N then cb_rep cb + cbuf_reused cb else cb_rep cb + cbuf_reused cb - N)"
      using i(1,3) v(7) unfolding N_def [symmetric] by (subst (asm) mod_once) (auto simp: N_def)
    have o': "?o = (p + cbuf_reused cb) mod m"
      using o p b v(7) k i(3) m(1) by (subst mod_once) (auto simp: N_def add.commute split: if_splits)
    have i': "cb_in cb = (p + cbuf_reused cb + cb_used cb) mod m"
      using k p b v(7,9) m(1) by (simp add: add.assoc le_mod_geq N_def)
    have w: "wf_cbuf ?e" "cbuf_reused ?e = cbuf_reused cb"
      by (rule wf_cbufI [of ?e "cbuf_reused cb"]; use v m p d o' i' i(3) True in \<open>simp add: N_def\<close>)+
    have "stored ?e = stored cb"
    proof -
      have "take (cb_in cb) d = take (cb_in cb) (cb_data cb)" using p(3) v(2,9) by (simp add: d_def)
      moreover have "drop p d = b" using p m(1) v(2) by (simp add: d_def N_def)
      ultimately show ?thesis using f(1) stored_flat(1) [OF w(1)] True p(3) by (simp add: b_def)
    qed
    then have "wf_cbuf ?e \<and> same_kind cb ?e \<and> cb_size ?e = cb_size cb + (m - N) \<and> cb_used ?e = cb_used cb \<and> cb_got_wrap ?e = cb_got_wrap cb
      \<and> stored ?e = stored cb \<and> cbuf_reused ?e = cbuf_reused cb \<and> (m - N < n \<longrightarrow> cb_size ?e = cb_maxsize cb)"
      using w sz m mx by (simp add: same_kind_def)
    moreover have "cbuf_grow cb n = Some (?e, m - N)" using e m(1) by (simp add: N_def)
    ultimately show ?thesis by blast
  qed
qed

subsection \<open>Writing\<close>

lemma last_n_append_last: "last_n k (last_n u xs @ ys) = last_n (min k (u + length ys)) (xs @ ys)"
proof -
  have "min k (u + length ys) - length ys = min (k - length ys) u" by arith
  moreover have "take (min k (u + length ys)) (rev ys) = take k (rev ys)" by (cases "k \<le> u + length ys") auto
  ultimately show ?thesis by (simp add: last_n_rev)
qed

text \<open>
  The state after bytes have been written: both the stored and the unread data are
  the end of what they were with the new bytes appended.
\<close>

lemma written_spec:
  assumes "wf_cbuf cb" "bs \<noteq> []"
  defines "cb' \<equiv> written_state (cb\<lparr>cb_data := write_ring (cb_data cb) (cb_in cb) bs\<rparr>) (cb_size cb - cb_used cb) (length bs)
      ((cb_in cb + length bs) mod (cb_size cb + 1))"
  shows "wf_cbuf cb' \<and> same_kind cb cb' \<and> cb_size cb' = cb_size cb \<and> stored cb' = last_n (cb_size cb) (stored cb @ bs)
    \<and> unread cb' = last_n (cb_size cb) (unread cb @ bs)"
proof -
  have v: "cb_alloc cb = cb_size cb + 1" "length (cb_data cb) = cb_size cb + 1" "0 < cb_minsize cb" "cb_minsize cb \<le> cb_size cb"
    "cb_size cb \<le> cb_maxsize cb" "cb_got_wrap cb \<or> cb_rep cb = 0" "cb_rep cb \<le> cb_size cb" "cb_out cb \<le> cb_size cb"
    "cb_in cb \<le> cb_size cb" "cb_used cb \<le> cb_size cb"
    using assms by (auto simp: wf_cbuf_def cbuf_is_valid_def)
  note i = wf_indices [OF assms(1)]
  define N where "N = cb_size cb + 1"
  define n where "n = length bs"
  define r where "r = cbuf_reused cb"
  define u' where "u' = min (cb_used cb + n) (cb_size cb)"
  define r' where "r' = min r (cb_size cb - u')"
  define in' where "in' = (cb_in cb + n) mod N"
  have n: "0 < n" using assms(2) by (simp add: n_def)
  have ru: "r + cb_used cb \<le> cb_size cb" using i(3) by (simp add: r_def)
  have rr: "cbuf_reused (cb\<lparr>cb_data := x\<rparr>) = r" for x by (simp add: cbuf_reused_def r_def)
  define wraps where "wraps = (n > cb_size cb - cb_used cb - r)"
  define rep' where "rep' = (if wraps then (in' + 1) mod N else cb_rep cb)"
  define out' where "out' = (if n > cb_size cb - cb_used cb then rep' else cb_out cb)"
  have e: "cb' = cb\<lparr>cb_data := write_ring (cb_data cb) (cb_in cb) bs, cb_used := u', cb_in := in', cb_got_wrap := (cb_got_wrap cb \<or> wraps),
      cb_rep := rep', cb_out := out'\<rparr>"
    unfolding cb'_def written_state_def Let_def rr
    by (simp add: n_def [symmetric] N_def [simplified, symmetric] wraps_def in'_def rep'_def out'_def u'_def)
  have inn: "in' = (cb_rep cb + r + cb_used cb + n) mod N"
    using i(1,2) unfolding in'_def r_def N_def by (metis mod_add_left_eq)
  have modN: "0 < N" by (simp add: N_def)
  have o: "out' = (rep' + r') mod N"
  proof (cases "n > cb_size cb - cb_used cb")
    case True
    then have "wraps" "r' = 0" by (auto simp: wraps_def r'_def u'_def)
    then show ?thesis using True modN by (simp add: out'_def rep'_def)
  next
    case False
    show ?thesis
    proof (cases wraps)
      case True
      then have r': "r' = cb_size cb - (cb_used cb + n)" using False ru v(10) by (auto simp: wraps_def r'_def u'_def)
      have "(rep' + r') mod N = (in' + 1 + r') mod N" using True by (simp add: rep'_def mod_add_left_eq)
      also have "\<dots> = (cb_rep cb + r + cb_used cb + n + (1 + r')) mod N" unfolding inn by (metis add.assoc mod_add_left_eq)
      also have "cb_rep cb + r + cb_used cb + n + (1 + r') = cb_rep cb + r + N" using r' False v(10) by (simp add: N_def)
      also have "(cb_rep cb + r + N) mod N = cb_out cb" using i(1) unfolding r_def N_def by (simp only: mod_add_self2)
      finally show ?thesis using False by (simp add: out'_def)
    next
      case nw: False
      then have "r' = r" using ru n unfolding wraps_def r'_def u'_def by arith
      then show ?thesis using False nw i(1) by (simp add: out'_def rep'_def r_def N_def)
    qed
  qed
  have ii: "in' = (rep' + r' + u') mod N"
  proof (cases wraps)
    case True
    then have "r' + u' = cb_size cb" unfolding wraps_def r'_def u'_def by arith
    moreover have "(rep' + r' + u') mod N = (in' + 1 + (r' + u')) mod N" using True by (simp add: rep'_def mod_add_left_eq add.assoc)
    moreover have "(in' + 1 + cb_size cb) mod N = in'"
    proof -
      have "in' < N" using modN by (simp add: in'_def)
      moreover have "in' + 1 + cb_size cb = in' + N" by (simp add: N_def)
      ultimately show ?thesis by (metis mod_add_self2 mod_less)
    qed
    ultimately show ?thesis by metis
  next
    case False
    then have "r' = r" "u' = cb_used cb + n" using ru n unfolding wraps_def r'_def u'_def by arith+
    moreover have "rep' = cb_rep cb" using False by (simp add: rep'_def)
    ultimately show ?thesis using inn by (simp add: add.assoc)
  qed
  have rl: "rep' \<le> cb_size cb" using v(7) modN by (simp add: rep'_def N_def less_Suc_eq_le [symmetric])
  have ul: "r' + u' \<le> cb_size cb" by (auto simp: r'_def u'_def)
  have g: "cb_got_wrap cb' \<or> cb_rep cb' = 0" using v(6) by (auto simp: e rep'_def)
  have w: "wf_cbuf cb'" "cbuf_reused cb' = r'"
    by (rule wf_cbufI [of cb' r']; (rule g)?; use v o ii rl ul in \<open>simp add: e N_def\<close>)+
  have h: "history cb' = last_n N (history cb @ bs)"
    using ring_write_ring [of "cb_in cb" "cb_data cb" bs] v(2,9) by (simp add: history_def e N_def in'_def n_def)
  have "unread cb' = last_n u' (history cb @ bs)" unfolding unread_def h by (simp add: e u'_def N_def min_def)
  also have "\<dots> = last_n (cb_size cb) (unread cb @ bs)" by (simp add: unread_def last_n_append_last u'_def n_def min.commute)
  finally have un: "unread cb' = last_n (cb_size cb) (unread cb @ bs)" .
  have "r' + u' = min (cb_size cb) (r + cb_used cb + n)" by (auto simp: r'_def u'_def)
  then have "stored cb' = last_n (cb_size cb) (stored cb @ bs)"
    unfolding stored_def h w(2) by (simp add: e N_def last_n_append_last n_def r_def)
  then show ?thesis using w un by (simp add: e same_kind_def)
qed

lemma grow_for_spec:
  assumes "wf_cbuf cb"
  shows "\<exists>cb'. grow_for cb len = Some (cb', cb_size cb' - cb_used cb') \<and> wf_cbuf cb' \<and> same_kind cb cb' \<and> cb_size cb \<le> cb_size cb'
    \<and> min (cb_used cb + len) (cb_maxsize cb) \<le> cb_size cb' \<and> cb_used cb' = cb_used cb \<and> stored cb' = stored cb \<and> unread cb' = unread cb
    \<and> replay cb' = replay cb \<and> cb_got_wrap cb' = cb_got_wrap cb"
proof (cases "len > cb_size cb - cb_used cb \<and> cb_size cb < cb_maxsize cb")
  case False
  then show ?thesis using assms wf_data(6,8) [OF assms] by (auto simp: grow_for_def same_kind_def)
next
  case True
  define k where "k = len - (cb_size cb - cb_used cb)"
  obtain cb' g where g: "cbuf_grow cb k = Some (cb', g)" "wf_cbuf cb'" "same_kind cb cb'" "cb_size cb' = cb_size cb + g"
    "cb_used cb' = cb_used cb" "cb_got_wrap cb' = cb_got_wrap cb" "stored cb' = stored cb" "cbuf_reused cb' = cbuf_reused cb"
    "g < k \<longrightarrow> cb_size cb' = cb_maxsize cb"
    using grow_spec [OF assms, of k] by blast
  have "replay cb' = replay cb" using g(7,8) by (simp add: replay_def)
  moreover have "unread cb' = unread cb"
    using wf_lengths(4) [OF g(2)] wf_lengths(4) [OF assms] g(7) calculation by simp
  moreover have "min (cb_used cb + len) (cb_maxsize cb) \<le> cb_size cb'" using g(4,9) wf_data(6) [OF assms] by (cases "g < k") (auto simp: k_def)
  moreover have "grow_for cb len = Some (cb', cb_size cb' - cb_used cb')"
    using True g(1,4,5) wf_data(6) [OF assms] by (simp add: grow_for_def k_def [symmetric] Let_def)
  ultimately show ?thesis using g by auto
qed

text \<open>
  Where bytes come from: a function that gives at most as many as it is asked for.
  \<open>feed s bs s'\<close> says that \<open>bs\<close> came out between two states; \<open>ready s k\<close> that \<open>k\<close> bytes
  may be asked for.
\<close>

locale source =
  fixes getf :: "'s getter" and feed :: "'s \<Rightarrow> u8 list \<Rightarrow> 's \<Rightarrow> bool" and ready :: "'s \<Rightarrow> nat \<Rightarrow> bool"
  assumes feed_nothing: "feed s [] s"
    and feed_more: "feed s xs s' \<Longrightarrow> feed s' ys s'' \<Longrightarrow> feed s (xs @ ys) s''"
    and ready_less: "ready s k \<Longrightarrow> j \<le> k \<Longrightarrow> ready s j"
    and get_bytes: "0 < n \<Longrightarrow> n \<le> k \<Longrightarrow> ready s k \<Longrightarrow>
      \<exists>s' m bs. getf s n = Some (s', m, bs) \<and> m \<le> int n \<and> length bs = nat m \<and> feed s bs s' \<and> ready s' (k - nat m)"
begin

definition eager :: bool where
  "eager \<longleftrightarrow> (\<forall>s n s' m bs. 0 < n \<longrightarrow> getf s n = Some (s', m, bs) \<longrightarrow> m = int n)"

lemma in_loop_spec:
  assumes "length data = sz + 1" "i \<le> sz" "ready s nleft"
  shows "\<exists>s' left m' bs. in_loop getf sz data nleft i s m = Some (s', write_ring data i bs, left, (i + length bs) mod (sz + 1), m')
    \<and> left \<le> nleft \<and> length bs = nleft - left \<and> feed s bs s' \<and> (left = nleft \<longrightarrow> 0 < nleft \<longrightarrow> m' \<le> 0) \<and> (eager \<longrightarrow> left = 0)"
  using assms
proof (induction nleft arbitrary: i s m data rule: less_induct)
  case (less nleft)
  show ?case
  proof (cases "nleft = 0")
    case True
    then show ?thesis using less.prems(2) feed_nothing
      by (subst in_loop.simps) (auto intro: exI [of _ "[]"])
  next
    case False
    define n where "n = min nleft (sz + 1 - i)"
    have n: "0 < n" "n \<le> nleft" "i + n \<le> sz + 1" using False less.prems(2) by (auto simp: n_def)
    obtain s1 m1 bs1 where g: "getf s n = Some (s1, m1, bs1)" "m1 \<le> int n" "length bs1 = nat m1" "feed s bs1 s1" "ready s1 (nleft - nat m1)"
      using get_bytes [OF n(1,2) less.prems(3)] by blast
    have fit: "i + length bs1 \<le> length data" using g(2,3) n(3) less.prems(1) by linarith
    have st: "store_bytes data i bs1 = Some (write_ring data i bs1)" using fit by (simp add: store_bytes_def write_ring_slice)
    have e: "in_loop getf sz data nleft i s m = (if int n \<noteq> m1
        then Some (s1, write_ring data i bs1, if m1 > 0 then nleft - nat m1 else nleft, if m1 > 0 then (i + nat m1) mod (sz + 1) else i, m1)
        else in_loop getf sz (write_ring data i bs1) (nleft - n) ((i + n) mod (sz + 1)) s1 m1)"
      by (subst in_loop.simps, unfold Let_def n_def [symmetric]) (simp add: False g(1) st)
    show ?thesis
    proof (cases "int n = m1")
      case True
      then have l: "length bs1 = n" "nat m1 = n" using g(3) by auto
      have "\<exists>s' left m' bs. in_loop getf sz (write_ring data i bs1) (nleft - n) ((i + n) mod (sz + 1)) s1 m1
          = Some (s', write_ring (write_ring data i bs1) ((i + n) mod (sz + 1)) bs, left, ((i + n) mod (sz + 1) + length bs) mod (sz + 1), m')
        \<and> left \<le> nleft - n \<and> length bs = nleft - n - left \<and> feed s1 bs s' \<and> (left = nleft - n \<longrightarrow> 0 < nleft - n \<longrightarrow> m' \<le> 0) \<and> (eager \<longrightarrow> left = 0)"
        by (rule less.IH) (use n l g(5) less.prems(1) in \<open>auto simp: less_Suc_eq_le [symmetric]\<close>)
      then obtain s' left m' bs where r: "in_loop getf sz (write_ring data i bs1) (nleft - n) ((i + n) mod (sz + 1)) s1 m1
          = Some (s', write_ring (write_ring data i bs1) ((i + n) mod (sz + 1)) bs, left, ((i + n) mod (sz + 1) + length bs) mod (sz + 1), m')"
        "left \<le> nleft - n" "length bs = nleft - n - left" "feed s1 bs s'" "eager \<longrightarrow> left = 0" by blast
      have w: "write_ring data i (bs1 @ bs) = write_ring (write_ring data i bs1) ((i + n) mod (sz + 1)) bs"
        using write_ring_append [of i data bs1 bs] less.prems(1,2) l by simp
      have j: "((i + n) mod (sz + 1) + length bs) mod (sz + 1) = (i + length (bs1 @ bs)) mod (sz + 1)"
        by (metis add.assoc l(1) length_append mod_add_left_eq)
      have lt: "left < nleft" using r(2) n by linarith
      show ?thesis
        by (rule exI [of _ s'], rule exI [of _ left], rule exI [of _ m'], rule exI [of _ "bs1 @ bs"])
          (use lt e True r n l feed_more [OF g(4) r(4)] w j in auto)
    next
      case short: False
      have k: "length bs1 < n" using g(2,3) short n(1) by linarith
      have "(if m1 > 0 then nleft - nat m1 else nleft) = nleft - length bs1"
        "(if m1 > 0 then (i + nat m1) mod (sz + 1) else i) = (i + length bs1) mod (sz + 1)"
        using g(3) less.prems(2) by auto
      then have e1: "in_loop getf sz data nleft i s m = Some (s1, write_ring data i bs1, nleft - length bs1, (i + length bs1) mod (sz + 1), m1)"
        using e short by simp
      have "\<not> eager" using short g(1) n(1) unfolding eager_def by metis
      moreover have "nleft - length bs1 = nleft \<longrightarrow> m1 \<le> 0" using g(3) k n(2) by auto
      ultimately show ?thesis using e1 g(4) k n(2)
        by (intro exI [of _ s1] exI [of _ "nleft - length bs1"] exI [of _ m1] exI [of _ bs1]) auto
    qed
  qed
qed

text \<open>
  A write appends what it was given to the unread data and to all that is stored, and
  keeps what fits: the count, the dropped bytes, and that the buffer has grown as far
  as it must and may.
\<close>

lemma cbuf_writer_spec:
  assumes "wf_cbuf cb" "0 < len" "ready s len"
  shows "\<exists>cb' s' n d bs. cbuf_writer getf cb len s = Some (cb', s', n, d) \<and> wf_cbuf cb' \<and> same_kind cb cb' \<and> cb_size cb \<le> cb_size cb'
    \<and> min (cb_used cb + len) (cb_maxsize cb) \<le> cb_size cb' \<and> feed s bs s' \<and> length bs = nat n \<and> length bs \<le> len
    \<and> stored cb' = last_n (cb_size cb') (stored cb @ bs) \<and> unread cb' = last_n (cb_size cb') (unread cb @ bs)
    \<and> (0 < n \<longrightarrow> d = Some (cb_used cb + nat n - cb_size cb'))
    \<and> (cb_overwrite cb = CBUF_NO_DROP \<longrightarrow> cb_used cb + length bs \<le> cb_size cb')
    \<and> (eager \<longrightarrow> n = (if cb_overwrite cb = CBUF_NO_DROP then (if cb_used cb = cb_size cb' then - 1 else int (min len (cb_size cb' - cb_used cb)))
                       else if cb_overwrite cb = CBUF_WRAP_ONCE then int (min len (cb_size cb')) else int len))"
proof -
  obtain c where c: "grow_for cb len = Some (c, cb_size c - cb_used c)" "wf_cbuf c" "same_kind cb c" "cb_size cb \<le> cb_size c"
    "min (cb_used cb + len) (cb_maxsize cb) \<le> cb_size c" "cb_used c = cb_used cb" "stored c = stored cb" "unread c = unread cb"
    using grow_for_spec [OF assms(1), of len] by blast
  note w = wf_data [OF c(2)]
  define k where "k = bounded_len c len"
  have kl: "k \<le> len" "cb_overwrite cb = CBUF_NO_DROP \<longrightarrow> k = min len (cb_size c - cb_used c)"
    "cb_overwrite cb = CBUF_WRAP_ONCE \<longrightarrow> k = min len (cb_size c)" "cb_overwrite cb = CBUF_WRAP_MANY \<longrightarrow> k = len"
    using c(3) by (auto simp: k_def bounded_len_def same_kind_def split: cbuf_overwrite.splits)
  have full: "last_n (cb_size c) (stored cb) = stored cb" "last_n (cb_size c) (unread cb) = unread cb"
    using wf_lengths(1,2) [OF c(2)] wf_indices(3) [OF c(2)] w(6) c(7,8) by (auto intro!: last_n_all)
  have e: "cbuf_writer getf cb len s = (if k = 0 then Some (c, s, - 1, None)
      else map_option (\<lambda>(s, data, nleft, i_dst, m).
             if k - nleft = 0 then (c\<lparr>cb_data := data\<rparr>, s, m, None)
             else (written_state (c\<lparr>cb_data := data\<rparr>) (cb_size c - cb_used c) (k - nleft) i_dst, s, int (k - nleft), Some (k - nleft - (cb_size c - cb_used c))))
           (in_loop getf (cb_size c) (cb_data c) k (cb_in c) s 0))"
    by (simp add: cbuf_writer_def c(1) k_def [symmetric] Let_def)
  show ?thesis
  proof (cases "k = 0")
    case True
    then have "cb_overwrite cb = CBUF_NO_DROP" "cb_used c = cb_size c"
      using kl(2-4) assms(2) w(6,7) by (cases "cb_overwrite cb"; simp)+
    then show ?thesis using e True c full feed_nothing [of s]
      by (intro exI [of _ c] exI [of _ s] exI [of _ "- 1"] exI [of _ None] exI [of _ "[]"]) simp
  next
    case False
    obtain s' left m' bs where r: "in_loop getf (cb_size c) (cb_data c) k (cb_in c) s 0
        = Some (s', write_ring (cb_data c) (cb_in c) bs, left, (cb_in c + length bs) mod (cb_size c + 1), m')"
      "left \<le> k" "length bs = k - left" "feed s bs s'" "left = k \<longrightarrow> 0 < k \<longrightarrow> m' \<le> 0" "eager \<longrightarrow> left = 0"
      using in_loop_spec [OF w(1,4) ready_less [OF assms(3) kl(1)], of 0] by blast
    show ?thesis
    proof (cases "left = k")
      case True
      then have "bs = []" "m' \<le> 0" "\<not> eager" using r(3,5,6) False by auto
      then show ?thesis using e r(1,4) True c full False w(6)
        by (intro exI [of _ c] exI [of _ s'] exI [of _ m'] exI [of _ None] exI [of _ "[]"]) simp
    next
      case ne: False
      define n where "n = k - left"
      have n: "0 < n" "n \<le> len" "length bs = n" "bs \<noteq> []" using ne r(2,3) kl(1) by (auto simp: n_def)
      let ?c = "written_state (c\<lparr>cb_data := write_ring (cb_data c) (cb_in c) bs\<rparr>) (cb_size c - cb_used c) (length bs) ((cb_in c + length bs) mod (cb_size c + 1))"
      have wr: "wf_cbuf ?c" "same_kind c ?c" "cb_size ?c = cb_size c" "stored ?c = last_n (cb_size c) (stored c @ bs)"
        "unread ?c = last_n (cb_size c) (unread c @ bs)" using written_spec [OF c(2) n(4)] by blast+
      have ee: "cbuf_writer getf cb len s = Some (?c, s', int n, Some (n - (cb_size c - cb_used c)))"
        using e False r(1) n(1,3) by (simp add: n_def)
      have dr: "n - (cb_size c - cb_used c) = cb_used cb + n - cb_size c" using c(6) w(6) by simp
      have nd: "cb_overwrite cb = CBUF_NO_DROP \<longrightarrow> cb_used cb + n \<le> cb_size c" using kl(2) c(6) w(6) n_def by auto
      have eg: "eager \<longrightarrow> int n = (if cb_overwrite cb = CBUF_NO_DROP then (if cb_used cb = cb_size c then - 1 else int (min len (cb_size c - cb_used cb)))
                       else if cb_overwrite cb = CBUF_WRAP_ONCE then int (min len (cb_size c)) else int len)"
        using r(6) kl(2-4) c(6) False by (cases "cb_overwrite cb") (auto simp: n_def)
      have sk: "same_kind cb ?c" using c(3) wr(2) by (simp add: same_kind_def)
      define c' where "c' = ?c"
      note f = wr [folded c'_def] ee [folded c'_def] sk [folded c'_def]
      have d: "0 < int n \<longrightarrow> Some (n - (cb_size c - cb_used c)) = Some (cb_used cb + nat (int n) - cb_size c')" unfolding f(3) using dr by simp
      have z: "cb_size cb \<le> cb_size c'" "min (cb_used cb + len) (cb_maxsize cb) \<le> cb_size c'" "length bs = nat (int n)" "length bs \<le> len"
        "stored c' = last_n (cb_size c') (stored cb @ bs)" "unread c' = last_n (cb_size c') (unread cb @ bs)"
        "cb_overwrite cb = CBUF_NO_DROP \<longrightarrow> cb_used cb + length bs \<le> cb_size c'"
        unfolding f(3) using f(4,5) c(4,5,7,8) n(2,3) nd by simp_all
      show ?thesis using f(1,6,7) z r(4) d eg [folded f(3)] by blast
    qed
  qed
qed

end

interpretation mem_source: source cbuf_get_mem "\<lambda>s bs s'. s = bs @ s'" "\<lambda>s k. k \<le> length s"
  by unfold_locales (auto simp: cbuf_get_mem_def)

lemma mem_source_eager: "mem_source.eager"
  by (auto simp: mem_source.eager_def cbuf_get_mem_def split: if_splits)

subsection \<open>Copying between buffers\<close>

lemma copy_loop_spec:
  assumes "length (cb_data src) = cb_size src + 1" "is \<le> cb_size src" "length data = sz + 1" "j \<le> sz"
  shows "copy_loop src sz data k is j = Some (write_ring data j (ring (cb_data src) is k), (j + k) mod (sz + 1))"
  using assms(2-4)
proof (induction k arbitrary: "is" j data rule: less_induct)
  case (less k)
  show ?case
  proof (cases "k = 0")
    case True
    then show ?thesis using less.prems by (subst copy_loop.simps) simp
  next
    case False
    define n where "n = min (min (cb_size src + 1 - is) (sz + 1 - j)) k"
    have n: "0 < n" "n \<le> k" "is + n \<le> cb_size src + 1" "j + n \<le> sz + 1" using False less.prems by (auto simp: n_def)
    let ?bs = "ring (cb_data src) is n"
    have ld: "load_bytes (cb_data src) is n = Some ?bs" using n(3) assms(1) by (simp add: load_bytes_def ring_slice)
    have st: "store_bytes data j ?bs = Some (write_ring data j ?bs)"
      using n(4) less.prems(2) by (simp add: store_bytes_def write_ring_slice)
    have e: "copy_loop src sz data k is j
        = copy_loop src sz (write_ring data j ?bs) (k - n) ((is + n) mod (cb_size src + 1)) ((j + n) mod (sz + 1))"
      by (subst copy_loop.simps, unfold Let_def n_def [symmetric]) (simp add: False ld st)
    have IH: "copy_loop src sz (write_ring data j ?bs) (k - n) ((is + n) mod (cb_size src + 1)) ((j + n) mod (sz + 1))
        = Some (write_ring (write_ring data j ?bs) ((j + n) mod (sz + 1)) (ring (cb_data src) ((is + n) mod (cb_size src + 1)) (k - n)),
            ((j + n) mod (sz + 1) + (k - n)) mod (sz + 1))"
      by (rule less.IH) (use n less.prems in \<open>auto simp: less_Suc_eq_le [symmetric]\<close>)
    have r: "ring (cb_data src) is k = ?bs @ ring (cb_data src) ((is + n) mod (cb_size src + 1)) (k - n)"
      using ring_append [of "cb_data src" "is" n "k - n"] n(2) assms(1) by simp
    have w: "write_ring data j (ring (cb_data src) is k)
        = write_ring (write_ring data j ?bs) ((j + n) mod (sz + 1)) (ring (cb_data src) ((is + n) mod (cb_size src + 1)) (k - n))"
      unfolding r using write_ring_append [of j data ?bs] less.prems(2,3) by simp
    have "((j + n) mod (sz + 1) + (k - n)) mod (sz + 1) = (j + k) mod (sz + 1)"
      using n(2) by (metis add.assoc le_add_diff_inverse mod_add_left_eq)
    then show ?thesis using e IH w by simp
  qed
qed

lemma cbuf_copier_spec:
  assumes "wf_cbuf src" "wf_cbuf dst" "0 < len"
  shows "\<exists>dst' n d. cbuf_copier src dst len = Some (dst', n, d) \<and> wf_cbuf dst' \<and> same_kind dst dst' \<and> cb_size dst \<le> cb_size dst'
    \<and> stored dst' = last_n (cb_size dst') (stored dst @ take (nat n) (unread src))
    \<and> unread dst' = last_n (cb_size dst') (unread dst @ take (nat n) (unread src))
    \<and> (0 < n \<longrightarrow> d = Some (cb_used dst + nat n - cb_size dst')) \<and> nat n \<le> min len (cb_used src)
    \<and> (cb_overwrite dst = CBUF_NO_DROP \<longrightarrow> cb_used dst + nat n \<le> cb_size dst')"
proof -
  define l where "l = min len (cb_used src)"
  show ?thesis
  proof (cases "l = 0")
    case True
    have "last_n (cb_size dst) (stored dst) = stored dst" "last_n (cb_size dst) (unread dst) = unread dst"
      using wf_lengths(1,2) [OF assms(2)] wf_indices(3) [OF assms(2)] wf_data(6) [OF assms(2)] by (auto intro!: last_n_all)
    then show ?thesis using True assms wf_data(6) [OF assms(2)] by (simp add: cbuf_copier_def l_def same_kind_def)
  next
    case False
    obtain c where c: "grow_for dst l = Some (c, cb_size c - cb_used c)" "wf_cbuf c" "same_kind dst c" "cb_size dst \<le> cb_size c"
      "cb_used c = cb_used dst" "stored c = stored dst" "unread c = unread dst"
      using grow_for_spec [OF assms(2), of l] by blast
    note w = wf_data [OF c(2)] and ws = wf_data [OF assms(1)]
    define k where "k = bounded_len c l"
    have kl: "k \<le> l" "cb_overwrite dst = CBUF_NO_DROP \<longrightarrow> k \<le> cb_size c - cb_used c" "cb_overwrite dst \<noteq> CBUF_NO_DROP \<longrightarrow> 0 < k"
      using c(3) False w(7) by (auto simp: k_def bounded_len_def same_kind_def split: cbuf_overwrite.splits)
    have full: "last_n (cb_size c) (stored dst) = stored dst" "last_n (cb_size c) (unread dst) = unread dst"
      using wf_lengths(1,2) [OF c(2)] wf_indices(3) [OF c(2)] w(6) c(6,7) by (auto intro!: last_n_all)
    show ?thesis
    proof (cases "k = 0")
      case True
      then have e: "cbuf_copier src dst len = Some (c, - 1, None)"
        using False c(1) by (simp add: cbuf_copier_def l_def [symmetric] k_def [symmetric] Let_def)
      have "cb_used c \<le> cb_size c" by (rule w(6))
      then show ?thesis using e c full by (intro exI [of _ c] exI [of _ "- 1"] exI [of _ None]) simp
    next
      case kz: False
      define sk where "sk = k - cb_size c"
      define i where "i = (cb_out src + sk) mod (cb_size src + 1)"
      have ii: "(if k > cb_size c then (cb_out src + sk) mod (cb_size src + 1) else cb_out src) = i"
        using ws(3) by (simp add: i_def sk_def)
      have il: "i \<le> cb_size src" by (simp add: i_def less_Suc_eq_le [symmetric])
      define bs where "bs = ring (cb_data src) i (k - sk)"
      have u: "take k (unread src) = ring (cb_data src) (cb_out src) k"
        using ring_append [of "cb_data src" "cb_out src" k "cb_used src - k"] kl(1) by (simp add: stored_ring(1) [OF assms(1)] l_def)
      have tk: "take k (unread src) = ring (cb_data src) (cb_out src) sk @ bs"
        unfolding u using ring_append [of "cb_data src" "cb_out src" sk "k - sk"] ws(1) by (simp add: bs_def i_def sk_def)
      have lb: "length bs = k - sk" "k - sk = min k (cb_size c)" by (auto simp: bs_def sk_def)
      have bs: "bs \<noteq> []" using kz w(7) lb by auto
      have cl: "copy_loop src (cb_size c) (cb_data c) (k - sk) i (cb_in c)
          = Some (write_ring (cb_data c) (cb_in c) bs, (cb_in c + length bs) mod (cb_size c + 1))"
        using copy_loop_spec [OF ws(1) il w(1,4)] by (simp add: bs_def)
      define c' where "c' = written_state (c\<lparr>cb_data := write_ring (cb_data c) (cb_in c) bs\<rparr>) (cb_size c - cb_used c) (length bs)
          ((cb_in c + length bs) mod (cb_size c + 1))"
      have wr: "wf_cbuf c'" "same_kind c c'" "cb_size c' = cb_size c" "stored c' = last_n (cb_size c) (stored c @ bs)"
        "unread c' = last_n (cb_size c) (unread c @ bs)" using written_spec [OF c(2) bs] unfolding c'_def by blast+
      have e: "cbuf_copier src dst len = Some (c', int k, Some (nat (int k - int (cb_size c) + int (cb_used c))))"
        using False kz c(1) ii cl lb(1)
        by (simp add: cbuf_copier_def l_def [symmetric] k_def [symmetric] sk_def [symmetric] Let_def c'_def)
      have sk: "last_n (cb_size c) (xs @ take k (unread src)) = last_n (cb_size c) (xs @ bs)" for xs
      proof (cases "sk = 0")
        case True
        then show ?thesis by (simp add: tk)
      next
        case False
        then have "length bs = cb_size c" using lb by (auto simp: sk_def)
        then show ?thesis by (simp add: tk last_n_append)
      qed
      have d: "nat (int k - int (cb_size c) + int (cb_used c)) = cb_used dst + k - cb_size c" using c(5) by linarith
      have nd: "cb_overwrite dst = CBUF_NO_DROP \<longrightarrow> cb_used dst + k \<le> cb_size c" using kl(2) c(5) w(6) by auto
      have same: "same_kind dst c'" using c(3) wr(2) by (simp add: same_kind_def)
      have kk: "k \<le> min len (cb_used src)" using kl(1) by (simp add: l_def)
      show ?thesis
        by (rule exI [of _ c'], rule exI [of _ "int k"], rule exI [of _ "Some (nat (int k - int (cb_size c) + int (cb_used c)))"])
          (use e wr(1) same c(4,6,7) wr(3-5) sk d nd kk in simp)
    qed
  qed
qed

end
