(* ===== verification/Cbuf_Queue.thy ===== *)
theory Cbuf_Queue
  imports Cbuf_Props
begin

text \<open>
  What the users of a circular buffer rely on: it is a queue of bytes with a history,
  nothing is lost or reordered when it does not overwrite, and lines are read whole.
\<close>

subsection \<open>Operations on the contents\<close>

lemma cbuf_write_spec:
  assumes "wf_cbuf cb" "0 < len" "nat len \<le> length s"
  shows "\<exists>cb' n d. cbuf_write cb (Some s) len = Some (cb', n, d) \<and> wf_cbuf cb' \<and> same_kind cb cb' \<and> cb_size cb \<le> cb_size cb'
    \<and> min (cb_used cb + nat len) (cb_maxsize cb) \<le> cb_size cb' \<and> n \<le> len
    \<and> stored cb' = last_n (cb_size cb') (stored cb @ take (nat n) s) \<and> unread cb' = last_n (cb_size cb') (unread cb @ take (nat n) s)
    \<and> (0 < n \<longrightarrow> d = cb_used cb + nat n - cb_size cb')
    \<and> n = (case cb_overwrite cb of
             CBUF_NO_DROP \<Rightarrow> if cb_used cb = cb_size cb' then - 1 else min len (int (cb_size cb' - cb_used cb))
           | CBUF_WRAP_ONCE \<Rightarrow> min len (int (cb_size cb'))
           | CBUF_WRAP_MANY \<Rightarrow> len)
    \<and> (cb_overwrite cb = CBUF_NO_DROP \<longrightarrow> cb_used cb + nat n \<le> cb_size cb')"
proof -
  have l: "0 < nat len" "int (nat len) = len" using assms(2) by simp_all
  obtain cb' s' n d bs where w: "cbuf_writer cbuf_get_mem cb (nat len) s = Some (cb', s', n, d)" "wf_cbuf cb'" "same_kind cb cb'"
    "cb_size cb \<le> cb_size cb'" "min (cb_used cb + nat len) (cb_maxsize cb) \<le> cb_size cb'" "s = bs @ s'" "length bs = nat n" "length bs \<le> nat len"
    "stored cb' = last_n (cb_size cb') (stored cb @ bs)" "unread cb' = last_n (cb_size cb') (unread cb @ bs)"
    "0 < n \<longrightarrow> d = Some (cb_used cb + nat n - cb_size cb')"
    "cb_overwrite cb = CBUF_NO_DROP \<longrightarrow> cb_used cb + length bs \<le> cb_size cb'"
    "n = (if cb_overwrite cb = CBUF_NO_DROP then (if cb_used cb = cb_size cb' then - 1 else int (min (nat len) (cb_size cb' - cb_used cb)))
          else if cb_overwrite cb = CBUF_WRAP_ONCE then int (min (nat len) (cb_size cb')) else int (nat len))"
    using mem_source.cbuf_writer_spec [OF assms(1) l(1) assms(3)] mem_source_eager by blast
  have e: "cbuf_write cb (Some s) len = Some (cb', n, case_option 0 id d)" using assms(2) w(1) by (simp add: cbuf_write_def)
  have bs: "bs = take (nat n) s" using w(6,7) by simp
  have n: "n \<le> len" using w(7,8) l by linarith
  have c: "n = (case cb_overwrite cb of
             CBUF_NO_DROP \<Rightarrow> if cb_used cb = cb_size cb' then - 1 else min len (int (cb_size cb' - cb_used cb))
           | CBUF_WRAP_ONCE \<Rightarrow> min len (int (cb_size cb'))
           | CBUF_WRAP_MANY \<Rightarrow> len)"
    using w(13) l(2) by (cases "cb_overwrite cb") (simp_all add: of_nat_min)
  have d: "0 < n \<longrightarrow> case_option 0 id d = cb_used cb + nat n - cb_size cb'" using w(11) by auto
  have st: "stored cb' = last_n (cb_size cb') (stored cb @ take (nat n) s)" "unread cb' = last_n (cb_size cb') (unread cb @ take (nat n) s)"
    "cb_overwrite cb = CBUF_NO_DROP \<longrightarrow> cb_used cb + nat n \<le> cb_size cb'"
    using w(7,9,10,12) bs by simp_all
  show ?thesis using e w(2-5) n st d c by blast
qed

lemma cbuf_read_spec:
  assumes "wf_cbuf cb" "0 \<le> len"
  defines "k \<equiv> min (nat len) (cb_used cb)"
  shows "\<exists>cb'. cbuf_read False cb len = Some (cb', int k, take k (unread cb)) \<and> wf_cbuf cb' \<and> unread cb' = drop k (unread cb)
    \<and> replay cb' = replay cb @ take k (unread cb) \<and> same_kind cb cb' \<and> cb_size cb' = cb_size cb"
proof (cases "len = 0")
  case True
  then show ?thesis using assms(1) by (simp add: cbuf_read_def k_def same_kind_def)
next
  case False
  obtain d n where r: "cbuf_reader cbuf_put_mem cb (nat len) [] = Some (d, n)" "d = take (nat n) (unread cb)" "n = int k"
    using mem.cbuf_reader_spec [OF assms(1), of "nat len" "[]"] mem_eager by (auto simp: k_def)
  have e: "cbuf_read False cb len = Some (if 0 < k then cbuf_dropper cb k else cb, int k, take k (unread cb))"
    using False assms(2) r by (simp add: cbuf_read_def)
  show ?thesis
  proof (cases "0 < k")
    case True
    have "k \<le> cb_used cb" by (simp add: k_def)
    then show ?thesis using e True dropper_spec [OF assms(1)] by (simp add: cbuf_dropper_def cbuf_shrink_def same_kind_def Let_def)
  next
    case False
    then show ?thesis using e assms(1) by (simp add: same_kind_def)
  qed
qed

subsection \<open>A queue of bytes\<close>

text \<open>
  The interface: what is put is appended as far as it is accepted, what is taken comes
  from the front.
\<close>

datatype 'b queue_op = Put "'b list" | Take nat

locale byte_queue =
  fixes contents :: "'q \<Rightarrow> 'b list" and good :: "'q \<Rightarrow> bool" and put :: "'q \<Rightarrow> 'b list \<Rightarrow> 'q \<times> nat" and take_out :: "'q \<Rightarrow> nat \<Rightarrow> 'q \<times> 'b list"
  assumes put_law: "good q \<Longrightarrow> put q bs = (q', n) \<Longrightarrow> good q' \<and> contents q' = contents q @ take n bs"
    and take_law: "good q \<Longrightarrow> take_out q k = (q', bs) \<Longrightarrow> good q' \<and> bs = take k (contents q) \<and> contents q' = drop k (contents q)"
begin

text \<open>Operations in turn: the queue, what was accepted and what was delivered.\<close>

fun run :: "'q \<Rightarrow> 'b queue_op list \<Rightarrow> 'q \<times> 'b list \<times> 'b list" where
  "run q [] = (q, [], [])"
| "run q (Put bs # ops) = (case put q bs of (q, n) \<Rightarrow> case run q ops of (q, acc, del) \<Rightarrow> (q, take n bs @ acc, del))"
| "run q (Take k # ops) = (case take_out q k of (q, bs) \<Rightarrow> case run q ops of (q, acc, del) \<Rightarrow> (q, acc, bs @ del))"

lemma run_fifo: "good q \<Longrightarrow> run q ops = (q', acc, del) \<Longrightarrow> good q' \<and> contents q @ acc = del @ contents q'"
proof (induction q ops arbitrary: acc del rule: run.induct)
  case (2 q bs ops)
  obtain q1 n where p: "put q bs = (q1, n)" by fastforce
  obtain acc2 del2 where r: "run q1 ops = (q', acc2, del2)" using 2(3) p by (auto split: prod.splits)
  have "good q1" "contents q1 = contents q @ take n bs" using put_law [OF 2(2) p] by simp_all
  then show ?case using 2(1) [OF p [symmetric] _ r] p r 2(3) by simp
next
  case (3 q k ops)
  obtain q1 bs where p: "take_out q k = (q1, bs)" by fastforce
  obtain acc2 del2 where r: "run q1 ops = (q', acc2, del2)" using 3(3) p by (auto split: prod.splits)
  have "good q1" "bs = take k (contents q)" "contents q1 = drop k (contents q)" using take_law [OF 3(2) p] by simp_all
  then show ?case using 3(1) [OF p [symmetric] _ r] p r 3(3) by auto (metis append.assoc append_take_drop_id)
qed simp

end

text \<open>The buffer as such a queue, when it is not to drop anything; the results of the calls are as the source returns them.\<close>

definition queue_put :: "cbuf \<Rightarrow> u8 list \<Rightarrow> cbuf \<times> nat" where
  "queue_put cb bs = (case cbuf_write cb (Some bs) (int (length bs)) of Some (cb, n, _) \<Rightarrow> (cb, nat n) | None \<Rightarrow> (cb, 0))"

definition queue_take :: "cbuf \<Rightarrow> nat \<Rightarrow> cbuf \<times> u8 list" where
  "queue_take cb k = (case cbuf_read False cb (int k) of Some (cb, _, bs) \<Rightarrow> (cb, bs) | None \<Rightarrow> (cb, []))"

interpretation cq: byte_queue unread "\<lambda>cb. wf_cbuf cb \<and> cb_overwrite cb = CBUF_NO_DROP" queue_put queue_take
proof unfold_locales
  fix cb bs cb' n
  assume g: "wf_cbuf cb \<and> cb_overwrite cb = CBUF_NO_DROP" and p: "queue_put cb bs = (cb', n)"
  show "(wf_cbuf cb' \<and> cb_overwrite cb' = CBUF_NO_DROP) \<and> unread cb' = unread cb @ take n bs"
  proof (cases "bs = []")
    case True
    then show ?thesis using g p by (simp add: queue_put_def cbuf_write_def)
  next
    case False
    then obtain c m d where w: "cbuf_write cb (Some bs) (int (length bs)) = Some (c, m, d)" "wf_cbuf c" "same_kind cb c"
      "unread c = last_n (cb_size c) (unread cb @ take (nat m) bs)" "cb_used cb + nat m \<le> cb_size c"
      using cbuf_write_spec [of cb "int (length bs)" bs] g by auto
    have "length (unread cb @ take (nat m) bs) \<le> cb_size c" using w(5) wf_lengths(1) g by auto
    then show ?thesis using w g p by (simp add: queue_put_def same_kind_def last_n_all)
  qed
next
  fix cb k cb' bs
  assume g: "wf_cbuf cb \<and> cb_overwrite cb = CBUF_NO_DROP" and p: "queue_take cb k = (cb', bs)"
  obtain c where "cbuf_read False cb (int k) = Some (c, int (min k (cb_used cb)), take (min k (cb_used cb)) (unread cb))" "wf_cbuf c"
    "unread c = drop (min k (cb_used cb)) (unread cb)" "same_kind cb c" using cbuf_read_spec [of cb "int k"] g by auto
  moreover have "take (min k (cb_used cb)) (unread cb) = take k (unread cb)" "drop (min k (cb_used cb)) (unread cb) = drop k (unread cb)"
    using wf_lengths(1) [of cb] g by (auto simp: min_def)
  ultimately show "(wf_cbuf cb' \<and> cb_overwrite cb' = CBUF_NO_DROP) \<and> bs = take k (unread cb) \<and> unread cb' = drop k (unread cb)"
    using g p by (auto simp: queue_take_def same_kind_def)
qed

subsection \<open>Lines\<close>

text \<open>The search for lines on the list of the unread bytes.\<close>

fun scan_lines :: "u8 list \<Rightarrow> nat \<Rightarrow> nat \<Rightarrow> int \<Rightarrow> int \<Rightarrow> int \<Rightarrow> nat \<times> int \<times> int" where
  "scan_lines [] n m l chars lines = (m, l, lines)"
| "scan_lines (b # bs) n m l chars lines =
     (let n = n + 1;
          chars = (if chars > 0 then chars - 1 else chars);
          (lines, m, l) = (if b = newline_byte then (if lines > 0 then lines - 1 else lines, n, l + 1) else (lines, m, l))
      in if chars = 0 \<or> lines = 0 then (m, l, lines) else scan_lines bs n m l chars lines)"

lemma ring_Suc: "i < length d \<Longrightarrow> ring d i (Suc k) = d ! i # ring d (Suc i mod length d) k"
  using ring_append [of d i 1 k] by (simp add: ring_def)

lemma unread_loop_scan:
  assumes "length (cb_data cb) = cb_size cb + 1" "i \<le> cb_size cb" "k \<le> cb_size cb" "cb_in cb = (i + k) mod (cb_size cb + 1)"
  shows "unread_loop cb i n m l chars lines = Some (scan_lines (ring (cb_data cb) i k) n m l chars lines)"
  using assms(2-4)
proof (induction k arbitrary: i n m l chars lines)
  case 0
  then show ?case by (subst unread_loop.simps) simp
next
  case (Suc k)
  let ?N = "cb_size cb + 1"
  have ne: "i \<noteq> cb_in cb"
  proof -
    have "(i + Suc k) mod ?N = (if i + Suc k < ?N then i + Suc k else i + Suc k - ?N)" using Suc.prems by (subst mod_once) auto
    then show ?thesis using Suc.prems by (auto split: if_splits)
  qed
  have ld: "load_byte (cb_data cb) i = Some (cb_data cb ! i)" using assms(1) Suc.prems(1) by (simp add: load_byte_def)
  have ii: "Suc i mod ?N \<le> cb_size cb" by (simp add: less_Suc_eq_le [symmetric])
  have "cb_in cb = (Suc i mod ?N + k) mod ?N" using Suc.prems(3) by (metis add_Suc add_Suc_right mod_add_left_eq)
  note IH = Suc.IH [OF ii _ this]
  have r: "ring (cb_data cb) i (Suc k) = cb_data cb ! i # ring (cb_data cb) (Suc i mod ?N) k"
    using ring_Suc [of i "cb_data cb" k] assms(1) Suc.prems(1) by simp
  show ?case unfolding r
    by (subst unread_loop.simps) (use ne ld IH Suc.prems(2) in \<open>simp add: Let_def split: prod.split\<close>)
qed

definition newlines :: "u8 list \<Rightarrow> nat" where
  "newlines bs = length (filter (\<lambda>b. b = newline_byte) bs)"

text \<open>The length of the complete lines at the start, and the length of the first lines, if there are so many.\<close>

definition whole_lines :: "u8 list \<Rightarrow> nat" where
  "whole_lines bs = length bs - length (takeWhile (\<lambda>b. b \<noteq> newline_byte) (rev bs))"

fun first_lines :: "nat \<Rightarrow> u8 list \<Rightarrow> nat" where
  "first_lines 0 bs = 0"
| "first_lines (Suc k) [] = 0"
| "first_lines (Suc k) (b # bs) = (if b = newline_byte then first_lines k bs + 1 else first_lines (Suc k) bs + 1)"

lemma newlines_simps [simp]: "newlines [] = 0" "newlines (b # bs) = (if b = newline_byte then 1 else 0) + newlines bs"
  "newlines (xs @ ys) = newlines xs + newlines ys"
  by (simp_all add: newlines_def)

lemma whole_lines_Nil [simp]: "whole_lines [] = 0"
  by (simp add: whole_lines_def)

lemma whole_lines_Cons: "whole_lines (b # bs) = (if newlines bs = 0 then (if b = newline_byte then 1 else 0) else whole_lines bs + 1)"
proof (cases "newlines bs = 0")
  case True
  then have "\<forall>x \<in> set (rev bs). x \<noteq> newline_byte" by (simp add: newlines_def filter_empty_conv)
  then show ?thesis using True by (simp add: whole_lines_def takeWhile_append)
next
  case False
  then obtain x where x: "x \<in> set (rev bs)" "x = newline_byte" by (auto simp: newlines_def filter_empty_conv)
  then have t: "takeWhile (\<lambda>b. b \<noteq> newline_byte) (rev bs @ [b]) = takeWhile (\<lambda>b. b \<noteq> newline_byte) (rev bs)"
    by (intro takeWhile_append1) auto
  have "length (takeWhile (\<lambda>b. b \<noteq> newline_byte) (rev bs)) \<le> length bs" using length_takeWhile_le [of _ "rev bs"] by simp
  then show ?thesis using False t by (simp add: whole_lines_def Suc_diff_le)
qed

text \<open>All lines that end within a number of characters.\<close>

lemma scan_chars:
  assumes "0 < chars"
  shows "scan_lines bs n m l chars (- 1) =
    (if newlines (take (nat chars) bs) = 0 then m else n + whole_lines (take (nat chars) bs), l + int (newlines (take (nat chars) bs)), - 1)"
  using assms
proof (induction bs arbitrary: n m l chars)
  case (Cons b bs)
  obtain c where c: "chars = int (Suc c)" using Cons.prems by (metis zero_less_imp_eq_int gr0_implies_Suc of_nat_0_less_iff)
  have nc: "nat chars = Suc c" using c by simp
  show ?case
  proof (cases "c = 0")
    case True
    then show ?thesis using c by (simp add: whole_lines_Cons Let_def)
  next
    case False
    then have "scan_lines bs n' m' l' (int c) (- 1) =
      (if newlines (take c bs) = 0 then m' else n' + whole_lines (take c bs), l' + int (newlines (take c bs)), - 1)" for n' m' l'
      using Cons.IH [of "int c" n' m' l'] by simp
    then show ?thesis unfolding nc take_Suc_Cons using c False by (simp add: whole_lines_Cons Let_def)
  qed
qed simp

text \<open>A number of lines, all or none.\<close>

lemma scan_count:
  assumes "0 < lines"
  shows "scan_lines bs n m l (- 1) (int lines) =
    (if lines \<le> newlines bs then (n + first_lines lines bs, l + int lines, 0)
     else (if newlines bs = 0 then m else n + whole_lines bs, l + int (newlines bs), int (lines - newlines bs)))"
  using assms
proof (induction bs arbitrary: n m l lines)
  case (Cons b bs)
  obtain k where k: "lines = Suc k" using Cons.prems by (cases lines) auto
  show ?case
  proof (cases "b = newline_byte")
    case False
    then show ?thesis using Cons.IH [of "Suc k"] k by (auto simp: whole_lines_Cons Let_def)
  next
    case nl: True
    show ?thesis
    proof (cases "k = 0")
      case True
      then show ?thesis using k nl by (simp add: Let_def)
    next
      case False
      then show ?thesis using Cons.IH [of k] k nl by (auto simp: whole_lines_Cons Let_def)
    qed
  qed
qed simp

lemma find_unread_spec:
  assumes "wf_cbuf cb"
  shows "cbuf_find_unread_line cb chars (- 1) =
      Some (whole_lines (take (nat chars) (unread cb)), int (newlines (take (nat chars) (unread cb))))"
    and "0 < lines \<Longrightarrow> cbuf_find_unread_line cb chars (int lines) =
      Some (if lines \<le> newlines (unread cb) then (first_lines lines (unread cb), int lines) else (0, 0))"
proof -
  note w = wf_data [OF assms] and i = wf_indices [OF assms]
  have e: "cb_used cb = 0 \<Longrightarrow> unread cb = []" using wf_lengths(1) [OF assms] by simp
  have s: "unread_loop cb (cb_out cb) 0 0 0 ch ls = Some (scan_lines (unread cb) 0 0 0 ch ls)" for ch ls
    unfolding stored_ring(1) [OF assms] by (rule unread_loop_scan) (use w i(2) in auto)
  show "cbuf_find_unread_line cb chars (- 1) =
      Some (whole_lines (take (nat chars) (unread cb)), int (newlines (take (nat chars) (unread cb))))"
  proof (cases "chars \<le> 0 \<or> cb_used cb = 0")
    case True
    then show ?thesis using e by (auto simp: cbuf_find_unread_line_def)
  next
    case False
    have "newlines bs = 0 \<Longrightarrow> whole_lines bs = 0" for bs by (induction bs) (auto simp: whole_lines_Cons split: if_splits)
    then show ?thesis using False s scan_chars [of chars "unread cb" 0 0 0] by (simp add: cbuf_find_unread_line_def)
  qed
  show "0 < lines \<Longrightarrow> cbuf_find_unread_line cb chars (int lines) =
      Some (if lines \<le> newlines (unread cb) then (first_lines lines (unread cb), int lines) else (0, 0))"
    using e s scan_count [of lines "unread cb" 0 0 0] by (cases "cb_used cb = 0") (simp_all add: cbuf_find_unread_line_def)
qed

lemma first_lines_le: "first_lines k bs \<le> length bs"
  by (induction k bs rule: first_lines.induct) auto

lemma whole_lines_le: "whole_lines bs \<le> length bs"
  by (simp add: whole_lines_def)

lemma first_lines_newlines: "k \<le> newlines bs \<Longrightarrow> newlines (take (first_lines k bs) bs) = k"
  by (induction k bs rule: first_lines.induct) auto

lemma line_text_spec:
  assumes "wf_cbuf cb" "n \<le> cb_used cb"
  shows "line_text cb len n = Some (if 0 < n \<and> 0 < len then take (min n (nat (len - 1))) (unread cb) @ [0] else [])"
proof -
  have r: "cbuf_reader cbuf_put_mem cb m [] = Some (take m (unread cb), int m)" if m: "m \<le> cb_used cb" for m
  proof -
    obtain d k where "cbuf_reader cbuf_put_mem cb m [] = Some (d, k)" "d = take (nat k) (unread cb)" "k = int (min m (cb_used cb))"
      using mem.cbuf_reader_spec [OF assms(1), of m "[]"] mem_eager by auto
    then show ?thesis using m by (simp add: min_def)
  qed
  show ?thesis using r [of "min n (nat (len - 1))"] assms(2) by (auto simp: line_text_def Let_def)
qed

text \<open>The bytes that a read of lines consumes.\<close>

definition line_bytes :: "cbuf \<Rightarrow> int \<Rightarrow> int \<Rightarrow> nat" where
  "line_bytes cb len lines =
     (if lines = - 1 then whole_lines (take (nat (len - 1)) (unread cb))
      else if nat lines \<le> newlines (unread cb) then first_lines (nat lines) (unread cb) else 0)"

lemma read_line_spec:
  assumes "wf_cbuf cb" "0 \<le> len" "- 1 \<le> lines" "lines \<noteq> 0"
  shows "\<exists>cb'. cbuf_read_line False cb len lines = Some (cb', int (line_bytes cb len lines),
      if 0 < line_bytes cb len lines \<and> 0 < len then take (min (line_bytes cb len lines) (nat (len - 1))) (unread cb) @ [0] else [])
    \<and> wf_cbuf cb' \<and> unread cb' = drop (line_bytes cb len lines) (unread cb)
    \<and> replay cb' = replay cb @ take (line_bytes cb len lines) (unread cb)"
proof -
  define n where "n = line_bytes cb len lines"
  have le: "n \<le> cb_used cb"
    using first_lines_le [of "nat lines" "unread cb"] whole_lines_le [of "take (nat (len - 1)) (unread cb)"] wf_lengths(1) [OF assms(1)]
    by (auto simp: n_def line_bytes_def)
  have "\<exists>l. cbuf_find_unread_line cb (len - 1) lines = Some (n, l)"
  proof (cases "lines = - 1")
    case True
    then show ?thesis using find_unread_spec(1) [OF assms(1), of "len - 1"] by (simp add: n_def line_bytes_def)
  next
    case False
    then have "0 < nat lines" "int (nat lines) = lines" using assms(3,4) by auto
    then show ?thesis using find_unread_spec(2) [OF assms(1), of "nat lines" "len - 1"] False by (auto simp: n_def line_bytes_def)
  qed
  then obtain l where f: "cbuf_find_unread_line cb (len - 1) lines = Some (n, l)" by blast
  have e: "cbuf_read_line False cb len lines = Some (if 0 < n then cbuf_dropper cb n else cb, int n,
      if 0 < n \<and> 0 < len then take (min n (nat (len - 1))) (unread cb) @ [0] else [])"
    using assms(2-4) f line_text_spec [OF assms(1) le, of len] by (simp add: cbuf_read_line_def)
  show ?thesis unfolding n_def [symmetric]
    using e dropper_spec [OF assms(1) le] assms(1) by (cases "n = 0") auto
qed

subsection \<open>Samples\<close>

definition sample_cbuf :: cbuf where
  "sample_cbuf = the (cbuf_create 4 6)"

lemma wf_created:
  assumes "cbuf_create minsize maxsize = Some cb"
  shows "wf_cbuf cb" "unread cb = []" "replay cb = []" "cb_overwrite cb = CBUF_WRAP_MANY"
proof -
  have m: "0 < minsize" using assms by (auto simp: cbuf_create_def split: if_splits)
  show "wf_cbuf cb" "cb_overwrite cb = CBUF_WRAP_MANY" using assms m
    by (auto simp: cbuf_create_def wf_cbuf_def cbuf_is_valid_def split: if_splits)
  then show "unread cb = []" "replay cb = []" using assms m wf_lengths(1,3) [of cb]
    by (auto simp: cbuf_create_def cbuf_reused_def split: if_splits)
qed

lemma sample_created: "cbuf_create 4 6 = Some sample_cbuf"
  by (simp add: sample_cbuf_def cbuf_create_def)

subsection \<open>Lines of the replay data\<close>

text \<open>The search backwards, on the reversed replay data.\<close>

fun scan_back :: "u8 list \<Rightarrow> nat \<Rightarrow> nat \<Rightarrow> int \<Rightarrow> int \<Rightarrow> int \<Rightarrow> nat \<times> nat \<times> int \<times> int \<times> int" where
  "scan_back [] n m l chars lines = (n, m, l, chars, lines)"
| "scan_back (b # bs) n m l chars lines =
     (let n = n + 1;
          chars = (if chars > 0 then chars - 1 else chars);
          (lines, m, l) = (if b = newline_byte then (if lines > 0 then lines - 1 else lines, n - 1, l + 1) else (lines, m, l))
      in if chars = 0 \<or> lines = 0 then (n, m, l, chars, lines) else scan_back bs n m l chars lines)"

lemma replay_loop_scan:
  assumes "length (cb_data cb) = cb_size cb + 1" "cb_rep cb \<le> cb_size cb" "k \<le> cb_size cb" "i = (cb_rep cb + k) mod (cb_size cb + 1)"
  shows "replay_loop cb i n m l chars lines = Some (scan_back (rev (ring (cb_data cb) (cb_rep cb) k)) n m l chars lines)"
  using assms(3,4)
proof (induction k arbitrary: i n m l chars lines)
  case 0
  then show ?case using assms(2) by (subst replay_loop.simps) simp
next
  case (Suc k)
  let ?N = "cb_size cb + 1"
  define j where "j = (cb_rep cb + k) mod ?N"
  have ne: "i \<noteq> cb_rep cb"
  proof -
    have "(cb_rep cb + Suc k) mod ?N = (if cb_rep cb + Suc k < ?N then cb_rep cb + Suc k else cb_rep cb + Suc k - ?N)"
      using Suc.prems(1) assms(2) by (subst mod_once) auto
    then show ?thesis using Suc.prems by (auto split: if_splits)
  qed
  have ij: "(i + cb_size cb) mod ?N = j"
  proof -
    have "(i + cb_size cb) mod ?N = (cb_rep cb + Suc k + cb_size cb) mod ?N" using Suc.prems(2) by (metis mod_add_left_eq)
    also have "cb_rep cb + Suc k + cb_size cb = cb_rep cb + k + ?N" by simp
    also have "(cb_rep cb + k + ?N) mod ?N = j" by (simp only: mod_add_self2 j_def)
    finally show ?thesis .
  qed
  have jl: "j < ?N" by (simp add: j_def)
  then have ld: "load_byte (cb_data cb) j = Some (cb_data cb ! j)" using assms(1) by (simp add: load_byte_def)
  have r: "rev (ring (cb_data cb) (cb_rep cb) (Suc k)) = cb_data cb ! j # rev (ring (cb_data cb) (cb_rep cb) k)"
    using ring_append [of "cb_data cb" "cb_rep cb" k 1] assms(1) jl by (simp add: ring_def j_def)
  have IH: "replay_loop cb j n m l chars lines = Some (scan_back (rev (ring (cb_data cb) (cb_rep cb) k)) n m l chars lines)" for n m l chars lines
    by (rule Suc.IH) (use Suc.prems(1) in \<open>simp_all add: j_def\<close>)
  show ?case unfolding r
    by (subst replay_loop.simps) (use ne ij ld IH in \<open>simp add: Let_def split: prod.split\<close>)
qed

lemma scan_back_bound:
  "m \<le> n \<Longrightarrow> scan_back bs n m l chars lines = (n', m', l', chars', lines') \<Longrightarrow> n' \<le> n + length bs \<and> m' \<le> n'"
proof (induction bs arbitrary: n m l chars lines)
  case (Cons b bs)
  define c where "c = (if chars > 0 then chars - 1 else chars)"
  define t where "t = (if b = newline_byte \<and> lines > 0 then lines - 1 else lines)"
  define m1 where "m1 = (if b = newline_byte then n else m)"
  define l1 where "l1 = (if b = newline_byte then l + 1 else l)"
  have "scan_back (b # bs) n m l chars lines = (if c = 0 \<or> t = 0 then (n + 1, m1, l1, c, t) else scan_back bs (n + 1) m1 l1 c t)"
    by (auto simp: Let_def c_def t_def m1_def l1_def)
  moreover have "m1 \<le> n + 1" using Cons.prems(1) by (simp add: m1_def)
  ultimately show ?case using Cons.prems(2) Cons.IH [of m1 "n + 1" l1 c t] by (auto split: if_splits)
qed auto

lemma scan_back_plain:
  assumes "newlines bs = 0" "chars = int (length bs)" "bs \<noteq> []"
  shows "scan_back bs n m l chars (- 1) = (n + length bs, m, l, 0, - 1)"
  using assms
proof (induction bs arbitrary: n chars)
  case (Cons b bs)
  then show ?case by (cases "bs = []") (auto simp: Let_def split: if_splits)
qed simp

lemma last_replay:
  assumes "wf_cbuf cb" "replay cb \<noteq> []"
  shows "load_byte (cb_data cb) ((cb_out cb + cb_size cb) mod (cb_size cb + 1)) = Some (last (replay cb))" "cb_out cb \<noteq> cb_rep cb"
proof -
  note w = wf_data [OF assms(1)] and i = wf_indices [OF assms(1)]
  have r: "0 < cbuf_reused cb" using wf_lengths(3) [OF assms(1)] assms(2) by (cases "cbuf_reused cb = 0") auto
  define k where "k = cbuf_reused cb - 1"
  have k: "cbuf_reused cb = k + 1" using r by (simp add: k_def)
  have e: "(cb_out cb + cb_size cb) mod (cb_size cb + 1) = (cb_rep cb + k) mod (cb_size cb + 1)"
  proof -
    have "(cb_out cb + cb_size cb) mod (cb_size cb + 1) = (cb_rep cb + cbuf_reused cb + cb_size cb) mod (cb_size cb + 1)" using i(1) by (metis mod_add_left_eq)
    also have "cb_rep cb + cbuf_reused cb + cb_size cb = cb_rep cb + k + (cb_size cb + 1)" using k by simp
    finally show ?thesis by (metis mod_add_self2)
  qed
  have "replay cb = ring (cb_data cb) (cb_rep cb) k @ ring (cb_data cb) ((cb_rep cb + k) mod (cb_size cb + 1)) 1"
    unfolding stored_ring(3) [OF assms(1)] k ring_append using w(1) by simp
  then have "last (replay cb) = cb_data cb ! ((cb_rep cb + k) mod (cb_size cb + 1))" using w(1) by (simp add: ring_def)
  then show "load_byte (cb_data cb) ((cb_out cb + cb_size cb) mod (cb_size cb + 1)) = Some (last (replay cb))"
    unfolding e using w(1) by (simp add: load_byte_def)
  have "cb_out cb = (if cb_rep cb + cbuf_reused cb < cb_size cb + 1 then cb_rep cb + cbuf_reused cb else cb_rep cb + cbuf_reused cb - (cb_size cb + 1))"
    using i(1,3) w(5) by (subst (asm) mod_once) auto
  then show "cb_out cb \<noteq> cb_rep cb" using r i(3) by (auto split: if_splits)
qed

lemma find_replay_run:
  assumes "wf_cbuf cb"
  shows "replay_loop cb (cb_out cb) n m l chars lines = Some (scan_back (rev (replay cb)) n m l chars lines)"
  unfolding stored_ring(3) [OF assms]
  by (rule replay_loop_scan) (use wf_data [OF assms] wf_indices [OF assms] in auto)

lemma find_replay_bound:
  assumes "wf_cbuf cb"
  shows "\<exists>n l nl. cbuf_find_replay_line cb chars lines = Some (n, l, nl) \<and> n \<le> cbuf_reused cb"
proof (cases "lines = 0 \<or> (lines \<le> - 1 \<and> chars \<le> 0) \<or> replay cb = []")
  case True
  have "replay cb = [] \<Longrightarrow> cb_out cb = cb_rep cb"
    using wf_lengths(3) [OF assms] wf_indices(1) [OF assms] wf_data(5) [OF assms] by simp
  then show ?thesis using True by (auto simp: cbuf_find_replay_line_def)
next
  case False
  then have ne: "replay cb \<noteq> []" and c0: "\<not> (lines = 0 \<or> (lines \<le> - 1 \<and> chars \<le> 0))" by blast+
  define nl where "nl = (last (replay cb) \<noteq> newline_byte)"
  define ch where "ch = (let chars = (if lines > 0 then - 1 else chars + 1) in if nl then chars - 1 else chars)"
  define ls where "ls = (if \<not> nl \<and> lines > 0 then lines + 1 else lines)"
  obtain n m l c k where sc: "scan_back (rev (replay cb)) 0 0 (if nl then 0 else - 1) ch ls = (n, m, l, c, k)" by (metis prod_cases5)
  have b: "n \<le> cbuf_reused cb" "m \<le> n" using scan_back_bound [OF _ sc] wf_lengths(3) [OF assms] by auto
  have "cbuf_find_replay_line cb chars lines = Some (let first = (\<not> cb_got_wrap cb \<and> (c > 0 \<or> k > 0));
                 (lines, m, l) = (if first then (if k > 0 then k - 1 else k, n, l + 1) else (k, m, l))
             in if lines > 0 then (0, 0, nl) else (m, l, nl))"
    unfolding cbuf_find_replay_line_def if_not_P [OF c0]
    using last_replay [OF assms ne] find_replay_run [OF assms] sc by (simp add: nl_def ch_def ls_def Let_def)
  then show ?thesis using b by (auto simp: Let_def split: if_splits)
qed

subsection \<open>Writing lines\<close>

definition with_newline :: "u8 list \<Rightarrow> u8 list" where
  "with_newline s = (if s \<noteq> [] \<and> last s = newline_byte then s else s @ [newline_byte])"

text \<open>A write from memory of something that has room, or into a buffer that overwrites, sets its results.\<close>

lemma mem_writer:
  assumes "wf_cbuf cb" "s \<noteq> []" "cb_overwrite cb = CBUF_NO_DROP \<longrightarrow> cb_used cb + length s \<le> cb_size cb"
  shows "\<exists>cb' s' n d. cbuf_writer cbuf_get_mem cb (length s) s = Some (cb', s', n, Some d) \<and> wf_cbuf cb' \<and> same_kind cb cb'
    \<and> cb_size cb \<le> cb_size cb' \<and> unread cb' = last_n (cb_size cb') (unread cb @ take (nat n) s)
    \<and> (cb_overwrite cb = CBUF_NO_DROP \<longrightarrow> unread cb' = unread cb @ s \<and> d = 0)"
proof -
  have l: "0 < length s" using assms(2) by simp
  obtain cb' s' n d bs where w: "cbuf_writer cbuf_get_mem cb (length s) s = Some (cb', s', n, d)" "wf_cbuf cb'" "same_kind cb cb'"
    "cb_size cb \<le> cb_size cb'" "s = bs @ s'" "length bs = nat n"
    "unread cb' = last_n (cb_size cb') (unread cb @ bs)" "0 < n \<longrightarrow> d = Some (cb_used cb + nat n - cb_size cb')"
    "n = (if cb_overwrite cb = CBUF_NO_DROP then (if cb_used cb = cb_size cb' then - 1 else int (min (length s) (cb_size cb' - cb_used cb)))
          else if cb_overwrite cb = CBUF_WRAP_ONCE then int (min (length s) (cb_size cb')) else int (length s))"
    using mem_source.cbuf_writer_spec [OF assms(1) l order_refl] mem_source_eager by blast
  have room: "cb_used cb \<noteq> cb_size cb' \<and> length s \<le> cb_size cb' - cb_used cb" if "cb_overwrite cb = CBUF_NO_DROP"
  proof -
    have "cb_used cb + length s \<le> cb_size cb" using assms(3) that by simp
    then show ?thesis using w(4) l by linarith
  qed
  have n: "0 < n" "cb_overwrite cb = CBUF_NO_DROP \<longrightarrow> n = int (length s)"
    using w(9) room l wf_data(7) [OF w(2)] by (auto simp: min_def split: if_splits)
  have bs: "bs = take (nat n) s" using w(5,6) by simp
  have "cb_overwrite cb = CBUF_NO_DROP \<longrightarrow> unread cb' = unread cb @ s \<and> cb_used cb + nat n - cb_size cb' = 0"
  proof
    assume no: "cb_overwrite cb = CBUF_NO_DROP"
    then have "bs = s" using n(2) bs by simp
    moreover have "length (unread cb @ s) \<le> cb_size cb'" using no assms(3) w(4) wf_lengths(1) [OF assms(1)] by simp
    ultimately show "unread cb' = unread cb @ s \<and> cb_used cb + nat n - cb_size cb' = 0"
      using w(4,7) no assms(3) n(2) by (simp add: last_n_all)
  qed
  then show ?thesis using w(1-4,7,8) n(1) bs by auto
qed

lemma write_line_spec:
  assumes "wf_cbuf cb"
  shows "\<exists>cb' n d. cbuf_write_line cb (Some s) = Some (cb', n, d) \<and> wf_cbuf cb' \<and> same_kind cb cb'
    \<and> (cb_overwrite cb = CBUF_NO_DROP \<longrightarrow>
         (if n = - 1 then unread cb' = unread cb else n = int (length (with_newline s)) \<and> unread cb' = unread cb @ with_newline s \<and> d = 0))"
proof -
  define ends where "ends = (s \<noteq> [] \<and> last s = newline_byte)"
  define len where "len = (if ends then length s else length s + 1)"
  have len: "0 < len" "length (with_newline s) = len" by (auto simp: len_def ends_def with_newline_def)
  obtain c where c: "grow_for cb len = Some (c, cb_size c - cb_used c)" "wf_cbuf c" "same_kind cb c" "cb_used c = cb_used cb" "unread c = unread cb"
    using grow_for_spec [OF assms, of len] by blast
  define full where "full = (case cb_overwrite c of
      CBUF_NO_DROP \<Rightarrow> len > cb_size c - cb_used c | CBUF_WRAP_ONCE \<Rightarrow> len > cb_size c | CBUF_WRAP_MANY \<Rightarrow> False)"
  define skip where "skip = len - cb_size c"
  let ?nl = "\<lambda>(dst, ndrop). if ends then Some (dst, int len, ndrop)
      else Option.bind (cbuf_writer cbuf_get_mem dst 1 [newline_byte]) (\<lambda>(dst, _, _, d). map_option (\<lambda>d. (dst, int len, ndrop + d)) d)"
  have e: "cbuf_write_line cb (Some s) = (if full then Some (c, - 1, 0)
      else Option.bind (if 0 < length s - skip
             then Option.bind (cbuf_writer cbuf_get_mem c (length s - skip) (drop skip s)) (\<lambda>(dst, _, _, d). map_option (\<lambda>d. (dst, skip + d)) d)
             else Some (c, skip)) ?nl)"
    by (simp only: cbuf_write_line_def option.case Let_def ends_def [symmetric] len_def [symmetric] c(1) bind.bind_lunit prod.case
        full_def [symmetric] skip_def [symmetric])
  show ?thesis
  proof (cases full)
    case True
    then show ?thesis using e c by auto
  next
    case False
    have fits: "cb_overwrite cb = CBUF_NO_DROP \<Longrightarrow> cb_used c + len \<le> cb_size c \<and> skip = 0"
      using False c(3) wf_data(6) [OF c(2)] by (simp add: full_def same_kind_def skip_def)
    have "\<exists>c1 d1. (if 0 < length s - skip
             then Option.bind (cbuf_writer cbuf_get_mem c (length s - skip) (drop skip s)) (\<lambda>(dst, _, _, d). map_option (\<lambda>d. (dst, skip + d)) d)
             else Some (c, skip)) = Some (c1, d1) \<and> wf_cbuf c1 \<and> same_kind c c1 \<and> cb_size c \<le> cb_size c1
        \<and> (cb_overwrite cb = CBUF_NO_DROP \<longrightarrow> unread c1 = unread c @ s \<and> d1 = 0)"
    proof (cases "0 < length s - skip")
      case True
      have "drop skip s \<noteq> []" using True by simp
      moreover have "cb_overwrite c = CBUF_NO_DROP \<longrightarrow> cb_used c + length (drop skip s) \<le> cb_size c"
        using fits c(3) by (auto simp: same_kind_def len_def split: if_splits)
      ultimately obtain c1 s1 n1 d1 where "cbuf_writer cbuf_get_mem c (length s - skip) (drop skip s) = Some (c1, s1, n1, Some d1)"
        "wf_cbuf c1" "same_kind c c1" "cb_size c \<le> cb_size c1" "cb_overwrite c = CBUF_NO_DROP \<longrightarrow> unread c1 = unread c @ drop skip s \<and> d1 = 0"
        using mem_writer [OF c(2), of "drop skip s"] by auto
      then show ?thesis using True fits c(3) by (auto simp: same_kind_def)
    next
      case False
      then show ?thesis using c(2) fits by (auto simp: same_kind_def)
    qed
    then obtain c1 d1 where c1: "(if 0 < length s - skip
             then Option.bind (cbuf_writer cbuf_get_mem c (length s - skip) (drop skip s)) (\<lambda>(dst, _, _, d). map_option (\<lambda>d. (dst, skip + d)) d)
             else Some (c, skip)) = Some (c1, d1)" "wf_cbuf c1" "same_kind c c1" "cb_size c \<le> cb_size c1"
      "cb_overwrite cb = CBUF_NO_DROP \<longrightarrow> unread c1 = unread c @ s \<and> d1 = 0" by blast
    show ?thesis
    proof (cases ends)
      case True
      then have "with_newline s = s" by (simp add: with_newline_def ends_def)
      then show ?thesis using e False c1 True c(3,5) len(2) by (auto simp: same_kind_def)
    next
      case ne: False
      then have wn: "with_newline s = s @ [newline_byte]" by (auto simp: with_newline_def ends_def)
      have "cb_overwrite c1 = CBUF_NO_DROP \<longrightarrow> cb_used c1 + length [newline_byte] \<le> cb_size c1"
      proof
        assume "cb_overwrite c1 = CBUF_NO_DROP"
        then have no: "cb_overwrite cb = CBUF_NO_DROP" using c1(3) c(3) by (simp add: same_kind_def)
        have "cb_used c1 = cb_used c + length s"
          using c1(5) no wf_lengths(1) [OF c1(2)] wf_lengths(1) [OF c(2)] by simp
        then show "cb_used c1 + length [newline_byte] \<le> cb_size c1" using fits [OF no] c1(4) ne by (simp add: len_def)
      qed
      then obtain c2 s2 n2 d2 where "cbuf_writer cbuf_get_mem c1 1 [newline_byte] = Some (c2, s2, n2, Some d2)" "wf_cbuf c2" "same_kind c1 c2"
        "cb_overwrite c1 = CBUF_NO_DROP \<longrightarrow> unread c2 = unread c1 @ [newline_byte] \<and> d2 = 0"
        using mem_writer [OF c1(2), of "[newline_byte]"] by auto
      then show ?thesis using e False c1 ne c(3,5) len(2) wn by (auto simp: same_kind_def)
    qed
  qed
qed

subsection \<open>Properties\<close>

text \<open>
  The operations on a buffer, with any arguments; a flag says that the memory to
  read into is a null pointer, and \<open>None\<close> is a null pointer to the bytes to write.
  The state beside the buffer is that of the files, with the system calls as
  parameters; the results that callers get are left out here.
\<close>

datatype cbuf_op =
  Write "u8 list option" int | Write_Line "u8 list option" | Write_From_Fd int int
| Read bool int | Read_Line bool int int | Read_To_Fd int int
| Peek bool int | Peek_Line bool int int | Peek_To_Fd int int
| Replay bool int | Replay_Line bool int int | Replay_To_Fd int int
| Drop int | Drop_Line int int | Rewind int | Rewind_Line int int
| Lines_Used | Lines_Reused | Set_Opt int int | Flush

type_synonym 'w os_reader = "'w \<Rightarrow> nat \<Rightarrow> 'w \<times> u8 list io_result"
type_synonym 'w os_writer = "'w \<Rightarrow> u8 list \<Rightarrow> 'w \<times> nat io_result"

definition run_op :: "'w os_reader \<Rightarrow> 'w os_writer \<Rightarrow> cbuf_op \<Rightarrow> cbuf \<Rightarrow> 'w \<Rightarrow> (cbuf \<times> 'w) option" where
  "run_op os_read os_write c cb w =
     (case c of
        Write s len \<Rightarrow> map_option (\<lambda>(cb, _). (cb, w)) (cbuf_write cb s len)
      | Write_Line s \<Rightarrow> map_option (\<lambda>(cb, _). (cb, w)) (cbuf_write_line cb s)
      | Write_From_Fd fd len \<Rightarrow> map_option (\<lambda>(cb, w, _). (cb, w)) (cbuf_write_from_fd (cbuf_get_fd os_read) cb fd len w)
      | Read null len \<Rightarrow> map_option (\<lambda>(cb, _). (cb, w)) (cbuf_read null cb len)
      | Read_Line null len lines \<Rightarrow> map_option (\<lambda>(cb, _). (cb, w)) (cbuf_read_line null cb len lines)
      | Read_To_Fd fd len \<Rightarrow> map_option (\<lambda>(cb, w, _). (cb, w)) (cbuf_read_to_fd (cbuf_put_fd os_write) cb fd len w)
      | Peek null len \<Rightarrow> map_option (\<lambda>_. (cb, w)) (cbuf_peek null cb len)
      | Peek_Line null len lines \<Rightarrow> map_option (\<lambda>_. (cb, w)) (cbuf_peek_line null cb len lines)
      | Peek_To_Fd fd len \<Rightarrow> map_option (\<lambda>(w, _). (cb, w)) (cbuf_peek_to_fd (cbuf_put_fd os_write) cb fd len w)
      | Replay null len \<Rightarrow> map_option (\<lambda>_. (cb, w)) (cbuf_replay null cb len)
      | Replay_Line null len lines \<Rightarrow> map_option (\<lambda>_. (cb, w)) (cbuf_replay_line null cb len lines)
      | Replay_To_Fd fd len \<Rightarrow> map_option (\<lambda>(w, _). (cb, w)) (cbuf_replay_to_fd (cbuf_put_fd os_write) cb fd len w)
      | Drop len \<Rightarrow> Some (fst (cbuf_drop cb len), w)
      | Drop_Line len lines \<Rightarrow> map_option (\<lambda>(cb, _). (cb, w)) (cbuf_drop_line cb len lines)
      | Rewind len \<Rightarrow> Some (fst (cbuf_rewind cb len), w)
      | Rewind_Line len lines \<Rightarrow> map_option (\<lambda>(cb, _). (cb, w)) (cbuf_rewind_line cb len lines)
      | Lines_Used \<Rightarrow> map_option (\<lambda>_. (cb, w)) (cbuf_lines_used cb)
      | Lines_Reused \<Rightarrow> map_option (\<lambda>_. (cb, w)) (cbuf_lines_reused cb)
      | Set_Opt name value \<Rightarrow> Some (fst (cbuf_opt_set cb name value), w)
      | Flush \<Rightarrow> Some (cbuf_flush cb, w))"

text \<open>
  Programs create any number of buffers and call the operations on them, by their
  position in the order of creation; a copy or move may name the same buffer twice.
  A call on a buffer that has not been created is not made.
\<close>

datatype cbuf_call = Create int int | On nat cbuf_op | Copy nat nat int | Move nat nat int

definition run_call :: "'w os_reader \<Rightarrow> 'w os_writer \<Rightarrow> cbuf_call \<Rightarrow> cbuf list \<times> 'w \<Rightarrow> (cbuf list \<times> 'w) option" where
  "run_call os_read os_write c st =
     (let (cbs, w) = st in
      case c of
        Create minsize maxsize \<Rightarrow> Some (case cbuf_create minsize maxsize of None \<Rightarrow> cbs | Some cb \<Rightarrow> cbs @ [cb], w)
      | On i op \<Rightarrow>
          if i < length cbs then map_option (\<lambda>(cb, w). (cbs[i := cb], w)) (run_op os_read os_write op (cbs ! i) w) else Some (cbs, w)
      | Copy i j len \<Rightarrow>
          if i < length cbs \<and> j < length cbs
          then map_option (\<lambda>(dst, _). (cbs[j := dst], w)) (cbuf_copy (i = j) (cbs ! i) (cbs ! j) len) else Some (cbs, w)
      | Move i j len \<Rightarrow>
          if i < length cbs \<and> j < length cbs
          then map_option (\<lambda>(src, dst, _). (if i = j then cbs else cbs[i := src, j := dst], w)) (cbuf_move (i = j) (cbs ! i) (cbs ! j) len)
          else Some (cbs, w))"

fun run_ops :: "'w os_reader \<Rightarrow> 'w os_writer \<Rightarrow> cbuf_call list \<Rightarrow> cbuf list \<times> 'w \<Rightarrow> (cbuf list \<times> 'w) option" where
  "run_ops os_read os_write [] st = Some st"
| "run_ops os_read os_write (c # cs) st = Option.bind (run_call os_read os_write c st) (run_ops os_read os_write cs)"

text \<open>The caller of a write has as many bytes as it says.\<close>

definition op_ok :: "cbuf_call \<Rightarrow> bool" where
  "op_ok c \<longleftrightarrow> (case c of On i (Write (Some s) len) \<Rightarrow> nat len \<le> length s | _ \<Rightarrow> True)"

text \<open>
  What the operating system promises: \<^verbatim>\<open>read\<close> and \<^verbatim>\<open>write\<close> transfer no more bytes
  than they are asked to, and a call is not interrupted forever, which a number
  that each interruption lowers expresses.
\<close>

definition os_ok :: "'w os_reader \<Rightarrow> 'w os_writer \<Rightarrow> ('w \<Rightarrow> nat) \<Rightarrow> bool" where
  "os_ok os_read os_write patience \<longleftrightarrow>
     (\<forall>w n w' r. os_read w n = (w', r) \<longrightarrow>
        (case r of Done bs \<Rightarrow> length bs \<le> n | Interrupted \<Rightarrow> patience w' < patience w | Failed \<Rightarrow> True))
     \<and> (\<forall>w bs w' r. os_write w bs = (w', r) \<longrightarrow>
        (case r of Done n \<Rightarrow> n \<le> length bs | Interrupted \<Rightarrow> patience w' < patience w | Failed \<Rightarrow> True))"

lemma fd_sink:
  assumes "os_ok os_read os_write patience"
  shows "sink (cbuf_put_fd os_write) (\<lambda>_ _ _. True)"
proof
  fix w and bs :: "u8 list"
  show "\<exists>w' m. cbuf_put_fd os_write w bs = Some (w', m) \<and> m \<le> int (length bs) \<and> True"
  proof (induction "patience w" arbitrary: w rule: less_induct)
    case less
    obtain w' r where r: "os_write w bs = (w', r)" by fastforce
    then have "case r of Done n \<Rightarrow> n \<le> length bs | Interrupted \<Rightarrow> patience w' < patience w | Failed \<Rightarrow> True"
      using assms unfolding os_ok_def by blast
    then show ?case using r less.hyps by (cases r) (auto simp: cbuf_put_fd.simps [of os_write w bs])
  qed
qed simp_all

lemma fd_source:
  assumes "os_ok os_read os_write patience"
  shows "source (cbuf_get_fd os_read) (\<lambda>_ _ _. True) (\<lambda>_ _. True)"
proof
  fix w and n k :: nat
  show "\<exists>w' m bs. cbuf_get_fd os_read w n = Some (w', m, bs) \<and> m \<le> int n \<and> length bs = nat m \<and> True \<and> True"
  proof (induction "patience w" arbitrary: w rule: less_induct)
    case less
    obtain w' r where r: "os_read w n = (w', r)" by fastforce
    then have "case r of Done bs \<Rightarrow> length bs \<le> n | Interrupted \<Rightarrow> patience w' < patience w | Failed \<Rightarrow> True"
      using assms unfolding os_ok_def by blast
    then show ?case using r less.hyps by (cases r) (auto simp: cbuf_get_fd.simps [of os_read w n])
  qed
qed simp_all

lemma same_kind_overwrite: "wf_cbuf cb \<Longrightarrow> wf_cbuf (cb\<lparr>cb_overwrite := v\<rparr>)"
  by (simp add: wf_cbuf_def cbuf_is_valid_def)

lemma wf_flush: "wf_cbuf cb \<Longrightarrow> wf_cbuf (cbuf_flush cb)"
  by (auto simp: wf_cbuf_def cbuf_is_valid_def cbuf_flush_def)

lemma wf_drop: "wf_cbuf cb \<Longrightarrow> wf_cbuf (fst (cbuf_drop cb len))"
  using dropper_spec(1) [of cb] by (simp add: cbuf_drop_def Let_def)

lemma wf_rewind: "wf_cbuf cb \<Longrightarrow> wf_cbuf (fst (cbuf_rewind cb len))"
  using rewinder_spec(1) [of cb] by (simp add: cbuf_rewind_def Let_def)

lemma find_unread_bound:
  assumes "wf_cbuf cb" "- 1 \<le> lines"
  shows "\<exists>n l. cbuf_find_unread_line cb chars lines = Some (n, l) \<and> n \<le> cb_used cb"
proof -
  consider "lines = - 1" | "lines = 0" | "0 < nat lines" "int (nat lines) = lines" using assms(2) by force
  then show ?thesis
  proof cases
    case 1
    then show ?thesis using find_unread_spec(1) [OF assms(1), of chars] whole_lines_le [of "take (nat chars) (unread cb)"]
        wf_lengths(1) [OF assms(1)] by auto
  next
    case 2
    then show ?thesis by (simp add: cbuf_find_unread_line_def)
  next
    case 3
    then show ?thesis using find_unread_spec(2) [OF assms(1), of "nat lines" chars] first_lines_le [of "nat lines" "unread cb"]
        wf_lengths(1) [OF assms(1)] by auto
  qed
qed

lemma drop_line_spec:
  assumes "wf_cbuf cb"
  shows "\<exists>cb' n. cbuf_drop_line cb len lines = Some (cb', n) \<and> wf_cbuf cb'"
proof (cases "len < 0 \<or> lines < - 1 \<or> lines = 0")
  case True
  then show ?thesis using assms by (auto simp: cbuf_drop_line_def)
next
  case False
  then obtain n l where "cbuf_find_unread_line cb len lines = Some (n, l)" "n \<le> cb_used cb"
    using find_unread_bound [OF assms, of lines len] by auto
  then show ?thesis using False assms dropper_spec(1) [OF assms, of n] by (simp add: cbuf_drop_line_def)
qed

lemma rewind_line_spec:
  assumes "wf_cbuf cb"
  shows "\<exists>cb' n. cbuf_rewind_line cb len lines = Some (cb', n) \<and> wf_cbuf cb'"
proof -
  obtain n l nl where "cbuf_find_replay_line cb len lines = Some (n, l, nl)" "n \<le> cbuf_reused cb"
    using find_replay_bound [OF assms] by blast
  then show ?thesis using assms rewinder_spec(1) [OF assms, of n] by (simp add: cbuf_rewind_line_def)
qed

text \<open>Each operation returns and leaves its buffer well formed.\<close>

lemma write_wf:
  assumes "wf_cbuf cb" "\<And>s. src = Some s \<Longrightarrow> nat len \<le> length s"
  shows "\<exists>cb' r. cbuf_write cb src len = Some (cb', r) \<and> wf_cbuf cb'"
proof (cases "src = None \<or> len \<le> 0")
  case True
  then show ?thesis using assms(1) by (auto simp: cbuf_write_def split: option.split)
next
  case False
  then obtain s where "src = Some s" "0 < len" by auto
  moreover from this have "nat len \<le> length s" using assms(2) by blast
  moreover from calculation obtain cb' n d where "cbuf_write cb (Some s) len = Some (cb', n, d)" "wf_cbuf cb'"
    using assms(1) cbuf_write_spec [of cb len s] by blast
  ultimately show ?thesis by blast
qed

lemma write_line_wf: "wf_cbuf cb \<Longrightarrow> \<exists>cb' r. cbuf_write_line cb src = Some (cb', r) \<and> wf_cbuf cb'"
  using write_line_spec [of cb "the src"] by (cases src) (auto simp: cbuf_write_line_def)

lemma read_wf: "wf_cbuf cb \<Longrightarrow> \<exists>cb' r. cbuf_read null cb len = Some (cb', r) \<and> wf_cbuf cb'"
proof (cases "null \<or> len < 0")
  case False
  then show "wf_cbuf cb \<Longrightarrow> ?thesis" using cbuf_read_spec [of cb len] by auto
qed (auto simp: cbuf_read_def)

lemma read_line_wf: "wf_cbuf cb \<Longrightarrow> \<exists>cb' r. cbuf_read_line null cb len lines = Some (cb', r) \<and> wf_cbuf cb'"
proof (cases "null \<or> len < 0 \<or> lines < - 1 \<or> lines = 0")
  case False
  then show "wf_cbuf cb \<Longrightarrow> ?thesis" using read_line_spec [of cb len lines] by auto
qed (auto simp: cbuf_read_line_def)

lemma peek_total: "wf_cbuf cb \<Longrightarrow> \<exists>r. cbuf_peek null cb len = Some r"
  using mem.cbuf_reader_spec [of cb "nat len" "[]"] by (auto simp: cbuf_peek_def)

lemma peek_line_total:
  assumes "wf_cbuf cb"
  shows "\<exists>r. cbuf_peek_line null cb len lines = Some r"
proof (cases "null \<or> len < 0 \<or> lines < - 1 \<or> lines = 0")
  case False
  then obtain n l where "cbuf_find_unread_line cb (len - 1) lines = Some (n, l)" "n \<le> cb_used cb"
    using find_unread_bound [OF assms, of lines "len - 1"] by auto
  then show ?thesis using False line_text_spec [OF assms, of n len] by (simp add: cbuf_peek_line_def)
qed (auto simp: cbuf_peek_line_def)

lemma replay_total: "wf_cbuf cb \<Longrightarrow> \<exists>r. cbuf_replay null cb len = Some r"
  using mem.cbuf_replayer_spec [of cb "nat len" "[]"] by (auto simp: cbuf_replay_def)

lemma replay_line_total:
  assumes "wf_cbuf cb"
  shows "\<exists>r. cbuf_replay_line null cb len lines = Some r"
proof (cases "null \<or> len < 0 \<or> lines < - 1 \<or> lines = 0")
  case False
  obtain n l nl where f: "cbuf_find_replay_line cb (len - 1) lines = Some (n, l, nl)" "n \<le> cbuf_reused cb"
    using find_replay_bound [OF assms] by blast
  have "\<exists>bs m. cbuf_replayer cbuf_put_mem cb k [] = Some (bs, m)" for k
    using mem.cbuf_replayer_spec [OF assms, of k "[]"] by blast
  then show ?thesis using False f(1) by (auto simp: cbuf_replay_line_def Let_def split: prod.split)
qed (auto simp: cbuf_replay_line_def)

lemma lines_total:
  assumes "wf_cbuf cb"
  shows "\<exists>r. cbuf_lines_used cb = Some r" "\<exists>r. cbuf_lines_reused cb = Some r"
  using find_unread_bound [OF assms, of "- 1" "int (cb_size cb)"] find_replay_bound [OF assms, of "int (cb_size cb)" "- 1"]
  by (auto simp: cbuf_lines_used_def cbuf_lines_reused_def)

lemma fd_wf:
  assumes "wf_cbuf cb" "os_ok os_read os_write patience"
  shows "\<exists>r. cbuf_peek_to_fd (cbuf_put_fd os_write) cb fd len w = Some r"
    "\<exists>r. cbuf_replay_to_fd (cbuf_put_fd os_write) cb fd len w = Some r"
    "\<exists>cb' r. cbuf_read_to_fd (cbuf_put_fd os_write) cb fd len w = Some (cb', r) \<and> wf_cbuf cb'"
    "\<exists>cb' r. cbuf_write_from_fd (cbuf_get_fd os_read) cb fd len w = Some (cb', r) \<and> wf_cbuf cb'"
proof -
  note sent = sink.cbuf_reader_spec [OF fd_sink [OF assms(2)] assms(1)]
    and replayed = sink.cbuf_replayer_spec [OF fd_sink [OF assms(2)] assms(1)]
    and got = source.cbuf_writer_spec [OF fd_source [OF assms(2)] assms(1)]
  show "\<exists>r. cbuf_peek_to_fd (cbuf_put_fd os_write) cb fd len w = Some r"
  proof -
    have "\<exists>r. cbuf_reader (cbuf_put_fd os_write) cb k w = Some r" for k using sent [of k w] by blast
    then show ?thesis by (simp add: cbuf_peek_to_fd_def Let_def)
  qed
  show "\<exists>r. cbuf_replay_to_fd (cbuf_put_fd os_write) cb fd len w = Some r"
  proof -
    have "\<exists>r. cbuf_replayer (cbuf_put_fd os_write) cb k w = Some r" for k using replayed [of k w] by blast
    then show ?thesis by (simp add: cbuf_replay_to_fd_def Let_def)
  qed
  show "\<exists>cb' r. cbuf_read_to_fd (cbuf_put_fd os_write) cb fd len w = Some (cb', r) \<and> wf_cbuf cb'"
  proof -
    define k where "k = (if len = - 1 then cb_used cb else nat len)"
    obtain w' n where r: "cbuf_reader (cbuf_put_fd os_write) cb k w = Some (w', n)" "n \<le> int (min k (cb_used cb))"
      using sent [of k w] by blast
    have "wf_cbuf (if 0 < n then cbuf_dropper cb (nat n) else cb)"
      using dropper_spec(1) [OF assms(1), of "nat n"] assms(1) r(2) by auto
    then show ?thesis using r(1) assms(1) by (simp add: cbuf_read_to_fd_def k_def [symmetric] Let_def)
  qed
  show "\<exists>cb' r. cbuf_write_from_fd (cbuf_get_fd os_read) cb fd len w = Some (cb', r) \<and> wf_cbuf cb'"
  proof -
    have "\<exists>cb' w' n d. cbuf_writer (cbuf_get_fd os_read) cb k w = Some (cb', w', n, d) \<and> wf_cbuf cb'" if "0 < k" for k
      using got [OF that, of w] by blast
    then show ?thesis using assms(1) by (fastforce simp: cbuf_write_from_fd_def Let_def)
  qed
qed

lemma run_op_wf:
  assumes "wf_cbuf cb" "os_ok os_read os_write patience" "op_ok (On i c)"
  shows "\<exists>cb' w'. run_op os_read os_write c cb w = Some (cb', w') \<and> wf_cbuf cb'"
proof (cases c)
  case (Write s len)
  then show ?thesis using assms(3) write_wf [OF assms(1), of s len] by (force simp: run_op_def op_ok_def)
next
  case (Write_Line s)
  then show ?thesis using write_line_wf [OF assms(1), of s] by (force simp: run_op_def)
next
  case (Write_From_Fd fd len)
  then show ?thesis using fd_wf(4) [OF assms(1,2), of fd len w] by (force simp: run_op_def)
next
  case (Read null len)
  then show ?thesis using read_wf [OF assms(1), of null len] by (force simp: run_op_def)
next
  case (Read_Line null len lines)
  then show ?thesis using read_line_wf [OF assms(1), of null len lines] by (force simp: run_op_def)
next
  case (Read_To_Fd fd len)
  then show ?thesis using fd_wf(3) [OF assms(1,2), of fd len w] by (force simp: run_op_def)
next
  case (Peek null len)
  then show ?thesis using assms(1) peek_total [OF assms(1), of null len] by (force simp: run_op_def)
next
  case (Peek_Line null len lines)
  then show ?thesis using assms(1) peek_line_total [OF assms(1), of null len lines] by (force simp: run_op_def)
next
  case (Peek_To_Fd fd len)
  then show ?thesis using assms(1) fd_wf(1) [OF assms(1,2), of fd len w] by (force simp: run_op_def)
next
  case (Replay null len)
  then show ?thesis using assms(1) replay_total [OF assms(1), of null len] by (force simp: run_op_def)
next
  case (Replay_Line null len lines)
  then show ?thesis using assms(1) replay_line_total [OF assms(1), of null len lines] by (force simp: run_op_def)
next
  case (Replay_To_Fd fd len)
  then show ?thesis using assms(1) fd_wf(2) [OF assms(1,2), of fd len w] by (force simp: run_op_def)
next
  case (Drop len)
  then show ?thesis using wf_drop [OF assms(1)] by (simp add: run_op_def)
next
  case (Drop_Line len lines)
  then show ?thesis using drop_line_spec [OF assms(1), of len lines] by (auto simp: run_op_def)
next
  case (Rewind len)
  then show ?thesis using wf_rewind [OF assms(1)] by (simp add: run_op_def)
next
  case (Rewind_Line len lines)
  then show ?thesis using rewind_line_spec [OF assms(1), of len lines] by (auto simp: run_op_def)
next
  case (Set_Opt name v)
  then show ?thesis using assms(1) same_kind_overwrite [OF assms(1)] by (auto simp: run_op_def cbuf_opt_set_def split: option.split)
next
  case Flush
  then show ?thesis using wf_flush [OF assms(1)] by (simp add: run_op_def)
qed (use assms(1) lines_total [OF assms(1)] in \<open>auto simp: run_op_def\<close>)

lemma copy_wf:
  assumes "wf_cbuf src" "wf_cbuf dst"
  shows "\<exists>dst' r. cbuf_copy same src dst len = Some (dst', r) \<and> wf_cbuf dst'"
    "\<exists>src' dst' r. cbuf_move same src dst len = Some (src', dst', r) \<and> wf_cbuf src' \<and> wf_cbuf dst'"
proof -
  define k where "k = (if len = - 1 then cb_used src else nat len)"
  have c: "\<exists>dst' n d. cbuf_copier src dst k = Some (dst', n, d) \<and> wf_cbuf dst' \<and> wf_cbuf (if 0 < n then cbuf_dropper src (nat n) else src)"
    if pos: "0 < k"
  proof -
    obtain dst' n d where c: "cbuf_copier src dst k = Some (dst', n, d)" "wf_cbuf dst'" "nat n \<le> min k (cb_used src)"
      using cbuf_copier_spec [OF assms pos] by blast
    then have "wf_cbuf (if 0 < n then cbuf_dropper src (nat n) else src)" using dropper_spec(1) [OF assms(1), of "nat n"] assms(1) by auto
    then show ?thesis using c by blast
  qed
  show "\<exists>dst' r. cbuf_copy same src dst len = Some (dst', r) \<and> wf_cbuf dst'"
    using assms c by (fastforce simp: cbuf_copy_def k_def [symmetric] Let_def)
  show "\<exists>src' dst' r. cbuf_move same src dst len = Some (src', dst', r) \<and> wf_cbuf src' \<and> wf_cbuf dst'"
    using assms c by (fastforce simp: cbuf_move_def k_def [symmetric] Let_def)
qed

lemma run_call_wf:
  assumes "\<forall>cb \<in> set cbs. wf_cbuf cb" "os_ok os_read os_write patience" "op_ok c"
  shows "\<exists>cbs' w'. run_call os_read os_write c (cbs, w) = Some (cbs', w') \<and> (\<forall>cb \<in> set cbs'. wf_cbuf cb)"
proof -
  have put: "\<forall>cb \<in> set (xs[i := x]). wf_cbuf cb" if "\<forall>cb \<in> set xs. wf_cbuf cb" "wf_cbuf x" for xs i x
    using that set_update_subset_insert [of xs i x] by auto
  have at: "i < length cbs \<Longrightarrow> wf_cbuf (cbs ! i)" for i using assms(1) by simp
  show ?thesis
  proof (cases c)
    case (Create minsize maxsize)
    then show ?thesis using assms(1) wf_created(1) [of minsize maxsize] by (cases "cbuf_create minsize maxsize") (auto simp: run_call_def)
  next
    case (On i op)
    show ?thesis
    proof (cases "i < length cbs")
      case True
      then obtain cb' w' where "run_op os_read os_write op (cbs ! i) w = Some (cb', w')" "wf_cbuf cb'"
        using run_op_wf [OF at [OF True] assms(2), of i op w] assms(3) On by blast
      then show ?thesis using True On put [OF assms(1), of cb' i] by (simp add: run_call_def)
    qed (use On assms(1) in \<open>simp add: run_call_def\<close>)
  next
    case (Copy i j len)
    show ?thesis
    proof (cases "i < length cbs \<and> j < length cbs")
      case True
      then obtain dst' r where "cbuf_copy (i = j) (cbs ! i) (cbs ! j) len = Some (dst', r)" "wf_cbuf dst'"
        using copy_wf(1) [OF at at, of i j "i = j" len] by blast
      then show ?thesis using True Copy put [OF assms(1), of dst' j] by (simp add: run_call_def)
    qed (use Copy assms(1) in \<open>auto simp: run_call_def\<close>)
  next
    case (Move i j len)
    show ?thesis
    proof (cases "i < length cbs \<and> j < length cbs")
      case True
      then obtain src' dst' r where "cbuf_move (i = j) (cbs ! i) (cbs ! j) len = Some (src', dst', r)" "wf_cbuf src'" "wf_cbuf dst'"
        using copy_wf(2) [OF at at, of i j "i = j" len] by blast
      then show ?thesis using True Move assms(1) put [OF put [OF assms(1), of src' i], of dst' j] by (simp add: run_call_def)
    qed (use Move assms(1) in \<open>auto simp: run_call_def\<close>)
  qed
qed

text \<open>C27: Whatever calls a program makes on any number of buffers that it creates
  (writes, reads, peeks and replays from and to memory and files, by bytes and by
  lines, drops and rewinds, counts of lines, options, flushes, copies and moves
  between buffers, with any lengths and null pointers), every call returns, none
  accesses memory outside a buffer or uses a result that was not set, and every
  buffer stays valid: each condition that debug builds test holds, and the array
  has one byte more than the size. A caller who writes from memory has the bytes
  it says; the system calls transfer no more than they are asked to and are not
  interrupted forever.\<close>

theorem cbuf_stays_valid:
  assumes "\<forall>c \<in> set cs. op_ok c" "os_ok os_read os_write patience"
  shows "\<exists>cbs w'. run_ops os_read os_write cs ([], w) = Some (cbs, w')
    \<and> (\<forall>cb \<in> set cbs. cbuf_is_valid cb \<and> length (cb_data cb) = cb_size cb + 1)"
proof -
  have "\<exists>cbs' w'. run_ops os_read os_write cs (cbs, w) = Some (cbs', w') \<and> (\<forall>cb \<in> set cbs'. wf_cbuf cb)"
    if "\<forall>cb \<in> set cbs. wf_cbuf cb" for cbs w
    using that assms(1)
  proof (induction cs arbitrary: cbs w)
    case (Cons c cs)
    then obtain cbs1 w1 where "run_call os_read os_write c (cbs, w) = Some (cbs1, w1)" "\<forall>cb \<in> set cbs1. wf_cbuf cb"
      using run_call_wf [OF Cons.prems(1) assms(2), of c w] by auto
    then show ?case using Cons.IH [of cbs1 w1] Cons.prems(2) by simp
  qed simp
  from this [of "[]" w] show ?thesis by (auto simp: wf_cbuf_def)
qed

text \<open>
  Files whose state is the number of interruptions still to come: \<^verbatim>\<open>read\<close> gives two
  bytes, \<^verbatim>\<open>write\<close> takes one.
\<close>

definition sample_read :: "nat os_reader" where
  "sample_read w n = (case w of 0 \<Rightarrow> (0, Done (take n [8, 10])) | Suc v \<Rightarrow> (v, Interrupted))"

definition sample_write :: "nat os_writer" where
  "sample_write w bs = (case w of 0 \<Rightarrow> (0, Done (min 1 (length bs))) | Suc v \<Rightarrow> (v, Interrupted))"

definition sample_calls :: "cbuf_call list" where
  "sample_calls = [Create 4 6, Create 0 9, Create 3 3, On 0 (Write (Some [1, 2, 10, 3, 4]) 5), On 0 (Read False 3),
     On 0 (Rewind_Line 5 1), On 1 (Write_From_Fd 7 9), On 0 (Replay_Line False 9 1), On 1 (Read_To_Fd 8 (- 1)), Move 0 1 4,
     Copy 1 1 2, On 0 (Write_Line (Some [7])), On 1 (Peek_Line False 5 (- 1)), On 0 (Drop_Line 9 (- 1))]"

theorem cbuf_stays_valid_witness:
  "\<exists>cbs w. run_ops sample_read sample_write sample_calls ([], 3) = Some (cbs, w) \<and> (\<forall>cb \<in> set cbs. cbuf_is_valid cb)"
proof -
  have o: "os_ok sample_read sample_write id"
    by (auto simp: os_ok_def sample_read_def sample_write_def split: nat.splits)
  have c: "\<forall>c \<in> set sample_calls. op_ok c" by (simp add: sample_calls_def op_ok_def)
  from cbuf_stays_valid [OF c o, of 3] show ?thesis by blast
qed

text \<open>C24: A buffer that is not to drop data is a queue: after any reads and writes,
  what it held and then accepted is what it delivered, followed by what it holds.\<close>

theorem cbuf_fifo:
  assumes "wf_cbuf cb" "cb_overwrite cb = CBUF_NO_DROP" "byte_queue.run queue_put queue_take cb ops = (cb', accepted, delivered)"
  shows "unread cb @ accepted = delivered @ unread cb'"
  using cq.run_fifo [OF _ assms(3)] assms(1,2) by simp

theorem cbuf_fifo_witness:
  "\<exists>cb'. byte_queue.run queue_put queue_take (sample_cbuf\<lparr>cb_overwrite := CBUF_NO_DROP\<rparr>) [Put [1, 2, 3], Take 2, Put [4, 5, 6, 7, 8, 9, 1, 1]]
     = (cb', [1, 2, 3, 4, 5, 6, 7, 8], [1, 2]) \<and> unread cb' = [3, 4, 5, 6, 7, 8]"
proof -
  define cb where "cb = sample_cbuf\<lparr>cb_overwrite := CBUF_NO_DROP\<rparr>"
  have w: "wf_cbuf cb" "unread cb = []"
    using wf_created [OF sample_created] same_kind_overwrite [of sample_cbuf CBUF_NO_DROP]
    by (simp_all add: cb_def unread_def history_def)
  obtain cb' acc del where r: "byte_queue.run queue_put queue_take cb [Put [1, 2, 3], Take 2, Put [4, 5, 6, 7, 8, 9, 1, 1]] = (cb', acc, del)"
    by (metis prod_cases3)
  have "snd (byte_queue.run queue_put queue_take cb [Put [1, 2, 3], Take 2, Put [4, 5, 6, 7, 8, 9, 1, 1]])
      = ([1, 2, 3, 4, 5, 6, 7, 8], [1, 2])"
    unfolding cb_def cq.run.simps by code_simp
  then have a: "acc = [1, 2, 3, 4, 5, 6, 7, 8]" "del = [1, 2]" using r by simp_all
  have "unread cb @ acc = del @ unread cb'" by (rule cbuf_fifo [OF w(1) _ r]) (simp add: cb_def)
  then show ?thesis using r a w(2) by (simp add: cb_def)
qed

lemma cbuf_drop_spec:
  assumes "wf_cbuf cb" "0 \<le> len"
  defines "k \<equiv> min (nat len) (cb_used cb)"
  shows "snd (cbuf_drop cb len) = int k" "unread (fst (cbuf_drop cb len)) = drop k (unread cb)"
    "replay (fst (cbuf_drop cb len)) = replay cb @ take k (unread cb)"
proof -
  have "k \<le> cb_used cb" by (simp add: k_def)
  note d = dropper_spec [OF assms(1) this]
  have e: "cbuf_drop cb len = (if 0 < k then cbuf_dropper cb k else cb, int k)"
    using assms(2) by (auto simp: cbuf_drop_def k_def Let_def)
  show "snd (cbuf_drop cb len) = int k" "unread (fst (cbuf_drop cb len)) = drop k (unread cb)"
    "replay (fst (cbuf_drop cb len)) = replay cb @ take k (unread cb)" using e d by (cases "k = 0"; simp)+
qed

text \<open>C26: Reading takes the oldest unread bytes and moves them to the end of what can be
  replayed, peeking leaves them, replaying shows the most recent of them again, and
  rewinding puts them back in front of the unread bytes. Each does as many bytes as
  there are.\<close>

theorem cbuf_history_refines:
  assumes "wf_cbuf cb" "0 \<le> len"
    and "k = min (nat len) (length (unread cb))" "j = min (nat len) (length (replay cb))"
  shows "(\<exists>cb'. cbuf_read False cb len = Some (cb', int k, take k (unread cb))
        \<and> unread cb' = drop k (unread cb) \<and> replay cb' = replay cb @ take k (unread cb))
    \<and> cbuf_peek False cb len = Some (int k, take k (unread cb))
    \<and> cbuf_replay False cb len = Some (int j, last_n j (replay cb))
    \<and> snd (cbuf_rewind cb len) = int j \<and> unread (fst (cbuf_rewind cb len)) = last_n j (replay cb) @ unread cb
    \<and> replay (fst (cbuf_rewind cb len)) = take (length (replay cb) - j) (replay cb)
    \<and> unread (cbuf_flush cb) = [] \<and> replay (cbuf_flush cb) = []"
proof -
  have kj: "k = min (nat len) (cb_used cb)" "j = min (nat len) (cbuf_reused cb)" using assms(3,4) wf_lengths(1,3) [OF assms(1)] by simp_all
  obtain d n where p: "cbuf_reader cbuf_put_mem cb (nat len) [] = Some (d, n)" "d = take (nat n) (unread cb)" "n = int k"
    using mem.cbuf_reader_spec [OF assms(1), of "nat len" "[]"] mem_eager kj by auto
  obtain d' n' where q: "cbuf_replayer cbuf_put_mem cb (nat len) [] = Some (d', n')" "d' = take (nat n') (last_n j (replay cb))" "n' = int j"
    using mem.cbuf_replayer_spec [OF assms(1), of "nat len" "[]"] mem_eager kj by auto
  have jj: "take (nat (int j)) (last_n j (replay cb)) = last_n j (replay cb)" by simp
  have "j \<le> cbuf_reused cb" using kj by simp
  note r = rewinder_spec [OF assms(1) this]
  have rw: "cbuf_rewind cb len = (if 0 < j then cbuf_rewinder cb j else cb, int j)"
    using assms(2) kj by (auto simp: cbuf_rewind_def Let_def)
  have "cbuf_peek False cb len = Some (int k, take k (unread cb))" using p kj assms(2) by (cases "len = 0") (auto simp: cbuf_peek_def)
  moreover have "cbuf_replay False cb len = Some (int j, last_n j (replay cb))"
    using q jj kj assms(2) by (cases "len = 0") (simp_all add: cbuf_replay_def)
  moreover have "unread (fst (cbuf_rewind cb len)) = last_n j (replay cb) @ unread cb"
    "replay (fst (cbuf_rewind cb len)) = take (length (replay cb) - j) (replay cb)"
    using rw r wf_lengths(3) [OF assms(1)] by (cases "j = 0"; simp)+
  moreover have "unread (cbuf_flush cb) = []" "replay (cbuf_flush cb) = []"
    using wf_lengths(1,3) [OF wf_flush [OF assms(1)]] by (simp_all add: cbuf_flush_def cbuf_reused_def)
  ultimately show ?thesis using cbuf_read_spec [OF assms(1,2)] kj rw by auto
qed

text \<open>C25: A write appends the bytes that it accepts and keeps as many of the last ones as
  fit, of the unread bytes as of all that can be replayed. It accepts all, at most
  one buffer full, or what is free, as the option says; it fails when nothing is
  free. It counts the unread bytes that it overwrites, and first grows the buffer
  as far as it must and may.\<close>

theorem cbuf_write_keeps_end:
  assumes "wf_cbuf cb" "0 < len" "nat len \<le> length s"
  shows "\<exists>cb' n d. cbuf_write cb (Some s) len = Some (cb', n, d)
    \<and> n = (case cb_overwrite cb of
             CBUF_NO_DROP \<Rightarrow> if cb_used cb = cb_size cb' then - 1 else min len (int (cb_size cb' - cb_used cb))
           | CBUF_WRAP_ONCE \<Rightarrow> min len (int (cb_size cb'))
           | CBUF_WRAP_MANY \<Rightarrow> len)
    \<and> min (cb_used cb + nat len) (cb_maxsize cb) \<le> cb_size cb'
    \<and> unread cb' = last_n (cb_size cb') (unread cb @ take (nat n) s)
    \<and> replay cb' @ unread cb' = last_n (cb_size cb') (replay cb @ unread cb @ take (nat n) s)
    \<and> (0 < n \<longrightarrow> d = length (unread cb) + nat n - cb_size cb')"
proof -
  obtain cb' n d where w: "cbuf_write cb (Some s) len = Some (cb', n, d)" "wf_cbuf cb'" "min (cb_used cb + nat len) (cb_maxsize cb) \<le> cb_size cb'"
    "stored cb' = last_n (cb_size cb') (stored cb @ take (nat n) s)" "unread cb' = last_n (cb_size cb') (unread cb @ take (nat n) s)"
    "0 < n \<longrightarrow> d = cb_used cb + nat n - cb_size cb'"
    "n = (case cb_overwrite cb of
             CBUF_NO_DROP \<Rightarrow> if cb_used cb = cb_size cb' then - 1 else min len (int (cb_size cb' - cb_used cb))
           | CBUF_WRAP_ONCE \<Rightarrow> min len (int (cb_size cb'))
           | CBUF_WRAP_MANY \<Rightarrow> len)"
    using cbuf_write_spec [OF assms] by blast
  have "replay cb' @ unread cb' = last_n (cb_size cb') (replay cb @ unread cb @ take (nat n) s)"
    using w(4) wf_lengths(4) [OF w(2)] wf_lengths(4) [OF assms(1)] by simp
  moreover have "0 < n \<longrightarrow> d = length (unread cb) + nat n - cb_size cb'" using w(6) wf_lengths(1) [OF assms(1)] by simp
  ultimately show ?thesis using w(1,3,5,7) by blast
qed

theorem cbuf_write_keeps_end_witness:
  "\<exists>cb d. cbuf_write sample_cbuf (Some [1, 2, 3, 4, 5, 6, 7, 8]) 8 = Some (cb, 8, d) \<and> unread cb = last_n (cb_size cb) [1, 2, 3, 4, 5, 6, 7, 8]"
proof -
  have "0 < (8::int)" "nat 8 \<le> length [1, 2, 3, 4, 5, 6, 7, 8 :: u8]" by simp_all
  from cbuf_write_keeps_end [OF wf_created(1) [OF sample_created] this] show ?thesis
    using wf_created(2,4) [OF sample_created] by auto
qed

definition sample_half_read :: cbuf where
  "sample_half_read = sample_cbuf\<lparr>cb_data := [1, 2, 3, 0, 0], cb_used := 1, cb_out := 2, cb_in := 3\<rparr>"

lemma sample_half_read: "wf_cbuf sample_half_read" "unread sample_half_read = [3]" "replay sample_half_read = [1, 2]"
proof -
  have "wf_cbuf sample_half_read \<and> unread sample_half_read = [3] \<and> replay sample_half_read = [1, 2]"
    unfolding wf_cbuf_def by code_simp
  then show "wf_cbuf sample_half_read" "unread sample_half_read = [3]" "replay sample_half_read = [1, 2]" by simp_all
qed

theorem cbuf_history_refines_witness:
  "\<exists>cb. cbuf_read False sample_half_read 3 = Some (cb, 1, [3]) \<and> replay cb = [1, 2, 3]
    \<and> unread (fst (cbuf_rewind sample_half_read 1)) = [2, 3]"
proof -
  have k: "(1::nat) = min (nat 3) (length (unread sample_half_read))" "(2::nat) = min (nat 3) (length (replay sample_half_read))"
    "(1::nat) = min (nat 1) (length (unread sample_half_read))" "(1::nat) = min (nat 1) (length (replay sample_half_read))"
    by (simp_all add: sample_half_read)
  have "(0::int) \<le> 3" "(0::int) \<le> 1" by simp_all
  from cbuf_history_refines [OF sample_half_read(1) this(1) k(1,2)] cbuf_history_refines [OF sample_half_read(1) this(2) k(3,4)]
  show ?thesis by (auto simp: sample_half_read last_n_def)
qed

lemma first_lines_last: "0 < k \<Longrightarrow> k \<le> newlines bs \<Longrightarrow> bs ! (first_lines k bs - 1) = newline_byte \<and> 0 < first_lines k bs"
proof (induction k bs rule: first_lines.induct)
  case (3 k b bs)
  show ?case
  proof (cases "b = newline_byte")
    case True
    then show ?thesis using 3 by (cases k) (auto simp: nth_Cons split: nat.split)
  next
    case False
    then have "bs ! (first_lines (Suc k) bs - 1) = newline_byte \<and> 0 < first_lines (Suc k) bs" using 3 by simp
    then show ?thesis using False by (cases "first_lines (Suc k) bs") simp_all
  qed
qed simp_all

lemma whole_lines_last: "0 < whole_lines bs \<Longrightarrow> bs ! (whole_lines bs - 1) = newline_byte"
proof (induction bs)
  case (Cons b bs)
  show ?case
  proof (cases "newlines bs = 0")
    case True
    then show ?thesis using Cons.prems by (auto simp: whole_lines_Cons split: if_splits)
  next
    case False
    then have "0 < whole_lines bs" by (induction bs) (auto simp: whole_lines_Cons)
    then show ?thesis using False Cons.IH by (cases "whole_lines bs") (simp_all add: whole_lines_Cons)
  qed
qed simp

lemma line_bytes_bounds:
  assumes "- 1 \<le> lines" "lines \<noteq> 0" "n = line_bytes cb len lines"
  shows "n \<le> length (unread cb)"
    "n \<noteq> 0 \<longrightarrow> unread cb ! (n - 1) = newline_byte"
    "0 < lines \<longrightarrow> int (newlines (take n (unread cb))) = (if lines \<le> int (newlines (unread cb)) then lines else 0)"
proof -
  show "n \<le> length (unread cb)"
    using assms(3) first_lines_le [of "nat lines" "unread cb"] whole_lines_le [of "take (nat (len - 1)) (unread cb)"]
    by (auto simp: line_bytes_def)
  have w: "whole_lines (take (nat (len - 1)) (unread cb)) \<le> nat (len - 1)"
    using whole_lines_le [of "take (nat (len - 1)) (unread cb)"] by simp
  show "n \<noteq> 0 \<longrightarrow> unread cb ! (n - 1) = newline_byte"
  proof (cases "lines = - 1")
    case True
    then show ?thesis using assms(3) w whole_lines_last [of "take (nat (len - 1)) (unread cb)"] by (auto simp: line_bytes_def)
  next
    case False
    then show ?thesis using assms first_lines_last [of "nat lines" "unread cb"] by (auto simp: line_bytes_def)
  qed
  show "0 < lines \<longrightarrow> int (newlines (take n (unread cb))) = (if lines \<le> int (newlines (unread cb)) then lines else 0)"
    using assms first_lines_newlines [of "nat lines" "unread cb"] by (auto simp: line_bytes_def nat_le_iff)
qed

text \<open>A read of lines takes whole lines only: the given number of them or nothing, or
  as many as fit. The rest stays unread, what was taken can be replayed, and the
  text that is stored never exceeds the memory given and ends with a zero byte.\<close>

lemma read_line_whole_lines:
  assumes "wf_cbuf cb" "0 \<le> len" "- 1 \<le> lines" "lines \<noteq> 0"
  shows "\<exists>cb' n text. cbuf_read_line False cb len lines = Some (cb', int n, text) \<and> wf_cbuf cb'
    \<and> unread cb' = drop n (unread cb) \<and> replay cb' = replay cb @ take n (unread cb)
    \<and> n \<le> length (unread cb) \<and> (n = 0 \<or> unread cb ! (n - 1) = newline_byte)
    \<and> (lines = - 1 \<or> int (newlines (take n (unread cb))) = (if lines \<le> int (newlines (unread cb)) then lines else 0))
    \<and> (lines = - 1 \<longrightarrow> n = whole_lines (take (nat (len - 1)) (unread cb)))
    \<and> length text \<le> nat len
    \<and> text = (if n = 0 \<or> len = 0 then [] else take (nat (len - 1)) (take n (unread cb)) @ [0])"
proof -
  define n where "n = line_bytes cb len lines"
  note b = line_bytes_bounds [OF assms(3,4) n_def]
  have p: "lines = - 1 \<or> 0 < lines" using assms(3,4) by arith
  obtain cb' where r: "cbuf_read_line False cb len lines = Some (cb', int n,
      if 0 < n \<and> 0 < len then take (min n (nat (len - 1))) (unread cb) @ [0] else [])" "wf_cbuf cb'"
    "unread cb' = drop n (unread cb)" "replay cb' = replay cb @ take n (unread cb)"
    using read_line_spec [OF assms(1-4)] n_def by auto
  have t: "(if 0 < n \<and> 0 < len then take (min n (nat (len - 1))) (unread cb) @ [0] else []) =
    (if n = 0 \<or> len = 0 then [] else take (nat (len - 1)) (take n (unread cb)) @ [0])"
    using assms(2) by (auto simp: min.commute)
  have "lines = - 1 \<longrightarrow> n = whole_lines (take (nat (len - 1)) (unread cb))" by (simp add: n_def line_bytes_def)
  moreover have "length (if n = 0 \<or> len = 0 then [] else take (nat (len - 1)) (take n (unread cb)) @ [0 :: u8]) \<le> nat len"
    using assms(2) by auto
  moreover have "lines = - 1 \<or> int (newlines (take n (unread cb))) = (if lines \<le> int (newlines (unread cb)) then lines else 0)"
    using b(3) p by blast
  moreover have "n = 0 \<or> unread cb ! (n - 1) = newline_byte" using b(2) by blast
  ultimately show ?thesis using r b(1) unfolding t by (intro exI [of _ cb'] exI [of _ n] exI [of _ "if n = 0 \<or> len = 0 then [] else take (nat (len - 1)) (take n (unread cb)) @ [0]"]) simp
qed

definition sample_lines :: cbuf where
  "sample_lines = sample_cbuf\<lparr>cb_data := [97, 10, 98, 10, 99], cb_used := 4, cb_out := 0, cb_in := 4\<rparr>"

lemma sample_lines: "wf_cbuf sample_lines" "unread sample_lines = [97, 10, 98, 10]"
proof -
  have "wf_cbuf sample_lines \<and> unread sample_lines = [97, 10, 98, 10]"
    unfolding wf_cbuf_def by code_simp
  then show "wf_cbuf sample_lines" "unread sample_lines = [97, 10, 98, 10]" by simp_all
qed

subsection \<open>Two buffers\<close>

text \<open>C28: A move takes the oldest unread bytes of one buffer and appends them to the
  other, and both stay valid. When the target drops nothing, no byte is lost or
  changed in order, however the target grows and wraps.\<close>

theorem cbuf_move_transfers:
  assumes "wf_cbuf src" "wf_cbuf dst" "0 < len"
  shows "\<exists>src' dst' n d. cbuf_move False src dst len = Some (src', dst', n, d) \<and> wf_cbuf src' \<and> wf_cbuf dst'
    \<and> nat n \<le> min (nat len) (length (unread src))
    \<and> unread src' = drop (nat n) (unread src) \<and> replay src' = replay src @ take (nat n) (unread src)
    \<and> unread dst' = last_n (cb_size dst') (unread dst @ take (nat n) (unread src))
    \<and> (cb_overwrite dst = CBUF_NO_DROP \<longrightarrow> unread dst' @ unread src' = unread dst @ unread src)
    \<and> (0 < n \<longrightarrow> d = length (unread dst) + nat n - cb_size dst')"
proof -
  have l: "0 < nat len" using assms(3) by simp
  obtain dst' n d where c: "cbuf_copier src dst (nat len) = Some (dst', n, d)" "wf_cbuf dst'"
    "unread dst' = last_n (cb_size dst') (unread dst @ take (nat n) (unread src))"
    "0 < n \<longrightarrow> d = Some (cb_used dst + nat n - cb_size dst')" "nat n \<le> min (nat len) (cb_used src)"
    "cb_overwrite dst = CBUF_NO_DROP \<longrightarrow> cb_used dst + nat n \<le> cb_size dst'"
    using cbuf_copier_spec [OF assms(1,2) l] by blast
  note u = wf_lengths(1) [OF assms(1)] wf_lengths(1) [OF assms(2)]
  define src' where "src' = (if n > 0 then cbuf_dropper src (nat n) else src)"
  have m: "cbuf_move False src dst len = Some (src', dst', n, case_option 0 id d)"
    using assms(3) c(1) by (simp add: cbuf_move_def src'_def)
  have "nat n \<le> cb_used src" using c(5) by simp
  note dr = dropper_spec [OF assms(1) this]
  have s: "wf_cbuf src'" "unread src' = drop (nat n) (unread src)" "replay src' = replay src @ take (nat n) (unread src)"
    using dr assms(1) by (auto simp: src'_def)
  have "unread dst' @ unread src' = unread dst @ unread src" if "cb_overwrite dst = CBUF_NO_DROP"
  proof -
    have "last_n (cb_size dst') (unread dst @ take (nat n) (unread src)) = unread dst @ take (nat n) (unread src)"
      using c(6) that u by (intro last_n_all) simp
    then show ?thesis using c(3) s(2) by simp
  qed
  moreover have "0 < n \<longrightarrow> case_option 0 id d = length (unread dst) + nat n - cb_size dst'" using c(4) u by auto
  moreover have "nat n \<le> min (nat len) (length (unread src))" using c(5) u by simp
  ultimately show ?thesis using m c(2,3) s by blast
qed

theorem cbuf_move_transfers_witness:
  "\<exists>src dst n d. cbuf_move False sample_lines sample_half_read 9 = Some (src, dst, n, d) \<and> n = 4 \<and> unread src = [] \<and> unread dst = [3, 97, 10, 98, 10]"
proof -
  have "case cbuf_move False sample_lines sample_half_read 9 of None \<Rightarrow> False | Some (src, dst, n, d) \<Rightarrow> n = 4 \<and> cb_size dst = 6"
    by code_simp
  then obtain src dst d where c: "cbuf_move False sample_lines sample_half_read 9 = Some (src, dst, 4, d)" "cb_size dst = 6"
    by (auto split: option.splits)
  have "(0::int) < 9" by simp
  from cbuf_move_transfers [OF sample_lines(1) sample_half_read(1) this] c show ?thesis
    by (auto simp: sample_lines(2) sample_half_read(2) last_n_def)
qed

text \<open>
  Replay data that fills the buffer and holds no newline is one line, which a replay
  of a line finds. The count of lines looks at as many characters as the buffer
  holds, does not reach the start and finds none.
\<close>

lemma cbuf_lines_reused_undercounts:
  assumes "wf_cbuf cb" "\<not> cb_got_wrap cb" "newlines (replay cb) = 0" "length (replay cb) = cb_size cb"
  shows "cbuf_lines_reused cb = Some 0" "cbuf_find_replay_line cb len 1 = Some (cb_size cb, 1, True)"
proof -
  have ne: "replay cb \<noteq> []" using assms(1,4) wf_data(7) [OF assms(1)] by auto
  have nl: "last (replay cb) \<noteq> newline_byte" using assms(3) ne by (auto simp: newlines_def filter_empty_conv)
  have r: "newlines (rev (replay cb)) = 0" using assms(3) by (simp add: newlines_def rev_filter [symmetric])
  have "scan_back (rev (replay cb)) 0 0 0 (int (cb_size cb)) (- 1) = (0 + length (rev (replay cb)), 0, 0, 0, - 1)"
    by (rule scan_back_plain) (use r assms(4) ne in auto)
  then show "cbuf_lines_reused cb = Some 0"
    using last_replay [OF assms(1) ne] find_replay_run [OF assms(1)] nl wf_data(7) [OF assms(1)]
    by (simp add: cbuf_lines_reused_def cbuf_find_replay_line_def Let_def)
  have b: "newlines bs = 0 \<Longrightarrow> scan_back bs n 0 0 (- 2) 1 = (n + length bs, 0, 0, - 2, 1)" for bs n
    by (induction bs arbitrary: n) (auto simp: Let_def split: if_splits)
  show "cbuf_find_replay_line cb len 1 = Some (cb_size cb, 1, True)"
    using last_replay [OF assms(1) ne] find_replay_run [OF assms(1)] nl b [OF r] assms(2,4)
    by (simp add: cbuf_find_replay_line_def Let_def)
qed

end
