(* ===== verification/Xlist.thy ===== *)
theory Xlist
  imports Prelude "HOL-Library.Monad_Syntax"
begin

text \<open>
  The lists of \<^verbatim>\<open>src/common/list.c\<close>, on which the controller keeps jobs, nodes, licenses
  and most else: singly linked nodes, a pointer to the link at the end, and iterators
  that stay usable while items are inserted and removed.

  The address of a node is a natural number, the address of a link is \<open>Head\<close> or the
  \<^verbatim>\<open>next\<close> of a node. Each list has a heap of its own: nodes never move from one list to
  another. \<open>None\<close> is a dereference of a freed node or iterator. Data are pointers that
  are not null, as the assertions of the source ask; a null result is \<open>None\<close> in an
  inner option. The lock of a list is held during every operation. The functions
  that the callers pass are functions of the data and of their argument.
\<close>

subsection \<open>Lists\<close>

datatype link = Head | Next_of nat

record 'a list_node =
  node_data :: 'a
  node_next :: "nat option"

record list_itr =
  itr_id :: nat
  itr_pos :: "nat option"
  itr_prev :: link

text \<open>
  The chain of iterators is a list, the newest first. The deletion function of a list
  is its presence and a record of the data that it was called for.
\<close>

record 'a xlist =
  xl_nodes :: "nat \<rightharpoonup> 'a list_node"
  xl_fresh :: nat
  xl_fresh_itr :: nat
  xl_head :: "nat option"
  xl_tail :: link
  xl_itrs :: "list_itr list"
  xl_has_del :: bool
  xl_deleted :: "'a list"
  xl_count :: int

definition list_create :: "bool \<Rightarrow> 'a xlist" where
  "list_create f = \<lparr>xl_nodes = Map.empty, xl_fresh = 0, xl_fresh_itr = 0, xl_head = None, xl_tail = Head, xl_itrs = [],
     xl_has_del = f, xl_deleted = [], xl_count = 0\<rparr>"

definition load_link :: "'a xlist \<Rightarrow> link \<Rightarrow> nat option option" where
  "load_link l lk = (case lk of Head \<Rightarrow> Some (xl_head l) | Next_of n \<Rightarrow> map_option node_next (xl_nodes l n))"

definition store_link :: "'a xlist \<Rightarrow> link \<Rightarrow> nat option \<Rightarrow> 'a xlist option" where
  "store_link l lk p =
     (case lk of
        Head \<Rightarrow> Some (l\<lparr>xl_head := p\<rparr>)
      | Next_of n \<Rightarrow> map_option (\<lambda>nd. l\<lparr>xl_nodes := (xl_nodes l)(n \<mapsto> nd\<lparr>node_next := p\<rparr>)\<rparr>) (xl_nodes l n))"

definition list_node_create :: "'a xlist \<Rightarrow> link \<Rightarrow> 'a \<Rightarrow> 'a xlist option" where
  "list_node_create l pp x = do {
     let p = xl_fresh l;
     nx \<leftarrow> load_link l pp;
     let l = l\<lparr>xl_nodes := (xl_nodes l)(p \<mapsto> \<lparr>node_data = x, node_next = nx\<rparr>), xl_fresh := p + 1,
               xl_tail := (if nx = None then Next_of p else xl_tail l)\<rparr>;
     l \<leftarrow> store_link l pp (Some p);
     Some (l\<lparr>xl_count := xl_count l + 1,
             xl_itrs := map (\<lambda>i. if itr_prev i = pp then i\<lparr>itr_prev := Next_of p\<rparr>
                                  else if itr_pos i = nx then i\<lparr>itr_pos := Some p\<rparr> else i) (xl_itrs l)\<rparr>)
   }"

definition list_node_destroy :: "'a xlist \<Rightarrow> link \<Rightarrow> ('a xlist \<times> 'a option) option" where
  "list_node_destroy l pp = do {
     p \<leftarrow> load_link l pp;
     case p of
       None \<Rightarrow> Some (l, None)
     | Some p \<Rightarrow> do {
         nd \<leftarrow> xl_nodes l p;
         l \<leftarrow> store_link l pp (node_next nd);
         let l = (if node_next nd = None then l\<lparr>xl_tail := pp\<rparr> else l);
         Some (l\<lparr>xl_count := xl_count l - 1,
                 xl_itrs := map (\<lambda>i. if itr_pos i = Some p then i\<lparr>itr_pos := node_next nd, itr_prev := pp\<rparr>
                                      else if itr_prev i = Next_of p then i\<lparr>itr_prev := pp\<rparr> else i) (xl_itrs l),
                 xl_nodes := (xl_nodes l)(p := None)\<rparr>, Some (node_data nd))
       }
   }"

definition list_pop_locked :: "'a xlist \<Rightarrow> ('a xlist \<times> 'a option) option" where
  "list_pop_locked l = list_node_destroy l Head"

text \<open>The call of the deletion function, when there is one.\<close>

definition call_del :: "'a xlist \<Rightarrow> 'a \<Rightarrow> 'a xlist" where
  "call_del l v = (if xl_has_del l then l\<lparr>xl_deleted := xl_deleted l @ [v]\<rparr> else l)"

text \<open>The data that the deletion function was called for when the list is gone.\<close>

partial_function (option) destroy_loop :: "'a xlist \<Rightarrow> nat option \<Rightarrow> 'a list option" where
  [code]: "destroy_loop l p =
     (case p of
        None \<Rightarrow> Some (xl_deleted l)
      | Some p \<Rightarrow> do {
          nd \<leftarrow> xl_nodes l p;
          let l = call_del l (node_data nd);
          destroy_loop (l\<lparr>xl_nodes := (xl_nodes l)(p := None)\<rparr>) (node_next nd)
        })"

definition list_destroy :: "'a xlist \<Rightarrow> 'a list option" where
  "list_destroy l = destroy_loop (l\<lparr>xl_itrs := []\<rparr>) (xl_head l)"

definition list_is_empty :: "'a xlist \<Rightarrow> bool" where
  "list_is_empty l \<longleftrightarrow> xl_count l = 0"

definition list_count :: "'a xlist option \<Rightarrow> int" where
  "list_count l = (case l of None \<Rightarrow> 0 | Some l \<Rightarrow> xl_count l)"

subsection \<open>Access\<close>

definition list_append :: "'a xlist \<Rightarrow> 'a \<Rightarrow> 'a xlist option" where
  "list_append l x = list_node_create l (xl_tail l) x"

definition list_push :: "'a xlist \<Rightarrow> 'a \<Rightarrow> 'a xlist option" where
  "list_push l x = list_node_create l Head x"

definition list_pop :: "'a xlist \<Rightarrow> ('a xlist \<times> 'a option) option" where
  "list_pop l = list_pop_locked l"

definition list_dequeue :: "'a xlist \<Rightarrow> ('a xlist \<times> 'a option) option" where
  "list_dequeue l = list_node_destroy l Head"

definition list_peek :: "'a xlist \<Rightarrow> 'a option option" where
  "list_peek l = (case xl_head l of None \<Rightarrow> Some None | Some p \<Rightarrow> map_option (Some \<circ> node_data) (xl_nodes l p))"

partial_function (option) find_loop :: "'a xlist \<Rightarrow> ('a \<Rightarrow> 'k \<Rightarrow> int) \<Rightarrow> 'k \<Rightarrow> nat option \<Rightarrow> 'a option option" where
  [code]: "find_loop l f key p =
     (case p of
        None \<Rightarrow> Some None
      | Some p \<Rightarrow> do {
          nd \<leftarrow> xl_nodes l p;
          if f (node_data nd) key \<noteq> 0 then Some (Some (node_data nd)) else find_loop l f key (node_next nd)
        })"

definition list_find_first_locked :: "'a xlist \<Rightarrow> ('a \<Rightarrow> 'k \<Rightarrow> int) \<Rightarrow> 'k \<Rightarrow> 'a option option" where
  "list_find_first_locked l f key = find_loop l f key (xl_head l)"

text \<open>The loops that remove nodes walk along the addresses of links.\<close>

partial_function (option) remove_first_loop :: "'a xlist \<Rightarrow> ('a \<Rightarrow> 'k \<Rightarrow> int) \<Rightarrow> 'k \<Rightarrow> link \<Rightarrow> ('a xlist \<times> 'a option) option" where
  [code]: "remove_first_loop l f key pp = do {
     p \<leftarrow> load_link l pp;
     case p of
       None \<Rightarrow> Some (l, None)
     | Some p \<Rightarrow> do {
         nd \<leftarrow> xl_nodes l p;
         if f (node_data nd) key \<noteq> 0 then list_node_destroy l pp else remove_first_loop l f key (Next_of p)
       }
   }"

definition list_remove_first :: "'a xlist \<Rightarrow> ('a \<Rightarrow> 'k \<Rightarrow> int) \<Rightarrow> 'k \<Rightarrow> ('a xlist \<times> 'a option) option" where
  "list_remove_first l f key = remove_first_loop l f key Head"

text \<open>What the loops do with a node that they remove; the count says whether there was one.\<close>

definition destroy_and_del :: "'a xlist \<Rightarrow> link \<Rightarrow> ('a xlist \<times> int) option" where
  "destroy_and_del l pp = map_option (\<lambda>(l, v). case v of None \<Rightarrow> (l, 0) | Some v \<Rightarrow> (call_del l v, 1)) (list_node_destroy l pp)"

partial_function (option) delete_all_loop :: "'a xlist \<Rightarrow> ('a \<Rightarrow> 'k \<Rightarrow> int) \<Rightarrow> 'k \<Rightarrow> link \<Rightarrow> int \<Rightarrow> ('a xlist \<times> int) option" where
  [code]: "delete_all_loop l f key pp n = do {
     p \<leftarrow> load_link l pp;
     case p of
       None \<Rightarrow> Some (l, n)
     | Some p \<Rightarrow> do {
         nd \<leftarrow> xl_nodes l p;
         if f (node_data nd) key \<noteq> 0
         then do { (l, k) \<leftarrow> destroy_and_del l pp; delete_all_loop l f key pp (n + k) }
         else delete_all_loop l f key (Next_of p) n
       }
   }"

definition list_delete_all :: "'a xlist \<Rightarrow> ('a \<Rightarrow> 'k \<Rightarrow> int) \<Rightarrow> 'k \<Rightarrow> ('a xlist \<times> int) option" where
  "list_delete_all l f key = delete_all_loop l f key Head 0"

partial_function (option) delete_first_loop :: "'a xlist \<Rightarrow> ('a \<Rightarrow> 'k \<Rightarrow> int) \<Rightarrow> 'k \<Rightarrow> link \<Rightarrow> ('a xlist \<times> int) option" where
  [code]: "delete_first_loop l f key pp = do {
     p \<leftarrow> load_link l pp;
     case p of
       None \<Rightarrow> Some (l, 0)
     | Some p \<Rightarrow> do {
         nd \<leftarrow> xl_nodes l p;
         let rc = f (node_data nd) key;
         if rc > 0 then map_option (\<lambda>(l, _). (l, 1)) (destroy_and_del l pp)
         else if rc < 0 then Some (l, - 1)
         else delete_first_loop l f key (Next_of p)
       }
   }"

definition list_delete_first :: "'a xlist \<Rightarrow> ('a \<Rightarrow> 'k \<Rightarrow> int) \<Rightarrow> 'k \<Rightarrow> ('a xlist \<times> int) option" where
  "list_delete_first l f key = delete_first_loop l f key Head"

partial_function (option) delete_ptr_loop :: "'a xlist \<Rightarrow> 'a \<Rightarrow> link \<Rightarrow> ('a xlist \<times> int) option" where
  [code]: "delete_ptr_loop l key pp = do {
     p \<leftarrow> load_link l pp;
     case p of
       None \<Rightarrow> Some (l, 0)
     | Some p \<Rightarrow> do {
         nd \<leftarrow> xl_nodes l p;
         if node_data nd = key
         then do { (l, k) \<leftarrow> destroy_and_del l pp; if k = 1 then Some (l, 1) else delete_ptr_loop l key pp }
         else delete_ptr_loop l key (Next_of p)
       }
   }"

definition list_delete_ptr :: "'a xlist \<Rightarrow> 'a \<Rightarrow> ('a xlist \<times> int) option" where
  "list_delete_ptr l key = delete_ptr_loop l key Head"

partial_function (option) flush_loop :: "'a xlist \<Rightarrow> int \<Rightarrow> int \<Rightarrow> int \<Rightarrow> ('a xlist \<times> int) option" where
  [code]: "flush_loop l limit i n = do {
     p \<leftarrow> load_link l Head;
     if (limit < 0 \<or> i < limit) \<and> p \<noteq> None
     then do { (l, k) \<leftarrow> destroy_and_del l Head; flush_loop l limit (i + 1) (n + k) }
     else Some (l, n)
   }"

definition list_flush_max :: "'a xlist \<Rightarrow> int \<Rightarrow> ('a xlist \<times> int) option" where
  "list_flush_max l limit = flush_loop l limit 0 0"

definition list_flush :: "'a xlist \<Rightarrow> ('a xlist \<times> int) option" where
  "list_flush l = list_flush_max l (- 1)"

text \<open>The function that is called for each item works on a state of its own.\<close>

partial_function (option) for_each_loop :: "'a xlist \<Rightarrow> ('a \<Rightarrow> 's \<Rightarrow> 's \<times> int) \<Rightarrow> bool \<Rightarrow> int \<Rightarrow> nat option \<Rightarrow> 's \<Rightarrow> int \<Rightarrow> bool \<Rightarrow> ('s \<times> int \<times> bool) option" where
  [code]: "for_each_loop l f break_on_fail limit p arg n failed =
     (case p of
        None \<Rightarrow> Some (arg, n, failed)
      | Some p \<Rightarrow>
          if limit = - 1 \<or> n < limit
          then do {
            nd \<leftarrow> xl_nodes l p;
            let (arg, rc) = f (node_data nd) arg;
            if rc < 0 \<and> break_on_fail then Some (arg, n + 1, True)
            else for_each_loop l f break_on_fail limit (node_next nd) arg (n + 1) (failed \<or> rc < 0)
          }
          else Some (arg, n, failed))"

text \<open>The result is the state, the items that are left, and the count.\<close>

definition list_for_each_max :: "'a xlist \<Rightarrow> int \<Rightarrow> ('a \<Rightarrow> 's \<Rightarrow> 's \<times> int) \<Rightarrow> 's \<Rightarrow> bool \<Rightarrow> ('s \<times> int \<times> int) option" where
  "list_for_each_max l limit f arg break_on_fail =
     map_option (\<lambda>(arg, n, failed). (arg, xl_count l - n, if failed then - n else n))
       (for_each_loop l f break_on_fail limit (xl_head l) arg 0 False)"

definition list_for_each :: "'a xlist \<Rightarrow> ('a \<Rightarrow> 's \<Rightarrow> 's \<times> int) \<Rightarrow> 's \<Rightarrow> ('s \<times> int) option" where
  "list_for_each l f arg = map_option (\<lambda>(arg, _, n). (arg, n)) (list_for_each_max l (- 1) f arg True)"

definition list_for_each_nobreak :: "'a xlist \<Rightarrow> ('a \<Rightarrow> 's \<Rightarrow> 's \<times> int) \<Rightarrow> 's \<Rightarrow> ('s \<times> int) option" where
  "list_for_each_nobreak l f arg = map_option (\<lambda>(arg, _, n). (arg, n)) (list_for_each_max l (- 1) f arg False)"

subsection \<open>Two lists\<close>

text \<open>The two lists of these operations are different ones.\<close>

partial_function (option) append_list_loop :: "'a xlist \<Rightarrow> 'a xlist \<Rightarrow> nat option \<Rightarrow> int \<Rightarrow> ('a xlist \<times> int) option" where
  [code]: "append_list_loop l sub p n =
     (case p of
        None \<Rightarrow> Some (l, n)
      | Some p \<Rightarrow> do {
          nd \<leftarrow> xl_nodes sub p;
          l \<leftarrow> list_node_create l (xl_tail l) (node_data nd);
          append_list_loop l sub (node_next nd) (n + 1)
        })"

definition list_append_list :: "'a xlist \<Rightarrow> 'a xlist \<Rightarrow> ('a xlist \<times> int) option" where
  "list_append_list l sub = append_list_loop l sub (xl_head sub) 0"

definition list_shallow_copy :: "'a xlist \<Rightarrow> 'a xlist option" where
  "list_shallow_copy l = map_option fst (list_append_list (list_create False) l)"

partial_function (option) transfer_max_loop :: "'a xlist \<Rightarrow> 'a xlist \<Rightarrow> int \<Rightarrow> int \<Rightarrow> ('a xlist \<times> 'a xlist \<times> int) option" where
  [code]: "transfer_max_loop l sub limit n =
     (if limit = 0 \<or> n \<le> limit
      then do {
        (sub, v) \<leftarrow> list_pop_locked sub;
        case v of
          None \<Rightarrow> Some (l, sub, n)
        | Some v \<Rightarrow> do { l \<leftarrow> list_node_create l (xl_tail l) v; transfer_max_loop l sub limit (n + 1) }
      }
      else Some (l, sub, n))"

definition list_transfer_max :: "'a xlist \<Rightarrow> 'a xlist \<Rightarrow> int \<Rightarrow> ('a xlist \<times> 'a xlist \<times> int) option" where
  "list_transfer_max l sub limit = transfer_max_loop l sub limit 0"

definition list_transfer :: "'a xlist \<Rightarrow> 'a xlist \<Rightarrow> ('a xlist \<times> 'a xlist \<times> int) option" where
  "list_transfer l sub = list_transfer_max l sub 0"

partial_function (option) transfer_match_loop :: "'a xlist \<Rightarrow> 'a xlist \<Rightarrow> ('a \<Rightarrow> 'k \<Rightarrow> int) \<Rightarrow> 'k \<Rightarrow> link \<Rightarrow> int \<Rightarrow> ('a xlist \<times> 'a xlist \<times> int) option" where
  [code]: "transfer_match_loop l sub f key pp n = do {
     p \<leftarrow> load_link l pp;
     case p of
       None \<Rightarrow> Some (l, sub, n)
     | Some p \<Rightarrow> do {
         nd \<leftarrow> xl_nodes l p;
         if f (node_data nd) key \<noteq> 0
         then do {
           (l, v) \<leftarrow> list_node_destroy l pp;
           v \<leftarrow> v;
           sub \<leftarrow> list_node_create sub (xl_tail sub) v;
           transfer_match_loop l sub f key pp (n + 1)
         }
         else transfer_match_loop l sub f key (Next_of p) n
       }
   }"

definition list_transfer_match :: "'a xlist \<Rightarrow> 'a xlist \<Rightarrow> ('a \<Rightarrow> 'k \<Rightarrow> int) \<Rightarrow> 'k \<Rightarrow> ('a xlist \<times> 'a xlist \<times> int) option" where
  "list_transfer_match l sub f key = transfer_match_loop l sub f key Head 0"

partial_function (option) transfer_unique_loop :: "'a xlist \<Rightarrow> ('a \<Rightarrow> 'a \<Rightarrow> int) \<Rightarrow> 'a xlist \<Rightarrow> link \<Rightarrow> int \<Rightarrow> ('a xlist \<times> 'a xlist \<times> int) option" where
  [code]: "transfer_unique_loop l f sub pp n = do {
     p \<leftarrow> load_link sub pp;
     case p of
       None \<Rightarrow> Some (l, sub, n)
     | Some p \<Rightarrow> do {
         nd \<leftarrow> xl_nodes sub p;
         found \<leftarrow> list_find_first_locked l f (node_data nd);
         if found = None
         then do {
           l \<leftarrow> list_node_create l (xl_tail l) (node_data nd);
           (sub, _) \<leftarrow> list_node_destroy sub pp;
           transfer_unique_loop l f sub pp (n + 1)
         }
         else transfer_unique_loop l f sub (Next_of p) n
       }
   }"

definition list_transfer_unique :: "'a xlist \<Rightarrow> ('a \<Rightarrow> 'a \<Rightarrow> int) \<Rightarrow> 'a xlist \<Rightarrow> ('a xlist \<times> 'a xlist \<times> int) option" where
  "list_transfer_unique l f sub = transfer_unique_loop l f sub Head 0"

subsection \<open>Order\<close>

text \<open>
  The sorting function of the C library is the parameter \<open>qsort\<close>. An array of as many
  elements as the count of the list is filled with the data of all nodes.
\<close>

partial_function (option) pop_loop :: "'a xlist \<Rightarrow> 'a list \<Rightarrow> ('a xlist \<times> 'a list) option" where
  [code]: "pop_loop l v = do {
     (l, e) \<leftarrow> list_pop_locked l;
     case e of None \<Rightarrow> Some (l, v) | Some e \<Rightarrow> pop_loop l (v @ [e])
   }"

fun append_all :: "'a xlist \<Rightarrow> 'a list \<Rightarrow> 'a xlist option" where
  "append_all l [] = Some l"
| "append_all l (x # xs) = do { l \<leftarrow> list_node_create l (xl_tail l) x; append_all l xs }"

definition reset_itrs :: "'a xlist \<Rightarrow> 'a xlist" where
  "reset_itrs l = l\<lparr>xl_itrs := map (\<lambda>i. i\<lparr>itr_pos := xl_head l, itr_prev := Head\<rparr>) (xl_itrs l)\<rparr>"

definition list_sort :: "(('a \<Rightarrow> 'a \<Rightarrow> int) \<Rightarrow> 'a list \<Rightarrow> 'a list) \<Rightarrow> 'a xlist \<Rightarrow> ('a \<Rightarrow> 'a \<Rightarrow> int) \<Rightarrow> 'a xlist option" where
  "list_sort qsort l f =
     (if xl_count l \<le> 1 then Some l
      else do {
        let lsize = xl_count l;
        (l, v) \<leftarrow> pop_loop l [];
        if int (length v) \<noteq> lsize then None
        else do { l \<leftarrow> append_all l (qsort f v); Some (reset_itrs l) }
      })"

partial_function (option) flip_loop :: "'a xlist \<Rightarrow> nat option \<Rightarrow> nat option \<Rightarrow> ('a xlist \<times> nat option) option" where
  [code]: "flip_loop l prev cur =
     (case cur of
        None \<Rightarrow> Some (l, prev)
      | Some c \<Rightarrow> do {
          nd \<leftarrow> xl_nodes l c;
          flip_loop (l\<lparr>xl_nodes := (xl_nodes l)(c \<mapsto> nd\<lparr>node_next := prev\<rparr>)\<rparr>) (Some c) (node_next nd)
        })"

definition list_flip :: "'a xlist \<Rightarrow> 'a xlist option" where
  "list_flip l =
     (if xl_count l \<le> 1 then Some l
      else do {
        old_head \<leftarrow> xl_head l;
        (l, prev) \<leftarrow> flip_loop l None (Some old_head);
        Some (reset_itrs (l\<lparr>xl_head := prev, xl_tail := Next_of old_head\<rparr>))
      })"

subsection \<open>Iterators\<close>

definition find_itr :: "'a xlist \<Rightarrow> nat \<Rightarrow> list_itr option" where
  "find_itr l i = find (\<lambda>it. itr_id it = i) (xl_itrs l)"

definition set_itr :: "'a xlist \<Rightarrow> nat \<Rightarrow> nat option \<Rightarrow> link \<Rightarrow> 'a xlist" where
  "set_itr l i pos prev = l\<lparr>xl_itrs := map (\<lambda>it. if itr_id it = i then it\<lparr>itr_pos := pos, itr_prev := prev\<rparr> else it) (xl_itrs l)\<rparr>"

definition list_iterator_create :: "'a xlist \<Rightarrow> 'a xlist \<times> nat" where
  "list_iterator_create l =
     (l\<lparr>xl_fresh_itr := xl_fresh_itr l + 1,
        xl_itrs := \<lparr>itr_id = xl_fresh_itr l, itr_pos = xl_head l, itr_prev = Head\<rparr> # xl_itrs l\<rparr>, xl_fresh_itr l)"

definition list_iterator_reset :: "'a xlist \<Rightarrow> nat \<Rightarrow> 'a xlist option" where
  "list_iterator_reset l i = map_option (\<lambda>_. set_itr l i (xl_head l) Head) (find_itr l i)"

fun unlink_itr :: "nat \<Rightarrow> list_itr list \<Rightarrow> list_itr list" where
  "unlink_itr i [] = []"
| "unlink_itr i (it # its) = (if itr_id it = i then its else it # unlink_itr i its)"

definition list_iterator_destroy :: "'a xlist \<Rightarrow> nat \<Rightarrow> 'a xlist option" where
  "list_iterator_destroy l i = map_option (\<lambda>_. l\<lparr>xl_itrs := unlink_itr i (xl_itrs l)\<rparr>) (find_itr l i)"

definition list_next_locked :: "'a xlist \<Rightarrow> nat \<Rightarrow> ('a xlist \<times> 'a option) option" where
  "list_next_locked l i = do {
     it \<leftarrow> find_itr l i;
     let p = itr_pos it;
     (pos, v) \<leftarrow> (case p of
                  None \<Rightarrow> Some (None, None)
                | Some p \<Rightarrow> map_option (\<lambda>nd. (node_next nd, Some (node_data nd))) (xl_nodes l p));
     cur \<leftarrow> load_link l (itr_prev it);
     prev \<leftarrow> (if cur \<noteq> p then map_option Next_of cur else Some (itr_prev it));
     Some (set_itr l i pos prev, v)
   }"

definition list_next :: "'a xlist \<Rightarrow> nat \<Rightarrow> ('a xlist \<times> 'a option) option" where
  "list_next l i = list_next_locked l i"

definition list_peek_next :: "'a xlist \<Rightarrow> nat \<Rightarrow> 'a option option" where
  "list_peek_next l i = do {
     it \<leftarrow> find_itr l i;
     case itr_pos it of None \<Rightarrow> Some None | Some p \<Rightarrow> map_option (Some \<circ> node_data) (xl_nodes l p)
   }"

definition list_insert :: "'a xlist \<Rightarrow> nat \<Rightarrow> 'a \<Rightarrow> 'a xlist option" where
  "list_insert l i x = do { it \<leftarrow> find_itr l i; list_node_create l (itr_prev it) x }"

partial_function (option) list_find :: "'a xlist \<Rightarrow> nat \<Rightarrow> ('a \<Rightarrow> 'k \<Rightarrow> int) \<Rightarrow> 'k \<Rightarrow> ('a xlist \<times> 'a option) option" where
  [code]: "list_find l i f key = do {
     (l, v) \<leftarrow> list_next_locked l i;
     case v of None \<Rightarrow> Some (l, None) | Some x \<Rightarrow> if f x key = 0 then list_find l i f key else Some (l, v)
   }"

definition list_remove :: "'a xlist \<Rightarrow> nat \<Rightarrow> ('a xlist \<times> 'a option) option" where
  "list_remove l i = do {
     it \<leftarrow> find_itr l i;
     cur \<leftarrow> load_link l (itr_prev it);
     if cur \<noteq> itr_pos it then list_node_destroy l (itr_prev it) else Some (l, None)
   }"

definition list_delete_item :: "'a xlist \<Rightarrow> nat \<Rightarrow> ('a xlist \<times> int) option" where
  "list_delete_item l i =
     map_option (\<lambda>(l, v). case v of None \<Rightarrow> (l, 0) | Some v \<Rightarrow> (call_del l v, 1)) (list_remove l i)"

end
