(* ===== verification/Xlist_Props.thy ===== *)
theory Xlist_Props
  imports Xlist
begin

text \<open>
  What the lists promise. A list stands for the sequence of its data and a cursor for
  each of its iterators: the number of items before it and whether the item behind it
  was returned by it last. Two lemmas, on the creation and on the removal of a node,
  carry all operations.
\<close>

subsection \<open>Chains of nodes\<close>

fun seg :: "(nat \<rightharpoonup> 'a list_node) \<Rightarrow> nat option \<Rightarrow> nat list \<Rightarrow> nat option \<Rightarrow> bool" where
  "seg h p [] q \<longleftrightarrow> p = q"
| "seg h p (x # xs) q \<longleftrightarrow> p = Some x \<and> (case h x of None \<Rightarrow> False | Some n \<Rightarrow> seg h (node_next n) xs q)"

definition hd_opt :: "nat list \<Rightarrow> nat option" where
  "hd_opt xs = (case xs of [] \<Rightarrow> None | x # _ \<Rightarrow> Some x)"

definition end_link :: "nat list \<Rightarrow> link" where
  "end_link xs = (if xs = [] then Head else Next_of (last xs))"

lemma hd_opt_simps [simp]: "hd_opt [] = None" "hd_opt (x # xs) = Some x"
  by (simp_all add: hd_opt_def)

lemma end_link_simps [simp]: "end_link [] = Head" "end_link (xs @ [x]) = Next_of x"
  by (simp_all add: end_link_def)

lemma seg_append: "seg h p (as @ bs) q \<longleftrightarrow> (\<exists>m. seg h p as m \<and> seg h m bs q)"
  by (induction as arbitrary: p) (auto split: option.split)

lemma seg_frame: "(\<And>x. x \<in> set xs \<Longrightarrow> h' x = h x) \<Longrightarrow> seg h' p xs q = seg h p xs q"
  by (induction xs arbitrary: p) (auto split: option.split)

lemma seg_upd [simp]: "x \<notin> set xs \<Longrightarrow> seg (h(x := v)) p xs q = seg h p xs q"
  by (rule seg_frame) auto

lemma seg_head: "seg h p xs None \<Longrightarrow> p = hd_opt xs"
  by (cases xs) auto

lemma seg_mem: "seg h p xs q \<Longrightarrow> x \<in> set xs \<Longrightarrow> \<exists>n. h x = Some n"
  by (induction xs arbitrary: p) (auto split: option.splits)

lemma seg_snoc: "seg h p (xs @ [x]) q \<longleftrightarrow> seg h p xs (Some x) \<and> (\<exists>n. h x = Some n \<and> node_next n = q)"
  by (auto simp: seg_append split: option.splits)

text \<open>Loading and storing through the link at the end of a part of the list.\<close>

lemma load_end:
  assumes "seg (xl_nodes l) (xl_head l) (as @ bs) None"
  shows "load_link l (end_link as) = Some (hd_opt bs)"
proof (cases as rule: rev_cases)
  case Nil
  then show ?thesis using seg_head assms by (auto simp: load_link_def)
next
  case (snoc cs x)
  then show ?thesis using assms seg_head by (auto simp: load_link_def seg_append split: option.splits)
qed

lemma store_end:
  assumes "seg (xl_nodes l) (xl_head l) (as @ bs) None" "distinct as" "set as \<inter> set bs = {}"
  obtains l' where "store_link l (end_link as) q = Some l'" "seg (xl_nodes l') (xl_head l') as q"
    "\<And>x. x \<notin> set as \<Longrightarrow> xl_nodes l' x = xl_nodes l x" "dom (xl_nodes l') = dom (xl_nodes l)"
    "\<And>x. map_option node_data (xl_nodes l' x) = map_option node_data (xl_nodes l x)"
    "xl_fresh l' = xl_fresh l" "xl_fresh_itr l' = xl_fresh_itr l" "xl_tail l' = xl_tail l" "xl_itrs l' = xl_itrs l"
    "xl_has_del l' = xl_has_del l" "xl_deleted l' = xl_deleted l" "xl_count l' = xl_count l"
proof (cases as rule: rev_cases)
  case Nil
  show ?thesis by (rule that [of "l\<lparr>xl_head := q\<rparr>"]) (auto simp: Nil store_link_def)
next
  case (snoc cs x)
  then obtain n where n: "xl_nodes l x = Some n" "seg (xl_nodes l) (xl_head l) cs (Some x)" "x \<notin> set cs"
    using assms(1,2) by (auto simp: seg_append split: option.splits)
  show ?thesis
    by (rule that [of "l\<lparr>xl_nodes := (xl_nodes l)(x \<mapsto> n\<lparr>node_next := q\<rparr>)\<rparr>"])
      (use n in \<open>auto simp: snoc store_link_def seg_snoc\<close>)
qed

subsection \<open>Cursors\<close>

definition cursor :: "nat list \<Rightarrow> nat \<times> nat \<times> bool \<Rightarrow> list_itr" where
  "cursor ids = (\<lambda>(i, k, b). \<lparr>itr_id = i, itr_pos = hd_opt (drop (if b then k + 1 else k) ids), itr_prev = end_link (take k ids)\<rparr>)"

definition cursor_ok :: "nat \<Rightarrow> nat \<times> nat \<times> bool \<Rightarrow> bool" where
  "cursor_ok n = (\<lambda>(i, k, b). if b then k < n else k \<le> n)"

definition ins_cur :: "nat \<Rightarrow> nat \<times> nat \<times> bool \<Rightarrow> nat \<times> nat \<times> bool" where
  "ins_cur p = (\<lambda>(i, k, b). if p \<le> k then (i, k + 1, b) else (i, k, b))"

definition del_cur :: "nat \<Rightarrow> nat \<times> nat \<times> bool \<Rightarrow> nat \<times> nat \<times> bool" where
  "del_cur p = (\<lambda>(i, k, b). if p < k then (i, k - 1, b) else if k = p \<or> (b \<and> k + 1 = p) then (i, p, False) else (i, k, b))"

text \<open>The list stands for the nodes \<open>ids\<close> with the data \<open>xs\<close> and the cursors \<open>cs\<close>.\<close>

definition rep :: "'a xlist \<Rightarrow> nat list \<Rightarrow> 'a list \<Rightarrow> (nat \<times> nat \<times> bool) list \<Rightarrow> bool" where
  "rep l ids xs cs \<longleftrightarrow>
     seg (xl_nodes l) (xl_head l) ids None \<and> distinct ids \<and> dom (xl_nodes l) = set ids
     \<and> map (\<lambda>x. map_option node_data (xl_nodes l x)) ids = map Some xs
     \<and> xl_tail l = end_link ids \<and> xl_count l = int (length xs) \<and> (\<forall>x \<in> set ids. x < xl_fresh l)
     \<and> xl_itrs l = map (cursor ids) cs \<and> (\<forall>c \<in> set cs. cursor_ok (length xs) c \<and> fst c < xl_fresh_itr l) \<and> distinct (map fst cs)"

lemma rep_length: "rep l ids xs cs \<Longrightarrow> length ids = length xs"
  by (auto simp: rep_def dest: map_eq_imp_length_eq)

definition node_at :: "nat list \<Rightarrow> nat \<Rightarrow> nat option" where
  "node_at ids k = (if k < length ids then Some (ids ! k) else None)"

definition link_at :: "nat list \<Rightarrow> nat \<Rightarrow> link" where
  "link_at ids k = (if k = 0 then Head else Next_of (ids ! (k - 1)))"

lemma hd_opt_drop: "hd_opt (drop k ids) = node_at ids k"
  by (simp add: hd_opt_def node_at_def drop_eq_Nil split: list.split) (metis hd_drop_conv_nth linorder_not_le list.sel(1))

lemma end_link_take: "k \<le> length ids \<Longrightarrow> end_link (take k ids) = link_at ids k"
  by (cases k) (auto simp: end_link_def link_at_def take_Suc_conv_app_nth)

lemma link_at_eq: "distinct ids \<Longrightarrow> j \<le> length ids \<Longrightarrow> k \<le> length ids \<Longrightarrow> link_at ids j = link_at ids k \<longleftrightarrow> j = k"
  by (auto simp: link_at_def nth_eq_iff_index_eq)

lemma node_at_eq: "distinct ids \<Longrightarrow> j < length ids \<Longrightarrow> node_at ids j = node_at ids k \<longleftrightarrow> j = k"
  by (auto simp: node_at_def nth_eq_iff_index_eq)

lemma cursor_at: "k \<le> length ids \<Longrightarrow>
    cursor ids (i, k, b) = \<lparr>itr_id = i, itr_pos = node_at ids (if b then k + 1 else k), itr_prev = link_at ids k\<rparr>"
  by (simp add: cursor_def hd_opt_drop end_link_take)

lemma insert_at:
  assumes "p \<le> length ids"
  shows "node_at (take p ids @ f # drop p ids) k = (if k < p then node_at ids k else if k = p then Some f else node_at ids (k - 1))"
    "k \<le> length ids + 1 \<Longrightarrow> link_at (take p ids @ f # drop p ids) k = (if k \<le> p then link_at ids k else if k = p + 1 then Next_of f else link_at ids (k - 1))"
  using assms by (auto simp: node_at_def link_at_def nth_append nth_Cons' min_def Suc_diff_Suc numeral_2_eq_2)

lemma cursor_insert:
  assumes "distinct ids" "p \<le> length ids" "cursor_ok (length ids) c"
  shows "(let i = cursor ids c in if itr_prev i = link_at ids p then i\<lparr>itr_prev := Next_of f\<rparr>
      else if itr_pos i = node_at ids p then i\<lparr>itr_pos := Some f\<rparr> else i) = cursor (take p ids @ f # drop p ids) (ins_cur p c)"
proof -
  obtain i k b where c: "c = (i, k, b)" by (cases c)
  have k: "k \<le> length ids" "b \<Longrightarrow> k < length ids" using assms(3) by (auto simp: c cursor_ok_def split: if_splits)
  have pk: "link_at ids k = link_at ids p \<longleftrightarrow> k = p" using link_at_eq assms(1,2) k(1) by blast
  have k': "k < p \<Longrightarrow> k \<le> length (take p ids @ f # drop p ids)" "k + 1 \<le> length (take p ids @ f # drop p ids)" using k assms(2) by auto
  consider "k < p" | "k = p" | "p < k" by arith
  then show ?thesis
  proof cases
    case 1
    have "node_at ids (if b then k + 1 else k) = node_at ids p \<longleftrightarrow> b \<and> k + 1 = p"
    proof (cases "b \<and> k + 1 = length ids")
      case True
      then have "p = k + 1" using 1 assms(2) by simp
      then show ?thesis using True by simp
    next
      case False
      then have "(if b then k + 1 else k) < length ids" using k 1 assms(2) by auto
      from node_at_eq [OF assms(1) this, of p] show ?thesis using 1 by auto
    qed
    then show ?thesis using 1 pk k(1) k'(1) by (simp add: c ins_cur_def cursor_at insert_at [OF assms(2)])
  next
    case 2
    then show ?thesis using k k'(2) by (simp add: c ins_cur_def cursor_at insert_at [OF assms(2)])
  next
    case 3
    then have "node_at ids (if b then k + 1 else k) \<noteq> node_at ids p"
      using node_at_eq [OF assms(1), of p "if b then k + 1 else k"] k(1) by auto
    then show ?thesis using 3 pk k k'(2) by (auto simp: c ins_cur_def cursor_at insert_at [OF assms(2)])
  qed
qed

lemma cursor_ok_insert: "cursor_ok n c \<Longrightarrow> cursor_ok (Suc n) (ins_cur p c)" "fst (ins_cur p c) = fst c"
  by (cases c; auto simp: cursor_ok_def ins_cur_def split: if_splits)+

lemma remove_at:
  assumes "p < length ids"
  shows "node_at (take p ids @ drop (Suc p) ids) k = (if k < p then node_at ids k else node_at ids (k + 1))"
    "k < length ids \<Longrightarrow> link_at (take p ids @ drop (Suc p) ids) k = (if k \<le> p then link_at ids k else link_at ids (k + 1))"
  using assms by (auto simp: node_at_def link_at_def nth_append min_def)

lemma cursor_remove:
  assumes "distinct ids" "p < length ids" "cursor_ok (length ids) c"
  shows "(let i = cursor ids c in if itr_pos i = Some (ids ! p) then i\<lparr>itr_pos := node_at ids (p + 1), itr_prev := link_at ids p\<rparr>
      else if itr_prev i = Next_of (ids ! p) then i\<lparr>itr_prev := link_at ids p\<rparr> else i) = cursor (take p ids @ drop (Suc p) ids) (del_cur p c)"
proof -
  obtain i k b where c: "c = (i, k, b)" by (cases c)
  have k: "k \<le> length ids" "b \<Longrightarrow> k < length ids" using assms(3) by (auto simp: c cursor_ok_def split: if_splits)
  have pos: "node_at ids j = Some (ids ! p) \<longleftrightarrow> j = p" for j
    using node_at_eq [OF assms(1,2), of j] assms(2) by (auto simp: node_at_def)
  have prev: "link_at ids k = Next_of (ids ! p) \<longleftrightarrow> k = p + 1"
    using link_at_eq [OF assms(1) k(1), of "p + 1"] assms(2) by (simp add: link_at_def)
  have len: "length (take p ids @ drop (Suc p) ids) = length ids - 1" using assms(2) by simp
  have small: "j < length ids \<Longrightarrow> j \<le> length (take p ids @ drop (Suc p) ids)" for j using len by linarith
  consider "k < p" | "k = p" | "p < k" by arith
  then show ?thesis
  proof cases
    case 1
    then show ?thesis using assms(2) prev
      by (auto simp: c del_cur_def cursor_at [OF k(1)] cursor_at [OF small] pos remove_at [OF assms(2)])
  next
    case 2
    then show ?thesis using assms(2) prev
      by (auto simp: c del_cur_def Let_def cursor_at [OF less_imp_le [OF assms(2)]] cursor_at [OF small [OF assms(2)]] pos remove_at [OF assms(2)])
  next
    case 3
    then have "k - 1 < length ids" "k - 1 + 1 = k" using k(1) by auto
    then show ?thesis using 3 prev
      by (auto simp: c del_cur_def cursor_at [OF k(1)] cursor_at [OF small] pos remove_at [OF assms(2)])
  qed
qed

lemma cursor_ok_remove: "p < n \<Longrightarrow> cursor_ok n c \<Longrightarrow> cursor_ok (n - 1) (del_cur p c)" "fst (del_cur p c) = fst c"
  by (cases c; auto simp: cursor_ok_def del_cur_def split: if_splits)+

lemma create_spec:
  assumes "rep l ids xs cs" "p \<le> length xs" "pp = link_at ids p"
  obtains l' where "list_node_create l pp x = Some l'"
    "rep l' (take p ids @ xl_fresh l # drop p ids) (take p xs @ x # drop p xs) (map (ins_cur p) cs)"
    "xl_has_del l' = xl_has_del l" "xl_deleted l' = xl_deleted l" "xl_fresh_itr l' = xl_fresh_itr l"
proof -
  let ?f = "xl_fresh l" and ?as = "take p ids" and ?bs = "drop p ids"
  let ?ids = "?as @ ?f # ?bs"
  note len = rep_length [OF assms(1)]
  have r: "seg (xl_nodes l) (xl_head l) ids None" "distinct ids" "dom (xl_nodes l) = set ids"
    "map (\<lambda>x. map_option node_data (xl_nodes l x)) ids = map Some xs" "xl_tail l = end_link ids" "xl_count l = int (length xs)"
    "\<forall>x \<in> set ids. x < xl_fresh l" "xl_itrs l = map (cursor ids) cs" "\<forall>c \<in> set cs. cursor_ok (length xs) c \<and> fst c < xl_fresh_itr l"
    "distinct (map fst cs)"
    using assms(1) by (auto simp: rep_def)
  have ab: "?as @ ?bs = ids" "p \<le> length ids" using assms(2) len by simp_all
  have pp: "end_link ?as = pp" using end_link_take [OF ab(2)] assms(3) by simp
  have sg: "seg (xl_nodes l) (xl_head l) (?as @ ?bs) None" using r(1) by simp
  have fr: "?f \<notin> set ids" using r(7) by blast
  then have fa: "?f \<notin> set ?as" "?f \<notin> set ?bs" using set_take_subset set_drop_subset by fastforce+
  have ds: "distinct ?as" "set ?as \<inter> set ?bs = {}" using r(2) by (auto simp: set_take_disj_set_drop_if_distinct)
  have nx: "load_link l pp = Some (node_at ids p)" using load_end [OF sg] pp by (simp add: hd_opt_drop)
  define l1 where "l1 = l\<lparr>xl_nodes := (xl_nodes l)(?f \<mapsto> \<lparr>node_data = x, node_next = node_at ids p\<rparr>), xl_fresh := ?f + 1,
      xl_tail := (if node_at ids p = None then Next_of ?f else xl_tail l)\<rparr>"
  have s1: "seg (xl_nodes l1) (xl_head l1) (?as @ ?bs) None" using sg fr ab(1) by (simp add: l1_def)
  obtain l2 where l2: "store_link l1 pp (Some ?f) = Some l2" "seg (xl_nodes l2) (xl_head l2) ?as (Some ?f)"
    "\<And>x. x \<notin> set ?as \<Longrightarrow> xl_nodes l2 x = xl_nodes l1 x" "dom (xl_nodes l2) = dom (xl_nodes l1)"
    "\<And>x. map_option node_data (xl_nodes l2 x) = map_option node_data (xl_nodes l1 x)"
    "xl_fresh l2 = xl_fresh l1" "xl_fresh_itr l2 = xl_fresh_itr l1" "xl_tail l2 = xl_tail l1" "xl_itrs l2 = xl_itrs l1"
    "xl_has_del l2 = xl_has_del l1" "xl_deleted l2 = xl_deleted l1" "xl_count l2 = xl_count l1"
    using store_end [OF s1 ds, of "Some ?f"] unfolding pp by metis
  define l3 where "l3 = l2\<lparr>xl_count := xl_count l2 + 1,
      xl_itrs := map (\<lambda>i. if itr_prev i = pp then i\<lparr>itr_prev := Next_of ?f\<rparr>
                          else if itr_pos i = node_at ids p then i\<lparr>itr_pos := Some ?f\<rparr> else i) (xl_itrs l2)\<rparr>"
  have e: "list_node_create l pp x = Some l3"
    using nx l2(1) by (simp add: list_node_create_def l1_def l3_def Let_def)
  have sb: "seg (xl_nodes l) (node_at ids p) ?bs None"
    using sg seg_head [of "xl_nodes l" _ ?bs] by (auto simp only: seg_append hd_opt_drop)
  have "seg (xl_nodes l3) (xl_head l3) ?ids None"
  proof -
    have "seg (xl_nodes l2) (node_at ids p) ?bs None = seg (xl_nodes l) (node_at ids p) ?bs None"
    proof (rule seg_frame)
      fix y assume y: "y \<in> set ?bs"
      then have "y \<notin> set ?as" "y \<noteq> ?f" using ds(2) fa(2) by blast+
      then show "xl_nodes l2 y = xl_nodes l y" using l2(3) by (simp add: l1_def)
    qed
    then show ?thesis using l2(2,3) fa(1) sb by (auto simp: l3_def seg_append l1_def)
  qed
  moreover have "distinct ?ids" using r(2) fa ds by simp
  moreover have "dom (xl_nodes l3) = set ?ids"
  proof -
    have "set ids = set ?as \<union> set ?bs" by (metis ab(1) set_append)
    then have "set ?ids = insert ?f (set ids)" by simp
    then show ?thesis using r(3) l2(4) by (simp add: l3_def l1_def)
  qed
  moreover have "map (\<lambda>x. map_option node_data (xl_nodes l3 x)) ?ids = map Some (take p xs @ x # drop p xs)"
  proof -
    have same: "map (\<lambda>x. map_option node_data (xl_nodes l3 x)) is = map (\<lambda>x. map_option node_data (xl_nodes l x)) is" if "?f \<notin> set is" for "is"
      using that l2(5) by (auto simp: l3_def l1_def)
    have d: "map (\<lambda>x. map_option node_data (xl_nodes l3 x)) ?as = map Some (take p xs)"
      "map (\<lambda>x. map_option node_data (xl_nodes l3 x)) ?bs = map Some (drop p xs)"
      using arg_cong [OF r(4), of "take p"] arg_cong [OF r(4), of "drop p"] unfolding same [OF fa(1)] same [OF fa(2)]
      by (simp_all add: take_map drop_map)
    have "map_option node_data (xl_nodes l3 ?f) = Some x" using l2(5) [of ?f] by (simp add: l3_def l1_def)
    then show ?thesis by (simp only: map_append list.map d)
  qed
  moreover have "xl_tail l3 = end_link ?ids"
    using l2(8) r(5) ab(2) by (auto simp: l3_def l1_def node_at_def end_link_def)
  moreover have "xl_itrs l3 = map (cursor ?ids) (map (ins_cur p) cs)"
    using cursor_insert [OF r(2) ab(2), of _ ?f] r(8,9) len l2(9) assms(3) by (simp add: l3_def l1_def Let_def)
  moreover have "xl_count l3 = int (length (take p xs @ x # drop p xs))" using l2(12) r(6) assms(2) by (simp add: l3_def l1_def)
  moreover have "\<forall>y \<in> set ?ids. y < xl_fresh l3"
    using r(7) l2(6) by (auto simp: l3_def l1_def dest!: in_set_takeD in_set_dropD)
  moreover have "\<forall>c \<in> set (map (ins_cur p) cs). cursor_ok (length (take p xs @ x # drop p xs)) c \<and> fst c < xl_fresh_itr l3"
    using cursor_ok_insert(1) [of "length xs"] r(9) l2(7) assms(2) by (auto simp: l3_def l1_def cursor_ok_insert(2))
  moreover have "distinct (map fst (map (ins_cur p) cs))" using r(10) by (simp add: cursor_ok_insert(2) comp_def)
  ultimately have "rep l3 ?ids (take p xs @ x # drop p xs) (map (ins_cur p) cs)" unfolding rep_def by blast
  then show ?thesis using that e l2(7,10,11) by (simp add: l3_def l1_def)
qed

lemma rep_load:
  assumes "rep l ids xs cs" "p \<le> length xs"
  shows "load_link l (link_at ids p) = Some (node_at ids p)"
proof -
  have le: "p \<le> length ids" using rep_length [OF assms(1)] assms(2) by simp
  have "seg (xl_nodes l) (xl_head l) (take p ids @ drop p ids) None" using assms(1) by (simp add: rep_def)
  from load_end [OF this] show ?thesis by (simp add: hd_opt_drop end_link_take [OF le])
qed

lemma rep_node:
  assumes "rep l ids xs cs" "p < length xs"
  obtains n where "xl_nodes l (ids ! p) = Some n" "node_data n = xs ! p" "node_next n = node_at ids (Suc p)"
    "node_at ids p = Some (ids ! p)" "link_at ids (Suc p) = Next_of (ids ! p)"
proof -
  have lt: "p < length ids" using rep_length [OF assms(1)] assms(2) by simp
  have l: "link_at ids (Suc p) = Next_of (ids ! p)" by (simp add: link_at_def)
  have "map (\<lambda>x. map_option node_data (xl_nodes l x)) ids ! p = map Some xs ! p" using assms(1) by (simp add: rep_def)
  then obtain n where n: "xl_nodes l (ids ! p) = Some n" "node_data n = xs ! p" using lt assms(2) by auto
  have "node_next n = node_at ids (Suc p)" using rep_load [OF assms(1), of "Suc p"] assms(2) n(1) by (simp add: l load_link_def)
  then show ?thesis using that n lt l by (simp add: node_at_def)
qed

lemma rep_end: "rep l ids xs cs \<Longrightarrow> node_at ids (length xs) = None"
  using rep_length by (force simp: node_at_def)

lemma destroy_none:
  assumes "rep l ids xs cs"
  shows "list_node_destroy l (link_at ids (length xs)) = Some (l, None)"
  using rep_load [OF assms, of "length xs"] rep_end [OF assms] by (simp add: list_node_destroy_def)

lemma destroy_spec:
  assumes "rep l ids xs cs" "p < length xs" "pp = link_at ids p"
  obtains l' where "list_node_destroy l pp = Some (l', Some (xs ! p))"
    "rep l' (take p ids @ drop (Suc p) ids) (take p xs @ drop (Suc p) xs) (map (del_cur p) cs)"
    "xl_has_del l' = xl_has_del l" "xl_deleted l' = xl_deleted l" "xl_fresh_itr l' = xl_fresh_itr l" "xl_fresh l' = xl_fresh l"
proof -
  let ?x = "ids ! p" and ?as = "take p ids" and ?bs = "drop (Suc p) ids"
  let ?ids = "?as @ ?bs"
  note len = rep_length [OF assms(1)]
  have r: "seg (xl_nodes l) (xl_head l) ids None" "distinct ids" "dom (xl_nodes l) = set ids"
    "map (\<lambda>x. map_option node_data (xl_nodes l x)) ids = map Some xs" "xl_tail l = end_link ids" "xl_count l = int (length xs)"
    "\<forall>x \<in> set ids. x < xl_fresh l" "xl_itrs l = map (cursor ids) cs" "\<forall>c \<in> set cs. cursor_ok (length xs) c \<and> fst c < xl_fresh_itr l"
    "distinct (map fst cs)"
    using assms(1) by (auto simp: rep_def)
  have lt: "p < length ids" using assms(2) len by simp
  have split: "?as @ ?x # ?bs = ids" using id_take_nth_drop [OF lt] by simp
  have sets: "?x \<notin> set ?as" "?x \<notin> set ?bs" "set ?as \<inter> set ?bs = {}" "distinct ?as" "distinct ?bs"
    using r(2) split by (metis distinct_append distinct.simps(2) disjoint_iff list.set_intros(1,2))+
  have pp: "end_link ?as = pp" using end_link_take [of p ids] lt assms(3) by simp
  obtain n where n: "xl_nodes l ?x = Some n" "node_data n = xs ! p" "node_next n = node_at ids (Suc p)" "node_at ids p = Some ?x"
    using rep_node [OF assms(1,2)] by metis
  have sg: "seg (xl_nodes l) (xl_head l) (?as @ ?x # ?bs) None" using r(1) split by simp
  have ds: "set ?as \<inter> set (?x # ?bs) = {}" using sets by auto
  obtain l2 where l2: "store_link l pp (node_next n) = Some l2" "seg (xl_nodes l2) (xl_head l2) ?as (node_next n)"
    "\<And>x. x \<notin> set ?as \<Longrightarrow> xl_nodes l2 x = xl_nodes l x" "dom (xl_nodes l2) = dom (xl_nodes l)"
    "\<And>x. map_option node_data (xl_nodes l2 x) = map_option node_data (xl_nodes l x)"
    "xl_fresh l2 = xl_fresh l" "xl_fresh_itr l2 = xl_fresh_itr l" "xl_tail l2 = xl_tail l" "xl_itrs l2 = xl_itrs l"
    "xl_has_del l2 = xl_has_del l" "xl_deleted l2 = xl_deleted l" "xl_count l2 = xl_count l"
    using store_end [OF sg sets(4) ds, of "node_next n"] unfolding pp by metis
  define l3 where "l3 = (if node_next n = None then l2\<lparr>xl_tail := pp\<rparr> else l2)"
  define l4 where "l4 = l3\<lparr>xl_count := xl_count l3 - 1,
      xl_itrs := map (\<lambda>i. if itr_pos i = Some ?x then i\<lparr>itr_pos := node_next n, itr_prev := pp\<rparr>
                          else if itr_prev i = Next_of ?x then i\<lparr>itr_prev := pp\<rparr> else i) (xl_itrs l3),
      xl_nodes := (xl_nodes l3)(?x := None)\<rparr>"
  have ld: "load_link l pp = Some (Some ?x)" using rep_load [OF assms(1), of p] assms(2,3) n(4) by simp
  have e: "list_node_destroy l pp = Some (l4, Some (xs ! p))"
    using ld n(1,2) l2(1) by (simp add: list_node_destroy_def l3_def l4_def Let_def)
  have l3s: "xl_nodes l3 = xl_nodes l2" "xl_head l3 = xl_head l2" "xl_itrs l3 = xl_itrs l" "xl_count l3 = xl_count l"
    "xl_fresh l3 = xl_fresh l" "xl_fresh_itr l3 = xl_fresh_itr l" "xl_has_del l3 = xl_has_del l" "xl_deleted l3 = xl_deleted l"
    using l2 by (simp_all add: l3_def)
  have nb: "node_next n = hd_opt ?bs" using n(3) by (simp add: hd_opt_drop)
  have "seg (xl_nodes l4) (xl_head l4) ?ids None"
  proof -
    have f: "seg (xl_nodes l4) q ?bs None = seg (xl_nodes l) q ?bs None" for q
    proof (rule seg_frame)
      fix y assume y: "y \<in> set ?bs"
      then have "y \<notin> set ?as" "y \<noteq> ?x" using sets by blast+
      then show "xl_nodes l4 y = xl_nodes l y" using l2(3) by (simp add: l4_def l3s)
    qed
    have "seg (xl_nodes l) (node_next n) ?bs None" using sg n(1) by (auto simp: seg_append)
    then show ?thesis using f l2(2) sets(1) by (auto simp: seg_append l4_def l3s)
  qed
  moreover have "distinct ?ids" using sets by simp
  moreover have "dom (xl_nodes l4) = set ?ids"
  proof -
    have "set ids = set ?as \<union> insert ?x (set ?bs)" using arg_cong [OF split, of set] by simp
    then show ?thesis using l2(4) r(3) sets by (auto simp: l4_def l3s)
  qed
  moreover have "map (\<lambda>x. map_option node_data (xl_nodes l4 x)) ?ids = map Some (take p xs @ drop (Suc p) xs)"
  proof -
    have same: "map (\<lambda>x. map_option node_data (xl_nodes l4 x)) is = map (\<lambda>x. map_option node_data (xl_nodes l x)) is" if "?x \<notin> set is" for "is"
      using that l2(5) by (auto simp: l4_def l3s)
    show ?thesis using arg_cong [OF r(4), of "take p"] arg_cong [OF r(4), of "drop (Suc p)"]
      unfolding map_append same [OF sets(1)] same [OF sets(2)] by (simp add: take_map drop_map)
  qed
  moreover have "xl_tail l4 = end_link ?ids"
  proof (cases "?bs = []")
    case True
    then show ?thesis using pp nb by (simp add: l4_def l3_def)
  next
    case False
    then have "end_link ?ids = end_link ids" "node_next n \<noteq> None"
      using nb arg_cong [OF split, of last] split by (auto simp: end_link_def hd_opt_def split: list.splits)
    then show ?thesis using r(5) l2(8) by (auto simp: l4_def l3_def)
  qed
  moreover have "xl_itrs l4 = map (cursor ?ids) (map (del_cur p) cs)"
  proof -
    have "(if itr_pos (cursor ids c) = Some ?x then (cursor ids c)\<lparr>itr_pos := node_next n, itr_prev := pp\<rparr>
        else if itr_prev (cursor ids c) = Next_of ?x then (cursor ids c)\<lparr>itr_prev := pp\<rparr> else cursor ids c) = cursor ?ids (del_cur p c)"
      if "c \<in> set cs" for c
      using cursor_remove [OF r(2) lt, of c] that r(9) unfolding n(3) assms(3) Let_def len Suc_eq_plus1 by blast
    then show ?thesis using r(8) by (simp add: l4_def l3s cong: map_cong)
  qed
  moreover have "xl_count l4 = int (length (take p xs @ drop (Suc p) xs))" using r(6) assms(2) by (simp add: l4_def l3s)
  moreover have "\<forall>y \<in> set ?ids. y < xl_fresh l4"
    using r(7) by (auto simp: l4_def l3s dest!: in_set_takeD in_set_dropD)
  moreover have "\<forall>c \<in> set (map (del_cur p) cs). cursor_ok (length (take p xs @ drop (Suc p) xs)) c \<and> fst c < xl_fresh_itr l4"
    using cursor_ok_remove(1) [OF assms(2)] r(9) assms(2) by (auto simp: l4_def l3s cursor_ok_remove(2) min_def)
  moreover have "distinct (map fst (map (del_cur p) cs))" using r(10) by (simp add: cursor_ok_remove(2) comp_def)
  ultimately have "rep l4 ?ids (take p xs @ drop (Suc p) xs) (map (del_cur p) cs)" unfolding rep_def by blast
  then show ?thesis using that e by (simp add: l4_def l3s)
qed

end
