(* ===== verification/Xlist_Machine.thy ===== *)
theory Xlist_Machine
  imports Xlist_Props
begin

text \<open>
  The specification of the lists: a machine on a sequence of items with cursors. The
  operations of \<^verbatim>\<open>src/common/list.c\<close> implement it.
\<close>

subsection \<open>The specification\<close>

record 'a seq =
  sq_items :: "'a list"
  sq_cursors :: "(nat \<times> nat \<times> bool) list"
  sq_itrs :: nat
  sq_has_del :: bool
  sq_deleted :: "'a list"

definition sq_empty :: "bool \<Rightarrow> 'a seq" where
  "sq_empty f = \<lparr>sq_items = [], sq_cursors = [], sq_itrs = 0, sq_has_del = f, sq_deleted = []\<rparr>"

definition sq_ins :: "nat \<Rightarrow> 'a \<Rightarrow> 'a seq \<Rightarrow> 'a seq" where
  "sq_ins p x s = s\<lparr>sq_items := take p (sq_items s) @ x # drop p (sq_items s), sq_cursors := map (ins_cur p) (sq_cursors s)\<rparr>"

definition sq_del :: "nat \<Rightarrow> 'a seq \<Rightarrow> 'a seq" where
  "sq_del p s = s\<lparr>sq_items := take p (sq_items s) @ drop (Suc p) (sq_items s), sq_cursors := map (del_cur p) (sq_cursors s)\<rparr>"

definition sq_drop :: "nat \<Rightarrow> 'a seq \<Rightarrow> 'a seq" where
  "sq_drop p s = (sq_del p s)\<lparr>sq_deleted := sq_deleted s @ (if sq_has_del s then [sq_items s ! p] else [])\<rparr>"

text \<open>The deletion of all items that match, of those from a position on.\<close>

fun sq_sweep :: "('a \<Rightarrow> bool) \<Rightarrow> 'a list \<Rightarrow> nat \<Rightarrow> 'a seq \<Rightarrow> 'a seq" where
  "sq_sweep P [] p s = s"
| "sq_sweep P (x # xs) p s = (if P x then sq_sweep P xs p (sq_drop p s) else sq_sweep P xs (Suc p) s)"

definition sq_reorder :: "'a list \<Rightarrow> 'a seq \<Rightarrow> 'a seq" where
  "sq_reorder xs s = (if length (sq_items s) \<le> 1 then s else s\<lparr>sq_items := xs, sq_cursors := map (\<lambda>(i, _). (i, 0, False)) (sq_cursors s)\<rparr>)"

definition sq_move :: "nat \<Rightarrow> nat \<times> bool \<Rightarrow> 'a seq \<Rightarrow> 'a seq" where
  "sq_move i c s = s\<lparr>sq_cursors := map (\<lambda>(j, c'). if j = i then (j, c) else (j, c')) (sq_cursors s)\<rparr>"

text \<open>The position of the first item that matches, or the length.\<close>

definition first_match :: "('a \<Rightarrow> bool) \<Rightarrow> 'a list \<Rightarrow> nat" where
  "first_match P xs = length (takeWhile (\<lambda>x. \<not> P x) xs)"

definition item_at :: "'a list \<Rightarrow> nat \<Rightarrow> 'a option" where
  "item_at xs p = (if p < length xs then Some (xs ! p) else None)"

subsection \<open>The simulation relation\<close>

definition models :: "'a xlist \<Rightarrow> nat list \<Rightarrow> 'a seq \<Rightarrow> bool" where
  "models l ids s \<longleftrightarrow> rep l ids (sq_items s) (sq_cursors s) \<and> xl_fresh_itr l = sq_itrs s
     \<and> xl_has_del l = sq_has_del s \<and> xl_deleted l = sq_deleted s"

lemma models_empty: "models (list_create f) [] (sq_empty f)"
  by (simp add: models_def rep_def list_create_def sq_empty_def)

lemma models_rep: "models l ids s \<Longrightarrow> rep l ids (sq_items s) (sq_cursors s)"
  by (simp add: models_def)

lemma models_length: "models l ids s \<Longrightarrow> length ids = length (sq_items s)"
  by (auto dest: models_rep rep_length)

lemma models_head: "models l ids s \<Longrightarrow> xl_head l = node_at ids 0" "models l ids s \<Longrightarrow> xl_tail l = link_at ids (length ids)"
  "models l ids s \<Longrightarrow> xl_count l = int (length (sq_items s))"
proof -
  assume m: "models l ids s"
  show "xl_head l = node_at ids 0" using rep_load [OF models_rep [OF m], of 0] by (simp add: load_link_def link_at_def)
  show "xl_tail l = link_at ids (length ids)" using m end_link_take [of "length ids" ids] by (simp add: models_def rep_def)
  show "xl_count l = int (length (sq_items s))" using m by (simp add: models_def rep_def)
qed

lemma create_models:
  assumes "models l ids s" "p \<le> length (sq_items s)"
  shows "\<exists>l'. list_node_create l (link_at ids p) x = Some l' \<and> models l' (take p ids @ xl_fresh l # drop p ids) (sq_ins p x s)"
  using create_spec [OF models_rep [OF assms(1)] assms(2) refl, of x] assms(1) by (fastforce simp: models_def sq_ins_def)

lemma destroy_models:
  assumes "models l ids s" "p < length (sq_items s)"
  shows "\<exists>l'. list_node_destroy l (link_at ids p) = Some (l', Some (sq_items s ! p)) \<and> models l' (take p ids @ drop (Suc p) ids) (sq_del p s)
    \<and> xl_fresh l' = xl_fresh l"
  using destroy_spec [OF models_rep [OF assms(1)] assms(2) refl] assms(1) by (fastforce simp: models_def sq_del_def)

lemma models_deleted:
  "models l ids s \<Longrightarrow> models (call_del l v) ids (s\<lparr>sq_deleted := sq_deleted s @ (if sq_has_del s then [v] else [])\<rparr>)"
  by (auto simp: models_def call_del_def rep_def)

lemma drop_models:
  assumes "models l ids s" "p < length (sq_items s)"
  shows "\<exists>l'. destroy_and_del l (link_at ids p) = Some (l', 1) \<and> models l' (take p ids @ drop (Suc p) ids) (sq_drop p s)"
proof -
  obtain l' where l': "list_node_destroy l (link_at ids p) = Some (l', Some (sq_items s ! p))" "models l' (take p ids @ drop (Suc p) ids) (sq_del p s)"
    using destroy_models [OF assms] by blast
  have "sq_drop p s = (sq_del p s)\<lparr>sq_deleted := sq_deleted (sq_del p s) @ (if sq_has_del (sq_del p s) then [sq_items s ! p] else [])\<rparr>"
    by (simp add: sq_drop_def sq_del_def)
  then show ?thesis using l'(1) models_deleted [OF l'(2), of "sq_items s ! p"] by (simp add: destroy_and_del_def)
qed

lemma link_removed: "p < length ids \<Longrightarrow> link_at (take p ids @ drop (Suc p) ids) p = link_at ids p"
  using remove_at(2) [of p ids p] by simp

text \<open>What a loop that walks along the links sees at a position.\<close>

lemma models_step:
  assumes "models l ids s"
  shows "p = length (sq_items s) \<Longrightarrow> load_link l (link_at ids p) = Some None"
    "p < length (sq_items s) \<Longrightarrow> \<exists>n. load_link l (link_at ids p) = Some (Some (ids ! p)) \<and> xl_nodes l (ids ! p) = Some n
       \<and> node_data n = sq_items s ! p \<and> node_next n = node_at ids (Suc p) \<and> Next_of (ids ! p) = link_at ids (Suc p) \<and> node_at ids p = Some (ids ! p)"
proof -
  note r = models_rep [OF assms]
  show "p = length (sq_items s) \<Longrightarrow> load_link l (link_at ids p) = Some None" using rep_load [OF r, of p] rep_end [OF r] by simp
  assume p: "p < length (sq_items s)"
  show "\<exists>n. load_link l (link_at ids p) = Some (Some (ids ! p)) \<and> xl_nodes l (ids ! p) = Some n
       \<and> node_data n = sq_items s ! p \<and> node_next n = node_at ids (Suc p) \<and> Next_of (ids ! p) = link_at ids (Suc p) \<and> node_at ids p = Some (ids ! p)"
    using rep_load [OF r, of p] p rep_node [OF r p] by (metis less_imp_le)
qed

subsection \<open>Loops\<close>

lemma first_match_Cons [simp]: "first_match P [] = 0" "first_match P (x # xs) = (if P x then 0 else Suc (first_match P xs))"
  by (simp_all add: first_match_def)

lemma drop_step: "drop p xs = x # ys \<Longrightarrow> p < length xs \<and> xs ! p = x \<and> drop (Suc p) xs = ys"
  by (metis Cons_nth_drop_Suc drop_all leI list.inject list.distinct(1))

lemma find_loop_spec:
  assumes "models l ids s" "drop p (sq_items s) = ys" "p \<le> length (sq_items s)"
  shows "find_loop l f key (node_at ids p) = Some (find (\<lambda>x. f x key \<noteq> 0) ys)"
  using assms(2,3)
proof (induction ys arbitrary: p)
  case Nil
  then have "p = length (sq_items s)" by simp
  then show ?case using rep_end [OF models_rep [OF assms(1)]] by (subst find_loop.simps) simp
next
  case (Cons y ys)
  note p = drop_step [OF Cons.prems(1)]
  then show ?case using models_step(2) [OF assms(1), of p] Cons.IH [of "Suc p"] by (subst find_loop.simps) auto
qed

lemma remove_first_spec:
  assumes "models l ids s" "drop p (sq_items s) = ys" "p \<le> length (sq_items s)"
  shows "\<exists>l' ids'. remove_first_loop l f key (link_at ids p) = Some (l', find (\<lambda>x. f x key \<noteq> 0) ys)
    \<and> models l' ids' (let q = p + first_match (\<lambda>x. f x key \<noteq> 0) ys in if q < length (sq_items s) then sq_del q s else s)"
  using assms(2,3)
proof (induction ys arbitrary: p)
  case Nil
  then have "p = length (sq_items s)" by simp
  then show ?case using models_step(1) [OF assms(1)] assms(1) by (subst remove_first_loop.simps) auto
next
  case (Cons y ys)
  note p = drop_step [OF Cons.prems(1)]
  then show ?case using models_step(2) [OF assms(1), of p] destroy_models [OF assms(1), of p] Cons.IH [of "Suc p"]
    by (subst remove_first_loop.simps) (cases "f y key = 0", auto)
qed

lemma delete_all_spec:
  assumes "models l ids s" "drop p (sq_items s) = ys" "p \<le> length (sq_items s)"
  shows "\<exists>l' ids'. delete_all_loop l f key (link_at ids p) n = Some (l', n + int (length (filter (\<lambda>x. f x key \<noteq> 0) ys)))
    \<and> models l' ids' (sq_sweep (\<lambda>x. f x key \<noteq> 0) ys p s)"
  using assms
proof (induction ys arbitrary: l ids s p n)
  case Nil
  then have "p = length (sq_items s)" by simp
  then show ?case using models_step(1) [OF Nil.prems(1)] Nil.prems(1) by (subst delete_all_loop.simps) auto
next
  case (Cons y ys)
  note p = drop_step [OF Cons.prems(2)]
  then have lt: "p < length (sq_items s)" by simp
  obtain nd where nd: "load_link l (link_at ids p) = Some (Some (ids ! p))" "xl_nodes l (ids ! p) = Some nd" "node_data nd = y"
    "Next_of (ids ! p) = link_at ids (Suc p)"
    using models_step(2) [OF Cons.prems(1) lt] p by auto
  show ?case
  proof (cases "f y key = 0")
    case True
    then show ?thesis using nd Cons.IH [OF Cons.prems(1), of "Suc p" n] p by (subst delete_all_loop.simps) simp
  next
    case False
    let ?ids = "take p ids @ drop (Suc p) ids"
    obtain l' where l': "destroy_and_del l (link_at ids p) = Some (l', 1)" "models l' ?ids (sq_drop p s)"
      using drop_models [OF Cons.prems(1) lt] by blast
    have i: "drop p (sq_items (sq_drop p s)) = ys" "p \<le> length (sq_items (sq_drop p s))"
      using p by (auto simp: sq_drop_def sq_del_def)
    have "link_at ?ids p = link_at ids p" using link_removed lt models_length [OF Cons.prems(1)] by simp
    then show ?thesis using False nd l'(1) Cons.IH [OF l'(2) i, of "n + 1"] by (subst delete_all_loop.simps) (auto simp: add.assoc)
  qed
qed

lemma flush_spec:
  assumes "models l ids s" "sq_items s = xs" "t = (if limit < 0 then xs else take (nat (limit - i)) xs)"
  shows "\<exists>l' ids'. flush_loop l limit i n = Some (l', n + int (length t)) \<and> models l' ids' (sq_sweep (\<lambda>_. True) t 0 s)"
  using assms
proof (induction xs arbitrary: l ids s i n t)
  case Nil
  then show ?case using models_step(1) [OF Nil.prems(1), of 0] by (subst flush_loop.simps) (auto simp: link_at_def)
next
  case (Cons x xs)
  then have lt: "0 < length (sq_items s)" by simp
  have ld: "load_link l Head = Some (Some (ids ! 0))" using models_step(2) [OF Cons.prems(1) lt] by (auto simp: link_at_def)
  show ?case
  proof (cases "limit < 0 \<or> i < limit")
    case False
    then show ?thesis using ld Cons.prems by (subst flush_loop.simps) auto
  next
    case True
    obtain l' where l': "destroy_and_del l Head = Some (l', 1)" "models l' (take 0 ids @ drop (Suc 0) ids) (sq_drop 0 s)"
      using drop_models [OF Cons.prems(1) lt] by (auto simp: link_at_def)
    define t' where "t' = (if limit < 0 then xs else take (nat (limit - (i + 1))) xs)"
    have t: "t = x # t'"
    proof (cases "limit < 0")
      case False
      then have "nat (limit - i) = Suc (nat (limit - (i + 1)))" using True by simp
      then show ?thesis using Cons.prems(3) False by (simp add: t'_def)
    qed (use Cons.prems(3) in \<open>simp add: t'_def\<close>)
    have "sq_items (sq_drop 0 s) = xs" using Cons.prems(2) by (simp add: sq_drop_def sq_del_def)
    from Cons.IH [OF l'(2) this t'_def, of "n + 1"] show ?thesis
      using True ld l'(1) by (subst flush_loop.simps) (auto simp: t add.assoc)
  qed
qed

text \<open>Deleting all items that match keeps the others, in order, and hands over those that do.\<close>

lemma sweep_items:
  assumes "drop p (sq_items s) = ys"
  shows "sq_items (sq_sweep P ys p s) = take p (sq_items s) @ filter (\<lambda>x. \<not> P x) ys"
    "sq_deleted (sq_sweep P ys p s) = sq_deleted s @ (if sq_has_del s then filter P ys else [])"
    "sq_has_del (sq_sweep P ys p s) = sq_has_del s" "sq_itrs (sq_sweep P ys p s) = sq_itrs s"
    "map fst (sq_cursors (sq_sweep P ys p s)) = map fst (sq_cursors s)"
proof -
  have "sq_items (sq_sweep P ys p s) = take p (sq_items s) @ filter (\<lambda>x. \<not> P x) ys
    \<and> sq_deleted (sq_sweep P ys p s) = sq_deleted s @ (if sq_has_del s then filter P ys else [])
    \<and> sq_has_del (sq_sweep P ys p s) = sq_has_del s \<and> sq_itrs (sq_sweep P ys p s) = sq_itrs s
    \<and> map fst (sq_cursors (sq_sweep P ys p s)) = map fst (sq_cursors s)"
    using assms
  proof (induction ys arbitrary: p s)
    case (Cons y ys)
    note p = drop_step [OF Cons.prems]
    have d: "drop p (sq_items (sq_drop p s)) = ys" "take p (sq_items (sq_drop p s)) = take p (sq_items s)"
      "sq_deleted (sq_drop p s) = sq_deleted s @ (if sq_has_del s then [y] else [])" "sq_has_del (sq_drop p s) = sq_has_del s"
      "sq_itrs (sq_drop p s) = sq_itrs s" "map fst (sq_cursors (sq_drop p s)) = map fst (sq_cursors s)"
      using p by (auto simp: sq_drop_def sq_del_def cursor_ok_remove(2) comp_def)
    show ?case using Cons.IH [OF d(1)] Cons.IH [of "Suc p" s] d p by (auto simp: take_Suc_conv_app_nth)
  qed simp
  then show "sq_items (sq_sweep P ys p s) = take p (sq_items s) @ filter (\<lambda>x. \<not> P x) ys"
    "sq_deleted (sq_sweep P ys p s) = sq_deleted s @ (if sq_has_del s then filter P ys else [])"
    "sq_has_del (sq_sweep P ys p s) = sq_has_del s" "sq_itrs (sq_sweep P ys p s) = sq_itrs s"
    "map fst (sq_cursors (sq_sweep P ys p s)) = map fst (sq_cursors s)" by blast+
qed

subsection \<open>Sorting and reversing\<close>

text \<open>What an operation keeps that only moves items and cursors.\<close>

definition sq_same :: "'a seq \<Rightarrow> 'a seq \<Rightarrow> bool" where
  "sq_same s s' \<longleftrightarrow> map fst (sq_cursors s') = map fst (sq_cursors s) \<and> sq_itrs s' = sq_itrs s
     \<and> sq_has_del s' = sq_has_del s \<and> sq_deleted s' = sq_deleted s"

lemma sq_same_simps [simp]: "sq_same s s" "sq_same s (sq_ins p x t) = sq_same s t" "sq_same s (sq_del p t) = sq_same s t"
  by (simp_all add: sq_same_def sq_ins_def sq_del_def cursor_ok_remove(2) cursor_ok_insert(2) comp_def)

lemma append_models:
  assumes "models l ids s"
  shows "\<exists>l' ids'. list_node_create l (xl_tail l) x = Some l' \<and> models l' ids' (sq_ins (length (sq_items s)) x s)"
  using create_models [OF assms, of "length (sq_items s)" x] models_head(2) [OF assms] models_length [OF assms] by auto

lemma pop_loop_spec:
  assumes "models l ids s" "sq_items s = xs"
  shows "\<exists>l' s'. pop_loop l acc = Some (l', acc @ xs) \<and> models l' [] s' \<and> sq_items s' = [] \<and> sq_same s s'"
  using assms
proof (induction xs arbitrary: l ids s acc)
  case Nil
  then have "list_pop_locked l = Some (l, None)" "ids = []"
    using destroy_none [OF models_rep [OF Nil.prems(1)]] models_length [OF Nil.prems(1)] by (simp_all add: list_pop_locked_def link_at_def)
  then show ?case using Nil.prems by (subst pop_loop.simps) (intro exI [of _ l] exI [of _ s], simp)
next
  case (Cons x xs)
  then have "0 < length (sq_items s)" by simp
  from destroy_models [OF Cons.prems(1) this] obtain l' ids' where
    l': "list_pop_locked l = Some (l', Some x)" "models l' ids' (sq_del 0 s)"
    using Cons.prems(2) by (auto simp: list_pop_locked_def link_at_def)
  have "sq_items (sq_del 0 s) = xs" using Cons.prems(2) by (simp add: sq_del_def)
  from Cons.IH [OF l'(2) this, of "acc @ [x]"] obtain l'' s'' where
    "pop_loop l' (acc @ [x]) = Some (l'', acc @ x # xs)" "models l'' [] s''" "sq_items s'' = []" "sq_same s s''"
    by (auto simp: sq_same_def sq_del_def cursor_ok_remove(2) comp_def)
  then show ?case using l'(1) by (subst pop_loop.simps) (intro exI [of _ l''] exI [of _ s''], simp)
qed

lemma append_all_spec:
  "models l ids s \<Longrightarrow> \<exists>l' ids' s'. append_all l xs = Some l' \<and> models l' ids' s' \<and> sq_items s' = sq_items s @ xs \<and> sq_same s s'"
proof (induction xs arbitrary: l ids s)
  case (Cons x xs)
  obtain l' ids' where l': "list_node_create l (xl_tail l) x = Some l'" "models l' ids' (sq_ins (length (sq_items s)) x s)"
    using append_models [OF Cons.prems] by blast
  obtain l'' ids'' s'' where "append_all l' xs = Some l''" "models l'' ids'' s''"
    "sq_items s'' = sq_items (sq_ins (length (sq_items s)) x s) @ xs" "sq_same (sq_ins (length (sq_items s)) x s) s''"
    using Cons.IH [OF l'(2)] by blast
  moreover have "sq_items (sq_ins (length (sq_items s)) x s) = sq_items s @ [x]" by (simp add: sq_ins_def)
  moreover have "sq_same s t" if "sq_same (sq_ins p x s) t" for p t
    using that by (simp add: sq_same_def sq_ins_def cursor_ok_insert(2) comp_def)
  ultimately show ?case using l'(1) by fastforce
qed (auto intro!: exI)

lemma reset_ids: "fst \<circ> (\<lambda>(i :: nat, _ :: nat \<times> bool). (i, 0 :: nat, False)) = fst"
  by (auto simp: fun_eq_iff)

lemma reset_models:
  assumes "models l ids s"
  shows "models (reset_itrs l) ids (s\<lparr>sq_cursors := map (\<lambda>(i, _). (i, 0, False)) (sq_cursors s)\<rparr>)"
proof -
  have r: "rep l ids (sq_items s) (sq_cursors s)" by (rule models_rep [OF assms])
  have "xl_itrs (reset_itrs l) = map (cursor ids) (map (\<lambda>(i, _). (i, 0, False)) (sq_cursors s))"
    using r models_head(1) [OF assms] by (auto simp: reset_itrs_def rep_def cursor_def hd_opt_drop end_link_take link_at_def)
  moreover have "\<forall>c \<in> set (map (\<lambda>(i, _). (i, 0, False)) (sq_cursors s)). cursor_ok (length (sq_items s)) c \<and> fst c < xl_fresh_itr l"
    using r by (auto simp: rep_def cursor_ok_def)
  moreover have "map fst (map (\<lambda>(i, _). (i, 0 :: nat, False)) (sq_cursors s)) = map fst (sq_cursors s)" by (simp add: reset_ids)
  moreover have "xl_nodes (reset_itrs l) = xl_nodes l" "xl_head (reset_itrs l) = xl_head l" "xl_tail (reset_itrs l) = xl_tail l"
    "xl_count (reset_itrs l) = xl_count l" "xl_fresh (reset_itrs l) = xl_fresh l" "xl_fresh_itr (reset_itrs l) = xl_fresh_itr l"
    "xl_has_del (reset_itrs l) = xl_has_del l" "xl_deleted (reset_itrs l) = xl_deleted l"
    by (simp_all add: reset_itrs_def)
  ultimately show ?thesis using r assms unfolding models_def rep_def by (simp add: reset_ids)
qed

lemma sort_models:
  assumes "models l ids s"
  shows "\<exists>l' ids'. list_sort qsort l f = Some l' \<and> models l' ids' (sq_reorder (qsort f (sq_items s)) s)"
proof (cases "length (sq_items s) \<le> 1")
  case True
  then show ?thesis using assms models_head(3) [OF assms] by (auto simp: list_sort_def sq_reorder_def)
next
  case False
  obtain l1 s1 where l1: "pop_loop l [] = Some (l1, sq_items s)" "models l1 [] s1" "sq_items s1 = []" "sq_same s s1"
    using pop_loop_spec [OF assms refl, of "[]"] by auto
  obtain l2 ids2 s2 where l2: "append_all l1 (qsort f (sq_items s)) = Some l2" "models l2 ids2 s2" "sq_items s2 = qsort f (sq_items s)" "sq_same s1 s2"
    using append_all_spec [OF l1(2), of "qsort f (sq_items s)"] unfolding l1(3) append_Nil by blast
  have "s2\<lparr>sq_cursors := map (\<lambda>(i, _). (i, 0, False)) (sq_cursors s2)\<rparr> = sq_reorder (qsort f (sq_items s)) s"
  proof -
    have "map fst (sq_cursors s2) = map fst (sq_cursors s)" using l1(4) l2(4) by (simp add: sq_same_def)
    then have "map (\<lambda>i. (i, 0 :: nat, False)) (map fst (sq_cursors s2)) = map (\<lambda>i. (i, 0, False)) (map fst (sq_cursors s))" by simp
    then have "map (\<lambda>(i, _). (i, 0 :: nat, False)) (sq_cursors s2) = map (\<lambda>(i, _). (i, 0, False)) (sq_cursors s)"
      by (simp add: comp_def split_def)
    then show ?thesis using l1(4) l2(3,4) False by (simp add: sq_reorder_def sq_same_def)
  qed
  then show ?thesis using l1(1) l2(1) reset_models [OF l2(2)] models_head(3) [OF assms] False by (auto simp: list_sort_def)
qed

lemma flip_loop_spec:
  assumes "seg (xl_nodes l) cur rest None" "seg (xl_nodes l) prev done None" "distinct (rest @ done)"
  shows "\<exists>h p. flip_loop l prev cur = Some (l\<lparr>xl_nodes := h\<rparr>, p) \<and> seg h p (rev rest @ done) None \<and> dom h = dom (xl_nodes l)
    \<and> (\<forall>x. map_option node_data (h x) = map_option node_data (xl_nodes l x))"
  using assms
proof (induction rest arbitrary: l cur prev "done")
  case Nil
  then show ?case by (subst flip_loop.simps) (auto intro!: exI [of _ "xl_nodes l"])
next
  case (Cons x rest)
  then obtain n where n: "cur = Some x" "xl_nodes l x = Some n" "seg (xl_nodes l) (node_next n) rest None" by (auto split: option.splits)
  let ?l = "l\<lparr>xl_nodes := (xl_nodes l)(x \<mapsto> n\<lparr>node_next := prev\<rparr>)\<rparr>"
  have s: "seg (xl_nodes ?l) (node_next n) rest None" "seg (xl_nodes ?l) (Some x) (x # done) None" "distinct (rest @ x # done)"
    using n Cons.prems by auto
  obtain h p where "flip_loop ?l (Some x) (node_next n) = Some (?l\<lparr>xl_nodes := h\<rparr>, p)" "seg h p (rev rest @ x # done) None"
    "dom h = dom (xl_nodes ?l)" "\<forall>x. map_option node_data (h x) = map_option node_data (xl_nodes ?l x)"
    using Cons.IH [OF s] by blast
  then show ?case using n by (subst flip_loop.simps) (auto intro!: exI [of _ h] exI [of _ p])
qed

lemma flip_models:
  assumes "models l ids s"
  shows "\<exists>l' ids'. list_flip l = Some l' \<and> models l' ids' (sq_reorder (rev (sq_items s)) s)"
proof (cases "length (sq_items s) \<le> 1")
  case True
  then show ?thesis using assms models_head(3) [OF assms] by (auto simp: list_flip_def sq_reorder_def)
next
  case False
  note r = models_rep [OF assms]
  have ne: "ids \<noteq> []" using False models_length [OF assms] by auto
  have sg: "seg (xl_nodes l) (xl_head l) ids None" "distinct (ids @ [])" using r by (simp_all add: rep_def)
  have hd: "xl_head l = Some (hd ids)" using models_head(1) [OF assms] ne by (simp add: node_at_def hd_conv_nth)
  obtain h p where h: "flip_loop l None (xl_head l) = Some (l\<lparr>xl_nodes := h\<rparr>, p)" "seg h p (rev ids) None" "dom h = dom (xl_nodes l)"
    "\<And>x. map_option node_data (h x) = map_option node_data (xl_nodes l x)"
    using flip_loop_spec [OF sg(1) _ sg(2), of None] by auto
  define l1 where "l1 = l\<lparr>xl_nodes := h, xl_head := p, xl_tail := Next_of (hd ids), xl_itrs := []\<rparr>"
  have rep1: "rep l1 (rev ids) (rev (sq_items s)) []"
    using r h ne by (auto simp: rep_def l1_def end_link_def last_rev rev_map [symmetric])
  define l2 where "l2 = l\<lparr>xl_nodes := h, xl_head := p, xl_tail := Next_of (hd ids)\<rparr>"
  have e: "list_flip l = Some (reset_itrs l2)" using models_head(3) [OF assms] False h(1) hd by (simp add: list_flip_def l2_def)
  have ph: "p = node_at (rev ids) 0" using models_head(1) [of l1 "rev ids"] rep_load [OF rep1, of 0] by (simp add: load_link_def link_at_def l1_def)
  have "models (reset_itrs l2) (rev ids) (sq_reorder (rev (sq_items s)) s)"
  proof -
    have "xl_itrs (reset_itrs l2) = map (cursor (rev ids)) (map (\<lambda>(i, _). (i, 0, False)) (sq_cursors s))"
      using r ph by (auto simp: reset_itrs_def rep_def cursor_def hd_opt_drop end_link_take link_at_def l2_def)
    moreover have "\<forall>c \<in> set (map (\<lambda>(i, _). (i, 0, False)) (sq_cursors s)). cursor_ok (length (sq_items s)) c \<and> fst c < xl_fresh_itr l"
      using r by (auto simp: rep_def cursor_ok_def)
    ultimately show ?thesis using rep1 r assms False
      unfolding models_def rep_def by (simp add: l1_def l2_def reset_itrs_def sq_reorder_def reset_ids)
  qed
  then show ?thesis using e by blast
qed

subsection \<open>Iterators\<close>

definition find_cur :: "'a seq \<Rightarrow> nat \<Rightarrow> (nat \<times> bool) option" where
  "find_cur s i = map_option snd (find (\<lambda>c. fst c = i) (sq_cursors s))"

definition cur_pos :: "nat \<times> bool \<Rightarrow> nat" where
  "cur_pos c = (if snd c then fst c + 1 else fst c)"

lemma find_cursor: "find (\<lambda>it. itr_id it = i) (map (cursor ids) cs) = map_option (cursor ids) (find (\<lambda>c. fst c = i) cs)"
  by (induction cs) (auto simp: cursor_def)

lemma find_member: "find P xs = Some x \<Longrightarrow> x \<in> set xs \<and> P x"
  by (induction xs) (auto split: if_splits)

lemma find_itr_models:
  assumes "models l ids s"
  shows "find_itr l i = map_option (\<lambda>c. cursor ids (i, c)) (find_cur s i)"
proof (cases "find (\<lambda>c. fst c = i) (sq_cursors s)")
  case None
  then show ?thesis using models_rep [OF assms] find_cursor [of i ids "sq_cursors s"] by (simp add: find_itr_def rep_def find_cur_def)
next
  case (Some c)
  have "(i, snd c) = c" using find_member [OF Some] by auto
  then show ?thesis using Some models_rep [OF assms] find_cursor [of i ids "sq_cursors s"] by (simp add: find_itr_def rep_def find_cur_def)
qed

lemma find_cur_ok:
  assumes "models l ids s" "find_cur s i = Some (k, b)"
  shows "k \<le> length (sq_items s)" "b \<Longrightarrow> k < length (sq_items s)" "cursor ids (i, k, b) = \<lparr>itr_id = i, itr_pos = node_at ids (cur_pos (k, b)), itr_prev = link_at ids k\<rparr>"
    "cur_pos (k, b) \<le> length (sq_items s)"
proof -
  have "(i, k, b) \<in> set (sq_cursors s)" using assms(2) find_member by (fastforce simp: find_cur_def)
  then have "cursor_ok (length (sq_items s)) (i, k, b)" using models_rep [OF assms(1)] by (auto simp: rep_def)
  then show k: "k \<le> length (sq_items s)" "b \<Longrightarrow> k < length (sq_items s)" by (auto simp: cursor_ok_def split: if_splits)
  then show "cur_pos (k, b) \<le> length (sq_items s)" by (auto simp: cur_pos_def)
  show "cursor ids (i, k, b) = \<lparr>itr_id = i, itr_pos = node_at ids (cur_pos (k, b)), itr_prev = link_at ids k\<rparr>"
    using k(1) models_length [OF assms(1)] by (simp add: cursor_at cur_pos_def)
qed

lemma set_itr_models:
  assumes "models l ids s" "cursor_ok (length (sq_items s)) (i, k, b)"
    "pos = node_at ids (cur_pos (k, b))" "prev = link_at ids k"
  shows "models (set_itr l i pos prev) ids (sq_move i (k, b) s)"
proof -
  have r: "rep l ids (sq_items s) (sq_cursors s)" by (rule models_rep [OF assms(1)])
  have k: "k \<le> length ids" using assms(2) models_length [OF assms(1)] by (auto simp: cursor_ok_def split: if_splits)
  have "xl_itrs (set_itr l i pos prev) = map (cursor ids) (map (\<lambda>(j, c'). if j = i then (j, k, b) else (j, c')) (sq_cursors s))"
  proof -
    have "(if itr_id (cursor ids c) = i then (cursor ids c)\<lparr>itr_pos := pos, itr_prev := prev\<rparr> else cursor ids c)
        = cursor ids (case c of (j, c') \<Rightarrow> if j = i then (j, k, b) else (j, c'))" for c
      using k assms(3,4) by (cases c) (auto simp: cursor_def hd_opt_drop end_link_take cur_pos_def)
    then show ?thesis using r by (simp add: set_itr_def rep_def)
  qed
  moreover have "\<forall>c \<in> set (map (\<lambda>(j, c'). if j = i then (j, k, b) else (j, c')) (sq_cursors s)). cursor_ok (length (sq_items s)) c \<and> fst c < xl_fresh_itr l"
  proof
    fix c assume "c \<in> set (map (\<lambda>(j, c'). if j = i then (j, k, b) else (j, c')) (sq_cursors s))"
    then obtain j c' where "(j, c') \<in> set (sq_cursors s)" "c = (if j = i then (j, k, b) else (j, c'))" by auto
    moreover have "\<forall>c \<in> set (sq_cursors s). cursor_ok (length (sq_items s)) c \<and> fst c < xl_fresh_itr l" using r by (simp add: rep_def)
    ultimately show "cursor_ok (length (sq_items s)) c \<and> fst c < xl_fresh_itr l" using assms(2) by (cases "j = i") fastforce+
  qed
  moreover have "fst \<circ> (\<lambda>(j, c'). if j = i then (j, k, b) else (j, c')) = fst" by (auto simp: fun_eq_iff)
  ultimately show ?thesis using r assms(1) unfolding models_def rep_def by (simp add: set_itr_def sq_move_def)
qed

lemma next_models:
  assumes "models l ids s" "find_cur s i = Some (k, b)"
  defines "q \<equiv> cur_pos (k, b)"
  shows "list_next_locked l i = Some (set_itr l i (node_at ids (if q < length ids then q + 1 else q)) (link_at ids q), item_at (sq_items s) q)"
    "models (set_itr l i (node_at ids (if q < length ids then q + 1 else q)) (link_at ids q)) ids (sq_move i (q, q < length (sq_items s)) s)"
proof -
  note c = find_cur_ok [OF assms(1,2)] and len = models_length [OF assms(1)] and r = models_rep [OF assms(1)]
  have it: "find_itr l i = Some \<lparr>itr_id = i, itr_pos = node_at ids q, itr_prev = link_at ids k\<rparr>"
    using find_itr_models [OF assms(1)] assms(2) c(3) by (simp add: q_def)
  have ld: "load_link l (link_at ids k) = Some (node_at ids k)" by (rule rep_load [OF r c(1)])
  have nx: "(case node_at ids q of None \<Rightarrow> Some (None, None) | Some p \<Rightarrow> map_option (\<lambda>nd. (node_next nd, Some (node_data nd))) (xl_nodes l p))
      = Some (node_at ids (if q < length ids then q + 1 else q), item_at (sq_items s) q)"
  proof (cases "q < length ids")
    case True
    then show ?thesis using models_step(2) [OF assms(1), of q] len by (auto simp: item_at_def)
  next
    case False
    then show ?thesis using len by (simp add: node_at_def item_at_def)
  qed
  have pv: "(if node_at ids k \<noteq> node_at ids q then map_option Next_of (node_at ids k) else Some (link_at ids k)) = Some (link_at ids q)"
  proof (cases b)
    case True
    then have q: "q = Suc k" "k < length ids" using c(2) len by (simp_all add: q_def cur_pos_def)
    then have "node_at ids k \<noteq> node_at ids q" using node_at_eq [of ids k q] r by (simp add: rep_def)
    then show ?thesis using q by (simp add: node_at_def link_at_def)
  qed (simp add: q_def cur_pos_def)
  show "list_next_locked l i = Some (set_itr l i (node_at ids (if q < length ids then q + 1 else q)) (link_at ids q), item_at (sq_items s) q)"
    by (simp only: list_next_locked_def it Option.bind_lunit Let_def list_itr.select_convs nx ld pv split_conv)
  show "models (set_itr l i (node_at ids (if q < length ids then q + 1 else q)) (link_at ids q)) ids (sq_move i (q, q < length (sq_items s)) s)"
    using c(4) len by (intro set_itr_models [OF assms(1)]) (auto simp: cursor_ok_def cur_pos_def q_def)
qed

lemma find_cur_move: "find_cur (sq_move i c s) i = (if find_cur s i = None then None else Some c)"
proof -
  obtain k b where c: "c = (k, b)" by fastforce
  have "map_option snd (find (\<lambda>c. fst c = i) (map (\<lambda>(j, c'). if j = i then (j, c) else (j, c')) cs))
     = (if find (\<lambda>c. fst c = i) cs = None then None else Some c)" for cs
    unfolding c by (induction cs) auto
  then show ?thesis by (simp add: find_cur_def sq_move_def)
qed

lemma move_move [simp]: "sq_move i c (sq_move i c' s) = sq_move i c s" "sq_items (sq_move i c s) = sq_items s"
proof -
  have "(\<lambda>(j, c'). if j = i then (j, c) else (j, c')) \<circ> (\<lambda>(j, d). if j = i then (j, c') else (j, d)) = (\<lambda>(j, c'). if j = i then (j, c) else (j, c'))"
    by (auto simp: fun_eq_iff)
  then show "sq_move i c (sq_move i c' s) = sq_move i c s" by (simp add: sq_move_def)
  show "sq_items (sq_move i c s) = sq_items s" by (simp add: sq_move_def)
qed

text \<open>The search goes on from where the iterator is.\<close>

lemma find_models:
  assumes "models l ids s" "find_cur s i = Some c" "drop (cur_pos c) (sq_items s) = ys"
  shows "\<exists>l'. list_find l i f key = Some (l', find (\<lambda>x. f x key \<noteq> 0) ys)
    \<and> models l' ids (let q = cur_pos c + first_match (\<lambda>x. f x key \<noteq> 0) ys in sq_move i (q, q < length (sq_items s)) s)"
  using assms
proof (induction ys arbitrary: l s c)
  case Nil
  obtain k b where c: "c = (k, b)" by fastforce
  note n = next_models [OF Nil.prems(1) Nil.prems(2) [unfolded c]]
  have "item_at (sq_items s) (cur_pos (k, b)) = None" using Nil.prems(3) by (simp add: item_at_def c)
  then show ?case using n by (subst list_find.simps) (auto simp: c Let_def)
next
  case (Cons y ys)
  obtain k b where c: "c = (k, b)" by fastforce
  note n = next_models [OF Cons.prems(1) Cons.prems(2) [unfolded c]]
  let ?q = "cur_pos (k, b)"
  have p: "?q < length (sq_items s)" "sq_items s ! ?q = y" "drop (Suc ?q) (sq_items s) = ys" using drop_step Cons.prems(3) c by metis+
  have it: "item_at (sq_items s) ?q = Some y" using p by (simp add: item_at_def)
  show ?case
  proof (cases "f y key = 0")
    case True
    let ?s = "sq_move i (?q, ?q < length (sq_items s)) s"
    have f: "find_cur ?s i = Some (?q, True)" using Cons.prems(2) p by (simp add: find_cur_move)
    have d: "drop (cur_pos (?q, True)) (sq_items ?s) = ys" using p by (simp add: cur_pos_def)
    from Cons.IH [OF n(2) f d] show ?thesis using True n(1) it by (subst list_find.simps) (auto simp: c cur_pos_def Let_def)
  next
    case False
    then show ?thesis using n it by (subst list_find.simps) (auto simp: c Let_def)
  qed
qed

end
