(* ===== verification/Xlist_Refine.thy ===== *)
theory Xlist_Refine
  imports Xlist_Machine
begin

text \<open>
  The lists implement their specification: any sequence of operations, with any number
  of iterators, gives the same results on both.
\<close>

subsection \<open>Operations\<close>

datatype 'a list_op =
    Append 'a | Push 'a | Pop | Dequeue | Peek | Count
  | Find_first "'a \<Rightarrow> int" | Remove_first "'a \<Rightarrow> int" | Delete_all "'a \<Rightarrow> int" | Flush_max int
  | Sort "'a \<Rightarrow> 'a \<Rightarrow> int" | Flip
  | Itr_create | Itr_reset nat | Itr_destroy nat | Next nat | Peek_next nat | Insert nat 'a
  | Find nat "'a \<Rightarrow> int" | Remove nat | Delete_item nat

datatype 'a op_result = No_result | Item "'a option" | Number int

definition no_result :: "'a xlist option \<Rightarrow> ('a xlist \<times> 'a op_result) option" where
  "no_result r = map_option (\<lambda>l. (l, No_result)) r"

definition item_result :: "('a xlist \<times> 'a option) option \<Rightarrow> ('a xlist \<times> 'a op_result) option" where
  "item_result r = map_option (\<lambda>(l, v). (l, Item v)) r"

definition number_result :: "('a xlist \<times> int) option \<Rightarrow> ('a xlist \<times> 'a op_result) option" where
  "number_result r = map_option (\<lambda>(l, n). (l, Number n)) r"

fun list_op_run :: "(('a \<Rightarrow> 'a \<Rightarrow> int) \<Rightarrow> 'a list \<Rightarrow> 'a list) \<Rightarrow> 'a list_op \<Rightarrow> 'a xlist \<Rightarrow> ('a xlist \<times> 'a op_result) option" where
  "list_op_run qsort (Append x) l = no_result (list_append l x)"
| "list_op_run qsort (Push x) l = no_result (list_push l x)"
| "list_op_run qsort Pop l = item_result (list_pop l)"
| "list_op_run qsort Dequeue l = item_result (list_dequeue l)"
| "list_op_run qsort Peek l = map_option (\<lambda>v. (l, Item v)) (list_peek l)"
| "list_op_run qsort Count l = Some (l, Number (list_count (Some l)))"
| "list_op_run qsort (Find_first f) l = map_option (\<lambda>v. (l, Item v)) (list_find_first_locked l (\<lambda>x _. f x) ())"
| "list_op_run qsort (Remove_first f) l = item_result (list_remove_first l (\<lambda>x _. f x) ())"
| "list_op_run qsort (Delete_all f) l = number_result (list_delete_all l (\<lambda>x _. f x) ())"
| "list_op_run qsort (Flush_max n) l = number_result (list_flush_max l n)"
| "list_op_run qsort (Sort f) l = no_result (list_sort qsort l f)"
| "list_op_run qsort Flip l = no_result (list_flip l)"
| "list_op_run qsort Itr_create l = (let (l, i) = list_iterator_create l in Some (l, Number (int i)))"
| "list_op_run qsort (Itr_reset i) l = no_result (list_iterator_reset l i)"
| "list_op_run qsort (Itr_destroy i) l = no_result (list_iterator_destroy l i)"
| "list_op_run qsort (Next i) l = item_result (list_next l i)"
| "list_op_run qsort (Peek_next i) l = map_option (\<lambda>v. (l, Item v)) (list_peek_next l i)"
| "list_op_run qsort (Insert i x) l = no_result (list_insert l i x)"
| "list_op_run qsort (Find i f) l = item_result (list_find l i (\<lambda>x _. f x) ())"
| "list_op_run qsort (Remove i) l = item_result (list_remove l i)"
| "list_op_run qsort (Delete_item i) l = number_result (list_delete_item l i)"

text \<open>The same on sequences; using an iterator that does not exist is an error.\<close>

fun drop_cursor :: "nat \<Rightarrow> (nat \<times> nat \<times> bool) list \<Rightarrow> (nat \<times> nat \<times> bool) list" where
  "drop_cursor i [] = []"
| "drop_cursor i (c # cs) = (if fst c = i then cs else c # drop_cursor i cs)"

definition at_cursor :: "'a seq \<Rightarrow> nat \<Rightarrow> (nat \<times> bool \<Rightarrow> 'a seq \<times> 'a op_result) \<Rightarrow> ('a seq \<times> 'a op_result) option" where
  "at_cursor s i g = map_option g (find_cur s i)"

fun seq_op :: "(('a \<Rightarrow> 'a \<Rightarrow> int) \<Rightarrow> 'a list \<Rightarrow> 'a list) \<Rightarrow> 'a list_op \<Rightarrow> 'a seq \<Rightarrow> ('a seq \<times> 'a op_result) option" where
  "seq_op qsort (Append x) s = Some (sq_ins (length (sq_items s)) x s, No_result)"
| "seq_op qsort (Push x) s = Some (sq_ins 0 x s, No_result)"
| "seq_op qsort Pop s = Some (if sq_items s = [] then s else sq_del 0 s, Item (item_at (sq_items s) 0))"
| "seq_op qsort Dequeue s = Some (if sq_items s = [] then s else sq_del 0 s, Item (item_at (sq_items s) 0))"
| "seq_op qsort Peek s = Some (s, Item (item_at (sq_items s) 0))"
| "seq_op qsort Count s = Some (s, Number (int (length (sq_items s))))"
| "seq_op qsort (Find_first f) s = Some (s, Item (find (\<lambda>x. f x \<noteq> 0) (sq_items s)))"
| "seq_op qsort (Remove_first f) s =
     (let q = first_match (\<lambda>x. f x \<noteq> 0) (sq_items s)
      in Some (if q < length (sq_items s) then sq_del q s else s, Item (find (\<lambda>x. f x \<noteq> 0) (sq_items s))))"
| "seq_op qsort (Delete_all f) s =
     Some (sq_sweep (\<lambda>x. f x \<noteq> 0) (sq_items s) 0 s, Number (int (length (filter (\<lambda>x. f x \<noteq> 0) (sq_items s)))))"
| "seq_op qsort (Flush_max n) s =
     (let t = (if n < 0 then sq_items s else take (nat n) (sq_items s)) in Some (sq_sweep (\<lambda>_. True) t 0 s, Number (int (length t))))"
| "seq_op qsort (Sort f) s = Some (sq_reorder (qsort f (sq_items s)) s, No_result)"
| "seq_op qsort Flip s = Some (sq_reorder (rev (sq_items s)) s, No_result)"
| "seq_op qsort Itr_create s =
     Some (s\<lparr>sq_cursors := (sq_itrs s, 0, False) # sq_cursors s, sq_itrs := sq_itrs s + 1\<rparr>, Number (int (sq_itrs s)))"
| "seq_op qsort (Itr_reset i) s = at_cursor s i (\<lambda>_. (sq_move i (0, False) s, No_result))"
| "seq_op qsort (Itr_destroy i) s = at_cursor s i (\<lambda>_. (s\<lparr>sq_cursors := drop_cursor i (sq_cursors s)\<rparr>, No_result))"
| "seq_op qsort (Next i) s =
     at_cursor s i (\<lambda>c. (sq_move i (cur_pos c, cur_pos c < length (sq_items s)) s, Item (item_at (sq_items s) (cur_pos c))))"
| "seq_op qsort (Peek_next i) s = at_cursor s i (\<lambda>c. (s, Item (item_at (sq_items s) (cur_pos c))))"
| "seq_op qsort (Insert i x) s = at_cursor s i (\<lambda>c. (sq_ins (fst c) x s, No_result))"
| "seq_op qsort (Find i f) s =
     at_cursor s i (\<lambda>c. let q = cur_pos c + first_match (\<lambda>x. f x \<noteq> 0) (drop (cur_pos c) (sq_items s))
                        in (sq_move i (q, q < length (sq_items s)) s, Item (find (\<lambda>x. f x \<noteq> 0) (drop (cur_pos c) (sq_items s)))))"
| "seq_op qsort (Remove i) s =
     at_cursor s i (\<lambda>c. if snd c then (sq_del (fst c) s, Item (Some (sq_items s ! fst c))) else (s, Item None))"
| "seq_op qsort (Delete_item i) s =
     at_cursor s i (\<lambda>c. if snd c then (sq_drop (fst c) s, Number 1) else (s, Number 0))"

text \<open>A run: the results of the operations.\<close>

fun list_run :: "(('a \<Rightarrow> 'a \<Rightarrow> int) \<Rightarrow> 'a list \<Rightarrow> 'a list) \<Rightarrow> 'a list_op list \<Rightarrow> 'a xlist \<Rightarrow> ('a xlist \<times> 'a op_result list) option" where
  "list_run qsort [] l = Some (l, [])"
| "list_run qsort (opn # opns) l = do {
     (l, r) \<leftarrow> list_op_run qsort opn l;
     (l, rs) \<leftarrow> list_run qsort opns l;
     Some (l, r # rs)
   }"

fun seq_run :: "(('a \<Rightarrow> 'a \<Rightarrow> int) \<Rightarrow> 'a list \<Rightarrow> 'a list) \<Rightarrow> 'a list_op list \<Rightarrow> 'a seq \<Rightarrow> ('a seq \<times> 'a op_result list) option" where
  "seq_run qsort [] s = Some (s, [])"
| "seq_run qsort (opn # opns) s = do {
     (s, r) \<leftarrow> seq_op qsort opn s;
     (s, rs) \<leftarrow> seq_run qsort opns s;
     Some (s, r # rs)
   }"

subsection \<open>Every operation agrees\<close>

definition agrees :: "('a xlist \<times> 'a op_result) option \<Rightarrow> ('a seq \<times> 'a op_result) option \<Rightarrow> bool" where
  "agrees cr sr \<longleftrightarrow> (case sr of None \<Rightarrow> cr = None | Some (s', r) \<Rightarrow> \<exists>l' ids'. cr = Some (l', r) \<and> models l' ids' s')"

lemma agreesI [intro]: "cr = Some (l', r) \<Longrightarrow> models l' ids' s' \<Longrightarrow> agrees cr (Some (s', r))"
  by (auto simp: agrees_def)

lemma agrees_none [simp]: "agrees None None"
  by (simp add: agrees_def)

lemma first_match_le: "first_match P xs \<le> length xs"
  by (simp add: first_match_def length_takeWhile_le)

lemma item_at_hd: "item_at xs 0 = (if xs = [] then None else Some (hd xs))"
  by (simp add: item_at_def hd_conv_nth)

lemma dequeue_agrees:
  assumes "models l ids s"
  shows "agrees (item_result (list_node_destroy l Head)) (Some (if sq_items s = [] then s else sq_del 0 s, Item (item_at (sq_items s) 0)))"
proof (cases "sq_items s = []")
  case True
  then show ?thesis using destroy_none [OF models_rep [OF assms]] assms by (auto simp: item_result_def link_at_def item_at_def)
next
  case False
  then show ?thesis using destroy_models [OF assms, of 0] by (auto simp: item_result_def link_at_def item_at_def)
qed

lemma itr_create_models:
  assumes "models l ids s"
  shows "models (fst (list_iterator_create l)) ids (s\<lparr>sq_cursors := (sq_itrs s, 0, False) # sq_cursors s, sq_itrs := sq_itrs s + 1\<rparr>)"
proof -
  have r: "rep l ids (sq_items s) (sq_cursors s)" by (rule models_rep [OF assms])
  have "\<forall>c \<in> set (sq_cursors s). fst c < xl_fresh_itr l" using r by (simp add: rep_def)
  then have "xl_fresh_itr l \<notin> fst ` set (sq_cursors s)" by auto
  then show ?thesis using r assms models_head(1) [OF assms]
    unfolding models_def rep_def
    by (auto simp: list_iterator_create_def cursor_def hd_opt_drop end_link_take link_at_def cursor_ok_def)
qed

lemma unlink_cursor: "unlink_itr i (map (cursor ids) cs) = map (cursor ids) (drop_cursor i cs)"
  by (induction cs) (auto simp: cursor_def)

lemma drop_cursor_set: "set (drop_cursor i cs) \<subseteq> set cs" "distinct (map fst cs) \<Longrightarrow> distinct (map fst (drop_cursor i cs))"
proof -
  show s: "set (drop_cursor i cs) \<subseteq> set cs" for cs by (induction cs) auto
  show "distinct (map fst cs) \<Longrightarrow> distinct (map fst (drop_cursor i cs))"
    by (induction cs) (use s in fastforce)+
qed

lemma itr_destroy_models:
  assumes "models l ids s"
  shows "models (l\<lparr>xl_itrs := unlink_itr i (xl_itrs l)\<rparr>) ids (s\<lparr>sq_cursors := drop_cursor i (sq_cursors s)\<rparr>)"
proof -
  have r: "rep l ids (sq_items s) (sq_cursors s)" by (rule models_rep [OF assms])
  have "\<forall>c \<in> set (drop_cursor i (sq_cursors s)). cursor_ok (length (sq_items s)) c \<and> fst c < xl_fresh_itr l"
    using r drop_cursor_set(1) [of i "sq_cursors s"] by (auto simp: rep_def)
  moreover have "distinct (map fst (drop_cursor i (sq_cursors s)))" using r drop_cursor_set(2) by (simp add: rep_def)
  ultimately show ?thesis using r assms unfolding models_def rep_def by (simp add: unlink_cursor)
qed

text \<open>An operation on an iterator: it fails when there is none.\<close>

lemma at_cursor_agrees:
  assumes "models l ids s" "find_itr l i = None \<Longrightarrow> cr = None"
    "\<And>k b. find_cur s i = Some (k, b) \<Longrightarrow> agrees cr (Some (g (k, b)))"
  shows "agrees cr (at_cursor s i g)"
proof (cases "find_cur s i")
  case None
  then show ?thesis using assms(2) find_itr_models [OF assms(1), of i] by (simp add: at_cursor_def)
next
  case (Some c)
  then show ?thesis using assms(3) by (cases c) (simp add: at_cursor_def)
qed

lemma remove_agrees:
  assumes "models l ids s" "find_cur s i = Some (k, b)"
  shows "\<exists>l' ids'. list_remove l i = Some (l', if b then Some (sq_items s ! k) else None) \<and> models l' ids' (if b then sq_del k s else s)"
proof -
  note c = find_cur_ok [OF assms]
  have it: "find_itr l i = Some \<lparr>itr_id = i, itr_pos = node_at ids (cur_pos (k, b)), itr_prev = link_at ids k\<rparr>"
    using find_itr_models [OF assms(1)] assms(2) c(3) by simp
  have ld: "load_link l (link_at ids k) = Some (node_at ids k)" by (rule rep_load [OF models_rep [OF assms(1)] c(1)])
  show ?thesis
  proof (cases b)
    case True
    then have lt: "k < length (sq_items s)" "k < length ids" using c(2) models_length [OF assms(1)] by simp_all
    have "distinct ids" using models_rep [OF assms(1)] by (simp add: rep_def)
    then have "node_at ids k \<noteq> node_at ids (cur_pos (k, b))" using node_at_eq [of ids k "k + 1"] lt True by (simp add: cur_pos_def)
    then show ?thesis using destroy_models [OF assms(1) lt(1)] it ld True by (auto simp: list_remove_def)
  next
    case False
    then show ?thesis using it ld assms(1) by (auto simp: list_remove_def cur_pos_def)
  qed
qed

lemma delete_item_agrees:
  assumes "models l ids s" "find_cur s i = Some (k, b)"
  shows "\<exists>l' ids'. list_delete_item l i = Some (l', if b then 1 else 0) \<and> models l' ids' (if b then sq_drop k s else s)"
proof -
  obtain l' ids' where l': "list_remove l i = Some (l', if b then Some (sq_items s ! k) else None)" "models l' ids' (if b then sq_del k s else s)"
    using remove_agrees [OF assms] by blast
  show ?thesis
  proof (cases b)
    case True
    have "sq_drop k s = (sq_del k s)\<lparr>sq_deleted := sq_deleted (sq_del k s) @ (if sq_has_del (sq_del k s) then [sq_items s ! k] else [])\<rparr>"
      by (simp add: sq_drop_def sq_del_def)
    then show ?thesis using l' True models_deleted [of l' ids' "sq_del k s" "sq_items s ! k"] by (auto simp: list_delete_item_def)
  next
    case False
    then show ?thesis using l' by (auto simp: list_delete_item_def)
  qed
qed

lemma plain_ops_agree:
  assumes "models l ids s"
  shows "agrees (list_op_run qsort (Append x) l) (seq_op qsort (Append x) s)"
    "agrees (list_op_run qsort (Push x) l) (seq_op qsort (Push x) s)"
    "agrees (list_op_run qsort Pop l) (seq_op qsort Pop s)"
    "agrees (list_op_run qsort Dequeue l) (seq_op qsort Dequeue s)"
    "agrees (list_op_run qsort Peek l) (seq_op qsort Peek s)"
    "agrees (list_op_run qsort Count l) (seq_op qsort Count s)"
    "agrees (list_op_run qsort (Find_first f) l) (seq_op qsort (Find_first f) s)"
    "agrees (list_op_run qsort (Remove_first f) l) (seq_op qsort (Remove_first f) s)"
    "agrees (list_op_run qsort (Delete_all f) l) (seq_op qsort (Delete_all f) s)"
    "agrees (list_op_run qsort (Flush_max n) l) (seq_op qsort (Flush_max n) s)"
    "agrees (list_op_run qsort (Sort g) l) (seq_op qsort (Sort g) s)"
    "agrees (list_op_run qsort Flip l) (seq_op qsort Flip s)"
proof -
  note head = models_head [OF assms]
  show "agrees (list_op_run qsort (Append x) l) (seq_op qsort (Append x) s)"
    using append_models [OF assms, of x] by (auto simp: list_append_def no_result_def)
  show "agrees (list_op_run qsort (Push x) l) (seq_op qsort (Push x) s)"
    using create_models [OF assms, of 0 x] by (auto simp: list_push_def no_result_def link_at_def)
  show "agrees (list_op_run qsort Pop l) (seq_op qsort Pop s)" "agrees (list_op_run qsort Dequeue l) (seq_op qsort Dequeue s)"
    using dequeue_agrees [OF assms] by (simp_all add: list_pop_def list_pop_locked_def list_dequeue_def)
  show "agrees (list_op_run qsort Peek l) (seq_op qsort Peek s)"
  proof (cases "sq_items s = []")
    case True
    then show ?thesis using head(1) models_length [OF assms] assms by (auto simp: list_peek_def node_at_def item_at_def)
  next
    case False
    then show ?thesis using models_step(2) [OF assms, of 0] head(1) assms by (auto simp: list_peek_def item_at_def)
  qed
  show "agrees (list_op_run qsort Count l) (seq_op qsort Count s)" using head(3) assms by (auto simp: list_count_def)
  show "agrees (list_op_run qsort (Find_first f) l) (seq_op qsort (Find_first f) s)"
    using find_loop_spec [OF assms, of 0 "sq_items s" "\<lambda>x _. f x" "()"] head(1) assms by (auto simp: list_find_first_locked_def)
  show "agrees (list_op_run qsort (Remove_first f) l) (seq_op qsort (Remove_first f) s)"
    using remove_first_spec [OF assms, of 0 "sq_items s" "\<lambda>x _. f x" "()"] by (auto simp: list_remove_first_def item_result_def link_at_def Let_def)
  show "agrees (list_op_run qsort (Delete_all f) l) (seq_op qsort (Delete_all f) s)"
    using delete_all_spec [OF assms, of 0 "sq_items s" "\<lambda>x _. f x" "()" 0] by (auto simp: list_delete_all_def number_result_def link_at_def)
  show "agrees (list_op_run qsort (Flush_max n) l) (seq_op qsort (Flush_max n) s)"
    using flush_spec [OF assms refl refl, of n 0 0] by (auto simp: list_flush_max_def number_result_def Let_def)
  show "agrees (list_op_run qsort (Sort g) l) (seq_op qsort (Sort g) s)" using sort_models [OF assms, of qsort g] by (auto simp: no_result_def)
  show "agrees (list_op_run qsort Flip l) (seq_op qsort Flip s)" using flip_models [OF assms] by (auto simp: no_result_def)
qed

lemma itr_ops_agree:
  assumes "models l ids s"
  shows "agrees (list_op_run qsort Itr_create l) (seq_op qsort Itr_create s)"
    "agrees (list_op_run qsort (Itr_reset i) l) (seq_op qsort (Itr_reset i) s)"
    "agrees (list_op_run qsort (Itr_destroy i) l) (seq_op qsort (Itr_destroy i) s)"
    "agrees (list_op_run qsort (Next i) l) (seq_op qsort (Next i) s)"
    "agrees (list_op_run qsort (Peek_next i) l) (seq_op qsort (Peek_next i) s)"
    "agrees (list_op_run qsort (Insert i x) l) (seq_op qsort (Insert i x) s)"
    "agrees (list_op_run qsort (Find i f) l) (seq_op qsort (Find i f) s)"
    "agrees (list_op_run qsort (Remove i) l) (seq_op qsort (Remove i) s)"
    "agrees (list_op_run qsort (Delete_item i) l) (seq_op qsort (Delete_item i) s)"
proof -
  have it: "find_itr l i = Some \<lparr>itr_id = i, itr_pos = node_at ids (cur_pos (k, b)), itr_prev = link_at ids k\<rparr>" if "find_cur s i = Some (k, b)" for k b
    using find_itr_models [OF assms] that find_cur_ok(3) [OF assms that] by simp
  have "xl_fresh_itr l = sq_itrs s" using assms by (simp add: models_def)
  then show "agrees (list_op_run qsort Itr_create l) (seq_op qsort Itr_create s)"
    using itr_create_models [OF assms] by (auto simp: Let_def list_iterator_create_def)
  show "agrees (list_op_run qsort (Itr_reset i) l) (seq_op qsort (Itr_reset i) s)"
    unfolding list_op_run.simps seq_op.simps
  proof (rule at_cursor_agrees [OF assms])
    fix k b assume f: "find_cur s i = Some (k, b)"
    have "models (set_itr l i (xl_head l) Head) ids (sq_move i (0, False) s)"
      using models_head(1) [OF assms] by (intro set_itr_models [OF assms]) (auto simp: cursor_ok_def cur_pos_def link_at_def)
    then show "agrees (no_result (list_iterator_reset l i)) (Some (sq_move i (0, False) s, No_result))"
      using it [OF f] by (auto simp: list_iterator_reset_def no_result_def)
  qed (simp add: list_iterator_reset_def no_result_def)
  show "agrees (list_op_run qsort (Itr_destroy i) l) (seq_op qsort (Itr_destroy i) s)"
    unfolding list_op_run.simps seq_op.simps
  proof (rule at_cursor_agrees [OF assms])
    fix k b assume f: "find_cur s i = Some (k, b)"
    show "agrees (no_result (list_iterator_destroy l i)) (Some (s\<lparr>sq_cursors := drop_cursor i (sq_cursors s)\<rparr>, No_result))"
      using it [OF f] itr_destroy_models [OF assms, of i] by (auto simp: list_iterator_destroy_def no_result_def)
  qed (simp add: list_iterator_destroy_def no_result_def)
  show "agrees (list_op_run qsort (Next i) l) (seq_op qsort (Next i) s)"
    unfolding list_op_run.simps seq_op.simps
  proof (rule at_cursor_agrees [OF assms])
    fix k b assume f: "find_cur s i = Some (k, b)"
    show "agrees (item_result (list_next l i))
        (Some (sq_move i (cur_pos (k, b), cur_pos (k, b) < length (sq_items s)) s, Item (item_at (sq_items s) (cur_pos (k, b)))))"
      using next_models [OF assms f] by (auto simp: list_next_def item_result_def)
  qed (simp add: list_next_def list_next_locked_def item_result_def)
  show "agrees (list_op_run qsort (Peek_next i) l) (seq_op qsort (Peek_next i) s)"
    unfolding list_op_run.simps seq_op.simps
  proof (rule at_cursor_agrees [OF assms])
    fix k b assume f: "find_cur s i = Some (k, b)"
    show "agrees (map_option (\<lambda>v. (l, Item v)) (list_peek_next l i)) (Some (s, Item (item_at (sq_items s) (cur_pos (k, b)))))"
    proof (cases "cur_pos (k, b) < length (sq_items s)")
      case True
      then show ?thesis using models_step(2) [OF assms True] it [OF f] assms by (auto simp: list_peek_next_def item_at_def)
    next
      case False
      then show ?thesis using it [OF f] models_length [OF assms] assms by (auto simp: list_peek_next_def item_at_def node_at_def)
    qed
  qed (simp add: list_peek_next_def)
  show "agrees (list_op_run qsort (Insert i x) l) (seq_op qsort (Insert i x) s)"
    unfolding list_op_run.simps seq_op.simps
  proof (rule at_cursor_agrees [OF assms])
    fix k b assume f: "find_cur s i = Some (k, b)"
    show "agrees (no_result (list_insert l i x)) (Some (sq_ins (fst (k, b)) x s, No_result))"
      using create_models [OF assms find_cur_ok(1) [OF assms f], of x] it [OF f] by (auto simp: list_insert_def no_result_def)
  qed (simp add: list_insert_def no_result_def)
  show "agrees (list_op_run qsort (Find i f) l) (seq_op qsort (Find i f) s)"
    unfolding list_op_run.simps seq_op.simps
  proof (rule at_cursor_agrees [OF assms])
    fix k b assume c: "find_cur s i = Some (k, b)"
    show "agrees (item_result (list_find l i (\<lambda>x _. f x) ()))
      (Some (let q = cur_pos (k, b) + first_match (\<lambda>x. f x \<noteq> 0) (drop (cur_pos (k, b)) (sq_items s))
             in (sq_move i (q, q < length (sq_items s)) s, Item (find (\<lambda>x. f x \<noteq> 0) (drop (cur_pos (k, b)) (sq_items s))))))"
      using find_models [OF assms c refl, of "\<lambda>x _. f x" "()"] by (auto simp: item_result_def Let_def)
  qed (subst list_find.simps, simp add: list_next_locked_def item_result_def)
  show "agrees (list_op_run qsort (Remove i) l) (seq_op qsort (Remove i) s)"
    unfolding list_op_run.simps seq_op.simps
  proof (rule at_cursor_agrees [OF assms])
    fix k b assume f: "find_cur s i = Some (k, b)"
    show "agrees (item_result (list_remove l i)) (Some (if snd (k, b) then (sq_del (fst (k, b)) s, Item (Some (sq_items s ! fst (k, b)))) else (s, Item None)))"
      using remove_agrees [OF assms f] by (auto simp: item_result_def)
  qed (simp add: list_remove_def item_result_def)
  show "agrees (list_op_run qsort (Delete_item i) l) (seq_op qsort (Delete_item i) s)"
    unfolding list_op_run.simps seq_op.simps
  proof (rule at_cursor_agrees [OF assms])
    fix k b assume f: "find_cur s i = Some (k, b)"
    show "agrees (number_result (list_delete_item l i)) (Some (if snd (k, b) then (sq_drop (fst (k, b)) s, Number 1) else (s, Number 0)))"
      using delete_item_agrees [OF assms f] by (auto simp: number_result_def)
  qed (simp add: list_delete_item_def list_remove_def number_result_def)
qed

lemma op_agrees: "models l ids s \<Longrightarrow> agrees (list_op_run qsort opn l) (seq_op qsort opn s)"
  by (cases opn) (simp_all only: plain_ops_agree itr_ops_agree)

lemma run_agrees:
  "models l ids s \<Longrightarrow> (case seq_run qsort opns s of None \<Rightarrow> list_run qsort opns l = None
     | Some (s', rs) \<Rightarrow> \<exists>l' ids'. list_run qsort opns l = Some (l', rs) \<and> models l' ids' s')"
proof (induction opns arbitrary: l ids s)
  case (Cons opn opns)
  note a = op_agrees [OF Cons.prems, of qsort opn]
  show ?case
  proof (cases "seq_op qsort opn s")
    case None
    then show ?thesis using a by (simp add: agrees_def)
  next
    case (Some p)
    then obtain s1 r where s1: "seq_op qsort opn s = Some (s1, r)" by (cases p) auto
    then obtain l1 ids1 where l1: "list_op_run qsort opn l = Some (l1, r)" "models l1 ids1 s1" using a by (auto simp: agrees_def)
    show ?thesis using Cons.IH [OF l1(2)] s1 l1(1) by (cases "seq_run qsort opns s1") auto
  qed
qed auto

end
