(* ===== verification/Xlist_Theorems.thy ===== *)
theory Xlist_Theorems
  imports Xlist_Refine "HOL-Library.Multiset"
begin

text \<open>
  What the callers of the lists rely on: the refinement of sequences from the creation
  of a list to its end, loops over an iterator that change the list, sorting and
  reversing, and operations on two lists.
\<close>

subsection \<open>Walks over a whole list\<close>

lemma destroy_loop_spec:
  "seg (xl_nodes l) p ids None \<Longrightarrow> distinct ids \<Longrightarrow> map (\<lambda>x. map_option node_data (xl_nodes l x)) ids = map Some xs \<Longrightarrow>
     destroy_loop l p = Some (xl_deleted l @ (if xl_has_del l then xs else []))"
proof (induction ids arbitrary: l p xs)
  case Nil
  then show ?case by (subst destroy_loop.simps) simp
next
  case (Cons x ids)
  then obtain n y ys where n: "p = Some x" "xl_nodes l x = Some n" "xs = y # ys" "node_data n = y" "seg (xl_nodes l) (node_next n) ids None"
    by (auto split: option.splits)
  let ?l = "(call_del l y)\<lparr>xl_nodes := (xl_nodes (call_del l y))(x := None)\<rparr>"
  have c: "xl_nodes (call_del l y) = xl_nodes l" "xl_has_del (call_del l y) = xl_has_del l"
    "xl_deleted (call_del l y) = xl_deleted l @ (if xl_has_del l then [y] else [])" by (simp_all add: call_del_def)
  have "map (\<lambda>x. map_option node_data (xl_nodes ?l x)) ids = map (\<lambda>x. map_option node_data (xl_nodes l x)) ids"
    using Cons.prems(2) by (auto simp: c)
  also have "map (\<lambda>x. map_option node_data (xl_nodes l x)) ids = map Some ys" using Cons.prems(3) n(3) by simp
  finally have "map (\<lambda>x. map_option node_data (xl_nodes ?l x)) ids = map Some ys" .
  then have "destroy_loop ?l (node_next n) = Some (xl_deleted ?l @ (if xl_has_del ?l then ys else []))"
  proof (intro Cons.IH)
    show "seg (xl_nodes ?l) (node_next n) ids None"
      using seg_frame [of ids "xl_nodes ?l" "xl_nodes l"] Cons.prems(2) n(5) by (auto simp: c)
  qed (use Cons.prems(2) in simp_all)
  then show ?case using n by (subst destroy_loop.simps) (auto simp: c Let_def)
qed

lemma destroy_list_spec:
  assumes "models l ids s"
  shows "list_destroy l = Some (sq_deleted s @ (if sq_has_del s then sq_items s else []))"
  using destroy_loop_spec [of "l\<lparr>xl_itrs := []\<rparr>" "xl_head l" ids "sq_items s"] assms
  by (simp add: list_destroy_def models_def rep_def)

fun seq_each :: "('a \<Rightarrow> 's \<Rightarrow> 's \<times> int) \<Rightarrow> bool \<Rightarrow> int \<Rightarrow> 'a list \<Rightarrow> 's \<Rightarrow> int \<Rightarrow> bool \<Rightarrow> 's \<times> int \<times> bool" where
  "seq_each f brk limit [] arg n failed = (arg, n, failed)"
| "seq_each f brk limit (x # xs) arg n failed =
     (if limit = - 1 \<or> n < limit
      then let (arg, rc) = f x arg
           in if rc < 0 \<and> brk then (arg, n + 1, True) else seq_each f brk limit xs arg (n + 1) (failed \<or> rc < 0)
      else (arg, n, failed))"

lemma for_each_spec:
  assumes "models l ids s" "drop p (sq_items s) = ys" "p \<le> length (sq_items s)"
  shows "for_each_loop l f brk limit (node_at ids p) arg n failed = Some (seq_each f brk limit ys arg n failed)"
  using assms(2,3)
proof (induction ys arbitrary: p arg n failed)
  case Nil
  then have "p = length (sq_items s)" by simp
  then show ?case using rep_end [OF models_rep [OF assms(1)]] by (subst for_each_loop.simps) simp
next
  case (Cons y ys)
  note p = drop_step [OF Cons.prems(1)]
  then obtain nd where nd: "node_at ids p = Some (ids ! p)" "xl_nodes l (ids ! p) = Some nd" "node_data nd = y" "node_next nd = node_at ids (Suc p)"
    using models_step(2) [OF assms(1), of p] by auto
  have IH: "for_each_loop l f brk limit (node_at ids (Suc p)) a m b = Some (seq_each f brk limit ys a m b)" for a m b
    using Cons.IH [of "Suc p"] p by simp
  show ?case using nd IH by (subst for_each_loop.simps) (auto simp: Let_def split: prod.split)
qed

text \<open>The items as a caller reads them, with a function that collects what it is called for.\<close>

definition collect :: "'a \<Rightarrow> 'a list \<Rightarrow> 'a list \<times> int" where
  "collect x xs = (xs @ [x], 0)"

definition items_of :: "'a xlist \<Rightarrow> 'a list option" where
  "items_of l = map_option fst (list_for_each l collect [])"

lemma items_of_spec:
  assumes "models l ids s"
  shows "items_of l = Some (sq_items s)"
proof -
  have e: "seq_each collect True (- 1) ys arg n failed = (arg @ ys, n + int (length ys), failed)" for ys :: "'a list" and arg n failed
    by (induction ys arbitrary: arg n) (auto simp: collect_def)
  show ?thesis using for_each_spec [OF assms, of 0 "sq_items s" collect True "- 1" "[]" 0 False] models_head(1) [OF assms]
    by (simp add: items_of_def list_for_each_def list_for_each_max_def e)
qed

text \<open>C17: A list behaves as a sequence with cursors: any operations, in any order and with any
  number of iterators, return what they return on the sequence, use no node or
  iterator that was freed unless the caller does, and at the end each item that is
  left is handed to the deletion function once, in order.\<close>

theorem lists_refine_sequences:
  "map_option (\<lambda>(l, rs). (rs, items_of l, list_destroy l)) (list_run qsort opns (list_create f)) =
   map_option (\<lambda>(s, rs). (rs, Some (sq_items s), Some (sq_deleted s @ (if sq_has_del s then sq_items s else [])))) (seq_run qsort opns (sq_empty f))"
proof (cases "seq_run qsort opns (sq_empty f)")
  case None
  then show ?thesis using run_agrees [OF models_empty, of qsort opns f] by simp
next
  case (Some p)
  then obtain s rs where p: "seq_run qsort opns (sq_empty f) = Some (s, rs)" by (cases p) auto
  then obtain l ids where "list_run qsort opns (list_create f) = Some (l, rs)" "models l ids s"
    using run_agrees [OF models_empty, of qsort opns f] by auto
  then show ?thesis using p items_of_spec destroy_list_spec by fastforce
qed

subsection \<open>Loops over an iterator\<close>

text \<open>
  The loop that the callers write: for each item that the iterator returns, items are
  inserted in front of it and the item itself may be deleted.
\<close>

fun insert_each :: "'a xlist \<Rightarrow> nat \<Rightarrow> 'a list \<Rightarrow> 'a xlist option" where
  "insert_each l i [] = Some l"
| "insert_each l i (y # ys) = do { l \<leftarrow> list_insert l i y; insert_each l i ys }"

partial_function (option) visit :: "('a \<Rightarrow> 'a list \<times> bool) \<Rightarrow> 'a xlist \<Rightarrow> nat \<Rightarrow> 'a list \<Rightarrow> ('a xlist \<times> 'a list) option" where
  [code]: "visit act l i seen = do {
     (l, v) \<leftarrow> list_next l i;
     case v of
       None \<Rightarrow> Some (l, seen)
     | Some x \<Rightarrow> do {
         l \<leftarrow> insert_each l i (fst (act x));
         (l, _) \<leftarrow> (if snd (act x) then list_delete_item l i else Some (l, 0));
         visit act l i (seen @ [x])
       }
   }"

lemma find_cur_ins: "find_cur (sq_ins p x s) i = map_option (\<lambda>(k, b). if p \<le> k then (k + 1, b) else (k, b)) (find_cur s i)"
proof -
  have "map_option snd (find (\<lambda>c. fst c = i) (map (ins_cur p) cs)) = map_option (\<lambda>(k, b). if p \<le> k then (k + 1, b) else (k, b)) (map_option snd (find (\<lambda>c. fst c = i) cs))" for cs
    by (induction cs) (auto simp: ins_cur_def)
  then show ?thesis by (simp add: find_cur_def sq_ins_def)
qed

lemma find_cur_drop: "find_cur s i = Some (p, True) \<Longrightarrow> find_cur (sq_drop p s) i = Some (p, False)"
proof -
  have "map_option snd (find (\<lambda>c. fst c = i) cs) = Some (p, True) \<Longrightarrow> map_option snd (find (\<lambda>c. fst c = i) (map (del_cur p) cs)) = Some (p, False)" for cs
    by (induction cs) (auto simp: del_cur_def split: if_splits)
  then show "find_cur s i = Some (p, True) \<Longrightarrow> find_cur (sq_drop p s) i = Some (p, False)"
    by (simp add: find_cur_def sq_drop_def sq_del_def)
qed

lemma insert_models:
  assumes "models l ids s" "find_cur s i = Some c"
  shows "\<exists>l' ids'. list_insert l i x = Some l' \<and> models l' ids' (sq_ins (fst c) x s)"
  using itr_ops_agree(6) [OF assms(1), of undefined i x] assms(2) by (auto simp: agrees_def at_cursor_def no_result_def)

lemma insert_each_spec:
  assumes "models l ids s" "find_cur s i = Some (q, True)" "q < length (sq_items s)"
  shows "\<exists>l' ids' s'. insert_each l i ys = Some l' \<and> models l' ids' s' \<and> find_cur s' i = Some (q + length ys, True)
    \<and> sq_items s' = take q (sq_items s) @ ys @ drop q (sq_items s)"
  using assms
proof (induction ys arbitrary: l ids s q)
  case (Cons y ys)
  obtain l1 ids1 where l1: "list_insert l i y = Some l1" "models l1 ids1 (sq_ins q y s)"
    using insert_models [OF Cons.prems(1,2), of y] by auto
  have c1: "find_cur (sq_ins q y s) i = Some (q + 1, True)" using Cons.prems(2) by (simp add: find_cur_ins)
  have c: "find_cur (sq_ins q y s) i = Some (q + 1, True)" "q + 1 < length (sq_items (sq_ins q y s))"
    "sq_items (sq_ins q y s) = take q (sq_items s) @ y # drop q (sq_items s)"
    using Cons.prems(3) c1 by (auto simp: sq_ins_def)
  have t: "take (q + 1) (sq_items (sq_ins q y s)) = take q (sq_items s) @ [y]" "drop (q + 1) (sq_items (sq_ins q y s)) = drop q (sq_items s)"
    using Cons.prems(3) by (auto simp: c(3) min_def)
  show ?case using Cons.IH [OF l1(2) c(1,2)] l1(1) unfolding t by auto
qed (auto intro!: exI)

lemma visit_spec:
  assumes "models l ids s" "find_cur s i = Some c" "drop (cur_pos c) (sq_items s) = ys"
  shows "\<exists>l' ids' s'. visit act l i seen = Some (l', seen @ ys) \<and> models l' ids' s'
    \<and> sq_items s' = take (cur_pos c) (sq_items s) @ concat (map (\<lambda>x. fst (act x) @ (if snd (act x) then [] else [x])) ys)"
  using assms
proof (induction ys arbitrary: l ids s c seen)
  case Nil
  obtain k b where c: "c = (k, b)" by fastforce
  note n = next_models [OF Nil.prems(1) Nil.prems(2) [unfolded c]]
  have "item_at (sq_items s) (cur_pos (k, b)) = None" using Nil.prems(3) by (simp add: item_at_def c)
  moreover have "take (cur_pos (k, b)) (sq_items s) = sq_items s" using Nil.prems(3) c by simp
  ultimately show ?case using n by (subst visit.simps) (auto simp: c list_next_def intro!: exI)
next
  case (Cons y ys)
  obtain k b where c: "c = (k, b)" by fastforce
  let ?q = "cur_pos (k, b)"
  note n = next_models [OF Cons.prems(1) Cons.prems(2) [unfolded c]]
  have p: "?q < length (sq_items s)" "sq_items s ! ?q = y" "drop (Suc ?q) (sq_items s) = ys" using drop_step Cons.prems(3) c by metis+
  have it: "item_at (sq_items s) ?q = Some y" using p by (simp add: item_at_def)
  define s1 where "s1 = sq_move i (?q, ?q < length (sq_items s)) s"
  obtain l1 where l1: "list_next_locked l i = Some (l1, Some y)" "models l1 ids s1" using n it by (simp add: s1_def)
  have c1: "find_cur s1 i = Some (?q, True)" "?q < length (sq_items s1)" "sq_items s1 = sq_items s"
    using p Cons.prems(2) by (simp_all add: s1_def find_cur_move)
  obtain l2 ids2 s2 where l2: "insert_each l1 i (fst (act y)) = Some l2" "models l2 ids2 s2" "find_cur s2 i = Some (?q + length (fst (act y)), True)"
    "sq_items s2 = take ?q (sq_items s) @ fst (act y) @ drop ?q (sq_items s)"
    using insert_each_spec [OF l1(2) c1(1,2)] c1(3) by metis
  define r where "r = ?q + length (fst (act y))"
  have r: "r < length (sq_items s2)" "sq_items s2 ! r = y" "take r (sq_items s2) = take ?q (sq_items s) @ fst (act y)" "drop (Suc r) (sq_items s2) = ys"
    using p by (auto simp: l2(4) r_def nth_append min_def Suc_diff_le)
  show ?case
  proof (cases "snd (act y)")
    case True
    obtain l3 ids3 where l3: "list_delete_item l2 i = Some (l3, 1)" "models l3 ids3 (sq_drop r s2)"
      using delete_item_agrees [OF l2(2,3)] by (auto simp: r_def)
    have c3: "find_cur (sq_drop r s2) i = Some (r, False)" using find_cur_drop l2(3) by (simp add: r_def)
    have d: "drop (cur_pos (r, False)) (sq_items (sq_drop r s2)) = ys" "take (cur_pos (r, False)) (sq_items (sq_drop r s2)) = take ?q (sq_items s) @ fst (act y)"
    proof -
      define t where "t = take r (sq_items s2)"
      have t: "length t = r" using r(1) by (simp add: t_def)
      have e: "sq_items (sq_drop r s2) = t @ ys" using r(4) by (simp add: sq_drop_def sq_del_def t_def)
      show "drop (cur_pos (r, False)) (sq_items (sq_drop r s2)) = ys"
        "take (cur_pos (r, False)) (sq_items (sq_drop r s2)) = take ?q (sq_items s) @ fst (act y)"
        unfolding e r(3) [symmetric] t_def [symmetric] by (simp_all add: cur_pos_def t)
    qed
    show ?thesis using Cons.IH [OF l3(2) c3 d(1), of "seen @ [y]"] l1(1) l2(1) l3(1) True unfolding d(2)
      by (subst visit.simps) (auto simp: list_next_def c)
  next
    case False
    have d: "drop (cur_pos (r, True)) (sq_items s2) = ys" "take (cur_pos (r, True)) (sq_items s2) = take ?q (sq_items s) @ fst (act y) @ [y]"
      using r by (auto simp: cur_pos_def take_Suc_conv_app_nth)
    show ?thesis using Cons.IH [OF l2(2) l2(3) [folded r_def] d(1), of "seen @ [y]"] l1(1) l2(1) False unfolding d(2)
      by (subst visit.simps) (auto simp: list_next_def c)
  qed
qed

text \<open>C18: A loop over an iterator visits each item of the list once and in order, although
  its body deletes the item and inserts others in front of it; these are not visited.
  Afterwards the list holds what the bodies left, whatever other iterators there are.\<close>

theorem iterator_loop_visits_once:
  assumes "list_run qsort opns (list_create f) = Some (l, rs)" "items_of l = Some xs"
  shows "\<exists>l'. visit act (fst (list_iterator_create l)) (snd (list_iterator_create l)) [] = Some (l', xs)
    \<and> items_of l' = Some (concat (map (\<lambda>x. fst (act x) @ (if snd (act x) then [] else [x])) xs))"
proof -
  obtain s ids where m: "models l ids s"
    using run_agrees [OF models_empty, of qsort opns f] assms(1) by (cases "seq_run qsort opns (sq_empty f)") auto
  then have xs: "sq_items s = xs" using items_of_spec assms(2) by fastforce
  let ?s = "s\<lparr>sq_cursors := (sq_itrs s, 0, False) # sq_cursors s, sq_itrs := sq_itrs s + 1\<rparr>"
  have i: "snd (list_iterator_create l) = sq_itrs s" using m by (simp add: models_def list_iterator_create_def)
  have c: "find_cur ?s (sq_itrs s) = Some (0, False)" by (simp add: find_cur_def)
  have d: "drop (cur_pos (0, False)) (sq_items ?s) = xs" using xs by (simp add: cur_pos_def)
  obtain l' ids' s' where "visit act (fst (list_iterator_create l)) (sq_itrs s) [] = Some (l', xs)" "models l' ids' s'"
    "sq_items s' = concat (map (\<lambda>x. fst (act x) @ (if snd (act x) then [] else [x])) xs)"
    using visit_spec [OF itr_create_models [OF m] c d, of act "[]"] by (auto simp: cur_pos_def)
  then show ?thesis using i items_of_spec by metis
qed

theorem iterator_loop_visits_once_witness:
  "\<exists>l l'. list_run (\<lambda>_ xs. xs) (map Append [1, 2, 3 :: nat]) (list_create True) = Some (l, [No_result, No_result, No_result])
    \<and> visit (\<lambda>x. ([10 * x], x = 2)) (fst (list_iterator_create l)) (snd (list_iterator_create l)) [] = Some (l', [1, 2, 3])
    \<and> items_of l' = Some [10, 1, 20, 30, 3]"
proof -
  let ?r = "list_run (\<lambda>_ xs. xs) (map Append [1, 2, 3 :: nat]) (list_create True)"
  have "(case ?r of None \<Rightarrow> False | Some (l, rs) \<Rightarrow> rs = [No_result, No_result, No_result] \<and> items_of l = Some [1, 2, 3])"
    by code_simp
  then obtain l where l: "?r = Some (l, [No_result, No_result, No_result])" "items_of l = Some [1, 2, 3]" by (auto split: option.splits)
  from iterator_loop_visits_once [OF l, of "\<lambda>x. ([10 * x], x = 2)"] l(1) show ?thesis by simp
qed

subsection \<open>Order\<close>

text \<open>Sorting orders the items of a list by the comparison, without losing one, whatever
  the sorting function of the library does with equal items; reversing links the
  nodes in the opposite order, and both put every iterator back to the start. New
  items still go to the end.\<close>

lemma sort_and_flip:
  assumes "list_run qsort opns (list_create f) = Some (l, rs)" "items_of l = Some xs"
    and "\<And>ys. mset (qsort g ys) = mset ys" "\<And>ys. sorted_wrt (\<lambda>x y. g x y \<le> 0) (qsort g ys)"
  shows "(\<exists>l1 ys. list_sort qsort l g = Some l1 \<and> items_of l1 = Some ys \<and> mset ys = mset xs \<and> sorted_wrt (\<lambda>x y. g x y \<le> 0) ys)
    \<and> (\<exists>l2 l3. list_flip l = Some l2 \<and> items_of l2 = Some (rev xs) \<and> list_append l2 y = Some l3 \<and> items_of l3 = Some (rev xs @ [y]))
    \<and> (\<forall>i \<in> set (xl_itrs l). 1 < length xs \<longrightarrow> (\<exists>l1. list_flip l = Some l1 \<and> list_peek_next l1 (itr_id i) = Some (Some (last xs))))"
proof (intro conjI)
  obtain s ids where m: "models l ids s"
    using run_agrees [OF models_empty, of qsort opns f] assms(1) by (cases "seq_run qsort opns (sq_empty f)") auto
  then have xs: "sq_items s = xs" using items_of_spec assms(2) by fastforce
  obtain l1 ids1 where l1: "list_sort qsort l g = Some l1" "models l1 ids1 (sq_reorder (qsort g xs) s)" using sort_models [OF m] xs by blast
  have "mset (sq_items (sq_reorder (qsort g xs) s)) = mset xs" using assms(3) xs by (simp add: sq_reorder_def)
  moreover have "sorted_wrt (\<lambda>x y. g x y \<le> 0) (sq_items (sq_reorder (qsort g xs) s))"
    using assms(4) xs by (cases xs rule: remdups_adj.cases) (simp_all add: sq_reorder_def)
  ultimately show "\<exists>l1 ys. list_sort qsort l g = Some l1 \<and> items_of l1 = Some ys \<and> mset ys = mset xs \<and> sorted_wrt (\<lambda>x y. g x y \<le> 0) ys"
    using l1(1) items_of_spec [OF l1(2)] by blast
  obtain l2 ids2 where l2: "list_flip l = Some l2" "models l2 ids2 (sq_reorder (rev xs) s)" using flip_models [OF m] xs by blast
  have r: "sq_items (sq_reorder (rev xs) s) = rev xs" using xs by (cases xs rule: remdups_adj.cases) (simp_all add: sq_reorder_def)
  obtain l3 ids3 where l3: "list_append l2 y = Some l3" "models l3 ids3 (sq_ins (length (rev xs)) y (sq_reorder (rev xs) s))"
    using append_models [OF l2(2), of y] r unfolding list_append_def by metis
  have "sq_items (sq_ins (length (rev xs)) y (sq_reorder (rev xs) s)) = rev xs @ [y]" by (simp add: sq_ins_def r)
  then show "\<exists>l2 l3. list_flip l = Some l2 \<and> items_of l2 = Some (rev xs) \<and> list_append l2 y = Some l3 \<and> items_of l3 = Some (rev xs @ [y])"
    using l2(1) items_of_spec [OF l2(2)] r l3(1) items_of_spec [OF l3(2)] by auto
  show "\<forall>i \<in> set (xl_itrs l). 1 < length xs \<longrightarrow> (\<exists>l1. list_flip l = Some l1 \<and> list_peek_next l1 (itr_id i) = Some (Some (last xs)))"
  proof (intro ballI impI)
    fix i assume i: "i \<in> set (xl_itrs l)" and n: "1 < length xs"
    then obtain c where c: "c \<in> set (sq_cursors s)" "itr_id i = fst c" using models_rep [OF m] by (auto simp: rep_def cursor_def)
    have "find_cur (sq_reorder (rev xs) s) (fst c) = Some (0, False)"
    proof -
      have "c \<in> set cs \<Longrightarrow> find (\<lambda>d. fst d = fst c) (map (\<lambda>(i, _). (i, 0 :: nat, False)) cs) = Some (fst c, 0, False)" for cs :: "(nat \<times> nat \<times> bool) list"
        by (induction cs) auto
      from this [OF c(1)] show ?thesis using n xs by (simp add: find_cur_def sq_reorder_def)
    qed
    moreover have "item_at (rev xs) 0 = Some (last xs)" using n by (cases xs rule: rev_cases) (auto simp: item_at_def)
    ultimately have "list_peek_next l2 (fst c) = Some (Some (last xs))"
      using itr_ops_agree(5) [OF l2(2), of qsort "fst c"] by (auto simp: agrees_def at_cursor_def cur_pos_def r)
    then show "\<exists>l1. list_flip l = Some l1 \<and> list_peek_next l1 (itr_id i) = Some (Some (last xs))" using l2(1) c(2) by auto
  qed
qed

text \<open>
  Removing an item through one iterator while another stands in front of it makes the
  other forget the item that it returned last: it then removes nothing.
\<close>

lemma removal_forgets_item:
  "map_option snd (list_run (\<lambda>_ xs. xs) [Append 1, Append 2, Append 3, Itr_create, Itr_create, Next 0, Next 1, Next 1, Remove 1, Remove 0] (list_create False))
    = Some [No_result, No_result, No_result, Number 0, Number 1, Item (Some 1), Item (Some (1 :: nat)), Item (Some 2), Item (Some 2), Item None]"
  by code_simp

subsection \<open>Two lists\<close>

lemma append_items: "sq_items (sq_ins (length (sq_items s)) x s) = sq_items s @ [x]"
  by (simp add: sq_ins_def)

lemma append_step:
  assumes "models l ids s"
  obtains l' ids' s' where "list_node_create l (xl_tail l) x = Some l'" "models l' ids' s'" "sq_items s' = sq_items s @ [x]"
  using append_models [OF assms, of x] append_items by metis

lemma append_list_loop_spec:
  assumes "models sub jds t" "drop p (sq_items t) = ys" "p \<le> length (sq_items t)" "models l ids s"
  shows "\<exists>l' ids' s'. append_list_loop l sub (node_at jds p) n = Some (l', n + int (length ys)) \<and> models l' ids' s' \<and> sq_items s' = sq_items s @ ys"
  using assms(2-4)
proof (induction ys arbitrary: p l ids s n)
  case Nil
  then have "p = length (sq_items t)" by simp
  then show ?case using rep_end [OF models_rep [OF assms(1)]] Nil.prems(3) by (subst append_list_loop.simps) auto
next
  case (Cons y ys)
  note p = drop_step [OF Cons.prems(1)]
  obtain l1 ids1 s1 where l1: "list_node_create l (xl_tail l) y = Some l1" "models l1 ids1 s1" "sq_items s1 = sq_items s @ [y]"
    by (rule append_step [OF Cons.prems(3)])
  obtain l2 ids2 s2 where l2: "append_list_loop l1 sub (node_at jds (Suc p)) (n + 1) = Some (l2, n + 1 + int (length ys))" "models l2 ids2 s2"
    "sq_items s2 = sq_items s1 @ ys"
    using Cons.IH [of "Suc p" l1 ids1 s1 "n + 1"] p l1(2) by auto
  obtain nd where "node_at jds p = Some (jds ! p)" "xl_nodes sub (jds ! p) = Some nd" "node_data nd = y" "node_next nd = node_at jds (Suc p)"
    using models_step(2) [OF assms(1), of p] p by auto
  then have "append_list_loop l sub (node_at jds p) n = Some (l2, n + int (length (y # ys)))"
    using l1(1) l2(1) by (subst append_list_loop.simps) simp
  moreover have "sq_items s2 = sq_items s @ y # ys" using l1(3) l2(3) by simp
  ultimately show ?case using l2(2) by blast
qed

lemma pop_step:
  assumes "models l ids s" "sq_items s = x # xs"
  obtains l' ids' s' where "list_pop_locked l = Some (l', Some x)" "models l' ids' s'" "sq_items s' = xs"
proof -
  have "0 < length (sq_items s)" using assms(2) by simp
  from destroy_models [OF assms(1) this] obtain l' where
    "list_pop_locked l = Some (l', Some x)" "models l' (take 0 ids @ drop (Suc 0) ids) (sq_del 0 s)"
    using assms(2) by (auto simp: list_pop_locked_def link_at_def)
  moreover have "sq_items (sq_del 0 s) = xs" using assms(2) by (simp add: sq_del_def)
  ultimately show ?thesis by (rule that)
qed

lemma pop_empty: "models l ids s \<Longrightarrow> sq_items s = [] \<Longrightarrow> list_pop_locked l = Some (l, None)"
  using destroy_none [OF models_rep] by (force simp: list_pop_locked_def link_at_def)

text \<open>The number of items that are moved: one more than the limit.\<close>

definition moved :: "int \<Rightarrow> int \<Rightarrow> 'a list \<Rightarrow> 'a list" where
  "moved limit n ys = (if limit = 0 then ys else take (nat (limit - n + 1)) ys)"

lemma transfer_max_loop_spec:
  assumes "models l ids s" "models sub jds t" "sq_items t = ys"
  shows "\<exists>l' ids' s' sub' jds' t'. transfer_max_loop l sub limit n = Some (l', sub', n + int (length (moved limit n ys)))
    \<and> models l' ids' s' \<and> models sub' jds' t' \<and> sq_items s' = sq_items s @ moved limit n ys
    \<and> sq_items t' = drop (length (moved limit n ys)) ys"
  using assms
proof (induction ys arbitrary: l ids s sub jds t n)
  case Nil
  then show ?case using pop_empty [OF Nil.prems(2,3)] by (subst transfer_max_loop.simps) (auto simp: moved_def)
next
  case (Cons y ys)
  show ?case
  proof (cases "limit = 0 \<or> n \<le> limit")
    case True
    obtain sub1 jds1 t1 where sub1: "list_pop_locked sub = Some (sub1, Some y)" "models sub1 jds1 t1" "sq_items t1 = ys"
      by (rule pop_step [OF Cons.prems(2,3)])
    obtain l1 ids1 s1 where l1: "list_node_create l (xl_tail l) y = Some l1" "models l1 ids1 s1" "sq_items s1 = sq_items s @ [y]"
      by (rule append_step [OF Cons.prems(1)])
    have m: "moved limit n (y # ys) = y # moved limit (n + 1) ys"
    proof (cases "limit = 0")
      case False
      then have "nat (limit - n + 1) = Suc (nat (limit - (n + 1) + 1))" using True by simp
      then show ?thesis using False by (simp add: moved_def)
    qed (simp add: moved_def)
    show ?thesis using Cons.IH [OF l1(2) sub1(2,3), of "n + 1"] l1(1,3) sub1(1) True
      by (subst transfer_max_loop.simps) (auto simp: m add.assoc)
  next
    case False
    then have "moved limit n (y # ys) = []" by (simp add: moved_def)
    then show ?thesis using Cons.prems False by (subst transfer_max_loop.simps) auto
  qed
qed

lemma transfer_match_loop_spec:
  fixes f :: "'a \<Rightarrow> 'k \<Rightarrow> int" and key :: 'k and l :: "'a xlist"
  assumes "models l ids s" "models sub jds t" "drop p (sq_items s) = ys" "p \<le> length (sq_items s)"
  defines "P \<equiv> \<lambda>x. f x key \<noteq> 0"
  shows "\<exists>l' ids' s' sub' jds' t'. transfer_match_loop l sub f key (link_at ids p) n = Some (l', sub', n + int (length (filter P ys)))
    \<and> models l' ids' s' \<and> models sub' jds' t' \<and> sq_items s' = take p (sq_items s) @ filter (\<lambda>x. \<not> P x) ys
    \<and> sq_items t' = sq_items t @ filter P ys"
  using assms(1-4)
proof (induction ys arbitrary: l ids s sub jds t p n)
  case Nil
  then have "p = length (sq_items s)" by simp
  then show ?case using models_step(1) [OF Nil.prems(1)] Nil.prems by (subst transfer_match_loop.simps) auto
next
  case (Cons y ys)
  note p = drop_step [OF Cons.prems(3)]
  then have lt: "p < length (sq_items s)" by simp
  obtain nd where nd: "load_link l (link_at ids p) = Some (Some (ids ! p))" "xl_nodes l (ids ! p) = Some nd" "node_data nd = y"
    "Next_of (ids ! p) = link_at ids (Suc p)"
    using models_step(2) [OF Cons.prems(1) lt] p by auto
  show ?case
  proof (cases "P y")
    case False
    have "take (Suc p) (sq_items s) = take p (sq_items s) @ [y]" using p by (simp add: take_Suc_conv_app_nth)
    then show ?thesis using False nd Cons.IH [OF Cons.prems(1,2), of "Suc p" n] p by (subst transfer_match_loop.simps) (simp add: P_def)
  next
    case True
    let ?ids = "take p ids @ drop (Suc p) ids"
    obtain l' where l': "list_node_destroy l (link_at ids p) = Some (l', Some y)" "models l' ?ids (sq_del p s)"
      using destroy_models [OF Cons.prems(1) lt] p by auto
    obtain sub1 jds1 t1 where sub1: "list_node_create sub (xl_tail sub) y = Some sub1" "models sub1 jds1 t1" "sq_items t1 = sq_items t @ [y]"
      by (rule append_step [OF Cons.prems(2)])
    have i: "drop p (sq_items (sq_del p s)) = ys" "p \<le> length (sq_items (sq_del p s))" "take p (sq_items (sq_del p s)) = take p (sq_items s)"
      using p by (auto simp: sq_del_def)
    have "link_at ?ids p = link_at ids p" using link_removed lt models_length [OF Cons.prems(1)] by simp
    then show ?thesis using True nd l'(1) sub1(1,3) Cons.IH [OF l'(2) sub1(2) i(1,2), of "n + 1"] i(3)
      by (subst transfer_match_loop.simps) (auto simp: add.assoc P_def)
  qed
qed

text \<open>The items that a transfer without duplicates appends, and those that stay.\<close>

fun unique_split :: "('a \<Rightarrow> 'a \<Rightarrow> int) \<Rightarrow> 'a list \<Rightarrow> 'a list \<Rightarrow> 'a list \<times> 'a list" where
  "unique_split f xs [] = (xs, [])"
| "unique_split f xs (v # vs) =
     (if \<forall>x \<in> set xs. f x v = 0 then unique_split f (xs @ [v]) vs
      else let (xs', vs') = unique_split f xs vs in (xs', v # vs'))"

lemma transfer_unique_loop_spec:
  assumes "models l ids s" "models sub jds t" "drop p (sq_items t) = ys" "p \<le> length (sq_items t)"
  shows "\<exists>l' ids' s' sub' jds' t' n'. transfer_unique_loop l f sub (link_at jds p) n = Some (l', sub', n')
    \<and> models l' ids' s' \<and> models sub' jds' t' \<and> sq_items s' = fst (unique_split f (sq_items s) ys)
    \<and> sq_items t' = take p (sq_items t) @ snd (unique_split f (sq_items s) ys)
    \<and> n' = n + int (length (sq_items s')) - int (length (sq_items s))"
  using assms
proof (induction ys arbitrary: l ids s sub jds t p n)
  case Nil
  then have "p = length (sq_items t)" by simp
  then show ?case using models_step(1) [OF Nil.prems(2)] Nil.prems by (subst transfer_unique_loop.simps) auto
next
  case (Cons y ys)
  note p = drop_step [OF Cons.prems(3)]
  then have lt: "p < length (sq_items t)" by simp
  obtain nd where nd: "load_link sub (link_at jds p) = Some (Some (jds ! p))" "xl_nodes sub (jds ! p) = Some nd" "node_data nd = y"
    "Next_of (jds ! p) = link_at jds (Suc p)"
    using models_step(2) [OF Cons.prems(2) lt] p by auto
  have found: "list_find_first_locked l f y = Some (find (\<lambda>x. f x y \<noteq> 0) (sq_items s))"
    using find_loop_spec [OF Cons.prems(1), of 0 "sq_items s" f y] models_head(1) [OF Cons.prems(1)] by (simp add: list_find_first_locked_def)
  have none: "find (\<lambda>x. f x y \<noteq> 0) (sq_items s) = None \<longleftrightarrow> (\<forall>x \<in> set (sq_items s). f x y = 0)" by (auto simp: find_None_iff)
  show ?case
  proof (cases "\<forall>x \<in> set (sq_items s). f x y = 0")
    case False
    have "take (Suc p) (sq_items t) = take p (sq_items t) @ [y]" using p by (simp add: take_Suc_conv_app_nth)
    then show ?thesis using False nd found none Cons.IH [OF Cons.prems(1,2), of "Suc p" n] p
      by (subst transfer_unique_loop.simps) (auto simp: case_prod_beta)
  next
    case True
    let ?jds = "take p jds @ drop (Suc p) jds"
    obtain sub1 where sub1: "list_node_destroy sub (link_at jds p) = Some (sub1, Some y)" "models sub1 ?jds (sq_del p t)"
      using destroy_models [OF Cons.prems(2) lt] p by auto
    obtain l1 ids1 s1 where l1: "list_node_create l (xl_tail l) y = Some l1" "models l1 ids1 s1" "sq_items s1 = sq_items s @ [y]"
      by (rule append_step [OF Cons.prems(1)])
    have i: "drop p (sq_items (sq_del p t)) = ys" "p \<le> length (sq_items (sq_del p t))" "take p (sq_items (sq_del p t)) = take p (sq_items t)"
      using p by (auto simp: sq_del_def)
    have "link_at ?jds p = link_at jds p" using link_removed lt models_length [OF Cons.prems(2)] by simp
    moreover obtain l2 ids2 s2 sub2 jds2 t2 n2 where r: "transfer_unique_loop l1 f sub1 (link_at ?jds p) (n + 1) = Some (l2, sub2, n2)"
      "models l2 ids2 s2" "models sub2 jds2 t2" "sq_items s2 = fst (unique_split f (sq_items s1) ys)"
      "sq_items t2 = take p (sq_items t) @ snd (unique_split f (sq_items s1) ys)" "n2 = n + 1 + int (length (sq_items s2)) - int (length (sq_items s1))"
      using Cons.IH [OF l1(2) sub1(2) i(1,2), of "n + 1"] unfolding i(3) by blast
    ultimately have "transfer_unique_loop l f sub (link_at jds p) n = Some (l2, sub2, n2)"
      using nd found none True l1(1) sub1(1) by (subst transfer_unique_loop.simps) simp
    moreover have "unique_split f (sq_items s) (y # ys) = unique_split f (sq_items s1) ys" using True l1(3) by simp
    moreover have "n2 = n + int (length (sq_items s2)) - int (length (sq_items s))" using r(6) l1(3) by simp
    ultimately show ?thesis using r(2-5) by metis
  qed
qed

text \<open>A valid list with the given items.\<close>

definition holds :: "'a xlist \<Rightarrow> 'a list \<Rightarrow> bool" where
  "holds l xs \<longleftrightarrow> (\<exists>ids s. models l ids s \<and> sq_items s = xs)"

lemma holds_items: "holds l xs \<Longrightarrow> items_of l = Some xs"
  using items_of_spec by (force simp: holds_def)

lemma holds_run: "list_run qsort opns (list_create f) = Some (l, rs) \<Longrightarrow> items_of l = Some xs \<Longrightarrow> holds l xs"
  using run_agrees [OF models_empty, of qsort opns f] items_of_spec
  by (cases "seq_run qsort opns (sq_empty f)") (fastforce simp: holds_def)+

text \<open>C39: Operations on two lists move items without losing, doubling or reordering any: the
  transfer of all items, of those that match, and of those that the target does not
  have yet, and the copy of all items. They return the number of items and leave
  both lists valid.\<close>

theorem transfers_move_items:
  assumes "holds l xs" "holds m ys"
  shows "(\<exists>l' m'. list_transfer l m = Some (l', m', int (length ys)) \<and> holds l' (xs @ ys) \<and> holds m' [])
    \<and> (\<exists>l' m'. list_transfer_match l m f key = Some (l', m', int (length (filter (\<lambda>x. f x key \<noteq> 0) xs)))
         \<and> holds l' (filter (\<lambda>x. f x key = 0) xs) \<and> holds m' (ys @ filter (\<lambda>x. f x key \<noteq> 0) xs))
    \<and> (\<exists>l' m' zs rest. list_transfer_unique l g m = Some (l', m', int (length zs) - int (length xs)) \<and> unique_split g xs ys = (zs, rest)
         \<and> holds l' zs \<and> holds m' rest)
    \<and> (\<exists>l'. list_append_list l m = Some (l', int (length ys)) \<and> holds l' (xs @ ys))
    \<and> (\<exists>l'. list_shallow_copy m = Some l' \<and> holds l' ys)"
proof (intro conjI)
  obtain ids s jds t where m: "models l ids s" "sq_items s = xs" "models m jds t" "sq_items t = ys" using assms by (auto simp: holds_def)
  show "\<exists>l' m'. list_transfer l m = Some (l', m', int (length ys)) \<and> holds l' (xs @ ys) \<and> holds m' []"
    using transfer_max_loop_spec [OF m(1,3,4), of 0 0] m(2) by (auto simp: list_transfer_def list_transfer_max_def moved_def holds_def)
  show "\<exists>l' m'. list_transfer_match l m f key = Some (l', m', int (length (filter (\<lambda>x. f x key \<noteq> 0) xs)))
         \<and> holds l' (filter (\<lambda>x. f x key = 0) xs) \<and> holds m' (ys @ filter (\<lambda>x. f x key \<noteq> 0) xs)"
    using transfer_match_loop_spec [OF m(1,3), of 0 xs f key 0] m(2,4) by (fastforce simp: list_transfer_match_def link_at_def holds_def)
  obtain zs rest where u: "unique_split g xs ys = (zs, rest)" by fastforce
  then show "\<exists>l' m' zs rest. list_transfer_unique l g m = Some (l', m', int (length zs) - int (length xs)) \<and> unique_split g xs ys = (zs, rest)
         \<and> holds l' zs \<and> holds m' rest"
    using transfer_unique_loop_spec [OF m(1,3), of 0 ys g 0] m(2,4) by (fastforce simp: list_transfer_unique_def link_at_def holds_def)
  show "\<exists>l'. list_append_list l m = Some (l', int (length ys)) \<and> holds l' (xs @ ys)"
    using append_list_loop_spec [OF m(3), of 0 ys l ids s 0] m models_head(1) [OF m(3)] by (fastforce simp: list_append_list_def holds_def)
  show "\<exists>l'. list_shallow_copy m = Some l' \<and> holds l' ys"
    using append_list_loop_spec [OF m(3), of 0 ys _ _ _ 0, OF _ _ models_empty [of False]] m models_head(1) [OF m(3)]
    by (fastforce simp: list_shallow_copy_def list_append_list_def holds_def sq_empty_def)
qed

definition sample_list :: "nat list \<Rightarrow> nat xlist" where
  "sample_list xs = fst (the (list_run (\<lambda>_ xs. xs) (map Append xs) (list_create True)))"

lemma holds_sample: "holds (sample_list [1, 2, 3, 4, 5]) [1, 2, 3, 4, 5]" "holds (sample_list [6]) [6]"
proof -
  have r: "list_run (\<lambda>_ xs. xs) (map Append [1, 2, 3, 4, 5]) (list_create True) = Some (sample_list [1, 2, 3, 4, 5], replicate 5 No_result)"
    "items_of (sample_list [1, 2, 3, 4, 5]) = Some [1, 2, 3, 4, 5]"
    "list_run (\<lambda>_ xs. xs) (map Append [6]) (list_create True) = Some (sample_list [6], [No_result])" "items_of (sample_list [6]) = Some [6]"
  proof -
    have h: "map_option snd r = Some rs \<Longrightarrow> r = Some (fst (the r), rs)" for r :: "(nat xlist \<times> nat op_result list) option" and rs by (cases r) auto
    show "list_run (\<lambda>_ xs. xs) (map Append [1, 2, 3, 4, 5]) (list_create True) = Some (sample_list [1, 2, 3, 4, 5], replicate 5 No_result)"
      unfolding sample_list_def by (rule h) code_simp
    show "list_run (\<lambda>_ xs. xs) (map Append [6]) (list_create True) = Some (sample_list [6], [No_result])"
      unfolding sample_list_def by (rule h) code_simp
    show "items_of (sample_list [1, 2, 3, 4, 5]) = Some [1, 2, 3, 4, 5]" "items_of (sample_list [6]) = Some [6]" by code_simp+
  qed
  show "holds (sample_list [1, 2, 3, 4, 5]) [1, 2, 3, 4, 5]" by (rule holds_run [OF r(1,2)])
  show "holds (sample_list [6]) [6]" by (rule holds_run [OF r(3,4)])
qed

theorem transfers_move_items_witness:
  "\<exists>l m. list_transfer_match (sample_list [1, 2, 3, 4, 5]) (sample_list [6]) (\<lambda>x k. if k \<le> x then 1 else 0) 3 = Some (l, m, 3)
    \<and> items_of l = Some [1, 2] \<and> items_of m = Some [6, 3, 4, 5]"
  using transfers_move_items [OF holds_sample, of "\<lambda>x k. if k \<le> x then 1 else 0" 3 "\<lambda>_ _. 1"] by (auto dest!: holds_items)

text \<open>A transfer with a limit moves one item more than the limit, and with the limit of
  minus one that is to mean all items it moves none; only the limit zero moves all.\<close>

lemma transfer_limit_exceeded:
  assumes "holds l xs" "holds m ys" "limit \<noteq> 0" "k = nat (limit + 1)"
  shows "\<exists>l' m'. list_transfer_max l m limit = Some (l', m', int (min k (length ys))) \<and> holds l' (xs @ take k ys) \<and> holds m' (drop k ys)"
proof -
  obtain ids s jds t where m: "models l ids s" "sq_items s = xs" "models m jds t" "sq_items t = ys" using assms by (auto simp: holds_def)
  have e: "moved limit 0 ys = take k ys" using assms(3,4) by (simp add: moved_def)
  have "length (take k ys) = min k (length ys)" "drop (length (take k ys)) ys = drop k ys" by (simp_all add: min.commute) (metis min_def drop_all order_refl linear)
  then show ?thesis using transfer_max_loop_spec [OF m(1,3,4), of limit 0] m(2) unfolding e by (fastforce simp: list_transfer_max_def holds_def)
qed

subsection \<open>Deleting one item\<close>

text \<open>The first item that the function does not pass over decides.\<close>

lemma delete_first_spec:
  assumes "models l ids s" "drop p (sq_items s) = ys" "p \<le> length (sq_items s)"
  shows "\<exists>l' ids' n. delete_first_loop l f key (link_at ids p) = Some (l', n)
    \<and> (case dropWhile (\<lambda>x. f x key = 0) ys of
         [] \<Rightarrow> n = 0 \<and> models l' ids' s
       | x # _ \<Rightarrow> if f x key < 0 then n = - 1 \<and> models l' ids' s
                 else n = 1 \<and> models l' ids' (sq_drop (p + first_match (\<lambda>x. f x key \<noteq> 0) ys) s))"
  using assms(2,3)
proof (induction ys arbitrary: p)
  case Nil
  then have "p = length (sq_items s)" by simp
  then show ?case using models_step(1) [OF assms(1)] assms(1) by (subst delete_first_loop.simps) auto
next
  case (Cons y ys)
  note p = drop_step [OF Cons.prems(1)]
  have step: "\<exists>nd. load_link l (link_at ids p) = Some (Some (ids ! p)) \<and> xl_nodes l (ids ! p) = Some nd \<and> node_data nd = y
      \<and> Next_of (ids ! p) = link_at ids (Suc p)"
    using models_step(2) [OF assms(1), of p] p by auto
  consider "f y key = 0" | "f y key < 0" | "0 < f y key" by linarith
  then show ?case
  proof cases
    case 1
    have q: "p + first_match (\<lambda>x. f x key \<noteq> 0) (y # ys) = Suc p + first_match (\<lambda>x. f x key \<noteq> 0) ys"
      "dropWhile (\<lambda>x. f x key = 0) (y # ys) = dropWhile (\<lambda>x. f x key = 0) ys" using 1 by simp_all
    have "delete_first_loop l f key (link_at ids p) = delete_first_loop l f key (link_at ids (Suc p))"
      using step 1 by (subst delete_first_loop.simps) auto
    then show ?thesis using Cons.IH [of "Suc p"] p unfolding q by simp
  next
    case 2
    then show ?thesis using step assms(1) by (subst delete_first_loop.simps) auto
  next
    case 3
    then show ?thesis using step drop_models [OF assms(1), of p] p by (subst delete_first_loop.simps) auto
  qed
qed

lemma delete_ptr_spec:
  assumes "models l ids s" "drop p (sq_items s) = ys" "p \<le> length (sq_items s)"
  shows "\<exists>l' ids'. delete_ptr_loop l key (link_at ids p) = Some (l', if key \<in> set ys then 1 else 0)
    \<and> models l' ids' (if key \<in> set ys then sq_drop (p + first_match (\<lambda>x. x = key) ys) s else s)"
  using assms(2,3)
proof (induction ys arbitrary: p)
  case Nil
  then have "p = length (sq_items s)" by simp
  then show ?case using models_step(1) [OF assms(1)] assms(1) by (subst delete_ptr_loop.simps) auto
next
  case (Cons y ys)
  note p = drop_step [OF Cons.prems(1)]
  have step: "\<exists>nd. load_link l (link_at ids p) = Some (Some (ids ! p)) \<and> xl_nodes l (ids ! p) = Some nd \<and> node_data nd = y
      \<and> Next_of (ids ! p) = link_at ids (Suc p)"
    using models_step(2) [OF assms(1), of p] p by auto
  show ?case
  proof (cases "y = key")
    case True
    then show ?thesis using step drop_models [OF assms(1), of p] p by (subst delete_ptr_loop.simps) auto
  next
    case False
    then show ?thesis using step Cons.IH [of "Suc p"] p by (subst delete_ptr_loop.simps) auto
  qed
qed

text \<open>
  A search on a list is the search that the licenses use on the sequence of its items.
\<close>

lemma find_first_items: "holds l xs \<Longrightarrow> list_find_first_locked l f key = Some (find (\<lambda>x. f x key \<noteq> 0) xs)"
  using find_loop_spec [of l _ _ 0 xs f key] models_head(1) [of l] by (fastforce simp: holds_def list_find_first_locked_def)

lemma holds_ops:
  assumes "holds l xs"
  shows "list_is_empty l \<longleftrightarrow> xs = []" "list_count (Some l) = int (length xs)"
    "\<exists>l' n. list_delete_ptr l key = Some (l', n) \<and> holds l' (remove1 key xs) \<and> n = (if key \<in> set xs then 1 else 0)"
proof -
  obtain ids s where m: "models l ids s" "sq_items s = xs" using assms by (auto simp: holds_def)
  show "list_is_empty l \<longleftrightarrow> xs = []" "list_count (Some l) = int (length xs)"
    using models_head(3) [OF m(1)] m(2) by (auto simp: list_is_empty_def list_count_def)
  have e: "key \<in> set ys \<Longrightarrow> take (first_match (\<lambda>x. x = key) ys) ys @ drop (Suc (first_match (\<lambda>x. x = key) ys)) ys = remove1 key ys" for ys
    by (induction ys) auto
  obtain l' ids' where "delete_ptr_loop l key (link_at ids 0) = Some (l', if key \<in> set xs then 1 else 0)"
    "models l' ids' (if key \<in> set xs then sq_drop (first_match (\<lambda>x. x = key) xs) s else s)"
    using delete_ptr_spec [OF m(1), of 0 xs key, unfolded add_0] m(2) by (auto simp del: add_0)
  moreover have "sq_items (if key \<in> set xs then sq_drop (first_match (\<lambda>x. x = key) xs) s else s) = remove1 key xs"
    using e [of xs] m(2) by (auto simp: sq_drop_def sq_del_def remove1_idem)
  ultimately show "\<exists>l' n. list_delete_ptr l key = Some (l', n) \<and> holds l' (remove1 key xs) \<and> n = (if key \<in> set xs then 1 else 0)"
    unfolding list_delete_ptr_def holds_def by (auto simp: link_at_def)
qed

end
