(* ===== verification/Rate_Limit.thy ===== *)
theory Rate_Limit
  imports C_Strings "HOL-Library.Monad_Syntax" "HOL-Library.Signed_Division"
begin

text \<open>
  The rate limit of requests to the controller (\<^verbatim>\<open>src/slurmctld/rate_limit.c\<close>): a table
  of users, hashed by number with linear probing, and for each user a bucket of tokens
  that is refilled as time passes. \<open>None\<close> is a division by zero, an access outside the
  table, or a search that does not end.

  Times are integers, the time of each request is an argument. The product of the time
  passed and the refill rate is an integer; the source has 64 bits for it.
\<close>

subsection \<open>Configuration\<close>

definition c_lower :: "char \<Rightarrow> char" where
  "c_lower c = (let n = (of_char c :: nat) in if 65 \<le> n \<and> n \<le> 90 then char_of (n + 32) else c)"

fun xstrcasestr :: "string \<Rightarrow> string \<Rightarrow> string option" where
  "xstrcasestr [] needle = None"
| "xstrcasestr (c # cs) needle =
     (if map c_lower (take (length needle) (c # cs)) = map c_lower needle then Some (c # cs) else xstrcasestr cs needle)"

record rl_conf =
  table_size :: int
  bucket_size :: int
  refill_rate :: int
  refill_period :: int

record user_bucket =
  last_update :: int
  tokens :: u32
  b_uid :: u32

record rl_state =
  rl_enabled :: bool
  rl_conf :: rl_conf
  user_buckets :: "user_bucket list"

definition rl_default :: rl_state where
  "rl_default = \<lparr>rl_enabled = False, rl_conf = \<lparr>table_size = 8192, bucket_size = 30, refill_rate = 2, refill_period = 1\<rparr>, user_buckets = []\<rparr>"

text \<open>A parameter that is given replaces its default; the text behind its name is read as a number.\<close>

definition rl_option :: "string \<Rightarrow> string \<Rightarrow> int \<Rightarrow> int" where
  "rl_option params name dflt = (case xstrcasestr params name of None \<Rightarrow> dflt | Some s \<Rightarrow> atoi (drop (length name) s))"

definition rate_limit_init :: "string option \<Rightarrow> rl_state \<Rightarrow> rl_state option" where
  "rate_limit_init params st =
     (case Option.bind params (\<lambda>p. xstrcasestr p ''rl_enable'') of
        None \<Rightarrow> Some st
      | Some _ \<Rightarrow>
          let p = the params; c = rl_conf st;
              c = \<lparr>table_size = rl_option p ''rl_table_size='' (table_size c), bucket_size = rl_option p ''rl_bucket_size='' (bucket_size c),
                   refill_rate = rl_option p ''rl_refill_rate='' (refill_rate c), refill_period = rl_option p ''rl_refill_period='' (refill_period c)\<rparr>
          in if table_size c < 0 then None
             else Some (st\<lparr>rl_enabled := True, rl_conf := c,
                           user_buckets := replicate (nat (table_size c)) \<lparr>last_update = 0, tokens = 0, b_uid = 0\<rparr>\<rparr>))"

definition rate_limit_shutdown :: "rl_state \<Rightarrow> rl_state" where
  "rate_limit_shutdown st = st\<lparr>user_buckets := []\<rparr>"

subsection \<open>Requests\<close>

definition validate_slurm_user :: "u32 \<Rightarrow> u32 \<Rightarrow> bool" where
  "validate_slurm_user slurm_user_id uid \<longleftrightarrow> uid = 0 \<or> uid = slurm_user_id"

text \<open>The position of a user or of a free place; the size of the table when there is none.\<close>

partial_function (option) scan_table :: "user_bucket list \<Rightarrow> nat \<Rightarrow> u32 \<Rightarrow> nat \<Rightarrow> nat \<Rightarrow> nat option" where
  [code]: "scan_table bs sz uid start pos =
     (if length bs \<le> pos then None
      else if b_uid (bs ! pos) \<noteq> 0 \<and> b_uid (bs ! pos) \<noteq> uid
      then let pos = pos + 1; pos = (if pos = sz then 0 else pos)
           in if pos = start then Some sz else scan_table bs sz uid start pos
      else Some pos)"

definition new_bucket :: "rl_conf \<Rightarrow> u32 \<Rightarrow> int \<Rightarrow> user_bucket" where
  "new_bucket c uid now =
     \<lparr>last_update = (now sdiv refill_period c) sdiv refill_period c, tokens = word_of_int (bucket_size c - 1), b_uid = uid\<rparr>"

text \<open>The refill and the use of a token; the result says that there was none.\<close>

definition use_bucket :: "rl_conf \<Rightarrow> user_bucket \<Rightarrow> int \<Rightarrow> user_bucket \<times> bool" where
  "use_bucket c b now =
     (let now = now sdiv refill_period c; delta = now - last_update b; b = b\<lparr>last_update := now\<rparr>;
          b = (if delta \<noteq> 0
               then b\<lparr>tokens := min (word_of_int (uint (tokens b) + delta * refill_rate c)) (word_of_int (bucket_size c))\<rparr> else b)
      in if tokens b \<noteq> 0 then (b\<lparr>tokens := tokens b - 1\<rparr>, False) else (b, True))"

definition rate_limit_exceeded :: "u32 \<Rightarrow> rl_state \<Rightarrow> u32 \<Rightarrow> int \<Rightarrow> (rl_state \<times> bool) option" where
  "rate_limit_exceeded slurm_user_id st uid now =
     (if \<not> rl_enabled st then Some (st, False)
      else if validate_slurm_user slurm_user_id uid then Some (st, False)
      else let bs = user_buckets st; c = rl_conf st; sz = nat (table_size c)
           in if sz = 0 then None
              else do {
                let start = unat uid mod sz;
                pos \<leftarrow> scan_table bs sz uid start start;
                if pos = sz then Some (st, False)
                else if refill_period c = 0 then None
                else if b_uid (bs ! pos) = 0 then Some (st\<lparr>user_buckets := bs[pos := new_bucket c uid now]\<rparr>, False)
                else let (b, exceeded) = use_bucket c (bs ! pos) now
                     in Some (st\<lparr>user_buckets := bs[pos := b]\<rparr>, exceeded)
              })"

end
