(* ===== verification/Rate_Limit_Props.thy ===== *)
theory Rate_Limit_Props
  imports Rate_Limit
begin

text \<open>
  What the rate limit promises: the table is a map from users to buckets, so that users
  do not disturb each other, and a user gets at most a bucket full of requests and
  what is refilled since its first, one more when the refill period is not one second,
  and another bucket full each time the clock steps back.
\<close>

subsection \<open>The table\<close>

definition home :: "nat \<Rightarrow> u32 \<Rightarrow> nat" where
  "home n u = unat u mod n"

definition stops :: "user_bucket list \<Rightarrow> u32 \<Rightarrow> nat \<Rightarrow> bool" where
  "stops bs u p \<longleftrightarrow> b_uid (bs ! p) = 0 \<or> b_uid (bs ! p) = u"

definition wf_table :: "user_bucket list \<Rightarrow> bool" where
  "wf_table bs \<longleftrightarrow>
     (\<forall>p < length bs. \<forall>q < length bs. b_uid (bs ! p) \<noteq> 0 \<longrightarrow> b_uid (bs ! p) = b_uid (bs ! q) \<longrightarrow> p = q)
     \<and> (\<forall>p < length bs. b_uid (bs ! p) \<noteq> 0 \<longrightarrow>
          (\<exists>j < length bs. p = (home (length bs) (b_uid (bs ! p)) + j) mod length bs
             \<and> (\<forall>i < j. b_uid (bs ! ((home (length bs) (b_uid (bs ! p)) + i) mod length bs)) \<noteq> 0)))"

definition bucket_of :: "user_bucket list \<Rightarrow> u32 \<Rightarrow> user_bucket option" where
  "bucket_of bs u = find (\<lambda>b. b_uid b = u) bs"

lemma probe_step: "a < n \<Longrightarrow> (let p = a + 1 in if p = n then 0 else p) = (a + 1) mod n" for n :: nat
  by (simp add: Let_def)

lemma probe_distinct: "(s + i) mod n = (s + j) mod n \<Longrightarrow> i < n \<Longrightarrow> j < n \<Longrightarrow> i = j" for n :: nat
proof (induction i j rule: linorder_wlog)
  case (le i j)
  then have "n dvd (s + j) - (s + i)" by (metis mod_eq_dvd_iff_nat add_le_cancel_left)
  then have "n dvd j - i" by simp
  then show ?case using le by (cases "i = j") (auto dest: dvd_imp_le)
qed auto

lemma scan_table_spec:
  assumes "start < length bs" "j < length bs" "\<forall>i < j. \<not> stops bs u ((start + i) mod length bs)"
  shows "scan_table bs (length bs) u start ((start + j) mod length bs) =
    Some (case find (\<lambda>i. stops bs u ((start + i) mod length bs)) [j..<length bs] of None \<Rightarrow> length bs | Some i \<Rightarrow> (start + i) mod length bs)"
  using assms(2,3)
proof (induction "length bs - j" arbitrary: j)
  case (Suc d)
  let ?n = "length bs"
  have lt: "(start + j) mod ?n < ?n" using assms(1) by (intro mod_less_divisor) linarith
  have u: "[j..<?n] = j # [Suc j..<?n]" using Suc.prems(1) by (simp add: upt_conv_Cons)
  show ?case
  proof (cases "stops bs u ((start + j) mod ?n)")
    case True
    then show ?thesis using lt by (subst scan_table.simps) (auto simp: stops_def u)
  next
    case False
    have s: "(let p = (start + j) mod ?n + 1 in if p = ?n then 0 else p) = (start + Suc j) mod ?n"
      using probe_step [OF lt] by (metis add_Suc_right mod_Suc_eq Suc_eq_plus1)
    have e: "scan_table bs ?n u start ((start + j) mod ?n) =
        (if (start + Suc j) mod ?n = start then Some ?n else scan_table bs ?n u start ((start + Suc j) mod ?n))"
      using lt False s by (subst scan_table.simps) (simp add: stops_def Let_def)
    have no: "\<forall>i < Suc j. \<not> stops bs u ((start + i) mod ?n)" using Suc.prems(2) False less_Suc_eq by auto
    show ?thesis
    proof (cases "Suc j < ?n")
      case True
      have "(start + Suc j) mod ?n \<noteq> start" using probe_distinct [of start "Suc j" ?n 0] True assms(1) by fastforce
      then show ?thesis using e Suc.hyps(1) [OF _ True no] Suc.hyps(2) False by (simp add: u)
    next
      case nl: False
      then have "Suc j = ?n" using Suc.prems(1) by simp
      then have "(start + Suc j) mod ?n = start" using assms(1) by simp
      then show ?thesis using e False nl by (simp add: u)
    qed
  qed
qed simp

lemma scan_found:
  assumes "wf_table bs" "u \<noteq> 0" "p < length bs" "b_uid (bs ! p) = u"
  shows "scan_table bs (length bs) u (home (length bs) u) (home (length bs) u) = Some p"
proof -
  let ?n = "length bs"
  obtain j where j: "j < ?n" "p = (home ?n u + j) mod ?n" "\<forall>i < j. b_uid (bs ! ((home ?n u + i) mod ?n)) \<noteq> 0"
    using assms by (auto simp: wf_table_def)
  have "\<not> stops bs u ((home ?n u + i) mod ?n)" if "i < j" for i
  proof -
    have "(home ?n u + i) mod ?n \<noteq> p" using probe_distinct [of "home ?n u" i ?n j] that j by auto
    moreover have "(home ?n u + i) mod ?n < ?n" using j(1) by (intro mod_less_divisor) linarith
    ultimately have "b_uid (bs ! ((home ?n u + i) mod ?n)) \<noteq> u" using assms unfolding wf_table_def by metis
    then show ?thesis using j(3) that by (simp add: stops_def)
  qed
  then have "find (\<lambda>i. stops bs u ((home ?n u + i) mod ?n)) [0..<?n] = Some j"
    using j(1,2) assms(4) by (auto simp: find_Some_iff stops_def intro!: exI [of _ j])
  moreover have "0 < ?n" using j(1) by linarith
  moreover from this have "home ?n u < ?n" by (simp add: home_def)
  ultimately show ?thesis using scan_table_spec [of "home ?n u" bs 0 u] j by simp
qed

lemma scan_absent:
  assumes "u \<noteq> 0" "0 < length bs" "\<forall>p < length bs. b_uid (bs ! p) \<noteq> u"
  obtains (full) "scan_table bs (length bs) u (home (length bs) u) (home (length bs) u) = Some (length bs)" "\<forall>p < length bs. b_uid (bs ! p) \<noteq> 0"
  | (free) j where "scan_table bs (length bs) u (home (length bs) u) (home (length bs) u) = Some ((home (length bs) u + j) mod length bs)"
      "j < length bs" "b_uid (bs ! ((home (length bs) u + j) mod length bs)) = 0"
      "\<forall>i < j. b_uid (bs ! ((home (length bs) u + i) mod length bs)) \<noteq> 0"
proof -
  let ?n = "length bs" and ?h = "home (length bs) u"
  have h: "?h < ?n" using assms(2) by (simp add: home_def)
  have lt: "(?h + i) mod ?n < ?n" for i using assms(2) by (intro mod_less_divisor)
  have st: "stops bs u ((?h + i) mod ?n) \<longleftrightarrow> b_uid (bs ! ((?h + i) mod ?n)) = 0" for i using assms(3) lt by (auto simp: stops_def)
  note sc = scan_table_spec [OF h assms(2), of u]
  show ?thesis
  proof (cases "find (\<lambda>i. stops bs u ((?h + i) mod ?n)) [0..<?n]")
    case None
    have "b_uid (bs ! p) \<noteq> 0" if "p < ?n" for p
    proof -
      have "(?h + (p + ?n - ?h)) mod ?n = p" using that h by simp
      then have "\<exists>i < ?n. (?h + i) mod ?n = p"
        using assms(2) by (intro exI [of _ "(p + ?n - ?h) mod ?n"]) (simp add: mod_add_right_eq)
      then obtain i where "i < ?n" "(?h + i) mod ?n = p" by blast
      then show ?thesis using None st by (force simp: find_None_iff)
    qed
    then show ?thesis using full sc None h by simp
  next
    case (Some j)
    then have "j < ?n" "stops bs u ((?h + j) mod ?n)" "\<forall>i < j. \<not> stops bs u ((?h + i) mod ?n)" by (auto simp: find_Some_iff)
    then show ?thesis using free [of j] sc Some st h by simp
  qed
qed

definition users :: "user_bucket list \<Rightarrow> u32 set" where
  "users bs = b_uid ` set bs - {0}"

lemma bucket_of_None: "bucket_of bs u = None \<longleftrightarrow> (\<forall>p < length bs. b_uid (bs ! p) \<noteq> u)"
  by (auto simp: bucket_of_def find_None_iff in_set_conv_nth)

lemma wf_unique:
  "wf_table bs \<Longrightarrow> p < length bs \<Longrightarrow> q < length bs \<Longrightarrow> b_uid (bs ! p) \<noteq> 0 \<Longrightarrow> b_uid (bs ! p) = b_uid (bs ! q) \<Longrightarrow> p = q"
  by (simp add: wf_table_def)

lemma bucket_of_at:
  assumes "wf_table bs" "u \<noteq> 0" "p < length bs" "b_uid (bs ! p) = u"
  shows "bucket_of bs u = Some (bs ! p)"
proof -
  have "q = p" if "q < length bs" "b_uid (bs ! q) = u" for q
    using wf_unique [OF assms(1) that(1) assms(3)] that(2) assms(2,4) by simp
  moreover obtain b where b: "bucket_of bs u = Some b" using assms(3,4) bucket_of_None [of bs u] by (cases "bucket_of bs u") auto
  moreover obtain q where "q < length bs" "b = bs ! q" "b_uid b = u" using b by (auto simp: bucket_of_def find_Some_iff)
  ultimately show ?thesis by simp
qed

lemma bucket_of_other:
  assumes "b_uid (bs ! p) \<noteq> v" "b_uid b \<noteq> v" "p < length bs"
  shows "bucket_of (bs[p := b]) v = bucket_of bs v"
  using assms
proof (induction bs arbitrary: p)
  case (Cons c bs)
  then show ?case by (cases p) (auto simp: bucket_of_def)
qed simp

lemma wf_put_same:
  assumes "wf_table bs" "p < length bs" "b_uid b = b_uid (bs ! p)"
  shows "wf_table (bs[p := b])"
proof -
  have u: "b_uid (bs[p := b] ! q) = b_uid (bs ! q)" if "q < length bs" for q using assms(2,3) that by (cases "q = p") auto
  have lt: "(h + i) mod length bs < length bs" for h i using assms(2) by (intro mod_less_divisor) linarith
  show ?thesis using assms(1) unfolding wf_table_def by (simp add: u lt)
qed

lemma wf_put_new:
  assumes "wf_table bs" "u \<noteq> 0" "\<forall>p < length bs. b_uid (bs ! p) \<noteq> u" "b_uid b = u" "j < length bs"
    "p = (home (length bs) u + j) mod length bs" "b_uid (bs ! p) = 0"
    "\<forall>i < j. b_uid (bs ! ((home (length bs) u + i) mod length bs)) \<noteq> 0"
  shows "wf_table (bs[p := b])"
proof -
  let ?n = "length bs"
  have lt: "(h + i) mod ?n < ?n" for h i using assms(5) by (intro mod_less_divisor) linarith
  have p: "p < ?n" using lt assms(6) by simp
  have uid: "b_uid (bs[p := b] ! q) = (if q = p then u else b_uid (bs ! q))" if "q < ?n" for q using assms(4) that by simp
  have keep: "b_uid (bs ! q) \<noteq> 0 \<Longrightarrow> b_uid (bs[p := b] ! q) \<noteq> 0" if "q < ?n" for q using uid [OF that] assms(2) by simp
  have "\<exists>j < ?n. q = (home ?n (b_uid (bs[p := b] ! q)) + j) mod ?n \<and> (\<forall>i < j. b_uid (bs[p := b] ! ((home ?n (b_uid (bs[p := b] ! q)) + i) mod ?n)) \<noteq> 0)"
    if q: "q < ?n" "b_uid (bs[p := b] ! q) \<noteq> 0" for q
  proof (cases "q = p")
    case True
    then show ?thesis using assms(5,6,8) uid [OF p] keep [OF lt] by auto
  next
    case False
    then have "b_uid (bs[p := b] ! q) = b_uid (bs ! q)" "b_uid (bs ! q) \<noteq> 0" using uid [OF q(1)] q(2) by simp_all
    moreover obtain j where "j < ?n" "q = (home ?n (b_uid (bs ! q)) + j) mod ?n" "\<forall>i < j. b_uid (bs ! ((home ?n (b_uid (bs ! q)) + i) mod ?n)) \<noteq> 0"
      using assms(1) q(1) calculation(2) unfolding wf_table_def by blast
    ultimately show ?thesis using keep [OF lt] by (intro exI [of _ j]) simp
  qed
  moreover have "q = r" if "q < ?n" "r < ?n" "b_uid (bs[p := b] ! q) \<noteq> 0" "b_uid (bs[p := b] ! q) = b_uid (bs[p := b] ! r)" for q r
  proof -
    have "(if q = p then u else b_uid (bs ! q)) = (if r = p then u else b_uid (bs ! r))" using that(4) uid [OF that(1)] uid [OF that(2)] by simp
    moreover have "q \<noteq> p \<Longrightarrow> b_uid (bs ! q) \<noteq> 0" using that(3) uid [OF that(1)] by simp
    ultimately show ?thesis using assms(3) that(1,2) wf_unique [OF assms(1) that(1,2)] by (auto split: if_splits)
  qed
  ultimately show ?thesis unfolding wf_table_def length_list_update by blast
qed

lemma full_users:
  assumes "wf_table bs" "\<forall>p < length bs. b_uid (bs ! p) \<noteq> 0"
  shows "card (users bs) = length bs"
proof -
  have "inj_on (\<lambda>p. b_uid (bs ! p)) {..<length bs}" using assms by (auto simp: inj_on_def wf_table_def)
  then have "card ((\<lambda>p. b_uid (bs ! p)) ` {..<length bs}) = length bs" by (simp add: card_image)
  moreover have "(\<lambda>p. b_uid (bs ! p)) ` {..<length bs} = users bs"
    using assms(2) by (force simp: users_def set_conv_nth)
  ultimately show ?thesis by simp
qed

lemma users_update: "p < length bs \<Longrightarrow> users (bs[p := b]) \<subseteq> insert (b_uid b) (users bs)"
  using set_update_subset_insert [of bs p b] by (auto simp: users_def)

lemma use_bucket_uid: "b_uid (fst (use_bucket c b now)) = b_uid b" "b_uid (new_bucket c u now) = u"
  by (simp_all add: use_bucket_def new_bucket_def Let_def)

text \<open>One request, on the map from users to buckets.\<close>

lemma request_spec:
  assumes "wf_table (user_buckets st)" "rl_enabled st" "\<not> validate_slurm_user su u" "nat (table_size (rl_conf st)) = length (user_buckets st)"
    "0 < length (user_buckets st)" "refill_period (rl_conf st) \<noteq> 0"
  shows "\<exists>bs e. rate_limit_exceeded su st u now = Some (st\<lparr>user_buckets := bs\<rparr>, e) \<and> wf_table bs \<and> length bs = length (user_buckets st)
    \<and> (case bucket_of (user_buckets st) u of
         Some b \<Rightarrow> (bucket_of bs u, e) = map_prod Some id (use_bucket (rl_conf st) b now)
       | None \<Rightarrow> \<not> e \<and> (card (users (user_buckets st)) = length bs \<and> bs = user_buckets st \<or> bucket_of bs u = Some (new_bucket (rl_conf st) u now)))
    \<and> (\<forall>v. v \<noteq> 0 \<longrightarrow> v \<noteq> u \<longrightarrow> bucket_of bs v = bucket_of (user_buckets st) v) \<and> users bs \<subseteq> insert u (users (user_buckets st))"
proof -
  define bs where "bs = user_buckets st"
  define n where "n = length bs"
  have u0: "u \<noteq> 0" using assms(3) by (simp add: validate_slurm_user_def)
  have wf: "wf_table bs" and n0: "0 < n" using assms(1,5) by (simp_all add: bs_def n_def)
  have e: "rate_limit_exceeded su st u now =
     Option.bind (scan_table bs n u (home n u) (home n u)) (\<lambda>pos.
        if pos = n then Some (st, False)
        else if b_uid (bs ! pos) = 0 then Some (st\<lparr>user_buckets := bs[pos := new_bucket (rl_conf st) u now]\<rparr>, False)
        else let (b, exceeded) = use_bucket (rl_conf st) (bs ! pos) now in Some (st\<lparr>user_buckets := bs[pos := b]\<rparr>, exceeded))"
  proof -
    have sz: "nat (table_size (rl_conf st)) = n" "n \<noteq> 0" using assms(4,5) by (simp_all add: n_def bs_def)
    show ?thesis unfolding rate_limit_exceeded_def Let_def bs_def [symmetric] sz(1) using assms(2,3,6) sz(2) by (simp add: home_def cong: if_cong)
  qed
  show ?thesis
  proof (cases "bucket_of bs u")
    case (Some b)
    then obtain p where p: "p < n" "b_uid (bs ! p) = u" "b = bs ! p" by (auto simp: bucket_of_def find_Some_iff n_def)
    obtain b' x where ub: "use_bucket (rl_conf st) b now = (b', x)" by fastforce
    then have bu: "b_uid b' = u" using use_bucket_uid(1) [of "rl_conf st" b now] p by simp
    have ex: "rate_limit_exceeded su st u now = Some (st\<lparr>user_buckets := bs[p := b']\<rparr>, x)"
      using e scan_found [OF wf u0, of p] p u0 ub by (simp add: n_def)
    have w: "wf_table (bs[p := b'])" using wf_put_same [OF wf, of p b'] p bu by (simp add: n_def)
    have "bucket_of (bs[p := b']) u = Some b'" using bucket_of_at [OF w u0, of p] p bu by (simp add: n_def)
    moreover have "v \<noteq> u \<Longrightarrow> bucket_of (bs[p := b']) v = bucket_of bs v" for v using bucket_of_other [of bs p v b'] p bu by (simp add: n_def)
    moreover have "users (bs[p := b']) \<subseteq> insert u (users bs)" using users_update [of p bs b'] p bu by (simp add: n_def)
    ultimately show ?thesis unfolding ex using w Some ub by (intro exI [of _ "bs[p := b']"] exI [of _ x]) (simp add: bs_def)
  next
    case None
    then have no: "\<forall>p < length bs. b_uid (bs ! p) \<noteq> u" by (simp add: bucket_of_None)
    have ln: "0 < length bs" using n0 by (simp add: n_def)
    show ?thesis
    proof (rule scan_absent [OF u0 ln no])
      assume s: "scan_table bs (length bs) u (home (length bs) u) (home (length bs) u) = Some (length bs)" "\<forall>p < length bs. b_uid (bs ! p) \<noteq> 0"
      have ex: "rate_limit_exceeded su st u now = Some (st\<lparr>user_buckets := bs\<rparr>, False)" using e s(1) by (simp add: n_def bs_def)
      show ?thesis unfolding ex using wf None full_users [OF wf s(2)] by (intro exI [of _ bs] exI [of _ False]) (auto simp: bs_def)
    next
      fix j assume s: "scan_table bs (length bs) u (home (length bs) u) (home (length bs) u) = Some ((home (length bs) u + j) mod length bs)"
        "j < length bs" "b_uid (bs ! ((home (length bs) u + j) mod length bs)) = 0" "\<forall>i < j. b_uid (bs ! ((home (length bs) u + i) mod length bs)) \<noteq> 0"
      define p where "p = (home (length bs) u + j) mod length bs"
      define b where "b = new_bucket (rl_conf st) u now"
      have p: "p < length bs" using ln by (simp add: p_def)
      have bu: "b_uid b = u" by (simp add: b_def use_bucket_uid)
      have ex: "rate_limit_exceeded su st u now = Some (st\<lparr>user_buckets := bs[p := b]\<rparr>, False)" using e s(1,3) p by (simp add: n_def p_def b_def)
      have w: "wf_table (bs[p := b])" using wf_put_new [OF wf u0 no bu s(2) p_def] s(3,4) by (simp add: p_def)
      have "bucket_of (bs[p := b]) u = Some b" using bucket_of_at [OF w u0, of p] p bu by simp
      moreover have "v \<noteq> u \<Longrightarrow> v \<noteq> 0 \<Longrightarrow> bucket_of (bs[p := b]) v = bucket_of bs v" for v
        using bucket_of_other [of bs p v b] p bu s(3) by (simp add: p_def)
      moreover have "users (bs[p := b]) \<subseteq> insert u (users bs)" using users_update [OF p, of b] bu by simp
      ultimately show ?thesis unfolding ex using w None by (intro exI [of _ "bs[p := b]"] exI [of _ False]) (simp add: bs_def b_def)
    qed
  qed
qed

subsection \<open>Runs\<close>

text \<open>Requests are users with the times at which they ask; the results say who exceeded the limit.\<close>

fun serve :: "u32 \<Rightarrow> rl_state \<Rightarrow> (u32 \<times> int) list \<Rightarrow> (rl_state \<times> bool list) option" where
  "serve su st [] = Some (st, [])"
| "serve su st ((u, t) # rs) = do {
     (st, e) \<leftarrow> rate_limit_exceeded su st u t;
     (st, es) \<leftarrow> serve su st rs;
     Some (st, e # es)
   }"

text \<open>What a single user sees, alone with its bucket.\<close>

fun decisions :: "rl_conf \<Rightarrow> u32 \<Rightarrow> user_bucket option \<Rightarrow> int list \<Rightarrow> bool list" where
  "decisions c u b [] = []"
| "decisions c u None (t # ts) = False # decisions c u (Some (new_bucket c u t)) ts"
| "decisions c u (Some b) (t # ts) = (let (b, e) = use_bucket c b t in e # decisions c u (Some b) ts)"

definition times_of :: "u32 \<Rightarrow> (u32 \<times> int) list \<Rightarrow> int list" where
  "times_of u rs = map snd (filter (\<lambda>r. fst r = u) rs)"

definition results_of :: "u32 \<Rightarrow> (u32 \<times> int) list \<Rightarrow> bool list \<Rightarrow> bool list" where
  "results_of u rs es = map snd (filter (\<lambda>(r, e). fst r = u) (zip rs es))"

definition limited :: "u32 \<Rightarrow> (u32 \<times> int) list \<Rightarrow> u32 set" where
  "limited su rs = {u \<in> fst ` set rs. \<not> validate_slurm_user su u}"

lemma serve_spec:
  assumes "wf_table (user_buckets st)" "rl_enabled st" "nat (table_size (rl_conf st)) = length (user_buckets st)"
    "0 < length (user_buckets st)" "refill_period (rl_conf st) \<noteq> 0" "card (users (user_buckets st) \<union> limited su rs) \<le> length (user_buckets st)"
    "\<not> validate_slurm_user su u"
  shows "\<exists>st' es. serve su st rs = Some (st', es) \<and> length es = length rs
    \<and> results_of u rs es = decisions (rl_conf st) u (bucket_of (user_buckets st) u) (times_of u rs)"
  using assms(1-6)
proof (induction rs arbitrary: st)
  case Nil
  then show ?case by (simp add: results_of_def times_of_def)
next
  case (Cons r rs)
  obtain v t where r: "r = (v, t)" by (cases r)
  show ?case
  proof (cases "validate_slurm_user su v")
    case True
    then have l: "limited su (r # rs) = limited su rs" "v \<noteq> u" using r assms(7) by (auto simp: limited_def)
    have e: "rate_limit_exceeded su st v t = Some (st, False)" using True by (simp add: rate_limit_exceeded_def)
    obtain st' es where "serve su st rs = Some (st', es)" "length es = length rs"
      "results_of u rs es = decisions (rl_conf st) u (bucket_of (user_buckets st) u) (times_of u rs)"
      using Cons.IH [OF Cons.prems(1-5)] Cons.prems(6) unfolding l(1) by blast
    then show ?thesis using e l(2) r by (simp add: results_of_def times_of_def)
  next
    case False
    obtain bs e where rq: "rate_limit_exceeded su st v t = Some (st\<lparr>user_buckets := bs\<rparr>, e)" "wf_table bs" "length bs = length (user_buckets st)"
      "case bucket_of (user_buckets st) v of
         Some b \<Rightarrow> (bucket_of bs v, e) = map_prod Some id (use_bucket (rl_conf st) b t)
       | None \<Rightarrow> \<not> e \<and> (card (users (user_buckets st)) = length bs \<and> bs = user_buckets st \<or> bucket_of bs v = Some (new_bucket (rl_conf st) v t))"
      "\<forall>w. w \<noteq> 0 \<longrightarrow> w \<noteq> v \<longrightarrow> bucket_of bs w = bucket_of (user_buckets st) w" "users bs \<subseteq> insert v (users (user_buckets st))"
      using request_spec [OF Cons.prems(1,2) False Cons.prems(3-5), of t] by blast
    have fin: "finite (users (user_buckets st) \<union> limited su (r # rs))" by (simp add: users_def limited_def)
    have vl: "v \<in> limited su (r # rs)" "limited su rs \<subseteq> limited su (r # rs)" using False r by (auto simp: limited_def)
    have "users bs \<union> limited su rs \<subseteq> users (user_buckets st) \<union> limited su (r # rs)" using rq(6) vl by blast
    from card_mono [OF fin this] have cd: "card (users bs \<union> limited su rs) \<le> length bs" using Cons.prems(6) rq(3) by linarith
    have u0: "u \<noteq> 0" using assms(7) by (simp add: validate_slurm_user_def)
    obtain st' es where s: "serve su (st\<lparr>user_buckets := bs\<rparr>) rs = Some (st', es)" "length es = length rs"
      "results_of u rs es = decisions (rl_conf st) u (bucket_of bs u) (times_of u rs)"
    proof -
      have "wf_table (user_buckets (st\<lparr>user_buckets := bs\<rparr>))" "rl_enabled (st\<lparr>user_buckets := bs\<rparr>)"
        "nat (table_size (rl_conf (st\<lparr>user_buckets := bs\<rparr>))) = length (user_buckets (st\<lparr>user_buckets := bs\<rparr>))"
        "0 < length (user_buckets (st\<lparr>user_buckets := bs\<rparr>))" "refill_period (rl_conf (st\<lparr>user_buckets := bs\<rparr>)) \<noteq> 0"
        "card (users (user_buckets (st\<lparr>user_buckets := bs\<rparr>)) \<union> limited su rs) \<le> length (user_buckets (st\<lparr>user_buckets := bs\<rparr>))"
        using rq(2,3) Cons.prems(2-5) cd by simp_all
      from Cons.IH [OF this] show thesis by (elim exE conjE) (rule that; simp)
    qed
    show ?thesis
    proof (cases "v = u")
      case False
      then have "bucket_of bs u = bucket_of (user_buckets st) u" using rq(5) u0 by blast
      then show ?thesis using s rq(1) r False by (simp add: results_of_def times_of_def)
    next
      case True
      show ?thesis
      proof (cases "bucket_of (user_buckets st) v")
        case None
        then have "v \<notin> users (user_buckets st)" by (auto simp: bucket_of_def find_None_iff users_def)
        then have "card (users (user_buckets st)) < card (users (user_buckets st) \<union> limited su (r # rs))"
          using vl(1) fin by (intro psubset_card_mono) auto
        then have "bucket_of bs v = Some (new_bucket (rl_conf st) v t)" "\<not> e" using rq(3,4) None Cons.prems(6) by auto
        then show ?thesis using s rq(1) r True None by (simp add: results_of_def times_of_def)
      next
        case (Some b)
        then have "(bucket_of bs v, e) = map_prod Some id (use_bucket (rl_conf st) b t)" using rq(4) by simp
        then show ?thesis using s rq(1) r True Some by (cases "use_bucket (rl_conf st) b t") (simp add: results_of_def times_of_def)
      qed
    qed
  qed
qed

text \<open>The state after a start with a table.\<close>

definition started :: "rl_conf \<Rightarrow> rl_state \<Rightarrow> bool" where
  "started c st \<longleftrightarrow> rl_enabled st \<and> rl_conf st = c \<and> 0 < table_size c
     \<and> user_buckets st = replicate (nat (table_size c)) \<lparr>last_update = 0, tokens = 0, b_uid = 0\<rparr>"

lemma started_init: "rate_limit_init params rl_default = Some st \<Longrightarrow> rl_enabled st \<Longrightarrow> 0 < table_size (rl_conf st) \<Longrightarrow> started (rl_conf st) st"
  by (auto simp: rate_limit_init_def started_def rl_default_def Let_def split: option.splits if_splits)

lemma started_serve:
  assumes "started c st" "refill_period c \<noteq> 0" "int (card (limited su rs)) \<le> table_size c" "\<not> validate_slurm_user su u"
  shows "\<exists>st' es. serve su st rs = Some (st', es) \<and> length es = length rs \<and> results_of u rs es = decisions c u None (times_of u rs)"
proof -
  have b: "user_buckets st = replicate (nat (table_size c)) \<lparr>last_update = 0, tokens = 0, b_uid = 0\<rparr>" "0 < table_size c" "rl_enabled st" "rl_conf st = c"
    using assms(1) by (simp_all add: started_def)
  have u0: "u \<noteq> 0" using assms(4) by (simp add: validate_slurm_user_def)
  have "wf_table (user_buckets st)" "users (user_buckets st) = {}" "bucket_of (user_buckets st) u = None"
    using u0 by (auto simp: b(1) wf_table_def users_def bucket_of_def find_None_iff)
  then show ?thesis using serve_spec [of st su rs u] b assms(2-4) by simp
qed

text \<open>C40: While there are not more users than places in the table, each user is served as if it
  were alone: the requests of the others, and the places that they take in the table,
  do not change which of its requests are refused.\<close>

theorem rate_limit_isolates_users:
  assumes "started c st" "refill_period c \<noteq> 0" "int (card (limited su rs)) \<le> table_size c" "\<not> validate_slurm_user su u"
    and "rs' = filter (\<lambda>r. fst r = u) rs"
  shows "\<exists>s es s' es'. serve su st rs = Some (s, es) \<and> serve su st rs' = Some (s', es') \<and> results_of u rs es = es'"
proof -
  obtain s es where s: "serve su st rs = Some (s, es)" "results_of u rs es = decisions c u None (times_of u rs)"
    using started_serve [OF assms(1-4)] by blast
  have "limited su rs' \<subseteq> limited su rs" "finite (limited su rs)" using assms(5) by (auto simp: limited_def)
  then have "int (card (limited su rs')) \<le> table_size c" using card_mono [of "limited su rs" "limited su rs'"] assms(3) by simp
  from started_serve [OF assms(1,2) this assms(4)] obtain s' es' where
    s': "serve su st rs' = Some (s', es')" "length es' = length rs'" "results_of u rs' es' = decisions c u None (times_of u rs')" by blast
  have "times_of u rs' = times_of u rs" by (simp add: times_of_def assms(5))
  moreover have "\<forall>r \<in> set rs'. fst r = u" using assms(5) by auto
  then have "filter (\<lambda>(r, e). fst r = u) (zip rs' es') = zip rs' es'" by (auto simp: filter_id_conv dest: set_zip_leftD)
  then have "results_of u rs' es' = es'" using s'(2) by (simp add: results_of_def)
  ultimately show ?thesis using s s' by metis
qed

subsection \<open>How many requests pass\<close>

lemma sdiv_nonneg: "0 \<le> a \<Longrightarrow> 0 < b \<Longrightarrow> a sdiv b = a div b" for a b :: int
  by (cases "a = 0") (simp_all add: signed_divide_int_def)

lemma use_bucket_bound:
  assumes "0 < refill_period c" "0 \<le> refill_rate c" "0 \<le> now" "last_update b \<le> now div refill_period c"
    "use_bucket c b now = (b', e)" "0 \<le> bucket_size c" "bucket_size c < 2 ^ 32"
  shows "last_update b' = now div refill_period c"
    "uint (tokens b') + (if e then 0 else 1) \<le> uint (tokens b) + refill_rate c * (now div refill_period c - last_update b)"
    "uint (tokens b) \<le> bucket_size c \<Longrightarrow> uint (tokens b') + (if e then 0 else 1) \<le> bucket_size c"
proof -
  let ?q = "now div refill_period c"
  define d where "d = ?q - last_update b"
  define x where "x = (if d \<noteq> 0 then min (word_of_int (uint (tokens b) + d * refill_rate c)) (word_of_int (bucket_size c)) else tokens b)"
  have d0: "0 \<le> d * refill_rate c" using assms(2,4) by (simp add: d_def)
  have u: "(b', e) = (if x \<noteq> 0 then (b\<lparr>last_update := ?q, tokens := x - 1\<rparr>, False) else (b\<lparr>last_update := ?q, tokens := x\<rparr>, True))"
    using assms(5) sdiv_nonneg [OF assms(3,1)] by (auto simp: use_bucket_def Let_def x_def d_def split: if_splits)
  have x1: "uint x \<le> uint (tokens b) + d * refill_rate c"
  proof (cases "d = 0")
    case False
    have "uint (word_of_int (uint (tokens b) + d * refill_rate c) :: u32) \<le> uint (tokens b) + d * refill_rate c"
      using d0 uint_ge_0 [of "tokens b"] unfolding uint_word_of_int by (intro zmod_le_nonneg_dividend) linarith
    then show ?thesis using False by (auto simp: x_def min_def word_le_def)
  qed (simp add: x_def)
  have x2: "uint x \<le> bucket_size c" if "uint (tokens b) \<le> bucket_size c"
  proof (cases "d = 0")
    case False
    have "uint (word_of_int (bucket_size c) :: u32) = bucket_size c" using assms(6,7) by (simp add: uint_word_of_int)
    then show ?thesis using False by (auto simp: x_def min_def word_le_def)
  qed (use that in \<open>simp add: x_def\<close>)
  have x3: "uint (x - 1) + 1 = uint x" if "x \<noteq> 0"
  proof -
    have "1 \<le> uint x" using that uint_ge_0 [of x] uint_0_iff [of x] by linarith
    then show ?thesis using uint_sub_lem [of 1 x] by simp
  qed
  show "last_update b' = ?q" using u by (auto split: if_splits)
  show "uint (tokens b') + (if e then 0 else 1) \<le> uint (tokens b) + refill_rate c * (?q - last_update b)"
    using u x1 x3 by (auto simp: d_def mult.commute split: if_splits)
  show "uint (tokens b) \<le> bucket_size c \<Longrightarrow> uint (tokens b') + (if e then 0 else 1) \<le> bucket_size c"
    using u x2 x3 by (auto split: if_splits)
qed

text \<open>A clock that steps back leaves at most a full bucket.\<close>

lemma use_bucket_setback:
  assumes "0 < refill_period c" "0 \<le> now" "now div refill_period c < last_update b"
    "use_bucket c b now = (b', e)" "0 \<le> bucket_size c" "bucket_size c < 2 ^ 32"
  shows "last_update b' = now div refill_period c" "uint (tokens b') + (if e then 0 else 1) \<le> bucket_size c"
proof -
  let ?q = "now div refill_period c"
  define x where "x = min (word_of_int (uint (tokens b) + (?q - last_update b) * refill_rate c)) (word_of_int (bucket_size c) :: u32)"
  have u: "(b', e) = (if x \<noteq> 0 then (b\<lparr>last_update := ?q, tokens := x - 1\<rparr>, False) else (b\<lparr>last_update := ?q, tokens := x\<rparr>, True))"
    using assms(3,4) sdiv_nonneg [OF assms(2,1)] by (auto simp: use_bucket_def Let_def x_def split: if_splits)
  have "uint (word_of_int (bucket_size c) :: u32) = bucket_size c" using assms(5,6) by (simp add: uint_word_of_int)
  then have x: "uint x \<le> bucket_size c" by (auto simp: x_def min_def word_le_def)
  have x3: "uint (x - 1) + 1 = uint x" if "x \<noteq> 0"
  proof -
    have "1 \<le> uint x" using that uint_ge_0 [of x] uint_0_iff [of x] by linarith
    then show ?thesis using uint_sub_lem [of 1 x] by simp
  qed
  show "last_update b' = ?q" using u by (auto split: if_splits)
  show "uint (tokens b') + (if e then 0 else 1) \<le> bucket_size c" using u x x3 by (auto split: if_splits)
qed

definition passed :: "bool list \<Rightarrow> int" where
  "passed es = int (length (filter Not es))"

lemma passed_simps [simp]: "passed [] = 0" "passed (e # es) = (if e then 0 else 1) + passed es"
  by (simp_all add: passed_def)

text \<open>How often a sequence of readings goes back, and how far it goes forward in all.\<close>

fun setbacks :: "int list \<Rightarrow> int" where
  "setbacks (x # y # zs) = (if y < x then 1 else 0) + setbacks (y # zs)"
| "setbacks _ = 0"

fun advance :: "int list \<Rightarrow> int" where
  "advance (x # y # zs) = max 0 (y - x) + advance (y # zs)"
| "advance _ = 0"

lemma setbacks_advance_nonneg: "0 \<le> setbacks qs" "0 \<le> advance qs"
proof -
  show "0 \<le> setbacks qs" by (induction qs rule: setbacks.induct) auto
  show "0 \<le> advance qs" by (induction qs rule: advance.induct) auto
qed

lemma sorted_advance: "sorted (q # qs) \<Longrightarrow> setbacks (q # qs) = 0 \<and> advance (q # qs) = last (q # qs) - q"
  by (induction qs arbitrary: q) auto

text \<open>Each setback of the clock is worth at most a bucket, each period forward at most one refill.\<close>

lemma decisions_bound:
  assumes "0 < refill_period c" "0 \<le> refill_rate c" "0 \<le> bucket_size c" "bucket_size c < 2 ^ 32" "\<forall>t \<in> set ts. 0 \<le> t"
  shows "passed (decisions c u (Some b) ts) \<le> uint (tokens b)
    + bucket_size c * setbacks (last_update b # map (\<lambda>t. t div refill_period c) ts)
    + refill_rate c * advance (last_update b # map (\<lambda>t. t div refill_period c) ts)"
  using assms(5)
proof (induction ts arbitrary: b)
  case Nil
  then show ?case using uint_ge_0 [of "tokens b"] by simp
next
  case (Cons t ts)
  obtain b' e where ub: "use_bucket c b t = (b', e)" by fastforce
  have t: "0 \<le> t" using Cons.prems by simp
  have IH: "passed (decisions c u (Some b') ts) \<le> uint (tokens b')
      + bucket_size c * setbacks (last_update b' # map (\<lambda>t. t div refill_period c) ts)
      + refill_rate c * advance (last_update b' # map (\<lambda>t. t div refill_period c) ts)"
    using Cons by simp
  show ?case
  proof (cases "last_update b \<le> t div refill_period c")
    case True
    note s = use_bucket_bound(1,2) [OF assms(1,2) t True ub assms(3,4)]
    show ?thesis using IH s ub True by (simp add: algebra_simps)
  next
    case False
    then have "t div refill_period c < last_update b" by simp
    note s = use_bucket_setback [OF assms(1) t this ub assms(3,4)]
    obtain k where k: "uint (tokens b) = k" "0 \<le> k" using uint_ge_0 [of "tokens b"] by blast
    show ?thesis using IH s ub False k(2) unfolding k(1) by (simp add: algebra_simps)
  qed
qed

text \<open>A use of a bucket that holds no more than its size, wherever the clock stands.\<close>

lemma decisions_bound_full:
  assumes "0 < refill_period c" "0 \<le> refill_rate c" "0 \<le> bucket_size c" "bucket_size c < 2 ^ 32"
    and "\<forall>t' \<in> set (t # ts). 0 \<le> t'" "uint (tokens b) \<le> bucket_size c"
  shows "passed (decisions c u (Some b) (t # ts)) \<le> bucket_size c * (1 + setbacks (map (\<lambda>t. t div refill_period c) (t # ts)))
    + refill_rate c * advance (map (\<lambda>t. t div refill_period c) (t # ts))"
proof -
  obtain b' e where ub: "use_bucket c b t = (b', e)" by fastforce
  have t: "0 \<le> t" using assms(5) by simp
  have s: "last_update b' = t div refill_period c" "uint (tokens b') + (if e then 0 else 1) \<le> bucket_size c"
  proof -
    show "last_update b' = t div refill_period c"
      using use_bucket_bound(1) [OF assms(1,2) t _ ub assms(3,4)] use_bucket_setback(1) [OF assms(1) t _ ub assms(3,4)] by linarith
    show "uint (tokens b') + (if e then 0 else 1) \<le> bucket_size c"
      using use_bucket_bound(3) [OF assms(1,2) t _ ub assms(3,4) assms(6)] use_bucket_setback(2) [OF assms(1) t _ ub assms(3,4)] by linarith
  qed
  show ?thesis using decisions_bound [OF assms(1-4), of ts u b'] assms(5) s ub by (simp add: algebra_simps)
qed

text \<open>C23: However many requests a user sends, at whatever times, those that pass are at
  most a bucket full, what was refilled since its first request, and another
  bucket full for each time the clock stood in an earlier period than at the
  request before; and one more when the refill period is not one second, because
  the first bucket is dated too early. The refill counts the periods that the
  clock moves forward between two requests; for a clock that never steps back
  it is the refill from the first request to the last, and there is no extra
  bucket. No hypothesis bounds the time that passes: a refill that wraps around
  only loses tokens. The table has room for all users (one that finds it full
  is not limited).\<close>

theorem rate_limit_bounds_requests:
  assumes "started c st" "int (card (limited su rs)) \<le> table_size c" "\<not> validate_slurm_user su u"
    and "0 < refill_period c" "0 \<le> refill_rate c" "1 \<le> bucket_size c" "bucket_size c < 2 ^ 32"
    and "times_of u rs = t # ts" "\<forall>t' \<in> set (t # ts). 0 \<le> t'"
  defines "qs \<equiv> map (\<lambda>t. t div refill_period c) (t # ts)"
  shows "\<exists>s es. serve su st rs = Some (s, es)
    \<and> passed (results_of u rs es) \<le> bucket_size c * (1 + setbacks qs) + (if refill_period c = 1 then 0 else 1)
         + refill_rate c * advance qs
    \<and> (sorted qs \<longrightarrow> setbacks qs = 0 \<and> advance qs = last (t # ts) div refill_period c - t div refill_period c)"
proof -
  let ?p = "refill_period c"
  let ?b = "new_bucket c u t"
  obtain s es where s: "serve su st rs = Some (s, es)" "results_of u rs es = decisions c u None (t # ts)"
    using started_serve [OF assms(1) _ assms(2,3)] assms(4,8) by auto
  have t: "0 \<le> t" and q0: "0 \<le> t div ?p" using assms(4,9) by (simp_all add: pos_imp_zdiv_nonneg_iff)
  have "uint (word_of_int (bucket_size c - 1) :: u32) = bucket_size c - 1"
    unfolding uint_word_of_int by (rule mod_pos_pos_trivial) (use assms(6,7) in simp_all)
  then have b: "last_update ?b = t div ?p div ?p" "uint (tokens ?b) = bucket_size c - 1"
    using sdiv_nonneg [OF t assms(4)] sdiv_nonneg [OF q0 assms(4)] unfolding new_bucket_def user_bucket.select_convs by simp_all
  have "passed (decisions c u (Some ?b) ts) \<le> bucket_size c - 1 + bucket_size c * setbacks qs + (if ?p = 1 then 0 else 1) + refill_rate c * advance qs"
  proof (cases "?p = 1")
    case True
    then have "last_update ?b = t" using b(1) by simp
    then show ?thesis using decisions_bound [OF assms(4,5) _ assms(7), of ts u ?b] assms(6,9) b(2) True by (simp add: qs_def)
  next
    case False
    show ?thesis
    proof (cases ts)
      case Nil
      then show ?thesis using assms(6) by (simp add: qs_def)
    next
      case (Cons t2 ts2)
      let ?qs = "map (\<lambda>t. t div ?p) (t2 # ts2)"
      have "passed (decisions c u (Some ?b) (t2 # ts2)) \<le> bucket_size c * (1 + setbacks ?qs) + refill_rate c * advance ?qs"
        by (rule decisions_bound_full [OF assms(4,5) _ assms(7)]) (use assms(6,9) b(2) Cons in auto)
      moreover have "setbacks ?qs \<le> setbacks qs" "advance ?qs \<le> advance qs" by (simp_all add: qs_def Cons)
      then have "bucket_size c * setbacks ?qs \<le> bucket_size c * setbacks qs" "refill_rate c * advance ?qs \<le> refill_rate c * advance qs"
        using assms(5,6) by (auto intro: mult_left_mono)
      ultimately show ?thesis using False Cons by (simp add: algebra_simps)
    qed
  qed
  then have "passed (results_of u rs es) \<le> bucket_size c * (1 + setbacks qs) + (if ?p = 1 then 0 else 1) + refill_rate c * advance qs"
    using s(2) by (simp add: algebra_simps)
  moreover have "sorted qs \<longrightarrow> setbacks qs = 0 \<and> advance qs = last (t # ts) div ?p - t div ?p"
    using sorted_advance [of "t div ?p" "map (\<lambda>t. t div ?p) ts"] by (auto simp: qs_def last_map)
  ultimately show ?thesis using s(1) by blast
qed

definition sample_conf :: rl_conf where
  "sample_conf = \<lparr>table_size = 2, bucket_size = 2, refill_rate = 1, refill_period = 1\<rparr>"

definition sample_limit :: rl_state where
  "sample_limit = \<lparr>rl_enabled = True, rl_conf = sample_conf, user_buckets = replicate 2 \<lparr>last_update = 0, tokens = 0, b_uid = 0\<rparr>\<rparr>"

lemma sample_started: "started sample_conf sample_limit"
  by (simp add: started_def sample_limit_def sample_conf_def)

lemma sample_limited: "card (limited 9 [(7, 100), (5, 100), (7, 100), (7, 100), (7, 101)]) = 2"
proof -
  have "limited 9 [(7, 100), (5, 100), (7, 100), (7, 100), (7, 101)] = {7, 5}" by (auto simp: limited_def validate_slurm_user_def)
  then show ?thesis by simp
qed

text \<open>The clock steps back from 100 to 99 and comes back to 101.\<close>

theorem rate_limit_bounds_requests_witness:
  "\<exists>s es. serve 9 sample_limit [(7, 100), (5, 100), (7, 100), (7, 99), (7, 101)] = Some (s, es)
    \<and> passed (results_of 7 [(7, 100), (5, 100), (7, 100), (7, 99), (7, 101)] es) \<le> 6"
proof -
  have "limited 9 [(7, 100), (5, 100), (7, 100), (7, 99), (7, 101)] = {7, 5}" by (auto simp: limited_def validate_slurm_user_def)
  then have c: "int (card (limited 9 [(7, 100), (5, 100), (7, 100), (7, 99), (7, 101)])) \<le> table_size sample_conf"
    by (simp add: sample_conf_def)
  have u: "\<not> validate_slurm_user 9 7" by (simp add: validate_slurm_user_def)
  have t: "times_of 7 [(7, 100), (5, 100), (7, 100), (7, 99), (7, 101)] = 100 # [100, 99, 101]" by (simp add: times_of_def)
  have p: "0 < refill_period sample_conf" "0 \<le> refill_rate sample_conf" "1 \<le> bucket_size sample_conf" "bucket_size sample_conf < 2 ^ 32"
    by (simp_all add: sample_conf_def)
  have s: "\<forall>t' \<in> set (100 # [100, 99, 101]). (0 :: int) \<le> t'" by simp
  from rate_limit_bounds_requests [OF sample_started c u p t s] show ?thesis by (simp add: sample_conf_def)
qed

theorem rate_limit_isolates_users_witness:
  "\<exists>s es s' es'. serve 9 sample_limit [(7, 100), (5, 100), (7, 100), (7, 100), (7, 101)] = Some (s, es)
    \<and> serve 9 sample_limit [(7, 100), (7, 100), (7, 100), (7, 101)] = Some (s', es')
    \<and> results_of 7 [(7, 100), (5, 100), (7, 100), (7, 100), (7, 101)] es = es'"
proof -
  have c: "int (card (limited 9 [(7, 100), (5, 100), (7, 100), (7, 100), (7, 101)])) \<le> table_size sample_conf"
    by (simp add: sample_limited sample_conf_def)
  have u: "\<not> validate_slurm_user 9 7" "refill_period sample_conf \<noteq> 0" by (simp_all add: validate_slurm_user_def sample_conf_def)
  have f: "[(7, 100), (7, 100), (7, 100), (7, 101)] = filter (\<lambda>r. fst r = (7 :: u32)) [(7, 100), (5, 100), (7, 100), (7, 100), (7, 101 :: int)]" by simp
  from rate_limit_isolates_users [OF sample_started u(2) c u(1) f] show ?thesis .
qed

text \<open>
  With a refill period of two seconds and a bucket for one request, two requests in
  the same second pass; and a clock that steps back refills an empty bucket.
\<close>

lemma rate_limit_surprises:
  "decisions \<lparr>table_size = 2, bucket_size = 1, refill_rate = 1, refill_period = 2\<rparr> 7 None [100, 100, 100] = [False, False, True]"
  "decisions \<lparr>table_size = 2, bucket_size = 3, refill_rate = 2, refill_period = 1\<rparr> 7 None [100, 100, 100, 100, 99, 99, 99, 99]
    = [False, False, False, True, False, False, False, True]"
  by code_simp+

end
