(* ===== verification/Reverse_Tree.thy ===== *)
theory Reverse_Tree
  imports Prelude "HOL-Library.Monad_Syntax"
begin

text \<open>
  The reverse tree of \<^verbatim>\<open>src/common/reverse_tree.c\<close>: the nodes of a job step, numbered
  in the order of their host list, are the vertices of a tree of a given width, so that a
  node reports to its parent and not to the controller. The parent of a rank, the number of
  ranks below it and its children are computed from the rank alone; each node does so by
  itself, and the protocol is only right when the answers agree.

  \<open>None\<close> is a computation that C does not define: a result that an \<^verbatim>\<open>int\<close> does not hold,
  or a division by zero.
\<close>

subsection \<open>Arithmetic\<close>

definition c_int :: "int \<Rightarrow> int option" where
  "c_int x = (if - (2 ^ 31) \<le> x \<and> x < 2 ^ 31 then Some x else None)"

fun pow_loop :: "nat \<Rightarrow> int \<Rightarrow> int \<Rightarrow> int option" where
  "pow_loop 0 num res = Some res"
| "pow_loop (Suc k) num res = do { r \<leftarrow> c_int (res * num); pow_loop k num r }"

definition int_pow :: "int \<Rightarrow> int \<Rightarrow> int option" where
  "int_pow num ex =
     (if ex = 0 then Some 1 else if ex = 1 then Some num else pow_loop (nat (ex - 1)) num num)"

definition geometric_series :: "int \<Rightarrow> int \<Rightarrow> int option" where
  "geometric_series width depth =
     (if width = 1 then c_int (depth + 1)
      else do {
        d \<leftarrow> c_int (depth + 1);
        p \<leftarrow> int_pow width d;
        num \<leftarrow> c_int (1 - p);
        Some (num sdiv (1 - width)) })"

text \<open>The number of levels below the root that \<open>total\<close> nodes need.\<close>

function dep_loop :: "int \<Rightarrow> int \<Rightarrow> int \<Rightarrow> int \<Rightarrow> int option" where
  "dep_loop tot width i x =
     (if x < tot - 1
      then do {
        p \<leftarrow> int_pow width i;
        y \<leftarrow> c_int (x + p);
        i' \<leftarrow> c_int (i + 1);
        dep_loop tot width i' y }
      else Some (i - 1))"
  by pat_completeness auto
termination
  by (relation "measure (\<lambda>(tot, width, i, x). nat (2 ^ 31 - i))") (auto simp: c_int_def split: if_splits)

declare dep_loop.simps [simp del]

definition dep :: "int \<Rightarrow> int \<Rightarrow> int option" where
  "dep tot width = dep_loop tot width 1 0"

subsection \<open>The search for the parent\<close>

text \<open>
  The loop over the children of \<^verbatim>\<open>search_tree\<close>: the rank looked for is a child, or it is
  below one, or there is no such rank.
\<close>

datatype scan_result = Hit | Descend int | Miss

function child_scan :: "int \<Rightarrow> int \<Rightarrow> int \<Rightarrow> int \<Rightarrow> int \<Rightarrow> scan_result option" where
  "child_scan ident current next_children width i =
     (if i \<le> width
      then do {
        nxt \<leftarrow> c_int (current + next_children + 1);
        if ident = nxt then Some Hit
        else if ident > current \<and> ident < nxt then Some (Descend current)
        else do { i' \<leftarrow> c_int (i + 1); child_scan ident nxt next_children width i' } }
      else Some Miss)"
  by pat_completeness auto
termination
  by (relation "measure (\<lambda>(ident, current, nc, width, i). nat (2 ^ 31 - i))") (auto simp: c_int_def split: if_splits)

declare child_scan.simps [simp del]

lemma child_scan_descends:
  "child_scan ident current nc width i = Some (Descend c) \<Longrightarrow> c < ident \<and> 0 \<le> nc \<and> current \<le> c"
proof (induction ident current nc width i rule: child_scan.induct)
  case (1 ident current nc width i)
  from "1.prems" show ?case
    by (subst (asm) child_scan.simps)
       (auto split: if_splits option.splits bind_splits simp: c_int_def dest!: "1.IH" [rotated -1])
qed

function search_tree :: "int \<Rightarrow> int \<Rightarrow> int \<Rightarrow> int \<Rightarrow> int \<Rightarrow> (bool \<times> int \<times> int \<times> int) option" where
  "search_tree ident node max_children width depth =
     (if width = 0 then None
      else do {
        depth' \<leftarrow> c_int (depth + 1);
        current \<leftarrow> c_int (node + 1);
        next_children \<leftarrow> c_int (max_children sdiv width - 1);
        if ident = current then Some (True, node, next_children, depth')
        else do {
          s \<leftarrow> child_scan ident current next_children width 1;
          (case s of
             Hit \<Rightarrow> Some (True, node, next_children, depth')
           | Descend c \<Rightarrow> search_tree ident c next_children width depth'
           | Miss \<Rightarrow> Some (False, - 1, - 1, depth')) } })"
  by pat_completeness auto
termination
  by (relation "measure (\<lambda>(ident, node, mc, width, depth). nat (ident - node))")
     (auto simp: c_int_def split: if_splits dest!: child_scan_descends)

declare search_tree.simps [simp del]

record tree_info =
  ti_parent :: int
  ti_children :: int
  ti_depth :: int
  ti_max_depth :: int

definition reverse_tree_info :: "int \<Rightarrow> int \<Rightarrow> int \<Rightarrow> tree_info option" where
  "reverse_tree_info rank num_nodes width =
     (if rank \<ge> num_nodes
      then Some \<lparr>ti_parent = - 1, ti_children = - 1, ti_depth = - 1, ti_max_depth = - 1\<rparr>
      else if width > num_nodes
      then Some \<lparr>ti_parent = - 1, ti_children = 0, ti_depth = 0, ti_max_depth = 0\<rparr>
      else do {
        max_depth \<leftarrow> dep num_nodes width;
        if rank = 0
        then Some \<lparr>ti_parent = - 1, ti_children = num_nodes - 1, ti_depth = 0, ti_max_depth = max_depth\<rparr>
        else do {
          max_children \<leftarrow> geometric_series width max_depth;
          (_, p, c, depth) \<leftarrow> search_tree rank 0 max_children width 0;
          stop \<leftarrow> c_int (rank + c);
          Some \<lparr>ti_parent = p, ti_children = (if stop \<ge> num_nodes then num_nodes - rank - 1 else c),
                ti_depth = depth, ti_max_depth = max_depth\<rparr> } })"

subsection \<open>The direct children\<close>

function child_fill :: "int \<Rightarrow> int \<Rightarrow> int \<Rightarrow> int \<Rightarrow> int \<Rightarrow> int list option" where
  "child_fill num_nodes width dist i current =
     (if i < width \<and> current < num_nodes
      then do {
        nxt \<leftarrow> c_int (current + dist);
        rest \<leftarrow> child_fill num_nodes width dist (i + 1) nxt;
        Some (current # rest) }
      else Some [])"
  by pat_completeness auto
termination
  by (relation "measure (\<lambda>(num_nodes, width, dist, i, current). nat (width - i))") auto

declare child_fill.simps [simp del]

definition reverse_tree_direct_children :: "int \<Rightarrow> int \<Rightarrow> int \<Rightarrow> int \<Rightarrow> int list option" where
  "reverse_tree_direct_children rank num_nodes width depth =
     (if width > num_nodes then Some []
      else do {
        max_depth \<leftarrow> dep num_nodes width;
        let sub_depth = max_depth - depth;
        if sub_depth = 0 then Some []
        else do {
          max_rank_children \<leftarrow> geometric_series width sub_depth;
          current \<leftarrow> c_int (rank + 1);
          if width = 0 then None
          else child_fill num_nodes width (max_rank_children sdiv width) 0 current } })"

end
