(* ===== verification/Job_Acct.thy ===== *)
theory Job_Acct
  imports Prelude
begin

text \<open>
  The resource usage that a job step gathers, \<^verbatim>\<open>jobacctinfo_t\<close> of
  \<^verbatim>\<open>src/interfaces/jobacct_gather.c\<close>: processor times, energy, and for each trackable
  resource the largest, the smallest and the total usage, with the task and the node of the
  extremes. Usage is added up along the tree of the nodes of the step. A gathering plugin is
  loaded; the identifiers of the resources, which the association manager holds, are an
  argument.

  The processor times are kept in seconds and microseconds. The source carries a second over
  with a division of doubles, which is exact below \<open>2 ^ 32\<close> seconds.
\<close>

definition INFINITE64 :: u64 where
  "INFINITE64 = - 1"

definition NO_VAL64 :: u64 where
  "NO_VAL64 = - 2"

definition NO_VAL32 :: u32 where
  "NO_VAL32 = - 2"

definition TRES_ARRAY_ENERGY :: nat where
  "TRES_ARRAY_ENERGY = 2"

record jobacct =
  sys_cpu_sec :: u64
  sys_cpu_usec :: u32
  user_cpu_sec :: u64
  user_cpu_usec :: u32
  act_cpufreq :: u32
  consumed_energy :: u64
  tres_count :: nat
  tres_ids :: "u32 list"
  tres_usage_in_max :: "u64 list"
  tres_usage_in_max_nodeid :: "u64 list"
  tres_usage_in_max_taskid :: "u64 list"
  tres_usage_in_min :: "u64 list"
  tres_usage_in_min_nodeid :: "u64 list"
  tres_usage_in_min_taskid :: "u64 list"
  tres_usage_in_tot :: "u64 list"
  tres_usage_out_max :: "u64 list"
  tres_usage_out_max_nodeid :: "u64 list"
  tres_usage_out_max_taskid :: "u64 list"
  tres_usage_out_min :: "u64 list"
  tres_usage_out_min_nodeid :: "u64 list"
  tres_usage_out_min_taskid :: "u64 list"
  tres_usage_out_tot :: "u64 list"

subsection \<open>Creation and copying\<close>

text \<open>A value for the task or node of an extreme, \<open>NO_VAL32\<close> for none.\<close>

definition id_or_infinite :: "u32 \<Rightarrow> u64" where
  "id_or_infinite n = (if n \<noteq> NO_VAL32 then ucast n else INFINITE64)"

definition init_ids :: "u32 list option \<Rightarrow> nat \<Rightarrow> u32 list" where
  "init_ids assoc_ids cnt = map (\<lambda>i. case assoc_ids of Some ids \<Rightarrow> ids ! i | None \<Rightarrow> of_nat i) [0..<cnt]"

definition init_tres_usage :: "u32 list option \<Rightarrow> jobacct \<Rightarrow> u32 \<Rightarrow> u32 \<Rightarrow> nat \<Rightarrow> jobacct" where
  "init_tres_usage assoc_ids a taskid nodeid cnt =
     a\<lparr>tres_count := cnt, tres_ids := init_ids assoc_ids cnt,
       tres_usage_in_max := replicate cnt INFINITE64,
       tres_usage_in_max_nodeid := replicate cnt (id_or_infinite nodeid),
       tres_usage_in_max_taskid := replicate cnt (id_or_infinite taskid),
       tres_usage_in_min := replicate cnt INFINITE64,
       tres_usage_in_min_nodeid := replicate cnt (id_or_infinite nodeid),
       tres_usage_in_min_taskid := replicate cnt (id_or_infinite taskid),
       tres_usage_in_tot := replicate cnt INFINITE64,
       tres_usage_out_max := replicate cnt INFINITE64,
       tres_usage_out_max_nodeid := replicate cnt (id_or_infinite nodeid),
       tres_usage_out_max_taskid := replicate cnt (id_or_infinite taskid),
       tres_usage_out_min := replicate cnt INFINITE64,
       tres_usage_out_min_nodeid := replicate cnt (id_or_infinite nodeid),
       tres_usage_out_min_taskid := replicate cnt (id_or_infinite taskid),
       tres_usage_out_tot := replicate cnt INFINITE64\<rparr>"

definition jobacctinfo_create :: "u32 list option \<Rightarrow> nat \<Rightarrow> (u32 \<times> u32) option \<Rightarrow> jobacct" where
  "jobacctinfo_create assoc_ids g_tres_count jobacct_id =
     (let (taskid, nodeid) = (case jobacct_id of Some ids \<Rightarrow> ids | None \<Rightarrow> (NO_VAL32, NO_VAL32));
          zeroed = \<lparr>sys_cpu_sec = 0, sys_cpu_usec = 0, user_cpu_sec = 0, user_cpu_usec = 0, act_cpufreq = 0, consumed_energy = 0,
            tres_count = 0, tres_ids = [], tres_usage_in_max = [], tres_usage_in_max_nodeid = [], tres_usage_in_max_taskid = [],
            tres_usage_in_min = [], tres_usage_in_min_nodeid = [], tres_usage_in_min_taskid = [], tres_usage_in_tot = [],
            tres_usage_out_max = [], tres_usage_out_max_nodeid = [], tres_usage_out_max_taskid = [],
            tres_usage_out_min = [], tres_usage_out_min_nodeid = [], tres_usage_out_min_taskid = [], tres_usage_out_tot = []\<rparr>
      in init_tres_usage assoc_ids zeroed taskid nodeid g_tres_count)"

text \<open>
  The copy takes the fields of the source, then makes the arrays anew: the identifiers are
  those of the association manager, the usage is the usage of the source.
\<close>

definition copy_array :: "nat \<Rightarrow> u64 list \<Rightarrow> u64 list" where
  "copy_array cnt xs = map (\<lambda>i. xs ! i) [0..<cnt]"

definition copy_tres_usage :: "u32 list option \<Rightarrow> jobacct \<Rightarrow> jobacct" where
  "copy_tres_usage assoc_ids src =
     (init_tres_usage assoc_ids src NO_VAL32 NO_VAL32 (tres_count src))
      \<lparr>tres_usage_in_max := copy_array (tres_count src) (tres_usage_in_max src),
       tres_usage_in_max_nodeid := copy_array (tres_count src) (tres_usage_in_max_nodeid src),
       tres_usage_in_max_taskid := copy_array (tres_count src) (tres_usage_in_max_taskid src),
       tres_usage_in_min := copy_array (tres_count src) (tres_usage_in_min src),
       tres_usage_in_min_nodeid := copy_array (tres_count src) (tres_usage_in_min_nodeid src),
       tres_usage_in_min_taskid := copy_array (tres_count src) (tres_usage_in_min_taskid src),
       tres_usage_in_tot := copy_array (tres_count src) (tres_usage_in_tot src),
       tres_usage_out_max := copy_array (tres_count src) (tres_usage_out_max src),
       tres_usage_out_max_nodeid := copy_array (tres_count src) (tres_usage_out_max_nodeid src),
       tres_usage_out_max_taskid := copy_array (tres_count src) (tres_usage_out_max_taskid src),
       tres_usage_out_min := copy_array (tres_count src) (tres_usage_out_min src),
       tres_usage_out_min_nodeid := copy_array (tres_count src) (tres_usage_out_min_nodeid src),
       tres_usage_out_min_taskid := copy_array (tres_count src) (tres_usage_out_min_taskid src),
       tres_usage_out_tot := copy_array (tres_count src) (tres_usage_out_tot src)\<rparr>"

subsection \<open>Adding up\<close>

text \<open>
  Entry \<open>i\<close> of an extreme, with its task and its node: the new one is taken when it is known_usage
  and the old one is not, or the new one is \<open>better\<close>. Energy is known_usage per node, so its
  task is left.
\<close>

definition aggregate_extreme ::
  "(u64 \<Rightarrow> u64 \<Rightarrow> bool) \<Rightarrow> nat \<Rightarrow> u64 list \<times> u64 list \<times> u64 list \<Rightarrow> u64 list \<times> u64 list \<times> u64 list \<Rightarrow> u64 list \<times> u64 list \<times> u64 list" where
  "aggregate_extreme better i dest from =
     (case dest of (val, task, node) \<Rightarrow> case from of (val', task', node') \<Rightarrow>
        if val' ! i \<noteq> INFINITE64 \<and> (val ! i = INFINITE64 \<or> better (val' ! i) (val ! i))
        then (val[i := val' ! i], if i \<noteq> TRES_ARRAY_ENERGY then task[i := task' ! i] else task, node[i := node' ! i])
        else (val, task, node))"

definition aggregate_total :: "nat \<Rightarrow> u64 list \<Rightarrow> u64 list \<Rightarrow> u64 list" where
  "aggregate_total i tot tot' =
     (if tot' ! i \<noteq> INFINITE64
      then if tot ! i = INFINITE64 then tot[i := tot' ! i] else tot[i := tot ! i + tot' ! i]
      else tot)"

definition aggregate_entry :: "jobacct \<Rightarrow> nat \<Rightarrow> jobacct \<Rightarrow> jobacct" where
  "aggregate_entry from i dest =
     (let (in_max, in_max_task, in_max_node) =
            aggregate_extreme (\<lambda>new old. old < new) i (tres_usage_in_max dest, tres_usage_in_max_taskid dest, tres_usage_in_max_nodeid dest)
              (tres_usage_in_max from, tres_usage_in_max_taskid from, tres_usage_in_max_nodeid from);
          (in_min, in_min_task, in_min_node) =
            aggregate_extreme (\<lambda>new old. old > new) i (tres_usage_in_min dest, tres_usage_in_min_taskid dest, tres_usage_in_min_nodeid dest)
              (tres_usage_in_min from, tres_usage_in_min_taskid from, tres_usage_in_min_nodeid from);
          in_tot = aggregate_total i (tres_usage_in_tot dest) (tres_usage_in_tot from);
          (out_max, out_max_task, out_max_node) =
            aggregate_extreme (\<lambda>new old. old < new) i (tres_usage_out_max dest, tres_usage_out_max_taskid dest, tres_usage_out_max_nodeid dest)
              (tres_usage_out_max from, tres_usage_out_max_taskid from, tres_usage_out_max_nodeid from);
          (out_min, out_min_task, out_min_node) =
            aggregate_extreme (\<lambda>new old. old > new) i (tres_usage_out_min dest, tres_usage_out_min_taskid dest, tres_usage_out_min_nodeid dest)
              (tres_usage_out_min from, tres_usage_out_min_taskid from, tres_usage_out_min_nodeid from);
          out_tot = aggregate_total i (tres_usage_out_tot dest) (tres_usage_out_tot from)
      in dest\<lparr>tres_usage_in_max := in_max, tres_usage_in_max_taskid := in_max_task, tres_usage_in_max_nodeid := in_max_node,
           tres_usage_in_min := in_min, tres_usage_in_min_taskid := in_min_task, tres_usage_in_min_nodeid := in_min_node,
           tres_usage_in_tot := in_tot,
           tres_usage_out_max := out_max, tres_usage_out_max_taskid := out_max_task, tres_usage_out_max_nodeid := out_max_node,
           tres_usage_out_min := out_min, tres_usage_out_min_taskid := out_min_task, tres_usage_out_min_nodeid := out_min_node,
           tres_usage_out_tot := out_tot\<rparr>)"

definition aggregate_tres_usage :: "jobacct \<Rightarrow> jobacct \<Rightarrow> jobacct" where
  "aggregate_tres_usage dest from = fold (aggregate_entry from) [0..<tres_count dest] dest"

definition add_cpu_time :: "u64 \<times> u32 \<Rightarrow> u64 \<times> u32 \<Rightarrow> u64 \<times> u32" where
  "add_cpu_time t t' =
     (let sec = fst t + fst t'; usec = snd t + snd t'
      in if usec \<ge> 1000000 then (sec + ucast (usec div 1000000), usec mod 1000000) else (sec, usec))"

definition jobacctinfo_aggregate :: "jobacct \<Rightarrow> jobacct option \<Rightarrow> jobacct" where
  "jobacctinfo_aggregate dest from_opt =
     (case from_opt of
        None \<Rightarrow> dest
      | Some from \<Rightarrow>
          let (usec, uusec) = add_cpu_time (user_cpu_sec dest, user_cpu_usec dest) (user_cpu_sec from, user_cpu_usec from);
              (ssec, susec) = add_cpu_time (sys_cpu_sec dest, sys_cpu_usec dest) (sys_cpu_sec from, sys_cpu_usec from);
              energy = (if consumed_energy dest \<noteq> NO_VAL64
                        then if consumed_energy from = NO_VAL64 then NO_VAL64 else consumed_energy dest + consumed_energy from
                        else consumed_energy dest)
          in aggregate_tres_usage
               (dest\<lparr>user_cpu_sec := usec, user_cpu_usec := uusec, sys_cpu_sec := ssec, sys_cpu_usec := susec,
                     act_cpufreq := act_cpufreq dest + act_cpufreq from, consumed_energy := energy\<rparr>) from)"

subsection \<open>What is added up\<close>

text \<open>Every array has one entry per resource.\<close>

definition acct_wf :: "jobacct \<Rightarrow> bool" where
  "acct_wf a \<longleftrightarrow> length (tres_ids a) = tres_count a
     \<and> (\<forall>xs \<in> {tres_usage_in_max a, tres_usage_in_max_nodeid a, tres_usage_in_max_taskid a, tres_usage_in_min a,
         tres_usage_in_min_nodeid a, tres_usage_in_min_taskid a, tres_usage_in_tot a, tres_usage_out_max a,
         tres_usage_out_max_nodeid a, tres_usage_out_max_taskid a, tres_usage_out_min a, tres_usage_out_min_nodeid a,
         tres_usage_out_min_taskid a, tres_usage_out_tot a}.
         length xs = tres_count a)"

definition pick :: "(u64 \<Rightarrow> u64 \<Rightarrow> bool) \<Rightarrow> u64 \<Rightarrow> u64 \<Rightarrow> u64" where
  "pick better old new = (if new \<noteq> INFINITE64 \<and> (old = INFINITE64 \<or> better new old) then new else old)"

definition known_usage :: "u64 \<Rightarrow> u64 option" where
  "known_usage x = (if x = INFINITE64 then None else Some x)"

lemma known_pick:
  "known_usage (pick (\<lambda>new old. old < new) old new) = combine_options max (known_usage old) (known_usage new)"
  "known_usage (pick (\<lambda>new old. old > new) old new) = combine_options min (known_usage old) (known_usage new)"
  by (auto simp: known_usage_def pick_def max_def min_def not_less)

lemma extreme_values:
  "fst (aggregate_extreme better i (v, t, n) (v', t', n')) = v[i := pick better (v ! i) (v' ! i)]"
  by (auto simp: aggregate_extreme_def pick_def)

lemma entry_values [simp]:
  "tres_usage_in_max (aggregate_entry f i a) = (tres_usage_in_max a)[i := pick (\<lambda>new old. old < new) (tres_usage_in_max a ! i) (tres_usage_in_max f ! i)]"
  "tres_usage_in_min (aggregate_entry f i a) = (tres_usage_in_min a)[i := pick (\<lambda>new old. old > new) (tres_usage_in_min a ! i) (tres_usage_in_min f ! i)]"
  "tres_usage_in_tot (aggregate_entry f i a) = aggregate_total i (tres_usage_in_tot a) (tres_usage_in_tot f)"
  "tres_usage_out_max (aggregate_entry f i a) = (tres_usage_out_max a)[i := pick (\<lambda>new old. old < new) (tres_usage_out_max a ! i) (tres_usage_out_max f ! i)]"
  "tres_usage_out_min (aggregate_entry f i a) = (tres_usage_out_min a)[i := pick (\<lambda>new old. old > new) (tres_usage_out_min a ! i) (tres_usage_out_min f ! i)]"
  "tres_usage_out_tot (aggregate_entry f i a) = aggregate_total i (tres_usage_out_tot a) (tres_usage_out_tot f)"
  "tres_count (aggregate_entry f i a) = tres_count a"
  by (simp_all add: aggregate_entry_def split_beta Let_def extreme_values)

lemma fold_update_nth:
  assumes "\<And>i a. arr (h i a) = (arr a)[i := g i (arr a ! i)]"
  shows "length (arr (fold h [0..<n] a)) = length (arr a)"
    and "i < length (arr a) \<Longrightarrow> arr (fold h [0..<n] a) ! i = (if i < n then g i (arr a ! i) else arr a ! i)"
proof -
  show len: "length (arr (fold h [0..<n] a)) = length (arr a)" for n by (induction n) (auto simp: assms)
  show "arr (fold h [0..<n] a) ! i = (if i < n then g i (arr a ! i) else arr a ! i)" if "i < length (arr a)"
  proof (induction n)
    case (Suc n)
    then show ?case using that len [of n] by (cases "i = n") (auto simp: assms)
  qed simp
qed

lemma tres_values:
  assumes "i < tres_count a" "acct_wf a"
  shows
  "known_usage (tres_usage_in_max (aggregate_tres_usage a f) ! i) = combine_options max (known_usage (tres_usage_in_max a ! i)) (known_usage (tres_usage_in_max f ! i))"
  "known_usage (tres_usage_in_min (aggregate_tres_usage a f) ! i) = combine_options min (known_usage (tres_usage_in_min a ! i)) (known_usage (tres_usage_in_min f ! i))"
  "known_usage (tres_usage_out_max (aggregate_tres_usage a f) ! i) = combine_options max (known_usage (tres_usage_out_max a ! i)) (known_usage (tres_usage_out_max f ! i))"
  "known_usage (tres_usage_out_min (aggregate_tres_usage a f) ! i) = combine_options min (known_usage (tres_usage_out_min a ! i)) (known_usage (tres_usage_out_min f ! i))"
proof -
  have "length (tres_usage_in_max a) = tres_count a" using assms by (simp add: acct_wf_def)
  with fold_update_nth(2) [of "tres_usage_in_max" "aggregate_entry f" "\<lambda>j x. pick (\<lambda>new old. old < new) x (tres_usage_in_max f ! j)" i a "tres_count a"] assms(1)
  show "known_usage (tres_usage_in_max (aggregate_tres_usage a f) ! i) = combine_options max (known_usage (tres_usage_in_max a ! i)) (known_usage (tres_usage_in_max f ! i))"
    by (simp add: aggregate_tres_usage_def known_pick)
  have "length (tres_usage_in_min a) = tres_count a" using assms by (simp add: acct_wf_def)
  with fold_update_nth(2) [of "tres_usage_in_min" "aggregate_entry f" "\<lambda>j x. pick (\<lambda>new old. old > new) x (tres_usage_in_min f ! j)" i a "tres_count a"] assms(1)
  show "known_usage (tres_usage_in_min (aggregate_tres_usage a f) ! i) = combine_options min (known_usage (tres_usage_in_min a ! i)) (known_usage (tres_usage_in_min f ! i))"
    by (simp add: aggregate_tres_usage_def known_pick)
  have "length (tres_usage_out_max a) = tres_count a" using assms by (simp add: acct_wf_def)
  with fold_update_nth(2) [of "tres_usage_out_max" "aggregate_entry f" "\<lambda>j x. pick (\<lambda>new old. old < new) x (tres_usage_out_max f ! j)" i a "tres_count a"] assms(1)
  show "known_usage (tres_usage_out_max (aggregate_tres_usage a f) ! i) = combine_options max (known_usage (tres_usage_out_max a ! i)) (known_usage (tres_usage_out_max f ! i))"
    by (simp add: aggregate_tres_usage_def known_pick)
  have "length (tres_usage_out_min a) = tres_count a" using assms by (simp add: acct_wf_def)
  with fold_update_nth(2) [of "tres_usage_out_min" "aggregate_entry f" "\<lambda>j x. pick (\<lambda>new old. old > new) x (tres_usage_out_min f ! j)" i a "tres_count a"] assms(1)
  show "known_usage (tres_usage_out_min (aggregate_tres_usage a f) ! i) = combine_options min (known_usage (tres_usage_out_min a ! i)) (known_usage (tres_usage_out_min f ! i))"
    by (simp add: aggregate_tres_usage_def known_pick)
qed

end
