(* ===== verification/Step_Complete.thy ===== *)
theory Step_Complete
  imports Reverse_Tree Job_Acct Bitstring_Count
begin

text \<open>
  The end of a job step on a node (\<^verbatim>\<open>src/slurmd/slurmstepd/mgr.c\<close>, \<^verbatim>\<open>req.c\<close> and
  \<^verbatim>\<open>slurmstepd.c\<close>). The step daemon of a node notes in a bit string which of the ranks below
  it have ended; when all have, or a time is over, it tells its parent in the reverse tree, or
  the controller, which ranks have: one message for each run of consecutive ranks.

  The mutex of \<^verbatim>\<open>step_complete\<close> makes each operation here one step. A position outside
  the bit string is \<open>None\<close>.
\<close>

definition SIG_OOM :: u32 where
  "SIG_OOM = 253"

definition EPERM :: int where
  "EPERM = 1"

definition ETIMEDOUT :: int where
  "ETIMEDOUT = 110"

record step_complete =
  sc_rank :: int
  sc_depth :: int
  sc_parent_rank :: int
  sc_children :: int
  sc_max_depth :: int
  sc_wait_children :: bool
  sc_bits :: "bitstr option"
  sc_step_rc :: u32
  sc_jobacct :: jobacct

text \<open>What the daemon of the node sends to the step daemon, and the state it starts from.\<close>

definition step_complete_init :: "u32 list \<Rightarrow> int \<Rightarrow> tree_info \<Rightarrow> step_complete" where
  "step_complete_init ids rank ti =
     \<lparr>sc_rank = rank, sc_depth = ti_depth ti, sc_parent_rank = ti_parent ti, sc_children = ti_children ti,
      sc_max_depth = ti_max_depth ti, sc_wait_children = True,
      sc_bits = (if ti_children ti \<noteq> 0 then Some (bit_alloc (nat (ti_children ti))) else None),
      sc_step_rc = 0, sc_jobacct = jobacctinfo_create (Some ids) (length ids) None\<rparr>"

subsection \<open>The exit code of a node\<close>

record task_exit =
  killed_by_cmd :: bool
  aborted :: bool
  estatus :: u32

text \<open>\<^verbatim>\<open>WIFSIGNALED\<close> of the C library.\<close>

definition WIFSIGNALED :: "u32 \<Rightarrow> bool" where
  "WIFSIGNALED status \<longleftrightarrow> 0 < status AND 0x7f \<and> status AND 0x7f < 0x7f"

definition max_int :: "u32 \<Rightarrow> u32 \<Rightarrow> u32" where
  "max_int a b = (if sint b < sint a then a else b)"

fun exit_code_loop :: "u32 \<Rightarrow> task_exit list \<Rightarrow> u32 \<Rightarrow> u32" where
  "exit_code_loop children_rc [] step_rc = step_rc"
| "exit_code_loop children_rc (t # ts) step_rc =
     (if killed_by_cmd t then exit_code_loop children_rc ts step_rc
      else if aborted t then estatus t
      else if WIFSIGNALED (estatus t) then estatus t
      else if estatus t AND 0xff = SIG_OOM then exit_code_loop children_rc ts (estatus t)
      else if step_rc AND 0xff \<noteq> SIG_OOM then exit_code_loop children_rc ts (max_int children_rc (estatus t))
      else exit_code_loop children_rc ts step_rc)"

definition get_exit_code :: "bool \<Rightarrow> u32 \<Rightarrow> task_exit list \<Rightarrow> u32" where
  "get_exit_code extern_step children_rc tasks =
     (if extern_step then 0
      else let step_rc = exit_code_loop children_rc tasks NO_VAL32
           in if step_rc = NO_VAL32 \<and> tasks \<noteq> [] then estatus (hd tasks) else step_rc)"

subsection \<open>Waiting for the ranks below\<close>

text \<open>
  The wait returns when no bit is clear any more or the time is over; then no more
  completions are taken.
\<close>

definition wait_over :: "step_complete \<Rightarrow> bool \<Rightarrow> bool" where
  "wait_over sc timed_out \<longleftrightarrow>
     (case sc_bits sc of
        None \<Rightarrow> True
      | Some b \<Rightarrow> sc_children sc \<le> 0 \<or> bit_clear_count b = 0 \<or> timed_out)"

definition wait_done :: "step_complete \<Rightarrow> bool \<Rightarrow> task_exit list \<Rightarrow> step_complete" where
  "wait_done sc extern_step tasks =
     sc\<lparr>sc_step_rc := get_exit_code extern_step (sc_step_rc sc) tasks, sc_wait_children := False\<rparr>"

text \<open>
  A completion of the ranks \<open>first\<close> to \<open>last\<close> that arrives: the answer is a return code and an
  error number.
\<close>

definition handle_completion ::
  "step_complete \<Rightarrow> bool \<Rightarrow> int \<Rightarrow> int \<Rightarrow> u32 \<Rightarrow> jobacct \<Rightarrow> ((int \<times> int) \<times> step_complete) option" where
  "handle_completion sc authorized first final rc acct =
     (let taken = sc\<lparr>sc_step_rc := max_int (sc_step_rc sc) rc, sc_jobacct := jobacctinfo_aggregate (sc_jobacct sc) (Some acct)\<rparr>
      in if \<not> authorized then Some ((- 1, EPERM), sc)
         else if \<not> sc_wait_children sc then Some ((- 1, ETIMEDOUT), sc)
         else case sc_bits sc of
             None \<Rightarrow> Some ((0, 0), taken)
           | Some b \<Rightarrow>
               if sc_rank sc < 0 then Some ((0, 0), taken)
               else let first_bit = first - (sc_rank sc + 1); last_bit = final - (sc_rank sc + 1); last_bit_range = last_bit + 1
                    in if \<not> (0 \<le> first_bit \<and> 0 \<le> last_bit_range \<and> bit_valid b (nat first_bit)) then None
                       else let set_bits = bit_set_count_range b (nat first_bit) (nat last_bit_range)
                            in if set_bits = 0
                               then if \<not> (0 \<le> last_bit \<and> bit_valid b (nat last_bit)) then None
                                    else Some ((0, 0), taken\<lparr>sc_bits := Some (bit_nset b (nat first_bit) (nat last_bit))\<rparr>)
                               else if int set_bits = last_bit_range - first_bit then Some ((0, 0), sc)
                               else Some ((0, 0), sc))"

subsection \<open>Telling the parent\<close>

function getrange_loop :: "bitstr \<Rightarrow> nat \<Rightarrow> nat \<Rightarrow> (nat \<times> nat) option \<Rightarrow> (nat \<times> nat) option" where
  "getrange_loop b sz i found =
     (if i < sz
      then if bit_test b i
           then getrange_loop b sz (i + 1) (case found of Some (first, _) \<Rightarrow> Some (first, i) | None \<Rightarrow> Some (i, i))
           else (case found of None \<Rightarrow> getrange_loop b sz (i + 1) None | Some (first, _) \<Rightarrow> Some (first, i - 1))
      else found)"
  by pat_completeness auto
termination
  by (relation "measure (\<lambda>(b, sz, i, found). sz - i)") auto

declare getrange_loop.simps [simp del]

definition bit_getrange :: "bitstr option \<Rightarrow> nat \<Rightarrow> nat \<Rightarrow> (nat \<times> nat) option" where
  "bit_getrange bits start sz = (case bits of None \<Rightarrow> None | Some b \<Rightarrow> getrange_loop b sz start None)"

lemma getrange_loop_spec:
  assumes "getrange_loop b sz i found = res"
    and "\<And>f l. found = Some (f, l) \<Longrightarrow> f \<le> l \<and> l + 1 = i \<and> (\<forall>k. f \<le> k \<and> k \<le> l \<longrightarrow> bit_test b k)"
    and "i \<le> sz"
  shows "case res of
      None \<Rightarrow> found = None \<and> (\<forall>k. i \<le> k \<and> k < sz \<longrightarrow> \<not> bit_test b k)
    | Some (f, l) \<Rightarrow> f \<le> l \<and> l < sz \<and> (\<forall>k. f \<le> k \<and> k \<le> l \<longrightarrow> bit_test b k) \<and> (l + 1 < sz \<longrightarrow> \<not> bit_test b (l + 1))
        \<and> (case found of Some (f', l') \<Rightarrow> f = f' \<and> l' \<le> l | None \<Rightarrow> i \<le> f \<and> (\<forall>k. i \<le> k \<and> k < f \<longrightarrow> \<not> bit_test b k))"
  using assms
proof (induction b sz i found arbitrary: res rule: getrange_loop.induct)
  case (1 b sz i found)
  show ?case
  proof (cases "i < sz \<and> bit_test b i")
    case True
    let ?f = "case found of Some (first, _) \<Rightarrow> Some (first, i) | None \<Rightarrow> Some (i, i)"
    have inv: "f \<le> l \<and> l + 1 = i + 1 \<and> (\<forall>k. f \<le> k \<and> k \<le> l \<longrightarrow> bit_test b k)" if "?f = Some (f, l)" for f l
    proof (cases found)
      case (Some fl)
      then have "found = Some (f, snd fl)" "l = i" using that by (auto split: prod.splits)
      with "1.prems"(2) [of f "snd fl"] True show ?thesis by (auto simp: le_Suc_eq)
    qed (use that True in auto)
    have r: "getrange_loop b sz (i + 1) ?f = res" using "1.prems"(1) True by (subst (asm) getrange_loop.simps) simp
    show ?thesis using "1.IH"(1) [OF _ _ r inv] True "1.prems"(2) by (fastforce split: option.splits prod.splits)
  next
    case False
    show ?thesis
    proof (cases "i < sz \<and> found = None")
      case True
      then have "getrange_loop b sz (i + 1) None = res" using False "1.prems"(1) by (subst (asm) getrange_loop.simps) simp
      from "1.IH"(2) [OF _ _ _ this] True False show ?thesis
        by (auto split: option.splits prod.splits) (metis Suc_leI le_neq_implies_less)+
    next
      case no: False
      have "res = found" if "\<not> i < sz" using "1.prems"(1) that by (subst (asm) getrange_loop.simps) simp
      moreover have "\<exists>f l. found = Some (f, l) \<and> res = Some (f, i - 1)" if "i < sz"
        using "1.prems"(1) that no False by (subst (asm) getrange_loop.simps) (auto split: option.splits)
      ultimately show ?thesis using "1.prems"(2,3) False by (cases "i < sz") (fastforce split: option.splits prod.splits)+
    qed
  qed
qed

lemma bit_getrange_bounds:
  assumes "bit_getrange bits start sz = Some (f, l)"
  shows "start \<le> f" "f \<le> l" "l < sz" "start < sz"
proof -
  obtain b where b: "bits = Some b" using assms by (cases bits) (auto simp: bit_getrange_def)
  have "start \<le> sz"
  proof (rule ccontr)
    assume "\<not> start \<le> sz"
    then show False using assms b by (simp add: bit_getrange_def getrange_loop.simps)
  qed
  then show "start \<le> f" "f \<le> l" "l < sz"
    using getrange_loop_spec [OF refl, where b = b and sz = sz and i = start and found = None] assms b by (auto simp: bit_getrange_def)
  then show "start < sz" by simp
qed

text \<open>
  The loop that sends one message for each run of set bits. The rank itself has no bit; it
  is put before a run that starts with the first bit, and is sent alone when there is none.
\<close>

function completion_ranges :: "bitstr option \<Rightarrow> int \<Rightarrow> nat \<Rightarrow> nat \<Rightarrow> bool \<Rightarrow> (int \<times> int) list" where
  "completion_ranges bits rank start sz sent_own =
     (case bit_getrange bits start sz of
        None \<Rightarrow> if sent_own then [] else [(rank, rank)]
      | Some (first, final) \<Rightarrow>
          let own = (start = 0 \<and> first = 0); first' = (if own then - 1 else int first)
          in (first' + rank + 1, int final + rank + 1) # completion_ranges bits rank (final + 1) sz (sent_own \<or> own))"
  by pat_completeness auto
termination
  by (relation "measure (\<lambda>(bits, rank, start, sz, sent_own). sz - start)", simp, clarsimp) (frule bit_getrange_bounds(1), frule bit_getrange_bounds(2), drule bit_getrange_bounds(4), simp)

declare completion_ranges.simps [simp del]

definition step_complete_ranges :: "step_complete \<Rightarrow> (int \<times> int) list" where
  "step_complete_ranges sc =
     (let sz = (case sc_bits sc of Some b \<Rightarrow> bit_size b | None \<Rightarrow> 0)
      in if sz = 0 then [(sc_rank sc, sc_rank sc)]
         else completion_ranges (sc_bits sc) (sc_rank sc) 0 sz False)"

text \<open>
  One message. The usage of the step goes with the first message that the daemon sends, the
  others carry none.
\<close>

record completion_msg =
  range_first :: u32
  range_last :: u32
  cm_step_rc :: u32
  cm_jobacct :: jobacct

definition one_step_complete_msg ::
  "u32 list \<Rightarrow> bool \<Rightarrow> bool \<Rightarrow> jobacct \<Rightarrow> int \<times> int \<Rightarrow> step_complete \<times> bool \<Rightarrow> completion_msg \<times> step_complete \<times> bool" where
  "one_step_complete_msg ids batch oom_error step_acct rng st =
     (case (rng, st) of ((first, final), (sc, acct_sent)) \<Rightarrow>
        let first = (if batch \<and> first = - 1 then 0 else first);
            final = (if batch \<and> final = - 1 then 0 else final);
            rc = (if oom_error then SIG_OOM else sc_step_rc sc);
            total = jobacctinfo_aggregate (sc_jobacct sc) (Some step_acct)
        in if acct_sent
           then (\<lparr>range_first = of_int first, range_last = of_int final, cm_step_rc = rc,
                   cm_jobacct = jobacctinfo_create (Some ids) (length ids) None\<rparr>, sc, acct_sent)
           else (\<lparr>range_first = of_int first, range_last = of_int final, cm_step_rc = rc,
                   cm_jobacct = copy_tres_usage (Some ids) total\<rparr>, sc\<lparr>sc_jobacct := total\<rparr>, True))"

fun send_msgs ::
  "u32 list \<Rightarrow> bool \<Rightarrow> bool \<Rightarrow> jobacct \<Rightarrow> (int \<times> int) list \<Rightarrow> step_complete \<times> bool \<Rightarrow> completion_msg list \<times> step_complete \<times> bool" where
  "send_msgs ids batch oom_error step_acct [] st = ([], st)"
| "send_msgs ids batch oom_error step_acct (r # rs) st =
     (let (m, st') = one_step_complete_msg ids batch oom_error step_acct r st;
          (ms, st'') = send_msgs ids batch oom_error step_acct rs st'
      in (m # ms, st''))"

definition stepd_send_step_complete_msgs ::
  "u32 list \<Rightarrow> bool \<Rightarrow> bool \<Rightarrow> jobacct \<Rightarrow> step_complete \<times> bool \<Rightarrow> completion_msg list \<times> step_complete \<times> bool" where
  "stepd_send_step_complete_msgs ids batch oom_error step_acct st =
     send_msgs ids batch oom_error step_acct (step_complete_ranges (fst st)) st"

subsection \<open>The exit code: what the loop over the tasks keeps\<close>

text \<open>
  The branch for a task that ran out of memory is dead: its status counts as the status of a
  task that was ended by a signal, and that test comes first.
\<close>

lemma oom_is_signaled: "status AND 0xff = SIG_OOM \<Longrightarrow> WIFSIGNALED status"
proof -
  assume "status AND 0xff = SIG_OOM"
  then have "(status AND 0xff) AND 0x7f = SIG_OOM AND 0x7f" by simp
  then have "status AND 0x7f = 0x7d" by (simp add: SIG_OOM_def and.assoc)
  then show ?thesis by (simp add: WIFSIGNALED_def)
qed

text \<open>
  The loop does not keep the largest code: each task that ended by itself replaces the code of
  the tasks before it, so a failure is forgotten when a later task succeeds; and a task ended
  by a signal ends the loop, so that a later task that called abort is not seen.
\<close>

lemma exit_code_keeps_last:
  assumes "\<not> killed_by_cmd t" "\<not> aborted t" "\<not> WIFSIGNALED (estatus t)" "children_rc AND 0xff \<noteq> SIG_OOM"
    and "\<forall>u \<in> set ts. \<not> aborted u \<and> \<not> WIFSIGNALED (estatus u)"
  shows "exit_code_loop children_rc (ts @ [t]) NO_VAL32 = max_int children_rc (estatus t)"
proof -
  have inv: "exit_code_loop children_rc (ts @ [t]) rc = max_int children_rc (estatus t)" if "rc AND 0xff \<noteq> SIG_OOM" for rc
    using assms(5) that
  proof (induction ts arbitrary: rc)
    case Nil
    then show ?case using assms(1-3) oom_is_signaled [of "estatus t"] by auto
  next
    case (Cons u us)
    have u: "\<not> aborted u" "\<not> WIFSIGNALED (estatus u)" "estatus u AND 0xff \<noteq> SIG_OOM"
      using Cons.prems oom_is_signaled [of "estatus u"] by auto
    then have "max_int children_rc (estatus u) AND 0xff \<noteq> SIG_OOM" using assms(4) by (simp add: max_int_def)
    with u Cons show ?case by auto
  qed
  show ?thesis by (rule inv) (simp add: NO_VAL32_def SIG_OOM_def)
qed

lemma exit_code_forgets:
  "get_exit_code False 0 [\<lparr>killed_by_cmd = False, aborted = False, estatus = 256\<rparr>, \<lparr>killed_by_cmd = False, aborted = False, estatus = 0\<rparr>] = 0"
  "get_exit_code False 0 [\<lparr>killed_by_cmd = False, aborted = False, estatus = 9\<rparr>, \<lparr>killed_by_cmd = False, aborted = True, estatus = 1536\<rparr>] = 9"
  by (simp_all add: get_exit_code_def WIFSIGNALED_def SIG_OOM_def NO_VAL32_def max_int_def Let_def)

subsection \<open>The messages and the bits they stand for\<close>

definition rank_in :: "int \<Rightarrow> int \<times> int \<Rightarrow> bool" where
  "rank_in q r \<longleftrightarrow> fst r \<le> q \<and> q \<le> snd r"

definition apart :: "int \<times> int \<Rightarrow> int \<times> int \<Rightarrow> bool" where
  "apart r r' \<longleftrightarrow> snd r < fst r' \<or> snd r' < fst r"

lemma bit_getrange_bits:
  "bit_getrange (Some b) start sz = None \<Longrightarrow> start \<le> k \<Longrightarrow> k < sz \<Longrightarrow> \<not> bit_test b k"
  "bit_getrange (Some b) start sz = Some (f, l) \<Longrightarrow> f \<le> k \<Longrightarrow> k \<le> l \<Longrightarrow> bit_test b k"
  "bit_getrange (Some b) start sz = Some (f, l) \<Longrightarrow> start \<le> k \<Longrightarrow> k < f \<Longrightarrow> \<not> bit_test b k"
proof -
  note spec = getrange_loop_spec [OF refl, where b = b and sz = sz and i = start and found = None]
  show "bit_getrange (Some b) start sz = None \<Longrightarrow> start \<le> k \<Longrightarrow> k < sz \<Longrightarrow> \<not> bit_test b k"
    using spec by (auto simp: bit_getrange_def)
  assume a: "bit_getrange (Some b) start sz = Some (f, l)"
  then have "start \<le> sz" using bit_getrange_bounds(4) by fastforce
  with a show "f \<le> k \<Longrightarrow> k \<le> l \<Longrightarrow> bit_test b k" "start \<le> k \<Longrightarrow> k < f \<Longrightarrow> \<not> bit_test b k"
    using spec by (auto simp: bit_getrange_def)
qed

lemma completion_ranges_spec:
  assumes "completion_ranges (Some b) rank start sz sent = rs" "sent \<Longrightarrow> 0 < start"
  shows "(\<forall>r \<in> set rs. fst r \<le> snd r \<and> snd r \<le> rank + int sz
        \<and> (start = 0 \<and> fst r = rank \<or> r = (rank, rank) \<and> \<not> sent \<or> rank + 1 + int start \<le> fst r))
    \<and> (\<forall>q. (\<exists>r \<in> set rs. rank_in q r) \<longleftrightarrow> \<not> sent \<and> q = rank \<or> (\<exists>i. start \<le> i \<and> i < sz \<and> bit_test b i \<and> q = rank + 1 + int i))
    \<and> sorted_wrt apart rs"
  using assms
proof (induction "Some b" rank start sz sent arbitrary: rs rule: completion_ranges.induct)
  case (1 rank start sz sent)
  show ?case
  proof (cases "bit_getrange (Some b) start sz")
    case None
    then have "rs = (if sent then [] else [(rank, rank)])" using "1.prems"(1) by (simp add: completion_ranges.simps)
    moreover have "\<not> (\<exists>i. start \<le> i \<and> i < sz \<and> bit_test b i \<and> q = rank + 1 + int i)" for q using bit_getrange_bits(1) [OF None] by blast
    ultimately show ?thesis by (auto simp: rank_in_def)
  next
    case (Some fl)
    obtain f l where fl: "bit_getrange (Some b) start sz = Some (f, l)" using Some by (cases fl) auto
    define own where "own \<longleftrightarrow> start = 0 \<and> f = 0"
    define rs' where "rs' = completion_ranges (Some b) rank (l + 1) sz (sent \<or> own)"
    have rs: "rs = (if own then rank else rank + 1 + int f, rank + 1 + int l) # rs'"
      using "1.prems"(1) [symmetric, unfolded completion_ranges.simps [of "Some b" rank start sz sent]] fl
      by (cases "start = 0 \<and> f = 0") (auto simp: own_def rs'_def Let_def)
    note bounds = bit_getrange_bounds [OF fl] and bits = bit_getrange_bits(2,3) [OF fl]
    have IH: "\<forall>r \<in> set rs'. fst r \<le> snd r \<and> snd r \<le> rank + int sz
        \<and> (r = (rank, rank) \<and> \<not> (sent \<or> own) \<or> rank + 2 + int l \<le> fst r)"
      "\<And>q. (\<exists>r \<in> set rs'. rank_in q r) \<longleftrightarrow> \<not> (sent \<or> own) \<and> q = rank \<or> (\<exists>i. l + 1 \<le> i \<and> i < sz \<and> bit_test b i \<and> q = rank + 1 + int i)"
      "sorted_wrt apart rs'"
      using "1.hyps" [of "(f, l)" f l own "if own then - 1 else int f" rs'] fl own_def rs'_def by auto
    have "(\<exists>r \<in> set rs. rank_in q r) \<longleftrightarrow> \<not> sent \<and> q = rank \<or> (\<exists>i. start \<le> i \<and> i < sz \<and> bit_test b i \<and> q = rank + 1 + int i)" for q
    proof -
      have head: "rank_in q (if own then rank else rank + 1 + int f, rank + 1 + int l) \<longleftrightarrow>
          own \<and> q = rank \<or> (\<exists>i. f \<le> i \<and> i \<le> l \<and> q = rank + 1 + int i)"
      proof (cases "own \<and> q = rank")
        case False
        then have "rank_in q (if own then rank else rank + 1 + int f, rank + 1 + int l) \<longleftrightarrow> rank + 1 + int f \<le> q \<and> q \<le> rank + 1 + int l"
          by (auto simp: rank_in_def own_def)
        also have "\<dots> \<longleftrightarrow> (\<exists>i. f \<le> i \<and> i \<le> l \<and> q = rank + 1 + int i)"
          by (auto intro: exI [of _ "nat (q - rank - 1)"])
        finally show ?thesis using False by blast
      qed (auto simp: rank_in_def)
      have split: "(\<exists>i. start \<le> i \<and> i < sz \<and> bit_test b i \<and> q = rank + 1 + int i) \<longleftrightarrow>
          (\<exists>i. f \<le> i \<and> i \<le> l \<and> q = rank + 1 + int i) \<or> (\<exists>i. l + 1 \<le> i \<and> i < sz \<and> bit_test b i \<and> q = rank + 1 + int i)"
      proof (intro iffI)
        assume "\<exists>i. start \<le> i \<and> i < sz \<and> bit_test b i \<and> q = rank + 1 + int i"
        then obtain i where i: "start \<le> i" "i < sz" "bit_test b i" "q = rank + 1 + int i" by auto
        then have "f \<le> i" using bits(2) [of i] by (cases "i < f") auto
        then show "(\<exists>i. f \<le> i \<and> i \<le> l \<and> q = rank + 1 + int i) \<or> (\<exists>i. l + 1 \<le> i \<and> i < sz \<and> bit_test b i \<and> q = rank + 1 + int i)"
          using i by (cases "i \<le> l") auto
      next
        assume "(\<exists>i. f \<le> i \<and> i \<le> l \<and> q = rank + 1 + int i) \<or> (\<exists>i. l + 1 \<le> i \<and> i < sz \<and> bit_test b i \<and> q = rank + 1 + int i)"
        then obtain i where "q = rank + 1 + int i" "f \<le> i \<and> i \<le> l \<or> l + 1 \<le> i \<and> i < sz \<and> bit_test b i" by blast
        then show "\<exists>i. start \<le> i \<and> i < sz \<and> bit_test b i \<and> q = rank + 1 + int i"
          using bounds bits(1) [of i] by (intro exI [of _ i]) auto
      qed
      have "own \<longrightarrow> \<not> sent" using "1.prems"(2) by (auto simp: own_def)
      then show ?thesis unfolding rs using head split IH(2) [of q] by auto
    qed
    moreover have "sorted_wrt apart rs"
      unfolding rs using IH(1,3) by (fastforce simp: apart_def)
    moreover have "\<forall>r \<in> set rs. fst r \<le> snd r \<and> snd r \<le> rank + int sz
        \<and> (start = 0 \<and> fst r = rank \<or> r = (rank, rank) \<and> \<not> sent \<or> rank + 1 + int start \<le> fst r)"
    proof
      fix r assume "r \<in> set rs"
      then consider "r = (if own then rank else rank + 1 + int f, rank + 1 + int l)" | "r \<in> set rs'" unfolding rs by auto
      then show "fst r \<le> snd r \<and> snd r \<le> rank + int sz
        \<and> (start = 0 \<and> fst r = rank \<or> r = (rank, rank) \<and> \<not> sent \<or> rank + 1 + int start \<le> fst r)"
      proof cases
        case 1
        then show ?thesis using bounds by (simp add: own_def)
      next
        case 2
        with IH(1) have "fst r \<le> snd r \<and> snd r \<le> rank + int sz" "r = (rank, rank) \<and> \<not> (sent \<or> own) \<or> rank + 2 + int l \<le> fst r"
          by blast+
        then show ?thesis using bounds by auto
      qed
    qed
    ultimately show ?thesis by blast
  qed
qed

end
