(* ===== verification/Step_Ctl.thy ===== *)
theory Step_Ctl
  imports Step_Complete Rate_Limit
begin

text \<open>
  The end of a job step at the controller (\<^verbatim>\<open>src/slurmctld/step_mgr.c\<close>): the completions of
  ranges of nodes set the bits of the nodes that have ended, the usage they carry is added to
  that of the step, and the step is deleted with its last node.

  Left out: the external sensors, the switch plugin behind the release of its windows, what
  \<^verbatim>\<open>_internal_step_complete\<close> gives back to the job, the waking of pending steps and, in the
  job, the other steps.
\<close>

datatype step_error = ESLURM_INVALID_JOB_ID | ESLURM_JOB_PENDING | ESLURM_USER_ID_MISSING | STEP_EINVAL

record ctl_step_record =
  sr_batch_script :: bool
  sr_pending_step :: bool
  sr_cpu_count :: u32
  sr_jobacct :: "jobacct option"
  sr_node_bitmap :: bitstr
  sr_exit_node_bitmap :: "bitstr option"
  sr_exit_code :: u32
  sr_no_sig_fail :: bool
  sr_switch_job :: bool

subsection \<open>Usage with another list of resources\<close>

definition recalloc_array :: "nat \<Rightarrow> u64 list \<Rightarrow> u64 list" where
  "recalloc_array cnt xs = take cnt xs @ replicate (cnt - length xs) INFINITE64"

definition recalloc_jobacct :: "jobacct \<Rightarrow> nat \<Rightarrow> jobacct" where
  "recalloc_jobacct a cnt =
     a\<lparr>tres_count := cnt, tres_ids := take cnt (tres_ids a) @ replicate (cnt - length (tres_ids a)) NO_VAL32,
       tres_usage_in_max := recalloc_array cnt (tres_usage_in_max a),
       tres_usage_in_max_nodeid := recalloc_array cnt (tres_usage_in_max_nodeid a),
       tres_usage_in_max_taskid := recalloc_array cnt (tres_usage_in_max_taskid a),
       tres_usage_in_min := recalloc_array cnt (tres_usage_in_min a),
       tres_usage_in_min_nodeid := recalloc_array cnt (tres_usage_in_min_nodeid a),
       tres_usage_in_min_taskid := recalloc_array cnt (tres_usage_in_min_taskid a),
       tres_usage_in_tot := recalloc_array cnt (tres_usage_in_tot a),
       tres_usage_out_max := recalloc_array cnt (tres_usage_out_max a),
       tres_usage_out_max_nodeid := recalloc_array cnt (tres_usage_out_max_nodeid a),
       tres_usage_out_max_taskid := recalloc_array cnt (tres_usage_out_max_taskid a),
       tres_usage_out_min := recalloc_array cnt (tres_usage_out_min a),
       tres_usage_out_min_nodeid := recalloc_array cnt (tres_usage_out_min_nodeid a),
       tres_usage_out_min_taskid := recalloc_array cnt (tres_usage_out_min_taskid a),
       tres_usage_out_tot := recalloc_array cnt (tres_usage_out_tot a)\<rparr>"

text \<open>
  The search for the place of a resource, from \<open>j\<close>: the place of its identifier and the first
  free place, \<open>- 1\<close> for none. The test \<^verbatim>\<open>if (found)\<close> of the source holds of \<open>- 1\<close> too.
\<close>

function tres_place :: "u32 list \<Rightarrow> u32 \<Rightarrow> nat \<Rightarrow> nat \<Rightarrow> int \<Rightarrow> int \<Rightarrow> int \<times> int" where
  "tres_place ids want cnt j2 j_no_val found =
     (if j2 < cnt
      then let free = (ids ! j2 = NO_VAL32); j_no_val = (if free then int j2 else j_no_val)
           in if free \<and> found \<noteq> 0 then (j_no_val, found)
              else if ids ! j2 \<noteq> want then tres_place ids want cnt (j2 + 1) j_no_val found
              else if j_no_val \<noteq> - 1 then (j_no_val, int j2)
              else tres_place ids want cnt (j2 + 1) j_no_val (int j2)
      else (j_no_val, found))"
  by pat_completeness auto
termination
  by (relation "measure (\<lambda>(ids, want, cnt, j2, n, f). cnt - j2)") (auto simp: Let_def)

declare tres_place.simps [simp del]

text \<open>The swap of two entries goes through a variable of 32 bits, of a usage as of an identifier.\<close>

definition swap_usage :: "nat \<Rightarrow> nat \<Rightarrow> u64 list \<Rightarrow> u64 list" where
  "swap_usage j k xs = (let tmp = (ucast (xs ! j) :: u32) in xs[j := xs ! k, k := ucast tmp])"

definition swap_tres :: "nat \<Rightarrow> nat \<Rightarrow> jobacct \<Rightarrow> jobacct" where
  "swap_tres j k a =
     a\<lparr>tres_ids := (tres_ids a)[j := tres_ids a ! k, k := tres_ids a ! j],
       tres_usage_in_max := swap_usage j k (tres_usage_in_max a),
       tres_usage_in_max_nodeid := swap_usage j k (tres_usage_in_max_nodeid a),
       tres_usage_in_max_taskid := swap_usage j k (tres_usage_in_max_taskid a),
       tres_usage_in_min := swap_usage j k (tres_usage_in_min a),
       tres_usage_in_min_nodeid := swap_usage j k (tres_usage_in_min_nodeid a),
       tres_usage_in_min_taskid := swap_usage j k (tres_usage_in_min_taskid a),
       tres_usage_in_tot := swap_usage j k (tres_usage_in_tot a),
       tres_usage_out_max := swap_usage j k (tres_usage_out_max a),
       tres_usage_out_max_nodeid := swap_usage j k (tres_usage_out_max_nodeid a),
       tres_usage_out_max_taskid := swap_usage j k (tres_usage_out_max_taskid a),
       tres_usage_out_min := swap_usage j k (tres_usage_out_min a),
       tres_usage_out_min_nodeid := swap_usage j k (tres_usage_out_min_nodeid a),
       tres_usage_out_min_taskid := swap_usage j k (tres_usage_out_min_taskid a),
       tres_usage_out_tot := swap_usage j k (tres_usage_out_tot a)\<rparr>"

definition place_tres :: "jobacct \<Rightarrow> nat \<Rightarrow> jobacct \<Rightarrow> jobacct" where
  "place_tres dest i from =
     (if tres_ids dest ! i = tres_ids from ! i then from
      else let (j_no_val, found) = tres_place (tres_ids from) (tres_ids dest ! i) (tres_count from) i (- 1) (- 1);
               j2 = (if found = - 1 then j_no_val else found)
           in if j2 = - 1 then from else swap_tres i (nat j2) from)"

definition match_tres :: "jobacct \<Rightarrow> jobacct \<Rightarrow> jobacct" where
  "match_tres dest from =
     (if tres_count dest = tres_count from then from
      else let from = (if tres_count dest > tres_count from then recalloc_jobacct from (tres_count dest) else from);
               from = fold (place_tres dest) [0..<tres_count dest] from
           in if tres_count dest < tres_count from then recalloc_jobacct from (tres_count dest) else from)"

subsection \<open>A completion\<close>

text \<open>
  The result is an error, or the number of nodes that have not ended, the exit code of the
  step and whether the step is finished. The step is changed in both cases.
\<close>

definition add_usage :: "jobacct option \<Rightarrow> jobacct option \<Rightarrow> jobacct option" where
  "add_usage dest from =
     (case (dest, from) of
        (Some d, Some f) \<Rightarrow> Some (jobacctinfo_aggregate d (Some (match_tres d f)))
      | _ \<Rightarrow> dest)"

definition average_frequency :: "ctl_step_record \<Rightarrow> ctl_step_record" where
  "average_frequency st =
     (case sr_jobacct st of
        Some a \<Rightarrow> if sr_cpu_count st \<noteq> 0
                 then st\<lparr>sr_jobacct := Some (a\<lparr>act_cpufreq := act_cpufreq a div sr_cpu_count st\<rparr>)\<rparr> else st
      | None \<Rightarrow> st)"

text \<open>The bits of the nodes that have ended, made with the first completion, and their number.\<close>

definition open_exit_bitmap :: "ctl_step_record \<Rightarrow> u32 \<Rightarrow> bitstr \<times> ctl_step_record" where
  "open_exit_bitmap st rc =
     (case sr_exit_node_bitmap st of
        None \<Rightarrow> (let e = bit_alloc (bit_set_count (sr_node_bitmap st))
                in (e, st\<lparr>sr_exit_node_bitmap := Some e, sr_exit_code := rc\<rparr>))
      | Some e \<Rightarrow> (e, if rc = SIG_OOM \<or> rc > sr_exit_code st then st\<lparr>sr_exit_code := rc\<rparr> else st))"

text \<open>A range that was noted as a whole is not added again; one noted in part is, as the source explains.\<close>

definition note_range :: "ctl_step_record \<Rightarrow> bitstr \<Rightarrow> nat \<Rightarrow> nat \<Rightarrow> jobacct option \<Rightarrow> bitstr \<times> ctl_step_record" where
  "note_range st e first final acct =
     (let range_bits = final + 1 - first; set_bits = bit_set_count_range e first (final + 1)
      in if set_bits \<noteq> 0 \<and> set_bits = range_bits then (e, st)
         else let e' = bit_nset e first final
              in (e', st\<lparr>sr_exit_node_bitmap := Some e', sr_jobacct := add_usage (sr_jobacct st) acct\<rparr>))"

definition step_partial_comp_step ::
  "ctl_step_record \<Rightarrow> u32 \<Rightarrow> u32 \<Rightarrow> u32 \<Rightarrow> jobacct option \<Rightarrow> bool \<Rightarrow> ctl_step_record \<times> (step_error + nat \<times> u32 \<times> bool)" where
  "step_partial_comp_step st first final rc acct finish =
     (if sr_batch_script st then (st, Inl ESLURM_INVALID_JOB_ID)
      else let (e, st) = open_exit_bitmap (average_frequency st) rc; nodes = bit_size e
           in if unat first \<ge> nodes \<or> unat final \<ge> nodes \<or> first > final then (st, Inl STEP_EINVAL)
              else let st = (if sr_no_sig_fail st \<and> WIFSIGNALED rc then st\<lparr>sr_exit_code := 0\<rparr> else st);
                       (e', st) = note_range st e (unat first) (unat final) acct;
                       rem = bit_clear_count e';
                       st = (if rem = 0 then st\<lparr>sr_switch_job := False\<rparr> else st)
                   in (st, Inr (rem, sr_exit_code st, rem = 0 \<and> finish \<and> \<not> sr_pending_step st)))"

text \<open>The request: the job and the step must exist, the job run, the sender be its owner or an administrator.\<close>

record comp_job =
  cj_pending :: bool
  cj_user_id :: u32
  cj_step :: "ctl_step_record option"

definition step_partial_comp ::
  "u32 \<Rightarrow> comp_job option \<Rightarrow> u32 \<Rightarrow> u32 \<Rightarrow> u32 \<Rightarrow> u32 \<Rightarrow> jobacct option \<Rightarrow> bool \<Rightarrow> comp_job option \<times> (step_error + nat \<times> u32)" where
  "step_partial_comp slurm_user_id job uid first final rc acct finish =
     (case job of
        None \<Rightarrow> (None, Inl ESLURM_INVALID_JOB_ID)
      | Some j \<Rightarrow>
          if cj_pending j then (job, Inl ESLURM_JOB_PENDING)
          else if \<not> validate_slurm_user slurm_user_id uid \<and> uid \<noteq> cj_user_id j then (job, Inl ESLURM_USER_ID_MISSING)
          else case cj_step j of
              None \<Rightarrow> (job, Inl ESLURM_INVALID_JOB_ID)
            | Some st \<Rightarrow>
                if final < first then (job, Inl STEP_EINVAL)
                else (case step_partial_comp_step st first final rc acct finish of
                        (st', Inl e) \<Rightarrow> (Some (j\<lparr>cj_step := Some st'\<rparr>), Inl e)
                      | (st', Inr (rem, max_rc, finished)) \<Rightarrow>
                          (Some (j\<lparr>cj_step := if finished then None else Some st'\<rparr>), Inr (rem, max_rc))))"

subsection \<open>What a completion does\<close>

text \<open>The nodes that have ended, and a step that still runs on some of \<open>n\<close> nodes.\<close>

definition ended_nodes :: "ctl_step_record \<Rightarrow> nat set" where
  "ended_nodes st = (case sr_exit_node_bitmap st of None \<Rightarrow> {} | Some e \<Rightarrow> bset e)"

definition step_running :: "nat \<Rightarrow> ctl_step_record \<Rightarrow> bool" where
  "step_running n st \<longleftrightarrow>
     \<not> sr_batch_script st \<and> \<not> sr_pending_step st \<and> ended_nodes st \<noteq> {..<n}
     \<and> (case sr_exit_node_bitmap st of
          None \<Rightarrow> bit_set_count (sr_node_bitmap st) = n
        | Some e \<Rightarrow> wf_bitstr e \<and> bs_bits e = n)"

lemma average_frequency_frame [simp]:
  "sr_batch_script (average_frequency st) = sr_batch_script st" "sr_pending_step (average_frequency st) = sr_pending_step st"
  "sr_exit_node_bitmap (average_frequency st) = sr_exit_node_bitmap st" "sr_node_bitmap (average_frequency st) = sr_node_bitmap st"
  by (auto simp: average_frequency_def split: option.splits)

lemma open_exit_bitmap_facts:
  assumes "open_exit_bitmap st rc = (e, st')" "step_running n st" "valid_size n"
  shows "wf_bitstr e" "bs_bits e = n" "bset e = ended_nodes st" "sr_exit_node_bitmap st' = Some e"
    "sr_batch_script st' = sr_batch_script st" "sr_pending_step st' = sr_pending_step st"
  using assms by (auto simp: open_exit_bitmap_def step_running_def ended_nodes_def Let_def wf_bit_alloc bset_alloc split: option.splits if_splits)
    (auto simp: bit_alloc_def)

lemma note_range_facts:
  assumes "note_range st e first final acct = (e', st')" "wf_bitstr e" "first \<le> final" "final < bs_bits e" "sr_exit_node_bitmap st = Some e"
  shows "wf_bitstr e'" "bs_bits e' = bs_bits e" "bset e' = bset e \<union> {first..final}" "sr_exit_node_bitmap st' = Some e'"
    "sr_batch_script st' = sr_batch_script st" "sr_pending_step st' = sr_pending_step st"
proof -
  have valid: "bit_valid e first" "bit_valid e final" using assms by (auto simp: bit_valid_def)
  note N = bit_nset_correct [OF assms(2) valid]
  have sub: "{first..final} \<subseteq> bset e" if "bit_set_count_range e first (final + 1) = final + 1 - first"
  proof -
    have "card {i \<in> bset e. first \<le> i \<and> i < final + 1} = card {first..final}"
      using that bit_set_count_range_card [OF assms(2) valid(1), of "final + 1"] assms(3) by simp
    moreover have "{i \<in> bset e. first \<le> i \<and> i < final + 1} \<subseteq> {first..final}" by auto
    ultimately have "{i \<in> bset e. first \<le> i \<and> i < final + 1} = {first..final}" by (intro card_subset_eq) auto
    then show ?thesis by auto
  qed
  show "wf_bitstr e'" "bs_bits e' = bs_bits e" "bset e' = bset e \<union> {first..final}" "sr_exit_node_bitmap st' = Some e'"
    "sr_batch_script st' = sr_batch_script st" "sr_pending_step st' = sr_pending_step st"
    using assms N sub by (auto simp: note_range_def Let_def split: if_splits)
qed

lemma partial_comp_step:
  assumes "step_running n st" "valid_size n" "unat first \<le> unat final" "unat final < n"
  shows "\<exists>st' rem max_rc. step_partial_comp_step st first final rc acct True = (st', Inr (rem, max_rc, rem = 0))
    \<and> (rem = 0 \<longleftrightarrow> ended_nodes st' = {..<n}) \<and> (rem \<noteq> 0 \<longrightarrow> step_running n st')
    \<and> ended_nodes st' = ended_nodes st \<union> {unat first..unat final}"
proof -
  have run: "step_running n (average_frequency st)" "ended_nodes (average_frequency st) = ended_nodes st"
    using assms(1) by (cases "sr_exit_node_bitmap st"; simp add: step_running_def ended_nodes_def)+
  obtain e st1 where o: "open_exit_bitmap (average_frequency st) rc = (e, st1)" by (cases "open_exit_bitmap (average_frequency st) rc") auto
  note O = open_exit_bitmap_facts [OF o run(1) assms(2)]
  define st2 where "st2 = (if sr_no_sig_fail st1 \<and> WIFSIGNALED rc then st1\<lparr>sr_exit_code := 0\<rparr> else st1)"
  have st2: "sr_exit_node_bitmap st2 = Some e" "sr_batch_script st2 = sr_batch_script st1" "sr_pending_step st2 = sr_pending_step st1"
    using O by (auto simp: st2_def)
  obtain e' st3 where r: "note_range st2 e (unat first) (unat final) acct = (e', st3)"
    by (cases "note_range st2 e (unat first) (unat final) acct") auto
  have "unat final < bs_bits e" using O(2) assms(4) by simp
  note N = note_range_facts [OF r O(1) assms(3) this st2(1)]
  define rem where "rem = bit_clear_count e'"
  have rem: "rem = 0 \<longleftrightarrow> bset e' = {..<n}"
    using bit_clear_count_card [OF N(1)] bset_bounded [of e'] N(2) O(2) by (auto simp: rem_def)
  define st4 where "st4 = (if rem = 0 then st3\<lparr>sr_switch_job := False\<rparr> else st3)"
  have not: "\<not> sr_batch_script st" "\<not> sr_pending_step st" using assms(1) by (auto simp: step_running_def)
  have "\<not> final < first" using assms(3) by (simp add: word_less_nat_alt)
  moreover have "unat first < n" using assms(3,4) by simp
  ultimately have "step_partial_comp_step st first final rc acct True = (st4, Inr (rem, sr_exit_code st4, rem = 0))"
    using not assms(4) o r O N st2
    by (auto simp: step_partial_comp_step_def Let_def bit_size_def st2_def [symmetric] rem_def [symmetric] st4_def)
  moreover have "ended_nodes st4 = bset e'" "bset e' = ended_nodes st \<union> {unat first..unat final}"
    using N O run(2) by (auto simp: ended_nodes_def st4_def)
  moreover have "step_running n st4" if "rem \<noteq> 0"
    using that rem N O st2 not by (auto simp: step_running_def ended_nodes_def st4_def)
  ultimately show ?thesis using rem by auto
qed

text \<open>
  The first completion of a step: its clock frequencies are added after the division by the
  number of processors, and are not divided.
\<close>

lemma frequency_not_averaged:
  assumes "step_running n st" "valid_size n" "unat first \<le> unat final" "unat final < n"
    and "sr_exit_node_bitmap st = None" "sr_jobacct st = Some a" "sr_cpu_count st \<noteq> 0" "tres_count a = tres_count f"
  shows "map_option act_cpufreq (sr_jobacct (fst (step_partial_comp_step st first final rc (Some f) True)))
    = Some (act_cpufreq a div sr_cpu_count st + act_cpufreq f)"
proof -
  have wf: "step_running n (average_frequency st)" using assms(1,5) by (simp add: step_running_def ended_nodes_def)
  obtain e st1 where o: "open_exit_bitmap (average_frequency st) rc = (e, st1)" by (cases "open_exit_bitmap (average_frequency st) rc") auto
  note O = open_exit_bitmap_facts [OF o wf assms(2)]
  have acct: "sr_jobacct st1 = Some (a\<lparr>act_cpufreq := act_cpufreq a div sr_cpu_count st\<rparr>)"
    using o assms(5-7) by (auto simp: open_exit_bitmap_def average_frequency_def Let_def)
  have "bset e = {}" using O(3) assms(5) by (simp add: ended_nodes_def)
  moreover have "bit_valid e (unat first)" using O(2) assms(3,4) by (simp add: bit_valid_def)
  ultimately have "bit_set_count_range e (unat first) (unat final + 1) = 0"
    using bit_set_count_range_card [OF O(1), of "unat first" "unat final + 1"] assms(3) by simp
  then have r: "note_range st2 e (unat first) (unat final) (Some f) = (bit_nset e (unat first) (unat final),
      st2\<lparr>sr_exit_node_bitmap := Some (bit_nset e (unat first) (unat final)), sr_jobacct := add_usage (sr_jobacct st2) (Some f)\<rparr>)" for st2
    by (simp add: note_range_def Let_def)
  have frame: "act_cpufreq (aggregate_entry f i d) = act_cpufreq d" for i d
    by (simp add: aggregate_entry_def split_beta Let_def)
  have "act_cpufreq (fold (aggregate_entry f) is d) = act_cpufreq d" for "is" d by (induction "is" arbitrary: d) (auto simp: frame)
  then have "map_option act_cpufreq (add_usage (sr_jobacct st1) (Some f)) = Some (act_cpufreq a div sr_cpu_count st + act_cpufreq f)"
    using acct assms(8) by (simp add: add_usage_def match_tres_def jobacctinfo_aggregate_def aggregate_tres_usage_def split_beta Let_def)
  moreover have "\<not> sr_batch_script st" using assms(1) by (simp add: step_running_def)
  moreover have "\<not> final < first" using assms(3) by (simp add: word_less_nat_alt)
  moreover have "unat first < n" using assms(3,4) by simp
  ultimately show ?thesis using o r O(2) assms(4) by (auto simp: step_partial_comp_step_def Let_def bit_size_def)
qed

lemma swap_truncates: "swap_usage 0 1 [INFINITE64, 5] = [5, 0xffffffff]"
proof -
  have "ucast (ucast (- 1 :: u64) :: u32) = (4294967295 :: u64)" by code_simp
  then show ?thesis by (simp add: swap_usage_def INFINITE64_def)
qed

end
