(* ===== verification/Reverse_Tree_Props.thy ===== *)
theory Reverse_Tree_Props
  imports Reverse_Tree
begin

text \<open>
  What the reverse tree promises: the parent that a node computes has the node among the
  children it computes, depths grow by one from parent to child, and the ranks below a node
  are those that follow it, as many as it counts. The reference is a complete tree of a
  given width, numbered in preorder.
\<close>

subsection \<open>Complete trees\<close>

text \<open>The number of vertices of a complete tree of width \<open>w\<close> with \<open>k\<close> levels below its root.\<close>

fun subtree :: "int \<Rightarrow> nat \<Rightarrow> int" where
  "subtree w 0 = 1"
| "subtree w (Suc k) = 1 + w * subtree w k"

lemma subtree_pos: "1 \<le> w \<Longrightarrow> 1 \<le> subtree w k"
  by (induction k) auto

lemma subtree_add: "subtree w (Suc k) = subtree w k + w ^ Suc k"
  by (induction k) (auto simp: algebra_simps)

lemma subtree_mono: "1 \<le> w \<Longrightarrow> k \<le> m \<Longrightarrow> subtree w k \<le> subtree w m"
  by (rule lift_Suc_mono_le [of "subtree w"]) (auto simp: subtree_add simp del: subtree.simps)

lemma subtree_geometric: "(w - 1) * subtree w k = w ^ Suc k - 1"
  by (induction k) (auto simp: algebra_simps)

lemma subtree_power: "1 \<le> w \<Longrightarrow> w ^ k \<le> subtree w k"
  using subtree_pos [of w] by (cases k) (auto simp: subtree_add simp del: subtree.simps, smt (verit) subtree_pos)

lemma subtree_linear: "1 \<le> w \<Longrightarrow> int k + 1 \<le> subtree w k"
proof (induction k)
  case (Suc k)
  have "1 * subtree w k \<le> w * subtree w k" using Suc.prems subtree_pos [of w k] by (intro mult_right_mono) auto
  moreover have "int k + 1 \<le> subtree w k" using Suc by simp
  ultimately show ?case unfolding subtree.simps by linarith
qed simp

lemma subtree_one: "subtree 1 k = int k + 1"
  by (induction k) auto

lemma c_intI: "0 \<le> x \<Longrightarrow> x < 2147483648 \<Longrightarrow> c_int x = Some x"
  by (simp add: c_int_def)

text \<open>The sizes at which no step of the arithmetic overflows.\<close>

definition tree_fits :: "int \<Rightarrow> int \<Rightarrow> bool" where
  "tree_fits n w \<longleftrightarrow> 1 \<le> w \<and> w \<le> n \<and> n * w * w < 2 ^ 30"

lemma pow_loop_eq: "1 \<le> num \<Longrightarrow> 1 \<le> res \<Longrightarrow> res * num ^ k < 2 ^ 31 \<Longrightarrow> pow_loop k num res = Some (res * num ^ k)"
proof (induction k arbitrary: res)
  case (Suc k)
  have e: "res * num ^ Suc k = res * num * num ^ k" by simp
  have one: "1 * 1 \<le> res * num" by (rule mult_mono) (use Suc.prems in auto)
  have "res * num * 1 \<le> res * num * num ^ k" by (rule mult_left_mono) (use Suc.prems one in auto)
  then have le: "res * num < 2 ^ 31" using Suc.prems(3) unfolding e by linarith
  have "c_int (res * num) = Some (res * num)" using one le by (simp add: c_int_def)
  moreover have "pow_loop k num (res * num) = Some (res * num * num ^ k)"
    using Suc.IH [of "res * num"] Suc.prems one unfolding e by simp
  ultimately show ?case by (simp add: mult.assoc)
qed simp

lemma int_pow_eq: "1 \<le> num \<Longrightarrow> num ^ e < 2 ^ 31 \<Longrightarrow> int_pow num (int e) = Some (num ^ e)"
  using pow_loop_eq [of num num "e - 1"] by (cases e) (auto simp: int_pow_def)

lemma sdiv_exact: "a \<noteq> 0 \<Longrightarrow> a * b sdiv a = (b :: int)"
  by (auto simp: signed_divide_int_def abs_mult sgn_if zero_less_mult_iff split: if_splits)

lemma geometric_series_eq:
  assumes "1 \<le> w" "w ^ Suc m < 2 ^ 30" "subtree w m < 2 ^ 30" "int m < 2 ^ 30"
  shows "geometric_series w (int m) = Some (subtree w m)"
proof (cases "w = 1")
  case True
  then show ?thesis using assms by (simp add: geometric_series_def subtree_one c_int_def)
next
  case False
  have "1 - w ^ Suc m = (1 - w) * subtree w m" using subtree_geometric [of w m] by (simp add: algebra_simps)
  moreover have "(1 - w) * subtree w m sdiv (1 - w) = subtree w m"
    using False by (intro sdiv_exact) simp
  moreover have "int_pow w (int (Suc m)) = Some (w ^ Suc m)" using assms by (intro int_pow_eq) auto
  moreover have "0 < w ^ Suc m" using assms by (intro zero_less_power) simp
  then have "- (w ^ Suc m) < 2147483647" by linarith
  ultimately show ?thesis using assms False
    by (auto simp: geometric_series_def c_int_def add.commute simp del: power_Suc)
qed

lemma dep_loop_eq:
  assumes "1 \<le> w" "n \<le> subtree w D" "\<And>k. k < D \<Longrightarrow> subtree w k < n"
    and "w ^ D < 2 ^ 31" "subtree w D < 2 ^ 30" "int D < 2 ^ 30" "k \<le> D"
  shows "dep_loop n w (int k + 1) (subtree w k - 1) = Some (int D)"
  using assms(7)
proof (induction "D - k" arbitrary: k)
  case 0
  then show ?case using assms(2) by (subst dep_loop.simps) auto
next
  case (Suc d)
  then have k: "k < D" by simp
  have "w ^ Suc k \<le> w ^ D" by (rule power_increasing) (use k assms in auto)
  then have p: "int_pow w (int k + 1) = Some (w ^ Suc k)" using int_pow_eq [of w "Suc k"] assms by (simp add: add.commute)
  have y: "subtree w k - 1 + w ^ Suc k = subtree w (Suc k) - 1" by (simp add: subtree_add del: subtree.simps)
  have "subtree w (Suc k) \<le> subtree w D" using k assms by (intro subtree_mono) auto
  moreover have "1 \<le> subtree w (Suc k)" using assms by (intro subtree_pos) auto
  ultimately have "c_int (subtree w (Suc k) - 1) = Some (subtree w (Suc k) - 1)" using assms by (simp add: c_int_def)
  moreover have "dep_loop n w (int (Suc k) + 1) (subtree w (Suc k) - 1) = Some (int D)"
    using Suc.hyps k by (intro Suc.hyps(1)) auto
  moreover have "c_int (int k + 1 + 1) = Some (int (Suc k) + 1)" using k assms by (simp add: c_int_def)
  ultimately show ?case using assms(3) [OF k]
    by (subst dep_loop.simps) (simp add: p y del: subtree.simps power_Suc)
qed

lemma dep_eq:
  assumes "tree_fits n w"
  obtains D where "dep n w = Some (int D)" "n \<le> subtree w D" "w ^ Suc D < 2 ^ 30" "subtree w D < 2 ^ 30"
    "int D < n" "w = 1 \<Longrightarrow> n = int D + 1"
proof -
  have w: "1 \<le> w" "w \<le> n" "n * w * w < 2 ^ 30" using assms by (auto simp: tree_fits_def)
  define D where "D = (LEAST k. n \<le> subtree w k)"
  have ex: "n \<le> subtree w (nat n)"
    using subtree_linear [OF w(1), of "nat n"] w by simp
  have D: "n \<le> subtree w D" unfolding D_def by (rule LeastI [of _ "nat n"]) (rule ex)
  have less: "subtree w k < n" if "k < D" for k using not_less_Least [of k] that unfolding D_def by force
  have nw: "n \<le> n * w" using w mult_left_mono [of 1 w n] by simp
  then have nw: "n \<le> n * w" "n * w \<le> n * w * w" using w mult_left_mono [of 1 w "n * w"] by simp_all
  have "subtree w D < 2 ^ 30 \<and> w ^ Suc D < 2 ^ 30 \<and> int D < n \<and> (w = 1 \<longrightarrow> n = int D + 1)"
  proof (cases D)
    case 0
    then show ?thesis using w nw D by auto
  next
    case (Suc d)
    have d: "subtree w d < n" using less Suc by simp
    have "w * subtree w d \<le> w * (n - 1)" using d w by (intro mult_left_mono) auto
    then have "subtree w D \<le> n * w" using w Suc by (simp add: algebra_simps)
    then have le: "subtree w D < 2 ^ 30" using w nw by linarith
    have "w ^ d \<le> n" using subtree_power [of w d] w d by simp
    then have "w ^ d * (w * w) \<le> n * (w * w)" using w by (intro mult_right_mono) auto
    moreover have "w ^ d * (w * w) = w ^ Suc D" "n * (w * w) = n * w * w" using Suc by (simp_all add: algebra_simps)
    ultimately have "w ^ Suc D < 2 ^ 30" using w by linarith
    moreover have "int D < n" using subtree_linear [OF w(1), of d] d Suc by simp
    moreover have "w = 1 \<longrightarrow> n = int D + 1" using D d Suc by (auto simp: subtree_one simp del: subtree.simps)
    ultimately show ?thesis using le by blast
  qed
  moreover have "dep n w = Some (int D)"
    using dep_loop_eq [of w n D 0] w D less calculation nw
    by (simp add: dep_def del: subtree.simps(2)) (smt (verit) power_Suc mult_le_cancel_right1 zero_less_power)
  ultimately show ?thesis using that D by blast
qed

subsection \<open>The position of a rank\<close>

text \<open>
  The parent of a rank, the levels below the rank and its depth, by division: below a vertex
  the subtrees of its children follow each other.
\<close>

fun locate :: "int \<Rightarrow> nat \<Rightarrow> int \<Rightarrow> int \<Rightarrow> int \<Rightarrow> int \<times> nat \<times> int" where
  "locate w 0 node r \<delta> = (node, 0, \<delta>)"
| "locate w (Suc m) node r \<delta> =
     (let s = subtree w m; c = node + 1 + (r - node - 1) div s * s
      in if r = c then (node, m, \<delta> + 1) else locate w m c r (\<delta> + 1))"

lemma child_slot:
  assumes "1 \<le> w" "node < r" "r < node + subtree w (Suc m)"
  defines "s \<equiv> subtree w m" and "j \<equiv> (r - node - 1) div subtree w m"
  shows "0 \<le> j" "j < w" "node + 1 + j * s \<le> r" "r < node + 1 + j * s + s"
    "node + 1 + j * s + s \<le> node + subtree w (Suc m)"
proof -
  have s: "1 \<le> s" using assms subtree_pos by (simp add: s_def)
  have r: "0 \<le> r - node - 1" "r - node - 1 < w * s" using assms by (auto simp: s_def)
  have jd: "j = (r - node - 1) div s" by (simp add: j_def s_def)
  show "0 \<le> j" using r s by (simp add: jd pos_imp_zdiv_nonneg_iff)
  show j: "j < w"
  proof (rule ccontr)
    assume "\<not> j < w"
    then have "w * s \<le> j * s" using s by (intro mult_right_mono) auto
    moreover have "j * s \<le> r - node - 1" using s div_mult_mod_eq [of "r - node - 1" s] pos_mod_sign [of s "r - node - 1"] unfolding jd by linarith
    ultimately show False using r by linarith
  qed
  have split: "r - node - 1 = j * s + (r - node - 1) mod s" by (simp add: jd)
  moreover have "0 \<le> (r - node - 1) mod s" "(r - node - 1) mod s < s" using s by auto
  ultimately show "node + 1 + j * s \<le> r" "r < node + 1 + j * s + s" by linarith+
  have "(j + 1) * s \<le> w * s" using j s by (intro mult_right_mono) auto
  then show "node + 1 + j * s + s \<le> node + subtree w (Suc m)" by (simp add: s_def algebra_simps)
qed

lemma slot_unique:
  assumes "1 \<le> w" "0 \<le> j" "node + 1 + j * subtree w m \<le> r" "r < node + 1 + j * subtree w m + subtree w m"
  shows "(r - node - 1) div subtree w m = j"
  using assms subtree_pos [of w m] by (intro int_div_pos_eq [of _ _ _ "r - node - 1 - j * subtree w m"]) (auto simp: algebra_simps)

lemma child_scan_eq:
  assumes "1 \<le> w" "1 \<le> s" "1 \<le> i" "i \<le> w" "w < 2 ^ 30" "0 \<le> c0" "c0 + w * s < 2 ^ 31"
    and "c0 + (i - 1) * s < r" "r < c0 + w * s" "0 \<le> j" "c0 + j * s \<le> r" "r < c0 + j * s + s"
  shows "child_scan r (c0 + (i - 1) * s) (s - 1) w i = Some (if r = c0 + j * s then Hit else Descend (c0 + j * s))"
  using assms(3,4,8)
proof (induction "nat (w - i)" arbitrary: i)
  case 0
  then have i: "i = w" by simp
  have nx: "c0 + (i - 1) * s + (s - 1) + 1 = c0 + w * s" by (simp add: i algebra_simps)
  have "j = w - 1"
  proof (rule antisym)
    have "j * s < w * s" using assms by linarith
    then show "j \<le> w - 1" using assms by (simp add: mult_less_cancel_right)
    have "(w - 1) * s < (j + 1) * s" using 0(4) assms(12) i by (simp add: algebra_simps)
    then show "w - 1 \<le> j" using assms by (simp add: mult_less_cancel_right)
  qed
  moreover have "0 \<le> w * s" using assms by (intro mult_nonneg_nonneg) auto
  then have "- 2147483648 \<le> c0 + w * s" using assms(6) by linarith
  then have "c_int (c0 + w * s) = Some (c0 + w * s)" using assms by (simp add: c_int_def)
  ultimately show ?case using 0 assms i unfolding child_scan.simps [of r "c0 + (i - 1) * s"] nx by simp
next
  case (Suc d)
  have nx: "c0 + (i - 1) * s + (s - 1) + 1 = c0 + i * s" by (simp add: algebra_simps)
  have "i * s \<le> w * s" using Suc assms by (intro mult_right_mono) auto
  moreover have "0 \<le> i * s" using Suc assms by (intro mult_nonneg_nonneg) auto
  moreover have "c0 + w * s < 2147483648" "w < 1073741824" using assms by simp_all
  ultimately have ci: "c_int (c0 + i * s) = Some (c0 + i * s)" "c_int (i + 1) = Some (i + 1)"
    using Suc.prems assms(6) by (intro c_intI; linarith)+
  have "(i - 1) * s < (j + 1) * s" using Suc.prems(3) assms(12) by (simp add: algebra_simps)
  then have ji: "i - 1 \<le> j" using assms by (simp add: mult_less_cancel_right)
  consider "r = c0 + i * s" | "r < c0 + i * s" | "c0 + i * s < r" by linarith
  then show ?case
  proof cases
    case 1
    have "j * s \<le> i * s" "i * s < (j + 1) * s" using 1 assms by (auto simp: algebra_simps)
    then have "j = i" using assms by (simp add: mult_less_cancel_right)
    then show ?thesis using Suc 1 unfolding child_scan.simps [of r "c0 + (i - 1) * s"] nx by (simp add: ci)
  next
    case 2
    have "j * s < i * s" using 2 assms by linarith
    then have "j = i - 1" using ji assms by (simp add: mult_less_cancel_right)
    then show ?thesis using Suc 2 unfolding child_scan.simps [of r "c0 + (i - 1) * s"] nx by (simp add: ci)
  next
    case 3
    have "child_scan r (c0 + (i + 1 - 1) * s) (s - 1) w (i + 1) = Some (if r = c0 + j * s then Hit else Descend (c0 + j * s))"
      using Suc 3 by (intro Suc.hyps(1)) auto
    then show ?thesis using Suc 3 unfolding child_scan.simps [of r "c0 + (i - 1) * s"] nx by (simp add: ci)
  qed
qed

text \<open>
  One level of the search. With a width of one it assumes one rank too many below each child.
\<close>

lemma sdiv_pos: "0 \<le> a \<Longrightarrow> 0 < b \<Longrightarrow> a sdiv b = a div (b :: int)"
  by (cases "a = 0") (auto simp: signed_divide_int_def)

lemma search_step:
  assumes "1 \<le> w" "w < 2 ^ 30" "0 \<le> node" "node < r" "r < node + subtree w (Suc m)"
    and "node + subtree w (Suc m) + 1 < 2 ^ 31" "M = subtree w (Suc m) \<or> M = subtree w (Suc m) - 1"
    and "0 \<le> \<delta>" "\<delta> + 1 < 2 ^ 31"
  defines "s \<equiv> subtree w m" and "c \<equiv> node + 1 + (r - node - 1) div subtree w m * subtree w m"
  shows "\<exists>nc. (nc = s - 1 \<or> w = 1 \<and> nc = s) \<and>
    search_tree r node M w \<delta> = (if r = c then Some (True, node, nc, \<delta> + 1) else search_tree r c nc w (\<delta> + 1))"
proof -
  define nc where "nc = M sdiv w - 1"
  note slot = child_slot [OF assms(1,4,5)]
  have s: "1 \<le> s" using subtree_pos assms by (simp add: s_def)
  have ws: "subtree w (Suc m) = 1 + w * s" "1 \<le> w * s" using assms s mult_mono [of 1 w 1 s] by (simp_all add: s_def)
  have nc: "nc = s - 1 \<or> w = 1 \<and> nc = s"
  proof (cases "w = 1")
    case True
    then show ?thesis using assms(7) ws s by (auto simp: nc_def sdiv_pos)
  next
    case False
    have "(1 + w * s) div w = s" using False assms(1) by (simp add: div_add1_eq div_pos_pos_trivial)
    then have "M div w = s" using assms(1,7) ws by auto
    then show ?thesis using assms(1,7) ws s by (auto simp: nc_def sdiv_pos)
  qed
  have ci: "c_int (\<delta> + 1) = Some (\<delta> + 1)" "c_int (node + 1) = Some (node + 1)" "c_int nc = Some nc"
  proof -
    have "s \<le> w * s" using mult_right_mono [of 1 w s] assms(1) s by simp
    moreover have "node + subtree w (Suc m) + 1 < 2147483648" "\<delta> + 1 < 2147483648" using assms(6,9) by simp_all
    ultimately show "c_int (\<delta> + 1) = Some (\<delta> + 1)" "c_int (node + 1) = Some (node + 1)" "c_int nc = Some nc"
      using assms(3,8) ws s nc by (intro c_intI; linarith)+
  qed
  have scan: "child_scan r (node + 1) nc w 1 = Some (if r = c then Hit else Descend c)" if "r \<noteq> node + 1"
  proof (cases "nc = s - 1")
    case True
    define j where "j = (r - node - 1) div s"
    have "child_scan r (node + 1 + (1 - 1) * s) (s - 1) w 1 = Some (if r = node + 1 + j * s then Hit else Descend (node + 1 + j * s))"
      using slot assms(1-6) s ws that by (intro child_scan_eq) (auto simp: j_def s_def)
    then show ?thesis using True by (simp add: c_def j_def s_def)
  next
    case False
    then have w: "w = 1" "nc = s" using nc by auto
    have "r < node + 1 + s" using assms(5) ws w by simp
    then have "(r - node - 1) div s = 0" using assms(4) by simp
    then have c: "c = node + 1" by (simp add: c_def s_def)
    have "c_int (node + 1 + nc + 1) = Some (node + 1 + nc + 1)" using assms ws w s by (simp add: c_int_def)
    then show ?thesis using that w c \<open>r < node + 1 + s\<close> assms(4) by (subst child_scan.simps) simp
  qed
  have "(r - node - 1) div s = 0" if "r = node + 1" using that by simp
  then have "c = node + 1" if "r = node + 1" using that by (simp add: c_def s_def)
  then have "search_tree r node M w \<delta> = (if r = c then Some (True, node, nc, \<delta> + 1) else search_tree r c nc w (\<delta> + 1))"
    using assms(1) ci scan by (subst search_tree.simps) (auto simp: nc_def [symmetric])
  with nc show ?thesis by blast
qed

lemma search_tree_eq:
  assumes "1 \<le> w" "w < 2 ^ 30" "0 \<le> node" "node < r" "r < node + subtree w (Suc m)"
    and "node + subtree w (Suc m) + 1 < 2 ^ 31" "M = subtree w (Suc m) \<or> M = subtree w (Suc m) - 1"
    and "0 \<le> \<delta>" "\<delta> + int m + 1 < 2 ^ 31"
  shows "\<exists>p k \<delta>' c. locate w (Suc m) node r \<delta> = (p, k, \<delta>') \<and> search_tree r node M w \<delta> = Some (True, p, c, \<delta>')
    \<and> (c = subtree w k - 1 \<or> w = 1 \<and> c = subtree w k)"
  using assms(3-)
proof (induction m arbitrary: node \<delta> M)
  case 0
  then show ?case using search_step [of w node r 0 M \<delta>] assms(1,2) by (auto simp: Let_def)
next
  case (Suc m)
  define s where "s = subtree w (Suc m)"
  define c where "c = node + 1 + (r - node - 1) div s * s"
  note slot = child_slot [OF assms(1) Suc.prems(2,3)]
  obtain nc where nc: "nc = s - 1 \<or> w = 1 \<and> nc = s"
    and st: "search_tree r node M w \<delta> = (if r = c then Some (True, node, nc, \<delta> + 1) else search_tree r c nc w (\<delta> + 1))"
    using search_step [OF assms(1,2) Suc.prems(1-6)] Suc.prems(7) unfolding s_def c_def by auto
  have lo: "locate w (Suc (Suc m)) node r \<delta> = (if r = c then (node, Suc m, \<delta> + 1) else locate w (Suc m) c r (\<delta> + 1))"
    by (simp add: Let_def c_def s_def del: subtree.simps)
  show ?case
  proof (cases "r = c")
    case True
    then have "locate w (Suc (Suc m)) node r \<delta> = (node, Suc m, \<delta> + 1)" "search_tree r node M w \<delta> = Some (True, node, nc, \<delta> + 1)"
      using st lo by (simp_all del: locate.simps)
    then show ?thesis using nc unfolding s_def by blast
  next
    case False
    have "0 \<le> (r - node - 1) div s * s" using slot(1) subtree_pos [OF assms(1), of "Suc m"]
      unfolding s_def by (intro mult_nonneg_nonneg) auto
    then have "0 \<le> c" using Suc.prems unfolding c_def by simp
    then have "\<exists>p k \<delta>' c'. locate w (Suc m) c r (\<delta> + 1) = (p, k, \<delta>') \<and> search_tree r c nc w (\<delta> + 1) = Some (True, p, c', \<delta>')
      \<and> (c' = subtree w k - 1 \<or> w = 1 \<and> c' = subtree w k)"
      using False slot Suc.prems nc unfolding c_def s_def by (intro Suc.IH) auto
    then show ?thesis using False by (simp add: st lo del: subtree.simps locate.simps)
  qed
qed

end
