(* ===== verification/Reverse_Tree_Theorems.thy ===== *)
theory Reverse_Tree_Theorems
  imports Reverse_Tree_Props
begin

text \<open>
  The parents, children and counts that the nodes of a job step compute by themselves with
  \<^verbatim>\<open>src/common/reverse_tree.c\<close> describe one tree.
\<close>

subsection \<open>Parents, children and subtrees\<close>

lemma locate_step:
  assumes "1 \<le> w" "node < r" "r < node + subtree w (Suc m)"
  obtains j where "0 \<le> j" "j < w" "node + 1 + j * subtree w m \<le> r" "r < node + 1 + j * subtree w m + subtree w m"
    "node + 1 + j * subtree w m + subtree w m \<le> node + subtree w (Suc m)" "node < node + 1 + j * subtree w m"
    "\<And>\<delta>. locate w (Suc m) node r \<delta> =
       (if r = node + 1 + j * subtree w m then (node, m, \<delta> + 1) else locate w m (node + 1 + j * subtree w m) r (\<delta> + 1))"
    "\<And>q. node + 1 + j * subtree w m \<le> q \<Longrightarrow> q < node + 1 + j * subtree w m + subtree w m \<Longrightarrow>
       locate w (Suc m) node q \<delta>' = (if q = node + 1 + j * subtree w m then (node, m, \<delta>' + 1)
         else locate w m (node + 1 + j * subtree w m) q (\<delta>' + 1))"
proof -
  note slot = child_slot [OF assms]
  have "0 \<le> (r - node - 1) div subtree w m * subtree w m"
    using slot(1) subtree_pos [OF assms(1), of m] by (intro mult_nonneg_nonneg) auto
  then show thesis using that [OF slot(1-5)] slot_unique [OF assms(1) slot(1)] by (simp add: Let_def)
qed

lemma locate_bounds:
  assumes "1 \<le> w" "node < r" "r < node + subtree w (Suc m)" "locate w (Suc m) node r \<delta> = (p, k, \<delta>')"
  shows "node \<le> p \<and> p < r \<and> k \<le> m \<and> \<delta>' = \<delta> + int (Suc m - k) \<and> r + subtree w k \<le> node + subtree w (Suc m)
    \<and> p + subtree w (Suc k) \<le> node + subtree w (Suc m) \<and> (\<exists>j. 0 \<le> j \<and> j < w \<and> r = p + 1 + j * subtree w k)
    \<and> (if p = node then k = m else \<exists>q. locate w (Suc m) node p \<delta> = (q, Suc k, \<delta>' - 1))"
  using assms(2-)
proof (induction m arbitrary: node \<delta>)
  case 0
  then have "p = node" "k = 0" "\<delta>' = \<delta> + 1" by (auto simp: Let_def)
  then show ?case using 0 assms(1) by (auto intro: exI [of _ "r - node - 1"])
next
  case (Suc m)
  obtain j where j: "0 \<le> j" "j < w" "node + 1 + j * subtree w (Suc m) \<le> r" "r < node + 1 + j * subtree w (Suc m) + subtree w (Suc m)"
    "node + 1 + j * subtree w (Suc m) + subtree w (Suc m) \<le> node + subtree w (Suc (Suc m))" "node < node + 1 + j * subtree w (Suc m)"
    and lo: "\<And>q. node + 1 + j * subtree w (Suc m) \<le> q \<Longrightarrow> q < node + 1 + j * subtree w (Suc m) + subtree w (Suc m) \<Longrightarrow>
       locate w (Suc (Suc m)) node q \<delta> = (if q = node + 1 + j * subtree w (Suc m) then (node, Suc m, \<delta> + 1)
         else locate w (Suc m) (node + 1 + j * subtree w (Suc m)) q (\<delta> + 1))"
    by (rule locate_step [OF assms(1) Suc.prems(1,2), of \<delta>]) blast
  define c where "c = node + 1 + j * subtree w (Suc m)"
  note j = j [folded c_def] and lo = lo [folded c_def]
  show ?case
  proof (cases "r = c")
    case True
    then have "p = node" "k = Suc m" "\<delta>' = \<delta> + 1" using lo [of r] j Suc.prems(3) by (auto simp del: locate.simps)
    then show ?thesis using True j c_def by (auto simp del: locate.simps subtree.simps)
  next
    case False
    then have l: "locate w (Suc m) c r (\<delta> + 1) = (p, k, \<delta>')" using lo [of r] j Suc.prems(3) by (auto simp del: locate.simps)
    have IH: "c \<le> p" "p < r" "k \<le> m" "\<delta>' = \<delta> + 1 + int (Suc m - k)" "r + subtree w k \<le> c + subtree w (Suc m)"
      "p + subtree w (Suc k) \<le> c + subtree w (Suc m)" "\<exists>j. 0 \<le> j \<and> j < w \<and> r = p + 1 + j * subtree w k"
      "if p = c then k = m else \<exists>q. locate w (Suc m) c p (\<delta> + 1) = (q, Suc k, \<delta>' - 1)"
      using Suc.IH [OF _ _ l] j False by (auto simp del: locate.simps subtree.simps split: if_splits)
    have lp: "locate w (Suc (Suc m)) node p \<delta> = (if p = c then (node, Suc m, \<delta> + 1) else locate w (Suc m) c p (\<delta> + 1))"
      using IH(1,2) j by (intro lo) auto
    have "\<exists>q. locate w (Suc (Suc m)) node p \<delta> = (q, Suc k, \<delta>' - 1)"
      using IH(4,8) lp by (cases "p = c") (auto simp del: locate.simps)
    moreover have "\<delta>' = \<delta> + int (Suc (Suc m) - k)" using IH(3,4) by simp
    ultimately show ?thesis using IH(1-3,5-7) j by (simp del: locate.simps subtree.simps)
  qed
qed

lemma locate_child:
  assumes "1 \<le> w" "0 \<le> j" "j < w"
  shows "locate w (Suc m) node (node + 1 + j * subtree w m) \<delta> = (node, m, \<delta> + 1)"
  using slot_unique [of w j node m "node + 1 + j * subtree w m"] subtree_pos [of w m] assms by (simp add: Let_def)

text \<open>Below a vertex the search goes on as it does from that vertex.\<close>

lemma locate_restart:
  assumes "1 \<le> w" "node < r" "r < node + subtree w (Suc m)" "locate w (Suc m) node r \<delta> = (p, k, \<delta>')" "r < q" "q < r + subtree w k"
  shows "locate w (Suc m) node q \<delta> = locate w k r q \<delta>'"
  using assms(2-4)
proof (induction m arbitrary: node \<delta>)
  case 0
  then have "k = 0" using locate_bounds [of w node r 0 \<delta> p k \<delta>'] assms(1) by simp
  then show ?case using assms(5,6) by simp
next
  case (Suc m)
  obtain j where j: "0 \<le> j" "j < w" "node + 1 + j * subtree w (Suc m) \<le> r" "r < node + 1 + j * subtree w (Suc m) + subtree w (Suc m)"
    "node + 1 + j * subtree w (Suc m) + subtree w (Suc m) \<le> node + subtree w (Suc (Suc m))" "node < node + 1 + j * subtree w (Suc m)"
    and lo: "\<And>q. node + 1 + j * subtree w (Suc m) \<le> q \<Longrightarrow> q < node + 1 + j * subtree w (Suc m) + subtree w (Suc m) \<Longrightarrow>
       locate w (Suc (Suc m)) node q \<delta> = (if q = node + 1 + j * subtree w (Suc m) then (node, Suc m, \<delta> + 1)
         else locate w (Suc m) (node + 1 + j * subtree w (Suc m)) q (\<delta> + 1))"
    by (rule locate_step [OF assms(1) Suc.prems(1,2), of \<delta>]) blast
  define c where "c = node + 1 + j * subtree w (Suc m)"
  note j = j [folded c_def] and lo = lo [folded c_def]
  show ?case
  proof (cases "r = c")
    case True
    then have "k = Suc m" "\<delta>' = \<delta> + 1" using lo [of r] j Suc.prems(3) by (auto simp del: locate.simps)
    then show ?thesis using lo [of q] True assms(5,6) j by (simp del: locate.simps subtree.simps)
  next
    case False
    then have l: "locate w (Suc m) c r (\<delta> + 1) = (p, k, \<delta>')" using lo [of r] j Suc.prems(3) by (auto simp del: locate.simps)
    have cr: "c < r" "r < c + subtree w (Suc m)" using False j by auto
    then have "r + subtree w k \<le> c + subtree w (Suc m)" using locate_bounds [OF assms(1) _ _ l] by simp
    then have "locate w (Suc (Suc m)) node q \<delta> = locate w (Suc m) c q (\<delta> + 1)"
      using lo [of q] assms(5,6) cr by (simp del: locate.simps subtree.simps)
    then show ?thesis using Suc.IH [OF cr l] by (simp del: locate.simps subtree.simps)
  qed
qed

lemma locate_chain:
  assumes "node < r" "r < node + subtree 1 (Suc m)" "locate 1 (Suc m) node r \<delta> = (p, k, \<delta>')"
  shows "r + int k = node + int (Suc m)"
  using assms
proof (induction m arbitrary: node \<delta>)
  case (Suc m)
  then have "r = node + 1 \<or> node + 1 < r" by linarith
  moreover have "(r - node - 1) div subtree 1 (Suc m) = 0" using Suc.prems by (simp add: subtree_one)
  ultimately show ?case using Suc.prems Suc.IH [of "node + 1" "\<delta> + 1"]
    by (auto simp: Let_def simp del: subtree.simps split: if_splits)
       (auto simp: subtree_one simp del: subtree.simps)
qed (auto simp: Let_def)

definition place :: "int \<Rightarrow> nat \<Rightarrow> int \<Rightarrow> int \<times> nat \<times> int" where
  "place w D r = (if r = 0 then (- 1, D, 0) else locate w D 0 r 0)"

lemma place_bounds:
  assumes "1 \<le> w" "0 \<le> r" "r < subtree w D" "place w D r = (p, k, \<delta>)"
  shows "\<delta> + int k = int D \<and> 0 \<le> \<delta> \<and> r + subtree w k \<le> subtree w D \<and>
    (if r = 0 then p = - 1 \<and> \<delta> = 0
     else 0 \<le> p \<and> p < r \<and> (\<exists>q. place w D p = (q, Suc k, \<delta> - 1)) \<and> (\<exists>j. 0 \<le> j \<and> j < w \<and> r = p + 1 + j * subtree w k))"
proof (cases "r = 0")
  case False
  then obtain m where D: "D = Suc m" using assms(2,3) by (cases D) auto
  have l: "locate w (Suc m) 0 r 0 = (p, k, \<delta>)" using assms(4) False by (simp add: place_def D del: locate.simps)
  show ?thesis using locate_bounds [OF assms(1) _ _ l] False assms(2,3)
    by (auto simp: D place_def simp del: locate.simps subtree.simps)
qed (use assms in \<open>auto simp: place_def\<close>)

lemma place_restart:
  assumes "1 \<le> w" "0 \<le> r" "r < subtree w D" "place w D r = (p, k, \<delta>)" "r < q" "q < r + subtree w k"
  shows "place w D q = locate w k r q \<delta>"
proof (cases "r = 0")
  case False
  then obtain m where D: "D = Suc m" using assms(2,3) by (cases D) auto
  have l: "locate w (Suc m) 0 r 0 = (p, k, \<delta>)" using assms(4) False by (simp add: place_def D del: locate.simps)
  show ?thesis using locate_restart [OF assms(1) _ _ l assms(5,6)] False assms(2,3,5)
    by (auto simp: D place_def simp del: locate.simps subtree.simps)
qed (use assms in \<open>auto simp: place_def\<close>)

lemma place_child:
  assumes "1 \<le> w" "0 \<le> p" "p < subtree w D" "place w D p = (q, Suc k, \<delta>)" "0 \<le> j" "j < w"
  shows "place w D (p + 1 + j * subtree w k) = (p, k, \<delta> + 1)"
proof -
  have s: "1 \<le> subtree w k" using assms(1) subtree_pos by simp
  have "0 \<le> j * subtree w k" using s assms by (intro mult_nonneg_nonneg) auto
  moreover have "j * subtree w k \<le> (w - 1) * subtree w k" using s assms by (intro mult_right_mono) auto
  ultimately have "place w D (p + 1 + j * subtree w k) = locate w (Suc k) p (p + 1 + j * subtree w k) \<delta>"
    using s assms(6) by (intro place_restart [OF assms(1-4)]) (simp_all add: left_diff_distrib)
  then show ?thesis using locate_child [OF assms(1,5,6)] by simp
qed

text \<open>The subtree of a rank below another one lies within the subtree of that one.\<close>

lemma place_nested:
  assumes "1 \<le> w" "0 \<le> r" "r < subtree w D" "place w D r = (p, k, \<delta>)" "r < q" "q < r + subtree w k" "place w D q = (p', k', \<delta>')"
  shows "r \<le> p' \<and> q + subtree w k' \<le> r + subtree w k"
proof -
  obtain m where k: "k = Suc m" using assms(5,6) by (cases k) auto
  have "locate w (Suc m) r q \<delta> = (p', k', \<delta>')"
    using place_restart [OF assms(1-6)] assms(7) by (simp add: k del: locate.simps)
  from locate_bounds [OF assms(1) _ _ this] show ?thesis using assms(5,6) by (simp add: k del: subtree.simps)
qed

subsection \<open>What the nodes compute\<close>

lemma reverse_tree_info_eq:
  assumes "tree_fits n w" "0 \<le> r" "r < n" "dep n w = Some (int D)" "n \<le> subtree w D" "w ^ Suc D < 2 ^ 30" "subtree w D < 2 ^ 30"
    "int D < n" "w = 1 \<Longrightarrow> n = int D + 1" "place w D r = (p, k, \<delta>)"
  shows "reverse_tree_info r n w =
    Some \<lparr>ti_parent = p, ti_children = min (subtree w k - 1) (n - r - 1), ti_depth = \<delta>, ti_max_depth = int D\<rparr>"
proof (cases "r = 0")
  case True
  then show ?thesis using assms by (auto simp: reverse_tree_info_def place_def tree_fits_def)
next
  case False
  have w: "1 \<le> w" "w \<le> n" "n < 2 ^ 30"
  proof -
    show w: "1 \<le> w" "w \<le> n" using assms(1) by (auto simp: tree_fits_def)
    show "n < 2 ^ 30" using assms(5,7) by simp
  qed
  obtain m where D: "D = Suc m" using assms(2,3,5) False by (cases D) auto
  have l: "locate w (Suc m) 0 r 0 = (p, k, \<delta>)" using assms(10) False by (simp add: place_def D del: locate.simps)
  have g: "geometric_series w (int D) = Some (subtree w D)" using assms w by (intro geometric_series_eq) auto
  have rS: "r < subtree w (Suc m)" using assms by (simp add: D)
  obtain c where c: "search_tree r 0 (subtree w D) w 0 = Some (True, p, c, \<delta>)" "c = subtree w k - 1 \<or> w = 1 \<and> c = subtree w k"
    using search_tree_eq [of w 0 r m "subtree w D" 0] l w False assms(2,3,5,7,8) rS unfolding D by (auto simp del: locate.simps subtree.simps)
  have b: "r + subtree w k \<le> subtree w D" using locate_bounds [of w 0 r m 0 p k \<delta>] rS l w(1) False assms(2) by (simp add: D del: locate.simps subtree.simps)
  have ci: "c_int (r + c) = Some (r + c)" using b c(2) assms(2,7) subtree_pos [OF w(1), of k] by (intro c_intI) auto
  have one: "r + int k = int D" if "w = 1" using locate_chain [of 0 r m] rS l False assms(2) that by (simp add: D del: locate.simps subtree.simps)
  have "(if n \<le> r + c then n - r - 1 else c) = min (subtree w k - 1) (n - r - 1)"
    using c(2) one assms(9) by (auto simp: subtree_one)
  then show ?thesis using w False assms(3,4) g c(1) ci by (simp add: reverse_tree_info_def)
qed

lemma child_fill_eq:
  assumes "1 \<le> dist" "0 \<le> current" "0 \<le> i" "n + dist < 2 ^ 31"
  shows "\<exists>xs. child_fill n w dist i current = Some xs \<and> distinct xs \<and> int (length xs) \<le> max 0 (w - i)
    \<and> set xs = {current + j * dist | j. 0 \<le> j \<and> j < w - i \<and> current + j * dist < n}"
  using assms(2,3)
proof (induction "nat (w - i)" arbitrary: i current)
  case 0
  then show ?case by (subst child_fill.simps) auto
next
  case (Suc d)
  show ?case
  proof (cases "current < n")
    case False
    have "\<not> current + j * dist < n" if "0 \<le> j" for j
      using False that assms(1) mult_nonneg_nonneg [of j dist] by linarith
    then show ?thesis using False by (subst child_fill.simps) auto
  next
    case True
    then have ci: "c_int (current + dist) = Some (current + dist)" using Suc.prems assms by (intro c_intI) auto
    obtain xs where xs: "child_fill n w dist (i + 1) (current + dist) = Some xs" "distinct xs" "int (length xs) \<le> max 0 (w - (i + 1))"
      "set xs = {current + dist + j * dist | j. 0 \<le> j \<and> j < w - (i + 1) \<and> current + dist + j * dist < n}"
    proof -
      have "d = nat (w - (i + 1))" using Suc.hyps(2) by simp
      from Suc.hyps(1) [OF this, of "current + dist"] Suc.hyps(2) Suc.prems assms(1) show ?thesis
        using that by auto
    qed
    have iw: "i < w" using Suc.hyps(2) by simp
    have "current \<notin> set xs"
    proof
      assume "current \<in> set xs"
      then obtain j where "0 \<le> j" "current = current + dist + j * dist" using xs(4) by auto
      then show False using assms(1) mult_nonneg_nonneg [of j dist] by linarith
    qed
    moreover have "insert current (set xs) = {current + j * dist | j. 0 \<le> j \<and> j < w - i \<and> current + j * dist < n}" (is "_ = ?R")
    proof (intro equalityI subsetI)
      fix x assume "x \<in> insert current (set xs)"
      then consider "x = current" | j where "0 \<le> j" "j < w - (i + 1)" "x = current + dist + j * dist" "x < n" using xs(4) by auto
      then show "x \<in> ?R"
      proof cases
        case 1
        then show ?thesis using iw True by (auto intro: exI [of _ 0])
      next
        case 2
        then show ?thesis by (auto simp: algebra_simps intro: exI [of _ "j + 1"])
      qed
    next
      fix x assume "x \<in> ?R"
      then obtain j where "0 \<le> j" "j < w - i" "x = current + j * dist" "x < n" by auto
      then show "x \<in> insert current (set xs)"
        unfolding xs(4) by (cases "j = 0") (auto simp: algebra_simps intro: exI [of _ "j - 1"])
    qed
    ultimately show ?thesis using xs iw True ci by (subst child_fill.simps) (auto simp: ci)
  qed
qed

definition tree_of :: "int \<Rightarrow> int \<Rightarrow> int \<Rightarrow> tree_info" where
  "tree_of n w r = the (reverse_tree_info r n w)"

lemma tree_view:
  assumes "tree_fits n w"
  obtains D where "dep n w = Some (int D)" "n \<le> subtree w D" "w ^ Suc D < 2 ^ 30" "subtree w D < 2 ^ 30" "int D < n" "1 \<le> w"
    "\<And>r p k \<delta>. 0 \<le> r \<Longrightarrow> r < n \<Longrightarrow> place w D r = (p, k, \<delta>) \<Longrightarrow>
       reverse_tree_info r n w = Some (tree_of n w r) \<and>
       tree_of n w r = \<lparr>ti_parent = p, ti_children = min (subtree w k - 1) (n - r - 1), ti_depth = \<delta>, ti_max_depth = int D\<rparr>"
proof -
  obtain D where D: "dep n w = Some (int D)" "n \<le> subtree w D" "w ^ Suc D < 2 ^ 30" "subtree w D < 2 ^ 30"
    "int D < n" "w = 1 \<Longrightarrow> n = int D + 1"
    using dep_eq [OF assms] by blast
  have "1 \<le> w" using assms by (simp add: tree_fits_def)
  then show thesis using that [OF D(1-5)] reverse_tree_info_eq [OF assms _ _ D] by (simp add: tree_of_def)
qed

text \<open>The ranks whose chain of parents meets a rank.\<close>

inductive tree_below :: "int \<Rightarrow> int \<Rightarrow> int \<Rightarrow> int \<Rightarrow> bool" for n w r where
  below_self: "tree_below n w r r"
| below_child: "tree_below n w r (ti_parent (tree_of n w q)) \<Longrightarrow> 0 < q \<Longrightarrow> q < n \<Longrightarrow> tree_below n w r q"

lemma direct_children_eq:
  assumes "tree_fits n w" "0 \<le> p" "p < n"
  shows "\<exists>cs. reverse_tree_direct_children p n w (ti_depth (tree_of n w p)) = Some cs \<and> distinct cs \<and> int (length cs) \<le> w
    \<and> set cs = {q. 0 < q \<and> q < n \<and> ti_parent (tree_of n w q) = p}"
proof -
  obtain D where D: "dep n w = Some (int D)" "n \<le> subtree w D" "w ^ Suc D < 2 ^ 30" "subtree w D < 2 ^ 30" "int D < n" "1 \<le> w"
    and view: "\<And>r p k \<delta>. 0 \<le> r \<Longrightarrow> r < n \<Longrightarrow> place w D r = (p, k, \<delta>) \<Longrightarrow>
       tree_of n w r = \<lparr>ti_parent = p, ti_children = min (subtree w k - 1) (n - r - 1), ti_depth = \<delta>, ti_max_depth = int D\<rparr>"
    using tree_view [OF assms(1)] by metis
  have wn: "w \<le> n" using assms(1) by (simp add: tree_fits_def)
  obtain p0 k \<delta> where pl: "place w D p = (p0, k, \<delta>)" by (cases "place w D p") auto
  have pS: "p < subtree w D" using assms D by simp
  note pb = place_bounds [OF D(6) assms(2) pS pl]
  have depth: "ti_depth (tree_of n w p) = \<delta>" using view [OF assms(2,3) pl] by simp
  have par: "ti_parent (tree_of n w q) = p \<longleftrightarrow> (\<exists>k' j. k = Suc k' \<and> 0 \<le> j \<and> j < w \<and> q = p + 1 + j * subtree w k')"
    if q: "0 < q" "q < n" for q
  proof -
    obtain p' k' \<delta>' where pq: "place w D q = (p', k', \<delta>')" by (cases "place w D q") auto
    have qS: "q < subtree w D" using q D by simp
    note qb = place_bounds [OF D(6) less_imp_le [OF q(1)] qS pq]
    have "ti_parent (tree_of n w q) = p'" using view [OF less_imp_le [OF q(1)] q(2) pq] by simp
    moreover have "p' = p \<longleftrightarrow> (\<exists>k' j. k = Suc k' \<and> 0 \<le> j \<and> j < w \<and> q = p + 1 + j * subtree w k')"
      using qb q(1) pl pq place_child [OF D(6) assms(2) pS, of p0 _ \<delta>] by auto
    ultimately show ?thesis by simp
  qed
  show ?thesis
  proof (cases k)
    case 0
    then have "reverse_tree_direct_children p n w \<delta> = Some []" using pb wn D(1) by (simp add: reverse_tree_direct_children_def)
    then show ?thesis using par 0 D(6) by (auto simp: depth)
  next
    case (Suc m)
    have k: "k \<le> D" "int D - \<delta> = int (Suc m)" using pb Suc by auto
    have "w ^ Suc (Suc m) \<le> w ^ Suc D" by (rule power_increasing) (use k Suc D in auto)
    moreover have Sm: "subtree w (Suc m) \<le> subtree w D" "1 \<le> subtree w (Suc m)" "1 \<le> subtree w m"
      using k Suc D(6) subtree_mono [of w "Suc m" D] subtree_pos [of w] by (auto simp del: subtree.simps)
    moreover have n30: "int (Suc m) < 2 ^ 30" "n < 2 ^ 30" using k Suc D by auto
    ultimately have g: "geometric_series w (int (Suc m)) = Some (subtree w (Suc m))" using D(3,4,6) by (intro geometric_series_eq) linarith+
    define dist where "dist = subtree w (Suc m) sdiv w"
    have dist: "dist = subtree w m \<or> w = 1 \<and> dist = subtree w (Suc m)"
    proof (cases "w = 1")
      case False
      then have "(1 + w * subtree w m) div w = subtree w m" using D(6) by (simp add: div_add1_eq div_pos_pos_trivial)
      then show ?thesis using D(6) Sm by (simp add: dist_def sdiv_pos)
    qed (use Sm in \<open>simp add: dist_def sdiv_pos del: subtree.simps\<close>)
    have "subtree w m \<le> subtree w (Suc m)" using D(6) by (intro subtree_mono) auto
    then have d: "1 \<le> dist" "n + dist < 2 ^ 31" using dist Sm D n30 by (auto simp del: subtree.simps)
    obtain cs where cs: "child_fill n w dist 0 (p + 1) = Some cs" "distinct cs" "int (length cs) \<le> max 0 w"
      "set cs = {p + 1 + j * dist | j. 0 \<le> j \<and> j < w \<and> p + 1 + j * dist < n}"
      using child_fill_eq [OF d(1) _ _ d(2), of "p + 1" 0 w] assms(2) by auto
    have "set cs = {p + 1 + j * subtree w m | j. 0 \<le> j \<and> j < w \<and> p + 1 + j * subtree w m < n}" (is "_ = ?R")
    proof -
      have "j * dist = j * subtree w m" if "0 \<le> j" "j < w" for j using dist that by (cases "j = 0") auto
      then show ?thesis unfolding cs(4) by (metis (no_types, lifting))
    qed
    also have "?R = {q. 0 < q \<and> q < n \<and> ti_parent (tree_of n w q) = p}"
    proof (intro equalityI subsetI)
      fix q assume "q \<in> ?R"
      then obtain j where j: "0 \<le> j" "j < w" "q = p + 1 + j * subtree w m" "q < n" by auto
      moreover have "0 < q" using j assms(2) Sm mult_nonneg_nonneg [of j "subtree w m"] by linarith
      ultimately show "q \<in> {q. 0 < q \<and> q < n \<and> ti_parent (tree_of n w q) = p}" using par [of q] Suc by auto
    next
      fix q assume "q \<in> {q. 0 < q \<and> q < n \<and> ti_parent (tree_of n w q) = p}"
      then have q: "0 < q" "q < n" "ti_parent (tree_of n w q) = p" by auto
      then obtain j where "0 \<le> j" "j < w" "q = p + 1 + j * subtree w m" using par [OF q(1,2)] Suc by auto
      then show "q \<in> ?R" using q(2) by blast
    qed
    finally have "set cs = {q. 0 < q \<and> q < n \<and> ti_parent (tree_of n w q) = p}" .
    moreover have "c_int (p + 1) = Some (p + 1)" using assms(2,3) n30 by (intro c_intI) auto
    then have "reverse_tree_direct_children p n w \<delta> = Some cs"
      using wn D(1,6) g k(2) cs(1) by (simp add: reverse_tree_direct_children_def Let_def dist_def del: subtree.simps)
    ultimately show ?thesis using cs(2,3) D(6) by (simp add: depth)
  qed
qed

text \<open>A rank reports itself and the ranks that follow it, up to the number it counts.\<close>

lemma tree_nodes:
  assumes "tree_fits n w" "0 \<le> r" "r < n"
  defines "i \<equiv> tree_of n w r"
  shows "reverse_tree_info r n w = Some i \<and> 0 \<le> ti_children i \<and> r + ti_children i < n \<and> 0 \<le> ti_depth i \<and> ti_depth i \<le> ti_max_depth i
    \<and> (if r = 0 then ti_parent i = - 1 \<and> ti_depth i = 0 \<and> ti_children i = n - 1
       else 0 \<le> ti_parent i \<and> ti_parent i < r \<and> ti_depth i = ti_depth (tree_of n w (ti_parent i)) + 1)"
    "\<And>q. 0 \<le> q \<Longrightarrow> q < n \<Longrightarrow> r < q \<Longrightarrow> q \<le> r + ti_children i \<Longrightarrow>
      r \<le> ti_parent (tree_of n w q) \<and> q + ti_children (tree_of n w q) \<le> r + ti_children i"
    "r \<noteq> 0 \<Longrightarrow> r + ti_children i \<le> ti_parent i + ti_children (tree_of n w (ti_parent i))"
    "\<And>q. 0 < r \<Longrightarrow> r < q \<Longrightarrow> q < n \<Longrightarrow> ti_parent (tree_of n w q) = ti_parent i \<Longrightarrow> r + ti_children i < q"
proof -
  obtain D where D: "dep n w = Some (int D)" "n \<le> subtree w D" "w ^ Suc D < 2 ^ 30" "subtree w D < 2 ^ 30" "int D < n" "1 \<le> w"
    and view: "\<And>r p k \<delta>. 0 \<le> r \<Longrightarrow> r < n \<Longrightarrow> place w D r = (p, k, \<delta>) \<Longrightarrow>
       reverse_tree_info r n w = Some (tree_of n w r) \<and>
       tree_of n w r = \<lparr>ti_parent = p, ti_children = min (subtree w k - 1) (n - r - 1), ti_depth = \<delta>, ti_max_depth = int D\<rparr>"
    using tree_view [OF assms(1)] by metis
  obtain p k \<delta> where pl: "place w D r = (p, k, \<delta>)" by (cases "place w D r") auto
  have rS: "r < subtree w D" using assms D by simp
  note b = place_bounds [OF D(6) assms(2) rS pl]
  note v = view [OF assms(2,3) pl, folded i_def]
  note S = subtree_pos [OF D(6)]
  show "reverse_tree_info r n w = Some i \<and> 0 \<le> ti_children i \<and> r + ti_children i < n \<and> 0 \<le> ti_depth i \<and> ti_depth i \<le> ti_max_depth i
    \<and> (if r = 0 then ti_parent i = - 1 \<and> ti_depth i = 0 \<and> ti_children i = n - 1
       else 0 \<le> ti_parent i \<and> ti_parent i < r \<and> ti_depth i = ti_depth (tree_of n w (ti_parent i)) + 1)"
  proof (cases "r = 0")
    case True
    then have "k = D" using pl by (simp add: place_def)
    then show ?thesis using v b True assms(3) S [of k] D(2) by auto
  next
    case False
    then obtain q where q: "place w D p = (q, Suc k, \<delta> - 1)" "0 \<le> p" "p < r" using b by auto
    then have "ti_depth (tree_of n w p) = \<delta> - 1" using view [OF _ _ q(1)] assms(3) by simp
    then show ?thesis using v b False assms(3) S [of k] q by auto
  qed
  show "r \<le> ti_parent (tree_of n w q) \<and> q + ti_children (tree_of n w q) \<le> r + ti_children i"
    if q: "0 \<le> q" "q < n" "r < q" "q \<le> r + ti_children i" for q
  proof -
    obtain p' k' \<delta>' where pq: "place w D q = (p', k', \<delta>')" by (cases "place w D q") auto
    have "q < r + subtree w k" using q v by auto
    from place_nested [OF D(6) assms(2) rS pl q(3) this pq] show ?thesis using view [OF q(1,2) pq] v by auto
  qed
  show "r + ti_children i \<le> ti_parent i + ti_children (tree_of n w (ti_parent i))" if nz: "r \<noteq> 0"
  proof -
    obtain q j where q: "place w D p = (q, Suc k, \<delta> - 1)" "0 \<le> p" "p < r" "0 \<le> j" "j < w" "r = p + 1 + j * subtree w k"
      using b nz by auto
    have "(j + 1) * subtree w k \<le> w * subtree w k" using q S [of k] by (intro mult_right_mono) auto
    then have "r + subtree w k \<le> p + subtree w (Suc k)" unfolding q(6) by (simp add: algebra_simps)
    moreover have "ti_children (tree_of n w p) = min (subtree w (Suc k) - 1) (n - p - 1)" using view [OF _ _ q(1)] q assms(3) by simp
    ultimately show ?thesis using v q by (auto simp del: subtree.simps)
  qed
  show "r + ti_children i < q" if q: "0 < r" "r < q" "q < n" "ti_parent (tree_of n w q) = ti_parent i" for q
  proof (rule ccontr)
    assume "\<not> r + ti_children i < q"
    then have le: "q < r + subtree w k" using v by auto
    obtain p' k' \<delta>' where pq: "place w D q = (p', k', \<delta>')" by (cases "place w D q") auto
    have "r \<le> p'" using place_nested [OF D(6) assms(2) rS pl q(2) le pq] by simp
    moreover have "ti_parent (tree_of n w q) = p'" using view [OF _ q(3) pq] q by simp
    moreover have "ti_parent i < r" using v b q(1) by auto
    ultimately show False using q(4) by simp
  qed
qed

subsection \<open>The views of the nodes agree\<close>

text \<open>C19: Every node computes a parent and a list of children (for a width of at least one, not above the number of
  nodes, and sizes for which no power overflows an \<^verbatim>\<open>int\<close>); the children that a node computes
  are the nodes that compute it as their parent, each once, no more than the width of the
  tree; only rank 0 has no parent, and a node is one level below its parent.
\<close>

theorem reverse_tree_views_agree:
  assumes "1 \<le> w" "w \<le> n" "n * w * w < 2 ^ 30" "0 \<le> r" "r < n"
  shows "reverse_tree_info r n w = Some (tree_of n w r)
    \<and> (\<exists>cs. reverse_tree_direct_children r n w (ti_depth (tree_of n w r)) = Some cs \<and> distinct cs \<and> int (length cs) \<le> w
         \<and> set cs = {q. 0 < q \<and> q < n \<and> ti_parent (tree_of n w q) = r})
    \<and> (if r = 0 then ti_parent (tree_of n w r) = - 1 \<and> ti_depth (tree_of n w r) = 0
       else 0 \<le> ti_parent (tree_of n w r) \<and> ti_parent (tree_of n w r) < r
         \<and> ti_depth (tree_of n w r) = ti_depth (tree_of n w (ti_parent (tree_of n w r))) + 1)
    \<and> ti_depth (tree_of n w r) \<le> ti_max_depth (tree_of n w r)"
proof -
  have fits: "tree_fits n w" using assms by (simp add: tree_fits_def)
  show ?thesis using tree_nodes(1) [OF fits assms(4,5)] direct_children_eq [OF fits assms(4,5)] by (simp split: if_splits)
qed

theorem reverse_tree_views_agree_witness:
  "reverse_tree_info 14 20 3 = Some (tree_of 20 3 14) \<and> ti_depth (tree_of 20 3 14) \<le> ti_max_depth (tree_of 20 3 14)"
  using reverse_tree_views_agree [of 3 20 14] by simp

text \<open>C20: The number that a node counts is the number of nodes below it: the nodes whose chain
  of parents passes through rank \<open>r\<close> are \<open>r\<close> and the ranks that follow it, as many as the node
  counts, so a node can keep them in an array indexed by the distance to its own rank.
\<close>

theorem reverse_tree_subtree_block:
  assumes "1 \<le> w" "w \<le> n" "n * w * w < 2 ^ 30" "0 \<le> r" "r < n"
  shows "{q. 0 \<le> q \<and> q < n \<and> tree_below n w r q} = {r .. r + ti_children (tree_of n w r)}"
proof (intro equalityI subsetI)
  have fits: "tree_fits n w" using assms by (simp add: tree_fits_def)
  note r = tree_nodes(1) [OF fits assms(4,5)]
  have below: "r \<le> q \<and> q \<le> r + ti_children (tree_of n w r)" if "tree_below n w r q" for q
    using that
  proof induction
    case below_self
    then show ?case using r by simp
  next
    case (below_child q)
    let ?p = "ti_parent (tree_of n w q)"
    have q0: "0 \<le> q" using below_child by simp
    note q = tree_nodes(1) [OF fits q0 below_child.hyps(3)] tree_nodes(3) [OF fits q0 below_child.hyps(3)]
    show ?case
    proof (cases "?p = r")
      case True
      then show ?thesis using q below_child by auto
    next
      case False
      then have "?p + ti_children (tree_of n w ?p) \<le> r + ti_children (tree_of n w r)"
        using tree_nodes(2) [OF fits assms(4,5), of ?p] q(1) below_child by auto
      then show ?thesis using q below_child by auto
    qed
  qed
  fix q
  show "q \<in> {r .. r + ti_children (tree_of n w r)}" if "q \<in> {q. 0 \<le> q \<and> q < n \<and> tree_below n w r q}"
    using that below by simp
  have up: "tree_below n w r q" if "r \<le> q" "q \<le> r + ti_children (tree_of n w r)" for q
    using that
  proof (induction "nat q" arbitrary: q rule: less_induct)
    case less
    show ?case
    proof (cases "q = r")
      case False
      then have q: "0 < q" "q < n" using less.prems assms(4) r by auto
      have p: "r \<le> ti_parent (tree_of n w q)" using tree_nodes(2) [OF fits assms(4,5), of q] False q less.prems by auto
      have "ti_parent (tree_of n w q) < q" using tree_nodes(1) [OF fits less_imp_le [OF q(1)] q(2)] q by auto
      then have "tree_below n w r (ti_parent (tree_of n w q))"
        using p q less.prems assms(4) by (intro less.hyps) auto
      then show ?thesis using q by (rule below_child)
    qed (auto intro: below_self)
  qed
  show "q \<in> {q. 0 \<le> q \<and> q < n \<and> tree_below n w r q}" if "q \<in> {r .. r + ti_children (tree_of n w r)}"
    using up [of q] r assms(4) that by auto
qed

theorem reverse_tree_subtree_block_witness:
  "{q. 0 \<le> q \<and> q < 20 \<and> tree_below 20 3 1 q} = {1 .. 1 + ti_children (tree_of 20 3 1)}"
  by (rule reverse_tree_subtree_block) simp_all

text \<open>
  With a wide tree on somewhat more nodes the powers leave the range of an \<^verbatim>\<open>int\<close>, which
  C leaves undefined: 3500 nodes and a width of 3000, where the third power of the width is needed.
\<close>

lemma wide_tree_overflows:
  "geometric_series 3000 2 = None" "int_pow 3000 2 = Some 9000000" "reverse_tree_info 5 3500 3000 = None"
proof -
  have p: "int_pow 3000 1 = Some 3000" "int_pow 3000 2 = Some 9000000" "int_pow 3000 3 = None"
    by (simp_all add: int_pow_def c_int_def numeral_2_eq_2)
  then show g: "geometric_series 3000 2 = None" by (simp add: geometric_series_def c_int_def)
  show "int_pow 3000 2 = Some 9000000" by (rule p(2))
  have "dep 3500 3000 = Some 2"
    using p by (simp add: dep_def dep_loop.simps [of _ _ 1] dep_loop.simps [of _ _ 2] dep_loop.simps [of _ _ 3] c_int_def)
  then show "reverse_tree_info 5 3500 3000 = None" using g by (simp add: reverse_tree_info_def)
qed

end
