(* ===== verification/Step_System.thy ===== *)
theory Step_System
  imports Step_Ctl Reverse_Tree_Theorems
begin

text \<open>
  The end of a job step as a whole: the step daemons of its nodes, each with the place in the
  reverse tree that it was given, and the controller. The events are the ends of the waits
  and the attempts to send: messages and answers may be lost, a parent may have stopped
  waiting, and a daemon turns to the controller after five attempts.
\<close>

definition REVERSE_TREE_WIDTH :: int where
  "REVERSE_TREE_WIDTH = 7"

definition REVERSE_TREE_PARENT_RETRY :: nat where
  "REVERSE_TREE_PARENT_RETRY = 5"

record stepd =
  sd_sc :: step_complete
  sd_ended :: bool
  sd_todo :: "completion_msg list"
  sd_tries :: nat
  sd_acct_sent :: bool

record step_sys =
  s_ids :: "u32 list"
  s_nodes :: int
  s_stepds :: "int \<Rightarrow> stepd"
  s_ctl :: "comp_job option"

definition step_sys_init :: "u32 list \<Rightarrow> int \<Rightarrow> comp_job option \<Rightarrow> step_sys" where
  "step_sys_init ids n job =
     \<lparr>s_ids = ids, s_nodes = n,
      s_stepds = (\<lambda>r. \<lparr>sd_sc = step_complete_init ids r (the (reverse_tree_info r n REVERSE_TREE_WIDTH)),
        sd_ended = False, sd_todo = [], sd_tries = 0, sd_acct_sent = False\<rparr>),
      s_ctl = job\<rparr>"

text \<open>
  \<open>Wait_End\<close>: the wait of a rank is over, or has timed out. \<open>Abort_End\<close>: the step of a rank is
  aborted, and the rank does not wait. \<open>To_Parent\<close>: an attempt to send the next message, which
  is delivered or not, and answered or not. \<open>To_Ctl\<close>: the same for the controller, where what
  is not delivered changes nothing.
\<close>

datatype step_event =
    Wait_End int bool "task_exit list" bool jobacct
  | Abort_End int bool jobacct
  | To_Parent int bool bool
  | To_Ctl int bool

definition end_stepd :: "u32 list \<Rightarrow> bool \<Rightarrow> jobacct \<Rightarrow> step_complete \<Rightarrow> stepd \<Rightarrow> stepd" where
  "end_stepd ids oom acct sc d =
     (let (ms, sc', sent) = stepd_send_step_complete_msgs ids False oom acct (sc, sd_acct_sent d)
      in d\<lparr>sd_sc := sc', sd_ended := True, sd_todo := ms, sd_tries := 0, sd_acct_sent := sent\<rparr>)"

definition msg_sent :: "stepd \<Rightarrow> stepd" where
  "msg_sent d = d\<lparr>sd_todo := tl (sd_todo d), sd_tries := 0\<rparr>"

definition msg_failed :: "stepd \<Rightarrow> stepd" where
  "msg_failed d = d\<lparr>sd_tries := sd_tries d + 1\<rparr>"

fun step_sys_do :: "step_event \<Rightarrow> step_sys \<Rightarrow> step_sys option" where
  "step_sys_do (Wait_End r timed_out tasks oom acct) s =
     (let d = s_stepds s r
      in if 0 \<le> r \<and> r < s_nodes s \<and> \<not> sd_ended d \<and> wait_over (sd_sc d) timed_out
         then Some (s\<lparr>s_stepds := (s_stepds s)(r := end_stepd (s_ids s) oom acct (wait_done (sd_sc d) False tasks) d)\<rparr>)
         else None)"
| "step_sys_do (Abort_End r oom acct) s =
     (let d = s_stepds s r
      in if 0 \<le> r \<and> r < s_nodes s \<and> \<not> sd_ended d
         then Some (s\<lparr>s_stepds := (s_stepds s)(r := end_stepd (s_ids s) oom acct (sd_sc d) d)\<rparr>)
         else None)"
| "step_sys_do (To_Parent r delivered replied) s =
     (let d = s_stepds s r; p = sc_parent_rank (sd_sc d); dp = s_stepds s p
      in if 0 \<le> r \<and> r < s_nodes s \<and> sd_todo d \<noteq> [] \<and> p \<noteq> - 1 \<and> sd_tries d < REVERSE_TREE_PARENT_RETRY
         then if \<not> delivered then Some (s\<lparr>s_stepds := (s_stepds s)(r := msg_failed d)\<rparr>)
              else if sd_todo dp \<noteq> [] then None
              else let m = hd (sd_todo d)
                   in map_option (\<lambda>((rc, errnum), sc').
                        s\<lparr>s_stepds := (s_stepds s)(p := dp\<lparr>sd_sc := sc'\<rparr>,
                                                  r := (if replied \<and> rc = 0 then msg_sent d else msg_failed d))\<rparr>)
                      (handle_completion (sd_sc dp) True (sint (range_first m)) (sint (range_last m)) (cm_step_rc m) (cm_jobacct m))
         else None)"
| "step_sys_do (To_Ctl r replied) s =
     (let d = s_stepds s r
      in if 0 \<le> r \<and> r < s_nodes s \<and> sd_todo d \<noteq> []
            \<and> (sc_parent_rank (sd_sc d) = - 1 \<or> REVERSE_TREE_PARENT_RETRY \<le> sd_tries d)
         then let m = hd (sd_todo d);
                  (job', res) = step_partial_comp 0 (s_ctl s) 0 (range_first m) (range_last m) (cm_step_rc m) (Some (cm_jobacct m)) True
              in Some (s\<lparr>s_stepds := (s_stepds s)(r := (if replied then msg_sent d else d)), s_ctl := job'\<rparr>)
         else None)"

fun step_sys_run :: "step_event list \<Rightarrow> step_sys \<Rightarrow> step_sys option" where
  "step_sys_run [] s = Some s"
| "step_sys_run (e # es) s = Option.bind (step_sys_do e s) (step_sys_run es)"

text \<open>The controller has noted the end of a node: its bit is set, or the step is gone.\<close>

definition ctl_done :: "comp_job option \<Rightarrow> int \<Rightarrow> bool" where
  "ctl_done job q =
     (case Option.bind job cj_step of
        None \<Rightarrow> True
      | Some st \<Rightarrow> (case sr_exit_node_bitmap st of
            None \<Rightarrow> False
          | Some e \<Rightarrow> 0 \<le> q \<and> nat q < bit_size e \<and> bit_test e (nat q)))"

lemma ctl_done_eq:
  "ctl_done job q =
     (case Option.bind job cj_step of None \<Rightarrow> True | Some st \<Rightarrow> 0 \<le> q \<and> nat q \<in> ended_nodes st)"
  by (auto simp: ctl_done_def ended_nodes_def bset_def bit_size_def split: option.splits)

definition step_gone :: "comp_job option \<Rightarrow> bool" where
  "step_gone job \<longleftrightarrow> Option.bind job cj_step = None"

text \<open>A job that runs a step on \<open>n\<close> nodes.\<close>

definition job_running :: "int \<Rightarrow> comp_job option \<Rightarrow> bool" where
  "job_running n job \<longleftrightarrow>
     (\<exists>j. job = Some j \<and> \<not> cj_pending j \<and> (\<forall>st. cj_step j = Some st \<longrightarrow> step_running (nat n) st))"

end
