(* ===== verification/Step_System_Props.thy ===== *)
theory Step_System_Props
  imports Step_System
begin

text \<open>
  The end of a job step, over the tree of its nodes: the controller notes the end of a node
  only when the node has ended, and when every daemon has sent its messages the controller has
  noted every node, whatever was lost on the way. What the daemons rely on is the shape of the
  tree, stated as a locale; the reverse tree provides it.
\<close>

subsection \<open>The messages of a daemon\<close>

definition msg_range :: "completion_msg \<Rightarrow> int \<times> int" where
  "msg_range m = (sint (range_first m), sint (range_last m))"

abbreviation ranges :: "stepd \<Rightarrow> (int \<times> int) list" where
  "ranges d \<equiv> step_complete_ranges (sd_sc d)"

abbreviation todo_ranges :: "stepd \<Rightarrow> (int \<times> int) list" where
  "todo_ranges d \<equiv> map msg_range (sd_todo d)"

lemma sint_of_small: "0 \<le> x \<Longrightarrow> x < 2 ^ 31 \<Longrightarrow> sint (of_int x :: u32) = x"
  by (simp add: sint_sbintrunc' signed_take_bit_int_eq_self)

lemma unat_of_small: "0 \<le> x \<Longrightarrow> x < 2 ^ 31 \<Longrightarrow> unat (of_int x :: u32) = nat x"
  by (simp add: unat_eq_nat_uint uint_word_of_int)

lemma same_acct: "\<exists>a. sc = sc\<lparr>sc_jobacct := a\<rparr>" for sc :: step_complete
  by (rule exI [of _ "sc_jobacct sc"]) simp

lemma one_msg:
  assumes "one_step_complete_msg ids False oom acct r (sc, sent) = (m, sc', sent')"
  shows "range_first m = of_int (fst r) \<and> range_last m = of_int (snd r) \<and> (\<exists>a. sc' = sc\<lparr>sc_jobacct := a\<rparr>)"
  using assms by (cases r) (auto simp: one_step_complete_msg_def Let_def intro: same_acct split: if_splits)

lemma send_msgs_eq:
  "send_msgs ids False oom acct rs (sc, sent) = (ms, sc', sent') \<Longrightarrow>
    map (\<lambda>m. (range_first m, range_last m)) ms = map (\<lambda>r. (of_int (fst r), of_int (snd r))) rs \<and> (\<exists>a. sc' = sc\<lparr>sc_jobacct := a\<rparr>)"
proof (induction rs arbitrary: sc sent ms sc' sent')
  case (Cons r rs)
  obtain m sc1 sent1 where m: "one_step_complete_msg ids False oom acct r (sc, sent) = (m, sc1, sent1)"
    by (cases "one_step_complete_msg ids False oom acct r (sc, sent)") auto
  obtain ms' sc2 sent2 where ms: "send_msgs ids False oom acct rs (sc1, sent1) = (ms', sc2, sent2)"
    by (cases "send_msgs ids False oom acct rs (sc1, sent1)") auto
  note one_msg [OF m]
  moreover note Cons.IH [OF ms]
  moreover have "send_msgs ids False oom acct (r # rs) (sc, sent) = (m # ms', sc2, sent2)" using m ms by simp
  ultimately show ?case using Cons.prems by auto
qed (auto intro: same_acct)

lemma end_stepd_facts:
  assumes "\<And>r. r \<in> set (step_complete_ranges sc) \<Longrightarrow> 0 \<le> fst r \<and> fst r < 2 ^ 31 \<and> 0 \<le> snd r \<and> snd r < 2 ^ 31"
  shows "todo_ranges (end_stepd ids oom acct sc d) = step_complete_ranges sc"
    "\<exists>a. sd_sc (end_stepd ids oom acct sc d) = sc\<lparr>sc_jobacct := a\<rparr>" "sd_ended (end_stepd ids oom acct sc d)"
proof -
  obtain ms sc' sent where ms: "send_msgs ids False oom acct (step_complete_ranges sc) (sc, sd_acct_sent d) = (ms, sc', sent)"
    by (cases "send_msgs ids False oom acct (step_complete_ranges sc) (sc, sd_acct_sent d)") auto
  note facts = send_msgs_eq [OF ms]
  have "map msg_range ms = map (\<lambda>(a, b). (sint a, sint b)) (map (\<lambda>m. (range_first m, range_last m)) ms)"
    by (simp add: msg_range_def)
  also have "\<dots> = map (\<lambda>r. (sint (of_int (fst r) :: u32), sint (of_int (snd r) :: u32))) (step_complete_ranges sc)"
    using facts by (simp add: case_prod_beta)
  also have "\<dots> = step_complete_ranges sc" using assms by (intro map_idI) (simp add: sint_of_small)
  finally show "todo_ranges (end_stepd ids oom acct sc d) = step_complete_ranges sc"
    by (simp add: end_stepd_def stepd_send_step_complete_msgs_def ms)
  show "\<exists>a. sd_sc (end_stepd ids oom acct sc d) = sc\<lparr>sc_jobacct := a\<rparr>" "sd_ended (end_stepd ids oom acct sc d)"
    using facts by (auto simp: end_stepd_def stepd_send_step_complete_msgs_def ms)
qed

lemma ranges_acct [simp]: "step_complete_ranges (sc\<lparr>sc_jobacct := a\<rparr>) = step_complete_ranges sc"
  "step_complete_ranges (sc\<lparr>sc_step_rc := rc\<rparr>) = step_complete_ranges sc"
  "step_complete_ranges (sc\<lparr>sc_wait_children := w\<rparr>) = step_complete_ranges sc"
  by (simp_all add: step_complete_ranges_def Let_def)

subsection \<open>The invariant\<close>

text \<open>Rank \<open>p\<close> has noted the end of rank \<open>q\<close> below it.\<close>

definition noted :: "(int \<Rightarrow> stepd) \<Rightarrow> int \<Rightarrow> int \<Rightarrow> bool" where
  "noted S p q \<longleftrightarrow> p < q \<and> (case sc_bits (sd_sc (S p)) of None \<Rightarrow> False | Some b \<Rightarrow> nat (q - p - 1) \<in> bset b)"

text \<open>The place of a rank in the tree, and what its daemon keeps.\<close>

definition stepd_wf :: "int \<Rightarrow> int \<Rightarrow> int \<Rightarrow> stepd \<Rightarrow> bool" where
  "stepd_wf parent children r d \<longleftrightarrow>
     sc_rank (sd_sc d) = r \<and> sc_parent_rank (sd_sc d) = parent \<and> sc_children (sd_sc d) = children
     \<and> sc_wait_children (sd_sc d) = (\<not> sd_ended d) \<and> (\<not> sd_ended d \<longrightarrow> sd_todo d = [])
     \<and> (case sc_bits (sd_sc d) of None \<Rightarrow> children = 0 | Some b \<Rightarrow> wf_bitstr b \<and> int (bs_bits b) = children)
     \<and> set (todo_ranges d) \<subseteq> set (ranges d)"

definition daemons_inv :: "int \<Rightarrow> (int \<Rightarrow> int) \<Rightarrow> (int \<Rightarrow> int) \<Rightarrow> (int \<Rightarrow> stepd) \<Rightarrow> bool" where
  "daemons_inv n par cnt S \<longleftrightarrow>
     (\<forall>r. 0 \<le> r \<and> r < n \<longrightarrow> stepd_wf (par r) (cnt r) r (S r))
   \<and> (\<forall>p q. 0 \<le> p \<and> p < n \<and> noted S p q \<longrightarrow>
        (\<exists>r. 0 \<le> r \<and> r < n \<and> par r = p \<and> sd_ended (S r) \<and> (\<exists>g \<in> set (ranges (S r)). rank_in q g)))
   \<and> (\<forall>r. 0 \<le> r \<and> r < n \<and> sd_ended (S r) \<and> par r \<noteq> - 1 \<longrightarrow>
        (\<forall>g \<in> set (ranges (S r)). (\<forall>q. rank_in q g \<longrightarrow> noted S (par r) q) \<or> (\<forall>q. rank_in q g \<longrightarrow> \<not> noted S (par r) q)))"

definition sent_inv :: "int \<Rightarrow> (int \<Rightarrow> int) \<Rightarrow> (int \<Rightarrow> bool) \<Rightarrow> (int \<Rightarrow> stepd) \<Rightarrow> bool" where
  "sent_inv n par done_at S \<longleftrightarrow>
     (\<forall>r. 0 \<le> r \<and> r < n \<and> sd_ended (S r) \<longrightarrow>
        (\<forall>g \<in> set (ranges (S r)). g \<in> set (todo_ranges (S r))
           \<or> (\<forall>q. rank_in q g \<longrightarrow> done_at q \<or> par r \<noteq> - 1 \<and> noted S (par r) q)))
   \<and> (\<forall>q. 0 \<le> q \<and> q < n \<and> done_at q \<longrightarrow> sd_ended (S q))"

lemma stepd_ranges:
  assumes "stepd_wf parent children r (S r)" "0 \<le> children"
  shows "\<And>g. g \<in> set (ranges (S r)) \<Longrightarrow> r \<le> fst g \<and> fst g \<le> snd g \<and> snd g \<le> r + children"
    and "\<And>q. (\<exists>g \<in> set (ranges (S r)). rank_in q g) \<longleftrightarrow> q = r \<or> noted S r q"
    and "sorted_wrt apart (ranges (S r))"
    and "\<And>q. noted S r q \<Longrightarrow> r < q \<and> q \<le> r + children"
proof -
  note wf = assms(1) [unfolded stepd_wf_def]
  have all: "(\<forall>g \<in> set (ranges (S r)). r \<le> fst g \<and> fst g \<le> snd g \<and> snd g \<le> r + children)
    \<and> (\<forall>q. (\<exists>g \<in> set (ranges (S r)). rank_in q g) \<longleftrightarrow> q = r \<or> noted S r q) \<and> sorted_wrt apart (ranges (S r))"
  proof (cases "sc_bits (sd_sc (S r))")
    case None
    then show ?thesis using wf by (auto simp: step_complete_ranges_def noted_def rank_in_def)
  next
    case (Some b)
    have sz: "bit_size b \<noteq> 0" "int (bit_size b) = children" using wf Some wf_bits_pos [of b] by (auto simp: bit_size_def)
    have rs: "ranges (S r) = completion_ranges (Some b) r 0 (bit_size b) False"
      using wf Some sz by (simp add: step_complete_ranges_def)
    note spec = completion_ranges_spec [OF rs [symmetric]]
    have "noted S r q \<longleftrightarrow> (\<exists>i. 0 \<le> i \<and> i < bit_size b \<and> bit_test b i \<and> q = r + 1 + int i)" for q
      using Some by (auto simp: noted_def bset_def bit_size_def intro!: exI [of _ "nat (q - r - 1)"])
    then have "(\<exists>g \<in> set (ranges (S r)). rank_in q g) \<longleftrightarrow> q = r \<or> noted S r q" for q using spec by auto
    moreover have "r \<le> fst g \<and> fst g \<le> snd g \<and> snd g \<le> r + children" if "g \<in> set (ranges (S r))" for g
      using spec that sz by fastforce
    ultimately show ?thesis using spec by blast
  qed
  then show "\<And>g. g \<in> set (ranges (S r)) \<Longrightarrow> r \<le> fst g \<and> fst g \<le> snd g \<and> snd g \<le> r + children"
    "\<And>q. (\<exists>g \<in> set (ranges (S r)). rank_in q g) \<longleftrightarrow> q = r \<or> noted S r q" "sorted_wrt apart (ranges (S r))"
    by blast+
  show "\<And>q. noted S r q \<Longrightarrow> r < q \<and> q \<le> r + children"
    using wf by (auto simp: noted_def dest!: bset_less split: option.splits)
qed

lemma sorted_apart_eq:
  "sorted_wrt apart gs \<Longrightarrow> g \<in> set gs \<Longrightarrow> g' \<in> set gs \<Longrightarrow> rank_in q g \<Longrightarrow> rank_in q g' \<Longrightarrow> g = g'"
  by (induction gs) (auto simp: apart_def rank_in_def)

locale completion_tree =
  fixes good :: "int \<Rightarrow> bool" and par cnt :: "int \<Rightarrow> int \<Rightarrow> int"
  assumes size: "good n \<Longrightarrow> 0 < n \<and> n \<le> 2 ^ 24"
    and parent: "good n \<Longrightarrow> 0 \<le> r \<Longrightarrow> r < n \<Longrightarrow> par n r = - 1 \<or> 0 \<le> par n r \<and> par n r < r"
    and block: "good n \<Longrightarrow> 0 \<le> r \<Longrightarrow> r < n \<Longrightarrow> 0 \<le> cnt n r \<and> r + cnt n r < n"
    and nested: "good n \<Longrightarrow> 0 \<le> r \<Longrightarrow> r < n \<Longrightarrow> par n r \<noteq> - 1 \<Longrightarrow> r + cnt n r \<le> par n r + cnt n (par n r)"
    and siblings: "good n \<Longrightarrow> 0 \<le> r \<Longrightarrow> r < r' \<Longrightarrow> r' < n \<Longrightarrow> par n r \<noteq> - 1 \<Longrightarrow> par n r' = par n r \<Longrightarrow> r + cnt n r < r'"
begin

text \<open>The messages of two children of a rank have no rank in common.\<close>

lemma one_sender:
  assumes "good n" "daemons_inv n (par n) (cnt n) S" "0 \<le> r" "r < n" "0 \<le> r'" "r' < n" "par n r \<noteq> - 1" "par n r' = par n r"
    and "g \<in> set (ranges (S r))" "g' \<in> set (ranges (S r'))" "rank_in q g" "rank_in q g'"
  shows "r = r' \<and> g = g'"
proof -
  have wf: "stepd_wf (par n r) (cnt n r) r (S r)" "stepd_wf (par n r') (cnt n r') r' (S r')"
    using assms by (auto simp: daemons_inv_def)
  note R = stepd_ranges [where S = S, OF wf(1)] stepd_ranges [where S = S, OF wf(2)]
  have cnt: "0 \<le> cnt n r" "0 \<le> cnt n r'" using block assms by auto
  have "r \<le> q" "q \<le> r + cnt n r" "r' \<le> q" "q \<le> r' + cnt n r'"
    using R(1) [OF cnt(1) assms(9)] R(5) [OF cnt(2) assms(10)] assms(11,12) by (auto simp: rank_in_def)
  moreover have "r + cnt n r < r'" if "r < r'" using siblings [OF assms(1,3) that assms(6,7,8)] .
  moreover have "par n r' \<noteq> - 1" using assms(7) unfolding assms(8) .
  then have "r' + cnt n r' < r" if "r' < r" using siblings [OF assms(1,5) that assms(4) _ assms(8) [symmetric]] by simp
  ultimately have eq: "r = r'" by linarith
  then have "g' \<in> set (ranges (S r))" using assms(10) by (simp only:)
  from sorted_apart_eq [OF R(3) [OF cnt(1)] assms(9) this assms(11,12)] eq show ?thesis by blast
qed

text \<open>A rank that a message names has ended.\<close>

lemma ranges_ended:
  assumes "good n" "daemons_inv n (par n) (cnt n) S" "0 \<le> r" "r < n" "sd_ended (S r)" "g \<in> set (ranges (S r))" "rank_in q g"
  shows "0 \<le> q \<and> q < n \<and> sd_ended (S q)"
  using assms(3-)
proof (induction "nat (n - r)" arbitrary: r g rule: less_induct)
  case less
  have wf: "stepd_wf (par n r) (cnt n r) r (S r)" and cnt: "0 \<le> cnt n r"
    using assms(1,2) less.prems block by (auto simp: daemons_inv_def)
  show ?case
  proof (cases "q = r")
    case False
    then have "noted S r q" using stepd_ranges(2) [where S = S and q = q, OF wf cnt] less.prems by auto
    then obtain r' g' where r': "0 \<le> r'" "r' < n" "par n r' = r" "sd_ended (S r')" "g' \<in> set (ranges (S r'))" "rank_in q g'"
      using assms(2) [unfolded daemons_inv_def] less.prems(1,2) by blast
    then have "r < r'" using parent [OF assms(1) r'(1,2)] less.prems(1) by auto
    then show ?thesis using less.hyps [OF _ r'(1,2,4-6)] less.prems by simp
  qed (use less.prems in auto)
qed

text \<open>
  A message to a parent that still waits is taken: its ranks are noted, all at once or all
  before; the case of a message that is noted in part does not arise, and no assertion fails.
\<close>

lemma completion_taken:
  assumes "good n" "daemons_inv n (par n) (cnt n) S" "0 \<le> r" "r < n" "sd_ended (S r)" "par n r \<noteq> - 1"
    and "(f, l) \<in> set (ranges (S r))"
  defines "sc \<equiv> sd_sc (S (par n r))"
  shows "if sd_ended (S (par n r)) then handle_completion sc True f l rc acct = Some ((- 1, ETIMEDOUT), sc)
    else \<exists>sc'. handle_completion sc True f l rc acct = Some ((0, 0), sc')
      \<and> (\<forall>a b c. stepd_wf a b c (S (par n r)) \<longrightarrow> stepd_wf a b c ((S (par n r))\<lparr>sd_sc := sc'\<rparr>))
      \<and> (\<forall>q. noted (S(par n r := (S (par n r))\<lparr>sd_sc := sc'\<rparr>)) (par n r) q \<longleftrightarrow> noted S (par n r) q \<or> rank_in q (f, l))"
proof (cases "sd_ended (S (par n r))")
  case True
  have "stepd_wf (par n (par n r)) (cnt n (par n r)) (par n r) (S (par n r))"
    using assms(1-4,6) parent [OF assms(1,3,4)] by (auto simp: daemons_inv_def)
  then show ?thesis using True by (simp add: handle_completion_def stepd_wf_def sc_def Let_def)
next
  case False
  define p where "p = par n r"
  have p: "0 \<le> p" "p < r" "p < n" using parent [OF assms(1,3,4)] assms(4,6) by (auto simp: p_def)
  have wf: "stepd_wf (par n p) (cnt n p) p (S p)" "stepd_wf (par n r) (cnt n r) r (S r)" and cr: "0 \<le> cnt n r"
    using assms(1-4) p block by (auto simp: daemons_inv_def)
  have g: "r \<le> f" "f \<le> l" "l \<le> r + cnt n r" using stepd_ranges(1) [where S = S, OF wf(2) cr assms(7)] by auto
  have lp: "r + cnt n r \<le> p + cnt n p" using nested [OF assms(1,3,4,6)] by (simp add: p_def)
  obtain b where b: "sc_bits sc = Some b" "wf_bitstr b" "int (bs_bits b) = cnt n p"
    using wf(1) g lp p by (auto simp: stepd_wf_def sc_def p_def split: option.splits)
  define i j where "i = nat (f - p - 1)" and "j = nat (l - p - 1)"
  have ij: "i \<le> j" "j < bs_bits b" "int i = f - p - 1" "int j = l - p - 1" using g lp p b(3) by (auto simp: i_def j_def)
  have nt: "noted S p q \<longleftrightarrow> p < q \<and> nat (q - p - 1) \<in> bset b" for q using b by (simp add: noted_def sc_def p_def)
  have rng: "rank_in q (f, l) \<longleftrightarrow> p < q \<and> i \<le> nat (q - p - 1) \<and> nat (q - p - 1) \<le> j" for q
    using g p ij by (auto simp: rank_in_def)
  have onto: "\<exists>q. rank_in q (f, l) \<and> k = nat (q - p - 1)" if "i \<le> k" "k \<le> j" for k
    using that ij by (intro exI [of _ "p + 1 + int k"]) (auto simp: rank_in_def)
  have scp: "sc_wait_children sc" "sc_rank sc = p" using wf(1) False by (auto simp: stepd_wf_def sc_def p_def)
  have idx: "nat (f - (p + 1)) = i" "nat (l - (p + 1)) = j" "nat (l - (p + 1) + 1) = j + 1"
    using ij(3,4) by linarith+
  have valid: "bit_valid b i" "bit_valid b j" using ij by (auto simp: bit_valid_def)
  have cnt: "bit_set_count_range b i (j + 1) = card {k \<in> bset b. i \<le> k \<and> k < j + 1}"
    using b(2) valid(1) ij(1) by (intro bit_set_count_range_card) auto
  have "(\<forall>q. rank_in q (f, l) \<longrightarrow> noted S p q) \<or> (\<forall>q. rank_in q (f, l) \<longrightarrow> \<not> noted S p q)"
    using assms(2-7) unfolding daemons_inv_def p_def by blast
  then show ?thesis
  proof
    assume all: "\<forall>q. rank_in q (f, l) \<longrightarrow> noted S p q"
    have "k \<in> bset b" if k: "i \<le> k" "k \<le> j" for k
    proof -
      obtain q where "rank_in q (f, l)" "k = nat (q - p - 1)" using onto [OF k] by blast
      then show ?thesis using all nt [of q] by simp
    qed
    then have "{k \<in> bset b. i \<le> k \<and> k < j + 1} = {i..j}" by auto
    then have "bit_set_count_range b i (j + 1) = j + 1 - i" using cnt ij by simp
    then have "handle_completion sc True f l rc acct = Some ((0, 0), sc)"
      using b scp p idx valid ij g by (auto simp: handle_completion_def Let_def)
    moreover have "(S p)\<lparr>sd_sc := sc\<rparr> = S p" by (simp add: sc_def p_def)
    ultimately show ?thesis using False all by (auto simp: p_def)
  next
    assume none: "\<forall>q. rank_in q (f, l) \<longrightarrow> \<not> noted S p q"
    have "k \<notin> bset b" if k: "i \<le> k" "k \<le> j" for k
    proof -
      obtain q where "rank_in q (f, l)" "k = nat (q - p - 1)" using onto [OF k] by blast
      then show ?thesis using none nt [of q] rng [of q] by simp
    qed
    then have "{k \<in> bset b. i \<le> k \<and> k < j + 1} = {}" by auto
    then have z: "bit_set_count_range b i (j + 1) = 0" using cnt by simp
    define sc' where "sc' = sc\<lparr>sc_step_rc := max_int (sc_step_rc sc) rc, sc_jobacct := jobacctinfo_aggregate (sc_jobacct sc) (Some acct),
      sc_bits := Some (bit_nset b i j)\<rparr>"
    have h: "handle_completion sc True f l rc acct = Some ((0, 0), sc')"
      using b scp p idx valid ij g z by (auto simp: handle_completion_def Let_def sc'_def)
    note N = bit_nset_correct [OF b(2) valid]
    have todo: "sd_todo (S p) = []" if "stepd_wf a b c (S p)" for a b c using that False by (auto simp: stepd_wf_def p_def)
    have "stepd_wf a b' c ((S p)\<lparr>sd_sc := sc'\<rparr>)" if "stepd_wf a b' c (S p)" for a b' c
      using that todo [OF that] N b(1) False by (auto simp: stepd_wf_def sc'_def sc_def p_def)
    moreover have "noted (S(p := (S p)\<lparr>sd_sc := sc'\<rparr>)) p q \<longleftrightarrow> noted S p q \<or> rank_in q (f, l)" for q
    proof -
      have "noted (S(p := (S p)\<lparr>sd_sc := sc'\<rparr>)) p q \<longleftrightarrow> p < q \<and> nat (q - p - 1) \<in> bset (bit_nset b i j)"
        by (simp add: noted_def sc'_def)
      then show ?thesis using N(3) rng [of q] nt [of q] by auto
    qed
    ultimately show ?thesis using False h by (simp add: p_def)
  qed
qed

text \<open>A daemon that ends: nothing is noted by this, and none of its ranks was noted before.\<close>

lemma daemons_inv_end:
  assumes "good n" "daemons_inv n (par n) (cnt n) S" "0 \<le> r" "r < n" "\<not> sd_ended (S r)"
    and "stepd_wf (par n r) (cnt n r) r d" "sd_ended d" "sc_bits (sd_sc d) = sc_bits (sd_sc (S r))" "ranges d = ranges (S r)"
  shows "daemons_inv n (par n) (cnt n) (S(r := d))"
proof -
  let ?S = "S(r := d)"
  have same: "ranges (?S x) = ranges (S x)" "noted ?S x q = noted S x q" "sd_ended (S x) \<Longrightarrow> sd_ended (?S x)" for x q
    using assms(7-9) by (auto simp: noted_def)
  have wf: "stepd_wf (par n x) (cnt n x) x (?S x)" if "0 \<le> x" "x < n" for x
    using assms(2,6) that by (auto simp: daemons_inv_def)
  have senders: "\<exists>x. 0 \<le> x \<and> x < n \<and> par n x = p \<and> sd_ended (?S x) \<and> (\<exists>g \<in> set (ranges (?S x)). rank_in q g)"
    if "0 \<le> p" "p < n" "noted ?S p q" for p q
    using assms(2) that unfolding daemons_inv_def same by (metis same(3))
  have whole: "(\<forall>q. rank_in q g \<longrightarrow> noted ?S (par n x) q) \<or> (\<forall>q. rank_in q g \<longrightarrow> \<not> noted ?S (par n x) q)"
    if x: "0 \<le> x" "x < n" "sd_ended (?S x)" "par n x \<noteq> - 1" "g \<in> set (ranges (?S x))" for x g
  proof (cases "x = r")
    case False
    then show ?thesis using assms(2) x unfolding daemons_inv_def same by (metis fun_upd_other)
  next
    case True
    have "\<not> noted S (par n r) q" if q: "rank_in q g" for q
    proof
      assume "noted S (par n r) q"
      moreover have "0 \<le> par n r" "par n r < n" using parent [OF assms(1,3,4)] x True assms(4) by auto
      ultimately obtain y g' where y: "0 \<le> y" "y < n" "par n y = par n r" "sd_ended (S y)" "g' \<in> set (ranges (S y))" "rank_in q g'"
        using assms(2) unfolding daemons_inv_def by blast
      have "par n r \<noteq> - 1" "g \<in> set (ranges (S r))" using x True assms(9) by auto
      then have "r = y" using one_sender [OF assms(1-4) y(1,2) _ y(3) _ y(5) q y(6)] by blast
      then show False using y(4) assms(5) by simp
    qed
    then show ?thesis by (simp add: same True)
  qed
  show ?thesis unfolding daemons_inv_def using wf senders whole by blast
qed

text \<open>A daemon whose list of messages, or number of attempts, changes.\<close>

lemma daemons_inv_todo:
  assumes "daemons_inv n (par n) (cnt n) S" "stepd_wf (par n r) (cnt n r) r d" "sd_ended d = sd_ended (S r)" "sd_sc d = sd_sc (S r)"
  shows "daemons_inv n (par n) (cnt n) (S(r := d))" "noted (S(r := d)) p q = noted S p q"
proof -
  have same: "ranges ((S(r := d)) x) = ranges (S x)" "noted (S(r := d)) x q = noted S x q" "sd_ended ((S(r := d)) x) = sd_ended (S x)" for x q
    using assms(3,4) by (auto simp: noted_def)
  show "noted (S(r := d)) p q = noted S p q" by (rule same)
  have "\<forall>x. 0 \<le> x \<and> x < n \<longrightarrow> stepd_wf (par n x) (cnt n x) x ((S(r := d)) x)" using assms(1,2) by (auto simp: daemons_inv_def)
  then show "daemons_inv n (par n) (cnt n) (S(r := d))" using assms(1) unfolding daemons_inv_def same by blast
qed

text \<open>A parent that notes a message of a child.\<close>

lemma daemons_inv_note:
  assumes "good n" "daemons_inv n (par n) (cnt n) S" "0 \<le> r" "r < n" "sd_ended (S r)" "par n r \<noteq> - 1" "g \<in> set (ranges (S r))"
    and "\<not> sd_ended (S (par n r))" "\<And>a b c. stepd_wf a b c (S (par n r)) \<Longrightarrow> stepd_wf a b c ((S (par n r))\<lparr>sd_sc := sc'\<rparr>)"
    and "\<And>q. noted (S(par n r := (S (par n r))\<lparr>sd_sc := sc'\<rparr>)) (par n r) q \<longleftrightarrow> noted S (par n r) q \<or> rank_in q g"
  defines "S' \<equiv> S(par n r := (S (par n r))\<lparr>sd_sc := sc'\<rparr>)"
  shows "daemons_inv n (par n) (cnt n) S'" "noted S x q \<Longrightarrow> noted S' x q"
proof -
  define p where "p = par n r"
  have p: "0 \<le> p" "p < r" "p < n" using parent [OF assms(1,3,4)] assms(4,6) by (auto simp: p_def)
  have nt: "noted S' x q \<longleftrightarrow> noted S x q \<or> x = p \<and> rank_in q g" for x q
    using assms(10) [of q] by (auto simp: S'_def p_def noted_def)
  then show "noted S x q \<Longrightarrow> noted S' x q" by simp
  have ended: "sd_ended (S' x) = sd_ended (S x)" for x by (simp add: S'_def)
  have rs: "ranges (S' x) = ranges (S x)" if "sd_ended (S x)" for x using that assms(8) by (auto simp: S'_def)
  have wf: "stepd_wf (par n x) (cnt n x) x (S' x)" if "0 \<le> x" "x < n" for x
    using assms(2,9) that by (auto simp: daemons_inv_def S'_def)
  have senders: "\<exists>x. 0 \<le> x \<and> x < n \<and> par n x = y \<and> sd_ended (S' x) \<and> (\<exists>g \<in> set (ranges (S' x)). rank_in q g)"
    if y: "0 \<le> y" "y < n" "noted S' y q" for y q
  proof (cases "noted S y q")
    case True
    then obtain x where x: "0 \<le> x" "x < n" "par n x = y" "sd_ended (S x)" "\<exists>g \<in> set (ranges (S x)). rank_in q g"
      using assms(2) y unfolding daemons_inv_def by blast
    have "sd_ended (S' x)" "\<exists>g \<in> set (ranges (S' x)). rank_in q g" using x(4,5) rs [OF x(4)] ended [of x] by (simp_all only: )
    then show ?thesis using x(1-3) by blast
  next
    case False
    then have yp: "y = par n r" "rank_in q g" using y nt by (auto simp: p_def)
    have "sd_ended (S' r)" "g \<in> set (ranges (S' r))" using assms(5,7) rs [OF assms(5)] ended [of r] by (simp_all only: )
    then show ?thesis using yp assms(3,4) by blast
  qed
  have whole: "(\<forall>q. rank_in q h \<longrightarrow> noted S' (par n x) q) \<or> (\<forall>q. rank_in q h \<longrightarrow> \<not> noted S' (par n x) q)"
    if x: "0 \<le> x" "x < n" "sd_ended (S' x)" "par n x \<noteq> - 1" "h \<in> set (ranges (S' x))" for x h
  proof -
    have x': "sd_ended (S x)" "h \<in> set (ranges (S x))" using x ended rs by auto
    have old: "(\<forall>q. rank_in q h \<longrightarrow> noted S (par n x) q) \<or> (\<forall>q. rank_in q h \<longrightarrow> \<not> noted S (par n x) q)"
      using assms(2) x x' unfolding daemons_inv_def by blast
    show ?thesis
    proof (cases "par n x = p \<and> (\<exists>q. rank_in q g \<and> rank_in q h)")
      case True
      then obtain q where "rank_in q g" "rank_in q h" by blast
      then have "h = g" using one_sender [OF assms(1-4) x(1,2) assms(6) _ assms(7) x'(2)] True by (auto simp: p_def)
      then show ?thesis using True nt by auto
    next
      case False
      then show ?thesis using old nt by blast
    qed
  qed
  show "daemons_inv n (par n) (cnt n) S'" unfolding daemons_inv_def using wf senders whole by blast
qed

end

subsection \<open>Messages to the controller\<close>

lemma partial_comp_ctl:
  assumes "job_running n job" "0 < n" "n \<le> 2 ^ 24" "0 \<le> f" "f \<le> l" "l < n"
    and "step_partial_comp 0 job 0 (of_int f) (of_int l) rc acct True = (job', res)"
  shows "job_running n job'" "0 \<le> q \<Longrightarrow> q < n \<Longrightarrow> ctl_done job' q \<longleftrightarrow> ctl_done job q \<or> rank_in q (f, l)"
    "ctl_done job q \<Longrightarrow> ctl_done job' q"
proof -
  obtain j where j: "job = Some j" "\<not> cj_pending j" "\<And>st. cj_step j = Some st \<Longrightarrow> step_running (nat n) st"
    using assms(1) by (auto simp: job_running_def)
  have u: "unat (of_int f :: u32) = nat f" "unat (of_int l :: u32) = nat l" using assms(3-6) by (auto intro: unat_of_small)
  have le: "\<not> (of_int l :: u32) < of_int f" using u assms(4,5) by (simp add: word_less_nat_alt nat_mono)
  have auth: "validate_slurm_user 0 0" by (simp add: validate_slurm_user_def)
  have "job_running n job' \<and> (\<forall>q. 0 \<le> q \<and> q < n \<longrightarrow> (ctl_done job' q \<longleftrightarrow> ctl_done job q \<or> rank_in q (f, l)))
    \<and> (\<forall>q. ctl_done job q \<longrightarrow> ctl_done job' q)"
  proof (cases "cj_step j")
    case None
    then have "job' = job" using assms(7) j auth by (simp add: step_partial_comp_def)
    then show ?thesis using assms(1) j None by (simp add: ctl_done_eq)
  next
    case (Some st)
    have vs: "valid_size (nat n)" using assms(2,3) by (simp add: valid_size_def)
    have "unat (of_int f :: u32) \<le> unat (of_int l :: u32)" "unat (of_int l :: u32) < nat n" using u assms(4-6) by auto
    from partial_comp_step [OF j(3) [OF Some] vs this, of rc acct]
    obtain st' rem max_rc where st': "step_partial_comp_step st (of_int f) (of_int l) rc acct True = (st', Inr (rem, max_rc, rem = 0))"
      "rem = 0 \<longleftrightarrow> ended_nodes st' = {..<nat n}" "rem \<noteq> 0 \<Longrightarrow> step_running (nat n) st'"
      "ended_nodes st' = ended_nodes st \<union> {nat f..nat l}"
      unfolding u by blast
    have job': "job' = Some (j\<lparr>cj_step := if rem = 0 then None else Some st'\<rparr>)"
      using assms(7) j Some auth le st'(1) by (simp add: step_partial_comp_def)
    have done_at: "0 \<le> q \<and> nat q \<in> ended_nodes st' \<longleftrightarrow> ctl_done job q \<or> rank_in q (f, l)" if "0 \<le> q" "q < n" for q
      using that j(1) Some assms(4,5) by (auto simp: ctl_done_eq st'(4) rank_in_def)
    have "ctl_done job' q \<longleftrightarrow> ctl_done job q \<or> rank_in q (f, l)" if "0 \<le> q" "q < n" for q
    proof (cases "rem = 0")
      case True
      then have "nat q \<in> ended_nodes st'" using st'(2) that by auto
      then show ?thesis using done_at [OF that] that job' True by (simp add: ctl_done_eq)
    qed (use done_at [OF that] job' in \<open>simp add: ctl_done_eq\<close>)
    moreover have "job_running n job'" using job' j(2) st'(3) by (simp add: job_running_def)
    moreover have "ctl_done job' q" if "ctl_done job q" for q
      using that j(1) Some job' st'(4) by (auto simp: ctl_done_eq)
    ultimately show ?thesis by blast
  qed
  then show "job_running n job'" "0 \<le> q \<Longrightarrow> q < n \<Longrightarrow> ctl_done job' q \<longleftrightarrow> ctl_done job q \<or> rank_in q (f, l)"
    "ctl_done job q \<Longrightarrow> ctl_done job' q" by blast+
qed

subsection \<open>Every event keeps the invariant\<close>

definition sys_inv :: "int \<Rightarrow> (int \<Rightarrow> int) \<Rightarrow> (int \<Rightarrow> int) \<Rightarrow> step_sys \<Rightarrow> bool" where
  "sys_inv n par cnt s \<longleftrightarrow>
     s_nodes s = n \<and> daemons_inv n par cnt (s_stepds s) \<and> sent_inv n par (ctl_done (s_ctl s)) (s_stepds s) \<and> job_running n (s_ctl s)"

definition no_abort :: "step_event \<Rightarrow> bool" where
  "no_abort e \<longleftrightarrow> (case e of Abort_End _ _ _ \<Rightarrow> False | _ \<Rightarrow> True)"

lemma stepd_wf_todo:
  "stepd_wf a c r d \<Longrightarrow> sd_todo d \<noteq> [] \<Longrightarrow> stepd_wf a c r (msg_sent d)"
  "stepd_wf a c r d \<Longrightarrow> sd_todo d \<noteq> [] \<Longrightarrow> stepd_wf a c r (msg_failed d)"
  by (auto simp: stepd_wf_def msg_sent_def msg_failed_def dest: list.set_sel(2))

lemma todo_facts [simp]:
  "sd_ended (msg_sent d) = sd_ended d" "sd_sc (msg_sent d) = sd_sc d" "sd_ended (msg_failed d) = sd_ended d" "sd_sc (msg_failed d) = sd_sc d"
  "sd_todo (msg_failed d) = sd_todo d" "sd_todo (msg_sent d) = tl (sd_todo d)"
  by (auto simp: msg_sent_def msg_failed_def)

context completion_tree
begin

lemma sent_inv_mono:
  assumes "sent_inv n (par n) done_at S" "\<And>x. sd_ended (S' x) = sd_ended (S x)"
    and "\<And>x. sd_ended (S x) \<Longrightarrow> ranges (S' x) = ranges (S x)" "\<And>x q. noted S x q \<Longrightarrow> noted S' x q"
    and "\<And>q. done_at q \<Longrightarrow> done_at' q" "\<And>q. 0 \<le> q \<Longrightarrow> q < n \<Longrightarrow> done_at' q \<Longrightarrow> sd_ended (S q)"
    and "\<And>x g. 0 \<le> x \<Longrightarrow> x < n \<Longrightarrow> g \<in> set (todo_ranges (S x)) \<Longrightarrow> g \<in> set (todo_ranges (S' x))
      \<or> (\<forall>q. rank_in q g \<longrightarrow> done_at' q \<or> par n x \<noteq> - 1 \<and> noted S' (par n x) q)"
  shows "sent_inv n (par n) done_at' S'"
proof -
  have "g \<in> set (todo_ranges (S' x)) \<or> (\<forall>q. rank_in q g \<longrightarrow> done_at' q \<or> par n x \<noteq> - 1 \<and> noted S' (par n x) q)"
    if x: "0 \<le> x" "x < n" "sd_ended (S' x)" "g \<in> set (ranges (S' x))" for x g
  proof -
    have "sd_ended (S x)" "g \<in> set (ranges (S x))" using x assms(2,3) by auto
    then have "g \<in> set (todo_ranges (S x)) \<or> (\<forall>q. rank_in q g \<longrightarrow> done_at q \<or> par n x \<noteq> - 1 \<and> noted S (par n x) q)"
      using assms(1) x(1,2) unfolding sent_inv_def by blast
    then show ?thesis using assms(4,5,7) x(1,2) by blast
  qed
  then show ?thesis unfolding sent_inv_def using assms(2,6) by blast
qed

lemma wait_end_keeps:
  assumes "good n" "sys_inv n (par n) (cnt n) s" "step_sys_do (Wait_End r timed_out tasks oom acct) s = Some s'"
  shows "sys_inv n (par n) (cnt n) s'"
proof -
  let ?S = "s_stepds s"
  define sc where "sc = wait_done (sd_sc (?S r)) False tasks"
  define d where "d = end_stepd (s_ids s) oom acct sc (?S r)"
  have inv: "s_nodes s = n" "daemons_inv n (par n) (cnt n) ?S" "sent_inv n (par n) (ctl_done (s_ctl s)) ?S" "job_running n (s_ctl s)"
    using assms(2) by (auto simp: sys_inv_def)
  have r: "0 \<le> r" "r < n" "\<not> sd_ended (?S r)" and s': "s' = s\<lparr>s_stepds := ?S(r := d)\<rparr>"
    using assms(3) inv(1) by (auto simp: Let_def d_def sc_def split: if_splits)
  have wf: "stepd_wf (par n r) (cnt n r) r (?S r)" and cr: "0 \<le> cnt n r" "r + cnt n r < n" "n \<le> 2 ^ 24"
    using inv(2) r block [OF assms(1)] size [OF assms(1)] by (auto simp: daemons_inv_def)
  have scr: "step_complete_ranges sc = ranges (?S r)" by (simp add: sc_def wait_done_def)
  have small: "0 \<le> fst g \<and> fst g < 2 ^ 31 \<and> 0 \<le> snd g \<and> snd g < 2 ^ 31" if "g \<in> set (step_complete_ranges sc)" for g
    using stepd_ranges(1) [where S = ?S, OF wf cr(1)] that r(1) cr(2,3) unfolding scr by fastforce
  note E = end_stepd_facts [where sc = sc, OF small, where ids = "s_ids s" and oom = oom and acct = acct and d = "?S r", folded d_def]
  obtain a where a: "sd_sc d = sc\<lparr>sc_jobacct := a\<rparr>" using E(2) by blast
  have rs: "ranges d = ranges (?S r)" "todo_ranges d = ranges (?S r)" using a E(1) scr by simp_all
  have bits: "sc_bits (sd_sc d) = sc_bits (sd_sc (?S r))" by (simp add: a sc_def wait_done_def)
  have wfd: "stepd_wf (par n r) (cnt n r) r d"
    using wf E(3) rs a by (simp add: stepd_wf_def sc_def wait_done_def)
  have D: "daemons_inv n (par n) (cnt n) (?S(r := d))" by (rule daemons_inv_end [OF assms(1) inv(2) r wfd E(3) bits rs(1)])
  have same: "noted (?S(r := d)) x q = noted ?S x q" for x q using bits by (simp add: noted_def)
  have "sent_inv n (par n) (ctl_done (s_ctl s)) (?S(r := d))"
    unfolding sent_inv_def same
  proof (intro conjI allI impI ballI)
    fix x g assume x: "0 \<le> x \<and> x < n \<and> sd_ended ((?S(r := d)) x)" "g \<in> set (ranges ((?S(r := d)) x))"
    show "g \<in> set (todo_ranges ((?S(r := d)) x)) \<or> (\<forall>q. rank_in q g \<longrightarrow> ctl_done (s_ctl s) q \<or> par n x \<noteq> - 1 \<and> noted ?S (par n x) q)"
    proof (cases "x = r")
      case True
      then have "g \<in> set (todo_ranges d)" using x(2) rs by (simp only: fun_upd_same)
      then show ?thesis using True by (simp only: fun_upd_same simp_thms)
    next
      case False
      then show ?thesis using x inv(3) unfolding sent_inv_def by (metis fun_upd_other)
    qed
  next
    fix q assume "0 \<le> q \<and> q < n \<and> ctl_done (s_ctl s) q"
    then show "sd_ended ((?S(r := d)) q)" using inv(3) E(3) by (simp add: sent_inv_def)
  qed
  then show ?thesis using inv D by (simp add: sys_inv_def s')
qed

lemma to_ctl_keeps:
  assumes "good n" "sys_inv n (par n) (cnt n) s" "step_sys_do (To_Ctl r replied) s = Some s'"
  shows "sys_inv n (par n) (cnt n) s'"
proof -
  let ?S = "s_stepds s"
  define d where "d = (if replied then msg_sent (?S r) else ?S r)"
  define m where "m = hd (sd_todo (?S r))"
  obtain job' res where pc: "step_partial_comp 0 (s_ctl s) 0 (range_first m) (range_last m) (cm_step_rc m) (Some (cm_jobacct m)) True = (job', res)"
    by (cases "step_partial_comp 0 (s_ctl s) 0 (range_first m) (range_last m) (cm_step_rc m) (Some (cm_jobacct m)) True") auto
  have inv: "s_nodes s = n" "daemons_inv n (par n) (cnt n) ?S" "sent_inv n (par n) (ctl_done (s_ctl s)) ?S" "job_running n (s_ctl s)"
    using assms(2) by (auto simp: sys_inv_def)
  have r: "0 \<le> r" "r < n" "sd_todo (?S r) \<noteq> []" and s': "s' = s\<lparr>s_stepds := ?S(r := d), s_ctl := job'\<rparr>"
    using assms(3) inv(1) pc by (auto simp: Let_def d_def m_def split: if_splits)
  have wf: "stepd_wf (par n r) (cnt n r) r (?S r)" and cr: "0 \<le> cnt n r" "r + cnt n r < n" and n: "0 < n" "n \<le> 2 ^ 24"
    using inv(2) r block [OF assms(1)] size [OF assms(1)] by (auto simp: daemons_inv_def)
  define g where "g = msg_range m"
  have "g \<in> set (todo_ranges (?S r))" using r(3) by (simp add: g_def m_def)
  then have ended: "sd_ended (?S r)" and g: "g \<in> set (ranges (?S r))"
    using wf r(3) by (auto simp: stepd_wf_def)
  have gb: "r \<le> fst g" "fst g \<le> snd g" "snd g \<le> r + cnt n r" using stepd_ranges(1) [where S = ?S, OF wf cr(1) g] by auto
  have "step_partial_comp 0 (s_ctl s) 0 (of_int (fst g)) (of_int (snd g)) (cm_step_rc m) (Some (cm_jobacct m)) True = (job', res)"
    using pc by (simp add: g_def msg_range_def)
  note C = partial_comp_ctl [OF inv(4) n _ gb(2) _ this]
  have C1: "job_running n job'" and C2: "\<And>q. 0 \<le> q \<Longrightarrow> q < n \<Longrightarrow> ctl_done job' q \<longleftrightarrow> ctl_done (s_ctl s) q \<or> rank_in q g"
    using C gb cr r(1) by auto
  have wfd: "stepd_wf (par n r) (cnt n r) r d" using stepd_wf_todo(1) [OF wf r(3)] wf by (simp add: d_def)
  have same: "sd_ended d = sd_ended (?S r)" "sd_sc d = sd_sc (?S r)" by (simp_all add: d_def)
  note D = daemons_inv_todo [OF inv(2) wfd same]
  have mono: "ctl_done (s_ctl s) q \<Longrightarrow> ctl_done job' q" for q using C(3) gb cr r(1) by auto
  have "sent_inv n (par n) (ctl_done job') (?S(r := d))"
  proof (rule sent_inv_mono [OF inv(3) _ _ _ mono])
    show "sd_ended ((?S(r := d)) x) = sd_ended (?S x)" "ranges ((?S(r := d)) x) = ranges (?S x)"
      "noted ?S x q \<Longrightarrow> noted (?S(r := d)) x q" for x q
      using same D(2) by auto
    show "sd_ended (?S q)" if "0 \<le> q" "q < n" "ctl_done job' q" for q
      using that C2 [OF that(1,2)] inv(3) ranges_ended [OF assms(1) inv(2) r(1,2) ended g] by (auto simp: sent_inv_def)
    show "h \<in> set (todo_ranges ((?S(r := d)) x)) \<or> (\<forall>q. rank_in q h \<longrightarrow> ctl_done job' q \<or> par n x \<noteq> - 1 \<and> noted (?S(r := d)) (par n x) q)"
      if h: "0 \<le> x" "x < n" "h \<in> set (todo_ranges (?S x))" for x h
    proof (cases "x = r \<and> replied \<and> h = g")
      case True
      have "ctl_done job' q" if "rank_in q g" for q
        using that C2 [of q] ranges_ended [OF assms(1) inv(2) r(1,2) ended g that] by simp
      then show ?thesis using True by simp
    next
      case False
      then show ?thesis using h r(3) by (cases "sd_todo (?S r)") (auto simp: d_def g_def m_def)
    qed
  qed
  then show ?thesis using inv D(1) C1 by (simp add: sys_inv_def s')
qed

lemma to_parent_keeps:
  assumes "good n" "sys_inv n (par n) (cnt n) s" "step_sys_do (To_Parent r delivered replied) s = Some s'"
  shows "sys_inv n (par n) (cnt n) s'"
proof -
  let ?S = "s_stepds s"
  define p where "p = par n r"
  define m where "m = hd (sd_todo (?S r))"
  define g where "g = msg_range m"
  have inv: "s_nodes s = n" "daemons_inv n (par n) (cnt n) ?S" "sent_inv n (par n) (ctl_done (s_ctl s)) ?S" "job_running n (s_ctl s)"
    using assms(2) by (auto simp: sys_inv_def)
  have r: "0 \<le> r" "r < n" "sd_todo (?S r) \<noteq> []" "sc_parent_rank (sd_sc (?S r)) \<noteq> - 1"
    using assms(3) inv(1) by (auto simp: Let_def split: if_splits)
  have wf: "stepd_wf (par n r) (cnt n r) r (?S r)" using inv(2) r by (auto simp: daemons_inv_def)
  have pp: "sc_parent_rank (sd_sc (?S r)) = p" "p \<noteq> - 1" using wf r(4) by (auto simp: stepd_wf_def p_def)
  have p: "0 \<le> p" "p < r" "p < n" using parent [OF assms(1) r(1,2)] r(2) pp by (auto simp: p_def)
  have "g \<in> set (todo_ranges (?S r))" using r(3) by (simp add: g_def m_def)
  then have ended: "sd_ended (?S r)" and g: "g \<in> set (ranges (?S r))"
    using wf r(3) by (auto simp: stepd_wf_def)
  have todo: "h \<in> set (todo_ranges (msg_sent (?S r))) \<or> h = g" if "h \<in> set (todo_ranges (?S r))" for h
    using that r(3) by (cases "sd_todo (?S r)") (auto simp: g_def m_def)
  have sender: "sys_inv n (par n) (cnt n) (s\<lparr>s_stepds := T(r := d)\<rparr>)"
    if T: "daemons_inv n (par n) (cnt n) T" "sent_inv n (par n) (ctl_done (s_ctl s)) T" "T r = ?S r"
      and d: "d = msg_failed (?S r) \<or> d = msg_sent (?S r) \<and> (\<forall>q. rank_in q g \<longrightarrow> noted T p q)" for T d
  proof -
    have wfd: "stepd_wf (par n r) (cnt n r) r d" using stepd_wf_todo [OF wf r(3)] d by auto
    have same: "sd_ended d = sd_ended (T r)" "sd_sc d = sd_sc (T r)" using d T(3) by auto
    note D = daemons_inv_todo [OF T(1) wfd same]
    have "sent_inv n (par n) (ctl_done (s_ctl s)) (T(r := d))"
    proof (rule sent_inv_mono [OF T(2)])
      show "sd_ended ((T(r := d)) x) = sd_ended (T x)" "ranges ((T(r := d)) x) = ranges (T x)"
        "noted T x q \<Longrightarrow> noted (T(r := d)) x q" for x q
        using same D(2) by auto
      show "sd_ended (T q)" if "0 \<le> q" "q < n" "ctl_done (s_ctl s) q" for q using that T(2) by (simp add: sent_inv_def)
      show "h \<in> set (todo_ranges ((T(r := d)) x))
          \<or> (\<forall>q. rank_in q h \<longrightarrow> ctl_done (s_ctl s) q \<or> par n x \<noteq> - 1 \<and> noted (T(r := d)) (par n x) q)"
        if h: "0 \<le> x" "x < n" "h \<in> set (todo_ranges (T x))" for x h
      proof (cases "x = r")
        case True
        then show ?thesis using todo [of h] h(3) T(3) d D(2) pp(2) by (auto simp: p_def)
      qed (use h in simp)
    qed auto
    then show ?thesis using inv(1,4) D(1) by (simp add: sys_inv_def)
  qed
  show ?thesis
  proof (cases delivered)
    case False
    then have "s' = s\<lparr>s_stepds := ?S(r := msg_failed (?S r))\<rparr>" using assms(3) by (auto simp: Let_def split: if_splits)
    then show ?thesis using sender [OF inv(2,3) refl] by simp
  next
    case True
    obtain rc errnum sc' where h: "handle_completion (sd_sc (?S p)) True (fst g) (snd g) (cm_step_rc m) (cm_jobacct m) = Some ((rc, errnum), sc')"
      and s': "s' = s\<lparr>s_stepds := ?S(p := (?S p)\<lparr>sd_sc := sc'\<rparr>, r := (if replied \<and> rc = 0 then msg_sent (?S r) else msg_failed (?S r)))\<rparr>"
      using assms(3) True pp by (auto simp: Let_def g_def m_def msg_range_def split: if_splits)
    have gg: "(fst g, snd g) \<in> set (ranges (?S r))" using g by simp
    note taken = completion_taken [OF assms(1) inv(2) r(1,2) ended _ gg, of "cm_step_rc m" "cm_jobacct m", folded p_def, OF pp(2)]
    show ?thesis
    proof (cases "sd_ended (?S p)")
      case True
      then have "rc = - 1" "sc' = sd_sc (?S p)" using taken h by auto
      then have "s' = s\<lparr>s_stepds := ?S(r := msg_failed (?S r))\<rparr>" using s' by simp
      then show ?thesis using sender [OF inv(2,3) refl] by simp
    next
      case wait: False
      define T where "T = ?S(p := (?S p)\<lparr>sd_sc := sc'\<rparr>)"
      have rc: "rc = 0" and keep: "\<And>a b c. stepd_wf a b c (?S p) \<Longrightarrow> stepd_wf a b c ((?S p)\<lparr>sd_sc := sc'\<rparr>)"
        and nt: "\<And>q. noted T p q \<longleftrightarrow> noted ?S p q \<or> rank_in q g"
        using taken h wait by (auto simp: T_def)
      note N = daemons_inv_note [OF assms(1) inv(2) r(1,2) ended _ g, folded p_def, OF pp(2) wait keep nt [unfolded T_def], folded T_def]
      have "sent_inv n (par n) (ctl_done (s_ctl s)) T"
      proof (rule sent_inv_mono [OF inv(3)])
        show "sd_ended (T x) = sd_ended (?S x)" "sd_ended (?S x) \<Longrightarrow> ranges (T x) = ranges (?S x)" "noted ?S x q \<Longrightarrow> noted T x q" for x q
          using wait N(2) by (auto simp: T_def)
        show "sd_ended (?S q)" if "0 \<le> q" "q < n" "ctl_done (s_ctl s) q" for q using that inv(3) by (simp add: sent_inv_def)
        show "h \<in> set (todo_ranges (T x)) \<or> (\<forall>q. rank_in q h \<longrightarrow> ctl_done (s_ctl s) q \<or> par n x \<noteq> - 1 \<and> noted T (par n x) q)"
          if "h \<in> set (todo_ranges (?S x))" for x h using that by (auto simp: T_def)
      qed auto
      moreover have "T r = ?S r" using p by (simp add: T_def)
      moreover have "s' = s\<lparr>s_stepds := T(r := (if replied then msg_sent (?S r) else msg_failed (?S r)))\<rparr>" using s' rc by (simp add: T_def)
      ultimately show ?thesis using sender [OF N(1)] nt by simp
    qed
  qed
qed

lemma run_keeps:
  assumes "good n"
  shows "sys_inv n (par n) (cnt n) s \<Longrightarrow> list_all no_abort es \<Longrightarrow> step_sys_run es s = Some s' \<Longrightarrow> sys_inv n (par n) (cnt n) s'"
proof (induction es arbitrary: s)
  case (Cons e es)
  obtain s1 where s1: "step_sys_do e s = Some s1" "step_sys_run es s1 = Some s'" using Cons.prems(3) by (auto simp: bind_eq_Some_conv)
  have "sys_inv n (par n) (cnt n) s1"
  proof (cases e)
    case (Abort_End r oom acct)
    then show ?thesis using Cons.prems(2) by (simp add: no_abort_def)
  qed (use wait_end_keeps to_parent_keeps to_ctl_keeps assms Cons.prems(1) s1(1) in blast)+
  then show ?case using Cons s1(2) by simp
qed simp

text \<open>When every daemon has sent what it has to send, the controller has noted every node.\<close>

lemma all_sent_all_done:
  assumes "good n" "sys_inv n (par n) (cnt n) s" "\<And>q. 0 \<le> q \<Longrightarrow> q < n \<Longrightarrow> sd_ended (s_stepds s q) \<and> sd_todo (s_stepds s q) = []"
  shows "step_gone (s_ctl s)"
proof -
  let ?S = "s_stepds s"
  have inv: "daemons_inv n (par n) (cnt n) ?S" "sent_inv n (par n) (ctl_done (s_ctl s)) ?S" "job_running n (s_ctl s)"
    using assms(2) by (auto simp: sys_inv_def)
  have covered: "ctl_done (s_ctl s) q" if "0 \<le> r" "r < n" "g \<in> set (ranges (?S r))" "rank_in q g" for r g q
    using that
  proof (induction "nat r" arbitrary: r g rule: less_induct)
    case less
    have "ctl_done (s_ctl s) q \<or> par n r \<noteq> - 1 \<and> noted ?S (par n r) q"
      using inv(2) assms(3) [OF less.prems(1,2)] less.prems unfolding sent_inv_def by (metis empty_iff list.simps(8) list.set(1))
    then show ?case
    proof
      assume up: "par n r \<noteq> - 1 \<and> noted ?S (par n r) q"
      then have p: "0 \<le> par n r" "par n r < r" "par n r < n" using parent [OF assms(1) less.prems(1,2)] less.prems(2) by auto
      have "stepd_wf (par n (par n r)) (cnt n (par n r)) (par n r) (?S (par n r))" "0 \<le> cnt n (par n r)"
        using inv(1) p block [OF assms(1)] by (auto simp: daemons_inv_def)
      then obtain h where "h \<in> set (ranges (?S (par n r)))" "rank_in q h"
        using stepd_ranges(2) [where S = ?S and q = q] up by blast
      then show ?thesis using less.hyps [OF _ p(1,3)] p less.prems(1) by simp
    qed
  qed
  have own: "ctl_done (s_ctl s) q" if q: "0 \<le> q" "q < n" for q
  proof -
    have "stepd_wf (par n q) (cnt n q) q (?S q)" "0 \<le> cnt n q" using inv(1) q block [OF assms(1)] by (auto simp: daemons_inv_def)
    then obtain g where "g \<in> set (ranges (?S q))" "rank_in q g" using stepd_ranges(2) [where S = ?S and q = q] by blast
    then show ?thesis using covered [OF q] by blast
  qed
  show ?thesis
  proof (rule ccontr)
    assume "\<not> step_gone (s_ctl s)"
    then obtain st where st: "Option.bind (s_ctl s) cj_step = Some st" by (auto simp: step_gone_def)
    then have run: "step_running (nat n) st" using inv(3) by (auto simp: job_running_def bind_eq_Some_conv)
    have "k \<in> ended_nodes st" if "k < nat n" for k using own [of "int k"] that st by (simp add: ctl_done_eq)
    moreover have "ended_nodes st \<subseteq> {..<nat n}" using run by (auto simp: step_running_def ended_nodes_def dest: bset_less split: option.splits)
    ultimately have "ended_nodes st = {..<nat n}" by auto
    then show False using run by (simp add: step_running_def)
  qed
qed

end

end
