(* ===== verification/Step_Theorems.thy ===== *)
theory Step_Theorems
  imports Step_System_Props
begin

text \<open>
  The reverse tree has the shape that the protocol needs, and what follows for the end of a
  job step: the controller and the daemons agree.
\<close>

lemma flat_tree:
  assumes "0 \<le> r" "r < n" "n < 7"
  shows "reverse_tree_info r n REVERSE_TREE_WIDTH = Some \<lparr>ti_parent = - 1, ti_children = 0, ti_depth = 0, ti_max_depth = 0\<rparr>"
  using assms by (simp add: reverse_tree_info_def REVERSE_TREE_WIDTH_def)

lemma step_tree_fits: "7 \<le> n \<Longrightarrow> n \<le> 2 ^ 24 \<Longrightarrow> tree_fits n REVERSE_TREE_WIDTH"
  by (simp add: tree_fits_def REVERSE_TREE_WIDTH_def)

lemma step_tree_info:
  assumes "n \<le> 2 ^ 24" "0 \<le> r" "r < n"
  defines "i \<equiv> tree_of n REVERSE_TREE_WIDTH r"
  shows "reverse_tree_info r n REVERSE_TREE_WIDTH = Some i" "0 \<le> ti_children i" "r + ti_children i < n"
    "ti_parent i = - 1 \<or> 0 \<le> ti_parent i \<and> ti_parent i < r"
proof -
  have "reverse_tree_info r n REVERSE_TREE_WIDTH = Some i \<and> 0 \<le> ti_children i \<and> r + ti_children i < n
    \<and> (ti_parent i = - 1 \<or> 0 \<le> ti_parent i \<and> ti_parent i < r)"
  proof (cases "n < 7")
    case True
    then show ?thesis using assms flat_tree [of r n] by (simp add: tree_of_def)
  next
    case False
    then show ?thesis using tree_nodes(1) [OF step_tree_fits assms(2,3)] assms(1) unfolding i_def by (auto split: if_splits)
  qed
  then show "reverse_tree_info r n REVERSE_TREE_WIDTH = Some i" "0 \<le> ti_children i" "r + ti_children i < n"
    "ti_parent i = - 1 \<or> 0 \<le> ti_parent i \<and> ti_parent i < r" by blast+
qed

abbreviation step_parent :: "int \<Rightarrow> int \<Rightarrow> int" where
  "step_parent n r \<equiv> ti_parent (tree_of n REVERSE_TREE_WIDTH r)"

abbreviation step_children :: "int \<Rightarrow> int \<Rightarrow> int" where
  "step_children n r \<equiv> ti_children (tree_of n REVERSE_TREE_WIDTH r)"

interpretation step_tree: completion_tree "\<lambda>n. 0 < n \<and> n \<le> 2 ^ 24" step_parent step_children
proof
  fix n r :: int assume n: "0 < n \<and> n \<le> 2 ^ 24"
  then show "0 < n \<and> n \<le> 2 ^ 24" .
  assume r: "0 \<le> r" "r < n"
  note I = step_tree_info [OF conjunct2 [OF n] r]
  show "step_parent n r = - 1 \<or> 0 \<le> step_parent n r \<and> step_parent n r < r" by (rule I)
  show "0 \<le> step_children n r \<and> r + step_children n r < n" using I by simp
  assume p: "step_parent n r \<noteq> - 1"
  have fits: "tree_fits n REVERSE_TREE_WIDTH"
  proof (rule step_tree_fits)
    show "7 \<le> n"
    proof (rule ccontr)
      assume "\<not> 7 \<le> n"
      then show False using p r flat_tree [of r n] by (simp add: tree_of_def)
    qed
  qed (use n in simp)
  have "r \<noteq> 0" using p tree_nodes(1) [OF fits r] by auto
  then show "r + step_children n r \<le> step_parent n r + step_children n (step_parent n r)" by (rule tree_nodes(3) [OF fits r])
next
  fix n r r' :: int assume n: "0 < n \<and> n \<le> 2 ^ 24" and r: "0 \<le> r" "r < r'" "r' < n" and p: "step_parent n r \<noteq> - 1" "step_parent n r' = step_parent n r"
  have rn: "r < n" using r by simp
  have fits: "tree_fits n REVERSE_TREE_WIDTH"
  proof (rule step_tree_fits)
    show "7 \<le> n"
    proof (rule ccontr)
      assume "\<not> 7 \<le> n"
      then show False using p r rn flat_tree [of r n] by (simp add: tree_of_def)
    qed
  qed (use n in simp)
  have "r \<noteq> 0" using p(1) tree_nodes(1) [OF fits r(1) rn] by auto
  then have "0 < r" using r(1) by simp
  then show "r + step_children n r < r'" using tree_nodes(4) [OF fits r(1) rn] r(2,3) p(2) by simp
qed

subsection \<open>From the start of a step\<close>

text \<open>A job of which a step has just started on \<open>n\<close> nodes.\<close>

definition fresh_job :: "int \<Rightarrow> comp_job option \<Rightarrow> bool" where
  "fresh_job n job \<longleftrightarrow>
     (case job of None \<Rightarrow> False
      | Some j \<Rightarrow> \<not> cj_pending j \<and> (case cj_step j of None \<Rightarrow> False
          | Some st \<Rightarrow> \<not> sr_batch_script st \<and> \<not> sr_pending_step st \<and> sr_exit_node_bitmap st = None
              \<and> int (bit_set_count (sr_node_bitmap st)) = n))"

lemma fresh_job_running:
  assumes "fresh_job n job" "0 < n"
  shows "job_running n job" "\<not> ctl_done job q"
proof -
  obtain j st where j: "job = Some j" "\<not> cj_pending j" "cj_step j = Some st" "\<not> sr_batch_script st" "\<not> sr_pending_step st"
    "sr_exit_node_bitmap st = None" "int (bit_set_count (sr_node_bitmap st)) = n"
    using assms(1) by (auto simp: fresh_job_def split: option.splits)
  have "0 \<in> {..<nat n}" using assms(2) by simp
  then have "{..<nat n} \<noteq> {}" by blast
  then show "job_running n job" "\<not> ctl_done job q"
    using j by (auto simp: job_running_def step_running_def ended_nodes_def ctl_done_eq)
qed

lemma init_inv:
  assumes "0 < n" "n \<le> 2 ^ 24" "fresh_job n job"
  shows "sys_inv n (step_parent n) (step_children n) (step_sys_init ids n job)"
proof -
  let ?S = "s_stepds (step_sys_init ids n job)"
  have sd: "sd_sc (?S r) = step_complete_init ids r (the (reverse_tree_info r n REVERSE_TREE_WIDTH))"
    "\<not> sd_ended (?S r)" "sd_todo (?S r) = []" for r by (simp_all add: step_sys_init_def)
  have bits: "stepd_wf (step_parent n r) (step_children n r) r (?S r) \<and> (\<forall>q. \<not> noted ?S r q)" if r: "0 \<le> r" "r < n" for r
  proof -
    note I = step_tree_info [OF assms(2) r]
    define c where "c = step_children n r"
    have c: "0 \<le> c" "c \<le> 2 ^ 24" using I r assms(2) by (auto simp: c_def)
    have vs: "valid_size (nat c)" if "c \<noteq> 0" using c that by (simp add: valid_size_def)
    have "sd_sc (?S r) = step_complete_init ids r (tree_of n REVERSE_TREE_WIDTH r)" using sd(1) I(1) by simp
    then have b: "sc_rank (sd_sc (?S r)) = r" "sc_parent_rank (sd_sc (?S r)) = step_parent n r" "sc_children (sd_sc (?S r)) = c"
      "sc_wait_children (sd_sc (?S r))" "sc_bits (sd_sc (?S r)) = (if c \<noteq> 0 then Some (bit_alloc (nat c)) else None)"
      by (simp_all add: step_complete_init_def c_def)
    have "int (bs_bits (bit_alloc (nat c))) = c" using c by (simp add: bit_alloc_def)
    then have "stepd_wf (step_parent n r) c r (?S r)" using b sd vs c by (simp add: stepd_wf_def wf_bit_alloc)
    moreover have "\<not> noted ?S r q" for q using b(5) vs by (simp add: noted_def bset_alloc)
    ultimately show ?thesis by (simp add: c_def)
  qed
  have "daemons_inv n (step_parent n) (step_children n) ?S" unfolding daemons_inv_def using bits sd(2) by blast
  moreover have "sent_inv n (step_parent n) (ctl_done job) ?S"
    unfolding sent_inv_def using sd(2) fresh_job_running(2) [OF assms(3,1)] by blast
  ultimately show ?thesis using fresh_job_running(1) [OF assms(3,1)] by (simp add: sys_inv_def step_sys_init_def)
qed

text \<open>C21: Whatever messages and answers are lost and whichever waits time out (as long as no daemon
  is aborted), the controller notes the end of a node only when the daemon of the node has ended, and
  when all daemons have sent their messages the step is complete: every node was noted and the
  step is gone.\<close>

theorem step_end_agreed:
  assumes "0 < n" "n \<le> 2 ^ 24" "fresh_job n job" "list_all no_abort es"
    and "step_sys_run es (step_sys_init ids n job) = Some s"
  shows "(\<forall>q. 0 \<le> q \<and> q < n \<and> ctl_done (s_ctl s) q \<longrightarrow> sd_ended (s_stepds s q))
    \<and> ((\<forall>q. 0 \<le> q \<and> q < n \<longrightarrow> sd_ended (s_stepds s q) \<and> sd_todo (s_stepds s q) = []) \<longrightarrow> step_gone (s_ctl s))"
proof -
  have n: "0 < n \<and> n \<le> 2 ^ 24" using assms by simp
  have inv: "sys_inv n (step_parent n) (step_children n) s"
    by (rule step_tree.run_keeps [OF n init_inv [OF assms(1-3)] assms(4,5)])
  then show ?thesis using step_tree.all_sent_all_done [OF n inv] by (auto simp: sys_inv_def sent_inv_def)
qed

definition sample_comp_job :: "nat \<Rightarrow> comp_job option" where
  "sample_comp_job n = Some \<lparr>cj_pending = False, cj_user_id = 100, cj_step = Some
     \<lparr>sr_batch_script = False, sr_pending_step = False, sr_cpu_count = 2, sr_jobacct = None,
      sr_node_bitmap = bit_nset (bit_alloc 10) 1 n, sr_exit_node_bitmap = None, sr_exit_code = 0,
      sr_no_sig_fail = False, sr_switch_job = False\<rparr>\<rparr>"

definition sample_acct :: jobacct where
  "sample_acct = jobacctinfo_create (Some []) 0 None"

definition sample_step_events :: "step_event list" where
  "sample_step_events = [Wait_End 0 False [] False sample_acct, To_Ctl 0 True, Wait_End 1 False [] False sample_acct, To_Ctl 1 True]"

lemma sample_step_fresh: "fresh_job 2 (sample_comp_job 2)" "fresh_job 8 (sample_comp_job 8)"
  by code_simp+

lemma sample_step_run:
  "map_option (\<lambda>s. list_all (\<lambda>q. sd_ended (s_stepds s q) \<and> sd_todo (s_stepds s q) = []) [0, 1])
     (step_sys_run sample_step_events (step_sys_init [] 2 (sample_comp_job 2))) = Some True"
  by code_simp

theorem step_end_agreed_witness:
  "\<exists>s. step_sys_run sample_step_events (step_sys_init [] 2 (sample_comp_job 2)) = Some s \<and> step_gone (s_ctl s)"
proof -
  obtain s where s: "step_sys_run sample_step_events (step_sys_init [] 2 (sample_comp_job 2)) = Some s"
    and all: "sd_ended (s_stepds s 0) \<and> sd_todo (s_stepds s 0) = []" "sd_ended (s_stepds s 1) \<and> sd_todo (s_stepds s 1) = []"
    using sample_step_run by (auto simp: map_option_eq_Some)
  have "list_all no_abort sample_step_events" by (simp add: sample_step_events_def no_abort_def)
  moreover have "sd_ended (s_stepds s q) \<and> sd_todo (s_stepds s q) = []" if "0 \<le> q \<and> q < 2" for q :: int
  proof -
    have "q = 0 \<or> q = 1" using that by arith
    then show ?thesis using all by blast
  qed
  ultimately show ?thesis using step_end_agreed [OF _ _ sample_step_fresh(1) _ s] s by simp
qed

text \<open>C22: A message that a daemon has for its parent is taken whole or refused: a parent that still
  waits answers with success and has then noted every rank of the message, a parent that has
  stopped waiting refuses it unchanged. No position outside the bit string is used, and the case of a range that was
  processed in part, which the source reports as impossible, does not occur.\<close>

theorem completion_whole_or_refused:
  assumes "0 < n" "n \<le> 2 ^ 24" "fresh_job n job" "list_all no_abort es"
    and "step_sys_run es (step_sys_init ids n job) = Some s"
    and "0 \<le> r" "r < n" "m \<in> set (sd_todo (s_stepds s r))" "step_parent n r \<noteq> - 1"
  defines "p \<equiv> step_parent n r"
  defines "answer \<equiv> handle_completion (sd_sc (s_stepds s p)) True (fst (msg_range m)) (snd (msg_range m)) (cm_step_rc m) (cm_jobacct m)"
  shows "if sd_ended (s_stepds s p) then answer = Some ((- 1, ETIMEDOUT), sd_sc (s_stepds s p))
    else \<exists>sc'. answer = Some ((0, 0), sc')
      \<and> (\<forall>q. rank_in q (msg_range m) \<longrightarrow> noted ((s_stepds s)(p := (s_stepds s p)\<lparr>sd_sc := sc'\<rparr>)) p q)"
proof -
  have n: "0 < n \<and> n \<le> 2 ^ 24" using assms by simp
  have inv: "sys_inv n (step_parent n) (step_children n) s"
    by (rule step_tree.run_keeps [OF n init_inv [OF assms(1-3)] assms(4,5)])
  then have D: "daemons_inv n (step_parent n) (step_children n) (s_stepds s)" by (simp add: sys_inv_def)
  then have wf: "stepd_wf (step_parent n r) (step_children n r) r (s_stepds s r)" using assms(6,7) by (simp add: daemons_inv_def)
  then have "sd_ended (s_stepds s r)" "msg_range m \<in> set (ranges (s_stepds s r))"
    using assms(8) by (auto simp: stepd_wf_def)
  then show ?thesis
    using step_tree.completion_taken [OF n D assms(6,7) _ assms(9), of "fst (msg_range m)" "snd (msg_range m)" "cm_step_rc m" "cm_jobacct m"]
    unfolding answer_def p_def by (auto split: if_splits)
qed

lemma sample_step_message:
  "map_option (\<lambda>s. (sd_ended (s_stepds s 0), length (sd_todo (s_stepds s 1)), step_parent 8 1))
     (step_sys_run [Wait_End 1 True [] False sample_acct] (step_sys_init [] 8 (sample_comp_job 8))) = Some (False, 1, 0)"
  by code_simp

theorem completion_whole_or_refused_witness:
  "\<exists>s m sc'. step_sys_run [Wait_End 1 True [] False sample_acct] (step_sys_init [] 8 (sample_comp_job 8)) = Some s
     \<and> m \<in> set (sd_todo (s_stepds s 1))
     \<and> handle_completion (sd_sc (s_stepds s 0)) True (fst (msg_range m)) (snd (msg_range m)) (cm_step_rc m) (cm_jobacct m) = Some ((0, 0), sc')"
proof -
  obtain s where s: "step_sys_run [Wait_End 1 True [] False sample_acct] (step_sys_init [] 8 (sample_comp_job 8)) = Some s"
    and f: "\<not> sd_ended (s_stepds s 0)" "length (sd_todo (s_stepds s 1)) = 1" "step_parent 8 1 = 0"
    using sample_step_message by (auto simp: map_option_eq_Some)
  obtain m where m: "m \<in> set (sd_todo (s_stepds s 1))" using f(2) by (cases "sd_todo (s_stepds s 1)") auto
  have "list_all no_abort [Wait_End 1 True [] False sample_acct]" by (simp add: no_abort_def)
  from completion_whole_or_refused [OF _ _ sample_step_fresh(2) this s _ _ m] f s m show ?thesis by auto
qed

text \<open>
  An aborted daemon does not wait, and does not close its bit string: a completion that arrives
  after it has sent its messages is taken, answered with success, and passed to nobody.
\<close>

lemma aborted_parent_loses_completion:
  "map_option (\<lambda>s. (list_all (\<lambda>q. sd_ended (s_stepds s q) \<and> sd_todo (s_stepds s q) = []) [0, 1], ctl_done (s_ctl s) 1))
     (step_sys_run [Abort_End 0 False sample_acct, To_Ctl 0 True, Wait_End 1 False [] False sample_acct, To_Parent 1 True True]
        (step_sys_init [] 8 (sample_comp_job 8))) = Some (True, False)"
  by code_simp

end
