(* ===== verification/Spec2Isabelle.thy ===== *)
theory Spec2Isabelle
  imports Bitstring_Props Feedback_Loop Sim_Trace Port_Mgr Pack_Props Licenses_Props Backfill_Plan Cbuf_Queue Xlist_Theorems Rate_Limit_Props Step_Theorems
begin

text \<open>
  A verification library for the scheduler code of this repository: a workload
  manager with an event driven simulator built in, and the feedback policy that
  decides when the simulator's jobs are released. Paths are relative to
  \<^verbatim>\<open>src/simulator/slurm_simulator_source_legacy_desktop\<close>; those that begin with
  \<^verbatim>\<open>policy_v2\<close> are in \<^verbatim>\<open>src/simulator/slurm_policy_experiments\<close>.

  \<^bold>\<open>The program.\<close> The simulator reads a trace of events (\<^verbatim>\<open>contribs/sim/sim_events.c\<close>),
  keeps them in a list ordered by time, and runs the controller daemon on a clock
  that jumps from one point of interest to the next
  (\<^verbatim>\<open>contribs/sim/slurmctld_controller.c\<close>). Submitted jobs are kept in a list
  (\<^verbatim>\<open>sim_jobs.c\<close>) until they complete; the feedback bridge (\<^verbatim>\<open>feedback_bridge.h\<close>, built
  in by \<^verbatim>\<open>prepare_build.py\<close>) holds submissions back until a controller process
  releases them. The daemon decides where and when jobs run: the backfill
  scheduler (\<^verbatim>\<open>src/plugins/sched/backfill/backfill.c\<close>) keeps a plan of the nodes and
  licenses that are free in the time to come, \<^verbatim>\<open>src/slurmctld/licenses.c\<close> counts the
  licenses in use, \<^verbatim>\<open>src/slurmctld/port_mgr.c\<close> reserves ports for job steps, and
  \<^verbatim>\<open>src/slurmctld/rate_limit.c\<close> limits the requests of each user. The end of a job step
  is gathered along a tree of its nodes (\<^verbatim>\<open>src/common/reverse_tree.c\<close>). Sets of
  nodes are bit strings (\<^verbatim>\<open>src/common/bitstring.c\<close>), messages are packed into
  buffers (\<^verbatim>\<open>src/common/pack.c\<close>), the input and output of tasks goes through
  circular buffers (\<^verbatim>\<open>src/common/cbuf.c\<close>), and almost every table of the daemon is a
  list with iterators (\<^verbatim>\<open>src/common/list.c\<close>).

  \<^bold>\<open>Conventions.\<close> Integers of fixed width are words where the width matters and
  mathematical integers with the bound written out otherwise; times are integers.
  \<open>None\<close> is the end of the process: a null or dangling dereference, an access outside
  an array or an allocation, \<^verbatim>\<open>fatal\<close> or \<^verbatim>\<open>exit\<close>. Loops whose end is not evident are
  \<^theory_text>\<open>partial_function (option)\<close>, so that not returning is also \<open>None\<close>, and the
  properties show that they return; nothing is bounded by fuel except \<open>walk\<close> in
  \<^theory_text>\<open>Backfill_Props\<close>, which follows at most as many links as the table has records.
  Memory allocation succeeds, the machine is little endian with 64-bit words, and
  \<^verbatim>\<open>NDEBUG\<close> is set, so \<^verbatim>\<open>xassert\<close> does nothing.

  \<^bold>\<open>Theories.\<close>
  \<^item> \<open>Prelude\<close>: machine integer types, collections of rewrite rules, facts on words,
    bits of word lists and first or last positions. \<open>C_Strings\<close>: decimal text as the
    C library prints and reads it.
  \<^item> \<open>Bitstring\<close>, \<open>Bitstring_Search\<close>, \<open>Bitstring_Ops\<close>, \<open>Bitstring_Count\<close>,
    \<open>Bitstring_Move\<close>, \<open>Bitstring_Fmt\<close>, \<open>Bitstring_Mask\<close>: the functions of
    \<^verbatim>\<open>src/common/bitstring.c\<close> on 64-bit words, each related to the set of positions
    that a bit string stands for. \<open>Bitmap\<close> is the interface that clients use, a locale
    interpreted on these functions; \<open>Bitstring_Props\<close> has the properties.
  \<^item> \<open>Linked_List\<close>: doubly linked lists in an explicit heap. \<open>Sim_Jobs\<close>: the active
    jobs (\<^verbatim>\<open>contribs/sim/sim_jobs.c\<close>). \<open>Stable_Queue\<close>: the interface of a queue ordered
    by time. \<open>Sim_Events\<close>: the event list (\<^verbatim>\<open>sim_events.c\<close>), which provides it.
  \<^item> \<open>Sim_Trace\<close>: command lines and lines of the events file (\<^verbatim>\<open>sim_events.c\<close>).
  \<^item> \<open>Sim_Handlers\<close>: submission, launch, time limit, completion and epilog
    (\<^verbatim>\<open>sim_events.c\<close>, \<^verbatim>\<open>slurmctld_agent.c\<close>, \<^verbatim>\<open>sim_sbatch.c\<close>, \<^verbatim>\<open>slurmctld_controller.c\<close>).
    \<open>Sim_Loop\<close>: the event loop, the jump of the clock, the end of the simulation.
  \<^item> \<open>Feedback_Bridge\<close>, \<open>Bridge_Props\<close>, \<open>Feedback_Loop\<close>: the bridge, what it guarantees,
    and the main loop with it built in.
  \<^item> \<open>Port_Mgr\<close>: port reservations, over the interface of \<open>Bitmap\<close>.
  \<^item> \<open>Pack\<close>, \<open>Pack_Codec\<close>, \<open>Pack_Props\<close>: message buffers; the contract of a pair of
    packing and unpacking functions is a locale, interpreted for each kind of value.
  \<^item> \<open>Licenses\<close>, \<open>Licenses_Props\<close>: the license counts with every operation on them,
    the restoration of jobs (\<^verbatim>\<open>read_config.c\<close>) and the change of a running job
    (\<^verbatim>\<open>job_mgr.c\<close>), and the license report, which rests on the message buffers.
  \<^item> \<open>Backfill\<close>, \<open>Backfill_Props\<close>, \<open>Backfill_Plan\<close>: the table of intervals of the
    backfill scheduler, over licenses and bit strings.
  \<^item> \<open>Rate_Limit\<close>, \<open>Rate_Limit_Props\<close>: the table of users with their buckets of tokens,
    as a map, and the bound on the requests that pass.
  \<^item> \<open>Reverse_Tree\<close>, \<open>Reverse_Tree_Props\<close>, \<open>Reverse_Tree_Theorems\<close>: the tree of the
    nodes of a job step (\<^verbatim>\<open>src/common/reverse_tree.c\<close>), against complete trees numbered
    in preorder.
  \<^item> \<open>Job_Acct\<close>: the usage of a step and how it is added up
    (\<^verbatim>\<open>src/interfaces/jobacct_gather.c\<close>). \<open>Step_Complete\<close>: the end of a step on a node
    (\<^verbatim>\<open>src/slurmd/slurmstepd/mgr.c\<close>, \<^verbatim>\<open>req.c\<close>, \<^verbatim>\<open>slurmstepd.c\<close>). \<open>Step_Ctl\<close>: the end of a
    step at the controller (\<^verbatim>\<open>src/slurmctld/step_mgr.c\<close>). \<open>Step_System\<close>,
    \<open>Step_System_Props\<close>, \<open>Step_Theorems\<close>: all daemons of a step and the controller as one
    system of events; what it needs of the tree is the locale \<open>completion_tree\<close>,
    interpreted on the reverse tree.
  \<^item> \<open>Cbuf\<close>, \<open>Cbuf_Props\<close>, \<open>Cbuf_Queue\<close>: the circular buffers. What bytes are moved
    from and to is the interface of the locales \<open>source\<close> and \<open>sink\<close>, interpreted on
    memory (the lemmas \<open>fd_sink\<close> and \<open>fd_source\<close> give files); \<open>byte_queue\<close> is the contract of a queue, interpreted on buffers that drop
    nothing. The bytes in a buffer are the lists \<open>replay\<close> and \<open>unread\<close>.
  \<^item> \<open>Xlist\<close>, \<open>Xlist_Props\<close>, \<open>Xlist_Machine\<close>, \<open>Xlist_Refine\<close>, \<open>Xlist_Theorems\<close>: the
    lists on nodes with addresses, the representation of a sequence with cursors, the
    operations on such sequences, their agreement, and what callers rely on. The other
    components use lists of HOL in their place.

  \<^bold>\<open>What is shown.\<close> Bit strings implement finite sets, their searches the bit by bit
  search, their notations read back. The two linked lists refine a sorted queue and
  a list of jobs, with what the operations return; a look-up of a job that is not
  listed ends the process unless the controller's record has a name of the expected
  form. The handlers keep the lists well formed and never follow a bad
  pointer. A turn of the loop never sets the clock beyond a pending event or a
  deadline of an agent, though the clock also runs on by itself; the loop over due
  events catches up with a clock that advances up to a bound, while no submission,
  completion or epilog is pending; and the simulation ends only when nothing is left
  to do. The bridge
  releases each job at most once, by name or by its fallback, and a dead controller
  holds nothing back. Ports are never given out twice. The count in use of a license is
  what the jobs hold, and does not exceed the total, but for the operations that
  break this: a license that the database brings back while jobs hold it, a job that
  is completing during a reconfiguration, a total put below the use, a change by an
  operator, and sums that do not fit into 32 bits. A reservation
  enters the backfill plan exactly in its interval, and a job that is tested for
  overlaps takes no node that an earlier planned job has taken, up to its rounded end; a
  job shorter than the resolution, or one that is not tested, may. Messages and reports are read as they were
  written, and reading any bytes stays inside the buffer but for the cases shown.
  The operations on circular buffers keep them valid and do on the two lists of bytes
  what they are meant to, through growth and wrapping. Lists behave as sequences, and
  iterators survive every change of their list. Users share the rate limit's table
  without disturbing each other; a user passes no more than a bucket and its refill,
  plus one request for periods of more than a second and a bucket for each step back
  of the clock. The places that the nodes of
  a step compute by themselves are those of one tree; the daemons on these nodes and the
  controller agree on the end of the step, whatever messages are lost, as long as no
  daemon is aborted.
  Where the code does not do what it means to, a lemma shows it.

  \<^bold>\<open>Parameters.\<close> The daemon's functions that the simulator calls
  (record \<open>ctl\<close>), the controller process and the operating system
  (\<open>bridge_ctl\<close>), the system calls that read and write for circular
  buffers, the loss and delay of messages between the daemons of a step, the usage that
  they measure, floating point and its text, host list text, the content of fresh
  memory, the table of trackable resources and the licenses that reservations hold back
  from a job are arguments of the definitions. The hypotheses on them are named in the
  theorems and have instances in the witnesses.

  \<^bold>\<open>Not modelled.\<close> Locks and threads of the daemon, logging, the
  release of memory; the rest of the daemon (jobs, what else it does with steps, nodes,
  partitions, reservations, federation, accounting), its plugins, the rest of the node
  daemons, the database daemon, the client commands and their libraries; the Python
  programs of the experiments except the edits of the build. Each is listed as a
  component with the reason. Of the backfill scheduler the choice of jobs and nodes and
  the limits per user are left out.
\<close>

end
